(* ===== verification/C_Prelude.thy ===== *)
theory C_Prelude
  imports Main "HOL-Library.Monad_Syntax"
begin

text \<open>
  Shared vocabulary of the development: C integers, arrays whose cells may be
  indeterminate, the outcome of \<open>malloc\<close>, and \<open>for\<close> loops.

  Every operation of the program that can go wrong in a way C does not report (a NULL or
  wild pointer is dereferenced, an array is accessed out of bounds, an indeterminate value
  is read, a signed addition overflows) or that never returns (it waits for a mutex nobody
  will release) is a value of an \<open>option\<close> type, and \<^const>\<open>None\<close> is that outcome. An
  error the code does report (NULL, -1) is an ordinary value of the result. Theorems of
  the form \<open>f x = Some y\<close> therefore say that the call returns, that it does so without
  undefined behaviour, and what it returns.
\<close>

section \<open>Integers\<close>

definition INT_MAX :: int where
  "INT_MAX = 2147483647"

definition INT_MIN :: int where
  "INT_MIN = - 2147483648"

definition in_int :: "int \<Rightarrow> bool" where
  "in_int x \<longleftrightarrow> INT_MIN \<le> x \<and> x \<le> INT_MAX"

text \<open>The implicit conversion of an \<open>int\<close> (or \<open>size_t\<close>) argument to \<open>unsigned int\<close>.\<close>

definition to_uint :: "int \<Rightarrow> nat" where
  "to_uint i = nat (i mod 4294967296)"

text \<open>Signed addition and subtraction: overflow is undefined.\<close>

definition iadd :: "int \<Rightarrow> int \<Rightarrow> int option" where
  "iadd a b = (if in_int (a + b) then Some (a + b) else None)"

definition isub :: "int \<Rightarrow> int \<Rightarrow> int option" where
  "isub a b = (if in_int (a - b) then Some (a - b) else None)"

lemma to_uint_id [simp]: "0 \<le> i \<Longrightarrow> i < 4294967296 \<Longrightarrow> to_uint i = nat i"
  by (simp add: to_uint_def)

lemma to_uint_neg: "- 2147483648 \<le> i \<Longrightarrow> i < 0 \<Longrightarrow> to_uint i = nat (i + 4294967296)"
proof -
  assume i: "- 2147483648 \<le> i" "i < 0"
  have "i mod 4294967296 = (i + 4294967296) mod 4294967296"
    by simp
  also have "\<dots> = i + 4294967296"
    using i by (intro mod_pos_pos_trivial) auto
  finally show ?thesis
    by (simp add: to_uint_def)
qed

lemma iadd_in [simp]: "in_int (a + b) \<Longrightarrow> iadd a b = Some (a + b)"
  by (simp add: iadd_def)

lemma isub_in [simp]: "in_int (a - b) \<Longrightarrow> isub a b = Some (a - b)"
  by (simp add: isub_def)

lemma iadd_SomeD: "iadd a b = Some c \<Longrightarrow> c = a + b"
  by (auto simp: iadd_def split: if_splits)

lemma isub_SomeD: "isub a b = Some c \<Longrightarrow> c = a - b"
  by (auto simp: isub_def split: if_splits)

lemma in_int_between: "0 \<le> x \<Longrightarrow> x \<le> y \<Longrightarrow> in_int y \<Longrightarrow> in_int x"
  by (simp add: in_int_def INT_MIN_def)

lemma in_int_diff: "0 \<le> y \<Longrightarrow> y \<le> x \<Longrightarrow> in_int x \<Longrightarrow> in_int (x - y)"
  by (simp add: in_int_def INT_MIN_def INT_MAX_def)

section \<open>Arrays with indeterminate cells\<close>

type_synonym 'a arr = "'a option list"

definition arr_new :: "nat \<Rightarrow> 'a arr" where
  "arr_new n = replicate n None"

definition arr_get :: "'a arr \<Rightarrow> nat \<Rightarrow> 'a option" where
  "arr_get a i = (if i < length a then a ! i else None)"

definition arr_set :: "'a arr \<Rightarrow> nat \<Rightarrow> 'a \<Rightarrow> 'a arr option" where
  "arr_set a i x = (if i < length a then Some (a[i := Some x]) else None)"

text \<open>An array of \<open>n\<close> cells whose first cells have been filled with \<open>xs\<close>.\<close>

definition arr_of :: "nat \<Rightarrow> 'a list \<Rightarrow> 'a arr" where
  "arr_of n xs = map Some xs @ replicate (n - length xs) None"

lemma arr_new_arr_of: "arr_new n = arr_of n []"
  by (simp add: arr_new_def arr_of_def)

lemma length_arr_of [simp]: "length xs \<le> n \<Longrightarrow> length (arr_of n xs) = n"
  by (simp add: arr_of_def)

lemma arr_get_arr_of [simp]: "i < length xs \<Longrightarrow> arr_get (arr_of n xs) i = Some (xs ! i)"
  by (simp add: arr_get_def arr_of_def nth_append)

lemma arr_get_arr_of_beyond: "length xs \<le> i \<Longrightarrow> arr_get (arr_of n xs) i = None"
  by (simp add: arr_get_def arr_of_def nth_append)

lemma arr_set_arr_of_old [simp]:
  "i < length xs \<Longrightarrow> arr_set (arr_of n xs) i x = Some (arr_of n (xs[i := x]))"
  by (simp add: arr_set_def arr_of_def list_update_append map_update)

lemma arr_set_arr_of_next [simp]:
  "length xs < n \<Longrightarrow> arr_set (arr_of n xs) (length xs) x = Some (arr_of n (xs @ [x]))"
proof -
  assume "length xs < n"
  then obtain k where "n - length xs = Suc k" "n - Suc (length xs) = k"
    by (metis Suc_diff_Suc)
  then show ?thesis
    using \<open>length xs < n\<close> by (simp add: arr_set_def arr_of_def list_update_append)
qed

text \<open>An \<open>int**\<close> matrix whose cells are all initialised (it comes from \<open>calloc\<close>).\<close>

definition mat_get :: "int list list \<Rightarrow> int \<Rightarrow> int \<Rightarrow> int option" where
  "mat_get m i j =
     (if 0 \<le> i \<and> nat i < length m \<and> 0 \<le> j \<and> nat j < length (m ! nat i)
      then Some (m ! nat i ! nat j) else None)"

definition mat_set :: "int list list \<Rightarrow> int \<Rightarrow> int \<Rightarrow> int \<Rightarrow> int list list option" where
  "mat_set m i j x =
     (if 0 \<le> i \<and> nat i < length m \<and> 0 \<le> j \<and> nat j < length (m ! nat i)
      then Some (m[nat i := (m ! nat i)[nat j := x]]) else None)"

definition square :: "nat \<Rightarrow> int list list \<Rightarrow> bool" where
  "square n m \<longleftrightarrow> length m = n \<and> list_all (\<lambda>r. length r = n) m"

lemma square_length: "square n m \<Longrightarrow> length m = n"
  by (simp add: square_def)

lemma square_row: "square n m \<Longrightarrow> i < n \<Longrightarrow> length (m ! i) = n"
  by (simp add: square_def list_all_length)

lemma mat_get_square [simp]:
  assumes "square n m" "i < n" "j < n"
  shows "mat_get m (int i) (int j) = Some (m ! i ! j)"
  using assms square_length [OF assms(1)] square_row [OF assms(1,2)] by (simp add: mat_get_def)

lemma mat_set_square [simp]:
  assumes "square n m" "i < n" "j < n"
  shows "mat_set m (int i) (int j) x = Some (m[i := (m ! i)[j := x]])"
  using assms square_length [OF assms(1)] square_row [OF assms(1,2)] by (simp add: mat_set_def)

lemma square_update:
  assumes "square n m" "i < n"
  shows "square n (m[i := (m ! i)[j := x]])"
  using assms square_length [OF assms(1)] square_row [OF assms(1,2)] set_update_subset_insert [of m i "(m ! i)[j := x]"]
  by (auto simp: square_def list_all_iff)

lemma nth_mat_update:
  assumes "square n m" "i < n" "j < n" "a < n" "b < n"
  shows "m[i := (m ! i)[j := x]] ! a ! b = (if a = i \<and> b = j then x else m ! a ! b)"
  using assms square_length [OF assms(1)] square_row [OF assms(1,2)] by (cases "a = i"; cases "b = j") simp_all

section \<open>Allocation\<close>

text \<open>
  The outcomes of the successive calls of \<open>malloc\<close>, \<open>calloc\<close> and \<open>realloc\<close> are a list of
  booleans that the calls consume; after its end every call succeeds. A theorem for all
  such lists covers every pattern of failures.
\<close>

type_synonym mallocs = "bool list"

fun alloc :: "mallocs \<Rightarrow> bool \<times> mallocs" where
  "alloc [] = (True, [])"
| "alloc (b # bs) = (b, bs)"

text \<open>\<open>strcpy\<close> into a buffer of \<open>n\<close> bytes, one of which is the terminator.\<close>

definition strcpy_into :: "nat \<Rightarrow> string \<Rightarrow> string option" where
  "strcpy_into n s = (if length s < n then Some s else None)"

section \<open>Loops\<close>

text \<open>
  \<open>for_loop n i body s\<close> runs \<open>body i s\<close>, \<open>body (i + 1) s'\<close>, \dots, for \<open>n\<close> values of the
  index. The body either goes on with a new state or leaves the loop (a \<open>break\<close> or a
  \<open>return\<close>) with a result.
\<close>

datatype ('r, 's) flow = Exit 'r | Next 's

fun for_loop :: "nat \<Rightarrow> nat \<Rightarrow> (nat \<Rightarrow> 's \<Rightarrow> ('r, 's) flow option) \<Rightarrow> 's \<Rightarrow> ('r, 's) flow option"
where
  "for_loop 0 i body s = Some (Next s)"
| "for_loop (Suc n) i body s =
     (case body i s of
        None \<Rightarrow> None
      | Some (Exit r) \<Rightarrow> Some (Exit r)
      | Some (Next s') \<Rightarrow> for_loop n (Suc i) body s')"

text \<open>The same loop over the elements of a list; the index counts along.\<close>

fun list_loop :: "nat \<Rightarrow> (nat \<Rightarrow> 'a \<Rightarrow> 's \<Rightarrow> ('r, 's) flow option) \<Rightarrow> 'a list \<Rightarrow> 's \<Rightarrow>
  ('r, 's) flow option" where
  "list_loop i body [] s = Some (Next s)"
| "list_loop i body (x # xs) s =
     (case body i x s of
        None \<Rightarrow> None
      | Some (Exit r) \<Rightarrow> Some (Exit r)
      | Some (Next s') \<Rightarrow> list_loop (Suc i) body xs s')"

text \<open>What follows a loop: an exit ends the function, otherwise it goes on from the state.\<close>

definition after_loop :: "('r, 's) flow option \<Rightarrow> ('s \<Rightarrow> 'r option) \<Rightarrow> 'r option" where
  "after_loop m k =
     (case m of None \<Rightarrow> None | Some (Exit r) \<Rightarrow> Some r | Some (Next s) \<Rightarrow> k s)"

lemma after_loop_simps [simp]:
  "after_loop None k = None"
  "after_loop (Some (Exit r)) k = Some r"
  "after_loop (Some (Next s)) k = k s"
  by (simp_all add: after_loop_def)

lemma for_loop_list_loop:
  assumes "\<And>j. j < length xs \<Longrightarrow> f (i + j) = g (i + j) (xs ! j)"
  shows "for_loop (length xs) i f s = list_loop i g xs s"
  using assms
proof (induction xs arbitrary: i s)
  case Nil
  then show ?case by simp
next
  case (Cons x xs)
  have hd: "f i = g i x"
    using Cons.prems [of 0] by simp
  have tl: "for_loop (length xs) (Suc i) f s' = list_loop (Suc i) g xs s'" for s'
    by (rule Cons.IH) (use Cons.prems [of "Suc j" for j] in auto)
  show ?case
    by (simp add: hd tl split: option.split flow.split)
qed

lemma for_loop_split:
  "for_loop (n + k) i f s =
     (case for_loop n i f s of
        None \<Rightarrow> None
      | Some (Exit r) \<Rightarrow> Some (Exit r)
      | Some (Next s') \<Rightarrow> for_loop k (i + n) f s')"
  by (induction n arbitrary: i s) (auto split: option.split flow.split)

lemma for_loop_cong:
  assumes "\<And>j s. i \<le> j \<Longrightarrow> j < i + n \<Longrightarrow> f j s = g j s"
  shows "for_loop n i f s = for_loop n i g s"
  using assms
proof (induction n arbitrary: i s)
  case (Suc n)
  have "for_loop n (Suc i) f s' = for_loop n (Suc i) g s'" for s'
    by (rule Suc.IH) (use Suc.prems in auto)
  then show ?case
    using Suc.prems [of i] by (simp split: option.split flow.split)
qed simp

text \<open>
  The rule for a loop that runs to its end: an invariant that relates the index to the
  state, kept by every iteration.
\<close>

lemma for_loop_invariant:
  assumes "I i s"
    and "\<And>j s. i \<le> j \<Longrightarrow> j < i + n \<Longrightarrow> I j s \<Longrightarrow> \<exists>s'. body j s = Some (Next s') \<and> I (Suc j) s'"
  shows "\<exists>s'. for_loop n i body s = Some (Next s') \<and> I (i + n) s'"
  using assms
proof (induction n arbitrary: i s)
  case (Suc n)
  obtain s1 where s1: "body i s = Some (Next s1)" "I (Suc i) s1"
    using Suc.prems by force
  have "\<exists>s'. for_loop n (Suc i) body s1 = Some (Next s') \<and> I (Suc i + n) s'"
    by (rule Suc.IH [OF s1(2)]) (use Suc.prems(2) in auto)
  then show ?case
    using s1 by simp
qed simp

text \<open>What every iteration that returns keeps, the loop keeps.\<close>

lemma for_loop_preserves:
  assumes "for_loop n i body s = Some r" "P s"
    and "\<And>j s r. P s \<Longrightarrow> body j s = Some r \<Longrightarrow> (case r of Exit x \<Rightarrow> Q x | Next s' \<Rightarrow> P s')"
  shows "case r of Exit x \<Rightarrow> Q x | Next s' \<Rightarrow> P s'"
  using assms(1,2)
proof (induction n arbitrary: i s)
  case (Suc n)
  obtain f where f: "body i s = Some f"
    using Suc.prems(1) by (cases "body i s") auto
  then show ?case
    using Suc.prems Suc.IH assms(3) [OF Suc.prems(2) f] by (auto split: flow.splits)
qed auto

text \<open>A loop whose body never leaves it: it is undefined, or runs to its end.\<close>

lemma for_loop_no_exit:
  assumes "I i s"
    and "\<And>j s. i \<le> j \<Longrightarrow> j < i + n \<Longrightarrow> I j s \<Longrightarrow> body j s = None \<or> (\<exists>s'. body j s = Some (Next s') \<and> I (Suc j) s')"
  shows "for_loop n i body s = None \<or> (\<exists>s'. for_loop n i body s = Some (Next s') \<and> I (i + n) s')"
  using assms
proof (induction n arbitrary: i s)
  case (Suc n)
  have "body i s = None \<or> (\<exists>s'. body i s = Some (Next s') \<and> I (Suc i) s')"
    using Suc.prems by simp
  then show ?case
  proof (elim disjE exE conjE)
    fix s1
    assume s1: "body i s = Some (Next s1)" "I (Suc i) s1"
    have "for_loop n (Suc i) body s1 = None \<or> (\<exists>s'. for_loop n (Suc i) body s1 = Some (Next s') \<and> I (Suc i + n) s')"
      by (rule Suc.IH [OF s1(2)]) (use Suc.prems(2) in auto)
    with s1 show ?thesis
      by simp
  qed simp
qed simp

lemma for_loop_fault:
  assumes "i \<le> j" "j < i + n" "\<And>s. body j s = None"
    and "\<And>k s. body k s = None \<or> (\<exists>s'. body k s = Some (Next s'))"
  shows "for_loop n i body s = None"
  using assms(1,2)
proof (induction n arbitrary: i s)
  case (Suc n)
  show ?case
  proof (cases "i = j")
    case False
    then show ?thesis
      using Suc assms(4) [of i s] by auto
  qed (simp add: assms(3))
qed simp

text \<open>A loop that only updates an accumulator, without faults, is a fold.\<close>

lemma list_loop_fold:
  assumes "\<And>i x s. x \<in> set xs \<Longrightarrow> body i x s = Some (Next (f x s))"
  shows "list_loop i body xs s = Some (Next (fold f xs s))"
  using assms by (induction xs arbitrary: i s) auto

text \<open>A search: the first element that satisfies \<open>P\<close> ends the loop.\<close>

lemma list_loop_find:
  assumes "\<And>i x. x \<in> set xs \<Longrightarrow> body i x s = Some (if P x then Exit (r x) else Next s)"
  shows "list_loop i body xs s =
    Some (case find P xs of Some x \<Rightarrow> Exit (r x) | None \<Rightarrow> Next s)"
  using assms by (induction xs arbitrary: i) auto

text \<open>A sum of non-negative terms does not overflow when the total does not.\<close>

lemma list_loop_sum:
  assumes "\<And>i x s. x \<in> set xs \<Longrightarrow> 0 \<le> s \<Longrightarrow> in_int (s + f x) \<Longrightarrow> body i x s = Some (Next (s + f x))"
    and "\<And>x. x \<in> set xs \<Longrightarrow> 0 \<le> f x" "0 \<le> s" "in_int (s + (\<Sum>x \<leftarrow> xs. f x))"
  shows "list_loop i body xs s = Some (Next (s + (\<Sum>x \<leftarrow> xs. f x)))"
  using assms
proof (induction xs arbitrary: i s)
  case (Cons x xs)
  have nn: "0 \<le> (\<Sum>x \<leftarrow> xs. f x)"
    using Cons.prems(2) by (intro sum_list_nonneg) auto
  have "0 \<le> f x"
    using Cons.prems(2) by simp
  then have "in_int (s + f x)"
    using in_int_between [of "s + f x" "s + (f x + (\<Sum>x \<leftarrow> xs. f x))"] Cons.prems(3,4) nn by simp
  then have "body i x s = Some (Next (s + f x))"
    using Cons.prems(1,3) by simp
  moreover have "list_loop (Suc i) body xs (s + f x) = Some (Next (s + f x + (\<Sum>x \<leftarrow> xs. f x)))"
    by (rule Cons.IH) (use Cons.prems \<open>0 \<le> f x\<close> in \<open>auto simp: add.assoc\<close>)
  ultimately show ?case
    by (simp add: add.assoc)
qed simp

section \<open>Lists\<close>

lemma find_Some_in: "find P xs = Some x \<Longrightarrow> x \<in> set xs \<and> P x"
  by (induction xs) (auto split: if_splits)

lemma map_eq_nth:
  assumes "map f xs = map f ys" "k < length ys"
  shows "f (xs ! k) = f (ys ! k)"
proof -
  have "k < length xs"
    using assms map_eq_imp_length_eq by fastforce
  with arg_cong [OF assms(1), of "\<lambda>zs. zs ! k"] assms(2) show ?thesis
    by simp
qed

lemma find_None_all: "find P xs = None \<longleftrightarrow> (\<forall>x \<in> set xs. \<not> P x)"
  by (induction xs) auto

text \<open>Updating a list of good elements with a good element.\<close>

lemma list_all_update: "list_all P xs \<Longrightarrow> P x \<Longrightarrow> list_all P (xs[i := x])"
  by (auto simp: list_all_iff dest: set_update_subset_insert [THEN subsetD])

lemma list_all_at: "list_all P xs \<Longrightarrow> i < length xs \<Longrightarrow> P (xs ! i)"
  by (simp add: list_all_length)

end
