(* ===== verification/Store_Interface.thy ===== *)
theory Store_Interface
  imports C_Prelude
begin

text \<open>
  The interface the program's components use a vector through: a count, access by index,
  writing through the pointer of a cell, and appending. The laws speak of the list of the
  contents; the lemmas below turn the index loops of the clients into list functions, once
  for every client.
\<close>

locale indexed_store =
  fixes count :: "'v \<Rightarrow> nat"
    and get :: "'v \<Rightarrow> int \<Rightarrow> 'a option"
    and put :: "'v \<Rightarrow> nat \<Rightarrow> 'a \<Rightarrow> 'v"
    and contents :: "'v \<Rightarrow> 'a list"
    and wf_store :: "'v \<Rightarrow> bool"
  assumes count_contents: "wf_store v \<Longrightarrow> count v = length (contents v)"
    and get_contents: "wf_store v \<Longrightarrow> i < length (contents v) \<Longrightarrow> get v (int i) = Some (contents v ! i)"
    and put_wf: "wf_store v \<Longrightarrow> i < length (contents v) \<Longrightarrow> wf_store (put v i x)"
    and put_contents: "wf_store v \<Longrightarrow> i < length (contents v) \<Longrightarrow> contents (put v i x) = (contents v)[i := x]"
begin

text \<open>A loop over all indexes that reads each element is the loop over the contents.\<close>

lemma scan:
  assumes "wf_store v"
  shows "for_loop (count v) 0 (\<lambda>i s. get v (int i) \<bind> (\<lambda>x. body i x s)) s =
    list_loop 0 body (contents v) s"
  using assms by (subst count_contents) (auto intro: for_loop_list_loop simp: get_contents)

lemma scan_find:
  assumes "wf_store v"
    and "\<And>i x. x \<in> set (contents v) \<Longrightarrow> body i x s = Some (if P x then Exit (r x) else Next s)"
  shows "for_loop (count v) 0 (\<lambda>i s. get v (int i) \<bind> (\<lambda>x. body i x s)) s =
    Some (case find P (contents v) of Some x \<Rightarrow> Exit (r x) | None \<Rightarrow> Next s)"
  using assms by (simp add: scan list_loop_find)

lemma scan_fold:
  assumes "wf_store v"
    and "\<And>i x s. x \<in> set (contents v) \<Longrightarrow> body i x s = Some (Next (f x s))"
  shows "for_loop (count v) 0 (\<lambda>i s. get v (int i) \<bind> (\<lambda>x. body i x s)) s =
    Some (Next (fold f (contents v) s))"
  using assms by (simp add: scan list_loop_fold)

end

locale growable_store = indexed_store +
  fixes add :: "mallocs \<Rightarrow> 'v \<Rightarrow> 'a \<Rightarrow> (int \<times> 'v \<times> mallocs) option"
    and limit :: nat
  assumes add_returns: "wf_store v \<Longrightarrow> \<exists>r v' al'. add al v x = Some (r, v', al')"
    and add_ok: "wf_store v \<Longrightarrow> length (contents v) < limit \<Longrightarrow> add al v x = Some (r, v', al') \<Longrightarrow> r \<noteq> - 1 \<Longrightarrow>
      wf_store v' \<and> contents v' = contents v @ [x] \<and> r = int (length (contents v))"
    and add_no_failure: "wf_store v \<Longrightarrow> length (contents v) < limit \<Longrightarrow> add [] v x = Some (r, v', al') \<Longrightarrow> r \<noteq> - 1 \<and> al' = []"
begin

text \<open>Without an allocation failure, appending is total and appends.\<close>

lemma add_appends:
  assumes "wf_store v" "length (contents v) < limit"
  shows "\<exists>v'. add [] v x = Some (int (length (contents v)), v', []) \<and> wf_store v' \<and>
    contents v' = contents v @ [x]"
proof -
  obtain r v' al' where a: "add [] v x = Some (r, v', al')"
    using add_returns [OF assms(1), of "[]" x] by blast
  with add_no_failure [OF assms a] add_ok [OF assms a] show ?thesis
    by auto
qed

text \<open>
  A loop that appends the image of each element of a list, the way the program fills a
  vector.
\<close>

lemma fill:
  assumes "wf_store v" "length (contents v) + length xs \<le> limit"
    and "\<And>i x w. x \<in> set xs \<Longrightarrow> wf_store w \<Longrightarrow>
      body i x w = do { (r, w', al') \<leftarrow> add [] w (f x); Some (Next w') }"
  shows "\<exists>v'. list_loop i body xs v = Some (Next v') \<and> wf_store v' \<and> contents v' = contents v @ map f xs"
  using assms
proof (induction xs arbitrary: i v)
  case (Cons x xs)
  obtain w where w: "add [] v (f x) = Some (int (length (contents v)), w, [])"
    "wf_store w" "contents w = contents v @ [f x]"
    using add_appends [of v "f x"] Cons.prems(1,2) by auto
  have "\<exists>v'. list_loop (Suc i) body xs w = Some (Next v') \<and> wf_store v' \<and>
      contents v' = contents w @ map f xs"
    by (rule Cons.IH) (use w Cons.prems in auto)
  with w Cons.prems show ?case
    by auto
qed simp

end

end
