(* ===== verification/Vector.thy ===== *)
theory Vector
  imports Store_Interface
begin

text \<open>
  \<open>utils/vector.c\<close>: the growable array of pointers with its mutex.

  A cell of the vector holds a pointer; the model keeps the object it points to in the
  cell, so writing through the pointer of cell \<open>i\<close> is \<open>vec_store v i x\<close>. The mutex is
  held only inside \<open>addToVector\<close> and \<open>getFromVector\<close>, so a call finds it locked exactly
  when an earlier call left without unlocking; such a call waits forever (\<^const>\<open>None\<close>).
\<close>

record 'a vector =
  vec_pointer :: "'a arr"   \<comment> \<open>the block; NULL is the block without cells\<close>
  vec_size :: nat
  vec_lock :: bool

definition createVector :: "mallocs \<Rightarrow> 'a vector option \<times> mallocs" where
  "createVector al =
     (let (ok, al') = alloc al
      in if ok then (Some \<lparr>vec_pointer = [], vec_size = 0, vec_lock = False\<rparr>, al')
         else (None, al'))"

text \<open>\<open>realloc\<close> keeps the cells that fit and leaves the new ones indeterminate.\<close>

definition realloc_cells :: "'a arr \<Rightarrow> nat \<Rightarrow> 'a arr" where
  "realloc_cells p n = take n p @ replicate (n - length p) None"

definition addToVector :: "mallocs \<Rightarrow> 'a vector \<Rightarrow> 'a \<Rightarrow> (int \<times> 'a vector \<times> mallocs) option" where
  "addToVector al v item =
     (if vec_lock v then None
      else
        let grow = vec_size v mod 5 = 0;
            (ok, al') = (if grow then alloc al else (True, al))
        in if \<not> ok then Some (- 1, v\<lparr>vec_pointer := [], vec_lock := True\<rparr>, al')
           else do {
             let p = (if grow then realloc_cells (vec_pointer v) (vec_size v + 5)
                      else vec_pointer v);
             p' \<leftarrow> arr_set p (vec_size v) item;
             Some (int (vec_size v + 1) - 1, v\<lparr>vec_pointer := p', vec_size := vec_size v + 1\<rparr>, al')
           })"

definition getFromVector :: "'a vector \<Rightarrow> int \<Rightarrow> ('a option \<times> 'a vector) option" where
  "getFromVector v i =
     (if vec_lock v then None
      else
        let index = to_uint i
        in if index \<ge> vec_size v then Some (None, v\<lparr>vec_lock := True\<rparr>)
           else do {
             x \<leftarrow> arr_get (vec_pointer v) index;
             Some (Some x, v)
           })"

definition getVectorSize :: "'a vector \<Rightarrow> nat" where
  "getVectorSize v = vec_size v"

text \<open>
  The callers use the pointer they get at once: \<open>getFromVector\<close> followed by a
  dereference, which a NULL makes undefined.
\<close>

definition vec_deref :: "'a vector \<Rightarrow> int \<Rightarrow> 'a option" where
  "vec_deref v i =
     (case getFromVector v i of Some (Some x, _) \<Rightarrow> Some x | _ \<Rightarrow> None)"

definition vec_store :: "'a vector \<Rightarrow> nat \<Rightarrow> 'a \<Rightarrow> 'a vector" where
  "vec_store v i x = v\<lparr>vec_pointer := (vec_pointer v)[i := Some x]\<rparr>"

section \<open>Well-formed vectors and the list they hold\<close>

definition vec_cap :: "nat \<Rightarrow> nat" where
  "vec_cap n = 5 * ((n + 4) div 5)"

definition vec_of :: "'a list \<Rightarrow> 'a vector" where
  "vec_of xs =
     \<lparr>vec_pointer = arr_of (vec_cap (length xs)) xs, vec_size = length xs, vec_lock = False\<rparr>"

definition vlist :: "'a vector \<Rightarrow> 'a list" where
  "vlist v = map the (take (vec_size v) (vec_pointer v))"

definition vec_inv :: "'a vector \<Rightarrow> bool" where
  "vec_inv v \<longleftrightarrow> v = vec_of (vlist v) \<and> vec_size v < 2147483648"

lemma vec_cap_ge [simp]: "n \<le> vec_cap n"
  unfolding vec_cap_def by presburger

lemma vec_cap_Suc:
  "vec_cap (Suc n) = (if n mod 5 = 0 then n + 5 else vec_cap n)"
  "n mod 5 = 0 \<Longrightarrow> vec_cap n = n"
  unfolding vec_cap_def by presburger+

lemma vec_cap_room: "n mod 5 \<noteq> 0 \<Longrightarrow> n < vec_cap n"
  unfolding vec_cap_def by presburger

lemma vlist_vec_of [simp]: "vlist (vec_of xs) = xs"
  by (simp add: vlist_def vec_of_def arr_of_def comp_def)

lemma vec_size_vec_of [simp]: "vec_size (vec_of xs) = length xs"
  by (simp add: vec_of_def)

lemma getVectorSize_vec_of [simp]: "getVectorSize (vec_of xs) = length xs"
  by (simp add: getVectorSize_def)

lemma vec_lock_vec_of [simp]: "vec_lock (vec_of xs) = False"
  by (simp add: vec_of_def)

lemma vec_inv_vec_of [simp]: "vec_inv (vec_of xs) \<longleftrightarrow> length xs < 2147483648"
  by (simp add: vec_inv_def)

lemma vec_invE:
  assumes "vec_inv v"
  obtains xs where "v = vec_of xs" "vlist v = xs" "length xs < 2147483648"
  using assms by (metis vec_inv_def vec_size_vec_of)

lemma vec_inv_length: "vec_inv v \<Longrightarrow> length (vlist v) < 2147483648"
  by (auto elim: vec_invE)

lemma getFromVector_in [simp]:
  "i < length xs \<Longrightarrow> length xs < 2147483648 \<Longrightarrow>
   getFromVector (vec_of xs) (int i) = Some (Some (xs ! i), vec_of xs)"
  by (simp add: getFromVector_def vec_of_def)

lemma vec_deref_in [simp]:
  "i < length xs \<Longrightarrow> length xs < 2147483648 \<Longrightarrow> vec_deref (vec_of xs) (int i) = Some (xs ! i)"
  by (simp add: vec_deref_def)

lemma vec_deref_to_uint:
  assumes "vec_deref (vec_of xs) i = Some x"
  shows "to_uint i < length xs \<and> x = xs ! to_uint i"
proof -
  have lt: "to_uint i < length xs"
    using assms by (auto simp: vec_deref_def getFromVector_def Let_def split: if_splits)
  then have "vec_deref (vec_of xs) i = Some (xs ! to_uint i)"
    by (simp add: vec_deref_def getFromVector_def vec_of_def)
  with lt assms show ?thesis
    by simp
qed

lemma vec_deref_SomeD:
  assumes "vec_deref (vec_of xs) i = Some x" "in_int i" "length xs < 2147483648"
  shows "0 \<le> i \<and> nat i < length xs \<and> x = xs ! nat i"
proof -
  have lt: "to_uint i < length xs"
    using assms(1) by (auto simp: vec_deref_def getFromVector_def Let_def split: if_splits)
  have nn: "0 \<le> i"
  proof (rule ccontr)
    assume "\<not> 0 \<le> i"
    then have "to_uint i = nat (i + 4294967296)"
      using assms(2) by (intro to_uint_neg) (auto simp: in_int_def INT_MIN_def)
    with lt assms(2,3) show False
      by (auto simp: in_int_def INT_MIN_def nat_less_iff)
  qed
  then have "nat i < length xs"
    using lt assms(2) by (simp add: in_int_def INT_MAX_def)
  then show ?thesis
    using nn assms(1,3) vec_deref_in [of "nat i" xs] by simp
qed

lemma vec_store_vec_of [simp]:
  "i < length xs \<Longrightarrow> vec_store (vec_of xs) i x = vec_of (xs[i := x])"
  by (simp add: vec_store_def vec_of_def arr_of_def list_update_append map_update)

lemma realloc_cells_full: "realloc_cells (arr_of (length xs) xs) (length xs + k) = arr_of (length xs + k) xs"
  by (simp add: realloc_cells_def arr_of_def)

lemma addToVector_vec_of:
  "addToVector al (vec_of xs) x =
     (let (ok, al') = (if length xs mod 5 = 0 then alloc al else (True, al))
      in if ok then Some (int (length xs), vec_of (xs @ [x]), al')
         else Some (- 1, (vec_of xs)\<lparr>vec_pointer := [], vec_lock := True\<rparr>, al'))"
proof (cases "length xs mod 5 = 0")
  case True
  then have "vec_pointer (vec_of xs) = arr_of (length xs) xs"
    by (simp add: vec_of_def vec_cap_Suc(2))
  with True show ?thesis
    by (auto simp: addToVector_def realloc_cells_full Let_def vec_cap_Suc(1) vec_of_def
        split: prod.split)
next
  case False
  then show ?thesis
    using vec_cap_room [OF False]
    by (auto simp: addToVector_def Let_def vec_cap_Suc(1) vec_of_def)
qed

interpretation vec: growable_store getVectorSize vec_deref vec_store vlist vec_inv addToVector 2147483647
proof unfold_locales
  fix v :: "'a vector" and i x
  assume v: "vec_inv v"
  show "getVectorSize v = length (vlist v)"
    using v by (auto elim: vec_invE)
  show "\<exists>r v' al'. addToVector al v x = Some (r, v', al')" for al
    using v by (auto elim!: vec_invE simp: addToVector_vec_of split: prod.split)
  assume "i < length (vlist v)"
  with v show "vec_deref v (int i) = Some (vlist v ! i)" "vec_inv (vec_store v i x)"
    "vlist (vec_store v i x) = (vlist v)[i := x]"
    by (auto elim!: vec_invE)
next
  fix v v' :: "'a vector" and x r al al'
  assume v: "vec_inv v" "length (vlist v) < 2147483647"
  show "vec_inv v' \<and> vlist v' = vlist v @ [x] \<and> r = int (length (vlist v))"
    if "addToVector al v x = Some (r, v', al')" "r \<noteq> - 1"
    using v that by (auto elim!: vec_invE simp: addToVector_vec_of Let_def split: if_splits prod.splits)
  show "r \<noteq> - 1 \<and> al' = []" if "addToVector [] v x = Some (r, v', al')"
    using v that by (auto elim!: vec_invE simp: addToVector_vec_of split: if_splits)
qed

lemma createVector_ok [simp]: "createVector [] = (Some (vec_of []), [])"
  by (simp add: createVector_def vec_of_def arr_of_def vec_cap_def)

lemma createVector_cases:
  "createVector al = (if fst (alloc al) then Some (vec_of []) else None, snd (alloc al))"
  by (simp add: createVector_def vec_of_def arr_of_def vec_cap_def split: prod.split)

end
