(* ===== verification/Models.thy ===== *)
theory Models
  imports Vector
begin

text \<open>
  \<open>models/\<close>: the data of the simulation (products, stocks, cities, the map, planes and
  airlines) and the functions that look them up or create them.

  A \<open>Product*\<close>, \<open>Stock*\<close> or \<open>City*\<close> of a vector is the object in the vector's cell. A
  product never changes once \<open>getProduct\<close> has returned it, so a stock holds a copy of its
  product; the pointer can be NULL, because \<open>initStock\<close> does not check what \<open>getProduct\<close>
  returned. The \<open>free...\<close> functions are in Free\_Functions, on an explicit memory.
\<close>

section \<open>Data\<close>

definition CITY_NAME_MAX_LENGTH :: nat where
  "CITY_NAME_MAX_LENGTH = 30"

definition MAX_DESTINATIONS :: nat where
  "MAX_DESTINATIONS = 10"

definition MAX_STOCKS :: nat where
  "MAX_STOCKS = 50"

record product =
  product_id :: int
  product_name :: string

record stock =
  stock_amount :: int
  stock_product :: "product option"

record city =
  city_name :: string
  city_id :: int
  city_stock :: "stock vector"

record sim_map =
  map_cities :: "city vector"
  map_product :: "product vector"
  map_matrix :: "int list list"

record plane =
  plane_id :: int
  plane_stocks :: "stock vector"
  plane_cityId :: int
  plane_distance :: int

record airline =
  airline_id :: int
  airline_numberOfPlanes :: nat
  airline_planes :: "plane list"

section \<open>Cities\<close>

definition getCityId :: "string \<Rightarrow> city vector \<Rightarrow> int option" where
  "getCityId cityName cities =
     after_loop
       (for_loop (getVectorSize cities) 0 (\<lambda>i _. do {
          c \<leftarrow> vec_deref cities (int i);
          Some (if cityName = city_name c then Exit (city_id c) else Next ())
        }) ())
       (\<lambda>_. Some (- 1))"

definition getDistance :: "sim_map \<Rightarrow> int \<Rightarrow> int \<Rightarrow> int option" where
  "getDistance m city1 city2 = mat_get (map_matrix m) city1 city2"

section \<open>Products and stocks\<close>

definition getProductId :: "string \<Rightarrow> product vector \<Rightarrow> int option" where
  "getProductId productName products =
     after_loop
       (for_loop (getVectorSize products) 0 (\<lambda>i _. do {
          p \<leftarrow> vec_deref products (int i);
          Some (if productName = product_name p then Exit (product_id p) else Next ())
        }) ())
       (\<lambda>_. Some (- 1))"

definition getProductName :: "int \<Rightarrow> product vector \<Rightarrow> string option" where
  "getProductName i products = do {
     p \<leftarrow> vec_deref products i;
     Some (product_name p)
   }"

text \<open>
  \<open>getProduct\<close> interns a name: the two \<open>malloc\<close>s and the \<open>realloc\<close> inside \<open>addToVector\<close>
  may fail. The id of a new product is set only after it is in the vector.
\<close>

definition getProduct :: "mallocs \<Rightarrow> string \<Rightarrow> product vector \<Rightarrow>
  (product option \<times> product vector \<times> mallocs) option" where
  "getProduct al name products = do {
     i \<leftarrow> getProductId name products;
     if i \<noteq> - 1 then do {
       (p, products') \<leftarrow> getFromVector products i;
       Some (p, products', al)
     } else do {
       let (ok1, al1) = alloc al;
       if \<not> ok1 then Some (None, products, al1) else do {
         let (ok2, al2) = alloc al1;
         if \<not> ok2 then Some (None, products, al2) else do {
           (k, products', al3) \<leftarrow> addToVector al2 products \<lparr>product_id = 0, product_name = name\<rparr>;
           if k = - 1 then Some (None, products', al3)
           else do {
             let res = \<lparr>product_id = k, product_name = name\<rparr>;
             Some (Some res, vec_store products' (nat k) res, al3)
           }
         }
       }
     }
   }"

definition getProductByID :: "int \<Rightarrow> product vector \<Rightarrow> (product option \<times> product vector) option" where
  "getProductByID i products = getFromVector products i"

definition initStock :: "mallocs \<Rightarrow> string \<Rightarrow> int \<Rightarrow> product vector \<Rightarrow>
  (stock option \<times> product vector \<times> mallocs) option" where
  "initStock al name amount products = do {
     let (ok, al') = alloc al;
     if \<not> ok then Some (None, products, al')
     else do {
       (p, products', al'') \<leftarrow> getProduct al' name products;
       Some (Some \<lparr>stock_amount = amount, stock_product = p\<rparr>, products', al'')
     }
   }"

definition initStockById :: "mallocs \<Rightarrow> int \<Rightarrow> int \<Rightarrow> product vector \<Rightarrow>
  (stock option \<times> product vector \<times> mallocs) option" where
  "initStockById al productId amount products = do {
     let (ok, al') = alloc al;
     if \<not> ok then Some (None, products, al')
     else do {
       (p, products') \<leftarrow> getFromVector products productId;
       Some (Some \<lparr>stock_amount = amount, stock_product = p\<rparr>, products', al')
     }
   }"

section \<open>Well-formed data\<close>

text \<open>The product catalogue: every product sits at the index that is its id, names differ.\<close>

definition products_wf :: "product vector \<Rightarrow> bool" where
  "products_wf ps \<longleftrightarrow> vec_inv ps \<and> map product_id (vlist ps) = map int [0..<length (vlist ps)] \<and>
     distinct (map product_name (vlist ps))"

text \<open>A stock the simulation can work with: it has a product and a non-negative amount.\<close>

definition stock_wf :: "stock \<Rightarrow> bool" where
  "stock_wf s \<longleftrightarrow> stock_product s \<noteq> None \<and> 0 \<le> stock_amount s \<and> in_int (stock_amount s)"

definition stocks_wf :: "stock vector \<Rightarrow> bool" where
  "stocks_wf v \<longleftrightarrow> vec_inv v \<and> list_all stock_wf (vlist v)"

definition stock_pid :: "stock \<Rightarrow> int" where
  "stock_pid s = product_id (the (stock_product s))"

text \<open>No product occurs twice, which the report assumes of the configuration files.\<close>

definition pids_distinct :: "stock list \<Rightarrow> bool" where
  "pids_distinct ss \<longleftrightarrow> distinct (map stock_pid ss)"

lemma stocks_wf_vec [simp]: "stocks_wf v \<Longrightarrow> vec_inv v"
  by (simp add: stocks_wf_def)

lemma stock_wfE:
  assumes "stock_wf s"
  obtains p where "stock_product s = Some p" "stock_pid s = product_id p" "0 \<le> stock_amount s"
    "in_int (stock_amount s)"
  using assms by (auto simp: stock_wf_def stock_pid_def)

lemma stocks_wfE:
  assumes "stocks_wf v"
  obtains xs where "v = vec_of xs" "length xs < 2147483648" "\<And>s. s \<in> set xs \<Longrightarrow> stock_wf s"
  using assms by (auto simp: stocks_wf_def list_all_iff elim!: vec_invE)

lemma products_wf_nth:
  "products_wf ps \<Longrightarrow> i < length (vlist ps) \<Longrightarrow> product_id (vlist ps ! i) = int i"
  unfolding products_wf_def by (metis (no_types, lifting) nth_map add_0 length_upt minus_nat.diff_0 nth_upt)

lemma products_wf_in:
  assumes "products_wf ps" "p \<in> set (vlist ps)"
  shows "0 \<le> product_id p \<and> nat (product_id p) < length (vlist ps) \<and> vlist ps ! nat (product_id p) = p"
proof -
  obtain i where "i < length (vlist ps)" "p = vlist ps ! i"
    using assms(2) by (metis in_set_conv_nth)
  with products_wf_nth [OF assms(1)] show ?thesis
    by simp
qed

section \<open>Lookups\<close>

lemma getCityId_find:
  assumes "vec_inv cities"
  shows "getCityId name cities =
    Some (case find (\<lambda>c. name = city_name c) (vlist cities) of
            Some c \<Rightarrow> city_id c | None \<Rightarrow> - 1)"
  using assms unfolding getCityId_def
  by (subst vec.scan_find [where P = "\<lambda>c. name = city_name c" and r = city_id])
    (auto split: option.split)

lemma getProductId_find:
  assumes "vec_inv products"
  shows "getProductId name products =
    Some (case find (\<lambda>p. name = product_name p) (vlist products) of
            Some p \<Rightarrow> product_id p | None \<Rightarrow> - 1)"
  using assms unfolding getProductId_def
  by (subst vec.scan_find [where P = "\<lambda>p. name = product_name p" and r = product_id])
    (auto split: option.split)

lemma find_product_name:
  assumes "distinct (map product_name xs)" "p \<in> set xs"
  shows "find (\<lambda>q. product_name p = product_name q) xs = Some p"
  using assms by (induction xs) (auto simp: rev_image_eqI)

text \<open>A name that is in the catalogue is found, and nothing changes.\<close>

lemma getProduct_known:
  assumes "products_wf ps" "p \<in> set (vlist ps)"
  shows "getProduct al (product_name p) ps = Some (Some p, ps, al)"
proof -
  have inv: "vec_inv ps"
    using assms(1) by (simp add: products_wf_def)
  have "getProductId (product_name p) ps = Some (product_id p)"
    using assms by (simp add: getProductId_find inv find_product_name products_wf_def)
  moreover have "product_id p \<noteq> - 1"
    using products_wf_in [OF assms] by auto
  moreover have "getFromVector ps (product_id p) = Some (Some p, ps)"
  proof -
    obtain xs where xs: "ps = vec_of xs" "length xs < 2147483648"
      using inv by (metis vec_invE)
    have *: "0 \<le> product_id p" "nat (product_id p) < length xs" "xs ! nat (product_id p) = p"
      using products_wf_in [OF assms] by (simp_all add: xs)
    then show ?thesis
      using getFromVector_in [OF *(2) xs(2)] by (simp add: xs(1))
  qed
  ultimately show ?thesis
    by (simp add: getProduct_def)
qed

lemma products_wf_append:
  assumes "products_wf ps" "name \<notin> product_name ` set (vlist ps)" "length (vlist ps) < 2147483647"
  shows "products_wf (vec_of (vlist ps @ [\<lparr>product_id = int (length (vlist ps)), product_name = name\<rparr>]))"
  using assms by (auto simp: products_wf_def)

text \<open>A new name is appended, with the next id.\<close>

lemma getProduct_new:
  assumes "products_wf ps" "name \<notin> product_name ` set (vlist ps)"
  shows "getProduct al name ps =
     (let (ok1, al1) = alloc al; (ok2, al2) = alloc al1;
          (ok3, al3) = (if length (vlist ps) mod 5 = 0 then alloc al2 else (True, al2));
          res = \<lparr>product_id = int (length (vlist ps)), product_name = name\<rparr>
      in if \<not> ok1 then Some (None, ps, al1)
         else if \<not> ok2 then Some (None, ps, al2)
         else if \<not> ok3 then Some (None, ps\<lparr>vec_pointer := [], vec_lock := True\<rparr>, al3)
         else Some (Some res, vec_of (vlist ps @ [res]), al3))"
proof -
  obtain xs where xs: "ps = vec_of xs"
    using assms(1) by (metis products_wf_def vec_invE)
  have "find (\<lambda>p. name = product_name p) (vlist ps) = None"
    using assms(2) by (auto simp: find_None_all)
  then have "getProductId name ps = Some (- 1)"
    using assms(1) by (simp add: getProductId_find products_wf_def)
  then show ?thesis
    by (simp add: getProduct_def xs addToVector_vec_of Let_def split: prod.split)
qed

text \<open>
  The catalogue invariant survives every successful call, under every pattern of allocation
  failures.
\<close>

lemma getProduct_interns:
  assumes "products_wf ps" "length (vlist ps) < 2147483647"
    and "getProduct al name ps = Some (Some p, ps', al')"
  shows "products_wf ps' \<and> p \<in> set (vlist ps') \<and> product_name p = name \<and>
    vlist ps' = (if name \<in> product_name ` set (vlist ps) then vlist ps else vlist ps @ [p])"
proof (cases "name \<in> product_name ` set (vlist ps)")
  case True
  then obtain q where "q \<in> set (vlist ps)" "product_name q = name"
    by auto
  then show ?thesis
    using assms True getProduct_known [OF assms(1), of q al] by auto
next
  case False
  then show ?thesis
    using assms(3) products_wf_append [OF assms(1) False assms(2)]
    by (auto simp: getProduct_new [OF assms(1) False] Let_def split: if_splits prod.splits)
qed

lemma initStock_known:
  assumes "products_wf ps" "p \<in> set (vlist ps)"
  shows "initStock [] (product_name p) n ps =
    Some (Some \<lparr>stock_amount = n, stock_product = Some p\<rparr>, ps, [])"
  by (simp add: initStock_def getProduct_known [OF assms])

end
