(* ===== verification/Messages.thy ===== *)
theory Messages
  imports Complex_Main Models
begin

text \<open>
  \<open>communication/types.h\<close>, \<open>communication/msgqueue.h\<close> and \<open>marshall/\<close>: the messages the
  processes exchange and the functions that build them.

  A C struct that holds arrays keeps them at their full length, with the cells nobody has
  written indeterminate. The unions \<open>PlaneMessage\<close> (received by the map) and \<open>MapMessage\<close>
  (received by an airline) are datatypes with one constructor per struct that is ever sent;
  their first member \<open>type\<close>, which all the structs share, is a function. A \<open>float\<close> is a real
  number without rounding, and \<^const>\<open>None\<close> is NaN.
\<close>

section \<open>Messages\<close>

datatype MessageType =
    MessageTypeNone
  | MessageTypeContinue
  | MessageTypeDestinations
  | MessageTypeStep
  | MessageTypeStock
  | MessageTypeAirlineDone
  | MessageTypeUnloadStock
  | MessageTypeCheckDestinations
  | MessageTypeEnd
  | MessageTypeMapStatus
  | MessageTypeAirlineStatus
  | MessageTypeEndOutput
  | MessageTypeLast

record AirlineStatus =
  as_id :: int
  as_planesFlying :: int
  as_totalPlanes :: int

record AirlineStatusMessage =
  asm_type :: MessageType
  asm_status :: AirlineStatus

record PlaneMessageHeader =
  hdr_type :: MessageType
  hdr_airline :: int
  hdr_id :: int
  hdr_cityId :: int

record StockMessagePart =
  part_count :: nat
  part_stockId :: "int arr"
  part_quantities :: "int arr"

record CheckDestinationsMessage =
  cd_header :: PlaneMessageHeader
  cd_maxDestinations :: nat
  cd_stocks :: StockMessagePart

record StockStateMessage =
  ss_header :: PlaneMessageHeader
  ss_stocks :: StockMessagePart

record DestinationsMessage =
  dm_type :: MessageType
  dm_planeId :: int
  dm_count :: nat
  dm_destinations :: "int arr"
  dm_distance :: "int arr"

datatype PlaneMessage =
    PM_Type MessageType
  | PM_CheckDestinations CheckDestinationsMessage
  | PM_StockState StockStateMessage
  | PM_AirlineStatus AirlineStatusMessage

fun pm_type :: "PlaneMessage \<Rightarrow> MessageType" where
  "pm_type (PM_Type t) = t"
| "pm_type (PM_CheckDestinations m) = hdr_type (cd_header m)"
| "pm_type (PM_StockState m) = hdr_type (ss_header m)"
| "pm_type (PM_AirlineStatus m) = asm_type m"

datatype MapMessage =
    MM_Type MessageType
  | MM_Destinations DestinationsMessage
  | MM_Stock StockStateMessage

fun mm_type :: "MapMessage \<Rightarrow> MessageType" where
  "mm_type (MM_Type t) = t"
| "mm_type (MM_Destinations m) = dm_type m"
| "mm_type (MM_Stock m) = hdr_type (ss_header m)"

text \<open>The messages inside a process, between threads.\<close>

datatype MessagePayload =
    P_Unset
  | P_Destinations nat "int arr" "int arr"
  | P_Stock nat "int arr"
  | P_MapStatus "real option" int int
  | P_AirlineStatus AirlineStatus

record Message =
  msg_type :: MessageType
  msg_payload :: MessagePayload

section \<open>Messages of the planes\<close>

definition prepare_header :: "int \<Rightarrow> int \<Rightarrow> int \<Rightarrow> MessageType \<Rightarrow> PlaneMessageHeader" where
  "prepare_header airline plane cityId type =
     \<lparr>hdr_type = type, hdr_airline = airline, hdr_id = plane, hdr_cityId = cityId\<rparr>"

text \<open>The loop both marshalling functions end with: ids and amounts of all stocks.\<close>

definition marshall_stocks :: "stock vector \<Rightarrow> StockMessagePart option" where
  "marshall_stocks stocks =
     after_loop
       (for_loop (getVectorSize stocks) 0 (\<lambda>i (ids, quantities). do {
          s \<leftarrow> vec_deref stocks (int i);
          p \<leftarrow> stock_product s;
          ids' \<leftarrow> arr_set ids i (product_id p);
          quantities' \<leftarrow> arr_set quantities i (stock_amount s);
          Some (Next (ids', quantities'))
        }) (arr_new MAX_STOCKS, arr_new MAX_STOCKS))
       (\<lambda>(ids, quantities). Some \<lparr>part_count = getVectorSize stocks, part_stockId = ids,
          part_quantities = quantities\<rparr>)"

definition marshall_check_destinations :: "int \<Rightarrow> int \<Rightarrow> int \<Rightarrow> stock vector \<Rightarrow> nat \<Rightarrow>
  CheckDestinationsMessage option" where
  "marshall_check_destinations airline i cityId stocks len = do {
     part \<leftarrow> marshall_stocks stocks;
     Some \<lparr>cd_header = prepare_header airline i cityId MessageTypeCheckDestinations,
           cd_maxDestinations = len, cd_stocks = part\<rparr>
   }"

definition marshall_change_stock :: "int \<Rightarrow> int \<Rightarrow> int \<Rightarrow> stock vector \<Rightarrow> StockStateMessage option" where
  "marshall_change_stock airline i cityId stocks = do {
     part \<leftarrow> marshall_stocks stocks;
     Some \<lparr>ss_header = prepare_header airline i cityId MessageTypeUnloadStock, ss_stocks = part\<rparr>
   }"

section \<open>Messages of the map\<close>

definition marshall_give_destinations :: "int \<Rightarrow> nat \<Rightarrow> int arr \<Rightarrow> int arr \<Rightarrow>
  DestinationsMessage option" where
  "marshall_give_destinations planeId count citiesIds distances =
     after_loop
       (for_loop count 0 (\<lambda>i (destinations, distance). do {
          c \<leftarrow> arr_get citiesIds i;
          destinations' \<leftarrow> arr_set destinations i c;
          d \<leftarrow> arr_get distances i;
          distance' \<leftarrow> arr_set distance i d;
          Some (Next (destinations', distance'))
        }) (arr_new MAX_DESTINATIONS, arr_new MAX_DESTINATIONS))
       (\<lambda>(destinations, distance). Some \<lparr>dm_type = MessageTypeDestinations, dm_planeId = planeId,
          dm_count = count, dm_destinations = destinations, dm_distance = distance\<rparr>)"

definition marshall_send_map_status :: "real option \<Rightarrow> int \<Rightarrow> int \<Rightarrow> Message" where
  "marshall_send_map_status completionPercentage citiesSatisfied totalCities =
     \<lparr>msg_type = MessageTypeMapStatus,
      msg_payload = P_MapStatus completionPercentage citiesSatisfied totalCities\<rparr>"

definition marshall_send_airline_status :: "int \<Rightarrow> int \<Rightarrow> int \<Rightarrow> AirlineStatus" where
  "marshall_send_airline_status planesFlying totalPlanes i =
     \<lparr>as_id = i, as_planesFlying = planesFlying, as_totalPlanes = totalPlanes\<rparr>"

definition marshall_end_output :: Message where
  "marshall_end_output = \<lparr>msg_type = MessageTypeEndOutput, msg_payload = P_Unset\<rparr>"

text \<open>A message that is only its type; the payload is indeterminate.\<close>

definition phase_message :: "MessageType \<Rightarrow> Message" where
  "phase_message t = \<lparr>msg_type = t, msg_payload = P_Unset\<rparr>"

lemma phase_message_type [simp]: "msg_type (phase_message t) = t"
  by (simp add: phase_message_def)

section \<open>What the marshalling loops compute\<close>

definition part_of :: "stock list \<Rightarrow> StockMessagePart" where
  "part_of ss = \<lparr>part_count = length ss, part_stockId = arr_of MAX_STOCKS (map stock_pid ss),
     part_quantities = arr_of MAX_STOCKS (map stock_amount ss)\<rparr>"

definition marshall_body :: "stock vector \<Rightarrow> nat \<Rightarrow> int arr \<times> int arr \<Rightarrow>
  (StockMessagePart, int arr \<times> int arr) flow option" where
  "marshall_body stocks = (\<lambda>i (ids, quantities). do {
     s \<leftarrow> vec_deref stocks (int i);
     p \<leftarrow> stock_product s;
     ids' \<leftarrow> arr_set ids i (product_id p);
     quantities' \<leftarrow> arr_set quantities i (stock_amount s);
     Some (Next (ids', quantities'))
   })"

definition marshall_state :: "stock list \<Rightarrow> int arr \<times> int arr" where
  "marshall_state ss = (arr_of MAX_STOCKS (map stock_pid ss), arr_of MAX_STOCKS (map stock_amount ss))"

lemma marshall_stocks_body:
  "marshall_stocks stocks =
     after_loop (for_loop (getVectorSize stocks) 0 (marshall_body stocks) (marshall_state []))
       (\<lambda>(ids, quantities). Some \<lparr>part_count = getVectorSize stocks, part_stockId = ids,
          part_quantities = quantities\<rparr>)"
  by (simp add: marshall_stocks_def marshall_body_def marshall_state_def arr_new_arr_of)

text \<open>The loop fills one cell per stock, as long as there are cells.\<close>

lemma marshall_loop:
  assumes "stocks_wf v" "n \<le> length (vlist v)" "n \<le> MAX_STOCKS"
  shows "for_loop n 0 (marshall_body v) (marshall_state []) = Some (Next (marshall_state (take n (vlist v))))"
proof -
  obtain xs where v: "v = vec_of xs" and len: "length xs < 2147483648"
    and wf: "\<And>s. s \<in> set xs \<Longrightarrow> stock_wf s"
    using stocks_wfE [OF assms(1)] by metis
  have "\<exists>s'. for_loop n 0 (marshall_body v) (marshall_state []) = Some (Next s') \<and>
      s' = marshall_state (take (0 + n) xs)"
  proof (rule for_loop_invariant [where I = "\<lambda>j s. s = marshall_state (take j xs)"])
    fix j s
    assume j: "0 \<le> j" "j < 0 + n" and s: "s = marshall_state (take j xs)"
    have j': "j < length xs" "j < MAX_STOCKS"
      using assms j by (auto simp: v)
    obtain p where p: "stock_product (xs ! j) = Some p" "stock_pid (xs ! j) = product_id p"
      using wf j' by (metis nth_mem stock_wfE)
    have [simp]: "arr_set (arr_of MAX_STOCKS (map f (take j xs))) j x =
        Some (arr_of MAX_STOCKS (map f (take j xs) @ [x]))" for f :: "stock \<Rightarrow> int" and x
      using arr_set_arr_of_next [of "map f (take j xs)" MAX_STOCKS x] j' by (simp add: min_def)
    show "\<exists>s'. marshall_body v j s = Some (Next s') \<and> s' = marshall_state (take (Suc j) xs)"
      using j' len p by (simp add: s v marshall_body_def marshall_state_def take_Suc_conv_app_nth)
  qed simp
  then show ?thesis
    unfolding v vlist_vec_of add_0 by blast
qed

lemma marshall_stocks_part_of:
  assumes "stocks_wf v" "length (vlist v) \<le> MAX_STOCKS"
  shows "marshall_stocks v = Some (part_of (vlist v))"
  using marshall_loop [OF assms(1) le_refl assms(2)] vec.count_contents [OF stocks_wf_vec [OF assms(1)]]
  by (simp add: marshall_stocks_body part_of_def marshall_state_def)

text \<open>The fifty-first stock is written past the end of the arrays.\<close>

lemma marshall_stocks_overflow:
  assumes "stocks_wf v" "MAX_STOCKS < length (vlist v)"
  shows "marshall_stocks v = None"
proof -
  obtain k where k: "length (vlist v) = MAX_STOCKS + Suc k"
    using assms(2) less_iff_Suc_add by auto
  have full: "arr_set (arr_of MAX_STOCKS ys) MAX_STOCKS x = None"
    if "length ys = MAX_STOCKS" for ys :: "int list" and x
    using that by (simp add: arr_set_def arr_of_def)
  have "marshall_body v MAX_STOCKS (marshall_state (take MAX_STOCKS (vlist v))) = None"
    using assms(2) by (simp add: marshall_body_def marshall_state_def full split: Option.bind_split)
  then have "for_loop (MAX_STOCKS + Suc k) 0 (marshall_body v) (marshall_state []) = None"
    unfolding for_loop_split marshall_loop [OF assms(1) less_imp_le [OF assms(2)] le_refl] by simp
  then show ?thesis
    using vec.count_contents [OF stocks_wf_vec [OF assms(1)]] by (simp only: marshall_stocks_body k after_loop_simps)
qed

lemma marshall_give_destinations_ok:
  assumes "length cs = length ds" "length cs \<le> MAX_DESTINATIONS"
  shows "marshall_give_destinations planeId (length cs) (arr_of MAX_DESTINATIONS cs)
      (arr_of MAX_DESTINATIONS ds) =
    Some \<lparr>dm_type = MessageTypeDestinations, dm_planeId = planeId, dm_count = length cs,
      dm_destinations = arr_of MAX_DESTINATIONS cs, dm_distance = arr_of MAX_DESTINATIONS ds\<rparr>"
proof -
  let ?n = MAX_DESTINATIONS
  let ?body = "\<lambda>i (destinations, distance). do {
      c \<leftarrow> arr_get (arr_of ?n cs) i;
      destinations' \<leftarrow> arr_set destinations i c;
      d \<leftarrow> arr_get (arr_of ?n ds) i;
      distance' \<leftarrow> arr_set distance i d;
      Some (Next (destinations', distance'))
    }"
  let ?st = "\<lambda>j. (arr_of ?n (take j cs), arr_of ?n (take j ds))"
  have "\<exists>s'. for_loop (length cs) 0 ?body (?st 0) = Some (Next s' :: (DestinationsMessage, _) flow)
      \<and> s' = ?st (0 + length cs)"
  proof (rule for_loop_invariant [where I = "\<lambda>j s. s = ?st j"])
    fix j s
    assume j: "0 \<le> j" "j < 0 + length cs" and s: "s = ?st j"
    have [simp]: "arr_set (arr_of ?n (take j xs)) j x = Some (arr_of ?n (take j xs @ [x]))"
      if "length xs = length cs" for xs :: "int list" and x
      using arr_set_arr_of_next [of "take j xs" ?n x] assms(2) j that by (simp add: min_def)
    show "\<exists>s'. ?body j s = Some (Next s') \<and> s' = ?st (Suc j)"
      using j assms(1) by (simp add: s take_Suc_conv_app_nth)
  qed simp
  then show ?thesis
    using assms(1) by (auto simp: marshall_give_destinations_def arr_new_arr_of)
qed

end
