(* ===== verification/Map_Stocks.thy ===== *)
theory Map_Stocks
  imports Messages
begin

text \<open>
  \<open>app/map.c\<close>, first part: what the map does with stocks. When is a city satisfied and the
  simulation over, what happens when a plane unloads, how useful is a city for a plane, and
  the totals that are displayed.

  \<open>unload\<close>, \<open>city_score\<close> and \<open>total_amount\<close> are the same computations on lists; the lemmas
  \<open>..._refines\<close> connect them with the loops of the code.
\<close>

section \<open>The code\<close>

definition CONTINUE_SIM :: int where
  "CONTINUE_SIM = 1"

definition END_SIM :: int where
  "END_SIM = 0"

definition hasNoStocks :: "stock vector \<Rightarrow> int option" where
  "hasNoStocks stocks =
     after_loop
       (for_loop (getVectorSize stocks) 0 (\<lambda>i _. do {
          s \<leftarrow> vec_deref stocks (int i);
          Some (if stock_amount s \<noteq> 0 then Exit 0 else Next ())
        }) ())
       (\<lambda>_. Some 1)"

definition cityIsSatisfied :: "city \<Rightarrow> int option" where
  "cityIsSatisfied c = hasNoStocks (city_stock c)"

definition endSimulation :: "sim_map \<Rightarrow> int \<Rightarrow> int option" where
  "endSimulation m turn =
     (if turn < 70000 then
        after_loop
          (for_loop (getVectorSize (map_cities m)) 0 (\<lambda>i _. do {
             c \<leftarrow> vec_deref (map_cities m) (int i);
             satisfied \<leftarrow> cityIsSatisfied c;
             Some (if satisfied = 0 then Exit CONTINUE_SIM else Next ())
           }) ())
          (\<lambda>_. Some END_SIM)
      else Some END_SIM)"

text \<open>
  The inner loop of \<open>updateMap\<close>: \<open>city_stock\<close> is assigned in every iteration and the loop
  breaks at the stock of the plane's product. Without a match it still points to the last
  stock; of a city without stocks it is indeterminate (the inner \<^const>\<open>None\<close>).
\<close>

definition find_city_stock :: "stock \<Rightarrow> stock vector \<Rightarrow> nat option option" where
  "find_city_stock plane_stock city_stocks =
     after_loop
       (for_loop (getVectorSize city_stocks) 0 (\<lambda>j _. do {
          c \<leftarrow> vec_deref city_stocks (int j);
          pp \<leftarrow> stock_product plane_stock;
          cp \<leftarrow> stock_product c;
          Some (if product_id pp = product_id cp then Exit (Some j) else Next (Some j))
        }) None)
       Some"

text \<open>The body of the outer loop, on the stocks of the city and of the plane.\<close>

definition discharge :: "nat \<Rightarrow> stock vector \<times> stock vector \<Rightarrow> (stock vector \<times> stock vector) option" where
  "discharge i = (\<lambda>(cs, ps). do {
     p \<leftarrow> vec_deref ps (int i);
     slot \<leftarrow> find_city_stock p cs;
     j \<leftarrow> slot;
     c \<leftarrow> vec_deref cs (int j);
     if stock_amount c \<ge> stock_amount p then do {
       rest \<leftarrow> isub (stock_amount c) (stock_amount p);
       Some (vec_store cs j (c\<lparr>stock_amount := rest\<rparr>), vec_store ps i (p\<lparr>stock_amount := 0\<rparr>))
     } else do {
       rest \<leftarrow> isub (stock_amount p) (stock_amount c);
       Some (vec_store cs j (c\<lparr>stock_amount := 0\<rparr>), vec_store ps i (p\<lparr>stock_amount := rest\<rparr>))
     }
   })"

definition updateMap :: "sim_map \<Rightarrow> plane \<Rightarrow> (sim_map \<times> plane) option" where
  "updateMap m pl = do {
     c \<leftarrow> vec_deref (map_cities m) (plane_cityId pl);
     after_loop
       (for_loop (getVectorSize (plane_stocks pl)) 0 (\<lambda>i s. do {
          s' \<leftarrow> discharge i s;
          Some (Next s')
        }) (city_stock c, plane_stocks pl))
       (\<lambda>(cs, ps). Some
          (m\<lparr>map_cities := vec_store (map_cities m) (nat (plane_cityId pl)) (c\<lparr>city_stock := cs\<rparr>)\<rparr>,
           pl\<lparr>plane_stocks := ps\<rparr>))
   }"

definition stock_overlap :: "stock \<Rightarrow> stock vector \<Rightarrow> int \<Rightarrow> int option" where
  "stock_overlap cityStock planeStocks score =
     after_loop
       (for_loop (getVectorSize planeStocks) 0 (\<lambda>j sc. do {
          planeStock \<leftarrow> vec_deref planeStocks (int j);
          cp \<leftarrow> stock_product cityStock;
          pp \<leftarrow> stock_product planeStock;
          if product_id cp = product_id pp then do {
            score' \<leftarrow> iadd sc (if stock_amount cityStock > stock_amount planeStock
                             then stock_amount planeStock else stock_amount cityStock);
            Some (Exit score')
          } else Some (Next sc)
        }) score)
       Some"

definition getCityScore :: "stock vector \<Rightarrow> stock vector \<Rightarrow> int option" where
  "getCityScore cityStocks planeStocks =
     after_loop
       (for_loop (getVectorSize cityStocks) 0 (\<lambda>i score. do {
          cityStock \<leftarrow> vec_deref cityStocks (int i);
          score' \<leftarrow> stock_overlap cityStock planeStocks score;
          Some (Next score')
        }) 0)
       Some"

definition stock_sum :: "stock vector \<Rightarrow> int option" where
  "stock_sum stocks =
     after_loop
       (for_loop (getVectorSize stocks) 0 (\<lambda>j cityStockAmount. do {
          s \<leftarrow> vec_deref stocks (int j);
          cityStockAmount' \<leftarrow> iadd cityStockAmount (stock_amount s);
          Some (Next cityStockAmount')
        }) 0)
       Some"

text \<open>\<open>get_map_status\<close>: the total and the counter behind the pointer argument.\<close>

definition get_map_status :: "sim_map \<Rightarrow> (int \<times> int) option" where
  "get_map_status m =
     after_loop
       (for_loop (getVectorSize (map_cities m)) 0 (\<lambda>i (total, citiesSatisfied). do {
          c \<leftarrow> vec_deref (map_cities m) (int i);
          cityStockAmount \<leftarrow> stock_sum (city_stock c);
          let citiesSatisfied' = (if cityStockAmount = 0 then citiesSatisfied + 1 else citiesSatisfied);
          total' \<leftarrow> iadd total cityStockAmount;
          Some (Next (total', citiesSatisfied'))
        }) (0, 0))
       Some"

definition send_map_status :: "sim_map \<Rightarrow> int \<Rightarrow> Message option" where
  "send_map_status m totalStockAmount = do {
     (currentStockAmount, citiesSatisfied) \<leftarrow> get_map_status m;
     delivered \<leftarrow> isub totalStockAmount currentStockAmount;
     let completionPercentage =
       (if totalStockAmount = 0 then None
        else Some (real_of_int delivered / real_of_int totalStockAmount * 100));
     Some (marshall_send_map_status completionPercentage citiesSatisfied
       (int (getVectorSize (map_cities m))))
   }"

section \<open>The same on lists\<close>

text \<open>The amount of a product in a list of stocks.\<close>

definition amount_of :: "stock list \<Rightarrow> int \<Rightarrow> int" where
  "amount_of ss pid = (case find (\<lambda>s. stock_pid s = pid) ss of None \<Rightarrow> 0 | Some s \<Rightarrow> stock_amount s)"

definition total_amount :: "stock list \<Rightarrow> int" where
  "total_amount ss = sum_list (map stock_amount ss)"

definition city_slot :: "int \<Rightarrow> stock list \<Rightarrow> nat" where
  "city_slot pid cs = min (length (takeWhile (\<lambda>c. stock_pid c \<noteq> pid) cs)) (length cs - 1)"

definition unload_one :: "stock list \<Rightarrow> stock \<Rightarrow> stock list \<times> stock" where
  "unload_one cs p =
     (let j = city_slot (stock_pid p) cs; d = min (stock_amount (cs ! j)) (stock_amount p)
      in (cs[j := (cs ! j)\<lparr>stock_amount := stock_amount (cs ! j) - d\<rparr>],
          p\<lparr>stock_amount := stock_amount p - d\<rparr>))"

fun unload :: "stock list \<Rightarrow> stock list \<Rightarrow> stock list \<times> stock list" where
  "unload cs [] = (cs, [])"
| "unload cs (p # ps) =
     (let (cs1, p1) = unload_one cs p; (cs2, ps2) = unload cs1 ps in (cs2, p1 # ps2))"

lemma unload_Cons [simp]:
  "unload cs (p # ps) =
     (fst (unload (fst (unload_one cs p)) ps),
      snd (unload_one cs p) # snd (unload (fst (unload_one cs p)) ps))"
  by (simp add: split_def Let_def)

declare unload.simps(2) [simp del]

definition city_score :: "stock list \<Rightarrow> stock list \<Rightarrow> int" where
  "city_score cs ps = (\<Sum>c \<leftarrow> cs. min (stock_amount c) (amount_of ps (stock_pid c)))"

definition satisfied :: "stock list \<Rightarrow> bool" where
  "satisfied ss \<longleftrightarrow> list_all (\<lambda>s. stock_amount s = 0) ss"

text \<open>
  A map whose cities hold well-formed stocks and whose total demand fits an \<open>int\<close>; the id of
  a city is its index.
\<close>

definition map_wf :: "sim_map \<Rightarrow> bool" where
  "map_wf m \<longleftrightarrow> vec_inv (map_cities m) \<and> products_wf (map_product m) \<and>
     list_all (\<lambda>c. stocks_wf (city_stock c)) (vlist (map_cities m)) \<and>
     map city_id (vlist (map_cities m)) = map int [0..<length (vlist (map_cities m))] \<and>
     in_int (\<Sum>c \<leftarrow> vlist (map_cities m). total_amount (vlist (city_stock c)))"

section \<open>The loops compute the list functions\<close>

lemma hasNoStocks_refines:
  assumes "vec_inv v"
  shows "hasNoStocks v = Some (if satisfied (vlist v) then 1 else 0)"
  using assms unfolding hasNoStocks_def satisfied_def
  by (subst vec.scan_find [where P = "\<lambda>s. stock_amount s \<noteq> 0" and r = "\<lambda>_. 0"])
    (auto simp: find_None_all list_all_iff dest: find_Some_in split: option.split)

lemma map_wfD:
  assumes "map_wf m"
  shows map_wf_cities: "vec_inv (map_cities m)"
    and map_wf_products: "products_wf (map_product m)"
    and map_wf_stocks: "c \<in> set (vlist (map_cities m)) \<Longrightarrow> stocks_wf (city_stock c)"
    and map_wf_id: "i < length (vlist (map_cities m)) \<Longrightarrow> city_id (vlist (map_cities m) ! i) = int i"
proof -
  show "city_id (vlist (map_cities m) ! i) = int i" if "i < length (vlist (map_cities m))"
  proof -
    have "map city_id (vlist (map_cities m)) ! i = map int [0..<length (vlist (map_cities m))] ! i"
      using assms by (simp add: map_wf_def)
    with that show ?thesis
      by simp
  qed
qed (use assms in \<open>auto simp: map_wf_def list_all_iff\<close>)

lemma endSimulation_refines:
  assumes "vec_inv (map_cities m)" "\<And>c. c \<in> set (vlist (map_cities m)) \<Longrightarrow> vec_inv (city_stock c)"
  shows "endSimulation m turn =
    Some (if turn < 70000 \<and> (\<exists>c \<in> set (vlist (map_cities m)). \<not> satisfied (vlist (city_stock c)))
          then CONTINUE_SIM else END_SIM)"
proof -
  let ?P = "\<lambda>c. \<not> satisfied (vlist (city_stock c))"
  have "endSimulation m turn =
      (if turn < 70000
       then after_loop (Some (case find ?P (vlist (map_cities m)) of
              Some x \<Rightarrow> Exit CONTINUE_SIM | None \<Rightarrow> Next ())) (\<lambda>_. Some END_SIM)
       else Some END_SIM)"
    unfolding endSimulation_def
    by (subst vec.scan_find [where P = ?P and r = "\<lambda>_. CONTINUE_SIM"])
      (use assms in \<open>auto simp: cityIsSatisfied_def hasNoStocks_refines\<close>)
  then show ?thesis
    by (auto simp: find_None_all dest: find_Some_in split: option.split)
qed

subsection \<open>Unloading\<close>

lemma find_city_stock_loop:
  assumes "stock_wf p" "\<And>c. c \<in> set cs \<Longrightarrow> stock_wf c"
  shows "list_loop k (\<lambda>j c _. do {
          pp \<leftarrow> stock_product p;
          cp \<leftarrow> stock_product c;
          Some (if product_id pp = product_id cp then Exit (Some j) else Next (Some j))
        }) cs s =
    Some (if stock_pid p \<in> stock_pid ` set cs
          then Exit (Some (k + length (takeWhile (\<lambda>c. stock_pid c \<noteq> stock_pid p) cs)))
          else Next (if cs = [] then s else Some (k + length cs - 1)))"
  using assms(2)
proof (induction cs arbitrary: k s)
  case (Cons c cs)
  obtain pp cp where "stock_product p = Some pp" "stock_pid p = product_id pp"
    "stock_product c = Some cp" "stock_pid c = product_id cp"
    using assms(1) Cons.prems by (metis list.set_intros(1) stock_wfE)
  with Cons show ?case
    by auto
qed simp

lemma takeWhile_index:
  "x \<in> f ` set xs \<Longrightarrow> length (takeWhile (\<lambda>y. f y \<noteq> x) xs) < length xs"
  by (induction xs) auto

lemma takeWhile_all: "x \<notin> f ` set xs \<Longrightarrow> takeWhile (\<lambda>y. f y \<noteq> x) xs = xs"
  by (induction xs) auto

lemma find_city_stock_refines:
  assumes "stocks_wf cs" "stock_wf p"
  shows "find_city_stock p cs =
    Some (if vlist cs = [] then None else Some (city_slot (stock_pid p) (vlist cs)))"
proof -
  have wf: "\<And>c. c \<in> set (vlist cs) \<Longrightarrow> stock_wf c"
    using assms(1) by (simp add: stocks_wf_def list_all_iff)
  have slot: "city_slot (stock_pid p) (vlist cs) =
      (if stock_pid p \<in> stock_pid ` set (vlist cs)
       then length (takeWhile (\<lambda>c. stock_pid c \<noteq> stock_pid p) (vlist cs)) else length (vlist cs) - 1)"
    using takeWhile_index [of "stock_pid p" stock_pid "vlist cs"]
    by (auto simp: city_slot_def takeWhile_all)
  show ?thesis
    using assms(1) by (auto simp: find_city_stock_def vec.scan find_city_stock_loop assms(2) wf slot)
qed

lemma city_slot_less: "cs \<noteq> [] \<Longrightarrow> city_slot pid cs < length cs"
  by (cases cs) (auto simp: city_slot_def)

text \<open>The amount that changes hands never makes an amount negative.\<close>

lemma unload_one_wf:
  assumes "list_all stock_wf cs" "stock_wf p" "cs \<noteq> []"
  shows "list_all stock_wf (fst (unload_one cs p)) \<and> stock_wf (snd (unload_one cs p))"
proof -
  let ?j = "city_slot (stock_pid p) cs"
  have c: "stock_wf (cs ! ?j)"
    using assms(1,3) city_slot_less by (auto simp: list_all_iff)
  have "stock_wf (s\<lparr>stock_amount := stock_amount s - min (stock_amount (cs ! ?j)) (stock_amount p)\<rparr>)"
    if "s = cs ! ?j \<or> s = p" for s
    using c assms(2) that by (auto simp: stock_wf_def min_def intro: in_int_diff)
  then show ?thesis
    using assms(1) set_update_subset_insert [of cs ?j]
    by (fastforce simp: unload_one_def Let_def list_all_iff)
qed

lemma unload_wf:
  assumes "list_all stock_wf cs" "list_all stock_wf ps" "cs \<noteq> []"
  shows "list_all stock_wf (fst (unload cs ps)) \<and> list_all stock_wf (snd (unload cs ps))"
  using assms
proof (induction ps arbitrary: cs)
  case (Cons p ps)
  have "list_all stock_wf (fst (unload_one cs p))" "stock_wf (snd (unload_one cs p))"
    "fst (unload_one cs p) \<noteq> []"
    using unload_one_wf [of cs p] Cons.prems by (auto simp: unload_one_def Let_def)
  with Cons show ?case
    by simp
qed simp

lemma length_unload_one [simp]: "length (fst (unload_one cs p)) = length cs"
  by (simp add: unload_one_def Let_def)

lemma length_unload [simp]:
  "length (fst (unload cs ps)) = length cs" "length (snd (unload cs ps)) = length ps"
  by (induction ps arbitrary: cs) simp_all

lemma discharge_refines:
  assumes "list_all stock_wf cs" "list_all stock_wf ps" "cs \<noteq> []" "i < length ps"
    and "length cs < 2147483648" "length ps < 2147483648"
  shows "discharge i (vec_of cs, vec_of ps) =
    Some (vec_of (fst (unload_one cs (ps ! i))), vec_of (ps[i := snd (unload_one cs (ps ! i))]))"
proof -
  have p: "stock_wf (ps ! i)"
    using assms(2,4) by (simp add: list_all_length)
  let ?j = "city_slot (stock_pid (ps ! i)) cs"
  have j: "?j < length cs"
    using assms(3) by (rule city_slot_less)
  have c: "stock_wf (cs ! ?j)"
    using assms(1) j by (simp add: list_all_length)
  have f: "find_city_stock (ps ! i) (vec_of cs) = Some (Some ?j)"
    using assms(1,3,5) p by (simp add: find_city_stock_refines stocks_wf_def)
  have "in_int (stock_amount (cs ! ?j) - stock_amount (ps ! i))"
    if "stock_amount (ps ! i) \<le> stock_amount (cs ! ?j)"
    using p c that by (auto simp: stock_wf_def intro: in_int_diff)
  moreover have "in_int (stock_amount (ps ! i) - stock_amount (cs ! ?j))"
    if "stock_amount (cs ! ?j) \<le> stock_amount (ps ! i)"
    using p c that by (auto simp: stock_wf_def intro: in_int_diff)
  ultimately show ?thesis
    using assms(4-6) j f by (auto simp: discharge_def unload_one_def Let_def min_def)
qed

lemma unload_loop:
  assumes "list_all stock_wf cs" "list_all stock_wf (done @ ps)" "cs \<noteq> []"
    and "length cs < 2147483648" "length (done @ ps) < 2147483648"
  shows "for_loop (length ps) (length done) (\<lambda>i s. do { s' \<leftarrow> discharge i s; Some (Next s') })
      (vec_of cs, vec_of (done @ ps)) =
    Some (Next (vec_of (fst (unload cs ps)), vec_of (done @ snd (unload cs ps))) :: ('r, _) flow)"
  using assms
proof (induction ps arbitrary: cs "done")
  case (Cons p ps)
  let ?c = "fst (unload_one cs p)" and ?p = "snd (unload_one cs p)"
  have wf: "list_all stock_wf ?c" "stock_wf ?p" "?c \<noteq> []"
    using unload_one_wf [of cs p] Cons.prems by (auto simp: unload_one_def Let_def)
  have "discharge (length done) (vec_of cs, vec_of (done @ p # ps)) =
      Some (vec_of ?c, vec_of ((done @ [?p]) @ ps))"
    using discharge_refines [of cs "done @ p # ps" "length done"] Cons.prems by simp
  moreover have "for_loop (length ps) (length (done @ [?p]))
      (\<lambda>i s. do { s' \<leftarrow> discharge i s; Some (Next s') }) (vec_of ?c, vec_of ((done @ [?p]) @ ps)) =
    Some (Next (vec_of (fst (unload ?c ps)), vec_of ((done @ [?p]) @ snd (unload ?c ps))) :: ('r, _) flow)"
    by (rule Cons.IH) (use Cons.prems wf in auto)
  ultimately show ?case
    by simp
qed simp

text \<open>\<open>updateMap\<close> for a plane in a city of the map: only that city and the plane's stocks change.\<close>

definition map_with_stock :: "sim_map \<Rightarrow> nat \<Rightarrow> stock list \<Rightarrow> sim_map" where
  "map_with_stock m i cs =
     m\<lparr>map_cities := vec_of ((vlist (map_cities m))[i := (vlist (map_cities m) ! i)\<lparr>city_stock := vec_of cs\<rparr>])\<rparr>"

lemma updateMap_unload:
  assumes m: "map_wf m" and c: "plane_cityId pl = int i" "i < length (vlist (map_cities m))"
    and cs: "cs = vlist (city_stock (vlist (map_cities m) ! i))" "cs \<noteq> [] \<or> vlist (plane_stocks pl) = []"
    and ps: "stocks_wf (plane_stocks pl)"
  shows "updateMap m pl =
    Some (map_with_stock m i (fst (unload cs (vlist (plane_stocks pl)))),
          pl\<lparr>plane_stocks := vec_of (snd (unload cs (vlist (plane_stocks pl))))\<rparr>)"
proof -
  obtain xs where xs: "map_cities m = vec_of xs" "length xs < 2147483648"
    using map_wf_cities [OF m] by (metis vec_invE)
  have "stocks_wf (city_stock (xs ! i))"
    using map_wf_stocks [OF m] c(2) by (simp add: xs)
  then have city: "city_stock (xs ! i) = vec_of cs" "length cs < 2147483648" "list_all stock_wf cs"
    using cs(1) by (auto simp: stocks_wf_def xs elim!: vec_invE)
  obtain qs where qs: "plane_stocks pl = vec_of qs" "length qs < 2147483648" "list_all stock_wf qs"
    using ps by (auto simp: stocks_wf_def elim!: vec_invE)
  have "for_loop (length qs) 0 (\<lambda>k s. do { s' \<leftarrow> discharge k s; Some (Next s') }) (vec_of cs, vec_of qs) =
      Some (Next (vec_of (fst (unload cs qs)), vec_of (snd (unload cs qs))) :: (sim_map \<times> plane, _) flow)"
  proof (cases "qs = []")
    case False
    with cs(2) qs have "cs \<noteq> []"
      by simp
    with unload_loop [of cs "[]" qs] city qs show ?thesis
      by simp
  qed simp
  then show ?thesis
    using c xs city(1) qs(1) by (simp add: updateMap_def map_with_stock_def)
qed

end
