(* ===== verification/Map_Unload.thy ===== *)
theory Map_Unload
  imports Map_Stocks
begin

text \<open>
  What unloading achieves, and what the scores and totals of \<open>app/map.c\<close> are: the facts
  about \<open>unload\<close>, \<open>city_score\<close> and the totals on lists, and the refinement lemmas for
  \<open>getCityScore\<close> and \<open>get_map_status\<close>.
\<close>

section \<open>Conservation and monotonicity of unloading\<close>

lemma total_amount_update:
  "j < length cs \<Longrightarrow> total_amount (cs[j := s]) = total_amount cs - stock_amount (cs ! j) + stock_amount s"
  by (induction cs arbitrary: j) (auto simp: total_amount_def split: nat.split)

lemma unload_one_total:
  "cs \<noteq> [] \<Longrightarrow> total_amount (fst (unload_one cs p)) - stock_amount (snd (unload_one cs p)) =
    total_amount cs - stock_amount p"
  using city_slot_less by (simp add: unload_one_def Let_def total_amount_update)

text \<open>What the city gets is what the plane gives.\<close>

lemma unload_total:
  "cs \<noteq> [] \<Longrightarrow> total_amount (fst (unload cs ps)) - total_amount (snd (unload cs ps)) =
    total_amount cs - total_amount ps"
proof (induction ps arbitrary: cs)
  case (Cons p ps)
  have ne: "fst (unload_one cs p) \<noteq> []"
    using Cons.prems by (simp add: unload_one_def Let_def)
  show ?case
    using Cons.IH [OF ne] unload_one_total [OF Cons.prems, of p] by (simp add: total_amount_def)
qed (simp add: total_amount_def)

lemma unload_one_product:
  "map stock_product (fst (unload_one cs p)) = map stock_product cs"
  "stock_product (snd (unload_one cs p)) = stock_product p"
  by (cases "cs = []")
    (simp_all add: unload_one_def Let_def map_update city_slot_less list_update_same_conv)

lemma unload_product:
  "map stock_product (fst (unload cs ps)) = map stock_product cs"
  "map stock_product (snd (unload cs ps)) = map stock_product ps"
  by (induction ps arbitrary: cs) (simp_all add: unload_one_product)

lemma map_stock_pid: "map stock_pid ss = map (product_id \<circ> the) (map stock_product ss)"
  by (simp add: stock_pid_def)

lemma unload_pid [simp]:
  "map stock_pid (fst (unload cs ps)) = map stock_pid cs"
  "map stock_pid (snd (unload cs ps)) = map stock_pid ps"
  unfolding map_stock_pid by (simp_all only: unload_product)

lemma unload_one_pid [simp]:
  "map stock_pid (fst (unload_one cs p)) = map stock_pid cs"
  "stock_pid (snd (unload_one cs p)) = stock_pid p"
  unfolding map_stock_pid by (simp_all only: unload_one_product stock_pid_def)

text \<open>Amounts only go down, and never below 0.\<close>

lemma unload_one_le:
  assumes "list_all stock_wf cs" "stock_wf p" "k < length cs"
  shows "0 \<le> stock_amount (fst (unload_one cs p) ! k) \<and>
    stock_amount (fst (unload_one cs p) ! k) \<le> stock_amount (cs ! k)"
  using assms by (cases "k = city_slot (stock_pid p) cs")
    (auto simp: unload_one_def Let_def list_all_length stock_wf_def min_def)

lemma unload_le:
  assumes "list_all stock_wf cs" "list_all stock_wf ps" "k < length cs"
  shows "0 \<le> stock_amount (fst (unload cs ps) ! k) \<and>
    stock_amount (fst (unload cs ps) ! k) \<le> stock_amount (cs ! k)"
  using assms
proof (induction ps arbitrary: cs)
  case Nil
  then show ?case
    by (auto simp: list_all_length stock_wf_def)
next
  case (Cons p ps)
  have "list_all stock_wf (fst (unload_one cs p))"
    using unload_one_wf [of cs p] Cons.prems by fastforce
  then show ?case
    using Cons.IH [of "fst (unload_one cs p)"] unload_one_le [of cs p k] Cons.prems by auto
qed

section \<open>After unloading, the city has nothing more to gain from the plane\<close>

lemma city_slot_match:
  assumes "pid \<in> stock_pid ` set cs"
  shows "stock_pid (cs ! city_slot pid cs) = pid"
proof -
  have less: "length (takeWhile (\<lambda>c. stock_pid c \<noteq> pid) cs) < length cs"
    by (rule takeWhile_index [OF assms])
  then have "city_slot pid cs = length (takeWhile (\<lambda>c. stock_pid c \<noteq> pid) cs)"
    by (simp add: city_slot_def)
  with nth_length_takeWhile [OF less] show ?thesis
    by simp
qed

lemma pids_distinct_nth:
  "pids_distinct cs \<Longrightarrow> i < length cs \<Longrightarrow> j < length cs \<Longrightarrow> stock_pid (cs ! i) = stock_pid (cs ! j) \<Longrightarrow> i = j"
  by (metis pids_distinct_def distinct_conv_nth length_map nth_map)

lemma unload_exhausts:
  assumes "list_all stock_wf cs" "list_all stock_wf ps" "pids_distinct cs"
    and "k < length cs" "p \<in> set (snd (unload cs ps))" "stock_pid (cs ! k) = stock_pid p"
  shows "stock_amount (fst (unload cs ps) ! k) = 0 \<or> stock_amount p = 0"
  using assms
proof (induction ps arbitrary: cs)
  case (Cons q ps)
  let ?cs = "fst (unload_one cs q)" and ?q = "snd (unload_one cs q)"
  have "cs \<noteq> []"
    using Cons.prems(4) by auto
  then have wf: "list_all stock_wf ?cs" "stock_wf ?q" "cs \<noteq> []"
    using unload_one_wf [of cs q] Cons.prems by auto
  have pids: "stock_pid (?cs ! i) = stock_pid (cs ! i)" if "i < length cs" for i
    by (rule map_eq_nth [OF unload_one_pid(1) that])
  show ?case
  proof (cases "p = ?q")
    case True
    have "k = city_slot (stock_pid q) cs"
    proof (rule pids_distinct_nth [OF Cons.prems(3,4) city_slot_less [OF wf(3)]])
      have "stock_pid q \<in> stock_pid ` set cs"
        using Cons.prems(4,6) True by (metis image_eqI nth_mem unload_one_pid(2))
      then show "stock_pid (cs ! k) = stock_pid (cs ! city_slot (stock_pid q) cs)"
        using Cons.prems(6) True by (simp add: city_slot_match)
    qed
    then have "stock_amount (?cs ! k) = 0 \<or> stock_amount p = 0"
      using Cons.prems(4) True by (auto simp: unload_one_def Let_def min_def)
    then show ?thesis
      using unload_le [OF wf(1), of ps k] Cons.prems by auto
  next
    case False
    then have "p \<in> set (snd (unload ?cs ps))"
      using Cons.prems(5) by simp
    moreover have "pids_distinct ?cs"
      using Cons.prems(3) by (simp add: pids_distinct_def)
    ultimately show ?thesis
      using Cons.IH [of ?cs] wf Cons.prems pids [OF Cons.prems(4)] by auto
  qed
qed simp

lemma amount_of_cases:
  obtains "amount_of ss pid = 0" | s where "s \<in> set ss" "stock_pid s = pid" "amount_of ss pid = stock_amount s"
  by (cases "find (\<lambda>s. stock_pid s = pid) ss") (auto simp: amount_of_def dest: find_Some_in)

lemma unload_score_zero:
  assumes "list_all stock_wf cs" "list_all stock_wf ps" "pids_distinct cs"
  shows "city_score (fst (unload cs ps)) (snd (unload cs ps)) = 0"
proof -
  let ?cs = "fst (unload cs ps)" and ?ps = "snd (unload cs ps)"
  have "min (stock_amount c) (amount_of ?ps (stock_pid c)) = 0" if c_in: "c \<in> set ?cs" for c
  proof -
    obtain k where k: "k < length cs" "c = ?cs ! k"
      using c_in unfolding in_set_conv_nth by auto
    have pid: "stock_pid (cs ! k) = stock_pid c"
      using map_eq_nth [OF unload_pid(1) k(1)] k(2) by simp
    have nn: "0 \<le> stock_amount c"
      using unload_le [OF assms(1,2) k(1)] k(2) by simp
    show ?thesis
    proof (rule amount_of_cases [of ?ps "stock_pid c"])
      fix s
      assume s: "s \<in> set ?ps" "stock_pid s = stock_pid c" "amount_of ?ps (stock_pid c) = stock_amount s"
      have "cs \<noteq> []"
        using k(1) by auto
      then have "0 \<le> stock_amount s"
        using unload_wf [OF assms(1,2)] s(1) by (auto simp: list_all_iff stock_wf_def)
      moreover have "stock_amount c = 0 \<or> stock_amount s = 0"
        using unload_exhausts [OF assms k(1) s(1)] pid s(2) k(2) by simp
      ultimately show ?thesis
        using s(3) nn by auto
    qed (use nn in simp)
  qed
  then show ?thesis
    unfolding city_score_def by (simp cong: map_cong)
qed

section \<open>A plane whose products the city all wants\<close>

definition give :: "stock \<Rightarrow> int \<Rightarrow> stock" where
  "give s n = s\<lparr>stock_amount := stock_amount s - min (stock_amount s) n\<rparr>"

lemma give_simps [simp]:
  "stock_pid (give s n) = stock_pid s" "0 \<le> stock_amount s \<Longrightarrow> give s 0 = s"
  by (simp_all add: give_def stock_pid_def)

lemma amount_of_Cons:
  "amount_of (s # ss) pid = (if stock_pid s = pid then stock_amount s else amount_of ss pid)"
  by (simp add: amount_of_def)

lemma amount_of_notin: "pid \<notin> stock_pid ` set ss \<Longrightarrow> amount_of ss pid = 0"
  by (induction ss) (auto simp: amount_of_def)

lemma amount_of_nth:
  "pids_distinct ss \<Longrightarrow> k < length ss \<Longrightarrow> amount_of ss (stock_pid (ss ! k)) = stock_amount (ss ! k)"
proof (induction ss arbitrary: k)
  case (Cons s ss)
  then show ?case
    by (cases k) (auto simp: amount_of_Cons pids_distinct_def image_iff)
qed simp

lemma amount_of_map_other:
  assumes "\<And>s. stock_pid (f s) = stock_pid s" "\<And>s. s \<in> set ss \<Longrightarrow> stock_pid s = pid \<Longrightarrow> f s = s"
  shows "amount_of (map f ss) pid = amount_of ss pid"
  using assms(2)
proof (induction ss)
  case (Cons s ss)
  then show ?case
    by (auto simp: amount_of_Cons assms(1))
qed simp

lemma unload_one_wanted:
  assumes "list_all stock_wf cs" "stock_wf p" "pids_distinct cs" "stock_pid p \<in> stock_pid ` set cs"
  shows "fst (unload_one cs p) = map (\<lambda>c. give c (if stock_pid c = stock_pid p then stock_amount p else 0)) cs"
    and "snd (unload_one cs p) = give p (amount_of cs (stock_pid p))"
proof -
  let ?j = "city_slot (stock_pid p) cs"
  have j: "?j < length cs"
    using assms(4) by (intro city_slot_less) auto
  have pj: "stock_pid (cs ! ?j) = stock_pid p"
    by (rule city_slot_match [OF assms(4)])
  show "snd (unload_one cs p) = give p (amount_of cs (stock_pid p))"
    using amount_of_nth [OF assms(3) j] pj by (simp add: unload_one_def Let_def give_def min.commute)
  show "fst (unload_one cs p) =
      map (\<lambda>c. give c (if stock_pid c = stock_pid p then stock_amount p else 0)) cs"
  proof (rule nth_equalityI)
    fix k
    assume "k < length (fst (unload_one cs p))"
    then have k: "k < length cs"
      by simp
    have "0 \<le> stock_amount (cs ! k)"
      using assms(1) k by (simp add: list_all_length stock_wf_def)
    moreover have "stock_pid (cs ! k) = stock_pid p \<longleftrightarrow> k = ?j"
      using pids_distinct_nth [OF assms(3) k j] pj by auto
    ultimately show "fst (unload_one cs p) ! k =
        map (\<lambda>c. give c (if stock_pid c = stock_pid p then stock_amount p else 0)) cs ! k"
      using k by (auto simp: unload_one_def Let_def give_def nth_list_update)
  qed simp
qed

lemma unload_wanted:
  assumes "list_all stock_wf cs" "list_all stock_wf ps" "pids_distinct cs" "pids_distinct ps"
    and "stock_pid ` set ps \<subseteq> stock_pid ` set cs"
  shows "fst (unload cs ps) = map (\<lambda>c. give c (amount_of ps (stock_pid c))) cs \<and>
    snd (unload cs ps) = map (\<lambda>p. give p (amount_of cs (stock_pid p))) ps"
  using assms
proof (induction ps arbitrary: cs)
  case Nil
  then have "give c 0 = c" if "c \<in> set cs" for c
    using that by (auto simp: list_all_iff stock_wf_def)
  then show ?case
    by (simp add: amount_of_def map_idI)
next
  case (Cons p ps)
  let ?f = "\<lambda>c. give c (if stock_pid c = stock_pid p then stock_amount p else 0)"
  have p: "stock_wf p" "stock_pid p \<in> stock_pid ` set cs" "stock_pid p \<notin> stock_pid ` set ps"
    using Cons.prems by (auto simp: pids_distinct_def)
  note one = unload_one_wanted [OF Cons.prems(1) p(1) Cons.prems(3) p(2)]
  have "cs \<noteq> []"
    using p(2) by auto
  then have wf: "list_all stock_wf (map ?f cs)"
    using unload_one_wf [OF Cons.prems(1) p(1)] by (simp add: one)
  have d: "pids_distinct (map ?f cs)"
    using Cons.prems(3) by (simp add: pids_distinct_def comp_def)
  have IH: "fst (unload (map ?f cs) ps) = map (\<lambda>c. give c (amount_of ps (stock_pid c))) (map ?f cs) \<and>
      snd (unload (map ?f cs) ps) = map (\<lambda>p. give p (amount_of (map ?f cs) (stock_pid p))) ps"
    by (rule Cons.IH [OF wf _ d]) (use Cons.prems in \<open>auto simp: pids_distinct_def image_image\<close>)
  have "give (?f c) (amount_of ps (stock_pid c)) = give c (amount_of (p # ps) (stock_pid c))"
    if "c \<in> set cs" for c
  proof (cases "stock_pid c = stock_pid p")
    case True
    then have "amount_of ps (stock_pid c) = 0"
      using p(3) by (auto intro: amount_of_notin)
    then show ?thesis
      using True that wf p(1) by (auto simp: amount_of_Cons list_all_iff stock_wf_def)
  next
    case False
    then show ?thesis
      using that Cons.prems(1) by (auto simp: amount_of_Cons list_all_iff stock_wf_def)
  qed
  moreover have "amount_of (map ?f cs) (stock_pid q) = amount_of cs (stock_pid q)" if "q \<in> set ps" for q
    by (rule amount_of_map_other)
      (use that p(3) Cons.prems(1) in \<open>auto simp: list_all_iff stock_wf_def image_iff\<close>)
  ultimately show ?case
    using IH by (simp add: one)
qed

section \<open>Any plane\<close>

text \<open>
  In general every stock of the plane is unloaded into one stock of the city, its \<open>city_slot\<close>: the
  first of the same product, or the last if there is none. \<open>directed cs ps k\<close> is all that is for slot \<open>k\<close>.
\<close>

definition directed :: "stock list \<Rightarrow> stock list \<Rightarrow> nat \<Rightarrow> int" where
  "directed cs ps k = (\<Sum>p \<leftarrow> filter (\<lambda>p. city_slot (stock_pid p) cs = k) ps. stock_amount p)"

lemma directed_simps [simp]:
  "directed cs [] k = 0"
  "directed cs (p # ps) k = (if city_slot (stock_pid p) cs = k then stock_amount p else 0) + directed cs ps k"
  by (simp_all add: directed_def)

lemma directed_nonneg: "list_all stock_wf ps \<Longrightarrow> 0 \<le> directed cs ps k"
  by (induction ps) (auto simp: stock_wf_def)

lemma directed_member:
  "list_all stock_wf ps \<Longrightarrow> p \<in> set ps \<Longrightarrow> stock_amount p \<le> directed cs ps (city_slot (stock_pid p) cs)"
  using directed_nonneg by (induction ps) (fastforce simp: stock_wf_def)+

lemma city_slot_pids: "map stock_pid cs' = map stock_pid cs \<Longrightarrow> city_slot pid cs' = city_slot pid cs"
proof -
  assume m: "map stock_pid cs' = map stock_pid cs"
  have "length (takeWhile (\<lambda>c. stock_pid c \<noteq> pid) xs) = length (takeWhile (\<lambda>i. i \<noteq> pid) (map stock_pid xs))" for xs
    by (simp add: takeWhile_map o_def)
  moreover have "length cs' = length cs"
    using m by (rule map_eq_imp_length_eq)
  ultimately show ?thesis
    by (simp only: city_slot_def m)
qed

lemma directed_pids: "map stock_pid cs' = map stock_pid cs \<Longrightarrow> directed cs' ps k = directed cs ps k"
  using city_slot_pids [of cs' cs] by (simp only: directed_def)

lemma city_slot_unlisted: "pid \<notin> stock_pid ` set cs \<Longrightarrow> city_slot pid cs = length cs - 1"
proof -
  assume "pid \<notin> stock_pid ` set cs"
  then have "takeWhile (\<lambda>c. stock_pid c \<noteq> pid) cs = cs"
    by (auto simp: takeWhile_eq_all_conv)
  then show ?thesis
    unfolding city_slot_def by (simp only:)
qed

lemma unload_one_nth:
  assumes "k < length cs" "0 \<le> stock_amount (cs ! k)"
  shows "fst (unload_one cs p) ! k = give (cs ! k) (if city_slot (stock_pid p) cs = k then stock_amount p else 0)"
  using assms by (auto simp: unload_one_def Let_def give_def nth_list_update min.commute)

lemma give_give:
  assumes "0 \<le> stock_amount s" "0 \<le> a" "0 \<le> b"
  shows "give (give s a) b = give s (a + b)"
  using assms by (cases s) (auto simp: give_def min_def)

lemma unload_city_nth:
  assumes "list_all stock_wf cs" "list_all stock_wf ps" "k < length cs"
  shows "fst (unload cs ps) ! k = give (cs ! k) (directed cs ps k)"
  using assms
proof (induction ps arbitrary: cs)
  case Nil
  then show ?case
    by (simp add: list_all_length stock_wf_def)
next
  case (Cons p ps)
  let ?cs = "fst (unload_one cs p)"
  have c: "0 \<le> stock_amount (cs ! k)" "0 \<le> stock_amount p" "cs \<noteq> []"
    using Cons.prems by (auto simp: list_all_length stock_wf_def)
  have "fst (unload ?cs ps) ! k = give (?cs ! k) (directed ?cs ps k)"
    using Cons.prems unload_one_wf [of cs p] c(3) by (intro Cons.IH) auto
  also have "\<dots> = give (cs ! k) (directed cs (p # ps) k)"
    using Cons.prems c directed_nonneg [of ps cs k]
    by (simp add: unload_one_nth directed_pids [OF unload_one_pid(1)] give_give)
  finally show ?case
    by simp
qed

lemma unload_plane_nth:
  assumes "list_all stock_wf cs" "list_all stock_wf ps" "cs \<noteq> []" "j < length ps"
  shows "snd (unload cs ps) ! j =
    (let k = city_slot (stock_pid (ps ! j)) cs
     in give (ps ! j) (max 0 (stock_amount (cs ! k) - directed cs (take j ps) k)))"
  using assms
proof (induction ps arbitrary: cs j)
  case (Cons p ps)
  let ?cs = "fst (unload_one cs p)"
  have c: "0 \<le> stock_amount (cs ! k)" if "k < length cs" for k
    using Cons.prems(1) that by (simp add: list_all_length stock_wf_def)
  show ?case
  proof (cases j)
    case 0
    then show ?thesis
      using c [OF city_slot_less [OF Cons.prems(3)]]
      by (simp add: unload_one_def Let_def give_def min.commute)
  next
    case (Suc i)
    let ?k = "city_slot (stock_pid (ps ! i)) cs"
    have k: "?k < length cs" "?k = city_slot (stock_pid (ps ! i)) ?cs"
      using city_slot_less [OF Cons.prems(3)] city_slot_pids [OF unload_one_pid(1)] by simp_all
    have wf: "list_all stock_wf ?cs" "?cs \<noteq> []" "list_all stock_wf ps" "i < length ps"
      using Cons.prems unload_one_wf [of cs p] Suc by (auto simp: unload_one_def Let_def)
    have "list_all stock_wf (take i ps)"
      using Cons.prems(2) set_take_subset [of i ps] by (auto simp: list_all_iff)
    then have "0 \<le> directed cs (take i ps) ?k" "0 \<le> stock_amount p"
      using Cons.prems(2) directed_nonneg [of "take i ps"] by (simp_all add: stock_wf_def)
    then have "max 0 (stock_amount (?cs ! ?k) - directed cs (take i ps) ?k) =
        max 0 (stock_amount (cs ! ?k) - directed cs (p # take i ps) ?k)"
      using c [OF k(1)] by (auto simp: unload_one_nth [OF k(1) c [OF k(1)]] give_def min_def max_def)
    then show ?thesis
      using Cons.IH [OF wf(1,3,2,4)] by (simp add: Suc Let_def k(2) [symmetric] directed_pids [OF unload_one_pid(1)])
  qed
qed simp

section \<open>Scores and totals\<close>

lemma stock_overlap_loop:
  assumes "stock_wf c" "\<And>p. p \<in> set ps \<Longrightarrow> stock_wf p"
    and "in_int (score + min (stock_amount c) (amount_of ps (stock_pid c)))"
  shows "list_loop k (\<lambda>_ planeStock sc. do {
          cp \<leftarrow> stock_product c;
          pp \<leftarrow> stock_product planeStock;
          if product_id cp = product_id pp then do {
            score' \<leftarrow> iadd sc (if stock_amount c > stock_amount planeStock
                             then stock_amount planeStock else stock_amount c);
            Some (Exit score')
          } else Some (Next sc)
        }) ps score =
    Some (if stock_pid c \<in> stock_pid ` set ps
          then Exit (score + min (stock_amount c) (amount_of ps (stock_pid c))) else Next score)"
  using assms(2,3)
proof (induction ps arbitrary: k)
  case (Cons p ps)
  obtain cp where cp: "stock_product c = Some cp" "stock_pid c = product_id cp"
    using assms(1) by (rule stock_wfE)
  obtain pp where pp: "stock_product p = Some pp" "stock_pid p = product_id pp"
    using Cons.prems(1) [of p] by (auto elim: stock_wfE)
  have IH: "stock_pid p \<noteq> stock_pid c \<Longrightarrow> in_int (score + min (stock_amount c) (amount_of ps (stock_pid c)))"
    using Cons.prems(2) by (simp add: amount_of_Cons)
  show ?case
    using Cons IH cp pp by (auto simp: amount_of_Cons min_def split: if_splits)
qed simp

lemma stock_overlap_refines:
  assumes "stock_wf c" "stocks_wf v" "in_int (score + min (stock_amount c) (amount_of (vlist v) (stock_pid c)))"
  shows "stock_overlap c v score = Some (score + min (stock_amount c) (amount_of (vlist v) (stock_pid c)))"
proof -
  have wf: "\<And>p. p \<in> set (vlist v) \<Longrightarrow> stock_wf p"
    using assms(2) by (simp add: stocks_wf_def list_all_iff)
  have "stock_pid c \<notin> stock_pid ` set (vlist v) \<Longrightarrow> min (stock_amount c) (amount_of (vlist v) (stock_pid c)) = 0"
    using assms(1) by (simp add: amount_of_notin stock_wf_def)
  then show ?thesis
    using assms(2) by (auto simp: stock_overlap_def vec.scan stock_overlap_loop [OF assms(1) wf assms(3)])
qed

lemma amount_of_nonneg: "list_all stock_wf ss \<Longrightarrow> 0 \<le> amount_of ss pid"
  by (rule amount_of_cases [of ss pid]) (auto simp: list_all_iff stock_wf_def)

lemma total_amount_nonneg: "list_all stock_wf ss \<Longrightarrow> 0 \<le> total_amount ss"
  unfolding total_amount_def by (intro sum_list_nonneg) (auto simp: list_all_iff stock_wf_def)

lemma city_score_bounds:
  assumes "list_all stock_wf cs" "list_all stock_wf ps"
  shows "0 \<le> city_score cs ps" "city_score cs ps \<le> total_amount cs"
proof -
  show "0 \<le> city_score cs ps"
    unfolding city_score_def using assms(1) amount_of_nonneg [OF assms(2)]
    by (intro sum_list_nonneg) (auto simp: list_all_iff stock_wf_def)
  show "city_score cs ps \<le> total_amount cs"
    unfolding city_score_def total_amount_def by (intro sum_list_mono) simp
qed

lemma getCityScore_refines:
  assumes "stocks_wf cs" "stocks_wf ps" "in_int (total_amount (vlist cs))"
  shows "getCityScore cs ps = Some (city_score (vlist cs) (vlist ps))"
proof -
  let ?f = "\<lambda>c. min (stock_amount c) (amount_of (vlist ps) (stock_pid c))"
  have wf: "list_all stock_wf (vlist cs)" "list_all stock_wf (vlist ps)"
    using assms by (simp_all add: stocks_wf_def)
  have "list_loop 0 (\<lambda>i c score. do { score' \<leftarrow> stock_overlap c ps score; Some (Next score') }) (vlist cs) 0
      = Some (Next (0 + (\<Sum>c \<leftarrow> vlist cs. ?f c)) :: (int, _) flow)"
  proof (rule list_loop_sum)
    show "in_int (0 + (\<Sum>c \<leftarrow> vlist cs. ?f c))"
      using city_score_bounds [OF wf] in_int_between assms(3) by (simp add: city_score_def)
    show "0 \<le> ?f c" if "c \<in> set (vlist cs)" for c
      using that wf amount_of_nonneg by (auto simp: list_all_iff stock_wf_def)
    show "do { score' \<leftarrow> stock_overlap c ps s; Some (Next score') } = Some (Next (s + ?f c))"
      if "c \<in> set (vlist cs)" "in_int (s + ?f c)" for c s
      using that wf(1) assms(2) by (simp add: stock_overlap_refines list_all_iff)
  qed simp
  then show ?thesis
    using assms(1) by (simp add: getCityScore_def vec.scan city_score_def)
qed

lemma stock_sum_refines:
  assumes "stocks_wf v" "in_int (total_amount (vlist v))"
  shows "stock_sum v = Some (total_amount (vlist v))"
proof -
  have "list_loop 0 (\<lambda>i s acc. do { acc' \<leftarrow> iadd acc (stock_amount s); Some (Next acc') }) (vlist v) 0
      = Some (Next (0 + (\<Sum>s \<leftarrow> vlist v. stock_amount s)) :: (int, _) flow)"
    by (rule list_loop_sum)
      (use assms in \<open>auto simp: total_amount_def stocks_wf_def list_all_iff stock_wf_def\<close>)
  then show ?thesis
    using assms(1) by (simp add: stock_sum_def vec.scan total_amount_def)
qed

lemma total_zero_satisfied:
  "list_all stock_wf ss \<Longrightarrow> total_amount ss = 0 \<longleftrightarrow> satisfied ss"
  unfolding total_amount_def satisfied_def
  by (subst sum_list_nonneg_eq_0_iff) (auto simp: list_all_iff stock_wf_def)

definition demand :: "sim_map \<Rightarrow> int" where
  "demand m = (\<Sum>c \<leftarrow> vlist (map_cities m). total_amount (vlist (city_stock c)))"

definition satisfied_cities :: "sim_map \<Rightarrow> nat" where
  "satisfied_cities m = length (filter (\<lambda>c. satisfied (vlist (city_stock c))) (vlist (map_cities m)))"

lemma get_map_status_loop:
  assumes "\<And>c. c \<in> set cs \<Longrightarrow> stocks_wf (city_stock c)" "0 \<le> t"
    and "in_int (t + (\<Sum>c \<leftarrow> cs. total_amount (vlist (city_stock c))))"
  shows "list_loop k (\<lambda>i c (total, n). do {
          a \<leftarrow> stock_sum (city_stock c);
          let n' = (if a = 0 then n + 1 else n);
          total' \<leftarrow> iadd total a;
          Some (Next (total', n'))
        }) cs (t, n) =
    Some (Next (t + (\<Sum>c \<leftarrow> cs. total_amount (vlist (city_stock c))),
                n + int (length (filter (\<lambda>c. satisfied (vlist (city_stock c))) cs))) :: ('r, _) flow)"
  using assms
proof (induction cs arbitrary: k t n)
  case (Cons c cs)
  let ?a = "total_amount (vlist (city_stock c))" and
    ?rest = "\<Sum>c \<leftarrow> cs. total_amount (vlist (city_stock c))"
  have wf: "list_all stock_wf (vlist (city_stock c))"
    using Cons.prems(1) by (simp add: stocks_wf_def)
  have nn: "0 \<le> ?a" "0 \<le> ?rest"
    using Cons.prems(1) wf total_amount_nonneg by (auto simp: stocks_wf_def intro!: sum_list_nonneg)
  have fits: "in_int ?a" "in_int (t + ?a)"
    by (rule in_int_between [OF _ _ Cons.prems(3)], use nn Cons.prems(2) in simp_all)+
  have IH: "list_loop (Suc k) (\<lambda>i c (total, n). do {
          a \<leftarrow> stock_sum (city_stock c);
          let n' = (if a = 0 then n + 1 else n);
          total' \<leftarrow> iadd total a;
          Some (Next (total', n'))
        }) cs (t + ?a, n') =
    Some (Next (t + ?a + ?rest,
                n' + int (length (filter (\<lambda>c. satisfied (vlist (city_stock c))) cs))) :: ('r, _) flow)" for n'
    by (rule Cons.IH) (use Cons.prems nn in \<open>auto simp: add.assoc\<close>)
  show ?case
    using Cons.prems(1) fits total_zero_satisfied [OF wf]
    by (simp add: stock_sum_refines IH [unfolded Let_def] Let_def add.assoc)
qed simp

lemma get_map_status_refines:
  assumes "map_wf m"
  shows "get_map_status m = Some (demand m, int (satisfied_cities m))"
proof -
  let ?body = "\<lambda>i c (total, n). do {
      a \<leftarrow> stock_sum (city_stock c);
      let n' = (if a = 0 then n + 1 else n);
      total' \<leftarrow> iadd total a;
      Some (Next (total', n'))
    }"
  have "get_map_status m =
      after_loop (for_loop (getVectorSize (map_cities m)) 0
        (\<lambda>i s. vec_deref (map_cities m) (int i) \<bind> (\<lambda>c. ?body i c s)) (0, 0)) Some"
    by (simp add: get_map_status_def split_def)
  also have "\<dots> = after_loop (list_loop 0 ?body (vlist (map_cities m)) (0, 0)) Some"
    by (subst vec.scan) (use assms in \<open>auto simp: map_wf_cities\<close>)
  also have "\<dots> = Some (demand m, int (satisfied_cities m))"
    by (subst get_map_status_loop)
      (use assms in \<open>auto simp: map_wf_stocks map_wf_def demand_def satisfied_cities_def\<close>)
  finally show ?thesis .
qed

end
