(* ===== verification/Map_Destinations.thy ===== *)
theory Map_Destinations
  imports Map_Unload "HOL-Library.Multiset"
begin

text \<open>
  \<open>app/map.c\<close>, second part: which cities the map offers a plane. Every city with a
  positive score is a candidate; an array of ten entries keeps the best scores seen
  (\<open>insertScore\<close>), is sorted by distance (\<open>qsort\<close> with \<open>cityInfoComparator\<close>) and sent.

  The entries of the array start indeterminate and are filled field by field. \<open>qsort\<close> is
  modelled by insertion sort; the order of entries that compare equal is not specified by C,
  and no lemma below depends on it: only \<open>sort_contract\<close>'s two laws are used.
\<close>

section \<open>The code\<close>

record CityInfo =
  ci_cityId :: "int option"
  ci_distance :: "int option"
  ci_score :: "int option"

definition ci_unset :: CityInfo where
  "ci_unset = \<lparr>ci_cityId = None, ci_distance = None, ci_score = None\<rparr>"

definition ci_at :: "CityInfo list \<Rightarrow> nat \<Rightarrow> CityInfo option" where
  "ci_at infos i = (if i < length infos then Some (infos ! i) else None)"

text \<open>The scan for the first entry with the smallest score.\<close>

definition min_score :: "CityInfo list \<Rightarrow> nat \<Rightarrow> (int \<times> nat) option" where
  "min_score infos elems = do {
     first \<leftarrow> ci_at infos 0;
     min0 \<leftarrow> ci_score first;
     after_loop
       (for_loop elems 0 (\<lambda>i (min, minIndex). do {
          e \<leftarrow> ci_at infos i;
          s \<leftarrow> ci_score e;
          Some (Next (if s < min then (s, i) else (min, minIndex)))
        }) (min0, 0))
       Some
   }"

definition insertScore :: "CityInfo list \<Rightarrow> nat \<Rightarrow> nat \<Rightarrow> int \<Rightarrow> (int \<times> CityInfo list) option" where
  "insertScore cityInfo entries elems score =
     (if elems < entries then do {
        e \<leftarrow> ci_at cityInfo elems;
        Some (int elems, cityInfo[elems := e\<lparr>ci_score := Some score\<rparr>])
      } else do {
        (min, minIndex) \<leftarrow> min_score cityInfo elems;
        e \<leftarrow> ci_at cityInfo minIndex;
        s \<leftarrow> ci_score e;
        if score > s then Some (int minIndex, cityInfo[minIndex := e\<lparr>ci_score := Some score\<rparr>])
        else Some (- 1, cityInfo)
      })"

definition cityInfoComparator :: "CityInfo \<Rightarrow> CityInfo \<Rightarrow> int option" where
  "cityInfoComparator a b = do {
     da \<leftarrow> ci_distance a;
     db \<leftarrow> ci_distance b;
     isub da db
   }"

text \<open>\<open>qsort\<close> may compare any two entries, so each comparison has to be defined.\<close>

fun insert_by :: "('a \<Rightarrow> 'a \<Rightarrow> int option) \<Rightarrow> 'a \<Rightarrow> 'a list \<Rightarrow> 'a list" where
  "insert_by cmp x [] = [x]"
| "insert_by cmp x (y # ys) = (if the (cmp x y) \<le> 0 then x # y # ys else y # insert_by cmp x ys)"

definition c_qsort :: "('a \<Rightarrow> 'a \<Rightarrow> int option) \<Rightarrow> 'a list \<Rightarrow> 'a list option" where
  "c_qsort cmp xs =
     (if list_all (\<lambda>x. list_all (\<lambda>y. cmp x y \<noteq> None) xs) xs
      then Some (foldr (insert_by cmp) xs []) else None)"

text \<open>The loop over the cities; \<open>cnt\<close> entries of the array are in use.\<close>

definition collect_city :: "sim_map \<Rightarrow> plane \<Rightarrow> nat \<Rightarrow> nat \<times> CityInfo list \<Rightarrow> (nat \<times> CityInfo list) option" where
  "collect_city m pl i = (\<lambda>(cnt, cityInfo). do {
     c \<leftarrow> vec_deref (map_cities m) (int i);
     score \<leftarrow> getCityScore (city_stock c) (plane_stocks pl);
     if score = 0 then Some (cnt, cityInfo)
     else do {
       (index, cityInfo') \<leftarrow> insertScore cityInfo MAX_DESTINATIONS cnt score;
       if index = - 1 then Some (cnt, cityInfo')
       else do {
         distance \<leftarrow> getDistance m (city_id c) (plane_cityId pl);
         e \<leftarrow> ci_at cityInfo' (nat index);
         Some (if cnt \<noteq> MAX_DESTINATIONS then cnt + 1 else cnt,
               cityInfo'[nat index := e\<lparr>ci_cityId := Some (city_id c), ci_distance := Some distance\<rparr>])
       }
     }
   })"

text \<open>The loop that copies the sorted entries to the two arrays of the message.\<close>

definition split_infos :: "CityInfo list \<Rightarrow> nat \<Rightarrow> (int arr \<times> int arr) option" where
  "split_infos cityInfo cnt =
     after_loop
       (for_loop cnt 0 (\<lambda>i (citiesIds, distances). do {
          e \<leftarrow> ci_at cityInfo i;
          c \<leftarrow> ci_cityId e;
          citiesIds' \<leftarrow> arr_set citiesIds i c;
          d \<leftarrow> ci_distance e;
          distances' \<leftarrow> arr_set distances i d;
          Some (Next (citiesIds', distances'))
        }) (arr_new MAX_DESTINATIONS, arr_new MAX_DESTINATIONS))
       Some"

text \<open>\<open>app_give_destinations\<close>, up to the message handed to \<open>comm_give_destinations\<close>.\<close>

definition app_give_destinations :: "sim_map \<Rightarrow> plane \<Rightarrow> DestinationsMessage option" where
  "app_give_destinations m pl = do {
     (cnt, cityInfo) \<leftarrow> after_loop
       (for_loop (getVectorSize (map_cities m)) 0 (\<lambda>i s. do {
          s' \<leftarrow> collect_city m pl i s;
          Some (Next s')
        }) (0, replicate MAX_DESTINATIONS ci_unset))
       Some;
     sorted_infos \<leftarrow> c_qsort cityInfoComparator (take cnt cityInfo);
     (citiesIds, distances) \<leftarrow> split_infos (sorted_infos @ drop cnt cityInfo) cnt;
     marshall_give_destinations (plane_id pl) cnt citiesIds distances
   }"

section \<open>Sorting\<close>

locale sort_contract =
  fixes le :: "'a \<Rightarrow> 'a \<Rightarrow> bool" and sort_fn :: "'a list \<Rightarrow> 'a list"
  assumes sort_mset: "mset (sort_fn xs) = mset xs"
    and sort_sorted: "sorted_wrt le (sort_fn xs)"
begin

lemma sort_set: "set (sort_fn xs) = set xs"
  by (metis set_mset_mset sort_mset)

lemma sort_length: "length (sort_fn xs) = length xs"
  by (metis size_mset sort_mset)

text \<open>The first element of the sorted list comes before every element of the list.\<close>

lemma sort_head:
  assumes "xs \<noteq> []" "\<And>x. le x x"
  shows "sort_fn xs \<noteq> [] \<and> hd (sort_fn xs) \<in> set xs \<and> (\<forall>x \<in> set xs. le (hd (sort_fn xs)) x)"
proof -
  have ne: "sort_fn xs \<noteq> []"
    using assms(1) sort_length [of xs] by auto
  then obtain y ys where "sort_fn xs = y # ys"
    by (cases "sort_fn xs") auto
  moreover have "le y x" if "x \<in> set (y # ys)" for x
    using that assms(2) sort_sorted [of xs] by (auto simp: calculation)
  ultimately show ?thesis
    using sort_set [of xs] by auto
qed

end

text \<open>A candidate as the loop collects it: score, city, distance.\<close>

record candidate =
  cand_score :: int
  cand_city :: int
  cand_dist :: int

definition ci_of :: "candidate \<Rightarrow> CityInfo" where
  "ci_of c = \<lparr>ci_cityId = Some (cand_city c), ci_distance = Some (cand_dist c),
     ci_score = Some (cand_score c)\<rparr>"

text \<open>\<open>qsort\<close> with the comparator, on filled entries.\<close>

fun insert_dist :: "candidate \<Rightarrow> candidate list \<Rightarrow> candidate list" where
  "insert_dist x [] = [x]"
| "insert_dist x (y # ys) = (if cand_dist x \<le> cand_dist y then x # y # ys else y # insert_dist x ys)"

definition sort_dist :: "candidate list \<Rightarrow> candidate list" where
  "sort_dist xs = foldr insert_dist xs []"

lemma set_insert_dist: "set (insert_dist x xs) = insert x (set xs)"
  by (induction xs) auto

interpretation dist_sort: sort_contract "\<lambda>a b. cand_dist a \<le> cand_dist b" sort_dist
proof unfold_locales
  have "mset (insert_dist x xs) = add_mset x (mset xs)" for x xs
    by (induction xs) auto
  then show "mset (sort_dist xs) = mset xs" for xs
    by (induction xs) (auto simp: sort_dist_def)
  have "sorted_wrt (\<lambda>a b. cand_dist a \<le> cand_dist b) (insert_dist x xs)"
    if "sorted_wrt (\<lambda>a b. cand_dist a \<le> cand_dist b) xs" for x xs
    using that by (induction xs) (auto simp: set_insert_dist)
  then show "sorted_wrt (\<lambda>a b. cand_dist a \<le> cand_dist b) (sort_dist xs)" for xs
    by (induction xs) (auto simp: sort_dist_def)
qed

lemma cityInfoComparator_ci_of:
  "in_int (cand_dist a - cand_dist b) \<Longrightarrow>
   cityInfoComparator (ci_of a) (ci_of b) = Some (cand_dist a - cand_dist b)"
  by (simp add: cityInfoComparator_def ci_of_def)

lemma insert_by_ci_of:
  assumes "\<And>b. b \<in> set bs \<Longrightarrow> in_int (cand_dist a - cand_dist b)"
  shows "insert_by cityInfoComparator (ci_of a) (map ci_of bs) = map ci_of (insert_dist a bs)"
  using assms by (induction bs) (auto simp: cityInfoComparator_ci_of)

lemma c_qsort_ci_of:
  assumes "\<And>a. a \<in> set cands \<Longrightarrow> 0 \<le> cand_dist a \<and> in_int (cand_dist a)"
  shows "c_qsort cityInfoComparator (map ci_of cands) = Some (map ci_of (sort_dist cands))"
proof -
  have diff: "in_int (cand_dist a - cand_dist b)" if "a \<in> set cands" "b \<in> set cands" for a b
    using assms [OF that(1)] assms [OF that(2)] by (simp add: in_int_def INT_MIN_def INT_MAX_def)
  have "foldr (insert_by cityInfoComparator) (map ci_of xs) [] = map ci_of (sort_dist xs)"
    if "set xs \<subseteq> set cands" for xs
    using that
  proof (induction xs)
    case (Cons x xs)
    then have "insert_by cityInfoComparator (ci_of x) (map ci_of (sort_dist xs)) =
        map ci_of (insert_dist x (sort_dist xs))"
      using diff by (intro insert_by_ci_of) (auto simp: dist_sort.sort_set)
    with Cons show ?case
      by (simp add: sort_dist_def)
  qed (simp add: sort_dist_def)
  then show ?thesis
    using diff by (auto simp: c_qsort_def list_all_iff cityInfoComparator_ci_of)
qed

section \<open>Keeping the best scores\<close>

text \<open>
  \<open>kept\<close> are \<open>k\<close> of the candidates (all of them if there are fewer) and no candidate left
  out has a better score than one that is kept.
\<close>

definition best_of :: "nat \<Rightarrow> candidate list \<Rightarrow> candidate list \<Rightarrow> bool" where
  "best_of k cands kept \<longleftrightarrow> mset kept \<subseteq># mset cands \<and> length kept = min k (length cands) \<and>
     (\<forall>x \<in># mset kept. \<forall>y \<in># mset cands - mset kept. cand_score y \<le> cand_score x)"

lemma best_of_all: "length cands \<le> k \<Longrightarrow> best_of k cands cands"
  by (simp add: best_of_def)

lemma best_of_same:
  assumes "best_of k cands kept" "length cands < k"
  shows "mset kept = mset cands"
proof (rule ccontr)
  assume "mset kept \<noteq> mset cands"
  then have "mset kept \<subset># mset cands"
    using assms(1) by (simp add: best_of_def subset_mset.less_le)
  then have "size (mset kept) < size (mset cands)"
    by (rule mset_subset_size)
  with assms show False
    by (simp add: best_of_def)
qed

lemma best_of_append:
  assumes "best_of k cands kept" "length kept < k"
  shows "best_of k (cands @ [c]) (kept @ [c])"
proof -
  have "length cands < k"
    using assms by (auto simp: best_of_def min_def split: if_splits)
  with best_of_same [OF assms(1)] assms(1) show ?thesis
    by (auto simp: best_of_def)
qed

lemma diff_add_one: "B \<subseteq># A \<Longrightarrow> add_mset c A - B = add_mset c (A - B)"
  by (simp add: multiset_eq_iff subseteq_mset_def Suc_diff_le)

lemma best_of_drop:
  assumes "best_of k cands kept" "length kept = k" "\<And>x. x \<in> set kept \<Longrightarrow> cand_score c \<le> cand_score x"
  shows "best_of k (cands @ [c]) kept"
proof -
  have sub: "mset kept \<subseteq># mset cands" and len: "k \<le> length cands"
    using assms(1,2) by (auto simp: best_of_def)
  have "mset kept \<subseteq># add_mset c (mset cands)"
    using sub by (rule subset_mset.order_trans) simp
  with assms len show ?thesis
    by (auto simp: best_of_def diff_add_one [OF sub])
qed

lemma best_of_replace:
  assumes "best_of k cands kept" "length kept = k" "j < length kept"
    and "\<And>x. x \<in> set kept \<Longrightarrow> cand_score (kept ! j) \<le> cand_score x" "cand_score (kept ! j) < cand_score c"
  shows "best_of k (cands @ [c]) (kept[j := c])"
proof -
  let ?w = "kept ! j"
  have w: "?w \<in># mset kept"
    using assms(3) by simp
  have kept: "mset (kept[j := c]) = add_mset c (mset kept - {#?w#})"
    using assms(3) by (simp add: mset_update)
  have sub: "mset kept \<subseteq># mset cands"
    using assms(1) by (simp add: best_of_def)
  have "mset kept - {#?w#} \<subseteq># mset cands"
    using sub by (meson diff_subset_eq_self subset_mset.order_trans)
  then have "mset (kept[j := c]) \<subseteq># mset (cands @ [c])"
    by (simp add: kept)
  moreover have rest: "mset (cands @ [c]) - mset (kept[j := c]) = add_mset ?w (mset cands - mset kept)"
    using sub w by (simp add: kept multiset_eq_iff subseteq_mset_def) (metis Suc_diff_le)
  moreover have "cand_score y \<le> cand_score x"
    if "x \<in># mset (kept[j := c])" "y \<in># mset (cands @ [c]) - mset (kept[j := c])" for x y
  proof -
    have "cand_score y \<le> cand_score ?w"
      using that(2) assms(1) w unfolding rest best_of_def by auto
    moreover have "cand_score ?w \<le> cand_score x"
      using that(1) assms(4,5) unfolding kept by (auto dest: in_diffD)
    ultimately show ?thesis
      by simp
  qed
  ultimately show ?thesis
    using assms(1,2) by (auto simp: best_of_def min_def split: if_splits)
qed

section \<open>The array holds the best scores\<close>

definition infos_of :: "candidate list \<Rightarrow> CityInfo list" where
  "infos_of cs = map ci_of cs @ replicate (MAX_DESTINATIONS - length cs) ci_unset"

lemma ci_at_infos_of: "i < length cs \<Longrightarrow> ci_at (infos_of cs) i = Some (ci_of (cs ! i))"
  by (simp add: ci_at_def infos_of_def nth_append)

lemma infos_of_next:
  "length cs < MAX_DESTINATIONS \<Longrightarrow> (infos_of cs)[length cs := ci_of c] = infos_of (cs @ [c])"
proof -
  assume "length cs < MAX_DESTINATIONS"
  then obtain r where "MAX_DESTINATIONS - length cs = Suc r" "MAX_DESTINATIONS - Suc (length cs) = r"
    by (metis Suc_diff_Suc)
  then show ?thesis
    by (simp add: infos_of_def list_update_append)
qed

lemma infos_of_update: "i < length cs \<Longrightarrow> (infos_of cs)[i := ci_of c] = infos_of (cs[i := c])"
  by (simp add: infos_of_def list_update_append map_update)

lemma min_score_infos_of:
  assumes "cs \<noteq> []"
  shows "\<exists>j < length cs. min_score (infos_of cs) (length cs) = Some (cand_score (cs ! j), j) \<and>
    (\<forall>x \<in> set cs. cand_score (cs ! j) \<le> cand_score x)"
proof -
  let ?I = "\<lambda>i s. snd s < length cs \<and> fst s = cand_score (cs ! snd s) \<and>
    (\<forall>k < i. fst s \<le> cand_score (cs ! k))"
  let ?body = "\<lambda>i (min, minIndex). do {
      e \<leftarrow> ci_at (infos_of cs) i;
      s \<leftarrow> ci_score e;
      Some (Next (if s < min then (s, i) else (min, minIndex)))
    }"
  have "\<exists>s'. for_loop (length cs) 0 ?body (cand_score (cs ! 0), 0) =
      Some (Next s' :: (int \<times> nat, _) flow) \<and> ?I (0 + length cs) s'"
  proof (rule for_loop_invariant [where I = ?I])
    fix i s
    assume i: "i < 0 + length cs" and I: "?I i s"
    obtain mn ix where s: "s = (mn, ix)"
      by (cases s)
    have "mn \<le> cand_score (cs ! k)" if "k < i" for k
      using I that by (auto simp: s)
    then have "cand_score (cs ! i) \<le> cand_score (cs ! k)" if "k < i" "cand_score (cs ! i) < mn" for k
      using that by force
    then show "\<exists>s'. ?body i s = Some (Next s') \<and> ?I (Suc i) s'"
      using i I by (auto simp: s ci_at_infos_of ci_of_def less_Suc_eq)
  qed (use assms in simp)
  moreover have "ci_at (infos_of cs) 0 = Some (ci_of (cs ! 0))"
    using assms by (simp add: ci_at_infos_of)
  ultimately show ?thesis
    by (fastforce simp: min_score_def ci_of_def in_set_conv_nth)
qed

definition step_infos :: "candidate \<Rightarrow> nat \<times> CityInfo list \<Rightarrow> (nat \<times> CityInfo list) option" where
  "step_infos c = (\<lambda>(cnt, infos). do {
     (index, infos') \<leftarrow> insertScore infos MAX_DESTINATIONS cnt (cand_score c);
     if index = - 1 then Some (cnt, infos')
     else do {
       e \<leftarrow> ci_at infos' (nat index);
       Some (if cnt \<noteq> MAX_DESTINATIONS then cnt + 1 else cnt,
             infos'[nat index := e\<lparr>ci_cityId := Some (cand_city c), ci_distance := Some (cand_dist c)\<rparr>])
     }
   })"

text \<open>\<open>insertScore\<close> and the writes that follow it, on the array of the best candidates.\<close>

lemma step_infos_best:
  assumes "best_of MAX_DESTINATIONS cands kept"
  shows "\<exists>kept'. step_infos c (length kept, infos_of kept) = Some (length kept', infos_of kept') \<and>
    best_of MAX_DESTINATIONS (cands @ [c]) kept'"
proof (cases "length kept < MAX_DESTINATIONS")
  case True
  have "ci_at (infos_of kept) (length kept) = Some ci_unset"
    using True by (simp add: ci_at_def infos_of_def nth_append)
  moreover have "length kept < length (infos_of kept)"
    using True by (simp add: infos_of_def)
  moreover have "ci_unset\<lparr>ci_score := Some (cand_score c), ci_cityId := Some (cand_city c),
      ci_distance := Some (cand_dist c)\<rparr> = ci_of c"
    by (simp add: ci_unset_def ci_of_def)
  ultimately have "step_infos c (length kept, infos_of kept) =
      Some (length (kept @ [c]), infos_of (kept @ [c]))"
    using True infos_of_next [OF True, of c]
    by (simp add: step_infos_def insertScore_def ci_at_def ci_unset_def ci_of_def)
  with best_of_append [OF assms True] show ?thesis
    by blast
next
  case False
  then have full: "length kept = MAX_DESTINATIONS"
    using assms by (simp add: best_of_def)
  then have "kept \<noteq> []"
    by (auto simp: MAX_DESTINATIONS_def)
  then obtain j where j: "j < length kept" and
    ms: "min_score (infos_of kept) MAX_DESTINATIONS = Some (cand_score (kept ! j), j)"
    and least: "\<forall>x \<in> set kept. cand_score (kept ! j) \<le> cand_score x"
    using min_score_infos_of [of kept] full by auto
  have cj: "ci_at (infos_of kept) j = Some (ci_of (kept ! j))" "j < length (infos_of kept)"
    using j ci_at_infos_of by (auto simp: infos_of_def)
  show ?thesis
  proof (cases "cand_score (kept ! j) < cand_score c")
    case True
    have "step_infos c (length kept, infos_of kept) = Some (length (kept[j := c]), infos_of (kept[j := c]))"
      using True full ms cj infos_of_update [OF j, of c]
      by (simp add: step_infos_def insertScore_def ci_at_def ci_of_def)
    with best_of_replace [OF assms full j] least True show ?thesis
      by blast
  next
    case False
    then have "step_infos c (length kept, infos_of kept) = Some (length kept, infos_of kept)"
      using full ms cj by (simp add: step_infos_def insertScore_def ci_of_def)
    moreover have "best_of MAX_DESTINATIONS (cands @ [c]) kept"
      by (rule best_of_drop [OF assms full]) (use False least in force)
    ultimately show ?thesis
      by blast
  qed
qed

section \<open>The offer\<close>

definition candidate_of :: "sim_map \<Rightarrow> plane \<Rightarrow> city \<Rightarrow> candidate" where
  "candidate_of m pl c =
     \<lparr>cand_score = city_score (vlist (city_stock c)) (vlist (plane_stocks pl)),
      cand_city = city_id c,
      cand_dist = map_matrix m ! nat (city_id c) ! nat (plane_cityId pl)\<rparr>"

definition candidates :: "sim_map \<Rightarrow> plane \<Rightarrow> candidate list" where
  "candidates m pl =
     filter (\<lambda>c. cand_score c \<noteq> 0) (map (candidate_of m pl) (vlist (map_cities m)))"

text \<open>The distance matrix covers the cities; distances are non-negative.\<close>

definition routes_wf :: "sim_map \<Rightarrow> bool" where
  "routes_wf m \<longleftrightarrow> square (length (vlist (map_cities m))) (map_matrix m) \<and>
     list_all (list_all (\<lambda>d. 0 \<le> d \<and> in_int d)) (map_matrix m)"

definition destinations_message :: "int \<Rightarrow> candidate list \<Rightarrow> DestinationsMessage" where
  "destinations_message pid cs =
     \<lparr>dm_type = MessageTypeDestinations, dm_planeId = pid, dm_count = length cs,
      dm_destinations = arr_of MAX_DESTINATIONS (map cand_city cs),
      dm_distance = arr_of MAX_DESTINATIONS (map cand_dist cs)\<rparr>"

lemma map_wf_city_total:
  assumes "map_wf m" "c \<in> set (vlist (map_cities m))"
  shows "in_int (total_amount (vlist (city_stock c)))"
proof -
  let ?t = "\<lambda>c. total_amount (vlist (city_stock c))"
  have nn: "0 \<le> ?t d" if "d \<in> set (vlist (map_cities m))" for d
    using map_wf_stocks [OF assms(1) that] by (auto simp: stocks_wf_def intro: total_amount_nonneg)
  have "?t c \<le> (\<Sum>d \<leftarrow> vlist (map_cities m). ?t d)"
    using nn assms(2) by (intro member_le_sum_list) auto
  with nn [OF assms(2)] show ?thesis
    using assms(1) in_int_between by (simp add: map_wf_def)
qed

lemma collect_city_step:
  assumes m: "map_wf m" "routes_wf m" and pl: "stocks_wf (plane_stocks pl)"
    and city: "plane_cityId pl = int k" "k < length (vlist (map_cities m))"
    and i: "i < length (vlist (map_cities m))"
  shows "collect_city m pl i s =
    (let c = candidate_of m pl (vlist (map_cities m) ! i)
     in if cand_score c = 0 then Some s else step_infos c s)"
proof -
  let ?c = "vlist (map_cities m) ! i"
  have d: "vec_deref (map_cities m) (int i) = Some ?c"
    using vec.get_contents [OF map_wf_cities [OF m(1)] i] .
  have c: "?c \<in> set (vlist (map_cities m))"
    using i by simp
  have sc: "getCityScore (city_stock ?c) (plane_stocks pl) = Some (cand_score (candidate_of m pl ?c))"
    using getCityScore_refines [OF map_wf_stocks [OF m(1) c] pl map_wf_city_total [OF m(1) c]]
    by (simp add: candidate_of_def)
  have "getDistance m (city_id ?c) (plane_cityId pl) = Some (cand_dist (candidate_of m pl ?c))"
  proof -
    have "mat_get (map_matrix m) (int i) (int k) = Some (map_matrix m ! i ! k)"
      using m(2) i city(2) by (intro mat_get_square) (auto simp: routes_wf_def)
    then show ?thesis
      using m(1) i city(1) by (simp add: getDistance_def map_wf_id candidate_of_def)
  qed
  moreover have "cand_city (candidate_of m pl ?c) = city_id ?c"
    by (simp add: candidate_of_def)
  ultimately show ?thesis
    by (cases s) (auto simp: collect_city_def step_infos_def d sc Let_def split: Option.bind_splits)
qed

lemma collect_cities_best:
  assumes m: "map_wf m" "routes_wf m" and pl: "stocks_wf (plane_stocks pl)"
    and city: "plane_cityId pl = int k" "k < length (vlist (map_cities m))"
  shows "\<exists>kept. for_loop (getVectorSize (map_cities m)) 0
      (\<lambda>i s. do { s' \<leftarrow> collect_city m pl i s; Some (Next s') })
      (0, replicate MAX_DESTINATIONS ci_unset) =
    Some (Next (length kept, infos_of kept) :: (nat \<times> CityInfo list, _) flow) \<and>
    best_of MAX_DESTINATIONS (candidates m pl) kept"
proof -
  let ?cs = "vlist (map_cities m)"
  let ?cands = "\<lambda>i. filter (\<lambda>c. cand_score c \<noteq> 0) (map (candidate_of m pl) (take i ?cs))"
  let ?I = "\<lambda>i s. \<exists>kept. s = (length kept, infos_of kept) \<and> best_of MAX_DESTINATIONS (?cands i) kept"
  have "\<exists>s'. for_loop (length ?cs) 0 (\<lambda>i s. do { s' \<leftarrow> collect_city m pl i s; Some (Next s') })
      (0, replicate MAX_DESTINATIONS ci_unset) =
    Some (Next s' :: (nat \<times> CityInfo list, _) flow) \<and> ?I (0 + length ?cs) s'"
  proof (rule for_loop_invariant [where I = ?I])
    show "?I 0 (0, replicate MAX_DESTINATIONS ci_unset)"
      by (intro exI [of _ "[]"]) (simp add: infos_of_def best_of_all)
    fix i s
    assume i: "i < 0 + length ?cs" and I: "?I i s"
    let ?c = "candidate_of m pl (?cs ! i)"
    obtain kept where kept: "s = (length kept, infos_of kept)" "best_of MAX_DESTINATIONS (?cands i) kept"
      using I by blast
    show "\<exists>s'. do { s' \<leftarrow> collect_city m pl i s; Some (Next s') } = Some (Next s') \<and> ?I (Suc i) s'"
    proof (cases "cand_score ?c = 0")
      case True
      with i kept show ?thesis
        by (auto simp: collect_city_step [OF assms] Let_def take_Suc_conv_app_nth)
    next
      case False
      with step_infos_best [OF kept(2), of ?c] i kept show ?thesis
        by (auto simp: collect_city_step [OF assms] Let_def take_Suc_conv_app_nth)
    qed
  qed
  then show ?thesis
    using map_wf_cities [OF m(1)] by (auto simp: vec.count_contents candidates_def)
qed

lemma split_infos_ci_of:
  assumes "length cs \<le> MAX_DESTINATIONS"
  shows "split_infos (map ci_of cs @ rest) (length cs) =
    Some (arr_of MAX_DESTINATIONS (map cand_city cs), arr_of MAX_DESTINATIONS (map cand_dist cs))"
proof -
  let ?n = MAX_DESTINATIONS
  let ?body = "\<lambda>i (citiesIds, distances). do {
      e \<leftarrow> ci_at (map ci_of cs @ rest) i;
      c \<leftarrow> ci_cityId e;
      citiesIds' \<leftarrow> arr_set citiesIds i c;
      d \<leftarrow> ci_distance e;
      distances' \<leftarrow> arr_set distances i d;
      Some (Next (citiesIds', distances'))
    }"
  let ?st = "\<lambda>j. (arr_of ?n (map cand_city (take j cs)), arr_of ?n (map cand_dist (take j cs)))"
  have "\<exists>s'. for_loop (length cs) 0 ?body (?st 0) = Some (Next s' :: (int arr \<times> int arr, _) flow)
      \<and> s' = ?st (0 + length cs)"
  proof (rule for_loop_invariant [where I = "\<lambda>j s. s = ?st j"])
    fix j s
    assume j: "j < 0 + length cs" and s: "s = ?st j"
    have [simp]: "arr_set (arr_of ?n (map f (take j cs))) j x = Some (arr_of ?n (map f (take j cs) @ [x]))"
      for f :: "candidate \<Rightarrow> int" and x
      using arr_set_arr_of_next [of "map f (take j cs)" ?n x] assms j by (simp add: min_def)
    show "\<exists>s'. ?body j s = Some (Next s') \<and> s' = ?st (Suc j)"
      using j by (simp add: s ci_at_def nth_append ci_of_def take_Suc_conv_app_nth)
  qed simp
  then show ?thesis
    by (auto simp: split_infos_def arr_new_arr_of)
qed

text \<open>The message holds the best candidates, nearest first.\<close>

lemma app_give_destinations_message:
  assumes m: "map_wf m" "routes_wf m" and pl: "stocks_wf (plane_stocks pl)"
    and city: "plane_cityId pl = int k" "k < length (vlist (map_cities m))"
  shows "\<exists>kept. best_of MAX_DESTINATIONS (candidates m pl) kept \<and>
    app_give_destinations m pl = Some (destinations_message (plane_id pl) (sort_dist kept))"
proof -
  obtain kept where loop: "for_loop (getVectorSize (map_cities m)) 0
      (\<lambda>i s. do { s' \<leftarrow> collect_city m pl i s; Some (Next s') })
      (0, replicate MAX_DESTINATIONS ci_unset) =
    Some (Next (length kept, infos_of kept) :: (nat \<times> CityInfo list, _) flow)"
    and best: "best_of MAX_DESTINATIONS (candidates m pl) kept"
    using collect_cities_best [OF assms] by blast
  have len: "length (sort_dist kept) \<le> MAX_DESTINATIONS" "length (sort_dist kept) = length kept"
    using best by (auto simp: best_of_def dist_sort.sort_length)
  have dist: "0 \<le> cand_dist c \<and> in_int (cand_dist c)" if "c \<in> set kept" for c
  proof -
    have "c \<in> set (candidates m pl)"
      using best that by (auto simp: best_of_def dest!: mset_subset_eqD)
    then obtain i where i: "i < length (vlist (map_cities m))" "c = candidate_of m pl (vlist (map_cities m) ! i)"
      by (auto simp: candidates_def in_set_conv_nth)
    then show ?thesis
      using m city square_length [of _ "map_matrix m"] square_row [of _ "map_matrix m" i]
      by (auto simp: candidate_of_def map_wf_id routes_wf_def list_all_length)
  qed
  have "c_qsort cityInfoComparator (take (length kept) (infos_of kept)) = Some (map ci_of (sort_dist kept))"
    using c_qsort_ci_of [of kept] dist by (simp add: infos_of_def)
  moreover have "split_infos (map ci_of (sort_dist kept) @ drop (length kept) (infos_of kept)) (length kept) =
      Some (arr_of MAX_DESTINATIONS (map cand_city (sort_dist kept)),
            arr_of MAX_DESTINATIONS (map cand_dist (sort_dist kept)))"
    using split_infos_ci_of [OF len(1)] by (simp only: len(2))
  moreover have "marshall_give_destinations (plane_id pl) (length kept)
      (arr_of MAX_DESTINATIONS (map cand_city (sort_dist kept)))
      (arr_of MAX_DESTINATIONS (map cand_dist (sort_dist kept))) =
    Some (destinations_message (plane_id pl) (sort_dist kept))"
    using marshall_give_destinations_ok [of "map cand_city (sort_dist kept)" "map cand_dist (sort_dist kept)"]
      len by (simp add: destinations_message_def)
  ultimately have "app_give_destinations m pl =
      Some (destinations_message (plane_id pl) (sort_dist kept))"
    by (simp add: app_give_destinations_def loop)
  with best show ?thesis
    by blast
qed

end
