(* ===== verification/Map_Docking.thy ===== *)
theory Map_Docking
  imports Map_Destinations
begin

text \<open>
  A plane in a city of the map: what \<open>updateMap\<close> does to map and plane as a whole, and the
  invariants it keeps.
\<close>

text \<open>The parts of the map an unloading plane touches.\<close>

definition stocks_at :: "sim_map \<Rightarrow> nat \<Rightarrow> stock list" where
  "stocks_at m i = vlist (city_stock (vlist (map_cities m) ! i))"

definition docked :: "sim_map \<Rightarrow> plane \<Rightarrow> nat \<Rightarrow> bool" where
  "docked m pl i \<longleftrightarrow> map_wf m \<and> stocks_wf (plane_stocks pl) \<and> plane_cityId pl = int i \<and>
     i < length (vlist (map_cities m)) \<and> stocks_at m i \<noteq> []"

lemma dockedD:
  assumes "docked m pl i"
  shows "map_wf m" "stocks_wf (plane_stocks pl)" "plane_cityId pl = int i"
    "i < length (vlist (map_cities m))" "stocks_at m i \<noteq> []"
    "list_all stock_wf (stocks_at m i)" "list_all stock_wf (vlist (plane_stocks pl))"
    "length (stocks_at m i) < 2147483648"
proof -
  show D: "map_wf m" "stocks_wf (plane_stocks pl)" "plane_cityId pl = int i"
    "i < length (vlist (map_cities m))" "stocks_at m i \<noteq> []"
    using assms by (simp_all add: docked_def)
  have "stocks_wf (city_stock (vlist (map_cities m) ! i))"
    using map_wf_stocks [OF D(1)] D(4) by simp
  then obtain xs where "city_stock (vlist (map_cities m) ! i) = vec_of xs" "length xs < 2147483648"
    "\<And>s. s \<in> set xs \<Longrightarrow> stock_wf s"
    by (rule stocks_wfE) blast
  then show "list_all stock_wf (stocks_at m i)" "length (stocks_at m i) < 2147483648"
    by (simp_all add: stocks_at_def list_all_iff)
  show "list_all stock_wf (vlist (plane_stocks pl))"
    using D(2) by (simp add: stocks_wf_def)
qed

lemma updateMap_docked:
  assumes "docked m pl i"
  shows "updateMap m pl =
    Some (map_with_stock m i (fst (unload (stocks_at m i) (vlist (plane_stocks pl)))),
          pl\<lparr>plane_stocks := vec_of (snd (unload (stocks_at m i) (vlist (plane_stocks pl))))\<rparr>)"
  using updateMap_unload [OF dockedD(1,3,4) [OF assms] _ _ dockedD(2) [OF assms]] dockedD(5) [OF assms]
  by (simp add: stocks_at_def)

lemma stocks_at_with_stock [simp]:
  "i < length (vlist (map_cities m)) \<Longrightarrow> stocks_at (map_with_stock m i cs) i = cs"
  "j \<noteq> i \<Longrightarrow> stocks_at (map_with_stock m i cs) j = stocks_at m j"
  by (cases "j < length (vlist (map_cities m))"; simp add: stocks_at_def map_with_stock_def)+

lemma cities_with_stock [simp]:
  "length (vlist (map_cities (map_with_stock m i cs))) = length (vlist (map_cities m))"
  "map_matrix (map_with_stock m i cs) = map_matrix m"
  "map_product (map_with_stock m i cs) = map_product m"
  by (simp_all add: map_with_stock_def)

lemma demand_with_stock:
  assumes "i < length (vlist (map_cities m))"
  shows "demand (map_with_stock m i cs) = demand m - total_amount (stocks_at m i) + total_amount cs"
proof -
  let ?f = "\<lambda>c. total_amount (vlist (city_stock c))"
  have "sum_list (map ?f (xs[i := x])) = sum_list (map ?f xs) - ?f (xs ! i) + ?f x"
    if "i < length xs" for xs and x :: city
    using that by (induction xs arbitrary: i) (auto split: nat.split)
  from this [OF assms] show ?thesis
    by (simp add: demand_def map_with_stock_def stocks_at_def)
qed

lemma map_wf_with_stock:
  assumes m: "map_wf m" and i: "i < length (vlist (map_cities m))"
    and cs: "list_all stock_wf cs" "length cs < 2147483648" "total_amount cs \<le> total_amount (stocks_at m i)"
  shows "map_wf (map_with_stock m i cs)"
proof -
  let ?m = "map_with_stock m i cs"
  have stocks: "list_all (\<lambda>c. stocks_wf (city_stock c)) (vlist (map_cities ?m))"
    using m cs(1,2) by (simp add: map_with_stock_def map_wf_def list_all_update stocks_wf_def)
  have "0 \<le> demand ?m"
    unfolding demand_def using stocks
    by (intro sum_list_nonneg) (auto simp: list_all_iff stocks_wf_def total_amount_nonneg)
  moreover have "demand ?m \<le> demand m"
    using cs(3) by (simp add: demand_with_stock [OF i])
  moreover have "in_int (demand m)"
    using m by (simp add: map_wf_def demand_def)
  ultimately have "in_int (demand ?m)"
    by (rule in_int_between)
  moreover have "map city_id (vlist (map_cities ?m)) = map city_id (vlist (map_cities m))"
    using i by (simp add: map_with_stock_def map_update list_update_same_conv)
  moreover have "vec_inv (map_cities ?m)"
    using map_wf_cities [OF m] by (auto simp: map_with_stock_def elim!: vec_invE)
  ultimately show ?thesis
    using m stocks by (simp add: map_wf_def demand_def)
qed

lemma docked_unload:
  assumes "docked m pl i"
  shows "docked (map_with_stock m i (fst (unload (stocks_at m i) (vlist (plane_stocks pl)))))
    (pl\<lparr>plane_stocks := vec_of (snd (unload (stocks_at m i) (vlist (plane_stocks pl))))\<rparr>) i"
proof -
  note D = dockedD [OF assms]
  let ?u = "unload (stocks_at m i) (vlist (plane_stocks pl))"
  have wf: "list_all stock_wf (fst ?u)" "list_all stock_wf (snd ?u)"
    using unload_wf [OF D(6,7,5)] by auto
  have "total_amount (fst ?u) \<le> total_amount (stocks_at m i)"
    unfolding total_amount_def using unload_le [OF D(6,7)]
    by (auto intro!: sum_list_mono2)
  then have "map_wf (map_with_stock m i (fst ?u))"
    using wf D(8) by (intro map_wf_with_stock [OF D(1,4)]) auto
  moreover have "stocks_wf (vec_of (snd ?u))"
    using wf(2) D(2) by (simp add: stocks_wf_def vec_inv_length)
  moreover have "fst ?u \<noteq> []"
    using D(5) by (metis length_0_conv length_unload(1))
  ultimately show ?thesis
    using D by (simp add: docked_def)
qed

lemma map_wf_satisfied:
  assumes "map_wf m"
  shows "demand m = 0 \<longleftrightarrow> (\<forall>c \<in> set (vlist (map_cities m)). satisfied (vlist (city_stock c)))"
proof -
  have "0 \<le> total_amount (vlist (city_stock c)) \<and>
      (total_amount (vlist (city_stock c)) = 0 \<longleftrightarrow> satisfied (vlist (city_stock c)))"
    if "c \<in> set (vlist (map_cities m))" for c
    using map_wf_stocks [OF assms that] by (simp add: stocks_wf_def total_amount_nonneg total_zero_satisfied)
  then show ?thesis
    unfolding demand_def by (subst sum_list_nonneg_eq_0_iff) auto
qed

lemma endSimulation_wf:
  assumes "map_wf m"
  shows "endSimulation m turn = Some (if turn < 70000 \<and> demand m \<noteq> 0 then CONTINUE_SIM else END_SIM)"
  using map_wf_cities [OF assms] map_wf_stocks [OF assms] map_wf_satisfied [OF assms]
  by (subst endSimulation_refines) auto

end
