(* ===== verification/Floyd.thy ===== *)
theory Floyd
  imports C_Prelude
begin

text \<open>
  \<open>floydMatrix\<close> of \<open>parser.c\<close>: all pairs of distances, computed in place on the matrix
  the parser has filled, where 0 means that no route is known.

  The proof compares one run of the two inner loops with \<open>fw_stage\<close>, which computes all
  new entries from the old ones at once (row and column \<open>k\<close> do not change during stage
  \<open>k\<close>, because the diagonal stays 0), and then maintains, for routes whose intermediate
  cities are below \<open>k\<close>, that every entry is the length of such a route and at most the
  length of each of them.
\<close>

section \<open>The code\<close>

definition floyd_cell :: "nat \<Rightarrow> nat \<Rightarrow> nat \<Rightarrow> int list list \<Rightarrow> int list list option" where
  "floyd_cell k i j m = do {
     aux1 \<leftarrow> mat_get m (int i) (int j);
     ik \<leftarrow> mat_get m (int i) (int k);
     kj \<leftarrow> mat_get m (int k) (int j);
     aux2 \<leftarrow> (if ik \<noteq> 0 \<and> kj \<noteq> 0 then iadd ik kj else Some 0);
     if aux2 \<noteq> 0 \<and> i \<noteq> j \<and> (aux1 = 0 \<or> aux2 < aux1) then mat_set m (int i) (int j) aux2
     else Some m
   }"

definition floyd_row :: "nat \<Rightarrow> nat \<Rightarrow> nat \<Rightarrow> int list list \<Rightarrow> int list list option" where
  "floyd_row counter k i matrix =
     after_loop
       (for_loop counter 0 (\<lambda>j m. do { m' \<leftarrow> floyd_cell k i j m; Some (Next m') }) matrix)
       Some"

definition floyd_rows :: "nat \<Rightarrow> nat \<Rightarrow> int list list \<Rightarrow> int list list option" where
  "floyd_rows counter k matrix =
     after_loop
       (for_loop counter 0 (\<lambda>i m. do { m' \<leftarrow> floyd_row counter k i m; Some (Next m') }) matrix)
       Some"

definition floydMatrix :: "int list list \<Rightarrow> nat \<Rightarrow> int list list option" where
  "floydMatrix matrix counter =
     after_loop
       (for_loop counter 0 (\<lambda>k m. do { m' \<leftarrow> floyd_rows counter k m; Some (Next m') }) matrix)
       Some"

section \<open>One stage\<close>

type_synonym weights = "nat \<Rightarrow> nat \<Rightarrow> int"

definition entries :: "int list list \<Rightarrow> weights" where
  "entries m = (\<lambda>i j. m ! i ! j)"

definition fw_stage :: "nat \<Rightarrow> weights \<Rightarrow> weights" where
  "fw_stage k D = (\<lambda>i j.
     if i \<noteq> j \<and> D i k \<noteq> 0 \<and> D k j \<noteq> 0 \<and> (D i j = 0 \<or> D i k + D k j < D i j)
     then D i k + D k j else D i j)"

lemma fw_stage_col [simp]: "D k k = 0 \<Longrightarrow> fw_stage k D i k = D i k"
  by (simp add: fw_stage_def)

lemma fw_stage_row [simp]: "D k k = 0 \<Longrightarrow> fw_stage k D k j = D k j"
  by (simp add: fw_stage_def)

lemma fw_stage_diag [simp]: "fw_stage k D i i = D i i"
  by (simp add: fw_stage_def)

text \<open>The state in the middle of stage \<open>k\<close>: the cells before \<open>(i, j)\<close> are new.\<close>

definition mid_stage :: "nat \<Rightarrow> nat \<Rightarrow> weights \<Rightarrow> nat \<Rightarrow> nat \<Rightarrow> int list list \<Rightarrow> bool" where
  "mid_stage n k D i j m \<longleftrightarrow> square n m \<and>
     (\<forall>a < n. \<forall>b < n. entries m a b = (if a < i \<or> (a = i \<and> b < j) then fw_stage k D a b else D a b))"

lemma floyd_cell_mid:
  assumes "mid_stage n k D i j m" "i < n" "j < n" "k < n" "D k k = 0"
    and nn: "\<And>a b. a < n \<Longrightarrow> b < n \<Longrightarrow> 0 \<le> D a b"
    and ov: "\<And>a b. a < n \<Longrightarrow> b < n \<Longrightarrow> in_int (D a k + D k b)"
  shows "\<exists>m'. floyd_cell k i j m = Some m' \<and> mid_stage n k D i (Suc j) m'"
proof -
  have sq: "square n m"
    and e: "\<And>a b. a < n \<Longrightarrow> b < n \<Longrightarrow>
      m ! a ! b = (if a < i \<or> (a = i \<and> b < j) then fw_stage k D a b else D a b)"
    using assms(1) by (auto simp: mid_stage_def entries_def)
  have [simp]: "m ! i ! j = D i j" "m ! i ! k = D i k" "m ! k ! j = D k j"
    using assms(2-5) by (simp_all add: e)
  have pos: "D i k \<noteq> 0 \<Longrightarrow> D k j \<noteq> 0 \<Longrightarrow> D i k + D k j \<noteq> 0"
    using nn [of i k] nn [of k j] assms(2-4) by auto
  let ?m' = "if i \<noteq> j \<and> D i k \<noteq> 0 \<and> D k j \<noteq> 0 \<and> (D i j = 0 \<or> D i k + D k j < D i j)
    then m[i := (m ! i)[j := D i k + D k j]] else m"
  have "floyd_cell k i j m = Some ?m'"
    using sq assms(2-4) pos ov [of i j] by (auto simp: floyd_cell_def)
  moreover have "mid_stage n k D i (Suc j) ?m'"
    using sq assms(2,3) e
    by (auto simp: mid_stage_def entries_def square_update nth_mat_update fw_stage_def less_Suc_eq)
  ultimately show ?thesis
    by blast
qed

lemma mid_stage_row: "mid_stage n k D i n m \<Longrightarrow> mid_stage n k D (Suc i) 0 m"
  by (auto simp: mid_stage_def less_Suc_eq)

lemma floyd_row_mid:
  assumes "mid_stage n k D i 0 m" "i < n" "k < n" "D k k = 0"
    and "\<And>a b. a < n \<Longrightarrow> b < n \<Longrightarrow> 0 \<le> D a b"
    and "\<And>a b. a < n \<Longrightarrow> b < n \<Longrightarrow> in_int (D a k + D k b)"
  shows "\<exists>m'. floyd_row n k i m = Some m' \<and> mid_stage n k D (Suc i) 0 m'"
proof -
  have "\<exists>s'. for_loop n 0 (\<lambda>j m. do { m' \<leftarrow> floyd_cell k i j m; Some (Next m') }) m
      = Some (Next s' :: (int list list, _) flow) \<and> mid_stage n k D i (0 + n) s'"
  proof (rule for_loop_invariant [where I = "\<lambda>j. mid_stage n k D i j", OF assms(1)])
    fix j s
    assume "0 \<le> j" "j < 0 + n" "mid_stage n k D i j s"
    with floyd_cell_mid [of n k D i j s] assms(2-) show "\<exists>s'. do {
        m' \<leftarrow> floyd_cell k i j s; Some (Next m') } = Some (Next s') \<and> mid_stage n k D i (Suc j) s'"
      by auto
  qed
  then show ?thesis
    by (auto simp: floyd_row_def intro: mid_stage_row)
qed

lemma floyd_rows_stage:
  assumes "square n m" "k < n" "entries m k k = 0"
    and nn: "\<And>a b. a < n \<Longrightarrow> b < n \<Longrightarrow> 0 \<le> entries m a b"
    and ov: "\<And>a b. a < n \<Longrightarrow> b < n \<Longrightarrow> in_int (entries m a k + entries m k b)"
  shows "\<exists>m'. floyd_rows n k m = Some m' \<and> square n m' \<and>
    (\<forall>a < n. \<forall>b < n. entries m' a b = fw_stage k (entries m) a b)"
proof -
  let ?D = "entries m"
  have "mid_stage n k ?D 0 0 m"
    using assms(1) by (simp add: mid_stage_def)
  then have "\<exists>m'. for_loop n 0 (\<lambda>i m. do { m' \<leftarrow> floyd_row n k i m; Some (Next m') }) m
      = Some (Next m' :: (int list list, _) flow) \<and> mid_stage n k ?D (0 + n) 0 m'"
  proof (rule for_loop_invariant [where I = "\<lambda>i. mid_stage n k ?D i 0"])
    fix i s
    assume "0 \<le> i" "i < 0 + n" "mid_stage n k ?D i 0 s"
    with floyd_row_mid [of n k ?D i s] assms(2-) show "\<exists>s'. do {
        m' \<leftarrow> floyd_row n k i s; Some (Next m') } = Some (Next s') \<and> mid_stage n k ?D (Suc i) 0 s'"
      by auto
  qed
  then show ?thesis
    by (auto simp: floyd_rows_def mid_stage_def)
qed

section \<open>Routes\<close>

text \<open>A route from \<open>i\<close> to \<open>j\<close> through the cities \<open>vs\<close>; a weight 0 is a missing road.\<close>

fun route :: "weights \<Rightarrow> nat \<Rightarrow> nat list \<Rightarrow> nat \<Rightarrow> bool" where
  "route W i [] j \<longleftrightarrow> W i j \<noteq> 0"
| "route W i (v # vs) j \<longleftrightarrow> W i v \<noteq> 0 \<and> route W v vs j"

fun route_len :: "weights \<Rightarrow> nat \<Rightarrow> nat list \<Rightarrow> nat \<Rightarrow> int" where
  "route_len W i [] j = W i j"
| "route_len W i (v # vs) j = W i v + route_len W v vs j"

lemma route_append [simp]: "route W i (as @ v # bs) j \<longleftrightarrow> route W i as v \<and> route W v bs j"
  by (induction as arbitrary: i) auto

lemma route_len_append [simp]:
  "route_len W i (as @ v # bs) j = route_len W i as v + route_len W v bs j"
  by (induction as arbitrary: i) auto

definition nonneg_weights :: "nat \<Rightarrow> weights \<Rightarrow> bool" where
  "nonneg_weights n W \<longleftrightarrow> (\<forall>a < n. \<forall>b < n. 0 \<le> W a b)"

lemma route_len_nonneg:
  "nonneg_weights n W \<Longrightarrow> i < n \<Longrightarrow> j < n \<Longrightarrow> set vs \<subseteq> {..<n} \<Longrightarrow> 0 \<le> route_len W i vs j"
  by (induction vs arbitrary: i) (auto simp: nonneg_weights_def)

lemma route_len_bound:
  "(\<And>a b. a < n \<Longrightarrow> b < n \<Longrightarrow> W a b \<le> M) \<Longrightarrow> i < n \<Longrightarrow> j < n \<Longrightarrow> set vs \<subseteq> {..<n} \<Longrightarrow>
   route_len W i vs j \<le> int (Suc (length vs)) * M"
proof (induction vs arbitrary: i)
  case (Cons v vs)
  then have "W i v \<le> M" "route_len W v vs j \<le> int (Suc (length vs)) * M"
    by auto
  then show ?case
    by (simp add: algebra_simps)
qed simp

text \<open>Every route contains one that visits no city twice.\<close>

lemma simple_route:
  assumes "route W i vs j" "i \<noteq> j"
  shows "\<exists>us. set us \<subseteq> set vs \<and> distinct (i # us @ [j]) \<and> route W i us j"
  using assms(1)
proof (induction "length vs" arbitrary: vs rule: less_induct)
  case less
  have shorter: "\<exists>us. set us \<subseteq> set vs \<and> distinct (i # us @ [j]) \<and> route W i us j"
    if "length ws < length vs" "set ws \<subseteq> set vs" "route W i ws j" for ws
    using less.hyps [OF that(1,3)] that(2) by blast
  consider "i \<in> set vs" | "j \<in> set vs" | "\<not> distinct vs" | "distinct (i # vs @ [j])"
    using assms(2) by auto
  then show ?case
  proof cases
    case 1
    then obtain as bs where "vs = as @ i # bs"
      by (meson split_list)
    with less.prems show ?thesis
      by (intro shorter [of bs]) auto
  next
    case 2
    then obtain as bs where "vs = as @ j # bs"
      by (meson split_list)
    with less.prems show ?thesis
      by (intro shorter [of as]) auto
  next
    case 3
    then obtain as v bs cs where "vs = as @ [v] @ bs @ [v] @ cs"
      using not_distinct_decomp by blast
    with less.prems show ?thesis
      by (intro shorter [of "as @ v # cs"]) auto
  next
    case 4
    with less.prems show ?thesis
      by blast
  qed
qed

lemma simple_route_length:
  assumes "distinct (i # us @ [j])" "set us \<subseteq> {..<n}" "i < n" "j < n"
  shows "Suc (length us) \<le> n - 1"
proof -
  have "card (set (i # us @ [j])) \<le> card {..<n}"
    using assms by (intro card_mono) auto
  then show ?thesis
    using distinct_card [OF assms(1)] by simp
qed

section \<open>The invariant over the stages\<close>

text \<open>\<open>shortest n k W D\<close>: the matrix \<open>D\<close> knows the routes of \<open>W\<close> whose intermediate cities
  are below \<open>k\<close>.\<close>

definition shortest :: "nat \<Rightarrow> nat \<Rightarrow> weights \<Rightarrow> weights \<Rightarrow> bool" where
  "shortest n k W D \<longleftrightarrow>
     (\<forall>i < n. \<forall>j < n. (i = j \<longrightarrow> D i j = 0) \<and> 0 \<le> D i j \<and>
       (i \<noteq> j \<longrightarrow>
         (D i j \<noteq> 0 \<longrightarrow> (\<exists>vs. set vs \<subseteq> {..<k} \<and> route W i vs j \<and> D i j = route_len W i vs j)) \<and>
         (\<forall>vs. set vs \<subseteq> {..<k} \<and> route W i vs j \<longrightarrow> D i j \<noteq> 0 \<and> D i j \<le> route_len W i vs j)))"

lemma shortestD:
  assumes "shortest n k W D" "i < n" "j < n"
  shows shortest_diag: "i = j \<Longrightarrow> D i j = 0"
    and shortest_nonneg: "0 \<le> D i j"
    and shortest_sound: "D i j \<noteq> 0 \<Longrightarrow>
      \<exists>vs. set vs \<subseteq> {..<k} \<and> route W i vs j \<and> D i j = route_len W i vs j"
    and shortest_opt: "i \<noteq> j \<Longrightarrow> set vs \<subseteq> {..<k} \<Longrightarrow> route W i vs j \<Longrightarrow> D i j \<noteq> 0"
      "i \<noteq> j \<Longrightarrow> set vs \<subseteq> {..<k} \<Longrightarrow> route W i vs j \<Longrightarrow> D i j \<le> route_len W i vs j"
  using assms unfolding shortest_def by (metis, metis, metis, metis, metis)

lemma shortest_init:
  assumes "nonneg_weights n W" "\<And>i. i < n \<Longrightarrow> W i i = 0"
  shows "shortest n 0 W W"
proof -
  have "\<exists>vs. set vs \<subseteq> {..<0} \<and> route W i vs j \<and> W i j = route_len W i vs j"
    if "W i j \<noteq> 0" for i j
    using that by (intro exI [of _ "[]"]) simp
  then show ?thesis
    using assms by (auto simp: shortest_def nonneg_weights_def)
qed

text \<open>A route that uses city \<open>k\<close> is at least as long as the parts before its first and after
  its last visit of \<open>k\<close>.\<close>

lemma route_through:
  assumes "nonneg_weights n W" "k < n" "set vs \<subseteq> {..<Suc k}" "route W i vs j" "k \<in> set vs"
  obtains as bs where "set as \<subseteq> {..<k}" "set bs \<subseteq> {..<k}" "route W i as k" "route W k bs j"
    "route_len W i as k + route_len W k bs j \<le> route_len W i vs j"
proof -
  obtain as us where vs1: "vs = as @ k # us" and as: "k \<notin> set as"
    using split_list_first [OF assms(5)] by blast
  obtain cs bs where vs2: "k # us = cs @ k # bs" and bs: "k \<notin> set bs"
    using split_list_last [of k "k # us"] by auto
  have sub: "set as \<subseteq> {..<k}" "set bs \<subseteq> {..<k}"
  proof -
    have "set as \<subseteq> set vs" "set bs \<subseteq> set (k # us)" "set (k # us) \<subseteq> set vs"
      using vs1 by (auto simp: vs2)
    then show "set as \<subseteq> {..<k}" "set bs \<subseteq> {..<k}"
      using assms(3) as bs by (auto simp: less_Suc_eq subset_iff)
  qed
  have "route W k bs j \<and> route_len W k bs j \<le> route_len W k us j"
  proof (cases cs)
    case Nil
    with vs2 assms(4) vs1 show ?thesis
      by simp
  next
    case (Cons c cs')
    then have us: "us = cs' @ k # bs"
      using vs2 by simp
    have "set cs' \<subseteq> {..<n}"
      using assms(2,3) vs1 us by auto
    then have "0 \<le> route_len W k cs' k"
      using assms(1,2) route_len_nonneg by blast
    then show ?thesis
      using assms(4) vs1 us by simp
  qed
  then show ?thesis
    using that [OF sub] assms(4) vs1 by simp
qed

lemma shortest_stage:
  assumes W: "nonneg_weights n W" and D: "shortest n k W D" and k: "k < n"
  shows "shortest n (Suc k) W (fw_stage k D)"
  unfolding shortest_def
proof (intro allI impI conjI)
  fix i j
  assume i: "i < n" and j: "j < n"
  note Dij = shortestD [OF D i j] and Dik = shortestD [OF D i k] and Dkj = shortestD [OF D k j]
  show "fw_stage k D i j = 0" if "i = j"
    using Dij(1) that by simp
  show nn: "0 \<le> fw_stage k D i j"
    using Dij(2) Dik(2) Dkj(2) by (simp add: fw_stage_def)
  show "\<exists>vs. set vs \<subseteq> {..<Suc k} \<and> route W i vs j \<and> fw_stage k D i j = route_len W i vs j"
    if "fw_stage k D i j \<noteq> 0"
  proof (cases "fw_stage k D i j = D i j")
    case True
    with Dij(3) that obtain vs where "set vs \<subseteq> {..<k}" "route W i vs j" "D i j = route_len W i vs j"
      by auto
    with True show ?thesis
      by (intro exI [of _ vs]) auto
  next
    case False
    then have *: "D i k \<noteq> 0" "D k j \<noteq> 0" "fw_stage k D i j = D i k + D k j"
      by (auto simp: fw_stage_def split: if_splits)
    obtain as bs where "set as \<subseteq> {..<k}" "route W i as k" "D i k = route_len W i as k"
      "set bs \<subseteq> {..<k}" "route W k bs j" "D k j = route_len W k bs j"
      using Dik(3) Dkj(3) * by auto
    with * show ?thesis
      by (intro exI [of _ "as @ k # bs"]) auto
  qed
  fix vs
  assume neq: "i \<noteq> j" and vs: "set vs \<subseteq> {..<Suc k} \<and> route W i vs j"
  have "fw_stage k D i j \<noteq> 0 \<and> fw_stage k D i j \<le> route_len W i vs j"
  proof (cases "k \<in> set vs")
    case False
    then have "set vs \<subseteq> {..<k}"
      using vs by (auto simp: less_Suc_eq subset_iff)
    then have "D i j \<noteq> 0" "D i j \<le> route_len W i vs j"
      using Dij(4,5) [OF neq] vs by auto
    then show ?thesis
      using Dik(2) Dkj(2) by (auto simp: fw_stage_def)
  next
    case True
    then obtain as bs where *: "set as \<subseteq> {..<k}" "set bs \<subseteq> {..<k}" "route W i as k" "route W k bs j"
      "route_len W i as k + route_len W k bs j \<le> route_len W i vs j"
      using route_through [OF W k] vs by metis
    have len: "0 \<le> route_len W i as k" "0 \<le> route_len W k bs j"
      using W i j k * by (auto intro!: route_len_nonneg)
    consider "i = k" | "j = k" | "i \<noteq> k" "j \<noteq> k"
      by blast
    then show ?thesis
    proof cases
      case 1
      with Dkj(1,4,5) * len neq shortestD(1) [OF D k k] show ?thesis
        by fastforce
    next
      case 2
      with Dik(1,4,5) * len neq shortestD(1) [OF D k k] show ?thesis
        by fastforce
    next
      case 3
      then have "D i k \<noteq> 0" "D i k \<le> route_len W i as k" "D k j \<noteq> 0" "D k j \<le> route_len W k bs j"
        using Dik(4,5) [of as] Dkj(4,5) [of bs] * by auto
      with *(5) neq Dik(2) Dkj(2) show ?thesis
        by (auto simp: fw_stage_def)
    qed
  qed
  then show "fw_stage k D i j \<noteq> 0" "fw_stage k D i j \<le> route_len W i vs j"
    by auto
qed

text \<open>No entry exceeds the longest possible simple route, so the additions cannot overflow.\<close>

lemma shortest_bound:
  assumes "shortest n k W D" "k \<le> n" "i < n" "j < n"
    and M: "\<And>a b. a < n \<Longrightarrow> b < n \<Longrightarrow> W a b \<le> M" "0 \<le> M"
  shows "D i j \<le> int (n - 1) * M"
proof (cases "D i j = 0")
  case True
  with M(2) show ?thesis
    by simp
next
  case False
  note Dij = shortestD [OF assms(1,3,4)]
  have neq: "i \<noteq> j"
    using Dij(1) False by auto
  obtain vs where "set vs \<subseteq> {..<k}" "route W i vs j"
    using Dij(3) False by blast
  then obtain us where us: "set us \<subseteq> {..<k}" "distinct (i # us @ [j])" "route W i us j"
    using simple_route [OF _ neq] by (metis subset_trans)
  have un: "set us \<subseteq> {..<n}"
    using us(1) assms(2) by auto
  have "D i j \<le> route_len W i us j"
    using Dij(5) [OF neq us(1,3)] .
  also have "\<dots> \<le> int (Suc (length us)) * M"
    by (rule route_len_bound [OF M(1) assms(3,4) un])
  also have "\<dots> \<le> int (n - 1) * M"
    using simple_route_length [OF us(2) un assms(3,4)] M(2) by (intro mult_right_mono) auto
  finally show ?thesis .
qed

lemma shortest_cong:
  assumes "shortest n k W D" "\<And>a b. a < n \<Longrightarrow> b < n \<Longrightarrow> D' a b = D a b"
  shows "shortest n k W D'"
  using assms by (simp add: shortest_def)

text \<open>All stages: the distances, and no overflow on the way.\<close>

lemma floydMatrix_shortest:
  assumes sq: "square n m" and diag: "\<And>i. i < n \<Longrightarrow> entries m i i = 0"
    and W: "\<And>a b. a < n \<Longrightarrow> b < n \<Longrightarrow> 0 \<le> entries m a b \<and> entries m a b \<le> M"
    and M: "0 \<le> M" "2 * int (n - 1) * M \<le> INT_MAX"
  shows "\<exists>m'. floydMatrix m n = Some m' \<and> square n m' \<and> shortest n n (entries m) (entries m')"
proof -
  let ?W = "entries m"
  have nn: "nonneg_weights n ?W"
    using W by (simp add: nonneg_weights_def)
  have "\<exists>s'. for_loop n 0 (\<lambda>k m. do { m' \<leftarrow> floyd_rows n k m; Some (Next m') }) m
      = Some (Next s' :: (int list list, _) flow) \<and> square n s' \<and> shortest n (0 + n) ?W (entries s')"
  proof (rule for_loop_invariant [where I = "\<lambda>k s. square n s \<and> shortest n k ?W (entries s)"])
    show "square n m \<and> shortest n 0 ?W ?W"
      using sq shortest_init [OF nn diag] by simp
    fix k s
    assume "0 \<le> k" "k < 0 + n" and s: "square n s \<and> shortest n k ?W (entries s)"
    then have k: "k < n"
      by simp
    have bound: "0 \<le> entries s a b \<and> entries s a b \<le> int (n - 1) * M" if "a < n" "b < n" for a b
      using s k that W M(1) shortest_nonneg [of n k ?W "entries s" a b]
        shortest_bound [of n k ?W "entries s" a b M] by auto
    have "in_int (entries s a k + entries s k b)" if "a < n" "b < n" for a b
      using bound [OF that(1) k] bound [OF k that(2)] M(2) by (simp add: in_int_def INT_MIN_def)
    then obtain s' where "floyd_rows n k s = Some s'" "square n s'"
      "\<forall>a < n. \<forall>b < n. entries s' a b = fw_stage k (entries s) a b"
      using floyd_rows_stage [of n s k] s k bound shortest_diag [of n k ?W "entries s" k k] by auto
    then show "\<exists>s'. do { m' \<leftarrow> floyd_rows n k s; Some (Next m') } = Some (Next s') \<and>
        square n s' \<and> shortest n (Suc k) ?W (entries s')"
      using shortest_cong [OF shortest_stage [OF nn _ k]] s by auto
  qed
  then show ?thesis
    by (auto simp: floydMatrix_def)
qed

end
