(* ===== verification/Properties_Map.thy ===== *)
theory Properties_Map
  imports Map_Docking Floyd
begin

text \<open>
  The properties of the map (\<open>app/map.c\<close> and the distances of \<open>parser.c\<close>), and the
  small map on which their witnesses are evaluated.
\<close>

section \<open>A small map\<close>

text \<open>Three cities in a row, two products.\<close>

definition sample_products :: "product list" where
  "sample_products = [\<lparr>product_id = 0, product_name = ''agua''\<rparr>, \<lparr>product_id = 1, product_name = ''arroz''\<rparr>]"

definition sample_stock :: "nat \<Rightarrow> int \<Rightarrow> stock" where
  "sample_stock p n = \<lparr>stock_amount = n, stock_product = Some (sample_products ! p)\<rparr>"

definition sample_city :: "string \<Rightarrow> int \<Rightarrow> stock list \<Rightarrow> city" where
  "sample_city name i ss = \<lparr>city_name = name, city_id = i, city_stock = vec_of ss\<rparr>"

definition sample_map :: sim_map where
  "sample_map = \<lparr>map_cities = vec_of
       [sample_city ''A'' 0 [sample_stock 0 10, sample_stock 1 5],
        sample_city ''B'' 1 [sample_stock 0 7],
        sample_city ''C'' 2 [sample_stock 1 20]],
     map_product = vec_of sample_products,
     map_matrix = [[0, 5, 9], [5, 0, 4], [9, 4, 0]]\<rparr>"

definition sample_plane :: "int \<Rightarrow> stock list \<Rightarrow> plane" where
  "sample_plane c ss = \<lparr>plane_id = 0, plane_stocks = vec_of ss, plane_cityId = c, plane_distance = 0\<rparr>"

lemmas sample_defs = sample_map_def sample_city_def sample_plane_def sample_stock_def sample_products_def

lemma sample_wf:
  "map_wf sample_map" "routes_wf sample_map" "length (vlist (map_cities sample_map)) = 3"
  "0 \<le> n \<Longrightarrow> n \<le> 1000 \<Longrightarrow> p < 2 \<Longrightarrow> stock_wf (sample_stock p n)"
  by (auto simp: sample_defs map_wf_def routes_wf_def products_wf_def stocks_wf_def stock_wf_def square_def
      total_amount_def in_int_def INT_MIN_def INT_MAX_def upt_rec)

lemma sample_cities:
  "vlist (map_cities sample_map) =
     [sample_city ''A'' 0 [sample_stock 0 10, sample_stock 1 5],
      sample_city ''B'' 1 [sample_stock 0 7], sample_city ''C'' 2 [sample_stock 1 20]]"
  by (simp add: sample_map_def)

lemma sample_plane_simps [simp]:
  "plane_cityId (sample_plane c ss) = c" "vlist (plane_stocks (sample_plane c ss)) = ss"
  "plane_id (sample_plane c ss) = 0" "plane_stocks (sample_plane c ss) = vec_of ss"
  by (simp_all add: sample_plane_def)

lemma sample_stock_simps [simp]:
  "stock_amount (sample_stock p n) = n" "city_stock (sample_city name i ss) = vec_of ss"
  "city_id (sample_city name i ss) = i"
  "stock_pid (sample_stock 0 n) = 0" "stock_pid (sample_stock (Suc 0) n) = 1"
  "stock_pid (sample_stock 1 n) = 1"
  by (simp_all add: sample_defs stock_pid_def)

section \<open>Unloading\<close>

text \<open>
  C4. What \<open>updateMap\<close> does to any plane that docks in a city with stocks. Every stock of the plane
  is unloaded into one stock of the city: one of its own product if the city lists the product (the
  first), and the city's last stock otherwise. In the end every stock of the city is down by the sum
  of what was unloaded into it, or at 0, and every stock of the plane is down by what its stock of
  the city still needed after the plane's earlier stocks had been unloaded there, or at 0.
\<close>

theorem updateMap_unloads:
  assumes "docked m pl i"
  defines "cs \<equiv> stocks_at m i" and "ps \<equiv> vlist (plane_stocks pl)"
  shows "\<exists>m' pl'. updateMap m pl = Some (m', pl') \<and>
    length (stocks_at m' i) = length cs \<and> length (vlist (plane_stocks pl')) = length ps \<and>
    (\<forall>k<length cs. stocks_at m' i ! k = give (cs ! k) (directed cs ps k)) \<and>
    (\<forall>j<length ps. let k = city_slot (stock_pid (ps ! j)) cs in
       (if stock_pid (ps ! j) \<in> stock_pid ` set cs then k < length cs \<and> stock_pid (cs ! k) = stock_pid (ps ! j)
        else k = length cs - 1) \<and>
       vlist (plane_stocks pl') ! j = give (ps ! j) (max 0 (stock_amount (cs ! k) - directed cs (take j ps) k)))"
proof -
  note D = dockedD [OF assms(1), folded cs_def ps_def]
  show ?thesis
    using D(4) city_slot_less [OF D(5)] city_slot_match [of _ cs] city_slot_unlisted [of _ cs]
      unload_city_nth [OF D(6,7)] unload_plane_nth [OF D(6,7,5)]
    unfolding updateMap_docked [OF assms(1)] cs_def [symmetric] ps_def [symmetric]
    by (simp add: Let_def)
qed

text \<open>
  In particular, in a city which lists every product the plane carries the plane delivers of each
  product what the city needs, or all it has.
\<close>

lemma updateMap_delivers:
  assumes "docked m pl i" "pids_distinct (stocks_at m i)" "pids_distinct (vlist (plane_stocks pl))"
    and "stock_pid ` set (vlist (plane_stocks pl)) \<subseteq> stock_pid ` set (stocks_at m i)"
  shows "\<exists>m' pl'. updateMap m pl = Some (m', pl') \<and>
    stocks_at m' i = map (\<lambda>c. give c (amount_of (vlist (plane_stocks pl)) (stock_pid c))) (stocks_at m i) \<and>
    vlist (plane_stocks pl') = map (\<lambda>p. give p (amount_of (stocks_at m i) (stock_pid p))) (vlist (plane_stocks pl))"
  using unload_wanted [OF dockedD(6,7) [OF assms(1)] assms(2,3,4)] dockedD(4) [OF assms(1)]
  by (simp add: updateMap_docked [OF assms(1)])

lemma sample_docked: "docked sample_map (sample_plane 0 [sample_stock 0 4, sample_stock 1 8]) 0"
  "stocks_at sample_map 0 = [sample_stock 0 10, sample_stock 1 5]"
  using sample_wf by (simp_all add: docked_def stocks_at_def stocks_wf_def sample_cities)

theorem updateMap_unloads_witness:
  "\<exists>m' pl'. updateMap sample_map (sample_plane 0 [sample_stock 0 4, sample_stock 1 8]) = Some (m', pl') \<and>
    stocks_at m' 0 ! 0 = sample_stock 0 6 \<and> stocks_at m' 0 ! 1 = sample_stock 1 0 \<and>
    vlist (plane_stocks pl') ! 1 = sample_stock 1 3"
proof -
  let ?pl = "sample_plane 0 [sample_stock 0 4, sample_stock 1 8]"
  obtain m' pl' where u: "updateMap sample_map ?pl = Some (m', pl')"
    and c: "k < 2 \<Longrightarrow> stocks_at m' 0 ! k = give ([sample_stock 0 10, sample_stock 1 5] ! k)
        (directed [sample_stock 0 10, sample_stock 1 5] [sample_stock 0 4, sample_stock 1 8] k)"
    and p: "vlist (plane_stocks pl') ! 1 = give (sample_stock 1 8) (max 0 (5 - directed [sample_stock 0 10, sample_stock 1 5] [sample_stock 0 4] 1))"
    for k
    using updateMap_unloads [OF sample_docked(1)] by (fastforce simp: sample_docked(2) city_slot_def Let_def)
  show ?thesis
    using u c [of 0] c [of 1] p by (simp add: city_slot_def give_def) (simp add: sample_stock_def)
qed

text \<open>
  Unloading conserves goods: the demand of the whole map goes down by exactly the
  amount that leaves the plane, whether or not the city lists the products.
\<close>

theorem updateMap_conserves:
  assumes "docked m pl i"
  shows "\<exists>m' pl'. updateMap m pl = Some (m', pl') \<and>
    demand m - demand m' = total_amount (vlist (plane_stocks pl)) - total_amount (vlist (plane_stocks pl'))"
  using unload_total [OF dockedD(5) [OF assms], of "vlist (plane_stocks pl)"]
  by (simp add: updateMap_docked [OF assms] demand_with_stock [OF dockedD(4) [OF assms]])

theorem updateMap_conserves_witness:
  "\<exists>m' pl'. updateMap sample_map (sample_plane 0 [sample_stock 0 4, sample_stock 1 8]) = Some (m', pl') \<and>
    demand sample_map - demand m' = 12 - total_amount (vlist (plane_stocks pl'))"
  using updateMap_conserves [OF sample_docked(1)] by (simp add: total_amount_def)

text \<open>
  Unloading keeps the invariants of map and plane and touches nothing but the amounts in
  the plane's city and in the plane: products and their order, all other cities, the
  distances and the catalogue stay.
\<close>

theorem updateMap_frame:
  assumes "docked m pl i"
  shows "\<exists>m' pl'. updateMap m pl = Some (m', pl') \<and> docked m' pl' i \<and>
    map stock_product (stocks_at m' i) = map stock_product (stocks_at m i) \<and>
    map stock_product (vlist (plane_stocks pl')) = map stock_product (vlist (plane_stocks pl)) \<and>
    (\<forall>j. j \<noteq> i \<longrightarrow> stocks_at m' j = stocks_at m j) \<and>
    map_matrix m' = map_matrix m \<and> map_product m' = map_product m \<and> plane_id pl' = plane_id pl"
  using docked_unload [OF assms] dockedD(4) [OF assms]
  by (simp add: updateMap_docked [OF assms] unload_product)

theorem updateMap_frame_witness:
  "\<exists>m' pl'. updateMap sample_map (sample_plane 0 [sample_stock 0 4, sample_stock 1 8]) = Some (m', pl') \<and>
    docked m' pl' 0 \<and> (\<forall>j. j \<noteq> 0 \<longrightarrow> stocks_at m' j = stocks_at sample_map j)"
  using updateMap_frame [OF sample_docked(1)] by blast

text \<open>
  After unloading, the city scores 0 for the plane: what \<open>getCityScore\<close> ranks
  destinations by is exactly what \<open>updateMap\<close> moves, so a plane is not offered the city it
  stands in.
\<close>

theorem updateMap_no_gain_left:
  assumes "docked m pl i" "pids_distinct (stocks_at m i)"
  shows "\<exists>m' pl'. updateMap m pl = Some (m', pl') \<and>
    getCityScore (city_stock (vlist (map_cities m') ! i)) (plane_stocks pl') = Some 0"
proof -
  obtain m' pl' where u: "updateMap m pl = Some (m', pl')" "docked m' pl' i"
    "stocks_at m' i = fst (unload (stocks_at m i) (vlist (plane_stocks pl)))"
    "plane_stocks pl' = vec_of (snd (unload (stocks_at m i) (vlist (plane_stocks pl))))"
    using updateMap_docked [OF assms(1)] docked_unload [OF assms(1)] dockedD(4) [OF assms(1)] by auto
  have "getCityScore (city_stock (vlist (map_cities m') ! i)) (plane_stocks pl') =
      Some (city_score (stocks_at m' i) (vlist (plane_stocks pl')))"
    using dockedD(1,2,4) [OF u(2)] map_wf_city_total [of m'] map_wf_stocks [of m']
    unfolding stocks_at_def by (intro getCityScore_refines) auto
  then show ?thesis
    using u unload_score_zero [OF dockedD(6,7) [OF assms(1)] assms(2)] by simp
qed

theorem updateMap_no_gain_left_witness:
  "\<exists>m' pl'. updateMap sample_map (sample_plane 0 [sample_stock 0 4, sample_stock 1 8]) = Some (m', pl') \<and>
    getCityScore (city_stock (vlist (map_cities m') ! 0)) (plane_stocks pl') = Some 0"
  using updateMap_no_gain_left [OF sample_docked(1)] by (simp add: sample_docked(2) pids_distinct_def)

section \<open>What the city does not list\<close>

text \<open>
  C35. A product the city does not list is unloaded all the same: the inner loop of
  \<open>updateMap\<close> then leaves \<open>city_stock\<close> at the city's last stock, which is of another product. Its
  demand shrinks by at least what the plane carries of the unlisted product, or to 0; and if the
  plane carries nothing else, by exactly that, which the plane loses.
\<close>

theorem updateMap_wrong_product:
  assumes "docked m pl i" "p \<in> set (vlist (plane_stocks pl))" "stock_pid p \<notin> stock_pid ` set (stocks_at m i)"
  defines "unmet \<equiv> stock_amount (last (stocks_at m i))"
  shows "\<exists>m' pl'. updateMap m pl = Some (m', pl') \<and>
    stock_pid (last (stocks_at m' i)) = stock_pid (last (stocks_at m i)) \<and> stock_pid (last (stocks_at m' i)) \<noteq> stock_pid p \<and>
    stock_amount (last (stocks_at m' i)) \<le> unmet - min unmet (stock_amount p) \<and>
    (vlist (plane_stocks pl) = [p] \<longrightarrow>
       stock_amount (last (stocks_at m' i)) = unmet - min unmet (stock_amount p) \<and>
       vlist (plane_stocks pl') = [p\<lparr>stock_amount := stock_amount p - min (stock_amount p) unmet\<rparr>])"
proof -
  let ?cs = "stocks_at m i" and ?ps = "vlist (plane_stocks pl)"
  note D = dockedD [OF assms(1)]
  let ?k = "length ?cs - 1"
  have k: "?k < length ?cs" "last ?cs = ?cs ! ?k" "0 \<le> unmet"
    using D(5,6) by (auto simp: last_conv_nth unmet_def list_all_iff stock_wf_def)
  have slot: "city_slot (stock_pid p) ?cs = ?k"
    by (rule city_slot_unlisted [OF assms(3)])
  let ?out = "fst (unload ?cs ?ps)"
  have out: "last ?out = give (last ?cs) (directed ?cs ?ps ?k)"
  proof -
    have "length ?out = length ?cs" "?out \<noteq> []"
      using k(1) by (auto simp flip: length_greater_0_conv)
    then show ?thesis
      using unload_city_nth [OF D(6,7) k(1)] k(2) by (simp add: last_conv_nth)
  qed
  have "stock_pid (last ?cs) \<noteq> stock_pid p"
    using assms(3) last_in_set [OF D(5)] by (metis image_eqI)
  moreover have "stock_amount p \<le> directed ?cs ?ps ?k"
    using directed_member [OF D(7) assms(2), of ?cs] slot by simp
  moreover have "snd (unload ?cs [p]) = [p\<lparr>stock_amount := stock_amount p - min (stock_amount p) unmet\<rparr>]"
    using slot k(2) by (simp add: unload_one_def Let_def unmet_def min.commute)
  ultimately show ?thesis
    using out D(4) slot k(3) unfolding updateMap_docked [OF assms(1)]
    by (auto simp: give_def unmet_def stock_pid_def)
qed

theorem updateMap_wrong_product_witness:
  "\<exists>m' pl'. updateMap sample_map (sample_plane 1 [sample_stock 1 5]) = Some (m', pl') \<and>
    stock_amount (last (stocks_at sample_map 1)) = 7 \<and> stock_amount (last (stocks_at m' 1)) = 2 \<and>
    vlist (plane_stocks pl') = [sample_stock 1 0]"
proof -
  have d: "docked sample_map (sample_plane 1 [sample_stock 1 5]) 1"
    and s: "stocks_at sample_map 1 = [sample_stock 0 7]"
    using sample_wf by (simp_all add: docked_def stocks_at_def stocks_wf_def sample_cities)
  obtain m' pl' where "updateMap sample_map (sample_plane 1 [sample_stock 1 5]) = Some (m', pl')"
    "stock_amount (last (stocks_at m' 1)) = 2" "vlist (plane_stocks pl') = [(sample_stock 1 5)\<lparr>stock_amount := 0\<rparr>]"
    using updateMap_wrong_product [OF d, of "sample_stock 1 5"] by (auto simp: s simp del: One_nat_def)
  then show ?thesis
    by (simp add: s sample_stock_def del: One_nat_def)
qed

lemma discharge_no_stock:
  assumes "ps \<noteq> []" "length ps < 2147483648"
  shows "discharge 0 (vec_of [], vec_of ps) = None"
  using assms vec_deref_in [of 0 ps] by (simp add: discharge_def find_city_stock_def)

text \<open>
  In a city without stocks the pointer \<open>city_stock\<close> is never assigned, and a plane with
  any stock makes \<open>updateMap\<close> read through an indeterminate pointer.
\<close>

theorem updateMap_empty_city:
  assumes "map_wf m" "stocks_wf (plane_stocks pl)" "plane_cityId pl = int i"
    and "i < length (vlist (map_cities m))" "stocks_at m i = []" "vlist (plane_stocks pl) \<noteq> []"
  shows "updateMap m pl = None"
proof -
  obtain ps where ps: "plane_stocks pl = vec_of ps" "length ps < 2147483648" "ps \<noteq> []"
    using assms(2,6) by (auto elim!: stocks_wfE)
  obtain cs where cs: "map_cities m = vec_of cs" "length cs < 2147483648" "i < length cs"
    using map_wf_cities [OF assms(1)] assms(4) by (auto elim: vec_invE)
  have "vec_inv (city_stock (cs ! i))" "vlist (city_stock (cs ! i)) = []"
    using map_wf_stocks [OF assms(1), of "cs ! i"] assms(5) cs by (auto simp: stocks_at_def)
  then have "city_stock (cs ! i) = vec_of []"
    by (metis vec_invE)
  moreover obtain k where "length ps = Suc k"
    using ps(3) by (cases ps) auto
  ultimately show ?thesis
    by (simp add: updateMap_def ps cs assms(3) discharge_no_stock [OF ps(3,2)])
qed

definition empty_city_map :: sim_map where
  "empty_city_map = \<lparr>map_cities = vec_of [sample_city ''A'' 0 []], map_product = vec_of sample_products,
     map_matrix = [[0]]\<rparr>"

theorem updateMap_empty_city_witness:
  "updateMap empty_city_map (sample_plane 0 [sample_stock 0 4]) = None"
proof -
  have "map_wf empty_city_map"
    by (simp add: empty_city_map_def sample_defs map_wf_def products_wf_def stocks_wf_def in_int_def
        INT_MIN_def INT_MAX_def total_amount_def upt_rec)
  then show ?thesis
    using sample_wf(4) [of 4 0] by (intro updateMap_empty_city [where i = 0])
      (simp_all add: empty_city_map_def stocks_at_def stocks_wf_def)
qed

section \<open>The end of the simulation, and what is displayed\<close>

text \<open>
  The simulation goes on exactly while fewer than 70000 turns have been played and
  something is still wanted somewhere.
\<close>

theorem endSimulation_demand:
  assumes "map_wf m"
  shows "endSimulation m turn = Some (if turn < 70000 \<and> demand m \<noteq> 0 then CONTINUE_SIM else END_SIM)"
  by (rule endSimulation_wf [OF assms])

theorem endSimulation_demand_witness:
  "endSimulation sample_map 69999 = Some CONTINUE_SIM \<and> endSimulation sample_map 70000 = Some END_SIM"
  using endSimulation_demand [OF sample_wf(1), of 69999] endSimulation_demand [OF sample_wf(1), of 70000]
  by (simp add: demand_def total_amount_def sample_cities)

text \<open>
  The status shown after a turn: for a simulation that began with a positive demand
  \<open>T\<close>, a percentage between 0 and 100, which is 100 exactly when the simulation is over,
  and the number of satisfied cities.
\<close>

theorem send_map_status_percentage:
  assumes "map_wf m" "0 < T" "in_int T" "demand m \<le> T"
  shows "\<exists>p. send_map_status m T = Some (marshall_send_map_status (Some p) (int (satisfied_cities m))
      (int (length (vlist (map_cities m))))) \<and>
    0 \<le> p \<and> p \<le> 100 \<and> p = real_of_int (T - demand m) * 100 / real_of_int T \<and>
    (p = 100 \<longleftrightarrow> endSimulation m 0 = Some END_SIM)"
proof -
  have d: "0 \<le> demand m"
    unfolding demand_def using map_wf_stocks [OF assms(1)]
    by (intro sum_list_nonneg) (auto simp: stocks_wf_def total_amount_nonneg)
  have "in_int (T - demand m)"
    using d assms by (intro in_int_diff) auto
  then have s: "send_map_status m T = Some (marshall_send_map_status
      (Some (real_of_int (T - demand m) * 100 / real_of_int T)) (int (satisfied_cities m))
      (int (length (vlist (map_cities m)))))"
    using assms(2) by (simp add: send_map_status_def get_map_status_refines [OF assms(1)]
        vec.count_contents [OF map_wf_cities [OF assms(1)]])
  have e: "endSimulation m 0 = Some (if demand m \<noteq> 0 then CONTINUE_SIM else END_SIM)"
    by (simp add: endSimulation_wf [OF assms(1)])
  show ?thesis
    using s d e assms(2,4) by (auto simp: field_simps CONTINUE_SIM_def END_SIM_def)
qed

theorem send_map_status_percentage_witness:
  "\<exists>p. send_map_status sample_map 84 = Some (marshall_send_map_status (Some p) 0 3) \<and> p = 50"
  using send_map_status_percentage [OF sample_wf(1), of 84]
  by (simp add: demand_def total_amount_def sample_cities in_int_def INT_MIN_def INT_MAX_def satisfied_cities_def
      satisfied_def)

section \<open>Destinations and distances\<close>

text \<open>
  C5. What a plane is offered: at most ten cities that want something it carries, the best
  scores among all such cities (\<open>best_of\<close>), each with its distance, nearest first.
\<close>

theorem app_give_destinations_offer:
  assumes "map_wf m" "routes_wf m" "stocks_wf (plane_stocks pl)"
    and "plane_cityId pl = int i" "i < length (vlist (map_cities m))"
  shows "\<exists>offer. app_give_destinations m pl = Some (destinations_message (plane_id pl) offer) \<and>
    length offer = min 10 (length (candidates m pl)) \<and>
    sorted_wrt (\<lambda>a b. cand_dist a \<le> cand_dist b) offer \<and> best_of 10 (candidates m pl) offer"
proof -
  obtain kept where k: "best_of MAX_DESTINATIONS (candidates m pl) kept"
    "app_give_destinations m pl = Some (destinations_message (plane_id pl) (sort_dist kept))"
    using app_give_destinations_message [OF assms] by blast
  have "best_of 10 (candidates m pl) (sort_dist kept)"
    using k(1) dist_sort.sort_length [of kept]
    by (simp add: best_of_def dist_sort.sort_mset MAX_DESTINATIONS_def)
  then show ?thesis
    using k(2) dist_sort.sort_sorted by (auto simp: best_of_def)
qed

lemma sample_candidates:
  "candidates sample_map (sample_plane 0 [sample_stock 0 4, sample_stock 1 8]) =
     [\<lparr>cand_score = 9, cand_city = 0, cand_dist = 0\<rparr>, \<lparr>cand_score = 4, cand_city = 1, cand_dist = 5\<rparr>,
      \<lparr>cand_score = 8, cand_city = 2, cand_dist = 9\<rparr>]"
  by (simp add: candidates_def candidate_of_def sample_cities city_score_def amount_of_Cons)
    (simp add: sample_map_def amount_of_def)

theorem app_give_destinations_offer_witness:
  "\<exists>offer. app_give_destinations sample_map (sample_plane 0 [sample_stock 0 4, sample_stock 1 8]) =
      Some (destinations_message 0 offer) \<and> length offer = 3"
  using app_give_destinations_offer [OF sample_wf(1,2) dockedD(2) [OF sample_docked(1)], of 0] sample_wf(3)
  unfolding sample_candidates by auto

text \<open>
  A plane is sent home, that is offered no destination, exactly when no city of the map
  wants anything it still carries.
\<close>

theorem app_give_destinations_none:
  assumes "map_wf m" "routes_wf m" "stocks_wf (plane_stocks pl)"
    and "plane_cityId pl = int i" "i < length (vlist (map_cities m))"
  shows "\<exists>msg. app_give_destinations m pl = Some msg \<and>
    (dm_count msg = 0 \<longleftrightarrow> (\<forall>c \<in> set (vlist (map_cities m)).
        getCityScore (city_stock c) (plane_stocks pl) = Some 0))"
proof -
  obtain kept where k: "best_of MAX_DESTINATIONS (candidates m pl) kept"
    "app_give_destinations m pl = Some (destinations_message (plane_id pl) (sort_dist kept))"
    using app_give_destinations_message [OF assms] by blast
  have "dm_count (destinations_message (plane_id pl) (sort_dist kept)) = 0 \<longleftrightarrow> candidates m pl = []"
    using k(1) by (auto simp: destinations_message_def dist_sort.sort_length best_of_def MAX_DESTINATIONS_def min_def)
  also have "\<dots> \<longleftrightarrow> (\<forall>c \<in> set (vlist (map_cities m)).
      city_score (vlist (city_stock c)) (vlist (plane_stocks pl)) = 0)"
    by (simp add: candidates_def filter_empty_conv candidate_of_def)
  also have "\<dots> \<longleftrightarrow> (\<forall>c \<in> set (vlist (map_cities m)).
      getCityScore (city_stock c) (plane_stocks pl) = Some 0)"
  proof (rule ball_cong [OF refl])
    fix c
    assume "c \<in> set (vlist (map_cities m))"
    then show "city_score (vlist (city_stock c)) (vlist (plane_stocks pl)) = 0 \<longleftrightarrow>
        getCityScore (city_stock c) (plane_stocks pl) = Some 0"
      using getCityScore_refines [OF map_wf_stocks [OF assms(1)] assms(3) map_wf_city_total [OF assms(1)]]
      by simp
  qed
  finally show ?thesis
    by (intro exI [of _ "destinations_message (plane_id pl) (sort_dist kept)"] conjI k(2))
qed

theorem app_give_destinations_none_witness:
  "\<exists>msg. app_give_destinations sample_map (sample_plane 2 [sample_stock 0 0]) = Some msg \<and> dm_count msg = 0"
proof -
  have w: "stocks_wf (plane_stocks (sample_plane 2 [sample_stock 0 0]))"
    using sample_wf(4) by (simp add: stocks_wf_def)
  have z: "getCityScore (city_stock c) (vec_of [sample_stock 0 0]) = Some 0"
    if "c \<in> set (vlist (map_cities sample_map))" for c
    using that w map_wf_stocks [OF sample_wf(1) that] map_wf_city_total [OF sample_wf(1) that]
    by (subst getCityScore_refines) (auto simp: sample_cities city_score_def amount_of_Cons amount_of_def)
  show ?thesis
    using app_give_destinations_none [OF sample_wf(1,2) w, of 2] sample_wf(3) z by simp
qed

text \<open>
  C15. \<open>floydMatrix\<close> computes the length of the shortest route between any two cities, 0
  for the city itself and 0 for a city that cannot be reached, and no addition overflows as
  long as a route over all cities fits an \<open>int\<close> twice.
\<close>

theorem floydMatrix_distances:
  assumes "square n m" "\<And>i. i < n \<Longrightarrow> entries m i i = 0"
    and "\<And>a b. a < n \<Longrightarrow> b < n \<Longrightarrow> 0 \<le> entries m a b \<and> entries m a b \<le> M"
    and "0 \<le> M" "2 * int (n - 1) * M \<le> INT_MAX"
  shows "\<exists>m'. floydMatrix m n = Some m' \<and> square n m' \<and>
    (\<forall>i < n. \<forall>j < n. i \<noteq> j \<longrightarrow>
      (entries m' i j = 0 \<longleftrightarrow> (\<nexists>vs. set vs \<subseteq> {..<n} \<and> route (entries m) i vs j)) \<and>
      (\<forall>vs. set vs \<subseteq> {..<n} \<and> route (entries m) i vs j \<longrightarrow> entries m' i j \<le> route_len (entries m) i vs j) \<and>
      (entries m' i j \<noteq> 0 \<longrightarrow>
        (\<exists>vs. set vs \<subseteq> {..<n} \<and> route (entries m) i vs j \<and> entries m' i j = route_len (entries m) i vs j)))"
proof -
  obtain m' where m': "floydMatrix m n = Some m'" "square n m'" "shortest n n (entries m) (entries m')"
    using floydMatrix_shortest [OF assms] by blast
  show ?thesis
    using m'(1,2) shortest_sound [OF m'(3)] shortest_opt [OF m'(3)]
    by (intro exI [of _ m'] conjI allI impI) blast+
qed

definition sample_roads :: "int list list" where
  "sample_roads = [[0, 5, 20], [5, 0, 4], [20, 4, 0]]"

lemma sample_roads_ok:
  "square 3 sample_roads" "i < 3 \<Longrightarrow> entries sample_roads i i = 0"
  "a < 3 \<Longrightarrow> b < 3 \<Longrightarrow> 0 \<le> entries sample_roads a b \<and> entries sample_roads a b \<le> 20"
  "2 * int (3 - 1) * 20 \<le> INT_MAX"
  by (auto simp: sample_roads_def square_def entries_def INT_MAX_def less_Suc_eq numeral_3_eq_3)

theorem floydMatrix_distances_witness:
  "\<exists>m'. floydMatrix sample_roads 3 = Some m' \<and> entries m' 0 2 \<le> 9"
proof -
  have r: "route (entries sample_roads) 0 [1] 2" "route_len (entries sample_roads) 0 [1] 2 = 9"
    by (simp_all add: entries_def sample_roads_def)
  obtain m' where m': "floydMatrix sample_roads 3 = Some m'"
    "\<And>i j vs. i < 3 \<Longrightarrow> j < 3 \<Longrightarrow> i \<noteq> j \<Longrightarrow> set vs \<subseteq> {..<3} \<Longrightarrow> route (entries sample_roads) i vs j \<Longrightarrow>
      entries m' i j \<le> route_len (entries sample_roads) i vs j"
    using floydMatrix_distances [OF sample_roads_ok(1,2,3) _ sample_roads_ok(4)] by auto
  then have "entries m' 0 2 \<le> route_len (entries sample_roads) 0 [1] 2"
    by (intro m'(2) r(1)) auto
  with r(2) m'(1) show ?thesis
    by auto
qed

text \<open>
  Distances obey the triangle inequality where routes exist: going through a third city
  is never shorter, so a plane that is sent straight to a city takes the best route.
\<close>

theorem floydMatrix_triangle:
  assumes "square n m" "\<And>i. i < n \<Longrightarrow> entries m i i = 0"
    and "\<And>a b. a < n \<Longrightarrow> b < n \<Longrightarrow> 0 \<le> entries m a b \<and> entries m a b \<le> M"
    and "0 \<le> M" "2 * int (n - 1) * M \<le> INT_MAX"
    and "floydMatrix m n = Some m'" "i < n" "j < n" "k < n" "i \<noteq> j"
    and "entries m' i k \<noteq> 0" "entries m' k j \<noteq> 0"
  shows "entries m' i j \<noteq> 0 \<and> entries m' i j \<le> entries m' i k + entries m' k j"
proof -
  have D: "shortest n n (entries m) (entries m')"
    using floydMatrix_shortest [OF assms(1-5)] assms(6) by auto
  obtain as where as: "set as \<subseteq> {..<n}" "route (entries m) i as k" "entries m' i k = route_len (entries m) i as k"
    using shortest_sound [OF D assms(7,9,11)] by blast
  obtain bs where bs: "set bs \<subseteq> {..<n}" "route (entries m) k bs j" "entries m' k j = route_len (entries m) k bs j"
    using shortest_sound [OF D assms(9,8,12)] by blast
  have r: "set (as @ k # bs) \<subseteq> {..<n}" "route (entries m) i (as @ k # bs) j"
    using as bs assms(9) by auto
  show ?thesis
    using shortest_opt [OF D assms(7,8,10) r] as(3) bs(3) by simp
qed

lemma sample_roads_floyd: "floydMatrix sample_roads 3 = Some [[0, 5, 9], [5, 0, 4], [9, 4, 0]]"
  by code_simp

theorem floydMatrix_triangle_witness:
  "\<exists>m'. floydMatrix sample_roads 3 = Some m' \<and> entries m' 0 2 \<le> entries m' 0 1 + entries m' 1 2"
  using floydMatrix_triangle [OF sample_roads_ok(1,2,3) _ sample_roads_ok(4) sample_roads_floyd, of 0 2 1]
  by (simp add: sample_roads_floyd entries_def)

definition island_map :: sim_map where
  "island_map = \<lparr>map_cities = vec_of
       [sample_city ''A'' 0 [sample_stock 0 0], sample_city ''B'' 1 [sample_stock 0 7],
        sample_city ''C'' 2 [sample_stock 0 20]],
     map_product = vec_of sample_products, map_matrix = [[0, 5, 0], [5, 0, 0], [0, 0, 0]]\<rparr>"

lemma island_unreachable: "\<nexists>vs. set vs \<subseteq> {..<3} \<and> route (entries (map_matrix island_map)) 2 vs 0"
proof -
  have "set vs \<subseteq> {..<3} \<Longrightarrow> \<not> route (entries (map_matrix island_map)) 2 vs 0" for vs
    by (cases vs) (auto simp: entries_def island_map_def less_Suc_eq numeral_3_eq_3 numeral_2_eq_2)
  then show ?thesis
    by blast
qed

text \<open>
  C37. A city that cannot be reached has distance 0: on a map whose distances \<open>floydMatrix\<close> made
  from its roads, a city from which no route leads to the plane's, and which wants something the plane
  carries, comes before every offered city at a positive distance, if it is offered at all; and it is
  offered whenever no more than ten cities want anything.
\<close>

theorem unreachable_city_offered_first:
  assumes "map_wf m" "routes_wf m" "stocks_wf (plane_stocks pl)" "plane_cityId pl = int i"
    and n: "n = length (vlist (map_cities m))" "i < n" "j < n" "j \<noteq> i"
    and roads: "square n roads" "\<And>a. a < n \<Longrightarrow> entries roads a a = 0"
      "\<And>a b. a < n \<Longrightarrow> b < n \<Longrightarrow> 0 \<le> entries roads a b \<and> entries roads a b \<le> M" "0 \<le> M" "2 * int (n - 1) * M \<le> INT_MAX"
      "floydMatrix roads n = Some (map_matrix m)"
    and unreachable: "\<nexists>vs. set vs \<subseteq> {..<n} \<and> route (entries roads) j vs i"
    and wanted: "getCityScore (city_stock (vlist (map_cities m) ! j)) (plane_stocks pl) \<noteq> Some 0"
  shows "\<exists>offer. app_give_destinations m pl = Some (destinations_message (plane_id pl) offer) \<and>
    (length (candidates m pl) \<le> 10 \<longrightarrow> (\<exists>a<length offer. cand_city (offer ! a) = int j)) \<and>
    (\<forall>a<length offer. cand_city (offer ! a) = int j \<longrightarrow> cand_dist (offer ! a) = 0 \<and>
      (\<forall>b<length offer. 0 < cand_dist (offer ! b) \<longrightarrow> a < b))"
proof -
  let ?city = "vlist (map_cities m) ! j" and ?c = "candidate_of m pl (vlist (map_cities m) ! j)"
  have "shortest n n (entries roads) (entries (map_matrix m))"
    using floydMatrix_shortest [OF roads(1-5)] roads(6) by auto
  then have zero: "map_matrix m ! j ! i = 0"
    using shortest_sound [of n n "entries roads" "entries (map_matrix m)" j i] n unreachable by (auto simp: entries_def)
  have id: "city_id ?city = int j" and city: "?city \<in> set (vlist (map_cities m))"
    using assms(1) n by (auto simp: map_wf_def dest: arg_cong [where f = "\<lambda>xs. xs ! j"])
  have "getCityScore (city_stock ?city) (plane_stocks pl) = Some (cand_score ?c)"
    using getCityScore_refines [OF map_wf_stocks [OF assms(1) city] assms(3) map_wf_city_total [OF assms(1) city]]
    by (simp add: candidate_of_def)
  then have cand: "?c \<in> set (candidates m pl)"
    using wanted city by (simp add: candidates_def)
  obtain kept where k: "best_of MAX_DESTINATIONS (candidates m pl) kept"
    "app_give_destinations m pl = Some (destinations_message (plane_id pl) (sort_dist kept))"
    using app_give_destinations_message [OF assms(1-4)] n by auto
  let ?offer = "sort_dist kept"
  have sub: "set ?offer \<subseteq> set (candidates m pl)"
    using k(1) set_mset_mono dist_sort.sort_mset [of kept] by (fastforce simp: best_of_def simp flip: set_mset_mset)
  have dist: "cand_dist x = 0" if "x \<in> set ?offer" "cand_city x = int j" for x
    using that sub assms(4) zero by (auto simp: candidates_def candidate_of_def)
  have before: "a < b" if ab: "a < length ?offer" "cand_city (?offer ! a) = int j" "b < length ?offer" "0 < cand_dist (?offer ! b)" for a b
  proof (rule ccontr)
    assume "\<not> a < b"
    moreover have "a \<noteq> b"
      using ab dist [of "?offer ! a"] by auto
    ultimately have "cand_dist (?offer ! b) \<le> cand_dist (?offer ! a)"
      using dist_sort.sort_sorted [of kept] ab(1) by (simp add: sorted_wrt_iff_nth_less)
    then show False
      using ab dist [of "?offer ! a"] by simp
  qed
  have offered: "\<exists>a<length ?offer. cand_city (?offer ! a) = int j" if "length (candidates m pl) \<le> 10"
  proof -
    have "mset kept = mset (candidates m pl)"
      using k(1) that mset_subset_size [of "mset kept" "mset (candidates m pl)"]
      by (auto simp: best_of_def MAX_DESTINATIONS_def subset_mset.less_le)
    then have "?c \<in> set ?offer"
      using cand dist_sort.sort_mset [of kept] by (metis set_mset_mset)
    then show ?thesis
      using id by (auto simp: in_set_conv_nth candidate_of_def)
  qed
  show ?thesis
    using k(2) dist before offered by (intro exI [of _ ?offer]) auto
qed

theorem unreachable_city_offered_first_witness:
  "app_give_destinations island_map (sample_plane 0 [sample_stock 0 9]) =
      Some (destinations_message 0 [\<lparr>cand_score = 9, cand_city = 2, cand_dist = 0\<rparr>,
        \<lparr>cand_score = 7, cand_city = 1, cand_dist = 5\<rparr>]) \<and>
    (\<exists>offer. app_give_destinations island_map (sample_plane 0 [sample_stock 0 9]) = Some (destinations_message 0 offer) \<and>
      (\<exists>a<length offer. cand_city (offer ! a) = 2))"
proof (intro conjI)
  show "app_give_destinations island_map (sample_plane 0 [sample_stock 0 9]) =
      Some (destinations_message 0 [\<lparr>cand_score = 9, cand_city = 2, cand_dist = 0\<rparr>,
        \<lparr>cand_score = 7, cand_city = 1, cand_dist = 5\<rparr>])"
    by code_simp
next
  show "\<exists>offer. app_give_destinations island_map (sample_plane 0 [sample_stock 0 9]) = Some (destinations_message 0 offer) \<and>
      (\<exists>a<length offer. cand_city (offer ! a) = 2)"
  proof -
    have w: "map_wf island_map" "routes_wf island_map" "stocks_wf (plane_stocks (sample_plane 0 [sample_stock 0 9]))"
      using sample_wf(4) [of 9 0]
      by (auto simp: island_map_def sample_defs map_wf_def routes_wf_def products_wf_def stocks_wf_def stock_wf_def square_def
          total_amount_def in_int_def INT_MIN_def INT_MAX_def upt_rec)
    have n: "3 = length (vlist (map_cities island_map))" "(0::nat) < 3" "(2::nat) < 3" "(2::nat) \<noteq> 0"
      by (simp_all add: island_map_def)
    have r: "square 3 (map_matrix island_map)" "\<And>a. a < 3 \<Longrightarrow> entries (map_matrix island_map) a a = 0"
      "\<And>a b. a < 3 \<Longrightarrow> b < 3 \<Longrightarrow> 0 \<le> entries (map_matrix island_map) a b \<and> entries (map_matrix island_map) a b \<le> 5"
      "(0::int) \<le> 5" "2 * int (3 - 1) * 5 \<le> INT_MAX" "floydMatrix (map_matrix island_map) 3 = Some (map_matrix island_map)"
      by (auto simp: island_map_def square_def entries_def INT_MAX_def less_Suc_eq numeral_3_eq_3) code_simp
    have "getCityScore (city_stock (vlist (map_cities island_map) ! 2)) (vec_of [sample_stock 0 9]) \<noteq> Some 0"
      "length (candidates island_map (sample_plane 0 [sample_stock 0 9])) \<le> 10"
      by code_simp+
    moreover have "vlist (map_cities island_map) \<noteq> []"
      by (simp add: island_map_def)
    ultimately show ?thesis
      using unreachable_city_offered_first [where i = 0 and j = 2 and n = 3 and roads = "map_matrix island_map" and M = 5 and
          m = island_map and pl = "sample_plane 0 [sample_stock 0 9]"] w n r island_unreachable by auto
  qed
qed

end
