(* ===== verification/Properties_Data.thy ===== *)
theory Properties_Data
  imports Messages
begin

text \<open>
  The properties of the data the program is built on: the vector (\<open>utils/vector.c\<close>), the
  product catalogue and the lookups (\<open>models/\<close>), and the messages (\<open>marshall/\<close>).
\<close>

section \<open>The vector\<close>

text \<open>
  Appending to a vector of fewer than 2147483647 elements either appends (the result is
  the new index, the old elements keep theirs) or, when \<open>realloc\<close> fails, returns -1.
\<close>

theorem addToVector_appends:
  assumes "vec_inv v" "length (vlist v) < 2147483647"
  shows "\<exists>r v' al'. addToVector al v x = Some (r, v', al') \<and>
    (r \<noteq> - 1 \<longrightarrow> vec_inv v' \<and> r = int (length (vlist v)) \<and> vlist v' = vlist v @ [x] \<and>
       getFromVector v' r = Some (Some x, v') \<and>
       (\<forall>i < length (vlist v). getFromVector v' (int i) = getFromVector v (int i) \<bind> (\<lambda>(y, _). Some (y, v'))))"
proof -
  obtain r v' al' where a: "addToVector al v x = Some (r, v', al')"
    using vec.add_returns [OF assms(1)] by blast
  obtain xs where xs: "v = vec_of xs" "length xs < 2147483648"
    using assms(1) by (auto elim: vec_invE)
  have "vec_inv v' \<and> vlist v' = vlist v @ [x] \<and> r = int (length (vlist v))" if "r \<noteq> - 1"
    by (rule vec.add_ok [OF assms a that])
  then have "r \<noteq> - 1 \<longrightarrow> v' = vec_of (xs @ [x]) \<and> r = int (length xs)"
    by (auto simp: xs elim: vec_invE)
  then show ?thesis
    using a assms(2) xs getFromVector_in [of "length xs" "xs @ [x]"]
    by (intro exI [of _ r] exI [of _ v'] exI [of _ al']) (auto simp: nth_append)
qed

theorem addToVector_appends_witness:
  "\<exists>v'. addToVector [] (vec_of [1, 2, 3, 4, 5 :: int]) 6 = Some (5, v', []) \<and> vlist v' = [1, 2, 3, 4, 5, 6]"
  using addToVector_appends [of "vec_of [1, 2, 3, 4, 5 :: int]" "[]" 6]
  by (auto simp: addToVector_vec_of)

text \<open>
  Reading outside the vector returns NULL and leaves the mutex locked: no later access
  to this vector ever returns.
\<close>

theorem getFromVector_outside:
  assumes "vec_inv v" "in_int i" "i < 0 \<or> int (length (vlist v)) \<le> i"
  shows "\<exists>v'. getFromVector v i = Some (None, v') \<and> vlist v' = vlist v \<and>
    (\<forall>j. getFromVector v' j = None) \<and> (\<forall>al x. addToVector al v' x = None)"
proof -
  obtain xs where xs: "v = vec_of xs" "length xs < 2147483648"
    using assms(1) by (auto elim: vec_invE)
  have "length xs \<le> to_uint i"
  proof (cases "i < 0")
    case True
    then show ?thesis
      using assms(2) xs(2) to_uint_neg [of i] by (simp add: in_int_def INT_MIN_def le_nat_iff)
  next
    case False
    then show ?thesis
      using assms(2,3) xs by (simp add: in_int_def INT_MAX_def)
  qed
  then have "getFromVector v i = Some (None, v\<lparr>vec_lock := True\<rparr>)"
    by (simp add: getFromVector_def xs(1))
  then show ?thesis
    by (simp add: vlist_def) (simp add: getFromVector_def addToVector_def)
qed

theorem getFromVector_outside_witness:
  "\<exists>v'. getFromVector (vec_of [7 :: int]) (- 1) = Some (None, v') \<and> getFromVector v' 0 = None"
  using getFromVector_outside [of "vec_of [7 :: int]" "- 1"]
  by (auto simp: in_int_def INT_MIN_def INT_MAX_def)

text \<open>
  When \<open>realloc\<close> fails, \<open>addToVector\<close> returns -1, but the vector has lost its block and
  its mutex stays locked: no later access returns.
\<close>

theorem addToVector_failure:
  assumes "vec_inv v" "addToVector al v x = Some (- 1, v', al')" "length (vlist v) < 2147483647"
  shows "vec_pointer v' = [] \<and> (\<forall>j. getFromVector v' j = None) \<and> (\<forall>al y. addToVector al v' y = None)"
proof -
  obtain xs where xs: "v = vec_of xs"
    using assms(1) by (auto elim: vec_invE)
  have "vec_lock v' \<and> vec_pointer v' = []"
    using assms(2) by (auto simp: xs addToVector_vec_of Let_def split: prod.splits if_splits)
  then show ?thesis
    by (simp add: getFromVector_def addToVector_def)
qed

theorem addToVector_failure_witness:
  "\<exists>v' al'. addToVector [False] (vec_of [1, 2, 3, 4, 5 :: int]) 6 = Some (- 1, v', al') \<and> getFromVector v' 0 = None"
proof -
  let ?v = "(vec_of [1, 2, 3, 4, 5 :: int])\<lparr>vec_pointer := [], vec_lock := True\<rparr>"
  have "addToVector [False] (vec_of [1, 2, 3, 4, 5 :: int]) 6 = Some (- 1, ?v, [])"
    by (simp add: addToVector_vec_of)
  with addToVector_failure [OF _ this] show ?thesis
    by auto
qed

section \<open>The catalogue\<close>

text \<open>
  C34. \<open>getProduct\<close> interns names, whatever allocations fail: it always returns; a product it
  returns has the name asked for and is in the catalogue, which has grown by at most that
  product and still has one product per name, at the index that is its id; asking again
  returns the same product and changes nothing.
\<close>

theorem getProduct_interning:
  assumes "products_wf ps" "length (vlist ps) < 2147483647"
  shows "\<exists>res ps' al'. getProduct al name ps = Some (res, ps', al') \<and>
    (\<forall>p. res = Some p \<longrightarrow> products_wf ps' \<and> product_name p = name \<and> p \<in> set (vlist ps') \<and>
       vlist ps' = (if name \<in> product_name ` set (vlist ps) then vlist ps else vlist ps @ [p]) \<and>
       (\<forall>al. getProduct al name ps' = Some (Some p, ps', al)))"
proof -
  have "\<exists>res ps' al'. getProduct al name ps = Some (res, ps', al')"
  proof (cases "name \<in> product_name ` set (vlist ps)")
    case True
    then show ?thesis
      using getProduct_known [OF assms(1)] by blast
  next
    case False
    show ?thesis
      unfolding getProduct_new [OF assms(1) False] by (simp add: Let_def split: prod.split)
  qed
  then obtain res ps' al' where g: "getProduct al name ps = Some (res, ps', al')"
    by blast
  show ?thesis
  proof (cases res)
    case None
    with g show ?thesis
      by blast
  next
    case (Some p)
    note i = getProduct_interns [OF assms g [unfolded Some]]
    have "getProduct al name ps' = Some (Some p, ps', al)" for al
      using getProduct_known [of ps' p al] i by metis
    with g Some i show ?thesis
      by blast
  qed
qed

theorem getProduct_interning_witness:
  "\<exists>ps' al'. getProduct [True] ''arroz'' (vec_of [\<lparr>product_id = 0, product_name = ''agua''\<rparr>]) =
    Some (Some \<lparr>product_id = 1, product_name = ''arroz''\<rparr>, ps', al') \<and> products_wf ps'"
proof -
  let ?ps = "vec_of [\<lparr>product_id = 0, product_name = ''agua''\<rparr>]"
  have wf: "products_wf ?ps"
    by (simp add: products_wf_def upt_rec)
  have "getProduct [True] ''arroz'' ?ps = Some (Some \<lparr>product_id = 1, product_name = ''arroz''\<rparr>,
      vec_of [\<lparr>product_id = 0, product_name = ''agua''\<rparr>, \<lparr>product_id = 1, product_name = ''arroz''\<rparr>], [])"
    by (subst getProduct_new [OF wf]) (simp_all add: Let_def)
  with getProduct_interning [OF wf, of "[True]" "''arroz''"] show ?thesis
    by auto
qed

text \<open>\<open>getCityId\<close> returns the id of the first city of that name, and -1 if there is none.\<close>

theorem getCityId_first:
  assumes "vec_inv cities"
  shows "getCityId name cities =
    Some (case filter (\<lambda>c. city_name c = name) (vlist cities) of [] \<Rightarrow> - 1 | c # _ \<Rightarrow> city_id c)"
proof -
  have "find (\<lambda>c. name = city_name c) xs =
      (case filter (\<lambda>c. city_name c = name) xs of [] \<Rightarrow> None | c # _ \<Rightarrow> Some c)" for xs
    by (induction xs) auto
  from this [of "vlist cities"] show ?thesis
    by (simp add: getCityId_find [OF assms] split: list.split)
qed

theorem getCityId_first_witness:
  "getCityId ''B'' (vec_of [\<lparr>city_name = ''A'', city_id = 0, city_stock = vec_of []\<rparr>,
     \<lparr>city_name = ''B'', city_id = 1, city_stock = vec_of []\<rparr>]) = Some 1"
  by (subst getCityId_first) simp_all

section \<open>The messages\<close>

text \<open>
  The message of a plane that unloads lists the ids and amounts of its stocks in order, and
  is built without leaving the arrays exactly when the plane has at most 50 stocks.
\<close>

theorem marshall_change_stock_arrays:
  assumes "stocks_wf v"
  shows "marshall_change_stock airline i cityId v =
    (if length (vlist v) \<le> 50
     then Some \<lparr>ss_header = \<lparr>hdr_type = MessageTypeUnloadStock, hdr_airline = airline, hdr_id = i,
                  hdr_cityId = cityId\<rparr>,
                ss_stocks = \<lparr>part_count = length (vlist v),
                  part_stockId = arr_of 50 (map stock_pid (vlist v)),
                  part_quantities = arr_of 50 (map stock_amount (vlist v))\<rparr>\<rparr>
     else None)"
  using marshall_stocks_part_of [OF assms] marshall_stocks_overflow [OF assms]
  by (auto simp: marshall_change_stock_def part_of_def prepare_header_def MAX_STOCKS_def not_le)

theorem marshall_change_stock_arrays_witness:
  "\<exists>m. marshall_change_stock 0 3 1
      (vec_of [\<lparr>stock_amount = 4, stock_product = Some \<lparr>product_id = 2, product_name = ''sal''\<rparr>\<rparr>]) = Some m \<and>
    arr_get (part_stockId (ss_stocks m)) 0 = Some 2 \<and> arr_get (part_quantities (ss_stocks m)) 0 = Some 4"
  by (subst marshall_change_stock_arrays)
    (simp_all add: stocks_wf_def stock_wf_def stock_pid_def in_int_def INT_MIN_def INT_MAX_def)

end
