(* ===== verification/Fifo_Interface.thy ===== *)
theory Fifo_Interface
  imports C_Prelude
begin

text \<open>
  The contract the program expects of its queues, whether between threads
  (\<open>communication/msgqueue.c\<close>) or between processes (\<open>ipc/\<close>): a bounded first-in
  first-out channel whose operations wait when it is full or empty.

  An operation on a shared object waits, is undefined, or returns.
\<close>

datatype 'a outcome = Blocks | Faults | Returns 'a

text \<open>A sequence of operations in the order in which they take effect.\<close>

datatype 'a qop = Push 'a | Pop

text \<open>
  Running the operations on a queue. The result holds the values received, and the queue;
  an operation that would have to wait ends the run.
\<close>

fun run_queue :: "('q \<Rightarrow> 'a \<Rightarrow> 'q outcome) \<Rightarrow> ('q \<Rightarrow> ('b \<times> 'q) outcome) \<Rightarrow> 'q \<Rightarrow> 'a qop list \<Rightarrow>
  ('b list \<times> 'q) outcome" where
  "run_queue push pop q [] = Returns ([], q)"
| "run_queue push pop q (Push x # ops) =
     (case push q x of
        Blocks \<Rightarrow> Blocks | Faults \<Rightarrow> Faults
      | Returns q' \<Rightarrow> run_queue push pop q' ops)"
| "run_queue push pop q (Pop # ops) =
     (case pop q of
        Blocks \<Rightarrow> Blocks | Faults \<Rightarrow> Faults
      | Returns (y, q') \<Rightarrow>
          (case run_queue push pop q' ops of
             Blocks \<Rightarrow> Blocks | Faults \<Rightarrow> Faults
           | Returns (ys, q'') \<Rightarrow> Returns (y # ys, q'')))"

fun pushed :: "'a qop list \<Rightarrow> 'a list" where
  "pushed [] = []"
| "pushed (Push x # ops) = x # pushed ops"
| "pushed (Pop # ops) = pushed ops"

text \<open>The same run on a list of at most \<open>cap\<close> elements: the specification.\<close>

fun run_list :: "nat \<Rightarrow> 'a list \<Rightarrow> 'a qop list \<Rightarrow> ('a list \<times> 'a list) option" where
  "run_list cap xs [] = Some ([], xs)"
| "run_list cap xs (Push x # ops) = (if length xs < cap then run_list cap (xs @ [x]) ops else None)"
| "run_list cap xs (Pop # ops) =
     (case xs of [] \<Rightarrow> None
      | x # xs' \<Rightarrow> map_option (\<lambda>(ys, zs). (x # ys, zs)) (run_list cap xs' ops))"

lemma run_list_fifo: "run_list cap xs ops = Some (ys, zs) \<Longrightarrow> ys @ zs = xs @ pushed ops"
proof (induction cap xs ops arbitrary: ys zs rule: run_list.induct)
  case (3 cap xs ops)
  then show ?case
    by (cases xs) auto
qed (auto split: if_splits)

text \<open>
  A channel keeps the order of what goes through it, whatever its capacity. \<open>store\<close> is what
  it keeps of an accepted value, \<open>view\<close> what the receiver gets of a kept one.
\<close>

locale channel =
  fixes push :: "'q \<Rightarrow> 'a \<Rightarrow> 'q outcome"
    and pop :: "'q \<Rightarrow> ('b \<times> 'q) outcome"
    and contents :: "'q \<Rightarrow> 'c list"
    and inv :: "'q \<Rightarrow> bool"
    and accepts :: "'a \<Rightarrow> bool"
    and store :: "'a \<Rightarrow> 'c"
    and view :: "'c \<Rightarrow> 'b"
  assumes push_keeps: "inv q \<Longrightarrow> accepts x \<Longrightarrow>
      push q x = Blocks \<or> (\<exists>q'. push q x = Returns q' \<and> inv q' \<and> contents q' = contents q @ [store x])"
    and waits_empty: "inv q \<Longrightarrow> contents q = [] \<Longrightarrow> pop q = Blocks"
    and takes_first: "inv q \<Longrightarrow> contents q = c # cs \<Longrightarrow>
      \<exists>q'. pop q = Returns (view c, q') \<and> inv q' \<and> contents q' = cs"
begin

text \<open>
  First in, first out, and nothing undefined: what was received, then what is still inside, is
  what was there before, then what was sent.
\<close>

lemma run_order:
  assumes "inv q" "\<And>x. x \<in> set (pushed ops) \<Longrightarrow> accepts x"
  shows "case run_queue push pop q ops of
      Faults \<Rightarrow> False
    | Blocks \<Rightarrow> True
    | Returns (ys, q') \<Rightarrow> inv q' \<and> ys @ map view (contents q') = map view (contents q) @ map (view \<circ> store) (pushed ops)"
  using assms
proof (induction ops arbitrary: q)
  case (Cons op ops)
  show ?case
  proof (cases op)
    case (Push x)
    then have acc: "accepts x" "\<And>x. x \<in> set (pushed ops) \<Longrightarrow> accepts x"
      using Cons.prems(2) by simp_all
    show ?thesis
      using push_keeps [OF Cons.prems(1) acc(1)]
    proof (elim disjE exE conjE)
      fix q'
      assume q': "push q x = Returns q'" "inv q'" "contents q' = contents q @ [store x]"
      show ?thesis
        using Cons.IH [OF q'(2) acc(2)] q'(1,3) by (auto simp: Push split: outcome.splits)
    qed (simp add: Push)
  next
    case Pop
    then have acc: "\<And>x. x \<in> set (pushed ops) \<Longrightarrow> accepts x"
      using Cons.prems(2) by simp
    show ?thesis
    proof (cases "contents q")
      case Nil
      then show ?thesis
        using waits_empty [OF Cons.prems(1)] by (simp add: Pop)
    next
      case (Cons c cs)
      obtain q' where q': "pop q = Returns (view c, q')" "inv q'" "contents q' = cs"
        using takes_first [OF Cons.prems(1) Cons] by blast
      then show ?thesis
        using Cons.IH [OF q'(2) acc] Cons by (auto simp: Pop split: outcome.splits)
    qed
  qed
qed simp

lemma run_fifo:
  assumes "inv q" "\<And>x. x \<in> set (pushed ops) \<Longrightarrow> accepts x"
    and "run_queue push pop q ops = Returns (ys, q')"
  shows "inv q' \<and> ys @ map view (contents q') = map view (contents q) @ map (view \<circ> store) (pushed ops)"
  using run_order [OF assms(1), of ops] assms(2,3) by auto

end

text \<open>A queue with room for \<open>cap\<close> values waits exactly when it is full or empty.\<close>

locale bounded_fifo =
  fixes push :: "'q \<Rightarrow> 'a \<Rightarrow> 'q outcome"
    and pop :: "'q \<Rightarrow> ('b \<times> 'q) outcome"
    and contents :: "'q \<Rightarrow> 'c list"
    and inv :: "'q \<Rightarrow> bool"
    and cap :: nat
    and accepts :: "'a \<Rightarrow> bool"
    and store :: "'a \<Rightarrow> 'c"
    and view :: "'c \<Rightarrow> 'b"
  assumes bounded: "inv q \<Longrightarrow> length (contents q) \<le> cap"
    and push_full: "inv q \<Longrightarrow> accepts x \<Longrightarrow> length (contents q) = cap \<Longrightarrow> push q x = Blocks"
    and push_room: "inv q \<Longrightarrow> accepts x \<Longrightarrow> length (contents q) < cap \<Longrightarrow>
      \<exists>q'. push q x = Returns q' \<and> inv q' \<and> contents q' = contents q @ [store x]"
    and pop_empty: "inv q \<Longrightarrow> contents q = [] \<Longrightarrow> pop q = Blocks"
    and pop_some: "inv q \<Longrightarrow> contents q = c # cs \<Longrightarrow>
      \<exists>q'. pop q = Returns (view c, q') \<and> inv q' \<and> contents q' = cs"
begin

lemma push_cases:
  assumes "inv q" "accepts x"
  obtains "push q x = Blocks" "length (contents q) = cap"
  | q' where "push q x = Returns q'" "length (contents q) < cap" "inv q'" "contents q' = contents q @ [store x]"
  using bounded [OF assms(1)] push_full [OF assms] push_room [OF assms] by (auto simp: le_less)

text \<open>No operation is ever undefined, and every run is a run of the specification.\<close>

lemma run_refines:
  assumes "inv q" "\<And>x. x \<in> set (pushed ops) \<Longrightarrow> accepts x"
  shows "(case run_queue push pop q ops of
      Faults \<Rightarrow> False
    | Blocks \<Rightarrow> run_list cap (contents q) (map (map_qop store) ops) = None
    | Returns (ys, q') \<Rightarrow> inv q' \<and> (\<exists>cs. ys = map view cs \<and>
        run_list cap (contents q) (map (map_qop store) ops) = Some (cs, contents q')))"
  using assms
proof (induction ops arbitrary: q)
  case (Cons op ops)
  show ?case
  proof (cases op)
    case (Push x)
    have acc: "accepts x" and rest: "\<And>x. x \<in> set (pushed ops) \<Longrightarrow> accepts x"
      using Cons.prems(2) by (simp_all add: Push)
    from Cons.prems(1) acc show ?thesis
    proof (cases rule: push_cases)
      case 1
      then show ?thesis
        by (simp add: Push)
    next
      case (2 q')
      have room: "length (contents q) < cap"
        by (rule 2(2))
      have spec: "run_list cap (contents q) (map (map_qop store) (op # ops)) =
          run_list cap (contents q') (map (map_qop store) ops)"
        using room by (simp add: Push 2(4))
      have run: "run_queue push pop q (op # ops) = run_queue push pop q' ops"
        by (simp add: Push 2(1))
      show ?thesis
        using Cons.IH [OF 2(3) rest] by (simp only: spec run)
    qed
  next
    case Pop
    show ?thesis
    proof (cases "contents q")
      case Nil
      with pop_empty [OF Cons.prems(1)] show ?thesis
        by (simp add: Pop)
    next
      case (Cons c cs)
      obtain q' where q': "pop q = Returns (view c, q')" "inv q'" "contents q' = cs"
        using pop_some [OF Cons.prems(1) Cons] by blast
      have rest: "\<And>x. x \<in> set (pushed ops) \<Longrightarrow> accepts x"
        using Cons.prems(2) by (simp add: Pop)
      from Cons.IH [OF q'(2) rest] show ?thesis
        using q' Cons by (auto simp: Pop split: outcome.splits intro: exI [of _ "c # _"])
    qed
  qed
qed simp

end

sublocale bounded_fifo \<subseteq> channel push pop contents inv accepts store view
proof
  show "push q x = Blocks \<or> (\<exists>q'. push q x = Returns q' \<and> inv q' \<and> contents q' = contents q @ [store x])"
    if "inv q" "accepts x" for q x
    using push_cases [OF that] by blast
qed (rule pop_empty pop_some; assumption)+

end
