(* ===== verification/MsgQueue.thy ===== *)
theory MsgQueue
  imports Messages Fifo_Interface
begin

text \<open>
  \<open>communication/msgqueue.c\<close>: the queue between threads, a ring of ten cells of which nine
  can be in use, so that \<open>first = tail\<close> means empty.

  Each operation runs under the queue's mutex. A thread that has to wait sleeps on a
  condition variable (\<^const>\<open>Blocks\<close>) and runs the rest of the loop when it is woken;
  \<open>woken\<close> says whether the call is such a resumption, which is the only place where the
  code looks at \<open>closing\<close>.
\<close>

definition QUEUE_SIZE :: nat where
  "QUEUE_SIZE = 10"

record MessageQueue =
  mq_messages :: "Message arr"
  mq_first :: nat
  mq_tail :: nat
  mq_closing :: bool

definition message_queue_create :: "mallocs \<Rightarrow> MessageQueue option \<times> mallocs" where
  "message_queue_create al =
     (let (ok, al') = alloc al
      in if ok then (Some \<lparr>mq_messages = arr_new QUEUE_SIZE, mq_first = 0, mq_tail = 0,
           mq_closing = False\<rparr>, al')
         else (None, al'))"

definition none_message :: Message where
  "none_message = \<lparr>msg_type = MessageTypeNone, msg_payload = P_Unset\<rparr>"

definition message_queue_pop :: "bool \<Rightarrow> MessageQueue \<Rightarrow> (Message \<times> MessageQueue) outcome" where
  "message_queue_pop woken q =
     (if woken \<and> mq_closing q then Returns (none_message, q)
      else if mq_first q = mq_tail q then Blocks
      else
        (case arr_get (mq_messages q) (mq_first q) of
           None \<Rightarrow> Faults
         | Some msg \<Rightarrow> Returns (msg, q\<lparr>mq_first := (mq_first q + 1) mod QUEUE_SIZE\<rparr>)))"

definition message_queue_push :: "bool \<Rightarrow> MessageQueue \<Rightarrow> Message \<Rightarrow> MessageQueue outcome" where
  "message_queue_push woken q msg =
     (if woken \<and> mq_closing q then Returns q
      else if (mq_tail q + 1) mod QUEUE_SIZE = mq_first q then Blocks
      else
        (case arr_set (mq_messages q) (mq_tail q) msg of
           None \<Rightarrow> Faults
         | Some msgs \<Rightarrow> Returns (q\<lparr>mq_messages := msgs, mq_tail := (mq_tail q + 1) mod QUEUE_SIZE\<rparr>)))"

definition message_queue_peek :: "MessageQueue \<Rightarrow> MessageType outcome" where
  "message_queue_peek q =
     (if mq_tail q = mq_first q then Returns MessageTypeNone
      else
        (case arr_get (mq_messages q) (mq_first q) of
           None \<Rightarrow> Faults
         | Some msg \<Rightarrow> Returns (msg_type msg)))"

text \<open>The first statement of \<open>message_queue_destroy\<close>; the broadcasts then wake every waiting
  thread, and the memory is given back.\<close>

definition message_queue_destroy :: "MessageQueue \<Rightarrow> MessageQueue" where
  "message_queue_destroy q = q\<lparr>mq_closing := True\<rparr>"

section \<open>The ring as a list\<close>

definition mq_count :: "MessageQueue \<Rightarrow> nat" where
  "mq_count q = (mq_tail q + QUEUE_SIZE - mq_first q) mod QUEUE_SIZE"

definition mq_list :: "MessageQueue \<Rightarrow> Message list" where
  "mq_list q = map (\<lambda>k. the (mq_messages q ! ((mq_first q + k) mod QUEUE_SIZE))) [0..<mq_count q]"

definition mq_inv :: "MessageQueue \<Rightarrow> bool" where
  "mq_inv q \<longleftrightarrow> length (mq_messages q) = QUEUE_SIZE \<and> mq_first q < QUEUE_SIZE \<and> mq_tail q < QUEUE_SIZE \<and>
     list_all (\<lambda>k. mq_messages q ! ((mq_first q + k) mod QUEUE_SIZE) \<noteq> None) [0..<mq_count q]"

text \<open>Arithmetic of the ring.\<close>

lemma ring_count_less: "(t + 10 - f) mod 10 < (10::nat)"
  by simp

lemma ring_count:
  assumes "f < 10" "t < 10"
  shows "(t + 10 - f) mod 10 = (if f \<le> t then t - f else t + 10 - f :: nat)"
proof (cases "f \<le> t")
  case True
  then have "(t + 10 - f) mod 10 = (t - f + 10) mod 10"
    by simp
  with True assms show ?thesis
    by (simp only: mod_add_self2) simp
next
  case False
  with assms show ?thesis
    by simp
qed

lemma ring_next: "t < 10 \<Longrightarrow> (t + 1) mod 10 = (if t = 9 then 0 else t + 1 :: nat)"
  by auto

lemma ring_plus:
  assumes "f < 10" "k \<le> 10"
  shows "(f + k) mod 10 = (if f + k < 10 then f + k else f + k - 10 :: nat)"
  using assms by (auto simp: mod_if)

lemma ring_empty: "f < 10 \<Longrightarrow> t < 10 \<Longrightarrow> (t + 10 - f) mod 10 = (0::nat) \<longleftrightarrow> f = t"
  by (simp only: ring_count split: if_splits) auto

lemma ring_full: "f < 10 \<Longrightarrow> t < 10 \<Longrightarrow> (t + 10 - f) mod 10 = (9::nat) \<longleftrightarrow> (t + 1) mod 10 = f"
  by (simp only: ring_count ring_next split: if_splits) auto

lemma ring_tail: "f < 10 \<Longrightarrow> t < 10 \<Longrightarrow> (f + (t + 10 - f) mod 10) mod 10 = (t::nat)"
  using ring_plus [of f "(t + 10 - f) mod 10"] by (simp only: ring_count split: if_splits) auto

lemma ring_other: "f < 10 \<Longrightarrow> t < 10 \<Longrightarrow> k < (t + 10 - f) mod 10 \<Longrightarrow> t \<noteq> ((f + k) mod 10 :: nat)"
  using ring_plus [of f k] ring_count_less [of t f] by (simp only: ring_count split: if_splits) auto

lemma ring_push:
  assumes "f < 10" "t < 10" "(t + 1) mod 10 \<noteq> f"
  shows "((t + 1) mod 10 + 10 - f) mod 10 = Suc ((t + 10 - f) mod (10::nat))"
proof -
  have "(t + 1) mod 10 < 10"
    by simp
  then show ?thesis
    using assms by (simp only: ring_count ring_next split: if_splits) auto
qed

lemma ring_pop:
  assumes "f < 10" "t < 10" "f \<noteq> t"
  shows "(t + 10 - f) mod 10 = Suc ((t + 10 - (f + 1) mod 10) mod (10::nat))"
proof -
  have "(f + 1) mod 10 < 10"
    by simp
  then show ?thesis
    using assms by (simp only: ring_count ring_next split: if_splits) auto
qed

lemma ring_shift: "((f + 1) mod 10 + k) mod 10 = (f + Suc k) mod (10::nat)"
  by (simp add: mod_add_left_eq)

lemma mq_list_push:
  assumes "mq_inv q" "(mq_tail q + 1) mod QUEUE_SIZE \<noteq> mq_first q"
  shows "\<exists>q'. message_queue_push False q m = Returns q' \<and> mq_inv q' \<and> mq_list q' = mq_list q @ [m] \<and>
    mq_closing q' = mq_closing q"
proof -
  let ?q = "q\<lparr>mq_messages := (mq_messages q)[mq_tail q := Some m], mq_tail := (mq_tail q + 1) mod QUEUE_SIZE\<rparr>"
  have b: "mq_first q < 10" "mq_tail q < 10" "length (mq_messages q) = 10" "(mq_tail q + 1) mod 10 \<noteq> mq_first q"
    using assms by (simp_all add: mq_inv_def QUEUE_SIZE_def)
  have push: "message_queue_push False q m = Returns ?q"
    using b assms(2) by (simp add: message_queue_push_def arr_set_def QUEUE_SIZE_def)
  have cnt: "mq_count ?q = Suc (mq_count q)"
    using ring_push [OF b(1,2,4)] by (simp add: mq_count_def QUEUE_SIZE_def)
  have old: "mq_messages ?q ! ((mq_first q + k) mod 10) = mq_messages q ! ((mq_first q + k) mod 10)"
    if "k < mq_count q" for k
    using nth_list_update_neq [OF ring_other [OF b(1,2)]] that by (simp add: mq_count_def QUEUE_SIZE_def)
  have new: "mq_messages ?q ! ((mq_first q + mq_count q) mod 10) = Some m"
    using ring_tail [OF b(1,2)] b by (simp add: mq_count_def QUEUE_SIZE_def)
  have "mq_list ?q = mq_list q @ [m]"
    unfolding mq_list_def cnt using old new by (simp add: QUEUE_SIZE_def)
  moreover have "mq_inv ?q"
    unfolding mq_inv_def cnt using assms(1) b old new
    by (auto simp: mq_inv_def QUEUE_SIZE_def list_all_iff less_Suc_eq)
  ultimately show ?thesis
    using push by simp
qed

lemma mq_list_pop:
  assumes "mq_inv q" "mq_list q = m # ms"
  shows "\<exists>q'. message_queue_pop False q = Returns (m, q') \<and> mq_inv q' \<and> mq_list q' = ms \<and>
    mq_closing q' = mq_closing q"
proof -
  let ?q = "q\<lparr>mq_first := (mq_first q + 1) mod QUEUE_SIZE\<rparr>"
  have b: "mq_first q < 10" "mq_tail q < 10" "length (mq_messages q) = 10"
    using assms by (simp_all add: mq_inv_def QUEUE_SIZE_def)
  have ne: "mq_first q \<noteq> mq_tail q"
    using assms(2) by (auto simp: mq_list_def mq_count_def QUEUE_SIZE_def)
  have cnt: "mq_count q = Suc (mq_count ?q)"
    using ring_pop [OF b(1,2) ne] by (simp add: mq_count_def QUEUE_SIZE_def)
  have shift: "[0..<mq_count q] = 0 # map Suc [0..<mq_count ?q]"
    unfolding cnt by (simp add: map_Suc_upt upt_conv_Cons)
  have list: "mq_list q = the (mq_messages q ! mq_first q) # mq_list ?q"
    unfolding mq_list_def shift using b(1) ring_shift by (simp add: QUEUE_SIZE_def comp_def)
  have all: "mq_messages q ! mq_first q \<noteq> None \<and> mq_inv ?q"
    using assms(1) b ring_shift unfolding mq_inv_def shift
    by (simp add: QUEUE_SIZE_def list.pred_map comp_def)
  then have "message_queue_pop False q = Returns (the (mq_messages q ! mq_first q), ?q)"
    using b ne by (auto simp: message_queue_pop_def arr_get_def QUEUE_SIZE_def)
  with all list assms(2) show ?thesis
    by auto
qed

lemma mq_list_empty: "mq_inv q \<Longrightarrow> mq_list q = [] \<longleftrightarrow> mq_first q = mq_tail q"
  using ring_empty [of "mq_first q" "mq_tail q"] by (auto simp: mq_list_def mq_inv_def mq_count_def QUEUE_SIZE_def)

lemma mq_list_full: "mq_inv q \<Longrightarrow> length (mq_list q) = 9 \<longleftrightarrow> (mq_tail q + 1) mod QUEUE_SIZE = mq_first q"
  using ring_full [of "mq_first q" "mq_tail q"] by (auto simp: mq_list_def mq_inv_def mq_count_def QUEUE_SIZE_def)

interpretation mq: bounded_fifo "message_queue_push False" "message_queue_pop False" mq_list mq_inv 9
  "\<lambda>_. True" id id
proof unfold_locales
  fix q m c cs
  assume q: "mq_inv q"
  show "length (mq_list q) \<le> 9"
    using ring_count_less [of "mq_tail q" "mq_first q"] by (simp add: mq_list_def mq_count_def QUEUE_SIZE_def)
  show "message_queue_push False q m = Blocks" if "length (mq_list q) = 9"
    using q that by (simp add: mq_list_full message_queue_push_def)
  show "\<exists>q'. message_queue_push False q m = Returns q' \<and> mq_inv q' \<and> mq_list q' = mq_list q @ [id m]"
    if "length (mq_list q) < 9"
    using mq_list_push [OF q, of m] mq_list_full [OF q] that by auto
  show "message_queue_pop False q = Blocks" if "mq_list q = []"
    using q that by (simp add: mq_list_empty message_queue_pop_def)
  show "\<exists>q'. message_queue_pop False q = Returns (id c, q') \<and> mq_inv q' \<and> mq_list q' = cs"
    if "mq_list q = c # cs"
    using mq_list_pop [OF q that] by auto
qed

lemma message_queue_create_ok:
  "message_queue_create al = (if fst (alloc al)
     then Some \<lparr>mq_messages = arr_new QUEUE_SIZE, mq_first = 0, mq_tail = 0, mq_closing = False\<rparr>
     else None, snd (alloc al))"
  by (simp add: message_queue_create_def split: prod.split)

lemma message_queue_create_inv:
  "message_queue_create al = (Some q, al') \<Longrightarrow> mq_inv q \<and> mq_list q = [] \<and> \<not> mq_closing q"
  by (auto simp: message_queue_create_ok mq_inv_def mq_list_def mq_count_def QUEUE_SIZE_def arr_new_def split: if_splits)

lemma message_queue_peek_hd:
  assumes "mq_inv q"
  shows "message_queue_peek q =
    Returns (case mq_list q of [] \<Rightarrow> MessageTypeNone | m # _ \<Rightarrow> msg_type m)"
proof (cases "mq_list q")
  case Nil
  with assms have "mq_first q = mq_tail q"
    by (simp add: mq_list_empty)
  with Nil show ?thesis
    by (simp add: message_queue_peek_def)
next
  case (Cons m ms)
  obtain q' where "message_queue_pop False q = Returns (m, q')"
    using mq_list_pop [OF assms Cons] by blast
  with Cons show ?thesis
    by (auto simp: message_queue_pop_def message_queue_peek_def split: if_splits option.splits)
qed

end
