(* ===== verification/Packets.thy ===== *)
theory Packets
  imports Fifo_Interface "HOL-Library.Word"
begin

text \<open>
  What the four implementations of \<open>ipc/ipc.h\<close> share: packets of bytes, their largest length,
  and copying into a buffer.
\<close>

definition IPC_MAX_PACKET_LEN :: nat where
  "IPC_MAX_PACKET_LEN = 512"

type_synonym byte = "8 word"

text \<open>\<open>memcpy\<close> into the beginning of a buffer.\<close>

definition memcpy :: "byte list \<Rightarrow> byte list \<Rightarrow> byte list" where
  "memcpy dst src = src @ drop (length src) dst"

section \<open>A \<open>size_t\<close> in memory\<close>

text \<open>The eight bytes of a \<open>size_t\<close>, the lowest first.\<close>

fun size_bytes :: "nat \<Rightarrow> nat \<Rightarrow> byte list" where
  "size_bytes 0 n = []"
| "size_bytes (Suc k) n = of_nat (n mod 256) # size_bytes k (n div 256)"

fun bytes_size :: "byte list \<Rightarrow> nat" where
  "bytes_size [] = 0"
| "bytes_size (b # bs) = unat b + 256 * bytes_size bs"

lemma length_size_bytes [simp]: "length (size_bytes k n) = k"
  by (induction k arbitrary: n) simp_all

lemma bytes_size_bytes: "n < 256 ^ k \<Longrightarrow> bytes_size (size_bytes k n) = n"
proof (induction k arbitrary: n)
  case (Suc k)
  have "n div 256 < 256 ^ k"
    using Suc.prems by (simp add: less_mult_imp_div_less mult.commute)
  moreover have "unat (of_nat (n mod 256) :: byte) = n mod 256"
    by (simp add: unat_of_nat)
  ultimately show ?case
    using Suc.IH by simp
qed simp

end
