(* ===== verification/Shmem.thy ===== *)
theory Shmem
  imports Packets
begin

text \<open>
  \<open>ipc/shmem.c\<close>: a message queue in shared memory, of sixteen slots, with an index that
  lists the slots in use in the order in which they were filled. \<open>writeSem\<close> counts the
  free slots, \<open>readWait\<close> the filled ones, and the named semaphore \<open>lock\<close> protects slots
  and index.

  The fields \<open>readWait\<close> and \<open>writeSem\<close> of the C struct hold the identifiers of System V
  semaphores; here they hold their values. A message is a list of bytes. The part of a
  function between \<open>sem_wait(lock)\<close> and \<open>sem_post(lock)\<close> is a definition of its own
  (\<open>write_body\<close>, \<open>read_body\<close>), so that the theory of interleaved processes can run it as
  one step.
\<close>

definition ENTRIES_PER_QUEUE :: nat where
  "ENTRIES_PER_QUEUE = 16"

record Entry =
  en_len :: nat
  en_content :: "byte list"

record Queue =
  q_index :: "int list"
  q_readWait :: nat
  q_writeSem :: nat
  q_slots :: "Entry list"

text \<open>The initialisation at the end of \<open>ipc_create\<close>; the memory comes from \<open>ftruncate\<close>, zeroed.\<close>

definition queue_init :: Queue where
  "queue_init =
     \<lparr>q_index = replicate ENTRIES_PER_QUEUE (- 1), q_readWait = 0, q_writeSem = ENTRIES_PER_QUEUE,
      q_slots = replicate ENTRIES_PER_QUEUE \<lparr>en_len = 0, en_content = replicate IPC_MAX_PACKET_LEN 0\<rparr>\<rparr>"

text \<open>
  The range check of the two semaphores. Its error message passes an \<open>int\<close> to a
  \<open>%s\<close>, so a failing check is undefined behaviour.
\<close>

definition assert_sems :: "Queue \<Rightarrow> bool" where
  "assert_sems q \<longleftrightarrow> q_readWait q \<le> ENTRIES_PER_QUEUE \<and> q_writeSem q \<le> ENTRIES_PER_QUEUE"

text \<open>The two searches of \<open>ipc_write\<close>: both end at the bound when nothing is free.\<close>

definition free_slot :: "Queue \<Rightarrow> nat" where
  "free_slot q = length (takeWhile (\<lambda>e. en_len e \<noteq> 0) (q_slots q))"

definition free_index :: "Queue \<Rightarrow> nat" where
  "free_index q = length (takeWhile (\<lambda>s. s \<noteq> - 1) (q_index q))"

definition write_body :: "Queue \<Rightarrow> byte list \<Rightarrow> (nat \<times> Queue) outcome" where
  "write_body q buff =
     (let slot = free_slot q; i = free_index q; data = take IPC_MAX_PACKET_LEN buff in
      if \<not> assert_sems q then Faults
      else if i \<ge> ENTRIES_PER_QUEUE \<or> slot \<ge> ENTRIES_PER_QUEUE then Faults
      else
        (let entry = q_slots q ! slot;
             entry' = entry\<lparr>en_len := length data, en_content := memcpy (en_content entry) data\<rparr>
         in Returns (length data,
              q\<lparr>q_index := (q_index q)[i := int slot], q_slots := (q_slots q)[slot := entry']\<rparr>)))"

text \<open>The loop that moves the index one place forward.\<close>

definition shift_index :: "int list \<Rightarrow> int list" where
  "shift_index ix = fold (\<lambda>i ix. ix[i - 1 := ix ! i, i := - 1]) [1..<ENTRIES_PER_QUEUE] ix"

definition read_body :: "Queue \<Rightarrow> nat \<Rightarrow> (byte list \<times> Queue) outcome" where
  "read_body q len =
     (let slot = q_index q ! 0 in
      if \<not> assert_sems q then Faults
      else if slot < 0 \<or> int ENTRIES_PER_QUEUE \<le> slot then Faults
      else
        (let entry = q_slots q ! nat slot;
             res = (if len > en_len entry then en_len entry else len)
         in Returns (take res (en_content entry),
              q\<lparr>q_slots := (q_slots q)[nat slot := entry\<lparr>en_len := 0\<rparr>],
                q_index := shift_index (q_index q)\<rparr>)))"

text \<open>
  The two operations on their own: wait for the semaphore, run the body, post the other
  semaphore. \<open>ipc_write\<close> returns the number of bytes sent; \<open>ipc_read\<close> returns the bytes,
  whose number is its result in C.
\<close>

definition ipc_write :: "Queue \<Rightarrow> byte list \<Rightarrow> (nat \<times> Queue) outcome" where
  "ipc_write q buff =
     (if q_writeSem q = 0 then Blocks
      else
        (case write_body (q\<lparr>q_writeSem := q_writeSem q - 1\<rparr>) buff of
           Blocks \<Rightarrow> Blocks | Faults \<Rightarrow> Faults
         | Returns (n, q') \<Rightarrow> Returns (n, q'\<lparr>q_readWait := q_readWait q' + 1\<rparr>)))"

definition ipc_read :: "Queue \<Rightarrow> nat \<Rightarrow> (byte list \<times> Queue) outcome" where
  "ipc_read q len =
     (if q_readWait q = 0 then Blocks
      else
        (case read_body (q\<lparr>q_readWait := q_readWait q - 1\<rparr>) len of
           Blocks \<Rightarrow> Blocks | Faults \<Rightarrow> Faults
         | Returns (xs, q') \<Rightarrow> Returns (xs, q'\<lparr>q_writeSem := q_writeSem q' + 1\<rparr>)))"

section \<open>The index as a list of slots\<close>

definition used :: "Queue \<Rightarrow> nat list" where
  "used q = map nat (takeWhile (\<lambda>s. s \<noteq> - 1) (q_index q))"

definition entry_data :: "Entry \<Rightarrow> byte list" where
  "entry_data e = take (en_len e) (en_content e)"

text \<open>The messages inside, oldest first.\<close>

definition stored :: "Queue \<Rightarrow> byte list list" where
  "stored q = map (\<lambda>s. entry_data (q_slots q ! s)) (used q)"

text \<open>
  What the lock protects: the index lists different slots, padded with -1, and a slot is
  listed exactly when its length is not zero.
\<close>

definition slots_inv :: "Queue \<Rightarrow> bool" where
  "slots_inv q \<longleftrightarrow> length (q_index q) = 16 \<and> length (q_slots q) = 16 \<and>
     q_index q = map int (used q) @ replicate (16 - length (used q)) (- 1) \<and>
     distinct (used q) \<and> (\<forall>s \<in> set (used q). s < 16) \<and>
     (\<forall>s \<in> {0..<16}. en_len (q_slots q ! s) \<noteq> 0 \<longleftrightarrow> s \<in> set (used q)) \<and>
     (\<forall>e \<in> set (q_slots q). length (en_content e) = 512 \<and> en_len e \<le> 512)"

lemma slots_invD:
  assumes "slots_inv q"
  shows "length (q_index q) = 16" "length (q_slots q) = 16"
    and "q_index q = map int (used q) @ replicate (16 - length (used q)) (- 1)"
    and "distinct (used q)" "\<And>s. s \<in> set (used q) \<Longrightarrow> s < 16"
    and "\<And>s. s < 16 \<Longrightarrow> en_len (q_slots q ! s) \<noteq> 0 \<longleftrightarrow> s \<in> set (used q)"
    and "\<And>s. s < 16 \<Longrightarrow> length (en_content (q_slots q ! s)) = 512 \<and> en_len (q_slots q ! s) \<le> 512"
    and "length (used q) \<le> 16"
proof -
  show "length (q_index q) = 16" "length (q_slots q) = 16"
    and "q_index q = map int (used q) @ replicate (16 - length (used q)) (- 1)"
    and "distinct (used q)" "\<And>s. s \<in> set (used q) \<Longrightarrow> s < 16"
    and "\<And>s. s < 16 \<Longrightarrow> en_len (q_slots q ! s) \<noteq> 0 \<longleftrightarrow> s \<in> set (used q)"
    and "\<And>s. s < 16 \<Longrightarrow> length (en_content (q_slots q ! s)) = 512 \<and> en_len (q_slots q ! s) \<le> 512"
    using assms by (auto simp: slots_inv_def)
  then show "length (used q) \<le> 16"
    by (metis length_append length_map le_add1)
qed

lemma used_of_index:
  "q_index q = map int us @ replicate n (- 1) \<Longrightarrow> used q = us"
proof -
  assume ix: "q_index q = map int us @ replicate n (- 1)"
  have "takeWhile (\<lambda>s. s \<noteq> - 1) (map int us @ replicate n (- 1)) = map int us"
    by (subst takeWhile_append2) (cases n, auto)
  then show ?thesis
    by (simp add: used_def ix comp_def)
qed

lemma slots_invI:
  assumes "q_index q = map int us @ replicate (16 - length us) (- 1)" "length us \<le> 16"
    and "length (q_slots q) = 16" "distinct us" "\<And>s. s \<in> set us \<Longrightarrow> s < 16"
    and "\<And>s. s < 16 \<Longrightarrow> en_len (q_slots q ! s) \<noteq> 0 \<longleftrightarrow> s \<in> set us"
    and "\<And>s. s < 16 \<Longrightarrow> length (en_content (q_slots q ! s)) = 512 \<and> en_len (q_slots q ! s) \<le> 512"
  shows "slots_inv q"
proof -
  have us: "used q = us"
    by (rule used_of_index [OF assms(1)])
  have "length (q_index q) = 16"
    using assms(1,2) by simp
  moreover have "\<forall>e \<in> set (q_slots q). length (en_content e) = 512 \<and> en_len e \<le> 512"
    using assms(3,7) by (auto simp: in_set_conv_nth)
  ultimately show ?thesis
    using assms unfolding slots_inv_def us by auto
qed

lemma free_index_used:
  assumes "slots_inv q"
  shows "free_index q = length (used q)"
  by (simp add: free_index_def used_def)

lemma free_slot_less:
  assumes "slots_inv q" "length (used q) < 16"
  shows "free_slot q < 16 \<and> free_slot q \<notin> set (used q)"
proof -
  have "card (set (used q)) < card {0..<16::nat}"
    using assms(2) card_length [of "used q"] by simp
  then obtain s where s: "s < 16" "s \<notin> set (used q)"
    by (metis atLeastLessThan_iff card_mono finite_set leD subsetI)
  then have free: "en_len (q_slots q ! s) = 0"
    using slots_invD(6) [OF assms(1)] by blast
  have *: "free_slot q < 16"
  proof (rule ccontr)
    assume "\<not> free_slot q < 16"
    then have "takeWhile (\<lambda>e. en_len e \<noteq> 0) (q_slots q) = q_slots q"
      using slots_invD(2) [OF assms(1)] takeWhile_eq_take [of "\<lambda>e. en_len e \<noteq> 0" "q_slots q"]
      by (simp add: free_slot_def)
    then have "\<forall>e \<in> set (q_slots q). en_len e \<noteq> 0"
      by simp
    then show False
      using free s(1) slots_invD(2) [OF assms(1)] nth_mem [of s "q_slots q"] by metis
  qed
  then have "en_len (q_slots q ! free_slot q) = 0"
    using nth_length_takeWhile [of "\<lambda>e. en_len e \<noteq> 0" "q_slots q"] slots_invD(2) [OF assms(1)]
    by (simp add: free_slot_def)
  with * slots_invD(6) [OF assms(1)] show ?thesis
    by blast
qed

lemma write_body_ok:
  assumes "slots_inv q" "assert_sems q" "length (used q) < 16" "buff \<noteq> []"
  shows "\<exists>q'. write_body q buff = Returns (length (take 512 buff), q') \<and> slots_inv q' \<and>
    stored q' = stored q @ [take 512 buff] \<and> q_readWait q' = q_readWait q \<and> q_writeSem q' = q_writeSem q"
proof -
  let ?s = "free_slot q" and ?us = "used q" and ?d = "take 512 buff"
  let ?e = "q_slots q ! ?s"
  let ?e' = "?e\<lparr>en_len := length ?d, en_content := memcpy (en_content ?e) ?d\<rparr>"
  let ?q = "q\<lparr>q_index := (q_index q)[length ?us := int ?s], q_slots := (q_slots q)[?s := ?e']\<rparr>"
  note I = slots_invD [OF assms(1)]
  have s: "?s < 16" "?s \<notin> set ?us"
    using free_slot_less [OF assms(1,3)] by auto
  have w: "write_body q buff = Returns (length ?d, ?q)"
    using s assms(2,3) by (simp add: write_body_def free_index_used [OF assms(1)]
        ENTRIES_PER_QUEUE_def IPC_MAX_PACKET_LEN_def Let_def)
  obtain n where n: "16 - length ?us = Suc n" "16 - length (?us @ [?s]) = n"
    using assms(3) by (metis Suc_diff_Suc length_append_singleton)
  have ix: "q_index ?q = map int (?us @ [?s]) @ replicate (16 - length (?us @ [?s])) (- 1)"
    unfolding n(2) using I(3) n(1) by (simp add: list_update_append)
  have us: "used ?q = ?us @ [?s]"
    by (rule used_of_index [OF ix])
  have inv: "slots_inv ?q"
  proof (rule slots_invI [OF ix])
    fix t
    assume t: "t < (16::nat)"
    show "en_len (q_slots ?q ! t) \<noteq> 0 \<longleftrightarrow> t \<in> set (?us @ [?s])"
      using t s I(2) I(6) [OF t] assms(4) by (cases "t = ?s") auto
    show "length (en_content (q_slots ?q ! t)) = 512 \<and> en_len (q_slots ?q ! t) \<le> 512"
      using t s I(2) I(7) [OF t] by (cases "t = ?s") (auto simp: memcpy_def)
  qed (use s I assms(3) in auto)
  have old: "q_slots ?q ! t = q_slots q ! t" if "t \<in> set ?us" for t
  proof -
    have "?s \<noteq> t"
      using s that by blast
    then show ?thesis
      by simp
  qed
  have new: "entry_data (q_slots ?q ! ?s) = ?d"
    using s I(2) by (simp add: entry_data_def memcpy_def min_def)
  have "map (\<lambda>s. entry_data (q_slots ?q ! s)) ?us = map (\<lambda>s. entry_data (q_slots q ! s)) ?us"
    by (rule map_cong [OF refl]) (simp only: old)
  then have "stored ?q = stored q @ [?d]"
    unfolding stored_def us map_append using new by (simp only: list.map)
  then show ?thesis
    using w inv by simp
qed

section \<open>Reading\<close>

lemma shift_index_upto:
  "Suc k \<le> length ix \<Longrightarrow>
    fold (\<lambda>i ix. ix[i - 1 := ix ! i, i := - 1]) [1..<Suc k] ix =
      (if k = 0 then ix else take k (tl ix) @ - 1 # drop (Suc k) ix)"
proof (induction k)
  case (Suc k)
  obtain a xs where ix: "ix = a # xs"
    using Suc.prems by (cases ix) auto
  have IH: "fold (\<lambda>i ix. ix[i - 1 := ix ! i, i := - 1]) [1..<Suc k] ix =
      (if k = 0 then ix else take k xs @ - 1 # drop k xs)"
    using Suc by (simp add: ix)
  have k: "k < length xs" "drop k xs = xs ! k # drop (Suc k) xs"
    using Suc.prems by (simp_all add: ix Cons_nth_drop_Suc)
  have "fold (\<lambda>i ix. ix[i - 1 := ix ! i, i := - 1]) [1..<Suc (Suc k)] ix =
      (let ix = (if k = 0 then ix else take k xs @ - 1 # drop k xs) in ix[k := ix ! Suc k, Suc k := - 1])"
    using IH by (simp add: Let_def)
  also have "\<dots> = take (Suc k) xs @ - 1 # drop (Suc k) xs"
  proof (cases "k = 0")
    case True
    then show ?thesis
      using k by (cases xs) (auto simp: ix)
  next
    case False
    then show ?thesis
      using k by (simp add: Let_def nth_append list_update_append take_Suc_conv_app_nth)
  qed
  finally show ?case
    by (simp add: ix)
qed simp

lemma shift_index_tl: "length ix = 16 \<Longrightarrow> shift_index ix = tl ix @ [- 1]"
  using shift_index_upto [of 15 ix] by (simp add: shift_index_def ENTRIES_PER_QUEUE_def)

lemma read_body_ok:
  assumes "slots_inv q" "assert_sems q" "stored q = c # cs"
  shows "\<exists>q'. read_body q len = Returns (take len c, q') \<and> slots_inv q' \<and> stored q' = cs \<and>
    q_readWait q' = q_readWait q \<and> q_writeSem q' = q_writeSem q"
proof -
  note I = slots_invD [OF assms(1)]
  obtain s us where us: "used q = s # us"
    using assms(3) by (cases "used q") (auto simp: stored_def)
  let ?e = "q_slots q ! s"
  let ?q = "q\<lparr>q_slots := (q_slots q)[s := ?e\<lparr>en_len := 0\<rparr>], q_index := tl (q_index q) @ [- 1]\<rparr>"
  have s: "s < 16" "s \<notin> set us" "q_index q ! 0 = int s"
    using I(3,4) I(5) [of s] by (auto simp: us)
  have c: "c = entry_data ?e" "cs = map (\<lambda>s. entry_data (q_slots q ! s)) us"
    using assms(3) by (auto simp: stored_def us)
  have "take (if len > en_len ?e then en_len ?e else len) (en_content ?e) = take len c"
    by (simp add: c(1) entry_data_def min_def)
  then have r: "read_body q len = Returns (take len c, ?q)"
    using s assms(2) by (simp add: read_body_def ENTRIES_PER_QUEUE_def shift_index_tl [OF I(1)])
  have "16 - length us = Suc (16 - length (used q))"
    using I(8) by (simp add: us)
  then have ix: "q_index ?q = map int us @ replicate (16 - length us) (- 1)"
    using I(3) by (simp add: us replicate_append_same)
  have used: "used ?q = us"
    by (rule used_of_index [OF ix])
  have inv: "slots_inv ?q"
  proof (rule slots_invI [OF ix])
    fix t
    assume t: "t < (16::nat)"
    show "en_len (q_slots ?q ! t) \<noteq> 0 \<longleftrightarrow> t \<in> set us"
      using t s I(2) I(6) [OF t] by (cases "t = s") (auto simp: us)
    show "length (en_content (q_slots ?q ! t)) = 512 \<and> en_len (q_slots ?q ! t) \<le> 512"
      using t s I(2) I(7) [OF t] by (cases "t = s") auto
  qed (use I in \<open>auto simp: us\<close>)
  have old: "q_slots ?q ! t = q_slots q ! t" if "t \<in> set us" for t
  proof -
    have "s \<noteq> t"
      using s that by blast
    then show ?thesis
      by simp
  qed
  then have "stored ?q = cs"
    unfolding stored_def used c(2) by (simp cong: map_cong)
  then show ?thesis
    using r inv by simp
qed

section \<open>A bounded queue of messages\<close>

text \<open>Between two operations the semaphores count the filled and the free slots.\<close>

definition shm_inv :: "Queue \<Rightarrow> bool" where
  "shm_inv q \<longleftrightarrow> slots_inv q \<and> q_readWait q = length (used q) \<and> q_readWait q + q_writeSem q = 16"

definition shm_send :: "Queue \<Rightarrow> byte list \<Rightarrow> Queue outcome" where
  "shm_send q buff = map_outcome snd (ipc_write q buff)"

lemma length_stored [simp]: "length (stored q) = length (used q)"
  by (simp add: stored_def)

lemma slots_inv_sems [simp]: "slots_inv (q\<lparr>q_readWait := r\<rparr>) = slots_inv q"
  "slots_inv (q\<lparr>q_writeSem := w\<rparr>) = slots_inv q" "stored (q\<lparr>q_readWait := r\<rparr>) = stored q"
  "stored (q\<lparr>q_writeSem := w\<rparr>) = stored q"
  "used (q\<lparr>q_readWait := r\<rparr>) = used q" "used (q\<lparr>q_writeSem := w\<rparr>) = used q"
  by (simp_all add: slots_inv_def stored_def used_def)

lemma slots_init: "slots_inv queue_init" "stored queue_init = []"
proof -
  have ix: "q_index queue_init = map int [] @ replicate (16 - length ([] :: nat list)) (- 1)"
    by (simp add: queue_init_def ENTRIES_PER_QUEUE_def)
  show "slots_inv queue_init"
    by (rule slots_invI [OF ix]) (simp_all add: queue_init_def ENTRIES_PER_QUEUE_def IPC_MAX_PACKET_LEN_def)
  show "stored queue_init = []"
    by (simp add: stored_def used_of_index [OF ix])
qed

lemma queue_init_inv: "shm_inv queue_init \<and> stored queue_init = []"
proof -
  have "length (used queue_init) = 0"
    using slots_init(2) length_stored [of queue_init] by simp
  then show ?thesis
    by (simp add: shm_inv_def slots_init) (simp add: queue_init_def ENTRIES_PER_QUEUE_def)
qed

lemma ipc_write_room:
  assumes "shm_inv q" "buff \<noteq> []" "length (stored q) < 16"
  shows "\<exists>q'. ipc_write q buff = Returns (min (length buff) 512, q') \<and> shm_inv q' \<and>
    stored q' = stored q @ [take 512 buff]"
proof -
  let ?q = "q\<lparr>q_writeSem := q_writeSem q - 1\<rparr>"
  have sems: "q_readWait q = length (used q)" "q_writeSem q = 16 - length (used q)" "length (used q) < 16"
    using assms by (auto simp: shm_inv_def)
  have "slots_inv ?q" "assert_sems ?q" "length (used ?q) < 16"
    using assms sems by (auto simp: shm_inv_def assert_sems_def ENTRIES_PER_QUEUE_def)
  from write_body_ok [OF this assms(2)] obtain q' where
    q': "write_body ?q buff = Returns (length (take 512 buff), q')" "slots_inv q'"
      "stored q' = stored q @ [take 512 buff]" "q_readWait q' = q_readWait q" "q_writeSem q' = q_writeSem q - 1"
    by auto
  have "length (used q') = Suc (length (used q))"
    using arg_cong [OF q'(3), of length] by simp
  then show ?thesis
    using q' sems by (simp add: ipc_write_def shm_inv_def)
qed

lemma ipc_write_full:
  assumes "shm_inv q" "length (stored q) = 16"
  shows "ipc_write q buff = Blocks"
  using assms by (auto simp: ipc_write_def shm_inv_def)

lemma ipc_read_some:
  assumes "shm_inv q" "stored q = c # cs"
  shows "\<exists>q'. ipc_read q len = Returns (take len c, q') \<and> shm_inv q' \<and> stored q' = cs"
proof -
  let ?q = "q\<lparr>q_readWait := q_readWait q - 1\<rparr>"
  have sems: "q_readWait q = length (used q)" "q_readWait q + q_writeSem q = 16" "length (used q) = Suc (length cs)"
    using assms length_stored [of q] by (auto simp: shm_inv_def)
  have "slots_inv ?q" "assert_sems ?q" "stored ?q = c # cs"
    using assms sems by (auto simp: shm_inv_def assert_sems_def ENTRIES_PER_QUEUE_def)
  from read_body_ok [OF this] obtain q' where
    q': "read_body ?q len = Returns (take len c, q')" "slots_inv q'" "stored q' = cs"
      "q_readWait q' = q_readWait q - 1" "q_writeSem q' = q_writeSem q"
    by auto
  have "length (used q') = length cs"
    using arg_cong [OF q'(3), of length] by simp
  then show ?thesis
    using q' sems by (simp add: ipc_read_def shm_inv_def)
qed

lemma ipc_read_empty: "shm_inv q \<Longrightarrow> stored q = [] \<Longrightarrow> ipc_read q len = Blocks"
  using length_stored [of q] by (simp add: ipc_read_def shm_inv_def)

interpretation shm: bounded_fifo shm_send "\<lambda>q. ipc_read q len" stored shm_inv 16
  "\<lambda>b. b \<noteq> []" "take 512" "take len" for len
proof unfold_locales
  fix q buff c cs
  assume q: "shm_inv q"
  show "length (stored q) \<le> 16"
    using q by (auto simp: shm_inv_def)
  show "shm_send q buff = Blocks" if "length (stored q) = 16"
    using ipc_write_full [OF q that] by (simp add: shm_send_def)
  show "\<exists>q'. shm_send q buff = Returns q' \<and> shm_inv q' \<and> stored q' = stored q @ [take 512 buff]"
    if "buff \<noteq> []" "length (stored q) < 16"
    using ipc_write_room [OF q that] by (auto simp: shm_send_def)
  show "ipc_read q len = Blocks" if "stored q = []"
    by (rule ipc_read_empty [OF q that])
  show "\<exists>q'. ipc_read q len = Returns (take len c, q') \<and> shm_inv q' \<and> stored q' = cs"
    if "stored q = c # cs"
    by (rule ipc_read_some [OF q that])
qed

end
