(* ===== verification/Shmem_Processes.thy ===== *)
theory Shmem_Processes
  imports Shmem
begin

text \<open>
  \<open>ipc_read\<close> and \<open>ipc_write\<close> of \<open>ipc/shmem.c\<close> run by any number of threads at once, which
  may be interrupted between any two of: waiting for a counting semaphore, taking the
  lock, the body the lock protects, releasing the lock, posting the other semaphore.

  The lock is a step of its own; that bodies never overlap is part of the invariant
  (\<open>sys_inv\<close>), and so the body may be run as one step. The logs \<open>sys_sent\<close> and \<open>sys_got\<close>
  record what was written and read, in the order of the bodies.
\<close>

section \<open>Threads and their steps\<close>

datatype pc =
    Idle
  | W_wait "byte list" | W_enter "byte list" | W_body "byte list" | W_leave | W_post
  | R_wait nat | R_enter nat | R_body nat | R_leave | R_post

record shm_system =
  sys_queue :: Queue
  sys_lock :: bool
  sys_pcs :: "pc list"
  sys_sent :: "byte list list"
  sys_got :: "(nat \<times> byte list) list"
  sys_fault :: bool

abbreviation move :: "nat \<Rightarrow> pc \<Rightarrow> shm_system \<Rightarrow> shm_system" where
  "move i p S \<equiv> S\<lparr>sys_pcs := (sys_pcs S)[i := p]\<rparr>"

abbreviation at_pc :: "shm_system \<Rightarrow> nat \<Rightarrow> pc \<Rightarrow> bool" where
  "at_pc S i p \<equiv> i < length (sys_pcs S) \<and> sys_pcs S ! i = p"

definition take_permit_w :: "Queue \<Rightarrow> Queue" where
  "take_permit_w q = q\<lparr>q_writeSem := q_writeSem q - 1\<rparr>"

definition take_permit_r :: "Queue \<Rightarrow> Queue" where
  "take_permit_r q = q\<lparr>q_readWait := q_readWait q - 1\<rparr>"

definition post_w :: "Queue \<Rightarrow> Queue" where
  "post_w q = q\<lparr>q_writeSem := q_writeSem q + 1\<rparr>"

definition post_r :: "Queue \<Rightarrow> Queue" where
  "post_r q = q\<lparr>q_readWait := q_readWait q + 1\<rparr>"

text \<open>What a thread that has entered one of the two functions does next.\<close>

inductive shm_step :: "shm_system \<Rightarrow> shm_system \<Rightarrow> bool" where
  w_wait: "at_pc S i (W_wait b) \<Longrightarrow> q_writeSem (sys_queue S) \<noteq> 0 \<Longrightarrow>
    shm_step S ((move i (W_enter b) S)\<lparr>sys_queue := take_permit_w (sys_queue S)\<rparr>)"
| w_enter: "at_pc S i (W_enter b) \<Longrightarrow> \<not> sys_lock S \<Longrightarrow>
    shm_step S ((move i (W_body b) S)\<lparr>sys_lock := True\<rparr>)"
| w_body: "at_pc S i (W_body b) \<Longrightarrow> write_body (sys_queue S) b = Returns (n, q') \<Longrightarrow>
    shm_step S ((move i W_leave S)\<lparr>sys_queue := q', sys_sent := sys_sent S @ [take IPC_MAX_PACKET_LEN b]\<rparr>)"
| w_fault: "at_pc S i (W_body b) \<Longrightarrow> write_body (sys_queue S) b = Faults \<Longrightarrow>
    shm_step S (S\<lparr>sys_fault := True\<rparr>)"
| w_leave: "at_pc S i W_leave \<Longrightarrow> shm_step S ((move i W_post S)\<lparr>sys_lock := False\<rparr>)"
| w_post: "at_pc S i W_post \<Longrightarrow>
    shm_step S ((move i Idle S)\<lparr>sys_queue := post_r (sys_queue S)\<rparr>)"
| r_wait: "at_pc S i (R_wait n) \<Longrightarrow> q_readWait (sys_queue S) \<noteq> 0 \<Longrightarrow>
    shm_step S ((move i (R_enter n) S)\<lparr>sys_queue := take_permit_r (sys_queue S)\<rparr>)"
| r_enter: "at_pc S i (R_enter n) \<Longrightarrow> \<not> sys_lock S \<Longrightarrow>
    shm_step S ((move i (R_body n) S)\<lparr>sys_lock := True\<rparr>)"
| r_body: "at_pc S i (R_body n) \<Longrightarrow> read_body (sys_queue S) n = Returns (xs, q') \<Longrightarrow>
    shm_step S ((move i R_leave S)\<lparr>sys_queue := q', sys_got := sys_got S @ [(n, xs)]\<rparr>)"
| r_fault: "at_pc S i (R_body n) \<Longrightarrow> read_body (sys_queue S) n = Faults \<Longrightarrow>
    shm_step S (S\<lparr>sys_fault := True\<rparr>)"
| r_leave: "at_pc S i R_leave \<Longrightarrow> shm_step S ((move i R_post S)\<lparr>sys_lock := False\<rparr>)"
| r_post: "at_pc S i R_post \<Longrightarrow>
    shm_step S ((move i Idle S)\<lparr>sys_queue := post_w (sys_queue S)\<rparr>)"

text \<open>A thread calls one of the functions: nobody sends an empty message.\<close>

inductive shm_call :: "shm_system \<Rightarrow> shm_system \<Rightarrow> bool" where
  call_write: "at_pc S i Idle \<Longrightarrow> b \<noteq> [] \<Longrightarrow> shm_call S (move i (W_wait b) S)"
| call_read: "at_pc S i Idle \<Longrightarrow> shm_call S (move i (R_wait n) S)"

definition sys_init :: "nat \<Rightarrow> shm_system" where
  "sys_init n = \<lparr>sys_queue = queue_init, sys_lock = False, sys_pcs = replicate n Idle, sys_sent = [],
     sys_got = [], sys_fault = False\<rparr>"

inductive shm_reach :: "nat \<Rightarrow> shm_system \<Rightarrow> bool" for n where
  reach_init: "shm_reach n (sys_init n)"
| reach_step: "shm_reach n S \<Longrightarrow> shm_step S S' \<Longrightarrow> shm_reach n S'"
| reach_call: "shm_reach n S \<Longrightarrow> shm_call S S' \<Longrightarrow> shm_reach n S'"

inductive_cases shm_callE: "shm_call S S'"

section \<open>Counting threads\<close>

fun w_pending :: "pc \<Rightarrow> bool" where
  "w_pending (W_enter _) = True"
| "w_pending (W_body _) = True"
| "w_pending _ = False"

fun w_done :: "pc \<Rightarrow> bool" where
  "w_done W_leave = True"
| "w_done W_post = True"
| "w_done _ = False"

fun r_pending :: "pc \<Rightarrow> bool" where
  "r_pending (R_enter _) = True"
| "r_pending (R_body _) = True"
| "r_pending _ = False"

fun r_done :: "pc \<Rightarrow> bool" where
  "r_done R_leave = True"
| "r_done R_post = True"
| "r_done _ = False"

fun holds_lock :: "pc \<Rightarrow> bool" where
  "holds_lock (W_body _) = True"
| "holds_lock W_leave = True"
| "holds_lock (R_body _) = True"
| "holds_lock R_leave = True"
| "holds_lock _ = False"

fun pc_ok :: "pc \<Rightarrow> bool" where
  "pc_ok (W_wait b) = (b \<noteq> [])"
| "pc_ok (W_enter b) = (b \<noteq> [])"
| "pc_ok (W_body b) = (b \<noteq> [])"
| "pc_ok _ = True"

definition cnt :: "(pc \<Rightarrow> bool) \<Rightarrow> pc list \<Rightarrow> int" where
  "cnt P pcs = int (length (filter P pcs))"

lemma cnt_nonneg [simp]: "0 \<le> cnt P pcs"
  by (simp add: cnt_def)

lemma cnt_Cons: "cnt P (p # pcs) = (if P p then 1 else 0) + cnt P pcs"
  by (simp add: cnt_def)

lemma cnt_update:
  "i < length pcs \<Longrightarrow> cnt P (pcs[i := p]) = cnt P pcs - (if P (pcs ! i) then 1 else 0) + (if P p then 1 else 0)"
  by (induction pcs arbitrary: i) (auto simp: cnt_Cons split: nat.splits)

lemma cnt_pos: "i < length pcs \<Longrightarrow> P (pcs ! i) \<Longrightarrow> 1 \<le> cnt P pcs"
proof -
  assume "i < length pcs" "P (pcs ! i)"
  then have "pcs ! i \<in> set (filter P pcs)"
    by simp
  then have "length (filter P pcs) \<noteq> 0"
    by (metis length_greater_0_conv length_pos_if_in_set less_not_refl)
  then have "1 \<le> length (filter P pcs)"
    by linarith
  then show ?thesis
    unfolding cnt_def by linarith
qed

lemma cnt_zero: "cnt P pcs = 0 \<longleftrightarrow> (\<forall>p \<in> set pcs. \<not> P p)"
  by (auto simp: cnt_def filter_empty_conv)

lemma cnt_replicate_Idle: "\<not> P Idle \<Longrightarrow> cnt P (replicate n Idle) = 0"
  by (simp add: cnt_def)

section \<open>The invariant\<close>

text \<open>Every read so far got the beginning of the message that was the oldest at that time.\<close>

definition fifo_log :: "shm_system \<Rightarrow> bool" where
  "fifo_log S \<longleftrightarrow> (\<exists>taken. sys_sent S = taken @ stored (sys_queue S) \<and>
     list_all2 (\<lambda>(n, xs) c. xs = take n c) (sys_got S) taken)"

definition sys_inv :: "shm_system \<Rightarrow> bool" where
  "sys_inv S \<longleftrightarrow> \<not> sys_fault S \<and> slots_inv (sys_queue S) \<and> list_all pc_ok (sys_pcs S) \<and>
     int (q_writeSem (sys_queue S)) + cnt w_pending (sys_pcs S) + int (length (stored (sys_queue S))) +
       cnt r_done (sys_pcs S) = 16 \<and>
     int (length (stored (sys_queue S))) =
       int (q_readWait (sys_queue S)) + cnt r_pending (sys_pcs S) + cnt w_done (sys_pcs S) \<and>
     cnt holds_lock (sys_pcs S) = (if sys_lock S then 1 else 0) \<and> fifo_log S"

lemma sys_invD:
  assumes "sys_inv S"
  shows "\<not> sys_fault S" "slots_inv (sys_queue S)" "list_all pc_ok (sys_pcs S)"
    and "int (q_writeSem (sys_queue S)) + cnt w_pending (sys_pcs S) + int (length (stored (sys_queue S))) +
      cnt r_done (sys_pcs S) = 16"
    and "int (length (stored (sys_queue S))) =
      int (q_readWait (sys_queue S)) + cnt r_pending (sys_pcs S) + cnt w_done (sys_pcs S)"
    and "cnt holds_lock (sys_pcs S) = (if sys_lock S then 1 else 0)" "fifo_log S"
  using assms by (simp_all add: sys_inv_def)

lemma permit_simps [simp]:
  "slots_inv (take_permit_w q) = slots_inv q" "stored (take_permit_w q) = stored q"
  "slots_inv (take_permit_r q) = slots_inv q" "stored (take_permit_r q) = stored q"
  "slots_inv (post_w q) = slots_inv q" "stored (post_w q) = stored q"
  "slots_inv (post_r q) = slots_inv q" "stored (post_r q) = stored q"
  "used (take_permit_w q) = used q" "used (take_permit_r q) = used q"
  "used (post_w q) = used q" "used (post_r q) = used q"
  "q_readWait (take_permit_w q) = q_readWait q" "q_readWait (post_w q) = q_readWait q"
  "q_writeSem (take_permit_r q) = q_writeSem q" "q_writeSem (post_r q) = q_writeSem q"
  "q_writeSem (take_permit_w q) = q_writeSem q - 1" "q_writeSem (post_w q) = q_writeSem q + 1"
  "q_readWait (take_permit_r q) = q_readWait q - 1" "q_readWait (post_r q) = q_readWait q + 1"
  by (simp_all add: take_permit_w_def take_permit_r_def post_w_def post_r_def)

text \<open>The semaphores are in range, there is room for every writer inside, and a message for
  every reader.\<close>

lemma sys_inv_sems: "sys_inv S \<Longrightarrow> assert_sems (sys_queue S)"
  unfolding sys_inv_def assert_sems_def ENTRIES_PER_QUEUE_def
  using cnt_nonneg [of w_pending "sys_pcs S"] cnt_nonneg [of r_done "sys_pcs S"]
    cnt_nonneg [of r_pending "sys_pcs S"] cnt_nonneg [of w_done "sys_pcs S"] by linarith

lemma sys_inv_write:
  assumes "sys_inv S" "at_pc S i (W_body b)"
  shows "\<exists>n q'. write_body (sys_queue S) b = Returns (n, q') \<and> slots_inv q' \<and>
    stored q' = stored (sys_queue S) @ [take 512 b] \<and> q_readWait q' = q_readWait (sys_queue S) \<and>
    q_writeSem q' = q_writeSem (sys_queue S)"
proof -
  have "1 \<le> cnt w_pending (sys_pcs S)"
    using assms(2) by (intro cnt_pos) auto
  then have "length (stored (sys_queue S)) < 16"
    using sys_invD(4) [OF assms(1)] cnt_nonneg [of r_done "sys_pcs S"] by linarith
  then have "length (used (sys_queue S)) < 16"
    by simp
  moreover have "b \<noteq> []"
    using assms list_all_at [of pc_ok "sys_pcs S" i] by (simp add: sys_inv_def)
  ultimately show ?thesis
    using write_body_ok [OF sys_invD(2) [OF assms(1)] sys_inv_sems [OF assms(1)]] by blast
qed

lemma sys_inv_read:
  assumes "sys_inv S" "at_pc S i (R_body n)"
  shows "\<exists>c cs q'. stored (sys_queue S) = c # cs \<and> read_body (sys_queue S) n = Returns (take n c, q') \<and>
    slots_inv q' \<and> stored q' = cs \<and> q_readWait q' = q_readWait (sys_queue S) \<and>
    q_writeSem q' = q_writeSem (sys_queue S)"
proof -
  have "1 \<le> cnt r_pending (sys_pcs S)"
    using assms(2) by (intro cnt_pos) auto
  then have "length (stored (sys_queue S)) \<noteq> 0"
    using sys_invD(5) [OF assms(1)] cnt_nonneg [of w_done "sys_pcs S"] by linarith
  then obtain c cs where c: "stored (sys_queue S) = c # cs"
    by (cases "stored (sys_queue S)") auto
  with read_body_ok [OF _ sys_inv_sems [OF assms(1)] c] assms(1) show ?thesis
    by (auto simp: sys_inv_def)
qed

lemma fifo_log_sent:
  assumes "fifo_log S" "stored q' = stored (sys_queue S) @ [m]"
  shows "fifo_log (S\<lparr>sys_pcs := pcs, sys_queue := q', sys_sent := sys_sent S @ [m]\<rparr>)"
  using assms by (auto simp: fifo_log_def)

lemma fifo_log_got:
  assumes "fifo_log S" "stored (sys_queue S) = c # stored q'"
  shows "fifo_log (S\<lparr>sys_pcs := pcs, sys_queue := q', sys_got := sys_got S @ [(n, take n c)]\<rparr>)"
proof -
  obtain taken where "sys_sent S = taken @ c # stored q'"
    "list_all2 (\<lambda>(n, xs) c. xs = take n c) (sys_got S) taken"
    using assms by (auto simp: fifo_log_def)
  then have "sys_sent S = (taken @ [c]) @ stored q'"
    "list_all2 (\<lambda>(n, xs) c. xs = take n c) (sys_got S @ [(n, take n c)]) (taken @ [c])"
    by (auto intro: list_all2_appendI)
  then show ?thesis
    unfolding fifo_log_def by (intro exI [of _ "taken @ [c]"]) simp
qed

lemma fifo_log_same:
  assumes "fifo_log S"
  shows "stored q' = stored (sys_queue S) \<Longrightarrow> fifo_log (S\<lparr>sys_pcs := pcs, sys_queue := q'\<rparr>)"
    and "fifo_log (S\<lparr>sys_pcs := pcs, sys_lock := l\<rparr>)" and "fifo_log (S\<lparr>sys_pcs := pcs\<rparr>)"
  using assms by (auto simp: fifo_log_def)

lemma sys_inv_step:
  assumes "shm_step S S'" "sys_inv S"
  shows "sys_inv S'"
proof -
  note I = sys_invD [OF assms(2)]
  note pcs = cnt_update list_all_update [OF I(3)]
  have ok: "pc_ok (sys_pcs S ! i)" if "i < length (sys_pcs S)" for i
    using I(3) that by (rule list_all_at)
  from assms(1) show ?thesis
  proof (cases rule: shm_step.cases)
    case (w_wait i b)
    then have "pc_ok (W_enter b)"
      using ok [of i] by simp
    with w_wait I show ?thesis
      by (simp add: sys_inv_def pcs fifo_log_same)
  next
    case (w_enter i b)
    then have "pc_ok (W_body b)"
      using ok [of i] by simp
    with w_enter I show ?thesis
      by (simp add: sys_inv_def pcs fifo_log_same)
  next
    case (w_body i b n q')
    from sys_inv_write [OF assms(2), of i b] w_body have "slots_inv q'"
      "stored q' = stored (sys_queue S) @ [take 512 b]" "q_readWait q' = q_readWait (sys_queue S)"
      "q_writeSem q' = q_writeSem (sys_queue S)"
      by auto
    with w_body I fifo_log_sent [OF I(7) this(2)] arg_cong [OF this(2), of length] show ?thesis
      by (simp add: sys_inv_def pcs IPC_MAX_PACKET_LEN_def)
  next
    case (w_fault i b)
    with sys_inv_write [OF assms(2), of i b] show ?thesis
      by auto
  next
    case (w_leave i)
    with I cnt_pos [of i "sys_pcs S" holds_lock] show ?thesis
      by (simp add: sys_inv_def pcs fifo_log_same split: if_splits)
  next
    case (w_post i)
    with I show ?thesis
      by (simp add: sys_inv_def pcs fifo_log_same)
  next
    case (r_wait i n)
    with I show ?thesis
      by (simp add: sys_inv_def pcs fifo_log_same)
  next
    case (r_enter i n)
    with I show ?thesis
      by (simp add: sys_inv_def pcs fifo_log_same)
  next
    case (r_body i n xs q')
    from sys_inv_read [OF assms(2), of i n] r_body obtain c where "slots_inv q'"
      "stored (sys_queue S) = c # stored q'" "xs = take n c" "q_readWait q' = q_readWait (sys_queue S)"
      "q_writeSem q' = q_writeSem (sys_queue S)"
      by auto
    with r_body I fifo_log_got [OF I(7) this(2)] arg_cong [OF this(2), of length] show ?thesis
      by (simp add: sys_inv_def pcs)
  next
    case (r_fault i n)
    with sys_inv_read [OF assms(2), of i n] show ?thesis
      by auto
  next
    case (r_leave i)
    with I cnt_pos [of i "sys_pcs S" holds_lock] show ?thesis
      by (simp add: sys_inv_def pcs fifo_log_same split: if_splits)
  next
    case (r_post i)
    with I show ?thesis
      by (simp add: sys_inv_def pcs fifo_log_same)
  qed
qed

lemma sys_inv_call: "shm_call S S' \<Longrightarrow> sys_inv S \<Longrightarrow> sys_inv S'"
  by (erule shm_callE) (auto simp: sys_inv_def cnt_update list_all_update fifo_log_same(3))

lemma sys_inv_init: "sys_inv (sys_init n)"
proof -
  have "length (stored queue_init) = 0"
    by (simp only: slots_init list.size)
  then show ?thesis
    by (simp add: sys_inv_def sys_init_def slots_init cnt_replicate_Idle fifo_log_def list_all_iff)
      (simp add: queue_init_def ENTRIES_PER_QUEUE_def)
qed

lemma sys_inv_reach: "shm_reach n S \<Longrightarrow> sys_inv S"
  by (induction rule: shm_reach.induct) (simp_all add: sys_inv_init sys_inv_step sys_inv_call)

lemma shm_step_length: "shm_step S S' \<Longrightarrow> length (sys_pcs S') = length (sys_pcs S)"
  by (induction rule: shm_step.induct) simp_all

lemma sys_reach_length: "shm_reach n S \<Longrightarrow> length (sys_pcs S) = n"
  by (induction rule: shm_reach.induct) (auto simp: sys_init_def shm_step_length elim: shm_callE)

text \<open>Two different threads are never inside the bodies at once.\<close>

lemma sys_inv_mutex:
  assumes "sys_inv S" "i < length (sys_pcs S)" "j < length (sys_pcs S)" "i \<noteq> j"
    and "holds_lock (sys_pcs S ! i)" "holds_lock (sys_pcs S ! j)"
  shows False
proof -
  let ?pcs = "(sys_pcs S)[i := Idle]"
  have "cnt holds_lock ?pcs = cnt holds_lock (sys_pcs S) - 1"
    using assms by (simp add: cnt_update)
  moreover have "1 \<le> cnt holds_lock ?pcs"
    using assms by (intro cnt_pos [of j]) auto
  ultimately show False
    using sys_invD(6) [OF assms(1)] by (simp split: if_splits)
qed

section \<open>Nothing gets stuck\<close>

text \<open>A thread inside one of the functions that cannot go on.\<close>

lemma sys_inv_stuck:
  assumes inv: "sys_inv S" and stuck: "\<And>S'. \<not> shm_step S S'" and i: "i < length (sys_pcs S)"
  shows "sys_pcs S ! i = Idle \<or>
    (\<exists>b. sys_pcs S ! i = W_wait b) \<and> length (stored (sys_queue S)) = 16 \<or>
    (\<exists>n. sys_pcs S ! i = R_wait n) \<and> stored (sys_queue S) = []"
proof -
  have no_write: "sys_pcs S ! j \<noteq> W_body b" if "j < length (sys_pcs S)" for j b
    using sys_inv_write [OF inv, of j b] stuck w_body that by blast
  have no_read: "sys_pcs S ! j \<noteq> R_body n" if "j < length (sys_pcs S)" for j n
    using sys_inv_read [OF inv, of j n] stuck r_body that by blast
  have out: "sys_pcs S ! j \<noteq> W_leave \<and> sys_pcs S ! j \<noteq> W_post \<and> sys_pcs S ! j \<noteq> R_leave \<and> sys_pcs S ! j \<noteq> R_post"
    if "j < length (sys_pcs S)" for j
    using stuck w_leave w_post r_leave r_post that by blast
  have "\<not> holds_lock (sys_pcs S ! j)" if "j < length (sys_pcs S)" for j
    using no_write [OF that] no_read [OF that] out [OF that] by (cases "sys_pcs S ! j") auto
  then have "cnt holds_lock (sys_pcs S) = 0"
    by (auto simp: cnt_zero in_set_conv_nth)
  then have free: "\<not> sys_lock S"
    using sys_invD(6) [OF inv] by (simp split: if_splits)
  have no_enter: "sys_pcs S ! j \<noteq> W_enter b \<and> sys_pcs S ! j \<noteq> R_enter n" if "j < length (sys_pcs S)" for j b n
    using stuck free w_enter r_enter that by blast
  have rest: "sys_pcs S ! j = Idle \<or> (\<exists>b. sys_pcs S ! j = W_wait b) \<or> (\<exists>n. sys_pcs S ! j = R_wait n)"
    if "j < length (sys_pcs S)" for j
    using no_write [OF that] no_read [OF that] out [OF that] no_enter [OF that]
    by (cases "sys_pcs S ! j") auto
  have "\<not> w_pending p \<and> \<not> w_done p \<and> \<not> r_pending p \<and> \<not> r_done p" if p: "p \<in> set (sys_pcs S)" for p
  proof -
    obtain j where "j < length (sys_pcs S)" "p = sys_pcs S ! j"
      using p by (metis in_set_conv_nth)
    with rest [of j] show ?thesis
      by auto
  qed
  then have "cnt w_pending (sys_pcs S) = 0" "cnt w_done (sys_pcs S) = 0" "cnt r_pending (sys_pcs S) = 0"
    "cnt r_done (sys_pcs S) = 0"
    by (simp_all add: cnt_zero)
  then have sems: "q_writeSem (sys_queue S) = 16 - length (stored (sys_queue S))"
    "q_readWait (sys_queue S) = length (stored (sys_queue S))" "length (stored (sys_queue S)) \<le> 16"
    using sys_invD(4,5) [OF inv] by linarith+
  have "length (stored (sys_queue S)) = 16" if "sys_pcs S ! i = W_wait b" for b
    using stuck w_wait [of i S b] i that sems by auto
  moreover have "stored (sys_queue S) = []" if "sys_pcs S ! i = R_wait n" for n
  proof -
    have "q_readWait (sys_queue S) = 0"
      using stuck r_wait [of i S n] i that by blast
    then show ?thesis
      using sems(2) by (simp only: length_0_conv)
  qed
  ultimately show ?thesis
    using rest [OF i] by auto
qed

end
