(* ===== verification/Properties_Queues.thy ===== *)
theory Properties_Queues
  imports MsgQueue Shmem_Processes
begin

text \<open>
  The properties of the queues: \<open>communication/msgqueue.c\<close> between threads and
  \<open>ipc/shmem.c\<close> between processes.
\<close>

section \<open>The queue between threads\<close>

text \<open>
  C16. The ring of \<open>msgqueue.c\<close> is a first-in first-out queue: in any sequence of pushes and
  pops that does not wait, the messages received, followed by those still inside, are those
  that were inside, followed by those sent. No sequence leaves the array or reads a cell that
  was not written.
\<close>

theorem message_queue_fifo:
  assumes "mq_inv q"
  shows "case run_queue (message_queue_push False) (message_queue_pop False) q ops of
      Faults \<Rightarrow> False
    | Blocks \<Rightarrow> True
    | Returns (received, q') \<Rightarrow> mq_inv q' \<and> received @ mq_list q' = mq_list q @ pushed ops"
  using mq.run_refines [OF assms, of ops] mq.run_fifo [OF assms, of ops]
  by (auto split: outcome.splits)

definition sample_message :: "MessageType \<Rightarrow> Message" where
  "sample_message t = \<lparr>msg_type = t, msg_payload = P_Unset\<rparr>"

definition empty_queue :: MessageQueue where
  "empty_queue = \<lparr>mq_messages = arr_new QUEUE_SIZE, mq_first = 0, mq_tail = 0, mq_closing = False\<rparr>"

lemma empty_queue_inv: "mq_inv empty_queue" "mq_list empty_queue = []" "\<not> mq_closing empty_queue"
  using message_queue_create_inv [of "[]" empty_queue "[]"]
  by (auto simp: message_queue_create_def empty_queue_def)

theorem message_queue_fifo_witness:
  "case run_queue (message_queue_push False) (message_queue_pop False) empty_queue
      [Push (sample_message MessageTypeStep), Push (sample_message MessageTypeContinue), Pop] of
    Faults \<Rightarrow> False
  | Blocks \<Rightarrow> True
  | Returns (received, q') \<Rightarrow>
      received @ mq_list q' = [sample_message MessageTypeStep, sample_message MessageTypeContinue]"
  using message_queue_fifo [OF empty_queue_inv(1), of "[Push (sample_message MessageTypeStep),
      Push (sample_message MessageTypeContinue), Pop]"]
  by (auto simp: empty_queue_inv split: outcome.splits)

text \<open>A sender waits exactly when nine messages are inside, a receiver exactly when none is.\<close>

theorem message_queue_waits:
  assumes "mq_inv q"
  shows "length (mq_list q) \<le> 9 \<and>
    (message_queue_push False q m = Blocks \<longleftrightarrow> length (mq_list q) = 9) \<and>
    (message_queue_pop False q = Blocks \<longleftrightarrow> mq_list q = [])"
proof -
  have "message_queue_pop False q \<noteq> Blocks" if "mq_list q \<noteq> []"
  proof -
    obtain m ms where "mq_list q = m # ms"
      using \<open>mq_list q \<noteq> []\<close> by (cases "mq_list q") auto
    from mq.pop_some [OF assms this] show ?thesis
      by auto
  qed
  then show ?thesis
    using mq.bounded [OF assms] mq.push_full [OF assms, of m] mq.push_room [OF assms, of m] mq.pop_empty [OF assms]
    by (auto simp: le_less)
qed

theorem message_queue_waits_witness:
  "message_queue_pop False empty_queue = Blocks \<and>
    message_queue_push False empty_queue (sample_message MessageTypeStep) \<noteq> Blocks"
  using message_queue_waits [OF empty_queue_inv(1), of "sample_message MessageTypeStep"]
  by (simp add: empty_queue_inv)

text \<open>
  Closing releases whoever waits: a thread woken after \<open>message_queue_destroy\<close> returns
  without touching the queue, and a woken receiver gets a message of type None.
\<close>

theorem message_queue_closing:
  "message_queue_pop True (message_queue_destroy q) = Returns (none_message, message_queue_destroy q) \<and>
   message_queue_push True (message_queue_destroy q) m = Returns (message_queue_destroy q) \<and>
   msg_type none_message = MessageTypeNone"
  by (simp add: message_queue_pop_def message_queue_push_def message_queue_destroy_def none_message_def)

text \<open>
  Peeking looks at the type of the message that the next pop returns, and reports None
  exactly for an empty queue or a message of that type.
\<close>

theorem message_queue_peek_next:
  assumes "mq_inv q"
  shows "\<exists>t. message_queue_peek q = Returns t \<and>
    (mq_list q = [] \<longrightarrow> t = MessageTypeNone) \<and>
    (\<forall>m q'. message_queue_pop False q = Returns (m, q') \<longrightarrow> t = msg_type m)"
proof (cases "mq_list q")
  case Nil
  then show ?thesis
    using mq.pop_empty [OF assms] by (simp add: message_queue_peek_hd [OF assms])
next
  case (Cons m ms)
  then show ?thesis
    using mq.pop_some [OF assms Cons] by (auto simp: message_queue_peek_hd [OF assms])
qed

theorem message_queue_peek_next_witness:
  "message_queue_peek empty_queue = Returns MessageTypeNone"
  using message_queue_peek_next [OF empty_queue_inv(1)] by (auto simp: empty_queue_inv)

section \<open>The queue in shared memory\<close>

text \<open>
  C25. The slots and the index of \<open>shmem.c\<close> form a first-in first-out queue of sixteen packets:
  a run of writes (of non-empty buffers) and reads into buffers of \<open>len\<close> bytes never leaves
  the slots, and delivers the packets in order, each cut to 512 bytes on sending and to
  \<open>len\<close> bytes on receiving.
\<close>

theorem shmem_fifo:
  assumes "shm_inv q" "[] \<notin> set (pushed ops)"
  shows "case run_queue shm_send (\<lambda>q. ipc_read q len) q ops of
      Faults \<Rightarrow> False
    | Blocks \<Rightarrow> True
    | Returns (received, q') \<Rightarrow> shm_inv q' \<and>
        received @ map (take len) (stored q') =
          map (take len) (stored q @ map (take 512) (pushed ops))"
proof -
  have a: "\<And>b. b \<in> set (pushed ops) \<Longrightarrow> b \<noteq> []"
    using assms(2) by auto
  show ?thesis
    using shm.run_refines [OF assms(1) a, of ops len] shm.run_fifo [OF assms(1) a, of ops len]
    by (auto split: outcome.splits simp: comp_def)
qed

theorem shmem_fifo_witness:
  "case run_queue shm_send (\<lambda>q. ipc_read q 2) queue_init [Push [1, 2, 3], Push [4], Pop] of
      Faults \<Rightarrow> False
    | Blocks \<Rightarrow> True
    | Returns (received, q') \<Rightarrow> received @ map (take 2) (stored q') = [[1, 2], [4]]"
  using shmem_fifo [OF conjunct1 [OF queue_init_inv], of "[Push [1, 2, 3], Push [4], Pop]" 2] queue_init_inv
  by (auto split: outcome.splits)

text \<open>
  C14. Any number of threads that call \<open>ipc_read\<close> and \<open>ipc_write\<close>, interleaved in any way:
  no access ever leaves the slots or finds a semaphore out of range, no two threads are
  inside the bodies at once, and the reads get the packets in the order of the writes.
\<close>

theorem shmem_interleaving_safe:
  assumes "shm_reach n S"
  shows "\<not> sys_fault S \<and> assert_sems (sys_queue S) \<and>
    (\<forall>i < n. \<forall>j < n. i \<noteq> j \<longrightarrow> \<not> (holds_lock (sys_pcs S ! i) \<and> holds_lock (sys_pcs S ! j))) \<and>
    (\<exists>taken. sys_sent S = taken @ stored (sys_queue S) \<and>
      list_all2 (\<lambda>(len, received) packet. received = take len packet) (sys_got S) taken)"
proof -
  have inv: "sys_inv S"
    by (rule sys_inv_reach [OF assms])
  have "length (sys_pcs S) = n"
    by (rule sys_reach_length [OF assms])
  then show ?thesis
    using inv sys_inv_sems [OF inv] sys_inv_mutex [OF inv] by (auto simp: sys_inv_def fifo_log_def)
qed

lemma shmem_run: "\<exists>S. shm_reach 2 S \<and> sys_sent S = [[7]] \<and> sys_pcs S ! 0 = W_leave"
proof -
  let ?S1 = "move 0 (W_wait [7]) (sys_init 2)"
  let ?S2 = "(move 0 (W_enter [7]) ?S1)\<lparr>sys_queue := take_permit_w (sys_queue ?S1)\<rparr>"
  let ?S3 = "(move 0 (W_body [7]) ?S2)\<lparr>sys_lock := True\<rparr>"
  have r1: "shm_reach 2 ?S1"
    by (rule reach_call [OF reach_init call_write]) (simp_all add: sys_init_def)
  have r2: "shm_reach 2 ?S2"
    by (rule reach_step [OF r1 w_wait]) (simp_all add: sys_init_def queue_init_def ENTRIES_PER_QUEUE_def)
  have r3: "shm_reach 2 ?S3"
    by (rule reach_step [OF r2 w_enter]) (simp_all add: sys_init_def)
  have pc: "at_pc ?S3 0 (W_body [7])"
    by (simp add: sys_init_def)
  obtain n q' where w: "write_body (sys_queue ?S3) [7] = Returns (n, q')"
    using sys_inv_write [OF sys_inv_reach [OF r3] pc] by blast
  show ?thesis
    by (rule exI, rule conjI [OF reach_step [OF r3 w_body [OF pc w]]])
      (simp add: sys_init_def IPC_MAX_PACKET_LEN_def)
qed

theorem shmem_interleaving_safe_witness:
  "\<exists>S. shm_reach 2 S \<and> sys_sent S = [[7]] \<and> \<not> sys_fault S \<and>
    (\<exists>taken. [[7]] = taken @ stored (sys_queue S)) \<and> \<not> (holds_lock (sys_pcs S ! 0) \<and> holds_lock (sys_pcs S ! 1))"
proof -
  obtain S where S: "shm_reach 2 S" "sys_sent S = [[7]]"
    using shmem_run by blast
  note safe = shmem_interleaving_safe [OF S(1)]
  then have "\<not> (holds_lock (sys_pcs S ! 0) \<and> holds_lock (sys_pcs S ! 1))"
    by (metis one_less_numeral_iff pos2 semiring_norm(76) zero_neq_one)
  with safe S show ?thesis
    by (intro exI [of _ S]) auto
qed

text \<open>
  C26. Nobody is forgotten: when no thread inside the two functions can take a step, every
  such thread is a writer in front of sixteen packets, or a reader in front of none.
\<close>

theorem shmem_no_lost_wakeup:
  assumes "shm_reach n S" "\<And>S'. \<not> shm_step S S'" "i < n"
  shows "sys_pcs S ! i = Idle \<or>
    (\<exists>b. sys_pcs S ! i = W_wait b) \<and> length (stored (sys_queue S)) = 16 \<or>
    (\<exists>len. sys_pcs S ! i = R_wait len) \<and> stored (sys_queue S) = []"
  using sys_inv_stuck [OF sys_inv_reach [OF assms(1)] assms(2)] sys_reach_length [OF assms(1)] assms(3)
  by blast

theorem shmem_no_lost_wakeup_witness:
  "\<exists>S. shm_reach 1 S \<and> sys_pcs S = [R_wait 4] \<and> stored (sys_queue S) = []"
proof -
  let ?S = "move 0 (R_wait 4) (sys_init 1)"
  have r: "shm_reach 1 ?S"
    by (rule reach_call [OF reach_init call_read]) (simp add: sys_init_def)
  have stuck: "\<not> shm_step ?S S'" for S'
    by (rule notI, erule shm_step.cases) (auto simp: sys_init_def queue_init_def)
  show ?thesis
    using shmem_no_lost_wakeup [OF r stuck, of 0] r by (intro exI [of _ ?S]) (auto simp: sys_init_def)
qed

text \<open>
  The one packet the slots cannot hold is the empty one, because a slot is free when its
  length is 0: after an empty packet and a packet of one byte, the first read returns the
  byte and the second nothing.
\<close>

theorem shmem_empty_packet:
  "map_outcome fst (run_queue shm_send (\<lambda>q. ipc_read q 8) queue_init [Push [], Push [1], Pop, Pop]) =
    Returns [[1], []]"
  by code_simp

end
