(* ===== verification/Map_Process.thy ===== *)
theory Map_Process
  imports Map_Docking Fifo_Interface
begin

text \<open>
  \<open>runMap\<close> of \<open>app/map.c\<close> with \<open>initPlane\<close> and the wrappers of \<open>communication/map.c\<close>: the
  turns of the simulation as the map process plays them.

  The process reads its messages from one list, in the order of \<open>ipc_read\<close>; what it sends
  to the airlines and to the output thread is appended to two logs. A connection is the
  index of the airline. \<open>ms_writes\<close> says which \<open>ipc_write\<close> fails (none, once the list is
  used up) and \<open>ms_exits\<close> what each look at \<open>exitState\<close> finds, which a signal handler may
  set at any time. Allocation does not fail here; Failing\_Allocations says what happens when it
  does. The wait for \<open>outputSem\<close> before each turn, which ties the turns to the output thread, is not
  in this theory, which follows one process: Whole\_Program has it. A run blocks when it waits for a
  message that never comes.
\<close>

section \<open>State\<close>

record map_state =
  ms_map :: sim_map
  ms_turn :: int
  ms_sent :: "(nat \<times> MapMessage) list"
  ms_output :: "Message list"
  ms_writes :: "bool list"
  ms_exits :: "bool list"

fun next_exit :: "bool list \<Rightarrow> bool \<times> bool list" where
  "next_exit [] = (False, [])"
| "next_exit (e # es) = (e, es)"

text \<open>An undefined computation inside an operation on the shared queues.\<close>

fun or_fault :: "'a option \<Rightarrow> 'a outcome" where
  "or_fault None = Faults"
| "or_fault (Some x) = Returns x"

fun then_do :: "'a outcome \<Rightarrow> ('a \<Rightarrow> 'b outcome) \<Rightarrow> 'b outcome" where
  "then_do Blocks f = Blocks"
| "then_do Faults f = Faults"
| "then_do (Returns x) f = f x"

section \<open>Sending\<close>

text \<open>The macro \<open>transmit\<close>: True when all bytes were written, otherwise the caller returns -1.\<close>

definition transmit :: "nat \<Rightarrow> MapMessage \<Rightarrow> map_state \<Rightarrow> bool \<times> map_state" where
  "transmit conn msg st =
     (let (ok, rest) = alloc (ms_writes st)
      in if ok then (True, st\<lparr>ms_writes := rest, ms_sent := ms_sent st @ [(conn, msg)]\<rparr>)
         else (False, st\<lparr>ms_writes := rest\<rparr>))"

definition comm_unloaded_stock :: "int \<Rightarrow> plane \<Rightarrow> nat \<Rightarrow> map_state \<Rightarrow> map_state option" where
  "comm_unloaded_stock airlineID pl conn st = do {
     msg \<leftarrow> marshall_change_stock airlineID (plane_id pl) (plane_cityId pl) (plane_stocks pl);
     Some (snd (transmit conn (MM_Stock msg) st))
   }"

definition comm_give_destinations :: "DestinationsMessage \<Rightarrow> nat \<Rightarrow> map_state \<Rightarrow> map_state" where
  "comm_give_destinations msg conn st = snd (transmit conn (MM_Destinations msg) st)"

text \<open>\<open>comm_turn_step\<close> and \<open>comm_turn_continue\<close> stop at the first connection that fails.\<close>

definition send_all :: "MessageType \<Rightarrow> nat vector \<Rightarrow> map_state \<Rightarrow> map_state option" where
  "send_all t conns st =
     after_loop
       (for_loop (getVectorSize conns) 0 (\<lambda>i st. do {
          conn \<leftarrow> vec_deref conns (int i);
          let (ok, st') = transmit conn (MM_Type t) st;
          Some (if ok then Next st' else Exit st')
        }) st)
       Some"

definition comm_turn_step :: "nat vector \<Rightarrow> map_state \<Rightarrow> map_state option" where
  "comm_turn_step conns st = send_all MessageTypeStep conns st"

definition comm_turn_continue :: "nat vector \<Rightarrow> map_state \<Rightarrow> map_state option" where
  "comm_turn_continue conns st = send_all MessageTypeContinue conns st"

text \<open>\<open>comm_end\<close> goes on after a failure.\<close>

definition comm_end :: "nat vector \<Rightarrow> map_state \<Rightarrow> map_state option" where
  "comm_end conns st =
     after_loop
       (for_loop (getVectorSize conns) 0 (\<lambda>i st. do {
          conn \<leftarrow> vec_deref conns (int i);
          Some (Next (snd (transmit conn (MM_Type MessageTypeEnd) st)))
        }) st)
       Some"

definition push_output :: "Message \<Rightarrow> map_state \<Rightarrow> map_state" where
  "push_output msg st = st\<lparr>ms_output := ms_output st @ [msg]\<rparr>"

definition comm_send_airline_status :: "int \<Rightarrow> int \<Rightarrow> int \<Rightarrow> map_state \<Rightarrow> map_state" where
  "comm_send_airline_status planesFlying totalPlanes i st =
     push_output \<lparr>msg_type = MessageTypeAirlineStatus,
       msg_payload = P_AirlineStatus (marshall_send_airline_status planesFlying totalPlanes i)\<rparr> st"

definition comm_end_output :: "map_state \<Rightarrow> map_state" where
  "comm_end_output st = push_output marshall_end_output st"

definition send_airlines_status :: "airline vector \<Rightarrow> map_state \<Rightarrow> map_state option" where
  "send_airlines_status airlines st =
     after_loop
       (for_loop (getVectorSize airlines) 0 (\<lambda>i st. do {
          a \<leftarrow> vec_deref airlines (int i);
          Some (Next (comm_send_airline_status (int (airline_numberOfPlanes a))
            (int (airline_numberOfPlanes a)) (airline_id a) st))
        }) st)
       Some"

section \<open>Receiving a plane\<close>

text \<open>
  \<open>initPlane\<close> rebuilds the plane of a message. Its plausibility checks only print. A NULL
  from an allocation would be dereferenced by every caller, and counts as undefined here.
\<close>

definition init_stocks :: "mallocs \<Rightarrow> StockMessagePart \<Rightarrow> sim_map \<Rightarrow>
  (stock vector \<times> product vector \<times> mallocs) option" where
  "init_stocks al part m = do {
     let (created, al0) = createVector al;
     stocks0 \<leftarrow> created;
     after_loop
       (for_loop (part_count part) 0 (\<lambda>j (stocks, products, al). do {
          pid \<leftarrow> arr_get (part_stockId part) j;
          pname \<leftarrow> getProductName pid products;
          name \<leftarrow> strcpy_into CITY_NAME_MAX_LENGTH pname;
          quant \<leftarrow> arr_get (part_quantities part) j;
          (new_stock, products', al1) \<leftarrow> initStock al name quant products;
          s \<leftarrow> new_stock;
          (_, stocks', al2) \<leftarrow> addToVector al1 stocks s;
          Some (Next (stocks', products', al2))
        }) (stocks0, map_product m, al0))
       Some
   }"

definition initPlane :: "mallocs \<Rightarrow> StockMessagePart \<Rightarrow> PlaneMessageHeader \<Rightarrow> plane \<Rightarrow> sim_map \<Rightarrow>
  (plane \<times> sim_map \<times> mallocs) option" where
  "initPlane al part header pl m = do {
     (stocks, products, al') \<leftarrow> init_stocks al part m;
     Some (pl\<lparr>plane_id := hdr_id header, plane_cityId := hdr_cityId header, plane_stocks := stocks\<rparr>,
           m\<lparr>map_product := products\<rparr>, al')
   }"

section \<open>The phases of a turn\<close>

text \<open>The local variable \<open>plane\<close> of \<open>runMap\<close> before a message fills it; its distance is never set.\<close>

definition blank_plane :: plane where
  "blank_plane = \<lparr>plane_id = 0, plane_stocks = vec_of [], plane_cityId = 0, plane_distance = 0\<rparr>"

definition handle_unload :: "nat vector \<Rightarrow> StockStateMessage \<Rightarrow> map_state \<Rightarrow> map_state option" where
  "handle_unload conns msg st = do {
     let airlineId = hdr_airline (ss_header msg);
     (pl, m, _) \<leftarrow> initPlane [] (ss_stocks msg) (ss_header msg) blank_plane (ms_map st);
     (m', pl') \<leftarrow> updateMap m pl;
     conn \<leftarrow> vec_deref conns airlineId;
     comm_unloaded_stock airlineId pl' conn (st\<lparr>ms_map := m'\<rparr>)
   }"

text \<open>
  Phase 1: until every airline is done, unload the planes that ask for it. A message whose
  type does not fit what was sent would make the union be read past the message.
\<close>

fun phase1 :: "nat vector \<Rightarrow> nat \<Rightarrow> nat \<Rightarrow> map_state \<Rightarrow> PlaneMessage list \<Rightarrow>
  (map_state \<times> PlaneMessage list) outcome" where
  "phase1 conns airlinesize i st [] = (if i = airlinesize then Returns (st, []) else Blocks)"
| "phase1 conns airlinesize i st (msg # inbox) =
     (if i = airlinesize then Returns (st, msg # inbox)
      else if pm_type msg = MessageTypeAirlineDone then phase1 conns airlinesize (i + 1) st inbox
      else if pm_type msg = MessageTypeUnloadStock then
        (case msg of
           PM_StockState m \<Rightarrow>
             then_do (or_fault (handle_unload conns m st)) (\<lambda>st'. phase1 conns airlinesize i st' inbox)
         | _ \<Rightarrow> Faults)
      else phase1 conns airlinesize i st inbox)"

definition handle_check :: "nat vector \<Rightarrow> CheckDestinationsMessage \<Rightarrow> map_state \<Rightarrow> map_state option" where
  "handle_check conns msg st = do {
     let airlineId = hdr_airline (cd_header msg);
     (pl, m, _) \<leftarrow> initPlane [] (cd_stocks msg) (cd_header msg) blank_plane (ms_map st);
     conn \<leftarrow> vec_deref conns airlineId;
     reply \<leftarrow> app_give_destinations m pl;
     Some (comm_give_destinations reply conn (st\<lparr>ms_map := m\<rparr>))
   }"

text \<open>Phase 2: until every airline has reported its status, tell the planes where to go.\<close>

fun phase2 :: "nat vector \<Rightarrow> nat \<Rightarrow> nat \<Rightarrow> map_state \<Rightarrow> PlaneMessage list \<Rightarrow>
  (map_state \<times> PlaneMessage list) outcome" where
  "phase2 conns airlinesize i st [] = (if i = airlinesize then Returns (st, []) else Blocks)"
| "phase2 conns airlinesize i st (msg # inbox) =
     (if i = airlinesize then Returns (st, msg # inbox)
      else if pm_type msg = MessageTypeAirlineStatus then
        (case msg of
           PM_AirlineStatus m \<Rightarrow>
             phase2 conns airlinesize (i + 1)
               (comm_send_airline_status (as_planesFlying (asm_status m)) (as_totalPlanes (asm_status m))
                  (as_id (asm_status m)) st) inbox
         | _ \<Rightarrow> Faults)
      else if pm_type msg = MessageTypeCheckDestinations then
        (case msg of
           PM_CheckDestinations m \<Rightarrow>
             then_do (or_fault (handle_check conns m st)) (\<lambda>st'. phase2 conns airlinesize i st' inbox)
         | _ \<Rightarrow> Faults)
      else phase2 conns airlinesize i st inbox)"

definition output_map_status :: "int \<Rightarrow> map_state \<Rightarrow> map_state option" where
  "output_map_status totalStockAmount st = do {
     msg \<leftarrow> send_map_status (ms_map st) totalStockAmount;
     Some (push_output msg st)
   }"

text \<open>The body of the turn loop after the checks.\<close>

definition play_turn :: "nat vector \<Rightarrow> nat \<Rightarrow> int \<Rightarrow> map_state \<Rightarrow> PlaneMessage list \<Rightarrow>
  (map_state \<times> PlaneMessage list) outcome" where
  "play_turn conns airlinesize totalStockAmount st inbox =
     then_do (or_fault (comm_turn_step conns (st\<lparr>ms_turn := ms_turn st + 1\<rparr>))) (\<lambda>st1.
     then_do (phase1 conns airlinesize 0 st1 inbox) (\<lambda>(st2, inbox2).
     then_do (or_fault (comm_turn_continue conns st2)) (\<lambda>st3.
     then_do (phase2 conns airlinesize 0 st3 inbox2) (\<lambda>(st4, inbox4).
     then_do (or_fault (output_map_status totalStockAmount st4)) (\<lambda>st5. Returns (st5, inbox4))))))"

text \<open>The look at \<open>exitState\<close>.\<close>

definition look_exit :: "map_state \<Rightarrow> bool \<times> map_state" where
  "look_exit st = (let (e, es) = next_exit (ms_exits st) in (e, st\<lparr>ms_exits := es\<rparr>))"

text \<open>
  The turn loop. \<open>n\<close> bounds the number of turns; \<open>runMap\<close> starts it with 70000, and the
  loop never gets there with turns left to play, because \<open>endSimulation\<close> stops it.
\<close>

fun run_turns :: "nat \<Rightarrow> nat vector \<Rightarrow> nat \<Rightarrow> int \<Rightarrow> map_state \<Rightarrow> PlaneMessage list \<Rightarrow>
  (map_state \<times> PlaneMessage list) option outcome" where
  "run_turns n conns airlinesize totalStockAmount st inbox =
     (let (stop, st0) = look_exit st in
      if stop then Returns (Some (st0, inbox))
      else
        then_do (or_fault (endSimulation (ms_map st0) (ms_turn st0))) (\<lambda>go.
          if go \<noteq> CONTINUE_SIM then Returns (Some (st0, inbox))
          else
            (let (stop', st1) = look_exit st0 in
             if stop' then Returns (Some (st1, inbox))
             else
               (case n of
                  0 \<Rightarrow> Returns None
                | Suc k \<Rightarrow>
                    then_do (play_turn conns airlinesize totalStockAmount st1 inbox) (\<lambda>(st2, inbox2).
                      run_turns k conns airlinesize totalStockAmount st2 inbox2)))))"

declare run_turns.simps [simp del]

definition runMap :: "nat \<Rightarrow> airline vector \<Rightarrow> nat vector \<Rightarrow> map_state \<Rightarrow> PlaneMessage list \<Rightarrow>
  (map_state \<times> PlaneMessage list) option outcome" where
  "runMap n airlines conns st inbox =
     then_do (or_fault (get_map_status (ms_map st))) (\<lambda>(totalStockAmount, _).
     then_do (or_fault (send_airlines_status airlines st)) (\<lambda>st1.
     then_do (or_fault (output_map_status totalStockAmount st1)) (\<lambda>st2.
     run_turns n conns (getVectorSize airlines) totalStockAmount (st2\<lparr>ms_turn := 0\<rparr>) inbox)))"

section \<open>The round trip of a plane\<close>

text \<open>Stocks whose products are in the catalogue, with names that fit the buffers.\<close>

definition names_fit :: "product vector \<Rightarrow> bool" where
  "names_fit ps \<longleftrightarrow> list_all (\<lambda>p. length (product_name p) < CITY_NAME_MAX_LENGTH) (vlist ps)"

definition stocks_known :: "product vector \<Rightarrow> stock list \<Rightarrow> bool" where
  "stocks_known ps ss \<longleftrightarrow> list_all (\<lambda>s. stock_wf s \<and> the (stock_product s) \<in> set (vlist ps)) ss"

definition init_body :: "StockMessagePart \<Rightarrow> nat \<Rightarrow> stock vector \<times> product vector \<times> mallocs \<Rightarrow>
  (stock vector \<times> product vector \<times> mallocs, stock vector \<times> product vector \<times> mallocs) flow option" where
  "init_body part = (\<lambda>j (stocks, products, al). do {
     pid \<leftarrow> arr_get (part_stockId part) j;
     pname \<leftarrow> getProductName pid products;
     name \<leftarrow> strcpy_into CITY_NAME_MAX_LENGTH pname;
     quant \<leftarrow> arr_get (part_quantities part) j;
     (new_stock, products', al1) \<leftarrow> initStock al name quant products;
     s \<leftarrow> new_stock;
     (_, stocks', al2) \<leftarrow> addToVector al1 stocks s;
     Some (Next (stocks', products', al2))
   })"

lemma getProductName_known:
  assumes "products_wf ps" "p \<in> set (vlist ps)"
  shows "getProductName (product_id p) ps = Some (product_name p)"
proof -
  obtain xs where xs: "ps = vec_of xs" "length xs < 2147483648"
    using assms(1) by (auto simp: products_wf_def elim: vec_invE)
  have "0 \<le> product_id p" "nat (product_id p) < length xs" "xs ! nat (product_id p) = p"
    using products_wf_in [OF assms] by (simp_all add: xs)
  then show ?thesis
    using vec_deref_in [of "nat (product_id p)" xs] xs by (simp add: getProductName_def)
qed

lemma init_body_step:
  assumes "products_wf ps" "names_fit ps" "stocks_known ps ss" "length ss \<le> MAX_STOCKS" "j < length ss"
  shows "init_body (part_of ss) j (vec_of (take j ss), ps, []) = Some (Next (vec_of (take (Suc j) ss), ps, []))"
proof -
  have s: "stock_wf (ss ! j)" "the (stock_product (ss ! j)) \<in> set (vlist ps)"
    using assms(3,5) by (simp_all add: stocks_known_def list_all_length)
  obtain p where p: "stock_product (ss ! j) = Some p" "stock_pid (ss ! j) = product_id p"
    using s(1) by (rule stock_wfE)
  have in_ps: "p \<in> set (vlist ps)"
    using s(2) p(1) by simp
  have "strcpy_into CITY_NAME_MAX_LENGTH (product_name p) = Some (product_name p)"
    using assms(2) in_ps by (simp add: names_fit_def list_all_iff strcpy_into_def)
  moreover have "\<lparr>stock_amount = stock_amount (ss ! j), stock_product = Some p\<rparr> = ss ! j"
    using p(1) by (cases "ss ! j") simp
  ultimately show ?thesis
    using assms(4,5) p(2) by (simp add: init_body_def part_of_def getProductName_known [OF assms(1) in_ps]
        initStock_known [OF assms(1) in_ps] addToVector_vec_of take_Suc_conv_app_nth)
qed

lemma init_stocks_part_of:
  assumes "products_wf (map_product m)" "names_fit (map_product m)" "stocks_known (map_product m) ss"
    and "length ss \<le> MAX_STOCKS"
  shows "init_stocks [] (part_of ss) m = Some (vec_of ss, map_product m, [])"
proof -
  have "\<exists>s'. for_loop (length ss) 0 (init_body (part_of ss)) (vec_of (take 0 ss), map_product m, []) = Some (Next s') \<and>
      s' = (vec_of (take (0 + length ss) ss), map_product m, [])"
    by (rule for_loop_invariant [where I = "\<lambda>j s. s = (vec_of (take j ss), map_product m, [])"])
      (simp_all add: init_body_step [OF assms])
  then have "for_loop (length ss) 0 (init_body (part_of ss)) (vec_of [], map_product m, []) =
      Some (Next (vec_of ss, map_product m, []))"
    by simp
  then show ?thesis
    by (simp add: init_stocks_def init_body_def [symmetric]) (simp add: part_of_def)
qed

lemma initPlane_part_of:
  assumes "products_wf (map_product m)" "names_fit (map_product m)" "stocks_known (map_product m) ss"
    and "length ss \<le> MAX_STOCKS"
  shows "initPlane [] (part_of ss) header pl m =
    Some (pl\<lparr>plane_id := hdr_id header, plane_cityId := hdr_cityId header, plane_stocks := vec_of ss\<rparr>, m, [])"
  by (simp add: initPlane_def init_stocks_part_of [OF assms])

section \<open>The invariant of the map process\<close>

text \<open>A map on which every city has stocks, so that every message of a plane can be served.\<close>

definition sim_wf :: "sim_map \<Rightarrow> bool" where
  "sim_wf m \<longleftrightarrow> map_wf m \<and> routes_wf m \<and> names_fit (map_product m) \<and>
     list_all (\<lambda>c. vlist (city_stock c) \<noteq> []) (vlist (map_cities m))"

text \<open>The connections are one per airline.\<close>

definition conns_wf :: "nat vector \<Rightarrow> nat \<Rightarrow> bool" where
  "conns_wf conns n \<longleftrightarrow> conns = vec_of [0..<n] \<and> n < 2147483648"

text \<open>
  The message of a plane of airline \<open>a\<close> that stands in city \<open>i\<close>; any other message only has
  to hold what its type says.
\<close>

definition part_ok :: "nat \<Rightarrow> sim_map \<Rightarrow> PlaneMessageHeader \<Rightarrow> StockMessagePart \<Rightarrow> bool" where
  "part_ok n m header part \<longleftrightarrow>
     (\<exists>i ss. hdr_cityId header = int i \<and> i < length (vlist (map_cities m)) \<and>
        0 \<le> hdr_airline header \<and> hdr_airline header < int n \<and>
        part = part_of ss \<and> length ss \<le> MAX_STOCKS \<and> stocks_known (map_product m) ss)"

fun msg_ok :: "nat \<Rightarrow> sim_map \<Rightarrow> PlaneMessage \<Rightarrow> bool" where
  "msg_ok n m (PM_Type t) = (t \<notin> {MessageTypeUnloadStock, MessageTypeCheckDestinations, MessageTypeAirlineStatus})"
| "msg_ok n m (PM_StockState msg) =
     (hdr_type (ss_header msg) = MessageTypeUnloadStock \<and> part_ok n m (ss_header msg) (ss_stocks msg))"
| "msg_ok n m (PM_CheckDestinations msg) =
     (hdr_type (cd_header msg) = MessageTypeCheckDestinations \<and> part_ok n m (cd_header msg) (cd_stocks msg))"
| "msg_ok n m (PM_AirlineStatus msg) = (asm_type msg = MessageTypeAirlineStatus)"

text \<open>What the phases keep: the cities, the catalogue and the distances; the demand only falls.\<close>

definition evolves :: "sim_map \<Rightarrow> sim_map \<Rightarrow> bool" where
  "evolves m m' \<longleftrightarrow> sim_wf m' \<and> length (vlist (map_cities m')) = length (vlist (map_cities m)) \<and>
     map_product m' = map_product m \<and> map_matrix m' = map_matrix m \<and> 0 \<le> demand m' \<and> demand m' \<le> demand m"

lemma demand_nonneg: "map_wf m \<Longrightarrow> 0 \<le> demand m"
  unfolding demand_def
  by (intro sum_list_nonneg) (auto dest: map_wf_stocks simp: stocks_wf_def total_amount_nonneg)

lemma sim_wfD:
  assumes "sim_wf m"
  shows "map_wf m" "routes_wf m" "names_fit (map_product m)" "products_wf (map_product m)"
    "i < length (vlist (map_cities m)) \<Longrightarrow> stocks_at m i \<noteq> []"
  using assms by (auto simp: sim_wf_def list_all_length stocks_at_def map_wf_products)

lemma evolves_refl: "sim_wf m \<Longrightarrow> evolves m m"
  by (simp add: evolves_def demand_nonneg sim_wfD)

lemma evolves_trans: "evolves m m' \<Longrightarrow> evolves m' m'' \<Longrightarrow> evolves m m''"
  by (auto simp: evolves_def)

lemma evolves_wf: "evolves m m' \<Longrightarrow> sim_wf m'"
  by (simp add: evolves_def)

lemma evolves_msg_ok: "evolves m m' \<Longrightarrow> msg_ok n m' msg = msg_ok n m msg"
  by (cases msg) (simp_all add: evolves_def part_ok_def)

lemma conns_deref:
  assumes "conns_wf conns n" "0 \<le> a" "a < int n"
  shows "vec_deref conns a = Some (nat a)"
  using assms vec_deref_in [of "nat a" "[0..<n]"] by (simp add: conns_wf_def)

lemma transmit_map [simp]:
  "ms_map (snd (transmit c msg st)) = ms_map st" "ms_turn (snd (transmit c msg st)) = ms_turn st"
  "ms_exits (snd (transmit c msg st)) = ms_exits st"
  by (simp_all add: transmit_def split: prod.split)

text \<open>Unloading a plane whose message is good: the reply carries what is left of its stocks.\<close>

lemma handle_unload_ok:
  assumes wf: "sim_wf (ms_map st)" and conns: "conns_wf conns n"
    and header: "hdr_cityId (ss_header msg) = int i" "i < length (vlist (map_cities (ms_map st)))"
      "0 \<le> hdr_airline (ss_header msg)" "hdr_airline (ss_header msg) < int n"
    and part: "ss_stocks msg = part_of ss" "length ss \<le> MAX_STOCKS" "stocks_known (map_product (ms_map st)) ss"
  defines "u \<equiv> unload (stocks_at (ms_map st) i) ss"
  shows "handle_unload conns msg st =
      Some (snd (transmit (nat (hdr_airline (ss_header msg)))
        (MM_Stock \<lparr>ss_header = prepare_header (hdr_airline (ss_header msg)) (hdr_id (ss_header msg))
             (int i) MessageTypeUnloadStock, ss_stocks = part_of (snd u)\<rparr>)
        (st\<lparr>ms_map := map_with_stock (ms_map st) i (fst u)\<rparr>))) \<and>
    evolves (ms_map st) (map_with_stock (ms_map st) i (fst u)) \<and>
    demand (ms_map st) - demand (map_with_stock (ms_map st) i (fst u)) = total_amount ss - total_amount (snd u)"
proof -
  let ?m = "ms_map st" and ?h = "ss_header msg"
  let ?pl = "blank_plane\<lparr>plane_id := hdr_id ?h, plane_cityId := int i, plane_stocks := vec_of ss\<rparr>"
  note W = sim_wfD [OF wf]
  have ss: "list_all stock_wf ss" "length ss < 2147483648"
    using part(2,3) by (auto simp: stocks_known_def list_all_iff MAX_STOCKS_def)
  have init: "initPlane [] (ss_stocks msg) ?h blank_plane ?m = Some (?pl, ?m, [])"
    using initPlane_part_of [OF W(4,3) part(3,2)] by (simp add: part(1) header(1))
  have d: "docked ?m ?pl i"
    using W(1) W(5) [OF header(2)] header(2) ss by (simp add: docked_def stocks_wf_def)
  have up: "updateMap ?m ?pl = Some (map_with_stock ?m i (fst u), ?pl\<lparr>plane_stocks := vec_of (snd u)\<rparr>)"
    using updateMap_docked [OF d] by (simp add: u_def)
  have d': "docked (map_with_stock ?m i (fst u)) (?pl\<lparr>plane_stocks := vec_of (snd u)\<rparr>) i"
    using docked_unload [OF d] by (simp add: u_def)
  have "marshall_stocks (vec_of (snd u)) = Some (part_of (snd u))"
    using marshall_stocks_part_of [of "vec_of (snd u)"] dockedD(2) [OF d'] part(2) by (simp add: u_def)
  then have step: "handle_unload conns msg st =
      Some (snd (transmit (nat (hdr_airline ?h))
        (MM_Stock \<lparr>ss_header = prepare_header (hdr_airline ?h) (hdr_id ?h) (int i) MessageTypeUnloadStock,
           ss_stocks = part_of (snd u)\<rparr>)
        (st\<lparr>ms_map := map_with_stock ?m i (fst u)\<rparr>)))"
    by (simp add: handle_unload_def init up conns_deref [OF conns header(3,4)] comm_unloaded_stock_def
        marshall_change_stock_def Let_def)
  have demand: "demand ?m - demand (map_with_stock ?m i (fst u)) = total_amount ss - total_amount (snd u)"
    using unload_total [OF W(5) [OF header(2)], of ss] by (simp add: demand_with_stock [OF header(2)] u_def)
  have "total_amount (fst u) \<le> total_amount (stocks_at ?m i)"
    unfolding total_amount_def u_def using unload_le [OF dockedD(6) [OF d] ss(1)]
    by (auto intro!: sum_list_mono2)
  then have le: "demand (map_with_stock ?m i (fst u)) \<le> demand ?m"
    by (simp add: demand_with_stock [OF header(2)])
  have "fst u \<noteq> []"
    using dockedD(5) [OF d'] header(2) by simp
  then have "list_all (\<lambda>c. vlist (city_stock c) \<noteq> []) (vlist (map_cities (map_with_stock ?m i (fst u))))"
    using wf by (simp add: sim_wf_def map_with_stock_def list_all_update)
  then have "evolves ?m (map_with_stock ?m i (fst u))"
    using dockedD(1) [OF d'] le wf by (simp add: evolves_def sim_wf_def routes_wf_def demand_nonneg)
  with step demand show ?thesis
    by blast
qed

lemma handle_check_ok:
  assumes wf: "sim_wf (ms_map st)" and conns: "conns_wf conns n"
    and part: "part_ok n (ms_map st) (cd_header msg) (cd_stocks msg)"
  shows "\<exists>st'. handle_check conns msg st = Some st' \<and> ms_map st' = ms_map st \<and> ms_turn st' = ms_turn st \<and>
    ms_exits st' = ms_exits st"
proof -
  let ?m = "ms_map st" and ?h = "cd_header msg"
  note W = sim_wfD [OF wf]
  obtain i ss where i: "hdr_cityId ?h = int i" "i < length (vlist (map_cities ?m))"
      "0 \<le> hdr_airline ?h" "hdr_airline ?h < int n"
    and ss: "cd_stocks msg = part_of ss" "length ss \<le> MAX_STOCKS" "stocks_known (map_product ?m) ss"
    using part by (auto simp: part_ok_def)
  let ?pl = "blank_plane\<lparr>plane_id := hdr_id ?h, plane_cityId := int i, plane_stocks := vec_of ss\<rparr>"
  have init: "initPlane [] (cd_stocks msg) ?h blank_plane ?m = Some (?pl, ?m, [])"
    using initPlane_part_of [OF W(4,3) ss(3,2)] by (simp add: ss(1) i(1))
  have "stocks_wf (plane_stocks ?pl)"
    using ss(2,3) by (auto simp: stocks_known_def list_all_iff stocks_wf_def MAX_STOCKS_def)
  then obtain kept where "app_give_destinations ?m ?pl = Some (destinations_message (plane_id ?pl) (sort_dist kept))"
    using app_give_destinations_message [OF W(1,2), of ?pl i] i(2) by auto
  then show ?thesis
    by (simp add: handle_check_def init conns_deref [OF conns i(3,4)] comm_give_destinations_def)
qed

section \<open>Phases, turns, the whole run\<close>

lemma then_do_assoc_or_fault [simp]: "then_do (or_fault (Some x)) f = f x"
  by simp

text \<open>The messages that end a phase.\<close>

definition ends_phase :: "MessageType \<Rightarrow> PlaneMessage list \<Rightarrow> nat" where
  "ends_phase t inbox = length (filter (\<lambda>m. pm_type m = t) inbox)"

lemma ends_phase_Cons: "ends_phase t (m # ms) = (if pm_type m = t then 1 else 0) + ends_phase t ms"
  by (simp add: ends_phase_def)

lemma ends_phase_Nil [simp]: "ends_phase t [] = 0"
  by (simp add: ends_phase_def)

text \<open>
  The result of a phase that needs \<open>k\<close> more messages of type \<open>t\<close>: it waits if there are
  fewer, and otherwise takes messages up to the \<open>k\<close>-th.
\<close>

definition phase_result :: "MessageType \<Rightarrow> nat \<Rightarrow> map_state \<Rightarrow> PlaneMessage list \<Rightarrow>
  (map_state \<times> PlaneMessage list) outcome \<Rightarrow> bool" where
  "phase_result t k st inbox r \<longleftrightarrow>
     (case r of
        Faults \<Rightarrow> False
      | Blocks \<Rightarrow> ends_phase t inbox < k
      | Returns (st', rest) \<Rightarrow> evolves (ms_map st) (ms_map st') \<and> ms_turn st' = ms_turn st \<and>
          ms_exits st' = ms_exits st \<and> (\<exists>taken. inbox = taken @ rest \<and> ends_phase t taken = k))"

lemma phase_result_next:
  assumes "phase_result t k st' inbox r" "evolves (ms_map st) (ms_map st')" "ms_turn st' = ms_turn st"
    "ms_exits st' = ms_exits st" "k' = (if pm_type msg = t then Suc k else k)"
  shows "phase_result t k' st (msg # inbox) r"
proof (cases r)
  case Blocks
  then show ?thesis
    using assms(1,5) by (simp add: phase_result_def ends_phase_Cons)
next
  case Faults
  then show ?thesis
    using assms(1) by (simp add: phase_result_def)
next
  case (Returns x)
  obtain st'' rest where x: "x = (st'', rest)"
    by (cases x)
  obtain taken where "inbox = taken @ rest" "ends_phase t taken = k"
    using assms(1) by (auto simp: phase_result_def Returns x)
  then have "msg # inbox = (msg # taken) @ rest" "ends_phase t (msg # taken) = k'"
    using assms(5) by (simp_all add: ends_phase_Cons)
  then show ?thesis
    using assms(1-4) evolves_trans by (auto simp: phase_result_def Returns x simp del: append_Cons)
qed

lemma phase1_result:
  assumes "sim_wf (ms_map st)" "conns_wf conns n" "list_all (msg_ok n (ms_map st)) inbox" "i \<le> k"
  shows "phase_result MessageTypeAirlineDone (k - i) st inbox (phase1 conns k i st inbox)"
  using assms
proof (induction inbox arbitrary: i st)
  case Nil
  then show ?case
    by (auto simp: phase_result_def evolves_refl)
next
  case (Cons msg inbox)
  note wf = Cons.prems(1)
  show ?case
  proof (cases "i = k")
    case True
    then show ?thesis
      by (simp add: phase_result_def evolves_refl [OF wf])
  next
    case False
    consider (ready) "pm_type msg = MessageTypeAirlineDone"
      | (unload) m where "msg = PM_StockState m" "hdr_type (ss_header m) = MessageTypeUnloadStock"
      | (other) "pm_type msg \<noteq> MessageTypeAirlineDone" "pm_type msg \<noteq> MessageTypeUnloadStock"
      using Cons.prems(3) by (cases msg) (auto)
    then show ?thesis
    proof cases
      case ready
      show ?thesis
        by (rule phase_result_next [where k = "k - (i + 1)" and st' = st])
          (use Cons.IH [of st "i + 1"] Cons.prems False ready in \<open>auto simp: evolves_refl\<close>)
    next
      case unload
      obtain i' ss where part: "hdr_cityId (ss_header m) = int i'" "i' < length (vlist (map_cities (ms_map st)))"
        "0 \<le> hdr_airline (ss_header m)" "hdr_airline (ss_header m) < int n"
        "ss_stocks m = part_of ss" "length ss \<le> MAX_STOCKS" "stocks_known (map_product (ms_map st)) ss"
        using Cons.prems(3) unload by (auto simp: part_ok_def)
      obtain st' where st': "handle_unload conns m st = Some st'" "evolves (ms_map st) (ms_map st')"
        "ms_turn st' = ms_turn st" "ms_exits st' = ms_exits st"
        using handle_unload_ok [OF wf Cons.prems(2) part] by auto
      have "list_all (msg_ok n (ms_map st')) inbox"
        using Cons.prems(3) evolves_msg_ok [OF st'(2)] by (simp add: list_all_iff)
      then have "phase_result MessageTypeAirlineDone (k - i) st' inbox (phase1 conns k i st' inbox)"
        using Cons.IH Cons.prems(2,4) evolves_wf [OF st'(2)] by blast
      then show ?thesis
        using phase_result_next [OF _ st'(2,3,4), where k = "k - i" and k' = "k - i" and msg = msg] False unload
        by (simp add: st'(1))
    next
      case other
      show ?thesis
        by (rule phase_result_next [where k = "k - i" and st' = st])
          (use Cons.IH [of st i] Cons.prems False other in \<open>auto simp: evolves_refl\<close>)
    qed
  qed
qed

lemma comm_send_airline_status_simps [simp]:
  "ms_map (comm_send_airline_status f t i st) = ms_map st" "ms_turn (comm_send_airline_status f t i st) = ms_turn st"
  "ms_exits (comm_send_airline_status f t i st) = ms_exits st"
  by (simp_all add: comm_send_airline_status_def push_output_def)

lemma phase2_result:
  assumes "sim_wf (ms_map st)" "conns_wf conns n" "list_all (msg_ok n (ms_map st)) inbox" "i \<le> k"
  shows "phase_result MessageTypeAirlineStatus (k - i) st inbox (phase2 conns k i st inbox)"
  using assms
proof (induction inbox arbitrary: i st)
  case Nil
  then show ?case
    by (auto simp: phase_result_def evolves_refl)
next
  case (Cons msg inbox)
  note wf = Cons.prems(1)
  show ?case
  proof (cases "i = k")
    case True
    then show ?thesis
      by (simp add: phase_result_def evolves_refl [OF wf])
  next
    case False
    consider (status) m where "msg = PM_AirlineStatus m" "asm_type m = MessageTypeAirlineStatus"
      | (check) m where "msg = PM_CheckDestinations m" "hdr_type (cd_header m) = MessageTypeCheckDestinations"
      | (other) "pm_type msg \<noteq> MessageTypeAirlineStatus" "pm_type msg \<noteq> MessageTypeCheckDestinations"
      using Cons.prems(3) by (cases msg) auto
    then show ?thesis
    proof cases
      case status
      let ?st = "comm_send_airline_status (as_planesFlying (asm_status m)) (as_totalPlanes (asm_status m))
        (as_id (asm_status m)) st"
      show ?thesis
        by (rule phase_result_next [where k = "k - (i + 1)" and st' = ?st])
          (use Cons.IH [of ?st "i + 1"] Cons.prems False status in \<open>auto simp: evolves_refl\<close>)
    next
      case check
      have part: "part_ok n (ms_map st) (cd_header m) (cd_stocks m)"
        using Cons.prems(3) check by simp
      obtain st' where st': "handle_check conns m st = Some st'" "ms_map st' = ms_map st"
        "ms_turn st' = ms_turn st" "ms_exits st' = ms_exits st"
        using handle_check_ok [OF wf Cons.prems(2) part] by blast
      then have "phase_result MessageTypeAirlineStatus (k - i) st' inbox (phase2 conns k i st' inbox)"
        using Cons.IH [of st' i] Cons.prems by simp
      then show ?thesis
        using phase_result_next [where st' = st' and st = st and k = "k - i" and k' = "k - i" and msg = msg]
          evolves_refl [OF wf] st' False check by simp
    next
      case other
      show ?thesis
        by (rule phase_result_next [where k = "k - i" and st' = st])
          (use Cons.IH [of st i] Cons.prems False other in \<open>auto simp: evolves_refl\<close>)
    qed
  qed
qed

lemma send_all_ok:
  assumes "conns_wf conns n"
  shows "\<exists>st'. send_all t conns st = Some st' \<and> ms_map st' = ms_map st \<and> ms_turn st' = ms_turn st \<and>
    ms_exits st' = ms_exits st"
proof -
  let ?body = "\<lambda>i st. do {
      conn \<leftarrow> vec_deref conns (int i);
      let (ok, st') = transmit conn (MM_Type t) st;
      Some (if ok then Next st' else Exit st')
    } :: (map_state, map_state) flow option"
  have loop: "\<exists>st'. (for_loop k i ?body st = Some (Next st') \<or> for_loop k i ?body st = Some (Exit st')) \<and>
      ms_map st' = ms_map st \<and> ms_turn st' = ms_turn st \<and> ms_exits st' = ms_exits st"
    if "i + k \<le> n" for k i st
    using that
  proof (induction k arbitrary: i st)
    case (Suc k)
    then have v: "vec_deref conns (int i) = Some i"
      using conns_deref [OF assms, of "int i"] by simp
    obtain ok st1 where t: "transmit i (MM_Type t) st = (ok, st1)"
      by (cases "transmit i (MM_Type t) st")
    then have same: "ms_map st1 = ms_map st" "ms_turn st1 = ms_turn st" "ms_exits st1 = ms_exits st"
      using transmit_map [of i "MM_Type t" st] by simp_all
    show ?case
      using Suc.IH [of "Suc i" st1] Suc.prems same by (cases ok) (simp_all add: v t)
  qed simp
  have "getVectorSize conns = n"
    using assms by (simp add: conns_wf_def)
  then show ?thesis
    using loop [of 0 n st] by (auto simp: send_all_def)
qed

lemma output_map_status_ok:
  assumes "map_wf (ms_map st)" "in_int T" "demand (ms_map st) \<le> T"
  shows "\<exists>st'. output_map_status T st = Some st' \<and> ms_map st' = ms_map st \<and> ms_turn st' = ms_turn st \<and>
    ms_exits st' = ms_exits st"
proof -
  have "in_int (T - demand (ms_map st))"
    using assms demand_nonneg by (intro in_int_diff) auto
  then show ?thesis
    by (simp add: output_map_status_def send_map_status_def get_map_status_refines [OF assms(1)]
        push_output_def Let_def)
qed

text \<open>One turn on good messages.\<close>

definition turn_result :: "map_state \<Rightarrow> PlaneMessage list \<Rightarrow> (map_state \<times> PlaneMessage list) outcome \<Rightarrow> bool" where
  "turn_result st inbox r \<longleftrightarrow>
     (case r of
        Faults \<Rightarrow> False
      | Blocks \<Rightarrow> True
      | Returns (st', rest) \<Rightarrow> evolves (ms_map st) (ms_map st') \<and> ms_turn st' = ms_turn st + 1 \<and>
          ms_exits st' = ms_exits st \<and> set rest \<subseteq> set inbox)"

lemma play_turn_result:
  assumes "sim_wf (ms_map st)" "conns_wf conns n" "list_all (msg_ok n (ms_map st)) inbox"
    and "in_int T" "demand (ms_map st) \<le> T"
  shows "turn_result st inbox (play_turn conns n T st inbox)"
proof -
  obtain st1 where st1: "comm_turn_step conns (st\<lparr>ms_turn := ms_turn st + 1\<rparr>) = Some st1"
    "ms_map st1 = ms_map st" "ms_turn st1 = ms_turn st + 1" "ms_exits st1 = ms_exits st"
    using send_all_ok [OF assms(2), of MessageTypeStep "st\<lparr>ms_turn := ms_turn st + 1\<rparr>"]
    by (auto simp: comm_turn_step_def)
  have p1: "phase_result MessageTypeAirlineDone n st1 inbox (phase1 conns n 0 st1 inbox)"
    using phase1_result [of st1 conns n inbox 0 n] assms(1-3) by (simp add: st1)
  show ?thesis
  proof (cases "phase1 conns n 0 st1 inbox")
    case Blocks
    then show ?thesis
      by (simp add: play_turn_def st1(1) turn_result_def)
  next
    case Faults
    then show ?thesis
      using p1 by (simp add: phase_result_def)
  next
    case (Returns x)
    obtain st2 inbox2 where x: "x = (st2, inbox2)"
      by (cases x)
    obtain taken where e2: "evolves (ms_map st) (ms_map st2)" "ms_turn st2 = ms_turn st + 1"
      "ms_exits st2 = ms_exits st" "inbox = taken @ inbox2"
      using p1 by (auto simp: phase_result_def Returns x st1)
    obtain st3 where st3: "comm_turn_continue conns st2 = Some st3" "ms_map st3 = ms_map st2"
      "ms_turn st3 = ms_turn st2" "ms_exits st3 = ms_exits st2"
      using send_all_ok [OF assms(2), of MessageTypeContinue st2] by (auto simp: comm_turn_continue_def)
    have ok2: "list_all (msg_ok n (ms_map st3)) inbox2"
      using assms(3) evolves_msg_ok [OF e2(1)] by (simp add: e2(4) st3 list_all_iff)
    have p2: "phase_result MessageTypeAirlineStatus n st3 inbox2 (phase2 conns n 0 st3 inbox2)"
      using phase2_result [of st3 conns n inbox2 0 n] evolves_wf [OF e2(1)] assms(2) ok2 by (simp add: st3)
    show ?thesis
    proof (cases "phase2 conns n 0 st3 inbox2")
      case Blocks
      then show ?thesis
        by (simp add: play_turn_def st1(1) Returns x st3(1) turn_result_def)
    next
      case Faults
      then show ?thesis
        using p2 by (simp add: phase_result_def)
    next
      case (Returns y)
      obtain st4 inbox4 where y: "y = (st4, inbox4)"
        by (cases y)
      obtain taken2 where e4: "evolves (ms_map st3) (ms_map st4)" "ms_turn st4 = ms_turn st + 1"
        "ms_exits st4 = ms_exits st" "inbox2 = taken2 @ inbox4"
        using p2 e2 by (auto simp: phase_result_def Returns y st3)
      have e: "evolves (ms_map st) (ms_map st4)"
        using evolves_trans [OF e2(1)] e4(1) st3(2) by simp
      obtain st5 where "output_map_status T st4 = Some st5" "ms_map st5 = ms_map st4"
        "ms_turn st5 = ms_turn st4" "ms_exits st5 = ms_exits st4"
        using output_map_status_ok [of st4 T] e assms(4,5) by (auto simp: evolves_def sim_wf_def)
      then show ?thesis
        using \<open>phase1 conns n 0 st1 inbox = Returns x\<close> Returns e e4 e2(4)
        by (auto simp: play_turn_def st1(1) x y st3(1) turn_result_def)
    qed
  qed
qed

text \<open>The turn loop with \<open>k\<close> turns to spare.\<close>

definition run_result :: "map_state \<Rightarrow> (map_state \<times> PlaneMessage list) option outcome \<Rightarrow> bool" where
  "run_result st r \<longleftrightarrow>
     (case r of
        Faults \<Rightarrow> False
      | Blocks \<Rightarrow> True
      | Returns None \<Rightarrow> False
      | Returns (Some (st', rest)) \<Rightarrow> evolves (ms_map st) (ms_map st') \<and> ms_turn st \<le> ms_turn st' \<and> ms_turn st' \<le> 70000 \<and>
          (ms_exits st = [] \<longrightarrow> demand (ms_map st') = 0 \<or> ms_turn st' = 70000))"

lemma run_result_cong:
  "ms_map s = ms_map s' \<Longrightarrow> ms_turn s = ms_turn s' \<Longrightarrow> ms_exits s = ms_exits s' \<Longrightarrow> run_result s r = run_result s' r"
  by (auto simp: run_result_def split: outcome.splits option.splits)

lemma run_result_step:
  assumes "turn_result st inbox (Returns (st2, rest))" "run_result st2 r"
  shows "run_result st r"
  using assms evolves_trans
  by (auto simp: run_result_def turn_result_def split: outcome.splits option.splits)

lemma look_exit_simps [simp]:
  "ms_map (snd (look_exit st)) = ms_map st" "ms_turn (snd (look_exit st)) = ms_turn st"
  "ms_exits st = [] \<Longrightarrow> look_exit st = (False, st)"
  by (simp_all add: look_exit_def split: prod.split)

lemma run_turns_result:
  assumes "sim_wf (ms_map st)" "conns_wf conns n" "list_all (msg_ok n (ms_map st)) inbox"
    and "in_int T" "demand (ms_map st) \<le> T" "70000 - int k \<le> ms_turn st" "ms_turn st \<le> 70000"
  shows "run_result st (run_turns k conns n T st inbox)"
  using assms(1,3,5-7)
proof (induction k arbitrary: st inbox)
  case 0
  obtain stop st0 where l0: "look_exit st = (stop, st0)"
    by (cases "look_exit st")
  have same: "ms_map st0 = ms_map st" "ms_turn st0 = ms_turn st"
    using look_exit_simps(1,2) [of st] by (simp_all add: l0)
  have "ms_turn st = 70000"
    using 0 by simp
  then have "endSimulation (ms_map st0) (ms_turn st0) = Some END_SIM"
    by (simp add: endSimulation_def same)
  then have "run_turns 0 conns n T st inbox = Returns (Some (st0, inbox))"
    by (subst run_turns.simps) (simp add: l0 CONTINUE_SIM_def END_SIM_def)
  then show ?case
    using evolves_refl [OF 0(1)] 0 same by (simp add: run_result_def)
next
  case (Suc k)
  note wf = Suc.prems(1)
  obtain stop st0 where l0: "look_exit st = (stop, st0)"
    by (cases "look_exit st")
  obtain stop' st1 where l1: "look_exit st0 = (stop', st1)"
    by (cases "look_exit st0")
  have same: "ms_map st0 = ms_map st" "ms_turn st0 = ms_turn st" "ms_map st1 = ms_map st" "ms_turn st1 = ms_turn st"
    using look_exit_simps(1,2) [of st] look_exit_simps(1,2) [of st0] by (simp_all add: l0 l1)
  have quiet: "\<not> stop \<and> \<not> stop' \<and> st1 = st" if "ms_exits st = []"
    using look_exit_simps(3) [OF that] l0 l1 by auto
  have e: "endSimulation (ms_map st0) (ms_turn st0) =
      Some (if ms_turn st < 70000 \<and> demand (ms_map st) \<noteq> 0 then CONTINUE_SIM else END_SIM)"
    using endSimulation_wf [of "ms_map st"] wf by (simp add: same sim_wf_def)
  show ?case
  proof (cases "stop \<or> stop' \<or> \<not> (ms_turn st < 70000 \<and> demand (ms_map st) \<noteq> 0)")
    case True
    then have "run_turns (Suc k) conns n T st inbox \<in> {Returns (Some (st0, inbox)), Returns (Some (st1, inbox))}"
      by (subst (1) run_turns.simps) (auto simp: l0 l1 e CONTINUE_SIM_def END_SIM_def)
    moreover have "run_result st (Returns (Some (s, inbox)))" if "s \<in> {st0, st1}" for s
      using that True quiet same evolves_refl [OF wf] Suc.prems(5) by (auto simp: run_result_def)
    ultimately show ?thesis
      by auto
  next
    case False
    have run: "run_turns (Suc k) conns n T st inbox =
        then_do (play_turn conns n T st1 inbox) (\<lambda>(st2, inbox2). run_turns k conns n T st2 inbox2)"
      using False by (subst run_turns.simps) (simp add: l0 l1 e)
    have turn: "turn_result st1 inbox (play_turn conns n T st1 inbox)"
      using play_turn_result [of st1 conns n inbox T] Suc.prems assms(2,4) by (simp add: same)
    have "run_result st1 (run_turns (Suc k) conns n T st inbox)"
    proof (cases "play_turn conns n T st1 inbox")
      case (Returns x)
      obtain st2 rest where x: "x = (st2, rest)"
        by (cases x)
      have t: "evolves (ms_map st) (ms_map st2)" "ms_turn st2 = ms_turn st + 1" "set rest \<subseteq> set inbox"
        using turn by (auto simp: turn_result_def Returns x same)
      have "run_result st2 (run_turns k conns n T st2 rest)"
        using Suc.prems False t evolves_wf [OF t(1)] evolves_msg_ok [OF t(1)]
        by (intro Suc.IH) (auto simp: list_all_iff evolves_def)
      then show ?thesis
        using run_result_step turn run Returns x by simp
    qed (use turn run in \<open>simp_all add: run_result_def turn_result_def\<close>)
    then show ?thesis
      using quiet by (auto simp: run_result_def same split: outcome.splits option.splits)
  qed
qed

lemma send_airlines_status_ok:
  assumes "vec_inv airlines"
  shows "\<exists>st'. send_airlines_status airlines st = Some st' \<and> ms_map st' = ms_map st \<and> ms_turn st' = ms_turn st \<and>
    ms_exits st' = ms_exits st"
proof -
  let ?f = "\<lambda>a st. comm_send_airline_status (int (airline_numberOfPlanes a)) (int (airline_numberOfPlanes a))
    (airline_id a) st"
  have "send_airlines_status airlines st = Some (fold ?f (vlist airlines) st)"
    unfolding send_airlines_status_def by (subst vec.scan_fold [OF assms]) simp_all
  moreover have "ms_map (fold ?f as st) = ms_map st \<and> ms_turn (fold ?f as st) = ms_turn st \<and>
      ms_exits (fold ?f as st) = ms_exits st"
    for as :: "airline list"
    by (induction as arbitrary: st) simp_all
  ultimately show ?thesis
    by simp
qed

text \<open>The whole run.\<close>

lemma runMap_result:
  assumes "sim_wf (ms_map st)" "conns_wf conns (getVectorSize airlines)" "vec_inv airlines"
    and "list_all (msg_ok (getVectorSize airlines) (ms_map st)) inbox"
  shows "run_result (st\<lparr>ms_turn := 0\<rparr>) (runMap 70000 airlines conns st inbox)"
proof -
  let ?T = "demand (ms_map st)"
  note W = sim_wfD(1) [OF assms(1)]
  have T: "in_int ?T"
    using W by (simp add: map_wf_def demand_def)
  obtain st1 where st1: "send_airlines_status airlines st = Some st1" "ms_map st1 = ms_map st"
    "ms_exits st1 = ms_exits st"
    using send_airlines_status_ok [OF assms(3), of st] by blast
  obtain st2 where st2: "output_map_status ?T st1 = Some st2" "ms_map st2 = ms_map st" "ms_exits st2 = ms_exits st"
    using output_map_status_ok [of st1 ?T] W T st1 by auto
  have "run_result (st2\<lparr>ms_turn := 0\<rparr>)
      (run_turns 70000 conns (getVectorSize airlines) ?T (st2\<lparr>ms_turn := 0\<rparr>) inbox)"
    using assms T by (intro run_turns_result) (simp_all add: st2)
  then show ?thesis
    by (simp add: runMap_def get_map_status_refines [OF W] st1(1) st2
        run_result_cong [of "st\<lparr>ms_turn := 0\<rparr>" "st2\<lparr>ms_turn := 0\<rparr>"])
qed

end
