(* ===== verification/Plane_Thread.thy ===== *)
theory Plane_Thread
  imports Messages Fifo_Interface
begin

text \<open>
  \<open>app/plane.c\<close> and \<open>communication/plane.c\<close>: the thread of one plane.

  The thread receives its messages from one list, in the order of its queue. At each peek
  the next message may or may not have arrived; \<open>pt_peeks\<close> says which (arrived, once the
  list is used up). What the thread writes to the map is appended to \<open>pt_sent\<close>, and
  \<open>pt_ready\<close> counts its calls of \<open>app_airline_plane_ready\<close>. An operation waits, is undefined,
  ends the thread (\<open>pthread_exit\<close>, the \<^const>\<open>Exit\<close> of a flow) or goes on.
\<close>

record plane_thread =
  pt_plane :: plane
  pt_airline :: int
  pt_done :: bool
  pt_inbox :: "Message list"
  pt_peeks :: "bool list"
  pt_writes :: "bool list"
  pt_allocs :: mallocs
  pt_sent :: "PlaneMessage list"
  pt_ready :: nat

type_synonym 'a thread_op = "plane_thread \<Rightarrow> (plane_thread, 'a \<times> plane_thread) flow outcome"

definition go :: "'a \<Rightarrow> 'a thread_op" where
  "go x st = Returns (Next (x, st))"

definition fault :: "'a thread_op" where
  "fault st = Faults"

text \<open>\<open>pthread_exit\<close>.\<close>

definition thread_exit :: "'a thread_op" where
  "thread_exit st = Returns (Exit st)"

definition and_then :: "'a thread_op \<Rightarrow> ('a \<Rightarrow> 'b thread_op) \<Rightarrow> 'b thread_op" where
  "and_then f g st =
     (case f st of
        Blocks \<Rightarrow> Blocks | Faults \<Rightarrow> Faults
      | Returns (Exit st') \<Rightarrow> Returns (Exit st')
      | Returns (Next (x, st')) \<Rightarrow> g x st')"

definition read_state :: "(plane_thread \<Rightarrow> 'a) \<Rightarrow> 'a thread_op" where
  "read_state f st = go (f st) st"

definition change :: "(plane_thread \<Rightarrow> plane_thread) \<Rightarrow> unit thread_op" where
  "change f st = go () (f st)"

definition lift_option :: "'a option \<Rightarrow> 'a thread_op" where
  "lift_option x = (case x of None \<Rightarrow> fault | Some y \<Rightarrow> go y)"

section \<open>The queue, the connection, the barrier\<close>

definition pop_message :: "Message thread_op" where
  "pop_message st =
     (case pt_inbox st of [] \<Rightarrow> Blocks | m # ms \<Rightarrow> go m (st\<lparr>pt_inbox := ms\<rparr>))"

text \<open>\<open>MessageTypeEnd == message_queue_peek(self->queue)\<close>.\<close>

definition peek_end :: "bool thread_op" where
  "peek_end st =
     (let (arrived, rest) = alloc (pt_peeks st)
      in go (arrived \<and> (case pt_inbox st of [] \<Rightarrow> False | m # _ \<Rightarrow> msg_type m = MessageTypeEnd))
           (st\<lparr>pt_peeks := rest\<rparr>))"

text \<open>The macro \<open>SafeAction\<close>; what \<open>SafeActionWithClean\<close> frees has no counterpart.\<close>

definition SafeAction :: "'a thread_op \<Rightarrow> 'a thread_op" where
  "SafeAction block = and_then peek_end (\<lambda>stop. if stop then thread_exit else block)"

text \<open>The macro \<open>CHECK_EXIT\<close>, and \<open>SafeExit\<close>.\<close>

definition CHECK_EXIT :: "int thread_op \<Rightarrow> unit thread_op" where
  "CHECK_EXIT r = and_then r (\<lambda>x. if x = - 1 then thread_exit else go ())"

definition SafeExit :: "int thread_op \<Rightarrow> unit thread_op" where
  "SafeExit block = SafeAction (CHECK_EXIT block)"

definition transmit_map :: "PlaneMessage \<Rightarrow> bool thread_op" where
  "transmit_map msg st =
     (let (ok, rest) = alloc (pt_writes st)
      in go ok (st\<lparr>pt_writes := rest, pt_sent := pt_sent st @ (if ok then [msg] else [])\<rparr>))"

definition plane_ready :: "unit thread_op" where
  "plane_ready = change (\<lambda>st. st\<lparr>pt_ready := pt_ready st + 1\<rparr>)"

section \<open>\<open>communication/plane.c\<close>\<close>

definition comm_step :: "int thread_op" where
  "comm_step = and_then pop_message (\<lambda>msg. go (if msg_type msg \<noteq> MessageTypeStep then - 1 else 0))"

definition comm_continue :: "int thread_op" where
  "comm_continue = and_then pop_message (\<lambda>msg. go (if msg_type msg \<noteq> MessageTypeContinue then - 1 else 0))"

text \<open>\<open>memcpy\<close> of the first \<open>n\<close> cells into a new array of \<open>cells\<close> cells.\<close>

definition copy_cells :: "nat \<Rightarrow> nat \<Rightarrow> int arr \<Rightarrow> int arr option" where
  "copy_cells cells n src = (if n \<le> cells \<and> n \<le> length src then Some (take n src @ replicate (cells - n) None) else None)"

text \<open>The result is -1, or 0 with the buffer \<open>stockDelta\<close> of \<open>len\<close> cells.\<close>

definition comm_unload_stock :: "nat \<Rightarrow> (int \<times> int arr) thread_op" where
  "comm_unload_stock len =
     and_then (read_state (\<lambda>st. marshall_change_stock (pt_airline st) (plane_id (pt_plane st))
       (plane_cityId (pt_plane st)) (plane_stocks (pt_plane st)))) (\<lambda>m.
     and_then (lift_option m) (\<lambda>msg.
     and_then (transmit_map (PM_StockState msg)) (\<lambda>ok.
     if \<not> ok then go (- 1, [])
     else and_then pop_message (\<lambda>res.
       if msg_type res \<noteq> MessageTypeStock then go (- 1, [])
       else (case msg_payload res of
               P_Stock n delta \<Rightarrow> and_then (lift_option (copy_cells len n delta)) (\<lambda>d. go (0, d))
             | _ \<Rightarrow> fault)))))"

text \<open>The result: -1, or 0 with the two buffers and the new value of \<open>*len\<close>.\<close>

definition comm_check_destinations :: "nat \<Rightarrow> (int \<times> int arr \<times> int arr \<times> nat) thread_op" where
  "comm_check_destinations len =
     and_then (read_state (\<lambda>st. marshall_check_destinations (pt_airline st) (plane_id (pt_plane st))
       (plane_cityId (pt_plane st)) (plane_stocks (pt_plane st)) len)) (\<lambda>m.
     and_then (lift_option m) (\<lambda>msg.
     and_then (transmit_map (PM_CheckDestinations msg)) (\<lambda>ok.
     if \<not> ok then go (- 1, [], [], len)
     else and_then pop_message (\<lambda>res.
       if msg_type res \<noteq> MessageTypeDestinations then go (- 1, [], [], len)
       else (case msg_payload res of
               P_Destinations n dests dists \<Rightarrow>
                 (let len' = (if len > n then n else len) in
                  and_then (lift_option (copy_cells len len' dests)) (\<lambda>a.
                  and_then (lift_option (copy_cells len len' dists)) (\<lambda>b.
                  go (0, a, b, len'))))
             | _ \<Rightarrow> fault)))))"

section \<open>\<open>app/plane.c\<close>\<close>

text \<open>The loop of \<open>unload_stock\<close> over the stocks: the new amounts, and whether all are 0.\<close>

definition store_amounts :: "stock vector \<Rightarrow> int arr \<Rightarrow> nat \<Rightarrow> ((int \<times> stock vector \<times> bool), stock vector \<times> bool) flow option" where
  "store_amounts stocks delta stockLen =
     for_loop stockLen 0 (\<lambda>i (stocks, done).
       vec_deref stocks (int i) \<bind> (\<lambda>s.
       arr_get delta i \<bind> (\<lambda>a.
       let stocks' = vec_store stocks i (s\<lparr>stock_amount := a\<rparr>) in
       Some (if a > 0 then Next (stocks', False)
             else if a < 0 then Exit (- 1, stocks', done)
             else Next (stocks', done))))) (stocks, True)"

text \<open>The outcome of the next \<open>malloc\<close>.\<close>

definition take_alloc :: "bool thread_op" where
  "take_alloc st = (let (ok, al) = alloc (pt_allocs st) in go ok (st\<lparr>pt_allocs := al\<rparr>))"

definition set_stocks :: "stock vector \<Rightarrow> plane_thread \<Rightarrow> plane_thread" where
  "set_stocks v st = st\<lparr>pt_plane := (pt_plane st)\<lparr>plane_stocks := v\<rparr>\<rparr>"

definition unload_stock :: "int thread_op" where
  "unload_stock =
     and_then (read_state (\<lambda>st. plane_stocks (pt_plane st))) (\<lambda>stocks.
     let stockLen = getVectorSize stocks in
     and_then take_alloc (\<lambda>ok.
     if \<not> ok then go (- 1)
     else
       and_then (SafeAction (comm_unload_stock stockLen)) (\<lambda>(r, delta).
       if r = - 1 then go (- 1)
       else
         (case store_amounts stocks delta stockLen of
            None \<Rightarrow> fault
          | Some (Exit (r, v, _)) \<Rightarrow> and_then (change (set_stocks v)) (\<lambda>_. go r)
          | Some (Next (v, done)) \<Rightarrow>
              and_then (change (set_stocks v)) (\<lambda>_.
              and_then (change (\<lambda>st. if done then st\<lparr>pt_done := True\<rparr> else st)) (\<lambda>_.
              go 0))))))"

definition set_destination :: "int \<Rightarrow> int \<Rightarrow> plane_thread \<Rightarrow> plane_thread" where
  "set_destination c d st = st\<lparr>pt_plane := (pt_plane st)\<lparr>plane_cityId := c, plane_distance := d\<rparr>\<rparr>"

text \<open>The second half of the body: a new destination, or one step closer to the old one.\<close>

definition choose_destination :: "unit thread_op" where
  "choose_destination =
     and_then (SafeAction (and_then (comm_check_destinations 5) (\<lambda>(r, dests, dists, len).
       if r = - 1 then thread_exit else go (dests, dists, len)))) (\<lambda>(dests, dists, len).
     if len = 0 then change (\<lambda>st. st\<lparr>pt_done := True\<rparr>)
     else
       and_then (lift_option (arr_get dests 0)) (\<lambda>c.
       and_then (lift_option (arr_get dists 0)) (\<lambda>d.
       change (set_destination c d))))"

definition fly :: "unit thread_op" where
  "fly =
     and_then (read_state (\<lambda>st. isub (plane_distance (pt_plane st)) 1)) (\<lambda>r.
     and_then (lift_option r) (\<lambda>d.
     change (\<lambda>st. st\<lparr>pt_plane := (pt_plane st)\<lparr>plane_distance := d\<rparr>\<rparr>)))"

text \<open>The body of the loop, after \<open>comm_step\<close>: \<^const>\<open>True\<close> when it breaks.\<close>

definition plane_turn :: "bool thread_op" where
  "plane_turn =
     and_then (read_state (\<lambda>st. plane_distance (pt_plane st))) (\<lambda>distance.
     and_then (if distance = 0 then SafeExit unload_stock else go ()) (\<lambda>_.
     and_then (SafeAction plane_ready) (\<lambda>_.
     and_then (read_state pt_done) (\<lambda>done.
     if done then go True
     else
       and_then (SafeExit comm_continue) (\<lambda>_.
       and_then (read_state (\<lambda>st. plane_distance (pt_plane st))) (\<lambda>distance.
       and_then (if distance = 0 then choose_destination else fly) (\<lambda>_.
       and_then (SafeAction plane_ready) (\<lambda>_.
       go False))))))))"

text \<open>
  The loop of \<open>run_plane\<close> with room for \<open>n\<close> turns; every turn takes a message from the
  inbox, so \<open>n\<close> greater than the length of the inbox is enough (\<open>run_plane_enough\<close>).
\<close>

fun run_plane :: "nat \<Rightarrow> bool thread_op" where
  "run_plane 0 st = Returns (Next (False, st))"
| "run_plane (Suc n) st =
     (if pt_done st then and_then (change (\<lambda>st. st\<lparr>pt_done := True\<rparr>)) (\<lambda>_. go True) st
      else
        and_then comm_step (\<lambda>r.
        if r = - 1 then and_then (change (\<lambda>st. st\<lparr>pt_done := True\<rparr>)) (\<lambda>_. go True)
        else
          and_then plane_turn (\<lambda>broke.
          if broke then and_then (change (\<lambda>st. st\<lparr>pt_done := True\<rparr>)) (\<lambda>_. go True)
          else run_plane n)) st)"

section \<open>Running the operations\<close>

lemma and_then_simps [simp]:
  "f st = Returns (Next (x, st')) \<Longrightarrow> and_then f g st = g x st'"
  "f st = Returns (Exit st') \<Longrightarrow> and_then f g st = Returns (Exit st')"
  "f st = Blocks \<Longrightarrow> and_then f g st = Blocks"
  "f st = Faults \<Longrightarrow> and_then f g st = Faults"
  by (simp_all add: and_then_def)

lemma go_apply [simp]: "go x st = Returns (Next (x, st))"
  by (simp add: go_def)

lemma and_then_go [simp]: "and_then (go x) g = g x"
  by (rule ext) simp

lemma change_apply [simp]: "change f st = Returns (Next ((), f st))"
  by (simp add: change_def)

lemma read_apply [simp]: "read_state f st = Returns (Next (f st, st))"
  by (simp add: read_state_def)

lemma lift_option_apply [simp]: "lift_option (Some x) = go x"
  by (simp add: lift_option_def)

lemma pop_apply [simp]: "pt_inbox st = m # ms \<Longrightarrow> pop_message st = Returns (Next (m, st\<lparr>pt_inbox := ms\<rparr>))"
  by (simp add: pop_message_def)

text \<open>The peeks used up by an action; unless the head of the inbox is an end message it goes on.\<close>

definition peeked :: "plane_thread \<Rightarrow> plane_thread" where
  "peeked st = st\<lparr>pt_peeks := snd (alloc (pt_peeks st))\<rparr>"

lemma peeked_simps [simp]:
  "pt_plane (peeked st) = pt_plane st" "pt_airline (peeked st) = pt_airline st" "pt_done (peeked st) = pt_done st"
  "pt_inbox (peeked st) = pt_inbox st" "pt_writes (peeked st) = pt_writes st" "pt_allocs (peeked st) = pt_allocs st"
  "pt_sent (peeked st) = pt_sent st" "pt_ready (peeked st) = pt_ready st"
  by (simp_all add: peeked_def)

definition not_ending :: "plane_thread \<Rightarrow> bool" where
  "not_ending st \<longleftrightarrow> (case pt_inbox st of [] \<Rightarrow> True | m # _ \<Rightarrow> msg_type m \<noteq> MessageTypeEnd)"

lemma SafeAction_goes: "not_ending st \<Longrightarrow> SafeAction block st = block (peeked st)"
  by (cases "pt_inbox st"; cases "alloc (pt_peeks st)")
    (auto simp: SafeAction_def and_then_def peek_end_def not_ending_def peeked_def)

lemma SafeAction_ends:
  assumes "pt_inbox st = m # ms" "msg_type m = MessageTypeEnd" "fst (alloc (pt_peeks st))"
  shows "SafeAction block st = Returns (Exit (peeked st))"
  using assms by (cases "alloc (pt_peeks st)")
    (auto simp: SafeAction_def and_then_def peek_end_def peeked_def thread_exit_def)

section \<open>Unloading\<close>

definition with_amounts :: "stock list \<Rightarrow> int list \<Rightarrow> stock list" where
  "with_amounts ss as = map2 (\<lambda>s a. s\<lparr>stock_amount := a\<rparr>) ss as"

lemma length_with_amounts [simp]: "length as = length ss \<Longrightarrow> length (with_amounts ss as) = length ss"
  by (simp add: with_amounts_def)

lemma store_amounts_loop:
  assumes "length as = length ss" "length ss < 2147483648" "\<And>a. a \<in> set as \<Longrightarrow> 0 \<le> a"
    and "length delta = length ss" "\<And>i. i < length ss \<Longrightarrow> arr_get delta i = Some (as ! i)"
  shows "store_amounts (vec_of ss) delta (length ss) =
    Some (Next (vec_of (with_amounts ss as), list_all (\<lambda>a. a = 0) as))"
proof -
  let ?st = "\<lambda>j. (vec_of (with_amounts (take j ss) (take j as) @ drop j ss), list_all (\<lambda>a. a = 0) (take j as))"
  have "\<exists>s'. store_amounts (vec_of ss) delta (length ss) = Some (Next s') \<and> s' = ?st (0 + length ss)"
    unfolding store_amounts_def
  proof (rule for_loop_invariant [where I = "\<lambda>j s. s = ?st j"])
    show "(vec_of ss, True) = ?st 0"
      by (simp add: with_amounts_def)
    fix j s
    assume j: "0 \<le> j" "j < 0 + length ss" and s: "s = ?st j"
    let ?ws = "with_amounts (take j ss) (take j as)"
    have len: "length ?ws = j" "drop j ss = ss ! j # drop (Suc j) ss"
      using j assms(1) by (simp_all add: with_amounts_def Cons_nth_drop_Suc)
    have d: "vec_deref (vec_of (?ws @ drop j ss)) (int j) = Some (ss ! j)"
      using vec_deref_in [of j "?ws @ drop j ss"] len j assms(2) by (simp add: nth_append)
    have u: "vec_store (vec_of (?ws @ drop j ss)) j x = vec_of (?ws @ x # drop (Suc j) ss)" for x
      using vec_store_vec_of [of j "?ws @ drop j ss" x] len j by (simp add: list_update_append)
    have n: "with_amounts (take (Suc j) ss) (take (Suc j) as) = ?ws @ [(ss ! j)\<lparr>stock_amount := as ! j\<rparr>]"
      using j assms(1) by (simp add: with_amounts_def take_Suc_conv_app_nth)
    have a: "0 \<le> as ! j" "list_all (\<lambda>a. a = 0) (take (Suc j) as) = (list_all (\<lambda>a. a = 0) (take j as) \<and> as ! j = 0)"
      using assms(1,3) j by (auto simp: take_Suc_conv_app_nth)
    show "\<exists>s'. (case s of (stocks, done) \<Rightarrow> vec_deref stocks (int j) \<bind> (\<lambda>s. arr_get delta j \<bind> (\<lambda>a.
        let stocks' = vec_store stocks j (s\<lparr>stock_amount := a\<rparr>) in
        Some (if a > 0 then Next (stocks', False) else if a < 0 then Exit (- 1, stocks', done)
          else Next (stocks', done))))) = Some (Next s') \<and> s' = ?st (Suc j)"
      using j a(1) unfolding s by (simp add: d u n a(2) assms(5) Let_def)
  qed
  then show ?thesis
    using assms(1) by simp
qed

lemma copy_cells_arr_of:
  assumes "length as \<le> cells"
  shows "copy_cells (length as) (length as) (arr_of cells as) = Some (map Some as)"
  using assms by (simp add: copy_cells_def arr_of_def)

text \<open>What \<open>unload_stock\<close> does with a good answer.\<close>

definition stock_reply :: "int list \<Rightarrow> Message" where
  "stock_reply as = \<lparr>msg_type = MessageTypeStock, msg_payload = P_Stock (length as) (arr_of MAX_STOCKS as)\<rparr>"

definition unload_request :: "plane_thread \<Rightarrow> StockStateMessage" where
  "unload_request st =
     \<lparr>ss_header = prepare_header (pt_airline st) (plane_id (pt_plane st)) (plane_cityId (pt_plane st))
        MessageTypeUnloadStock,
      ss_stocks = part_of (vlist (plane_stocks (pt_plane st)))\<rparr>"

lemma unload_stock_reply:
  assumes stocks: "plane_stocks (pt_plane st) = vec_of ss" "list_all stock_wf ss" "length ss \<le> MAX_STOCKS"
    and inbox: "pt_inbox st = stock_reply as # rest" "length as = length ss" "\<And>a. a \<in> set as \<Longrightarrow> 0 \<le> a"
    and quiet: "pt_allocs st = []" "pt_writes st = []"
  shows "\<exists>st'. unload_stock st = Returns (Next (0, st')) \<and>
    plane_stocks (pt_plane st') = vec_of (with_amounts ss as) \<and>
    plane_cityId (pt_plane st') = plane_cityId (pt_plane st) \<and>
    pt_sent st' = pt_sent st @ [PM_StockState (unload_request st)] \<and>
    pt_done st' = (pt_done st \<or> list_all (\<lambda>a. a = 0) as) \<and> pt_inbox st' = rest \<and> pt_ready st' = pt_ready st"
proof -
  have len: "length ss < 2147483648"
    using stocks(3) by (simp add: MAX_STOCKS_def)
  have msg: "marshall_change_stock (pt_airline st) (plane_id (pt_plane st)) (plane_cityId (pt_plane st)) (vec_of ss) =
      Some (unload_request st)"
    using marshall_stocks_part_of [of "vec_of ss"] stocks len
    by (simp add: marshall_change_stock_def stocks_wf_def unload_request_def)
  let ?st1 = "peeked (st\<lparr>pt_allocs := []\<rparr>)"
  let ?st2 = "?st1\<lparr>pt_writes := [], pt_sent := pt_sent st @ [PM_StockState (unload_request st)], pt_inbox := rest\<rparr>"
  have alive: "not_ending (st\<lparr>pt_allocs := []\<rparr>)"
    by (simp add: not_ending_def inbox(1) stock_reply_def)
  have "transmit_map (PM_StockState (unload_request st)) ?st1 =
      Returns (Next (True, ?st1\<lparr>pt_writes := [], pt_sent := pt_sent st @ [PM_StockState (unload_request st)]\<rparr>))"
    by (simp add: transmit_map_def quiet)
  then have comm: "comm_unload_stock (length ss) ?st1 = Returns (Next ((0, map Some as), ?st2))"
    using copy_cells_arr_of [of as MAX_STOCKS] stocks(1,3) inbox
    by (simp add: comm_unload_stock_def msg and_then_def stock_reply_def pop_message_def)
  have loop: "store_amounts (vec_of ss) (map Some as) (length ss) =
      Some (Next (vec_of (with_amounts ss as), list_all (\<lambda>a. a = 0) as))"
    using inbox(2,3) len by (intro store_amounts_loop) (auto simp: arr_get_def)
  have "unload_stock st = Returns (Next (0,
      (set_stocks (vec_of (with_amounts ss as)) ?st2)\<lparr>pt_done := pt_done st \<or> list_all (\<lambda>a. a = 0) as\<rparr>))"
    by (simp add: unload_stock_def take_alloc_def stocks(1) Let_def quiet SafeAction_goes [OF alive] comm and_then_def loop
        set_stocks_def)
  then show ?thesis
    by (simp add: set_stocks_def)
qed

section \<open>Flying\<close>

lemma SafeAction_ready:
  "not_ending st \<Longrightarrow> SafeAction plane_ready st = Returns (Next ((), (peeked st)\<lparr>pt_ready := Suc (pt_ready st)\<rparr>))"
  by (simp add: SafeAction_goes plane_ready_def)

text \<open>
  A turn of a plane that is under way: it tells the map nothing, is ready in both phases,
  and is one step closer.
\<close>

lemma plane_turn_flying:
  assumes "pt_inbox st = phase_message MessageTypeContinue # rest" "\<not> pt_done st"
    and "plane_distance (pt_plane st) = d" "0 < d" "in_int d"
    and "rest \<noteq> [] \<Longrightarrow> msg_type (hd rest) \<noteq> MessageTypeEnd"
  shows "\<exists>st'. plane_turn st = Returns (Next (False, st')) \<and>
    pt_plane st' = (pt_plane st)\<lparr>plane_distance := d - 1\<rparr> \<and> pt_inbox st' = rest \<and> \<not> pt_done st' \<and>
    pt_sent st' = pt_sent st \<and> pt_ready st' = pt_ready st + 2"
proof -
  let ?s1 = "(peeked st)\<lparr>pt_ready := Suc (pt_ready st)\<rparr>"
  let ?s2 = "(peeked ?s1)\<lparr>pt_inbox := rest\<rparr>"
  let ?s3 = "?s2\<lparr>pt_plane := (pt_plane st)\<lparr>plane_distance := d - 1\<rparr>\<rparr>"
  have n: "not_ending st" "not_ending ?s1" "not_ending ?s3"
    using assms(1,6) by (auto simp: not_ending_def split: list.splits)
  have r1: "SafeAction plane_ready st = Returns (Next ((), ?s1))"
    by (rule SafeAction_ready [OF n(1)])
  have c: "SafeExit comm_continue ?s1 = Returns (Next ((), ?s2))"
    unfolding SafeExit_def SafeAction_goes [OF n(2)]
    using assms(1) by (simp add: CHECK_EXIT_def comm_continue_def and_then_def)
  have "in_int (d - 1)"
    using assms(4,5) by (simp add: in_int_def INT_MIN_def)
  then have f: "fly ?s2 = Returns (Next ((), ?s3))"
    using assms(3) by (simp add: fly_def)
  have r2: "SafeAction plane_ready ?s3 = Returns (Next ((), (peeked ?s3)\<lparr>pt_ready := Suc (Suc (pt_ready st))\<rparr>))"
    using SafeAction_ready [OF n(3)] by simp
  have "plane_turn st = Returns (Next (False, (peeked ?s3)\<lparr>pt_ready := Suc (Suc (pt_ready st))\<rparr>))"
    using assms(2-4) unfolding plane_turn_def by (simp add: r1 c f r2)
  then show ?thesis
    using assms(2) by simp
qed

section \<open>Enough turns\<close>

text \<open>Operations never put messages into the inbox.\<close>

definition shrinks :: "'a thread_op \<Rightarrow> bool" where
  "shrinks f \<longleftrightarrow> (\<forall>st x st'. f st = Returns (Next (x, st')) \<longrightarrow> length (pt_inbox st') \<le> length (pt_inbox st))"

lemma shrinksD: "shrinks f \<Longrightarrow> f st = Returns (Next (x, st')) \<Longrightarrow> length (pt_inbox st') \<le> length (pt_inbox st)"
  by (auto simp: shrinks_def)

lemma and_then_NextE:
  assumes "and_then f g st = Returns (Next (y, st''))"
  obtains x st' where "f st = Returns (Next (x, st'))" "g x st' = Returns (Next (y, st''))"
  using assms by (auto simp: and_then_def split: outcome.splits flow.splits)

lemma shrinks_and_then: "shrinks f \<Longrightarrow> (\<And>x. shrinks (g x)) \<Longrightarrow> shrinks (and_then f g)"
  unfolding shrinks_def by (metis (no_types, lifting) and_then_NextE le_trans)

lemma shrinks_basic:
  "shrinks (go x)" "shrinks fault" "shrinks thread_exit" "shrinks (read_state f)" "shrinks pop_message"
  "shrinks peek_end" "shrinks (transmit_map msg)" "shrinks (lift_option o')"
  "(\<And>st. pt_inbox (h st) = pt_inbox st) \<Longrightarrow> shrinks (change h)"
  by (auto simp: shrinks_def fault_def thread_exit_def pop_message_def peek_end_def transmit_map_def
      lift_option_def split: list.splits prod.splits option.splits)

lemma shrinks_if: "shrinks f \<Longrightarrow> shrinks g \<Longrightarrow> shrinks (if b then f else g)"
  by simp

lemma shrinks_SafeAction: "shrinks f \<Longrightarrow> shrinks (SafeAction f)"
  unfolding SafeAction_def by (intro shrinks_and_then shrinks_basic shrinks_if)

lemma shrinks_SafeExit: "shrinks f \<Longrightarrow> shrinks (SafeExit f)"
  unfolding SafeExit_def CHECK_EXIT_def
  by (intro shrinks_SafeAction shrinks_and_then shrinks_basic shrinks_if)

lemmas shrinks_intros = shrinks_and_then shrinks_basic shrinks_if shrinks_SafeAction shrinks_SafeExit

lemma shrinks_comm_unload_stock: "shrinks (comm_unload_stock len)"
  unfolding comm_unload_stock_def
  by (intro shrinks_intros) (auto split: MessagePayload.split intro!: shrinks_intros)

lemma shrinks_comm_check_destinations: "shrinks (comm_check_destinations len)"
  unfolding comm_check_destinations_def
  by (intro shrinks_intros) (auto split: MessagePayload.split simp: Let_def intro!: shrinks_intros)

lemma shrinks_take_alloc: "shrinks take_alloc"
  by (auto simp: shrinks_def take_alloc_def split: prod.splits)

lemma shrinks_unload_stock: "shrinks unload_stock"
  unfolding unload_stock_def Let_def
  by (intro shrinks_and_then shrinks_basic shrinks_take_alloc)
    (auto split: option.split flow.split simp: Let_def set_stocks_def
      intro!: shrinks_intros shrinks_comm_unload_stock)

lemma shrinks_plane_turn: "shrinks plane_turn"
proof -
  have "shrinks choose_destination"
    unfolding choose_destination_def
    by (intro shrinks_intros shrinks_comm_check_destinations)
      (auto split: prod.split simp: set_destination_def intro!: shrinks_intros shrinks_comm_check_destinations)
  moreover have "shrinks fly"
    unfolding fly_def by (intro shrinks_intros) simp
  moreover have "shrinks comm_continue"
    unfolding comm_continue_def by (intro shrinks_intros)
  moreover have "shrinks plane_ready"
    unfolding plane_ready_def by (intro shrinks_intros) simp
  ultimately show ?thesis
    unfolding plane_turn_def by (intro shrinks_intros shrinks_unload_stock)
qed

lemma comm_step_pops:
  "comm_step st = Returns (Next (r, st')) \<Longrightarrow> length (pt_inbox st) = Suc (length (pt_inbox st'))"
  by (auto simp: comm_step_def and_then_def pop_message_def split: list.splits)

text \<open>The bound on the turns is never reached.\<close>

lemma run_plane_enough_turns:
  "length (pt_inbox st) < n \<Longrightarrow> run_plane n st = Returns (Next (b, st')) \<Longrightarrow> b \<and> pt_done st'"
proof (induction n arbitrary: st)
  case (Suc n)
  show ?case
  proof (cases "pt_done st")
    case True
    then show ?thesis
      using Suc.prems by auto
  next
    case False
    then have "and_then comm_step (\<lambda>r.
        if r = - 1 then and_then (change (\<lambda>st. st\<lparr>pt_done := True\<rparr>)) (\<lambda>_. go True)
        else and_then plane_turn (\<lambda>broke.
          if broke then and_then (change (\<lambda>st. st\<lparr>pt_done := True\<rparr>)) (\<lambda>_. go True)
          else run_plane n)) st = Returns (Next (b, st'))"
      using Suc.prems(2) by simp
    then obtain r st1 where 1: "comm_step st = Returns (Next (r, st1))"
      "(if r = - 1 then and_then (change (\<lambda>st. st\<lparr>pt_done := True\<rparr>)) (\<lambda>_. go True)
        else and_then plane_turn (\<lambda>broke.
          if broke then and_then (change (\<lambda>st. st\<lparr>pt_done := True\<rparr>)) (\<lambda>_. go True)
          else run_plane n)) st1 = Returns (Next (b, st'))"
      by (rule and_then_NextE)
    show ?thesis
    proof (cases "r = - 1")
      case True
      then show ?thesis
        using 1(2) by auto
    next
      case False
      then have "and_then plane_turn (\<lambda>broke.
          if broke then and_then (change (\<lambda>st. st\<lparr>pt_done := True\<rparr>)) (\<lambda>_. go True)
          else run_plane n) st1 = Returns (Next (b, st'))"
        using 1(2) by simp
      then obtain broke st2 where 2: "plane_turn st1 = Returns (Next (broke, st2))"
        "(if broke then and_then (change (\<lambda>st. st\<lparr>pt_done := True\<rparr>)) (\<lambda>_. go True)
          else run_plane n) st2 = Returns (Next (b, st'))"
        by (rule and_then_NextE)
      have "length (pt_inbox st2) < n"
        using comm_step_pops [OF 1(1)] shrinksD [OF shrinks_plane_turn 2(1)] Suc.prems(1) by simp
      then show ?thesis
        using 2(2) Suc.IH by (cases broke) auto
    qed
  qed
qed simp

end
