(* ===== verification/Airline_Process.thy ===== *)
theory Airline_Process
  imports Messages Fifo_Interface
begin

text \<open>
  \<open>app/airline.c\<close> and \<open>communication/airline.c\<close>: the process of an airline. Its listener
  hands the messages of the map to the plane threads, and the last plane that is ready in a
  phase reports to the map.

  Of a plane thread the airline sees \<open>done\<close> and the queue, here the list of everything ever
  pushed (a queue never holds more than the answer to one request and one phase message).
  What is handed to \<open>ipc_write\<close> is appended to \<open>al_sent\<close>; its result is ignored by the code. The
  \<open>static\<close> variables of the file are fields of the state; \<open>exitState\<close> stays 0 for ever.
\<close>

record thread_slot =
  sl_done :: bool
  sl_pushed :: "Message list"

record airline_state =
  al_id :: int
  al_numberOfPlanes :: nat
  al_threads :: "thread_slot vector"
  al_planesLeft :: int
  al_stage :: int
  al_sent :: "PlaneMessage list"

section \<open>\<open>communication/airline.c\<close>\<close>

definition send_to_map :: "PlaneMessage \<Rightarrow> airline_state \<Rightarrow> airline_state" where
  "send_to_map msg st = st\<lparr>al_sent := al_sent st @ [msg]\<rparr>"

definition comm_airline_ready :: "airline_state \<Rightarrow> airline_state" where
  "comm_airline_ready st = send_to_map (PM_Type MessageTypeAirlineDone) st"

definition comm_airline_status :: "int \<Rightarrow> int \<Rightarrow> int \<Rightarrow> airline_state \<Rightarrow> airline_state" where
  "comm_airline_status i flying total_planes st =
     send_to_map (PM_AirlineStatus \<lparr>asm_type = MessageTypeAirlineStatus,
       asm_status = marshall_send_airline_status flying total_planes i\<rparr>) st"

section \<open>\<open>app/airline.c\<close>\<close>

definition count_flying :: "nat \<Rightarrow> thread_slot vector \<Rightarrow> int option" where
  "count_flying n threads =
     after_loop
       (for_loop n 0 (\<lambda>i flying. do {
          t \<leftarrow> vec_deref threads (int i);
          if \<not> sl_done t then do { f \<leftarrow> iadd flying 1; Some (Next f) } else Some (Next flying)
        }) 0)
       Some"

definition send_ready_message :: "airline_state \<Rightarrow> airline_state option" where
  "send_ready_message st =
     (if al_stage st = 1 then do {
        flying \<leftarrow> count_flying (al_numberOfPlanes st) (al_threads st);
        Some (comm_airline_status (al_id st) flying (int (al_numberOfPlanes st)) st)
      } else Some (comm_airline_ready st))"

definition push_slot :: "Message \<Rightarrow> thread_slot \<Rightarrow> thread_slot" where
  "push_slot msg t = t\<lparr>sl_pushed := sl_pushed t @ [msg]\<rparr>"

definition broadcast :: "Message \<Rightarrow> thread_slot vector \<Rightarrow> thread_slot vector option" where
  "broadcast msg threads =
     after_loop
       (for_loop (getVectorSize threads) 0 (\<lambda>i ts. do {
          t \<leftarrow> vec_deref ts (int i);
          Some (Next (if \<not> sl_done t then vec_store ts i (push_slot msg t) else ts))
        }) threads)
       Some"

definition start_phase :: "Message \<Rightarrow> airline_state \<Rightarrow> airline_state option" where
  "start_phase msg st = do {
     left \<leftarrow> count_flying (getVectorSize (al_threads st)) (al_threads st);
     let st' = st\<lparr>al_planesLeft := left\<rparr>;
     if left = 0 then send_ready_message st'
     else do {
       ts \<leftarrow> broadcast msg (al_threads st');
       Some (st'\<lparr>al_threads := ts\<rparr>)
     }
   }"

definition app_airline_plane_ready :: "airline_state \<Rightarrow> airline_state option" where
  "app_airline_plane_ready st = do {
     left \<leftarrow> isub (al_planesLeft st) 1;
     let st' = st\<lparr>al_planesLeft := left\<rparr>;
     if left = 0 then send_ready_message st' else Some st'
   }"

text \<open>Both redirections copy the whole arrays.\<close>

definition redirect_stock_message :: "StockStateMessage \<Rightarrow> airline_state \<Rightarrow> airline_state option" where
  "redirect_stock_message msg st = do {
     let i = hdr_id (ss_header msg);
     t \<leftarrow> vec_deref (al_threads st) i;
     let out = \<lparr>msg_type = MessageTypeStock,
       msg_payload = P_Stock (part_count (ss_stocks msg)) (part_quantities (ss_stocks msg))\<rparr>;
     Some (st\<lparr>al_threads := vec_store (al_threads st) (to_uint i) (push_slot out t)\<rparr>)
   }"

definition redirect_destinations_message :: "DestinationsMessage \<Rightarrow> airline_state \<Rightarrow> airline_state option" where
  "redirect_destinations_message msg st = do {
     let i = dm_planeId msg;
     t \<leftarrow> vec_deref (al_threads st) i;
     let out = \<lparr>msg_type = MessageTypeDestinations,
       msg_payload = P_Destinations (dm_count msg) (dm_destinations msg) (dm_distance msg)\<rparr>;
     Some (st\<lparr>al_threads := vec_store (al_threads st) (to_uint i) (push_slot out t)\<rparr>)
   }"

text \<open>One round of the loop of \<open>listen\<close>: the new state, or \<^const>\<open>Exit\<close> when it returns.\<close>

definition listen_one :: "MapMessage \<Rightarrow> airline_state \<Rightarrow> (airline_state, airline_state) flow option" where
  "listen_one msg st =
     (case mm_type msg of
        MessageTypeStep \<Rightarrow> map_option Next (start_phase (phase_message MessageTypeStep) (st\<lparr>al_stage := 0\<rparr>))
      | MessageTypeContinue \<Rightarrow> map_option Next (start_phase (phase_message MessageTypeContinue) (st\<lparr>al_stage := 1\<rparr>))
      | MessageTypeDestinations \<Rightarrow>
          (case msg of MM_Destinations m \<Rightarrow> map_option Next (redirect_destinations_message m st) | _ \<Rightarrow> None)
      | MessageTypeUnloadStock \<Rightarrow>
          (case msg of MM_Stock m \<Rightarrow> map_option Next (redirect_stock_message m st) | _ \<Rightarrow> None)
      | _ \<Rightarrow> Some (Exit st))"

fun listen :: "airline_state \<Rightarrow> MapMessage list \<Rightarrow> airline_state outcome" where
  "listen st [] = Blocks"
| "listen st (msg # inbox) =
     (case listen_one msg st of
        None \<Rightarrow> Faults
      | Some (Exit st') \<Rightarrow> Returns st'
      | Some (Next st') \<Rightarrow> listen st' inbox)"

text \<open>\<open>run_airline\<close> after \<open>listen\<close>: tell the planes to end. (Then it joins the threads.)\<close>

definition end_planes :: "airline_state \<Rightarrow> airline_state option" where
  "end_planes st = do {
     ts \<leftarrow> broadcast (phase_message MessageTypeEnd) (al_threads st);
     Some (st\<lparr>al_threads := ts\<rparr>)
   }"

section \<open>The loops over the threads\<close>

definition airline_wf :: "airline_state \<Rightarrow> bool" where
  "airline_wf st \<longleftrightarrow> vec_inv (al_threads st) \<and> al_numberOfPlanes st = length (vlist (al_threads st)) \<and>
     al_numberOfPlanes st < 2147483647"

abbreviation slots :: "airline_state \<Rightarrow> thread_slot list" where
  "slots st \<equiv> vlist (al_threads st)"

definition flying :: "thread_slot list \<Rightarrow> nat" where
  "flying ts = length (filter (\<lambda>t. \<not> sl_done t) ts)"

lemma flying_simps [simp]:
  "flying [] = 0" "flying (t # ts) = (if sl_done t then 0 else 1) + flying ts"
  by (simp_all add: flying_def)

lemma flying_le: "flying ts \<le> length ts"
  by (simp add: flying_def)

lemma count_flying_list:
  assumes "vec_inv threads" "length (vlist threads) < 2147483647"
  shows "count_flying (length (vlist threads)) threads = Some (int (flying (vlist threads)))"
proof -
  have loop: "list_loop k (\<lambda>i t flying. if \<not> sl_done t then do { f \<leftarrow> iadd flying 1; Some (Next f) } else Some (Next flying))
      ts (int c) = Some (Next (int (c + flying ts)) :: (int, int) flow)"
    if "c + length ts < 2147483647" for k ts c
    using that
  proof (induction ts arbitrary: k c)
    case (Cons t ts)
    have "in_int (int c + 1)"
      using Cons.prems by (simp add: in_int_def INT_MIN_def INT_MAX_def)
    then show ?case
      using Cons.IH [of "Suc c" "Suc k"] Cons.IH [of c "Suc k"] Cons.prems by (simp add: add.commute)
  qed simp
  have "for_loop (getVectorSize threads) 0 (\<lambda>i flying. vec_deref threads (int i) \<bind> (\<lambda>t.
      if \<not> sl_done t then do { f \<leftarrow> iadd flying 1; Some (Next f) } else Some (Next flying))) 0 =
      Some (Next (int (flying (vlist threads))) :: (int, int) flow)"
    using loop [of 0 "vlist threads" 0] assms(2) by (subst vec.scan [OF assms(1)]) simp
  then show ?thesis
    by (simp add: count_flying_def vec.count_contents [OF assms(1)])
qed

definition notify :: "Message \<Rightarrow> thread_slot \<Rightarrow> thread_slot" where
  "notify msg t = (if sl_done t then t else push_slot msg t)"

lemma broadcast_list:
  assumes "vec_inv threads"
  shows "broadcast msg threads = Some (vec_of (map (notify msg) (vlist threads)))"
proof -
  obtain xs where xs: "threads = vec_of xs" "length xs < 2147483648"
    using assms by (auto elim: vec_invE)
  let ?st = "\<lambda>j. vec_of (map (notify msg) (take j xs) @ drop j xs)"
  have "\<exists>s'. for_loop (length xs) 0 (\<lambda>i ts. do {
          t \<leftarrow> vec_deref ts (int i);
          Some (Next (if \<not> sl_done t then vec_store ts i (push_slot msg t) else ts))
        }) (?st 0) = Some (Next s' :: (thread_slot vector, _) flow) \<and> s' = ?st (0 + length xs)"
  proof (rule for_loop_invariant [where I = "\<lambda>j s. s = ?st j"])
    fix j s
    assume j: "0 \<le> j" "j < 0 + length xs" and s: "s = ?st j"
    let ?ys = "map (notify msg) (take j xs)"
    have dr: "drop j xs = xs ! j # drop (Suc j) xs"
      using j by (simp add: Cons_nth_drop_Suc)
    have d: "vec_deref (vec_of (?ys @ drop j xs)) (int j) = Some (xs ! j)"
      using vec_deref_in [of j "?ys @ drop j xs"] j xs(2) by (simp add: nth_append min_def)
    have u: "vec_store (vec_of (?ys @ drop j xs)) j x = vec_of (?ys @ x # drop (Suc j) xs)" for x
      using vec_store_vec_of [of j "?ys @ drop j xs" x] j by (simp add: list_update_append dr min_def)
    have n: "map (notify msg) (take (Suc j) xs) = ?ys @ [notify msg (xs ! j)]"
      using j by (simp add: take_Suc_conv_app_nth)
    show "\<exists>s'. (vec_deref s (int j) \<bind> (\<lambda>t.
          Some (Next (if \<not> sl_done t then vec_store s j (push_slot msg t) else s)))) = Some (Next s') \<and>
        s' = ?st (Suc j)"
      unfolding s n by (simp add: d u notify_def) (simp add: dr)
  qed simp
  then show ?thesis
    by (simp add: broadcast_def xs(1))
qed

text \<open>The message an airline reports with, which in stage 1 carries the planes still flying.\<close>

definition ready_message :: "airline_state \<Rightarrow> PlaneMessage" where
  "ready_message st =
     (if al_stage st = 1
      then PM_AirlineStatus \<lparr>asm_type = MessageTypeAirlineStatus, asm_status =
        \<lparr>as_id = al_id st, as_planesFlying = int (flying (slots st)), as_totalPlanes = int (al_numberOfPlanes st)\<rparr>\<rparr>
      else PM_Type MessageTypeAirlineDone)"

lemma send_ready_message_wf:
  "airline_wf st \<Longrightarrow> send_ready_message st = Some (send_to_map (ready_message st) st)"
  using count_flying_list [of "al_threads st"]
  by (simp add: send_ready_message_def airline_wf_def ready_message_def comm_airline_status_def
      comm_airline_ready_def marshall_send_airline_status_def)

lemma start_phase_wf:
  assumes "airline_wf st"
  shows "start_phase msg st =
    Some (if flying (slots st) = 0 then send_to_map (ready_message st) (st\<lparr>al_planesLeft := 0\<rparr>)
          else st\<lparr>al_planesLeft := int (flying (slots st)), al_threads := vec_of (map (notify msg) (slots st))\<rparr>)"
proof -
  have v: "vec_inv (al_threads st)" "length (slots st) < 2147483647"
    using assms by (simp_all add: airline_wf_def)
  have "airline_wf (st\<lparr>al_planesLeft := 0\<rparr>)" "ready_message (st\<lparr>al_planesLeft := 0\<rparr>) = ready_message st"
    using assms by (simp_all add: airline_wf_def ready_message_def)
  with v show ?thesis
    by (simp add: start_phase_def vec.count_contents [OF v(1)] count_flying_list [OF v] broadcast_list [OF v(1)]
        send_ready_message_wf Let_def)
qed

lemma plane_ready_wf:
  assumes "airline_wf st" "1 \<le> al_planesLeft st" "in_int (al_planesLeft st)"
  shows "app_airline_plane_ready st =
    Some (let st' = st\<lparr>al_planesLeft := al_planesLeft st - 1\<rparr>
          in if al_planesLeft st = 1 then send_to_map (ready_message st) st' else st')"
proof -
  have "in_int (al_planesLeft st - 1)"
    using assms(2,3) by (simp add: in_int_def INT_MIN_def)
  moreover have "airline_wf (st\<lparr>al_planesLeft := 0\<rparr>)" "ready_message (st\<lparr>al_planesLeft := 0\<rparr>) = ready_message st"
    using assms(1) by (simp_all add: airline_wf_def ready_message_def)
  ultimately show ?thesis
    by (auto simp: app_airline_plane_ready_def Let_def send_ready_message_wf)
qed

section \<open>The barrier\<close>

text \<open>
  The listener and the plane threads together. \<open>br_busy\<close> says which planes have been told of
  the phase and have not reported; a plane may become done before it reports. The map
  starts a phase only when it has the airline's message about the last one.
\<close>

record barrier =
  br_airline :: airline_state
  br_busy :: "bool list"
  br_phases :: nat

definition finish_slot :: "nat \<Rightarrow> airline_state \<Rightarrow> airline_state" where
  "finish_slot i st =
     st\<lparr>al_threads := vec_store (al_threads st) i ((slots st ! i)\<lparr>sl_done := True\<rparr>)\<rparr>"

inductive barrier_step :: "barrier \<Rightarrow> barrier \<Rightarrow> bool" where
  phase: "length (al_sent (br_airline B)) = br_phases B \<Longrightarrow> t \<in> {MessageTypeStep, MessageTypeContinue} \<Longrightarrow>
    listen_one (MM_Type t) (br_airline B) = Some (Next st') \<Longrightarrow>
    barrier_step B \<lparr>br_airline = st', br_busy = map (\<lambda>t. \<not> sl_done t) (slots (br_airline B)),
      br_phases = Suc (br_phases B)\<rparr>"
| redirect: "t \<in> {MessageTypeDestinations, MessageTypeUnloadStock} \<Longrightarrow> mm_type msg = t \<Longrightarrow>
    listen_one msg (br_airline B) = Some (Next st') \<Longrightarrow>
    barrier_step B (B\<lparr>br_airline := st'\<rparr>)"
| ready: "i < length (br_busy B) \<Longrightarrow> br_busy B ! i \<Longrightarrow>
    app_airline_plane_ready (br_airline B) = Some st' \<Longrightarrow>
    barrier_step B (B\<lparr>br_airline := st', br_busy := (br_busy B)[i := False]\<rparr>)"
| finish: "i < length (br_busy B) \<Longrightarrow> br_busy B ! i \<Longrightarrow>
    app_airline_plane_ready (finish_slot i (br_airline B)) = Some st' \<Longrightarrow>
    barrier_step B (B\<lparr>br_airline := st', br_busy := (br_busy B)[i := False]\<rparr>)"

definition barrier_init :: "int \<Rightarrow> nat \<Rightarrow> barrier" where
  "barrier_init i n =
     \<lparr>br_airline = \<lparr>al_id = i, al_numberOfPlanes = n,
        al_threads = vec_of (replicate n \<lparr>sl_done = False, sl_pushed = []\<rparr>), al_planesLeft = 0, al_stage = 0, al_sent = []\<rparr>,
      br_busy = replicate n False, br_phases = 0\<rparr>"

inductive barrier_reach :: "int \<Rightarrow> nat \<Rightarrow> barrier \<Rightarrow> bool" for k n where
  barrier_start: "barrier_reach k n (barrier_init k n)"
| barrier_next: "barrier_reach k n B \<Longrightarrow> barrier_step B B' \<Longrightarrow> barrier_reach k n B'"

definition busy_count :: "bool list \<Rightarrow> nat" where
  "busy_count bs = length (filter id bs)"

lemma busy_count_simps [simp]: "busy_count [] = 0" "busy_count (b # bs) = (if b then 1 else 0) + busy_count bs"
  by (simp_all add: busy_count_def)

lemma busy_count_clear: "i < length bs \<Longrightarrow> bs ! i \<Longrightarrow> busy_count bs = Suc (busy_count (bs[i := False]))"
  by (induction bs arbitrary: i) (auto split: nat.splits)

lemma busy_count_flying: "busy_count (map (\<lambda>t. \<not> sl_done t) ts) = flying ts"
  by (induction ts) auto

lemma busy_count_le: "busy_count bs \<le> length bs"
  by (simp add: busy_count_def)

definition barrier_inv :: "int \<Rightarrow> nat \<Rightarrow> barrier \<Rightarrow> bool" where
  "barrier_inv k n B \<longleftrightarrow> airline_wf (br_airline B) \<and> al_id (br_airline B) = k \<and> al_numberOfPlanes (br_airline B) = n \<and>
     length (br_busy B) = n \<and> al_planesLeft (br_airline B) = int (busy_count (br_busy B)) \<and>
     length (al_sent (br_airline B)) + (if busy_count (br_busy B) = 0 then 0 else 1) = br_phases B"

lemma listen_one_phase:
  "listen_one (MM_Type MessageTypeStep) st = map_option Next (start_phase (phase_message MessageTypeStep) (st\<lparr>al_stage := 0\<rparr>))"
  "listen_one (MM_Type MessageTypeContinue) st = map_option Next (start_phase (phase_message MessageTypeContinue) (st\<lparr>al_stage := 1\<rparr>))"
  by (simp_all add: listen_one_def)

lemma send_to_map_simps [simp]:
  "al_threads (send_to_map m st) = al_threads st" "al_numberOfPlanes (send_to_map m st) = al_numberOfPlanes st"
  "al_planesLeft (send_to_map m st) = al_planesLeft st" "al_stage (send_to_map m st) = al_stage st"
  "al_sent (send_to_map m st) = al_sent st @ [m]" "al_id (send_to_map m st) = al_id st"
  by (simp_all add: send_to_map_def)

lemma barrier_inv_start_phase:
  assumes "airline_wf st" "start_phase msg st = Some st'"
  shows "airline_wf st' \<and> al_id st' = al_id st \<and> al_numberOfPlanes st' = al_numberOfPlanes st \<and>
    al_planesLeft st' = int (flying (slots st)) \<and>
    length (al_sent st') = length (al_sent st) + (if flying (slots st) = 0 then 1 else 0)"
  using assms by (auto simp: start_phase_wf airline_wf_def)

lemma barrier_inv_ready:
  assumes "airline_wf st" "al_planesLeft st = int (Suc c)" "Suc c \<le> al_numberOfPlanes st"
    "app_airline_plane_ready st = Some st'"
  shows "airline_wf st' \<and> al_id st' = al_id st \<and> al_numberOfPlanes st' = al_numberOfPlanes st \<and>
    al_planesLeft st' = int c \<and> length (al_sent st') = length (al_sent st) + (if c = 0 then 1 else 0)"
proof -
  have "in_int (al_planesLeft st)"
    using assms(1-3) by (simp add: airline_wf_def in_int_def INT_MIN_def INT_MAX_def)
  then show ?thesis
    using assms by (auto simp: plane_ready_wf airline_wf_def Let_def)
qed

lemma barrier_inv_redirect:
  assumes "airline_wf st" "listen_one msg st = Some (Next st')"
    "mm_type msg \<in> {MessageTypeDestinations, MessageTypeUnloadStock}"
  shows "airline_wf st' \<and> al_id st' = al_id st \<and> al_numberOfPlanes st' = al_numberOfPlanes st \<and>
    al_planesLeft st' = al_planesLeft st \<and> al_sent st' = al_sent st \<and> map sl_done (slots st') = map sl_done (slots st)"
proof -
  obtain ts where ts: "al_threads st = vec_of ts" "length ts < 2147483648"
    using assms(1) by (auto simp: airline_wf_def elim: vec_invE)
  have "airline_wf (st\<lparr>al_threads := vec_store (al_threads st) (to_uint i) (push_slot out t)\<rparr>) \<and>
      map sl_done (vlist (vec_store (al_threads st) (to_uint i) (push_slot out t))) = map sl_done (slots st)"
    if d: "vec_deref (al_threads st) i = Some t" for i out t
  proof -
    have i: "to_uint i < length ts" "t = ts ! to_uint i"
      using vec_deref_to_uint [of ts i t] d by (simp_all add: ts)
    then have "map sl_done (ts[to_uint i := push_slot out t]) = map sl_done ts"
      by (simp add: map_update push_slot_def list_update_same_conv)
    with i show ?thesis
      using assms(1) by (simp add: airline_wf_def ts)
  qed
  then show ?thesis
    using assms(2,3) by (auto simp: listen_one_def redirect_stock_message_def redirect_destinations_message_def Let_def
        airline_wf_def split: MessageType.splits MapMessage.splits Option.bind_splits)
qed

lemma barrier_inv_step:
  assumes "barrier_step B B'" "barrier_inv k n B"
  shows "barrier_inv k n B'"
  using assms(1)
proof (cases rule: barrier_step.cases)
  case (phase t st')
  obtain msg s where s: "start_phase msg (br_airline B\<lparr>al_stage := s\<rparr>) = Some st'"
    using phase by (auto simp: listen_one_phase)
  have wf: "airline_wf (br_airline B\<lparr>al_stage := s\<rparr>)"
    using assms(2) by (simp add: barrier_inv_def airline_wf_def)
  from barrier_inv_start_phase [OF wf s] show ?thesis
    using assms(2) phase by (auto simp: barrier_inv_def busy_count_flying airline_wf_def)
next
  case (redirect t msg st')
  then show ?thesis
    using barrier_inv_redirect [of "br_airline B" msg st'] assms(2) by (auto simp: barrier_inv_def)
next
  case (ready i st')
  have c: "busy_count (br_busy B) = Suc (busy_count ((br_busy B)[i := False]))"
    by (rule busy_count_clear [OF ready(2,3)])
  have "busy_count (br_busy B) \<le> n"
    using assms(2) busy_count_le [of "br_busy B"] by (simp add: barrier_inv_def)
  then show ?thesis
    using barrier_inv_ready [OF _ _ _ ready(4), of "busy_count ((br_busy B)[i := False])"] assms(2) c ready(1)
    by (auto simp: barrier_inv_def split: if_splits)
next
  case (finish i st')
  have c: "busy_count (br_busy B) = Suc (busy_count ((br_busy B)[i := False]))"
    by (rule busy_count_clear [OF finish(2,3)])
  have n: "busy_count (br_busy B) \<le> n"
    using assms(2) busy_count_le [of "br_busy B"] by (simp add: barrier_inv_def)
  have i: "i < length (slots (br_airline B))"
    using assms(2) finish(2) by (simp add: barrier_inv_def airline_wf_def)
  have f: "airline_wf (finish_slot i (br_airline B))" "al_id (finish_slot i (br_airline B)) = al_id (br_airline B)"
    "al_numberOfPlanes (finish_slot i (br_airline B)) = al_numberOfPlanes (br_airline B)"
    "al_planesLeft (finish_slot i (br_airline B)) = al_planesLeft (br_airline B)"
    "al_sent (finish_slot i (br_airline B)) = al_sent (br_airline B)"
    using assms(2) i vec.put_wf [OF _ i] vec.put_contents [OF _ i]
    by (auto simp: finish_slot_def barrier_inv_def airline_wf_def)
  then show ?thesis
    using barrier_inv_ready [OF _ _ _ finish(4), of "busy_count ((br_busy B)[i := False])"] assms(2) c n finish(1)
    by (auto simp: barrier_inv_def split: if_splits)
qed

lemma barrier_inv_init: "n < 2147483647 \<Longrightarrow> barrier_inv k n (barrier_init k n)"
proof -
  assume "n < 2147483647"
  moreover have "busy_count (replicate n False) = 0"
    by (induction n) simp_all
  ultimately show ?thesis
    by (simp add: barrier_inv_def barrier_init_def airline_wf_def)
qed

lemma barrier_inv_reach: "barrier_reach k n B \<Longrightarrow> n < 2147483647 \<Longrightarrow> barrier_inv k n B"
  by (induction rule: barrier_reach.induct) (auto simp: barrier_inv_init intro: barrier_inv_step)

text \<open>A busy plane can always report.\<close>

lemma barrier_ready_enabled:
  assumes "barrier_inv k n B" "i < n" "br_busy B ! i"
  shows "\<exists>st'. app_airline_plane_ready (br_airline B) = Some st'"
proof -
  have "1 \<le> busy_count (br_busy B)" "busy_count (br_busy B) \<le> n"
    using assms busy_count_clear [of i "br_busy B"] busy_count_le [of "br_busy B"] by (auto simp: barrier_inv_def)
  then have "1 \<le> al_planesLeft (br_airline B)" "in_int (al_planesLeft (br_airline B))" "airline_wf (br_airline B)"
    using assms(1) by (auto simp: barrier_inv_def airline_wf_def in_int_def INT_MIN_def INT_MAX_def)
  then show ?thesis
    by (simp add: plane_ready_wf)
qed

end
