(* ===== verification/Properties_Process.thy ===== *)
theory Properties_Process
  imports Map_Process Plane_Thread Airline_Process
begin

text \<open>
  The properties of the three kinds of process: the map (\<open>runMap\<close>), the planes
  (\<open>run_plane\<close>) and the airlines (\<open>listen\<close> and the barrier).
\<close>

section \<open>Sample data\<close>

definition demo_products :: "product vector" where
  "demo_products = vec_of [\<lparr>product_id = 0, product_name = ''agua''\<rparr>, \<lparr>product_id = 1, product_name = ''arroz''\<rparr>]"

definition demo_stock :: "nat \<Rightarrow> int \<Rightarrow> stock" where
  "demo_stock p n = \<lparr>stock_amount = n, stock_product = Some (vlist demo_products ! p)\<rparr>"

definition demo_map :: sim_map where
  "demo_map = \<lparr>map_cities = vec_of
       [\<lparr>city_name = ''A'', city_id = 0, city_stock = vec_of [demo_stock 0 10]\<rparr>,
        \<lparr>city_name = ''B'', city_id = 1, city_stock = vec_of [demo_stock 1 20]\<rparr>],
     map_product = demo_products, map_matrix = [[0, 5], [5, 0]]\<rparr>"

definition demo_state :: map_state where
  "demo_state = \<lparr>ms_map = demo_map, ms_turn = 0, ms_sent = [], ms_output = [], ms_writes = [], ms_exits = []\<rparr>"

lemma demo_wf:
  "sim_wf demo_map" "names_fit demo_products" "products_wf demo_products" "map_product demo_map = demo_products"
  "length (vlist (map_cities demo_map)) = 2" "stocks_at demo_map 0 = [demo_stock 0 10]"
  by (auto simp: sim_wf_def demo_map_def demo_products_def demo_stock_def map_wf_def routes_wf_def products_wf_def
      stocks_wf_def stock_wf_def square_def total_amount_def in_int_def INT_MIN_def INT_MAX_def upt_rec
      names_fit_def CITY_NAME_MAX_LENGTH_def stocks_at_def)

lemma demo_known: "0 \<le> n \<Longrightarrow> n \<le> 1000 \<Longrightarrow> stocks_known demo_products [demo_stock 0 n]"
  by (simp add: stocks_known_def demo_stock_def demo_products_def stock_wf_def in_int_def INT_MIN_def INT_MAX_def)

definition demo_request :: "int \<Rightarrow> StockStateMessage" where
  "demo_request n = \<lparr>ss_header = prepare_header 0 3 0 MessageTypeUnloadStock, ss_stocks = part_of [demo_stock 0 n]\<rparr>"

section \<open>The map process\<close>

text \<open>
  C13. A run of the map process on a well-formed map, whatever good messages the airlines send
  and in whatever order: nothing is ever undefined; the run plays at most 70000 turns; the
  map stays well-formed with the same cities, products and distances, and its demand never
  grows; and unless the process was told to exit, it returns only when every demand is met
  or 70000 turns have been played.
\<close>

theorem runMap_safe:
  assumes "sim_wf (ms_map st)" "conns_wf conns (getVectorSize airlines)" "vec_inv airlines"
    and "list_all (msg_ok (getVectorSize airlines) (ms_map st)) inbox"
  shows "case runMap 70000 airlines conns st inbox of
      Faults \<Rightarrow> False
    | Blocks \<Rightarrow> True
    | Returns None \<Rightarrow> False
    | Returns (Some (st', rest)) \<Rightarrow> sim_wf (ms_map st') \<and> map_matrix (ms_map st') = map_matrix (ms_map st) \<and>
        map_product (ms_map st') = map_product (ms_map st) \<and> 0 \<le> demand (ms_map st') \<and>
        demand (ms_map st') \<le> demand (ms_map st) \<and> 0 \<le> ms_turn st' \<and> ms_turn st' \<le> 70000 \<and>
        (ms_exits st = [] \<longrightarrow> demand (ms_map st') = 0 \<or> ms_turn st' = 70000)"
  using runMap_result [OF assms]
  by (auto simp: run_result_def evolves_def split: outcome.splits option.splits)

theorem runMap_safe_witness:
  "runMap 70000 (vec_of [\<lparr>airline_id = 0, airline_numberOfPlanes = 1, airline_planes = []\<rparr>]) (vec_of [0]) demo_state
     [PM_StockState (demo_request 10), PM_Type MessageTypeAirlineDone] \<noteq> Faults"
proof -
  let ?as = "vec_of [\<lparr>airline_id = 0, airline_numberOfPlanes = 1, airline_planes = []\<rparr>] :: airline vector"
  have "msg_ok 1 demo_map (PM_StockState (demo_request 10))"
    using demo_wf demo_known [of 10]
    by (auto simp: demo_request_def prepare_header_def part_ok_def MAX_STOCKS_def
        intro!: exI [of _ 0] exI [of _ "[demo_stock 0 10]"])
  then show ?thesis
    using runMap_safe [of demo_state "vec_of [0]" ?as
      "[PM_StockState (demo_request 10), PM_Type MessageTypeAirlineDone]"] demo_wf(1)
    by (auto simp: demo_state_def conns_wf_def upt_rec)
qed

text \<open>
  C17. What a plane tells the map about itself arrives: \<open>initPlane\<close> rebuilds exactly the
  stocks that \<open>marshall_change_stock\<close> packed, and leaves the catalogue alone.
\<close>

theorem marshall_initPlane_round_trip:
  assumes "products_wf (map_product m)" "names_fit (map_product m)" "vec_inv v"
    and "stocks_known (map_product m) (vlist v)" "length (vlist v) \<le> 50"
  shows "\<exists>msg pl. marshall_change_stock airline i cityId v = Some msg \<and>
    initPlane [] (ss_stocks msg) (ss_header msg) blank_plane m = Some (pl, m, []) \<and>
    plane_stocks pl = v \<and> plane_id pl = i \<and> plane_cityId pl = cityId"
proof -
  have wf: "stocks_wf v"
    using assms(3,4) by (auto simp: stocks_wf_def stocks_known_def list_all_iff)
  have v: "vec_of (vlist v) = v"
    using assms(3) by (auto elim: vec_invE)
  show ?thesis
    using assms(5) marshall_stocks_part_of [OF wf] initPlane_part_of [OF assms(1,2,4)]
    by (simp add: marshall_change_stock_def prepare_header_def MAX_STOCKS_def v)
qed

theorem marshall_initPlane_round_trip_witness:
  "\<exists>msg pl. marshall_change_stock 0 3 1 (vec_of [demo_stock 0 4]) = Some msg \<and>
    initPlane [] (ss_stocks msg) (ss_header msg) blank_plane demo_map = Some (pl, demo_map, []) \<and>
    plane_stocks pl = vec_of [demo_stock 0 4]"
  using marshall_initPlane_round_trip [of demo_map "vec_of [demo_stock 0 4]" 0 3 1] demo_wf demo_known [of 4]
  by auto

text \<open>
  Phase 1 is a barrier: with good messages it goes on to the next phase exactly when it
  has read one message \<open>AirlineDone\<close> per airline, and waits when fewer come.
\<close>

theorem phase1_barrier:
  assumes "sim_wf (ms_map st)" "conns_wf conns n" "list_all (msg_ok n (ms_map st)) inbox"
  shows "case phase1 conns n 0 st inbox of
      Faults \<Rightarrow> False
    | Blocks \<Rightarrow> ends_phase MessageTypeAirlineDone inbox < n
    | Returns (st', rest) \<Rightarrow> sim_wf (ms_map st') \<and> demand (ms_map st') \<le> demand (ms_map st) \<and>
        (\<exists>taken. inbox = taken @ rest \<and> ends_phase MessageTypeAirlineDone taken = n)"
  using phase1_result [OF assms, of 0 n]
  by (auto simp: phase_result_def evolves_def split: outcome.splits)

theorem phase1_barrier_witness:
  "phase1 (vec_of [0]) 1 0 demo_state [PM_Type MessageTypeStep] \<noteq> Faults"
proof -
  have "conns_wf (vec_of [0]) 1"
    by (simp add: conns_wf_def upt_rec)
  then show ?thesis
    using phase1_barrier [of demo_state "vec_of [0]" 1 "[PM_Type MessageTypeStep]"] demo_wf(1)
    by (auto simp: demo_state_def)
qed

text \<open>
  When a write fails, \<open>comm_turn_step\<close> stops there: the airlines after the failing one
  are not told of the turn, and \<open>runMap\<close>, which ignores the result, waits for them.
\<close>

theorem comm_turn_step_write_failure:
  assumes "conns_wf conns n" "j < n" "ms_writes st = replicate j True @ False # rest"
  shows "\<exists>st'. comm_turn_step conns st = Some st' \<and>
    ms_sent st' = ms_sent st @ map (\<lambda>i. (i, MM_Type MessageTypeStep)) [0..<j]"
proof -
  let ?body = "\<lambda>i st. do {
      conn \<leftarrow> vec_deref conns (int i);
      let (ok, st') = transmit conn (MM_Type MessageTypeStep) st;
      Some (if ok then Next st' else Exit st')
    } :: (map_state, map_state) flow option"
  have loop: "\<exists>st'. for_loop k i ?body st = Some (Exit st') \<and>
      ms_sent st' = ms_sent st @ map (\<lambda>i. (i, MM_Type MessageTypeStep)) [i..<i + j]"
    if "i + k \<le> n" "j < k" "ms_writes st = replicate j True @ False # rest" for k i j st
    using that
  proof (induction k arbitrary: i j st)
    case (Suc k)
    have v: "vec_deref conns (int i) = Some i"
      using conns_deref [OF assms(1), of "int i"] Suc.prems(1) by simp
    show ?case
    proof (cases j)
      case 0
      then show ?thesis
        using Suc.prems(3) by (simp add: v transmit_def)
    next
      case (Suc j')
      let ?st = "st\<lparr>ms_writes := replicate j' True @ False # rest,
        ms_sent := ms_sent st @ [(i, MM_Type MessageTypeStep)]\<rparr>"
      have "transmit i (MM_Type MessageTypeStep) st = (True, ?st)"
        using Suc.prems(3) Suc by (simp add: transmit_def)
      moreover have up: "[i..<i + Suc j'] = i # [Suc i..<Suc i + j']"
        by (simp add: upt_conv_Cons)
      ultimately show ?thesis
        using Suc.IH [of "Suc i" j' ?st] Suc.prems(1,2) Suc up by (simp add: v del: upt_Suc)
    qed
  qed simp
  have "getVectorSize conns = n"
    using assms(1) by (simp add: conns_wf_def)
  then show ?thesis
    using loop [of 0 n j st] assms(2,3) by (auto simp: comm_turn_step_def send_all_def)
qed

theorem comm_turn_step_write_failure_witness:
  "\<exists>st'. comm_turn_step (vec_of [0..<3]) (demo_state\<lparr>ms_writes := [True, False]\<rparr>) = Some st' \<and>
    ms_sent st' = [(0, MM_Type MessageTypeStep)]"
proof -
  have "conns_wf (vec_of [0..<3]) 3"
    by (simp add: conns_wf_def)
  from comm_turn_step_write_failure [OF this, of 1 "demo_state\<lparr>ms_writes := [True, False]\<rparr>" "[]"] show ?thesis
    by (simp add: demo_state_def)
qed

section \<open>The planes\<close>

definition demo_thread :: "int \<Rightarrow> Message list \<Rightarrow> plane_thread" where
  "demo_thread d inbox = \<lparr>pt_plane = \<lparr>plane_id = 3, plane_stocks = vec_of [demo_stock 0 10], plane_cityId = 0,
       plane_distance = d\<rparr>, pt_airline = 0, pt_done = False, pt_inbox = inbox, pt_peeks = [], pt_writes = [],
     pt_allocs = [], pt_sent = [], pt_ready = 0\<rparr>"

text \<open>
  C19. A plane that unloads sends one request with its stocks, keeps of each stock what the
  answer says, and is done exactly when nothing is left (or it was before).
\<close>

theorem unload_stock_answer:
  assumes "plane_stocks (pt_plane st) = vec_of ss" "list_all stock_wf ss" "length ss \<le> MAX_STOCKS"
    and "pt_inbox st = stock_reply as # rest" "length as = length ss" "\<And>a. a \<in> set as \<Longrightarrow> 0 \<le> a"
    and "pt_allocs st = []" "pt_writes st = []"
  shows "\<exists>st'. unload_stock st = Returns (Next (0, st')) \<and>
    plane_stocks (pt_plane st') = vec_of (with_amounts ss as) \<and>
    pt_sent st' = pt_sent st @ [PM_StockState (unload_request st)] \<and> pt_inbox st' = rest \<and>
    (pt_done st' \<longleftrightarrow> pt_done st \<or> (\<forall>a \<in> set as. a = 0))"
  using unload_stock_reply [OF assms] by (auto simp: list_all_iff)

theorem unload_stock_answer_witness:
  "\<exists>st'. unload_stock (demo_thread 0 [stock_reply [4]]) = Returns (Next (0, st')) \<and>
    plane_stocks (pt_plane st') = vec_of [demo_stock 0 4] \<and> \<not> pt_done st'"
  using unload_stock_answer [of "demo_thread 0 [stock_reply [4]]" "[demo_stock 0 10]" "[4]" "[]"] demo_known [of 10]
  by (auto simp: demo_thread_def stocks_known_def MAX_STOCKS_def with_amounts_def demo_stock_def)

text \<open>
  A plane that is under way plays a turn without talking to the map: it reports ready in
  both phases, keeps its stocks and its destination, and is one unit of distance closer.
\<close>

theorem plane_turn_one_closer:
  assumes "pt_inbox st = phase_message MessageTypeContinue # rest" "\<not> pt_done st"
    and "plane_distance (pt_plane st) = d" "0 < d" "in_int d"
    and "rest \<noteq> [] \<Longrightarrow> msg_type (hd rest) \<noteq> MessageTypeEnd"
  shows "\<exists>st'. plane_turn st = Returns (Next (False, st')) \<and>
    pt_plane st' = (pt_plane st)\<lparr>plane_distance := d - 1\<rparr> \<and> pt_inbox st' = rest \<and> \<not> pt_done st' \<and>
    pt_sent st' = pt_sent st \<and> pt_ready st' = pt_ready st + 2"
  by (rule plane_turn_flying [OF assms])

theorem plane_turn_one_closer_witness:
  "\<exists>st'. plane_turn (demo_thread 7 [phase_message MessageTypeContinue]) = Returns (Next (False, st')) \<and>
    plane_distance (pt_plane st') = 6 \<and> pt_ready st' = 2"
  using plane_turn_one_closer [of "demo_thread 7 [phase_message MessageTypeContinue]" "[]" 7]
  by (auto simp: demo_thread_def in_int_def INT_MIN_def INT_MAX_def)

text \<open>
  An end message at the head of the queue, once it has arrived, stops the plane at its
  next action: it sends nothing and does not report ready.
\<close>

theorem plane_turn_ends:
  assumes "pt_inbox st = m # ms" "msg_type m = MessageTypeEnd" "fst (alloc (pt_peeks st))"
  shows "\<exists>st'. plane_turn st = Returns (Exit st') \<and> pt_sent st' = pt_sent st \<and> pt_ready st' = pt_ready st \<and>
    pt_plane st' = pt_plane st"
proof -
  have e: "SafeAction block st = Returns (Exit (peeked st))" for block :: "'a thread_op"
    by (rule SafeAction_ends [OF assms(1-3)])
  show ?thesis
  proof (cases "plane_distance (pt_plane st) = 0")
    case True
    then show ?thesis
      by (simp add: plane_turn_def SafeExit_def e)
  next
    case False
    then show ?thesis
      by (simp add: plane_turn_def e)
  qed
qed

theorem plane_turn_ends_witness:
  "\<exists>st'. plane_turn (demo_thread 0 [phase_message MessageTypeEnd]) = Returns (Exit st') \<and> pt_sent st' = []"
  using plane_turn_ends [of "demo_thread 0 [phase_message MessageTypeEnd]" "phase_message MessageTypeEnd" "[]"]
  by (auto simp: demo_thread_def)

text \<open>
  The loop of \<open>run_plane\<close> takes a message in every turn, so it cannot go on for more turns
  than messages arrive; when it returns, the plane is marked done.
\<close>

theorem run_plane_returns_done:
  assumes "length (pt_inbox st) < n" "run_plane n st = Returns (Next (b, st'))"
  shows "b \<and> pt_done st'"
  by (rule run_plane_enough_turns [OF assms])

theorem run_plane_returns_done_witness:
  "\<exists>st'. run_plane 2 (demo_thread 0 [phase_message MessageTypeEnd]) = Returns (Next (True, st')) \<and> pt_done st'"
proof -
  let ?st = "demo_thread 0 [phase_message MessageTypeEnd]"
  have r: "run_plane 2 ?st = Returns (Next (True, ?st\<lparr>pt_inbox := [], pt_done := True\<rparr>))"
    by (simp add: numeral_2_eq_2 demo_thread_def comm_step_def and_then_def pop_message_def)
  have "length (pt_inbox ?st) < 2"
    by (simp add: demo_thread_def)
  from run_plane_returns_done [OF this r] r show ?thesis
    by blast
qed

section \<open>The airlines\<close>

text \<open>
  Starting a phase: the listener counts the planes that are not done. If there are any,
  exactly these get the phase message, and the counter is their number; if there are none,
  the airline reports to the map at once.
\<close>

theorem start_phase_effect:
  assumes "airline_wf st"
  shows "\<exists>st'. start_phase msg st = Some st' \<and> al_planesLeft st' = int (flying (slots st)) \<and>
    map sl_done (slots st') = map sl_done (slots st) \<and>
    al_sent st' = al_sent st @ (if flying (slots st) = 0 then [ready_message st] else []) \<and>
    map sl_pushed (slots st') =
      map (\<lambda>t. if sl_done t then sl_pushed t else sl_pushed t @ [msg]) (slots st)"
proof -
  have "map (\<lambda>t. if sl_done t then sl_pushed t else sl_pushed t @ [msg]) (slots st) = map sl_pushed (slots st)"
    if "flying (slots st) = 0"
    using that by (auto simp: flying_def filter_empty_conv)
  then show ?thesis
    by (simp add: start_phase_wf [OF assms] comp_def notify_def push_slot_def)
qed

definition demo_airline :: "bool list \<Rightarrow> airline_state" where
  "demo_airline done = \<lparr>al_id = 0, al_numberOfPlanes = length done,
     al_threads = vec_of (map (\<lambda>b. \<lparr>sl_done = b, sl_pushed = []\<rparr>) done), al_planesLeft = 0, al_stage = 0, al_sent = []\<rparr>"

theorem start_phase_effect_witness:
  "\<exists>st'. start_phase (phase_message MessageTypeStep) (demo_airline [True, False]) = Some st' \<and>
    al_planesLeft st' = 1 \<and> map sl_pushed (slots st') = [[], [phase_message MessageTypeStep]] \<and> al_sent st' = []"
  using start_phase_effect [of "demo_airline [True, False]" "phase_message MessageTypeStep"]
  by (auto simp: demo_airline_def airline_wf_def)

text \<open>
  C11. The barrier of an airline, under any interleaving of its listener and its planes: the
  counter \<open>planesLeftInStage\<close> is the number of planes that have not reported, there is
  exactly one message to the map per phase, and it is sent exactly when the last plane has
  reported.
\<close>

theorem barrier_one_report_per_phase:
  assumes "barrier_reach k n B" "n < 2147483647"
  shows "al_planesLeft (br_airline B) = int (busy_count (br_busy B)) \<and>
    (length (al_sent (br_airline B)) = br_phases B \<longleftrightarrow> True \<notin> set (br_busy B)) \<and>
    (Suc (length (al_sent (br_airline B))) = br_phases B \<longleftrightarrow> True \<in> set (br_busy B))"
proof -
  have "busy_count bs = 0 \<longleftrightarrow> True \<notin> set bs" for bs
    by (induction bs) auto
  then show ?thesis
    using barrier_inv_reach [OF assms] by (auto simp: barrier_inv_def split: if_splits)
qed

lemma demo_barrier:
  "\<exists>B. barrier_reach 0 2 B \<and> br_busy B = [True, True]"
proof -
  have wf: "airline_wf (br_airline (barrier_init 0 2)\<lparr>al_stage := 0\<rparr>)"
    by (simp add: barrier_init_def airline_wf_def)
  obtain st' where "start_phase (phase_message MessageTypeStep) (br_airline (barrier_init 0 2)\<lparr>al_stage := 0\<rparr>) = Some st'"
    using start_phase_wf [OF wf] by blast
  then have "listen_one (MM_Type MessageTypeStep) (br_airline (barrier_init 0 2)) = Some (Next st')"
    by (simp add: listen_one_phase)
  then have "barrier_step (barrier_init 0 2) \<lparr>br_airline = st',
      br_busy = map (\<lambda>t. \<not> sl_done t) (slots (br_airline (barrier_init 0 2))),
      br_phases = Suc (br_phases (barrier_init 0 2))\<rparr>"
    by (intro barrier_step.phase [where t = MessageTypeStep]) (simp_all add: barrier_init_def)
  show ?thesis
    by (rule exI, rule conjI [OF barrier_next [OF barrier_start \<open>barrier_step _ _\<close>]])
      (simp add: barrier_init_def numeral_2_eq_2)
qed

theorem barrier_one_report_per_phase_witness:
  "\<exists>B. barrier_reach 0 2 B \<and> br_busy B = [True, True] \<and> al_planesLeft (br_airline B) = 2 \<and>
    Suc (length (al_sent (br_airline B))) = br_phases B"
proof -
  obtain B where "barrier_reach 0 2 B" "br_busy B = [True, True]"
    using demo_barrier by blast
  with barrier_one_report_per_phase [OF this(1)] show ?thesis
    by auto
qed

end
