(* ===== verification/Scanner.thy ===== *)
theory Scanner
  imports C_Prelude
begin

text \<open>
  \<open>fscanf\<close> as \<open>parser.c\<close> uses it: a stream is the list of characters that are still to be
  read, a format a list of directives. \<open>%s\<close> carries the size of the buffer it stores into;
  a longer word is written past the buffer, and a number that does not fit its type is
  undefined too. The result is what \<open>fscanf\<close> returns, the values it stored and the rest of
  the stream.

  The lemmas describe a call by the words of its stream, \<open>tokens\<close>, so that nothing below
  depends on the layout of a file.
\<close>

section \<open>Characters and words\<close>

definition isspace :: "char \<Rightarrow> bool" where
  "isspace c \<longleftrightarrow> (of_char c :: nat) \<in> {9, 10, 11, 12, 13, 32}"

definition is_digit :: "char \<Rightarrow> bool" where
  "is_digit c \<longleftrightarrow> 48 \<le> (of_char c :: nat) \<and> (of_char c :: nat) \<le> 57"

definition digit_val :: "char \<Rightarrow> nat" where
  "digit_val c = of_char c - 48"

definition digits_val :: "string \<Rightarrow> nat" where
  "digits_val ds = fold (\<lambda>c v. 10 * v + digit_val c) ds 0"

definition skip_space :: "string \<Rightarrow> string" where
  "skip_space s = dropWhile isspace s"

text \<open>The words of a text, separated by white space of any kind.\<close>

function tokens :: "string \<Rightarrow> string list" where
  "tokens s =
     (case skip_space s of
        [] \<Rightarrow> []
      | c # cs \<Rightarrow> takeWhile (\<lambda>c. \<not> isspace c) (c # cs) # tokens (dropWhile (\<lambda>c. \<not> isspace c) (c # cs)))"
  by pat_completeness auto
termination
proof (relation "measure length")
  fix s c cs
  assume s: "skip_space s = c # cs"
  then have "\<not> isspace c" "length (c # cs) \<le> length s"
    by (metis skip_space_def hd_dropWhile list.distinct(1) list.sel(1))
       (metis s skip_space_def length_dropWhile_le)
  then have "length (dropWhile (\<lambda>c. \<not> isspace c) (c # cs)) < length s"
    using length_dropWhile_le [of "\<lambda>c. \<not> isspace c" cs] by simp
  then show "(dropWhile (\<lambda>c. \<not> isspace c) (c # cs), s) \<in> measure length"
    by simp
qed simp

declare tokens.simps [simp del]

section \<open>Conversions\<close>

text \<open>
  A conversion finds the end of the stream, does not match (what it looked at is gone, the
  character it stopped at is not), or yields a value.
\<close>

datatype 'a scan = EndOfInput | NoMatch string | Got 'a string

definition scan_s :: "string \<Rightarrow> string scan" where
  "scan_s s =
     (case skip_space s of
        [] \<Rightarrow> EndOfInput
      | c # cs \<Rightarrow> Got (takeWhile (\<lambda>c. \<not> isspace c) (c # cs)) (dropWhile (\<lambda>c. \<not> isspace c) (c # cs)))"

definition split_sign :: "string \<Rightarrow> bool \<times> string" where
  "split_sign s =
     (case s of
        [] \<Rightarrow> (False, [])
      | c # cs \<Rightarrow> if c = CHR ''-'' then (True, cs) else if c = CHR ''+'' then (False, cs) else (False, c # cs))"

definition scan_d :: "string \<Rightarrow> int scan" where
  "scan_d s =
     (case skip_space s of
        [] \<Rightarrow> EndOfInput
      | c # cs \<Rightarrow>
          (let (neg, ds) = split_sign (c # cs);
               digits = takeWhile is_digit ds;
               v = int (digits_val digits)
           in if digits = [] then NoMatch ds
              else Got (if neg then - v else v) (dropWhile is_digit ds)))"

section \<open>Formats\<close>

datatype directive = D_space | D_s nat | D_d | D_u

datatype scanned = Str string | Num int

text \<open>\<open>%u\<close> takes a number modulo the width of \<open>unsigned int\<close> when it is negative.\<close>

definition to_unsigned :: "int \<Rightarrow> int option" where
  "to_unsigned v = (if - 4294967296 < v \<and> v < 4294967296 then Some (v mod 4294967296) else None)"

text \<open>
  The directives from the one on that is to be done, after \<open>n\<close> values have been stored. The
  end of the stream before the first value makes the result \<open>EOF\<close>.
\<close>

fun fscanf_from :: "nat \<Rightarrow> directive list \<Rightarrow> string \<Rightarrow> (int \<times> scanned list \<times> string) option" where
  "fscanf_from n [] s = Some (int n, [], s)"
| "fscanf_from n (D_space # ds) s = fscanf_from n ds (skip_space s)"
| "fscanf_from n (D_s k # ds) s =
     (case scan_s s of
        EndOfInput \<Rightarrow> Some (if n = 0 then - 1 else int n, [], [])
      | NoMatch s' \<Rightarrow> Some (int n, [], s')
      | Got w s' \<Rightarrow>
          if length w < k then map_option (\<lambda>(r, vs, s''). (r, Str w # vs, s'')) (fscanf_from (Suc n) ds s')
          else None)"
| "fscanf_from n (D_d # ds) s =
     (case scan_d s of
        EndOfInput \<Rightarrow> Some (if n = 0 then - 1 else int n, [], [])
      | NoMatch s' \<Rightarrow> Some (int n, [], s')
      | Got v s' \<Rightarrow>
          if in_int v then map_option (\<lambda>(r, vs, s''). (r, Num v # vs, s'')) (fscanf_from (Suc n) ds s')
          else None)"
| "fscanf_from n (D_u # ds) s =
     (case scan_d s of
        EndOfInput \<Rightarrow> Some (if n = 0 then - 1 else int n, [], [])
      | NoMatch s' \<Rightarrow> Some (int n, [], s')
      | Got v s' \<Rightarrow>
          (case to_unsigned v of
             None \<Rightarrow> None
           | Some u \<Rightarrow> map_option (\<lambda>(r, vs, s''). (r, Num u # vs, s'')) (fscanf_from (Suc n) ds s')))"

definition fscanf :: "directive list \<Rightarrow> string \<Rightarrow> (int \<times> scanned list \<times> string) option" where
  "fscanf ds s = fscanf_from 0 ds s"

section \<open>Printed numbers\<close>

fun decimal :: "nat \<Rightarrow> string" where
  "decimal n = (if n < 10 then [char_of (48 + n)] else decimal (n div 10) @ [char_of (48 + n mod 10)])"

declare decimal.simps [simp del]

definition print_int :: "int \<Rightarrow> string" where
  "print_int v = (if v < 0 then CHR ''-'' # decimal (nat (- v)) else decimal (nat v))"

lemma digit_char [simp]:
  assumes "d < 10"
  shows "is_digit (char_of (48 + d))" "digit_val (char_of (48 + d)) = d"
  using assms by (simp_all add: is_digit_def digit_val_def)

lemma digit_not_space: "is_digit c \<Longrightarrow> \<not> isspace c"
  by (auto simp: is_digit_def isspace_def)

lemma digits_val_snoc: "digits_val (ds @ [c]) = 10 * digits_val ds + digit_val c"
  by (simp add: digits_val_def)

lemma decimal_digits: "decimal n \<noteq> [] \<and> list_all is_digit (decimal n) \<and> digits_val (decimal n) = n"
proof (induction n rule: decimal.induct)
  case (1 n)
  show ?case
  proof (cases "n < 10")
    case True
    then show ?thesis
      by (simp add: decimal.simps [of n] digits_val_def)
  next
    case False
    then show ?thesis
      using 1 by (simp add: decimal.simps [of n] digits_val_snoc)
  qed
qed

section \<open>Reading word by word\<close>

definition word_ok :: "string \<Rightarrow> bool" where
  "word_ok w \<longleftrightarrow> w \<noteq> [] \<and> list_all (\<lambda>c. \<not> isspace c) w"

text \<open>A word at which a number cannot start.\<close>

definition not_numeric :: "string \<Rightarrow> bool" where
  "not_numeric w \<longleftrightarrow> \<not> is_digit (hd w) \<and> hd w \<noteq> CHR ''-'' \<and> hd w \<noteq> CHR ''+''"

definition separated :: "string \<Rightarrow> bool" where
  "separated s \<longleftrightarrow> s = [] \<or> isspace (hd s)"

lemma tokens_Nil: "tokens s = [] \<longleftrightarrow> skip_space s = []"
  by (simp add: tokens.simps [of s] split: list.split)

lemma skip_space_idem [simp]: "skip_space (skip_space s) = skip_space s"
  by (simp add: skip_space_def)

lemma tokens_skip [simp]: "tokens (skip_space s) = tokens s"
  by (simp add: tokens.simps [of s] tokens.simps [of "skip_space s"])

lemma tokens_empty [simp]: "tokens [] = []"
  by (simp add: tokens_Nil skip_space_def)

lemma dropWhile_separated: "separated (dropWhile (\<lambda>c. \<not> isspace c) s)"
  unfolding separated_def by (metis hd_dropWhile)

lemma tokens_ConsE:
  assumes "tokens s = w # ws"
  obtains s' where "skip_space s = w @ s'" "word_ok w" "separated s'" "tokens s' = ws"
    "takeWhile (\<lambda>c. \<not> isspace c) (w @ s') = w" "dropWhile (\<lambda>c. \<not> isspace c) (w @ s') = s'"
proof -
  obtain c cs where c: "skip_space s = c # cs"
    using assms by (auto simp: tokens.simps [of s] split: list.splits)
  let ?r = "dropWhile (\<lambda>c. \<not> isspace c) (c # cs)"
  have w: "w = takeWhile (\<lambda>c. \<not> isspace c) (c # cs)" and ws: "tokens ?r = ws"
    using assms c by (auto simp: tokens.simps [of s])
  have split: "w @ ?r = c # cs"
    by (simp only: w takeWhile_dropWhile_id)
  have "\<not> isspace c"
    using c by (metis skip_space_def hd_dropWhile list.distinct(1) list.sel(1))
  then have "word_ok w"
    unfolding word_ok_def w list_all_iff by (auto dest: set_takeWhileD)
  then show thesis
    using that [of ?r] split w ws c dropWhile_separated by metis
qed

lemma scan_s_word:
  assumes "tokens s = w # ws"
  obtains s' where "scan_s s = Got w s'" "tokens s' = ws"
proof -
  obtain s' where s': "skip_space s = w @ s'" "tokens s' = ws" "word_ok w"
    "takeWhile (\<lambda>c. \<not> isspace c) (w @ s') = w" "dropWhile (\<lambda>c. \<not> isspace c) (w @ s') = s'"
    using assms by (rule tokens_ConsE)
  then obtain c cs where "w @ s' = c # cs"
    by (cases w) (auto simp: word_ok_def)
  with s' show thesis
    by (intro that [of s']) (simp_all add: scan_s_def)
qed

lemma scan_end: "tokens s = [] \<Longrightarrow> scan_s s = EndOfInput" "tokens s = [] \<Longrightarrow> scan_d s = EndOfInput"
  by (simp_all add: tokens_Nil scan_s_def scan_d_def)

lemma takeWhile_digits:
  assumes "list_all is_digit ds" "separated s"
  shows "takeWhile is_digit (ds @ s) = ds" "dropWhile is_digit (ds @ s) = s"
proof -
  have "takeWhile is_digit s = []" "dropWhile is_digit s = s"
    using assms(2) digit_not_space by (cases s; auto simp: separated_def)+
  then show "takeWhile is_digit (ds @ s) = ds" "dropWhile is_digit (ds @ s) = s"
    using assms(1) by (simp_all add: list_all_iff)
qed

lemma digit_not_sign: "is_digit c \<Longrightarrow> c \<noteq> CHR ''-'' \<and> c \<noteq> CHR ''+''"
  by (auto simp: is_digit_def)

lemma split_sign_print:
  "split_sign (print_int v @ s) = (v < 0, decimal (nat \<bar>v\<bar>) @ s)"
proof (cases "v < 0")
  case False
  have d: "decimal (nat v) \<noteq> []" "list_all is_digit (decimal (nat v))"
    using decimal_digits by auto
  then obtain c cs where "decimal (nat v) = c # cs" "is_digit c"
    by (cases "decimal (nat v)") auto
  then show ?thesis
    using False digit_not_sign [of c] by (simp add: print_int_def split_sign_def)
qed (simp add: print_int_def split_sign_def)

lemma scan_d_number:
  assumes "tokens s = print_int v # ws"
  obtains s' where "scan_d s = Got v s'" "tokens s' = ws"
proof -
  obtain s' where s': "skip_space s = print_int v @ s'" "tokens s' = ws" "separated s'" "word_ok (print_int v)"
    using assms by (rule tokens_ConsE)
  obtain c cs where c: "print_int v @ s' = c # cs"
    using s'(4) by (cases "print_int v") (auto simp: word_ok_def)
  note d = decimal_digits [of "nat \<bar>v\<bar>"]
  have "split_sign (c # cs) = (v < 0, decimal (nat \<bar>v\<bar>) @ s')"
    using split_sign_print [of v s'] by (simp add: c)
  then have "scan_d s = Got v s'"
    using d takeWhile_digits [OF conjunct1 [OF conjunct2 [OF d]] s'(3)] s'(1) c
    by (cases "v < 0") (simp_all add: scan_d_def)
  then show thesis
    using s'(2) by (rule that)
qed

lemma scan_d_no_number:
  assumes "tokens s = w # ws" "not_numeric w"
  obtains s' where "scan_d s = NoMatch s'" "tokens s' = w # ws"
proof -
  obtain s' where s': "skip_space s = w @ s'" "word_ok w"
    using assms(1) by (rule tokens_ConsE)
  obtain c cs where c: "w = c # cs"
    using s'(2) by (cases w) (auto simp: word_ok_def)
  have "scan_d s = NoMatch (w @ s')"
    using assms(2) s'(1) by (simp add: scan_d_def split_sign_def not_numeric_def c)
  moreover have "tokens (w @ s') = w # ws"
    using assms(1) s'(1) tokens_skip by metis
  ultimately show thesis
    by (rule that)
qed

section \<open>The formats of the parser\<close>

definition fmt_count :: "directive list" where   \<comment> \<open>\<open>"%d\n\n"\<close>\<close>
  "fmt_count = [D_d, D_space, D_space]"

definition fmt_name :: "nat \<Rightarrow> directive list" where   \<comment> \<open>\<open>"%s\n"\<close>\<close>
  "fmt_name k = [D_s k, D_space]"

definition fmt_pair :: "nat \<Rightarrow> directive list" where   \<comment> \<open>\<open>"%s %d\n"\<close>\<close>
  "fmt_pair k = [D_s k, D_space, D_d, D_space]"

definition fmt_road :: "nat \<Rightarrow> directive list" where   \<comment> \<open>\<open>"%s %s %d\n"\<close>\<close>
  "fmt_road k = [D_s k, D_space, D_s k, D_space, D_d, D_space]"

definition fmt_planes :: "directive list" where   \<comment> \<open>\<open>"%u"\<close>\<close>
  "fmt_planes = [D_u]"

lemmas formats = fscanf_def fmt_count_def fmt_name_def fmt_pair_def fmt_road_def fmt_planes_def

lemma fscanf_count:
  assumes "tokens s = print_int v # ws" "in_int v"
  obtains s' where "fscanf fmt_count s = Some (1, [Num v], s')" "tokens s' = ws"
proof -
  obtain s' where "scan_d s = Got v s'" "tokens s' = ws"
    using assms(1) by (rule scan_d_number)
  then show thesis
    using assms(2) by (intro that [of "skip_space s'"]) (simp_all add: formats)
qed

lemma fscanf_name:
  assumes "tokens s = w # ws" "length w < k"
  obtains s' where "fscanf (fmt_name k) s = Some (1, [Str w], s')" "tokens s' = ws"
proof -
  obtain s' where "scan_s s = Got w s'" "tokens s' = ws"
    using assms(1) by (rule scan_s_word)
  then show thesis
    using assms(2) by (intro that [of "skip_space s'"]) (simp_all add: formats)
qed

lemma fscanf_pair:
  assumes "tokens s = w # print_int v # ws" "length w < k" "in_int v"
  obtains s' where "fscanf (fmt_pair k) s = Some (2, [Str w, Num v], s')" "tokens s' = ws"
proof -
  obtain s1 where s1: "scan_s s = Got w s1" "tokens s1 = print_int v # ws"
    using assms(1) by (rule scan_s_word)
  obtain s2 where "scan_d (skip_space s1) = Got v s2" "tokens s2 = ws"
    using s1(2) by (metis tokens_skip scan_d_number)
  then show thesis
    using assms(2,3) s1(1) by (intro that [of "skip_space s2"]) (simp_all add: formats)
qed

lemma fscanf_pair_word:
  assumes "tokens s = w # x # ws" "length w < k" "not_numeric x"
  obtains s' where "fscanf (fmt_pair k) s = Some (1, [Str w], s')" "tokens s' = x # ws"
proof -
  obtain s1 where s1: "scan_s s = Got w s1" "tokens s1 = x # ws"
    using assms(1) by (rule scan_s_word)
  obtain s2 where "scan_d (skip_space s1) = NoMatch s2" "tokens s2 = x # ws"
    using s1(2) assms(3) by (metis tokens_skip scan_d_no_number)
  then show thesis
    using assms(2) s1(1) by (intro that [of s2]) (simp_all add: formats)
qed

lemma fscanf_pair_end: "tokens s = [] \<Longrightarrow> fscanf (fmt_pair k) s = Some (- 1, [], [])"
  by (simp add: formats scan_end)

lemma fscanf_road:
  assumes "tokens s = a # b # print_int d # ws" "length a < k" "length b < k" "in_int d"
  obtains s' where "fscanf (fmt_road k) s = Some (3, [Str a, Str b, Num d], s')" "tokens s' = ws"
proof -
  obtain s1 where s1: "scan_s s = Got a s1" "tokens s1 = b # print_int d # ws"
    using assms(1) by (rule scan_s_word)
  obtain s2 where s2: "scan_s (skip_space s1) = Got b s2" "tokens s2 = print_int d # ws"
    using s1(2) by (metis tokens_skip scan_s_word)
  obtain s3 where "scan_d (skip_space s2) = Got d s3" "tokens s3 = ws"
    using s2(2) by (metis tokens_skip scan_d_number)
  then show thesis
    using assms(2-4) s1(1) s2(1) by (intro that [of "skip_space s3"]) (simp_all add: formats)
qed

lemma fscanf_road_end: "tokens s = [] \<Longrightarrow> fscanf (fmt_road k) s = Some (- 1, [], [])"
  by (simp add: formats scan_end)

lemma fscanf_planes:
  assumes "tokens s = print_int (int n) # ws" "n < 4294967296"
  obtains s' where "fscanf fmt_planes s = Some (1, [Num (int n)], s')" "tokens s' = ws"
proof -
  obtain s' where "scan_d s = Got (int n) s'" "tokens s' = ws"
    using assms(1) by (rule scan_d_number)
  then show thesis
    using assms(2) by (intro that [of s']) (simp_all add: formats to_unsigned_def)
qed

text \<open>A call that stores something has taken characters from the stream.\<close>

lemma skip_space_le: "length (skip_space s) \<le> length s"
  by (simp add: skip_space_def length_dropWhile_le)

lemma scan_s_shorter: "scan_s s = Got w s' \<Longrightarrow> length s' < length s"
proof -
  assume "scan_s s = Got w s'"
  then obtain c cs where c: "skip_space s = c # cs" and s': "s' = dropWhile (\<lambda>c. \<not> isspace c) (c # cs)"
    by (auto simp: scan_s_def split: list.splits)
  have "\<not> isspace c"
    using c by (metis skip_space_def hd_dropWhile list.distinct(1) list.sel(1))
  then have "length s' \<le> length cs"
    using length_dropWhile_le [of "\<lambda>c. \<not> isspace c" cs] by (simp add: s')
  with skip_space_le [of s] c show ?thesis
    by simp
qed

lemma scan_d_le: "scan_d s = Got v s' \<or> scan_d s = NoMatch s' \<Longrightarrow> length s' \<le> length s"
proof -
  have sign: "length (snd (split_sign t)) \<le> length t" for t
    by (auto simp: split_sign_def split: list.split)
  assume "scan_d s = Got v s' \<or> scan_d s = NoMatch s'"
  then have "length s' \<le> length (snd (split_sign (skip_space s)))"
    by (auto simp: scan_d_def Let_def length_dropWhile_le split: list.splits prod.splits if_splits)
  with sign [of "skip_space s"] skip_space_le [of s] show ?thesis
    by linarith
qed

lemma fscanf_from_le: "fscanf_from n ds s = Some (r, vs, s') \<Longrightarrow> length s' \<le> length s"
proof (induction n ds s arbitrary: r vs s' rule: fscanf_from.induct)
  case (2 n ds s)
  then show ?case
    using skip_space_le [of s] by fastforce
next
  case (3 n k ds s)
  then show ?case
    using scan_s_shorter [of s] by (fastforce split: scan.splits if_splits simp: scan_s_def split: list.splits)
next
  case (4 n ds s)
  then show ?case
    using scan_d_le [of s] by (fastforce split: scan.splits if_splits)
next
  case (5 n ds s)
  then show ?case
    using scan_d_le [of s] by (fastforce split: scan.splits if_splits option.splits)
qed simp

lemma fscanf_shorter:
  assumes "fscanf (D_s k # ds) s = Some (r, vs, s')" "0 < r"
  shows "length s' < length s"
proof -
  have "\<exists>w s1 vs'. scan_s s = Got w s1 \<and> fscanf_from 1 ds s1 = Some (r, vs', s')"
    using assms by (auto simp: fscanf_def scan_s_def split: list.splits if_splits)
  then show ?thesis
    using scan_s_shorter fscanf_from_le by (metis le_less_trans)
qed

end
