(* ===== verification/Parser.thy ===== *)
theory Parser
  imports Scanner Models Floyd
begin

text \<open>
  \<open>parseMap\<close> and \<open>parseAirlines\<close> of \<open>parser.c\<close>.

  A file is its text, or \<^const>\<open>None\<close> when \<open>fopen\<close> fails. A function that returns NULL is
  \<^term>\<open>Some None\<close>; reading a variable or a city name that was never assigned is undefined.
  Two pointers the code stores without looking at them count as undefined at once: a NULL
  from \<open>createVector\<close> as a vector of stocks, and a city or plane whose name was never read.
\<close>

section \<open>Stocks\<close>

text \<open>
  The loop that reads lines \<open>"product amount"\<close>, the same in both functions. It hands on the
  variables \<open>buffer\<close> and \<open>aux\<close>, the result of the last \<open>fscanf\<close> and the rest of the file.
\<close>

definition stored_word :: "scanned list \<Rightarrow> string option \<Rightarrow> string option" where
  "stored_word vals old = (case vals of Str w # _ \<Rightarrow> Some w | _ \<Rightarrow> old)"

definition stored_int :: "scanned list \<Rightarrow> int option \<Rightarrow> int option" where
  "stored_int vals old = (case rev vals of Num v # _ \<Rightarrow> Some v | _ \<Rightarrow> old)"

record stocks_read =
  sr_state :: int
  sr_vec :: "stock vector"
  sr_products :: "product vector"
  sr_buffer :: "string option"
  sr_aux :: "int option"
  sr_text :: string
  sr_allocs :: mallocs

function read_stocks :: "mallocs \<Rightarrow> string \<Rightarrow> product vector \<Rightarrow> stock vector \<Rightarrow> string option \<Rightarrow> int option \<Rightarrow>
  (unit, stocks_read) flow option" where
  "read_stocks al text products vec buffer aux =
     (case fscanf (fmt_pair CITY_NAME_MAX_LENGTH) text of
        None \<Rightarrow> None
      | Some (state, vals, text') \<Rightarrow>
          let buffer' = stored_word vals buffer;
              aux' = stored_int vals aux
          in if state = 2 then
               (case (buffer', aux') of
                  (Some name, Some amount) \<Rightarrow>
                    (case initStock al name amount products of
                       None \<Rightarrow> None
                     | Some (None, _, _) \<Rightarrow> Some (Exit ())
                     | Some (Some s, products', al1) \<Rightarrow>
                         (case addToVector al1 vec s of
                            None \<Rightarrow> None
                          | Some (_, vec', al2) \<Rightarrow> read_stocks al2 text' products' vec' buffer' aux'))
                | _ \<Rightarrow> None)
             else
               Some (Next \<lparr>sr_state = state, sr_vec = vec, sr_products = products, sr_buffer = buffer',
                 sr_aux = aux', sr_text = text', sr_allocs = al\<rparr>))"
  by pat_completeness auto
termination
proof (relation "measure (\<lambda>(al, text, _). length text)")
  show "wf (measure (\<lambda>(al, text, _). length text))"
    by simp
qed (auto simp: fmt_pair_def dest: fscanf_shorter)

declare read_stocks.simps [simp del]

section \<open>Cities\<close>

record parse_state =
  ps_text :: string
  ps_allocs :: mallocs
  ps_first :: bool   \<comment> \<open>\<open>flag == FIRST\<close>\<close>
  ps_names :: "string arr"   \<comment> \<open>\<open>cities[i]->name\<close>\<close>
  ps_buffer :: "string option"
  ps_aux :: "int option"
  ps_cities :: "city vector"
  ps_products :: "product vector"

text \<open>The name of city \<open>i\<close>, unless the stocks of the city before it ended with it.\<close>

definition read_name :: "nat \<Rightarrow> parse_state \<Rightarrow> (unit, parse_state) flow option" where
  "read_name i st =
     (if ps_first st then do {
        let (ok, al) = alloc (ps_allocs st);
        if \<not> ok then Some (Exit ())
        else do {
          (_, vals, text') \<leftarrow> fscanf (fmt_name CITY_NAME_MAX_LENGTH) (ps_text st);
          names \<leftarrow> (case stored_word vals None of Some w \<Rightarrow> arr_set (ps_names st) i w | None \<Rightarrow> Some (ps_names st));
          Some (Next (st\<lparr>ps_allocs := al, ps_text := text', ps_names := names\<rparr>))
        }
      } else Some (Next st))"

text \<open>\<open>state == 1\<close>: the word after the last stock is the name of the next city, if there is one.\<close>

definition keep_name :: "nat \<Rightarrow> nat \<Rightarrow> parse_state \<Rightarrow> (unit, parse_state) flow option" where
  "keep_name counter i st =
     (if i + 1 \<noteq> counter then do {
        let (ok, al) = alloc (ps_allocs st);
        if \<not> ok then Some (Exit ())
        else do {
          w \<leftarrow> ps_buffer st;
          names \<leftarrow> arr_set (ps_names st) (i + 1) w;
          Some (Next (st\<lparr>ps_first := False, ps_allocs := al, ps_names := names, ps_buffer := Some []\<rparr>))
        }
      } else Some (Next (st\<lparr>ps_first := False\<rparr>)))"

text \<open>\<open>addToVector(ans->cities, cities[i])\<close>.\<close>

definition add_city :: "nat \<Rightarrow> stock vector \<Rightarrow> parse_state \<Rightarrow> (unit, parse_state) flow option" where
  "add_city i vec st = do {
     name \<leftarrow> arr_get (ps_names st) i;
     (k, cities, al) \<leftarrow> addToVector (ps_allocs st) (ps_cities st)
       \<lparr>city_name = name, city_id = int i, city_stock = vec\<rparr>;
     Some (if k = - 1 then Exit () else Next (st\<lparr>ps_cities := cities, ps_allocs := al\<rparr>))
   }"

text \<open>One step after another, as long as none of them returns.\<close>

definition and_next :: "(unit, 'a) flow option \<Rightarrow> ('a \<Rightarrow> (unit, 'b) flow option) \<Rightarrow> (unit, 'b) flow option" where
  "and_next m f =
     (case m of None \<Rightarrow> None | Some (Exit _) \<Rightarrow> Some (Exit ()) | Some (Next s) \<Rightarrow> f s)"

definition parse_city :: "nat \<Rightarrow> nat \<Rightarrow> parse_state \<Rightarrow> (unit, parse_state) flow option" where
  "parse_city counter i st =
     and_next (read_name i st) (\<lambda>st1. do {
       let (created, al) = createVector (ps_allocs st1);
       vec \<leftarrow> created;
       and_next (read_stocks al (ps_text st1) (ps_products st1) vec (ps_buffer st1) (ps_aux st1)) (\<lambda>r.
       let st2 = st1\<lparr>ps_text := sr_text r, ps_allocs := sr_allocs r, ps_buffer := sr_buffer r,
                   ps_aux := sr_aux r, ps_products := sr_products r\<rparr>
       in and_next (if sr_state r = 1 then keep_name counter i st2 else Some (Next st2)) (\<lambda>st3.
          add_city i (sr_vec r) st3))
     })"

section \<open>Connections\<close>

definition set_road :: "int list list \<Rightarrow> int \<Rightarrow> int \<Rightarrow> int \<Rightarrow> int list list option" where
  "set_road matrix i j d = do {
     m \<leftarrow> mat_set matrix i j d;
     mat_set m j i d
   }"

text \<open>The loop over the connections, entered with the first one already read.\<close>

function read_roads :: "city vector \<Rightarrow> int list list \<Rightarrow> string \<Rightarrow> string option \<Rightarrow> string option \<Rightarrow> int option \<Rightarrow>
  int list list option" where
  "read_roads cities matrix text buffer buffer2 aux =
     (case (buffer, buffer2, aux) of
        (Some a, Some b, Some d) \<Rightarrow>
          (case do { i \<leftarrow> getCityId a cities; j \<leftarrow> getCityId b cities; set_road matrix i j d } of
             None \<Rightarrow> None
           | Some matrix' \<Rightarrow>
               (case fscanf (fmt_road CITY_NAME_MAX_LENGTH) text of
                  None \<Rightarrow> None
                | Some (n, vals, text') \<Rightarrow>
                    if n = 3 then
                      (case vals of
                         [Str a', Str b', Num d'] \<Rightarrow> read_roads cities matrix' text' (Some a') (Some b') (Some d')
                       | _ \<Rightarrow> None)
                    else Some matrix'))
      | _ \<Rightarrow> None)"
  by pat_completeness auto
termination
proof (relation "measure (\<lambda>(_, _, text, _). length text)")
  show "wf (measure (\<lambda>(_, _, text, _). length text))"
    by simp
qed (auto simp: fmt_road_def dest: fscanf_shorter)

declare read_roads.simps [simp del]

text \<open>\<open>strcmp(buffer, "") != 0\<close>: there are connections.\<close>

definition parse_roads :: "city vector \<Rightarrow> int list list \<Rightarrow> string \<Rightarrow> string option \<Rightarrow> int option \<Rightarrow> int list list option" where
  "parse_roads cities matrix text buffer aux = do {
     w \<leftarrow> buffer;
     if w \<noteq> [] then do {
       (_, vals, text') \<leftarrow> fscanf (fmt_pair CITY_NAME_MAX_LENGTH) text;
       read_roads cities matrix text' (Some w) (stored_word vals None) (stored_int vals aux)
     } else Some matrix
   }"

section \<open>The map\<close>

text \<open>\<open>n\<close> allocations, until one fails.\<close>

fun allocs :: "nat \<Rightarrow> mallocs \<Rightarrow> bool \<times> mallocs" where
  "allocs 0 al = (True, al)"
| "allocs (Suc n) al = (let (ok, al') = alloc al in if ok then allocs n al' else (False, al'))"

text \<open>The loop over the cities, from the position after the number of cities.\<close>

definition parse_cities :: "nat \<Rightarrow> parse_state \<Rightarrow> (sim_map option, parse_state) flow option" where
  "parse_cities counter st =
     for_loop counter 0 (\<lambda>i st.
       map_option (\<lambda>r. case r of Exit _ \<Rightarrow> Exit None | Next st' \<Rightarrow> Next st') (parse_city counter i st)) st"

text \<open>What follows the loop.\<close>

definition finish_map :: "nat \<Rightarrow> parse_state \<Rightarrow> sim_map option option" where
  "finish_map counter st = do {
     matrix \<leftarrow> parse_roads (ps_cities st) (replicate counter (replicate counter 0))
       (ps_text st) (ps_buffer st) (ps_aux st);
     matrix' \<leftarrow> floydMatrix matrix counter;
     Some (Some \<lparr>map_cities = ps_cities st, map_product = ps_products st, map_matrix = matrix'\<rparr>)
   }"

text \<open>
  The memory is taken in the order of the code: the map, the vector of cities, \<open>cities\<close> and
  its objects, the matrix and its rows, the vector of products. For a negative number of cities
  \<open>malloc(counter * sizeof(City*))\<close> asks for nearly all addresses there are, and fails.
\<close>

definition parseMap :: "mallocs \<Rightarrow> string option \<Rightarrow> sim_map option option" where
  "parseMap al file =
     (let (ok, al1) = alloc al in
      if \<not> ok then Some None
      else
        (case file of
           None \<Rightarrow> Some None
         | Some text \<Rightarrow>
             (case createVector al1 of
                (None, _) \<Rightarrow> Some None
              | (Some cities, al2) \<Rightarrow> do {
                  (_, vals, text1) \<leftarrow> fscanf fmt_count text;
                  c \<leftarrow> stored_int vals None;
                  let counter = nat c;
                  let (ok1, al3) = (if c < 0 then (False, al2) else allocs (1 + counter) al2);
                  let (ok2, al4) = allocs (1 + counter) al3;
                  if \<not> ok1 \<or> \<not> ok2 then Some None
                  else
                    (case createVector al4 of
                       (None, _) \<Rightarrow> Some None
                     | (Some products, al5) \<Rightarrow>
                         after_loop
                           (parse_cities counter
                              \<lparr>ps_text = text1, ps_allocs = al5, ps_first = True, ps_names = arr_new counter,
                               ps_buffer = None, ps_aux = None, ps_cities = cities, ps_products = products\<rparr>)
                           (finish_map counter))
                })))"

section \<open>Airlines\<close>

text \<open>
  \<open>freeStocks\<close> asks for the size of the vector before it looks whether there is one;
  \<open>freeAirline\<close> gets the array of planes, or NULL, of which only the stocks matter.
\<close>

definition freeStocks :: "stock vector option \<Rightarrow> unit option" where
  "freeStocks stocks = do {
     v \<leftarrow> stocks;
     after_loop (for_loop (getVectorSize v) 0 (\<lambda>i _. do { _ \<leftarrow> getFromVector v (int i); Some (Next ()) }) ()) Some
   }"

definition freeAirline :: "nat \<Rightarrow> stock vector option list option \<Rightarrow> unit option" where
  "freeAirline numberOfPlanes planes =
     after_loop
       (for_loop numberOfPlanes 0 (\<lambda>i _. do {
          ps \<leftarrow> planes;
          _ \<leftarrow> (if i < length ps then freeStocks (ps ! i) else None);
          Some (Next ())
        }) ())
       Some"

record planes_state =
  pl_text :: string
  pl_allocs :: mallocs
  pl_first :: bool
  pl_cityName :: "string option"
  pl_buffer :: "string option"
  pl_stockAmount :: "int option"
  pl_products :: "product vector"
  pl_planes :: "plane list"

text \<open>The planes so far, and the ones \<open>calloc\<close> has filled with zeros.\<close>

definition stocks_so_far :: "nat \<Rightarrow> planes_state \<Rightarrow> stock vector option list" where
  "stocks_so_far n st = map (\<lambda>p. Some (plane_stocks p)) (pl_planes st) @ replicate (n - length (pl_planes st)) None"

definition parse_plane :: "nat \<Rightarrow> city vector \<Rightarrow> nat \<Rightarrow> planes_state \<Rightarrow> (product vector, planes_state) flow option" where
  "parse_plane n cities i st = do {
     (cityName, text) \<leftarrow>
       (if pl_first st then do {
          (_, vals, text') \<leftarrow> fscanf (fmt_name CITY_NAME_MAX_LENGTH) (pl_text st);
          Some (stored_word vals (pl_cityName st), text')
        } else Some (pl_cityName st, pl_text st));
     name \<leftarrow> cityName;
     cityId \<leftarrow> getCityId name cities;
     let (created, al) = createVector (pl_allocs st);
     vec \<leftarrow> created;
     flow \<leftarrow> read_stocks al text (pl_products st) vec (pl_buffer st) (pl_stockAmount st);
     case flow of
       Exit _ \<Rightarrow> do {
         _ \<leftarrow> freeAirline n (Some (stocks_so_far n st));
         Some (Exit (pl_products st))
       }
     | Next r \<Rightarrow>
         Some (Next \<lparr>pl_text = sr_text r, pl_allocs = sr_allocs r,
           pl_first = (pl_first st \<and> sr_state r \<noteq> 1),
           pl_cityName = (if sr_state r = 1 then sr_buffer r else Some name),
           pl_buffer = sr_buffer r, pl_stockAmount = sr_aux r, pl_products = sr_products r,
           pl_planes = pl_planes st @
             [\<lparr>plane_id = int i, plane_stocks = sr_vec r, plane_cityId = cityId, plane_distance = 0\<rparr>]\<rparr>)
   }"

text \<open>
  The result: the airline or NULL, with the catalogue of the map, which grows by the products
  of the airline. A number of planes that is not there leaves the 0 of \<open>calloc\<close>.
\<close>

definition parseAirlines :: "mallocs \<Rightarrow> string option \<Rightarrow> sim_map \<Rightarrow> (airline option \<times> sim_map) option" where
  "parseAirlines al file m =
     (let (ok, al1) = alloc al in
      if \<not> ok then Some (None, m)
      else do {
        text \<leftarrow> file;
        (_, vals, text1) \<leftarrow> fscanf fmt_planes text;
        let n = (case stored_int vals None of Some v \<Rightarrow> nat v | None \<Rightarrow> 0);
        let (ok2, al2) = alloc al1;
        if \<not> ok2 then do { _ \<leftarrow> freeAirline n None; Some (None, m) }
        else
          after_loop
            (for_loop n 0 (\<lambda>i st. map_option (\<lambda>r. case r of Exit ps \<Rightarrow> Exit (None, m\<lparr>map_product := ps\<rparr>) | Next st' \<Rightarrow> Next st')
               (parse_plane n (map_cities m) i st))
             \<lparr>pl_text = text1, pl_allocs = al2, pl_first = True, pl_cityName = None, pl_buffer = None,
              pl_stockAmount = None, pl_products = map_product m, pl_planes = []\<rparr>)
            (\<lambda>st. Some (Some \<lparr>airline_id = 0, airline_numberOfPlanes = n, airline_planes = pl_planes st\<rparr>,
                        m\<lparr>map_product := pl_products st\<rparr>))
      })"

end
