(* ===== verification/Parser_Spec.thy ===== *)
theory Parser_Spec
  imports Parser
begin

text \<open>
  What the configuration files say, and that the parser reads it.

  A description lists the cities with the goods they want and the connections; its words, in
  whatever layout, are the text of the file. The lemmas follow the loops of the parser:
  stocks, cities, connections, planes.
\<close>

section \<open>Catalogues of names\<close>

definition index_of :: "string \<Rightarrow> string list \<Rightarrow> nat" where
  "index_of w names = length (takeWhile (\<lambda>x. x \<noteq> w) names)"

definition intern_all :: "string list \<Rightarrow> string list \<Rightarrow> string list" where
  "intern_all names ws = fold (\<lambda>w ns. if w \<in> set ns then ns else ns @ [w]) ws names"

definition catalogue :: "string list \<Rightarrow> product vector" where
  "catalogue names = vec_of (map (\<lambda>i. \<lparr>product_id = int i, product_name = names ! i\<rparr>) [0..<length names])"

definition product_in :: "string list \<Rightarrow> string \<Rightarrow> product" where
  "product_in names w = \<lparr>product_id = int (index_of w names), product_name = w\<rparr>"

definition stocks_of :: "string list \<Rightarrow> (string \<times> int) list \<Rightarrow> stock list" where
  "stocks_of names items = map (\<lambda>(w, a). \<lparr>stock_amount = a, stock_product = Some (product_in names w)\<rparr>) items"

lemma intern_all_simps [simp]:
  "intern_all names [] = names"
  "intern_all names (w # ws) = intern_all (if w \<in> set names then names else names @ [w]) ws"
  by (simp_all add: intern_all_def)

lemma intern_all_append: "intern_all names (us @ ws) = intern_all (intern_all names us) ws"
  by (simp add: intern_all_def)

lemma intern_all_prefix: "\<exists>suf. intern_all names ws = names @ suf"
proof (induction ws arbitrary: names)
  case (Cons w ws)
  then show ?case
    by (auto, metis append.assoc)
qed simp

lemma set_intern_all: "set (intern_all names ws) = set names \<union> set ws"
  by (induction ws arbitrary: names) auto

lemma distinct_intern_all: "distinct names \<Longrightarrow> distinct (intern_all names ws)"
  by (induction ws arbitrary: names) auto

lemma length_intern_all: "length (intern_all names ws) \<le> length names + length ws"
proof (induction ws arbitrary: names)
  case (Cons w ws)
  show ?case
    using Cons [of names] Cons [of "names @ [w]"] by auto
qed simp

lemma index_of_less: "w \<in> set names \<Longrightarrow> index_of w names < length names"
  by (induction names) (auto simp: index_of_def)

lemma index_of_nth: "w \<in> set names \<Longrightarrow> names ! index_of w names = w"
  by (induction names) (auto simp: index_of_def)

lemma index_of_append: "w \<in> set names \<Longrightarrow> index_of w (names @ suf) = index_of w names"
  by (simp add: index_of_def)

lemma index_of_new: "w \<notin> set names \<Longrightarrow> index_of w (names @ [w]) = length names"
  by (induction names) (auto simp: index_of_def)

lemma index_of_intern_all: "w \<in> set names \<Longrightarrow> index_of w (intern_all names ws) = index_of w names"
  using intern_all_prefix [of names ws] by (auto simp: index_of_append)

lemma stocks_of_intern_all:
  "fst ` set items \<subseteq> set names \<Longrightarrow> stocks_of (intern_all names ws) items = stocks_of names items"
  by (auto simp: stocks_of_def product_in_def index_of_intern_all)

lemma catalogue_wf:
  assumes "distinct names" "length names < 2147483648"
  shows "products_wf (catalogue names)" "map product_name (vlist (catalogue names)) = names"
    "length (vlist (catalogue names)) = length names"
proof -
  have "map product_name (vlist (catalogue names)) = names"
    by (simp add: catalogue_def o_def map_nth)
  with assms show "products_wf (catalogue names)" "map product_name (vlist (catalogue names)) = names"
    "length (vlist (catalogue names)) = length names"
    by (simp_all add: products_wf_def catalogue_def o_def)
qed

lemma catalogue_snoc:
  "catalogue (names @ [w]) = vec_of (vlist (catalogue names) @ [\<lparr>product_id = int (length names), product_name = w\<rparr>])"
  by (auto simp: catalogue_def nth_append intro!: arg_cong [of _ _ vec_of])

lemma product_in_catalogue:
  "w \<in> set names \<Longrightarrow> product_in names w \<in> set (vlist (catalogue names))"
  using index_of_less [of w names] index_of_nth [of w names]
  by (auto simp: catalogue_def product_in_def intro!: image_eqI [of _ _ "index_of w names"])

text \<open>\<open>initStock\<close> interns the name.\<close>

lemma initStock_catalogue:
  assumes "distinct names" "length names < 2147483647"
  shows "initStock [] w a (catalogue names) =
    Some (Some \<lparr>stock_amount = a, stock_product = Some (product_in (intern_all names [w]) w)\<rparr>, catalogue (intern_all names [w]), [])"
proof (cases "w \<in> set names")
  case True
  have "getProduct [] (product_name (product_in names w)) (catalogue names) =
      Some (Some (product_in names w), catalogue names, [])"
    using catalogue_wf(1) [of names] assms product_in_catalogue [OF True]
    by (intro getProduct_known) auto
  then show ?thesis
    using True by (simp add: initStock_def product_in_def)
next
  case False
  have wf: "products_wf (catalogue names)" "w \<notin> product_name ` set (vlist (catalogue names))"
    using catalogue_wf [of names] assms False by (auto simp flip: set_map)
  then show ?thesis
    using False assms catalogue_wf(3) [of names] getProduct_new [OF wf, of "[]"]
    by (simp add: initStock_def catalogue_snoc product_in_def index_of_new Let_def)
qed

section \<open>Reading stocks\<close>

definition item_tokens :: "(string \<times> int) list \<Rightarrow> string list" where
  "item_tokens items = concat (map (\<lambda>(w, a). [w, print_int a]) items)"

definition item_ok :: "string \<times> int \<Rightarrow> bool" where
  "item_ok = (\<lambda>(w, a). word_ok w \<and> not_numeric w \<and> length w < CITY_NAME_MAX_LENGTH \<and> in_int a)"

lemma item_tokens_simps [simp]:
  "item_tokens [] = []" "item_tokens ((w, a) # items) = w # print_int a # item_tokens items"
  by (simp_all add: item_tokens_def)

lemma stored_simps [simp]:
  "stored_word (Str w # vals) b = Some w" "stored_word [] b = b"
  "stored_int [] x = x" "stored_int [Num v] x = Some v" "stored_int [Str w] x = x"
  "stored_int [Str w, Num v] x = Some v" "stored_int [Str w, Str u, Num v] x = Some v"
  by (simp_all add: stored_word_def stored_int_def)

lemma read_stocks_items:
  assumes "tokens text = item_tokens items @ rest" "list_all item_ok items" "distinct names"
    and "length names + length items < 2147483647"
  shows "\<exists>text' b' a'. tokens text' = rest \<and>
    read_stocks [] text (catalogue names) (vec_of ss) b a =
    read_stocks [] text' (catalogue (intern_all names (map fst items)))
      (vec_of (ss @ stocks_of (intern_all names (map fst items)) items)) b' a' \<and>
    (b' = (if items = [] then b else Some (fst (last items))))"
  using assms
proof (induction items arbitrary: "text" names ss b a)
  case Nil
  then show ?case
    by (auto simp: stocks_of_def)
next
  case (Cons it items)
  obtain w v where it: "it = (w, v)"
    by (cases it)
  have w: "length w < CITY_NAME_MAX_LENGTH" "in_int v"
    using Cons.prems(2) by (simp_all add: it item_ok_def)
  have "tokens text = w # print_int v # (item_tokens items @ rest)"
    using Cons.prems(1) by (simp add: it)
  then obtain t1 where t1: "fscanf (fmt_pair CITY_NAME_MAX_LENGTH) text = Some (2, [Str w, Num v], t1)"
    "tokens t1 = item_tokens items @ rest"
    using w by (rule fscanf_pair)
  let ?n1 = "intern_all names [w]"
  let ?s = "\<lparr>stock_amount = v, stock_product = Some (product_in ?n1 w)\<rparr>"
  have ini: "initStock [] w v (catalogue names) = Some (Some ?s, catalogue ?n1, [])"
    using Cons.prems(3,4) by (intro initStock_catalogue) auto
  have step: "read_stocks [] text (catalogue names) (vec_of ss) b a =
      read_stocks [] t1 (catalogue ?n1) (vec_of (ss @ [?s])) (Some w) (Some v)"
    by (subst read_stocks.simps) (simp add: t1(1) ini addToVector_vec_of del: intern_all_simps)
  have pre: "list_all item_ok items" "distinct ?n1" "length ?n1 + length items < 2147483647"
    using Cons.prems by auto
  obtain t2 b' a' where t2: "tokens t2 = rest"
    "read_stocks [] t1 (catalogue ?n1) (vec_of (ss @ [?s])) (Some w) (Some v) =
      read_stocks [] t2 (catalogue (intern_all ?n1 (map fst items)))
        (vec_of ((ss @ [?s]) @ stocks_of (intern_all ?n1 (map fst items)) items)) b' a'"
    "b' = (if items = [] then Some w else Some (fst (last items)))"
    using Cons.IH [OF t1(2) pre, of "ss @ [?s]" "Some w" "Some v"] by blast
  have "intern_all ?n1 (map fst items) = intern_all names (map fst (it # items))"
    by (simp add: it)
  moreover have "stocks_of (intern_all ?n1 (map fst items)) (it # items) = ?s # stocks_of (intern_all ?n1 (map fst items)) items"
    using index_of_intern_all [of w ?n1 "map fst items"] set_intern_all [of names "[w]"]
    by (simp add: stocks_of_def it product_in_def del: intern_all_simps)
  ultimately show ?case
    using t2 step by (intro exI [of _ t2] exI [of _ b'] exI [of _ a']) (auto simp: it simp del: intern_all_simps)
qed

text \<open>The loop ends at a word that no number follows, or at the end of the file.\<close>

lemma read_stocks_word:
  assumes "tokens text = x # y # rest" "length x < CITY_NAME_MAX_LENGTH" "not_numeric y"
  shows "\<exists>text'. tokens text' = y # rest \<and>
    read_stocks al text products vec b a =
    Some (Next \<lparr>sr_state = 1, sr_vec = vec, sr_products = products, sr_buffer = Some x, sr_aux = a,
      sr_text = text', sr_allocs = al\<rparr>)"
proof -
  obtain t where "fscanf (fmt_pair CITY_NAME_MAX_LENGTH) text = Some (1, [Str x], t)" "tokens t = y # rest"
    using assms by (rule fscanf_pair_word)
  then show ?thesis
    by (intro exI [of _ t]) (simp add: read_stocks.simps [of al "text"])
qed

lemma read_stocks_end:
  assumes "tokens text = []"
  shows "read_stocks al text products vec b a =
    Some (Next \<lparr>sr_state = - 1, sr_vec = vec, sr_products = products, sr_buffer = b, sr_aux = a,
      sr_text = [], sr_allocs = al\<rparr>)"
  by (simp add: read_stocks.simps [of al "text"] fscanf_pair_end [OF assms])

section \<open>Cities\<close>

type_synonym city_desc = "string \<times> (string \<times> int) list"

type_synonym road_desc = "string \<times> string \<times> int"

definition city_tokens :: "city_desc list \<Rightarrow> string list" where
  "city_tokens cs = concat (map (\<lambda>(c, items). c # item_tokens items) cs)"

definition road_tokens :: "road_desc list \<Rightarrow> string list" where
  "road_tokens roads = concat (map (\<lambda>(a, b, d). [a, b, print_int d]) roads)"

definition name_ok :: "string \<Rightarrow> bool" where
  "name_ok w \<longleftrightarrow> word_ok w \<and> not_numeric w \<and> length w < CITY_NAME_MAX_LENGTH"

definition city_ok :: "city_desc \<Rightarrow> bool" where
  "city_ok = (\<lambda>(c, items). name_ok c \<and> list_all item_ok items)"

definition road_ok :: "string list \<Rightarrow> road_desc \<Rightarrow> bool" where
  "road_ok names = (\<lambda>(a, b, d). name_ok a \<and> name_ok b \<and> a \<in> set names \<and> b \<in> set names \<and> in_int d)"

text \<open>The names of all goods, in the order of the file, and the cities with their stocks.\<close>

definition goods :: "city_desc list \<Rightarrow> string list" where
  "goods cs = concat (map (\<lambda>(c, items). map fst items) cs)"

definition city_of :: "string list \<Rightarrow> nat \<Rightarrow> city_desc \<Rightarrow> city" where
  "city_of names i c = \<lparr>city_name = fst c, city_id = int i, city_stock = vec_of (stocks_of names (snd c))\<rparr>"

definition cities_of :: "string list \<Rightarrow> city_desc list \<Rightarrow> city list" where
  "cities_of names cs = map (\<lambda>i. city_of names i (cs ! i)) [0..<length cs]"

lemma city_tokens_simps [simp]:
  "city_tokens [] = []" "city_tokens ((c, items) # cs) = c # item_tokens items @ city_tokens cs"
  by (simp_all add: city_tokens_def)

lemma road_tokens_simps [simp]:
  "road_tokens [] = []" "road_tokens ((a, b, d) # rs) = a # b # print_int d # road_tokens rs"
  by (simp_all add: road_tokens_def)

lemma goods_simps [simp]: "goods [] = []" "goods ((c, items) # cs) = map fst items @ goods cs"
  by (simp_all add: goods_def)

lemma goods_append: "goods (us @ ws) = goods us @ goods ws"
  by (simp add: goods_def)

text \<open>What follows a city in the file: always a name, and another one or the first of a stock.\<close>

definition rest_tokens :: "city_desc list \<Rightarrow> road_desc list \<Rightarrow> nat \<Rightarrow> string list" where
  "rest_tokens cs roads i = city_tokens (drop i cs) @ road_tokens roads"

definition next_name :: "city_desc list \<Rightarrow> road_desc list \<Rightarrow> nat \<Rightarrow> string" where
  "next_name cs roads i = (if i < length cs then fst (cs ! i) else fst (hd roads))"

lemma drop_city:
  assumes "cs ! i = (c, items)" "i < length cs" "list_all city_ok cs"
  shows "drop i cs = (c, items) # drop (Suc i) cs" "city_ok (c, items)"
  using assms by (simp_all add: Cons_nth_drop_Suc [symmetric]) (metis list_all_length)

lemma rest_tokens_shape:
  assumes "list_all city_ok cs" "list_all (road_ok names) roads" "roads \<noteq> []" "i \<le> length cs"
  shows "\<exists>y ts. rest_tokens cs roads i = next_name cs roads i # y # ts \<and> not_numeric y \<and>
    name_ok (next_name cs roads i)"
proof -
  obtain a b d rs where r: "roads = (a, b, d) # rs"
    using assms(3) by (cases roads) auto
  have ok: "name_ok a" "not_numeric b" "not_numeric a"
    using assms(2) by (auto simp: r road_ok_def name_ok_def)
  show ?thesis
  proof (cases "i < length cs")
    case True
    obtain c items where c: "cs ! i = (c, items)"
      by (cases "cs ! i")
    note d = drop_city(1) [OF c True assms(1)] and cok = drop_city(2) [OF c True assms(1)]
    show ?thesis
    proof (cases items)
      case (Cons it its)
      then show ?thesis
        using c d cok True by (cases it) (auto simp: rest_tokens_def next_name_def city_ok_def item_ok_def name_ok_def)
    next
      case Nil
      obtain y ts where "city_tokens (drop (Suc i) cs) @ road_tokens roads = y # ts" "not_numeric y"
      proof (cases "drop (Suc i) cs")
        case Nil
        then show thesis
          using that ok by (simp add: r)
      next
        case (Cons e es)
        then have "city_ok e"
          using assms(1) in_set_dropD [of e "Suc i" cs] by (simp add: list_all_iff)
        then show thesis
          using that Cons by (cases e) (auto simp: city_ok_def name_ok_def)
      qed
      then show ?thesis
        using Nil c d cok True by (auto simp: rest_tokens_def next_name_def city_ok_def)
    qed
  next
    case False
    then show ?thesis
      using ok assms(4) by (simp add: rest_tokens_def next_name_def r)
  qed
qed

lemma cities_of_snoc:
  "i < length cs \<Longrightarrow> cities_of names (take (Suc i) cs) = cities_of names (take i cs) @ [city_of names i (cs ! i)]"
  by (auto simp: cities_of_def take_Suc_conv_app_nth nth_append)

definition parse_inv :: "city_desc list \<Rightarrow> road_desc list \<Rightarrow> string list \<Rightarrow> nat \<Rightarrow> parse_state \<Rightarrow> bool" where
  "parse_inv cs roads names i st \<longleftrightarrow>
     ps_allocs st = [] \<and> ps_products st = catalogue (intern_all [] (goods (take i cs))) \<and>
     ps_cities st = vec_of (cities_of names (take i cs)) \<and>
     (if i = 0 then ps_first st \<and> ps_names st = arr_new (length cs) \<and> tokens (ps_text st) = rest_tokens cs roads 0
      else \<not> ps_first st \<and> ps_names st = arr_of (length cs) (map fst (take (Suc i) cs)) \<and>
        tokens (ps_text st) = tl (rest_tokens cs roads i) \<and>
        (i = length cs \<longrightarrow> ps_buffer st = Some (fst (hd roads))))"

text \<open>After \<open>read_name\<close> the name of city \<open>i\<close> is there, and the stream is at its stocks.\<close>

lemma read_name_ready:
  assumes "parse_inv cs roads names i st" "list_all city_ok cs" "i < length cs"
  shows "\<exists>st'. read_name i st = Some (Next st') \<and> ps_allocs st' = [] \<and> ps_products st' = ps_products st \<and>
    ps_cities st' = ps_cities st \<and> ps_names st' = arr_of (length cs) (map fst (take (Suc i) cs)) \<and>
    tokens (ps_text st') = item_tokens (snd (cs ! i)) @ rest_tokens cs roads (Suc i)"
proof -
  obtain c items where c: "cs ! i = (c, items)"
    by (cases "cs ! i")
  note d = drop_city(1) [OF c assms(3,2)] and cok = drop_city(2) [OF c assms(3,2)]
  have toks: "rest_tokens cs roads i = c # item_tokens items @ rest_tokens cs roads (Suc i)"
    by (simp add: rest_tokens_def d)
  show ?thesis
  proof (cases "i = 0")
    case False
    then show ?thesis
      using assms(1) toks c by (intro exI [of _ st]) (simp add: parse_inv_def read_name_def)
  next
    case True
    then have "tokens (ps_text st) = c # item_tokens items @ rest_tokens cs roads (Suc 0)"
      "length c < CITY_NAME_MAX_LENGTH"
      using assms(1) toks cok by (auto simp: parse_inv_def city_ok_def name_ok_def)
    then obtain t where t: "fscanf (fmt_name CITY_NAME_MAX_LENGTH) (ps_text st) = Some (1, [Str c], t)"
      "tokens t = item_tokens items @ rest_tokens cs roads (Suc 0)"
      by (rule fscanf_name)
    have "cs \<noteq> []" "take (Suc 0) cs = [(c, items)]"
      using assms(3) c True by (auto simp: take_Suc hd_conv_nth)
    then have "arr_set (arr_new (length cs)) 0 c = Some (arr_of (length cs) (map fst (take (Suc 0) cs)))"
      using arr_set_arr_of_next [of "[]" "length cs" c] by (simp add: arr_new_arr_of)
    then show ?thesis
      using assms(1) t c True by (simp add: parse_inv_def read_name_def)
  qed
qed

text \<open>One city: its stocks, and the name of the next city or of the first connection.\<close>

lemma goods_length:
  "i < length cs \<Longrightarrow> length (goods (take i cs)) + length (snd (cs ! i)) \<le> length (goods cs)"
proof -
  assume "i < length cs"
  then have "cs = take i cs @ (cs ! i) # drop (Suc i) cs"
    by (rule id_take_nth_drop)
  then have "goods cs = goods (take i cs) @ map fst (snd (cs ! i)) @ goods (drop (Suc i) cs)"
    by (metis goods_append goods_simps(2) prod.collapse)
  then show ?thesis
    by simp
qed

lemma goods_take_Suc: "i < length cs \<Longrightarrow> goods (take (Suc i) cs) = goods (take i cs) @ map fst (snd (cs ! i))"
  by (simp add: take_Suc_conv_app_nth goods_append) (simp add: goods_def split_def)

lemma stocks_of_goods:
  assumes "i < length cs"
  shows "stocks_of (intern_all ns (goods cs)) (snd (cs ! i)) = stocks_of (intern_all ns (goods (take (Suc i) cs))) (snd (cs ! i))"
proof -
  have "goods cs = goods (take (Suc i) cs) @ goods (drop (Suc i) cs)"
    by (metis append_take_drop_id goods_append)
  moreover have "fst ` set (snd (cs ! i)) \<subseteq> set (intern_all ns (goods (take (Suc i) cs)))"
    by (auto simp: set_intern_all goods_take_Suc [OF assms])
  ultimately show ?thesis
    using stocks_of_intern_all by (simp add: intern_all_append)
qed

lemma arr_names_next:
  assumes "Suc i < length cs"
  shows "arr_set (arr_of (length cs) (map fst (take (Suc i) cs))) (Suc i) (fst (cs ! Suc i)) =
    Some (arr_of (length cs) (map fst (take (Suc (Suc i)) cs)))"
  using arr_set_arr_of_next [of "map fst (take (Suc i) cs)" "length cs" "fst (cs ! Suc i)"] assms
  by (simp add: take_Suc_conv_app_nth [of "Suc i"] min_def)

lemma parse_city_step:
  assumes inv: "parse_inv cs roads names i st" and names: "names = intern_all [] (goods cs)"
    and ok: "list_all city_ok cs" "list_all (road_ok ns) roads" "roads \<noteq> []"
    and i: "i < length cs" and size: "length (goods cs) < 2147483647" "length cs < 2147483647"
  shows "\<exists>st'. parse_city (length cs) i st = Some (Next st') \<and> parse_inv cs roads names (Suc i) st'"
proof -
  obtain st1 where st1: "read_name i st = Some (Next st1)" "ps_allocs st1 = []"
    "ps_products st1 = catalogue (intern_all [] (goods (take i cs)))"
    "ps_cities st1 = vec_of (cities_of names (take i cs))"
    "ps_names st1 = arr_of (length cs) (map fst (take (Suc i) cs))"
    "tokens (ps_text st1) = item_tokens (snd (cs ! i)) @ rest_tokens cs roads (Suc i)"
    using read_name_ready [OF inv ok(1) i] inv by (auto simp: parse_inv_def)
  let ?items = "snd (cs ! i)"
  let ?n = "intern_all [] (goods (take i cs))"
  let ?n' = "intern_all [] (goods (take (Suc i) cs))"
  have n': "intern_all ?n (map fst ?items) = ?n'"
    by (simp add: goods_take_Suc [OF i] intern_all_append)
  have iok: "list_all item_ok ?items"
    using ok(1) i by (auto simp: list_all_length city_ok_def split_def)
  have "length ?n + length ?items < 2147483647"
    using length_intern_all [of "[]" "goods (take i cs)"] goods_length [OF i] size by simp
  then obtain t2 b2 a2 where t2: "tokens t2 = rest_tokens cs roads (Suc i)"
    "read_stocks [] (ps_text st1) (catalogue ?n) (vec_of []) (ps_buffer st1) (ps_aux st1) =
     read_stocks [] t2 (catalogue ?n') (vec_of (stocks_of ?n' ?items)) b2 a2"
    using read_stocks_items [where names = ?n and ss = "[]" and b = "ps_buffer st1" and a = "ps_aux st1",
        OF st1(6) iok distinct_intern_all]
    by (auto simp: n')
  obtain y ts where shape: "rest_tokens cs roads (Suc i) = next_name cs roads (Suc i) # y # ts" "not_numeric y"
    "name_ok (next_name cs roads (Suc i))"
    using rest_tokens_shape [OF ok, of "Suc i"] i by auto
  then obtain t3 where t3: "tokens t3 = y # ts"
    "read_stocks [] t2 (catalogue ?n') (vec_of (stocks_of ?n' ?items)) b2 a2 =
     Some (Next \<lparr>sr_state = 1, sr_vec = vec_of (stocks_of ?n' ?items), sr_products = catalogue ?n',
       sr_buffer = Some (next_name cs roads (Suc i)), sr_aux = a2, sr_text = t3, sr_allocs = []\<rparr>)"
    using read_stocks_word [of t2 "next_name cs roads (Suc i)" y ts] t2(1) unfolding name_ok_def by metis
  let ?c = "city_of names i (cs ! i)"
  have c: "?c = \<lparr>city_name = fst (cs ! i), city_id = int i, city_stock = vec_of (stocks_of ?n' ?items)\<rparr>"
    using stocks_of_goods [OF i] by (simp add: city_of_def names)
  have added: "addToVector [] (vec_of (cities_of names (take i cs))) ?c =
      Some (int i, vec_of (cities_of names (take (Suc i) cs)), [])"
    using i by (simp add: addToVector_vec_of cities_of_snoc) (simp add: cities_of_def)
  have name_i: "arr_get (arr_of (length cs) (map fst (take k cs))) i = Some (fst (cs ! i))" if "i < k" for k
    using i that by simp
  let ?st3 = "st1\<lparr>ps_text := t3, ps_allocs := [], ps_buffer := (if Suc i = length cs then Some (fst (hd roads)) else Some []),
    ps_aux := a2, ps_products := catalogue ?n', ps_first := False,
    ps_names := arr_of (length cs) (map fst (take (Suc (Suc i)) cs))\<rparr>"
  have kept: "keep_name (length cs) i (st1\<lparr>ps_text := t3, ps_allocs := [], ps_buffer := Some (next_name cs roads (Suc i)),
      ps_aux := a2, ps_products := catalogue ?n'\<rparr>) = Some (Next ?st3)"
    using arr_names_next [of i cs] i st1(5)
    by (cases "Suc i = length cs") (simp_all add: keep_name_def next_name_def)
  have "parse_city (length cs) i st = Some (Next (?st3\<lparr>ps_cities := vec_of (cities_of names (take (Suc i) cs)), ps_allocs := []\<rparr>))"
    using st1(1-4) t2(2) t3(2) kept added name_i c
    by (simp add: parse_city_def and_next_def add_city_def)
  moreover have "parse_inv cs roads names (Suc i) (?st3\<lparr>ps_cities := vec_of (cities_of names (take (Suc i) cs)), ps_allocs := []\<rparr>)"
    using t3(1) shape(1) by (simp add: parse_inv_def)
  ultimately show ?thesis
    by blast
qed

lemma parse_cities_result:
  assumes "parse_inv cs roads (intern_all [] (goods cs)) 0 st"
    and ok: "list_all city_ok cs" "list_all (road_ok ns) roads" "roads \<noteq> []"
    and size: "length (goods cs) < 2147483647" "length cs < 2147483647"
  shows "\<exists>st'. parse_cities (length cs) st = Some (Next st') \<and>
    parse_inv cs roads (intern_all [] (goods cs)) (length cs) st'"
proof -
  have "\<exists>st'. parse_cities (length cs) st = Some (Next st') \<and>
      parse_inv cs roads (intern_all [] (goods cs)) (0 + length cs) st'"
    unfolding parse_cities_def
  proof (rule for_loop_invariant [where I = "\<lambda>i s. parse_inv cs roads (intern_all [] (goods cs)) i s"])
    fix j s
    assume "j < 0 + length cs" "parse_inv cs roads (intern_all [] (goods cs)) j s"
    then show "\<exists>s'. map_option (\<lambda>r. case r of Exit _ \<Rightarrow> Exit None | Next st' \<Rightarrow> Next st') (parse_city (length cs) j s) =
        Some (Next s') \<and> parse_inv cs roads (intern_all [] (goods cs)) (Suc j) s'"
      using parse_city_step [OF _ refl ok _ size, of j s] by auto
  qed (rule assms(1))
  then show ?thesis
    by simp
qed

section \<open>Connections\<close>

definition put_road :: "string list \<Rightarrow> road_desc \<Rightarrow> int list list \<Rightarrow> int list list" where
  "put_road names = (\<lambda>(a, b, d) m.
     let i = index_of a names; j = index_of b names; m1 = m[i := (m ! i)[j := d]]
     in m1[j := (m1 ! j)[i := d]])"

definition road_matrix :: "string list \<Rightarrow> road_desc list \<Rightarrow> int list list" where
  "road_matrix names roads = fold (put_road names) roads (replicate (length names) (replicate (length names) 0))"

lemma square_zero: "square n (replicate n (replicate n 0))"
  by (simp add: square_def list_all_length)

lemma square_put_road:
  assumes "square (length names) m" "road_ok names r"
  shows "square (length names) (put_road names r m)"
  using assms index_of_less
  by (cases r) (auto simp: put_road_def Let_def road_ok_def intro!: square_update)

lemma square_road_matrix:
  assumes "list_all (road_ok names) roads"
  shows "square (length names) (road_matrix names roads)"
proof -
  have "square (length names) (fold (put_road names) roads m)" if "square (length names) m" for m
    using assms that by (induction roads arbitrary: m) (auto simp: square_put_road)
  then show ?thesis
    by (simp add: road_matrix_def square_zero)
qed

lemma find_city:
  assumes "w \<in> set (map city_name cs)" "map city_id cs = map int [k..<k + length cs]"
  shows "\<exists>c. find (\<lambda>c. w = city_name c) cs = Some c \<and> city_id c = int (k + index_of w (map city_name cs))"
  using assms
proof (induction cs arbitrary: k)
  case (Cons c cs)
  have "[k..<k + length (c # cs)] = k # [Suc k..<Suc k + length cs]"
    by (simp add: upt_conv_Cons del: upt_Suc)
  then have "city_id c = int k" "map city_id cs = map int [Suc k..<Suc k + length cs]"
    using Cons.prems(2) by (simp_all del: upt_Suc)
  then show ?case
    using Cons.IH [of "Suc k"] Cons.prems(1) by (cases "w = city_name c") (auto simp: index_of_def)
qed simp

lemma cities_of_simps [simp]:
  "length (cities_of names cs) = length cs"
  "map city_name (cities_of names cs) = map fst cs"
  "map city_id (cities_of names cs) = map int [0..<length cs]"
  by (simp_all add: cities_of_def city_of_def o_def) (rule nth_equalityI, simp_all)

lemma getCityId_cities:
  assumes "w \<in> fst ` set cs" "length cs < 2147483648"
  shows "getCityId w (vec_of (cities_of names cs)) = Some (int (index_of w (map fst cs)))"
  using find_city [of w "cities_of names cs" 0] assms by (auto simp: getCityId_find)

lemma set_road_put:
  assumes "square (length names) m" "road_ok names (a, b, d)"
  shows "set_road m (int (index_of a names)) (int (index_of b names)) d = Some (put_road names (a, b, d) m)"
proof -
  have ij: "index_of a names < length names" "index_of b names < length names"
    using assms(2) by (auto simp: road_ok_def index_of_less)
  show ?thesis
    using mat_set_square [OF assms(1) ij, of d] mat_set_square [OF square_update [OF assms(1) ij(1)] ij(2,1)]
    by (simp add: set_road_def put_road_def Let_def)
qed

lemma read_roads_list:
  assumes "tokens text = road_tokens rs" "list_all (road_ok (map fst cs)) ((a, b, d) # rs)"
    and "square (length cs) m" "length cs < 2147483648"
  shows "read_roads (vec_of (cities_of names cs)) m text (Some a) (Some b) (Some d) =
    Some (fold (put_road (map fst cs)) ((a, b, d) # rs) m)"
  using assms
proof (induction rs arbitrary: "text" a b d m)
  case Nil
  have "a \<in> fst ` set cs" "b \<in> fst ` set cs"
    using Nil.prems(2) by (auto simp: road_ok_def)
  then show ?case
    using Nil set_road_put [of "map fst cs" m a b d]
    by (simp add: read_roads.simps [of _ _ "text"] getCityId_cities fscanf_road_end)
next
  case (Cons r rs)
  obtain a' b' d' where r: "r = (a', b', d')"
    by (cases r)
  have ab: "a \<in> fst ` set cs" "b \<in> fst ` set cs"
    using Cons.prems(2) by (auto simp: road_ok_def)
  have "tokens text = a' # b' # print_int d' # road_tokens rs" "length a' < CITY_NAME_MAX_LENGTH"
      "length b' < CITY_NAME_MAX_LENGTH" "in_int d'"
    using Cons.prems(1,2) by (auto simp: r road_ok_def name_ok_def)
  then obtain t where t: "fscanf (fmt_road CITY_NAME_MAX_LENGTH) text = Some (3, [Str a', Str b', Num d'], t)"
    "tokens t = road_tokens rs"
    by (rule fscanf_road)
  let ?m = "put_road (map fst cs) (a, b, d) m"
  have m: "square (length cs) ?m"
    using square_put_road [of "map fst cs" m] Cons.prems(2,3) by simp
  have "read_roads (vec_of (cities_of names cs)) m text (Some a) (Some b) (Some d) =
      read_roads (vec_of (cities_of names cs)) ?m t (Some a') (Some b') (Some d')"
    using t(1) ab Cons.prems(2-4) set_road_put [of "map fst cs" m a b d]
    by (subst read_roads.simps) (simp add: getCityId_cities)
  also have "\<dots> = Some (fold (put_road (map fst cs)) ((a', b', d') # rs) ?m)"
    using Cons.prems(2,4) m by (intro Cons.IH [OF t(2)]) (simp_all add: r)
  finally show ?case
    by (simp add: r)
qed

section \<open>The whole map\<close>

text \<open>A map the parser accepts: printable names, known cities, and at least one connection.\<close>

definition desc_ok :: "city_desc list \<Rightarrow> road_desc list \<Rightarrow> bool" where
  "desc_ok cs roads \<longleftrightarrow> list_all city_ok cs \<and> roads \<noteq> [] \<and> list_all (road_ok (map fst cs)) roads \<and>
     length cs < 2147483647 \<and> length (goods cs) < 2147483647"

definition map_tokens :: "city_desc list \<Rightarrow> road_desc list \<Rightarrow> string list" where
  "map_tokens cs roads = print_int (int (length cs)) # city_tokens cs @ road_tokens roads"

definition described_map :: "city_desc list \<Rightarrow> int list list \<Rightarrow> sim_map" where
  "described_map cs matrix =
     \<lparr>map_cities = vec_of (cities_of (intern_all [] (goods cs)) cs),
      map_product = catalogue (intern_all [] (goods cs)), map_matrix = matrix\<rparr>"

lemma allocs_ok [simp]: "allocs n [] = (True, [])"
  by (induction n) simp_all

lemma catalogue_Nil: "catalogue [] = vec_of []"
  by (simp add: catalogue_def)

lemma finish_map_described:
  assumes inv: "parse_inv cs roads (intern_all [] (goods cs)) (length cs) st" and ok: "desc_ok cs roads" and "cs \<noteq> []"
  shows "finish_map (length cs) st =
    (case floydMatrix (road_matrix (map fst cs) roads) (length cs) of
       None \<Rightarrow> None | Some m \<Rightarrow> Some (Some (described_map cs m)))"
proof -
  obtain a b d rs where r: "roads = (a, b, d) # rs"
    using ok by (cases roads) (auto simp: desc_ok_def)
  have rok: "list_all (road_ok (map fst cs)) ((a, b, d) # rs)" and len: "length cs < 2147483648"
    using ok by (simp_all add: desc_ok_def r)
  have "tokens (ps_text st) = b # print_int d # road_tokens rs" "length b < CITY_NAME_MAX_LENGTH" "in_int d"
    using inv assms(3) rok by (auto simp: parse_inv_def rest_tokens_def r road_ok_def name_ok_def)
  then obtain t where t: "fscanf (fmt_pair CITY_NAME_MAX_LENGTH) (ps_text st) = Some (2, [Str b, Num d], t)"
    "tokens t = road_tokens rs"
    by (rule fscanf_pair)
  have st: "ps_buffer st = Some a" "ps_cities st = vec_of (cities_of (intern_all [] (goods cs)) cs)"
    "ps_products st = catalogue (intern_all [] (goods cs))"
    using inv assms(3) by (simp_all add: parse_inv_def r)
  have "a \<noteq> []"
    using rok by (simp add: road_ok_def name_ok_def word_ok_def)
  then have "parse_roads (ps_cities st) (replicate (length cs) (replicate (length cs) 0)) (ps_text st) (ps_buffer st) (ps_aux st) =
      Some (road_matrix (map fst cs) roads)"
    using t(1) st read_roads_list [OF t(2) rok square_zero len]
    by (simp add: parse_roads_def road_matrix_def r)
  then show ?thesis
    using st by (simp add: finish_map_def described_map_def split: option.split)
qed

lemma parseMap_described:
  assumes "tokens text = map_tokens cs roads" "desc_ok cs roads"
  shows "parseMap [] (Some text) =
    (case floydMatrix (road_matrix (map fst cs) roads) (length cs) of
       None \<Rightarrow> None | Some m \<Rightarrow> Some (Some (described_map cs m)))"
proof -
  have ok: "list_all city_ok cs" "list_all (road_ok (map fst cs)) roads" "roads \<noteq> []"
    and size: "length (goods cs) < 2147483647" "length cs < 2147483647"
    using assms(2) by (simp_all add: desc_ok_def)
  have ne: "cs \<noteq> []"
    using ok(2,3) by (cases roads) (auto simp: road_ok_def)
  have "tokens text = print_int (int (length cs)) # rest_tokens cs roads 0" "in_int (int (length cs))"
    using assms(1) size by (simp_all add: map_tokens_def rest_tokens_def in_int_def INT_MIN_def INT_MAX_def)
  then obtain t where t: "fscanf fmt_count text = Some (1, [Num (int (length cs))], t)"
    "tokens t = rest_tokens cs roads 0"
    by (rule fscanf_count)
  let ?st = "\<lparr>ps_text = t, ps_allocs = [], ps_first = True, ps_names = arr_new (length cs),
    ps_buffer = None, ps_aux = None, ps_cities = vec_of [], ps_products = vec_of []\<rparr>"
  have "parse_inv cs roads (intern_all [] (goods cs)) 0 ?st"
    using t(2) by (simp add: parse_inv_def catalogue_Nil cities_of_def)
  then obtain st where "parse_cities (length cs) ?st = Some (Next st)"
    "parse_inv cs roads (intern_all [] (goods cs)) (length cs) st"
    using parse_cities_result [OF _ ok size] by blast
  then show ?thesis
    using finish_map_described [OF _ assms(2) ne] t(1) by (simp add: parseMap_def)
qed

section \<open>Airlines\<close>

text \<open>A plane is described like a city: where it starts and what it carries (at least one thing).\<close>

definition planes_ok :: "string list \<Rightarrow> city_desc list \<Rightarrow> bool" where
  "planes_ok cnames ps \<longleftrightarrow> list_all city_ok ps \<and> list_all (\<lambda>(c, items). c \<in> set cnames \<and> items \<noteq> []) ps \<and>
     length ps < 2147483647"

definition plane_of :: "string list \<Rightarrow> string list \<Rightarrow> nat \<Rightarrow> city_desc \<Rightarrow> plane" where
  "plane_of names cnames i p =
     \<lparr>plane_id = int i, plane_stocks = vec_of (stocks_of names (snd p)),
      plane_cityId = int (index_of (fst p) cnames), plane_distance = 0\<rparr>"

definition planes_of :: "string list \<Rightarrow> string list \<Rightarrow> city_desc list \<Rightarrow> plane list" where
  "planes_of names cnames ps = map (\<lambda>i. plane_of names cnames i (ps ! i)) [0..<length ps]"

lemma planes_of_snoc:
  "i < length ps \<Longrightarrow> planes_of names cnames (take (Suc i) ps) = planes_of names cnames (take i ps) @ [plane_of names cnames i (ps ! i)]"
  by (auto simp: planes_of_def take_Suc_conv_app_nth nth_append)

definition planes_inv :: "string list \<Rightarrow> string list \<Rightarrow> city_desc list \<Rightarrow> string list \<Rightarrow> nat \<Rightarrow> planes_state \<Rightarrow> bool" where
  "planes_inv ns cnames ps names i st \<longleftrightarrow>
     pl_allocs st = [] \<and> pl_products st = catalogue (intern_all ns (goods (take i ps))) \<and>
     pl_planes st = planes_of names cnames (take i ps) \<and>
     (i < length ps \<longrightarrow>
       (if i = 0 then pl_first st \<and> tokens (pl_text st) = city_tokens ps
        else \<not> pl_first st \<and> tokens (pl_text st) = tl (city_tokens (drop i ps)) \<and>
          pl_cityName st = Some (fst (ps ! i))))"

lemma read_plane_name:
  assumes "planes_inv ns cnames ps names i st" "planes_ok cnames ps" "i < length ps"
  shows "\<exists>text. (if pl_first st then do {
          (_, vals, text') \<leftarrow> fscanf (fmt_name CITY_NAME_MAX_LENGTH) (pl_text st);
          Some (stored_word vals (pl_cityName st), text')
        } else Some (pl_cityName st, pl_text st)) = Some (Some (fst (ps ! i)), text) \<and>
    tokens text = item_tokens (snd (ps ! i)) @ city_tokens (drop (Suc i) ps)"
proof -
  obtain c items where c: "ps ! i = (c, items)"
    by (cases "ps ! i")
  have pok: "list_all city_ok ps"
    using assms(2) by (simp add: planes_ok_def)
  note d = drop_city [OF c assms(3) pok]
  have toks: "city_tokens (drop i ps) = c # item_tokens items @ city_tokens (drop (Suc i) ps)"
    by (simp add: d(1))
  show ?thesis
  proof (cases "i = 0")
    case True
    then have "tokens (pl_text st) = c # item_tokens items @ city_tokens (drop (Suc 0) ps)"
      "length c < CITY_NAME_MAX_LENGTH"
      using assms(1,3) toks d(2) by (auto simp: planes_inv_def city_ok_def name_ok_def)
    then obtain t where "fscanf (fmt_name CITY_NAME_MAX_LENGTH) (pl_text st) = Some (1, [Str c], t)"
      "tokens t = item_tokens items @ city_tokens (drop (Suc 0) ps)"
      by (rule fscanf_name)
    then show ?thesis
      using assms(1,3) True c by (simp add: planes_inv_def)
  next
    case False
    then show ?thesis
      using assms(1,3) toks c by (simp add: planes_inv_def)
  qed
qed

text \<open>What the loop over the stocks of a plane ends with.\<close>

lemma plane_rest:
  assumes "planes_ok cnames ps" "i < length ps" "tokens t = city_tokens (drop (Suc i) ps)"
  shows "\<exists>r. read_stocks [] t products vec b a = Some (Next r) \<and> sr_vec r = vec \<and> sr_products r = products \<and>
    sr_allocs r = [] \<and>
    (Suc i < length ps \<longrightarrow> sr_state r = 1 \<and> sr_buffer r = Some (fst (ps ! Suc i)) \<and>
      tokens (sr_text r) = tl (city_tokens (drop (Suc i) ps)))"
proof (cases "Suc i < length ps")
  case False
  then have "tokens t = []"
    using assms(3) by simp
  then show ?thesis
    using False by (simp add: read_stocks_end)
next
  case True
  obtain c items where c: "ps ! Suc i = (c, items)"
    by (cases "ps ! Suc i")
  have pok: "list_all city_ok ps" "items \<noteq> []"
    using assms(1) True c by (auto simp: planes_ok_def list_all_length)
  note d = drop_city [OF c True pok(1)]
  obtain w v its where items: "items = (w, v) # its"
    using pok(2) by (cases items) auto
  have "tokens t = c # w # print_int v # item_tokens its @ city_tokens (drop (Suc (Suc i)) ps)"
    "length c < CITY_NAME_MAX_LENGTH" "not_numeric w"
    using d assms(3) by (simp_all add: items city_ok_def name_ok_def item_ok_def)
  then obtain t' where "tokens t' = w # print_int v # item_tokens its @ city_tokens (drop (Suc (Suc i)) ps)"
    "read_stocks [] t products vec b a =
    Some (Next \<lparr>sr_state = 1, sr_vec = vec, sr_products = products, sr_buffer = Some c, sr_aux = a,
      sr_text = t', sr_allocs = []\<rparr>)"
    using read_stocks_word by metis
  then show ?thesis
    using c d(1) by (simp add: items)
qed

lemma parse_plane_step:
  assumes inv: "planes_inv ns cnames ps names i st" and names: "names = intern_all ns (goods ps)"
    and cnames: "cnames = map fst cs" and ok: "planes_ok cnames ps" and i: "i < length ps"
    and size: "length ns + length (goods ps) < 2147483647" "length cs < 2147483648" and ns: "distinct ns"
  shows "\<exists>st'. parse_plane (length ps) (vec_of (cities_of cnames' cs)) i st = Some (Next st') \<and>
    planes_inv ns cnames ps names (Suc i) st'"
proof -
  let ?items = "snd (ps ! i)"
  let ?n = "intern_all ns (goods (take i ps))"
  let ?n' = "intern_all ns (goods (take (Suc i) ps))"
  obtain t1 where t1: "(if pl_first st then do {
          (_, vals, text') \<leftarrow> fscanf (fmt_name CITY_NAME_MAX_LENGTH) (pl_text st);
          Some (stored_word vals (pl_cityName st), text')
        } else Some (pl_cityName st, pl_text st)) = Some (Some (fst (ps ! i)), t1)"
    "tokens t1 = item_tokens ?items @ city_tokens (drop (Suc i) ps)"
    using read_plane_name [OF inv ok i] by blast
  have st: "pl_allocs st = []" "pl_products st = catalogue ?n" "pl_planes st = planes_of names cnames (take i ps)"
    using inv by (simp_all add: planes_inv_def)
  have known: "fst (ps ! i) \<in> fst ` set cs" and iok: "list_all item_ok ?items"
    using ok i by (auto simp: planes_ok_def list_all_length cnames city_ok_def split_def)
  have n': "intern_all ?n (map fst ?items) = ?n'"
    by (simp add: goods_take_Suc [OF i] intern_all_append)
  have "length ?n + length ?items < 2147483647"
    using length_intern_all [of ns "goods (take i ps)"] goods_length [OF i] size by simp
  then obtain t2 b2 a2 where t2: "tokens t2 = city_tokens (drop (Suc i) ps)"
    "read_stocks [] t1 (catalogue ?n) (vec_of []) (pl_buffer st) (pl_stockAmount st) =
     read_stocks [] t2 (catalogue ?n') (vec_of (stocks_of ?n' ?items)) b2 a2"
    using read_stocks_items [where names = ?n and ss = "[]" and b = "pl_buffer st" and a = "pl_stockAmount st",
        OF t1(2) iok distinct_intern_all [OF ns]]
    by (auto simp: n')
  obtain r where r: "read_stocks [] t2 (catalogue ?n') (vec_of (stocks_of ?n' ?items)) b2 a2 = Some (Next r)"
    "sr_vec r = vec_of (stocks_of ?n' ?items)" "sr_products r = catalogue ?n'" "sr_allocs r = []"
    "Suc i < length ps \<Longrightarrow> sr_state r = 1 \<and> sr_buffer r = Some (fst (ps ! Suc i)) \<and>
      tokens (sr_text r) = tl (city_tokens (drop (Suc i) ps))"
    using plane_rest [OF ok i t2(1)] by blast
  have p: "plane_of names cnames i (ps ! i) =
      \<lparr>plane_id = int i, plane_stocks = vec_of (stocks_of ?n' ?items),
       plane_cityId = int (index_of (fst (ps ! i)) (map fst cs)), plane_distance = 0\<rparr>"
    using stocks_of_goods [OF i, of ns] by (simp add: plane_of_def names cnames)
  let ?st' = "\<lparr>pl_text = sr_text r, pl_allocs = [], pl_first = (pl_first st \<and> sr_state r \<noteq> 1),
    pl_cityName = (if sr_state r = 1 then sr_buffer r else Some (fst (ps ! i))),
    pl_buffer = sr_buffer r, pl_stockAmount = sr_aux r, pl_products = catalogue ?n',
    pl_planes = planes_of names cnames (take (Suc i) ps)\<rparr>"
  have "parse_plane (length ps) (vec_of (cities_of cnames' cs)) i st = Some (Next ?st')"
    using t1(1) st known size(2) t2(2) r(1-4) p planes_of_snoc [OF i, of names cnames]
    by (simp add: parse_plane_def getCityId_cities)
  moreover have "planes_inv ns cnames ps names (Suc i) ?st'"
    using r(5) by (simp add: planes_inv_def)
  ultimately show ?thesis
    by blast
qed

lemma parseAirlines_planes:
  assumes "tokens text = print_int (int (length ps)) # city_tokens ps" "planes_ok (map fst cs) ps"
    and m: "map_cities m = vec_of (cities_of cnames cs)" "map_product m = catalogue ns" "distinct ns"
    and size: "length ns + length (goods ps) < 2147483647" "length cs < 2147483648"
    and names: "names = intern_all ns (goods ps)"
  shows "parseAirlines [] (Some text) m =
    Some (Some \<lparr>airline_id = 0, airline_numberOfPlanes = length ps, airline_planes = planes_of names (map fst cs) ps\<rparr>,
      m\<lparr>map_product := catalogue names\<rparr>)"
proof -
  have "length ps < 4294967296"
    using assms(2) by (simp add: planes_ok_def)
  with assms(1) obtain t where t: "fscanf fmt_planes text = Some (1, [Num (int (length ps))], t)" "tokens t = city_tokens ps"
    by (rule fscanf_planes)
  let ?body = "\<lambda>i st. map_option (\<lambda>r. case r of Exit ps \<Rightarrow> Exit (None :: airline option, m\<lparr>map_product := ps\<rparr>) | Next st' \<Rightarrow> Next st')
    (parse_plane (length ps) (vec_of (cities_of cnames cs)) i st)"
  let ?st = "\<lparr>pl_text = t, pl_allocs = [], pl_first = True, pl_cityName = None, pl_buffer = None,
    pl_stockAmount = None, pl_products = catalogue ns, pl_planes = []\<rparr>"
  note step = parse_plane_step [OF _ refl refl assms(2) _ size m(3)]
  have "\<exists>st. for_loop (length ps) 0 ?body ?st = Some (Next st) \<and>
      planes_inv ns (map fst cs) ps (intern_all ns (goods ps)) (0 + length ps) st"
  proof (rule for_loop_invariant [where I = "\<lambda>i s. planes_inv ns (map fst cs) ps (intern_all ns (goods ps)) i s"])
    show "planes_inv ns (map fst cs) ps (intern_all ns (goods ps)) 0 ?st"
      using t(2) by (simp add: planes_inv_def planes_of_def)
    fix j s
    assume "j < 0 + length ps" "planes_inv ns (map fst cs) ps (intern_all ns (goods ps)) j s"
    then show "\<exists>s'. ?body j s = Some (Next s') \<and> planes_inv ns (map fst cs) ps (intern_all ns (goods ps)) (Suc j) s'"
      using step [of j s cnames] by auto
  qed
  then obtain st where st: "for_loop (length ps) 0 ?body ?st = Some (Next st)"
    "pl_products st = catalogue names" "pl_planes st = planes_of names (map fst cs) ps"
    by (auto simp: planes_inv_def names)
  show ?thesis
    using st t(1) by (simp add: parseAirlines_def m Let_def)
qed

lemma parseAirlines_described:
  assumes "tokens text = print_int (int (length ps)) # city_tokens ps" "planes_ok (map fst cs) ps"
    and size: "length (goods cs) + length (goods ps) < 2147483647" "length cs < 2147483648"
    and names: "names = intern_all [] (goods cs @ goods ps)"
  shows "parseAirlines [] (Some text) (described_map cs m) =
    Some (Some \<lparr>airline_id = 0, airline_numberOfPlanes = length ps, airline_planes = planes_of names (map fst cs) ps\<rparr>,
      (described_map cs m)\<lparr>map_product := catalogue names\<rparr>)"
  using length_intern_all [of "[]" "goods cs"] size
  by (intro parseAirlines_planes [OF assms(1,2), where cnames = "intern_all [] (goods cs)" and ns = "intern_all [] (goods cs)"])
    (simp_all add: described_map_def names intern_all_append distinct_intern_all)

end
