(* ===== verification/Parsed_Map.thy ===== *)
theory Parsed_Map
  imports Parser_Spec Map_Process
begin

text \<open>
  A parsed map is a map the simulation can run on: amounts that are not negative and fit an
  \<open>int\<close> together, something wanted in every city, roads of positive length between different
  cities, short enough for the sums of \<open>floydMatrix\<close>.
\<close>

definition wanted :: "city_desc list \<Rightarrow> int" where
  "wanted cs = (\<Sum>(c, items) \<leftarrow> cs. \<Sum>(w, a) \<leftarrow> items. a)"

definition playable :: "city_desc list \<Rightarrow> road_desc list \<Rightarrow> int \<Rightarrow> bool" where
  "playable cs roads M \<longleftrightarrow>
     list_all (\<lambda>(c, items). items \<noteq> [] \<and> list_all (\<lambda>(w, a). 0 \<le> a) items) cs \<and> in_int (wanted cs) \<and>
     list_all (\<lambda>(a, b, d). a \<noteq> b \<and> 0 \<le> d \<and> d \<le> M) roads \<and> 0 \<le> M \<and> 2 * int (length cs - 1) * M \<le> INT_MAX"

section \<open>The roads\<close>

lemma index_of_inj: "a \<in> set names \<Longrightarrow> b \<in> set names \<Longrightarrow> index_of a names = index_of b names \<Longrightarrow> a = b"
  by (metis index_of_nth)

lemma put_road_entries:
  assumes "square (length names) m" "road_ok names (a, b, d)" "x < length names" "y < length names"
  shows "entries (put_road names (a, b, d) m) x y =
    (if (x = index_of a names \<and> y = index_of b names) \<or> (x = index_of b names \<and> y = index_of a names) then d
     else entries m x y)"
proof -
  have ij: "index_of a names < length names" "index_of b names < length names"
    using assms(2) by (auto simp: road_ok_def index_of_less)
  let ?m1 = "m[index_of a names := (m ! index_of a names)[index_of b names := d]]"
  have "entries (put_road names (a, b, d) m) x y = ?m1[index_of b names := (?m1 ! index_of b names)[index_of a names := d]] ! x ! y"
    by (simp only: put_road_def Let_def entries_def prod.case)
  also have "\<dots> = (if x = index_of b names \<and> y = index_of a names then d else ?m1 ! x ! y)"
    by (rule nth_mat_update [OF square_update [OF assms(1) ij(1)] ij(2,1) assms(3,4)])
  also have "?m1 ! x ! y = (if x = index_of a names \<and> y = index_of b names then d else m ! x ! y)"
    by (rule nth_mat_update [OF assms(1) ij assms(3,4)])
  finally show ?thesis
    unfolding entries_def by presburger
qed

lemma road_matrix_entries:
  assumes "list_all (road_ok names) roads" "list_all (\<lambda>(a, b, d). a \<noteq> b \<and> 0 \<le> d \<and> d \<le> M) roads" "0 \<le> M"
    and "x < length names" "y < length names"
  shows "(x = y \<longrightarrow> entries (road_matrix names roads) x y = 0) \<and>
    0 \<le> entries (road_matrix names roads) x y \<and> entries (road_matrix names roads) x y \<le> M"
proof -
  have "(x = y \<longrightarrow> entries (fold (put_road names) roads m) x y = 0) \<and>
      0 \<le> entries (fold (put_road names) roads m) x y \<and> entries (fold (put_road names) roads m) x y \<le> M"
    if "square (length names) m" "(x = y \<longrightarrow> entries m x y = 0) \<and> 0 \<le> entries m x y \<and> entries m x y \<le> M" for m
    using assms(1,2) that
  proof (induction roads arbitrary: m)
    case (Cons r roads)
    obtain a b d where r: "r = (a, b, d)"
      by (cases r)
    have ab: "a \<noteq> b" "a \<in> set names" "b \<in> set names" "0 \<le> d" "d \<le> M" "road_ok names (a, b, d)"
      using Cons.prems(1,2) by (auto simp: r road_ok_def)
    note e = put_road_entries [OF Cons.prems(3) ab(6) assms(4,5)]
    have "(x = y \<longrightarrow> entries (put_road names r m) x y = 0) \<and> 0 \<le> entries (put_road names r m) x y \<and>
        entries (put_road names r m) x y \<le> M"
      using Cons.prems(4) index_of_inj [OF ab(2,3)] ab(1,4,5) unfolding r e by auto
    then show ?case
      using Cons.IH [OF _ _ square_put_road [OF Cons.prems(3)]] Cons.prems(1,2) by simp
  qed simp
  then show ?thesis
    using assms(3-5) by (simp add: road_matrix_def square_zero entries_def)
qed

text \<open>All distances are computed, and fit.\<close>

lemma parsed_distances:
  assumes "desc_ok cs roads" "playable cs roads M"
  shows "\<exists>m. floydMatrix (road_matrix (map fst cs) roads) (length cs) = Some m \<and> square (length cs) m \<and>
    shortest (length cs) (length cs) (entries (road_matrix (map fst cs) roads)) (entries m) \<and>
    list_all (list_all (\<lambda>d. 0 \<le> d \<and> in_int d)) m"
proof -
  let ?W = "road_matrix (map fst cs) roads"
  let ?n = "length cs"
  have rok: "list_all (road_ok (map fst cs)) roads"
    using assms(1) by (simp add: desc_ok_def)
  have M: "list_all (\<lambda>(a, b, d). a \<noteq> b \<and> 0 \<le> d \<and> d \<le> M) roads" "0 \<le> M" "2 * int (?n - 1) * M \<le> INT_MAX"
    using assms(2) by (simp_all add: playable_def)
  have sq: "square ?n ?W"
    using square_road_matrix [OF rok] by simp
  note ent = road_matrix_entries [OF rok M(1,2), unfolded length_map]
  obtain m where m: "floydMatrix ?W ?n = Some m" "square ?n m" "shortest ?n ?n (entries ?W) (entries m)"
    using floydMatrix_shortest [OF sq _ _ M(2,3)] ent by blast
  have "0 \<le> entries m i j \<and> in_int (entries m i j)" if "i < ?n" "j < ?n" for i j
  proof -
    have "entries m i j \<le> int (?n - 1) * M"
      using ent that M(2) by (intro shortest_bound [OF m(3)]) auto
    moreover have "0 \<le> int (?n - 1) * M"
      using M(2) by simp
    ultimately show ?thesis
      using shortest_nonneg [OF m(3) that] M(3) by (simp add: in_int_def INT_MIN_def)
  qed
  then have "list_all (list_all (\<lambda>d. 0 \<le> d \<and> in_int d)) m"
    using square_length [OF m(2)] square_row [OF m(2)] by (simp add: list_all_length entries_def)
  with m show ?thesis
    by blast
qed

section \<open>The cities\<close>

lemma total_stocks_of: "total_amount (stocks_of names items) = (\<Sum>(w, a) \<leftarrow> items. a)"
  by (simp add: total_amount_def stocks_of_def o_def split_def)

lemma described_city:
  assumes "desc_ok cs roads" "playable cs roads M" "c \<in> set cs"
  shows "stocks_wf (vec_of (stocks_of names (snd c)))" "stocks_of names (snd c) \<noteq> []"
proof -
  obtain i where i: "i < length cs" "c = cs ! i"
    using assms(3) by (metis in_set_conv_nth)
  have "length (snd c) < 2147483648"
    using goods_length [OF i(1)] assms(1) i(2) by (simp add: desc_ok_def)
  moreover have "list_all item_ok (snd c)" "list_all (\<lambda>(w, a). 0 \<le> a) (snd c)" "snd c \<noteq> []"
    using assms by (auto simp: desc_ok_def playable_def city_ok_def list_all_iff split_def)
  ultimately show "stocks_wf (vec_of (stocks_of names (snd c)))" "stocks_of names (snd c) \<noteq> []"
    by (auto simp: stocks_wf_def stocks_of_def list_all_iff stock_wf_def item_ok_def)
qed

lemma demand_described: "demand (described_map cs m) = wanted cs"
proof -
  have "map (\<lambda>c. total_amount (vlist (city_stock c))) (cities_of names cs) = map (\<lambda>(c, items). \<Sum>(w, a) \<leftarrow> items. a) cs" for names
    by (rule nth_equalityI) (simp_all add: cities_of_def city_of_def total_stocks_of split_def)
  then show ?thesis
    by (simp add: demand_def described_map_def wanted_def)
qed

lemma set_cities_of: "c \<in> set (cities_of names cs) \<Longrightarrow> \<exists>d \<in> set cs. vlist (city_stock c) = stocks_of names (snd d) \<and>
    city_stock c = vec_of (stocks_of names (snd d))"
  by (auto simp: cities_of_def city_of_def)

lemma names_fit_catalogue:
  assumes "\<And>w. w \<in> set names \<Longrightarrow> length w < CITY_NAME_MAX_LENGTH"
  shows "names_fit (catalogue names)"
  using assms by (simp add: names_fit_def catalogue_def list_all_iff)

lemma goods_fit:
  assumes "list_all city_ok cs" "w \<in> set (goods cs)"
  shows "length w < CITY_NAME_MAX_LENGTH"
  using assms by (fastforce simp: goods_def list_all_iff city_ok_def item_ok_def)

lemma described_sim_wf:
  assumes ok: "desc_ok cs roads" and play: "playable cs roads M"
    and m: "square (length cs) m" "list_all (list_all (\<lambda>d. 0 \<le> d \<and> in_int d)) m"
  shows "sim_wf (described_map cs m)"
proof -
  let ?names = "intern_all [] (goods cs)"
  let ?cities = "cities_of ?names cs"
  have size: "list_all city_ok cs" "length cs < 2147483648" "length (goods cs) < 2147483648"
    using ok by (simp_all add: desc_ok_def)
  have "products_wf (catalogue ?names)"
    using length_intern_all [of "[]" "goods cs"] size by (intro catalogue_wf) (auto simp: distinct_intern_all)
  moreover have "stocks_wf (city_stock c) \<and> vlist (city_stock c) \<noteq> []" if "c \<in> set ?cities" for c
    using set_cities_of [OF that] described_city [OF ok play, of _ ?names] by auto
  moreover have "names_fit (catalogue ?names)"
    using goods_fit [OF size(1)] by (intro names_fit_catalogue) (simp add: set_intern_all)
  moreover have "in_int (demand (described_map cs m))"
    using play by (simp add: demand_described playable_def)
  ultimately show ?thesis
    using m size
    by (simp add: sim_wf_def map_wf_def routes_wf_def described_map_def list_all_iff demand_def)
qed

end
