(* ===== verification/Properties_Parser.thy ===== *)
theory Properties_Parser
  imports Parsed_Map
begin

text \<open>
  The properties of \<open>parser.c\<close>: what it reads from the files of a configuration, and the two
  ways in which it goes wrong.
\<close>

section \<open>A sample configuration\<close>

definition sample_cities :: "city_desc list" where
  "sample_cities = [(''Rosario'', [(''Aspirina'', 100), (''Ibuprofeno'', 50)]), (''Cordoba'', [(''Aspirina'', 50)])]"

definition sample_connections :: "road_desc list" where
  "sample_connections = [(''Rosario'', ''Cordoba'', 7)]"

definition newline :: string where
  "newline = [CHR 0x0D, CHR 0x0A]"

definition sample_file :: string where
  "sample_file = ''2'' @ newline @ newline @ ''Rosario'' @ newline @ ''Aspirina 100'' @ newline @
     ''Ibuprofeno 50'' @ newline @ newline @ ''Cordoba'' @ newline @ ''Aspirina 50'' @ newline @ newline @
     ''Rosario Cordoba 7'' @ newline"

lemmas read_tokens = tokens.simps skip_space_def isspace_def newline_def

lemmas names_ok_defs = city_ok_def road_ok_def item_ok_def name_ok_def word_ok_def not_numeric_def is_digit_def
  isspace_def CITY_NAME_MAX_LENGTH_def in_int_def INT_MIN_def INT_MAX_def

lemma sample_numbers: "map print_int [1, 2, 7, 20, 50, 100, 500] = [''1'', ''2'', ''7'', ''20'', ''50'', ''100'', ''500'']"
  by code_simp

lemma sample_file_ok: "tokens sample_file = map_tokens sample_cities sample_connections"
proof -
  have "tokens sample_file = [''2'', ''Rosario'', ''Aspirina'', ''100'', ''Ibuprofeno'', ''50'', ''Cordoba'',
      ''Aspirina'', ''50'', ''Rosario'', ''Cordoba'', ''7'']"
    by (simp add: read_tokens sample_file_def)
  then show ?thesis
    using sample_numbers by (simp add: map_tokens_def sample_cities_def sample_connections_def)
qed

lemma sample_desc_ok: "desc_ok sample_cities sample_connections" "playable sample_cities sample_connections 7"
  by (simp_all add: desc_ok_def playable_def sample_cities_def sample_connections_def wanted_def names_ok_defs)

definition sample_airline :: string where
  "sample_airline = ''1'' @ newline @ newline @ ''Cordoba'' @ newline @ ''Paracetamol 500'' @ newline @ ''Aspirina 20''"

definition sample_planes :: "city_desc list" where
  "sample_planes = [(''Cordoba'', [(''Paracetamol'', 500), (''Aspirina'', 20)])]"

lemma sample_airline_ok: "tokens sample_airline = print_int (int (length sample_planes)) # city_tokens sample_planes"
proof -
  have "tokens sample_airline = [''1'', ''Cordoba'', ''Paracetamol'', ''500'', ''Aspirina'', ''20'']"
    by (simp add: read_tokens sample_airline_def)
  then show ?thesis
    using sample_numbers by (simp add: sample_planes_def)
qed

lemma sample_planes_ok: "planes_ok (map fst sample_cities) sample_planes"
  by (simp add: planes_ok_def sample_planes_def sample_cities_def names_ok_defs)

section \<open>What is read\<close>

text \<open>
  C12. \<open>parseMap\<close> reads back every map that is written as the words of a description, whatever
  white space separates them: the cities in order with their stocks, the catalogue of the
  products in the order in which they first occur, and \<open>floydMatrix\<close> of the connections.
\<close>

theorem parseMap_round_trip:
  assumes "tokens text = map_tokens cs roads" "desc_ok cs roads"
  shows "parseMap [] (Some text) =
    (case floydMatrix (road_matrix (map fst cs) roads) (length cs) of
       None \<Rightarrow> None
     | Some m \<Rightarrow> Some (Some
         \<lparr>map_cities = vec_of (cities_of (intern_all [] (goods cs)) cs),
          map_product = catalogue (intern_all [] (goods cs)), map_matrix = m\<rparr>))"
  using parseMap_described [OF assms] by (simp add: described_map_def split: option.split)

theorem parseMap_round_trip_witness:
  "parseMap [] (Some sample_file) = Some (Some
     \<lparr>map_cities = vec_of (cities_of (intern_all [] (goods sample_cities)) sample_cities),
      map_product = catalogue [''Aspirina'', ''Ibuprofeno''], map_matrix = [[0, 7], [7, 0]]\<rparr>)"
proof -
  have "floydMatrix (road_matrix (map fst sample_cities) sample_connections) (length sample_cities) = Some [[0, 7], [7, 0]]"
    by code_simp
  moreover have "intern_all [] (goods sample_cities) = [''Aspirina'', ''Ibuprofeno'']"
    by code_simp
  ultimately show ?thesis
    by (simp add: parseMap_round_trip [OF sample_file_ok sample_desc_ok(1)])
qed

text \<open>
  C22. A description with amounts and roads in range is parsed into a well-formed map: what it
  demands is what the file asks for, and its matrix holds the lengths of the shortest routes
  over the connections of the file.
\<close>

theorem parseMap_well_formed:
  assumes "tokens text = map_tokens cs roads" "desc_ok cs roads" "playable cs roads M"
  shows "\<exists>m. parseMap [] (Some text) = Some (Some m) \<and> sim_wf m \<and> demand m = wanted cs \<and>
    shortest (length cs) (length cs) (entries (road_matrix (map fst cs) roads)) (entries (map_matrix m))"
proof -
  obtain m where m: "floydMatrix (road_matrix (map fst cs) roads) (length cs) = Some m" "square (length cs) m"
    "shortest (length cs) (length cs) (entries (road_matrix (map fst cs) roads)) (entries m)"
    "list_all (list_all (\<lambda>d. 0 \<le> d \<and> in_int d)) m"
    using parsed_distances [OF assms(2,3)] by blast
  then show ?thesis
    using parseMap_described [OF assms(1,2)] described_sim_wf [OF assms(2,3) m(2,4)]
    by (intro exI [of _ "described_map cs m"]) (simp add: demand_described, simp add: described_map_def)
qed

theorem parseMap_well_formed_witness:
  "\<exists>m. parseMap [] (Some sample_file) = Some (Some m) \<and> demand m = 200"
proof -
  have "wanted sample_cities = 200"
    by code_simp
  then show ?thesis
    using parseMap_well_formed [OF sample_file_ok sample_desc_ok] by auto
qed

text \<open>
  C21. \<open>parseAirlines\<close> reads back the planes of an airline: each in its city, with its stocks;
  new products are appended to the catalogue of the map, so that the ids agree.
\<close>

theorem parseAirlines_round_trip:
  assumes "tokens text = print_int (int (length ps)) # city_tokens ps" "planes_ok (map fst cs) ps"
    and "length (goods cs) + length (goods ps) < 2147483647" "length cs < 2147483648"
    and "names = intern_all [] (goods cs @ goods ps)"
  shows "parseAirlines [] (Some text) (described_map cs m) =
    Some (Some \<lparr>airline_id = 0, airline_numberOfPlanes = length ps, airline_planes = planes_of names (map fst cs) ps\<rparr>,
      (described_map cs m)\<lparr>map_product := catalogue names\<rparr>)"
  by (rule parseAirlines_described [OF assms])

theorem parseAirlines_round_trip_witness:
  "parseAirlines [] (Some sample_airline) (described_map sample_cities [[0, 7], [7, 0]]) =
    Some (Some \<lparr>airline_id = 0, airline_numberOfPlanes = 1,
        airline_planes = planes_of [''Aspirina'', ''Ibuprofeno'', ''Paracetamol''] [''Rosario'', ''Cordoba''] sample_planes\<rparr>,
      (described_map sample_cities [[0, 7], [7, 0]])\<lparr>map_product := catalogue [''Aspirina'', ''Ibuprofeno'', ''Paracetamol'']\<rparr>)"
proof -
  have n: "[''Aspirina'', ''Ibuprofeno'', ''Paracetamol''] = intern_all [] (goods sample_cities @ goods sample_planes)"
    by code_simp
  have l: "length sample_planes = 1" "map fst sample_cities = [''Rosario'', ''Cordoba'']"
    "length (goods sample_cities) + length (goods sample_planes) < 2147483647" "length sample_cities < 2147483648"
    by (simp_all add: sample_planes_def sample_cities_def)
  show ?thesis
    using parseAirlines_round_trip [OF sample_airline_ok sample_planes_ok l(3,4) n] l(1,2) by simp
qed

section \<open>From the file to the end of the simulation\<close>

text \<open>
  The simulation of a parsed map is safe: after \<open>parseMap\<close> has read a good file, \<open>runMap\<close>
  on its result never does anything undefined, however the airlines' messages are ordered.
\<close>

theorem parsed_simulation_safe:
  assumes "tokens text = map_tokens cs roads" "desc_ok cs roads" "playable cs roads M"
    and "conns_wf conns (getVectorSize airlines)" "vec_inv airlines"
  shows "\<exists>m. parseMap [] (Some text) = Some (Some m) \<and>
    (list_all (msg_ok (getVectorSize airlines) m) inbox \<longrightarrow>
      runMap 70000 airlines conns (st\<lparr>ms_map := m\<rparr>) inbox \<noteq> Faults)"
proof -
  obtain m where m: "floydMatrix (road_matrix (map fst cs) roads) (length cs) = Some m" "square (length cs) m"
    "list_all (list_all (\<lambda>d. 0 \<le> d \<and> in_int d)) m"
    using parsed_distances [OF assms(2,3)] by blast
  have "runMap 70000 airlines conns (st\<lparr>ms_map := described_map cs m\<rparr>) inbox \<noteq> Faults"
    if "list_all (msg_ok (getVectorSize airlines) (described_map cs m)) inbox"
    using runMap_result [of "st\<lparr>ms_map := described_map cs m\<rparr>" conns airlines inbox]
      described_sim_wf [OF assms(2,3) m(2,3)] assms(4,5) that
    by (auto simp: run_result_def)
  then show ?thesis
    using parseMap_described [OF assms(1,2)] m(1) by auto
qed

theorem parsed_simulation_safe_witness:
  "\<exists>m. parseMap [] (Some sample_file) = Some (Some m) \<and>
    runMap 70000 (vec_of [\<lparr>airline_id = 0, airline_numberOfPlanes = 0, airline_planes = []\<rparr>]) (vec_of [0])
      \<lparr>ms_map = m, ms_turn = 0, ms_sent = [], ms_output = [], ms_writes = [], ms_exits = []\<rparr>
      [PM_Type MessageTypeAirlineDone] \<noteq> Faults"
proof -
  let ?as = "vec_of [\<lparr>airline_id = 0, airline_numberOfPlanes = 0, airline_planes = []\<rparr>] :: airline vector"
  have "conns_wf (vec_of [0]) (getVectorSize ?as)" "vec_inv ?as"
    by (simp_all add: conns_wf_def upt_rec)
  from parsed_simulation_safe [OF sample_file_ok sample_desc_ok this, of "[PM_Type MessageTypeAirlineDone]"
      "\<lparr>ms_map = undefined, ms_turn = 0, ms_sent = [], ms_output = [], ms_writes = [], ms_exits = []\<rparr>"]
  show ?thesis
    by auto
qed

section \<open>What goes wrong\<close>

text \<open>
  C39. A map of one city, which has no connections, cannot be read: \<open>buffer\<close> still holds the
  last product, so the parser takes it for a city of a connection and compares the rest of
  the line, which was never read, with the names of the cities.
\<close>

theorem parseMap_without_connections:
  assumes "tokens text = print_int 1 # c # item_tokens items" "city_ok (c, items)" "items \<noteq> []"
    and "length items < 2147483647"
  shows "parseMap [] (Some text) = None"
proof -
  have c: "length c < CITY_NAME_MAX_LENGTH" "list_all item_ok items"
    using assms(2) by (simp_all add: city_ok_def name_ok_def)
  obtain t where t: "fscanf fmt_count text = Some (1, [Num 1], t)" "tokens t = c # item_tokens items"
    using assms(1) by (rule fscanf_count) (simp add: in_int_def INT_MIN_def INT_MAX_def)
  obtain t1 where t1: "fscanf (fmt_name CITY_NAME_MAX_LENGTH) t = Some (1, [Str c], t1)" "tokens t1 = item_tokens items @ []"
    using fscanf_name [OF t(2) c(1)] by auto
  obtain t2 a2 where t2: "tokens t2 = []"
    "read_stocks [] t1 (catalogue []) (vec_of []) None None =
     read_stocks [] t2 (catalogue (intern_all [] (map fst items))) (vec_of (stocks_of (intern_all [] (map fst items)) items))
       (Some (fst (last items))) a2"
    using read_stocks_items [where names = "[]" and ss = "[]" and b = None and a = None, OF t1(2) c(2)] assms(3,4)
    by auto
  have "item_ok (last items)"
    using assms(3) c(2) by (simp add: list_all_iff)
  then have w: "fst (last items) \<noteq> []"
    by (cases "last items") (auto simp: item_ok_def word_ok_def)
  have set0: "arr_set (arr_new (Suc 0)) 0 c = Some [Some c]" and get0: "arr_get [Some c] 0 = Some c"
    by (simp_all add: arr_set_def arr_new_def arr_get_def)
  show ?thesis
    using t(1) t1(1) t2(2) read_stocks_end [OF t2(1)] set0 get0 w
    by (simp add: parseMap_def parse_cities_def parse_city_def read_name_def and_next_def add_city_def
        addToVector_vec_of finish_map_def parse_roads_def fscanf_pair_end read_roads.simps catalogue_Nil)
qed

theorem parseMap_without_connections_witness:
  "parseMap [] (Some (''1'' @ newline @ ''Rosario'' @ newline @ ''Aspirina 100'' @ newline)) = None"
proof (rule parseMap_without_connections)
  show "tokens (''1'' @ newline @ ''Rosario'' @ newline @ ''Aspirina 100'' @ newline) =
      print_int 1 # ''Rosario'' # item_tokens [(''Aspirina'', 100)]"
  proof -
    have "tokens (''1'' @ newline @ ''Rosario'' @ newline @ ''Aspirina 100'' @ newline) =
        [''1'', ''Rosario'', ''Aspirina'', ''100'']"
      by (simp add: read_tokens)
    then show ?thesis
      using sample_numbers by simp
  qed
  show "city_ok (''Rosario'', [(''Aspirina'', 100)])"
    by code_simp
qed simp_all









end
