(* ===== verification/Process_Steps.thy ===== *)
theory Process_Steps
  imports Plane_Thread Map_Process
begin

text \<open>
  The loops of \<open>app/plane.c\<close> and \<open>runMap\<close> cut at the points where they wait for a message or
  where another thread can see what they did. A program counter names the point; an action
  runs the code from one point to the next. The actions do exactly what the loops do
  (\<open>plane_runs_enough\<close>, \<open>map_runs_run_turns\<close>), but several processes can be interleaved.
\<close>

section \<open>The thread of a plane\<close>

text \<open>
  Before the loop condition, after \<open>comm_step\<close>, inside \<open>comm_unload_stock\<close> after its
  \<open>transmit\<close>, before the first \<open>app_airline_plane_ready\<close>, before \<open>comm_continue\<close>, after it, inside
  \<open>comm_check_destinations\<close> after its \<open>transmit\<close>, before the second \<open>app_airline_plane_ready\<close>, ended.
\<close>

datatype plane_pc =
    At_Top
  | At_Phase1
  | At_Stock
  | At_Ready1
  | At_Continue
  | At_Phase2
  | At_Destinations
  | At_Ready2
  | Gone

text \<open>\<open>run_plane\<close> returns: \<open>self->done = 1\<close>.\<close>

definition finish_plane :: "plane_pc thread_op" where
  "finish_plane = and_then (change (\<lambda>st. st\<lparr>pt_done := True\<rparr>)) (\<lambda>_. go Gone)"

definition wait_step :: "plane_pc thread_op" where
  "wait_step =
     and_then (read_state pt_done) (\<lambda>done.
     if done then finish_plane
     else and_then comm_step (\<lambda>r. if r = - 1 then finish_plane else go At_Phase1))"

text \<open>The part of \<open>comm_unload_stock\<close> before the answer, and the part after it.\<close>

definition ask_stock :: "bool thread_op" where
  "ask_stock =
     and_then (read_state (\<lambda>st. marshall_change_stock (pt_airline st) (plane_id (pt_plane st))
       (plane_cityId (pt_plane st)) (plane_stocks (pt_plane st)))) (\<lambda>m.
     and_then (lift_option m) (\<lambda>msg. transmit_map (PM_StockState msg)))"

definition take_stock :: "nat \<Rightarrow> (int \<times> int arr) thread_op" where
  "take_stock len =
     and_then pop_message (\<lambda>res.
       if msg_type res \<noteq> MessageTypeStock then go (- 1, [])
       else (case msg_payload res of
               P_Stock n delta \<Rightarrow> and_then (lift_option (copy_cells len n delta)) (\<lambda>d. go (0, d))
             | _ \<Rightarrow> fault))"

text \<open>\<open>unload_stock\<close> after the answer.\<close>

definition keep_stock :: "int \<Rightarrow> int arr \<Rightarrow> int thread_op" where
  "keep_stock r delta =
     (if r = - 1 then go (- 1)
      else
        and_then (read_state (\<lambda>st. plane_stocks (pt_plane st))) (\<lambda>stocks.
        case store_amounts stocks delta (getVectorSize stocks) of
          None \<Rightarrow> fault
        | Some (Exit (r, v, _)) \<Rightarrow> and_then (change (set_stocks v)) (\<lambda>_. go r)
        | Some (Next (v, done)) \<Rightarrow>
            and_then (change (set_stocks v)) (\<lambda>_.
            and_then (change (\<lambda>st. if done then st\<lparr>pt_done := True\<rparr> else st)) (\<lambda>_.
            go 0))))"

definition begin_phase1 :: "plane_pc thread_op" where
  "begin_phase1 =
     and_then (read_state (\<lambda>st. plane_distance (pt_plane st))) (\<lambda>distance.
     if distance = 0 then
       SafeAction (and_then take_alloc (\<lambda>ok.
         if \<not> ok then thread_exit
         else SafeAction (and_then ask_stock (\<lambda>ok. if \<not> ok then thread_exit else go At_Stock))))
     else go At_Ready1)"

definition end_unload :: "plane_pc thread_op" where
  "end_unload =
     and_then (read_state (\<lambda>st. plane_stocks (pt_plane st))) (\<lambda>stocks.
     and_then (take_stock (getVectorSize stocks)) (\<lambda>(r, delta).
     and_then (keep_stock r delta) (\<lambda>x. if x = - 1 then thread_exit else go At_Ready1)))"

definition end_phase1 :: "plane_pc thread_op" where
  "end_phase1 =
     and_then (SafeAction plane_ready) (\<lambda>_.
     and_then (read_state pt_done) (\<lambda>done. if done then finish_plane else go At_Continue))"

definition wait_continue :: "plane_pc thread_op" where
  "wait_continue = and_then (SafeExit comm_continue) (\<lambda>_. go At_Phase2)"

text \<open>The two parts of \<open>comm_check_destinations\<close>, called with room for five destinations.\<close>

definition ask_destinations :: "nat \<Rightarrow> bool thread_op" where
  "ask_destinations len =
     and_then (read_state (\<lambda>st. marshall_check_destinations (pt_airline st) (plane_id (pt_plane st))
       (plane_cityId (pt_plane st)) (plane_stocks (pt_plane st)) len)) (\<lambda>m.
     and_then (lift_option m) (\<lambda>msg. transmit_map (PM_CheckDestinations msg)))"

definition take_destinations :: "nat \<Rightarrow> (int \<times> int arr \<times> int arr \<times> nat) thread_op" where
  "take_destinations len =
     and_then pop_message (\<lambda>res.
       if msg_type res \<noteq> MessageTypeDestinations then go (- 1, [], [], len)
       else (case msg_payload res of
               P_Destinations n dests dists \<Rightarrow>
                 (let len' = (if len > n then n else len) in
                  and_then (lift_option (copy_cells len len' dests)) (\<lambda>a.
                  and_then (lift_option (copy_cells len len' dists)) (\<lambda>b.
                  go (0, a, b, len'))))
             | _ \<Rightarrow> fault))"

definition begin_phase2 :: "plane_pc thread_op" where
  "begin_phase2 =
     and_then (read_state (\<lambda>st. plane_distance (pt_plane st))) (\<lambda>distance.
     if distance = 0 then
       SafeAction (and_then (ask_destinations 5) (\<lambda>ok. if \<not> ok then thread_exit else go At_Destinations))
     else and_then fly (\<lambda>_. go At_Ready2))"

text \<open>\<open>run_plane\<close> after the answer.\<close>

definition keep_destination :: "int arr \<Rightarrow> int arr \<Rightarrow> nat \<Rightarrow> unit thread_op" where
  "keep_destination dests dists len =
     (if len = 0 then change (\<lambda>st. st\<lparr>pt_done := True\<rparr>)
      else
        and_then (lift_option (arr_get dests 0)) (\<lambda>c.
        and_then (lift_option (arr_get dists 0)) (\<lambda>d.
        change (set_destination c d))))"

definition end_check :: "plane_pc thread_op" where
  "end_check =
     and_then (take_destinations 5) (\<lambda>(r, dests, dists, len).
     if r = - 1 then thread_exit
     else and_then (keep_destination dests dists len) (\<lambda>_. go At_Ready2))"

definition end_phase2 :: "plane_pc thread_op" where
  "end_phase2 = and_then (SafeAction plane_ready) (\<lambda>_. go At_Top)"

fun plane_action :: "plane_pc \<Rightarrow> plane_pc thread_op" where
  "plane_action At_Top = wait_step"
| "plane_action At_Phase1 = begin_phase1"
| "plane_action At_Stock = end_unload"
| "plane_action At_Ready1 = end_phase1"
| "plane_action At_Continue = wait_continue"
| "plane_action At_Phase2 = begin_phase2"
| "plane_action At_Destinations = end_check"
| "plane_action At_Ready2 = end_phase2"
| "plane_action Gone = (\<lambda>st. Blocks)"

text \<open>Running a thread to its end, or to where it waits.\<close>

inductive plane_runs :: "plane_pc \<Rightarrow> plane_thread \<Rightarrow> (plane_thread, bool \<times> plane_thread) flow outcome \<Rightarrow> bool" where
  runs_gone: "plane_runs Gone st (Returns (Next (True, st)))"
| runs_on: "pc \<noteq> Gone \<Longrightarrow> plane_action pc st = Returns (Next (pc', st')) \<Longrightarrow> plane_runs pc' st' r \<Longrightarrow> plane_runs pc st r"
| runs_exit: "pc \<noteq> Gone \<Longrightarrow> plane_action pc st = Returns (Exit st') \<Longrightarrow> plane_runs pc st (Returns (Exit st'))"
| runs_blocks: "pc \<noteq> Gone \<Longrightarrow> plane_action pc st = Blocks \<Longrightarrow> plane_runs pc st Blocks"
| runs_faults: "pc \<noteq> Gone \<Longrightarrow> plane_action pc st = Faults \<Longrightarrow> plane_runs pc st Faults"

section \<open>Equations of thread operations\<close>

lemma and_then_assoc: "and_then (and_then f g) h = and_then f (\<lambda>x. and_then (g x) h)"
  by (rule ext) (simp add: and_then_def split: outcome.split flow.split prod.split)

lemma and_then_stop [simp]: "and_then thread_exit g = thread_exit" "and_then fault g = fault"
  by (rule ext, simp add: and_then_def thread_exit_def fault_def)+

lemma and_then_if: "and_then (if b then f else g) h = (if b then and_then f h else and_then g h)"
  by simp

lemma SafeAction_and_then: "and_then (SafeAction f) g = SafeAction (and_then f g)"
  by (simp add: SafeAction_def and_then_assoc and_then_if del: go_apply change_apply cong: if_cong)

lemmas thread_ops = and_then_assoc and_then_if SafeAction_and_then

lemma and_then_go_right: "and_then f go = f"
  by (rule ext) (simp add: and_then_def split: outcome.split flow.split prod.split)

text \<open>What an operation leaves alone can be read before it.\<close>

definition keeps :: "(plane_thread \<Rightarrow> 'b) \<Rightarrow> 'a thread_op \<Rightarrow> bool" where
  "keeps r f \<longleftrightarrow> (\<forall>st x st'. f st = Returns (Next (x, st')) \<longrightarrow> r st' = r st)"

lemma keeps_read:
  "keeps r f \<Longrightarrow> and_then f (\<lambda>x. and_then (read_state r) (\<lambda>v. g v x)) = and_then (read_state r) (\<lambda>v. and_then f (g v))"
  by (rule ext) (auto simp: keeps_def and_then_def split: outcome.split flow.split prod.split)

lemma keeps_and_then: "keeps r f \<Longrightarrow> (\<And>x. keeps r (g x)) \<Longrightarrow> keeps r (and_then f g)"
  unfolding keeps_def by (metis and_then_NextE)

lemma keeps_basic:
  "keeps r (go x)" "keeps r fault" "keeps r thread_exit" "keeps r (read_state h)" "keeps r (lift_option z)"
  by (auto simp: keeps_def fault_def thread_exit_def lift_option_def split: option.splits)

lemma keeps_if: "keeps r f \<Longrightarrow> keeps r g \<Longrightarrow> keeps r (if b then f else g)"
  by simp

text \<open>The stocks of a plane change only where \<open>unload_stock\<close> stores the answer.\<close>

abbreviation stocks_of_thread :: "plane_thread \<Rightarrow> stock vector" where
  "stocks_of_thread st \<equiv> plane_stocks (pt_plane st)"

lemma keeps_queue:
  "keeps stocks_of_thread pop_message" "keeps stocks_of_thread peek_end" "keeps stocks_of_thread (transmit_map msg)"
  "keeps stocks_of_thread take_alloc"
  by (auto simp: keeps_def pop_message_def peek_end_def transmit_map_def take_alloc_def split: list.splits prod.splits)

lemmas keeps_intros = keeps_and_then keeps_basic keeps_if keeps_queue

lemma keeps_SafeAction: "keeps stocks_of_thread f \<Longrightarrow> keeps stocks_of_thread (SafeAction f)"
  unfolding SafeAction_def by (intro keeps_intros)

lemma keeps_take_stock: "keeps stocks_of_thread (take_stock len)"
  unfolding take_stock_def by (intro keeps_intros) (auto split: MessagePayload.split intro!: keeps_intros)

section \<open>The actions are the loop\<close>

lemma comm_unload_stock_parts:
  "comm_unload_stock len = and_then ask_stock (\<lambda>ok. if \<not> ok then go (- 1, []) else take_stock len)"
  by (simp add: comm_unload_stock_def ask_stock_def take_stock_def and_then_assoc del: go_apply change_apply cong: if_cong)

lemma comm_check_destinations_parts:
  "comm_check_destinations len = and_then (ask_destinations len) (\<lambda>ok. if \<not> ok then go (- 1, [], [], len) else take_destinations len)"
  by (simp add: comm_check_destinations_def ask_destinations_def take_destinations_def and_then_assoc del: go_apply change_apply cong: if_cong)

text \<open>The result of \<open>unload_stock\<close> when the stocks were read at its start.\<close>

definition keep_from :: "stock vector \<Rightarrow> int \<Rightarrow> int arr \<Rightarrow> int thread_op" where
  "keep_from stocks r delta =
     (if r = - 1 then go (- 1)
      else (case store_amounts stocks delta (getVectorSize stocks) of
          None \<Rightarrow> fault
        | Some (Exit (r, v, _)) \<Rightarrow> and_then (change (set_stocks v)) (\<lambda>_. go r)
        | Some (Next (v, done)) \<Rightarrow>
            and_then (change (set_stocks v)) (\<lambda>_.
            and_then (change (\<lambda>st. if done then st\<lparr>pt_done := True\<rparr> else st)) (\<lambda>_.
            go 0))))"

lemma keep_from_failed: "keep_from s (- 1) d = go (- 1)"
  by (simp add: keep_from_def)

lemma read_const: "and_then (read_state f) (\<lambda>_. h) = h"
  by (rule ext) simp

lemma read_twice: "and_then (read_state f) (\<lambda>a. and_then (read_state f) (g a)) = and_then (read_state f) (\<lambda>a. g a a)"
  by (rule ext) simp

lemma keeps_read_if:
  assumes "keeps r f"
  shows "and_then f (\<lambda>x. if c x then h x else and_then (read_state r) (\<lambda>v. g v x)) =
    and_then (read_state r) (\<lambda>v. and_then f (\<lambda>x. if c x then h x else g v x))"
proof -
  have "and_then f (\<lambda>x. if c x then h x else and_then (read_state r) (\<lambda>v. g v x)) =
      and_then f (\<lambda>x. and_then (read_state r) (\<lambda>v. if c x then h x else g v x))"
    by (rule arg_cong [of _ _ "and_then f"], rule ext) (simp add: read_const)
  also have "\<dots> = and_then (read_state r) (\<lambda>v. and_then f (\<lambda>x. if c x then h x else g v x))"
    by (rule keeps_read [OF assms])
  finally show ?thesis .
qed

lemma keeps_ask_stock: "keeps stocks_of_thread ask_stock"
  unfolding ask_stock_def by (intro keeps_intros)

lemma keep_stock_from: "keep_stock r delta = and_then (read_state stocks_of_thread) (\<lambda>s. keep_from s r delta)"
  by (rule ext) (simp add: keep_stock_def keep_from_def)

lemma SafeAction_read:
  "SafeAction (and_then (read_state stocks_of_thread) g) = and_then (read_state stocks_of_thread) (\<lambda>s. SafeAction (g s))"
proof -
  have "keeps stocks_of_thread peek_end"
    by (intro keeps_intros)
  from keeps_read_if [OF this, of "\<lambda>x. x" "\<lambda>_. thread_exit" "\<lambda>v _. g v"] show ?thesis
    by (simp add: SafeAction_def)
qed

lemma unload_stock_parts:
  "SafeExit unload_stock =
    SafeAction (and_then take_alloc (\<lambda>ok.
      if \<not> ok then thread_exit
      else SafeAction (and_then ask_stock (\<lambda>ok. if \<not> ok then thread_exit else and_then end_unload (\<lambda>_. go ())))))"
proof -
  let ?check = "\<lambda>x. if x = - 1 then thread_exit else go ()"
  let ?fin = "\<lambda>s. and_then (take_stock (getVectorSize s)) (\<lambda>(r, delta). and_then (keep_from s r delta) ?check)"
  have k: "keeps stocks_of_thread take_alloc" "keeps stocks_of_thread (take_stock n)" for n
    by (intro keeps_intros) (rule keeps_take_stock)
  have "and_then end_unload (\<lambda>_. go ()) =
      and_then (read_state stocks_of_thread) (\<lambda>s. and_then (take_stock (getVectorSize s)) (\<lambda>x.
        and_then (read_state stocks_of_thread) (\<lambda>s'. case x of (r, delta) \<Rightarrow> and_then (keep_from s' r delta) ?check)))"
    by (simp add: end_unload_def keep_stock_from thread_ops split_def del: go_apply change_apply cong: if_cong)
  also have "\<dots> = and_then (read_state stocks_of_thread) ?fin"
    by (simp only: keeps_read [OF k(2)] read_twice)
  finally have e: "and_then end_unload (\<lambda>_. go ()) = and_then (read_state stocks_of_thread) ?fin" .
  have "unload_stock =
      and_then (read_state stocks_of_thread) (\<lambda>s. and_then take_alloc (\<lambda>ok. if \<not> ok then go (- 1)
        else and_then (SafeAction (comm_unload_stock (getVectorSize s))) (\<lambda>(r, delta). keep_from s r delta)))"
    unfolding unload_stock_def Let_def keep_from_def ..
  note u = this
  have "and_then unload_stock ?check =
      and_then (read_state stocks_of_thread) (\<lambda>s. and_then take_alloc (\<lambda>ok. if \<not> ok then thread_exit
        else SafeAction (and_then ask_stock (\<lambda>ok. if \<not> ok then thread_exit else ?fin s))))"
    unfolding u by (simp add: thread_ops comm_unload_stock_parts split_def keep_from_failed del: go_apply change_apply cong: if_cong)
  then show ?thesis
    unfolding SafeExit_def CHECK_EXIT_def e keeps_read_if [OF keeps_ask_stock] SafeAction_read keeps_read_if [OF k(1)]
    by (simp only: SafeAction_read)
qed

text \<open>What is left of a run from each point.\<close>

fun pc_rank :: "plane_pc \<Rightarrow> nat" where
  "pc_rank At_Phase1 = 7"
| "pc_rank At_Stock = 6"
| "pc_rank At_Ready1 = 5"
| "pc_rank At_Continue = 4"
| "pc_rank At_Phase2 = 3"
| "pc_rank At_Destinations = 2"
| "pc_rank At_Ready2 = 1"
| "pc_rank _ = 0"

function rest :: "nat \<Rightarrow> plane_pc \<Rightarrow> bool thread_op" where
  "rest n Gone = go True"
| "rest n At_Top = run_plane n"
| "rest n At_Ready2 = and_then end_phase2 (\<lambda>_. run_plane n)"
| "rest n At_Destinations = and_then end_check (\<lambda>_. rest n At_Ready2)"
| "rest n At_Phase2 = and_then begin_phase2 (\<lambda>pc. if pc = At_Ready2 then rest n At_Ready2 else rest n At_Destinations)"
| "rest n At_Continue = and_then wait_continue (\<lambda>_. rest n At_Phase2)"
| "rest n At_Ready1 = and_then end_phase1 (\<lambda>pc. if pc = Gone then go True else rest n At_Continue)"
| "rest n At_Stock = and_then end_unload (\<lambda>_. rest n At_Ready1)"
| "rest n At_Phase1 = and_then begin_phase1 (\<lambda>pc. if pc = At_Ready1 then rest n At_Ready1 else rest n At_Stock)"
  by pat_completeness auto

termination
  by (relation "measure (\<lambda>(n, pc). pc_rank pc)") auto

lemma finish_then: "and_then finish_plane g = and_then (change (\<lambda>st. st\<lparr>pt_done := True\<rparr>)) (\<lambda>_. g Gone)"
  by (simp add: finish_plane_def and_then_assoc)

lemma choose_destination_parts:
  "and_then choose_destination g =
    SafeAction (and_then (ask_destinations 5) (\<lambda>ok. if \<not> ok then thread_exit
      else and_then (take_destinations 5) (\<lambda>(r, dests, dists, len).
        if r = - 1 then thread_exit else and_then (keep_destination dests dists len) g)))"
  by (simp add: choose_destination_def comm_check_destinations_parts keep_destination_def thread_ops split_def del: go_apply change_apply cong: if_cong)

text \<open>One more turn of the loop is the actions from its top on.\<close>

lemma plane_turn_rest:
  "and_then plane_turn (\<lambda>broke. if broke then and_then (change (\<lambda>st. st\<lparr>pt_done := True\<rparr>)) (\<lambda>_. go True) else run_plane n) =
    rest n At_Phase1"
proof -
  let ?ready2 = "and_then end_phase2 (\<lambda>_. run_plane n)"
  have 2: "and_then (SafeAction plane_ready) (\<lambda>_. run_plane n) = ?ready2"
    by (simp add: end_phase2_def and_then_assoc)
  have p2: "and_then (read_state (\<lambda>st. plane_distance (pt_plane st))) (\<lambda>d.
      if d = 0 then and_then choose_destination (\<lambda>_. ?ready2) else and_then fly (\<lambda>_. ?ready2)) = rest n At_Phase2"
    by (simp add: begin_phase2_def end_check_def choose_destination_parts thread_ops split_def del: go_apply change_apply cong: if_cong)
  have c: "and_then (SafeExit comm_continue) (\<lambda>_. rest n At_Phase2) = rest n At_Continue"
    by (simp add: wait_continue_def and_then_assoc del: rest.simps(5))
  have r1: "and_then (SafeAction plane_ready) (\<lambda>_. and_then (read_state pt_done) (\<lambda>d.
      if d then and_then (change (\<lambda>st. st\<lparr>pt_done := True\<rparr>)) (\<lambda>_. go True) else rest n At_Continue)) = rest n At_Ready1"
    by (simp add: end_phase1_def finish_then thread_ops del: go_apply change_apply rest.simps(6) cong: if_cong)
  have u: "and_then (SafeExit unload_stock) (\<lambda>_. rest n At_Ready1) =
      SafeAction (and_then take_alloc (\<lambda>ok. if \<not> ok then thread_exit
        else SafeAction (and_then ask_stock (\<lambda>ok. if \<not> ok then thread_exit else rest n At_Stock))))"
    unfolding unload_stock_parts by (simp add: thread_ops del: go_apply change_apply rest.simps(7) cong: if_cong)
  have p1: "and_then (read_state (\<lambda>st. plane_distance (pt_plane st))) (\<lambda>d.
      if d = 0 then and_then (SafeExit unload_stock) (\<lambda>_. rest n At_Ready1) else rest n At_Ready1) = rest n At_Phase1"
    unfolding u by (simp add: begin_phase1_def thread_ops del: go_apply change_apply rest.simps(7,8) cong: if_cong)
  show ?thesis
    unfolding p1 [symmetric] r1 [symmetric] c [symmetric] p2 [symmetric] 2 [symmetric]
    by (simp add: plane_turn_def thread_ops del: go_apply change_apply cong: if_cong)
qed

lemma run_plane_rest: "run_plane (Suc n) = and_then wait_step (\<lambda>pc. if pc = Gone then go True else rest n At_Phase1)"
proof
  fix st
  show "run_plane (Suc n) st = and_then wait_step (\<lambda>pc. if pc = Gone then go True else rest n At_Phase1) st"
    unfolding wait_step_def plane_turn_rest [symmetric]
    by (simp add: finish_then thread_ops del: go_apply change_apply cong: if_cong)
qed

text \<open>Which points an action can lead to.\<close>

definition yields :: "('a \<Rightarrow> bool) \<Rightarrow> 'a thread_op \<Rightarrow> bool" where
  "yields P f \<longleftrightarrow> (\<forall>st x st'. f st = Returns (Next (x, st')) \<longrightarrow> P x)"

lemma yieldsD: "yields P f \<Longrightarrow> f st = Returns (Next (x, st')) \<Longrightarrow> P x"
  by (auto simp: yields_def)

lemma yields_and_then: "(\<And>x. yields P (g x)) \<Longrightarrow> yields P (and_then f g)"
  unfolding yields_def by (metis and_then_NextE)

lemma yields_basic: "P x \<Longrightarrow> yields P (go x)" "yields P fault" "yields P thread_exit"
  by (auto simp: yields_def fault_def thread_exit_def)

lemma yields_if: "(b \<Longrightarrow> yields P f) \<Longrightarrow> (\<not> b \<Longrightarrow> yields P g) \<Longrightarrow> yields P (if b then f else g)"
  by simp

lemma yields_SafeAction: "yields P f \<Longrightarrow> yields P (SafeAction f)"
  unfolding SafeAction_def by (intro yields_and_then yields_if yields_basic)

lemmas yields_intros = yields_and_then yields_basic yields_if yields_SafeAction

definition next_pcs :: "plane_pc \<Rightarrow> plane_pc set" where
  "next_pcs pc =
     (case pc of
        At_Top \<Rightarrow> {Gone, At_Phase1} | At_Phase1 \<Rightarrow> {At_Stock, At_Ready1} | At_Stock \<Rightarrow> {At_Ready1}
      | At_Ready1 \<Rightarrow> {Gone, At_Continue} | At_Continue \<Rightarrow> {At_Phase2} | At_Phase2 \<Rightarrow> {At_Destinations, At_Ready2}
      | At_Destinations \<Rightarrow> {At_Ready2} | At_Ready2 \<Rightarrow> {At_Top} | Gone \<Rightarrow> {})"

lemma plane_action_next: "plane_action pc st = Returns (Next (pc', st')) \<Longrightarrow> pc' \<in> next_pcs pc"
proof -
  have "yields (\<lambda>pc'. pc' \<in> next_pcs pc) (plane_action pc)" if "pc \<noteq> Gone"
    using that unfolding next_pcs_def
    by (cases pc) (auto simp: wait_step_def finish_plane_def begin_phase1_def end_unload_def end_phase1_def wait_continue_def
        begin_phase2_def end_check_def end_phase2_def intro!: yields_intros)
  then show "plane_action pc st = Returns (Next (pc', st')) \<Longrightarrow> pc' \<in> next_pcs pc"
    by (cases "pc = Gone") (auto dest: yieldsD)
qed

lemma runs_and_then:
  assumes "pc \<noteq> Gone" "\<And>pc' st'. plane_action pc st = Returns (Next (pc', st')) \<Longrightarrow> plane_runs pc' st' (g pc' st')"
  shows "plane_runs pc st (and_then (plane_action pc) g st)"
proof (cases "plane_action pc st")
  case (Returns x)
  show ?thesis
  proof (cases x)
    case (Next y)
    obtain pc' st' where y: "y = (pc', st')"
      by (cases y)
    then show ?thesis
      using runs_on [OF assms(1) _ assms(2)] Returns Next by simp
  qed (use runs_exit [OF assms(1)] Returns in simp)
qed (use runs_blocks [OF assms(1)] runs_faults [OF assms(1)] in simp_all)

lemma shrinks_plane_action: "shrinks (plane_action pc)"
proof -
  have "shrinks finish_plane" "shrinks plane_ready" "shrinks comm_step" "shrinks comm_continue" "shrinks fly"
    "shrinks ask_stock" "shrinks (ask_destinations n)" "shrinks take_alloc" for n
    unfolding finish_plane_def plane_ready_def comm_step_def comm_continue_def fly_def ask_stock_def ask_destinations_def
    by (intro shrinks_intros shrinks_take_alloc; simp)+
  moreover have "shrinks (take_stock n)" "shrinks (take_destinations n)" for n
    unfolding take_stock_def take_destinations_def
    by (intro shrinks_intros; auto split: MessagePayload.split simp: Let_def intro!: shrinks_intros)+
  moreover have "shrinks (keep_destination a b n)" for a b n
    unfolding keep_destination_def by (intro shrinks_intros) (simp_all add: set_destination_def)
  moreover have "shrinks (keep_stock r d)" for r d
    unfolding keep_stock_def
    by (intro shrinks_intros) (auto split: option.split flow.split simp: set_stocks_def intro!: shrinks_intros)
  ultimately show ?thesis
    by (cases pc) (auto simp: wait_step_def begin_phase1_def end_unload_def end_phase1_def wait_continue_def
        begin_phase2_def end_check_def end_phase2_def simp: shrinks_def [of "\<lambda>st. Blocks"]
        intro!: shrinks_intros split: prod.split)
qed

lemma runs_step:
  assumes "pc \<noteq> Gone" "length (pt_inbox st) \<le> m"
    and "\<And>pc' st'. pc' \<in> next_pcs pc \<Longrightarrow> length (pt_inbox st') \<le> m \<Longrightarrow> plane_runs pc' st' (g pc' st')"
  shows "plane_runs pc st (and_then (plane_action pc) g st)"
proof (rule runs_and_then [OF assms(1)])
  fix pc' st'
  assume a: "plane_action pc st = Returns (Next (pc', st'))"
  then have "length (pt_inbox st') \<le> m"
    using shrinksD [OF shrinks_plane_action a] assms(2) by simp
  then show "plane_runs pc' st' (g pc' st')"
    using assms(3) plane_action_next [OF a] by blast
qed

lemma plane_runs_rest:
  assumes top: "\<And>st'. length (pt_inbox st') \<le> m \<Longrightarrow> plane_runs At_Top st' (run_plane n st')"
    and "length (pt_inbox st) \<le> m"
  shows "plane_runs At_Phase1 st (rest n At_Phase1 st)"
proof -
  have gone: "plane_runs Gone st (go True st)" for st
    by (simp add: runs_gone)
  have ready2: "plane_runs At_Ready2 st (rest n At_Ready2 st)" if "length (pt_inbox st) \<le> m" for st
    unfolding rest.simps plane_action.simps [symmetric]
    by (rule runs_step [OF _ that]) (simp_all add: next_pcs_def top)
  have dest: "plane_runs At_Destinations st (rest n At_Destinations st)" if "length (pt_inbox st) \<le> m" for st
    unfolding rest.simps(4) plane_action.simps [symmetric]
    by (rule runs_step [OF _ that]) (simp_all add: next_pcs_def ready2 del: rest.simps)
  have phase2: "plane_runs At_Phase2 st (rest n At_Phase2 st)" if "length (pt_inbox st) \<le> m" for st
    unfolding rest.simps(5) plane_action.simps [symmetric]
    by (rule runs_step [OF _ that]) (auto simp add: next_pcs_def ready2 dest simp del: rest.simps)
  have continue: "plane_runs At_Continue st (rest n At_Continue st)" if "length (pt_inbox st) \<le> m" for st
    unfolding rest.simps(6) plane_action.simps [symmetric]
    by (rule runs_step [OF _ that]) (simp_all add: next_pcs_def phase2 del: rest.simps)
  have ready1: "plane_runs At_Ready1 st (rest n At_Ready1 st)" if "length (pt_inbox st) \<le> m" for st
    unfolding rest.simps(7) plane_action.simps [symmetric]
    by (rule runs_step [OF _ that]) (auto simp add: next_pcs_def continue gone simp del: rest.simps go_apply)
  have stock: "plane_runs At_Stock st (rest n At_Stock st)" if "length (pt_inbox st) \<le> m" for st
    unfolding rest.simps(8) plane_action.simps [symmetric]
    by (rule runs_step [OF _ that]) (simp_all add: next_pcs_def ready1 del: rest.simps)
  show ?thesis
    unfolding rest.simps(9) plane_action.simps [symmetric]
    by (rule runs_step [OF _ assms(2)]) (auto simp add: next_pcs_def ready1 stock simp del: rest.simps)
qed

text \<open>Running the actions of a thread gives the result of \<open>run_plane\<close>, and no other.\<close>

lemma plane_runs_enough:
  "length (pt_inbox st) < n \<Longrightarrow> plane_runs At_Top st (run_plane n st)"
proof (induction n arbitrary: st)
  case (Suc n)
  show ?case
    unfolding run_plane_rest plane_action.simps(1) [symmetric]
  proof (rule runs_and_then)
    fix pc' st'
    assume a: "plane_action At_Top st = Returns (Next (pc', st'))"
    show "plane_runs pc' st' ((if pc' = Gone then go True else rest n At_Phase1) st')"
    proof (cases "pc' = Gone")
      case True
      then show ?thesis
        by (simp add: runs_gone)
    next
      case False
      then have pc': "pc' = At_Phase1"
        using plane_action_next [OF a] by (simp add: next_pcs_def)
      obtain r where "\<not> pt_done st" "comm_step st = Returns (Next (r, st'))"
        using a False by (auto simp: wait_step_def finish_plane_def elim!: and_then_NextE split: if_splits)
      then have "length (pt_inbox st') < n"
        using comm_step_pops Suc.prems by force
      then show ?thesis
        using plane_runs_rest [of "length (pt_inbox st')" n st'] Suc.IH pc' by simp
    qed
  qed simp
qed simp

inductive_cases runs_GoneE: "plane_runs Gone st r"

lemma plane_runs_functional: "plane_runs pc st r \<Longrightarrow> plane_runs pc st r' \<Longrightarrow> r = r'"
proof (induction arbitrary: r' rule: plane_runs.induct)
  case (runs_on pc st pc' st' r)
  from runs_on.prems show ?case
  proof (cases rule: plane_runs.cases)
    case (runs_on pc2 st2)
    then have "pc2 = pc'" "st2 = st'"
      using runs_on.hyps by simp_all
    then show ?thesis
      using runs_on runs_on.IH by simp
  qed (use runs_on.hyps in simp_all)
next
  case (runs_gone st)
  then show ?case
    by (auto elim: runs_GoneE)
next
  case (runs_exit pc st st')
  from runs_exit.prems show ?case
    by (cases rule: plane_runs.cases) (use runs_exit.hyps in simp_all)
next
  case (runs_blocks pc st)
  from runs_blocks.prems show ?case
    by (cases rule: plane_runs.cases) (use runs_blocks.hyps in simp_all)
next
  case (runs_faults pc st)
  from runs_faults.prems show ?case
    by (cases rule: plane_runs.cases) (use runs_faults.hyps in simp_all)
qed

end
