(* ===== verification/Map_Steps.thy ===== *)
theory Map_Steps
  imports Map_Process
begin

text \<open>
  The turn loop of \<open>runMap\<close> cut at the messages it waits for. An action takes at most one
  message; running the actions is running the loop (\<open>map_runs_run_turns\<close>). After the loop,
  \<open>main\<close> tells the airlines to end.
\<close>

section \<open>Actions\<close>

text \<open>
  At the top of the turn loop; in phase 1 and in phase 2 after the given number of airlines has
  reported; after \<open>runMap\<close>, before \<open>comm_end\<close>; after it.
\<close>

datatype map_pc = M_Turn | M_Phase1 nat | M_Phase2 nat | M_Ending | M_Ended

type_synonym map_action = "map_state \<Rightarrow> PlaneMessage list \<Rightarrow> (map_pc \<times> map_state \<times> PlaneMessage list) outcome"

definition begin_turn :: "nat vector \<Rightarrow> map_action" where
  "begin_turn conns st inbox =
     (let (stop, st0) = look_exit st in
      if stop then Returns (M_Ending, st0, inbox)
      else
        then_do (or_fault (endSimulation (ms_map st0) (ms_turn st0))) (\<lambda>go.
          if go \<noteq> CONTINUE_SIM then Returns (M_Ending, st0, inbox)
          else
            (let (stop', st1) = look_exit st0 in
             if stop' then Returns (M_Ending, st1, inbox)
             else then_do (or_fault (comm_turn_step conns (st1\<lparr>ms_turn := ms_turn st1 + 1\<rparr>))) (\<lambda>st2.
               Returns (M_Phase1 0, st2, inbox)))))"

fun phase1_action :: "nat vector \<Rightarrow> nat \<Rightarrow> nat \<Rightarrow> map_action" where
  "phase1_action conns airlinesize i st inbox =
     (if i = airlinesize then
        then_do (or_fault (comm_turn_continue conns st)) (\<lambda>st'. Returns (M_Phase2 0, st', inbox))
      else
        (case inbox of
           [] \<Rightarrow> Blocks
         | msg # inbox' \<Rightarrow>
             (if pm_type msg = MessageTypeAirlineDone then Returns (M_Phase1 (i + 1), st, inbox')
              else if pm_type msg = MessageTypeUnloadStock then
                (case msg of
                   PM_StockState m \<Rightarrow>
                     then_do (or_fault (handle_unload conns m st)) (\<lambda>st'. Returns (M_Phase1 i, st', inbox'))
                 | _ \<Rightarrow> Faults)
              else Returns (M_Phase1 i, st, inbox'))))"

fun phase2_action :: "nat vector \<Rightarrow> nat \<Rightarrow> int \<Rightarrow> nat \<Rightarrow> map_action" where
  "phase2_action conns airlinesize totalStockAmount i st inbox =
     (if i = airlinesize then
        then_do (or_fault (output_map_status totalStockAmount st)) (\<lambda>st'. Returns (M_Turn, st', inbox))
      else
        (case inbox of
           [] \<Rightarrow> Blocks
         | msg # inbox' \<Rightarrow>
             (if pm_type msg = MessageTypeAirlineStatus then
                (case msg of
                   PM_AirlineStatus m \<Rightarrow>
                     Returns (M_Phase2 (i + 1), comm_send_airline_status (as_planesFlying (asm_status m))
                       (as_totalPlanes (asm_status m)) (as_id (asm_status m)) st, inbox')
                 | _ \<Rightarrow> Faults)
              else if pm_type msg = MessageTypeCheckDestinations then
                (case msg of
                   PM_CheckDestinations m \<Rightarrow>
                     then_do (or_fault (handle_check conns m st)) (\<lambda>st'. Returns (M_Phase2 i, st', inbox'))
                 | _ \<Rightarrow> Faults)
              else Returns (M_Phase2 i, st, inbox'))))"

declare phase1_action.simps [simp del] phase2_action.simps [simp del]

fun map_action :: "nat vector \<Rightarrow> nat \<Rightarrow> int \<Rightarrow> map_pc \<Rightarrow> map_action" where
  "map_action conns n T M_Turn st inbox = begin_turn conns st inbox"
| "map_action conns n T (M_Phase1 i) st inbox = phase1_action conns n i st inbox"
| "map_action conns n T (M_Phase2 i) st inbox = phase2_action conns n T i st inbox"
| "map_action conns n T M_Ending st inbox =
     then_do (or_fault (comm_end conns st)) (\<lambda>st'. Returns (M_Ended, st', inbox))"
| "map_action conns n T M_Ended st inbox = Blocks"

text \<open>Running the map process until the loop is left, or to where it waits.\<close>

inductive map_runs :: "nat vector \<Rightarrow> nat \<Rightarrow> int \<Rightarrow> map_pc \<Rightarrow> map_state \<Rightarrow> PlaneMessage list \<Rightarrow>
  (map_state \<times> PlaneMessage list) outcome \<Rightarrow> bool" for conns n T where
  map_left: "map_runs conns n T M_Ending st inbox (Returns (st, inbox))"
| map_on: "pc \<noteq> M_Ending \<Longrightarrow> map_action conns n T pc st inbox = Returns (pc', st', inbox') \<Longrightarrow>
    map_runs conns n T pc' st' inbox' r \<Longrightarrow> map_runs conns n T pc st inbox r"
| map_waits: "pc \<noteq> M_Ending \<Longrightarrow> map_action conns n T pc st inbox = Blocks \<Longrightarrow> map_runs conns n T pc st inbox Blocks"
| map_faults: "pc \<noteq> M_Ending \<Longrightarrow> map_action conns n T pc st inbox = Faults \<Longrightarrow> map_runs conns n T pc st inbox Faults"

section \<open>The actions are the loop\<close>

lemma then_do_assoc: "then_do (then_do x f) g = then_do x (\<lambda>y. then_do (f y) g)"
  by (cases x) simp_all

lemma map_runs_do:
  assumes "pc \<noteq> M_Ending" "map_action conns n T pc st inbox = then_do x (\<lambda>y. Returns (f y))"
    and "\<And>y. x = Returns y \<Longrightarrow> (case f y of (pc', st', inbox') \<Rightarrow> map_runs conns n T pc' st' inbox' (g y))"
  shows "map_runs conns n T pc st inbox (then_do x g)"
proof (cases x)
  case (Returns y)
  obtain pc' st' inbox' where f: "f y = (pc', st', inbox')"
    by (cases "f y")
  then show ?thesis
    using map_on [OF assms(1), of conns n T st inbox pc' st' inbox' "g y"] assms(2,3) Returns by simp
qed (use assms in \<open>simp_all add: map_waits map_faults\<close>)

text \<open>The phases.\<close>

lemma map_runs_phase1:
  assumes "\<And>st' rest. phase1 conns n i st inbox = Returns (st', rest) \<Longrightarrow> map_runs conns n T (M_Phase1 n) st' rest (g (st', rest))"
    and "i \<le> n"
  shows "map_runs conns n T (M_Phase1 i) st inbox (then_do (phase1 conns n i st inbox) g)"
  using assms
proof (induction inbox arbitrary: i st)
  case Nil
  then show ?case
    by (cases "i = n") (simp_all add: map_waits phase1_action.simps)
next
  case (Cons msg inbox)
  show ?case
  proof (cases "i = n")
    case True
    then show ?thesis
      using Cons.prems by simp
  next
    case False
    then have i: "i + 1 \<le> n"
      using Cons.prems(2) by simp
    consider (ready) "pm_type msg = MessageTypeAirlineDone"
      | (unload) m where "msg = PM_StockState m" "pm_type msg = MessageTypeUnloadStock"
      | (wrong) "pm_type msg = MessageTypeUnloadStock" "\<And>m. msg \<noteq> PM_StockState m"
      | (other) "pm_type msg \<notin> {MessageTypeAirlineDone, MessageTypeUnloadStock}"
      by blast
    then show ?thesis
    proof cases
      case ready
      then have "map_action conns n T (M_Phase1 i) st (msg # inbox) = Returns (M_Phase1 (i + 1), st, inbox)"
        using False by (simp add: phase1_action.simps)
      then show ?thesis
        using Cons.IH [OF Cons.prems(1) i] ready False by (auto intro: map_on)
    next
      case unload
      have "map_runs conns n T (M_Phase1 i) st (msg # inbox)
          (then_do (or_fault (handle_unload conns m st)) (\<lambda>st'. then_do (phase1 conns n i st' inbox) g))"
        by (rule map_runs_do [where f = "\<lambda>st'. (M_Phase1 i, st', inbox)"])
          (use unload False Cons in \<open>auto simp: phase1_action.simps\<close>)
      then show ?thesis
        using unload False by (simp add: then_do_assoc)
    next
      case wrong
      then show ?thesis
        using False by (cases msg) (auto simp: phase1_action.simps intro!: map_faults)
    next
      case other
      then have "map_action conns n T (M_Phase1 i) st (msg # inbox) = Returns (M_Phase1 i, st, inbox)"
        using False by (simp add: phase1_action.simps)
      then show ?thesis
        using Cons.IH [of i st] Cons.prems other False by (auto intro: map_on)
    qed
  qed
qed

lemma map_runs_phase2:
  assumes "\<And>st' rest. phase2 conns n i st inbox = Returns (st', rest) \<Longrightarrow> map_runs conns n T (M_Phase2 n) st' rest (g (st', rest))"
    and "i \<le> n"
  shows "map_runs conns n T (M_Phase2 i) st inbox (then_do (phase2 conns n i st inbox) g)"
  using assms
proof (induction inbox arbitrary: i st)
  case Nil
  then show ?case
    by (cases "i = n") (simp_all add: map_waits phase2_action.simps)
next
  case (Cons msg inbox)
  show ?case
  proof (cases "i = n")
    case True
    then show ?thesis
      using Cons.prems by simp
  next
    case False
    then have i: "i + 1 \<le> n"
      using Cons.prems(2) by simp
    consider (status) m where "msg = PM_AirlineStatus m" "pm_type msg = MessageTypeAirlineStatus"
      | (check) m where "msg = PM_CheckDestinations m" "pm_type msg = MessageTypeCheckDestinations"
      | (wrong) "pm_type msg = MessageTypeAirlineStatus \<and> (\<forall>m. msg \<noteq> PM_AirlineStatus m) \<or>
          pm_type msg = MessageTypeCheckDestinations \<and> (\<forall>m. msg \<noteq> PM_CheckDestinations m)"
      | (other) "pm_type msg \<notin> {MessageTypeAirlineStatus, MessageTypeCheckDestinations}"
      by blast
    then show ?thesis
    proof cases
      case status
      let ?st = "comm_send_airline_status (as_planesFlying (asm_status m)) (as_totalPlanes (asm_status m))
        (as_id (asm_status m)) st"
      have "map_action conns n T (M_Phase2 i) st (msg # inbox) = Returns (M_Phase2 (i + 1), ?st, inbox)"
        using False status by (simp add: phase2_action.simps)
      then show ?thesis
        using Cons.IH [of "i + 1" ?st] Cons.prems i status False by (auto intro: map_on)
    next
      case check
      have "map_runs conns n T (M_Phase2 i) st (msg # inbox)
          (then_do (or_fault (handle_check conns m st)) (\<lambda>st'. then_do (phase2 conns n i st' inbox) g))"
        by (rule map_runs_do [where f = "\<lambda>st'. (M_Phase2 i, st', inbox)"])
          (use check False Cons in \<open>auto simp: phase2_action.simps\<close>)
      then show ?thesis
        using check False by (simp add: then_do_assoc)
    next
      case wrong
      then show ?thesis
        using False by (cases msg) (auto simp: phase2_action.simps intro!: map_faults)
    next
      case other
      then have "map_action conns n T (M_Phase2 i) st (msg # inbox) = Returns (M_Phase2 i, st, inbox)"
        using False by (simp add: phase2_action.simps)
      then show ?thesis
        using Cons.IH [of i st] Cons.prems other False by (auto intro: map_on)
    qed
  qed
qed

text \<open>The whole loop.\<close>

fun loop_result :: "(map_state \<times> PlaneMessage list) option outcome \<Rightarrow> (map_state \<times> PlaneMessage list) outcome" where
  "loop_result (Returns (Some x)) = Returns x"
| "loop_result (Returns None) = Blocks"
| "loop_result Blocks = Blocks"
| "loop_result Faults = Faults"

lemma loop_result_then_do: "loop_result (then_do x f) = then_do x (\<lambda>y. loop_result (f y))"
  by (cases x) simp_all

lemma map_runs_turn:
  assumes "\<And>st' rest. play_turn conns n T st inbox = Returns (st', rest) \<Longrightarrow> map_runs conns n T M_Turn st' rest (g (st', rest))"
    and "comm_turn_step conns (st\<lparr>ms_turn := ms_turn st + 1\<rparr>) = Some st1"
  shows "map_runs conns n T (M_Phase1 0) st1 inbox (then_do (play_turn conns n T st inbox) g)"
proof -
  have "map_runs conns n T (M_Phase1 0) st1 inbox
      (then_do (phase1 conns n 0 st1 inbox) (\<lambda>(st2, inbox2). then_do (or_fault (comm_turn_continue conns st2)) (\<lambda>st3.
        then_do (phase2 conns n 0 st3 inbox2) (\<lambda>(st4, inbox4). then_do (or_fault (output_map_status T st4)) (\<lambda>st5.
          g (st5, inbox4))))))"
    (is "map_runs _ _ _ _ _ _ (then_do _ ?g1)")
  proof (rule map_runs_phase1)
    fix st2 inbox2
    assume 2: "phase1 conns n 0 st1 inbox = Returns (st2, inbox2)"
    have "map_runs conns n T (M_Phase1 n) st2 inbox2 (then_do (or_fault (comm_turn_continue conns st2)) (\<lambda>st3.
        then_do (phase2 conns n 0 st3 inbox2) (\<lambda>(st4, inbox4). then_do (or_fault (output_map_status T st4)) (\<lambda>st5.
          g (st5, inbox4)))))"
      (is "map_runs _ _ _ _ _ _ (then_do _ ?g2)")
    proof (rule map_runs_do [where f = "\<lambda>st'. (M_Phase2 0, st', inbox2)"])
      fix st3
      assume 3: "or_fault (comm_turn_continue conns st2) = Returns st3"
      have "map_runs conns n T (M_Phase2 0) st3 inbox2 (then_do (phase2 conns n 0 st3 inbox2)
          (\<lambda>(st4, inbox4). then_do (or_fault (output_map_status T st4)) (\<lambda>st5. g (st5, inbox4))))"
      proof (rule map_runs_phase2)
        fix st4 inbox4
        assume 4: "phase2 conns n 0 st3 inbox2 = Returns (st4, inbox4)"
        have "map_runs conns n T (M_Phase2 n) st4 inbox4 (then_do (or_fault (output_map_status T st4)) (\<lambda>st5. g (st5, inbox4)))"
        proof (rule map_runs_do [where f = "\<lambda>st'. (M_Turn, st', inbox4)"])
          fix st5
          assume 5: "or_fault (output_map_status T st4) = Returns st5"
          have "play_turn conns n T st inbox = Returns (st5, inbox4)"
            by (simp add: play_turn_def assms(2) 2 3 4 5)
          then show "case (M_Turn, st5, inbox4) of (pc', st', inbox') \<Rightarrow> map_runs conns n T pc' st' inbox' (g (st5, inbox4))"
            using assms(1) by simp
        qed (simp_all add: phase2_action.simps)
        then show "map_runs conns n T (M_Phase2 n) st4 inbox4
            (case (st4, inbox4) of (st4, inbox4) \<Rightarrow> then_do (or_fault (output_map_status T st4)) (\<lambda>st5. g (st5, inbox4)))"
          by simp
      qed simp
      then show "case (M_Phase2 0, st3, inbox2) of (pc', st', inbox') \<Rightarrow> map_runs conns n T pc' st' inbox' (?g2 st3)"
        by simp
    qed (simp_all add: phase1_action.simps)
    then show "map_runs conns n T (M_Phase1 n) st2 inbox2 (?g1 (st2, inbox2))"
      by simp
  qed simp
  then show ?thesis
    by (simp add: play_turn_def assms(2) then_do_assoc split_def)
qed

lemma begin_turn_cases:
  obtains (left) s where "begin_turn conns st inbox = Returns (M_Ending, s, inbox)"
      "\<And>k. run_turns k conns n T st inbox = Returns (Some (s, inbox))"
  | (undefined) "begin_turn conns st inbox = Faults" "\<And>k. run_turns k conns n T st inbox = Faults"
  | (plays) st1 where "begin_turn conns st inbox =
        then_do (or_fault (comm_turn_step conns (st1\<lparr>ms_turn := ms_turn st1 + 1\<rparr>))) (\<lambda>st2. Returns (M_Phase1 0, st2, inbox))"
      "run_turns 0 conns n T st inbox = Returns None"
      "\<And>k. run_turns (Suc k) conns n T st inbox =
        then_do (play_turn conns n T st1 inbox) (\<lambda>(st2, inbox2). run_turns k conns n T st2 inbox2)"
proof -
  obtain stop st0 where 0: "look_exit st = (stop, st0)"
    by (cases "look_exit st")
  obtain stop' st1 where 1: "look_exit st0 = (stop', st1)"
    by (cases "look_exit st0")
  note d = begin_turn_def run_turns.simps [of _ conns n T st inbox] Let_def 0 1
  show thesis
  proof (cases stop)
    case True
    then show ?thesis
      by (intro left [of st0]) (simp_all add: d)
  next
    case False
    show ?thesis
    proof (cases "endSimulation (ms_map st0) (ms_turn st0)")
      case None
      then show ?thesis
        using False by (intro undefined) (simp_all add: d)
    next
      case (Some go)
      show ?thesis
      proof (cases "go \<noteq> CONTINUE_SIM")
        case True
        then show ?thesis
          using Some False by (intro left [of st0]) (simp_all add: d)
      next
        case go: False
        show ?thesis
        proof (cases stop')
          case True
          then show ?thesis
            using Some False go by (intro left [of st1]) (simp_all add: d)
        next
          case not_stop': False
          then show ?thesis
            using Some False go by (intro plays [of st1]) (simp_all add: d)
        qed
      qed
    qed
  qed
qed

text \<open>Whatever \<open>run_turns\<close> gives when its turns suffice, the actions give.\<close>

lemma map_runs_run_turns:
  "run_turns k conns n T st inbox \<noteq> Returns None \<Longrightarrow>
    map_runs conns n T M_Turn st inbox (loop_result (run_turns k conns n T st inbox))"
proof (induction k arbitrary: st inbox)
  case (0 st inbox)
  show ?case
  proof (cases rule: begin_turn_cases [of conns st inbox n T])
    case (left s)
    then show ?thesis
      by (auto intro: map_on map_left)
  next
    case undefined
    then show ?thesis
      by (auto intro: map_faults)
  qed (use 0 in simp)
next
  case (Suc k st inbox)
  show ?case
  proof (cases rule: begin_turn_cases [of conns st inbox n T])
    case (left s)
    then show ?thesis
      by (auto intro: map_on map_left)
  next
    case undefined
    then show ?thesis
      by (auto intro: map_faults)
  next
    case (plays st1)
    let ?g = "\<lambda>(st2, inbox2). loop_result (run_turns k conns n T st2 inbox2)"
    have r: "loop_result (run_turns (Suc k) conns n T st inbox) = then_do (play_turn conns n T st1 inbox) ?g"
      by (simp add: plays(3) loop_result_then_do split_def)
    have later: "map_runs conns n T M_Turn st' rest (?g (st', rest))"
      if "play_turn conns n T st1 inbox = Returns (st', rest)" for st' rest
      using Suc.IH [of st' rest] Suc.prems that by (simp add: plays(3))
    show ?thesis
    proof (cases "comm_turn_step conns (st1\<lparr>ms_turn := ms_turn st1 + 1\<rparr>)")
      case None
      then have "begin_turn conns st inbox = Faults" "play_turn conns n T st1 inbox = Faults"
        by (simp_all add: plays(1) play_turn_def)
      then show ?thesis
        unfolding r by (auto intro: map_faults)
    next
      case (Some st2)
      then have "begin_turn conns st inbox = Returns (M_Phase1 0, st2, inbox)"
        by (simp add: plays(1))
      then show ?thesis
        unfolding r using map_runs_turn [of conns n T st1 inbox ?g, OF later Some] by (auto intro: map_on)
    qed
  qed
qed

inductive_cases map_runs_leftE: "map_runs conns n T M_Ending st inbox r"

lemma map_runs_functional:
  "map_runs conns n T pc st inbox r \<Longrightarrow> map_runs conns n T pc st inbox r' \<Longrightarrow> r = r'"
proof (induction arbitrary: r' rule: map_runs.induct)
  case (map_left st inbox)
  then show ?case
    by (auto elim: map_runs_leftE)
next
  case (map_on pc st inbox pc' st' inbox' r)
  from map_on.prems show ?case
  proof (cases rule: map_runs.cases)
    case (map_on pc2 st2 inbox2)
    then have "pc2 = pc'" "st2 = st'" "inbox2 = inbox'"
      using map_on.hyps by simp_all
    then show ?thesis
      using map_on map_on.IH by simp
  qed (use map_on.hyps in simp_all)
next
  case (map_waits pc st inbox)
  from map_waits.prems show ?case
    by (cases rule: map_runs.cases) (use map_waits.hyps in simp_all)
next
  case (map_faults pc st inbox)
  from map_faults.prems show ?case
    by (cases rule: map_runs.cases) (use map_faults.hyps in simp_all)
qed

end
