(* ===== verification/Airline_Start.thy ===== *)
theory Airline_Start
  imports Plane_Thread Airline_Process MsgQueue
begin

text \<open>
  The life of an airline process in \<open>app/airline.c\<close> around its listener: \<open>bootstrap_planes\<close>
  creates the threads, \<open>run_airline\<close> runs the listener and then tells the planes to end.
  The threads of the planes run beside the listener: what each of them has written to its \<open>done\<close> by
  the time a message is served comes with the message, and their reports are the steps of
  \<open>barrier_step\<close>. Whole\_System runs listener and threads together. Freeing the threads and their
  queues is in Process\_Ends.
\<close>

section \<open>Creating the threads\<close>

definition new_thread :: "int \<Rightarrow> plane \<Rightarrow> plane_thread" where
  "new_thread airline p =
     \<lparr>pt_plane = p, pt_airline = airline, pt_done = False, pt_inbox = [], pt_peeks = [], pt_writes = [],
      pt_allocs = [], pt_sent = [], pt_ready = 0\<rparr>"

text \<open>A NULL from \<open>malloc\<close> is written through at once, a queue that is NULL at its first use.\<close>

definition bootstrap_planes :: "mallocs \<Rightarrow> airline \<Rightarrow> plane_thread vector option" where
  "bootstrap_planes al self = do {
     let (created, al0) = createVector al;
     threads0 \<leftarrow> created;
     after_loop
       (for_loop (airline_numberOfPlanes self) 0 (\<lambda>i (threads, al). do {
          let (ok, al1) = alloc al;
          _ \<leftarrow> (if ok then Some () else None);
          let (queue, al2) = message_queue_create al1;
          _ \<leftarrow> queue;
          p \<leftarrow> (if i < length (airline_planes self) then Some (airline_planes self ! i) else None);
          (_, threads', al3) \<leftarrow> addToVector al2 threads (new_thread (airline_id self) p);
          Some (Next (threads', al3))
        }) (threads0, al0))
       (\<lambda>(threads, _). Some threads)
   }"

text \<open>What the listener sees of a thread.\<close>

definition slot_of :: "plane_thread \<Rightarrow> thread_slot" where
  "slot_of t = \<lparr>sl_done = pt_done t, sl_pushed = pt_inbox t\<rparr>"

definition airline_start :: "airline \<Rightarrow> plane_thread vector \<Rightarrow> airline_state" where
  "airline_start self threads =
     \<lparr>al_id = airline_id self, al_numberOfPlanes = airline_numberOfPlanes self,
      al_threads = vec_of (map slot_of (vlist threads)), al_planesLeft = 0, al_stage = 0, al_sent = []\<rparr>"

text \<open>
  The threads of the planes run beside the listener, and each sets its \<open>done\<close> when it likes. With
  every message comes what the listener finds there: \<open>dones ! p\<close> says whether plane \<open>p\<close> is done by then.
\<close>

definition planes_done :: "bool list \<Rightarrow> airline_state \<Rightarrow> airline_state" where
  "planes_done dones st =
     st\<lparr>al_threads := vec_of (map2 (\<lambda>d t. t\<lparr>sl_done := d\<rparr>) dones (slots st))\<rparr>"

fun listen_beside :: "airline_state \<Rightarrow> (bool list \<times> MapMessage) list \<Rightarrow> airline_state outcome" where
  "listen_beside st [] = Blocks"
| "listen_beside st ((dones, msg) # inbox) =
     (case listen_one msg (planes_done dones st) of
        None \<Rightarrow> Faults
      | Some (Exit st') \<Rightarrow> Returns st'
      | Some (Next st') \<Rightarrow> listen_beside st' inbox)"

text \<open>\<open>final\<close> is what the broadcast at the end finds.\<close>

definition run_airline :: "mallocs \<Rightarrow> airline \<Rightarrow> (bool list \<times> MapMessage) list \<Rightarrow> bool list \<Rightarrow> airline_state outcome" where
  "run_airline al self inbox final =
     (case bootstrap_planes al self of
        None \<Rightarrow> Faults
      | Some threads \<Rightarrow>
          (case listen_beside (airline_start self threads) inbox of
             Blocks \<Rightarrow> Blocks | Faults \<Rightarrow> Faults
           | Returns st \<Rightarrow> (case end_planes (planes_done final st) of None \<Rightarrow> Faults | Some st' \<Rightarrow> Returns st')))"

section \<open>The threads there are\<close>

lemma bootstrap_planes_threads:
  assumes "airline_numberOfPlanes self = length (airline_planes self)" "length (airline_planes self) < 2147483648"
  shows "bootstrap_planes [] self = Some (vec_of (map (new_thread (airline_id self)) (airline_planes self)))"
proof -
  let ?f = "new_thread (airline_id self)"
  let ?ps = "airline_planes self"
  let ?body = "\<lambda>i (threads, al). do {
          let (ok, al1) = alloc al;
          _ \<leftarrow> (if ok then Some () else None);
          let (queue, al2) = message_queue_create al1;
          _ \<leftarrow> queue;
          p \<leftarrow> (if i < length ?ps then Some (?ps ! i) else None);
          (_, threads', al3) \<leftarrow> addToVector al2 threads (?f p);
          Some (Next (threads', al3) :: (plane_thread vector, _) flow)
        }"
  have "\<exists>s'. for_loop (length ?ps) 0 ?body (vec_of [], []) = Some (Next s') \<and>
      s' = (vec_of (map ?f (take (0 + length ?ps) ?ps)), [])"
  proof (rule for_loop_invariant [where I = "\<lambda>i s. s = (vec_of (map ?f (take i ?ps)), [])"])
    fix j :: nat and s :: "plane_thread vector \<times> mallocs"
    assume "j < 0 + length ?ps" "s = (vec_of (map ?f (take j ?ps)), [])"
    then show "\<exists>s'. ?body j s = Some (Next s') \<and> s' = (vec_of (map ?f (take (Suc j) ?ps)), [])"
      by (simp add: message_queue_create_def addToVector_vec_of take_Suc_conv_app_nth)
  qed simp
  then show ?thesis
    using assms(1) by (simp add: bootstrap_planes_def)
qed

text \<open>The listener starts as the barrier does.\<close>

lemma airline_start_barrier:
  assumes "airline_numberOfPlanes self = length (airline_planes self)"
  shows "airline_start self (vec_of (map (new_thread (airline_id self)) (airline_planes self))) =
    br_airline (barrier_init (airline_id self) (airline_numberOfPlanes self))"
  using assms by (simp add: airline_start_def barrier_init_def slot_of_def new_thread_def o_def map_replicate_const)

text \<open>At the end every plane that is not done finds an end message in its queue.\<close>

lemma end_planes_notifies:
  assumes "airline_wf st"
  shows "end_planes st = Some (st\<lparr>al_threads := vec_of (map (notify (phase_message MessageTypeEnd)) (slots st))\<rparr>)"
  using assms broadcast_list [of "al_threads st"] by (simp add: end_planes_def airline_wf_def)


section \<open>The whole life\<close>

text \<open>The messages of the map name planes there are, and hold what their type says.\<close>

fun mm_ok :: "nat \<Rightarrow> MapMessage \<Rightarrow> bool" where
  "mm_ok n (MM_Type t) \<longleftrightarrow> t \<notin> {MessageTypeDestinations, MessageTypeUnloadStock}"
| "mm_ok n (MM_Stock m) \<longleftrightarrow>
     hdr_type (ss_header m) = MessageTypeUnloadStock \<and> 0 \<le> hdr_id (ss_header m) \<and> hdr_id (ss_header m) < int n"
| "mm_ok n (MM_Destinations m) \<longleftrightarrow> dm_type m = MessageTypeDestinations \<and> 0 \<le> dm_planeId m \<and> dm_planeId m < int n"

definition mm_ends :: "MapMessage \<Rightarrow> bool" where
  "mm_ends msg \<longleftrightarrow> mm_type msg \<notin> {MessageTypeStep, MessageTypeContinue, MessageTypeDestinations, MessageTypeUnloadStock}"

text \<open>The message a thread gets for a reply of the map, and for whom it is.\<close>

definition handed_on :: "MapMessage \<Rightarrow> Message" where
  "handed_on msg =
     (case msg of
        MM_Stock m \<Rightarrow> \<lparr>msg_type = MessageTypeStock, msg_payload = P_Stock (part_count (ss_stocks m)) (part_quantities (ss_stocks m))\<rparr>
      | MM_Destinations m \<Rightarrow> \<lparr>msg_type = MessageTypeDestinations,
          msg_payload = P_Destinations (dm_count m) (dm_destinations m) (dm_distance m)\<rparr>
      | MM_Type t \<Rightarrow> phase_message t)"

fun addressee :: "MapMessage \<Rightarrow> int" where
  "addressee (MM_Stock m) = hdr_id (ss_header m)"
| "addressee (MM_Destinations m) = dm_planeId m"
| "addressee (MM_Type t) = - 1"

text \<open>What serving a message pushes to plane \<open>p\<close>, and what it sends to the map.\<close>

fun pushed_by :: "nat \<Rightarrow> bool list \<times> MapMessage \<Rightarrow> Message list" where
  "pushed_by p (dones, MM_Type t) = (if dones ! p then [] else [phase_message t])"
| "pushed_by p (dones, msg) = (if addressee msg = int p then [handed_on msg] else [])"

fun sent_by :: "int \<Rightarrow> bool list \<times> MapMessage \<Rightarrow> PlaneMessage list" where
  "sent_by i (dones, MM_Type t) =
     (if list_all id dones then
        (if t = MessageTypeStep then [PM_Type MessageTypeAirlineDone]
         else [PM_AirlineStatus \<lparr>asm_type = MessageTypeAirlineStatus,
           asm_status = \<lparr>as_id = i, as_planesFlying = 0, as_totalPlanes = int (length dones)\<rparr>\<rparr>])
      else [])"
| "sent_by i (dones, msg) = []"

text \<open>The messages served before the one that ends the listener.\<close>

definition served :: "(bool list \<times> MapMessage) list \<Rightarrow> (bool list \<times> MapMessage) list" where
  "served inbox = takeWhile (\<lambda>(_, msg). \<not> mm_ends msg) inbox"

text \<open>An airline whose planes got, and which has sent, this much.\<close>

definition airline_at :: "int \<Rightarrow> nat \<Rightarrow> (nat \<Rightarrow> Message list) \<Rightarrow> PlaneMessage list \<Rightarrow> airline_state \<Rightarrow> bool" where
  "airline_at i n got sent st \<longleftrightarrow> airline_wf st \<and> al_id st = i \<and> al_numberOfPlanes st = n \<and> al_sent st = sent \<and>
     (\<forall>p<n. sl_pushed (slots st ! p) = got p)"

lemma airline_at_done:
  assumes "airline_at i n got sent st" "length dones = n"
  shows "airline_at i n got sent (planes_done dones st)" "map sl_done (slots (planes_done dones st)) = dones"
proof -
  have len: "length (slots st) = n" "n < 2147483647"
    using assms(1) by (auto simp: airline_at_def airline_wf_def)
  then show "airline_at i n got sent (planes_done dones st)"
    using assms by (simp add: airline_at_def airline_wf_def planes_done_def)
  show "map sl_done (slots (planes_done dones st)) = dones"
    using len(1) assms(2) by (intro nth_equalityI) (simp_all add: planes_done_def)
qed

lemma flying_none: "flying ts = 0 \<longleftrightarrow> list_all id (map sl_done ts)"
  by (induction ts) auto

text \<open>A phase message.\<close>

lemma start_phase_at:
  assumes at: "airline_at i n got sent st" and dones: "map sl_done (slots st) = dones" and t: "t \<in> {MessageTypeStep, MessageTypeContinue}"
    and stage: "al_stage st = (if t = MessageTypeStep then 0 else 1)"
  shows "\<exists>st'. start_phase (phase_message t) st = Some st' \<and>
    airline_at i n (\<lambda>p. got p @ pushed_by p (dones, MM_Type t)) (sent @ sent_by i (dones, MM_Type t)) st'"
proof -
  have wf: "airline_wf st" and len: "length (slots st) = n" and fields: "al_id st = i" "al_sent st = sent" "al_numberOfPlanes st = n"
    using at by (auto simp: airline_at_def airline_wf_def)
  have d: "dones ! p = sl_done (slots st ! p)" if "p < n" for p
    using that len dones by auto
  have got: "sl_pushed (slots st ! p) = got p" if "p < n" for p
    using at that by (simp add: airline_at_def)
  show ?thesis
  proof (cases "flying (slots st) = 0")
    case True
    then have all: "list_all id dones"
      using flying_none [of "slots st"] dones by simp
    have "ready_message st = hd (sent_by i (dones, MM_Type t))"
      using True all t stage fields len dones by (auto simp: ready_message_def)
    then have "airline_at i n (\<lambda>p. got p @ pushed_by p (dones, MM_Type t)) (sent @ sent_by i (dones, MM_Type t))
        (send_to_map (ready_message st) (st\<lparr>al_planesLeft := 0\<rparr>))"
      using all at wf fields got len dones
      by (auto simp: airline_at_def airline_wf_def list_all_length d)
    then show ?thesis
      using True start_phase_wf [OF wf, of "phase_message t"] by simp
  next
    case False
    then have "\<not> list_all id dones"
      using flying_none [of "slots st"] dones by simp
    then have "airline_at i n (\<lambda>p. got p @ pushed_by p (dones, MM_Type t)) (sent @ sent_by i (dones, MM_Type t))
        (st\<lparr>al_planesLeft := int (flying (slots st)), al_threads := vec_of (map (notify (phase_message t)) (slots st))\<rparr>)"
      using wf fields got len d by (auto simp: airline_at_def airline_wf_def notify_def push_slot_def)
    then show ?thesis
      using False start_phase_wf [OF wf, of "phase_message t"] by simp
  qed
qed

text \<open>A message for one plane.\<close>

lemma push_one_at:
  assumes at: "airline_at i n got sent st" and q: "0 \<le> q" "q < int n"
  shows "\<exists>t. vec_deref (al_threads st) q = Some t \<and>
    airline_at i n (\<lambda>p. got p @ (if q = int p then [msg] else [])) sent
      (st\<lparr>al_threads := vec_store (al_threads st) (to_uint q) (push_slot msg t)\<rparr>)"
proof -
  obtain xs where xs: "al_threads st = vec_of xs" "length xs = n" "n < 2147483647"
    using at by (auto simp: airline_at_def airline_wf_def elim: vec_invE)
  obtain j where j: "q = int j" "j < n"
    using q by (metis nonneg_int_cases of_nat_less_iff)
  moreover have "to_uint q = j"
    using j xs(3) by (simp add: to_uint_def)
  ultimately show ?thesis
    using at vec_deref_in [of j xs] vec_store_vec_of [of j xs "push_slot msg (xs ! j)"] xs
    by (auto simp: airline_at_def airline_wf_def push_slot_def nth_list_update)
qed

text \<open>One round.\<close>

lemma listen_one_at:
  assumes at: "airline_at i n got sent st" and dones: "map sl_done (slots st) = dones" and msg: "mm_ok n msg" "\<not> mm_ends msg"
  shows "\<exists>st'. listen_one msg st = Some (Next st') \<and>
    airline_at i n (\<lambda>p. got p @ pushed_by p (dones, msg)) (sent @ sent_by i (dones, msg)) st'"
proof (cases msg)
  case (MM_Type t)
  then have t: "t = MessageTypeStep \<or> t = MessageTypeContinue"
    using msg by (auto simp: mm_ends_def)
  let ?st = "st\<lparr>al_stage := if t = MessageTypeStep then 0 else 1\<rparr>"
  have "airline_at i n got sent ?st" "map sl_done (slots ?st) = dones"
    using at dones by (simp_all add: airline_at_def airline_wf_def)
  from start_phase_at [OF this, of t] show ?thesis
    using t by (auto simp: MM_Type listen_one_def)
next
  case (MM_Stock m)
  then show ?thesis
    using push_one_at [OF at, of "hdr_id (ss_header m)" "handed_on msg"] msg(1)
    by (auto simp: listen_one_def redirect_stock_message_def handed_on_def Let_def)
next
  case (MM_Destinations m)
  then show ?thesis
    using push_one_at [OF at, of "dm_planeId m" "handed_on msg"] msg(1)
    by (auto simp: listen_one_def redirect_destinations_message_def handed_on_def Let_def)
qed

text \<open>The whole listener.\<close>

lemma listen_beside_at:
  assumes "airline_at i n got sent st" "list_all (\<lambda>(dones, msg). length dones = n \<and> mm_ok n msg) inbox"
  shows "case listen_beside st inbox of
      Faults \<Rightarrow> False
    | Blocks \<Rightarrow> \<not> list_ex (\<lambda>(_, msg). mm_ends msg) inbox
    | Returns st' \<Rightarrow> list_ex (\<lambda>(_, msg). mm_ends msg) inbox \<and>
        airline_at i n (\<lambda>p. got p @ concat (map (pushed_by p) (served inbox))) (sent @ concat (map (sent_by i) (served inbox))) st'"
  using assms
proof (induction inbox arbitrary: got sent st)
  case (Cons x inbox)
  obtain dones msg where x: "x = (dones, msg)" "length dones = n" "mm_ok n msg"
    using Cons.prems(2) by (cases x) auto
  note at = airline_at_done [OF Cons.prems(1) x(2)]
  show ?case
  proof (cases "mm_ends msg")
    case True
    then have "listen_one msg (planes_done dones st) = Some (Exit (planes_done dones st))"
      using x(3) by (cases msg) (auto simp: mm_ends_def listen_one_def split: MessageType.split)
    then show ?thesis
      using at(1) True by (simp add: x(1) served_def)
  next
    case False
    obtain st' where st': "listen_one msg (planes_done dones st) = Some (Next st')"
      "airline_at i n (\<lambda>p. got p @ pushed_by p (dones, msg)) (sent @ sent_by i (dones, msg)) st'"
      using listen_one_at [OF at x(3) False] by blast
    have rest: "list_all (\<lambda>(dones, msg). length dones = n \<and> mm_ok n msg) inbox"
      using Cons.prems(2) by simp
    show ?thesis
      using Cons.IH [OF st'(2) rest] st'(1) False by (simp add: x(1) served_def split: outcome.splits)
  qed
qed simp

text \<open>The listener and the end it tells the planes.\<close>

lemma run_airline_result:
  assumes "airline_numberOfPlanes self = length (airline_planes self)" "length (airline_planes self) < 2147483647"
    and "list_all (\<lambda>(dones, msg). length dones = length (airline_planes self) \<and> mm_ok (length (airline_planes self)) msg) inbox"
    and "length final = length (airline_planes self)"
  shows "case run_airline [] self inbox final of
      Faults \<Rightarrow> False
    | Blocks \<Rightarrow> \<not> list_ex (\<lambda>(_, msg). mm_ends msg) inbox
    | Returns st' \<Rightarrow> list_ex (\<lambda>(_, msg). mm_ends msg) inbox \<and> length (slots st') = length (airline_planes self) \<and>
        al_sent st' = concat (map (sent_by (airline_id self)) (served inbox)) \<and>
        (\<forall>p<length (airline_planes self). sl_pushed (slots st' ! p) =
           concat (map (pushed_by p) (served inbox)) @ (if final ! p then [] else [phase_message MessageTypeEnd]))"
proof -
  let ?ps = "airline_planes self" and ?i = "airline_id self"
  let ?st = "airline_start self (vec_of (map (new_thread ?i) ?ps))"
  have b: "bootstrap_planes [] self = Some (vec_of (map (new_thread ?i) ?ps))"
    using assms by (intro bootstrap_planes_threads) simp_all
  have "airline_at ?i (length ?ps) (\<lambda>_. []) [] ?st"
    using assms(1,2) by (simp add: airline_start_def airline_at_def airline_wf_def slot_of_def new_thread_def)
  note l = listen_beside_at [OF this assms(3)]
  show ?thesis
  proof (cases "listen_beside ?st inbox")
    case (Returns st1)
    let ?st2 = "planes_done final st1"
    have at: "airline_at ?i (length ?ps) (\<lambda>p. concat (map (pushed_by p) (served inbox))) (concat (map (sent_by ?i) (served inbox))) ?st2"
      "map sl_done (slots ?st2) = final"
      using l airline_at_done [OF _ assms(4), of _ _ _ st1] by (simp_all add: Returns) blast
    then have wf: "airline_wf ?st2" "length (slots ?st2) = length ?ps"
      by (auto simp: airline_at_def airline_wf_def)
    have "final ! p = sl_done (slots ?st2 ! p)" if "p < length ?ps" for p
      using that wf(2) at(2) by (metis nth_map)
    then show ?thesis
      using b l Returns at(1) wf(2) end_planes_notifies [OF wf(1)]
      by (auto simp: run_airline_def airline_at_def notify_def push_slot_def)
  qed (use b l in \<open>simp_all add: run_airline_def\<close>)
qed

text \<open>What is kept: the threads there are, and which of them are done.\<close>

definition same_threads :: "airline_state \<Rightarrow> airline_state \<Rightarrow> bool" where
  "same_threads st st' \<longleftrightarrow> airline_wf st' \<and> al_id st' = al_id st \<and> map sl_done (slots st') = map sl_done (slots st)"

lemma same_threads_refl: "airline_wf st \<Longrightarrow> same_threads st st"
  by (simp add: same_threads_def)

lemma same_threads_trans: "same_threads st st1 \<Longrightarrow> same_threads st1 st2 \<Longrightarrow> same_threads st st2"
  by (simp add: same_threads_def)

lemma push_one_thread:
  assumes "airline_wf st" "0 \<le> i" "i < int (al_numberOfPlanes st)"
  shows "\<exists>t. vec_deref (al_threads st) i = Some t \<and>
    same_threads st (st\<lparr>al_threads := vec_store (al_threads st) (to_uint i) (push_slot msg t)\<rparr>)"
proof -
  obtain xs where xs: "al_threads st = vec_of xs" "length xs = al_numberOfPlanes st" "length xs < 2147483647"
    using assms(1) by (auto simp: airline_wf_def elim: vec_invE)
  obtain j where j: "i = int j" "j < length xs"
    using assms(2,3) xs(2) by (metis nonneg_int_cases of_nat_less_iff)
  have "map sl_done (xs[j := push_slot msg (xs ! j)]) = map sl_done xs"
    using j(2) by (simp add: map_update push_slot_def list_update_same_conv)
  moreover have "to_uint i = j"
    using j xs(3) by (simp add: to_uint_def)
  ultimately show ?thesis
    using assms(1) vec_deref_in [of j xs] vec_store_vec_of [of j xs "push_slot msg (xs ! j)"] j xs
    by (auto simp: same_threads_def airline_wf_def)
qed

lemma start_phase_threads:
  assumes "airline_wf st"
  shows "\<exists>st'. start_phase msg st = Some st' \<and> same_threads st st'"
proof -
  have "length (slots st) < 2147483648"
    using assms by (simp add: airline_wf_def)
  then show ?thesis
    using assms start_phase_wf [OF assms, of msg]
    by (auto simp: same_threads_def airline_wf_def send_to_map_def notify_def push_slot_def o_def)
qed

lemma listen_one_result:
  assumes "airline_wf st" "mm_ok (al_numberOfPlanes st) msg"
  shows "if mm_ends msg then listen_one msg st = Some (Exit st)
    else \<exists>st'. listen_one msg st = Some (Next st') \<and> same_threads st st'"
proof (cases msg)
  case (MM_Type t)
  have "airline_wf (st\<lparr>al_stage := k\<rparr>)" for k
    using assms(1) by (simp add: airline_wf_def)
  then have "\<exists>st'. start_phase m (st\<lparr>al_stage := k\<rparr>) = Some st' \<and> same_threads st st'" for m k
    using start_phase_threads [of "st\<lparr>al_stage := k\<rparr>" m] by (simp add: same_threads_def)
  then show ?thesis
    using assms(2) by (cases t) (auto simp: MM_Type mm_ends_def listen_one_def)
next
  case (MM_Stock m)
  then show ?thesis
    using assms push_one_thread [OF assms(1)]
    by (fastforce simp: mm_ends_def listen_one_def redirect_stock_message_def Let_def)
next
  case (MM_Destinations m)
  then show ?thesis
    using assms push_one_thread [OF assms(1)]
    by (fastforce simp: mm_ends_def listen_one_def redirect_destinations_message_def Let_def)
qed

lemma listen_result:
  assumes "airline_wf st" "list_all (mm_ok (length (slots st))) inbox"
  shows "case listen st inbox of
      Faults \<Rightarrow> False | Blocks \<Rightarrow> \<not> list_ex mm_ends inbox
    | Returns st' \<Rightarrow> list_ex mm_ends inbox \<and> same_threads st st'"
  using assms
proof (induction inbox arbitrary: st)
  case (Cons msg inbox)
  have n: "al_numberOfPlanes st = length (slots st)"
    using Cons.prems(1) by (simp add: airline_wf_def)
  note one = listen_one_result [OF Cons.prems(1), of msg]
  show ?case
  proof (cases "mm_ends msg")
    case True
    then show ?thesis
      using one Cons.prems n by (simp add: same_threads_refl)
  next
    case False
    then obtain st1 where st1: "listen_one msg st = Some (Next st1)" "same_threads st st1"
      using one Cons.prems n by auto
    have "length (slots st1) = length (slots st)"
      using st1(2) by (metis length_map same_threads_def)
    then have "case listen st1 inbox of
        Faults \<Rightarrow> False | Blocks \<Rightarrow> \<not> list_ex mm_ends inbox
      | Returns st' \<Rightarrow> list_ex mm_ends inbox \<and> same_threads st1 st'"
      using Cons.IH [of st1] st1(2) Cons.prems(2) by (simp add: same_threads_def)
    then show ?thesis
      using st1 False same_threads_trans by (auto split: outcome.splits)
  qed
qed simp

end
