(* ===== verification/Whole_System.thy ===== *)
theory Whole_System
  imports Process_Steps Map_Steps Airline_Start
begin

text \<open>
  The program as it runs: the map process, the listener of every airline and the thread of every
  plane, in any interleaving, with the queues between them.

  A step of a plane or of the map is an action of Process\_Steps or Map\_Steps; a step of a listener is one
  round of \<open>listen\<close> (and, at its end, telling the planes to end). The logs of the single processes
  become outboxes here: after each step the messages written move to the queue of their
  receiver. A queue is a list that is never full; System\_Queues bounds how many messages it holds. A
  read returns a message or waits. The screen and the wait for it come in with Whole\_Program.
  \<open>self->done\<close> is written by the thread
  of the plane and read by the listener through the slot of the thread.
\<close>

section \<open>State\<close>

record plane_proc =
  pp_pc :: plane_pc
  pp_thread :: plane_thread

record airline_proc =
  ap_state :: airline_state
  ap_inbox :: "MapMessage list"
  ap_listens :: bool
  ap_planes :: "plane_proc list"

record system_state =
  sy_pc :: map_pc
  sy_map :: map_state
  sy_inbox :: "PlaneMessage list"
  sy_airlines :: "airline_proc list"

section \<open>Steps\<close>

text \<open>What was pushed to a thread goes to the end of its queue.\<close>

definition receive :: "Message list \<Rightarrow> plane_proc \<Rightarrow> plane_proc" where
  "receive msgs P = P\<lparr>pp_thread := (pp_thread P)\<lparr>pt_inbox := pt_inbox (pp_thread P) @ msgs\<rparr>\<rparr>"

text \<open>Emptying the outboxes of an airline; the messages for the map are returned.\<close>

definition settle :: "airline_state \<Rightarrow> airline_proc \<Rightarrow> airline_proc \<times> PlaneMessage list" where
  "settle st A =
     (A\<lparr>ap_state := st\<lparr>al_threads := vec_of (map (\<lambda>t. t\<lparr>sl_pushed := []\<rparr>) (slots st)), al_sent := []\<rparr>,
        ap_planes := map2 (\<lambda>t P. receive (sl_pushed t) P) (slots st) (ap_planes A)\<rparr>,
      al_sent st)"

definition listener_action :: "airline_proc \<Rightarrow> (airline_proc \<times> PlaneMessage list) outcome" where
  "listener_action A =
     (if \<not> ap_listens A then Blocks
      else
        (case ap_inbox A of
           [] \<Rightarrow> Blocks
         | msg # inbox \<Rightarrow>
             (case listen_one msg (ap_state A) of
                None \<Rightarrow> Faults
              | Some (Next st) \<Rightarrow> Returns (settle st (A\<lparr>ap_inbox := inbox\<rparr>))
              | Some (Exit st) \<Rightarrow>
                  (case end_planes st of
                     None \<Rightarrow> Faults
                   | Some st' \<Rightarrow> Returns (settle st' (A\<lparr>ap_inbox := inbox, ap_listens := False\<rparr>))))))"

definition mark_done :: "nat \<Rightarrow> bool \<Rightarrow> airline_state \<Rightarrow> airline_state" where
  "mark_done p b st = st\<lparr>al_threads := vec_store (al_threads st) p ((slots st ! p)\<lparr>sl_done := b\<rparr>)\<rparr>"

text \<open>Where a thread is after an action.\<close>

fun after_action :: "(plane_thread, plane_pc \<times> plane_thread) flow \<Rightarrow> plane_pc \<times> plane_thread" where
  "after_action (Exit th) = (Gone, th)"
| "after_action (Next (pc, th)) = (pc, th)"

definition thread_action :: "nat \<Rightarrow> airline_proc \<Rightarrow> (airline_proc \<times> PlaneMessage list) outcome" where
  "thread_action p A =
     (if p < length (ap_planes A) then
        then_do (plane_action (pp_pc (ap_planes A ! p)) (pp_thread (ap_planes A ! p))) (\<lambda>r.
          let (pc, th) = after_action r;
              st = mark_done p (pt_done th) (ap_state A)
          in then_do (or_fault (if pt_ready th = 0 then Some st else app_airline_plane_ready st)) (\<lambda>st'.
               let P = \<lparr>pp_pc = pc, pp_thread = th\<lparr>pt_sent := [], pt_ready := 0\<rparr>\<rparr>;
                   (A', sent) = settle st' (A\<lparr>ap_planes := (ap_planes A)[p := P]\<rparr>)
               in Returns (A', pt_sent th @ sent)))
      else Blocks)"

text \<open>What the map has written, by connection.\<close>

definition deliver :: "(nat \<times> MapMessage) list \<Rightarrow> airline_proc list \<Rightarrow> airline_proc list" where
  "deliver msgs as =
     map (\<lambda>k. (as ! k)\<lparr>ap_inbox := ap_inbox (as ! k) @ map snd (filter (\<lambda>(c, _). c = k) msgs)\<rparr>) [0..<length as]"

datatype actor = The_Map | Listener nat | Plane nat nat

fun airline_acts :: "nat \<Rightarrow> (airline_proc \<Rightarrow> (airline_proc \<times> PlaneMessage list) outcome) \<Rightarrow>
  system_state \<Rightarrow> system_state outcome" where
  "airline_acts a f S =
     (if a < length (sy_airlines S) then
        then_do (f (sy_airlines S ! a)) (\<lambda>(A, sent).
          Returns (S\<lparr>sy_airlines := (sy_airlines S)[a := A], sy_inbox := sy_inbox S @ sent\<rparr>))
      else Blocks)"

fun act :: "int \<Rightarrow> actor \<Rightarrow> system_state \<Rightarrow> system_state outcome" where
  "act T The_Map S =
     (let n = length (sy_airlines S) in
      then_do (map_action (vec_of [0..<n]) n T (sy_pc S) (sy_map S) (sy_inbox S)) (\<lambda>(pc, st, inbox).
        Returns (S\<lparr>sy_pc := pc, sy_map := st\<lparr>ms_sent := []\<rparr>, sy_inbox := inbox,
          sy_airlines := deliver (ms_sent st) (sy_airlines S)\<rparr>)))"
| "act T (Listener a) S = airline_acts a listener_action S"
| "act T (Plane a p) S = airline_acts a (thread_action p) S"

inductive sys_reach :: "int \<Rightarrow> system_state \<Rightarrow> system_state \<Rightarrow> bool" for T S0 where
  reach_start: "sys_reach T S0 S0"
| reach_step: "sys_reach T S0 S \<Longrightarrow> act T x S = Returns S' \<Longrightarrow> sys_reach T S0 S'"

text \<open>Everything is over: the children have been told to end, and did.\<close>

definition all_ended :: "system_state \<Rightarrow> bool" where
  "all_ended S \<longleftrightarrow> sy_pc S = M_Ended \<and>
     list_all (\<lambda>A. \<not> ap_listens A \<and> list_all (\<lambda>P. pp_pc P = Gone) (ap_planes A)) (sy_airlines S)"

section \<open>The start\<close>

text \<open>
  The process of an airline after \<open>bootstrap_planes\<close>. \<open>writes\<close> and \<open>allocs\<close> say which calls of its
  threads fail; a thread sees every message in its queue when it peeks.
\<close>

definition boot_airline :: "(nat \<Rightarrow> bool list) \<Rightarrow> (nat \<Rightarrow> mallocs) \<Rightarrow> airline \<Rightarrow> airline_proc option" where
  "boot_airline writes allocs self = do {
     threads \<leftarrow> bootstrap_planes [] self;
     Some \<lparr>ap_state = airline_start self threads, ap_inbox = [], ap_listens = True,
       ap_planes = map (\<lambda>p. \<lparr>pp_pc = At_Top, pp_thread = (vlist threads ! p)\<lparr>pt_writes := writes p, pt_allocs := allocs p\<rparr>\<rparr>)
         [0..<length (vlist threads)]\<rparr>
   }"

fun boot_airlines :: "(nat \<Rightarrow> nat \<Rightarrow> bool list) \<Rightarrow> (nat \<Rightarrow> nat \<Rightarrow> mallocs) \<Rightarrow> nat \<Rightarrow> airline list \<Rightarrow> airline_proc list option" where
  "boot_airlines writes allocs a [] = Some []"
| "boot_airlines writes allocs a (self # selves) = do {
     A \<leftarrow> boot_airline (writes a) (allocs a) self;
     As \<leftarrow> boot_airlines writes allocs (Suc a) selves;
     Some (A # As)
   }"

text \<open>\<open>runMap\<close> up to its loop, with the airlines waiting; the total goes along.\<close>

definition system_start :: "(nat \<Rightarrow> nat \<Rightarrow> bool list) \<Rightarrow> (nat \<Rightarrow> nat \<Rightarrow> mallocs) \<Rightarrow> airline vector \<Rightarrow> map_state \<Rightarrow>
  (int \<times> system_state) option" where
  "system_start writes allocs airlines st = do {
     (totalStockAmount, _) \<leftarrow> get_map_status (ms_map st);
     st1 \<leftarrow> send_airlines_status airlines st;
     st2 \<leftarrow> output_map_status totalStockAmount st1;
     As \<leftarrow> boot_airlines writes allocs 0 (vlist airlines);
     Some (totalStockAmount, \<lparr>sy_pc = M_Turn, sy_map = st2\<lparr>ms_turn := 0\<rparr>, sy_inbox = [], sy_airlines = As\<rparr>)
   }"

end
