(* ===== verification/Plane_Moves.thy ===== *)
theory Plane_Moves
  imports Whole_System
begin

text \<open>
  What the actions of a plane thread do, as a step relation over what the rest of the program sees
  of it, and the proof that every action of a well-formed thread is such a step. A thread can
  stop early only if one of its calls fails or an unexpected message comes.
\<close>

section \<open>Good messages for a plane\<close>

definition dests_ok :: "nat \<Rightarrow> candidate list \<Rightarrow> bool" where
  "dests_ok nc cs \<longleftrightarrow> length cs \<le> MAX_DESTINATIONS \<and>
     list_all (\<lambda>c. (\<exists>i<nc. cand_city c = int i) \<and> 0 \<le> cand_dist c \<and> in_int (cand_dist c)) cs"

definition amounts_ok :: "nat \<Rightarrow> int list \<Rightarrow> bool" where
  "amounts_ok k as \<longleftrightarrow> length as = k \<and> list_all (\<lambda>a. 0 \<le> a \<and> in_int a) as"

definition destinations_reply :: "candidate list \<Rightarrow> Message" where
  "destinations_reply cs = \<lparr>msg_type = MessageTypeDestinations, msg_payload = P_Destinations (length cs)
     (arr_of MAX_DESTINATIONS (map cand_city cs)) (arr_of MAX_DESTINATIONS (map cand_dist cs))\<rparr>"

text \<open>The messages in the queue of a plane with \<open>k\<close> stocks, on a map of \<open>nc\<close> cities.\<close>

definition queue_ok :: "nat \<Rightarrow> nat \<Rightarrow> Message \<Rightarrow> bool" where
  "queue_ok nc k msg \<longleftrightarrow>
     (msg_type msg = MessageTypeStock \<longrightarrow> (\<exists>as. msg = stock_reply as \<and> amounts_ok k as)) \<and>
     (msg_type msg = MessageTypeDestinations \<longrightarrow> (\<exists>cs. msg = destinations_reply cs \<and> dests_ok nc cs))"

section \<open>Good threads\<close>

text \<open>A thread without the failures still to come.\<close>

definition plain :: "plane_thread \<Rightarrow> plane_thread" where
  "plain th = th\<lparr>pt_peeks := [], pt_writes := [], pt_allocs := []\<rparr>"

definition quiet :: "plane_thread \<Rightarrow> bool" where
  "quiet th \<longleftrightarrow> pt_peeks th = [] \<and> pt_writes th = [] \<and> pt_allocs th = []"

lemma plain_simps [simp]:
  "pt_plane (plain th) = pt_plane th" "pt_airline (plain th) = pt_airline th" "pt_done (plain th) = pt_done th"
  "pt_inbox (plain th) = pt_inbox th" "pt_sent (plain th) = pt_sent th" "pt_ready (plain th) = pt_ready th"
  by (simp_all add: plain_def)

lemma plain_peeked [simp]: "plain (peeked th) = plain th" "quiet th \<Longrightarrow> peeked th = th"
  by (simp_all add: plain_def quiet_def peeked_def)

lemma plain_eqD:
  assumes "plain th' = plain th"
  shows "pt_plane th' = pt_plane th" "pt_airline th' = pt_airline th" "pt_done th' = pt_done th"
    "pt_inbox th' = pt_inbox th" "pt_sent th' = pt_sent th" "pt_ready th' = pt_ready th"
  using assms by (metis plain_simps)+

lemma plain_fields:
  "plain th' = plain th \<Longrightarrow> pt_plane th' = pt_plane th \<and> pt_airline th' = pt_airline th \<and> pt_done th' = pt_done th \<and>
    pt_inbox th' = pt_inbox th \<and> pt_sent th' = pt_sent th \<and> pt_ready th' = pt_ready th"
  using plain_eqD by blast

definition stocks_ok :: "product vector \<Rightarrow> nat \<Rightarrow> stock vector \<Rightarrow> bool" where
  "stocks_ok ps k v \<longleftrightarrow> (\<exists>ss. v = vec_of ss \<and> length ss = k \<and> k \<le> MAX_STOCKS \<and> stocks_known ps ss)"

text \<open>The thread of plane \<open>p\<close> of airline \<open>a\<close>, which has \<open>k\<close> stocks.\<close>

definition thread_ok :: "nat \<Rightarrow> product vector \<Rightarrow> nat \<Rightarrow> nat \<Rightarrow> nat \<Rightarrow> plane_thread \<Rightarrow> bool" where
  "thread_ok nc ps a p k th \<longleftrightarrow>
     pt_airline th = int a \<and> plane_id (pt_plane th) = int p \<and> (\<exists>i<nc. plane_cityId (pt_plane th) = int i) \<and>
     0 \<le> plane_distance (pt_plane th) \<and> in_int (plane_distance (pt_plane th)) \<and>
     stocks_ok ps k (plane_stocks (pt_plane th)) \<and> list_all (queue_ok nc k) (pt_inbox th)"

lemma thread_ok_plain [simp]: "thread_ok nc ps a p k (plain th) = thread_ok nc ps a p k th"
  by (simp add: thread_ok_def)

section \<open>The moves\<close>

text \<open>The messages that let a thread go on.\<close>

definition head_type :: "plane_thread \<Rightarrow> MessageType option" where
  "head_type th = (case pt_inbox th of [] \<Rightarrow> None | m # _ \<Rightarrow> Some (msg_type m))"

definition expects :: "plane_pc \<Rightarrow> plane_thread \<Rightarrow> bool" where
  "expects pc th \<longleftrightarrow>
     (case pc of
        At_Top \<Rightarrow> pt_done th \<or> head_type th = Some MessageTypeStep
      | At_Stock \<Rightarrow> head_type th = Some MessageTypeStock
      | At_Continue \<Rightarrow> head_type th = Some MessageTypeContinue
      | At_Destinations \<Rightarrow> head_type th = Some MessageTypeDestinations
      | _ \<Rightarrow> head_type th \<noteq> Some MessageTypeEnd)"

definition waiting :: "plane_pc \<Rightarrow> plane_thread \<Rightarrow> bool" where
  "waiting pc th \<longleftrightarrow> pc = Gone \<or> pt_inbox th = [] \<and> (pc \<in> {At_Stock, At_Continue, At_Destinations} \<or> pc = At_Top \<and> \<not> pt_done th)"

definition check_request :: "plane_thread \<Rightarrow> CheckDestinationsMessage" where
  "check_request st =
     \<lparr>cd_header = prepare_header (pt_airline st) (plane_id (pt_plane st)) (plane_cityId (pt_plane st))
        MessageTypeCheckDestinations, cd_maxDestinations = 5, cd_stocks = part_of (vlist (plane_stocks (pt_plane st)))\<rparr>"

inductive plane_move :: "nat \<Rightarrow> nat \<Rightarrow> plane_pc \<Rightarrow> plane_thread \<Rightarrow> plane_pc \<Rightarrow> plane_thread \<Rightarrow> bool" for nc k where
  move_stop: "pc \<noteq> Gone \<Longrightarrow> \<not> (quiet th \<and> expects pc th) \<Longrightarrow> ms \<in> {pt_inbox th, tl (pt_inbox th)} \<Longrightarrow> pt_done th \<longrightarrow> d \<Longrightarrow>
    plain th' = plain (th\<lparr>pt_inbox := ms, pt_done := d\<rparr>) \<Longrightarrow> plane_move nc k pc th Gone th'"
| move_over: "pt_done th \<Longrightarrow> plain th' = plain th \<Longrightarrow> plane_move nc k At_Top th Gone th'"
| move_step: "\<not> pt_done th \<Longrightarrow> pt_inbox th = m # ms \<Longrightarrow> msg_type m = MessageTypeStep \<Longrightarrow>
    plain th' = plain (th\<lparr>pt_inbox := ms\<rparr>) \<Longrightarrow> plane_move nc k At_Top th At_Phase1 th'"
| move_ask: "plane_distance (pt_plane th) = 0 \<Longrightarrow>
    plain th' = plain (th\<lparr>pt_sent := pt_sent th @ [PM_StockState (unload_request th)]\<rparr>) \<Longrightarrow> plane_move nc k At_Phase1 th At_Stock th'"
| move_skip: "plain th' = plain th \<Longrightarrow> plane_move nc k At_Phase1 th At_Ready1 th'"
| move_unload: "pt_inbox th = stock_reply as # ms \<Longrightarrow> amounts_ok k as \<Longrightarrow> plane_stocks (pt_plane th) = vec_of ss \<Longrightarrow>
    plain th' = plain ((set_stocks (vec_of (with_amounts ss as)) th)\<lparr>pt_inbox := ms, pt_done := pt_done th \<or> list_all (\<lambda>a. a = 0) as\<rparr>) \<Longrightarrow>
    plane_move nc k At_Stock th At_Ready1 th'"
| move_ready1: "plain th' = plain (th\<lparr>pt_ready := Suc (pt_ready th)\<rparr>) \<Longrightarrow>
    plane_move nc k At_Ready1 th (if pt_done th then Gone else At_Continue) th'"
| move_continue: "pt_inbox th = m # ms \<Longrightarrow> msg_type m = MessageTypeContinue \<Longrightarrow> plain th' = plain (th\<lparr>pt_inbox := ms\<rparr>) \<Longrightarrow>
    plane_move nc k At_Continue th At_Phase2 th'"
| move_check: "plane_distance (pt_plane th) = 0 \<Longrightarrow>
    plain th' = plain (th\<lparr>pt_sent := pt_sent th @ [PM_CheckDestinations (check_request th)]\<rparr>) \<Longrightarrow>
    plane_move nc k At_Phase2 th At_Destinations th'"
| move_fly: "0 < plane_distance (pt_plane th) \<Longrightarrow>
    plain th' = plain (th\<lparr>pt_plane := (pt_plane th)\<lparr>plane_distance := plane_distance (pt_plane th) - 1\<rparr>\<rparr>) \<Longrightarrow>
    plane_move nc k At_Phase2 th At_Ready2 th'"
| move_nowhere: "pt_inbox th = destinations_reply [] # ms \<Longrightarrow> plain th' = plain (th\<lparr>pt_inbox := ms, pt_done := True\<rparr>) \<Longrightarrow>
    plane_move nc k At_Destinations th At_Ready2 th'"
| move_choose: "pt_inbox th = destinations_reply (c # cs) # ms \<Longrightarrow> dests_ok nc (c # cs) \<Longrightarrow>
    plain th' = plain (set_destination (cand_city c) (cand_dist c) (th\<lparr>pt_inbox := ms\<rparr>)) \<Longrightarrow>
    plane_move nc k At_Destinations th At_Ready2 th'"
| move_ready2: "plain th' = plain (th\<lparr>pt_ready := Suc (pt_ready th)\<rparr>) \<Longrightarrow> plane_move nc k At_Ready2 th At_Top th'"

text \<open>An action either waits or is a move, and keeps a thread without failures so.\<close>

definition moves :: "nat \<Rightarrow> nat \<Rightarrow> plane_pc \<Rightarrow> plane_thread \<Rightarrow> (plane_thread, plane_pc \<times> plane_thread) flow outcome \<Rightarrow> bool" where
  "moves nc k pc th r \<longleftrightarrow>
     (case r of
        Faults \<Rightarrow> False
      | Blocks \<Rightarrow> waiting pc th
      | Returns x \<Rightarrow> (case after_action x of (pc', th') \<Rightarrow> plane_move nc k pc th pc' th' \<and> (quiet th \<longrightarrow> quiet th')))"

lemma moves_simps [simp]:
  "moves nc k pc th Blocks = waiting pc th"
  "\<not> moves nc k pc th Faults"
  "moves nc k pc th (Returns (Next (pc', th'))) \<longleftrightarrow> plane_move nc k pc th pc' th' \<and> (quiet th \<longrightarrow> quiet th')"
  "moves nc k pc th (Returns (Exit th')) \<longleftrightarrow> plane_move nc k pc th Gone th' \<and> (quiet th \<longrightarrow> quiet th')"
  by (simp_all add: moves_def)

lemma plain_cong: "th' = th \<Longrightarrow> plain th' = plain th"
  by simp

text \<open>Peeking: on with the block, or the end.\<close>

lemma moves_SafeAction:
  assumes "pc \<notin> {Gone, At_Top}" "expects pc th \<Longrightarrow> head_type th \<noteq> Some MessageTypeEnd"
    and now: "plain now = plain th" "quiet th \<longrightarrow> now = th"
    and "\<And>th'. plain th' = plain th \<Longrightarrow> (quiet th \<longrightarrow> th' = th) \<Longrightarrow> moves nc k pc th (block th')"
  shows "moves nc k pc th (SafeAction block now)"
proof -
  obtain arrived peeks where a: "alloc (pt_peeks now) = (arrived, peeks)"
    by (cases "alloc (pt_peeks now)")
  let ?th = "now\<lparr>pt_peeks := peeks\<rparr>"
  have p: "plain ?th = plain th" "quiet th \<longrightarrow> ?th = th"
    using a now by (auto simp: plain_def quiet_def)
  have head: "pt_inbox now = pt_inbox th"
    using plain_eqD(4) [OF now(1)] by simp
  show ?thesis
  proof (cases "arrived \<and> head_type th = Some MessageTypeEnd")
    case True
    then have "SafeAction block now = Returns (Exit ?th)"
      by (auto simp: SafeAction_def peek_end_def and_then_def a thread_exit_def head_type_def head split: list.splits)
    moreover have "plane_move nc k pc th Gone ?th"
      using assms(1,2) True p(1) by (intro move_stop [where ms = "pt_inbox th" and d = "pt_done th"]) auto
    ultimately show ?thesis
      using p by auto
  next
    case False
    then have "SafeAction block now = block ?th"
      by (auto simp: SafeAction_def peek_end_def and_then_def a head_type_def head split: list.splits)
    then show ?thesis
      using assms(5) [OF p] by simp
  qed
qed

section \<open>Every action is a move\<close>

lemma thread_op_defs: "finish_plane th = Returns (Next (Gone, th\<lparr>pt_done := True\<rparr>))"
  by (simp add: finish_plane_def)

lemma moves_wait_step: "moves nc k At_Top th (wait_step th)"
proof (cases "pt_done th")
  case True
  then have "wait_step th = Returns (Next (Gone, th))"
    by (simp add: wait_step_def thread_op_defs)
  then show ?thesis
    using True by (simp add: move_over)
next
  case False
  show ?thesis
  proof (cases "pt_inbox th")
    case Nil
    then show ?thesis
      using False by (simp add: wait_step_def comm_step_def pop_message_def waiting_def)
  next
    case (Cons m ms)
    let ?th = "th\<lparr>pt_inbox := ms\<rparr>"
    show ?thesis
    proof (cases "msg_type m = MessageTypeStep")
      case True
      then have "wait_step th = Returns (Next (At_Phase1, ?th))"
        using False Cons by (simp add: wait_step_def comm_step_def)
      then show ?thesis
        using False Cons True by (auto simp: quiet_def intro: move_step)
    next
      case wrong: False
      then have "wait_step th = Returns (Next (Gone, ?th\<lparr>pt_done := True\<rparr>))"
        using False Cons by (simp add: wait_step_def comm_step_def thread_op_defs)
      then show ?thesis
        using False Cons wrong
        by (auto simp: quiet_def expects_def head_type_def intro!: move_stop [where ms = ms and d = True])
    qed
  qed
qed

lemma plain_requests [simp]: "unload_request (plain th) = unload_request th" "check_request (plain th) = check_request th"
  by (simp_all add: unload_request_def check_request_def)

lemma plain_requests_eq:
  assumes "plain th' = plain th"
  shows "unload_request th' = unload_request th" "check_request th' = check_request th"
  using assms by (metis plain_requests)+

lemma plain_updates: "plain (th\<lparr>pt_sent := s\<rparr>) = (plain th)\<lparr>pt_sent := s\<rparr>" "plain (th\<lparr>pt_ready := r\<rparr>) = (plain th)\<lparr>pt_ready := r\<rparr>"
    "plain (th\<lparr>pt_inbox := ms\<rparr>) = (plain th)\<lparr>pt_inbox := ms\<rparr>" "plain (th\<lparr>pt_done := d\<rparr>) = (plain th)\<lparr>pt_done := d\<rparr>"
    "plain (th\<lparr>pt_plane := p\<rparr>) = (plain th)\<lparr>pt_plane := p\<rparr>"
  by (simp_all add: plain_def)

lemma moves_take_alloc:
  "take_alloc th = Returns (Next (ok, th')) \<Longrightarrow> plain th' = plain th \<and> (quiet th \<longrightarrow> ok \<and> th' = th)"
  by (cases "alloc (pt_allocs th)") (auto simp: take_alloc_def plain_def quiet_def)

lemma take_alloc_returns: "\<exists>ok th'. take_alloc th = Returns (Next (ok, th'))"
  by (cases "alloc (pt_allocs th)") (auto simp: take_alloc_def)

lemma transmit_map_returns:
  "\<exists>ok th'. transmit_map msg th = Returns (Next (ok, th')) \<and> (quiet th \<longrightarrow> ok \<and> quiet th') \<and>
    plain th' = plain (th\<lparr>pt_sent := pt_sent th @ (if ok then [msg] else [])\<rparr>)"
  by (cases "alloc (pt_writes th)") (auto simp: transmit_map_def plain_def quiet_def)

lemma thread_ok_marshalls:
  assumes "thread_ok nc ps a p k th"
  shows "marshall_change_stock (pt_airline th) (plane_id (pt_plane th)) (plane_cityId (pt_plane th)) (plane_stocks (pt_plane th)) =
      Some (unload_request th)"
    "marshall_check_destinations (pt_airline th) (plane_id (pt_plane th)) (plane_cityId (pt_plane th)) (plane_stocks (pt_plane th)) 5 =
      Some (check_request th)"
proof -
  obtain ss where ss: "plane_stocks (pt_plane th) = vec_of ss" "length ss \<le> MAX_STOCKS" "stocks_known ps ss"
    using assms by (auto simp: thread_ok_def stocks_ok_def)
  then have "marshall_stocks (vec_of ss) = Some (part_of ss)"
    using marshall_stocks_part_of [of "vec_of ss"] by (simp add: stocks_wf_def stocks_known_def list_all_iff MAX_STOCKS_def)
  then show "marshall_change_stock (pt_airline th) (plane_id (pt_plane th)) (plane_cityId (pt_plane th)) (plane_stocks (pt_plane th)) =
      Some (unload_request th)"
    "marshall_check_destinations (pt_airline th) (plane_id (pt_plane th)) (plane_cityId (pt_plane th)) (plane_stocks (pt_plane th)) 5 =
      Some (check_request th)"
    by (simp_all add: marshall_change_stock_def marshall_check_destinations_def unload_request_def check_request_def ss(1))
qed

text \<open>A failed call stops the thread.\<close>

lemma moves_exit:
  "pc \<noteq> Gone \<Longrightarrow> \<not> quiet th \<Longrightarrow> plain th' = plain th \<Longrightarrow> moves nc k pc th (thread_exit th')"
  by (simp add: thread_exit_def) (rule move_stop [where ms = "pt_inbox th" and d = "pt_done th"], simp_all)

lemma moves_ask:
  assumes "pc \<noteq> Gone" "plain now = plain th" "quiet th \<longrightarrow> now = th" "m now = Some msg"
    and "\<And>th'. plain th' = plain (th\<lparr>pt_sent := pt_sent th @ [wrap msg]\<rparr>) \<Longrightarrow> plane_move nc k pc th pc' th'"
  shows "moves nc k pc th (and_then (and_then (read_state m) (\<lambda>m. and_then (lift_option m) (\<lambda>msg. transmit_map (wrap msg))))
    (\<lambda>ok. if \<not> ok then thread_exit else go pc') now)"
proof -
  obtain ok th' where t: "transmit_map (wrap msg) now = Returns (Next (ok, th'))" "quiet now \<longrightarrow> ok \<and> quiet th'"
    "plain th' = plain (now\<lparr>pt_sent := pt_sent now @ (if ok then [wrap msg] else [])\<rparr>)"
    using transmit_map_returns by blast
  have p: "plain th' = plain (th\<lparr>pt_sent := pt_sent th @ (if ok then [wrap msg] else [])\<rparr>)"
    using t(3) plain_eqD(5) [OF assms(2)] by (simp add: plain_updates assms(2))
  have run: "and_then (and_then (read_state m) (\<lambda>m. and_then (lift_option m) (\<lambda>msg. transmit_map (wrap msg))))
      (\<lambda>ok. if \<not> ok then thread_exit else go pc') now = (if \<not> ok then thread_exit else go pc') th'"
    by (simp add: and_then_assoc assms(4) t(1))
  show ?thesis
  proof (cases ok)
    case True
    then show ?thesis
      using p assms(3,5) t(2) by (simp add: run)
  next
    case False
    then have "\<not> quiet th"
      using t(2) assms(3) by auto
    then show ?thesis
      using moves_exit [OF assms(1), of th th'] p False by (simp add: run plain_updates)
  qed
qed

lemma moves_begin_phase1:
  assumes "thread_ok nc ps a p k th"
  shows "moves nc k At_Phase1 th (begin_phase1 th)"
proof (cases "plane_distance (pt_plane th) = 0")
  case False
  then show ?thesis
    by (simp add: begin_phase1_def move_skip)
next
  case True
  have run: "begin_phase1 th = SafeAction (and_then take_alloc (\<lambda>ok. if \<not> ok then thread_exit
      else SafeAction (and_then ask_stock (\<lambda>ok. if \<not> ok then thread_exit else go At_Stock)))) th"
    using True by (simp add: begin_phase1_def)
  show ?thesis
    unfolding run
  proof (rule moves_SafeAction)
    fix th1
    assume 1: "plain th1 = plain th" "quiet th \<longrightarrow> th1 = th"
    obtain ok th2 where 2: "take_alloc th1 = Returns (Next (ok, th2))"
      using take_alloc_returns by blast
    have p2: "plain th2 = plain th" "quiet th \<longrightarrow> ok \<and> th2 = th"
      using moves_take_alloc [OF 2] 1 by auto
    show "moves nc k At_Phase1 th (and_then take_alloc (\<lambda>ok. if \<not> ok then thread_exit
        else SafeAction (and_then ask_stock (\<lambda>ok. if \<not> ok then thread_exit else go At_Stock))) th1)"
    proof (cases ok)
      case False
      then show ?thesis
        using 2 p2 moves_exit [of At_Phase1 th th2] by simp
    next
      case ok: True
      have "moves nc k At_Phase1 th (SafeAction (and_then ask_stock (\<lambda>ok. if \<not> ok then thread_exit else go At_Stock)) th2)"
      proof (rule moves_SafeAction [OF _ _ p2(1)])
        fix th3
        assume 3: "plain th3 = plain th" "quiet th \<longrightarrow> th3 = th"
        have "thread_ok nc ps a p k th3"
          using assms by (metis 3(1) thread_ok_plain)
        then show "moves nc k At_Phase1 th (and_then ask_stock (\<lambda>ok. if \<not> ok then thread_exit else go At_Stock) th3)"
          unfolding ask_stock_def using True
          by (intro moves_ask [OF _ 3]) (auto simp: thread_ok_marshalls(1) plain_requests_eq [OF 3(1)] intro: move_ask)
      qed (use p2 in \<open>auto simp: expects_def\<close>)
      then show ?thesis
        using 2 ok by simp
    qed
  qed (auto simp: expects_def)
qed

lemma moves_begin_phase2:
  assumes "thread_ok nc ps a p k th"
  shows "moves nc k At_Phase2 th (begin_phase2 th)"
proof (cases "plane_distance (pt_plane th) = 0")
  case False
  then have d: "0 < plane_distance (pt_plane th)" "in_int (plane_distance (pt_plane th) - 1)"
    using assms by (auto simp: thread_ok_def in_int_def INT_MIN_def)
  then have "fly th = Returns (Next ((), th\<lparr>pt_plane := (pt_plane th)\<lparr>plane_distance := plane_distance (pt_plane th) - 1\<rparr>\<rparr>))"
    by (simp add: fly_def)
  then show ?thesis
    using False d by (auto simp: begin_phase2_def quiet_def intro: move_fly)
next
  case True
  have run: "begin_phase2 th =
      SafeAction (and_then (ask_destinations 5) (\<lambda>ok. if \<not> ok then thread_exit else go At_Destinations)) th"
    using True by (simp add: begin_phase2_def)
  show ?thesis
    unfolding run
  proof (rule moves_SafeAction)
    fix th1
    assume 1: "plain th1 = plain th" "quiet th \<longrightarrow> th1 = th"
    have "thread_ok nc ps a p k th1"
      using assms by (metis 1(1) thread_ok_plain)
    then show "moves nc k At_Phase2 th (and_then (ask_destinations 5) (\<lambda>ok. if \<not> ok then thread_exit else go At_Destinations) th1)"
      unfolding ask_destinations_def using True
      by (intro moves_ask [OF _ 1]) (auto simp: thread_ok_marshalls(2) plain_requests_eq [OF 1(1)] intro: move_check)
  qed (auto simp: expects_def)
qed

lemma moves_ready:
  assumes "pc \<in> {At_Ready1, At_Ready2}"
    and "\<And>th'. plain th' = plain (th\<lparr>pt_ready := Suc (pt_ready th)\<rparr>) \<Longrightarrow> (quiet th \<longrightarrow> quiet th') \<Longrightarrow> moves nc k pc th (g th')"
  shows "moves nc k pc th (and_then (SafeAction plane_ready) (\<lambda>_. g) th)"
  unfolding SafeAction_and_then
proof (rule moves_SafeAction)
  fix th1
  assume 1: "plain th1 = plain th" "quiet th \<longrightarrow> th1 = th"
  have "plain (th1\<lparr>pt_ready := Suc (pt_ready th1)\<rparr>) = plain (th\<lparr>pt_ready := Suc (pt_ready th)\<rparr>)"
    using 1(1) plain_eqD(6) [OF 1(1)] by (simp add: plain_updates)
  then show "moves nc k pc th (and_then plane_ready (\<lambda>_. g) th1)"
    using assms(2) [of "th1\<lparr>pt_ready := Suc (pt_ready th1)\<rparr>"] 1(2) by (simp add: plane_ready_def quiet_def)
qed (use assms(1) in \<open>auto simp: expects_def\<close>)

lemma moves_end_phase1: "moves nc k At_Ready1 th (end_phase1 th)"
  unfolding end_phase1_def
proof (rule moves_ready)
  fix th'
  assume p: "plain th' = plain (th\<lparr>pt_ready := Suc (pt_ready th)\<rparr>)" "quiet th \<longrightarrow> quiet th'"
  have d: "pt_done th' = pt_done th"
    using plain_eqD(3) [OF p(1)] by simp
  have "(if pt_done th then finish_plane else go At_Continue) th' =
      Returns (Next (if pt_done th then Gone else At_Continue, th'))"
    using d by (cases th') (simp add: thread_op_defs)
  moreover have "plane_move nc k At_Ready1 th (if pt_done th then Gone else At_Continue) th'"
    by (rule move_ready1 [OF p(1)])
  ultimately show "moves nc k At_Ready1 th (and_then (read_state pt_done) (\<lambda>done. if done then finish_plane else go At_Continue) th')"
    using p(2) d by simp
qed simp

lemma moves_end_phase2: "moves nc k At_Ready2 th (end_phase2 th)"
  unfolding end_phase2_def by (rule moves_ready) (auto intro: move_ready2)

lemma plain_inbox:
  assumes "plain th' = plain th"
  shows "pt_inbox th' = pt_inbox th" "plain (th'\<lparr>pt_inbox := ms\<rparr>) = plain (th\<lparr>pt_inbox := ms\<rparr>)"
  using plain_eqD(4) [OF assms] assms by (simp_all add: plain_updates)

lemma moves_wait_continue: "moves nc k At_Continue th (wait_continue th)"
  unfolding wait_continue_def SafeExit_def SafeAction_and_then
proof (rule moves_SafeAction)
  fix th1
  assume 1: "plain th1 = plain th" "quiet th \<longrightarrow> th1 = th"
  note p = plain_inbox [OF 1(1)]
  show "moves nc k At_Continue th (and_then (CHECK_EXIT comm_continue) (\<lambda>_. go At_Phase2) th1)"
  proof (cases "pt_inbox th")
    case Nil
    then show ?thesis
      by (simp add: CHECK_EXIT_def comm_continue_def pop_message_def p(1) and_then_def waiting_def)
  next
    case (Cons m ms)
    show ?thesis
    proof (cases "msg_type m = MessageTypeContinue")
      case True
      then show ?thesis
        using Cons 1(2) p(2) by (auto simp: CHECK_EXIT_def comm_continue_def p(1) thread_ops quiet_def intro: move_continue)
    next
      case False
      have "plane_move nc k At_Continue th Gone (th1\<lparr>pt_inbox := ms\<rparr>)"
        using Cons False p(2)
        by (intro move_stop [where ms = ms and d = "pt_done th"]) (auto simp: expects_def head_type_def plain_updates)
      then show ?thesis
        using Cons False 1(2) by (simp add: CHECK_EXIT_def comm_continue_def p(1) thread_ops quiet_def thread_exit_def)
    qed
  qed
qed (auto simp: expects_def)

text \<open>The answers.\<close>

lemma store_amounts_ok:
  assumes "stocks_ok ps k v" "amounts_ok k as"
  obtains ss where "v = vec_of ss" "length as = length ss" "stocks_known ps ss"
    "getVectorSize v = length ss" "copy_cells (length ss) (length as) (arr_of MAX_STOCKS as) = Some (map Some as)"
    "store_amounts v (map Some as) (length ss) = Some (Next (vec_of (with_amounts ss as), list_all (\<lambda>a. a = 0) as))"
proof -
  obtain ss where ss: "v = vec_of ss" "length ss = k" "k \<le> MAX_STOCKS" "stocks_known ps ss"
    using assms(1) by (auto simp: stocks_ok_def)
  have as: "length as = length ss" "\<And>a. a \<in> set as \<Longrightarrow> 0 \<le> a"
    using assms(2) ss(2) by (auto simp: amounts_ok_def list_all_iff)
  have "store_amounts (vec_of ss) (map Some as) (length ss) =
      Some (Next (vec_of (with_amounts ss as), list_all (\<lambda>a. a = 0) as))"
    using as ss by (intro store_amounts_loop) (auto simp: arr_get_def MAX_STOCKS_def)
  then show ?thesis
    using that [of ss] ss as copy_cells_arr_of [of as MAX_STOCKS] by simp
qed

lemma moves_end_unload:
  assumes "thread_ok nc ps a p k th"
  shows "moves nc k At_Stock th (end_unload th)"
proof (cases "pt_inbox th")
  case Nil
  then show ?thesis
    by (simp add: end_unload_def take_stock_def and_then_def pop_message_def waiting_def)
next
  case (Cons m ms)
  have "queue_ok nc k m"
    using assms Cons by (simp add: thread_ok_def)
  let ?th = "th\<lparr>pt_inbox := ms\<rparr>"
  show ?thesis
  proof (cases "msg_type m = MessageTypeStock")
    case True
    then obtain as where as: "m = stock_reply as" "amounts_ok k as"
      using \<open>queue_ok nc k m\<close> by (auto simp: queue_ok_def)
    have "stocks_ok ps k (plane_stocks (pt_plane th))"
      using assms by (simp add: thread_ok_def)
    then obtain ss where ss: "plane_stocks (pt_plane th) = vec_of ss" "length as = length ss"
      "copy_cells (length ss) (length as) (arr_of MAX_STOCKS as) = Some (map Some as)" "getVectorSize (vec_of ss) = length ss"
      "store_amounts (vec_of ss) (map Some as) (length ss) =
        Some (Next (vec_of (with_amounts ss as), list_all (\<lambda>a. a = 0) as))"
      using store_amounts_ok [OF _ as(2)] by metis
    let ?th' = "set_stocks (vec_of (with_amounts ss as)) ?th"
    let ?fin = "if list_all (\<lambda>a. a = 0) as then ?th'\<lparr>pt_done := True\<rparr> else ?th'"
    have take: "take_stock (length ss) th = Returns (Next ((0, map Some as), ?th))"
      using ss(2,3) Cons as(1) by (simp add: take_stock_def stock_reply_def)
    have run: "end_unload th = Returns (Next (At_Ready1, ?fin))"
      using ss by (simp add: end_unload_def take keep_stock_def)
    have "plane_move nc k At_Stock th At_Ready1 ?fin"
      by (rule move_unload [where as = as and ss = ss and ms = ms])
        (use Cons as ss in \<open>simp_all add: set_stocks_def plain_def\<close>)
    then show ?thesis
      by (simp add: run quiet_def set_stocks_def)
  next
    case False
    have "end_unload th = Returns (Exit ?th)"
      using Cons False by (simp add: end_unload_def take_stock_def keep_stock_def thread_exit_def)
    moreover have "plane_move nc k At_Stock th Gone ?th"
      using Cons False
      by (intro move_stop [where ms = ms and d = "pt_done th"]) (auto simp: expects_def head_type_def plain_updates)
    ultimately show ?thesis
      by (simp add: quiet_def)
  qed
qed

lemma moves_end_check:
  assumes "thread_ok nc ps a p k th"
  shows "moves nc k At_Destinations th (end_check th)"
proof (cases "pt_inbox th")
  case Nil
  then show ?thesis
    by (simp add: end_check_def take_destinations_def and_then_def pop_message_def waiting_def)
next
  case (Cons m ms)
  have "queue_ok nc k m"
    using assms Cons by (simp add: thread_ok_def)
  let ?th = "th\<lparr>pt_inbox := ms\<rparr>"
  show ?thesis
  proof (cases "msg_type m = MessageTypeDestinations")
    case True
    then obtain cs where cs: "m = destinations_reply cs" "dests_ok nc cs"
      using \<open>queue_ok nc k m\<close> by (auto simp: queue_ok_def)
    let ?len = "min 5 (length cs)"
    have copy: "copy_cells 5 ?len (arr_of MAX_DESTINATIONS xs) = Some (take ?len (map Some xs) @ replicate (5 - ?len) None)"
      if "length xs = length cs" for xs :: "int list"
      using that cs(2) by (auto simp: copy_cells_def arr_of_def dests_ok_def MAX_DESTINATIONS_def)
    have len: "(if 5 > length cs then length cs else 5) = ?len"
      by auto
    have take: "take_destinations 5 th = Returns (Next ((0, take ?len (map Some (map cand_city cs)) @ replicate (5 - ?len) None,
        take ?len (map Some (map cand_dist cs)) @ replicate (5 - ?len) None, ?len), ?th))"
      using Cons cs(1) copy [of "map cand_city cs"] copy [of "map cand_dist cs"]
      by (simp add: take_destinations_def destinations_reply_def len Let_def)
    show ?thesis
    proof (cases cs)
      case Nil
      have "end_check th = Returns (Next (At_Ready2, ?th\<lparr>pt_done := True\<rparr>))"
        by (simp add: end_check_def take keep_destination_def) (simp add: Nil)
      then show ?thesis
        using Cons cs(1) Nil by (auto simp: quiet_def intro: move_nowhere)
    next
      case (Cons c cs')
      have "end_check th = Returns (Next (At_Ready2, set_destination (cand_city c) (cand_dist c) ?th))"
        by (simp add: end_check_def take keep_destination_def) (simp add: Cons arr_get_def)
      moreover have "plane_move nc k At_Destinations th At_Ready2 (set_destination (cand_city c) (cand_dist c) ?th)"
        using \<open>pt_inbox th = m # ms\<close> cs Cons by (intro move_choose) auto
      ultimately show ?thesis
        by (simp add: quiet_def set_destination_def)
    qed
  next
    case False
    have "end_check th = Returns (Exit ?th)"
      using Cons False by (simp add: end_check_def take_destinations_def thread_exit_def)
    moreover have "plane_move nc k At_Destinations th Gone ?th"
      using Cons False
      by (intro move_stop [where ms = ms and d = "pt_done th"]) (auto simp: expects_def head_type_def plain_updates)
    ultimately show ?thesis
      by (simp add: quiet_def)
  qed
qed

text \<open>The simulation: whatever the calls of a well-formed thread return, its action is a move.\<close>

lemma plane_action_moves:
  assumes "thread_ok nc ps a p k th"
  shows "moves nc k pc th (plane_action pc th)"
  using assms moves_wait_step moves_begin_phase1 moves_end_unload moves_end_phase1 moves_wait_continue moves_begin_phase2
    moves_end_check moves_end_phase2
  by (cases pc) (auto simp: waiting_def)

end
