(* ===== verification/System_Safety.thy ===== *)
theory System_Safety
  imports Plane_Moves
begin

text \<open>
  The invariant of the whole system and its consequence: in no reachable state does any process do
  anything undefined, whatever calls of the planes, whatever writes of the map fail and whatever
  signals come. In particular every message the map receives is one that \<open>runMap_result\<close> asks for, and
  every message an airline receives is one that \<open>listen_one_result\<close> asks for.

  The invariant says what the messages under way hold, and counts them: a plane that has been told
  of a phase is counted in \<open>planesLeft\<close>, and an airline that has been told of a phase has not yet
  reported it; so a phase begins only when the last one is over.
\<close>

section \<open>Messages under way\<close>

definition goods_ok :: "product vector \<Rightarrow> nat \<Rightarrow> stock list \<Rightarrow> bool" where
  "goods_ok ps k ss \<longleftrightarrow> length ss = k \<and> k \<le> MAX_STOCKS \<and> stocks_known ps ss"

text \<open>A request of a plane: its header and its stocks. \<open>cargo ! a ! p\<close> is the number of stocks of plane \<open>p\<close> of airline \<open>a\<close>.\<close>

definition from_plane :: "nat \<Rightarrow> product vector \<Rightarrow> nat list list \<Rightarrow> MessageType \<Rightarrow> PlaneMessageHeader \<Rightarrow> StockMessagePart \<Rightarrow> bool" where
  "from_plane nc ps cargo t header part \<longleftrightarrow>
     (\<exists>a p i ss. a < length cargo \<and> p < length (cargo ! a) \<and> i < nc \<and> goods_ok ps (cargo ! a ! p) ss \<and>
        header = prepare_header (int a) (int p) (int i) t \<and> part = part_of ss)"

fun request_ok :: "nat \<Rightarrow> product vector \<Rightarrow> nat list list \<Rightarrow> PlaneMessage \<Rightarrow> bool" where
  "request_ok nc ps cargo (PM_Type t) \<longleftrightarrow> t = MessageTypeAirlineDone"
| "request_ok nc ps cargo (PM_StockState m) \<longleftrightarrow> from_plane nc ps cargo MessageTypeUnloadStock (ss_header m) (ss_stocks m)"
| "request_ok nc ps cargo (PM_CheckDestinations m) \<longleftrightarrow> from_plane nc ps cargo MessageTypeCheckDestinations (cd_header m) (cd_stocks m)"
| "request_ok nc ps cargo (PM_AirlineStatus m) \<longleftrightarrow> asm_type m = MessageTypeAirlineStatus"

fun reply_ok :: "nat \<Rightarrow> nat list \<Rightarrow> MapMessage \<Rightarrow> bool" where
  "reply_ok nc ks (MM_Type t) \<longleftrightarrow> t \<in> {MessageTypeStep, MessageTypeContinue, MessageTypeEnd}"
| "reply_ok nc ks (MM_Stock m) \<longleftrightarrow> hdr_type (ss_header m) = MessageTypeUnloadStock \<and>
     (\<exists>p as. p < length ks \<and> hdr_id (ss_header m) = int p \<and> amounts_ok (ks ! p) as \<and>
        part_count (ss_stocks m) = length as \<and> part_quantities (ss_stocks m) = arr_of MAX_STOCKS as)"
| "reply_ok nc ks (MM_Destinations m) \<longleftrightarrow> (\<exists>p cs. p < length ks \<and> m = destinations_message (int p) cs \<and> dests_ok nc cs)"

lemma reply_ok_mm_ok: "reply_ok nc ks msg \<Longrightarrow> mm_ok (length ks) msg"
  by (cases msg) (auto simp: destinations_message_def)

lemma request_ok_msg_ok:
  "request_ok nc (map_product m) cargo msg \<Longrightarrow> nc = length (vlist (map_cities m)) \<Longrightarrow> msg_ok (length cargo) m msg"
  by (cases msg) (auto simp: from_plane_def part_ok_def goods_ok_def prepare_header_def; metis)+

lemma thread_ok_requests:
  assumes "thread_ok nc ps a p (cargo ! a ! p) th" "a < length cargo" "p < length (cargo ! a)"
  shows "request_ok nc ps cargo (PM_StockState (unload_request th))"
    "request_ok nc ps cargo (PM_CheckDestinations (check_request th))"
proof -
  obtain i ss where "i < nc" "plane_cityId (pt_plane th) = int i" "plane_stocks (pt_plane th) = vec_of ss"
    "goods_ok ps (cargo ! a ! p) ss" "pt_airline th = int a" "plane_id (pt_plane th) = int p"
    using assms(1) by (auto simp: thread_ok_def stocks_ok_def goods_ok_def)
  then show "request_ok nc ps cargo (PM_StockState (unload_request th))"
    "request_ok nc ps cargo (PM_CheckDestinations (check_request th))"
    using assms(2,3) by (auto simp: unload_request_def check_request_def from_plane_def prepare_header_def)
qed

section \<open>Counting phases\<close>

text \<open>How often a plane can still report without being told of another phase.\<close>

definition phase_count :: "Message list \<Rightarrow> nat" where
  "phase_count ms = length (filter (\<lambda>m. msg_type m \<in> {MessageTypeStep, MessageTypeContinue}) ms)"

definition engaged :: "plane_pc \<Rightarrow> bool" where
  "engaged pc \<longleftrightarrow> pc \<in> {At_Phase1, At_Stock, At_Ready1, At_Phase2, At_Destinations, At_Ready2}"

definition armed :: "plane_proc \<Rightarrow> nat" where
  "armed P = (if pp_pc P = Gone then 0 else (if engaged (pp_pc P) then 1 else 0) + phase_count (pt_inbox (pp_thread P)))"

lemma plane_proc_eta [simp]: "\<lparr>pp_pc = pp_pc P, pp_thread = pp_thread P\<rparr> = P"
  by (cases P) simp

definition load :: "airline_proc \<Rightarrow> nat" where
  "load A = (\<Sum>P \<leftarrow> ap_planes A. armed P)"

text \<open>The phases an airline has been told of and not reported.\<close>

definition mm_phases :: "MapMessage list \<Rightarrow> nat" where
  "mm_phases ms = length (filter (\<lambda>m. mm_type m \<in> {MessageTypeStep, MessageTypeContinue}) ms)"

definition due :: "airline_proc \<Rightarrow> nat" where
  "due A = mm_phases (ap_inbox A) + (if 0 < al_planesLeft (ap_state A) then 1 else 0)"

definition reports :: "PlaneMessage list \<Rightarrow> nat" where
  "reports ms = length (filter (\<lambda>m. pm_type m \<in> {MessageTypeAirlineDone, MessageTypeAirlineStatus}) ms)"

lemma count_simps [simp]:
  "phase_count [] = 0" "phase_count (m # ms) = (if msg_type m \<in> {MessageTypeStep, MessageTypeContinue} then 1 else 0) + phase_count ms"
  "phase_count (ms @ ms') = phase_count ms + phase_count ms'"
  "mm_phases [] = 0" "mm_phases (x # xs) = (if mm_type x \<in> {MessageTypeStep, MessageTypeContinue} then 1 else 0) + mm_phases xs"
  "mm_phases (xs @ xs') = mm_phases xs + mm_phases xs'"
  "reports [] = 0" "reports (y # ys) = (if pm_type y \<in> {MessageTypeAirlineDone, MessageTypeAirlineStatus} then 1 else 0) + reports ys"
  "reports (ys @ ys') = reports ys + reports ys'"
  by (simp_all add: phase_count_def mm_phases_def reports_def)

section \<open>Moves keep threads good\<close>

lemma amounts_stocks_ok:
  assumes "stocks_ok ps k (vec_of ss)" "amounts_ok k as" 
  shows "stocks_ok ps k (vec_of (with_amounts ss as))"
proof -
  obtain ss' where "vec_of ss = vec_of ss'" "length ss' = k" "k \<le> MAX_STOCKS" "stocks_known ps ss'"
    using assms(1) by (auto simp: stocks_ok_def)
  moreover from this have "ss' = ss"
    by (metis vlist_vec_of)
  ultimately have ss: "length ss = k" "k \<le> MAX_STOCKS" "stocks_known ps ss" "length as = k" "\<forall>a\<in>set as. 0 \<le> a \<and> in_int a"
    using assms(2) by (auto simp: amounts_ok_def list_all_iff)
  have "stock_wf x \<and> the (stock_product x) \<in> set (vlist ps)" if x: "x \<in> set (with_amounts ss as)" for x
  proof -
    obtain s a where sa: "(s, a) \<in> set (zip ss as)" "x = s\<lparr>stock_amount := a\<rparr>"
      using x by (auto simp: with_amounts_def)
    then have "s \<in> set ss" "a \<in> set as"
      by (auto dest: set_zip_leftD set_zip_rightD)
    then show ?thesis
      using ss(3,5) by (auto simp: sa(2) stocks_known_def list_all_iff stock_wf_def)
  qed
  then have "stocks_known ps (with_amounts ss as)"
    by (simp add: stocks_known_def list_all_iff)
  then show ?thesis
    using ss by (auto simp: stocks_ok_def)
qed

lemma thread_ok_as: "plain th' = plain now \<Longrightarrow> thread_ok nc ps a p k now \<Longrightarrow> thread_ok nc ps a p k th'"
  by (metis thread_ok_plain)

lemma move_thread_ok:
  assumes "plane_move nc k pc th pc' th'" "thread_ok nc ps a p k th"
  shows "thread_ok nc ps a p k th'"
  using assms(1)
proof (cases rule: plane_move.cases)
  case (move_stop ms d)
  have "list_all (queue_ok nc k) ms"
    using assms(2) move_stop by (cases "pt_inbox th") (auto simp: thread_ok_def)
  then show ?thesis
    using assms(2) move_stop by (intro thread_ok_as [of th' "th\<lparr>pt_inbox := ms, pt_done := d\<rparr>"]) (simp_all add: thread_ok_def)
next
  case (move_unload as ms ss)
  have "stocks_ok ps k (vec_of (with_amounts ss as))"
    using amounts_stocks_ok [of ps k ss as] assms(2) move_unload by (simp add: thread_ok_def)
  then show ?thesis
    using assms(2) move_unload(3) by (intro thread_ok_as [OF move_unload(6)]) (simp add: thread_ok_def set_stocks_def)
next
  case (move_choose c cs ms)
  then show ?thesis
    using assms(2) by (intro thread_ok_as [OF move_choose(5)]) (simp add: thread_ok_def set_destination_def dests_ok_def)
next
  case move_fly
  have "in_int (plane_distance (pt_plane th) - 1)"
    using assms(2) move_fly(3) by (simp add: thread_ok_def in_int_def INT_MIN_def)
  then show ?thesis
    using assms(2) move_fly(3) by (intro thread_ok_as [OF move_fly(4)]) (simp add: thread_ok_def)
next
  case (move_step m ms)
  then show ?thesis
    using assms(2) by (intro thread_ok_as [OF move_step(6)]) (simp add: thread_ok_def)
next
  case (move_continue m ms)
  then show ?thesis
    using assms(2) by (intro thread_ok_as [OF move_continue(5)]) (simp add: thread_ok_def)
next
  case (move_nowhere ms)
  then show ?thesis
    using assms(2) by (intro thread_ok_as [OF move_nowhere(4)]) (simp add: thread_ok_def)
qed (use assms(2) in \<open>auto simp: thread_ok_def elim!: thread_ok_as [unfolded thread_ok_def]\<close>)

text \<open>A move sends good requests and reports at most as often as it may.\<close>

lemma move_counts:
  assumes "plane_move nc k pc th pc' th'" "pt_ready th = 0"
  shows "pt_ready th' \<le> 1"
    "armed \<lparr>pp_pc = pc', pp_thread = th'\<rparr> + pt_ready th' \<le> armed \<lparr>pp_pc = pc, pp_thread = th\<rparr>"
    "pt_done th \<longrightarrow> pt_done th'"
proof -
  have "pt_ready th' \<le> 1 \<and> (pt_done th \<longrightarrow> pt_done th') \<and>
    armed \<lparr>pp_pc = pc', pp_thread = th'\<rparr> + pt_ready th' \<le> armed \<lparr>pp_pc = pc, pp_thread = th\<rparr>"
    using assms
    by cases (auto dest!: plain_fields simp: armed_def engaged_def stock_reply_def destinations_reply_def set_stocks_def set_destination_def)
  then show "pt_ready th' \<le> 1"
    "armed \<lparr>pp_pc = pc', pp_thread = th'\<rparr> + pt_ready th' \<le> armed \<lparr>pp_pc = pc, pp_thread = th\<rparr>"
    "pt_done th \<longrightarrow> pt_done th'"
    by simp_all
qed

lemma move_sent:
  assumes "plane_move nc k pc th pc' th'" "pt_sent th = []"
  shows "pt_sent th' = [] \<or> pt_sent th' = [PM_StockState (unload_request th)] \<or>
    pt_sent th' = [PM_CheckDestinations (check_request th)]"
  using assms by cases (auto dest!: plain_fields simp: set_stocks_def set_destination_def)

section \<open>An airline\<close>

definition slot_now :: "plane_proc \<Rightarrow> thread_slot" where
  "slot_now P = \<lparr>sl_done = pt_done (pp_thread P), sl_pushed = []\<rparr>"

definition proc_ok :: "nat \<Rightarrow> product vector \<Rightarrow> nat \<Rightarrow> nat \<Rightarrow> nat \<Rightarrow> plane_proc \<Rightarrow> bool" where
  "proc_ok nc ps a p k P \<longleftrightarrow> thread_ok nc ps a p k (pp_thread P) \<and> pt_sent (pp_thread P) = [] \<and> pt_ready (pp_thread P) = 0"

text \<open>Between two steps the slots mirror the threads and the outboxes are empty.\<close>

definition synced :: "airline_proc \<Rightarrow> bool" where
  "synced A \<longleftrightarrow> al_threads (ap_state A) = vec_of (map slot_now (ap_planes A)) \<and> al_sent (ap_state A) = [] \<and>
     al_numberOfPlanes (ap_state A) = length (ap_planes A) \<and> length (ap_planes A) < 2147483647"

definition counted :: "airline_proc \<Rightarrow> bool" where
  "counted A \<longleftrightarrow> int (load A) \<le> al_planesLeft (ap_state A) \<and> al_planesLeft (ap_state A) \<le> int (length (ap_planes A)) \<and> due A \<le> 1"

definition airline_ok :: "nat \<Rightarrow> product vector \<Rightarrow> nat \<Rightarrow> nat list \<Rightarrow> airline_proc \<Rightarrow> bool" where
  "airline_ok nc ps a ks A \<longleftrightarrow> synced A \<and> counted A \<and> length (ap_planes A) = length ks \<and>
     (\<forall>p<length ks. proc_ok nc ps a p (ks ! p) (ap_planes A ! p)) \<and> list_all (reply_ok nc ks) (ap_inbox A)"

lemma synced_wf: "synced A \<Longrightarrow> airline_wf (ap_state A)"
  by (simp add: synced_def airline_wf_def)

lemma receive_simps [simp]:
  "receive [] P = P" "pp_pc (receive ms P) = pp_pc P" "pt_done (pp_thread (receive ms P)) = pt_done (pp_thread P)"
  "pt_inbox (pp_thread (receive ms P)) = pt_inbox (pp_thread P) @ ms" "slot_now (receive ms P) = slot_now P"
  by (simp_all add: receive_def slot_now_def)

lemma armed_receive: "armed (receive ms P) = armed P + (if pp_pc P = Gone then 0 else phase_count ms)"
  by (simp add: armed_def)

lemma proc_ok_receive: "proc_ok nc ps a p k P \<Longrightarrow> list_all (queue_ok nc k) ms \<Longrightarrow> proc_ok nc ps a p k (receive ms P)"
  by (simp add: proc_ok_def receive_def thread_ok_def)

text \<open>Settling when thread \<open>p\<close> was pushed \<open>g p\<close>.\<close>

definition all_receive :: "(nat \<Rightarrow> Message list) \<Rightarrow> plane_proc list \<Rightarrow> plane_proc list" where
  "all_receive g Ps = map (\<lambda>p. receive (g p) (Ps ! p)) [0..<length Ps]"

lemma all_receive_simps [simp]:
  "length (all_receive g Ps) = length Ps" "p < length Ps \<Longrightarrow> all_receive g Ps ! p = receive (g p) (Ps ! p)"
  "map slot_now (all_receive g Ps) = map slot_now Ps"
  by (simp_all add: all_receive_def) (rule nth_equalityI, simp_all)

lemma all_receive_none: "(\<And>p. p < length Ps \<Longrightarrow> g p = []) \<Longrightarrow> all_receive g Ps = Ps"
  by (intro nth_equalityI) simp_all

lemma settle_pushed:
  assumes "length (slots st) = length (ap_planes A)"
    and "\<And>p. p < length (ap_planes A) \<Longrightarrow> slots st ! p = \<lparr>sl_done = pt_done (pp_thread (ap_planes A ! p)), sl_pushed = g p\<rparr>"
  shows "settle st A =
    (A\<lparr>ap_state := st\<lparr>al_threads := vec_of (map slot_now (ap_planes A)), al_sent := []\<rparr>,
       ap_planes := all_receive g (ap_planes A)\<rparr>, al_sent st)"
proof -
  have "map (\<lambda>t. t\<lparr>sl_pushed := []\<rparr>) (slots st) = map slot_now (ap_planes A)"
    by (rule nth_equalityI) (use assms in \<open>simp_all add: slot_now_def\<close>)
  moreover have "map2 (\<lambda>t P. receive (sl_pushed t) P) (slots st) (ap_planes A) = all_receive g (ap_planes A)"
    by (rule nth_equalityI) (use assms in simp_all)
  ultimately show ?thesis
    by (simp add: settle_def)
qed

lemma load_index: "load A = (\<Sum>p<length (ap_planes A). armed (ap_planes A ! p))"
  by (simp add: load_def sum_list_sum_nth atLeast0LessThan)

lemma flying_index: "flying (map slot_now Ps) = (\<Sum>p<length Ps. if pt_done (pp_thread (Ps ! p)) then 0 else 1)"
proof -
  have "flying (map slot_now Ps) = (\<Sum>P \<leftarrow> Ps. if pt_done (pp_thread P) then 0 else 1)"
    by (induction Ps) (auto simp: slot_now_def)
  then show ?thesis
    by (simp add: sum_list_sum_nth atLeast0LessThan)
qed

text \<open>A listener that takes a phase message.\<close>

definition tell :: "Message \<Rightarrow> plane_proc list \<Rightarrow> nat \<Rightarrow> Message list" where
  "tell msg Ps p = (if pt_done (pp_thread (Ps ! p)) then [] else [msg])"

definition phase_taken :: "int \<Rightarrow> Message \<Rightarrow> MapMessage list \<Rightarrow> airline_proc \<Rightarrow> airline_proc" where
  "phase_taken s msg inbox A =
     A\<lparr>ap_inbox := inbox, ap_planes := all_receive (tell msg (ap_planes A)) (ap_planes A),
       ap_state := (ap_state A)\<lparr>al_stage := s, al_planesLeft := int (flying (map slot_now (ap_planes A)))\<rparr>\<rparr>"

lemma listener_phase:
  assumes "synced A" "ap_listens A" "ap_inbox A = MM_Type t # inbox" "t \<in> {MessageTypeStep, MessageTypeContinue}"
  defines "s \<equiv> (if t = MessageTypeStep then 0 else 1)"
  shows "listener_action A =
    Returns (phase_taken s (phase_message t) inbox A,
      if flying (map slot_now (ap_planes A)) = 0 then [ready_message ((ap_state A)\<lparr>al_stage := s\<rparr>)] else [])"
proof -
  let ?st = "(ap_state A)\<lparr>al_stage := s\<rparr>"
  let ?f = "flying (map slot_now (ap_planes A))"
  have th: "al_threads ?st = vec_of (map slot_now (ap_planes A))" "al_sent ?st = []"
    using assms(1) by (simp_all add: synced_def)
  have wf: "airline_wf ?st"
    using synced_wf [OF assms(1)] by (simp add: airline_wf_def)
  have "listen_one (MM_Type t) (ap_state A) = map_option Next (start_phase (phase_message t) ?st)"
    using assms(4) by (auto simp: listen_one_def s_def)
  then have one: "listen_one (MM_Type t) (ap_state A) = Some (Next
      (if ?f = 0 then send_to_map (ready_message ?st) (?st\<lparr>al_planesLeft := 0\<rparr>)
       else ?st\<lparr>al_planesLeft := int ?f, al_threads := vec_of (map (notify (phase_message t)) (map slot_now (ap_planes A)))\<rparr>))"
    by (simp add: start_phase_wf [OF wf] th(1))
  show ?thesis
  proof (cases "?f = 0")
    case True
    then have "tell (phase_message t) (ap_planes A) p = []" if "p < length (ap_planes A)" for p
      using that by (auto simp: tell_def flying_index split: if_splits)
    then have "all_receive (tell (phase_message t) (ap_planes A)) (ap_planes A) = ap_planes A"
      by (rule all_receive_none)
    then show ?thesis
      using assms(2,3) one True th
        settle_pushed [of "send_to_map (ready_message ?st) (?st\<lparr>al_planesLeft := 0\<rparr>)" "A\<lparr>ap_inbox := inbox\<rparr>" "\<lambda>_. []"]
      by (simp add: listener_action_def phase_taken_def slot_now_def all_receive_none send_to_map_def)
  next
    case False
    let ?st' = "?st\<lparr>al_planesLeft := int ?f, al_threads := vec_of (map (notify (phase_message t)) (map slot_now (ap_planes A)))\<rparr>"
    have "settle ?st' (A\<lparr>ap_inbox := inbox\<rparr>) = (phase_taken s (phase_message t) inbox A, [])"
      using th settle_pushed [of ?st' "A\<lparr>ap_inbox := inbox\<rparr>" "tell (phase_message t) (ap_planes A)"]
      by (simp add: phase_taken_def tell_def notify_def push_slot_def slot_now_def)
    then show ?thesis
      using assms(2,3) one False by (simp add: listener_action_def)
  qed
qed

lemma queue_ok_phase: "t \<notin> {MessageTypeStock, MessageTypeDestinations} \<Longrightarrow> queue_ok nc k (phase_message t)"
  by (simp add: queue_ok_def)

lemma airline_okD:
  assumes "airline_ok nc ps a ks A"
  shows "synced A" "counted A" "length (ap_planes A) = length ks"
    "\<And>p. p < length ks \<Longrightarrow> proc_ok nc ps a p (ks ! p) (ap_planes A ! p)" "list_all (reply_ok nc ks) (ap_inbox A)"
  using assms by (simp_all add: airline_ok_def)

lemma due_phase_message:
  assumes "counted A" "ap_inbox A = MM_Type t # inbox" "t \<in> {MessageTypeStep, MessageTypeContinue}"
  shows "al_planesLeft (ap_state A) = 0" "mm_phases inbox = 0" "p < length (ap_planes A) \<Longrightarrow> armed (ap_planes A ! p) = 0"
proof -
  show 0: "al_planesLeft (ap_state A) = 0" "mm_phases inbox = 0"
    using assms by (auto simp: counted_def due_def split: if_splits)
  then have "load A = 0"
    using assms(1) by (simp add: counted_def)
  then show "p < length (ap_planes A) \<Longrightarrow> armed (ap_planes A ! p) = 0"
    by (simp add: load_index)
qed

lemma listener_phase_ok:
  fixes s :: int
  assumes "airline_ok nc ps a ks A" "ap_inbox A = MM_Type t # inbox" "t \<in> {MessageTypeStep, MessageTypeContinue}"
  defines "A' \<equiv> phase_taken s (phase_message t) inbox A"
  shows "airline_ok nc ps a ks A'" "due A = 1"
    "due A' = (if flying (map slot_now (ap_planes A)) = 0 then 0 else 1)"
proof -
  note ok = airline_okD [OF assms(1)]
  note zero = due_phase_message [OF ok(2) assms(2,3)]
  let ?f = "flying (map slot_now (ap_planes A))"
  show "due A = 1"
    using zero assms(2,3) by (auto simp: due_def)
  show d': "due A' = (if ?f = 0 then 0 else 1)"
    using zero by (simp add: A'_def phase_taken_def due_def)
  have "load A' = (\<Sum>p<length (ap_planes A). armed (ap_planes A' ! p))"
    by (simp add: load_index A'_def phase_taken_def)
  also have "\<dots> \<le> (\<Sum>p<length (ap_planes A). if pt_done (pp_thread (ap_planes A ! p)) then 0 else 1)"
    using zero(3) by (intro sum_mono) (auto simp: A'_def phase_taken_def armed_receive tell_def)
  finally have "load A' \<le> ?f"
    by (simp add: flying_index)
  moreover have "?f \<le> length (ap_planes A)"
    using flying_le [of "map slot_now (ap_planes A)"] by simp
  ultimately have "counted A'"
    using d' by (simp add: counted_def A'_def phase_taken_def)
  moreover have "synced A'"
    using ok(1) by (simp add: synced_def A'_def phase_taken_def)
  moreover have "proc_ok nc ps a p (ks ! p) (ap_planes A' ! p)" if "p < length ks" for p
    using ok(3) ok(4) [OF that] that assms(3)
    by (auto simp: A'_def phase_taken_def tell_def intro!: proc_ok_receive queue_ok_phase)
  ultimately show "airline_ok nc ps a ks A'"
    using ok(3,5) assms(2) by (simp add: airline_ok_def) (simp add: A'_def phase_taken_def)
qed

text \<open>A listener that hands a reply on.\<close>

definition passed_on :: "nat \<Rightarrow> Message \<Rightarrow> MapMessage list \<Rightarrow> airline_proc \<Rightarrow> airline_proc" where
  "passed_on p msg inbox A =
     A\<lparr>ap_inbox := inbox, ap_planes := all_receive (\<lambda>q. if q = p then [msg] else []) (ap_planes A)\<rparr>"

lemma listener_passes_on:
  assumes "synced A" "ap_listens A" "ap_inbox A = msg # inbox"
    "mm_type msg \<in> {MessageTypeUnloadStock, MessageTypeDestinations}" "\<And>t. msg \<noteq> MM_Type t"
    "mm_ok (length (ap_planes A)) msg" "addressee msg = int p" "p < length (ap_planes A)"
  shows "listener_action A = Returns (passed_on p (handed_on msg) inbox A, [])"
proof -
  let ?Ps = "ap_planes A"
  have th: "al_threads (ap_state A) = vec_of (map slot_now ?Ps)" "al_sent (ap_state A) = []" "length ?Ps < 2147483647"
    using assms(1) by (simp_all add: synced_def)
  let ?st = "(ap_state A)\<lparr>al_threads := vec_of ((map slot_now ?Ps)[p := push_slot (handed_on msg) (slot_now (?Ps ! p))])\<rparr>"
  have d: "vec_deref (vec_of (map slot_now ?Ps)) (int p) = Some (slot_now (?Ps ! p))" "to_uint (int p) = p"
    using vec_deref_in [of p "map slot_now ?Ps"] assms(8) th(3) by (simp_all add: to_uint_def)
  have one: "listen_one msg (ap_state A) = Some (Next ?st)"
    using assms(4-8) d
    by (cases msg) (auto simp: listen_one_def redirect_stock_message_def redirect_destinations_message_def handed_on_def th(1) vec_store_vec_of)
  have "settle ?st (A\<lparr>ap_inbox := inbox\<rparr>) = (passed_on p (handed_on msg) inbox A, [])"
    using th settle_pushed [of ?st "A\<lparr>ap_inbox := inbox\<rparr>" "\<lambda>q. if q = p then [handed_on msg] else []"] assms(8)
    by (simp add: passed_on_def nth_list_update push_slot_def slot_now_def)
  then show ?thesis
    using assms(2,3) one by (simp add: listener_action_def)
qed

lemma reply_types [simp]:
  "msg_type (destinations_reply cs) = MessageTypeDestinations" "msg_type (stock_reply as) = MessageTypeStock"
  "dm_planeId (destinations_message i cs) = i" "dm_type (destinations_message i cs) = MessageTypeDestinations"
  by (simp_all add: destinations_reply_def stock_reply_def destinations_message_def)

lemma replies_queue_ok:
  "dests_ok nc cs \<Longrightarrow> queue_ok nc k (destinations_reply cs)" "amounts_ok k as \<Longrightarrow> queue_ok nc k (stock_reply as)"
  by (auto simp: queue_ok_def)

lemma handed_on_simps [simp]:
  "handed_on (MM_Destinations (destinations_message i cs)) = destinations_reply cs"
  "part_count (ss_stocks m) = length as \<Longrightarrow> part_quantities (ss_stocks m) = arr_of MAX_STOCKS as \<Longrightarrow>
    handed_on (MM_Stock m) = stock_reply as"
  by (simp_all add: handed_on_def destinations_message_def destinations_reply_def stock_reply_def)

lemma reply_addressee:
  assumes "reply_ok nc ks msg" "\<And>t. msg \<noteq> MM_Type t"
  obtains p where "p < length ks" "addressee msg = int p" "mm_type msg \<in> {MessageTypeUnloadStock, MessageTypeDestinations}"
    "queue_ok nc (ks ! p) (handed_on msg)" "msg_type (handed_on msg) \<in> {MessageTypeStock, MessageTypeDestinations}"
proof (cases msg)
  case (MM_Stock m)
  then obtain p as where "p < length ks" "hdr_id (ss_header m) = int p" "amounts_ok (ks ! p) as"
    "handed_on msg = stock_reply as" "hdr_type (ss_header m) = MessageTypeUnloadStock"
    using assms(1) by auto
  then show ?thesis
    using that [of p] MM_Stock by (simp add: replies_queue_ok)
next
  case (MM_Destinations m)
  then obtain p cs where "p < length ks" "m = destinations_message (int p) cs" "dests_ok nc cs"
    using assms(1) by auto
  then show ?thesis
    using that [of p] MM_Destinations by (simp add: replies_queue_ok)
qed (use assms(2) in simp)

lemma passed_on_ok:
  assumes "airline_ok nc ps a ks A" "ap_inbox A = msg # inbox" "p < length ks" "queue_ok nc (ks ! p) out"
    "msg_type out \<in> {MessageTypeStock, MessageTypeDestinations}" "mm_type msg \<in> {MessageTypeUnloadStock, MessageTypeDestinations}"
  defines "A' \<equiv> passed_on p out inbox A"
  shows "airline_ok nc ps a ks A'" "due A' = due A"
proof -
  note ok = airline_okD [OF assms(1)]
  show d: "due A' = due A"
    using assms(2,6) by (auto simp: A'_def passed_on_def due_def)
  have "armed (ap_planes A' ! q) = armed (ap_planes A ! q)" if "q < length (ap_planes A)" for q
    using that assms(5) by (auto simp: A'_def passed_on_def armed_receive)
  then have "load A' = load A"
    by (simp add: load_index) (simp add: A'_def passed_on_def)
  then have "counted A'"
    using ok(2) d by (simp add: counted_def A'_def passed_on_def)
  moreover have "synced A'"
    using ok(1) by (simp add: synced_def A'_def passed_on_def)
  moreover have "proc_ok nc ps a q (ks ! q) (ap_planes A' ! q)" if "q < length ks" for q
    using ok(3) ok(4) [OF that] that assms(4) by (auto simp: A'_def passed_on_def intro!: proc_ok_receive)
  ultimately show "airline_ok nc ps a ks A'"
    using ok(3,5) assms(2) by (simp add: airline_ok_def) (simp add: A'_def passed_on_def)
qed

text \<open>A listener that is told to end.\<close>

definition told_to_end :: "MapMessage list \<Rightarrow> airline_proc \<Rightarrow> airline_proc" where
  "told_to_end inbox A =
     A\<lparr>ap_inbox := inbox, ap_listens := False,
       ap_planes := all_receive (tell (phase_message MessageTypeEnd) (ap_planes A)) (ap_planes A)\<rparr>"

lemma listener_ends:
  assumes "synced A" "ap_listens A" "ap_inbox A = MM_Type MessageTypeEnd # inbox"
  shows "listener_action A = Returns (told_to_end inbox A, [])"
proof -
  let ?Ps = "ap_planes A"
  let ?st = "(ap_state A)\<lparr>al_threads := vec_of (map (notify (phase_message MessageTypeEnd)) (map slot_now ?Ps))\<rparr>"
  have th: "al_threads (ap_state A) = vec_of (map slot_now ?Ps)" "al_sent (ap_state A) = []"
    using assms(1) by (simp_all add: synced_def)
  have "settle ?st (A\<lparr>ap_inbox := inbox, ap_listens := False\<rparr>) = (told_to_end inbox A, [])"
    using th settle_pushed [of ?st "A\<lparr>ap_inbox := inbox, ap_listens := False\<rparr>" "tell (phase_message MessageTypeEnd) ?Ps"]
    by (simp add: told_to_end_def tell_def notify_def push_slot_def slot_now_def)
  then show ?thesis
    using assms(2,3) end_planes_notifies [OF synced_wf [OF assms(1)]]
    by (simp add: listener_action_def listen_one_def th(1))
qed

lemma told_to_end_ok:
  assumes "airline_ok nc ps a ks A" "ap_inbox A = MM_Type MessageTypeEnd # inbox"
  defines "A' \<equiv> told_to_end inbox A"
  shows "airline_ok nc ps a ks A'" "due A' = due A"
proof -
  note ok = airline_okD [OF assms(1)]
  show d: "due A' = due A"
    using assms(2) by (simp add: A'_def told_to_end_def due_def)
  have "armed (ap_planes A' ! q) = armed (ap_planes A ! q)" if "q < length (ap_planes A)" for q
    using that by (simp add: A'_def told_to_end_def armed_receive tell_def)
  then have "load A' = load A"
    by (simp add: load_index) (simp add: A'_def told_to_end_def)
  then have "counted A'"
    using ok(2) d by (simp add: counted_def A'_def told_to_end_def)
  moreover have "synced A'"
    using ok(1) by (simp add: synced_def A'_def told_to_end_def)
  moreover have "proc_ok nc ps a q (ks ! q) (ap_planes A' ! q)" if "q < length ks" for q
    using ok(3) ok(4) [OF that] that by (auto simp: A'_def told_to_end_def tell_def intro!: proc_ok_receive queue_ok_phase)
  ultimately show "airline_ok nc ps a ks A'"
    using ok(3,5) assms(2) by (simp add: airline_ok_def) (simp add: A'_def told_to_end_def)
qed

lemma ready_message_report:
  "request_ok nc ps cargo (ready_message st)" "reports [ready_message st] = 1"
  by (simp_all add: ready_message_def)

text \<open>What a step of an airline gives: it stays good, and its due report is sent or still due.\<close>

definition airline_result :: "nat \<Rightarrow> product vector \<Rightarrow> nat list list \<Rightarrow> nat \<Rightarrow> airline_proc \<Rightarrow>
  (airline_proc \<times> PlaneMessage list) outcome \<Rightarrow> bool" where
  "airline_result nc ps cargo a A r \<longleftrightarrow>
     (case r of
        Faults \<Rightarrow> False
      | Blocks \<Rightarrow> True
      | Returns (A', sent) \<Rightarrow> airline_ok nc ps a (cargo ! a) A' \<and> due A' + reports sent \<le> due A \<and>
          list_all (request_ok nc ps cargo) sent)"

lemma listener_result:
  assumes "airline_ok nc ps a (cargo ! a) A"
  shows "airline_result nc ps cargo a A (listener_action A)"
proof (cases "ap_listens A \<and> ap_inbox A \<noteq> []")
  case False
  then show ?thesis
    by (auto simp: listener_action_def airline_result_def split: list.split)
next
  case True
  then obtain msg inbox where i: "ap_inbox A = msg # inbox" and l: "ap_listens A"
    by (cases "ap_inbox A") auto
  note ok = airline_okD [OF assms]
  have msg: "reply_ok nc (cargo ! a) msg"
    using ok(5) i by simp
  show ?thesis
  proof (cases "\<exists>t. msg = MM_Type t")
    case True
    then obtain t where t: "msg = MM_Type t"
      by blast
    show ?thesis
    proof (cases "t = MessageTypeEnd")
      case True
      then have i': "ap_inbox A = MM_Type MessageTypeEnd # inbox"
        using i t by simp
      show ?thesis
        using told_to_end_ok [OF assms i'] by (simp add: airline_result_def listener_ends [OF ok(1) l i'])
    next
      case False
      then have t': "t \<in> {MessageTypeStep, MessageTypeContinue}"
        using msg t by simp
      show ?thesis
        using listener_phase_ok [OF assms i [unfolded t] t'] ready_message_report
        by (simp add: airline_result_def listener_phase [OF ok(1) l i [unfolded t] t'])
    qed
  next
    case False
    then have nt: "msg \<noteq> MM_Type t" for t
      by blast
    obtain p where p: "p < length (cargo ! a)" "addressee msg = int p" "mm_type msg \<in> {MessageTypeUnloadStock, MessageTypeDestinations}"
      "queue_ok nc (cargo ! a ! p) (handed_on msg)" "msg_type (handed_on msg) \<in> {MessageTypeStock, MessageTypeDestinations}"
      using reply_addressee [OF msg nt] by blast
    have "listener_action A = Returns (passed_on p (handed_on msg) inbox A, [])"
      using reply_ok_mm_ok [OF msg] p ok(3) by (intro listener_passes_on [OF ok(1) l i _ nt]) simp_all
    then show ?thesis
      using passed_on_ok [OF assms i p(1,4,5,3)] by (simp add: airline_result_def)
  qed
qed

text \<open>A thread that has moved, before and after its report.\<close>

definition moved :: "nat \<Rightarrow> plane_pc \<Rightarrow> plane_thread \<Rightarrow> airline_proc \<Rightarrow> airline_proc" where
  "moved p pc th A =
     (let Ps = (ap_planes A)[p := \<lparr>pp_pc = pc, pp_thread = th\<lparr>pt_sent := [], pt_ready := 0\<rparr>\<rparr>]
      in A\<lparr>ap_planes := Ps, ap_state := (ap_state A)\<lparr>al_threads := vec_of (map slot_now Ps)\<rparr>\<rparr>)"

definition reported :: "airline_proc \<Rightarrow> airline_proc" where
  "reported A = A\<lparr>ap_state := (ap_state A)\<lparr>al_planesLeft := al_planesLeft (ap_state A) - 1\<rparr>\<rparr>"

definition report :: "airline_proc \<Rightarrow> PlaneMessage list" where
  "report A = (if al_planesLeft (ap_state A) = 1 then [ready_message (ap_state A)] else [])"

lemma thread_action_moved:
  assumes "synced A" "p < length (ap_planes A)" "P = ap_planes A ! p"
    "plane_action (pp_pc P) (pp_thread P) = Returns r" "after_action r = (pc, th)"
    "pt_ready th \<noteq> 0 \<Longrightarrow> 1 \<le> al_planesLeft (ap_state A) \<and> in_int (al_planesLeft (ap_state A))"
  defines "A' \<equiv> moved p pc th A"
  shows "thread_action p A =
    Returns (if pt_ready th = 0 then (A', pt_sent th) else (reported A', pt_sent th @ report A'))"
proof -
  let ?Ps = "ap_planes A"
  let ?P' = "\<lparr>pp_pc = pc, pp_thread = th\<lparr>pt_sent := [], pt_ready := 0\<rparr>\<rparr>"
  let ?A = "A\<lparr>ap_planes := ?Ps[p := ?P']\<rparr>"
  have th: "al_threads (ap_state A) = vec_of (map slot_now ?Ps)" "al_sent (ap_state A) = []"
    "al_numberOfPlanes (ap_state A) = length ?Ps" "length ?Ps < 2147483647"
    using assms(1) by (simp_all add: synced_def)
  have slot: "slot_now (?Ps ! p)\<lparr>sl_done := pt_done th\<rparr> = slot_now ?P'"
    by (simp add: slot_now_def)
  have mark: "mark_done p (pt_done th) (ap_state A) = ap_state A'"
    using assms(2) by (simp add: mark_done_def th(1) A'_def moved_def vec_store_vec_of slot map_update)
  have sync: "synced A'"
    using th by (simp add: synced_def A'_def moved_def Let_def)
  have quiet: "settle st ?A = (A'\<lparr>ap_state := st\<lparr>al_sent := []\<rparr>\<rparr>, al_sent st)" if "al_threads st = al_threads (ap_state A')" for st
  proof -
    have "st\<lparr>al_threads := vec_of (map slot_now (ap_planes ?A)), al_sent := []\<rparr> = st\<lparr>al_sent := []\<rparr>"
      using that by (cases st) (simp add: A'_def moved_def Let_def)
    then show ?thesis
      using that settle_pushed [of st ?A "\<lambda>_. []"]
      by (simp add: A'_def moved_def Let_def all_receive_none) (simp add: slot_now_def)
  qed
  have run: "thread_action p A =
      then_do (or_fault (if pt_ready th = 0 then Some (ap_state A') else app_airline_plane_ready (ap_state A'))) (\<lambda>st'.
        let (A', sent) = settle st' ?A in Returns (A', pt_sent th @ sent))"
    using assms(2-5) mark by (simp add: thread_action_def)
  show ?thesis
  proof (cases "pt_ready th = 0")
    case True
    have "(ap_state A')\<lparr>al_sent := []\<rparr> = ap_state A'" "al_sent (ap_state A') = []"
      using sync by (simp_all add: synced_def)
    then show ?thesis
      using True run quiet [of "ap_state A'"] by simp
  next
    case False
    have left: "al_planesLeft (ap_state A') = al_planesLeft (ap_state A)"
      by (simp add: A'_def moved_def Let_def)
    have sent: "al_sent (ap_state A') = []"
      using sync by (simp add: synced_def)
    let ?st = "(ap_state A')\<lparr>al_planesLeft := al_planesLeft (ap_state A') - 1\<rparr>"
    define st where "st = (if al_planesLeft (ap_state A') = 1 then send_to_map (ready_message (ap_state A')) ?st else ?st)"
    have ready: "app_airline_plane_ready (ap_state A') = Some st"
      using plane_ready_wf [OF synced_wf [OF sync]] assms(6) [OF False] by (simp add: left st_def Let_def)
    have "st\<lparr>al_sent := []\<rparr> = ?st" "al_sent st = report A'" "al_threads st = al_threads (ap_state A')"
      using sent by (auto simp: st_def send_to_map_def report_def)
    then have "settle st ?A = (reported A', report A')"
      using quiet [of st] by (simp add: reported_def)
    then show ?thesis
      using False run ready by simp
  qed
qed

lemma load_update:
  "p < length (ap_planes A) \<Longrightarrow> load (A\<lparr>ap_planes := (ap_planes A)[p := P]\<rparr>) + armed (ap_planes A ! p) = load A + armed P"
  using elem_le_sum_list [of p "map armed (ap_planes A)"] by (simp add: load_def map_update sum_list_update)

lemma moved_simps:
  "ap_inbox (moved p pc th A) = ap_inbox A" "al_planesLeft (ap_state (moved p pc th A)) = al_planesLeft (ap_state A)"
  "al_stage (ap_state (moved p pc th A)) = al_stage (ap_state A)" "ap_listens (moved p pc th A) = ap_listens A"
  "ap_planes (moved p pc th A) = (ap_planes A)[p := \<lparr>pp_pc = pc, pp_thread = th\<lparr>pt_sent := [], pt_ready := 0\<rparr>\<rparr>]"
  "due (moved p pc th A) = due A" "synced A \<Longrightarrow> synced (moved p pc th A)"
  by (simp_all add: moved_def Let_def due_def synced_def)

lemma reported_simps:
  "ap_inbox (reported A) = ap_inbox A" "ap_planes (reported A) = ap_planes A" "ap_listens (reported A) = ap_listens A"
  "al_planesLeft (ap_state (reported A)) = al_planesLeft (ap_state A) - 1" "al_stage (ap_state (reported A)) = al_stage (ap_state A)"
  "load (reported A) = load A" "synced (reported A) = synced A"
  by (simp_all add: reported_def load_def synced_def)

lemma armed_moved:
  "armed \<lparr>pp_pc = pc, pp_thread = th\<lparr>pt_sent := [], pt_ready := 0\<rparr>\<rparr> = armed \<lparr>pp_pc = pc, pp_thread = th\<rparr>"
  by (simp add: armed_def)

lemma load_moved:
  assumes "p < length (ap_planes A)"
  shows "load (moved p pc th A) + armed (ap_planes A ! p) = load A + armed \<lparr>pp_pc = pc, pp_thread = th\<rparr>"
  using load_update [OF assms, of "\<lparr>pp_pc = pc, pp_thread = th\<lparr>pt_sent := [], pt_ready := 0\<rparr>\<rparr>"]
  by (simp add: moved_def Let_def load_def armed_moved)

lemma reports_sent:
  "pt_sent th = [] \<or> pt_sent th = [PM_StockState (unload_request th0)] \<or> pt_sent th = [PM_CheckDestinations (check_request th0)] \<Longrightarrow>
    reports (pt_sent th) = 0"
  by (auto simp: unload_request_def check_request_def prepare_header_def)

text \<open>What an action of a thread of a good airline is.\<close>

lemma thread_action_cases:
  assumes "airline_ok nc ps a ks A" "p < length ks"
  obtains (waits) "waiting (pp_pc (ap_planes A ! p)) (pp_thread (ap_planes A ! p))" "thread_action p A = Blocks"
  | (moves) pc th where "plane_move nc (ks ! p) (pp_pc (ap_planes A ! p)) (pp_thread (ap_planes A ! p)) pc th"
      "quiet (pp_thread (ap_planes A ! p)) \<longrightarrow> quiet th"
      "thread_action p A = Returns (if pt_ready th = 0 then (moved p pc th A, pt_sent th)
        else (reported (moved p pc th A), pt_sent th @ report (moved p pc th A)))"
      "pt_ready th = 0 \<or> pt_ready th = 1 \<and> 1 \<le> al_planesLeft (ap_state A)"
proof -
  let ?P = "ap_planes A ! p"
  note ok = airline_okD [OF assms(1)]
  have P: "proc_ok nc ps a p (ks ! p) ?P" and p: "p < length (ap_planes A)"
    using ok assms(2) by simp_all
  have m: "moves nc (ks ! p) (pp_pc ?P) (pp_thread ?P) (plane_action (pp_pc ?P) (pp_thread ?P))"
    using P by (intro plane_action_moves [of nc ps a p]) (simp add: proc_ok_def)
  show thesis
  proof (cases "plane_action (pp_pc ?P) (pp_thread ?P)")
    case Blocks
    then show ?thesis
      using m p by (intro waits) (simp_all add: thread_action_def)
  next
    case Faults
    then show ?thesis
      using m by simp
  next
    case (Returns r)
    obtain pc th where r: "after_action r = (pc, th)"
      by (cases "after_action r")
    then have move: "plane_move nc (ks ! p) (pp_pc ?P) (pp_thread ?P) pc th" "quiet (pp_thread ?P) \<longrightarrow> quiet th"
      using m Returns by (simp_all add: moves_def)
    have "pt_ready (pp_thread ?P) = 0"
      using P by (simp add: proc_ok_def)
    from move_counts [OF move(1) this] have c: "pt_ready th \<le> 1"
      "armed \<lparr>pp_pc = pc, pp_thread = th\<rparr> + pt_ready th \<le> armed ?P"
      by simp_all
    have "armed ?P \<le> load A"
      using load_update [OF p, of ?P] elem_le_sum_list [of p "map armed (ap_planes A)"] p by (simp add: load_def)
    then have left: "1 \<le> al_planesLeft (ap_state A) \<and> in_int (al_planesLeft (ap_state A))" if "pt_ready th \<noteq> 0"
      using that c ok(1,2) by (auto simp: counted_def synced_def in_int_def INT_MIN_def INT_MAX_def)
    show ?thesis
      using thread_action_moved [OF ok(1) p refl Returns r left] move c(1) left by (intro moves [of pc th]) auto
  qed
qed

lemma thread_result:
  assumes "airline_ok nc ps a (cargo ! a) A" "a < length cargo"
  shows "airline_result nc ps cargo a A (thread_action p A)"
proof (cases "p < length (cargo ! a)")
  case False
  then show ?thesis
    using airline_okD(3) [OF assms(1)] by (simp add: thread_action_def airline_result_def)
next
  case True
  let ?ks = "cargo ! a" and ?P = "ap_planes A ! p"
  note ok = airline_okD [OF assms(1)]
  have P: "thread_ok nc ps a p (?ks ! p) (pp_thread ?P)" "pt_sent (pp_thread ?P) = []" "pt_ready (pp_thread ?P) = 0"
    using ok(4) [OF True] by (simp_all add: proc_ok_def)
  show ?thesis
  proof (cases rule: thread_action_cases [OF assms(1) True, case_names waits moves])
    case waits
    then show ?thesis
      by (simp add: airline_result_def)
  next
    case (moves pc th)
    let ?A = "moved p pc th A"
    have c: "armed \<lparr>pp_pc = pc, pp_thread = th\<rparr> + pt_ready th \<le> armed ?P"
      using move_counts(2) [OF moves(1) P(3)] by simp
    have th: "thread_ok nc ps a p (?ks ! p) th"
      by (rule move_thread_ok [OF moves(1) P(1)])
    have sent: "list_all (request_ok nc ps cargo) (pt_sent th)" "reports (pt_sent th) = 0"
      using move_sent [OF moves(1) P(2)] thread_ok_requests [OF P(1) assms(2) True] reports_sent by auto
    have "load ?A + pt_ready th \<le> load A"
      using load_moved [of p A pc th] c True ok(3) by simp
    then have load: "int (load ?A) + int (pt_ready th) \<le> al_planesLeft (ap_state A)"
      using ok(2) by (simp add: counted_def)
    have procs: "proc_ok nc ps a q (?ks ! q) (ap_planes ?A ! q)" if "q < length ?ks" for q
      using that ok(3) ok(4) [OF that] th by (cases "q = p") (simp_all add: moved_simps proc_ok_def thread_ok_def)
    note simps = airline_ok_def moved_simps reported_simps ok(1,3,5) counted_def
    show ?thesis
    proof (cases "pt_ready th = 0")
      case True
      then have "airline_ok nc ps a ?ks ?A"
        using load ok(2) procs by (simp add: simps)
      then show ?thesis
        using True sent by (simp add: airline_result_def moves(3) moved_simps)
    next
      case False
      then have r: "pt_ready th = 1" "1 \<le> al_planesLeft (ap_state A)"
        using moves(4) by auto
      have due: "due (reported ?A) + reports (report ?A) = due A"
        using r(2) ready_message_report(2) by (auto simp: due_def report_def moved_simps reported_simps)
      then have "airline_ok nc ps a ?ks (reported ?A)"
        using load ok(2) procs r by (simp add: simps)
      then show ?thesis
        using False sent due by (auto simp: airline_result_def moves(3) report_def ready_message_report(1))
    qed
  qed
qed

end
