(* ===== verification/Map_Moves.thy ===== *)
theory Map_Moves
  imports System_Safety
begin

text \<open>
  What the actions of the map process do, as a step relation over what the airlines see of it, and
  the proof that on good messages every action is such a step.
\<close>

section \<open>The moves\<close>

text \<open>From one state of the map to the next, sending \<open>new\<close>.\<close>

definition next_map :: "map_state \<Rightarrow> map_state \<Rightarrow> (nat \<times> MapMessage) list \<Rightarrow> bool" where
  "next_map st st' new \<longleftrightarrow> evolves (ms_map st) (ms_map st') \<and> ms_sent st' = ms_sent st @ new \<and>
     (ms_writes st = [] \<longrightarrow> ms_writes st' = []) \<and> (ms_exits st = [] \<longrightarrow> ms_exits st' = [])"

definition tell_airlines :: "MessageType \<Rightarrow> nat list \<Rightarrow> (nat \<times> MapMessage) list" where
  "tell_airlines t cs = map (\<lambda>c. (c, MM_Type t)) cs"

text \<open>The reply to a request, or nothing if it could not be written.\<close>

definition replies :: "bool \<Rightarrow> nat \<Rightarrow> MapMessage \<Rightarrow> (nat \<times> MapMessage) list" where
  "replies ok a msg = (if ok then [(a, msg)] else [])"

inductive map_move :: "nat \<Rightarrow> nat list list \<Rightarrow> map_pc \<Rightarrow> map_state \<Rightarrow> PlaneMessage list \<Rightarrow>
  map_pc \<Rightarrow> map_state \<Rightarrow> PlaneMessage list \<Rightarrow> bool" for nc cargo where
  turn_stop: "next_map st st' [] \<Longrightarrow> ms_turn st' = ms_turn st \<Longrightarrow>
    ms_exits st \<noteq> [] \<or> demand (ms_map st) = 0 \<or> 70000 \<le> ms_turn st \<Longrightarrow>
    map_move nc cargo M_Turn st inbox M_Ending st' inbox"
| turn_play: "next_map st st' (tell_airlines MessageTypeStep [0..<k]) \<Longrightarrow> k \<le> length cargo \<Longrightarrow>
    ms_writes st = [] \<longrightarrow> k = length cargo \<Longrightarrow> ms_turn st' = ms_turn st + 1 \<Longrightarrow> ms_turn st < 70000 \<Longrightarrow>
    map_move nc cargo M_Turn st inbox (M_Phase1 0) st' inbox"
| phase1_over: "next_map st st' (tell_airlines MessageTypeContinue [0..<k]) \<Longrightarrow> k \<le> length cargo \<Longrightarrow>
    ms_writes st = [] \<longrightarrow> k = length cargo \<Longrightarrow> ms_turn st' = ms_turn st \<Longrightarrow>
    map_move nc cargo (M_Phase1 (length cargo)) st inbox (M_Phase2 0) st' inbox"
| phase1_done: "i < length cargo \<Longrightarrow> pm_type msg = MessageTypeAirlineDone \<Longrightarrow> next_map st st' [] \<Longrightarrow> ms_turn st' = ms_turn st \<Longrightarrow>
    map_move nc cargo (M_Phase1 i) st (msg # inbox) (M_Phase1 (i + 1)) st' inbox"
| phase1_unload: "i < length cargo \<Longrightarrow> next_map st st' (replies ok a (MM_Stock reply)) \<Longrightarrow> ms_turn st' = ms_turn st \<Longrightarrow>
    ms_writes st = [] \<longrightarrow> ok \<Longrightarrow> a < length cargo \<Longrightarrow> reply_ok nc (cargo ! a) (MM_Stock reply) \<Longrightarrow>
    hdr_type (ss_header m) = MessageTypeUnloadStock \<Longrightarrow> hdr_airline (ss_header m) = int a \<Longrightarrow> hdr_id (ss_header m) = hdr_id (ss_header reply) \<Longrightarrow>
    map_move nc cargo (M_Phase1 i) st (PM_StockState m # inbox) (M_Phase1 i) st' inbox"
| phase1_skip: "i < length cargo \<Longrightarrow> pm_type msg \<notin> {MessageTypeAirlineDone, MessageTypeUnloadStock} \<Longrightarrow>
    next_map st st' [] \<Longrightarrow> ms_turn st' = ms_turn st \<Longrightarrow>
    map_move nc cargo (M_Phase1 i) st (msg # inbox) (M_Phase1 i) st' inbox"
| phase2_over: "next_map st st' [] \<Longrightarrow> ms_turn st' = ms_turn st \<Longrightarrow>
    map_move nc cargo (M_Phase2 (length cargo)) st inbox M_Turn st' inbox"
| phase2_status: "i < length cargo \<Longrightarrow> pm_type msg = MessageTypeAirlineStatus \<Longrightarrow> next_map st st' [] \<Longrightarrow> ms_turn st' = ms_turn st \<Longrightarrow>
    map_move nc cargo (M_Phase2 i) st (msg # inbox) (M_Phase2 (i + 1)) st' inbox"
| phase2_check: "i < length cargo \<Longrightarrow> next_map st st' (replies ok a (MM_Destinations reply)) \<Longrightarrow> ms_turn st' = ms_turn st \<Longrightarrow>
    ms_writes st = [] \<longrightarrow> ok \<Longrightarrow> a < length cargo \<Longrightarrow> reply_ok nc (cargo ! a) (MM_Destinations reply) \<Longrightarrow>
    hdr_type (cd_header m) = MessageTypeCheckDestinations \<Longrightarrow> hdr_airline (cd_header m) = int a \<Longrightarrow> hdr_id (cd_header m) = dm_planeId reply \<Longrightarrow>
    map_move nc cargo (M_Phase2 i) st (PM_CheckDestinations m # inbox) (M_Phase2 i) st' inbox"
| phase2_skip: "i < length cargo \<Longrightarrow> pm_type msg \<notin> {MessageTypeAirlineStatus, MessageTypeCheckDestinations} \<Longrightarrow>
    next_map st st' [] \<Longrightarrow> ms_turn st' = ms_turn st \<Longrightarrow>
    map_move nc cargo (M_Phase2 i) st (msg # inbox) (M_Phase2 i) st' inbox"
| told_end: "next_map st st' (tell_airlines MessageTypeEnd cs) \<Longrightarrow> set cs \<subseteq> {0..<length cargo} \<Longrightarrow>
    distinct cs \<Longrightarrow> ms_writes st = [] \<longrightarrow> cs = [0..<length cargo] \<Longrightarrow> ms_turn st' = ms_turn st \<Longrightarrow>
    map_move nc cargo M_Ending st inbox M_Ended st' inbox"

section \<open>Sending\<close>

lemma next_map_refl: "sim_wf (ms_map st) \<Longrightarrow> next_map st st []"
  by (simp add: next_map_def evolves_refl)

lemma transmit_next:
  assumes "transmit c msg st = (ok, st')" "sim_wf (ms_map st)"
  shows "next_map st st' (replies ok c msg)" "ms_turn st' = ms_turn st" "ms_writes st = [] \<longrightarrow> ok"
  using assms by (auto simp: transmit_def next_map_def replies_def evolves_refl split: prod.splits if_splits)

lemma next_map_trans: "next_map st st1 new1 \<Longrightarrow> next_map st1 st2 new2 \<Longrightarrow> next_map st st2 (new1 @ new2)"
  using evolves_trans by (auto simp: next_map_def)

lemma send_all_next:
  assumes "conns_wf conns n" "sim_wf (ms_map st)"
  shows "\<exists>k st'. send_all t conns st = Some st' \<and> k \<le> n \<and> next_map st st' (tell_airlines t [0..<k]) \<and>
    ms_turn st' = ms_turn st \<and> (ms_writes st = [] \<longrightarrow> k = n)"
proof -
  let ?body = "\<lambda>i st. do {
      conn \<leftarrow> vec_deref conns (int i);
      let (ok, st') = transmit conn (MM_Type t) st;
      Some (if ok then Next st' else Exit st')
    } :: (map_state, map_state) flow option"
  have loop: "\<exists>j st'. (for_loop k i ?body st = Some (Next st') \<or> for_loop k i ?body st = Some (Exit st')) \<and> i \<le> j \<and> j \<le> i + k \<and>
      next_map st st' (tell_airlines t [i..<j]) \<and> ms_turn st' = ms_turn st \<and> (ms_writes st = [] \<longrightarrow> j = i + k)"
    if "i + k \<le> n" "sim_wf (ms_map st)" for k i st
    using that
  proof (induction k arbitrary: i st)
    case 0
    then show ?case
      by (auto intro!: exI [of _ i] simp: next_map_refl tell_airlines_def)
  next
    case (Suc k)
    have v: "vec_deref conns (int i) = Some i"
      using conns_deref [OF assms(1), of "int i"] Suc.prems(1) by simp
    obtain ok st1 where t: "transmit i (MM_Type t) st = (ok, st1)"
      by (cases "transmit i (MM_Type t) st")
    note n1 = transmit_next [OF t Suc.prems(2)]
    show ?case
    proof (cases ok)
      case False
      then show ?thesis
        using n1 by (intro exI [of _ i] exI [of _ st1]) (simp add: v t replies_def tell_airlines_def)
    next
      case True
      have "sim_wf (ms_map st1)"
        using n1(1) by (simp add: next_map_def evolves_def)
      then obtain j st' where j: "for_loop k (Suc i) ?body st1 = Some (Next st') \<or> for_loop k (Suc i) ?body st1 = Some (Exit st')"
        "Suc i \<le> j" "j \<le> Suc i + k" "next_map st1 st' (tell_airlines t [Suc i..<j])" "ms_turn st' = ms_turn st1"
        "ms_writes st1 = [] \<longrightarrow> j = Suc i + k"
        using Suc.IH [of "Suc i" st1] Suc.prems(1) by auto
      have "tell_airlines t [i..<j] = replies ok i (MM_Type t) @ tell_airlines t [Suc i..<j]"
        using True j(2) by (simp add: tell_airlines_def replies_def upt_conv_Cons)
      then have "next_map st st' (tell_airlines t [i..<j])"
        using next_map_trans [OF n1(1) j(4)] by simp
      moreover have "ms_writes st = [] \<longrightarrow> j = i + Suc k"
        using n1(1) j(6) by (simp add: next_map_def)
      ultimately show ?thesis
        using True j(1,2,3,5) n1(2) by (intro exI [of _ j] exI [of _ st']) (simp add: v t)
    qed
  qed
  have "getVectorSize conns = n"
    using assms(1) by (simp add: conns_wf_def)
  then show ?thesis
    using loop [of 0 n st] assms(2) by (auto simp: send_all_def)
qed

lemma comm_end_next:
  assumes "conns_wf conns n" "sim_wf (ms_map st)"
  shows "\<exists>cs st'. comm_end conns st = Some st' \<and> set cs \<subseteq> {0..<n} \<and> distinct cs \<and>
    next_map st st' (tell_airlines MessageTypeEnd cs) \<and> ms_turn st' = ms_turn st \<and> (ms_writes st = [] \<longrightarrow> cs = [0..<n])"
proof -
  let ?body = "\<lambda>i st. do {
      conn \<leftarrow> vec_deref conns (int i);
      Some (Next (snd (transmit conn (MM_Type MessageTypeEnd) st)) :: (map_state, map_state) flow)
    }"
  have loop: "\<exists>cs st'. for_loop k i ?body st = Some (Next st') \<and> set cs \<subseteq> {i..<i + k} \<and> distinct cs \<and>
      next_map st st' (tell_airlines MessageTypeEnd cs) \<and> ms_turn st' = ms_turn st \<and> (ms_writes st = [] \<longrightarrow> cs = [i..<i + k])"
    if "i + k \<le> n" "sim_wf (ms_map st)" for k i st
    using that
  proof (induction k arbitrary: i st)
    case 0
    then show ?case
      by (auto intro!: exI [of _ "[]"] simp: next_map_refl tell_airlines_def)
  next
    case (Suc k)
    have v: "vec_deref conns (int i) = Some i"
      using conns_deref [OF assms(1), of "int i"] Suc.prems(1) by simp
    obtain ok st1 where t: "transmit i (MM_Type MessageTypeEnd) st = (ok, st1)"
      by (cases "transmit i (MM_Type MessageTypeEnd) st")
    note n1 = transmit_next [OF t Suc.prems(2)]
    have "sim_wf (ms_map st1)"
      using n1(1) by (simp add: next_map_def evolves_def)
    then obtain cs st' where j: "for_loop k (Suc i) ?body st1 = Some (Next st')" "set cs \<subseteq> {Suc i..<Suc i + k}" "distinct cs"
      "next_map st1 st' (tell_airlines MessageTypeEnd cs)" "ms_turn st' = ms_turn st1" "ms_writes st1 = [] \<longrightarrow> cs = [Suc i..<Suc i + k]"
      using Suc.IH [of "Suc i" st1] Suc.prems(1) by auto
    let ?cs = "if ok then i # cs else cs"
    have "tell_airlines MessageTypeEnd ?cs = replies ok i (MM_Type MessageTypeEnd) @ tell_airlines MessageTypeEnd cs"
      by (simp add: tell_airlines_def replies_def)
    then have "next_map st st' (tell_airlines MessageTypeEnd ?cs)"
      using next_map_trans [OF n1(1) j(4)] by simp
    moreover have "ms_writes st = [] \<longrightarrow> ?cs = [i..<i + Suc k]"
      using n1(1,3) j(6) by (simp add: next_map_def upt_conv_Cons)
    moreover have "set ?cs \<subseteq> {i..<i + Suc k}" "distinct ?cs"
      using j(2,3) by auto
    ultimately show ?case
      using j(1,5) n1(2) by (intro exI [of _ ?cs] exI [of _ st']) (simp add: v t)
  qed
  have "getVectorSize conns = n"
    using assms(1) by (simp add: conns_wf_def)
  then have "comm_end conns st = after_loop (for_loop n 0 ?body st) Some"
    by (simp add: comm_end_def)
  then show ?thesis
    using loop [of 0 n st] assms(2) by fastforce
qed

section \<open>Answering\<close>

text \<open>The reply to an unloading plane keeps the number of its stocks.\<close>

lemma handle_unload_next:
  assumes wf: "sim_wf (ms_map st)" and conns: "conns_wf conns (length cargo)"
    and m: "from_plane (length (vlist (map_cities (ms_map st)))) (map_product (ms_map st)) cargo MessageTypeUnloadStock
      (ss_header msg) (ss_stocks msg)"
  shows "\<exists>st' ok a reply. handle_unload conns msg st = Some st' \<and> next_map st st' (replies ok a (MM_Stock reply)) \<and>
    ms_turn st' = ms_turn st \<and> (ms_writes st = [] \<longrightarrow> ok) \<and> a < length cargo \<and> reply_ok nc (cargo ! a) (MM_Stock reply) \<and>
    hdr_type (ss_header msg) = MessageTypeUnloadStock \<and> hdr_airline (ss_header msg) = int a \<and>
    hdr_id (ss_header msg) = hdr_id (ss_header reply)"
proof -
  obtain a p i ss where a: "a < length cargo" "p < length (cargo ! a)" "i < length (vlist (map_cities (ms_map st)))"
    and ss: "goods_ok (map_product (ms_map st)) (cargo ! a ! p) ss"
    and h: "ss_header msg = prepare_header (int a) (int p) (int i) MessageTypeUnloadStock" "ss_stocks msg = part_of ss"
    using m unfolding from_plane_def by blast
  have hdr: "hdr_cityId (ss_header msg) = int i" "hdr_airline (ss_header msg) = int a" "hdr_id (ss_header msg) = int p"
    "hdr_type (ss_header msg) = MessageTypeUnloadStock"
    using h(1) by (simp_all add: prepare_header_def)
  let ?u = "unload (stocks_at (ms_map st) i) ss"
  let ?st1 = "st\<lparr>ms_map := map_with_stock (ms_map st) i (fst ?u)\<rparr>"
  let ?reply = "\<lparr>ss_header = prepare_header (int a) (int p) (int i) MessageTypeUnloadStock, ss_stocks = part_of (snd ?u)\<rparr>"
  have known: "length ss \<le> MAX_STOCKS" "stocks_known (map_product (ms_map st)) ss" "length ss = cargo ! a ! p"
    using ss by (auto simp: goods_ok_def)
  note u = handle_unload_ok [OF wf conns hdr(1) a(3) _ _ h(2) known(1,2)]
  have run: "handle_unload conns msg st = Some (snd (transmit a (MM_Stock ?reply) ?st1))"
    and e: "evolves (ms_map st) (ms_map ?st1)"
    using u a(1) by (simp_all add: hdr)
  obtain ok st' where t: "transmit a (MM_Stock ?reply) ?st1 = (ok, st')"
    by (cases "transmit a (MM_Stock ?reply) ?st1")
  have "next_map st ?st1 []"
    using e by (simp add: next_map_def)
  moreover have "sim_wf (ms_map ?st1)"
    using e by (simp add: evolves_def)
  ultimately have "next_map st st' (replies ok a (MM_Stock ?reply))" "ms_turn st' = ms_turn st" "ms_writes st = [] \<longrightarrow> ok"
    using transmit_next [OF t] next_map_trans [of st ?st1 "[]" st'] by simp_all
  moreover have "amounts_ok (cargo ! a ! p) (map stock_amount (snd ?u))"
  proof -
    have wf_ss: "list_all stock_wf ss"
      using known(2) by (auto simp: stocks_known_def list_all_iff)
    have c: "i < length (vlist (map_cities (ms_map st)))" "list_all stock_wf (stocks_at (ms_map st) i)" "stocks_at (ms_map st) i \<noteq> []"
      using sim_wfD(1,5) [OF wf] a(3) map_wf_stocks [of "ms_map st" "vlist (map_cities (ms_map st)) ! i"]
      by (auto simp: stocks_at_def stocks_wf_def)
    have "map stock_product (snd ?u) = map stock_product ss"
      using unload_product c(3) by simp
    then have "length (snd ?u) = length ss"
      by (rule map_eq_imp_length_eq)
    moreover have "list_all stock_wf (snd ?u)"
      using unload_wf [OF c(2) wf_ss] c(3) by simp
    ultimately show ?thesis
      using known(3) by (auto simp: amounts_ok_def list_all_iff stock_wf_def)
  qed
  then have "reply_ok nc (cargo ! a) (MM_Stock ?reply)"
    using a(2) by (auto simp: prepare_header_def part_of_def amounts_ok_def intro!: exI [of _ p] exI [of _ "map stock_amount (snd ?u)"])
  moreover have "hdr_id (ss_header ?reply) = int p"
    by (simp add: prepare_header_def)
  ultimately show ?thesis
    using run t a(1) hdr by (intro exI [of _ st'] exI [of _ ok] exI [of _ a] exI [of _ ?reply]) simp
qed

lemma handle_check_next:
  assumes wf: "sim_wf (ms_map st)" and conns: "conns_wf conns (length cargo)"
    and m: "from_plane (length (vlist (map_cities (ms_map st)))) (map_product (ms_map st)) cargo MessageTypeCheckDestinations
      (cd_header msg) (cd_stocks msg)"
  shows "\<exists>st' ok a reply. handle_check conns msg st = Some st' \<and> next_map st st' (replies ok a (MM_Destinations reply)) \<and>
    ms_turn st' = ms_turn st \<and> (ms_writes st = [] \<longrightarrow> ok) \<and> a < length cargo \<and>
    reply_ok (length (vlist (map_cities (ms_map st)))) (cargo ! a) (MM_Destinations reply) \<and>
    hdr_type (cd_header msg) = MessageTypeCheckDestinations \<and> hdr_airline (cd_header msg) = int a \<and>
    hdr_id (cd_header msg) = dm_planeId reply"
proof -
  let ?m = "ms_map st"
  let ?nc = "length (vlist (map_cities ?m))"
  note W = sim_wfD [OF wf]
  obtain a p i ss where a: "a < length cargo" "p < length (cargo ! a)" "i < ?nc"
    and ss: "goods_ok (map_product ?m) (cargo ! a ! p) ss"
    and h: "cd_header msg = prepare_header (int a) (int p) (int i) MessageTypeCheckDestinations" "cd_stocks msg = part_of ss"
    using m unfolding from_plane_def by blast
  have hdr: "hdr_cityId (cd_header msg) = int i" "hdr_airline (cd_header msg) = int a" "hdr_id (cd_header msg) = int p"
    "hdr_type (cd_header msg) = MessageTypeCheckDestinations"
    using h(1) by (simp_all add: prepare_header_def)
  have known: "length ss \<le> MAX_STOCKS" "stocks_known (map_product ?m) ss"
    using ss by (auto simp: goods_ok_def)
  let ?pl = "blank_plane\<lparr>plane_id := int p, plane_cityId := int i, plane_stocks := vec_of ss\<rparr>"
  have init: "initPlane [] (cd_stocks msg) (cd_header msg) blank_plane ?m = Some (?pl, ?m, [])"
    using initPlane_part_of [OF W(4,3) known(2,1)] by (simp add: h(2) hdr)
  have "stocks_wf (plane_stocks ?pl)"
    using known by (auto simp: stocks_known_def list_all_iff stocks_wf_def MAX_STOCKS_def)
  then obtain kept where best: "best_of MAX_DESTINATIONS (candidates ?m ?pl) kept"
    and give: "app_give_destinations ?m ?pl = Some (destinations_message (int p) (sort_dist kept))"
    using app_give_destinations_message [OF W(1,2), of ?pl i] a(3) by auto
  let ?reply = "destinations_message (int p) (sort_dist kept)"
  have cand: "(\<exists>j<?nc. cand_city c = int j) \<and> 0 \<le> cand_dist c \<and> in_int (cand_dist c)" if "c \<in> set (sort_dist kept)" for c
  proof -
    have "c \<in> set (candidates ?m ?pl)"
      using best that by (auto simp: best_of_def dist_sort.sort_set dest!: mset_subset_eqD)
    then obtain j where j: "j < ?nc" "c = candidate_of ?m ?pl (vlist (map_cities ?m) ! j)"
      by (auto simp: candidates_def in_set_conv_nth)
    moreover have "city_id (vlist (map_cities ?m) ! j) = int j"
      using map_wf_id [OF W(1) j(1)] .
    moreover have "0 \<le> map_matrix ?m ! j ! i \<and> in_int (map_matrix ?m ! j ! i)"
      using W(2) j(1) a(3) square_length [of ?nc "map_matrix ?m"] square_row [of ?nc "map_matrix ?m" j]
      by (auto simp: routes_wf_def list_all_length)
    ultimately show ?thesis
      by (auto simp: candidate_of_def)
  qed
  have "length (sort_dist kept) \<le> MAX_DESTINATIONS"
    using best by (simp add: best_of_def dist_sort.sort_length)
  then have dests: "dests_ok ?nc (sort_dist kept)"
    using cand by (simp add: dests_ok_def list_all_iff)
  obtain ok st' where t: "transmit a (MM_Destinations ?reply) st = (ok, st')"
    by (cases "transmit a (MM_Destinations ?reply) st")
  have "vec_deref conns (int a) = Some a"
    using conns_deref [OF conns, of "int a"] a(1) by simp
  then have "handle_check conns msg st = Some st'"
    using init give t by (simp add: handle_check_def hdr comm_give_destinations_def Let_def)
  then show ?thesis
    using transmit_next [OF t wf] a dests hdr
    by (intro exI [of _ st'] exI [of _ ok] exI [of _ a] exI [of _ ?reply]) auto
qed

section \<open>Every action is a move\<close>

definition map_good :: "nat \<Rightarrow> product vector \<Rightarrow> nat list list \<Rightarrow> int \<Rightarrow> map_state \<Rightarrow> bool" where
  "map_good nc ps cargo T st \<longleftrightarrow> sim_wf (ms_map st) \<and> length (vlist (map_cities (ms_map st))) = nc \<and>
     map_product (ms_map st) = ps \<and> in_int T \<and> demand (ms_map st) \<le> T \<and> length cargo < 2147483648"

definition pc_ok :: "nat \<Rightarrow> map_pc \<Rightarrow> bool" where
  "pc_ok n pc \<longleftrightarrow> (case pc of M_Phase1 i \<Rightarrow> i \<le> n | M_Phase2 i \<Rightarrow> i \<le> n | _ \<Rightarrow> True)"

definition map_waiting :: "nat \<Rightarrow> map_pc \<Rightarrow> PlaneMessage list \<Rightarrow> bool" where
  "map_waiting n pc inbox \<longleftrightarrow> pc = M_Ended \<or> inbox = [] \<and> (\<exists>i<n. pc \<in> {M_Phase1 i, M_Phase2 i})"

lemma next_map_same:
  assumes "sim_wf (ms_map st)" "ms_map st' = ms_map st" "ms_sent st' = ms_sent st" "ms_writes st' = ms_writes st"
    "ms_exits st = [] \<longrightarrow> ms_exits st' = []"
  shows "next_map st st' []"
  using assms by (simp add: next_map_def evolves_refl)

lemma look_exit_fields:
  assumes "look_exit st = (stop, st')"
  shows "ms_map st' = ms_map st" "ms_sent st' = ms_sent st" "ms_writes st' = ms_writes st" "ms_turn st' = ms_turn st"
    "ms_exits st = [] \<Longrightarrow> \<not> stop \<and> ms_exits st' = []"
  using assms by (auto simp: look_exit_def split: prod.splits)

lemma begin_turn_moves:
  assumes "map_good nc ps cargo T st"
  shows "\<exists>pc' st' inbox'. begin_turn (vec_of [0..<length cargo]) st inbox = Returns (pc', st', inbox') \<and>
    map_move nc cargo M_Turn st inbox pc' st' inbox'"
proof -
  let ?conns = "vec_of [0..<length cargo]"
  have wf: "sim_wf (ms_map st)" and conns: "conns_wf ?conns (length cargo)"
    using assms by (simp_all add: map_good_def conns_wf_def)
  obtain stop st0 where l0: "look_exit st = (stop, st0)"
    by (cases "look_exit st")
  obtain stop' st1 where l1: "look_exit st0 = (stop', st1)"
    by (cases "look_exit st0")
  note f0 = look_exit_fields [OF l0] and f1 = look_exit_fields [OF l1]
  have same: "next_map st st0 []" "next_map st st1 []" "ms_turn st0 = ms_turn st" "ms_turn st1 = ms_turn st"
    using f0 f1 by (auto intro!: next_map_same [OF wf])
  have e: "endSimulation (ms_map st0) (ms_turn st0) =
      Some (if ms_turn st < 70000 \<and> demand (ms_map st) \<noteq> 0 then CONTINUE_SIM else END_SIM)"
    using endSimulation_wf [of "ms_map st"] wf f0 by (simp add: sim_wf_def)
  show ?thesis
  proof (cases "stop \<or> stop' \<or> \<not> (ms_turn st < 70000 \<and> demand (ms_map st) \<noteq> 0)")
    case True
    have why: "ms_exits st \<noteq> [] \<or> demand (ms_map st) = 0 \<or> 70000 \<le> ms_turn st"
      using True f0(5) f1(5) by auto
    have "begin_turn ?conns st inbox = Returns (M_Ending, st0, inbox) \<or> begin_turn ?conns st inbox = Returns (M_Ending, st1, inbox)"
      using True by (auto simp: begin_turn_def l0 l1 e CONTINUE_SIM_def END_SIM_def)
    moreover have "map_move nc cargo M_Turn st inbox M_Ending s inbox" if "s \<in> {st0, st1}" for s
      using that same why by (auto intro: turn_stop)
    ultimately show ?thesis
      by blast
  next
    case False
    let ?st1 = "st1\<lparr>ms_turn := ms_turn st1 + 1\<rparr>"
    have "sim_wf (ms_map ?st1)"
      using wf f0(1) f1(1) by simp
    from send_all_next [OF conns this, of MessageTypeStep] obtain k st2 where st2: "comm_turn_step ?conns ?st1 = Some st2"
      "k \<le> length cargo" "next_map ?st1 st2 (tell_airlines MessageTypeStep [0..<k])" "ms_turn st2 = ms_turn st + 1"
      "ms_writes ?st1 = [] \<longrightarrow> k = length cargo"
      using same(4) by (auto simp: comm_turn_step_def)
    have "next_map st ?st1 []"
      using same(2) by (simp add: next_map_def)
    from next_map_trans [OF this st2(3)] have "next_map st st2 (tell_airlines MessageTypeStep [0..<k])"
      by simp
    moreover have "begin_turn ?conns st inbox = Returns (M_Phase1 0, st2, inbox)"
      using False st2(1) by (simp add: begin_turn_def l0 l1 e)
    ultimately show ?thesis
      using False st2(2,4,5) f0(3) f1(3) by (auto intro!: turn_play)
  qed
qed

lemma map_action_moves:
  assumes good: "map_good nc ps cargo T st" and inbox: "list_all (request_ok nc ps cargo) inbox" and pc: "pc_ok (length cargo) pc"
  shows "case map_action (vec_of [0..<length cargo]) (length cargo) T pc st inbox of
      Faults \<Rightarrow> False | Blocks \<Rightarrow> map_waiting (length cargo) pc inbox
    | Returns (pc', st', inbox') \<Rightarrow> map_move nc cargo pc st inbox pc' st' inbox'"
proof -
  let ?n = "length cargo"
  let ?conns = "vec_of [0..<?n]"
  have wf: "sim_wf (ms_map st)" and conns: "conns_wf ?conns ?n" and nc: "nc = length (vlist (map_cities (ms_map st)))"
    and ps: "ps = map_product (ms_map st)" and T: "in_int T" "demand (ms_map st) \<le> T"
    using good by (simp_all add: map_good_def conns_wf_def)
  note refl = next_map_refl [OF wf]
  show ?thesis
  proof (cases pc)
    case M_Turn
    then show ?thesis
      using begin_turn_moves [OF good, of inbox] by auto
  next
    case M_Ending
    then show ?thesis
      using comm_end_next [OF conns wf] by (auto intro!: told_end)
  next
    case M_Ended
    then show ?thesis
      by (simp add: map_waiting_def)
  next
    case (M_Phase1 i)
    show ?thesis
    proof (cases "i = ?n")
      case True
      then show ?thesis
        using send_all_next [OF conns wf, of MessageTypeContinue] M_Phase1
        by (auto simp: phase1_action.simps comm_turn_continue_def intro!: phase1_over)
    next
      case False
      then have i: "i < ?n"
        using pc M_Phase1 by (simp add: pc_ok_def)
      show ?thesis
      proof (cases inbox)
        case Nil
        then show ?thesis
          using i M_Phase1 by (auto simp: phase1_action.simps map_waiting_def)
      next
        case (Cons msg inbox')
        have msg: "request_ok nc ps cargo msg"
          using inbox Cons by simp
        show ?thesis
        proof (cases "\<exists>m. msg = PM_StockState m")
          case True
          then obtain m where m: "msg = PM_StockState m"
            by blast
          have "from_plane nc ps cargo MessageTypeUnloadStock (ss_header m) (ss_stocks m)"
            using msg m by simp
          from handle_unload_next [OF wf conns this [unfolded nc ps], where nc = nc] obtain st' ok a reply where
            r: "handle_unload ?conns m st = Some st'" "next_map st st' (replies ok a (MM_Stock reply))" "ms_turn st' = ms_turn st"
              "ms_writes st = [] \<longrightarrow> ok" "a < ?n" "reply_ok nc (cargo ! a) (MM_Stock reply)"
              "hdr_type (ss_header m) = MessageTypeUnloadStock" "hdr_airline (ss_header m) = int a"
              "hdr_id (ss_header m) = hdr_id (ss_header reply)"
            by blast
          show ?thesis
            using i M_Phase1 Cons m r(1,7) phase1_unload [OF i r(2-9), of inbox'] by (simp add: phase1_action.simps)
        next
          case False
          then show ?thesis
            using i M_Phase1 Cons msg refl
            by (cases msg) (auto simp: phase1_action.simps from_plane_def prepare_header_def intro!: phase1_done [simplified] phase1_skip)
        qed
      qed
    qed
  next
    case (M_Phase2 i)
    show ?thesis
    proof (cases "i = ?n")
      case True
      obtain st' where st': "output_map_status T st = Some st'" "next_map st st' []" "ms_turn st' = ms_turn st"
      proof -
        have "in_int (T - demand (ms_map st))"
          using T sim_wfD(1) [OF wf] demand_nonneg by (intro in_int_diff) auto
        then obtain msg where "output_map_status T st = Some (push_output msg st)"
          by (auto simp: output_map_status_def send_map_status_def get_map_status_refines [OF sim_wfD(1) [OF wf]] Let_def)
        then show ?thesis
          by (rule that) (use refl in \<open>simp_all add: push_output_def next_map_def\<close>)
      qed
      then show ?thesis
        using True M_Phase2 by (auto simp: phase2_action.simps intro!: phase2_over)
    next
      case False
      then have i: "i < ?n"
        using pc M_Phase2 by (simp add: pc_ok_def)
      show ?thesis
      proof (cases inbox)
        case Nil
        then show ?thesis
          using i M_Phase2 by (auto simp: phase2_action.simps map_waiting_def)
      next
        case (Cons msg inbox')
        have msg: "request_ok nc ps cargo msg"
          using inbox Cons by simp
        show ?thesis
        proof (cases "\<exists>m. msg = PM_CheckDestinations m")
          case True
          then obtain m where m: "msg = PM_CheckDestinations m"
            by blast
          have "from_plane nc ps cargo MessageTypeCheckDestinations (cd_header m) (cd_stocks m)"
            using msg m by simp
          from handle_check_next [OF wf conns this [unfolded nc ps], folded nc] obtain st' ok a reply where
            r: "handle_check ?conns m st = Some st'" "next_map st st' (replies ok a (MM_Destinations reply))" "ms_turn st' = ms_turn st"
              "ms_writes st = [] \<longrightarrow> ok" "a < ?n" "reply_ok nc (cargo ! a) (MM_Destinations reply)"
              "hdr_type (cd_header m) = MessageTypeCheckDestinations" "hdr_airline (cd_header m) = int a"
              "hdr_id (cd_header m) = dm_planeId reply"
            by blast
          show ?thesis
            using i M_Phase2 Cons m r(1,7) phase2_check [OF i r(2-9), of inbox'] by (simp add: phase2_action.simps)
        next
          case False
          have "next_map st (comm_send_airline_status f t k st) []" for f t k
            using refl by (simp add: comm_send_airline_status_def push_output_def next_map_def)
          then show ?thesis
            using i M_Phase2 Cons msg refl False
            by (cases msg) (auto simp: phase2_action.simps from_plane_def prepare_header_def intro!: phase2_status [simplified] phase2_skip)
        qed
      qed
    qed
  qed
qed

end
