(* ===== verification/System_Invariant.thy ===== *)
theory System_Invariant
  imports Map_Moves
begin

text \<open>
  The invariant of the whole system: the parts of System\_Safety and Map\_Moves together with the count of
  the phases. It holds at the start of every good simulation and is kept by every step; hence no
  process of a reachable state can fault.
\<close>

section \<open>Delivering\<close>

definition sent_to :: "nat \<Rightarrow> (nat \<times> MapMessage) list \<Rightarrow> MapMessage list" where
  "sent_to c new = map snd (filter (\<lambda>(k, _). k = c) new)"

lemma deliver_simps [simp]:
  "length (deliver new as) = length as"
  "c < length as \<Longrightarrow> deliver new as ! c = (as ! c)\<lparr>ap_inbox := ap_inbox (as ! c) @ sent_to c new\<rparr>"
  by (simp_all add: deliver_def sent_to_def)

lemma sent_to_simps [simp]:
  "sent_to c [] = []" "sent_to c (x # new) = (if fst x = c then [snd x] else []) @ sent_to c new"
  by (auto simp: sent_to_def split: prod.splits)

lemma sent_to_replies [simp]: "sent_to c (replies ok a msg) = (if ok \<and> c = a then [msg] else [])"
  by (simp add: replies_def)

lemma sent_to_tell: "distinct cs \<Longrightarrow> sent_to c (tell_airlines t cs) = (if c \<in> set cs then [MM_Type t] else [])"
proof (induction cs)
  case (Cons d cs)
  then show ?case
    by (auto simp: tell_airlines_def)
qed (simp add: tell_airlines_def)

lemma sent_to_tell_upt [simp]: "sent_to c (tell_airlines t [0..<k]) = (if c < k then [MM_Type t] else [])"
  by (simp add: sent_to_tell)

lemma inbox_ok:
  "airline_ok nc ps a ks A \<Longrightarrow> list_all (reply_ok nc ks) msgs \<Longrightarrow> due A + mm_phases msgs \<le> 1 \<Longrightarrow>
    airline_ok nc ps a ks (A\<lparr>ap_inbox := ap_inbox A @ msgs\<rparr>)"
  by (simp add: airline_ok_def synced_def counted_def due_def load_def)

lemma due_inbox [simp]: "due (A\<lparr>ap_inbox := ap_inbox A @ msgs\<rparr>) = due A + mm_phases msgs"
  by (simp add: due_def)

section \<open>The invariant\<close>

text \<open>How many airlines the map still waits for.\<close>

definition remaining :: "nat \<Rightarrow> map_pc \<Rightarrow> nat" where
  "remaining n pc = (case pc of M_Phase1 i \<Rightarrow> n - i | M_Phase2 i \<Rightarrow> n - i | _ \<Rightarrow> 0)"

definition total_due :: "airline_proc list \<Rightarrow> nat" where
  "total_due as = (\<Sum>a<length as. due (as ! a))"

definition sys_ok :: "nat \<Rightarrow> product vector \<Rightarrow> nat list list \<Rightarrow> int \<Rightarrow> system_state \<Rightarrow> bool" where
  "sys_ok nc ps cargo T S \<longleftrightarrow>
     map_good nc ps cargo T (sy_map S) \<and> ms_sent (sy_map S) = [] \<and> pc_ok (length cargo) (sy_pc S) \<and>
     length (sy_airlines S) = length cargo \<and>
     (\<forall>a<length cargo. airline_ok nc ps a (cargo ! a) (sy_airlines S ! a)) \<and>
     list_all (request_ok nc ps cargo) (sy_inbox S) \<and>
     total_due (sy_airlines S) + reports (sy_inbox S) \<le> remaining (length cargo) (sy_pc S)"

lemma sys_okD:
  assumes "sys_ok nc ps cargo T S"
  shows "map_good nc ps cargo T (sy_map S)" "ms_sent (sy_map S) = []" "pc_ok (length cargo) (sy_pc S)"
    "length (sy_airlines S) = length cargo" "\<And>a. a < length cargo \<Longrightarrow> airline_ok nc ps a (cargo ! a) (sy_airlines S ! a)"
    "list_all (request_ok nc ps cargo) (sy_inbox S)"
    "total_due (sy_airlines S) + reports (sy_inbox S) \<le> remaining (length cargo) (sy_pc S)"
  using assms by (simp_all add: sys_ok_def)

declare act.simps [simp del]

text \<open>Steps of the map.\<close>

lemma map_move_counts:
  assumes "map_move nc cargo pc st inbox pc' st' inbox'" "pc_ok (length cargo) pc" "list_all (request_ok nc' ps cargo) inbox"
  defines "n \<equiv> length cargo"
  shows "\<exists>new. next_map st st' new \<and> (\<forall>c<n. list_all (reply_ok nc (cargo ! c)) (sent_to c new)) \<and> pc_ok n pc' \<and>
    list_all (request_ok nc' ps cargo) inbox' \<and>
    (\<Sum>c<n. mm_phases (sent_to c new)) + remaining n pc + reports inbox' \<le> remaining n pc' + reports inbox \<and>
    (\<forall>c<n. mm_phases (sent_to c new) \<le> 1 \<and> (mm_phases (sent_to c new) = 0 \<or> remaining n pc = 0))"
proof -
  have le: "(\<Sum>c<n. if c < k then 1 else 0) \<le> n" for k
    using sum_bounded_above [of "{..<n}" "\<lambda>c. if c < k then 1 else (0::nat)" 1] by simp
  from assms(1) show ?thesis
  proof (cases rule: map_move.cases)
    case (turn_play k)
    then show ?thesis
      using assms(2,3) le [of k]
      by (intro exI [of _ "tell_airlines MessageTypeStep [0..<k]"]) (auto simp: pc_ok_def remaining_def n_def if_distrib cong: if_cong)
  next
    case (phase1_over k)
    then show ?thesis
      using assms(2,3) le [of k]
      by (intro exI [of _ "tell_airlines MessageTypeContinue [0..<k]"]) (auto simp: pc_ok_def remaining_def n_def if_distrib cong: if_cong)
  next
    case (phase1_unload i ok a reply m)
    have "mm_phases (sent_to c (replies ok a (MM_Stock reply))) = 0"
      "c < n \<Longrightarrow> list_all (reply_ok nc (cargo ! c)) (sent_to c (replies ok a (MM_Stock reply)))" for c
      using phase1_unload(9) by auto
    then show ?thesis
      using assms(2,3) phase1_unload
      by (intro exI [of _ "replies ok a (MM_Stock reply)"]) (simp add: pc_ok_def remaining_def n_def del: sent_to_replies)
  next
    case (phase2_check i ok a reply m)
    have "mm_phases (sent_to c (replies ok a (MM_Destinations reply))) = 0"
      "c < n \<Longrightarrow> list_all (reply_ok nc (cargo ! c)) (sent_to c (replies ok a (MM_Destinations reply)))" for c
      using phase2_check(9) by auto
    then show ?thesis
      using assms(2,3) phase2_check
      by (intro exI [of _ "replies ok a (MM_Destinations reply)"]) (simp add: pc_ok_def remaining_def n_def del: sent_to_replies)
  next
    case (told_end cs)
    then show ?thesis
      using assms(2,3)
      by (intro exI [of _ "tell_airlines MessageTypeEnd cs"]) (auto simp: pc_ok_def remaining_def n_def sent_to_tell)
  qed (use assms(2,3) in \<open>auto intro!: exI [of _ "[]"] simp: pc_ok_def remaining_def n_def\<close>)
qed

lemma map_good_next: "map_good nc ps cargo T st \<Longrightarrow> next_map st st' new \<Longrightarrow> map_good nc ps cargo T st'"
  by (auto simp: map_good_def next_map_def evolves_def)

lemma act_map_ok:
  assumes "sys_ok nc ps cargo T S"
  shows "case act T The_Map S of
      Faults \<Rightarrow> False | Blocks \<Rightarrow> map_waiting (length cargo) (sy_pc S) (sy_inbox S) | Returns S' \<Rightarrow> sys_ok nc ps cargo T S'"
proof -
  let ?n = "length cargo"
  note ok = sys_okD [OF assms]
  note moves = map_action_moves [OF ok(1,6,3)]
  show ?thesis
  proof (cases "map_action (vec_of [0..<?n]) ?n T (sy_pc S) (sy_map S) (sy_inbox S)")
    case (Returns x)
    obtain pc' st' inbox' where x: "x = (pc', st', inbox')"
      by (cases x)
    have m: "map_move nc cargo (sy_pc S) (sy_map S) (sy_inbox S) pc' st' inbox'"
      using moves Returns x by simp
    obtain new where new: "next_map (sy_map S) st' new" "\<forall>c<?n. list_all (reply_ok nc (cargo ! c)) (sent_to c new)"
      "pc_ok ?n pc'" "list_all (request_ok nc ps cargo) inbox'"
      "(\<Sum>c<?n. mm_phases (sent_to c new)) + remaining ?n (sy_pc S) + reports inbox' \<le> remaining ?n pc' + reports (sy_inbox S)"
      "\<forall>c<?n. mm_phases (sent_to c new) \<le> 1 \<and> (mm_phases (sent_to c new) = 0 \<or> remaining ?n (sy_pc S) = 0)"
      using map_move_counts [OF m ok(3,6)] by auto
    have sent: "ms_sent st' = new"
      using new(1) ok(2) by (simp add: next_map_def)
    let ?S = "S\<lparr>sy_pc := pc', sy_map := st'\<lparr>ms_sent := []\<rparr>, sy_inbox := inbox', sy_airlines := deliver new (sy_airlines S)\<rparr>"
    have step: "act T The_Map S = Returns ?S"
      using Returns x sent ok(4) by (simp add: act.simps)
    have "airline_ok nc ps c (cargo ! c) (sy_airlines ?S ! c)" if c: "c < ?n" for c
    proof -
      have "due (sy_airlines S ! c) \<le> total_due (sy_airlines S)"
        using c ok(4) unfolding total_due_def by (intro member_le_sum) simp_all
      then have "due (sy_airlines S ! c) + mm_phases (sent_to c new) \<le> 1"
        using new(6) c ok(7) airline_okD(2) [OF ok(5) [OF c]] by (auto simp: counted_def)
      then show ?thesis
        using inbox_ok [OF ok(5) [OF c], of "sent_to c new"] new(2) c ok(4) by simp
    qed
    moreover have "total_due (sy_airlines ?S) = total_due (sy_airlines S) + (\<Sum>c<?n. mm_phases (sent_to c new))"
      using ok(4) by (simp add: total_due_def sum.distrib)
    moreover have "map_good nc ps cargo T (st'\<lparr>ms_sent := []\<rparr>)"
      using map_good_next [OF ok(1) new(1)] by (simp add: map_good_def)
    ultimately have "sys_ok nc ps cargo T ?S"
      using ok(4,7) new(3-5) by (simp add: sys_ok_def)
    then show ?thesis
      by (simp add: step)
  qed (use moves ok(4) in \<open>simp_all add: act.simps\<close>)
qed

text \<open>Steps of an airline.\<close>

lemma airline_acts_ok:
  assumes "sys_ok nc ps cargo T S"
    and "\<And>A. a < length cargo \<Longrightarrow> airline_ok nc ps a (cargo ! a) A \<Longrightarrow> airline_result nc ps cargo a A (f A)"
  shows "case airline_acts a f S of
      Faults \<Rightarrow> False | Blocks \<Rightarrow> True | Returns S' \<Rightarrow> sys_ok nc ps cargo T S'"
proof (cases "a < length cargo")
  case False
  then show ?thesis
    using sys_okD(4) [OF assms(1)] by simp
next
  case True
  note ok = sys_okD [OF assms(1)]
  let ?A = "sy_airlines S ! a"
  have r: "airline_result nc ps cargo a ?A (f ?A)"
    by (rule assms(2) [OF True ok(5) [OF True]])
  show ?thesis
  proof (cases "f ?A")
    case (Returns x)
    obtain A' sent where x: "x = (A', sent)"
      by (cases x)
    have A': "airline_ok nc ps a (cargo ! a) A'" "due A' + reports sent \<le> due ?A" "list_all (request_ok nc ps cargo) sent"
      using r by (simp_all add: airline_result_def Returns x)
    let ?as = "(sy_airlines S)[a := A']"
    have "total_due ?as + due ?A = total_due (sy_airlines S) + due A'"
      using True ok(4) by (simp add: total_due_def sum.remove [of "{..<length cargo}" a])
    then have "total_due ?as + (reports (sy_inbox S) + reports sent) \<le> remaining (length cargo) (sy_pc S)"
      using A'(2) ok(7) by simp
    then have "sys_ok nc ps cargo T (S\<lparr>sy_airlines := ?as, sy_inbox := sy_inbox S @ sent\<rparr>)"
      using ok A' True by (auto simp: sys_ok_def nth_list_update)
    then show ?thesis
      using True ok(4) Returns x by simp
  qed (use r in \<open>simp_all add: airline_result_def\<close>)
qed

text \<open>Every step of a good state is good, and none faults.\<close>

lemma act_ok:
  assumes "sys_ok nc ps cargo T S"
  shows "case act T x S of Faults \<Rightarrow> False | Blocks \<Rightarrow> True | Returns S' \<Rightarrow> sys_ok nc ps cargo T S'"
proof (cases x)
  case The_Map
  then show ?thesis
    using act_map_ok [OF assms] by (auto split: outcome.splits)
next
  case (Listener a)
  then show ?thesis
    using airline_acts_ok [OF assms, of a listener_action] listener_result by (auto simp: act.simps)
next
  case (Plane a p)
  then show ?thesis
    using airline_acts_ok [OF assms, of a "thread_action p"] thread_result by (auto simp: act.simps)
qed

lemma sys_reach_ok: "sys_reach T S0 S \<Longrightarrow> sys_ok nc ps cargo T S0 \<Longrightarrow> sys_ok nc ps cargo T S"
proof (induction rule: sys_reach.induct)
  case (reach_step S x S')
  then show ?case
    using act_ok [of nc ps cargo T S x] by simp
qed

section \<open>The start\<close>

text \<open>Planes and airlines as the parser makes them.\<close>

definition plane_good :: "sim_map \<Rightarrow> nat \<Rightarrow> plane \<Rightarrow> bool" where
  "plane_good m p pl \<longleftrightarrow> plane_id pl = int p \<and> (\<exists>i<length (vlist (map_cities m)). plane_cityId pl = int i) \<and>
     0 \<le> plane_distance pl \<and> in_int (plane_distance pl) \<and>
     stocks_ok (map_product m) (length (vlist (plane_stocks pl))) (plane_stocks pl)"

definition airline_good :: "sim_map \<Rightarrow> nat \<Rightarrow> airline \<Rightarrow> bool" where
  "airline_good m a self \<longleftrightarrow> airline_id self = int a \<and> airline_numberOfPlanes self = length (airline_planes self) \<and>
     length (airline_planes self) < 2147483647 \<and>
     (\<forall>p<length (airline_planes self). plane_good m p (airline_planes self ! p))"

definition fleet_good :: "sim_map \<Rightarrow> airline vector \<Rightarrow> bool" where
  "fleet_good m airlines \<longleftrightarrow> vec_inv airlines \<and>
     (\<forall>a<length (vlist airlines). airline_good m a (vlist airlines ! a))"

definition cargo_of :: "airline list \<Rightarrow> nat list list" where
  "cargo_of as = map (\<lambda>self. map (\<lambda>pl. length (vlist (plane_stocks pl))) (airline_planes self)) as"

lemma boot_airline_ok:
  assumes "airline_good m a self"
  shows "\<exists>A. boot_airline writes allocs self = Some A \<and> ap_inbox A = [] \<and> ap_listens A \<and> due A = 0 \<and>
    ap_planes A = map (\<lambda>p. \<lparr>pp_pc = At_Top,
      pp_thread = (new_thread (int a) (airline_planes self ! p))\<lparr>pt_writes := writes p, pt_allocs := allocs p\<rparr>\<rparr>)
      [0..<length (airline_planes self)] \<and>
    airline_ok (length (vlist (map_cities m))) (map_product m) a (cargo_of [self] ! 0) A \<and> al_planesLeft (ap_state A) = 0"
proof -
  have self: "airline_id self = int a" "airline_numberOfPlanes self = length (airline_planes self)"
    "length (airline_planes self) < 2147483647" "\<And>p. p < length (airline_planes self) \<Longrightarrow> plane_good m p (airline_planes self ! p)"
    using assms by (simp_all add: airline_good_def)
  let ?threads = "map (new_thread (int a)) (airline_planes self)"
  let ?A = "\<lparr>ap_state = airline_start self (vec_of ?threads), ap_inbox = [], ap_listens = True,
    ap_planes = map (\<lambda>p. \<lparr>pp_pc = At_Top, pp_thread = (?threads ! p)\<lparr>pt_writes := writes p, pt_allocs := allocs p\<rparr>\<rparr>)
      [0..<length ?threads]\<rparr>"
  have "bootstrap_planes [] self = Some (vec_of ?threads)"
    using bootstrap_planes_threads [OF self(2)] self(1,3) by simp
  then have boot: "boot_airline writes allocs self = Some ?A"
    by (simp add: boot_airline_def)
  have "map slot_of ?threads = map slot_now (ap_planes ?A)"
    by (rule nth_equalityI) (simp_all add: slot_of_def slot_now_def new_thread_def)
  then have sync: "synced ?A"
    using self(2,3) by (simp add: synced_def airline_start_def)
  have due: "due ?A = 0"
    by (simp add: due_def airline_start_def)
  have "load ?A = 0"
    by (simp add: load_index armed_def engaged_def new_thread_def)
  with due have counted: "counted ?A"
    by (simp add: counted_def airline_start_def)
  have "proc_ok (length (vlist (map_cities m))) (map_product m) a p (cargo_of [self] ! 0 ! p) (ap_planes ?A ! p)"
    if "p < length (airline_planes self)" for p
    using self(4) [OF that] that by (simp add: proc_ok_def thread_ok_def new_thread_def plane_good_def cargo_of_def)
  then have "airline_ok (length (vlist (map_cities m))) (map_product m) a (cargo_of [self] ! 0) ?A"
    using sync counted by (simp add: airline_ok_def cargo_of_def)
  then show ?thesis
    using boot due by (intro exI [of _ ?A]) (auto simp: airline_start_def)
qed

definition fresh_airline :: "(nat \<Rightarrow> bool list) \<Rightarrow> (nat \<Rightarrow> mallocs) \<Rightarrow> nat \<Rightarrow> airline \<Rightarrow> airline_proc \<Rightarrow> bool" where
  "fresh_airline writes allocs a self A \<longleftrightarrow> ap_inbox A = [] \<and> ap_listens A \<and> due A = 0 \<and> al_planesLeft (ap_state A) = 0 \<and>
     ap_planes A = map (\<lambda>p. \<lparr>pp_pc = At_Top,
       pp_thread = (new_thread (int a) (airline_planes self ! p))\<lparr>pt_writes := writes p, pt_allocs := allocs p\<rparr>\<rparr>)
       [0..<length (airline_planes self)]"

lemma boot_airlines_ok:
  assumes "\<And>i. i < length as \<Longrightarrow> airline_good m (a + i) (as ! i)"
  shows "\<exists>As. boot_airlines writes allocs a as = Some As \<and> length As = length as \<and>
    (\<forall>i<length as. airline_ok (length (vlist (map_cities m))) (map_product m) (a + i) (cargo_of as ! i) (As ! i) \<and>
      fresh_airline (writes (a + i)) (allocs (a + i)) (a + i) (as ! i) (As ! i))"
  using assms
proof (induction as arbitrary: a)
  case (Cons self as)
  have "airline_good m a self"
    using Cons.prems [of 0] by simp
  from boot_airline_ok [OF this, of "writes a" "allocs a"] obtain A where A: "boot_airline (writes a) (allocs a) self = Some A"
    "airline_ok (length (vlist (map_cities m))) (map_product m) a (cargo_of [self] ! 0) A"
    "fresh_airline (writes a) (allocs a) a self A"
    unfolding fresh_airline_def by blast
  have "airline_good m (Suc a + i) (as ! i)" if "i < length as" for i
    using Cons.prems [of "Suc i"] that by simp
  from Cons.IH [OF this] obtain As where As: "boot_airlines writes allocs (Suc a) as = Some As" "length As = length as"
    "\<And>i. i < length as \<Longrightarrow> airline_ok (length (vlist (map_cities m))) (map_product m) (Suc a + i) (cargo_of as ! i) (As ! i) \<and>
      fresh_airline (writes (Suc a + i)) (allocs (Suc a + i)) (Suc a + i) (as ! i) (As ! i)"
    by auto
  have "airline_ok (length (vlist (map_cities m))) (map_product m) (a + i) (cargo_of (self # as) ! i) ((A # As) ! i) \<and>
      fresh_airline (writes (a + i)) (allocs (a + i)) (a + i) ((self # as) ! i) ((A # As) ! i)"
    if "i < length (self # as)" for i
    using that A(2,3) As(3) [of "i - 1"] by (cases i) (simp_all add: cargo_of_def)
  then show ?case
    using A(1) As(1,2) by (intro exI [of _ "A # As"]) simp
qed simp

text \<open>The system starts well.\<close>

lemma system_start_ok:
  assumes "sim_wf (ms_map st)" "fleet_good (ms_map st) airlines" "ms_sent st = []"
  shows "\<exists>S. system_start writes allocs airlines st = Some (demand (ms_map st), S) \<and>
    sys_ok (length (vlist (map_cities (ms_map st)))) (map_product (ms_map st)) (cargo_of (vlist airlines)) (demand (ms_map st)) S \<and>
    sy_pc S = M_Turn \<and> sy_inbox S = [] \<and> ms_turn (sy_map S) = 0 \<and> ms_writes (sy_map S) = ms_writes st \<and>
    ms_exits (sy_map S) = ms_exits st \<and> ms_map (sy_map S) = ms_map st \<and> length (sy_airlines S) = length (vlist airlines) \<and>
    (\<forall>a<length (vlist airlines). fresh_airline (writes a) (allocs a) a (vlist airlines ! a) (sy_airlines S ! a))"
proof -
  let ?m = "ms_map st"
  let ?T = "demand ?m"
  let ?n = "length (vlist airlines)"
  note W = sim_wfD(1) [OF assms(1)]
  have inv: "vec_inv airlines" and good: "\<And>a. a < ?n \<Longrightarrow> airline_good ?m a (vlist airlines ! a)"
    using assms(2) by (simp_all add: fleet_good_def)
  have T: "in_int ?T"
    using W by (simp add: map_wf_def demand_def)
  let ?f = "\<lambda>a st. comm_send_airline_status (int (airline_numberOfPlanes a)) (int (airline_numberOfPlanes a)) (airline_id a) st"
  let ?st1 = "fold ?f (vlist airlines) st"
  have st1: "send_airlines_status airlines st = Some ?st1"
    unfolding send_airlines_status_def by (subst vec.scan_fold [OF inv]) simp_all
  have same: "ms_map (fold ?f as s) = ms_map s \<and> ms_sent (fold ?f as s) = ms_sent s \<and> ms_writes (fold ?f as s) = ms_writes s \<and>
      ms_exits (fold ?f as s) = ms_exits s" for as :: "airline list" and s
    by (induction as arbitrary: s) (simp_all add: comm_send_airline_status_def push_output_def)
  have "in_int (?T - demand (ms_map ?st1))"
    using same by (simp add: in_int_def INT_MIN_def INT_MAX_def)
  then obtain msg where st2: "output_map_status ?T ?st1 = Some (push_output msg ?st1)"
    using W same by (auto simp: output_map_status_def send_map_status_def get_map_status_refines Let_def)
  obtain As where As: "boot_airlines writes allocs 0 (vlist airlines) = Some As" "length As = ?n"
    "\<And>i. i < ?n \<Longrightarrow> airline_ok (length (vlist (map_cities ?m))) (map_product ?m) i (cargo_of (vlist airlines) ! i) (As ! i) \<and>
      fresh_airline (writes i) (allocs i) i (vlist airlines ! i) (As ! i)"
    using boot_airlines_ok [of "vlist airlines" ?m 0 writes allocs] good by auto
  let ?S = "\<lparr>sy_pc = M_Turn, sy_map = (push_output msg ?st1)\<lparr>ms_turn := 0\<rparr>, sy_inbox = [], sy_airlines = As\<rparr>"
  have start: "system_start writes allocs airlines st = Some (?T, ?S)"
    using st1 st2 As(1) by (simp add: system_start_def get_map_status_refines [OF W])
  have "total_due As = 0"
    using As by (simp add: total_due_def fresh_airline_def)
  moreover have "length (cargo_of (vlist airlines)) = ?n" "?n < 2147483648"
    using vec_inv_length [OF inv] by (simp_all add: cargo_of_def)
  ultimately have "sys_ok (length (vlist (map_cities ?m))) (map_product ?m) (cargo_of (vlist airlines)) ?T ?S"
    using assms(1,3) T As same by (simp add: sys_ok_def map_good_def pc_ok_def remaining_def push_output_def)
  then show ?thesis
    using start same As by (intro exI [of _ ?S]) (simp add: push_output_def)
qed

end
