(* ===== verification/System_Termination.thy ===== *)
theory System_Termination
  imports System_Invariant
begin

text \<open>
  No run of the system goes on for ever. Every step of the map from phase to phase lowers a rank
  that starts at 3 * 70000 + 2, and every other step lowers the work that is left in the phase: each
  message and each thread is worth more than everything it can lead to.
\<close>

section \<open>The work left\<close>

fun pc_work :: "plane_pc \<Rightarrow> nat" where
  "pc_work At_Top = 1"
| "pc_work At_Phase1 = 8"
| "pc_work At_Stock = 4"
| "pc_work At_Ready1 = 3"
| "pc_work At_Continue = 1"
| "pc_work At_Phase2 = 8"
| "pc_work At_Destinations = 4"
| "pc_work At_Ready2 = 3"
| "pc_work Gone = 0"

definition message_work :: "Message \<Rightarrow> nat" where
  "message_work m = (if msg_type m \<in> {MessageTypeStep, MessageTypeContinue} then 8 else 1)"

definition plane_work :: "plane_proc \<Rightarrow> nat" where
  "plane_work P = pc_work (pp_pc P) + (\<Sum>m \<leftarrow> pt_inbox (pp_thread P). message_work m)"

definition reply_work :: "nat \<Rightarrow> MapMessage \<Rightarrow> nat" where
  "reply_work n msg = (case msg of MM_Type t \<Rightarrow> if t = MessageTypeEnd then 1 + n else 2 + 8 * n | _ \<Rightarrow> 2)"

definition request_work :: "PlaneMessage \<Rightarrow> nat" where
  "request_work msg = (case msg of PM_StockState _ \<Rightarrow> 3 | PM_CheckDestinations _ \<Rightarrow> 3 | _ \<Rightarrow> 1)"

definition airline_work :: "airline_proc \<Rightarrow> nat" where
  "airline_work A = (\<Sum>m \<leftarrow> ap_inbox A. reply_work (length (ap_planes A)) m) + (\<Sum>P \<leftarrow> ap_planes A. plane_work P)"

definition inbox_work :: "PlaneMessage list \<Rightarrow> nat" where
  "inbox_work msgs = (\<Sum>m \<leftarrow> msgs. request_work m)"

definition system_work :: "system_state \<Rightarrow> nat" where
  "system_work S = inbox_work (sy_inbox S) + (\<Sum>a<length (sy_airlines S). airline_work (sy_airlines S ! a))"

text \<open>The phases left.\<close>

definition phase_rank :: "map_pc \<Rightarrow> int \<Rightarrow> nat" where
  "phase_rank pc turn =
     (case pc of
        M_Turn \<Rightarrow> 3 * nat (70000 - turn) + 2
      | M_Phase1 _ \<Rightarrow> 3 * nat (70000 - turn) + 4
      | M_Phase2 _ \<Rightarrow> 3 * nat (70000 - turn) + 3
      | M_Ending \<Rightarrow> 1
      | M_Ended \<Rightarrow> 0)"

definition system_rank :: "system_state \<Rightarrow> nat" where
  "system_rank S = phase_rank (sy_pc S) (ms_turn (sy_map S))"

section \<open>The map\<close>

lemma inbox_work_simps [simp]:
  "inbox_work [] = 0" "inbox_work (m # ms) = request_work m + inbox_work ms" "inbox_work (ms @ ms') = inbox_work ms + inbox_work ms'"
  by (simp_all add: inbox_work_def)

lemma request_work_pos: "1 \<le> request_work m"
  by (simp add: request_work_def split: PlaneMessage.split)

lemma airline_work_inbox [simp]:
  "airline_work (A\<lparr>ap_inbox := ap_inbox A @ msgs\<rparr>) = airline_work A + (\<Sum>m \<leftarrow> msgs. reply_work (length (ap_planes A)) m)"
  by (simp add: airline_work_def)

text \<open>A step of the map goes to the next phase, or does work.\<close>

lemma map_move_work:
  assumes "map_move nc cargo pc st inbox pc' st' inbox'" "next_map st st' new"
  shows "phase_rank pc' (ms_turn st') < phase_rank pc (ms_turn st) \<or>
    phase_rank pc' (ms_turn st') = phase_rank pc (ms_turn st) \<and>
    (new = [] \<or> (\<exists>a msg. new = [(a, msg)] \<and> (\<forall>n. reply_work n msg = 2) \<and> inbox_work inbox = inbox_work inbox' + 3)) \<and>
    inbox_work inbox' < inbox_work inbox"
proof -
  have new: "new = new'" if "next_map st st' new'" for new'
    using that assms(2) by (simp add: next_map_def)
  have pos: "0 < request_work m" for m
    using request_work_pos [of m] by simp
  from assms(1) show ?thesis
  proof (cases rule: map_move.cases)
    case (phase1_unload i ok a reply m)
    then show ?thesis
      using new [OF phase1_unload(5)]
      by (auto simp: phase_rank_def replies_def reply_work_def request_work_def)
  next
    case (phase2_check i ok a reply m)
    then show ?thesis
      using new [OF phase2_check(5)]
      by (auto simp: phase_rank_def replies_def reply_work_def request_work_def)
  next
    case (turn_play k)
    then have "nat (70000 - ms_turn st) = Suc (nat (70000 - ms_turn st'))"
      by simp
    then show ?thesis
      using turn_play by (simp add: phase_rank_def)
  qed (auto simp: phase_rank_def pos dest: new)
qed

definition work_less :: "(system_state \<times> system_state) set" where
  "work_less = measures [system_rank, system_work]"

lemma act_map_work:
  assumes "sys_ok nc ps cargo T S" "act T The_Map S = Returns S'"
  shows "(S', S) \<in> work_less"
proof -
  let ?n = "length cargo"
  note ok = sys_okD [OF assms(1)]
  obtain pc' st' inbox' where r: "map_action (vec_of [0..<?n]) ?n T (sy_pc S) (sy_map S) (sy_inbox S) = Returns (pc', st', inbox')"
    and S': "S' = S\<lparr>sy_pc := pc', sy_map := st'\<lparr>ms_sent := []\<rparr>, sy_inbox := inbox', sy_airlines := deliver (ms_sent st') (sy_airlines S)\<rparr>"
    using assms(2) ok(4)
    by (cases "map_action (vec_of [0..<?n]) ?n T (sy_pc S) (sy_map S) (sy_inbox S)") (auto simp: act.simps)
  have m: "map_move nc cargo (sy_pc S) (sy_map S) (sy_inbox S) pc' st' inbox'"
    using map_action_moves [OF ok(1,6,3)] r by simp
  obtain new where new: "next_map (sy_map S) st' new"
    using map_move_counts [OF m ok(3,6)] by blast
  then have sent: "ms_sent st' = new"
    using ok(2) by (simp add: next_map_def)
  note w = map_move_work [OF m new]
  show ?thesis
  proof (cases "phase_rank pc' (ms_turn st') < phase_rank (sy_pc S) (ms_turn (sy_map S))")
    case True
    then show ?thesis
      by (simp add: work_less_def system_rank_def S')
  next
    case False
    have "system_work S' = inbox_work inbox' + (\<Sum>a<?n. airline_work (sy_airlines S ! a)) +
        (\<Sum>a<?n. \<Sum>m \<leftarrow> sent_to a new. reply_work (length (ap_planes (sy_airlines S ! a))) m)"
      using ok(4) by (simp add: system_work_def S' sent sum.distrib)
    moreover have "(\<Sum>a<?n. \<Sum>m \<leftarrow> sent_to a new. reply_work (length (ap_planes (sy_airlines S ! a))) m) +
        inbox_work inbox' < inbox_work (sy_inbox S)"
    proof (cases "new = []")
      case True
      then show ?thesis
        using w False by simp
    next
      case not_Nil: False
      then obtain a msg where a: "new = [(a, msg)]" "\<And>n. reply_work n msg = 2"
        "inbox_work (sy_inbox S) = inbox_work inbox' + 3"
        using w False by auto
      have "(\<Sum>c<?n. \<Sum>m \<leftarrow> sent_to c new. reply_work (length (ap_planes (sy_airlines S ! c))) m) =
          (\<Sum>c<?n. if c = a then 2 else 0)"
        by (rule sum.cong) (auto simp: a(1,2))
      also have "\<dots> \<le> 2"
        by simp
      finally show ?thesis
        using a(3) by simp
    qed
    ultimately have "system_work S' < system_work S"
      using ok(4) by (simp add: system_work_def)
    then show ?thesis
      using w False by (simp add: work_less_def system_rank_def S')
  qed
qed

section \<open>The airlines\<close>

lemma plane_work_receive: "plane_work (receive ms P) = plane_work P + (\<Sum>m \<leftarrow> ms. message_work m)"
  by (simp add: plane_work_def)

lemma work_all_receive:
  "(\<Sum>P \<leftarrow> all_receive g Ps. plane_work P) = (\<Sum>P \<leftarrow> Ps. plane_work P) + (\<Sum>p<length Ps. \<Sum>m \<leftarrow> g p. message_work m)"
  by (simp add: all_receive_def sum_list_sum_nth atLeast0LessThan plane_work_receive sum.distrib)

lemma tell_work:
  assumes "\<And>m. message_work msg \<le> k"
  shows "(\<Sum>p<length Ps. \<Sum>m \<leftarrow> tell msg Ps p. message_work m) \<le> k * length Ps"
proof -
  have "(\<Sum>m \<leftarrow> tell msg Ps p. message_work m) \<le> k" for p
    using assms by (simp add: tell_def)
  then have "(\<Sum>p<length Ps. \<Sum>m \<leftarrow> tell msg Ps p. message_work m) \<le> (\<Sum>p<length Ps. k)"
    by (intro sum_mono) simp
  then show ?thesis
    by (simp add: mult.commute)
qed

lemma listener_work:
  assumes "airline_ok nc ps a ks A" "listener_action A = Returns (A', sent)"
  shows "airline_work A' + inbox_work sent < airline_work A"
proof (cases "ap_listens A \<and> ap_inbox A \<noteq> []")
  case False
  then show ?thesis
    using assms(2) by (auto simp: listener_action_def split: list.splits)
next
  case True
  then obtain msg inbox where i: "ap_inbox A = msg # inbox" and l: "ap_listens A"
    by (cases "ap_inbox A") auto
  note ok = airline_okD [OF assms(1)]
  let ?Ps = "ap_planes A"
  have msg: "reply_ok nc ks msg"
    using ok(5) i by simp
  show ?thesis
  proof (cases "\<exists>t. msg = MM_Type t")
    case True
    then obtain t where t: "msg = MM_Type t"
      by blast
    show ?thesis
    proof (cases "t = MessageTypeEnd")
      case True
      then have i': "ap_inbox A = MM_Type MessageTypeEnd # inbox"
        using i t by simp
      have "A' = told_to_end inbox A" "sent = []"
        using assms(2) listener_ends [OF ok(1) l i'] by simp_all
      moreover have "(\<Sum>p<length ?Ps. \<Sum>m \<leftarrow> tell (phase_message MessageTypeEnd) ?Ps p. message_work m) \<le> 1 * length ?Ps"
        by (rule tell_work) (simp add: message_work_def)
      ultimately show ?thesis
        using i' by (simp add: told_to_end_def airline_work_def work_all_receive reply_work_def)
    next
      case False
      then have t': "t \<in> {MessageTypeStep, MessageTypeContinue}"
        using msg t by simp
      obtain s where A': "A' = phase_taken s (phase_message t) inbox A"
        and sent: "inbox_work sent \<le> 1"
        using assms(2) listener_phase [OF ok(1) l i [unfolded t] t']
        by (auto simp: request_work_def ready_message_def split: if_splits)
      have "(\<Sum>p<length ?Ps. \<Sum>m \<leftarrow> tell (phase_message t) ?Ps p. message_work m) \<le> 8 * length ?Ps"
        by (rule tell_work) (simp add: message_work_def)
      then show ?thesis
        using i t t' sent by (auto simp: A' phase_taken_def airline_work_def work_all_receive reply_work_def)
    qed
  next
    case False
    then have nt: "msg \<noteq> MM_Type t" for t
      by blast
    obtain p where p: "p < length ks" "addressee msg = int p" "mm_type msg \<in> {MessageTypeUnloadStock, MessageTypeDestinations}"
      "queue_ok nc (ks ! p) (handed_on msg)" "msg_type (handed_on msg) \<in> {MessageTypeStock, MessageTypeDestinations}"
      using reply_addressee [OF msg nt] by blast
    have "listener_action A = Returns (passed_on p (handed_on msg) inbox A, [])"
      using reply_ok_mm_ok [OF msg] p ok(3) by (intro listener_passes_on [OF ok(1) l i _ nt]) simp_all
    then have A': "A' = passed_on p (handed_on msg) inbox A" "sent = []"
      using assms(2) by simp_all
    have "(\<Sum>q<length ?Ps. \<Sum>m \<leftarrow> (if q = p then [handed_on msg] else []). message_work m) = (\<Sum>q<length ?Ps. if q = p then 1 else 0)"
      using p(5) by (intro sum.cong) (auto simp: message_work_def)
    also have "\<dots> \<le> 1"
      by simp
    finally show ?thesis
      using i nt by (auto simp: A' passed_on_def airline_work_def work_all_receive reply_work_def split: MapMessage.split)
  qed
qed

text \<open>A thread.\<close>

lemma plane_work_moved:
  "plane_work \<lparr>pp_pc = pc, pp_thread = th\<lparr>pt_sent := [], pt_ready := 0\<rparr>\<rparr> = plane_work \<lparr>pp_pc = pc, pp_thread = th\<rparr>"
  by (simp add: plane_work_def)

lemma move_work:
  assumes "plane_move nc k pc th pc' th'" "pt_sent th = []" "pt_ready th = 0"
  shows "plane_work \<lparr>pp_pc = pc', pp_thread = th'\<rparr> + inbox_work (pt_sent th') + pt_ready th' < plane_work \<lparr>pp_pc = pc, pp_thread = th\<rparr>"
  using assms
proof cases
  case (move_stop ms d)
  have "(\<Sum>m \<leftarrow> ms. message_work m) \<le> (\<Sum>m \<leftarrow> pt_inbox th. message_work m)"
    using move_stop by (cases "pt_inbox th") auto
  moreover have "0 < pc_work pc"
    using move_stop by (cases pc) auto
  moreover have "pt_inbox th' = ms" "pt_sent th' = []" "pt_ready th' = 0"
    using plain_fields [of th' "th\<lparr>pt_inbox := ms, pt_done := d\<rparr>"] move_stop assms(2,3) by simp_all
  ultimately show ?thesis
    using move_stop(1) by (simp add: plane_work_def)
qed (auto dest!: plain_fields simp: plane_work_def message_work_def request_work_def set_stocks_def set_destination_def)

lemma thread_work:
  assumes "airline_ok nc ps a ks A" "thread_action p A = Returns (A', sent)"
  shows "airline_work A' + inbox_work sent < airline_work A"
proof (cases "p < length ks")
  case False
  then show ?thesis
    using assms(2) airline_okD(3) [OF assms(1)] by (simp add: thread_action_def)
next
  case True
  note ok = airline_okD [OF assms(1)]
  let ?P = "ap_planes A ! p"
  have P: "pt_sent (pp_thread ?P) = []" "pt_ready (pp_thread ?P) = 0"
    using ok(4) [OF True] by (simp_all add: proc_ok_def)
  show ?thesis
  proof (cases rule: thread_action_cases [OF assms(1) True, case_names waits moves])
    case waits
    then show ?thesis
      using assms(2) by simp
  next
    case (moves pc th)
    have p: "p < length (map plane_work (ap_planes A))"
      using True ok(3) by simp
    have w: "plane_work \<lparr>pp_pc = pc, pp_thread = th\<rparr> + inbox_work (pt_sent th) + pt_ready th < plane_work ?P"
      using move_work [OF moves(1) P] by simp
    have "airline_work (moved p pc th A) + plane_work ?P = airline_work A + plane_work \<lparr>pp_pc = pc, pp_thread = th\<rparr>"
      using p elem_le_sum_list [OF p] by (simp add: airline_work_def moved_def Let_def map_update sum_list_update plane_work_moved)
    moreover have "airline_work (reported B) = airline_work B" for B
      by (simp add: airline_work_def reported_def)
    moreover have "inbox_work (report B) \<le> 1" for B
      by (simp add: report_def request_work_def ready_message_def)
    note facts = this calculation
    show ?thesis
    proof (cases "pt_ready th = 0")
      case True
      then show ?thesis
        using w assms(2) moves(3) facts by simp
    next
      case False
      then have "A' = reported (moved p pc th A)" "sent = pt_sent th @ report (moved p pc th A)" "pt_ready th = 1"
        using assms(2) moves(3,4) by auto
      then show ?thesis
        using w facts(1) [of "moved p pc th A"] facts(2,3) by simp
    qed
  qed
qed

lemma airline_acts_work:
  assumes "sys_ok nc ps cargo T S" "airline_acts a f S = Returns S'"
    and "\<And>A' sent. f (sy_airlines S ! a) = Returns (A', sent) \<Longrightarrow> a < length cargo \<Longrightarrow>
      airline_work A' + inbox_work sent < airline_work (sy_airlines S ! a)"
  shows "(S', S) \<in> work_less"
proof -
  note ok = sys_okD [OF assms(1)]
  have a: "a < length cargo"
    using assms(2) ok(4) by (simp split: if_splits)
  then obtain A' sent where f: "f (sy_airlines S ! a) = Returns (A', sent)"
    and S': "S' = S\<lparr>sy_airlines := (sy_airlines S)[a := A'], sy_inbox := sy_inbox S @ sent\<rparr>"
    using assms(2) ok(4) by (cases "f (sy_airlines S ! a)") auto
  have "system_work S' + airline_work (sy_airlines S ! a) = system_work S + airline_work A' + inbox_work sent"
    using a ok(4) by (simp add: system_work_def S' sum.remove [of "{..<length cargo}" a])
  then have "system_work S' < system_work S"
    using assms(3) [OF f a] by simp
  then show ?thesis
    by (simp add: work_less_def system_rank_def S')
qed

section \<open>No run goes on for ever\<close>

lemma act_work:
  assumes "sys_ok nc ps cargo T S" "act T x S = Returns S'"
  shows "(S', S) \<in> work_less"
proof (cases x)
  case The_Map
  then show ?thesis
    using act_map_work [OF assms(1)] assms(2) by simp
next
  case (Listener a)
  then show ?thesis
    using assms(2) listener_work [OF sys_okD(5) [OF assms(1)]]
    by (intro airline_acts_work [OF assms(1), of a listener_action S']) (auto simp only: act.simps)
next
  case (Plane a p)
  then show ?thesis
    using assms(2) thread_work [OF sys_okD(5) [OF assms(1)]]
    by (intro airline_acts_work [OF assms(1), of a "thread_action p" S']) (auto simp only: act.simps)
qed

lemma no_infinite_run:
  assumes "sys_ok nc ps cargo T (f 0)" "\<And>i. \<exists>x. act T x (f i) = Returns (f (Suc i))"
  shows False
proof -
  have ok: "sys_ok nc ps cargo T (f i)" for i
  proof (induction i)
    case (Suc i)
    obtain x where "act T x (f i) = Returns (f (Suc i))"
      using assms(2) by blast
    then show ?case
      using act_ok [OF Suc, of x] by simp
  qed (rule assms(1))
  have "wf work_less"
    by (simp add: work_less_def)
  moreover have "(f (Suc i), f i) \<in> work_less" for i
    using act_work [OF ok] assms(2) by blast
  ultimately show False
    by (auto simp: wf_iff_no_infinite_down_chain)
qed

end
