(* ===== verification/System_Progress.thy ===== *)
theory System_Progress
  imports System_Termination
begin

text \<open>
  Without failing calls and writes the system is never stuck before everything has ended: in every
  reachable state some process can go on, or all airlines have been told to end and all threads
  have left.

  The invariant of this theory says exactly where everybody is. A phase is named by its message,
  \<open>MessageTypeStep\<close> or \<open>MessageTypeContinue\<close>. A plane works in the phase until it reports and then
  rests; while it waits for an answer, its request, the map's reply or the message handed on exists
  exactly once.
\<close>

section \<open>Where a plane is\<close>

text \<open>After its report in phase \<open>t\<close>, or done.\<close>

definition resting :: "MessageType \<Rightarrow> plane_proc \<Rightarrow> bool" where
  "resting t P \<longleftrightarrow> pt_inbox (pp_thread P) = [] \<and>
     (if pt_done (pp_thread P) then pp_pc P \<in> {Gone, At_Top}
      else pp_pc P = (if t = MessageTypeStep then At_Continue else At_Top))"

text \<open>The point at which a plane waits for its answer, and the type of the answer.\<close>

definition asking :: "MessageType \<Rightarrow> plane_pc" where
  "asking t = (if t = MessageTypeStep then At_Stock else At_Destinations)"

definition answer_type :: "MessageType \<Rightarrow> MessageType" where
  "answer_type t = (if t = MessageTypeStep then MessageTypeStock else MessageTypeDestinations)"

definition working :: "MessageType \<Rightarrow> plane_proc \<Rightarrow> bool" where
  "working t P \<longleftrightarrow>
     (\<not> pt_done (pp_thread P) \<and> pp_pc P = (if t = MessageTypeStep then At_Top else At_Continue) \<and>
       pt_inbox (pp_thread P) = [phase_message t]) \<or>
     (pp_pc P \<in> (if t = MessageTypeStep then {At_Phase1, At_Ready1} else {At_Phase2, At_Ready2}) \<and> pt_inbox (pp_thread P) = []) \<or>
     (pp_pc P = asking t \<and> (pt_inbox (pp_thread P) = [] \<or> (\<exists>m. pt_inbox (pp_thread P) = [m] \<and> msg_type m = answer_type t)))"

text \<open>Told to end.\<close>

definition leaving :: "plane_proc \<Rightarrow> bool" where
  "leaving P \<longleftrightarrow> pp_pc P = Gone \<or> pp_pc P = At_Top \<and>
     (if pt_done (pp_thread P) then pt_inbox (pp_thread P) = [] else pt_inbox (pp_thread P) = [phase_message MessageTypeEnd])"

abbreviation phase_type :: "MessageType \<Rightarrow> bool" where
  "phase_type t \<equiv> t \<in> {MessageTypeStep, MessageTypeContinue}"

lemma armed_working: "phase_type t \<Longrightarrow> working t P \<Longrightarrow> armed P = 1"
  by (auto simp: working_def armed_def engaged_def asking_def answer_type_def split: if_splits)

lemma armed_resting: "resting t P \<Longrightarrow> armed P = 0"
  by (auto simp: resting_def armed_def engaged_def split: if_splits)

section \<open>Requests and answers\<close>

text \<open>Requests of plane \<open>p\<close> of airline \<open>a\<close>, replies for plane \<open>p\<close>, answers in a queue, in phase \<open>t\<close>.\<close>

fun asks :: "MessageType \<Rightarrow> nat \<Rightarrow> nat \<Rightarrow> PlaneMessage \<Rightarrow> bool" where
  "asks t a p (PM_StockState m) \<longleftrightarrow> t = MessageTypeStep \<and> hdr_airline (ss_header m) = int a \<and> hdr_id (ss_header m) = int p"
| "asks t a p (PM_CheckDestinations m) \<longleftrightarrow> t = MessageTypeContinue \<and> hdr_airline (cd_header m) = int a \<and> hdr_id (cd_header m) = int p"
| "asks t a p _ \<longleftrightarrow> False"

fun replies_to :: "MessageType \<Rightarrow> nat \<Rightarrow> MapMessage \<Rightarrow> bool" where
  "replies_to t p (MM_Stock m) \<longleftrightarrow> t = MessageTypeStep \<and> hdr_id (ss_header m) = int p"
| "replies_to t p (MM_Destinations m) \<longleftrightarrow> t = MessageTypeContinue \<and> dm_planeId m = int p"
| "replies_to t p _ \<longleftrightarrow> False"

definition num_asks :: "MessageType \<Rightarrow> nat \<Rightarrow> nat \<Rightarrow> PlaneMessage list \<Rightarrow> nat" where
  "num_asks t a p msgs = length (filter (asks t a p) msgs)"

definition num_replies :: "MessageType \<Rightarrow> nat \<Rightarrow> MapMessage list \<Rightarrow> nat" where
  "num_replies t p msgs = length (filter (replies_to t p) msgs)"

definition num_answers :: "MessageType \<Rightarrow> Message list \<Rightarrow> nat" where
  "num_answers t msgs = length (filter (\<lambda>m. msg_type m = answer_type t) msgs)"

lemma num_simps [simp]:
  "num_asks t a p [] = 0" "num_asks t a p (x # xs) = (if asks t a p x then 1 else 0) + num_asks t a p xs"
  "num_asks t a p (xs @ xs') = num_asks t a p xs + num_asks t a p xs'"
  "num_replies t p [] = 0" "num_replies t p (y # ys) = (if replies_to t p y then 1 else 0) + num_replies t p ys"
  "num_replies t p (ys @ ys') = num_replies t p ys + num_replies t p ys'"
  "num_answers t [] = 0" "num_answers t (m # ms) = (if msg_type m = answer_type t then 1 else 0) + num_answers t ms"
  "num_answers t (ms @ ms') = num_answers t ms + num_answers t ms'"
  by (simp_all add: num_asks_def num_replies_def num_answers_def)

definition awaits :: "MessageType \<Rightarrow> plane_pc \<Rightarrow> nat" where
  "awaits t pc = (if pc = asking t then 1 else 0)"

text \<open>A plane that waits for an answer has exactly one under way.\<close>

definition one_answer :: "nat \<Rightarrow> PlaneMessage list \<Rightarrow> airline_proc \<Rightarrow> bool" where
  "one_answer a inbox A \<longleftrightarrow> (\<forall>t p. phase_type t \<longrightarrow> p < length (ap_planes A) \<longrightarrow>
     num_asks t a p inbox + num_replies t p (ap_inbox A) + num_answers t (pt_inbox (pp_thread (ap_planes A ! p))) =
     awaits t (pp_pc (ap_planes A ! p)))"

section \<open>Moves of a plane without failures\<close>

lemma waiting_blocks: "waiting pc th \<Longrightarrow> pc = Gone \<or> plane_action pc th = Blocks"
  by (cases pc) (auto simp: waiting_def wait_step_def comm_step_def and_then_def pop_message_def end_unload_def take_stock_def
      end_check_def take_destinations_def wait_continue_def SafeExit_def CHECK_EXIT_def SafeAction_def peek_end_def comm_continue_def
      split: prod.splits)

text \<open>
  A resting plane can only leave; a working plane goes on working, or reports and rests. What it
  asks and what it takes balances.
\<close>

lemma move_resting:
  assumes "plane_move nc k pc th pc' th'" "resting t \<lparr>pp_pc = pc, pp_thread = th\<rparr>" "quiet th" "\<not> waiting pc th"
  shows "pc = At_Top \<and> pt_done th \<and> pc' = Gone \<and> plain th' = plain th"
proof -
  have top: "pc = At_Top" "pt_done th" "pt_inbox th = []"
    using assms(2,4) by (auto simp: resting_def waiting_def split: if_splits)
  from assms(1) show ?thesis
    using top assms(3) by cases (auto simp: expects_def)
qed

definition worked :: "MessageType \<Rightarrow> nat \<Rightarrow> nat \<Rightarrow> plane_pc \<Rightarrow> plane_thread \<Rightarrow> plane_pc \<Rightarrow> plane_thread \<Rightarrow> bool" where
  "worked t a p pc th pc' th' \<longleftrightarrow>
     (pt_ready th' = 0 \<and> working t \<lparr>pp_pc = pc', pp_thread = th'\<rparr> \<or>
      pt_ready th' = 1 \<and> resting t \<lparr>pp_pc = pc', pp_thread = th'\<rparr> \<and> pt_sent th' = []) \<and>
     (\<forall>u. phase_type u \<longrightarrow> awaits u pc' + num_answers u (pt_inbox th) =
        awaits u pc + num_answers u (pt_inbox th') + num_asks u a p (pt_sent th')) \<and>
     (\<forall>b q u. (b, q) \<noteq> (a, p) \<longrightarrow> num_asks u b q (pt_sent th') = 0)"

lemmas work_defs = worked_def working_def resting_def awaits_def asking_def answer_type_def

lemma move_working:
  assumes "plane_move nc k pc th pc' th'" "working t \<lparr>pp_pc = pc, pp_thread = th\<rparr>" "quiet th" "\<not> waiting pc th" "phase_type t"
    and th: "pt_sent th = []" "pt_ready th = 0" "pt_airline th = int a" "plane_id (pt_plane th) = int p"
  shows "worked t a p pc th pc' th'"
  using assms(1)
proof (cases rule: plane_move.cases)
  case (move_stop ms d)
  then have "\<not> expects pc th"
    using assms(3) by simp
  then show ?thesis
    using assms(2,4,5) by (auto simp: working_def waiting_def expects_def head_type_def asking_def answer_type_def split: if_splits)
next
  case move_over
  then show ?thesis
    using assms(2,5) by (auto simp: working_def asking_def split: if_splits)
next
  case (move_step m ms)
  then have "t = MessageTypeStep" "ms = []" "pt_inbox th' = []" "pt_sent th' = []" "pt_ready th' = 0"
    using assms(2,5) th plain_fields [OF move_step(6)] by (auto simp: working_def asking_def split: if_splits)
  then show ?thesis
    using move_step(1-5) by (simp add: work_defs)
next
  case move_ask
  then have "t = MessageTypeStep" "pt_inbox th = []" "pt_inbox th' = []" "pt_sent th' = [PM_StockState (unload_request th)]" "pt_ready th' = 0"
    using assms(2,5) th plain_fields [OF move_ask(4)] by (auto simp: working_def asking_def split: if_splits)
  then show ?thesis
    using move_ask(1-3) th by (auto simp add: work_defs unload_request_def prepare_header_def)
next
  case move_skip
  then have "t = MessageTypeStep" "pt_inbox th = []" "pt_inbox th' = []" "pt_sent th' = []" "pt_ready th' = 0"
    using assms(2,5) th plain_fields [OF move_skip(3)] by (auto simp: working_def asking_def split: if_splits)
  then show ?thesis
    using move_skip(1,2) by (simp add: work_defs)
next
  case (move_unload as ms ss)
  then have "t = MessageTypeStep" "ms = []" "pt_inbox th' = []" "pt_sent th' = []" "pt_ready th' = 0"
    using assms(2,5) th plain_fields [OF move_unload(6)] by (auto simp: working_def asking_def set_stocks_def split: if_splits)
  then show ?thesis
    using move_unload(1-5) by (simp add: work_defs)
next
  case move_ready1
  then have "t = MessageTypeStep" "pt_inbox th = []" "pt_inbox th' = []" "pt_sent th' = []" "pt_ready th' = 1" "pt_done th' = pt_done th"
    using assms(2,5) th plain_fields [OF move_ready1(3)] by (auto simp: working_def asking_def split: if_splits)
  then show ?thesis
    using move_ready1(1,2) by (simp add: work_defs)
next
  case (move_continue m ms)
  then have "t = MessageTypeContinue" "ms = []" "pt_inbox th' = []" "pt_sent th' = []" "pt_ready th' = 0"
    using assms(2,5) th plain_fields [OF move_continue(5)] by (auto simp: working_def asking_def split: if_splits)
  then show ?thesis
    using move_continue(1-4) by (simp add: work_defs)
next
  case move_check
  then have "t = MessageTypeContinue" "pt_inbox th = []" "pt_inbox th' = []" "pt_sent th' = [PM_CheckDestinations (check_request th)]" "pt_ready th' = 0"
    using assms(2,5) th plain_fields [OF move_check(4)] by (auto simp: working_def asking_def split: if_splits)
  then show ?thesis
    using move_check(1-3) th by (auto simp add: work_defs check_request_def prepare_header_def)
next
  case move_fly
  then have "t = MessageTypeContinue" "pt_inbox th = []" "pt_inbox th' = []" "pt_sent th' = []" "pt_ready th' = 0"
    using assms(2,5) th plain_fields [OF move_fly(4)] by (auto simp: working_def asking_def split: if_splits)
  then show ?thesis
    using move_fly(1,2) by (simp add: work_defs)
next
  case (move_nowhere ms)
  then have "t = MessageTypeContinue" "ms = []" "pt_inbox th' = []" "pt_sent th' = []" "pt_ready th' = 0"
    using assms(2,5) th plain_fields [OF move_nowhere(4)] by (auto simp: working_def asking_def split: if_splits)
  then show ?thesis
    using move_nowhere(1-3) by (simp add: work_defs)
next
  case (move_choose c cs ms)
  then have "t = MessageTypeContinue" "ms = []" "pt_inbox th' = []" "pt_sent th' = []" "pt_ready th' = 0"
    using assms(2,5) th plain_fields [OF move_choose(5)] by (auto simp: working_def asking_def set_destination_def split: if_splits)
  then show ?thesis
    using move_choose(1-4) by (simp add: work_defs)
next
  case move_ready2
  then have "t = MessageTypeContinue" "pt_inbox th = []" "pt_inbox th' = []" "pt_sent th' = []" "pt_ready th' = 1" "pt_done th' = pt_done th"
    using assms(2,5) th plain_fields [OF move_ready2(3)] by (auto simp: working_def asking_def split: if_splits)
  then show ?thesis
    using move_ready2(1,2) by (simp add: work_defs)
qed

section \<open>Airlines without failures\<close>

definition other :: "MessageType \<Rightarrow> MessageType" where
  "other t = (if t = MessageTypeStep then MessageTypeContinue else MessageTypeStep)"

text \<open>Told of phase \<open>t\<close> and not yet begun.\<close>

definition told :: "MessageType \<Rightarrow> airline_proc \<Rightarrow> bool" where
  "told t A \<longleftrightarrow> ap_inbox A = [MM_Type t] \<and> al_planesLeft (ap_state A) = 0 \<and> list_all (resting (other t)) (ap_planes A)"

definition at_phase :: "MessageType \<Rightarrow> airline_proc \<Rightarrow> bool" where
  "at_phase t A \<longleftrightarrow> (\<forall>u. MM_Type u \<notin> set (ap_inbox A)) \<and> al_planesLeft (ap_state A) = int (load A) \<and>
     (0 < al_planesLeft (ap_state A) \<longrightarrow> al_stage (ap_state A) = (if t = MessageTypeStep then 0 else 1)) \<and>
     list_all (\<lambda>P. working t P \<or> resting t P) (ap_planes A)"

lemma at_phaseI:
  assumes "\<And>u. MM_Type u \<notin> set (ap_inbox A)" "al_planesLeft (ap_state A) = int (load A)"
    and "0 < al_planesLeft (ap_state A) \<Longrightarrow> al_stage (ap_state A) = (if t = MessageTypeStep then 0 else 1)"
    and "\<And>q. q < length (ap_planes A) \<Longrightarrow> working t (ap_planes A ! q) \<or> resting t (ap_planes A ! q)"
  shows "at_phase t A"
  using assms by (auto simp: at_phase_def list_all_length)

definition quiet_airline :: "airline_proc \<Rightarrow> bool" where
  "quiet_airline A \<longleftrightarrow> list_all (\<lambda>P. quiet (pp_thread P)) (ap_planes A)"

definition live_airline :: "MessageType \<Rightarrow> airline_proc \<Rightarrow> bool" where
  "live_airline t A \<longleftrightarrow> ap_listens A \<and> quiet_airline A \<and> (told t A \<or> at_phase t A)"

definition report_type :: "MessageType \<Rightarrow> MessageType" where
  "report_type t = (if t = MessageTypeStep then MessageTypeAirlineDone else MessageTypeAirlineStatus)"

text \<open>The reports are those of phase \<open>t\<close>.\<close>

definition kind_ok :: "MessageType \<Rightarrow> PlaneMessage list \<Rightarrow> bool" where
  "kind_ok t msgs \<longleftrightarrow> (\<forall>m\<in>set msgs. pm_type m \<in> {MessageTypeAirlineDone, MessageTypeAirlineStatus} \<longrightarrow> pm_type m = report_type t)"

definition airline_lives :: "MessageType \<Rightarrow> nat \<Rightarrow> PlaneMessage list \<Rightarrow> airline_proc \<Rightarrow> (airline_proc \<times> PlaneMessage list) outcome \<Rightarrow> bool" where
  "airline_lives t a inbox A r \<longleftrightarrow>
     (case r of
        Returns (A', sent) \<Rightarrow> live_airline t A' \<and> one_answer a (inbox @ sent) A' \<and>
          (\<forall>u b q. b \<noteq> a \<longrightarrow> num_asks u b q sent = 0) \<and> kind_ok t sent \<and> due A' + reports sent = due A
      | _ \<Rightarrow> True)"

lemma kind_ok_simps [simp]:
  "kind_ok t []" "kind_ok t (m # ms) \<longleftrightarrow> (pm_type m \<in> {MessageTypeAirlineDone, MessageTypeAirlineStatus} \<longrightarrow> pm_type m = report_type t) \<and> kind_ok t ms"
  "kind_ok t (ms @ ms') \<longleftrightarrow> kind_ok t ms \<and> kind_ok t ms'"
  by (auto simp: kind_ok_def)

lemma ready_message_kind:
  "phase_type t \<Longrightarrow> al_stage st = (if t = MessageTypeStep then 0 else 1) \<Longrightarrow> kind_ok t [ready_message st]"
  "num_asks u b q [ready_message st] = 0"
  by (auto simp: ready_message_def report_type_def)

lemma quiet_receive [simp]: "quiet (pp_thread (receive ms P)) = quiet (pp_thread P)"
  by (simp add: receive_def quiet_def)

lemma quiet_all_receive: "list_all (\<lambda>P. quiet (pp_thread P)) (all_receive g Ps) = list_all (\<lambda>P. quiet (pp_thread P)) Ps"
  by (simp add: list_all_length)

text \<open>A resting plane that is told of the other phase.\<close>

lemma resting_told:
  assumes "resting (other t) P" "phase_type t"
  shows "if pt_done (pp_thread P) then resting t P else working t (receive [phase_message t] P)"
    "pt_done (pp_thread P) \<or> pp_pc P \<noteq> Gone"
  using assms by (auto simp: resting_def working_def other_def split: if_splits)

lemma phase_message_count [simp]:
  "phase_type t \<Longrightarrow> phase_count [phase_message t] = 1" "num_answers u [phase_message t] = (if t = answer_type u then 1 else 0)"
  by simp_all

lemma phase_taken_live:
  assumes "told t A" "phase_type t" "ap_listens A" "quiet_airline A"
  defines "s \<equiv> (if t = MessageTypeStep then 0 else 1)"
  shows "live_airline t (phase_taken s (phase_message t) [] A)"
    "one_answer a inbox A \<Longrightarrow> one_answer a inbox (phase_taken s (phase_message t) [] A)"
proof -
  let ?A = "phase_taken s (phase_message t) [] A" and ?Ps = "ap_planes A"
  let ?g = "tell (phase_message t) ?Ps"
  have rest: "resting (other t) (?Ps ! p)" if "p < length ?Ps" for p
    using assms(1) that by (simp add: told_def list_all_length)
  have now: "working t (ap_planes ?A ! p) \<or> resting t (ap_planes ?A ! p)"
    "armed (ap_planes ?A ! p) = (if pt_done (pp_thread (?Ps ! p)) then 0 else 1)" if "p < length ?Ps" for p
    using resting_told [OF rest [OF that] assms(2)] armed_resting [of t "?Ps ! p"] armed_working [OF assms(2), of "receive [phase_message t] (?Ps ! p)"] that
    by (auto simp: phase_taken_def tell_def)
  have "load ?A = flying (map slot_now ?Ps)"
    unfolding load_index flying_index using now(2) by (simp add: phase_taken_def)
  moreover have fields: "ap_inbox ?A = []" "al_planesLeft (ap_state ?A) = int (flying (map slot_now ?Ps))" "al_stage (ap_state ?A) = s"
    "ap_listens ?A" "length (ap_planes ?A) = length ?Ps" "ap_planes ?A = all_receive ?g ?Ps"
    using assms(3) by (simp_all add: phase_taken_def)
  ultimately have "at_phase t ?A"
    using now(1) by (simp add: at_phase_def list_all_length fields(1,2,3,5) s_def)
  moreover have "quiet_airline ?A"
    using assms(4) by (simp add: quiet_airline_def fields(6) quiet_all_receive)
  ultimately show "live_airline t ?A"
    using fields(4) by (simp add: live_airline_def)
  assume one: "one_answer a inbox A"
  have "num_replies u p (ap_inbox A) = 0" for u p
    using assms(1) by (simp add: told_def)
  then show "one_answer a inbox ?A"
    using one assms(2) by (auto simp: one_answer_def phase_taken_def tell_def answer_type_def)
qed

text \<open>A reply that is handed on finds its plane waiting.\<close>

lemma reply_for:
  assumes "reply_ok nc ks msg" "\<And>t. msg \<noteq> MM_Type t"
  shows "\<exists>p u. p < length ks \<and> addressee msg = int p \<and> mm_type msg \<in> {MessageTypeUnloadStock, MessageTypeDestinations} \<and>
    phase_type u \<and> msg_type (handed_on msg) = answer_type u \<and> (\<forall>v q. replies_to v q msg \<longleftrightarrow> v = u \<and> q = p)"
proof (cases msg)
  case (MM_Stock m)
  then obtain p where "p < length ks" "hdr_id (ss_header m) = int p" "hdr_type (ss_header m) = MessageTypeUnloadStock"
    using assms(1) by auto
  then show ?thesis
    using MM_Stock by (intro exI [of _ p] exI [of _ MessageTypeStep]) (auto simp: handed_on_def answer_type_def)
next
  case (MM_Destinations m)
  then obtain p cs where "p < length ks" "m = destinations_message (int p) cs"
    using assms(1) by auto
  then show ?thesis
    using MM_Destinations by (intro exI [of _ p] exI [of _ MessageTypeContinue]) (auto simp: answer_type_def)
qed (use assms(2) in simp)

lemma awaits_asking: "phase_type t \<Longrightarrow> phase_type u \<Longrightarrow> working t P \<or> resting t P \<Longrightarrow> pp_pc P = asking u \<Longrightarrow> working t P \<and> t = u"
  by (auto simp: working_def resting_def asking_def split: if_splits)

lemma working_asking: "phase_type t \<Longrightarrow> working t P \<Longrightarrow> pp_pc P = asking t \<Longrightarrow> num_answers t (pt_inbox (pp_thread P)) = 0 \<Longrightarrow>
    pt_inbox (pp_thread P) = []"
  by (auto simp: working_def asking_def split: if_splits)

lemma passed_on_live:
  assumes "at_phase t A" "phase_type t" "ap_listens A" "quiet_airline A" "one_answer a inbox A"
    and i: "ap_inbox A = msg # msgs" and p: "p < length (ap_planes A)" "phase_type u" "msg_type (handed_on msg) = answer_type u"
    and to: "\<And>v q. replies_to v q msg \<longleftrightarrow> v = u \<and> q = p"
  shows "live_airline t (passed_on p (handed_on msg) msgs A)" "one_answer a inbox (passed_on p (handed_on msg) msgs A)"
proof -
  let ?A = "passed_on p (handed_on msg) msgs A" and ?Ps = "ap_planes A"
  let ?g = "\<lambda>q. if q = p then [handed_on msg] else []"
  have one: "num_asks v a q inbox + num_replies v q (ap_inbox A) + num_answers v (pt_inbox (pp_thread (?Ps ! q))) = awaits v (pp_pc (?Ps ! q))"
    if "phase_type v" "q < length ?Ps" for v q
    using assms(5) that unfolding one_answer_def by blast
  have "pp_pc (?Ps ! p) = asking u" "num_answers u (pt_inbox (pp_thread (?Ps ! p))) = 0"
    using one [OF p(2,1)] to [of u p] by (auto simp: i awaits_def split: if_splits)
  moreover have wr: "working t (?Ps ! q) \<or> resting t (?Ps ! q)" if "q < length ?Ps" for q
    using assms(1) that by (simp add: at_phase_def list_all_length)
  ultimately have w: "working t (?Ps ! p)" "u = t" "pt_inbox (pp_thread (?Ps ! p)) = []" "pp_pc (?Ps ! p) = asking t"
    using awaits_asking [OF assms(2) p(2) wr [OF p(1)]] working_asking [OF assms(2), of "?Ps ! p"] by auto
  have now: "working t (ap_planes ?A ! q) \<or> resting t (ap_planes ?A ! q)" if "q < length ?Ps" for q
    using wr [OF that] w p(3) that by (auto simp: passed_on_def working_def)
  have "phase_count [handed_on msg] = 0"
    using p(3) by (auto simp: answer_type_def)
  then have "armed (ap_planes ?A ! q) = armed (?Ps ! q)" if "q < length ?Ps" for q
    using that by (simp add: passed_on_def armed_receive)
  then have "load ?A = load A"
    by (simp add: load_index) (simp add: passed_on_def)
  moreover have "MM_Type v \<notin> set msgs" for v
    using assms(1) i by (simp add: at_phase_def)
  moreover have fields: "ap_inbox ?A = msgs" "ap_state ?A = ap_state A" "ap_listens ?A = ap_listens A" "length (ap_planes ?A) = length ?Ps"
    "ap_planes ?A = all_receive ?g ?Ps"
    by (simp_all add: passed_on_def)
  ultimately have "at_phase t ?A"
    using now assms(1) by (simp add: at_phase_def list_all_length fields(1-4))
  moreover have "quiet_airline ?A"
    using assms(4) by (simp add: quiet_airline_def fields(5) quiet_all_receive)
  ultimately show "live_airline t ?A"
    using assms(3) fields(3) by (simp add: live_airline_def)
  have "num_asks v a q inbox + num_replies v q msgs + num_answers v (pt_inbox (pp_thread (?Ps ! q)) @ ?g q) = awaits v (pp_pc (?Ps ! q))"
    if "phase_type v" "q < length ?Ps" for v q
    using one [OF that] to [of v q] p(2,3) that(1) by (auto simp: i answer_type_def split: if_splits)
  then show "one_answer a inbox ?A"
    by (simp add: one_answer_def fields(1,5))
qed

lemma listener_live:
  assumes "airline_ok nc ps a ks A" "live_airline t A" "phase_type t" "one_answer a inbox A"
  shows "airline_lives t a inbox A (listener_action A)"
proof (cases "ap_inbox A")
  case Nil
  then show ?thesis
    by (simp add: listener_action_def airline_lives_def)
next
  case (Cons msg msgs)
  note ok = airline_okD [OF assms(1)]
  have l: "ap_listens A" "quiet_airline A"
    using assms(2) by (simp_all add: live_airline_def)
  have msg: "reply_ok nc ks msg"
    using ok(5) Cons by simp
  show ?thesis
  proof (cases "told t A")
    case True
    then have i: "ap_inbox A = MM_Type t # []"
      by (simp add: told_def)
    let ?s = "if t = MessageTypeStep then 0 else 1"
    note r = listener_phase [OF ok(1) l(1) i assms(3)] and d = listener_phase_ok(2) [OF assms(1) i assms(3)]
      listener_phase_ok(3) [OF assms(1) i assms(3), where s = ?s]
    have "reports [ready_message st] = 1" for st
      by (rule ready_message_report)
    moreover have "kind_ok t [ready_message ((ap_state A)\<lparr>al_stage := ?s\<rparr>)]"
      using assms(3) by (intro ready_message_kind) auto
    moreover have "one_answer a (inbox @ [ready_message st]) B = one_answer a inbox B" for st B
      by (simp add: one_answer_def ready_message_def)
    ultimately show ?thesis
      using phase_taken_live [OF True assms(3) l] assms(4) d
      by (auto simp: airline_lives_def r ready_message_kind(2) simp del: count_simps(8) kind_ok_simps(2) num_simps(2))
  next
    case False
    then have at: "at_phase t A"
      using assms(2) by (simp add: live_airline_def)
    then have nt: "msg \<noteq> MM_Type u" for u
      using Cons by (auto simp: at_phase_def)
    obtain p u where p: "p < length ks" "addressee msg = int p" "mm_type msg \<in> {MessageTypeUnloadStock, MessageTypeDestinations}"
      "phase_type u" "msg_type (handed_on msg) = answer_type u" "\<And>v q. replies_to v q msg \<longleftrightarrow> v = u \<and> q = p"
      using reply_for [OF msg nt] by blast
    have r: "listener_action A = Returns (passed_on p (handed_on msg) msgs A, [])"
      using reply_ok_mm_ok [OF msg] p ok(3) by (intro listener_passes_on [OF ok(1) l(1) Cons _ nt]) simp_all
    have "due (passed_on p (handed_on msg) msgs A) = due A"
      using p(3) by (auto simp: passed_on_def due_def Cons)
    then show ?thesis
      using passed_on_live [OF at assms(3) l assms(4) Cons _ p(4-6)] p(1) ok(3) by (simp add: airline_lives_def r)
  qed
qed

text \<open>A thread.\<close>

lemma thread_live:
  assumes "airline_ok nc ps a ks A" "live_airline t A" "phase_type t" "one_answer a inbox A"
  shows "airline_lives t a inbox A (thread_action p A)"
proof (cases "p < length ks")
  case False
  then show ?thesis
    using airline_okD(3) [OF assms(1)] by (simp add: thread_action_def airline_lives_def)
next
  case True
  let ?Ps = "ap_planes A"
  let ?P = "?Ps ! p"
  note ok = airline_okD [OF assms(1)]
  have p: "p < length ?Ps"
    using True ok(3) by simp
  have P: "pt_sent (pp_thread ?P) = []" "pt_ready (pp_thread ?P) = 0" "pt_airline (pp_thread ?P) = int a" "plane_id (pt_plane (pp_thread ?P)) = int p"
    using ok(4) [OF True] by (simp_all add: proc_ok_def thread_ok_def)
  have l: "ap_listens A" "quiet_airline A"
    using assms(2) by (simp_all add: live_airline_def)
  show ?thesis
  proof (cases rule: thread_action_cases [OF assms(1) True, case_names waits moves])
    case waits
    then show ?thesis
      by (simp add: airline_lives_def)
  next
    case (moves pc th)
    let ?A = "moved p pc th A"
    have "quiet (pp_thread ?P)"
      using l(2) p by (simp add: quiet_airline_def list_all_length)
    then have q: "quiet (pp_thread ?P)" "quiet th"
      using moves(2) by simp_all
    have "pp_pc ?P \<noteq> Gone"
      using moves(1) by cases auto
    moreover have "thread_action p A \<noteq> Blocks"
      using moves(3) by simp
    ultimately have w: "\<not> waiting (pp_pc ?P) (pp_thread ?P)"
      using waiting_blocks [of "pp_pc ?P" "pp_thread ?P"] p by (auto simp: thread_action_def)
    have "quiet (th\<lparr>pt_sent := [], pt_ready := 0\<rparr>)"
      using q(2) by (simp add: quiet_def)
    then have "quiet (pp_thread (ap_planes ?A ! n))" if "n < length ?Ps" for n
      using l(2) that by (cases "n = p") (simp_all add: quiet_airline_def moved_simps list_all_length)
    then have "quiet_airline ?A"
      by (simp add: quiet_airline_def list_all_length) (simp add: moved_simps)
    then have l': "quiet_airline ?A" "ap_listens ?A"
      using l(1) by (simp_all add: moved_simps)
    have one: "num_asks v a q inbox + num_replies v q (ap_inbox A) + num_answers v (pt_inbox (pp_thread (?Ps ! q))) = awaits v (pp_pc (?Ps ! q))"
      if "phase_type v" "q < length ?Ps" for v q
      using assms(4) that unfolding one_answer_def by blast
    show ?thesis
    proof (cases "resting t ?P \<or> told t A")
      case True
      then obtain u where u: "resting u ?P"
        using p by (auto simp: told_def list_all_length)
      then have m: "pp_pc ?P = At_Top" "pt_done (pp_thread ?P)" "pc = Gone" "plain th = plain (pp_thread ?P)"
        using move_resting [OF moves(1) _ q(1) w, of u] by simp_all
      have same: "pt_inbox th = pt_inbox (pp_thread ?P)" "pt_done th" "pt_ready th = 0" "pt_sent th = []"
        using plain_fields [OF m(4)] m(2) P(1,2) by simp_all
      have still: "resting v (ap_planes ?A ! q)" if "resting v (?Ps ! q)" "q < length ?Ps" for v q
        using that m(1,3) same p by (cases "q = p") (auto simp: moved_simps resting_def)
      have "at_phase t ?A" if at: "at_phase t A"
      proof -
        have "armed ?P = 0"
          by (rule armed_resting [OF u])
        then have "load ?A = load A"
          using load_moved [OF p, of pc th] m(3) by (simp add: armed_def)
        moreover have "working t (ap_planes ?A ! q) \<or> resting t (ap_planes ?A ! q)" if "q < length ?Ps" for q
        proof -
          have "resting t ?P"
            using u m(1,2) by (auto simp: resting_def split: if_splits)
          then show ?thesis
            using at that still [of t q] by (cases "q = p") (auto simp: at_phase_def list_all_length moved_simps)
        qed
        ultimately show ?thesis
          using at by (intro at_phaseI) (simp_all add: at_phase_def moved_simps)
      qed
      moreover have "told t ?A" if "told t A"
        using that still by (simp add: told_def list_all_length) (simp add: moved_simps)
      ultimately have "live_airline t ?A"
        using assms(2) l' by (auto simp: live_airline_def)
      moreover have "num_asks v a q inbox + num_replies v q (ap_inbox ?A) + num_answers v (pt_inbox (pp_thread (ap_planes ?A ! q))) =
          awaits v (pp_pc (ap_planes ?A ! q))" if "phase_type v" "q < length ?Ps" for v q
        using one [OF that] that m(1,3) same by (cases "q = p") (auto simp: moved_simps awaits_def asking_def split: if_splits)
      then have "one_answer a inbox ?A"
        by (simp add: one_answer_def moved_simps)
      ultimately show ?thesis
        using same(3,4) by (simp add: airline_lives_def moves(3) moved_simps)
    next
      case False
      then have at: "at_phase t A" and wk: "working t ?P"
        using assms(2) p by (auto simp: live_airline_def at_phase_def list_all_length)
      have wkd: "worked t a p (pp_pc ?P) (pp_thread ?P) pc th"
        using move_working [OF moves(1) _ q(1) w assms(3) P] wk by simp
      have arm: "armed ?P = 1"
        by (rule armed_working [OF assms(3) wk])
      let ?P' = "\<lparr>pp_pc = pc, pp_thread = th\<lparr>pt_sent := [], pt_ready := 0\<rparr>\<rparr>"
      have like: "working t ?P' = working t \<lparr>pp_pc = pc, pp_thread = th\<rparr>" "resting t ?P' = resting t \<lparr>pp_pc = pc, pp_thread = th\<rparr>"
        by (simp_all add: working_def resting_def)
      have now: "working t (ap_planes ?A ! q) \<or> resting t (ap_planes ?A ! q)" if "q < length ?Ps" for q
        using at wkd that like by (cases "q = p") (auto simp: at_phase_def list_all_length moved_simps worked_def)
      have others: "num_asks v b q (pt_sent th) = 0" if "(b, q) \<noteq> (a, p)" for v b q
        using wkd that by (simp add: worked_def)
      have balance: "num_asks v a q (inbox @ pt_sent th) + num_replies v q (ap_inbox ?A) +
          num_answers v (pt_inbox (pp_thread (ap_planes ?A ! q))) = awaits v (pp_pc (ap_planes ?A ! q))"
        if "phase_type v" "q < length ?Ps" for v q
      proof (cases "q = p")
        case True
        have "awaits v pc + num_answers v (pt_inbox (pp_thread ?P)) =
            awaits v (pp_pc ?P) + num_answers v (pt_inbox th) + num_asks v a p (pt_sent th)"
          using wkd that(1) unfolding worked_def by blast
        then show ?thesis
          using one [OF that] True p by (simp add: moved_simps)
      next
        case False
        then show ?thesis
          using one [OF that] others [of a q v] by (simp add: moved_simps)
      qed
      have planes: "length (ap_planes ?A) = length ?Ps"
        by (simp add: moved_simps)
      show ?thesis
      proof (cases "pt_ready th = 0")
        case True
        then have "working t \<lparr>pp_pc = pc, pp_thread = th\<rparr>"
          using wkd by (simp add: worked_def)
        then have "load ?A = load A"
          using load_moved [OF p, of pc th] arm armed_working [OF assms(3)] by simp
        then have "at_phase t ?A"
          using at now by (intro at_phaseI) (simp_all add: at_phase_def moved_simps)
        then have "live_airline t ?A"
          using l' by (simp add: live_airline_def)
        moreover have "one_answer a (inbox @ pt_sent th) ?A"
          using balance by (simp add: one_answer_def planes)
        moreover have "kind_ok t (pt_sent th) \<and> reports (pt_sent th) = 0"
          using move_sent [OF moves(1) P(1)] by (auto simp: unload_request_def check_request_def prepare_header_def)
        ultimately show ?thesis
          using True others by (simp add: airline_lives_def moves(3) moved_simps)
      next
        case False
        then have r: "resting t \<lparr>pp_pc = pc, pp_thread = th\<rparr>" "pt_sent th = []" "pt_ready th = 1" "1 \<le> al_planesLeft (ap_state A)"
          using wkd moves(4) by (auto simp: worked_def)
        have "Suc (load ?A) = load A"
          using load_moved [OF p, of pc th] arm armed_resting [OF r(1)] by simp
        then have "at_phase t (reported ?A)"
          using at now r(4) by (intro at_phaseI) (simp_all add: at_phase_def moved_simps reported_simps)
        then have "live_airline t (reported ?A)"
          using l' by (simp add: live_airline_def quiet_airline_def reported_simps)
        moreover have "one_answer a (inbox @ report ?A) (reported ?A)"
          using balance r(2) by (simp add: one_answer_def planes reported_simps report_def ready_message_kind(2) del: num_simps(2))
        moreover have "kind_ok t (report ?A)"
          using at assms(3) r(4) ready_message_kind(1) by (simp add: report_def at_phase_def moved_simps del: kind_ok_simps(2))
        moreover have "due (reported ?A) + reports (report ?A) = due A"
          using r(4) ready_message_report(2) by (auto simp: due_def report_def moved_simps reported_simps)
        moreover have "num_asks u b q (report ?A) = 0" for u b q
          by (simp add: report_def ready_message_kind(2) del: num_simps(2))
        ultimately show ?thesis
          using False r(2) by (simp add: airline_lives_def moves(3))
      qed
    qed
  qed
qed

section \<open>The map without failing writes\<close>

lemma one_answerD:
  "one_answer a inbox A \<Longrightarrow> phase_type u \<Longrightarrow> p < length (ap_planes A) \<Longrightarrow>
    num_asks u a p inbox + num_replies u p (ap_inbox A) + num_answers u (pt_inbox (pp_thread (ap_planes A ! p))) =
    awaits u (pp_pc (ap_planes A ! p))"
  unfolding one_answer_def by blast

lemma one_answerI:
  "(\<And>u p. phase_type u \<Longrightarrow> p < length (ap_planes A) \<Longrightarrow>
      num_asks u a p inbox + num_replies u p (ap_inbox A) + num_answers u (pt_inbox (pp_thread (ap_planes A ! p))) =
      awaits u (pp_pc (ap_planes A ! p))) \<Longrightarrow> one_answer a inbox A"
  unfolding one_answer_def by blast

lemma num_asks_pos: "m \<in> set msgs \<Longrightarrow> asks u a p m \<Longrightarrow> 0 < num_asks u a p msgs"
  by (auto simp: num_asks_def length_pos_if_in_set filter_empty_conv)

lemma num_replies_pos: "m \<in> set msgs \<Longrightarrow> replies_to u p m \<Longrightarrow> 0 < num_replies u p msgs"
  by (auto simp: num_replies_def filter_empty_conv)

text \<open>Whoever waits for an answer of phase \<open>u\<close> is working in it.\<close>

lemma waits_at_phase:
  assumes "live_airline t A" "phase_type t" "phase_type u" "p < length (ap_planes A)" "pp_pc (ap_planes A ! p) = asking u"
  shows "t = u \<and> at_phase t A"
proof (cases "told t A")
  case True
  then have "resting (other t) (ap_planes A ! p)"
    using assms(4) by (simp add: told_def list_all_length)
  then show ?thesis
    using assms(3,5) by (auto simp: resting_def asking_def split: if_splits)
next
  case False
  then have "at_phase t A"
    using assms(1) by (simp add: live_airline_def)
  then show ?thesis
    using awaits_asking [OF assms(2,3) _ assms(5)] assms(4) by (auto simp: at_phase_def list_all_length)
qed

lemma asks_at_phase:
  assumes "live_airline t A" "phase_type t" "one_answer a inbox A" "m \<in> set inbox" "asks u a p m" "phase_type u"
    "p < length (ap_planes A)"
  shows "t = u \<and> at_phase t A"
proof -
  have "0 < awaits u (pp_pc (ap_planes A ! p))"
    using one_answerD [OF assms(3,6,7)] num_asks_pos [OF assms(4,5)] by linarith
  then show ?thesis
    using assms by (intro waits_at_phase [of t A u p]) (auto simp: awaits_def split: if_splits)
qed

text \<open>When nothing is due the airline is through with the phase.\<close>

lemma idle:
  assumes "live_airline t A" "phase_type t" "one_answer a inbox A" "airline_ok nc ps a ks A" "due A = 0"
  shows "ap_inbox A = [] \<and> al_planesLeft (ap_state A) = 0 \<and> list_all (resting t) (ap_planes A)"
proof -
  have at: "at_phase t A"
    using assms(1,2,5) by (auto simp: live_airline_def told_def due_def)
  then have left: "al_planesLeft (ap_state A) = 0" "load A = 0"
    using assms(5) by (auto simp: due_def at_phase_def split: if_splits)
  have rest: "resting t (ap_planes A ! p)" if "p < length (ap_planes A)" for p
  proof -
    have "armed (ap_planes A ! p) = 0"
      using left(2) that by (simp add: load_index)
    then show ?thesis
      using at that armed_working [OF assms(2), of "ap_planes A ! p"] by (auto simp: at_phase_def list_all_length)
  qed
  have "msg \<notin> set (ap_inbox A)" for msg
  proof
    assume m: "msg \<in> set (ap_inbox A)"
    then have "reply_ok nc ks msg" "\<And>u. msg \<noteq> MM_Type u"
      using airline_okD(5) [OF assms(4)] at by (auto simp: list_all_iff at_phase_def)
    from reply_for [OF this] obtain p u where p: "p < length (ap_planes A)" "phase_type u" "replies_to u p msg"
      using airline_okD(3) [OF assms(4)] by auto
    then have "0 < awaits u (pp_pc (ap_planes A ! p))"
      using one_answerD [OF assms(3) p(2,1)] num_replies_pos [OF m p(3)] by linarith
    then show False
      using rest [OF p(1)] p(2) by (auto simp: awaits_def resting_def asking_def split: if_splits)
  qed
  then have "ap_inbox A = []"
    by (cases "ap_inbox A") auto
  then show ?thesis
    using left(1) rest by (simp add: list_all_length)
qed

lemma inbox_same [simp]: "A\<lparr>ap_inbox := ap_inbox A\<rparr> = A"
  by simp

text \<open>Telling an airline that is through with one phase of the next.\<close>

lemma tell_live:
  assumes "live_airline (other t) A" "phase_type t" "one_answer a inbox A" "airline_ok nc ps a ks A" "due A = 0"
  shows "live_airline t (A\<lparr>ap_inbox := ap_inbox A @ [MM_Type t]\<rparr>)" "one_answer a inbox (A\<lparr>ap_inbox := ap_inbox A @ [MM_Type t]\<rparr>)"
proof -
  have "phase_type (other t)"
    by (simp add: other_def)
  from idle [OF assms(1) this assms(3-5)] show "live_airline t (A\<lparr>ap_inbox := ap_inbox A @ [MM_Type t]\<rparr>)"
    using assms(1) by (simp add: live_airline_def told_def quiet_airline_def)
  show "one_answer a inbox (A\<lparr>ap_inbox := ap_inbox A @ [MM_Type t]\<rparr>)"
    using assms(3) by (simp add: one_answer_def)
qed

text \<open>Answering a request.\<close>

lemma answer_live:
  assumes "live_airline t A" "phase_type t" "one_answer b (msg # inbox) A"
    and req: "\<And>v c q. asks v c q msg \<longleftrightarrow> v = u \<and> c = a \<and> q = p" and rep: "\<And>v q. replies_to v q reply \<longleftrightarrow> v = u \<and> q = p"
    and "\<And>v. reply \<noteq> MM_Type v" "phase_type u" "b = a \<Longrightarrow> p < length (ap_planes A)"
  shows "live_airline t (A\<lparr>ap_inbox := ap_inbox A @ sent_to b [(a, reply)]\<rparr>)"
    "one_answer b inbox (A\<lparr>ap_inbox := ap_inbox A @ sent_to b [(a, reply)]\<rparr>)"
proof -
  let ?A = "A\<lparr>ap_inbox := ap_inbox A @ sent_to b [(a, reply)]\<rparr>"
  show "live_airline t ?A"
  proof (cases "b = a")
    case True
    have "at_phase t A"
      using asks_at_phase [OF assms(1-3), of msg u p] req True assms(7,8) by auto
    then have "at_phase t ?A"
      using True assms(6) by (auto simp: at_phase_def load_def)
    then show ?thesis
      using assms(1) by (simp add: live_airline_def quiet_airline_def)
  qed (use assms(1) in auto)
  show "one_answer b inbox ?A"
  proof (rule one_answerI)
    fix v q
    assume "phase_type v" "q < length (ap_planes ?A)"
    then show "num_asks v b q inbox + num_replies v q (ap_inbox ?A) + num_answers v (pt_inbox (pp_thread (ap_planes ?A ! q))) =
        awaits v (pp_pc (ap_planes ?A ! q))"
      using one_answerD [OF assms(3), of v q]
      by (cases "b = a \<and> v = u \<and> q = p") (auto simp: req rep)
  qed
qed

section \<open>The whole system without failures\<close>

definition phase_of :: "map_pc \<Rightarrow> MessageType" where
  "phase_of pc = (case pc of M_Phase1 _ \<Rightarrow> MessageTypeStep | _ \<Rightarrow> MessageTypeContinue)"

text \<open>Told to end, or ended.\<close>

definition ending :: "airline_proc \<Rightarrow> bool" where
  "ending A \<longleftrightarrow> quiet_airline A \<and>
     (if ap_listens A then ap_inbox A = [MM_Type MessageTypeEnd] \<and> list_all (resting MessageTypeContinue) (ap_planes A)
      else list_all leaving (ap_planes A))"

definition live :: "system_state \<Rightarrow> bool" where
  "live S \<longleftrightarrow> ms_writes (sy_map S) = [] \<and>
     (if sy_pc S = M_Ended then list_all ending (sy_airlines S)
      else
        (\<forall>a<length (sy_airlines S). live_airline (phase_of (sy_pc S)) (sy_airlines S ! a) \<and> one_answer a (sy_inbox S) (sy_airlines S ! a)) \<and>
        kind_ok (phase_of (sy_pc S)) (sy_inbox S) \<and>
        total_due (sy_airlines S) + reports (sy_inbox S) = remaining (length (sy_airlines S)) (sy_pc S))"

lemma phase_of_type: "phase_type (phase_of pc)"
  by (simp add: phase_of_def split: map_pc.split)

text \<open>What the map may do with the airlines in a phase.\<close>

definition phase_kept :: "MessageType \<Rightarrow> PlaneMessage list \<Rightarrow> MessageType \<Rightarrow> PlaneMessage list \<Rightarrow> (nat \<times> MapMessage) list \<Rightarrow>
  airline_proc list \<Rightarrow> bool" where
  "phase_kept t inbox t' inbox' new as \<longleftrightarrow>
     (\<forall>a<length as. live_airline t' (deliver new as ! a) \<and> one_answer a inbox' (deliver new as ! a)) \<and> kind_ok t' inbox'"

lemma kept_same:
  assumes "\<forall>a<length as. live_airline t (as ! a) \<and> one_answer a inbox (as ! a)" "kind_ok t inbox"
    "\<And>u b q. num_asks u b q inbox' = num_asks u b q inbox" "set inbox' \<subseteq> set inbox"
  shows "phase_kept t inbox t inbox' [] as"
  using assms(1,2,4) by (auto simp: phase_kept_def one_answer_def assms(3) kind_ok_def)

lemma kept_told:
  assumes "\<forall>a<length as. live_airline (other t) (as ! a) \<and> one_answer a inbox (as ! a)" "phase_type t"
    and "\<And>a. a < length as \<Longrightarrow> airline_ok nc ps a (cargo ! a) (as ! a)" "total_due as + reports inbox = 0"
  shows "phase_kept (other t) inbox t inbox (tell_airlines t [0..<length as]) as"
proof -
  have due: "due (as ! a) = 0" if "a < length as" for a
    using assms(4) that by (simp add: total_due_def)
  have "reports inbox = 0"
    using assms(4) by simp
  then have "kind_ok t inbox"
    by (auto simp: reports_def kind_ok_def filter_empty_conv)
  then show ?thesis
    using assms(1) tell_live [OF _ assms(2) _ assms(3) due] by (auto simp: phase_kept_def)
qed

lemma kept_answered:
  assumes "\<forall>a<length as. live_airline t (as ! a) \<and> one_answer a (msg # inbox) (as ! a)" "kind_ok t (msg # inbox)" "phase_type t"
    and "\<And>v c q. asks v c q msg \<longleftrightarrow> v = u \<and> c = a \<and> q = p" "\<And>v q. replies_to v q reply \<longleftrightarrow> v = u \<and> q = p"
    and "\<And>v. reply \<noteq> MM_Type v" "phase_type u" "p < length (ap_planes (as ! a))"
  shows "phase_kept t (msg # inbox) t inbox [(a, reply)] as"
proof -
  have "live_airline t (deliver [(a, reply)] as ! b) \<and> one_answer b inbox (deliver [(a, reply)] as ! b)" if "b < length as" for b
    using answer_live [OF _ assms(3) _ assms(4-7), of "as ! b" b inbox] assms(1,8) that by auto
  then show ?thesis
    using assms(2) by (simp add: phase_kept_def)
qed

lemma remaining_simps [simp]:
  "remaining n M_Turn = 0" "remaining n (M_Phase1 i) = n - i" "remaining n (M_Phase2 i) = n - i" "remaining n M_Ending = 0"
  "phase_of M_Turn = MessageTypeContinue" "phase_of (M_Phase1 i) = MessageTypeStep" "phase_of (M_Phase2 i) = MessageTypeContinue"
  "phase_of M_Ending = MessageTypeContinue"
  by (simp_all add: remaining_def phase_of_def)

lemma other_simps [simp]: "other MessageTypeStep = MessageTypeContinue" "other MessageTypeContinue = MessageTypeStep"
  by (simp_all add: other_def)

lemma total_due_deliver:
  "total_due (deliver new as) = total_due as + (\<Sum>c<length as. mm_phases (sent_to c new))"
  by (simp add: total_due_def sum.distrib)

lemma total_due_reply:
  "mm_type reply \<notin> {MessageTypeStep, MessageTypeContinue} \<Longrightarrow> total_due (deliver [(a, reply)] as) = total_due as"
  by (auto simp: total_due_deliver intro!: sum.neutral)

lemma deliver_none [simp]: "deliver [] as = as"
  by (rule nth_equalityI) simp_all

lemma map_move_live:
  assumes "map_move nc cargo pc st inbox pc' st' inbox'" "pc' \<noteq> M_Ended" "ms_writes st = []" "next_map st st' new"
    and len: "length cargo = length as" and airlines: "\<And>a. a < length as \<Longrightarrow> airline_ok nc ps a (cargo ! a) (as ! a)"
    and inbox: "list_all (request_ok nc' ps' cargo) inbox"
    and live: "\<forall>a<length as. live_airline (phase_of pc) (as ! a) \<and> one_answer a inbox (as ! a)" "kind_ok (phase_of pc) inbox"
    and due: "total_due as + reports inbox = remaining (length as) pc"
  shows "phase_kept (phase_of pc) inbox (phase_of pc') inbox' new as \<and>
    total_due (deliver new as) + reports inbox' = remaining (length as) pc'"
proof -
  have new: "new = new'" if "next_map st st' new'" for new'
    using that assms(4) by (simp add: next_map_def)
  have planes: "length (ap_planes (as ! a)) = length (cargo ! a)" if "a < length as" for a
    using airline_okD(3) [OF airlines [OF that]] .
  from assms(1) show ?thesis
  proof (cases rule: map_move.cases)
    case turn_stop
    then show ?thesis
      using live due new [of "[]"] by (simp add: kept_same)
  next
    case (turn_play k)
    then have "new = tell_airlines MessageTypeStep [0..<length as]"
      using new assms(3) len by simp
    moreover have "phase_kept (other MessageTypeStep) inbox MessageTypeStep inbox (tell_airlines MessageTypeStep [0..<length as]) as"
      using kept_told [of as MessageTypeStep inbox nc ps cargo] live(1) airlines due turn_play(1) by simp
    ultimately show ?thesis
      using turn_play due by (simp add: total_due_deliver)
  next
    case (phase1_over k)
    then have "new = tell_airlines MessageTypeContinue [0..<length as]"
      using new assms(3) len by simp
    moreover have "phase_kept (other MessageTypeContinue) inbox MessageTypeContinue inbox (tell_airlines MessageTypeContinue [0..<length as]) as"
      using kept_told [of as MessageTypeContinue inbox nc ps cargo] live(1) airlines due phase1_over(1) len by simp
    ultimately show ?thesis
      using phase1_over due len by (simp add: total_due_deliver)
  next
    case (phase1_done i msg)
    have "request_ok nc' ps' cargo msg"
      using inbox phase1_done by simp
    then have "num_asks u b q [msg] = 0" for u b q
      using phase1_done(5) by (cases msg) (auto simp: from_plane_def prepare_header_def)
    then have "phase_kept (phase_of pc) inbox (phase_of pc) inbox' [] as"
      using live phase1_done by (intro kept_same) auto
    then show ?thesis
      using phase1_done due len new [of "[]"] by auto
  next
    case (phase1_unload i ok a reply m)
    have "new = [(a, MM_Stock reply)]"
      using new phase1_unload(5,7) assms(3) by (simp add: replies_def)
    moreover obtain p where p: "p < length (cargo ! a)" "hdr_id (ss_header m) = int p"
      using inbox phase1_unload by (auto simp: from_plane_def prepare_header_def)
    then have "phase_kept MessageTypeStep (PM_StockState m # inbox') MessageTypeStep inbox' [(a, MM_Stock reply)] as"
      using live phase1_unload planes [of a] len by (intro kept_answered [where u = MessageTypeStep and p = p]) auto
    ultimately show ?thesis
      using phase1_unload due by (simp add: total_due_reply)
  next
    case (phase1_skip i msg)
    have msg: "request_ok nc' ps' cargo msg" "kind_ok MessageTypeStep [msg]"
      using inbox live(2) phase1_skip by simp_all
    then obtain m where m: "msg = PM_CheckDestinations m"
      using phase1_skip(5) by (cases msg) (auto simp: from_plane_def prepare_header_def report_type_def)
    then obtain a p where "a < length cargo" "p < length (cargo ! a)" "asks MessageTypeContinue a p msg"
      using msg(1) by (auto simp: from_plane_def prepare_header_def)
    then have False
      using asks_at_phase [of MessageTypeStep "as ! a" a inbox msg MessageTypeContinue p] live(1) planes [of a] len phase1_skip by auto
    then show ?thesis ..
  next
    case phase2_over
    then show ?thesis
      using live due new [of "[]"] len by (simp add: kept_same)
  next
    case (phase2_status i msg)
    have "request_ok nc' ps' cargo msg"
      using inbox phase2_status by simp
    then have "num_asks u b q [msg] = 0" for u b q
      using phase2_status(5) by (cases msg) (auto simp: from_plane_def prepare_header_def)
    then have "phase_kept (phase_of pc) inbox (phase_of pc) inbox' [] as"
      using live phase2_status by (intro kept_same) auto
    then show ?thesis
      using phase2_status due len new [of "[]"] by auto
  next
    case (phase2_check i ok a reply m)
    have "new = [(a, MM_Destinations reply)]"
      using new phase2_check(5,7) assms(3) by (simp add: replies_def)
    moreover obtain p where p: "p < length (cargo ! a)" "hdr_id (cd_header m) = int p"
      using inbox phase2_check by (auto simp: from_plane_def prepare_header_def)
    then have "phase_kept MessageTypeContinue (PM_CheckDestinations m # inbox') MessageTypeContinue inbox' [(a, MM_Destinations reply)] as"
      using live phase2_check planes [of a] len by (intro kept_answered [where u = MessageTypeContinue and p = p]) auto
    ultimately show ?thesis
      using phase2_check due by (auto simp: total_due_reply destinations_message_def)
  next
    case (phase2_skip i msg)
    have msg: "request_ok nc' ps' cargo msg" "kind_ok MessageTypeContinue [msg]"
      using inbox live(2) phase2_skip by simp_all
    then obtain m where m: "msg = PM_StockState m"
      using phase2_skip(5) by (cases msg) (auto simp: from_plane_def prepare_header_def report_type_def)
    then obtain a p where "a < length cargo" "p < length (cargo ! a)" "asks MessageTypeStep a p msg"
      using msg(1) by (auto simp: from_plane_def prepare_header_def)
    then have False
      using asks_at_phase [of MessageTypeContinue "as ! a" a inbox msg MessageTypeStep p] live(1) planes [of a] len phase2_skip by auto
    then show ?thesis ..
  next
    case told_end
    then show ?thesis
      using assms(2) by simp
  qed
qed

lemma act_map_live:
  assumes "sys_ok nc ps cargo T S" "live S" "act T The_Map S = Returns S'"
  shows "live S'"
proof -
  let ?n = "length cargo" and ?as = "sy_airlines S"
  note ok = sys_okD [OF assms(1)]
  obtain pc' st' inbox' where r: "map_action (vec_of [0..<?n]) ?n T (sy_pc S) (sy_map S) (sy_inbox S) = Returns (pc', st', inbox')"
    and S': "S' = S\<lparr>sy_pc := pc', sy_map := st'\<lparr>ms_sent := []\<rparr>, sy_inbox := inbox', sy_airlines := deliver (ms_sent st') ?as\<rparr>"
    using assms(3) ok(4)
    by (cases "map_action (vec_of [0..<?n]) ?n T (sy_pc S) (sy_map S) (sy_inbox S)") (auto simp: act.simps)
  have m: "map_move nc cargo (sy_pc S) (sy_map S) (sy_inbox S) pc' st' inbox'"
    using map_action_moves [OF ok(1,6,3)] r by simp
  obtain new where new: "next_map (sy_map S) st' new"
    using map_move_counts [OF m ok(3,6)] by blast
  then have sent: "ms_sent st' = new"
    using ok(2) by (simp add: next_map_def)
  have quiet: "ms_writes (sy_map S) = []" "ms_writes st' = []"
    using assms(2) new by (auto simp: live_def next_map_def)
  have "sy_pc S \<noteq> M_Ended"
    using m by cases auto
  then have l: "\<forall>a<?n. live_airline (phase_of (sy_pc S)) (?as ! a) \<and> one_answer a (sy_inbox S) (?as ! a)"
    "kind_ok (phase_of (sy_pc S)) (sy_inbox S)" "total_due ?as + reports (sy_inbox S) = remaining ?n (sy_pc S)"
    using assms(2) ok(4) by (simp_all add: live_def)
  show ?thesis
  proof (cases "pc' = M_Ended")
    case False
    have "phase_kept (phase_of (sy_pc S)) (sy_inbox S) (phase_of pc') inbox' new ?as \<and>
        total_due (deliver new ?as) + reports inbox' = remaining ?n pc'"
      using map_move_live [OF m False quiet(1) new ok(4) [symmetric] _ ok(6), where ps = ps] ok(4,5) l by simp
    then show ?thesis
      using False quiet(2) ok(4) by (simp add: live_def S' sent phase_kept_def)
  next
    case True
    from m True have pc: "sy_pc S = M_Ending" and "next_map (sy_map S) st' (tell_airlines MessageTypeEnd [0..<?n])"
      using quiet(1) by (cases, simp_all)+
    then have "new = tell_airlines MessageTypeEnd [0..<?n]"
      using new by (simp add: next_map_def)
    moreover have "ending ((?as ! a)\<lparr>ap_inbox := ap_inbox (?as ! a) @ [MM_Type MessageTypeEnd]\<rparr>)" if a: "a < ?n" for a
    proof -
      have "due (?as ! a) = 0"
        using l(3) a ok(4) pc by (simp add: total_due_def)
      with idle [where t = "phase_of (sy_pc S)" and a = a and inbox = "sy_inbox S", OF _ phase_of_type _ ok(5) [OF a]] l(1) a
      have "ap_inbox (?as ! a) = []" "list_all (resting MessageTypeContinue) (ap_planes (?as ! a))" "live_airline MessageTypeContinue (?as ! a)"
        by (auto simp: pc)
      then show ?thesis
        by (simp add: ending_def live_airline_def quiet_airline_def)
    qed
    ultimately show ?thesis
      using True quiet(2) ok(4) by (simp add: live_def S' sent list_all_length)
  qed
qed

text \<open>An airline that ends.\<close>

lemma listener_ending:
  assumes "airline_ok nc ps a ks A" "ending A" "listener_action A = Returns (A', sent)"
  shows "ending A'"
proof -
  have l: "ap_listens A"
    using assms(3) by (simp add: listener_action_def split: if_splits)
  then have e: "ap_inbox A = MM_Type MessageTypeEnd # []" "list_all (resting MessageTypeContinue) (ap_planes A)" "quiet_airline A"
    using assms(2) by (simp_all add: ending_def)
  have A': "A' = told_to_end [] A"
    using assms(3) listener_ends [OF airline_okD(1) [OF assms(1)] l e(1)] by simp
  have "leaving (receive (tell (phase_message MessageTypeEnd) (ap_planes A) p) (ap_planes A ! p))" if "p < length (ap_planes A)" for p
    using e(2) that by (auto simp: list_all_length resting_def leaving_def tell_def split: if_splits)
  then show ?thesis
    using e(3) by (simp add: A' ending_def told_to_end_def quiet_airline_def quiet_all_receive) (simp add: list_all_length)
qed

lemma move_leaving:
  assumes "plane_move nc k pc th pc' th'" "leaving \<lparr>pp_pc = pc, pp_thread = th\<rparr>"
  shows "pc' = Gone"
  using assms by cases (auto simp: leaving_def split: if_splits)

lemma thread_ending:
  assumes "airline_ok nc ps a ks A" "ending A" "thread_action p A = Returns (A', sent)"
  shows "ending A'"
proof -
  note ok = airline_okD [OF assms(1)]
  have p: "p < length (ap_planes A)"
    using assms(3) by (simp add: thread_action_def split: if_splits)
  then have ks: "p < length ks"
    using ok(3) by simp
  let ?P = "ap_planes A ! p"
  show ?thesis
  proof (cases rule: thread_action_cases [OF assms(1) ks, case_names waits moves])
    case waits
    then show ?thesis
      using assms(3) by simp
  next
    case (moves pc th)
    let ?P' = "\<lparr>pp_pc = pc, pp_thread = th\<lparr>pt_sent := [], pt_ready := 0\<rparr>\<rparr>"
    have q: "quiet (pp_thread ?P)"
      using assms(2) p by (simp add: ending_def quiet_airline_def list_all_length)
    have "pp_pc ?P \<noteq> Gone"
      using moves(1) by cases auto
    then have w: "\<not> waiting (pp_pc ?P) (pp_thread ?P)"
      using waiting_blocks [of "pp_pc ?P" "pp_thread ?P"] assms(3) p by (auto simp: thread_action_def)
    have kept: "(resting MessageTypeContinue ?P \<longrightarrow> resting MessageTypeContinue ?P') \<and> (leaving ?P \<longrightarrow> leaving ?P')"
    proof -
      have "resting MessageTypeContinue ?P'" if "resting MessageTypeContinue ?P"
      proof -
        have m: "pt_done (pp_thread ?P)" "pc = Gone" "plain th = plain (pp_thread ?P)" "pp_pc ?P = At_Top"
          using move_resting [OF moves(1) _ q w, of MessageTypeContinue] that by simp_all
        then show ?thesis
          using that plain_fields [OF m(3)] by (simp add: resting_def)
      qed
      moreover have "leaving ?P'" if "leaving ?P"
        using move_leaving [OF moves(1)] that by (simp add: leaving_def)
      ultimately show ?thesis
        by blast
    qed
    have "quiet (th\<lparr>pt_sent := [], pt_ready := 0\<rparr>)"
      using moves(2) q by (simp add: quiet_def)
    then have q': "quiet (pp_thread (ap_planes (moved p pc th A) ! n))" if "n < length (ap_planes A)" for n
      using assms(2) that by (cases "n = p") (simp_all add: ending_def quiet_airline_def moved_simps list_all_length)
    have all: "list_all R (ap_planes (moved p pc th A))" if "list_all R (ap_planes A)" "R ?P \<Longrightarrow> R ?P'" for R
    proof -
      have "R (ap_planes (moved p pc th A) ! n)" if "n < length (ap_planes A)" for n
        using \<open>list_all R (ap_planes A)\<close> \<open>R ?P \<Longrightarrow> R ?P'\<close> that p by (cases "n = p") (simp_all add: moved_simps list_all_length)
      then show ?thesis
        by (simp add: list_all_length moved_simps)
    qed
    have "quiet_airline (moved p pc th A)"
      using q' by (simp add: quiet_airline_def list_all_length moved_simps)
    then have "ending (moved p pc th A)"
      using assms(2) kept all [of "resting MessageTypeContinue"] all [of leaving]
      by (simp add: ending_def moved_simps(1,4) split: if_splits)
    moreover have "ending (reported B) = ending B" for B
      by (simp add: ending_def reported_simps quiet_airline_def)
    ultimately show ?thesis
      using assms(3) moves(3) by (auto split: if_splits)
  qed
qed

text \<open>Steps of an airline.\<close>

lemma airline_acts_live:
  assumes "sys_ok nc ps cargo T S" "live S" "airline_acts a f S = Returns S'"
    and lives: "\<And>t. live_airline t (sy_airlines S ! a) \<Longrightarrow> phase_type t \<Longrightarrow> one_answer a (sy_inbox S) (sy_airlines S ! a) \<Longrightarrow>
      airline_lives t a (sy_inbox S) (sy_airlines S ! a) (f (sy_airlines S ! a))"
    and ends: "\<And>A' sent. ending (sy_airlines S ! a) \<Longrightarrow> f (sy_airlines S ! a) = Returns (A', sent) \<Longrightarrow> ending A'"
  shows "live S'"
proof -
  note ok = sys_okD [OF assms(1)]
  let ?as = "sy_airlines S"
  have a: "a < length ?as"
    using assms(3) by (simp split: if_splits)
  then obtain A' sent where f: "f (?as ! a) = Returns (A', sent)"
    and S': "S' = S\<lparr>sy_airlines := ?as[a := A'], sy_inbox := sy_inbox S @ sent\<rparr>"
    using assms(3) by (cases "f (?as ! a)") auto
  show ?thesis
  proof (cases "sy_pc S = M_Ended")
    case True
    then have "ending (?as ! b)" if "b < length ?as" for b
      using assms(2) that by (simp add: live_def list_all_length)
    then have "ending (?as[a := A'] ! b)" if "b < length ?as" for b
      using ends [OF _ f] that a by (cases "b = a") simp_all
    then show ?thesis
      using assms(2) True by (simp add: live_def S' list_all_length)
  next
    case False
    let ?t = "phase_of (sy_pc S)"
    have l: "live_airline ?t (?as ! b)" "one_answer b (sy_inbox S) (?as ! b)" if "b < length ?as" for b
      using assms(2) False that by (simp_all add: live_def)
    have r: "live_airline ?t A'" "one_answer a (sy_inbox S @ sent) A'" "kind_ok ?t sent" "due A' + reports sent = due (?as ! a)"
      "\<And>u b q. b \<noteq> a \<Longrightarrow> num_asks u b q sent = 0"
      using lives [OF l(1) [OF a] phase_of_type l(2) [OF a]] by (simp_all add: airline_lives_def f)
    have "one_answer b (sy_inbox S @ sent) (?as ! b)" if "b < length ?as" "b \<noteq> a" for b
      using l(2) [OF that(1)] r(5) [OF that(2)] by (simp add: one_answer_def)
    then have "live_airline ?t (?as[a := A'] ! b) \<and> one_answer b (sy_inbox S @ sent) (?as[a := A'] ! b)" if "b < length ?as" for b
      using l(1) r(1,2) a that by (cases "b = a") simp_all
    moreover have "total_due (?as[a := A']) + due (?as ! a) = total_due ?as + due A'"
      using a by (simp add: total_due_def sum.remove [of "{..<length ?as}" a])
    ultimately show ?thesis
      using assms(2) False r(3,4) by (simp add: live_def S')
  qed
qed

lemma act_live:
  assumes "sys_ok nc ps cargo T S" "live S" "act T x S = Returns S'"
  shows "live S'"
proof (cases x)
  case The_Map
  then show ?thesis
    using act_map_live [OF assms(1,2)] assms(3) by simp
next
  case (Listener a)
  have a: "a < length cargo"
    using assms(3) Listener sys_okD(4) [OF assms(1)] by (simp add: act.simps split: if_splits)
  note A = sys_okD(5) [OF assms(1) a]
  have "airline_acts a listener_action S = Returns S'"
    using assms(3) Listener by (simp only: act.simps)
  then show ?thesis
    by (rule airline_acts_live [OF assms(1,2)]) (rule listener_live [OF A], assumption+, rule listener_ending [OF A], assumption+)
next
  case (Plane a p)
  have a: "a < length cargo"
    using assms(3) Plane sys_okD(4) [OF assms(1)] by (simp add: act.simps split: if_splits)
  note A = sys_okD(5) [OF assms(1) a]
  have "airline_acts a (thread_action p) S = Returns S'"
    using assms(3) Plane by (simp only: act.simps)
  then show ?thesis
    by (rule airline_acts_live [OF assms(1,2)]) (rule thread_live [OF A], assumption+, rule thread_ending [OF A], assumption+)
qed

section \<open>Never stuck\<close>

lemma listener_enabled:
  "ap_listens A \<Longrightarrow> ap_inbox A \<noteq> [] \<Longrightarrow> listener_action A \<noteq> Blocks"
  by (cases "ap_inbox A") (auto simp: listener_action_def split: option.split flow.split)

lemma airline_acts_enabled:
  assumes "sys_ok nc ps cargo T S" "a < length cargo" "f (sy_airlines S ! a) \<noteq> Blocks" "x = Listener a \<and> f = listener_action \<or> (\<exists>p. x = Plane a p \<and> f = thread_action p)"
  shows "\<exists>S'. act T x S = Returns S'"
proof -
  have acts: "act T x S = airline_acts a f S"
    using assms(4) by (auto simp: act.simps)
  have "act T x S \<noteq> Faults"
    using act_ok [OF assms(1), of x] by auto
  then show ?thesis
    using assms(2,3) sys_okD(4) [OF assms(1)] unfolding acts by (cases "f (sy_airlines S ! a)") auto
qed

lemma thread_enabled:
  assumes "airline_ok nc ps a ks A" "p < length ks" "\<not> waiting (pp_pc (ap_planes A ! p)) (pp_thread (ap_planes A ! p))"
  shows "thread_action p A \<noteq> Blocks"
  using thread_action_cases [OF assms(1,2)] assms(3) by (metis outcome.distinct(3))

lemma system_goes_on:
  assumes "sys_ok nc ps cargo T S" "live S" "\<not> all_ended S"
  shows "\<exists>x S'. act T x S = Returns S'"
proof (cases "map_waiting (length cargo) (sy_pc S) (sy_inbox S)")
  case False
  then show ?thesis
    using act_map_ok [OF assms(1)] by (cases "act T The_Map S") auto
next
  case True
  note ok = sys_okD [OF assms(1)]
  let ?as = "sy_airlines S" and ?t = "phase_of (sy_pc S)"
  show ?thesis
  proof (cases "sy_pc S = M_Ended")
    case ended: True
    then obtain a where a: "a < length cargo" "ap_listens (?as ! a) \<or> \<not> list_all (\<lambda>P. pp_pc P = Gone) (ap_planes (?as ! a))"
      using assms(3) ok(4) by (auto simp: all_ended_def list_all_length)
    have e: "ending (?as ! a)"
      using assms(2) ended a(1) ok(4) by (simp add: live_def list_all_length)
    show ?thesis
    proof (cases "ap_listens (?as ! a)")
      case True
      then have "listener_action (?as ! a) \<noteq> Blocks"
        using e by (intro listener_enabled) (simp_all add: ending_def)
      then show ?thesis
        using airline_acts_enabled [OF assms(1) a(1)] by blast
    next
      case False
      then obtain p where p: "p < length (ap_planes (?as ! a))" "pp_pc (ap_planes (?as ! a) ! p) \<noteq> Gone"
        using a(2) by (auto simp: list_all_length)
      have "leaving (ap_planes (?as ! a) ! p)"
        using e False p(1) by (simp add: ending_def list_all_length)
      then have "\<not> waiting (pp_pc (ap_planes (?as ! a) ! p)) (pp_thread (ap_planes (?as ! a) ! p))"
        using p(2) by (auto simp: leaving_def waiting_def split: if_splits)
      then have "thread_action p (?as ! a) \<noteq> Blocks"
        using p(1) airline_okD(3) [OF ok(5) [OF a(1)]] by (intro thread_enabled [OF ok(5) [OF a(1)]]) simp_all
      then show ?thesis
        using airline_acts_enabled [OF assms(1) a(1)] by blast
    qed
  next
    case False
    then obtain i where i: "i < length cargo" "sy_pc S \<in> {M_Phase1 i, M_Phase2 i}" "sy_inbox S = []"
      using True by (auto simp: map_waiting_def)
    then have "0 < total_due ?as"
      using assms(2) False ok(4) by (auto simp: live_def)
    then have "\<exists>a<length cargo. due (?as ! a) \<noteq> 0"
      using ok(4) by (metis (no_types, lifting) lessThan_iff less_irrefl sum.neutral total_due_def)
    then obtain a where a: "a < length cargo" "due (?as ! a) \<noteq> 0"
      by blast
    let ?A = "?as ! a"
    have l: "live_airline ?t ?A" "one_answer a [] ?A"
      using assms(2) False i(3) a(1) ok(4) by (simp_all add: live_def)
    show ?thesis
    proof (cases "ap_inbox ?A = []")
      case False
      then have "listener_action ?A \<noteq> Blocks"
        using l(1) by (intro listener_enabled) (simp_all add: live_airline_def)
      then show ?thesis
        using airline_acts_enabled [OF assms(1) a(1)] by blast
    next
      case True
      then have at: "at_phase ?t ?A"
        using l(1) by (simp add: live_airline_def told_def)
      then have "load ?A \<noteq> 0"
        using True a(2) by (auto simp: due_def at_phase_def split: if_splits)
      then obtain p where p: "p < length (ap_planes ?A)" "armed (ap_planes ?A ! p) \<noteq> 0"
        by (auto simp: load_index)
      let ?P = "ap_planes ?A ! p"
      have w: "working ?t ?P"
        using at p armed_resting [of ?t ?P] by (auto simp: at_phase_def list_all_length)
      have "pp_pc ?P = asking ?t \<Longrightarrow> pt_inbox (pp_thread ?P) \<noteq> []"
        using one_answerD [OF l(2) phase_of_type [of "sy_pc S"] p(1)] True by (auto simp: awaits_def)
      then have "\<not> waiting (pp_pc ?P) (pp_thread ?P)"
        using w by (auto simp: working_def waiting_def asking_def split: if_splits)
      then have "thread_action p ?A \<noteq> Blocks"
        using p(1) airline_okD(3) [OF ok(5) [OF a(1)]] by (intro thread_enabled [OF ok(5) [OF a(1)]]) simp_all
      then show ?thesis
        using airline_acts_enabled [OF assms(1) a(1)] by blast
    qed
  qed
qed

text \<open>It starts that way.\<close>

lemma fresh_live:
  assumes "fresh_airline (\<lambda>_. []) (\<lambda>_. []) a self A" "airline_ok nc ps a ks A"
  shows "live_airline MessageTypeContinue A" "one_answer a [] A"
proof -
  have A: "ap_inbox A = []" "ap_listens A" "al_planesLeft (ap_state A) = 0"
    "ap_planes A = map (\<lambda>p. \<lparr>pp_pc = At_Top, pp_thread = (new_thread (int a) (airline_planes self ! p))\<lparr>pt_writes := [], pt_allocs := []\<rparr>\<rparr>)
      [0..<length (airline_planes self)]"
    using assms(1) by (simp_all add: fresh_airline_def)
  have rest: "resting MessageTypeContinue (ap_planes A ! p)" "quiet (pp_thread (ap_planes A ! p))" if "p < length (ap_planes A)" for p
    using that by (simp_all add: A(4) resting_def quiet_def new_thread_def)
  have "load A = 0"
    using armed_resting [OF rest(1)] by (simp add: load_index)
  then have "at_phase MessageTypeContinue A"
    using A rest(1) by (intro at_phaseI) simp_all
  then show "live_airline MessageTypeContinue A"
    using A(2) rest(2) by (simp add: live_airline_def quiet_airline_def list_all_length)
  show "one_answer a [] A"
    using A(1,4) rest(1) by (auto simp: one_answer_def awaits_def asking_def new_thread_def)
qed

lemma system_start_live:
  assumes "sim_wf (ms_map st)" "fleet_good (ms_map st) airlines" "ms_sent st = []" "ms_writes st = []"
    and "system_start (\<lambda>_ _. []) (\<lambda>_ _. []) airlines st = Some (T, S)"
  shows "live S"
proof -
  let ?n = "length (vlist airlines)"
  obtain nc ps where ok: "sys_ok nc ps (cargo_of (vlist airlines)) T S"
    and S: "sy_pc S = M_Turn" "sy_inbox S = []" "ms_writes (sy_map S) = []" "length (sy_airlines S) = ?n"
      "\<And>a. a < ?n \<Longrightarrow> fresh_airline (\<lambda>_. []) (\<lambda>_. []) a (vlist airlines ! a) (sy_airlines S ! a)"
    using system_start_ok [OF assms(1-3), of "\<lambda>_ _. []" "\<lambda>_ _. []"] assms(4,5) by auto
  have n: "length (cargo_of (vlist airlines)) = ?n"
    by (simp add: cargo_of_def)
  have "total_due (sy_airlines S) = 0"
    using S(4,5) by (simp add: total_due_def fresh_airline_def)
  then show ?thesis
    using S fresh_live [OF S(5) sys_okD(5) [OF ok]] n by (simp add: live_def)
qed

lemma sys_reach_live:
  "sys_reach T S0 S \<Longrightarrow> sys_ok nc ps cargo T S0 \<Longrightarrow> live S0 \<Longrightarrow> live S"
proof (induction rule: sys_reach.induct)
  case (reach_step S x S')
  then show ?case
    using act_live sys_reach_ok by blast
qed

section \<open>Why it ends\<close>

text \<open>The map stops for a signal, because nothing is wanted any more, or after 70000 turns.\<close>

definition stops_well :: "system_state \<Rightarrow> bool" where
  "stops_well S \<longleftrightarrow> ms_exits (sy_map S) = [] \<and> ms_turn (sy_map S) \<le> 70000 \<and>
     (sy_pc S \<in> {M_Ending, M_Ended} \<longrightarrow> demand (ms_map (sy_map S)) = 0 \<or> ms_turn (sy_map S) = 70000)"

lemma map_move_stops:
  assumes "map_move nc cargo pc st inbox pc' st' inbox'" "next_map st st' new" "sim_wf (ms_map st)"
    and "ms_exits st = []" "ms_turn st \<le> 70000" "pc \<in> {M_Ending, M_Ended} \<longrightarrow> demand (ms_map st) = 0 \<or> ms_turn st = 70000"
  shows "ms_exits st' = [] \<and> ms_turn st' \<le> 70000 \<and>
    (pc' \<in> {M_Ending, M_Ended} \<longrightarrow> demand (ms_map st') = 0 \<or> ms_turn st' = 70000)"
proof -
  have e: "ms_exits st' = []"
    using assms(2,4) by (simp add: next_map_def)
  have d: "demand (ms_map st) = 0 \<longrightarrow> demand (ms_map st') = 0"
    using assms(2) demand_nonneg [of "ms_map st'"] sim_wfD(1) [of "ms_map st'"] by (auto simp: next_map_def evolves_def)
  show ?thesis
    using assms(1)
  proof (cases rule: map_move.cases)
    case turn_stop
    then show ?thesis
      using assms(4,5) e d by auto
  qed (use assms(5,6) e d in auto)
qed

lemma act_stops:
  assumes "sys_ok nc ps cargo T S" "stops_well S" "act T x S = Returns S'"
  shows "stops_well S'"
proof (cases "x = The_Map")
  case True
  let ?n = "length cargo" and ?as = "sy_airlines S"
  note ok = sys_okD [OF assms(1)]
  obtain pc' st' inbox' where r: "map_action (vec_of [0..<?n]) ?n T (sy_pc S) (sy_map S) (sy_inbox S) = Returns (pc', st', inbox')"
    and S': "S' = S\<lparr>sy_pc := pc', sy_map := st'\<lparr>ms_sent := []\<rparr>, sy_inbox := inbox', sy_airlines := deliver (ms_sent st') ?as\<rparr>"
    using assms(3) ok(4) True
    by (cases "map_action (vec_of [0..<?n]) ?n T (sy_pc S) (sy_map S) (sy_inbox S)") (auto simp: act.simps)
  have m: "map_move nc cargo (sy_pc S) (sy_map S) (sy_inbox S) pc' st' inbox'"
    using map_action_moves [OF ok(1,6,3)] r by simp
  obtain new where new: "next_map (sy_map S) st' new"
    using map_move_counts [OF m ok(3,6)] by blast
  have "sim_wf (ms_map (sy_map S))"
    using ok(1) by (simp add: map_good_def)
  from map_move_stops [OF m new this] show ?thesis
    using assms(2) by (simp add: stops_well_def S')
next
  case False
  have same: "sy_map S' = sy_map S \<and> sy_pc S' = sy_pc S" if "airline_acts a f S = Returns S'" for a f
    using that by (cases "f (sy_airlines S ! a)") (auto split: if_splits)
  have "sy_map S' = sy_map S \<and> sy_pc S' = sy_pc S"
    using assms(3) False same by (cases x) (auto simp only: act.simps)
  then show ?thesis
    using assms(2) by (simp add: stops_well_def)
qed

lemma sys_reach_stops:
  "sys_reach T S0 S \<Longrightarrow> sys_ok nc ps cargo T S0 \<Longrightarrow> stops_well S0 \<Longrightarrow> stops_well S"
proof (induction rule: sys_reach.induct)
  case (reach_step S x S')
  then show ?case
    using act_stops sys_reach_ok by blast
qed

text \<open>Once everything has ended nobody acts any more.\<close>

lemma all_ended_blocks: "all_ended S \<Longrightarrow> act T x S = Blocks"
  by (cases x) (auto simp: all_ended_def act.simps listener_action_def thread_action_def list_all_length)

lemma stuck_iff_ended:
  assumes "sys_ok nc ps cargo T S" "live S"
  shows "(\<forall>x. act T x S = Blocks) \<longleftrightarrow> all_ended S"
proof
  assume "\<forall>x. act T x S = Blocks"
  then show "all_ended S"
    using system_goes_on [OF assms] by auto
qed (simp add: all_ended_blocks)

end
