(* ===== verification/Semaphores.thy ===== *)
theory Semaphores
  imports Fifo_Interface
begin

text \<open>
  \<open>utils/sem.c\<close>: semaphores on top of System V semaphore sets, and what their users rely on.

  The system keeps a table of sets, each with its key, its id and its value (indeterminate
  until \<open>SETVAL\<close>). What else the system decides are lists consumed by the calls:
  \<open>os_gets\<close> and \<open>os_ctls\<close> say which \<open>semget\<close> and \<open>semctl\<close> fail for a reason of their own,
  \<open>os_eintr\<close> which \<open>semop\<close> is interrupted by a signal. \<open>os_key\<close> is the static variable
  \<open>key\<close> of the file, \<open>os_fresh\<close> the id the system gives out next.
\<close>

record sem_entry =
  se_key :: int
  se_id :: int
  se_val :: "int option"

record sem_os =
  os_key :: int
  os_fresh :: int
  os_table :: "sem_entry list"
  os_gets :: mallocs
  os_ctls :: mallocs
  os_eintr :: "bool list"

definition SEMVMX :: int where
  "SEMVMX = 32767"

section \<open>System calls\<close>

datatype get_result = Made int | Exists | Failed

text \<open>\<open>semget\<close> with \<open>IPC_CREAT | IPC_EXCL\<close>.\<close>

definition semget :: "int \<Rightarrow> sem_os \<Rightarrow> get_result \<times> sem_os" where
  "semget key os =
     (if list_ex (\<lambda>e. se_key e = key) (os_table os) then (Exists, os)
      else
        (let (ok, rest) = alloc (os_gets os) in
         if \<not> ok then (Failed, os\<lparr>os_gets := rest\<rparr>)
         else
           (Made (os_fresh os),
            os\<lparr>os_gets := rest, os_fresh := os_fresh os + 1,
               os_table := os_table os @ [\<lparr>se_key = key, se_id = os_fresh os, se_val = None\<rparr>]\<rparr>)))"

definition find_sem :: "int \<Rightarrow> sem_os \<Rightarrow> sem_entry option" where
  "find_sem sem os = find (\<lambda>e. se_id e = sem) (os_table os)"

definition put_value :: "int \<Rightarrow> int \<Rightarrow> sem_os \<Rightarrow> sem_os" where
  "put_value sem v os =
     os\<lparr>os_table := map (\<lambda>e. if se_id e = sem then e\<lparr>se_val := Some v\<rparr> else e) (os_table os)\<rparr>"

text \<open>\<open>semctl\<close> with \<open>SETVAL\<close>, \<open>GETVAL\<close> and \<open>IPC_RMID\<close>: -1 when the set is not there.\<close>

definition semctl_setval :: "int \<Rightarrow> int \<Rightarrow> sem_os \<Rightarrow> int \<times> sem_os" where
  "semctl_setval sem v os =
     (let (ok, rest) = alloc (os_ctls os); os' = os\<lparr>os_ctls := rest\<rparr> in
      if \<not> ok \<or> find_sem sem os = None \<or> v < 0 \<or> SEMVMX < v then (- 1, os') else (0, put_value sem v os'))"

definition semctl_rmid :: "int \<Rightarrow> sem_os \<Rightarrow> int \<times> sem_os" where
  "semctl_rmid sem os =
     (if find_sem sem os = None then (- 1, os)
      else (0, os\<lparr>os_table := filter (\<lambda>e. se_id e \<noteq> sem) (os_table os)\<rparr>))"

section \<open>The functions of the file\<close>

text \<open>Every key that is taken leaves fewer keys to meet.\<close>

lemma keys_from_less:
  assumes "\<exists>e \<in> set es. se_key e = k"
  shows "length (filter (\<lambda>e. k + 1 \<le> se_key e) es) < length (filter (\<lambda>e. k \<le> se_key e) es)"
proof -
  have le: "length (filter (\<lambda>e. k + 1 \<le> se_key e) xs) \<le> length (filter (\<lambda>e. k \<le> se_key e) xs)" for xs
    by (induction xs) auto
  from assms obtain us e ws where "es = us @ e # ws" "se_key e = k"
    by (metis split_list)
  then show ?thesis
    using le [of us] le [of ws] by simp
qed

text \<open>The search for a free key. Counting the key past the largest \<open>int\<close> is undefined.\<close>

function sem_search :: "sem_os \<Rightarrow> (int \<times> sem_os) option" where
  "sem_search os =
     (case iadd (os_key os) 1 of
        None \<Rightarrow> None
      | Some next \<Rightarrow>
          (case semget (os_key os) os of
             (Exists, os') \<Rightarrow> sem_search (os'\<lparr>os_key := next\<rparr>)
           | (Failed, os') \<Rightarrow> Some (- 1, os'\<lparr>os_key := next\<rparr>)
           | (Made i, os') \<Rightarrow> Some (i, os'\<lparr>os_key := next\<rparr>)))"
  by pat_completeness auto
termination
proof (relation "measure (\<lambda>os. length (filter (\<lambda>e. os_key os \<le> se_key e) (os_table os)))")
  fix os :: sem_os and "next" r os'
  assume a: "iadd (os_key os) 1 = Some next" "(r, os') = semget (os_key os) os" "r = Exists"
  then have e: "\<exists>e \<in> set (os_table os). se_key e = os_key os" "os' = os" "next = os_key os + 1"
    by (auto simp: semget_def list_ex_iff Let_def dest: iadd_SomeD split: if_splits prod.splits)
  with keys_from_less [OF e(1)] show "(os'\<lparr>os_key := next\<rparr>, os) \<in> measure (\<lambda>os. length (filter (\<lambda>e. os_key os \<le> se_key e) (os_table os)))"
    by simp
qed simp

declare sem_search.simps [simp del]

definition ipc_sem_destroy :: "int \<Rightarrow> sem_os \<Rightarrow> int \<times> sem_os" where
  "ipc_sem_destroy sem os = (if - 1 = sem then (0, os) else semctl_rmid sem os)"

definition ipc_sem_create :: "int \<Rightarrow> sem_os \<Rightarrow> (int \<times> sem_os) option" where
  "ipc_sem_create value os = do {
     (sem, os1) \<leftarrow> sem_search os;
     if sem = - 1 then Some (- 1, os1)
     else
       (let (r, os2) = semctl_setval sem value os1 in
        if r = - 1 then Some (- 1, snd (ipc_sem_destroy sem os2)) else Some (sem, os2))
   }"

text \<open>\<open>semop\<close> is called again after each interruption.\<close>

fun skip_eintr :: "bool list \<Rightarrow> bool list" where
  "skip_eintr [] = []"
| "skip_eintr (i # is) = (if i then skip_eintr is else is)"

definition ipc_sem_wait :: "int \<Rightarrow> sem_os \<Rightarrow> (int \<times> sem_os) outcome" where
  "ipc_sem_wait sem os =
     (let os' = os\<lparr>os_eintr := skip_eintr (os_eintr os)\<rparr> in
      case find_sem sem os of
        None \<Rightarrow> Returns (- 1, os')
      | Some e \<Rightarrow>
          (case se_val e of
             None \<Rightarrow> Faults
           | Some v \<Rightarrow> if v < 1 then Blocks else Returns (0, put_value sem (v - 1) os')))"

definition ipc_sem_post :: "int \<Rightarrow> sem_os \<Rightarrow> (int \<times> sem_os) outcome" where
  "ipc_sem_post sem os =
     (let os' = os\<lparr>os_eintr := skip_eintr (os_eintr os)\<rparr> in
      case find_sem sem os of
        None \<Rightarrow> Returns (- 1, os')
      | Some e \<Rightarrow>
          (case se_val e of
             None \<Rightarrow> Faults
           | Some v \<Rightarrow> if SEMVMX < v + 1 then Returns (- 1, os') else Returns (0, put_value sem (v + 1) os')))"

definition ipc_sem_value :: "int \<Rightarrow> sem_os \<Rightarrow> int option" where
  "ipc_sem_value sem os = (case find_sem sem os of None \<Rightarrow> Some (- 1) | Some e \<Rightarrow> se_val e)"

section \<open>Well-formed tables\<close>

definition sems_wf :: "sem_os \<Rightarrow> bool" where
  "sems_wf os \<longleftrightarrow> distinct (map se_id (os_table os)) \<and> distinct (map se_key (os_table os)) \<and>
     list_all (\<lambda>e. 0 \<le> se_id e \<and> se_id e < os_fresh os) (os_table os) \<and> 0 \<le> os_fresh os"



lemma find_put_value:
  "find_sem s (put_value sem v os) =
     map_option (\<lambda>e. if se_id e = sem then e\<lparr>se_val := Some v\<rparr> else e) (find_sem s os)"
proof -
  have "find (\<lambda>e. se_id e = s) (map (\<lambda>e. if se_id e = sem then e\<lparr>se_val := Some v\<rparr> else e) es) =
      map_option (\<lambda>e. if se_id e = sem then e\<lparr>se_val := Some v\<rparr> else e) (find (\<lambda>e. se_id e = s) es)" for es
    by (induction es) auto
  then show ?thesis
    by (simp add: find_sem_def put_value_def)
qed

section \<open>Creating\<close>

definition keys_from :: "sem_os \<Rightarrow> nat" where
  "keys_from os = length (filter (\<lambda>e. os_key os \<le> se_key e) (os_table os))"

text \<open>The search stops at the first free key.\<close>

lemma sem_search_result:
  assumes "sem_search os = Some (i, os')" "os_gets os = []"
  shows "\<exists>k. os_key os \<le> k \<and> k \<notin> se_key ` set (os_table os) \<and> {os_key os..<k} \<subseteq> se_key ` set (os_table os) \<and>
    os_key os' = k + 1 \<and> os_gets os' = [] \<and> os_ctls os' = os_ctls os \<and> i = os_fresh os \<and> os_fresh os' = os_fresh os + 1 \<and>
    os_table os' = os_table os @ [\<lparr>se_key = k, se_id = i, se_val = None\<rparr>]"
  using assms
proof (induction os arbitrary: i os' rule: sem_search.induct)
  case (1 os)
  obtain nk where n: "iadd (os_key os) 1 = Some nk" "nk = os_key os + 1"
    using "1.prems"(1) iadd_SomeD by (fastforce simp: sem_search.simps [of os] split: option.splits)
  show ?case
  proof (cases "list_ex (\<lambda>e. se_key e = os_key os) (os_table os)")
    case True
    then have g: "semget (os_key os) os = (Exists, os)"
      by (simp add: semget_def)
    have "sem_search (os\<lparr>os_key := nk\<rparr>) = Some (i, os')"
      using "1.prems" n g by (simp add: sem_search.simps [of os])
    from "1.IH" [OF n(1) g [symmetric] refl this] "1.prems"(2) obtain k where
      k: "nk \<le> k" "k \<notin> se_key ` set (os_table os)" "{nk..<k} \<subseteq> se_key ` set (os_table os)" "os_key os' = k + 1"
        "os_gets os' = []" "os_ctls os' = os_ctls os" "i = os_fresh os" "os_fresh os' = os_fresh os + 1"
        "os_table os' = os_table os @ [\<lparr>se_key = k, se_id = i, se_val = None\<rparr>]"
      by auto
    moreover have "{os_key os..<k} \<subseteq> insert (os_key os) {nk..<k}" "os_key os \<in> se_key ` set (os_table os)"
      using n True by (auto simp: list_ex_iff intro: rev_image_eqI)
    ultimately show ?thesis
      using n(2) by (intro exI [of _ k]) (simp, blast)
  next
    case False
    then have "os_key os \<notin> se_key ` set (os_table os)"
      by (auto simp: list_ex_iff)
    then show ?thesis
      using "1.prems" n False
      by (intro exI [of _ "os_key os"])
        (auto simp: sem_search.simps [of os] semget_def Let_def split: if_splits prod.splits)
  qed
qed

lemma sem_search_returns:
  assumes "INT_MIN \<le> os_key os" "os_key os + int (keys_from os) < INT_MAX"
  shows "sem_search os \<noteq> None"
  using assms
proof (induction os rule: sem_search.induct)
  case (1 os)
  have n: "iadd (os_key os) 1 = Some (os_key os + 1)"
    using "1.prems" by (simp add: in_int_def)
  show ?case
  proof (cases "list_ex (\<lambda>e. se_key e = os_key os) (os_table os)")
    case True
    then have g: "semget (os_key os) os = (Exists, os)"
      by (simp add: semget_def)
    have "keys_from (os\<lparr>os_key := os_key os + 1\<rparr>) < keys_from os"
      using True keys_from_less [of "os_table os" "os_key os"] by (simp add: keys_from_def list_ex_iff)
    then show ?thesis
      using "1.IH" [OF n g [symmetric] refl] "1.prems" n g by (simp add: sem_search.simps [of os])
  next
    case False
    then show ?thesis
      using n by (auto simp: sem_search.simps [of os] semget_def Let_def split: prod.splits)
  qed
qed

text \<open>A new semaphore is different from all others and has the value asked for.\<close>

lemma ipc_sem_create_ok:
  assumes "sems_wf os" "os_gets os = []" "os_ctls os = []" "0 \<le> value" "value \<le> SEMVMX"
    and "INT_MIN \<le> os_key os" "os_key os + int (length (os_table os)) < INT_MAX"
  shows "\<exists>sem os'. ipc_sem_create value os = Some (sem, os') \<and> sems_wf os' \<and> 0 \<le> sem \<and> find_sem sem os = None \<and>
    ipc_sem_value sem os' = Some value \<and> (\<forall>s. s \<noteq> sem \<longrightarrow> ipc_sem_value s os' = ipc_sem_value s os) \<and>
    (\<exists>e. find_sem sem os' = Some e) \<and> os_gets os' = [] \<and> os_ctls os' = [] \<and> os_key os \<le> os_key os' \<and>
    os_key os' \<le> os_key os + int (length (os_table os)) + 1 \<and> length (os_table os') = length (os_table os) + 1"
proof -
  have "keys_from os \<le> length (os_table os)"
    by (simp add: keys_from_def)
  then obtain i os1 where s: "sem_search os = Some (i, os1)"
    using sem_search_returns [OF assms(6)] assms(7) by fastforce
  have fresh: "0 \<le> os_fresh os" "\<forall>e \<in> set (os_table os). se_id e < os_fresh os" "\<forall>e \<in> set (os_table os). 0 \<le> se_id e"
    using assms(1) by (simp_all add: sems_wf_def list_all_iff)
  obtain k where k: "k \<notin> se_key ` set (os_table os)" "os_ctls os1 = []" "i = os_fresh os" "os_fresh os1 = os_fresh os + 1"
    "os_table os1 = os_table os @ [\<lparr>se_key = k, se_id = i, se_val = None\<rparr>]"
    and key: "os_key os \<le> k" "{os_key os..<k} \<subseteq> se_key ` set (os_table os)" "os_key os1 = k + 1" "os_gets os1 = []"
    using sem_search_result [OF s assms(2)] assms(3) by auto
  have "card {os_key os..<k} \<le> length (os_table os)"
    using card_mono [OF _ key(2)] card_image_le [of "set (os_table os)" se_key] card_length [of "os_table os"] by simp
  then have bound: "k \<le> os_key os + int (length (os_table os))"
    using key(1) by simp
  have none: "find (\<lambda>e. se_id e = i) (os_table os) = None"
    using fresh(2) k(3) by (auto simp: find_None_all)
  have found: "find (\<lambda>e. se_id e = s) (xs @ [y]) =
      (case find (\<lambda>e. se_id e = s) xs of None \<Rightarrow> if se_id y = s then Some y else None | Some e \<Rightarrow> Some e)" for s xs and y :: sem_entry
    by (induction xs) auto
  have f1: "find_sem s os1 = (if s = i then Some \<lparr>se_key = k, se_id = i, se_val = None\<rparr> else find_sem s os)" for s
    using none by (auto simp: find_sem_def k(5) found split: option.splits)
  let ?os2 = "put_value i value (os1\<lparr>os_ctls := []\<rparr>)"
  have set: "semctl_setval i value os1 = (0, ?os2)"
    using f1 [of i] assms(4,5) k(2) by (simp add: semctl_setval_def find_sem_def)
  have f2: "find_sem s ?os2 = (if s = i then Some \<lparr>se_key = k, se_id = i, se_val = Some value\<rparr> else find_sem s os)" for s
  proof -
    have "find_sem s (os1\<lparr>os_ctls := []\<rparr>) = find_sem s os1"
      by (simp add: find_sem_def)
    moreover have "se_id e = s" if "find_sem s os = Some e" for e
      using find_Some_in [OF that [unfolded find_sem_def]] by simp
    ultimately show ?thesis
      using f1 [of s] by (auto simp: find_put_value map_option_case split: option.splits)
  qed
  have "distinct (map se_id (os_table os1))" "distinct (map se_key (os_table os1))"
    using assms(1) k fresh(2) by (auto simp: sems_wf_def)
  then have "sems_wf ?os2"
    using fresh k by (auto simp: sems_wf_def put_value_def o_def list_all_iff if_distrib [of se_id] if_distrib [of se_key] cong: if_cong)
  moreover have "ipc_sem_create value os = Some (i, ?os2)"
    using s k(3) fresh(1) set by (simp add: ipc_sem_create_def)
  ultimately show ?thesis
    using fresh(1) k none f2 key bound
    by (intro exI [of _ i] exI [of _ ?os2]) (simp add: ipc_sem_value_def find_sem_def, simp add: put_value_def)
qed

section \<open>What users rely on\<close>

datatype sem_op = Wait | Post

fun run_sem :: "('s \<Rightarrow> (int \<times> 's) outcome) \<Rightarrow> ('s \<Rightarrow> (int \<times> 's) outcome) \<Rightarrow> 's \<Rightarrow> sem_op list \<Rightarrow> 's outcome" where
  "run_sem wait post s [] = Returns s"
| "run_sem wait post s (op # ops) =
     (case (case op of Wait \<Rightarrow> wait s | Post \<Rightarrow> post s) of
        Blocks \<Rightarrow> Blocks | Faults \<Rightarrow> Faults | Returns (_, s') \<Rightarrow> run_sem wait post s' ops)"

definition waits :: "sem_op list \<Rightarrow> int" where
  "waits ops = int (length (filter ((=) Wait) ops))"

definition posts :: "sem_op list \<Rightarrow> int" where
  "posts ops = int (length (filter ((=) Post) ops))"

lemma waits_posts_simps [simp]:
  "waits [] = 0" "waits (Wait # ops) = waits ops + 1" "waits (Post # ops) = waits ops"
  "posts [] = 0" "posts (Wait # ops) = posts ops" "posts (Post # ops) = posts ops + 1"
  by (simp_all add: waits_def posts_def)

locale counting_semaphore =
  fixes wait post :: "'s \<Rightarrow> (int \<times> 's) outcome"
    and val :: "'s \<Rightarrow> int"
    and inv :: "'s \<Rightarrow> bool"
    and limit :: int
  assumes nonneg: "inv s \<Longrightarrow> 0 \<le> val s"
    and wait_zero: "inv s \<Longrightarrow> val s = 0 \<Longrightarrow> wait s = Blocks"
    and wait_pos: "inv s \<Longrightarrow> 0 < val s \<Longrightarrow> \<exists>s'. wait s = Returns (0, s') \<and> inv s' \<and> val s' = val s - 1"
    and post_room: "inv s \<Longrightarrow> val s < limit \<Longrightarrow> \<exists>s'. post s = Returns (0, s') \<and> inv s' \<and> val s' = val s + 1"
begin

text \<open>
  Nothing is lost: the value is what was there, plus the posts, minus the waits, as long as it
  never grows past the limit.
\<close>

lemma run_balance:
  assumes "inv s" "\<forall>k. val s + posts (take k ops) - waits (take k ops) \<le> limit"
  shows "case run_sem wait post s ops of
      Faults \<Rightarrow> False
    | Blocks \<Rightarrow> True
    | Returns s' \<Rightarrow> inv s' \<and> val s' = val s + posts ops - waits ops \<and> waits ops \<le> val s + posts ops"
  using assms
proof (induction ops arbitrary: s)
  case (Cons op ops)
  have later: "val s + posts (op # take k ops) - waits (op # take k ops) \<le> limit" for k
    using Cons.prems(2) [rule_format, of "Suc k"] by simp
  show ?case
  proof (cases op)
    case Wait
    show ?thesis
    proof (cases "val s = 0")
      case True
      then show ?thesis
        using wait_zero [OF Cons.prems(1)] by (simp add: Wait)
    next
      case False
      then obtain s' where "wait s = Returns (0, s')" "inv s'" "val s' = val s - 1"
        using wait_pos [OF Cons.prems(1)] nonneg [OF Cons.prems(1)] by fastforce
      moreover have "val s' + posts (take k ops) - waits (take k ops) \<le> limit" for k
        using later [of k] \<open>val s' = _\<close> by (simp add: Wait)
      ultimately show ?thesis
        using Cons.IH [of s'] by (auto simp: Wait split: outcome.splits)
    qed
  next
    case Post
    then obtain s' where "post s = Returns (0, s')" "inv s'" "val s' = val s + 1"
      using post_room [OF Cons.prems(1)] later [of 0] by fastforce
    moreover have "val s' + posts (take k ops) - waits (take k ops) \<le> limit" for k
      using later [of k] \<open>val s' = _\<close> by (simp add: Post)
    ultimately show ?thesis
      using Cons.IH [of s'] by (auto simp: Post split: outcome.splits)
  qed
qed (simp add: nonneg)

text \<open>A run gets stuck only where more waits than posts and initial permits have been made.\<close>

lemma run_goes_on:
  assumes "inv s" "\<forall>k. val s + posts (take k ops) - waits (take k ops) \<le> limit"
    and "\<forall>k. waits (take k ops) \<le> val s + posts (take k ops)"
  shows "\<exists>s'. run_sem wait post s ops = Returns s'"
  using assms
proof (induction ops arbitrary: s)
  case (Cons op ops)
  have later: "val s + posts (op # take k ops) - waits (op # take k ops) \<le> limit"
    "waits (op # take k ops) \<le> val s + posts (op # take k ops)" for k
    using Cons.prems(2,3) [rule_format, of "Suc k"] by simp_all
  show ?case
  proof (cases op)
    case Wait
    then obtain s' where "wait s = Returns (0, s')" "inv s'" "val s' = val s - 1"
      using wait_pos [OF Cons.prems(1)] later(2) [of 0] by fastforce
    moreover have "val s' + posts (take k ops) - waits (take k ops) \<le> limit"
      "waits (take k ops) \<le> val s' + posts (take k ops)" for k
      using later [of k] \<open>val s' = _\<close> by (simp_all add: Wait)
    ultimately show ?thesis
      using Cons.IH [of s'] by (simp add: Wait)
  next
    case Post
    then obtain s' where "post s = Returns (0, s')" "inv s'" "val s' = val s + 1"
      using post_room [OF Cons.prems(1)] later(1) [of 0] by fastforce
    then show ?thesis
      using Cons.IH [of s'] later by (simp add: Post algebra_simps)
  qed
qed simp

end

text \<open>A semaphore of the system is one.\<close>

definition sem_ready :: "int \<Rightarrow> sem_os \<Rightarrow> bool" where
  "sem_ready sem os \<longleftrightarrow> (\<exists>e v. find_sem sem os = Some e \<and> se_id e = sem \<and> se_val e = Some v \<and> 0 \<le> v)"

definition sem_val :: "int \<Rightarrow> sem_os \<Rightarrow> int" where
  "sem_val sem os = the (ipc_sem_value sem os)"

lemma sem_ready_put:
  assumes "sem_ready sem os" "0 \<le> v"
  shows "sem_ready sem (put_value sem v (os\<lparr>os_eintr := is\<rparr>)) \<and> sem_val sem (put_value sem v (os\<lparr>os_eintr := is\<rparr>)) = v"
proof -
  have "find_sem s (os\<lparr>os_eintr := is\<rparr>) = find_sem s os" for s
    by (simp add: find_sem_def)
  then show ?thesis
    using assms by (auto simp: sem_ready_def sem_val_def ipc_sem_value_def find_put_value)
qed

interpretation sysv: counting_semaphore "ipc_sem_wait sem" "ipc_sem_post sem" "sem_val sem" "sem_ready sem" SEMVMX for sem
proof unfold_locales
  fix os
  assume ready: "sem_ready sem os"
  then obtain e v where e: "find_sem sem os = Some e" "se_id e = sem" "se_val e = Some v" "0 \<le> v" "sem_val sem os = v"
    by (auto simp: sem_ready_def sem_val_def ipc_sem_value_def)
  show "0 \<le> sem_val sem os"
    using e by simp
  show "ipc_sem_wait sem os = Blocks" if "sem_val sem os = 0"
    using e that by (simp add: ipc_sem_wait_def)
  show "\<exists>s'. ipc_sem_wait sem os = Returns (0, s') \<and> sem_ready sem s' \<and> sem_val sem s' = sem_val sem os - 1"
    if "0 < sem_val sem os"
    using e that sem_ready_put [OF ready, of "v - 1"] by (simp add: ipc_sem_wait_def)
  show "\<exists>s'. ipc_sem_post sem os = Returns (0, s') \<and> sem_ready sem s' \<and> sem_val sem s' = sem_val sem os + 1"
    if "sem_val sem os < SEMVMX"
    using e that sem_ready_put [OF ready, of "v + 1"] by (simp add: ipc_sem_post_def)
qed

end
