(* ===== verification/Output_Thread.thy ===== *)
theory Output_Thread
  imports Map_Process Semaphores
begin

text \<open>
  \<open>app/output.c\<close>: the thread that shows the state of the simulation, as it is built without
  \<open>WAIT\<close>; Wait\_Builds adds what \<open>WAIT\<close> changes, among it the line \<open>Pause_Line\<close>.

  The screen maps its rows to what was last written there; the columns, the texts and the
  calls that only repaint (\<open>refresh\<close>, \<open>initscr\<close>, \<open>endwin\<close>) are left out. \<open>out_posts\<close>
  counts the posts of the semaphore that paces the map process; Whole\_Program makes each of them a post
  of the semaphore on which the map waits.
\<close>

definition AIRLINE_INITIAL_LINE :: int where "AIRLINE_INITIAL_LINE = 6"
definition TURN_LINE :: int where "TURN_LINE = 2"
definition MAP_LINE_1 :: int where "MAP_LINE_1 = 3"
definition MAP_LINE_2 :: int where "MAP_LINE_2 = 4"
definition FINAL_LINE_2 :: int where "FINAL_LINE_2 = 3"
definition FINAL_LINE_3 :: int where "FINAL_LINE_3 = 4"

lemmas screen_lines = AIRLINE_INITIAL_LINE_def TURN_LINE_def MAP_LINE_1_def MAP_LINE_2_def FINAL_LINE_2_def FINAL_LINE_3_def

datatype line =
    Turn_Line int
  | Completion_Line "real option"
  | Cities_Line int int
  | Airline_Line int int int
  | Pause_Line
  | Over_Line
  | Ninja_Line

record output_state =
  out_turn :: int
  out_maxLine :: int
  out_firstOfTurn :: bool
  out_screen :: "int \<Rightarrow> line option"
  out_posts :: nat

definition mvprintw :: "int \<Rightarrow> line \<Rightarrow> output_state \<Rightarrow> output_state" where
  "mvprintw row l st = st\<lparr>out_screen := (out_screen st)(row := Some l)\<rparr>"

definition erase :: "output_state \<Rightarrow> output_state" where
  "erase st = st\<lparr>out_screen := (\<lambda>_. None)\<rparr>"

definition output_init :: output_state where
  "output_init = \<lparr>out_turn = 0, out_maxLine = AIRLINE_INITIAL_LINE, out_firstOfTurn = True,
     out_screen = (\<lambda>_. None), out_posts = 0\<rparr>"

text \<open>\<open>MessageTypeMapStatus\<close>.\<close>

definition show_map_status :: "real option \<Rightarrow> int \<Rightarrow> int \<Rightarrow> output_state \<Rightarrow> output_state option" where
  "show_map_status completionPercentage citiesSatisfied totalCities st = do {
     let st1 = mvprintw TURN_LINE (Turn_Line (out_turn st)) st;
     next_turn \<leftarrow> iadd (out_turn st) 1;
     let st2 = st1\<lparr>out_turn := next_turn, out_firstOfTurn := True\<rparr>;
     let st3 = mvprintw MAP_LINE_1 (Completion_Line completionPercentage) st2;
     let st4 = mvprintw MAP_LINE_2 (Cities_Line citiesSatisfied totalCities) st3;
     Some (st4\<lparr>out_posts := out_posts st4 + 1\<rparr>)
   }"

text \<open>\<open>MessageTypeAirlineStatus\<close>.\<close>

definition show_airline_status :: "AirlineStatus \<Rightarrow> output_state \<Rightarrow> output_state option" where
  "show_airline_status s st = do {
     let st1 = (if out_firstOfTurn st then (erase st)\<lparr>out_firstOfTurn := False\<rparr> else st);
     curLine \<leftarrow> iadd AIRLINE_INITIAL_LINE (as_id s);
     let st2 = (if curLine > out_maxLine st1 then st1\<lparr>out_maxLine := curLine\<rparr> else st1);
     Some (mvprintw curLine (Airline_Line (as_id s) (as_planesFlying s) (as_totalPlanes s)) st2)
   }"

definition show_message :: "Message \<Rightarrow> output_state \<Rightarrow> output_state option" where
  "show_message msg st =
     (if msg_type msg = MessageTypeMapStatus then
        (case msg_payload msg of P_MapStatus p c t \<Rightarrow> show_map_status p c t st | _ \<Rightarrow> None)
      else if msg_type msg = MessageTypeAirlineStatus then
        (case msg_payload msg of P_AirlineStatus s \<Rightarrow> show_airline_status s st | _ \<Rightarrow> None)
      else Some st)"

definition show_end :: "output_state \<Rightarrow> output_state option" where
  "show_end st = do {
     a \<leftarrow> iadd (out_maxLine st) FINAL_LINE_2;
     b \<leftarrow> iadd (out_maxLine st) FINAL_LINE_3;
     Some (mvprintw b Ninja_Line (mvprintw a Over_Line st))
   }"

text \<open>The loop and what follows it. The thread waits when the queue is empty.\<close>

fun output_loop :: "output_state \<Rightarrow> Message list \<Rightarrow> output_state outcome" where
  "output_loop st [] = Blocks"
| "output_loop st (msg # inbox) =
     (if msg_type msg = MessageTypeEndOutput then or_fault (show_end st)
      else then_do (or_fault (show_message msg st)) (\<lambda>st'. output_loop st' inbox))"

definition run_output :: "Message list \<Rightarrow> output_state outcome" where
  "run_output inbox = output_loop output_init inbox"

section \<open>What is shown\<close>

definition is_map_status :: "Message \<Rightarrow> bool" where
  "is_map_status m \<longleftrightarrow> msg_type m = MessageTypeMapStatus"

definition statuses :: "Message list \<Rightarrow> nat" where
  "statuses ms = length (filter is_map_status ms)"

text \<open>Messages whose payload is what the type says, with ids of airlines that fit a screen.\<close>

definition shown_ok :: "Message \<Rightarrow> bool" where
  "shown_ok m \<longleftrightarrow>
     (case msg_payload m of
        P_MapStatus _ _ _ \<Rightarrow> msg_type m = MessageTypeMapStatus
      | P_AirlineStatus s \<Rightarrow> msg_type m = MessageTypeAirlineStatus \<and> 0 \<le> as_id s \<and> as_id s \<le> 1000000
      | _ \<Rightarrow> msg_type m \<notin> {MessageTypeMapStatus, MessageTypeAirlineStatus, MessageTypeEndOutput})"

lemma statuses_simps [simp]:
  "statuses [] = 0" "statuses (m # ms) = (if is_map_status m then 1 else 0) + statuses ms"
  "statuses (ms @ ns) = statuses ms + statuses ns"
  by (simp_all add: statuses_def)

definition display_inv :: "nat \<Rightarrow> output_state \<Rightarrow> bool" where
  "display_inv n st \<longleftrightarrow> out_turn st = int n \<and> out_posts st = n \<and>
     6 \<le> out_maxLine st \<and> out_maxLine st \<le> 1000006 \<and>
     (\<forall>r l. out_screen st r = Some l \<longrightarrow> 0 < r \<and> r \<le> out_maxLine st) \<and>
     (0 < n \<longrightarrow> out_firstOfTurn st \<longrightarrow> out_screen st TURN_LINE = Some (Turn_Line (int n - 1)))"

lemma show_message_ok:
  assumes "shown_ok m" "display_inv n st" "n < 1000000"
  shows "\<exists>st'. show_message m st = Some st' \<and> display_inv (n + (if is_map_status m then 1 else 0)) st'"
proof (cases "msg_payload m")
  case (P_MapStatus p c t)
  then have t: "msg_type m = MessageTypeMapStatus"
    using assms(1) by (simp add: shown_ok_def)
  have "in_int (out_turn st + 1)"
    using assms(2,3) by (simp add: display_inv_def in_int_def INT_MIN_def INT_MAX_def)
  then show ?thesis
    using assms(2) t P_MapStatus
    by (auto simp: show_message_def show_map_status_def mvprintw_def screen_lines is_map_status_def display_inv_def)
next
  case (P_AirlineStatus s)
  then have t: "msg_type m = MessageTypeAirlineStatus" "0 \<le> as_id s" "as_id s \<le> 1000000"
    using assms(1) by (simp_all add: shown_ok_def)
  then have "in_int (AIRLINE_INITIAL_LINE + as_id s)"
    by (simp add: screen_lines in_int_def INT_MIN_def INT_MAX_def)
  then show ?thesis
    using assms(2) t P_AirlineStatus
    by (fastforce simp: show_message_def show_airline_status_def mvprintw_def erase_def screen_lines is_map_status_def
        display_inv_def)
qed (use assms in \<open>auto simp: shown_ok_def show_message_def is_map_status_def\<close>)

lemma output_loop_shows:
  assumes "list_all shown_ok ms" "display_inv n st" "n + statuses ms < 1000000"
  shows "\<exists>st'. output_loop st (ms @ [marshall_end_output]) = Returns st' \<and> out_turn st' = int (n + statuses ms) \<and>
    out_posts st' = n + statuses ms \<and> 6 \<le> out_maxLine st' \<and>
    out_screen st' (out_maxLine st' + FINAL_LINE_2) = Some Over_Line \<and>
    (\<forall>r l. out_screen st' r = Some l \<longrightarrow> 0 < r \<and> r \<le> out_maxLine st' + FINAL_LINE_3)"
  using assms
proof (induction ms arbitrary: n st)
  case Nil
  have "in_int (out_maxLine st + 3)" "in_int (out_maxLine st + 4)"
    using Nil.prems(2) by (simp_all add: display_inv_def in_int_def INT_MIN_def INT_MAX_def)
  then show ?case
    using Nil.prems(2)
    by (fastforce simp: marshall_end_output_def show_end_def mvprintw_def screen_lines display_inv_def)
next
  case (Cons m ms)
  obtain st1 where st1: "show_message m st = Some st1" "display_inv (n + (if is_map_status m then 1 else 0)) st1"
    using show_message_ok [of m n st] Cons.prems by auto
  have "msg_type m \<noteq> MessageTypeEndOutput"
    using Cons.prems(1) by (auto simp: shown_ok_def split: MessagePayload.splits)
  then show ?case
    using Cons.IH [OF _ st1(2)] Cons.prems st1(1) by (simp add: add.assoc)
qed

lemma display_init: "display_inv 0 output_init"
  by (simp add: display_inv_def output_init_def screen_lines)

end
