(* ===== verification/Map_Display.thy ===== *)
theory Map_Display
  imports Output_Thread
begin

text \<open>
  What the map process hands to the output thread, turn by turn: the number of turns it
  plays and the status messages it sends agree.
\<close>

definition status_ok :: "PlaneMessage \<Rightarrow> bool" where
  "status_ok msg \<longleftrightarrow>
     (case msg of PM_AirlineStatus m \<Rightarrow> 0 \<le> as_id (asm_status m) \<and> as_id (asm_status m) \<le> 1000000 | _ \<Rightarrow> True)"

text \<open>From one state to the next \<open>t\<close> turns are played and \<open>n\<close> map statuses are sent.\<close>

definition played :: "nat \<Rightarrow> nat \<Rightarrow> map_state \<Rightarrow> map_state \<Rightarrow> bool" where
  "played t n st st' \<longleftrightarrow> ms_turn st' = ms_turn st + int t \<and>
     (\<exists>new. ms_output st' = ms_output st @ new \<and> list_all shown_ok new \<and> statuses new = n)"

lemma played_refl: "ms_turn st' = ms_turn st \<Longrightarrow> ms_output st' = ms_output st \<Longrightarrow> played 0 0 st st'"
  by (simp add: played_def)

lemma played_trans: "played t n st st1 \<Longrightarrow> played u k st1 st2 \<Longrightarrow> played (t + u) (n + k) st st2"
  by (fastforce simp: played_def)

lemma transmit_frame:
  "ms_turn (snd (transmit conn msg st)) = ms_turn st" "ms_output (snd (transmit conn msg st)) = ms_output st"
  by (simp_all add: transmit_def split: prod.split)

lemma send_all_played: "send_all t conns st = Some st' \<Longrightarrow> played 0 0 st st'"
proof -
  assume s: "send_all t conns st = Some st'"
  let ?body = "\<lambda>i st. do {
          conn \<leftarrow> vec_deref conns (int i);
          let (ok, st') = transmit conn (MM_Type t) st;
          Some (if ok then Next st' else Exit st' :: (map_state, map_state) flow)
        }"
  obtain r where r: "for_loop (getVectorSize conns) 0 ?body st = Some r" "after_loop (Some r) Some = Some st'"
    using s by (cases "for_loop (getVectorSize conns) 0 ?body st") (auto simp: send_all_def)
  have "case r of Exit x \<Rightarrow> played 0 0 st x | Next x \<Rightarrow> played 0 0 st x"
  proof (rule for_loop_preserves [OF r(1)])
    fix j x f
    assume x: "played 0 0 st x" and b: "?body j x = Some f"
    obtain conn where conn: "vec_deref conns (int j) = Some conn"
      using b by (cases "vec_deref conns (int j)") auto
    obtain ok y where y: "transmit conn (MM_Type t) x = (ok, y)"
      by (metis prod.collapse)
    have "played 0 0 x y"
      using transmit_frame [of conn "MM_Type t" x] y by (auto intro: played_refl)
    with x have "played 0 0 st y"
      using played_trans by fastforce
    then show "case f of Exit x \<Rightarrow> played 0 0 st x | Next x \<Rightarrow> played 0 0 st x"
      using b conn y by (auto split: if_splits)
  qed (rule played_refl, simp_all)
  with r(2) show ?thesis
    by (cases r) auto
qed

lemma handle_unload_played: "handle_unload conns msg st = Some st' \<Longrightarrow> played 0 0 st st'"
  using transmit_frame by (fastforce simp: handle_unload_def comm_unloaded_stock_def Let_def bind_eq_Some_conv intro!: played_refl)

lemma handle_check_played: "handle_check conns msg st = Some st' \<Longrightarrow> played 0 0 st st'"
  using transmit_frame by (fastforce simp: handle_check_def comm_give_destinations_def Let_def bind_eq_Some_conv intro!: played_refl)

lemma comm_send_airline_status_played:
  "0 \<le> i \<Longrightarrow> i \<le> 1000000 \<Longrightarrow> played 0 0 st (comm_send_airline_status a b i st)"
  by (simp add: comm_send_airline_status_def push_output_def played_def marshall_send_airline_status_def shown_ok_def
      is_map_status_def)

lemma phase1_played:
  assumes "phase1 conns k i st inbox = Returns (st', rest)" "list_all status_ok inbox"
  shows "played 0 0 st st' \<and> list_all status_ok rest"
  using assms
proof (induction conns k i st inbox rule: phase1.induct)
  case (2 conns k i st msg inbox)
  consider "i = k" | "i \<noteq> k" "pm_type msg = MessageTypeAirlineDone" | "i \<noteq> k" "pm_type msg = MessageTypeUnloadStock"
    | "i \<noteq> k" "pm_type msg \<noteq> MessageTypeAirlineDone" "pm_type msg \<noteq> MessageTypeUnloadStock"
    by blast
  then show ?case
  proof cases
    case 3
    then obtain m st1 where m: "msg = PM_StockState m" "handle_unload conns m st = Some st1"
      "phase1 conns k i st1 inbox = Returns (st', rest)"
      using "2.prems"(1) by (cases msg; cases "handle_unload conns (case msg of PM_StockState m \<Rightarrow> m) st") auto
    then have "played 0 0 st1 st' \<and> list_all status_ok rest"
      using "2.IH"(2) [of m st1] 3 "2.prems"(2) by simp
    then show ?thesis
      using handle_unload_played [OF m(2)] played_trans [of 0 0 st st1 0 0 st'] by simp
  qed (use 2 in \<open>auto intro: played_refl\<close>)
qed (auto intro: played_refl split: if_splits)

lemma phase2_played:
  assumes "phase2 conns k i st inbox = Returns (st', rest)" "list_all status_ok inbox"
  shows "played 0 0 st st' \<and> list_all status_ok rest"
  using assms
proof (induction conns k i st inbox rule: phase2.induct)
  case (2 conns k i st msg inbox)
  consider "i = k" | "i \<noteq> k" "pm_type msg = MessageTypeAirlineStatus" | "i \<noteq> k" "pm_type msg = MessageTypeCheckDestinations"
    | "i \<noteq> k" "pm_type msg \<noteq> MessageTypeAirlineStatus" "pm_type msg \<noteq> MessageTypeCheckDestinations"
    by blast
  then show ?case
  proof cases
    case 2
    then obtain m where m: "msg = PM_AirlineStatus m"
      using "2.prems"(1) by (cases msg) auto
    let ?st1 = "comm_send_airline_status (as_planesFlying (asm_status m)) (as_totalPlanes (asm_status m)) (as_id (asm_status m)) st"
    have "played 0 0 st ?st1"
      using "2.prems"(2) m by (intro comm_send_airline_status_played) (auto simp: status_ok_def)
    moreover have "played 0 0 ?st1 st' \<and> list_all status_ok rest"
      using "2.IH"(1) [of m] 2 m "2.prems" by simp
    ultimately show ?thesis
      using played_trans [of 0 0 st ?st1 0 0 st'] by simp
  next
    case 3
    then obtain m st1 where m: "msg = PM_CheckDestinations m" "handle_check conns m st = Some st1"
      "phase2 conns k i st1 inbox = Returns (st', rest)"
      using "2.prems"(1) by (cases msg; cases "handle_check conns (case msg of PM_CheckDestinations m \<Rightarrow> m) st") auto
    then have "played 0 0 st1 st' \<and> list_all status_ok rest"
      using "2.IH"(2) [of m st1] 3 "2.prems"(2) by simp
    then show ?thesis
      using handle_check_played [OF m(2)] played_trans [of 0 0 st st1 0 0 st'] by simp
  qed (use 2 in \<open>auto intro: played_refl\<close>)
qed (auto intro: played_refl split: if_splits)

lemma output_map_status_played: "output_map_status t st = Some st' \<Longrightarrow> played 0 1 st st'"
  by (auto simp: output_map_status_def send_map_status_def Let_def bind_eq_Some_conv push_output_def played_def
      marshall_send_map_status_def shown_ok_def is_map_status_def)

lemma or_fault_Returns: "or_fault m = Returns x \<longleftrightarrow> m = Some x"
  by (cases m) auto

lemma then_do_Returns: "then_do m f = Returns y \<longleftrightarrow> (\<exists>x. m = Returns x \<and> f x = Returns y)"
  by (cases m) auto

lemma play_turn_played:
  assumes "play_turn conns k t st inbox = Returns (st', rest)" "list_all status_ok inbox"
  shows "played 1 1 st st' \<and> list_all status_ok rest"
proof -
  let ?st0 = "st\<lparr>ms_turn := ms_turn st + 1\<rparr>"
  obtain st1 st2 in2 st3 st4 where
    s: "comm_turn_step conns ?st0 = Some st1" "phase1 conns k 0 st1 inbox = Returns (st2, in2)"
      "comm_turn_continue conns st2 = Some st3" "phase2 conns k 0 st3 in2 = Returns (st4, rest)"
      "output_map_status t st4 = Some st'"
    using assms(1) by (auto simp: play_turn_def then_do_Returns or_fault_Returns)
  have p: "played 0 0 st1 st2" "played 0 0 st3 st4" "list_all status_ok rest"
    using phase1_played [OF s(2) assms(2)] phase2_played [OF s(4)] by auto
  have "played 1 0 st ?st0"
    by (simp add: played_def)
  note played_trans [OF this send_all_played [OF s(1) [unfolded comm_turn_step_def]]]
  note played_trans [OF this p(1)]
  note played_trans [OF this send_all_played [OF s(3) [unfolded comm_turn_continue_def]]]
  note played_trans [OF this p(2)]
  note played_trans [OF this output_map_status_played [OF s(5)]]
  with p(3) show ?thesis
    by simp
qed

lemma look_exit_played: "look_exit st = (e, st') \<Longrightarrow> played 0 0 st st'"
  by (auto simp: look_exit_def Let_def intro!: played_refl split: prod.splits)

lemma run_turns_played:
  assumes "run_turns n conns k t st inbox = Returns (Some (st', rest))" "list_all status_ok inbox"
  shows "\<exists>turns. played turns turns st st'"
  using assms
proof (induction n arbitrary: st inbox)
  case 0
  obtain e0 st0 e1 st1 where e: "look_exit st = (e0, st0)" "look_exit st0 = (e1, st1)"
    by (metis prod.collapse)
  then have "played 0 0 st st0" "played 0 0 st st1"
    using look_exit_played [OF e(1)] played_trans [OF look_exit_played [OF e(1)] look_exit_played [OF e(2)]] by simp_all
  moreover have "st' = st0 \<or> st' = st1"
    using "0.prems"(1) e
    by (auto simp: run_turns.simps [of 0] then_do_Returns or_fault_Returns split: if_splits)
  ultimately show ?case
    by blast
next
  case (Suc n)
  obtain e0 st0 e1 st1 where e: "look_exit st = (e0, st0)" "look_exit st0 = (e1, st1)"
    by (metis prod.collapse)
  have p: "played 0 0 st st0" "played 0 0 st st1"
    using look_exit_played [OF e(1)] played_trans [OF look_exit_played [OF e(1)] look_exit_played [OF e(2)]] by simp_all
  consider "st' = st0" | "st' = st1"
    | st2 in2 where "play_turn conns k t st1 inbox = Returns (st2, in2)" "run_turns n conns k t st2 in2 = Returns (Some (st', rest))"
    using Suc.prems(1) e
    by (auto simp: run_turns.simps [of "Suc n"] then_do_Returns or_fault_Returns split: if_splits)
  then show ?case
  proof cases
    case 3
    note q = play_turn_played [OF 3(1) Suc.prems(2)]
    obtain turns where "played turns turns st2 st'"
      using Suc.IH [OF 3(2)] q by blast
    then show ?thesis
      using played_trans [OF p(2) played_trans [OF conjunct1 [OF q]]] by fastforce
  qed (use p in blast)+
qed

lemma send_airlines_status_played:
  assumes "send_airlines_status airlines st = Some st'" "vec_inv airlines"
    and "\<And>a. a \<in> set (vlist airlines) \<Longrightarrow> 0 \<le> airline_id a \<and> airline_id a \<le> 1000000"
  shows "played 0 0 st st'"
proof -
  let ?f = "\<lambda>a st. comm_send_airline_status (int (airline_numberOfPlanes a)) (int (airline_numberOfPlanes a)) (airline_id a) st"
  have sent: "send_airlines_status airlines st = Some (fold ?f (vlist airlines) st)"
    unfolding send_airlines_status_def
    by (subst vec.scan [OF assms(2)], subst list_loop_fold [where f = ?f]) simp_all
  have steps: "played 0 0 st (fold ?f xs st)" if "\<And>a. a \<in> set xs \<Longrightarrow> 0 \<le> airline_id a \<and> airline_id a \<le> 1000000" for xs st
    using that
  proof (induction xs arbitrary: st)
    case (Cons a xs)
    have "played 0 0 st (?f a st)"
      using Cons.prems [of a] by (intro comm_send_airline_status_played) auto
    moreover have "played 0 0 (?f a st) (fold ?f xs (?f a st))"
      using Cons.prems by (intro Cons.IH) auto
    ultimately show ?case
      using played_trans [of 0 0 st "?f a st" 0 0] by simp
  qed (simp add: played_refl)
  have "st' = fold ?f (vlist airlines) st"
    using sent assms(1) by simp
  then show ?thesis
    using steps [OF assms(3)] by simp
qed

text \<open>A whole run: the first status, and one more after every turn.\<close>

lemma runMap_played:
  assumes "runMap n airlines conns st inbox = Returns (Some (st', rest))" "list_all status_ok inbox" "vec_inv airlines"
    and "\<And>a. a \<in> set (vlist airlines) \<Longrightarrow> 0 \<le> airline_id a \<and> airline_id a \<le> 1000000"
  shows "\<exists>new. ms_output st' = ms_output st @ new \<and> list_all shown_ok new \<and> 0 \<le> ms_turn st' \<and> statuses new = nat (ms_turn st') + 1"
proof -
  obtain t st1 st2 where s: "send_airlines_status airlines st = Some st1" "output_map_status t st1 = Some st2"
    "run_turns n conns (getVectorSize airlines) t (st2\<lparr>ms_turn := 0\<rparr>) inbox = Returns (Some (st', rest))"
    using assms(1) by (auto simp: runMap_def then_do_Returns or_fault_Returns)
  obtain turns where "played turns turns (st2\<lparr>ms_turn := 0\<rparr>) st'"
    using run_turns_played [OF s(3) assms(2)] by blast
  then obtain new1 where n1: "ms_turn st' = int turns" "ms_output st' = ms_output st2 @ new1" "list_all shown_ok new1"
    "statuses new1 = turns"
    by (auto simp: played_def)
  have "played 0 1 st st2"
    using played_trans [OF send_airlines_status_played [OF s(1) assms(3,4)] output_map_status_played [OF s(2)]] by simp
  then obtain new0 where n0: "ms_output st2 = ms_output st @ new0" "list_all shown_ok new0" "statuses new0 = 1"
    by (auto simp: played_def)
  show ?thesis
    using n0 n1 by (intro exI [of _ "new0 @ new1"]) simp
qed


section \<open>When the airlines answer\<close>

text \<open>What is left after the \<open>k\<close>-th message of type \<open>t\<close>.\<close>

fun skip_messages :: "MessageType \<Rightarrow> nat \<Rightarrow> PlaneMessage list \<Rightarrow> PlaneMessage list option" where
  "skip_messages t 0 ms = Some ms"
| "skip_messages t (Suc k) [] = None"
| "skip_messages t (Suc k) (m # ms) = skip_messages t (if pm_type m = t then k else Suc k) ms"

text \<open>Every airline ends both phases in each of the next \<open>k\<close> turns.\<close>

fun answered :: "nat \<Rightarrow> nat \<Rightarrow> PlaneMessage list \<Rightarrow> bool" where
  "answered n 0 inbox = True"
| "answered n (Suc k) inbox =
     (case skip_messages MessageTypeAirlineDone n inbox of
        None \<Rightarrow> False
      | Some ms \<Rightarrow> (case skip_messages MessageTypeAirlineStatus n ms of None \<Rightarrow> False | Some ms' \<Rightarrow> answered n k ms'))"

lemma then_do_Blocks: "then_do m f = Blocks \<longleftrightarrow> m = Blocks \<or> (\<exists>x. m = Returns x \<and> f x = Blocks)"
  by (cases m) auto

lemma or_fault_not_Blocks [simp]: "or_fault m \<noteq> Blocks"
  by (cases m) auto

lemma skip_messages_next:
  "k \<noteq> 0 \<Longrightarrow> skip_messages t k (m # ms) = skip_messages t (if pm_type m = t then k - 1 else k) ms"
  by (cases k) auto

lemma phase1_skips:
  assumes "i \<le> k"
  shows "(phase1 conns k i st inbox = Blocks \<longrightarrow> skip_messages MessageTypeAirlineDone (k - i) inbox = None) \<and>
    (phase1 conns k i st inbox = Returns (st', rest) \<longrightarrow> skip_messages MessageTypeAirlineDone (k - i) inbox = Some rest)"
  using assms
proof (induction conns k i st inbox rule: phase1.induct)
  case (1 conns k i st)
  then show ?case
    by (cases "k - i") auto
next
  case (2 conns k i st msg inbox)
  consider "i = k" | "i \<noteq> k" "pm_type msg = MessageTypeAirlineDone" | "i \<noteq> k" "pm_type msg = MessageTypeUnloadStock"
    | "i \<noteq> k" "pm_type msg \<noteq> MessageTypeAirlineDone" "pm_type msg \<noteq> MessageTypeUnloadStock"
    by blast
  then show ?case
  proof cases
    case 3
    note skip = skip_messages_next [of "k - i" MessageTypeAirlineDone msg inbox]
    show ?thesis
    proof (cases msg)
      case (PM_StockState m)
      show ?thesis
      proof (cases "handle_unload conns m st")
        case (Some st1)
        then show ?thesis
          using "2.IH"(2) [of m st1] 3 PM_StockState "2.prems" skip by simp
      qed (use 3 PM_StockState in simp)
    qed (use 3 in simp_all)
  qed (use 2 skip_messages_next [of "k - i" MessageTypeAirlineDone msg inbox] in auto)
qed

lemma phase2_skips:
  assumes "i \<le> k"
  shows "(phase2 conns k i st inbox = Blocks \<longrightarrow> skip_messages MessageTypeAirlineStatus (k - i) inbox = None) \<and>
    (phase2 conns k i st inbox = Returns (st', rest) \<longrightarrow> skip_messages MessageTypeAirlineStatus (k - i) inbox = Some rest)"
  using assms
proof (induction conns k i st inbox rule: phase2.induct)
  case (1 conns k i st)
  then show ?case
    by (cases "k - i") auto
next
  case (2 conns k i st msg inbox)
  note skip = skip_messages_next [of "k - i" MessageTypeAirlineStatus msg inbox]
  consider "i = k" | "i \<noteq> k" "pm_type msg = MessageTypeAirlineStatus" | "i \<noteq> k" "pm_type msg = MessageTypeCheckDestinations"
    | "i \<noteq> k" "pm_type msg \<noteq> MessageTypeAirlineStatus" "pm_type msg \<noteq> MessageTypeCheckDestinations"
    by blast
  then show ?case
  proof cases
    case 2
    then show ?thesis
      using "2.IH"(1) "2.prems" skip by (cases msg) auto
  next
    case 3
    show ?thesis
    proof (cases msg)
      case (PM_CheckDestinations m)
      show ?thesis
      proof (cases "handle_check conns m st")
        case (Some st1)
        then show ?thesis
          using "2.IH"(2) [of m st1] 3 PM_CheckDestinations "2.prems" skip by simp
      qed (use 3 PM_CheckDestinations in simp)
    qed (use 3 in simp_all)
  qed (use 2 skip in auto)
qed

lemma play_turn_skips:
  assumes "skip_messages MessageTypeAirlineDone k inbox = Some ms" "skip_messages MessageTypeAirlineStatus k ms = Some ms'"
  shows "play_turn conns k T st inbox \<noteq> Blocks \<and> (\<forall>st' rest. play_turn conns k T st inbox = Returns (st', rest) \<longrightarrow> rest = ms')"
  using phase1_skips [of 0 k conns _ inbox] phase2_skips [of 0 k conns _ ms] assms
  by (fastforce simp: play_turn_def then_do_Blocks then_do_Returns or_fault_Returns)

lemma run_turns_answered:
  assumes "answered k n inbox"
  shows "run_turns n conns k T st inbox \<noteq> Blocks"
  using assms
proof (induction n arbitrary: st inbox)
  case (Suc n)
  obtain ms ms' where s: "skip_messages MessageTypeAirlineDone k inbox = Some ms"
    "skip_messages MessageTypeAirlineStatus k ms = Some ms'" "answered k n ms'"
    using Suc.prems(1) by (auto split: option.splits)
  show ?case
    using play_turn_skips [OF s(1,2)] Suc.IH [OF s(3)]
    by (auto simp: run_turns.simps [of "Suc n"] then_do_Blocks Let_def split: prod.split)
qed (simp add: run_turns.simps [of 0] then_do_Blocks Let_def split: prod.split)

lemma runMap_answered:
  assumes "answered (getVectorSize airlines) n inbox"
  shows "runMap n airlines conns st inbox \<noteq> Blocks"
proof -
  have "run_turns n conns (getVectorSize airlines) T st1 inbox \<noteq> Blocks" for T st1
    by (rule run_turns_answered [OF assms])
  then show ?thesis
    by (auto simp: runMap_def then_do_Blocks)
qed

end
