(* ===== verification/Start_Up.thy ===== *)
theory Start_Up
  imports Parsed_Map Map_Display Airline_Start
begin

text \<open>
  \<open>app/main.c\<close>: from the arguments of the program to its end.

  A configuration is what the folder holds: the text of the file \<open>map\<close> and the dirents in
  the order of \<open>readdir\<close>, each with its text; \<^const>\<open>None\<close> stands for a file that cannot be
  opened. Allocation fails only where a parameter says so, and every \<open>ipc_establish\<close> and
  \<open>fork\<close> succeeds. The map process is run with the messages the airlines send, and the
  output thread, after it, with the messages of the map process: this is what the two compute. When
  each of them waits for the other, at the queue between them and at the semaphore, is the
  matter of Whole\_Program, which starts where \<open>start_simulation\<close> starts the two.
\<close>

section \<open>Reading the folder\<close>

text \<open>\<open>strncmp(entry->d_name, "airline_", 8) == 0\<close>.\<close>

definition is_airline_file :: "string \<Rightarrow> bool" where
  "is_airline_file name \<longleftrightarrow> take 8 name = ''airline_''"

text \<open>\<open>sprintf\<close> into a buffer of 512 bytes.\<close>

definition path_in :: "string \<Rightarrow> string \<Rightarrow> string option" where
  "path_in dir name = strcpy_into 512 (dir @ ''/'' @ name)"

text \<open>The id of an airline is its index, set after it is in the vector.\<close>

fun load_airlines :: "string \<Rightarrow> (string \<times> string option) list \<Rightarrow> airline vector \<Rightarrow> sim_map \<Rightarrow>
  (airline vector \<times> sim_map) option" where
  "load_airlines dir [] airlines m = Some (airlines, m)"
| "load_airlines dir ((d_name, file) # dirents) airlines m =
     (if is_airline_file d_name then
        path_in dir d_name \<bind> (\<lambda>_.
        parseAirlines [] file m \<bind> (\<lambda>(parsed, m').
        parsed \<bind> (\<lambda>l.
        addToVector [] airlines l \<bind> (\<lambda>(k, airlines', _).
        load_airlines dir dirents (vec_store airlines' (nat k) (l\<lparr>airline_id := k\<rparr>)) m'))))
      else load_airlines dir dirents airlines m)"

section \<open>The processes and their names\<close>

definition PARENT_NAME :: string where
  "PARENT_NAME = ''map_ipc''"

text \<open>\<open>sprintf(name, "%d_air", id)\<close>.\<close>

definition air_name :: "int \<Rightarrow> string" where
  "air_name i = print_int i @ ''_air''"

text \<open>\<open>run_airlines\<close>: every child with the name it listens to and the one it connects to.\<close>

definition run_airlines :: "airline vector \<Rightarrow> (string \<times> string \<times> airline) list option" where
  "run_airlines airlines =
     after_loop
       (for_loop (getVectorSize airlines) 0 (\<lambda>i children. do {
          self \<leftarrow> vec_deref airlines (int i);
          name \<leftarrow> strcpy_into 512 (air_name (airline_id self));
          Some (Next (children @ [(name, PARENT_NAME, self)]))
        }) [])
       Some"

text \<open>The connections of the map process, in a vector, and the names they lead to.\<close>

definition connect_airlines :: "nat \<Rightarrow> (nat vector \<times> string list) option" where
  "connect_airlines numAirlines =
     after_loop
       (for_loop numAirlines 0 (\<lambda>i (conns, names). do {
          name \<leftarrow> strcpy_into 512 (air_name (int i));
          (_, conns', _) \<leftarrow> addToVector [] conns i;
          Some (Next (conns', names @ [name]))
        }) (vec_of [], []))
       Some"

section \<open>The simulation\<close>

text \<open>\<open>do_map\<close> and \<open>start_map\<close>: the thread of the map runs \<open>runMap\<close> and is joined.\<close>

definition do_map :: "airline vector \<Rightarrow> nat vector \<Rightarrow> map_state \<Rightarrow> PlaneMessage list \<Rightarrow>
  (map_state \<times> PlaneMessage list) option outcome" where
  "do_map airlines conns st inbox = runMap 70000 airlines conns st inbox"

text \<open>
  \<open>start_simulation\<close> with \<open>start_output\<close>. \<open>al\<close> decides about the message queue, \<open>os\<close> about the
  semaphore; without them nothing is simulated.
\<close>

definition start_simulation :: "mallocs \<Rightarrow> sem_os \<Rightarrow> airline vector \<Rightarrow> nat vector \<Rightarrow> map_state \<Rightarrow> PlaneMessage list \<Rightarrow>
  (map_state \<times> output_state option) outcome" where
  "start_simulation al os airlines conns st inbox =
     (case message_queue_create al of
        (None, _) \<Rightarrow> Returns (st, None)
      | (Some _, _) \<Rightarrow>
          then_do (or_fault (ipc_sem_create 1 os)) (\<lambda>(outputSem, _).
            if outputSem = - 1 then Returns (st, None)
            else
              then_do (do_map airlines conns st inbox) (\<lambda>result.
                case result of
                  None \<Rightarrow> Faults
                | Some (st', _) \<Rightarrow>
                    (let st'' = comm_end_output st' in
                     then_do (run_output (ms_output st'')) (\<lambda>out. Returns (st'', Some out))))))"

datatype main_result = Usage | Aborted | Ended map_state "output_state option"

text \<open>
  \<open>main\<close>. \<open>log_ok\<close> and \<open>ipc\<close> are the results of \<open>mprintf_init\<close> and \<open>ipc_init\<close>, \<open>folder\<close> what
  \<open>opendir\<close> finds. A map that is NULL is handed on unchecked, and whatever comes next reads
  through it. At the end the children are told to end.
\<close>

definition main_program :: "string list \<Rightarrow> bool \<Rightarrow> int \<Rightarrow> (string option \<times> (string \<times> string option) list) option \<Rightarrow>
  mallocs \<Rightarrow> sem_os \<Rightarrow> bool list \<Rightarrow> bool list \<Rightarrow> PlaneMessage list \<Rightarrow> main_result outcome" where
  "main_program argv log_ok ipc folder al os writes exits inbox =
     (if length argv < 2 then Returns Usage
      else if \<not> log_ok \<or> ipc = - 1 then Returns Aborted
      else
        (case folder of
           None \<Rightarrow> Returns Aborted
         | Some (map_file, dirents) \<Rightarrow>
             then_do (or_fault (do {
               _ \<leftarrow> path_in (argv ! 1) ''map'';
               parsed \<leftarrow> parseMap [] map_file;
               m \<leftarrow> parsed;
               (airlines, m') \<leftarrow> load_airlines (argv ! 1) dirents (vec_of []) m;
               _ \<leftarrow> run_airlines airlines;
               (conns, _) \<leftarrow> connect_airlines (getVectorSize airlines);
               Some (airlines, m', conns)
             })) (\<lambda>(airlines, m, conns).
             then_do (start_simulation al os airlines conns
               \<lparr>ms_map = m, ms_turn = 0, ms_sent = [], ms_output = [], ms_writes = writes, ms_exits = exits\<rparr> inbox)
               (\<lambda>(st, out). then_do (or_fault (comm_end conns st)) (\<lambda>st'. Returns (Ended st' out))))))"

section \<open>The connections\<close>

lemma digits_val_inj: "decimal m = decimal n \<Longrightarrow> m = n"
  by (metis decimal_digits)

lemma print_int_inj: "0 \<le> i \<Longrightarrow> 0 \<le> j \<Longrightarrow> print_int i = print_int j \<Longrightarrow> i = j"
  by (auto simp: print_int_def dest: digits_val_inj)

lemma air_name_inj: "0 \<le> i \<Longrightarrow> 0 \<le> j \<Longrightarrow> air_name i = air_name j \<Longrightarrow> i = j"
  by (auto simp: air_name_def dest: print_int_inj)

text \<open>A number below \<open>10 ^ k\<close> has at most \<open>k\<close> digits.\<close>

lemma length_decimal_bound: "n < 10 ^ k \<Longrightarrow> 0 < k \<Longrightarrow> length (decimal n) \<le> k"
proof (induction k arbitrary: n)
  case (Suc k)
  show ?case
  proof (cases "n < 10")
    case False
    then have "n div 10 < 10 ^ k" "0 < k"
      using Suc.prems(1) by (auto intro: ccontr simp: less_mult_imp_div_less mult.commute)
    then show ?thesis
      using Suc.IH [of "n div 10"] False by (subst decimal.simps) simp
  qed (simp add: decimal.simps [of n])
qed simp

lemma air_name_fits: "n < 2147483648 \<Longrightarrow> strcpy_into 512 (air_name (int n)) = Some (air_name (int n))"
  using length_decimal_bound [of n 10] by (simp add: strcpy_into_def air_name_def print_int_def)

lemma connect_airlines_names:
  assumes "n < 2147483648"
  shows "connect_airlines n = Some (vec_of [0..<n], map (\<lambda>i. air_name (int i)) [0..<n])"
proof -
  let ?body = "\<lambda>i (conns, names). do {
          name \<leftarrow> strcpy_into 512 (air_name (int i));
          (_, conns', _) \<leftarrow> addToVector [] conns i;
          Some (Next (conns', names @ [name]) :: (nat vector \<times> string list, _) flow)
        }"
  have "\<exists>s'. for_loop n 0 ?body (vec_of [], []) = Some (Next s') \<and>
      s' = (vec_of [0..<0 + n], map (\<lambda>i. air_name (int i)) [0..<0 + n])"
  proof (rule for_loop_invariant [where I = "\<lambda>i s. s = (vec_of [0..<i], map (\<lambda>i. air_name (int i)) [0..<i])"])
    fix j s
    assume "j < 0 + n" "s = (vec_of [0..<j], map (\<lambda>i. air_name (int i)) [0..<j])"
    then show "\<exists>s'. ?body j s = Some (Next s') \<and> s' = (vec_of [0..<Suc j], map (\<lambda>i. air_name (int i)) [0..<Suc j])"
      using assms by (simp add: air_name_fits addToVector_vec_of)
  qed simp
  then show ?thesis
    by (simp add: connect_airlines_def)
qed

text \<open>The children of airlines whose ids are their indices.\<close>

definition ids_are_indices :: "airline vector \<Rightarrow> bool" where
  "ids_are_indices airlines \<longleftrightarrow> vec_inv airlines \<and>
     map airline_id (vlist airlines) = map int [0..<length (vlist airlines)]"

lemma run_airlines_children:
  assumes "ids_are_indices airlines"
  shows "run_airlines airlines = Some (map (\<lambda>a. (air_name (airline_id a), PARENT_NAME, a)) (vlist airlines))"
proof -
  let ?g = "\<lambda>a. (air_name (airline_id a), PARENT_NAME, a)"
  have inv: "vec_inv airlines" and ids: "map airline_id (vlist airlines) = map int [0..<length (vlist airlines)]"
    using assms by (simp_all add: ids_are_indices_def)
  have fits: "strcpy_into 512 (air_name (airline_id a)) = Some (air_name (airline_id a))" if a: "a \<in> set (vlist airlines)" for a
  proof -
    obtain i where i: "i < length (vlist airlines)" "a = vlist airlines ! i"
      using a by (metis in_set_conv_nth)
    then have "airline_id a = int i"
      using arg_cong [OF ids, of "\<lambda>xs. xs ! i"] by simp
    then show ?thesis
      using air_name_fits [of i] vec_inv_length [OF inv] i(1) by simp
  qed
  have "list_loop k (\<lambda>i a children. do {
          name \<leftarrow> strcpy_into 512 (air_name (airline_id a));
          Some (Next (children @ [(name, PARENT_NAME, a)]))
        }) xs cs = Some (Next (cs @ map ?g xs) :: ((string \<times> string \<times> airline) list, _) flow)"
    if "set xs \<subseteq> set (vlist airlines)" for k xs cs
    using that by (induction xs arbitrary: k cs) (auto simp: fits)
  from this [of "vlist airlines" 0 "[]"] show ?thesis
    unfolding run_airlines_def by (subst vec.scan [OF inv]) simp_all
qed

section \<open>The airlines of a folder\<close>

definition airline_of :: "string list \<Rightarrow> string list \<Rightarrow> nat \<Rightarrow> city_desc list \<Rightarrow> airline" where
  "airline_of names cnames i ps =
     \<lparr>airline_id = int i, airline_numberOfPlanes = length ps, airline_planes = planes_of names cnames ps\<rparr>"

fun airlines_from :: "nat \<Rightarrow> string list \<Rightarrow> string list \<Rightarrow> city_desc list list \<Rightarrow> airline list" where
  "airlines_from k names cnames [] = []"
| "airlines_from k names cnames (ps # pss) = airline_of names cnames k ps # airlines_from (Suc k) names cnames pss"

text \<open>The files of airlines say what \<open>pss\<close> says; other files do not matter.\<close>

definition folder_ok :: "string \<Rightarrow> string list \<Rightarrow> (string \<times> string option) list \<Rightarrow> city_desc list list \<Rightarrow> bool" where
  "folder_ok dir cnames dirents pss \<longleftrightarrow>
     list_all2 (\<lambda>(name, file) ps. path_in dir name \<noteq> None \<and> planes_ok cnames ps \<and>
         map_option tokens file = Some (print_int (int (length ps)) # city_tokens ps))
       (filter (\<lambda>(name, _). is_airline_file name) dirents) pss"

lemma planes_of_intern_all:
  assumes "set (goods ps) \<subseteq> set names"
  shows "planes_of (intern_all names ws) cnames ps = planes_of names cnames ps"
proof -
  have "fst ` set (snd (ps ! i)) \<subseteq> set (goods ps)" if "i < length ps" for i
  proof (cases "ps ! i")
    case (Pair c ws)
    then have "(c, ws) \<in> set ps"
      using nth_mem [OF that] by simp
    then show ?thesis
      unfolding goods_def Pair by auto
  qed
  then have "fst ` set (snd (ps ! i)) \<subseteq> set names" if "i < length ps" for i
    using assms that by blast
  then show ?thesis
    by (simp add: planes_of_def plane_of_def stocks_of_intern_all)
qed

lemma load_airlines_described:
  assumes "folder_ok dir (map fst cs) dirents pss" "map_cities m = vec_of (cities_of cnames cs)"
    and "map_product m = catalogue ns" "distinct ns" "length cs < 2147483648"
    and "length ns + length (concat (map goods pss)) < 2147483647" "length as + length pss < 2147483647"
    and "names = intern_all ns (concat (map goods pss))"
  shows "load_airlines dir dirents (vec_of as) m =
    Some (vec_of (as @ airlines_from (length as) names (map fst cs) pss), m\<lparr>map_product := catalogue names\<rparr>)"
  using assms
proof (induction dirents arbitrary: pss m ns as)
  case Nil
  then show ?case
    by (simp add: folder_ok_def)
next
  case (Cons e dirents)
  obtain d_name content where e: "e = (d_name, content)"
    by (cases e)
  show ?case
  proof (cases "is_airline_file d_name")
    case False
    then have "folder_ok dir (map fst cs) dirents pss"
      using Cons.prems(1) by (simp add: folder_ok_def e)
    then show ?thesis
      using Cons.IH [OF _ Cons.prems(2-8)] False by (simp add: e)
  next
    case True
    then obtain ps pss' body where ps: "pss = ps # pss'" "path_in dir d_name \<noteq> None" "planes_ok (map fst cs) ps"
        "content = Some body" "tokens body = print_int (int (length ps)) # city_tokens ps"
      and rest: "folder_ok dir (map fst cs) dirents pss'"
      using Cons.prems(1) by (auto simp: folder_ok_def e list_all2_Cons1)
    let ?ns = "intern_all ns (goods ps)"
    let ?m = "m\<lparr>map_product := catalogue ?ns\<rparr>"
    let ?a = "\<lparr>airline_id = 0, airline_numberOfPlanes = length ps, airline_planes = planes_of ?ns (map fst cs) ps\<rparr>"
    have parsed: "parseAirlines [] content m = Some (Some ?a, ?m)"
      using Cons.prems(5,6) unfolding ps(4)
      by (intro parseAirlines_planes [OF ps(5,3) Cons.prems(2-4)]) (simp_all add: ps(1))
    have names: "names = intern_all ?ns (concat (map goods pss'))"
      using Cons.prems(8) by (simp add: ps(1) intern_all_append)
    have a: "?a\<lparr>airline_id := int (length as)\<rparr> = airline_of names (map fst cs) (length as) ps"
      by (simp add: airline_of_def names planes_of_intern_all set_intern_all)
    have "load_airlines dir dirents (vec_of (as @ [airline_of names (map fst cs) (length as) ps])) ?m =
        Some (vec_of ((as @ [airline_of names (map fst cs) (length as) ps]) @
            airlines_from (length (as @ [airline_of names (map fst cs) (length as) ps])) names (map fst cs) pss'),
          ?m\<lparr>map_product := catalogue names\<rparr>)"
      using Cons.prems(2,5-7) length_intern_all [of ns "goods ps"]
      by (intro Cons.IH [OF rest _ _ distinct_intern_all [OF Cons.prems(4)] _ _ _ names]) (simp_all add: ps(1))
    then show ?thesis
      using True ps(2) parsed a by (auto simp: e ps(1) addToVector_vec_of)
  qed
qed

lemma airlines_from_ids:
  "length (airlines_from k names cnames pss) = length pss"
  "map airline_id (airlines_from k names cnames pss) = map int [k..<k + length pss]"
proof -
  show "length (airlines_from k names cnames pss) = length pss"
    by (induction pss arbitrary: k) simp_all
  show "map airline_id (airlines_from k names cnames pss) = map int [k..<k + length pss]"
    by (induction pss arbitrary: k) (simp_all add: airline_of_def upt_conv_Cons del: upt_Suc)
qed


section \<open>A whole run\<close>

lemma sim_wf_catalogue: "sim_wf m \<Longrightarrow> products_wf ps \<Longrightarrow> names_fit ps \<Longrightarrow> sim_wf (m\<lparr>map_product := ps\<rparr>)"
  by (simp add: sim_wf_def map_wf_def routes_wf_def)

lemma demand_catalogue [simp]: "demand (m\<lparr>map_product := ps\<rparr>) = demand m"
  by (simp add: demand_def)

lemma comm_end_ok:
  assumes "conns_wf conns n"
  shows "\<exists>st'. comm_end conns st = Some st' \<and> ms_map st' = ms_map st \<and> ms_turn st' = ms_turn st"
proof -
  let ?body = "\<lambda>i st. do {
      conn \<leftarrow> vec_deref conns (int i);
      Some (Next (snd (transmit conn (MM_Type MessageTypeEnd) st)) :: (map_state, map_state) flow)
    }"
  have "\<exists>st'. for_loop n 0 ?body st = Some (Next st') \<and> (ms_map st' = ms_map st \<and> ms_turn st' = ms_turn st)"
  proof (rule for_loop_invariant [where I = "\<lambda>i s. ms_map s = ms_map st \<and> ms_turn s = ms_turn st"])
    fix j :: nat and s :: map_state
    assume "j < 0 + n" "ms_map s = ms_map st \<and> ms_turn s = ms_turn st"
    then show "\<exists>s'. ?body j s = Some (Next s') \<and> ms_map s' = ms_map st \<and> ms_turn s' = ms_turn st"
      using conns_deref [OF assms, of "int j"] by simp
  qed simp
  moreover have "getVectorSize conns = n"
    using assms by (simp add: conns_wf_def)
  ultimately show ?thesis
    by (auto simp: comm_end_def)
qed

text \<open>A fresh semaphore can be made.\<close>

definition sems_free :: "sem_os \<Rightarrow> bool" where
  "sems_free os \<longleftrightarrow> sems_wf os \<and> os_gets os = [] \<and> os_ctls os = [] \<and> INT_MIN \<le> os_key os \<and>
     os_key os + int (length (os_table os)) < INT_MAX"

lemma sems_free_create: "sems_free os \<Longrightarrow> \<exists>sem os'. ipc_sem_create 1 os = Some (sem, os') \<and> sem \<noteq> - 1"
  using ipc_sem_create_ok [of os 1] by (fastforce simp: sems_free_def SEMVMX_def)

text \<open>What is seen of the end: the map, the turns and the screen.\<close>

definition good_end :: "int \<Rightarrow> bool \<Rightarrow> map_state \<Rightarrow> output_state option \<Rightarrow> bool" where
  "good_end T quiet st out \<longleftrightarrow>
     (case out of None \<Rightarrow> False | Some o' \<Rightarrow> out_turn o' = ms_turn st + 1 \<and> int (out_posts o') = ms_turn st + 1) \<and>
     0 \<le> demand (ms_map st) \<and> demand (ms_map st) \<le> T \<and> 0 \<le> ms_turn st \<and> ms_turn st \<le> 70000 \<and>
     (if quiet then demand (ms_map st) = 0 \<or> ms_turn st = 70000 else True)"

lemma start_simulation_result:
  assumes "sems_free os" "sim_wf (ms_map st)" "conns_wf conns (getVectorSize airlines)" "vec_inv airlines"
    and "list_all (msg_ok (getVectorSize airlines) (ms_map st)) inbox" "list_all status_ok inbox"
    and "\<And>a. a \<in> set (vlist airlines) \<Longrightarrow> 0 \<le> airline_id a \<and> airline_id a \<le> 1000000"
    and "ms_output st = []"
  shows "case start_simulation [] os airlines conns st inbox of
      Faults \<Rightarrow> False | Blocks \<Rightarrow> \<not> answered (getVectorSize airlines) 70000 inbox
    | Returns (st', out) \<Rightarrow> good_end (demand (ms_map st)) (ms_exits st = []) st' out"
proof -
  obtain sem os' where sem: "ipc_sem_create 1 os = Some (sem, os')" "sem \<noteq> - 1"
    using sems_free_create [OF assms(1)] by blast
  have q: "\<exists>q. message_queue_create [] = (Some q, [])"
    by (simp add: message_queue_create_def)
  have r: "run_result (st\<lparr>ms_turn := 0\<rparr>) (runMap 70000 airlines conns st inbox)"
    by (rule runMap_result [OF assms(2-5)])
  show ?thesis
  proof (cases "runMap 70000 airlines conns st inbox")
    case (Returns x)
    then obtain st1 rest where x: "x = Some (st1, rest)"
      using r by (auto simp: run_result_def split: option.splits)
    have run: "evolves (ms_map st) (ms_map st1)" "ms_turn st1 \<le> 70000"
      "ms_exits st = [] \<Longrightarrow> demand (ms_map st1) = 0 \<or> ms_turn st1 = 70000"
      using r by (simp_all add: run_result_def Returns x)
    obtain new where new: "ms_output st1 = new" "list_all shown_ok new" "0 \<le> ms_turn st1" "statuses new = nat (ms_turn st1) + 1"
      using runMap_played [OF Returns [unfolded x] assms(6,4,7)] assms(8) by auto
    have "0 + statuses new < 1000000"
      using run(2) new(3,4) by simp
    from output_loop_shows [OF new(2) display_init this] obtain out where
      out: "run_output (new @ [marshall_end_output]) = Returns out" "out_turn out = int (statuses new)"
        "out_posts out = statuses new"
      by (auto simp: run_output_def)
    have "ms_output (comm_end_output st1) = new @ [marshall_end_output]" "ms_map (comm_end_output st1) = ms_map st1"
      "ms_turn (comm_end_output st1) = ms_turn st1"
      using new(1) by (simp_all add: comm_end_output_def push_output_def)
    then show ?thesis
      using q sem Returns x out run new(3,4) by (auto simp: start_simulation_def do_map_def Let_def good_end_def evolves_def)
  qed (use r q sem runMap_answered [of airlines 70000 inbox conns st] in \<open>auto simp: start_simulation_def do_map_def run_result_def\<close>)
qed

text \<open>A good folder: the map and the airlines, all of them in the range of the program.\<close>

definition good_folder :: "string list \<Rightarrow> string \<Rightarrow> (string \<times> string option) list \<Rightarrow> city_desc list \<Rightarrow> road_desc list \<Rightarrow>
  city_desc list list \<Rightarrow> int \<Rightarrow> bool" where
  "good_folder argv contents dirents cs roads pss M \<longleftrightarrow>
     2 \<le> length argv \<and> path_in (argv ! 1) ''map'' \<noteq> None \<and> tokens contents = map_tokens cs roads \<and>
     desc_ok cs roads \<and> playable cs roads M \<and> folder_ok (argv ! 1) (map fst cs) dirents pss \<and>
     length pss \<le> 1000000 \<and> length (goods cs) + length (concat (map goods pss)) < 2147483647"

lemma folder_ok_words:
  assumes "folder_ok dir cnames dirents pss" "w \<in> set (concat (map goods pss))"
  shows "length w < CITY_NAME_MAX_LENGTH"
proof -
  obtain ps where ps: "ps \<in> set pss" "w \<in> set (goods ps)"
    using assms(2) by auto
  then have "planes_ok cnames ps"
    using assms(1) unfolding folder_ok_def
    by (auto simp: list_all2_conv_all_nth in_set_conv_nth)
  then show ?thesis
    using goods_fit [OF _ ps(2)] by (simp add: planes_ok_def)
qed

lemma good_folder_loaded:
  assumes "good_folder argv contents dirents cs roads pss M"
    and names: "names = intern_all [] (goods cs @ concat (map goods pss))"
  shows "\<exists>m. parseMap [] (Some contents) = Some (Some m) \<and>
    load_airlines (argv ! 1) dirents (vec_of []) m =
      Some (vec_of (airlines_from 0 names (map fst cs) pss), m\<lparr>map_product := catalogue names\<rparr>) \<and>
    sim_wf (m\<lparr>map_product := catalogue names\<rparr>) \<and> demand m = wanted cs"
proof -
  have desc: "tokens contents = map_tokens cs roads" "desc_ok cs roads" "playable cs roads M"
    and folder: "folder_ok (argv ! 1) (map fst cs) dirents pss"
    and size: "length pss \<le> 1000000" "length (goods cs) + length (concat (map goods pss)) < 2147483647"
    using assms(1) by (simp_all add: good_folder_def)
  obtain m where m: "floydMatrix (road_matrix (map fst cs) roads) (length cs) = Some m" "square (length cs) m"
    "list_all (list_all (\<lambda>d. 0 \<le> d \<and> in_int d)) m"
    using parsed_distances [OF desc(2,3)] by blast
  let ?m = "described_map cs m"
  let ?ns = "intern_all [] (goods cs)"
  have wf: "sim_wf ?m"
    by (rule described_sim_wf [OF desc(2,3) m(2,3)])
  have cat: "map_cities ?m = vec_of (cities_of ?ns cs)" "map_product ?m = catalogue ?ns"
    by (simp_all add: described_map_def)
  have ns: "names = intern_all ?ns (concat (map goods pss))"
    by (simp add: names intern_all_append)
  have "load_airlines (argv ! 1) dirents (vec_of []) ?m =
      Some (vec_of ([] @ airlines_from (length []) names (map fst cs) pss), ?m\<lparr>map_product := catalogue names\<rparr>)"
    using load_airlines_described [OF folder cat _ _ _ _ ns, of "[]"] size length_intern_all [of "[]" "goods cs"] desc(2)
    by (simp add: distinct_intern_all desc_ok_def)
  moreover have "products_wf (catalogue names)"
    using length_intern_all [of "[]" "goods cs @ concat (map goods pss)"] size
    by (intro catalogue_wf) (auto simp: names distinct_intern_all)
  moreover have "names_fit (catalogue names)"
    using goods_fit [of cs] folder_ok_words [OF folder] desc(2)
    by (intro names_fit_catalogue) (auto simp: names set_intern_all desc_ok_def)
  ultimately show ?thesis
    using sim_wf_catalogue [OF wf] parseMap_described [OF desc(1,2)] m(1)
    by (intro exI [of _ ?m]) (simp add: demand_described)
qed

lemma main_good:
  assumes "good_folder argv contents dirents cs roads pss M" "sems_free os" "ipc \<noteq> - 1"
    and "parseMap [] (Some contents) = Some (Some m)"
    and names: "names = intern_all [] (goods cs @ concat (map goods pss))"
    and "list_all (msg_ok (length pss) (m\<lparr>map_product := catalogue names\<rparr>)) inbox" "list_all status_ok inbox"
  shows "case main_program argv True ipc (Some (Some contents, dirents)) [] os writes exits inbox of
      Faults \<Rightarrow> False | Blocks \<Rightarrow> \<not> answered (length pss) 70000 inbox
    | Returns r \<Rightarrow> \<exists>st out. r = Ended st out \<and> good_end (wanted cs) (exits = []) st out"
proof -
  let ?as = "airlines_from 0 names (map fst cs) pss"
  let ?m = "m\<lparr>map_product := catalogue names\<rparr>"
  let ?st = "\<lparr>ms_map = ?m, ms_turn = 0, ms_sent = [], ms_output = [], ms_writes = writes, ms_exits = exits\<rparr>"
  let ?conns = "vec_of [0..<length pss]"
  have loaded: "load_airlines (argv ! 1) dirents (vec_of []) m = Some (vec_of ?as, ?m)" "sim_wf ?m" "demand m = wanted cs"
    using good_folder_loaded [OF assms(1) names] assms(4) by auto
  have len: "length pss \<le> 1000000" "2 \<le> length argv" "path_in (argv ! 1) ''map'' \<noteq> None"
    using assms(1) by (simp_all add: good_folder_def)
  have ids: "length ?as = length pss" "map airline_id ?as = map int [0..<length pss]"
    using airlines_from_ids [of 0] by simp_all
  have conns: "connect_airlines (length pss) = Some (?conns, map (\<lambda>i. air_name (int i)) [0..<length pss])"
    using len(1) by (intro connect_airlines_names) simp
  have children: "run_airlines (vec_of ?as) = Some (map (\<lambda>a. (air_name (airline_id a), PARENT_NAME, a)) ?as)"
    using run_airlines_children [of "vec_of ?as"] ids len(1) by (simp add: ids_are_indices_def)
  have bound: "0 \<le> airline_id a \<and> airline_id a \<le> 1000000" if "a \<in> set ?as" for a
  proof -
    have "airline_id a \<in> set (map int [0..<length pss])"
      using that ids(2) by (metis image_eqI list.set_map)
    then show ?thesis
      using len(1) by auto
  qed
  have cwf: "conns_wf ?conns (length pss)"
    using len(1) by (simp add: conns_wf_def)
  have st_eq: "demand (ms_map ?st) = wanted cs" "ms_exits ?st = exits"
    using loaded(3) by simp_all
  have "case start_simulation [] os (vec_of ?as) ?conns ?st inbox of
      Faults \<Rightarrow> False | Blocks \<Rightarrow> \<not> answered (getVectorSize (vec_of ?as)) 70000 inbox
    | Returns (st', out) \<Rightarrow> good_end (demand (ms_map ?st)) (ms_exits ?st = []) st' out"
    using loaded(2) ids(1) len(1) cwf bound assms(6,7)
    by (intro start_simulation_result [OF assms(2)]) simp_all
  then have sim: "case start_simulation [] os (vec_of ?as) ?conns ?st inbox of
      Faults \<Rightarrow> False | Blocks \<Rightarrow> \<not> answered (length pss) 70000 inbox
    | Returns (st', out) \<Rightarrow> good_end (wanted cs) (exits = []) st' out"
    unfolding st_eq getVectorSize_vec_of ids(1) .
  have main: "main_program argv True ipc (Some (Some contents, dirents)) [] os writes exits inbox =
      then_do (start_simulation [] os (vec_of ?as) ?conns ?st inbox)
        (\<lambda>(st, out). then_do (or_fault (comm_end ?conns st)) (\<lambda>st'. Returns (Ended st' out)))"
    using len(2,3) assms(3,4) loaded(1) conns children ids(1) by (auto simp: main_program_def)
  show ?thesis
  proof (cases "start_simulation [] os (vec_of ?as) ?conns ?st inbox")
    case (Returns x)
    obtain st1 out where x: "x = (st1, out)"
      by (cases x)
    then have g: "good_end (wanted cs) (exits = []) st1 out"
      using sim Returns by simp
    obtain st2 where st2: "comm_end ?conns st1 = Some st2" "ms_map st2 = ms_map st1" "ms_turn st2 = ms_turn st1"
      using comm_end_ok [OF cwf] by blast
    have "good_end (wanted cs) (exits = []) st2 out"
      unfolding good_end_def st2(2,3) using g [unfolded good_end_def] .
    then show ?thesis
      using main Returns x st2(1) by auto
  qed (use main sim in simp_all)
qed

end
