(* ===== verification/Whole_Program.thy ===== *)
theory Whole_Program
  imports System_Progress Start_Up
begin

text \<open>
  The whole program with its screen: the processes of Whole\_System, the output thread, the queue
  between the map and the screen with its ten cells, and the System V semaphore on which
  \<open>runMap\<close> waits before each turn and which \<open>run_output\<close> posts for every map status it shows.

  An action of the map that sends something to the screen has done everything else before; what
  it sends is pushed one message after the other, and while the queue is full the map waits. The
  look at \<open>exitState\<close> before the wait is taken together with the wait: it happens at the moment
  the wait is over. After \<open>runMap\<close> comes the rest of \<open>start_simulation\<close>: the end message for the
  screen, the join of the output thread, the end of the queue and of the semaphore; then \<open>main\<close>
  tells the airlines to end.
\<close>

section \<open>State\<close>

record program_state =
  pr_system :: system_state
  pr_os :: sem_os
  pr_pushing :: "Message list"
  pr_queue :: MessageQueue
  pr_screen :: output_state
  pr_told :: bool
  pr_over :: bool

datatype party = Process actor | Screen

section \<open>The map and \<open>main\<close>\<close>

text \<open>The condition of the turn loop; looking does not change what comes later, see above.\<close>

definition turn_goes_on :: "map_state \<Rightarrow> bool option" where
  "turn_goes_on st =
     (let (stop, st0) = look_exit st in
      if stop then Some False
      else map_option (\<lambda>go. go = CONTINUE_SIM) (endSimulation (ms_map st0) (ms_turn st0)))"

text \<open>What a step added to the output of the map.\<close>

definition new_output :: "system_state \<Rightarrow> system_state \<Rightarrow> Message list" where
  "new_output S S' = drop (length (ms_output (sy_map S))) (ms_output (sy_map S'))"

definition map_acts :: "int \<Rightarrow> program_state \<Rightarrow> program_state outcome" where
  "map_acts T W = then_do (act T The_Map (pr_system W)) (\<lambda>S.
     Returns (W\<lparr>pr_system := S, pr_pushing := new_output (pr_system W) S\<rparr>))"

definition map_step :: "int \<Rightarrow> int \<Rightarrow> program_state \<Rightarrow> program_state outcome" where
  "map_step T sem W =
     (case pr_pushing W of
        msg # msgs \<Rightarrow>
          then_do (message_queue_push False (pr_queue W) msg) (\<lambda>q. Returns (W\<lparr>pr_queue := q, pr_pushing := msgs\<rparr>))
      | [] \<Rightarrow>
          (case sy_pc (pr_system W) of
             M_Turn \<Rightarrow>
               then_do (or_fault (turn_goes_on (sy_map (pr_system W)))) (\<lambda>go.
                 if go then then_do (ipc_sem_wait sem (pr_os W)) (\<lambda>(_, os). map_acts T (W\<lparr>pr_os := os\<rparr>))
                 else map_acts T W)
           | M_Ending \<Rightarrow>
               (if \<not> pr_told W then Returns (W\<lparr>pr_told := True, pr_pushing := [marshall_end_output]\<rparr>)
                else if \<not> pr_over W then Blocks
                else map_acts T (W\<lparr>pr_queue := message_queue_destroy (pr_queue W), pr_os := snd (ipc_sem_destroy sem (pr_os W))\<rparr>))
           | _ \<Rightarrow> map_acts T W))"

section \<open>The screen\<close>

text \<open>\<open>ipc_sem_post\<close>, as often as a message makes the screen post.\<close>

fun post_times :: "nat \<Rightarrow> int \<Rightarrow> sem_os \<Rightarrow> sem_os outcome" where
  "post_times 0 sem os = Returns os"
| "post_times (Suc k) sem os = then_do (ipc_sem_post sem os) (\<lambda>(_, os'). post_times k sem os')"

text \<open>One round of the loop of \<open>run_output\<close>, or its end.\<close>

definition screen_step :: "int \<Rightarrow> program_state \<Rightarrow> program_state outcome" where
  "screen_step sem W =
     (if pr_over W then Blocks
      else
        then_do (message_queue_pop False (pr_queue W)) (\<lambda>(msg, q).
          if msg_type msg = MessageTypeEndOutput then
            then_do (or_fault (show_end (pr_screen W))) (\<lambda>screen.
              Returns (W\<lparr>pr_queue := q, pr_screen := screen, pr_over := True\<rparr>))
          else
            then_do (or_fault (show_message msg (pr_screen W))) (\<lambda>screen.
            then_do (post_times (out_posts screen - out_posts (pr_screen W)) sem (pr_os W)) (\<lambda>os.
              Returns (W\<lparr>pr_queue := q, pr_screen := screen, pr_os := os\<rparr>)))))"

section \<open>The program\<close>

fun step :: "int \<Rightarrow> int \<Rightarrow> party \<Rightarrow> program_state \<Rightarrow> program_state outcome" where
  "step T sem Screen W = screen_step sem W"
| "step T sem (Process The_Map) W = map_step T sem W"
| "step T sem (Process x) W =
     then_do (act T x (pr_system W)) (\<lambda>S. Returns (W\<lparr>pr_system := S\<rparr>))"

inductive reaches :: "int \<Rightarrow> int \<Rightarrow> program_state \<Rightarrow> program_state \<Rightarrow> bool" for T sem W0 where
  reaches_start: "reaches T sem W0 W0"
| reaches_step: "reaches T sem W0 W \<Longrightarrow> step T sem y W = Returns W' \<Longrightarrow> reaches T sem W0 W'"

text \<open>All processes have ended, and the output thread has returned.\<close>

definition program_over :: "program_state \<Rightarrow> bool" where
  "program_over W \<longleftrightarrow> all_ended (pr_system W) \<and> pr_over W \<and> pr_pushing W = []"

text \<open>
  \<open>start_simulation\<close> up to the loops, with the airlines started: the queue, the semaphore with the
  value 1, and the first statuses still to be pushed. \<open>al\<close> and \<open>os\<close> decide about the queue and the
  semaphore; without them nothing is simulated, and there is no such state.
\<close>

definition program_start :: "mallocs \<Rightarrow> sem_os \<Rightarrow> (nat \<Rightarrow> nat \<Rightarrow> bool list) \<Rightarrow> (nat \<Rightarrow> nat \<Rightarrow> mallocs) \<Rightarrow> airline vector \<Rightarrow>
  map_state \<Rightarrow> (int \<times> int \<times> program_state) option" where
  "program_start al os writes grants airlines st =
     (case message_queue_create al of
        (None, _) \<Rightarrow> None
      | (Some q, _) \<Rightarrow> do {
          (sem, os') \<leftarrow> ipc_sem_create 1 os;
          if sem = - 1 then None
          else do {
            (T, S) \<leftarrow> system_start writes grants airlines st;
            Some (T, sem, \<lparr>pr_system = S, pr_os = os', pr_pushing = drop (length (ms_output st)) (ms_output (sy_map S)),
              pr_queue = q,
              pr_screen = output_init, pr_told = False, pr_over = False\<rparr>)
          }
        })"

end
