(* ===== verification/Program_Invariant.thy ===== *)
theory Program_Invariant
  imports Whole_Program
begin

text \<open>
  The invariant of Whole\_Program: where the map is, what is on its way to the screen, what the
  screen has shown and what the semaphore says always fit together. From it: no step is undefined,
  some step is always possible before the end, and no run goes on for ever.
\<close>

section \<open>What the map sends to the screen\<close>

text \<open>The status of a turn is sent at its end: \<open>ms_turn + owed\<close> counts the statuses sent.\<close>

definition owed :: "map_pc \<Rightarrow> int" where
  "owed pc = (case pc of M_Phase1 _ \<Rightarrow> 0 | M_Phase2 _ \<Rightarrow> 0 | _ \<Rightarrow> 1)"

lemma owed_simps [simp]:
  "owed M_Turn = 1" "owed (M_Phase1 i) = 0" "owed (M_Phase2 i) = 0" "owed M_Ending = 1" "owed M_Ended = 1"
  by (simp_all add: owed_def)

definition sends :: "map_pc \<Rightarrow> map_state \<Rightarrow> map_pc \<Rightarrow> map_state \<Rightarrow> bool" where
  "sends pc st pc' st' \<longleftrightarrow> (\<exists>new. ms_output st' = ms_output st @ new \<and> list_all shown_ok new \<and>
     ms_turn st' + owed pc' = ms_turn st + owed pc + int (statuses new))"

lemma played_sends: "played t n st st' \<Longrightarrow> int t + owed pc' = owed pc + int n \<Longrightarrow> sends pc st pc' st'"
  by (auto simp: played_def sends_def)

lemma comm_end_silent:
  assumes "comm_end conns st = Some st'"
  shows "ms_turn st' = ms_turn st \<and> ms_output st' = ms_output st"
proof -
  let ?body = "\<lambda>i st. do {
      conn \<leftarrow> vec_deref conns (int i);
      Some (Next (snd (transmit conn (MM_Type MessageTypeEnd) st)) :: (map_state, map_state) flow)
    }"
  obtain r where r: "for_loop (getVectorSize conns) 0 ?body st = Some r" "after_loop (Some r) Some = Some st'"
    using assms by (cases "for_loop (getVectorSize conns) 0 ?body st") (auto simp: comm_end_def)
  let ?same = "\<lambda>x. ms_turn x = ms_turn st \<and> ms_output x = ms_output st"
  have "case r of Exit x \<Rightarrow> ?same x | Next x \<Rightarrow> ?same x"
  proof (rule for_loop_preserves [OF r(1)])
    fix j x f
    assume x: "?same x" and b: "?body j x = Some f"
    then obtain conn where "f = Next (snd (transmit conn (MM_Type MessageTypeEnd) x))"
      by (cases "vec_deref conns (int j)") auto
    with x show "case f of Exit x \<Rightarrow> ?same x | Next x \<Rightarrow> ?same x"
      by (simp add: transmit_frame)
  qed simp_all
  with r(2) show ?thesis
    by (cases r) auto
qed

lemma begin_turn_sends:
  assumes "begin_turn conns st inbox = Returns (pc', st', inbox')"
  shows "sends M_Turn st pc' st' \<and> inbox' = inbox"
proof -
  obtain e0 st0 e1 st1 where e: "look_exit st = (e0, st0)" "look_exit st0 = (e1, st1)"
    by (metis prod.collapse)
  have p: "played 0 0 st st0" "played 0 0 st st1"
    using look_exit_played [OF e(1)] played_trans [OF look_exit_played [OF e(1)] look_exit_played [OF e(2)]] by simp_all
  consider "pc' = M_Ending" "st' = st0" "inbox' = inbox" | "pc' = M_Ending" "st' = st1" "inbox' = inbox"
    | "pc' = M_Phase1 0" "comm_turn_step conns (st1\<lparr>ms_turn := ms_turn st1 + 1\<rparr>) = Some st'" "inbox' = inbox"
    using assms e by (auto simp: begin_turn_def then_do_Returns or_fault_Returns split: if_splits)
  then show ?thesis
  proof cases
    case 3
    let ?st = "st1\<lparr>ms_turn := ms_turn st1 + 1\<rparr>"
    have "played 1 0 st1 ?st"
      by (simp add: played_def)
    moreover have "played 0 0 ?st st'"
      using send_all_played 3(2) unfolding comm_turn_step_def by blast
    ultimately have "played 1 0 st st'"
      using played_trans [OF p(2) played_trans] by fastforce
    then show ?thesis
      using 3 played_sends by fastforce
  qed (use p played_sends in fastforce)+
qed

lemma phase1_sends:
  assumes "phase1_action conns n i st inbox = Returns (pc', st', inbox')" "list_all status_ok inbox"
  shows "sends (M_Phase1 i) st pc' st' \<and> list_all status_ok inbox'"
proof -
  consider "i = n" "comm_turn_continue conns st = Some st'" "pc' = M_Phase2 0" "inbox' = inbox"
    | k where "st' = st" "pc' = M_Phase1 k" "inbox' = tl inbox"
    | m where "handle_unload conns m st = Some st'" "pc' = M_Phase1 i" "inbox' = tl inbox"
    using assms(1)
    by (auto simp: phase1_action.simps then_do_Returns or_fault_Returns split: if_splits list.splits PlaneMessage.splits)
  then show ?thesis
  proof cases
    case 1
    then have "played 0 0 st st'"
      using send_all_played unfolding comm_turn_continue_def by blast
    then show ?thesis
      using 1 assms(2) played_sends by fastforce
  next
    case 2
    then show ?thesis
      using assms(2) played_sends [OF played_refl [of st st]] by (cases inbox) simp_all
  next
    case 3
    then show ?thesis
      using assms(2) played_sends [OF handle_unload_played [OF 3(1)]] by (cases inbox) simp_all
  qed
qed

lemma phase2_sends:
  assumes "phase2_action conns n T i st inbox = Returns (pc', st', inbox')" "list_all status_ok inbox"
  shows "sends (M_Phase2 i) st pc' st' \<and> list_all status_ok inbox'"
proof -
  consider "output_map_status T st = Some st'" "pc' = M_Turn" "inbox' = inbox"
    | k where "st' = st" "pc' = M_Phase2 k" "inbox' = tl inbox"
    | m k where "inbox = PM_AirlineStatus m # inbox'" "pc' = M_Phase2 k"
      "st' = comm_send_airline_status (as_planesFlying (asm_status m)) (as_totalPlanes (asm_status m)) (as_id (asm_status m)) st"
    | m where "handle_check conns m st = Some st'" "pc' = M_Phase2 i" "inbox' = tl inbox"
    using assms(1)
    by (auto simp: phase2_action.simps then_do_Returns or_fault_Returns split: if_splits list.splits PlaneMessage.splits)
  then show ?thesis
  proof cases
    case 1
    then show ?thesis
      using assms(2) played_sends [OF output_map_status_played [OF 1(1)]] by simp
  next
    case 2
    then show ?thesis
      using assms(2) played_sends [OF played_refl [of st st]] by (cases inbox) simp_all
  next
    case 3
    then have "0 \<le> as_id (asm_status m)" "as_id (asm_status m) \<le> 1000000"
      using assms(2) by (simp_all add: status_ok_def)
    then show ?thesis
      using 3 assms(2) played_sends [OF comm_send_airline_status_played] by simp
  next
    case 4
    then show ?thesis
      using assms(2) played_sends [OF handle_check_played [OF 4(1)]] by (cases inbox) simp_all
  qed
qed

lemma map_action_sends:
  assumes "map_action conns n T pc st inbox = Returns (pc', st', inbox')" "list_all status_ok inbox"
  shows "sends pc st pc' st' \<and> list_all status_ok inbox'"
proof (cases pc)
  case M_Turn
  then show ?thesis
    using assms begin_turn_sends [of conns st inbox pc' st' inbox'] by simp
next
  case (M_Phase1 i)
  then show ?thesis
    using assms phase1_sends [of conns n i st inbox pc' st' inbox'] by simp
next
  case (M_Phase2 i)
  then show ?thesis
    using assms phase2_sends [of conns n T i st inbox pc' st' inbox'] by simp
next
  case M_Ending
  then have "comm_end conns st = Some st'" "pc' = M_Ended" "inbox' = inbox"
    using assms(1) by (auto simp: then_do_Returns or_fault_Returns)
  then show ?thesis
    using assms(2) M_Ending comm_end_silent [of conns st st'] by (simp add: sends_def)
qed (use assms in simp)

section \<open>The ids of the airlines\<close>

text \<open>The screen has a row for every airline: their ids, in the messages too, are small.\<close>

definition named :: "airline_state \<Rightarrow> bool" where
  "named st \<longleftrightarrow> 0 \<le> al_id st \<and> al_id st \<le> 1000000 \<and> list_all status_ok (al_sent st)"

lemma named_simps [simp]:
  "named (st\<lparr>al_threads := ts\<rparr>) = named st" "named (st\<lparr>al_planesLeft := l\<rparr>) = named st" "named (st\<lparr>al_stage := s\<rparr>) = named st"
  by (simp_all add: named_def)

lemma send_ready_message_named: "send_ready_message st = Some st' \<Longrightarrow> named st \<Longrightarrow> named st'"
  by (auto simp: send_ready_message_def comm_airline_status_def comm_airline_ready_def send_to_map_def named_def status_ok_def
      marshall_send_airline_status_def bind_eq_Some_conv split: if_splits)

lemma start_phase_named: "start_phase msg st = Some st' \<Longrightarrow> named st \<Longrightarrow> named st'"
  by (auto simp: start_phase_def bind_eq_Some_conv Let_def split: if_splits dest: send_ready_message_named)

lemma plane_ready_named: "app_airline_plane_ready st = Some st' \<Longrightarrow> named st \<Longrightarrow> named st'"
  by (auto simp: app_airline_plane_ready_def bind_eq_Some_conv Let_def split: if_splits dest: send_ready_message_named)

lemma listen_one_named:
  assumes "listen_one msg st = Some r" "named st"
  shows "case r of Next st' \<Rightarrow> named st' | Exit st' \<Rightarrow> named st'"
  using assms by (auto simp: listen_one_def redirect_stock_message_def redirect_destinations_message_def bind_eq_Some_conv Let_def
      split: MessageType.splits MapMessage.splits flow.splits dest: start_phase_named)

lemma end_planes_named: "end_planes st = Some st' \<Longrightarrow> named st \<Longrightarrow> named st'"
  by (auto simp: end_planes_def bind_eq_Some_conv)

lemma settle_named:
  assumes "settle st A = (A', sent)" "named st"
  shows "named (ap_state A') \<and> list_all status_ok sent"
  using assms by (auto simp: settle_def named_def)

definition ids_kept :: "(airline_proc \<times> PlaneMessage list) outcome \<Rightarrow> bool" where
  "ids_kept r \<longleftrightarrow> (case r of Returns (A', sent) \<Rightarrow> named (ap_state A') \<and> list_all status_ok sent | _ \<Rightarrow> True)"

lemma listener_named:
  assumes "named (ap_state A)"
  shows "ids_kept (listener_action A)"
proof (cases "listener_action A")
  case (Returns x)
  obtain A' sent where x: "x = (A', sent)"
    by (cases x)
  obtain msg inbox r where r: "ap_inbox A = msg # inbox" "listen_one msg (ap_state A) = Some r"
    using Returns by (auto simp: listener_action_def split: if_splits list.splits option.splits)
  note named = listen_one_named [OF r(2) assms]
  obtain st B where "settle st B = (A', sent)" "named st"
    using Returns r named end_planes_named
    by (auto simp: listener_action_def x split: if_splits flow.splits option.splits)
  then show ?thesis
    using settle_named by (simp add: Returns x ids_kept_def)
qed (simp_all add: ids_kept_def)

lemma thread_named:
  assumes "airline_ok nc ps a ks A" "named (ap_state A)"
  shows "ids_kept (thread_action p A)"
proof (cases "p < length ks")
  case False
  then show ?thesis
    using airline_okD(3) [OF assms(1)] by (simp add: thread_action_def ids_kept_def)
next
  case True
  let ?P = "ap_planes A ! p"
  have P: "pt_sent (pp_thread ?P) = []"
    using airline_okD(4) [OF assms(1) True] by (simp add: proc_ok_def)
  show ?thesis
  proof (cases rule: thread_action_cases [OF assms(1) True, case_names waits moves])
    case (moves pc th)
    have "list_all status_ok (pt_sent th)"
      using move_sent [OF moves(1) P] by (auto simp: status_ok_def)
    moreover have "named (ap_state (moved p pc th A))" "named (ap_state (reported (moved p pc th A)))"
      using assms(2) by (simp_all add: moved_def reported_def Let_def)
    moreover have "list_all status_ok (report B)" if "named (ap_state B)" for B
      using that by (simp add: report_def ready_message_def status_ok_def named_def)
    ultimately show ?thesis
      by (simp add: moves(3) ids_kept_def)
  qed (simp add: ids_kept_def)
qed

definition all_named :: "system_state \<Rightarrow> bool" where
  "all_named S \<longleftrightarrow> list_all status_ok (sy_inbox S) \<and> (\<forall>a<length (sy_airlines S). named (ap_state (sy_airlines S ! a)))"

lemma airline_acts_named:
  assumes "airline_acts a f S = Returns S'" "all_named S" "\<And>A. A = sy_airlines S ! a \<Longrightarrow> a < length (sy_airlines S) \<Longrightarrow> ids_kept (f A)"
  shows "all_named S' \<and> sy_map S' = sy_map S \<and> sy_pc S' = sy_pc S"
proof (cases "a < length (sy_airlines S)")
  case True
  then obtain A' sent where r: "f (sy_airlines S ! a) = Returns (A', sent)"
    "S' = S\<lparr>sy_airlines := (sy_airlines S)[a := A'], sy_inbox := sy_inbox S @ sent\<rparr>"
    using assms(1) by (cases "f (sy_airlines S ! a)") auto
  then have "named (ap_state A')" "list_all status_ok sent"
    using assms(3) [OF refl True] by (simp_all add: ids_kept_def)
  then show ?thesis
    using assms(2) r(2) True by (auto simp: all_named_def nth_list_update)
qed (use assms(1) in simp)

lemma act_airline_named:
  assumes "sys_ok nc ps cargo T S" "all_named S" "act T x S = Returns S'" "x \<noteq> The_Map"
  shows "all_named S' \<and> sy_map S' = sy_map S \<and> sy_pc S' = sy_pc S"
proof -
  have named: "named (ap_state (sy_airlines S ! a))" if "a < length (sy_airlines S)" for a
    using assms(2) that by (simp add: all_named_def)
  show ?thesis
  proof (cases x)
    case (Listener a)
    then have "airline_acts a listener_action S = Returns S'"
      using assms(3) by (simp only: act.simps)
    then show ?thesis
      by (rule airline_acts_named [OF _ assms(2)]) (use named listener_named in blast)
  next
    case (Plane a p)
    then have "airline_acts a (thread_action p) S = Returns S'"
      using assms(3) by (simp only: act.simps)
    then show ?thesis
      by (rule airline_acts_named [OF _ assms(2)])
        (simp add: thread_named [OF sys_okD(5) [OF assms(1)]] named sys_okD(4) [OF assms(1)])
  qed (use assms(4) in simp)
qed

text \<open>A step of the map.\<close>

lemma act_map_sends:
  assumes "sys_ok nc ps cargo T S" "all_named S" "act T The_Map S = Returns S'"
  shows "all_named S'" "sends (sy_pc S) (sy_map S) (sy_pc S') (sy_map S')"
    "\<exists>st'. map_move nc cargo (sy_pc S) (sy_map S) (sy_inbox S) (sy_pc S') st' (sy_inbox S') \<and> sy_map S' = st'\<lparr>ms_sent := []\<rparr>"
proof -
  let ?n = "length cargo"
  note ok = sys_okD [OF assms(1)]
  obtain pc' st' inbox' where r: "map_action (vec_of [0..<?n]) ?n T (sy_pc S) (sy_map S) (sy_inbox S) = Returns (pc', st', inbox')"
    and S': "S' = S\<lparr>sy_pc := pc', sy_map := st'\<lparr>ms_sent := []\<rparr>, sy_inbox := inbox', sy_airlines := deliver (ms_sent st') (sy_airlines S)\<rparr>"
    using assms(3) ok(4)
    by (cases "map_action (vec_of [0..<?n]) ?n T (sy_pc S) (sy_map S) (sy_inbox S)") (auto simp: act.simps)
  have s: "sends (sy_pc S) (sy_map S) pc' st'" "list_all status_ok inbox'"
    using map_action_sends [OF r] assms(2) by (simp_all add: all_named_def)
  then show "sends (sy_pc S) (sy_map S) (sy_pc S') (sy_map S')"
    by (simp add: S' sends_def)
  show "all_named S'"
    using s(2) assms(2) by (simp add: S' all_named_def)
  show "\<exists>st'. map_move nc cargo (sy_pc S) (sy_map S) (sy_inbox S) (sy_pc S') st' (sy_inbox S') \<and> sy_map S' = st'\<lparr>ms_sent := []\<rparr>"
    using map_action_moves [OF ok(1,6,3)] r by (intro exI [of _ st']) (simp add: S')
qed

text \<open>At its end the map sends nothing to the screen.\<close>

lemma act_ending_output:
  assumes "act T The_Map S = Returns S'" "sy_pc S = M_Ending"
  shows "new_output S S' = []" "sy_pc S' = M_Ended"
  using assms comm_end_silent
  by (auto simp: act.simps then_do_Returns or_fault_Returns new_output_def Let_def)

text \<open>How a step of the map moves.\<close>

lemma map_move_turns:
  assumes "map_move nc cargo pc st inbox pc' st' inbox'"
  shows "pc = M_Turn \<and> pc' = M_Ending \<and> ms_turn st' = ms_turn st \<or>
    pc = M_Turn \<and> pc' = M_Phase1 0 \<and> ms_turn st' = ms_turn st + 1 \<and> ms_turn st < 70000 \<or>
    pc \<notin> {M_Turn, M_Ending, M_Ended} \<and> pc' \<notin> {M_Ending, M_Ended} \<and> ms_turn st' = ms_turn st \<or>
    pc = M_Ending \<and> pc' = M_Ended \<and> ms_turn st' = ms_turn st"
  using assms by cases auto

lemma turn_goes_on_defined:
  assumes "sys_ok nc ps cargo T S" "sy_pc S = M_Turn"
  shows "\<exists>go. turn_goes_on (sy_map S) = Some go"
proof (rule ccontr)
  assume "\<nexists>go. turn_goes_on (sy_map S) = Some go"
  then have none: "turn_goes_on (sy_map S) = None"
    by (cases "turn_goes_on (sy_map S)") simp_all
  obtain stop st0 where e: "look_exit (sy_map S) = (stop, st0)"
    by (cases "look_exit (sy_map S)")
  then have "\<not> stop" "endSimulation (ms_map st0) (ms_turn st0) = None"
    using none by (auto simp: turn_goes_on_def split: if_splits)
  then have "act T The_Map S = Faults"
    using e assms(2) by (simp add: act.simps begin_turn_def)
  then show False
    using act_ok [OF assms(1), of The_Map] by simp
qed

lemma turn_stops:
  assumes "turn_goes_on (sy_map S) = Some False" "sy_pc S = M_Turn" "act T The_Map S = Returns S'"
  shows "sy_pc S' = M_Ending"
  using assms by (auto simp: act.simps begin_turn_def turn_goes_on_def Let_def split: prod.splits if_splits)

section \<open>The invariant\<close>

definition on_its_way :: "program_state \<Rightarrow> Message list" where
  "on_its_way W = mq_list (pr_queue W) @ pr_pushing W"

abbreviation map_pc_of :: "program_state \<Rightarrow> map_pc" where
  "map_pc_of W \<equiv> sy_pc (pr_system W)"

abbreviation turn_of :: "program_state \<Rightarrow> int" where
  "turn_of W \<equiv> ms_turn (sy_map (pr_system W))"

abbreviation shown_of :: "program_state \<Rightarrow> int" where
  "shown_of W \<equiv> int (out_posts (pr_screen W))"

text \<open>The semaphore counts how far the screen is ahead; the last wait may be followed by no turn.\<close>

definition paced :: "int \<Rightarrow> program_state \<Rightarrow> bool" where
  "paced sem W \<longleftrightarrow> sem_ready sem (pr_os W) \<and>
     (sem_val sem (pr_os W) = 1 + shown_of W - turn_of W \<or>
      map_pc_of W = M_Ending \<and> sem_val sem (pr_os W) = shown_of W - turn_of W)"

definition screen_runs :: "int \<Rightarrow> program_state \<Rightarrow> bool" where
  "screen_runs sem W \<longleftrightarrow> mq_inv (pr_queue W) \<and> display_inv (out_posts (pr_screen W)) (pr_screen W) \<and> paced sem W \<and>
     map_pc_of W \<noteq> M_Ended \<and> (pr_told W \<longrightarrow> map_pc_of W = M_Ending) \<and>
     (\<exists>ms. on_its_way W = ms @ (if pr_told W then [marshall_end_output] else []) \<and> list_all shown_ok ms \<and>
       shown_of W + int (statuses ms) = turn_of W + owed (map_pc_of W))"

text \<open>After the closing lines: all turns have been shown, and at the very end the semaphore is gone.\<close>

definition screen_ended :: "int \<Rightarrow> program_state \<Rightarrow> bool" where
  "screen_ended sem W \<longleftrightarrow> pr_told W \<and> pr_pushing W = [] \<and> map_pc_of W \<in> {M_Ending, M_Ended} \<and>
     shown_of W = turn_of W + 1 \<and> out_turn (pr_screen W) = shown_of W \<and>
     (map_pc_of W = M_Ended \<longrightarrow> sem = - 1 \<or> find_sem sem (pr_os W) = None)"

lemma find_destroyed: "sem = - 1 \<or> find_sem sem (snd (ipc_sem_destroy sem os)) = None"
  by (auto simp: ipc_sem_destroy_def semctl_rmid_def find_sem_def find_None_iff)

definition program_inv :: "nat \<Rightarrow> product vector \<Rightarrow> nat list list \<Rightarrow> int \<Rightarrow> int \<Rightarrow> program_state \<Rightarrow> bool" where
  "program_inv nc ps cargo T sem W \<longleftrightarrow>
     sys_ok nc ps cargo T (pr_system W) \<and> all_named (pr_system W) \<and> 0 \<le> turn_of W \<and> turn_of W \<le> 70000 \<and>
     (if pr_over W then screen_ended sem W else screen_runs sem W)"

definition kept :: "nat \<Rightarrow> product vector \<Rightarrow> nat list list \<Rightarrow> int \<Rightarrow> int \<Rightarrow> program_state outcome \<Rightarrow> bool" where
  "kept nc ps cargo T sem r \<longleftrightarrow>
     (case r of Faults \<Rightarrow> False | Blocks \<Rightarrow> True | Returns W' \<Rightarrow> program_inv nc ps cargo T sem W')"

lemma kept_simps [simp]:
  "\<not> kept nc ps cargo T sem Faults" "kept nc ps cargo T sem Blocks"
  "kept nc ps cargo T sem (Returns W') = program_inv nc ps cargo T sem W'"
  by (simp_all add: kept_def)

text \<open>A step of the map in a turn; \<open>os\<close> is what the wait left of the semaphore.\<close>

lemma map_acts_kept:
  assumes inv: "program_inv nc ps cargo T sem W" and run: "pr_pushing W = []" "map_pc_of W \<notin> {M_Ending, M_Ended}"
    and paced: "\<And>S'. act T The_Map (pr_system W) = Returns S' \<Longrightarrow> paced sem (W\<lparr>pr_os := os, pr_system := S'\<rparr>)"
  shows "kept nc ps cargo T sem (map_acts T (W\<lparr>pr_os := os\<rparr>))"
proof (cases "act T The_Map (pr_system W)")
  case (Returns S')
  let ?W = "W\<lparr>pr_os := os, pr_system := S', pr_pushing := new_output (pr_system W) S'\<rparr>"
  have ok: "sys_ok nc ps cargo T (pr_system W)" "all_named (pr_system W)"
    using inv by (simp_all add: program_inv_def)
  have over: "\<not> pr_over W" and runs: "screen_runs sem W"
    using inv run(2) by (auto simp: program_inv_def screen_ended_def split: if_splits)
  have told: "\<not> pr_told W"
    using runs run(2) by (auto simp: screen_runs_def)
  note acts = act_map_sends [OF ok Returns]
  obtain st' where st': "map_move nc cargo (map_pc_of W) (sy_map (pr_system W)) (sy_inbox (pr_system W)) (sy_pc S') st' (sy_inbox S')"
    "sy_map S' = st'\<lparr>ms_sent := []\<rparr>"
    using acts(3) by blast
  have moves: "sy_pc S' \<noteq> M_Ended" "0 \<le> ms_turn (sy_map S')" "ms_turn (sy_map S') \<le> 70000"
    using map_move_turns [OF st'(1)] inv run(2) by (auto simp: st'(2) program_inv_def)
  obtain new where new: "ms_output (sy_map S') = ms_output (sy_map (pr_system W)) @ new" "list_all shown_ok new"
    "ms_turn (sy_map S') + owed (sy_pc S') = turn_of W + owed (map_pc_of W) + int (statuses new)"
    using acts(2) by (auto simp: sends_def)
  then have "new_output (pr_system W) S' = new"
    by (simp add: new_output_def)
  moreover have "sys_ok nc ps cargo T S'"
    using act_ok [OF ok(1), of The_Map] by (simp add: Returns)
  moreover have "paced sem ?W"
    using paced [OF Returns] by (simp add: paced_def)
  ultimately have "program_inv nc ps cargo T sem ?W"
    using acts(1) moves over runs told run(1) new(2,3)
    by (auto simp: program_inv_def screen_runs_def on_its_way_def intro!: exI [of _ "mq_list (pr_queue W) @ new"])
  then show ?thesis
    by (simp add: map_acts_def Returns)
qed (use inv act_ok [of nc ps cargo T "pr_system W" The_Map] in \<open>simp_all add: map_acts_def program_inv_def\<close>)

text \<open>How the turns count in a step of the map.\<close>

lemma act_map_turns:
  assumes "sys_ok nc ps cargo T S" "all_named S" "act T The_Map S = Returns S'"
  shows "sy_pc S = M_Turn \<and> sy_pc S' = M_Ending \<and> ms_turn (sy_map S') = ms_turn (sy_map S) \<or>
    sy_pc S = M_Turn \<and> sy_pc S' = M_Phase1 0 \<and> ms_turn (sy_map S') = ms_turn (sy_map S) + 1 \<or>
    sy_pc S \<notin> {M_Turn, M_Ending, M_Ended} \<and> sy_pc S' \<notin> {M_Ending, M_Ended} \<and> ms_turn (sy_map S') = ms_turn (sy_map S) \<or>
    sy_pc S = M_Ending \<and> sy_pc S' = M_Ended \<and> ms_turn (sy_map S') = ms_turn (sy_map S)"
proof -
  obtain st' where st': "map_move nc cargo (sy_pc S) (sy_map S) (sy_inbox S) (sy_pc S') st' (sy_inbox S')"
    "sy_map S' = st'\<lparr>ms_sent := []\<rparr>"
    using act_map_sends(3) [OF assms] by blast
  have "ms_turn (sy_map S') = ms_turn st'"
    by (simp add: st'(2))
  with map_move_turns [OF st'(1)] show ?thesis
    by auto
qed

text \<open>Pushing, waiting and the end.\<close>

lemma push_kept:
  assumes inv: "program_inv nc ps cargo T sem W" and msgs: "pr_pushing W = msg # msgs"
  shows "kept nc ps cargo T sem (map_step T sem W)"
proof -
  have runs: "\<not> pr_over W" "screen_runs sem W"
    using inv msgs by (auto simp: program_inv_def screen_ended_def split: if_splits)
  then have q: "mq_inv (pr_queue W)"
    by (simp add: screen_runs_def)
  show ?thesis
  proof (cases "length (mq_list (pr_queue W)) = 9")
    case True
    then show ?thesis
      using mq.push_full [OF q] by (simp add: map_step_def msgs)
  next
    case False
    then have "length (mq_list (pr_queue W)) < 9"
      using mq.bounded [OF q] by simp
    then obtain q' where
      q': "message_queue_push False (pr_queue W) msg = Returns q'" "mq_inv q'" "mq_list q' = mq_list (pr_queue W) @ [msg]"
      using mq.push_room [OF q, of msg] by auto
    have "on_its_way (W\<lparr>pr_queue := q', pr_pushing := msgs\<rparr>) = on_its_way W"
      by (simp add: on_its_way_def q'(3) msgs)
    then show ?thesis
      using inv runs q'(1,2) by (simp add: map_step_def msgs program_inv_def screen_runs_def paced_def)
  qed
qed

lemma turn_kept:
  assumes inv: "program_inv nc ps cargo T sem W" and at: "pr_pushing W = []" "map_pc_of W = M_Turn"
  shows "kept nc ps cargo T sem (map_step T sem W)"
proof -
  have ok: "sys_ok nc ps cargo T (pr_system W)" "all_named (pr_system W)"
    using inv by (simp_all add: program_inv_def)
  have r: "sem_ready sem (pr_os W)" "sem_val sem (pr_os W) = 1 + shown_of W - turn_of W"
    using inv at(2) by (auto simp: program_inv_def screen_runs_def screen_ended_def paced_def split: if_splits)
  obtain go where go: "turn_goes_on (sy_map (pr_system W)) = Some go"
    using turn_goes_on_defined [OF ok(1) at(2)] by blast
  have acts: "kept nc ps cargo T sem (map_acts T (W\<lparr>pr_os := os\<rparr>))"
    if "\<And>S'. act T The_Map (pr_system W) = Returns S' \<Longrightarrow> paced sem (W\<lparr>pr_os := os, pr_system := S'\<rparr>)" for os
    using map_acts_kept [OF inv at(1) _ that] at(2) by simp
  consider "\<not> go" | "go" "sem_val sem (pr_os W) = 0" | "go" "0 < sem_val sem (pr_os W)"
    using sysv.nonneg [OF r(1)] by fastforce
  then show ?thesis
  proof cases
    case 1
    have "paced sem (W\<lparr>pr_os := pr_os W, pr_system := S'\<rparr>)" if "act T The_Map (pr_system W) = Returns S'" for S'
      using r turn_stops [OF _ at(2) that] go 1 act_map_turns [OF ok that] by (auto simp: paced_def)
    from acts [OF this] show ?thesis
      using 1 go at by (simp add: map_step_def)
  next
    case 2
    then show ?thesis
      using sysv.wait_zero [OF r(1)] go at by (simp add: map_step_def)
  next
    case 3
    then obtain os where os: "ipc_sem_wait sem (pr_os W) = Returns (0, os)" "sem_ready sem os"
      "sem_val sem os = shown_of W - turn_of W"
      using sysv.wait_pos [OF r(1)] r(2) by auto
    have "paced sem (W\<lparr>pr_os := os, pr_system := S'\<rparr>)" if "act T The_Map (pr_system W) = Returns S'" for S'
      using os(2,3) act_map_turns [OF ok that] at(2) by (auto simp: paced_def)
    from acts [OF this] show ?thesis
      using 3(1) go at os(1) by (simp add: map_step_def)
  qed
qed

lemma ending_kept:
  assumes inv: "program_inv nc ps cargo T sem W" and at: "pr_pushing W = []" "map_pc_of W = M_Ending"
  shows "kept nc ps cargo T sem (map_step T sem W)"
proof -
  have ok: "sys_ok nc ps cargo T (pr_system W)" "all_named (pr_system W)"
    using inv by (simp_all add: program_inv_def)
  consider "\<not> pr_told W" | "pr_told W" "\<not> pr_over W" | "pr_told W" "pr_over W"
    by blast
  then show ?thesis
  proof cases
    case 1
    then have "screen_runs sem W" "\<not> pr_over W"
      using inv by (auto simp: program_inv_def screen_ended_def split: if_splits)
    then have "screen_runs sem (W\<lparr>pr_told := True, pr_pushing := [marshall_end_output]\<rparr>)"
      using 1 at by (auto simp: screen_runs_def on_its_way_def paced_def)
    then show ?thesis
      using 1 at inv \<open>\<not> pr_over W\<close> by (simp add: map_step_def program_inv_def)
  next
    case 3
    let ?W = "W\<lparr>pr_queue := message_queue_destroy (pr_queue W), pr_os := snd (ipc_sem_destroy sem (pr_os W))\<rparr>"
    show ?thesis
    proof (cases "act T The_Map (pr_system W)")
      case (Returns S')
      have "sys_ok nc ps cargo T S'"
        using act_ok [OF ok(1), of The_Map] by (simp add: Returns)
      then show ?thesis
        using inv 3 at act_ending_output [OF Returns at(2)] act_map_sends(1) [OF ok Returns] act_map_turns [OF ok Returns]
          find_destroyed [of sem "pr_os W"]
        by (simp add: map_step_def map_acts_def Returns program_inv_def screen_ended_def)
    qed (use 3 at act_ok [OF ok(1), of The_Map] in \<open>simp_all add: map_step_def map_acts_def\<close>)
  qed (use at in \<open>simp add: map_step_def\<close>)
qed

lemma map_step_kept:
  assumes inv: "program_inv nc ps cargo T sem W"
  shows "kept nc ps cargo T sem (map_step T sem W)"
proof (cases "pr_pushing W")
  case Nil
  have phase: "kept nc ps cargo T sem (map_step T sem W)" if "map_pc_of W = M_Phase1 i \<or> map_pc_of W = M_Phase2 i" for i
  proof -
    have ok: "sys_ok nc ps cargo T (pr_system W)" "all_named (pr_system W)" "paced sem W"
      using inv that by (auto simp: program_inv_def screen_runs_def screen_ended_def split: if_splits)
    have "paced sem (W\<lparr>pr_os := pr_os W, pr_system := S'\<rparr>)" if "act T The_Map (pr_system W) = Returns S'" for S'
      using ok(3) act_map_turns [OF ok(1,2) that] \<open>map_pc_of W = _ \<or> _\<close> by (auto simp: paced_def)
    from map_acts_kept [OF inv Nil _ this] show ?thesis
      using that by (auto simp: map_step_def Nil)
  qed
  show ?thesis
  proof (cases "map_pc_of W")
    case M_Ended
    then show ?thesis
      by (simp add: map_step_def Nil map_acts_def act.simps)
  qed (use inv Nil phase turn_kept ending_kept in auto)
qed (rule push_kept [OF inv])

section \<open>Steps of the screen\<close>

lemma shown_not_end: "shown_ok m \<Longrightarrow> msg_type m \<noteq> MessageTypeEndOutput"
  by (auto simp: shown_ok_def split: MessagePayload.splits)

lemma show_end_ok:
  "display_inv n st \<Longrightarrow> \<exists>st'. show_end st = Some st' \<and> out_turn st' = out_turn st \<and> out_posts st' = out_posts st"
  by (simp add: display_inv_def show_end_def mvprintw_def screen_lines in_int_def INT_MIN_def INT_MAX_def)

text \<open>The screen takes a status.\<close>

lemma status_kept:
  assumes inv: "program_inv nc ps cargo T sem W" and runs: "\<not> pr_over W" "screen_runs sem W"
    and q: "message_queue_pop False (pr_queue W) = Returns (m, q)" "mq_inv q"
    and way: "mq_list q @ pr_pushing W = ms @ (if pr_told W then [marshall_end_output] else [])" "list_all shown_ok (m # ms)"
    and count: "shown_of W + int (statuses (m # ms)) = turn_of W + owed (map_pc_of W)"
  shows "kept nc ps cargo T sem (screen_step sem W)"
proof -
  let ?d = "if is_map_status m then 1 else 0"
  have turn: "turn_of W \<le> 70000" "owed (map_pc_of W) \<le> 1"
    using inv by (auto simp: program_inv_def owed_def split: map_pc.split)
  then have "out_posts (pr_screen W) < 1000000"
    using count by simp
  then obtain scr where scr: "show_message m (pr_screen W) = Some scr" "display_inv (out_posts (pr_screen W) + ?d) scr"
    using show_message_ok [of m "out_posts (pr_screen W)" "pr_screen W"] way(2) runs(2) by (auto simp: screen_runs_def)
  have posts: "out_posts scr = out_posts (pr_screen W) + ?d"
    using scr(2) by (simp add: display_inv_def)
  have r: "sem_ready sem (pr_os W)" "sem_val sem (pr_os W) \<le> 1 + shown_of W - turn_of W"
    using runs(2) by (auto simp: screen_runs_def paced_def)
  obtain os where os: "post_times (out_posts scr - out_posts (pr_screen W)) sem (pr_os W) = Returns os" "sem_ready sem os"
    "sem_val sem os = sem_val sem (pr_os W) + ?d"
  proof (cases "is_map_status m")
    case True
    have "sem_val sem (pr_os W) < SEMVMX"
      using r(2) count True turn by (simp add: SEMVMX_def)
    then obtain os where "ipc_sem_post sem (pr_os W) = Returns (0, os)" "sem_ready sem os" "sem_val sem os = sem_val sem (pr_os W) + 1"
      using sysv.post_room [OF r(1)] by blast
    with True show ?thesis
      by (intro that [of os]) (simp_all add: posts)
  qed (use r(1) in \<open>simp add: posts that\<close>)
  have "screen_runs sem (W\<lparr>pr_queue := q, pr_screen := scr, pr_os := os\<rparr>)"
    using runs(2) q(2) way scr(2) os(2,3) posts count
    by (auto simp: screen_runs_def on_its_way_def paced_def intro!: exI [of _ ms])
  then show ?thesis
    using inv runs(1) q(1) shown_not_end [of m] way(2) scr(1) os(1) by (simp add: screen_step_def program_inv_def)
qed

lemma screen_step_kept:
  assumes inv: "program_inv nc ps cargo T sem W"
  shows "kept nc ps cargo T sem (screen_step sem W)"
proof (cases "pr_over W")
  case False
  then have runs: "screen_runs sem W"
    using inv by (simp add: program_inv_def)
  then have q: "mq_inv (pr_queue W)" and d: "display_inv (out_posts (pr_screen W)) (pr_screen W)"
    by (simp_all add: screen_runs_def)
  obtain ms where ms: "on_its_way W = ms @ (if pr_told W then [marshall_end_output] else [])" "list_all shown_ok ms"
    "shown_of W + int (statuses ms) = turn_of W + owed (map_pc_of W)"
    using runs by (auto simp: screen_runs_def)
  show ?thesis
  proof (cases "mq_list (pr_queue W)")
    case Nil
    then show ?thesis
      using mq.pop_empty [OF q] False by (simp add: screen_step_def)
  next
    case (Cons m rest)
    obtain q' where q': "message_queue_pop False (pr_queue W) = Returns (m, q')" "mq_inv q'" "mq_list q' = rest"
      using mq.pop_some [OF q Cons] by auto
    show ?thesis
    proof (cases ms)
      case Nil
      then have e: "m = marshall_end_output" "pr_pushing W = []" "pr_told W"
        using ms(1) Cons by (auto simp: on_its_way_def split: if_splits)
      moreover have "map_pc_of W = M_Ending"
        using runs e(3) by (simp add: screen_runs_def)
      moreover obtain scr where "show_end (pr_screen W) = Some scr" "out_turn scr = out_turn (pr_screen W)"
        "out_posts scr = out_posts (pr_screen W)"
        using show_end_ok [OF d] by blast
      moreover have "out_turn (pr_screen W) = shown_of W"
        using d by (simp add: display_inv_def)
      ultimately show ?thesis
        using inv False q'(1) ms(3) Nil by (simp add: screen_step_def marshall_end_output_def program_inv_def screen_ended_def)
    next
      case m: (Cons m' ms')
      then have "m' = m" "mq_list q' @ pr_pushing W = ms' @ (if pr_told W then [marshall_end_output] else [])"
        using ms(1) Cons q'(3) by (simp_all add: on_its_way_def)
      then show ?thesis
        using ms(2,3) m by (intro status_kept [OF inv False runs q'(1,2)]) simp_all
    qed
  qed
qed (simp add: screen_step_def)

section \<open>All steps\<close>

lemma process_kept:
  assumes inv: "program_inv nc ps cargo T sem W" and x: "x \<noteq> The_Map"
  shows "kept nc ps cargo T sem (step T sem (Process x) W)"
proof -
  have ok: "sys_ok nc ps cargo T (pr_system W)" "all_named (pr_system W)"
    using inv by (simp_all add: program_inv_def)
  have step: "step T sem (Process x) W = then_do (act T x (pr_system W)) (\<lambda>S. Returns (W\<lparr>pr_system := S\<rparr>))"
    using x by (cases x) simp_all
  show ?thesis
  proof (cases "act T x (pr_system W)")
    case (Returns S')
    have same: "sy_map S' = sy_map (pr_system W)" "sy_pc S' = map_pc_of W" "all_named S'"
      using act_airline_named [OF ok Returns x] by simp_all
    then have "screen_runs sem (W\<lparr>pr_system := S'\<rparr>) = screen_runs sem W" "screen_ended sem (W\<lparr>pr_system := S'\<rparr>) = screen_ended sem W"
      unfolding screen_runs_def screen_ended_def paced_def on_its_way_def by simp_all
    moreover have "sys_ok nc ps cargo T S'"
      using act_ok [OF ok(1), of x] by (simp add: Returns)
    ultimately show ?thesis
      using inv same by (simp add: step Returns program_inv_def)
  qed (use act_ok [OF ok(1), of x] in \<open>simp_all add: step\<close>)
qed

lemma step_kept:
  assumes "program_inv nc ps cargo T sem W"
  shows "kept nc ps cargo T sem (step T sem y W)"
proof (cases y)
  case (Process x)
  then show ?thesis
    using map_step_kept [OF assms] process_kept [OF assms, of x] by (cases x) simp_all
qed (use screen_step_kept [OF assms] in simp)

lemma reaches_inv: "reaches T sem W0 W \<Longrightarrow> program_inv nc ps cargo T sem W0 \<Longrightarrow> program_inv nc ps cargo T sem W"
proof (induction rule: reaches.induct)
  case (reaches_step W y W')
  then show ?case
    using step_kept [of nc ps cargo T sem W y] by simp
qed

text \<open>What the processes do is what they do without a screen.\<close>

lemma map_acts_system: "map_acts T W = Returns W' \<Longrightarrow> act T The_Map (pr_system W) = Returns (pr_system W')"
  by (auto simp: map_acts_def then_do_Returns)

lemma step_system:
  assumes "step T sem y W = Returns W'"
  shows "pr_system W' = pr_system W \<or> (\<exists>x. act T x (pr_system W) = Returns (pr_system W'))"
proof (cases y)
  case Screen
  then show ?thesis
    using assms by (auto simp: screen_step_def then_do_Returns split: if_splits)
next
  case (Process x)
  show ?thesis
  proof (cases x)
    case The_Map
    then show ?thesis
      using assms Process
      by (auto simp: map_step_def then_do_Returns split: list.splits map_pc.splits if_splits dest!: map_acts_system)
  qed (use assms Process in \<open>auto simp: then_do_Returns simp del: act.simps\<close>)
qed

lemma reaches_system: "reaches T sem W0 W \<Longrightarrow> sys_reach T (pr_system W0) (pr_system W)"
proof (induction rule: reaches.induct)
  case (reaches_step W y W')
  then show ?case
    using step_system [OF reaches_step(2)] by (auto intro: reach_step)
qed (rule reach_start)

end
