(* ===== verification/Program_Progress.thy ===== *)
theory Program_Progress
  imports Program_Invariant
begin

text \<open>
  Before the end of the program somebody can always go on, if no call fails; and whatever fails,
  no run goes on for ever. At the start the invariant holds.
\<close>

section \<open>Somebody can go on\<close>

definition goes_on :: "'a outcome \<Rightarrow> bool" where
  "goes_on r \<longleftrightarrow> (\<exists>x. r = Returns x)"

lemma goes_on_simps [simp]: "goes_on (Returns x)" "\<not> goes_on Blocks" "\<not> goes_on Faults"
  by (simp_all add: goes_on_def)

lemma map_acts_goes_on: "goes_on (map_acts T W) = goes_on (act T The_Map (pr_system W))"
  by (cases "act T The_Map (pr_system W)") (simp_all add: map_acts_def)

lemma map_goes_on:
  assumes "sys_ok nc ps cargo T S" "sy_pc S \<in> {M_Turn, M_Ending}"
  shows "goes_on (act T The_Map S)"
  using act_map_ok [OF assms(1)] assms(2) by (auto simp: map_waiting_def goes_on_def split: outcome.splits)

lemma process_goes_on: "x \<noteq> The_Map \<Longrightarrow> goes_on (step T sem (Process x) W) = goes_on (act T x (pr_system W))"
  by (cases x; cases "act T x (pr_system W)") simp_all

lemma not_stuck: "r \<noteq> Faults \<Longrightarrow> r \<noteq> Blocks \<Longrightarrow> goes_on r"
  by (cases r) simp_all

lemma post_not_Blocks: "ipc_sem_post sem os \<noteq> Blocks"
  by (simp add: ipc_sem_post_def Let_def split: option.split)

lemma post_times_not_Blocks: "post_times k sem os \<noteq> Blocks"
  by (induction k arbitrary: os) (auto simp: then_do_Blocks post_not_Blocks split: prod.splits)

lemma screen_not_Blocks:
  assumes "message_queue_pop False (pr_queue W) = Returns (m, q)" "\<not> pr_over W"
  shows "screen_step sem W \<noteq> Blocks"
  using assms by (auto simp: screen_step_def then_do_Blocks post_times_not_Blocks)

text \<open>
  Nothing is on its way to the screen, and the map is at the semaphore: the screen has shown all
  statuses, so the semaphore lets the map through.
\<close>

lemma turn_enabled:
  assumes inv: "program_inv nc ps cargo T sem W" and at: "\<not> pr_over W" "on_its_way W = []" "map_pc_of W = M_Turn"
  shows "goes_on (map_step T sem W)"
proof -
  have ok: "sys_ok nc ps cargo T (pr_system W)" and runs: "screen_runs sem W"
    using inv at(1) by (simp_all add: program_inv_def)
  obtain go where go: "turn_goes_on (sy_map (pr_system W)) = Some go"
    using turn_goes_on_defined [OF ok at(3)] by blast
  have "shown_of W = turn_of W + 1"
    using runs at(2,3) by (auto simp: screen_runs_def)
  then have r: "sem_ready sem (pr_os W)" "0 < sem_val sem (pr_os W)"
    using runs at(3) by (auto simp: screen_runs_def paced_def)
  obtain os where "ipc_sem_wait sem (pr_os W) = Returns (0, os)"
    using sysv.wait_pos [OF r] by blast
  moreover have "pr_pushing W = []"
    using at(2) by (simp add: on_its_way_def)
  ultimately show ?thesis
    using go map_goes_on [OF ok] at(3) by (simp add: map_step_def map_acts_goes_on)
qed

lemma screen_or_map:
  assumes inv: "program_inv nc ps cargo T sem W" and run: "\<not> pr_over W"
    and on: "map_pc_of W \<notin> {M_Turn, M_Ending} \<Longrightarrow> \<exists>x. goes_on (act T x (pr_system W))"
  shows "\<exists>y. goes_on (step T sem y W)"
proof -
  have runs: "screen_runs sem W"
    using inv run by (simp add: program_inv_def)
  then have q: "mq_inv (pr_queue W)"
    by (simp add: screen_runs_def)
  have safe: "step T sem y W \<noteq> Faults" for y
    using step_kept [OF inv, of y] by auto
  consider m ms where "mq_list (pr_queue W) = m # ms" | m ms where "mq_list (pr_queue W) = []" "pr_pushing W = m # ms"
    | "on_its_way W = []"
    by (cases "mq_list (pr_queue W)"; cases "pr_pushing W") (auto simp: on_its_way_def)
  then show ?thesis
  proof cases
    case 1
    then obtain q' where "message_queue_pop False (pr_queue W) = Returns (m, q')"
      using mq.pop_some [OF q 1] by auto
    then have "goes_on (step T sem Screen W)"
      using screen_not_Blocks [OF _ run] safe [of Screen] by (intro not_stuck) simp_all
    then show ?thesis
      by blast
  next
    case 2
    obtain q' where "message_queue_push False (pr_queue W) m = Returns q'"
      using mq.push_room [OF q, of m] 2(1) by auto
    then have "goes_on (step T sem (Process The_Map) W)"
      using 2(2) by (simp add: map_step_def)
    then show ?thesis
      by blast
  next
    case 3
    then have none: "pr_pushing W = []" "\<not> pr_told W"
      using runs by (auto simp: on_its_way_def screen_runs_def split: if_splits)
    show ?thesis
    proof (cases "map_pc_of W \<in> {M_Turn, M_Ending}")
      case True
      then have "goes_on (step T sem (Process The_Map) W)"
        using turn_enabled [OF inv run 3] none by (auto simp: map_step_def)
      then show ?thesis
        by blast
    next
      case False
      obtain x where x: "goes_on (act T x (pr_system W))"
        using on [OF False] by blast
      have "map_step T sem W = map_acts T W"
        using False none(1) by (simp add: map_step_def split: map_pc.split)
      then have "goes_on (step T sem (Process x) W)"
        using x process_goes_on [of x] by (cases "x = The_Map") (simp_all add: map_acts_goes_on)
      then show ?thesis
        by blast
    qed
  qed
qed

lemma program_goes_on:
  assumes inv: "program_inv nc ps cargo T sem W" and live: "live (pr_system W)" and "\<not> program_over W"
  shows "\<exists>y. goes_on (step T sem y W)"
proof -
  have ok: "sys_ok nc ps cargo T (pr_system W)"
    using inv by (simp add: program_inv_def)
  have on: "\<exists>x. goes_on (act T x (pr_system W))" if "\<not> all_ended (pr_system W)"
    using system_goes_on [OF ok live that] by (auto simp: goes_on_def)
  show ?thesis
  proof (cases "pr_over W")
    case False
    then have "map_pc_of W \<noteq> M_Ended"
      using inv by (simp add: program_inv_def screen_runs_def)
    then have "\<not> all_ended (pr_system W)"
      by (simp add: all_ended_def)
    then show ?thesis
      using screen_or_map [OF inv False] on by blast
  next
    case True
    then have over: "pr_told W" "pr_pushing W = []" "map_pc_of W \<in> {M_Ending, M_Ended}"
      using inv by (simp_all add: program_inv_def screen_ended_def)
    then obtain x where x: "goes_on (act T x (pr_system W))"
      using on assms(3) True by (auto simp: program_over_def)
    show ?thesis
    proof (cases "map_pc_of W = M_Ending")
      case ending: True
      then have "goes_on (step T sem (Process The_Map) W)"
        using over True map_goes_on [OF ok] by (simp add: map_step_def map_acts_goes_on)
      then show ?thesis
        by blast
    next
      case False
      then have "x \<noteq> The_Map"
        using x over(3) by (auto simp: act.simps)
      then have "goes_on (step T sem (Process x) W)"
        using x process_goes_on [of x] by simp
      then show ?thesis
        by blast
    qed
  qed
qed

lemma program_over_blocks:
  assumes "program_over W"
  shows "step T sem y W = Blocks"
proof -
  have over: "pr_over W" "pr_pushing W = []" "map_pc_of W = M_Ended" "act T x (pr_system W) = Blocks" for x
    using assms all_ended_blocks [of "pr_system W" T x] by (simp_all add: program_over_def all_ended_def)
  show ?thesis
  proof (cases y)
    case (Process x)
    then show ?thesis
      using over by (cases x) (simp_all add: map_step_def map_acts_def)
  qed (use over in \<open>simp add: screen_step_def\<close>)
qed

lemma program_stuck_iff_over:
  assumes "program_inv nc ps cargo T sem W" "live (pr_system W)"
  shows "(\<forall>y. step T sem y W = Blocks) \<longleftrightarrow> program_over W"
  using program_goes_on [OF assms] program_over_blocks [of W T sem] by (metis goes_on_simps(2))

section \<open>No run goes on for ever\<close>

definition to_show :: "program_state \<Rightarrow> nat" where
  "to_show W = 2 * length (pr_pushing W) + length (mq_list (pr_queue W))"

definition to_tell :: "program_state \<Rightarrow> nat" where
  "to_tell W = (if pr_told W then 0 else 1)"

definition program_less :: "(program_state \<times> program_state) set" where
  "program_less = inv_image (work_less <*lex*> less_than <*lex*> less_than) (\<lambda>W. (pr_system W, to_tell W, to_show W))"

lemma wf_program_less: "wf program_less"
  by (auto simp: program_less_def work_less_def)

lemma map_acts_less:
  assumes "sys_ok nc ps cargo T (pr_system W)" "map_acts T (W\<lparr>pr_queue := q, pr_os := os\<rparr>) = Returns W'"
  shows "(W', W) \<in> program_less"
  using act_work [OF assms(1)] assms(2) by (auto simp: map_acts_def then_do_Returns program_less_def)

lemma map_step_less:
  assumes inv: "program_inv nc ps cargo T sem W" and step: "map_step T sem W = Returns W'"
  shows "(W', W) \<in> program_less"
proof -
  have ok: "sys_ok nc ps cargo T (pr_system W)"
    using inv by (simp add: program_inv_def)
  show ?thesis
  proof (cases "pr_pushing W")
    case (Cons msg msgs)
    then have "mq_inv (pr_queue W)"
      using inv by (auto simp: program_inv_def screen_runs_def screen_ended_def split: if_splits)
    moreover obtain q where q: "message_queue_push False (pr_queue W) msg = Returns q"
      and W': "W' = W\<lparr>pr_queue := q, pr_pushing := msgs\<rparr>"
      using step Cons by (auto simp: map_step_def then_do_Returns)
    ultimately have "mq_list q = mq_list (pr_queue W) @ [msg]"
      using mq.push_keeps [of "pr_queue W" msg] by auto
    then show ?thesis
      by (simp add: W' program_less_def to_show_def to_tell_def Cons)
  next
    case Nil
    consider "\<not> pr_told W" "W' = W\<lparr>pr_told := True, pr_pushing := [marshall_end_output]\<rparr>"
      | q os where "map_acts T (W\<lparr>pr_queue := q, pr_os := os\<rparr>) = Returns W'"
    proof (cases "map_pc_of W")
      case M_Turn
      then obtain os where "map_acts T (W\<lparr>pr_os := os\<rparr>) = Returns W' \<or> map_acts T W = Returns W'"
        using step Nil by (auto simp: map_step_def then_do_Returns split: if_splits)
      then show ?thesis
        using that(2) [where q = "pr_queue W" and os = os] that(2) [where q = "pr_queue W" and os = "pr_os W"] by auto
    next
      case M_Ending
      then show ?thesis
        using step Nil that(1) that(2) [where q = "message_queue_destroy (pr_queue W)" and os = "snd (ipc_sem_destroy sem (pr_os W))"]
        by (cases "pr_told W"; cases "pr_over W") (simp_all add: map_step_def)
    qed (use step Nil that(2) [where q = "pr_queue W" and os = "pr_os W"] in \<open>simp_all add: map_step_def\<close>)
    then show ?thesis
    proof cases
      case 1
      then show ?thesis
        by (simp add: program_less_def to_tell_def)
    qed (rule map_acts_less [OF ok])
  qed
qed

lemma step_less:
  assumes inv: "program_inv nc ps cargo T sem W" and step: "step T sem y W = Returns W'"
  shows "(W', W) \<in> program_less"
proof (cases y)
  case (Process x)
  show ?thesis
  proof (cases "x = The_Map")
    case True
    then show ?thesis
      using map_step_less [OF inv] step Process by simp
  next
    case False
    then obtain S where "act T x (pr_system W) = Returns S" "W' = W\<lparr>pr_system := S\<rparr>"
      using step Process by (cases x) (auto simp: then_do_Returns)
    moreover have "sys_ok nc ps cargo T (pr_system W)"
      using inv by (simp add: program_inv_def)
    ultimately show ?thesis
      using act_work by (auto simp: program_less_def)
  qed
next
  case Screen
  then obtain m q where q: "\<not> pr_over W" "message_queue_pop False (pr_queue W) = Returns (m, q)"
    and W': "pr_queue W' = q" "pr_system W' = pr_system W" "pr_told W' = pr_told W" "pr_pushing W' = pr_pushing W"
    using step by (auto simp: screen_step_def then_do_Returns split: if_splits)
  have "mq_inv (pr_queue W)"
    using inv q(1) by (simp add: program_inv_def screen_runs_def)
  then have "mq_list (pr_queue W) = m # mq_list q"
    using q(2) mq.pop_empty [of "pr_queue W"] mq.pop_some [of "pr_queue W"]
    by (cases "mq_list (pr_queue W)") fastforce+
  then show ?thesis
    by (simp add: program_less_def to_show_def to_tell_def W')
qed

lemma no_infinite_program:
  assumes "program_inv nc ps cargo T sem (f 0)" "\<And>i. \<exists>y. step T sem y (f i) = Returns (f (Suc i))"
  shows False
proof -
  have inv: "program_inv nc ps cargo T sem (f i)" for i
  proof (induction i)
    case (Suc i)
    obtain y where "step T sem y (f i) = Returns (f (Suc i))"
      using assms(2) by blast
    then show ?case
      using step_kept [OF Suc, of y] by simp
  qed (rule assms(1))
  have "(f (Suc i), f i) \<in> program_less" for i
    using step_less [OF inv] assms(2) by blast
  then show False
    using wf_program_less by (auto simp: wf_iff_no_infinite_down_chain)
qed

section \<open>The start\<close>

text \<open>What the program starts with: a playable map, a good fleet, and a semaphore to be had.\<close>

definition startable :: "map_state \<Rightarrow> airline vector \<Rightarrow> sem_os \<Rightarrow> bool" where
  "startable st airlines os \<longleftrightarrow> sim_wf (ms_map st) \<and> fleet_good (ms_map st) airlines \<and> length (vlist airlines) \<le> 1000000 \<and>
     ms_sent st = [] \<and> sems_free os"

lemma boot_airlines_ids:
  "boot_airlines writes grants a as = Some As \<Longrightarrow> map (\<lambda>A. al_id (ap_state A)) As = map airline_id as \<and>
    (\<forall>A\<in>set As. al_sent (ap_state A) = [])"
proof (induction as arbitrary: a As)
  case (Cons self as)
  obtain A As' where A: "boot_airline (writes a) (grants a) self = Some A" "boot_airlines writes grants (Suc a) as = Some As'"
    "As = A # As'"
    using Cons.prems by (auto simp: bind_eq_Some_conv)
  moreover have "al_id (ap_state A) = airline_id self \<and> al_sent (ap_state A) = []"
    using A(1) by (auto simp: boot_airline_def bind_eq_Some_conv airline_start_def)
  ultimately show ?case
    using Cons.IH [OF A(2)] by simp
qed simp

lemma system_start_sends:
  assumes "system_start writes grants airlines st = Some (T, S)" "fleet_good (ms_map st) airlines" "length (vlist airlines) \<le> 1000000"
  shows "all_named S" "sy_inbox S = []"
    "\<exists>new. ms_output (sy_map S) = ms_output st @ new \<and> list_all shown_ok new \<and> statuses new = 1"
proof -
  have inv: "vec_inv airlines" and ids: "\<And>a. a < length (vlist airlines) \<Longrightarrow> airline_id (vlist airlines ! a) = int a"
    using assms(2) by (simp_all add: fleet_good_def airline_good_def)
  obtain st1 st2 As where s: "send_airlines_status airlines st = Some st1" "output_map_status T st1 = Some st2"
    "boot_airlines writes grants 0 (vlist airlines) = Some As"
    "S = \<lparr>sy_pc = M_Turn, sy_map = st2\<lparr>ms_turn := 0\<rparr>, sy_inbox = [], sy_airlines = As\<rparr>"
    using assms(1) by (auto simp: system_start_def bind_eq_Some_conv)
  have small: "0 \<le> airline_id a \<and> airline_id a \<le> 1000000" if "a \<in> set (vlist airlines)" for a
    using that ids assms(3) by (auto simp: in_set_conv_nth)
  have "played 0 1 st st2"
    using played_trans [OF send_airlines_status_played [OF s(1) inv small] output_map_status_played [OF s(2)]] by simp
  then show "\<exists>new. ms_output (sy_map S) = ms_output st @ new \<and> list_all shown_ok new \<and> statuses new = 1"
    by (auto simp: played_def s(4))
  note boot = boot_airlines_ids [OF s(3)]
  then have len: "length As = length (vlist airlines)"
    by (metis length_map)
  have "named (ap_state (As ! a))" if a: "a < length As" for a
  proof -
    have "map (\<lambda>A. al_id (ap_state A)) As ! a = map airline_id (vlist airlines) ! a"
      using boot by (rule arg_cong [OF conjunct1])
    then have "al_id (ap_state (As ! a)) = int a"
      using a len ids [of a] by simp
    then show ?thesis
      using boot a len assms(3) by (simp add: named_def)
  qed
  then show "all_named S" "sy_inbox S = []"
    by (simp_all add: all_named_def s(4))
qed

lemma program_start_inv:
  assumes "startable st airlines os" "fst (alloc al)"
  shows "\<exists>sem S W. program_start al os writes grants airlines st = Some (demand (ms_map st), sem, W) \<and> 0 \<le> sem \<and>
    system_start writes grants airlines st = Some (demand (ms_map st), S) \<and> pr_system W = S \<and>
    program_inv (length (vlist (map_cities (ms_map st)))) (map_product (ms_map st)) (cargo_of (vlist airlines)) (demand (ms_map st)) sem W"
proof -
  have ok: "sim_wf (ms_map st)" "fleet_good (ms_map st) airlines" "length (vlist airlines) \<le> 1000000" "ms_sent st = []" "sems_free os"
    using assms(1) by (simp_all add: startable_def)
  let ?T = "demand (ms_map st)"
  obtain S where S: "system_start writes grants airlines st = Some (?T, S)" "sy_pc S = M_Turn" "ms_turn (sy_map S) = 0"
    "sys_ok (length (vlist (map_cities (ms_map st)))) (map_product (ms_map st)) (cargo_of (vlist airlines)) ?T S"
    using system_start_ok [OF ok(1,2,4), of writes grants] by blast
  note sends = system_start_sends [OF S(1) ok(2,3)]
  obtain new where new: "ms_output (sy_map S) = ms_output st @ new" "list_all shown_ok new" "statuses new = 1"
    using sends(3) by blast
  obtain q al' where q: "message_queue_create al = (Some q, al')"
    using assms(2) by (cases "message_queue_create al") (simp add: message_queue_create_ok)
  obtain sem os' where sem: "ipc_sem_create 1 os = Some (sem, os')" "0 \<le> sem" "ipc_sem_value sem os' = Some 1" "\<exists>e. find_sem sem os' = Some e"
    using ipc_sem_create_ok [of os 1] ok(5) by (auto simp: sems_free_def SEMVMX_def)
  have ready: "sem_ready sem os'" "sem_val sem os' = 1"
    using sem(3,4) by (auto simp: sem_ready_def sem_val_def ipc_sem_value_def find_sem_def dest: find_Some_in)
  let ?W = "\<lparr>pr_system = S, pr_os = os', pr_pushing = new, pr_queue = q, pr_screen = output_init, pr_told = False, pr_over = False\<rparr>"
  have "out_posts output_init = 0"
    by (simp add: output_init_def)
  then have "program_inv (length (vlist (map_cities (ms_map st)))) (map_product (ms_map st)) (cargo_of (vlist airlines)) ?T sem ?W"
    using S sends(1) new(2,3) message_queue_create_inv [OF q] display_init ready
    by (simp add: program_inv_def screen_runs_def paced_def on_its_way_def)
  moreover have "program_start al os writes grants airlines st = Some (?T, sem, ?W)"
    using q sem(1,2) S(1) new(1) by (simp add: program_start_def)
  ultimately show ?thesis
    using S(1) sem(2) by (intro exI [of _ sem] exI [of _ S] exI [of _ ?W]) simp
qed

section \<open>Runs from a start\<close>

text \<open>Everything a run from a start has.\<close>

lemma program_run:
  assumes "startable st airlines os" "program_start al os writes grants airlines st = Some (T, sem, W0)" "reaches T sem W0 W"
  shows "T = demand (ms_map st)" "sem \<noteq> - 1"
    "program_inv (length (vlist (map_cities (ms_map st)))) (map_product (ms_map st)) (cargo_of (vlist airlines)) T sem W"
    "system_start writes grants airlines st = Some (T, pr_system W0)" "sys_reach T (pr_system W0) (pr_system W)"
proof -
  have "fst (alloc al)"
    using assms(2) by (auto simp: program_start_def message_queue_create_ok split: if_splits)
  from program_start_inv [OF assms(1) this, of writes grants] obtain sem' S W' where
    start: "program_start al os writes grants airlines st = Some (demand (ms_map st), sem', W')" "0 \<le> sem'"
      "system_start writes grants airlines st = Some (demand (ms_map st), S)" "pr_system W' = S"
      "program_inv (length (vlist (map_cities (ms_map st)))) (map_product (ms_map st)) (cargo_of (vlist airlines))
        (demand (ms_map st)) sem' W'"
    by blast
  then have same: "T = demand (ms_map st)" "sem = sem'" "W0 = W'"
    using assms(2) by simp_all
  then show "T = demand (ms_map st)" "sem \<noteq> - 1" "system_start writes grants airlines st = Some (T, pr_system W0)"
    using start(2-4) by simp_all
  show "program_inv (length (vlist (map_cities (ms_map st)))) (map_product (ms_map st)) (cargo_of (vlist airlines)) T sem W"
    using reaches_inv [OF assms(3)] start(5) same by blast
  show "sys_reach T (pr_system W0) (pr_system W)"
    by (rule reaches_system [OF assms(3)])
qed

lemma program_run_live:
  assumes "startable st airlines os" "ms_writes st = []"
    and "program_start al os (\<lambda>_ _. []) (\<lambda>_ _. []) airlines st = Some (T, sem, W0)" "reaches T sem W0 W"
  shows "live (pr_system W)"
proof -
  have ok: "sim_wf (ms_map st)" "fleet_good (ms_map st) airlines" "ms_sent st = []"
    using assms(1) by (simp_all add: startable_def)
  note run = program_run [OF assms(1,3)]
  have "sys_ok (length (vlist (map_cities (ms_map st)))) (map_product (ms_map st)) (cargo_of (vlist airlines)) T (pr_system W0)"
    using run(3) [OF reaches_start] by (simp add: program_inv_def)
  then show ?thesis
    using system_start_live [OF ok assms(2) run(4) [OF assms(4)]] sys_reach_live [OF run(5) [OF assms(4)]] by blast
qed

text \<open>Why the map stopped.\<close>

lemma program_run_stops:
  assumes "startable st airlines os" "ms_exits st = []"
    and "program_start al os writes grants airlines st = Some (T, sem, W0)" "reaches T sem W0 W"
  shows "stops_well (pr_system W)"
proof -
  note run = program_run [OF assms(1,3,4)]
  obtain S where S: "system_start writes grants airlines st = Some (demand (ms_map st), S)" "ms_exits (sy_map S) = ms_exits st"
    "sy_pc S = M_Turn" "ms_turn (sy_map S) = 0"
    "sys_ok (length (vlist (map_cities (ms_map st)))) (map_product (ms_map st)) (cargo_of (vlist airlines)) (demand (ms_map st)) S"
    using system_start_ok [of st airlines writes grants] assms(1) by (auto simp: startable_def)
  then have "stops_well (pr_system W0)" "pr_system W0 = S" "T = demand (ms_map st)"
    using run(1,4) assms(2) by (simp_all add: stops_well_def)
  then show ?thesis
    using sys_reach_stops [OF run(5)] S(5) by blast
qed

text \<open>Where the map is held up by the screen, the screen can go on.\<close>

lemma held_up_screen_goes_on:
  assumes inv: "program_inv nc ps cargo T sem W" and run: "\<not> pr_over W"
    and held: "map_step T sem W = Blocks" "pr_pushing W \<noteq> [] \<or> map_pc_of W \<in> {M_Turn, M_Ending}"
  shows "goes_on (screen_step sem W)"
proof -
  have runs: "screen_runs sem W"
    using inv run by (simp add: program_inv_def)
  then have q: "mq_inv (pr_queue W)"
    by (simp add: screen_runs_def)
  have "mq_list (pr_queue W) \<noteq> []"
  proof
    assume empty: "mq_list (pr_queue W) = []"
    show False
    proof (cases "pr_pushing W")
      case (Cons m ms)
      then show False
        using mq.push_room [OF q, of m] held(1) empty by (auto simp: map_step_def)
    next
      case Nil
      then have "on_its_way W = []" "\<not> pr_told W"
        using empty runs by (auto simp: on_its_way_def screen_runs_def split: if_splits)
      then show False
        using turn_enabled [OF inv run] held Nil by (auto simp: map_step_def)
    qed
  qed
  then obtain m ms where "mq_list (pr_queue W) = m # ms"
    by (cases "mq_list (pr_queue W)") auto
  then obtain q' where "message_queue_pop False (pr_queue W) = Returns (m, q')"
    using mq.pop_some [OF q] by fastforce
  then show ?thesis
    using screen_not_Blocks [OF _ run] screen_step_kept [OF inv] by (intro not_stuck) auto
qed

end
