(* ===== verification/Program_Folder.thy ===== *)
theory Program_Folder
  imports Program_Progress
begin

text \<open>
  \<open>main\<close> from the folder to the running program: the map and the airlines are parsed, the children
  forked, the connections made, and Whole\_Program started. From a good folder whose planes carry
  as many goods as a message holds, and no negative amounts, the program can be started.
\<close>

definition main_start :: "string list \<Rightarrow> string option \<times> (string \<times> string option) list \<Rightarrow> mallocs \<Rightarrow> sem_os \<Rightarrow>
  (nat \<Rightarrow> nat \<Rightarrow> bool list) \<Rightarrow> (nat \<Rightarrow> nat \<Rightarrow> mallocs) \<Rightarrow> bool list \<Rightarrow> bool list \<Rightarrow> (int \<times> int \<times> program_state) option" where
  "main_start argv folder al os writes grants map_writes exits = do {
     let (map_file, dirents) = folder;
     _ \<leftarrow> path_in (argv ! 1) ''map'';
     parsed \<leftarrow> parseMap [] map_file;
     m \<leftarrow> parsed;
     (airlines, m') \<leftarrow> load_airlines (argv ! 1) dirents (vec_of []) m;
     children \<leftarrow> run_airlines airlines;
     (conns, _) \<leftarrow> connect_airlines (getVectorSize airlines);
     program_start al os writes grants airlines
       \<lparr>ms_map = m', ms_turn = 0, ms_sent = [], ms_output = [], ms_writes = map_writes, ms_exits = exits\<rparr>
   }"

text \<open>What the messages of a plane can hold.\<close>

definition cargo_fits :: "city_desc list list \<Rightarrow> bool" where
  "cargo_fits pss \<longleftrightarrow>
     list_all (list_all (\<lambda>(c, items). length items \<le> MAX_STOCKS \<and> list_all (\<lambda>(w, a). 0 \<le> a) items)) pss"

lemma plane_of_good:
  assumes "city_ok p" "fst p \<in> set cnames" "fst ` set (snd p) \<subseteq> set names" "length (snd p) \<le> MAX_STOCKS"
    "list_all (\<lambda>(w, a). 0 \<le> a) (snd p)" "map_product m = catalogue names" "length (vlist (map_cities m)) = length cnames"
  shows "plane_good m i (plane_of names cnames i p)"
proof -
  have "stocks_known (catalogue names) (stocks_of names (snd p))"
    using assms(1,3,5) product_in_catalogue
    by (fastforce simp: stocks_known_def stocks_of_def list_all_iff stock_wf_def city_ok_def item_ok_def split_def)
  then have "stocks_ok (map_product m) (length (stocks_of names (snd p))) (vec_of (stocks_of names (snd p)))"
    using assms(4,6) unfolding stocks_ok_def
    by (intro exI [of _ "stocks_of names (snd p)"]) (simp add: stocks_of_def)
  then show ?thesis
    using assms(2,7) index_of_less [of "fst p" cnames]
    by (auto simp: plane_good_def plane_of_def in_int_def INT_MIN_def INT_MAX_def intro: index_of_less)
qed

lemma airlines_from_nth: "i < length pss \<Longrightarrow> airlines_from k names cnames pss ! i = airline_of names cnames (k + i) (pss ! i)"
  by (induction pss arbitrary: k i) (auto simp: nth_Cons split: nat.split)

lemma folder_planes:
  assumes "folder_ok dir cnames dirents pss" "ps \<in> set pss"
  shows "planes_ok cnames ps"
  using assms by (auto simp: folder_ok_def list_all2_conv_all_nth in_set_conv_nth)

lemma folder_fleet_good:
  assumes "good_folder argv contents dirents cs roads pss M" "cargo_fits pss"
    and "map_product m = catalogue names" "length (vlist (map_cities m)) = length cs"
    and names: "set (concat (map goods pss)) \<subseteq> set names"
  shows "fleet_good m (vec_of (airlines_from 0 names (map fst cs) pss))"
proof -
  let ?as = "airlines_from 0 names (map fst cs) pss"
  have folder: "folder_ok (argv ! 1) (map fst cs) dirents pss" "length pss \<le> 1000000"
    using assms(1) by (simp_all add: good_folder_def)
  have len: "length ?as = length pss"
    using airlines_from_ids(1) by simp
  have "airline_good m a (?as ! a)" if a: "a < length pss" for a
  proof -
    let ?ps = "pss ! a"
    have ps: "planes_ok (map fst cs) ?ps" "?ps \<in> set pss"
      using folder_planes [OF folder(1)] a by simp_all
    have "plane_good m p (plane_of names (map fst cs) p (?ps ! p))" if p: "p < length ?ps" for p
    proof (rule plane_of_good)
      have in_ps: "?ps ! p \<in> set ?ps"
        using p by simp
      show "city_ok (?ps ! p)" "fst (?ps ! p) \<in> set (map fst cs)"
        using ps(1) in_ps by (auto simp: planes_ok_def list_all_iff split_def)
      have "fst ` set (snd (?ps ! p)) \<subseteq> set (goods ?ps)"
      proof (cases "?ps ! p")
        case (Pair c ws)
        then have "(c, ws) \<in> set ?ps"
          using in_ps by simp
        then show ?thesis
          unfolding goods_def Pair by auto
      qed
      then show "fst ` set (snd (?ps ! p)) \<subseteq> set names"
        using names ps(2) by auto
      show "length (snd (?ps ! p)) \<le> MAX_STOCKS" "list_all (\<lambda>(w, a). 0 \<le> a) (snd (?ps ! p))"
        using assms(2) ps(2) in_ps by (auto simp: cargo_fits_def list_all_iff split_def)
    qed (use assms(3,4) in simp_all)
    then show ?thesis
      using ps(1) a by (simp add: airlines_from_nth airline_of_def airline_good_def planes_of_def planes_ok_def)
  qed
  then show ?thesis
    using folder(2) len by (simp add: fleet_good_def)
qed

text \<open>Loading a good folder gives what the program can start with.\<close>

lemma main_start_good:
  assumes "good_folder argv contents dirents cs roads pss M" "cargo_fits pss" "sems_free os"
  shows "\<exists>airlines st. startable st airlines os \<and> demand (ms_map st) = wanted cs \<and> ms_writes st = map_writes \<and>
    ms_exits st = exits \<and> length (vlist airlines) = length pss \<and>
    main_start argv (Some contents, dirents) al os writes grants map_writes exits = program_start al os writes grants airlines st"
proof -
  let ?names = "intern_all [] (goods cs @ concat (map goods pss))"
  let ?as = "airlines_from 0 ?names (map fst cs) pss"
  obtain m where m: "parseMap [] (Some contents) = Some (Some m)"
    "load_airlines (argv ! 1) dirents (vec_of []) m = Some (vec_of ?as, m\<lparr>map_product := catalogue ?names\<rparr>)"
    "sim_wf (m\<lparr>map_product := catalogue ?names\<rparr>)" "demand m = wanted cs"
    using good_folder_loaded [OF assms(1) refl] by blast
  let ?m = "m\<lparr>map_product := catalogue ?names\<rparr>"
  let ?st = "\<lparr>ms_map = ?m, ms_turn = 0, ms_sent = [], ms_output = [], ms_writes = map_writes, ms_exits = exits\<rparr>"
  have f: "length pss \<le> 1000000" "path_in (argv ! 1) ''map'' \<noteq> None" "tokens contents = map_tokens cs roads" "desc_ok cs roads"
    "playable cs roads M"
    using assms(1) by (simp_all add: good_folder_def)
  obtain d where "floydMatrix (road_matrix (map fst cs) roads) (length cs) = Some d"
    using parsed_distances [OF f(4,5)] by blast
  then have "m = described_map cs d"
    using parseMap_described [OF f(3,4)] m(1) by simp
  then have "length (vlist (map_cities m)) = length cs"
    by (simp add: described_map_def cities_of_def)
  then have "fleet_good ?m (vec_of ?as)"
    by (intro folder_fleet_good [OF assms(1,2)]) (auto simp: set_intern_all)
  moreover have ids: "length ?as = length pss" "map airline_id ?as = map int [0..<length pss]"
    using airlines_from_ids [of 0] by simp_all
  ultimately have "startable ?st (vec_of ?as) os"
    using assms(3) m(3) f(1) by (simp add: startable_def)
  moreover have "connect_airlines (length pss) = Some (vec_of [0..<length pss], map (\<lambda>i. air_name (int i)) [0..<length pss])"
    using f(1) by (intro connect_airlines_names) simp
  moreover have "run_airlines (vec_of ?as) \<noteq> None"
    using run_airlines_children [of "vec_of ?as"] ids f(1) by (simp add: ids_are_indices_def)
  then have "main_start argv (Some contents, dirents) al os writes grants map_writes exits =
      program_start al os writes grants (vec_of ?as) ?st"
    using calculation(2) f(2) m ids(1) by (auto simp: main_start_def)
  ultimately show ?thesis
    using m(4) ids(1) by (intro exI [of _ "vec_of ?as"] exI [of _ ?st]) simp
qed

end
