(* ===== verification/Screen_Contents.thy ===== *)
theory Screen_Contents
  imports Output_Thread
begin

text \<open>
  What stands on the screen, row by row, after the messages of a number of turns: in every turn the
  airlines report, and then comes the status of the map.
\<close>

type_synonym shown_turn = "AirlineStatus list \<times> real option \<times> int \<times> int"

definition airline_message :: "AirlineStatus \<Rightarrow> Message" where
  "airline_message s = \<lparr>msg_type = MessageTypeAirlineStatus, msg_payload = P_AirlineStatus s\<rparr>"

definition turn_messages :: "shown_turn \<Rightarrow> Message list" where
  "turn_messages = (\<lambda>(as, p, c, t). map airline_message as @ [marshall_send_map_status p c t])"

text \<open>The rows of the airlines: the last report of each.\<close>

definition airline_rows :: "AirlineStatus list \<Rightarrow> int \<Rightarrow> line option" where
  "airline_rows as = map_of (rev (map (\<lambda>a.
     (AIRLINE_INITIAL_LINE + as_id a, Airline_Line (as_id a) (as_planesFlying a) (as_totalPlanes a))) as))"

text \<open>The reports that stand there: those of the last turn in which any airline reported.\<close>

definition reports_shown :: "shown_turn list \<Rightarrow> AirlineStatus list" where
  "reports_shown turns = (let ts = filter (\<lambda>(as, _). as \<noteq> []) turns in if ts = [] then [] else fst (last ts))"

text \<open>The last row used.\<close>

definition lowest :: "AirlineStatus list \<Rightarrow> int \<Rightarrow> int" where
  "lowest as row = fold (\<lambda>a row. max row (AIRLINE_INITIAL_LINE + as_id a)) as row"

definition last_row :: "shown_turn list \<Rightarrow> int" where
  "last_row turns = lowest (concat (map fst turns)) AIRLINE_INITIAL_LINE"

text \<open>The screen after the turns: the number of the last turn, its status, and the airlines.\<close>

definition screen_of :: "shown_turn list \<Rightarrow> int \<Rightarrow> line option" where
  "screen_of turns row =
     (if turns \<noteq> [] \<and> row = TURN_LINE then Some (Turn_Line (int (length turns) - 1))
      else if turns \<noteq> [] \<and> row = MAP_LINE_1 then Some (case last turns of (as, p, c, t) \<Rightarrow> Completion_Line p)
      else if turns \<noteq> [] \<and> row = MAP_LINE_2 then Some (case last turns of (as, p, c, t) \<Rightarrow> Cities_Line c t)
      else airline_rows (reports_shown turns) row)"

text \<open>And after the end.\<close>

definition closing_screen :: "shown_turn list \<Rightarrow> int \<Rightarrow> line option" where
  "closing_screen turns =
     (screen_of turns)(last_row turns + FINAL_LINE_2 := Some Over_Line, last_row turns + FINAL_LINE_3 := Some Ninja_Line)"

definition turn_ok :: "shown_turn \<Rightarrow> bool" where
  "turn_ok = (\<lambda>(as, p, c, t). list_all (\<lambda>a. 0 \<le> as_id a \<and> as_id a \<le> 1000000) as)"

section \<open>The airlines of a turn\<close>

fun show_all :: "Message list \<Rightarrow> output_state \<Rightarrow> output_state option" where
  "show_all [] st = Some st"
| "show_all (m # ms) st = show_message m st \<bind> show_all ms"

lemma show_all_append: "show_all (ms @ ns) st = show_all ms st \<bind> show_all ns"
  by (induction ms arbitrary: st) (auto split: Option.bind_split)

lemma airline_rows_snoc:
  "airline_rows (as @ [a]) =
    (airline_rows as)(AIRLINE_INITIAL_LINE + as_id a := Some (Airline_Line (as_id a) (as_planesFlying a) (as_totalPlanes a)))"
  by (auto simp: airline_rows_def)

lemma lowest_simps [simp]:
  "lowest [] row = row" "lowest (a # as) row = lowest as (max row (AIRLINE_INITIAL_LINE + as_id a))"
  "lowest (as @ as') row = lowest as' (lowest as row)"
  by (simp_all add: lowest_def)

lemma lowest_bounds:
  assumes "list_all (\<lambda>a. 0 \<le> as_id a \<and> as_id a \<le> 1000000) as" "6 \<le> row" "row \<le> 1000006"
  shows "6 \<le> lowest as row \<and> lowest as row \<le> 1000006"
  using assms by (induction as arbitrary: row) (simp_all add: screen_lines)

lemma show_airline:
  assumes "0 \<le> as_id a" "as_id a \<le> 1000000" "\<not> out_firstOfTurn st"
  shows "show_message (airline_message a) st = Some (st\<lparr>out_maxLine := max (out_maxLine st) (AIRLINE_INITIAL_LINE + as_id a),
    out_screen := (out_screen st)(AIRLINE_INITIAL_LINE + as_id a := Some (Airline_Line (as_id a) (as_planesFlying a) (as_totalPlanes a)))\<rparr>)"
proof -
  have "in_int (AIRLINE_INITIAL_LINE + as_id a)"
    using assms(1,2) by (simp add: screen_lines in_int_def INT_MIN_def INT_MAX_def)
  then show ?thesis
    using assms(3) by (simp add: show_message_def airline_message_def show_airline_status_def mvprintw_def max_def)
qed

lemma show_airlines:
  assumes "list_all (\<lambda>a. 0 \<le> as_id a \<and> as_id a \<le> 1000000) as" "\<not> out_firstOfTurn st" "out_screen st = airline_rows bs"
  shows "show_all (map airline_message as) st =
    Some (st\<lparr>out_maxLine := lowest as (out_maxLine st), out_screen := airline_rows (bs @ as)\<rparr>)"
  using assms
proof (induction as arbitrary: st bs)
  case (Cons a as)
  let ?st = "st\<lparr>out_maxLine := max (out_maxLine st) (AIRLINE_INITIAL_LINE + as_id a), out_screen := airline_rows (bs @ [a])\<rparr>"
  have "show_message (airline_message a) st = Some ?st"
    using Cons.prems by (simp add: show_airline airline_rows_snoc)
  then show ?case
    using Cons.IH [of ?st "bs @ [a]"] Cons.prems by simp
qed simp

text \<open>The first report of a turn clears the screen.\<close>

lemma show_first_airline:
  assumes "out_firstOfTurn st"
  shows "show_message (airline_message a) st = show_message (airline_message a) ((erase st)\<lparr>out_firstOfTurn := False\<rparr>)"
  using assms by (simp add: show_message_def airline_message_def show_airline_status_def erase_def)

lemma show_turn_airlines:
  assumes "list_all (\<lambda>a. 0 \<le> as_id a \<and> as_id a \<le> 1000000) as" "out_firstOfTurn st" "as \<noteq> []"
  shows "show_all (map airline_message as) st =
    Some (st\<lparr>out_firstOfTurn := False, out_maxLine := lowest as (out_maxLine st), out_screen := airline_rows as\<rparr>)"
proof -
  obtain a as' where as: "as = a # as'"
    using assms(3) by (cases as) auto
  let ?st = "(erase st)\<lparr>out_firstOfTurn := False\<rparr>"
  have "show_all (map airline_message as) st = show_all (map airline_message as) ?st"
    using show_first_airline [OF assms(2)] by (simp add: as)
  also have "\<dots> = Some (?st\<lparr>out_maxLine := lowest as (out_maxLine ?st), out_screen := airline_rows ([] @ as)\<rparr>)"
    by (rule show_airlines [OF assms(1)]) (simp_all add: erase_def airline_rows_def)
  finally show ?thesis
    by (simp add: erase_def)
qed

section \<open>The turns\<close>

definition displays :: "shown_turn list \<Rightarrow> output_state \<Rightarrow> bool" where
  "displays turns st \<longleftrightarrow> out_turn st = int (length turns) \<and> out_posts st = length turns \<and> out_firstOfTurn st \<and>
     out_maxLine st = last_row turns \<and> out_screen st = screen_of turns"

lemma show_status:
  assumes "in_int (out_turn st + 1)"
  shows "show_message (marshall_send_map_status p c t) st = Some (st\<lparr>out_turn := out_turn st + 1, out_firstOfTurn := True,
    out_posts := out_posts st + 1,
    out_screen := (out_screen st)(TURN_LINE := Some (Turn_Line (out_turn st)), MAP_LINE_1 := Some (Completion_Line p),
      MAP_LINE_2 := Some (Cities_Line c t))\<rparr>)"
  using assms by (simp add: show_message_def marshall_send_map_status_def show_map_status_def mvprintw_def)

lemma reports_shown_snoc:
  "reports_shown (turns @ [(as, x)]) = (if as = [] then reports_shown turns else as)"
  by (simp add: reports_shown_def Let_def)

lemma show_turn:
  assumes "displays turns st" "turn_ok turn" "length turns < 1000000"
  shows "\<exists>st'. show_all (turn_messages turn) st = Some st' \<and> displays (turns @ [turn]) st'"
proof -
  obtain as p c t where turn: "turn = (as, p, c, t)" "list_all (\<lambda>a. 0 \<le> as_id a \<and> as_id a \<le> 1000000) as"
    using assms(2) by (cases turn) (auto simp: turn_ok_def)
  let ?st = "if as = [] then st
    else st\<lparr>out_firstOfTurn := False, out_maxLine := lowest as (out_maxLine st), out_screen := airline_rows as\<rparr>"
  have first: "show_all (map airline_message as) st = Some ?st"
    using show_turn_airlines [OF turn(2)] assms(1) by (simp add: displays_def)
  have int: "in_int (out_turn ?st + 1)"
    using assms(1,3) by (simp add: displays_def in_int_def INT_MIN_def INT_MAX_def)
  let ?st' = "?st\<lparr>out_turn := out_turn ?st + 1, out_firstOfTurn := True, out_posts := out_posts ?st + 1,
    out_screen := (out_screen ?st)(TURN_LINE := Some (Turn_Line (out_turn ?st)), MAP_LINE_1 := Some (Completion_Line p),
      MAP_LINE_2 := Some (Cities_Line c t))\<rparr>"
  have "show_all (turn_messages turn) st = Some ?st'"
    unfolding turn(1) turn_messages_def prod.case show_all_append first
    using show_status [OF int, of p c t] by simp
  moreover have "displays (turns @ [turn]) ?st'"
    using assms(1)
    by (auto simp: displays_def turn(1) last_row_def screen_of_def reports_shown_snoc screen_lines fun_eq_iff)
  ultimately show ?thesis
    by blast
qed

lemma show_turns:
  assumes "list_all turn_ok turns" "length turns < 1000000"
  shows "\<exists>st. show_all (concat (map turn_messages turns)) output_init = Some st \<and> displays turns st"
  using assms
proof (induction turns rule: rev_induct)
  case Nil
  then show ?case
    by (simp add: displays_def output_init_def screen_of_def last_row_def reports_shown_def airline_rows_def fun_eq_iff)
next
  case (snoc turn turns)
  then obtain st where "show_all (concat (map turn_messages turns)) output_init = Some st" "displays turns st"
    by auto
  then show ?case
    using show_turn [of turns st turn] snoc.prems by (simp add: show_all_append)
qed

section \<open>The end\<close>

lemma output_loop_all:
  assumes "list_all (\<lambda>m. msg_type m \<noteq> MessageTypeEndOutput) ms" "show_all ms st = Some st'"
  shows "output_loop st (ms @ marshall_end_output # later) = or_fault (show_end st')"
  using assms
proof (induction ms arbitrary: st)
  case (Cons m ms)
  then obtain st1 where "show_message m st = Some st1" "show_all ms st1 = Some st'"
    by (auto simp: bind_eq_Some_conv)
  then show ?case
    using Cons by simp
qed (simp add: marshall_end_output_def)

lemma run_output_turns:
  assumes "list_all turn_ok turns" "length turns < 1000000"
  shows "\<exists>st. run_output (concat (map turn_messages turns) @ marshall_end_output # later) = Returns st \<and>
    out_screen st = closing_screen turns \<and> out_turn st = int (length turns) \<and> out_posts st = length turns"
proof -
  obtain st where st: "show_all (concat (map turn_messages turns)) output_init = Some st" "displays turns st"
    using show_turns [OF assms] by blast
  have "list_all (\<lambda>a. 0 \<le> as_id a \<and> as_id a \<le> 1000000) (concat (map fst turns))"
    using assms(1) by (induction turns) (auto simp: turn_ok_def)
  then have "6 \<le> last_row turns \<and> last_row turns \<le> 1000006"
    unfolding last_row_def by (rule lowest_bounds) (simp_all add: screen_lines)
  then have "show_end st = Some (st\<lparr>out_screen := closing_screen turns\<rparr>)"
    using st(2)
    by (simp add: show_end_def displays_def closing_screen_def mvprintw_def screen_lines in_int_def INT_MIN_def INT_MAX_def)
  moreover have "list_all (\<lambda>m. msg_type m \<noteq> MessageTypeEndOutput) (concat (map turn_messages turns))"
    by (auto simp: list_all_iff turn_messages_def airline_message_def marshall_send_map_status_def)
  ultimately show ?thesis
    using output_loop_all [OF _ st(1)] st(2) by (simp add: run_output_def displays_def)
qed

end
