(* ===== verification/Properties_System.thy ===== *)
theory Properties_System
  imports Program_Folder Screen_Contents Properties_Parser
begin

text \<open>
  What the program promises as a whole: from the folder to the screen, with the processes it
  starts, the semaphore between the map and the screen, and the life of an airline.
\<close>

section \<open>A sample folder\<close>

definition sample_argv :: "string list" where
  "sample_argv = [''sim'', ''config'']"

definition sample_dirents :: "(string \<times> string option) list" where
  "sample_dirents = [(''map'', Some sample_file), (''airline_0'', Some sample_airline)]"

definition fresh_os :: sem_os where
  "fresh_os = \<lparr>os_key = 322420958, os_fresh = 0, os_table = [], os_gets = [], os_ctls = [], os_eintr = []\<rparr>"

text \<open>An airline that ends every phase.\<close>

definition sample_turn :: "PlaneMessage list" where
  "sample_turn = [PM_Type MessageTypeAirlineDone,
     PM_AirlineStatus \<lparr>asm_type = MessageTypeAirlineStatus, asm_status = \<lparr>as_id = 0, as_planesFlying = 1, as_totalPlanes = 1\<rparr>\<rparr>]"

lemma sample_folder: "good_folder sample_argv sample_file sample_dirents sample_cities sample_connections [sample_planes] 7"
proof -
  have "map_option tokens (Some sample_airline) = Some (print_int (int (length sample_planes)) # city_tokens sample_planes)"
    using sample_airline_ok by simp
  then have "folder_ok ''config'' (map fst sample_cities) sample_dirents [sample_planes]"
    using sample_planes_ok
    by (simp add: folder_ok_def sample_dirents_def is_airline_file_def path_in_def strcpy_into_def)
  moreover have "length (goods sample_cities) + length (goods sample_planes) < 2147483647"
    by (simp add: sample_cities_def sample_planes_def)
  ultimately show ?thesis
    using sample_file_ok sample_desc_ok
    by (simp add: good_folder_def sample_argv_def path_in_def strcpy_into_def)
qed

lemma fresh_os_free: "sems_free fresh_os"
  by (simp add: sems_free_def fresh_os_def sems_wf_def INT_MIN_def INT_MAX_def)

lemma sample_turns_answered: "answered 1 k (concat (replicate k sample_turn))"
  by (induction k) (simp_all add: sample_turn_def eval_nat_numeral)

section \<open>The whole program\<close>

text \<open>
  C3. The program on a folder with a map and airlines in range, whose planes carry no negative
  amounts and no more goods than a message holds: loading it succeeds and asks for what the map
  file asks for. From there, with the map, the listeners, the planes and the screen taking turns in
  any order, nothing undefined ever happens and no run goes on for ever, whatever writes of the map
  and the planes and whatever allocations of the planes fail. What is still wanted stays between
  nothing and what the map file asks for. If none of them fails, everybody can only be waiting when
  the program is over; then the screen has shown the status of every turn, and without a signal
  nothing is wanted any more or 70000 turns were played.
\<close>

theorem program_on_good_folder:
  assumes "good_folder argv contents dirents cs roads pss M" "cargo_fits pss" "sems_free os" "fst (alloc al)"
  shows "\<exists>sem W0. main_start argv (Some contents, dirents) al os writes grants map_writes exits = Some (wanted cs, sem, W0) \<and>
    (\<nexists>f. f 0 = W0 \<and> (\<forall>i. \<exists>y. step (wanted cs) sem y (f i) = Returns (f (Suc i)))) \<and>
    (\<forall>W. reaches (wanted cs) sem W0 W \<longrightarrow>
      (\<forall>y. step (wanted cs) sem y W \<noteq> Faults) \<and>
      0 \<le> demand (ms_map (sy_map (pr_system W))) \<and> demand (ms_map (sy_map (pr_system W))) \<le> wanted cs \<and>
      0 \<le> ms_turn (sy_map (pr_system W)) \<and> ms_turn (sy_map (pr_system W)) \<le> 70000 \<and>
      (writes = (\<lambda>_ _. []) \<and> grants = (\<lambda>_ _. []) \<and> map_writes = [] \<and> (\<forall>y. step (wanted cs) sem y W = Blocks) \<longrightarrow>
        program_over W \<and> out_turn (pr_screen W) = ms_turn (sy_map (pr_system W)) + 1 \<and>
        (exits = [] \<longrightarrow> demand (ms_map (sy_map (pr_system W))) = 0 \<or> ms_turn (sy_map (pr_system W)) = 70000)))"
proof -
  let ?T = "wanted cs"
  obtain airlines st where st: "startable st airlines os" "demand (ms_map st) = ?T" "ms_writes st = map_writes" "ms_exits st = exits"
    "main_start argv (Some contents, dirents) al os writes grants map_writes exits = program_start al os writes grants airlines st"
    using main_start_good [OF assms(1-3)] by blast
  obtain sem W0 where W0: "program_start al os writes grants airlines st = Some (?T, sem, W0)"
    using program_start_inv [OF st(1) assms(4), of writes grants] st(2) by auto
  note run = program_run [OF st(1) W0]
  have ends: "\<not> (f 0 = W0 \<and> (\<forall>i. \<exists>y. step ?T sem y (f i) = Returns (f (Suc i))))" for f
    using no_infinite_program [of _ _ _ ?T sem f] run(3) [OF reaches_start] by blast
  have safe: "step ?T sem y W \<noteq> Faults" "0 \<le> demand (ms_map (sy_map (pr_system W)))"
    "demand (ms_map (sy_map (pr_system W))) \<le> ?T" "0 \<le> turn_of W" "turn_of W \<le> 70000" if "reaches ?T sem W0 W" for W y
  proof -
    note inv = run(3) [OF that]
    then show "step ?T sem y W \<noteq> Faults" "0 \<le> turn_of W" "turn_of W \<le> 70000"
      using step_kept [OF inv, of y] by (auto simp: program_inv_def)
    have "map_good (length (vlist (map_cities (ms_map st)))) (map_product (ms_map st)) (cargo_of (vlist airlines)) ?T (sy_map (pr_system W))"
      using inv sys_okD(1) by (auto simp: program_inv_def)
    then show "0 \<le> demand (ms_map (sy_map (pr_system W)))" "demand (ms_map (sy_map (pr_system W))) \<le> ?T"
      using demand_nonneg sim_wfD(1) by (auto simp: map_good_def)
  qed
  have over: "program_over W \<and> out_turn (pr_screen W) = turn_of W + 1 \<and>
      (exits = [] \<longrightarrow> demand (ms_map (sy_map (pr_system W))) = 0 \<or> turn_of W = 70000)"
    if W: "reaches ?T sem W0 W" and calm: "writes = (\<lambda>_ _. [])" "grants = (\<lambda>_ _. [])" "map_writes = []"
      and stuck: "\<forall>y. step ?T sem y W = Blocks" for W
  proof -
    have "live (pr_system W)"
      using program_run_live [OF st(1) _ _ W] W0 st(3) calm by simp
    then have "program_over W"
      using program_stuck_iff_over [OF run(3) [OF W]] stuck by blast
    moreover have "stops_well (pr_system W)" if "exits = []"
      using program_run_stops [OF st(1) _ W0 W] st(4) that by simp
    ultimately show ?thesis
      using run(3) [OF W] by (auto simp: program_over_def all_ended_def stops_well_def program_inv_def screen_ended_def)
  qed
  show ?thesis
    using st(5) W0 ends safe over by (intro exI [of _ sem] exI [of _ W0]) auto
qed

theorem program_on_good_folder_witness:
  "\<exists>sem W0. main_start sample_argv (Some sample_file, sample_dirents) [] fresh_os (\<lambda>_ _. []) (\<lambda>_ _. []) [] [] =
      Some (wanted sample_cities, sem, W0) \<and>
    (\<forall>W. reaches (wanted sample_cities) sem W0 W \<longrightarrow> (\<forall>y. step (wanted sample_cities) sem y W = Blocks) \<longrightarrow>
      demand (ms_map (sy_map (pr_system W))) = 0 \<or> ms_turn (sy_map (pr_system W)) = 70000)"
proof -
  have "cargo_fits [sample_planes]" "fst (alloc [])"
    by (simp_all add: cargo_fits_def sample_planes_def MAX_STOCKS_def)
  from program_on_good_folder [OF sample_folder this(1) fresh_os_free this(2), where writes = "\<lambda>_ _. []" and
      grants = "\<lambda>_ _. []" and map_writes = "[]" and exits = "[]"] show ?thesis
    by blast
qed

text \<open>
  The same program played one process after the other, the messages of the airlines given as one
  list: it waits for ever only if some airline does not end its phases.
\<close>

lemma main_good_folder:
  assumes "good_folder argv contents dirents cs roads pss M" "sems_free os" "ipc \<noteq> - 1"
    and "parseMap [] (Some contents) = Some (Some m)"
    and "list_all (msg_ok (length pss) (m\<lparr>map_product := catalogue (intern_all [] (goods cs @ concat (map goods pss)))\<rparr>)) inbox"
    and "list_all status_ok inbox"
  shows "case main_program argv True ipc (Some (Some contents, dirents)) [] os writes exits inbox of
      Faults \<Rightarrow> False
    | Blocks \<Rightarrow> \<not> answered (length pss) 70000 inbox
    | Returns r \<Rightarrow> \<exists>st out. r = Ended st (Some out) \<and> out_turn out = ms_turn st + 1 \<and>
        0 \<le> demand (ms_map st) \<and> demand (ms_map st) \<le> wanted cs \<and> 0 \<le> ms_turn st \<and> ms_turn st \<le> 70000 \<and>
        (exits = [] \<longrightarrow> demand (ms_map st) = 0 \<or> ms_turn st = 70000)"
proof (cases "main_program argv True ipc (Some (Some contents, dirents)) [] os writes exits inbox")
  case (Returns r)
  then obtain st out where "r = Ended st out" "good_end (wanted cs) (exits = []) st out"
    using main_good [OF assms(1-4) refl assms(5,6), where writes = writes and exits = exits] by auto
  then show ?thesis
    by (cases out) (auto simp: Returns good_end_def)
qed (use main_good [OF assms(1-4) refl assms(5,6), where writes = writes and exits = exits] in simp_all)

text \<open>
  A folder in which the file \<open>map\<close> cannot be opened: \<open>parseMap\<close> returns NULL, \<open>main\<close> does
  not look at it, and the program reads through the NULL pointer.
\<close>

theorem main_without_map:
  assumes "2 \<le> length argv" "ipc \<noteq> - 1"
  shows "main_program argv True ipc (Some (None, dirents)) al os writes exits inbox = Faults"
  using assms by (cases "path_in (argv ! 1) ''map''") (simp_all add: main_program_def parseMap_def)

theorem main_without_map_witness:
  "main_program sample_argv True 1 (Some (None, [])) [] fresh_os [] [] [] = Faults"
  using main_without_map [of sample_argv 1] by (simp add: sample_argv_def)

text \<open>
  The parent connects to exactly the names its children listen to, in the order of their
  ids, and no two children listen to the same name.
\<close>

theorem connections_match:
  assumes "ids_are_indices airlines"
  shows "\<exists>children conns names. run_airlines airlines = Some children \<and>
    connect_airlines (getVectorSize airlines) = Some (conns, names) \<and>
    map (\<lambda>(name, parent, self). name) children = names \<and> distinct names \<and>
    map (\<lambda>(name, parent, self). parent) children = replicate (length names) PARENT_NAME \<and>
    map (\<lambda>(name, parent, self). self) children = vlist airlines \<and> conns_wf conns (getVectorSize airlines)"
proof -
  let ?n = "length (vlist airlines)"
  have inv: "vec_inv airlines" and ids: "map airline_id (vlist airlines) = map int [0..<?n]"
    using assms by (simp_all add: ids_are_indices_def)
  have size: "getVectorSize airlines = ?n" "?n < 2147483648"
    using inv by (auto elim: vec_invE)
  have "map air_name (map airline_id (vlist airlines)) = map (\<lambda>i. air_name (int i)) [0..<?n]"
    unfolding ids by simp
  then have names: "map (\<lambda>a. air_name (airline_id a)) (vlist airlines) = map (\<lambda>i. air_name (int i)) [0..<?n]"
    by (simp add: o_def)
  have "distinct (map (\<lambda>i. air_name (int i)) [0..<?n])"
    by (auto simp: distinct_map inj_on_def dest: air_name_inj [rotated 2])
  with names size show ?thesis
    by (simp add: run_airlines_children [OF assms] connect_airlines_names o_def map_replicate_const conns_wf_def)
qed

theorem connections_match_witness:
  "\<exists>children conns. run_airlines (vec_of [\<lparr>airline_id = 0, airline_numberOfPlanes = 0, airline_planes = []\<rparr>]) = Some children \<and>
    connect_airlines 1 = Some (conns, map (\<lambda>(name, parent, self). name) children)"
  using connections_match [of "vec_of [\<lparr>airline_id = 0, airline_numberOfPlanes = 0, airline_planes = []\<rparr>]"]
  by (auto simp: ids_are_indices_def)


section \<open>The pace of the simulation\<close>

text \<open>
  C29. \<open>ipc_sem_create\<close> ends and makes a new semaphore: whatever keys are taken, the search
  stops at a free one, the semaphore has the value asked for and all others keep theirs.
\<close>

theorem ipc_sem_create_new:
  assumes "sems_wf os" "os_gets os = []" "os_ctls os = []" "0 \<le> value" "value \<le> SEMVMX"
    and "INT_MIN \<le> os_key os" "os_key os + int (length (os_table os)) < INT_MAX"
  shows "\<exists>sem os'. ipc_sem_create value os = Some (sem, os') \<and> sems_wf os' \<and> sem \<noteq> - 1 \<and> find_sem sem os = None \<and>
    ipc_sem_value sem os' = Some value \<and> (\<forall>s. s \<noteq> sem \<longrightarrow> ipc_sem_value s os' = ipc_sem_value s os)"
  using ipc_sem_create_ok [OF assms] by fastforce

theorem ipc_sem_create_new_witness:
  "\<exists>os'. ipc_sem_create 1 (fresh_os\<lparr>os_table := [\<lparr>se_key = 322420958, se_id = 0, se_val = Some 5\<rparr>], os_fresh := 1\<rparr>) = Some (1, os') \<and>
    ipc_sem_value 0 os' = Some 5"
proof -
  let ?os = "fresh_os\<lparr>os_table := [\<lparr>se_key = 322420958, se_id = 0, se_val = Some 5\<rparr>], os_fresh := 1\<rparr>"
  have ok: "sems_wf ?os" "os_gets ?os = []" "os_ctls ?os = []" "(0 :: int) \<le> 1" "1 \<le> SEMVMX"
    "INT_MIN \<le> os_key ?os" "os_key ?os + int (length (os_table ?os)) < INT_MAX"
    by (simp_all add: sems_wf_def fresh_os_def SEMVMX_def INT_MIN_def INT_MAX_def)
  have "sem_search ?os = Some (1, ?os\<lparr>os_key := 322420960, os_fresh := 2,
      os_table := os_table ?os @ [\<lparr>se_key = 322420959, se_id = 1, se_val = None\<rparr>]\<rparr>)"
    by (simp add: sem_search.simps semget_def fresh_os_def in_int_def INT_MIN_def INT_MAX_def)
  moreover have "ipc_sem_value 0 ?os = Some 5"
    by (simp add: ipc_sem_value_def find_sem_def)
  ultimately show ?thesis
    using ipc_sem_create_new [OF ok] by (auto simp: ipc_sem_create_def Let_def split: prod.splits if_splits)
qed

text \<open>
  Any list of waits and posts in which the posts keep behind: the calls never fail, and the semaphore
  holds the difference.
\<close>

lemma output_semaphore_pace:
  assumes "sems_free os" "ipc_sem_create 1 os = Some (sem, os')"
    and sent: "\<forall>k. posts (take k ops) \<le> waits (take k ops) + 1"
  shows "case run_sem (ipc_sem_wait sem) (ipc_sem_post sem) os' ops of
      Faults \<Rightarrow> False
    | Blocks \<Rightarrow> (\<exists>k. posts (take k ops) + 1 < waits (take k ops))
    | Returns os2 \<Rightarrow> ipc_sem_value sem os2 = Some (1 + posts ops - waits ops) \<and> waits ops \<le> posts ops + 1"
proof -
  obtain sem1 os1 where c: "ipc_sem_create 1 os = Some (sem1, os1)" "ipc_sem_value sem1 os1 = Some 1"
    using ipc_sem_create_ok [of os 1] assms(1) by (auto simp: sems_free_def SEMVMX_def)
  then have v: "ipc_sem_value sem os' = Some 1"
    using assms(2) by simp
  then have ready: "sem_ready sem os'"
    by (auto simp: sem_ready_def ipc_sem_value_def find_sem_def dest: find_Some_in split: option.splits)
  have val: "sem_val sem os' = 1"
    using v by (simp add: sem_val_def)
  have limit: "\<forall>k. sem_val sem os' + posts (take k ops) - waits (take k ops) \<le> SEMVMX"
  proof
    fix k
    show "sem_val sem os' + posts (take k ops) - waits (take k ops) \<le> SEMVMX"
      using sent [rule_format, of k] by (simp add: val SEMVMX_def)
  qed
  note balance = sysv.run_balance [OF ready limit]
  show ?thesis
  proof (cases "run_sem (ipc_sem_wait sem) (ipc_sem_post sem) os' ops")
    case Blocks
    have "\<not> (\<forall>k. waits (take k ops) \<le> sem_val sem os' + posts (take k ops))"
      using sysv.run_goes_on [OF ready limit] Blocks by auto
    then show ?thesis
      by (simp add: Blocks val not_le add.commute)
  next
    case (Returns os2)
    then have r: "sem_ready sem os2" "sem_val sem os2 = 1 + posts ops - waits ops" "waits ops \<le> 1 + posts ops"
      using balance val by simp_all
    then show ?thesis
      by (auto simp: Returns sem_ready_def sem_val_def ipc_sem_value_def)
  qed (use balance in simp)
qed


text \<open>
  C30. The screen. Given the reports of any number of turns, in each some airlines and then the
  status of the map, and the end message, the output thread ends, and every row of the
  screen is known: the number of the last turn (the status before the first is 0), the completion and
  the satisfied cities of its status, in row 6 + i the last report of airline i in the last turn that
  has reports, three and four rows below the lowest airline row ever used the closing lines, and
  nothing in any other row (the first report of a turn clears the screen). It has counted one turn
  and posted the semaphore once for every status.
\<close>

theorem run_output_shows:
  assumes "list_all turn_ok turns" "length turns < 1000000"
  shows "\<exists>st. run_output (concat (map turn_messages turns) @ marshall_end_output # later) = Returns st \<and>
    out_screen st = closing_screen turns \<and> out_turn st = int (length turns) \<and> out_posts st = length turns"
  by (rule run_output_turns [OF assms])

definition sample_turns :: "shown_turn list" where
  "sample_turns = [([\<lparr>as_id = 0, as_planesFlying = 2, as_totalPlanes = 2\<rparr>, \<lparr>as_id = 1, as_planesFlying = 1, as_totalPlanes = 1\<rparr>], Some 0, 0, 3),
     ([\<lparr>as_id = 0, as_planesFlying = 1, as_totalPlanes = 2\<rparr>], Some 50, 1, 3)]"

theorem run_output_shows_witness:
  "\<exists>st. run_output (concat (map turn_messages sample_turns) @ [marshall_end_output]) = Returns st \<and> out_posts st = 2 \<and>
    map (out_screen st) [1, 2, 3, 4, 6, 7, 10, 11] =
      [None, Some (Turn_Line 1), Some (Completion_Line (Some 50)), Some (Cities_Line 1 3), Some (Airline_Line 0 1 2), None,
       Some Over_Line, Some Ninja_Line]"
proof -
  have "list_all turn_ok sample_turns" "length sample_turns < 1000000"
    by (simp_all add: sample_turns_def turn_ok_def)
  from run_output_shows [OF this, of "[]"] show ?thesis
    by (auto simp: sample_turns_def closing_screen_def screen_of_def last_row_def reports_shown_def airline_rows_def
        screen_lines)
qed

section \<open>The life of an airline\<close>

text \<open>
  C28. The life of an airline process, while the threads of its planes become done whenever they
  like (what the listener finds there comes with every message). As long as the messages name its
  planes, nothing undefined happens. The process ends exactly at the first message that ends it. By
  then each plane has been pushed exactly this, in this order: every phase message that found
  it not done, every answer of the map that names it, and at last the end message, unless it was
  done. What the listener itself has sent to the map are the reports of the phases in which it found
  every plane done, with the airline's id and nobody flying.
\<close>

theorem run_airline_life:
  assumes "airline_numberOfPlanes self = length (airline_planes self)" "length (airline_planes self) < 2147483647"
    and "list_all (\<lambda>(dones, msg). length dones = length (airline_planes self) \<and> mm_ok (length (airline_planes self)) msg) inbox"
    and "length final = length (airline_planes self)"
  shows "case run_airline [] self inbox final of
      Faults \<Rightarrow> False
    | Blocks \<Rightarrow> \<not> list_ex (\<lambda>(_, msg). mm_ends msg) inbox
    | Returns st' \<Rightarrow> list_ex (\<lambda>(_, msg). mm_ends msg) inbox \<and> length (slots st') = length (airline_planes self) \<and>
        al_sent st' = concat (map (sent_by (airline_id self)) (served inbox)) \<and>
        (\<forall>p<length (airline_planes self). sl_pushed (slots st' ! p) =
           concat (map (pushed_by p) (served inbox)) @ (if final ! p then [] else [phase_message MessageTypeEnd]))"
  by (rule run_airline_result [OF assms])

text \<open>Two planes; the second is done after the first turn.\<close>

definition sample_life :: "(bool list \<times> MapMessage) list" where
  "sample_life = [([False, False], MM_Type MessageTypeStep), ([False, True], MM_Type MessageTypeContinue),
     ([True, True], MM_Type MessageTypeStep), ([True, True], MM_Type MessageTypeEnd)]"

theorem run_airline_life_witness:
  "\<exists>st'. run_airline [] \<lparr>airline_id = 4, airline_numberOfPlanes = 2, airline_planes = replicate 2
      \<lparr>plane_id = 0, plane_stocks = vec_of [], plane_cityId = 0, plane_distance = 0\<rparr>\<rparr> sample_life [True, True] = Returns st' \<and>
    sl_pushed (slots st' ! 1) = [phase_message MessageTypeStep] \<and> al_sent st' = [PM_Type MessageTypeAirlineDone]"
  using run_airline_life [of "\<lparr>airline_id = 4, airline_numberOfPlanes = 2, airline_planes = replicate 2
      \<lparr>plane_id = 0, plane_stocks = vec_of [], plane_cityId = 0, plane_distance = 0\<rparr>\<rparr>" sample_life "[True, True]"]
  by (auto simp: sample_life_def served_def mm_ends_def split: outcome.splits)

end
