(* ===== verification/Named_Pipes.thy ===== *)
theory Named_Pipes
  imports Packets
begin

text \<open>
  \<open>ipc/fifo.c\<close>: a packet goes through a named pipe as its length, a \<open>size_t\<close>, and its bytes.

  A pipe holds bytes and has the capacity that pipe(7) documents; a write of up to 4096 bytes
  is not interleaved with others, and waits when there is no room for it. \<open>pi_writes\<close> and
  \<open>pi_reads\<close> say which calls of \<open>write\<close> and \<open>read\<close> succeed. The mutex of a connection only
  orders the writes.
\<close>

definition PIPE_CAPACITY :: nat where
  "PIPE_CAPACITY = 65536"

record pipe =
  pi_bytes :: "byte list"
  pi_writes :: mallocs
  pi_reads :: mallocs

text \<open>\<open>res - sizeof(size_t)\<close> is computed unsigned and stored in an \<open>int\<close>: a failing write gives -9.\<close>

definition ipc_write_fifo :: "pipe \<Rightarrow> byte list \<Rightarrow> (int \<times> pipe) outcome" where
  "ipc_write_fifo p buff =
     (let reallen = (if length buff > IPC_MAX_PACKET_LEN then IPC_MAX_PACKET_LEN else length buff);
          tempbuf = size_bytes 8 reallen @ take reallen buff;
          (ok, ws) = alloc (pi_writes p)
      in if \<not> ok then Returns (- 1 - 8, p\<lparr>pi_writes := ws\<rparr>)
         else if PIPE_CAPACITY < length (pi_bytes p) + length tempbuf then Blocks
         else Returns (int (length tempbuf) - 8, p\<lparr>pi_bytes := pi_bytes p @ tempbuf, pi_writes := ws\<rparr>))"

text \<open>The system call \<open>read\<close>: \<^const>\<open>None\<close> is its -1.\<close>

definition pipe_read :: "nat \<Rightarrow> pipe \<Rightarrow> (byte list option \<times> pipe) outcome" where
  "pipe_read n p =
     (let (ok, rs) = alloc (pi_reads p)
      in if \<not> ok then Returns (None, p\<lparr>pi_reads := rs\<rparr>)
         else if n = 0 then Returns (Some [], p\<lparr>pi_reads := rs\<rparr>)
         else if pi_bytes p = [] then Blocks
         else Returns (Some (take n (pi_bytes p)), p\<lparr>pi_bytes := drop n (pi_bytes p), pi_reads := rs\<rparr>))"

text \<open>
  The result of \<open>ipc_read\<close> with the buffer it has filled, where \<^const>\<open>None\<close> is a byte of
  \<open>tempbuf\<close> that was never written. The first \<open>read\<close> is not checked: \<open>count\<close> is then
  indeterminate. The -1 of the second one becomes the largest \<open>size_t\<close>.
\<close>

definition ipc_read_fifo :: "nat \<Rightarrow> pipe \<Rightarrow> ((int \<times> byte option list) \<times> pipe) outcome" where
  "ipc_read_fifo len p =
     (case pipe_read 8 p of
        Blocks \<Rightarrow> Blocks | Faults \<Rightarrow> Faults
      | Returns (None, _) \<Rightarrow> Faults
      | Returns (Some header, p1) \<Rightarrow>
          if length header < 8 then Faults
          else if IPC_MAX_PACKET_LEN < bytes_size header then Faults
          else
            (case pipe_read (bytes_size header) p1 of
               Blocks \<Rightarrow> Blocks | Faults \<Rightarrow> Faults
             | Returns (got, p2) \<Rightarrow>
                 if IPC_MAX_PACKET_LEN < len then Faults
                 else
                   (let data = (case got of None \<Rightarrow> [] | Some bs \<Rightarrow> bs);
                        tempbuf = map Some data @ replicate (IPC_MAX_PACKET_LEN - length data) None;
                        res = (case got of None \<Rightarrow> len | Some bs \<Rightarrow> if len < length bs then len else length bs)
                    in Returns ((int res, take len tempbuf), p2))))"

section \<open>The packets inside\<close>

definition frame :: "byte list \<Rightarrow> byte list" where
  "frame m = size_bytes 8 (length m) @ m"

function packets :: "byte list \<Rightarrow> byte list list" where
  "packets bs =
     (if length bs < 8 then []
      else take (bytes_size (take 8 bs)) (drop 8 bs) # packets (drop (8 + bytes_size (take 8 bs)) bs))"
  by pat_completeness auto
termination
  by (relation "measure length") auto

declare packets.simps [simp del]

lemma packets_Nil [simp]: "packets [] = []"
  by (simp add: packets.simps)

lemma header_size: "length m < 2 ^ 64 \<Longrightarrow> bytes_size (size_bytes 8 (length m)) = length m"
  by (rule bytes_size_bytes) simp

lemma packets_frame: "length m < 2 ^ 64 \<Longrightarrow> packets (frame m @ bs) = m # packets bs"
  by (subst packets.simps) (simp add: frame_def header_size)

lemma packets_frames:
  assumes "list_all (\<lambda>m. length m < 2 ^ 64) ms"
  shows "packets (concat (map frame ms)) = ms"
  using assms by (induction ms) (simp_all add: packets_frame)

text \<open>A pipe that holds whole packets, and whose calls do not fail.\<close>

definition pipe_inv :: "nat \<Rightarrow> pipe \<Rightarrow> bool" where
  "pipe_inv len p \<longleftrightarrow> len \<le> IPC_MAX_PACKET_LEN \<and> pi_writes p = [] \<and> pi_reads p = [] \<and>
     list_all (\<lambda>m. length m \<le> IPC_MAX_PACKET_LEN) (packets (pi_bytes p)) \<and>
     pi_bytes p = concat (map frame (packets (pi_bytes p)))"

lemma pipe_invI:
  assumes "len \<le> IPC_MAX_PACKET_LEN" "pi_writes p = []" "pi_reads p = []"
    and "list_all (\<lambda>m. length m \<le> IPC_MAX_PACKET_LEN) ms" "pi_bytes p = concat (map frame ms)"
  shows "pipe_inv len p \<and> packets (pi_bytes p) = ms"
proof -
  have "list_all (\<lambda>m. length m < 2 ^ 64) ms"
    using assms(4) by (auto simp: IPC_MAX_PACKET_LEN_def list_all_iff)
  then have "packets (pi_bytes p) = ms"
    using packets_frames assms(5) by simp
  then show ?thesis
    using assms by (simp add: pipe_inv_def)
qed

text \<open>What \<open>ipc_read\<close> makes of a packet.\<close>

definition received :: "nat \<Rightarrow> byte list \<Rightarrow> int \<times> byte option list" where
  "received len m = (int (min len (length m)), take len (map Some m @ replicate (IPC_MAX_PACKET_LEN - length m) None))"

definition fifo_send :: "pipe \<Rightarrow> byte list \<Rightarrow> pipe outcome" where
  "fifo_send p buff = (case ipc_write_fifo p buff of Blocks \<Rightarrow> Blocks | Faults \<Rightarrow> Faults | Returns (_, p') \<Rightarrow> Returns p')"

lemma ipc_write_fifo_frame:
  assumes "pi_writes p = []" "length (pi_bytes p) + 8 + length (take 512 buff) \<le> PIPE_CAPACITY"
  shows "ipc_write_fifo p buff = Returns (int (length (take 512 buff)), p\<lparr>pi_bytes := pi_bytes p @ frame (take 512 buff)\<rparr>)"
proof -
  have "(if length buff > 512 then 512 else length buff) = length (take 512 buff)"
    by simp
  then show ?thesis
    using assms by (cases p) (auto simp: ipc_write_fifo_def IPC_MAX_PACKET_LEN_def frame_def Let_def min_def split: if_splits)
qed

lemma ipc_read_fifo_frame:
  assumes "pi_reads p = []" "pi_bytes p = frame m @ bs" "length m \<le> 512" "len \<le> 512"
  shows "ipc_read_fifo len p = Returns (received len m, p\<lparr>pi_bytes := bs\<rparr>)"
proof -
  have size: "bytes_size (size_bytes 8 (length m)) = length m"
    using assms(3) by (intro header_size) simp
  have "size_bytes 8 (length m) @ m @ bs \<noteq> []"
    by (metis append_is_Nil_conv length_0_conv length_size_bytes zero_neq_numeral)
  then have "pipe_read 8 p = Returns (Some (size_bytes 8 (length m)), p\<lparr>pi_bytes := m @ bs\<rparr>)"
    using assms(1,2) by (cases p) (simp add: pipe_read_def frame_def)
  moreover have "pipe_read (length m) (p\<lparr>pi_bytes := m @ bs\<rparr>) = Returns (Some m, p\<lparr>pi_bytes := bs\<rparr>)"
    using assms(1) by (cases p; cases m) (simp_all add: pipe_read_def)
  ultimately show ?thesis
    using assms(3,4) by (simp add: ipc_read_fifo_def size IPC_MAX_PACKET_LEN_def received_def min_def)
qed

interpretation pipe: channel fifo_send "ipc_read_fifo len" "\<lambda>p. packets (pi_bytes p)" "pipe_inv len" "\<lambda>_. True" "take 512" "received len" for len
proof unfold_locales
  fix p :: pipe and buff c :: "byte list" and cs
  assume "pipe_inv len p"
  then have p: "len \<le> IPC_MAX_PACKET_LEN" "pi_writes p = []" "pi_reads p = []"
    "list_all (\<lambda>m. length m \<le> IPC_MAX_PACKET_LEN) (packets (pi_bytes p))"
    "pi_bytes p = concat (map frame (packets (pi_bytes p)))"
    by (simp_all add: pipe_inv_def)
  let ?d = "take 512 buff"
  show "fifo_send p buff = Blocks \<or>
    (\<exists>p'. fifo_send p buff = Returns p' \<and> pipe_inv len p' \<and> packets (pi_bytes p') = packets (pi_bytes p) @ [?d])"
  proof (cases "length (pi_bytes p) + 8 + length ?d \<le> PIPE_CAPACITY")
    case True
    let ?p = "p\<lparr>pi_bytes := pi_bytes p @ frame ?d\<rparr>"
    have "pipe_inv len ?p \<and> packets (pi_bytes ?p) = packets (pi_bytes p) @ [?d]"
      using p by (intro pipe_invI) (simp_all add: IPC_MAX_PACKET_LEN_def)
    then show ?thesis
      using ipc_write_fifo_frame [OF p(2) True] by (simp add: fifo_send_def)
  next
    case False
    then show ?thesis
      using p(2) by (auto simp: fifo_send_def ipc_write_fifo_def IPC_MAX_PACKET_LEN_def Let_def min_def split: if_splits)
  qed
  show "ipc_read_fifo len p = Blocks" if "packets (pi_bytes p) = []"
    using p(3,5) that by (simp add: ipc_read_fifo_def pipe_read_def)
  show "\<exists>p'. ipc_read_fifo len p = Returns (received len c, p') \<and> pipe_inv len p' \<and> packets (pi_bytes p') = cs"
    if c: "packets (pi_bytes p) = c # cs"
  proof -
    have b: "pi_bytes p = frame c @ concat (map frame cs)" "length c \<le> 512" "list_all (\<lambda>m. length m \<le> IPC_MAX_PACKET_LEN) cs"
      using p(4,5) c by (simp_all add: IPC_MAX_PACKET_LEN_def)
    let ?p = "p\<lparr>pi_bytes := concat (map frame cs)\<rparr>"
    have "pipe_inv len ?p \<and> packets (pi_bytes ?p) = cs"
      using p b(3) by (intro pipe_invI) simp_all
    then show ?thesis
      using ipc_read_fifo_frame [OF p(3) b(1,2)] p(1) by (simp add: IPC_MAX_PACKET_LEN_def)
  qed
qed


section \<open>Opening and closing\<close>

text \<open>
  The pipes there are in the file system, and what this process has opened: \<open>path\<close> and \<open>readfd\<close>.
  \<open>fs_calls\<close> are the results of the calls that may fail for reasons of their own (\<open>malloc\<close>,
  \<open>mkfifo\<close> other than with EEXIST, \<open>open\<close>, \<open>pthread_mutex_init\<close>). A connection is the path it
  leads to. A path that does not fit its buffer is undefined.
\<close>

record pipe_fs =
  fs_pipes :: "string set"
  fs_path :: string
  fs_readfd :: "string option"
  fs_calls :: mallocs

definition fifo_path :: "string \<Rightarrow> string option" where
  "fifo_path name = strcpy_into 512 (''/tmp/sim_'' @ name)"

definition next_call :: "pipe_fs \<Rightarrow> bool \<times> pipe_fs" where
  "next_call fs = (let (ok, rest) = alloc (fs_calls fs) in (ok, fs\<lparr>fs_calls := rest\<rparr>))"

definition mkfifo :: "string \<Rightarrow> pipe_fs \<Rightarrow> bool \<times> pipe_fs" where
  "mkfifo file fs =
     (if file \<in> fs_pipes fs then (True, fs)
      else (let (ok, fs') = next_call fs in
        if ok then (True, fs'\<lparr>fs_pipes := insert file (fs_pipes fs')\<rparr>) else (False, fs')))"

definition ipc_init_fifo :: int where
  "ipc_init_fifo = 0"

definition ipc_listen_fifo :: "string \<Rightarrow> pipe_fs \<Rightarrow> (int \<times> pipe_fs) option" where
  "ipc_listen_fifo name fs = do {
     file \<leftarrow> fifo_path name;
     let (made, fs1) = mkfifo file (fs\<lparr>fs_path := file\<rparr>);
     if \<not> made then Some (- 1, fs1)
     else (let (ok, fs2) = next_call fs1 in
       if \<not> ok then Some (- 1, fs2\<lparr>fs_readfd := None\<rparr>) else Some (0, fs2\<lparr>fs_readfd := Some file\<rparr>))
   }"

definition ipc_establish_fifo :: "string \<Rightarrow> pipe_fs \<Rightarrow> (string option \<times> pipe_fs) option" where
  "ipc_establish_fifo name fs = do {
     file \<leftarrow> fifo_path name;
     let (got, fs0) = next_call fs;
     if \<not> got then Some (None, fs0)
     else (let (made, fs1) = mkfifo file fs0 in
       if \<not> made then Some (None, fs1)
       else (let (ok, fs2) = next_call fs1 in
         if \<not> ok then Some (None, fs2)
         else (let (init, fs3) = next_call fs2 in
           if \<not> init then Some (None, fs3) else Some (Some file, fs3))))
   }"

definition ipc_end_fifo :: "pipe_fs \<Rightarrow> pipe_fs" where
  "ipc_end_fifo fs =
     (if fs_readfd fs = None then fs else fs\<lparr>fs_pipes := fs_pipes fs - {fs_path fs}\<rparr>)"

text \<open>
  Whoever comes first makes the pipe: a connection leads to the pipe its name is listened on,
  in whatever order the two are opened.
\<close>

lemma fifo_connects:
  assumes "fs_calls fs = []" "fifo_path name = Some file"
  shows "\<exists>fs1 fs2. ipc_listen_fifo name fs = Some (0, fs1) \<and> ipc_establish_fifo name fs1 = Some (Some file, fs2) \<and>
    fs_readfd fs2 = Some file \<and> fs_pipes fs2 = insert file (fs_pipes fs)"
    "\<exists>fs1 fs2. ipc_establish_fifo name fs = Some (Some file, fs1) \<and> ipc_listen_fifo name fs1 = Some (0, fs2) \<and>
    fs_readfd fs2 = Some file \<and> fs_pipes fs2 = insert file (fs_pipes fs)"
  using assms
  by (auto simp: ipc_listen_fifo_def ipc_establish_fifo_def mkfifo_def next_call_def Let_def insert_absorb)

text \<open>Different names do not share a pipe.\<close>

lemma fifo_path_inj: "fifo_path a = Some file \<Longrightarrow> fifo_path b = Some file \<Longrightarrow> a = b"
  by (auto simp: fifo_path_def strcpy_into_def split: if_splits)

end
