(* ===== verification/Datagram_Sockets.thy ===== *)
theory Datagram_Sockets
  imports Packets
begin

text \<open>
  \<open>ipc/socket.c\<close>, the implementation the Makefile takes when none is named: a packet is a
  datagram of a socket in the file system.

  A socket holds the datagrams that have arrived, at most as many as its queue has room for
  (\<open>so_room\<close>); a sender waits for room. \<open>so_sends\<close> and \<open>so_reads\<close> are the results of the calls
  of \<open>sendto\<close> and \<open>read\<close>; a call that is not listed succeeds. The mutexes only order the calls
  of one process.
\<close>

datatype send_result = Sent | No_Buffers | Send_Failed
datatype read_result = Got | Interrupted | Read_Failed

record socket =
  so_datagrams :: "byte list list"
  so_room :: nat
  so_sends :: "send_result list"
  so_reads :: "read_result list"

text \<open>\<open>sendto\<close> is called again after a pause as long as there are no buffers.\<close>

fun skip_no_buffers :: "send_result list \<Rightarrow> send_result \<times> send_result list" where
  "skip_no_buffers [] = (Sent, [])"
| "skip_no_buffers (r # rs) = (if r = No_Buffers then skip_no_buffers rs else (r, rs))"

definition ipc_write_socket :: "socket \<Rightarrow> byte list \<Rightarrow> (int \<times> socket) outcome" where
  "ipc_write_socket so buff =
     (let (r, rs) = skip_no_buffers (so_sends so) in
      if r = Send_Failed then Returns (- 1, so\<lparr>so_sends := rs\<rparr>)
      else if so_room so \<le> length (so_datagrams so) then Blocks
      else Returns (int (length buff), so\<lparr>so_datagrams := so_datagrams so @ [buff], so_sends := rs\<rparr>))"

fun skip_interrupted :: "read_result list \<Rightarrow> read_result \<times> read_result list" where
  "skip_interrupted [] = (Got, [])"
| "skip_interrupted (r # rs) = (if r = Interrupted then skip_interrupted rs else (r, rs))"

text \<open>The result with the bytes; what does not fit the buffer is lost with the datagram.\<close>

definition ipc_read_socket :: "nat \<Rightarrow> socket \<Rightarrow> ((int \<times> byte list) \<times> socket) outcome" where
  "ipc_read_socket len so =
     (let (r, rs) = skip_interrupted (so_reads so) in
      if r = Read_Failed then Returns ((- 1, []), so\<lparr>so_reads := rs\<rparr>)
      else
        (case so_datagrams so of
           [] \<Rightarrow> Blocks
         | d # ds \<Rightarrow> Returns ((int (length (take len d)), take len d), so\<lparr>so_datagrams := ds, so_reads := rs\<rparr>)))"

section \<open>The channel\<close>

definition socket_send :: "socket \<Rightarrow> byte list \<Rightarrow> socket outcome" where
  "socket_send so buff =
     (case ipc_write_socket so buff of Blocks \<Rightarrow> Blocks | Faults \<Rightarrow> Faults | Returns (_, so') \<Rightarrow> Returns so')"

text \<open>Calls that are interrupted or find no buffers do no harm.\<close>

definition socket_inv :: "nat \<Rightarrow> socket \<Rightarrow> bool" where
  "socket_inv room so \<longleftrightarrow> so_room so = room \<and> length (so_datagrams so) \<le> room \<and>
     Send_Failed \<notin> set (so_sends so) \<and> Read_Failed \<notin> set (so_reads so)"

lemma skip_no_buffers_ok:
  "Send_Failed \<notin> set rs \<Longrightarrow> \<exists>rs'. skip_no_buffers rs = (Sent, rs') \<and> set rs' \<subseteq> set rs"
proof (induction rs)
  case (Cons r rs)
  then show ?case
    by (cases r) auto
qed simp

lemma skip_interrupted_ok:
  "Read_Failed \<notin> set rs \<Longrightarrow> \<exists>rs'. skip_interrupted rs = (Got, rs') \<and> set rs' \<subseteq> set rs"
proof (induction rs)
  case (Cons r rs)
  then show ?case
    by (cases r) auto
qed simp

interpretation socket: bounded_fifo socket_send "ipc_read_socket len" so_datagrams "socket_inv room" room
  "\<lambda>_. True" id "\<lambda>d. (int (min (length d) len), take len d)" for len room
proof unfold_locales
  fix so buff c cs
  assume inv: "socket_inv room so"
  then have room: "so_room so = room"
    by (simp add: socket_inv_def)
  show "length (so_datagrams so) \<le> room"
    using inv by (simp add: socket_inv_def)
  obtain ss where ss: "skip_no_buffers (so_sends so) = (Sent, ss)" "set ss \<subseteq> set (so_sends so)"
    using skip_no_buffers_ok inv unfolding socket_inv_def by blast
  obtain rs where rs: "skip_interrupted (so_reads so) = (Got, rs)" "set rs \<subseteq> set (so_reads so)"
    using skip_interrupted_ok inv unfolding socket_inv_def by blast
  show "socket_send so buff = Blocks" if "length (so_datagrams so) = room"
    using ss that room by (simp add: socket_send_def ipc_write_socket_def)
  show "\<exists>so'. socket_send so buff = Returns so' \<and> socket_inv room so' \<and> so_datagrams so' = so_datagrams so @ [id buff]"
    if "length (so_datagrams so) < room"
    using ss that room inv by (auto simp: socket_send_def ipc_write_socket_def socket_inv_def)
  show "ipc_read_socket len so = Blocks" if "so_datagrams so = []"
    using rs that by (simp add: ipc_read_socket_def)
  show "\<exists>so'. ipc_read_socket len so = Returns ((int (min (length c) len), take len c), so') \<and>
      socket_inv room so' \<and> so_datagrams so' = cs"
    if "so_datagrams so = c # cs"
    using rs that inv by (auto simp: ipc_read_socket_def socket_inv_def)
qed

section \<open>Opening and closing\<close>

text \<open>
  The files the sockets are bound to, and the open sockets of this process (\<open>ss_read\<close> with the
  file it is bound to). \<open>ss_calls\<close> are the results of the calls that may fail for reasons of
  their own; \<open>bind\<close> also fails on a file that is there.
\<close>

record sockets =
  ss_bound :: "string set"
  ss_path :: string
  ss_read :: "string option"
  ss_write :: bool
  ss_calls :: mallocs

definition sock_call :: "sockets \<Rightarrow> bool \<times> sockets" where
  "sock_call st = (let (ok, rest) = alloc (ss_calls st) in (ok, st\<lparr>ss_calls := rest\<rparr>))"

text \<open>\<open>return writeSocket != -1\<close>: 1 when the socket could be made, and 0 when not.\<close>

definition ipc_init_socket :: "sockets \<Rightarrow> int \<times> sockets" where
  "ipc_init_socket st = (let (ok, st') = sock_call st in (if ok then 1 else 0, st'\<lparr>ss_write := ok\<rparr>))"

text \<open>\<open>sun_path\<close> has 108 bytes.\<close>

definition set_path :: "string \<Rightarrow> string option" where
  "set_path name = strcpy_into 108 (''/tmp/ipc_sock_'' @ name)"

definition ipc_listen_socket :: "string \<Rightarrow> sockets \<Rightarrow> (int \<times> sockets) option" where
  "ipc_listen_socket name st =
     (let (made, st1) = sock_call st in
      if \<not> made then Some (- 1, st1\<lparr>ss_read := None\<rparr>)
      else do {
        file \<leftarrow> set_path name;
        let (ok, st2) = sock_call (st1\<lparr>ss_path := file\<rparr>);
        if \<not> ok \<or> file \<in> ss_bound st2 then Some (- 1, st2\<lparr>ss_read := None\<rparr>)
        else Some (0, st2\<lparr>ss_bound := insert file (ss_bound st2), ss_read := Some file\<rparr>)
      })"

text \<open>Waits until somebody listens to the name.\<close>

definition ipc_establish_socket :: "string \<Rightarrow> sockets \<Rightarrow> (string option \<times> sockets) outcome" where
  "ipc_establish_socket name st =
     (let (got, st1) = sock_call st in
      if \<not> got then Returns (None, st1)
      else
        (let (init, st2) = sock_call st1 in
         if \<not> init then Returns (None, st2)
         else
           (case set_path name of
              None \<Rightarrow> Faults
            | Some file \<Rightarrow> if file \<notin> ss_bound st2 then Blocks else Returns (Some file, st2))))"

definition ipc_end_socket :: "sockets \<Rightarrow> sockets" where
  "ipc_end_socket st = st\<lparr>ss_bound := ss_bound st - {ss_path st}, ss_read := None, ss_write := False\<rparr>"

lemma set_path_inj: "set_path a = Some file \<Longrightarrow> set_path b = Some file \<Longrightarrow> a = b"
  by (auto simp: set_path_def strcpy_into_def split: if_splits)

text \<open>A connection leads to the socket that listens to its name, and waits for it.\<close>

lemma socket_connects:
  assumes "ss_calls st = []" "set_path name = Some file" "file \<notin> ss_bound st"
  shows "ipc_establish_socket name st = Blocks"
    "\<exists>st1. ipc_listen_socket name st = Some (0, st1) \<and> ss_read st1 = Some file \<and>
      ipc_establish_socket name st1 = Returns (Some file, st1) \<and>
      ss_bound (ipc_end_socket st1) = ss_bound st"
proof -
  have f: "sock_call (st\<lparr>ss_path := file\<rparr>) = (True, st\<lparr>ss_path := file\<rparr>)" "sock_call st = (True, st)"
    using assms(1) by (simp_all add: sock_call_def)
  have g: "sock_call (st\<lparr>ss_path := file, ss_bound := insert file (ss_bound st), ss_read := Some file\<rparr>) =
      (True, st\<lparr>ss_path := file, ss_bound := insert file (ss_bound st), ss_read := Some file\<rparr>)"
    using assms(1) by (simp add: sock_call_def)
  show "ipc_establish_socket name st = Blocks"
    using assms(2,3) f by (simp add: ipc_establish_socket_def)
  show "\<exists>st1. ipc_listen_socket name st = Some (0, st1) \<and> ss_read st1 = Some file \<and>
      ipc_establish_socket name st1 = Returns (Some file, st1) \<and>
      ss_bound (ipc_end_socket st1) = ss_bound st"
    using assms(2,3) f g by (simp add: ipc_listen_socket_def ipc_establish_socket_def ipc_end_socket_def)
qed

end
