(* ===== verification/Posix_Queues.thy ===== *)
theory Posix_Queues
  imports Packets
begin

text \<open>
  \<open>ipc/mqueue.c\<close>: a packet is a message of a POSIX message queue, with ten places for messages
  of up to \<open>sizeof(msg_t)\<close> bytes.

  \<open>mq_sends\<close> and \<open>mq_receives\<close> are the results of the calls of \<open>mq_send\<close> and \<open>mq_receive\<close> that
  fail for reasons of their own; \<open>mq_locked\<close> is the mutex of the connection.
\<close>

definition MAX_MSG :: nat where
  "MAX_MSG = 10"

text \<open>A \<open>long\<close> and 513 bytes, padded to a multiple of eight.\<close>

definition MSG_SIZE :: nat where
  "MSG_SIZE = 8 * ((8 + IPC_MAX_PACKET_LEN + 1 + 7) div 8)"

record posix_queue =
  pq_messages :: "byte list list"
  pq_sends :: mallocs
  pq_receives :: mallocs
  pq_locked :: bool

text \<open>After a failing \<open>mq_send\<close> the function returns with the mutex locked.\<close>

definition ipc_write_mqueue :: "posix_queue \<Rightarrow> byte list \<Rightarrow> (int \<times> posix_queue) outcome" where
  "ipc_write_mqueue q buff =
     (if pq_locked q then Blocks
      else
        (let (ok, rest) = alloc (pq_sends q) in
         if \<not> ok \<or> MSG_SIZE < length buff then Returns (- 1, q\<lparr>pq_sends := rest, pq_locked := True\<rparr>)
         else if MAX_MSG \<le> length (pq_messages q) then Blocks
         else Returns (int (length buff), q\<lparr>pq_messages := pq_messages q @ [buff], pq_sends := rest\<rparr>)))"

text \<open>
  \<open>mq_receive\<close> is told that the buffer has room for the largest message, so a message longer
  than the buffer is written past its end.
\<close>

definition ipc_read_mqueue :: "nat \<Rightarrow> posix_queue \<Rightarrow> ((int \<times> byte list) \<times> posix_queue) outcome" where
  "ipc_read_mqueue len q =
     (let (ok, rest) = alloc (pq_receives q) in
      if \<not> ok then Returns ((- 1, []), q\<lparr>pq_receives := rest\<rparr>)
      else
        (case pq_messages q of
           [] \<Rightarrow> Blocks
         | m # ms \<Rightarrow>
             if len < length m then Faults
             else Returns ((int (length m), m), q\<lparr>pq_messages := ms, pq_receives := rest\<rparr>)))"

section \<open>The channel\<close>

definition mqueue_send :: "posix_queue \<Rightarrow> byte list \<Rightarrow> posix_queue outcome" where
  "mqueue_send q buff =
     (case ipc_write_mqueue q buff of Blocks \<Rightarrow> Blocks | Faults \<Rightarrow> Faults | Returns (_, q') \<Rightarrow> Returns q')"

definition mqueue_inv :: "nat \<Rightarrow> posix_queue \<Rightarrow> bool" where
  "mqueue_inv len q \<longleftrightarrow> length (pq_messages q) \<le> MAX_MSG \<and> list_all (\<lambda>m. length m \<le> len) (pq_messages q) \<and>
     pq_sends q = [] \<and> pq_receives q = [] \<and> \<not> pq_locked q"

interpretation mqueue: bounded_fifo mqueue_send "ipc_read_mqueue len" pq_messages "mqueue_inv len" MAX_MSG
  "\<lambda>m. length m \<le> len \<and> length m \<le> MSG_SIZE" id "\<lambda>m. (int (length m), m)" for len
  by unfold_locales
    (auto simp: mqueue_inv_def mqueue_send_def ipc_write_mqueue_def ipc_read_mqueue_def)

section \<open>Opening and closing\<close>

text \<open>The queues there are, and the one this process listens to.\<close>

record queue_names =
  qn_queues :: "string set"
  qn_entryQueueName :: string
  qn_listening :: bool
  qn_calls :: mallocs

definition name_call :: "queue_names \<Rightarrow> bool \<times> queue_names" where
  "name_call st = (let (ok, rest) = alloc (qn_calls st) in (ok, st\<lparr>qn_calls := rest\<rparr>))"

definition mq_path :: "string \<Rightarrow> string option" where
  "mq_path name = strcpy_into 512 (''/'' @ name)"

definition ipc_init_mqueue :: int where
  "ipc_init_mqueue = 0"

definition ipc_listen_mqueue :: "string \<Rightarrow> queue_names \<Rightarrow> (int \<times> queue_names) option" where
  "ipc_listen_mqueue name st = do {
     file \<leftarrow> mq_path name;
     let (ok, st1) = name_call (st\<lparr>qn_entryQueueName := file\<rparr>);
     if \<not> ok then Some (- 1, st1)
     else Some (0, st1\<lparr>qn_queues := insert file (qn_queues st1), qn_listening := True\<rparr>)
   }"

text \<open>The result of \<open>malloc\<close> is not looked at.\<close>

definition ipc_establish_mqueue :: "string \<Rightarrow> queue_names \<Rightarrow> (string option \<times> queue_names) option" where
  "ipc_establish_mqueue name st = do {
     let (got, st1) = name_call st;
     _ \<leftarrow> (if got then Some () else None);
     file \<leftarrow> mq_path name;
     let (ok, st2) = name_call st1;
     if \<not> ok then Some (None, st2)
     else Some (Some file, st2\<lparr>qn_queues := insert file (qn_queues st2)\<rparr>)
   }"

definition ipc_end_mqueue :: "queue_names \<Rightarrow> queue_names" where
  "ipc_end_mqueue st = st\<lparr>qn_queues := qn_queues st - {qn_entryQueueName st}\<rparr>"

text \<open>As with named pipes, the queue is there for both in whatever order it is opened.\<close>

lemma mqueue_connects:
  assumes "qn_calls st = []" "mq_path name = Some file"
  shows "\<exists>st1 st2. ipc_listen_mqueue name st = Some (0, st1) \<and> ipc_establish_mqueue name st1 = Some (Some file, st2) \<and>
    qn_entryQueueName st2 = file \<and> qn_queues st2 = insert file (qn_queues st)"
    "\<exists>st1 st2. ipc_establish_mqueue name st = Some (Some file, st1) \<and> ipc_listen_mqueue name st1 = Some (0, st2) \<and>
    qn_entryQueueName st2 = file \<and> qn_queues st2 = insert file (qn_queues st)"
  using assms by (auto simp: ipc_listen_mqueue_def ipc_establish_mqueue_def name_call_def Let_def)

text \<open>A failing send leaves the connection locked for ever.\<close>

lemma write_locked: "pq_locked q \<Longrightarrow> ipc_write_mqueue q buff = Blocks"
  by (simp add: ipc_write_mqueue_def)

end
