(* ===== verification/Shmem_Open.thy ===== *)
theory Shmem_Open
  imports Shmem Semaphores
begin

text \<open>
  \<open>ipc_create\<close> and \<open>ipc_destroy\<close> of \<open>ipc/shmem.c\<close>: who comes first makes the lock, the shared
  memory and the two semaphores of a name, and who comes later waits at the lock until that
  is done.

  The state holds what the system has by name: the values of the named semaphores, and the
  memory objects. Once a name is unlinked its objects are out of the model. \<open>sh_calls\<close> are the
  results of the calls that may fail for reasons of their own, in the order of the calls.
\<close>

record shm_sems =
  sm_readWait :: int
  sm_writeSem :: int

datatype shm_memory = Unsized | Zeroed | Made shm_sems

record shm_os =
  sh_locks :: "string \<Rightarrow> nat option"
  sh_objects :: "string \<Rightarrow> shm_memory option"
  sh_sems :: sem_os
  sh_calls :: mallocs

text \<open>A connection is the name of its objects.\<close>

type_synonym shm_conn = string

definition shm_name :: "string \<Rightarrow> string option" where
  "shm_name name = strcpy_into 512 (''/arqvenger_'' @ name)"

definition shm_call :: "shm_os \<Rightarrow> bool \<times> shm_os" where
  "shm_call st = (let (ok, rest) = alloc (sh_calls st) in (ok, st\<lparr>sh_calls := rest\<rparr>))"

definition sem_unlink :: "string \<Rightarrow> shm_os \<Rightarrow> shm_os" where
  "sem_unlink n st = st\<lparr>sh_locks := (sh_locks st)(n := None)\<rparr>"

definition shm_unlink :: "string \<Rightarrow> shm_os \<Rightarrow> shm_os" where
  "shm_unlink n st = st\<lparr>sh_objects := (sh_objects st)(n := None)\<rparr>"

definition lock_post :: "string \<Rightarrow> shm_os \<Rightarrow> shm_os" where
  "lock_post n st = st\<lparr>sh_locks := (sh_locks st)(n := map_option Suc (sh_locks st n))\<rparr>"

text \<open>Opening the lock: the result says whether somebody else made it.\<close>

definition open_lock :: "string \<Rightarrow> shm_os \<Rightarrow> (bool option \<times> shm_os) outcome" where
  "open_lock n st =
     (let (ok, st1) = shm_call st in
      if ok \<and> sh_locks st n = None then Returns (Some False, st1\<lparr>sh_locks := (sh_locks st1)(n := Some 0)\<rparr>)
      else
        (let (ok2, st2) = shm_call st1 in
         if \<not> ok2 then Returns (None, st2)
         else
           (case sh_locks st2 n of
              None \<Rightarrow> Returns (None, st2)
            | Some 0 \<Rightarrow> Blocks
            | Some (Suc v) \<Rightarrow> Returns (Some True, st2\<lparr>sh_locks := (sh_locks st2)(n := Some v)\<rparr>))))"

definition give_up :: "string \<Rightarrow> bool \<Rightarrow> shm_os \<Rightarrow> shm_os" where
  "give_up n owner st = (if owner then shm_unlink n (sem_unlink n st) else st)"

text \<open>The two semaphores of a new queue; when one cannot be made the other is given back.\<close>

definition make_sems :: "string \<Rightarrow> bool \<Rightarrow> shm_os \<Rightarrow> (shm_conn option \<times> shm_os) option" where
  "make_sems n owner st = do {
     (r, os1) \<leftarrow> ipc_sem_create 0 (sh_sems st);
     (w, os2) \<leftarrow> ipc_sem_create (int ENTRIES_PER_QUEUE) os1;
     if r = - 1 \<or> w = - 1 then
       (let os3 = snd (ipc_sem_destroy r os2); os4 = snd (ipc_sem_destroy w os3); st1 = st\<lparr>sh_sems := os4\<rparr>
        in Some (None, give_up n owner st1))
     else
       Some (Some n, lock_post n (st\<lparr>sh_sems := os2,
         sh_objects := (sh_objects st)(n \<mapsto> Made \<lparr>sm_readWait = r, sm_writeSem = w\<rparr>)\<rparr>))
   }"

text \<open>\<open>shm_open\<close> and \<open>ftruncate\<close>.\<close>

definition shm_open :: "string \<Rightarrow> shm_os \<Rightarrow> bool \<times> shm_os" where
  "shm_open n st =
     (let (ok, st1) = shm_call st
      in (ok, if ok \<and> sh_objects st1 n = None then st1\<lparr>sh_objects := (sh_objects st1)(n \<mapsto> Unsized)\<rparr> else st1))"

definition shm_truncate :: "string \<Rightarrow> shm_os \<Rightarrow> bool \<times> shm_os" where
  "shm_truncate n st =
     (let (ok, st1) = shm_call st
      in (ok, if ok \<and> sh_objects st1 n = Some Unsized then st1\<lparr>sh_objects := (sh_objects st1)(n \<mapsto> Zeroed)\<rparr> else st1))"

definition ipc_create :: "string \<Rightarrow> bool \<Rightarrow> shm_os \<Rightarrow> (shm_conn option \<times> shm_os) outcome" where
  "ipc_create name owner st =
     (let (got, st0) = shm_call st in
      case (if got then shm_name name else None) of
        None \<Rightarrow> Faults
      | Some n \<Rightarrow>
          (case open_lock n st0 of
             Blocks \<Rightarrow> Blocks | Faults \<Rightarrow> Faults
           | Returns (None, st1) \<Rightarrow> Returns (None, st1)
           | Returns (Some isInited, st1) \<Rightarrow>
               (let (opened, st2) = shm_open n st1 in
                if \<not> opened then Returns (None, if owner then sem_unlink n st2 else st2)
                else
                  (let (sized, st3) = (if isInited then (True, st2) else shm_truncate n st2) in
                   if \<not> sized then Returns (None, give_up n owner st3)
                   else
                     (let (mapped, st4) = shm_call st3 in
                      if \<not> mapped then Returns (None, give_up n owner st4)
                      else if isInited then Returns (Some n, lock_post n st4)
                      else (case make_sems n owner st4 of None \<Rightarrow> Faults | Some r \<Rightarrow> Returns r))))))"

text \<open>Closing the semaphores reads their ids from the shared memory.\<close>

definition ipc_destroy :: "shm_conn option \<Rightarrow> bool \<Rightarrow> shm_os \<Rightarrow> shm_os option" where
  "ipc_destroy conn owner st =
     (case conn of
        None \<Rightarrow> Some st
      | Some n \<Rightarrow>
          if \<not> owner then Some st
          else
            (case sh_objects st n of
               Some (Made q) \<Rightarrow>
                 (let os1 = snd (ipc_sem_destroy (sm_readWait q) (sh_sems st));
                      os2 = snd (ipc_sem_destroy (sm_writeSem q) os1)
                  in Some (sem_unlink n (shm_unlink n (st\<lparr>sh_sems := os2\<rparr>))))
             | _ \<Rightarrow> None))"

definition ipc_init :: int where
  "ipc_init = 0"

definition ipc_listen :: "string \<Rightarrow> shm_os \<Rightarrow> (int \<times> shm_conn option \<times> shm_os) outcome" where
  "ipc_listen name st =
     (case ipc_create name True st of
        Blocks \<Rightarrow> Blocks | Faults \<Rightarrow> Faults
      | Returns (conn, st') \<Rightarrow> Returns (if conn = None then - 1 else 0, conn, st'))"

definition ipc_end :: "shm_conn option \<Rightarrow> shm_os \<Rightarrow> shm_os option" where
  "ipc_end me st = ipc_destroy me True st"

definition ipc_establish :: "string \<Rightarrow> shm_os \<Rightarrow> (shm_conn option \<times> shm_os) outcome" where
  "ipc_establish name st = ipc_create name False st"

definition ipc_close :: "shm_conn option \<Rightarrow> shm_os \<Rightarrow> shm_os option" where
  "ipc_close conn st = ipc_destroy conn False st"

section \<open>The first and the later ones\<close>

text \<open>A name whose objects are complete: its semaphores have the values of an empty queue.\<close>

definition queue_ready :: "string \<Rightarrow> shm_os \<Rightarrow> bool" where
  "queue_ready n st \<longleftrightarrow> sh_locks st n = Some 1 \<and>
     (case sh_objects st n of
        Some (Made q) \<Rightarrow> sm_readWait q \<noteq> sm_writeSem q \<and> sm_readWait q \<noteq> - 1 \<and> sm_writeSem q \<noteq> - 1 \<and>
          ipc_sem_value (sm_readWait q) (sh_sems st) = Some (int (q_readWait queue_init)) \<and>
          ipc_sem_value (sm_writeSem q) (sh_sems st) = Some (int (q_writeSem queue_init))
      | _ \<Rightarrow> False)"

text \<open>Room for two more semaphores.\<close>

definition sems_room :: "sem_os \<Rightarrow> bool" where
  "sems_room os \<longleftrightarrow> sems_wf os \<and> os_gets os = [] \<and> os_ctls os = [] \<and> INT_MIN \<le> os_key os \<and>
     os_key os + 2 * int (length (os_table os)) + 2 < INT_MAX"

lemma shm_call_quiet: "sh_calls st = [] \<Longrightarrow> shm_call st = (True, st)"
  by (simp add: shm_call_def)


lemma make_sems_ok:
  assumes "sems_room (sh_sems st)" "sh_locks st n = Some 0"
  shows "\<exists>st'. make_sems n owner st = Some (Some n, st') \<and> queue_ready n st' \<and> sh_calls st' = sh_calls st"
proof -
  let ?os = "sh_sems st"
  have r0: "sems_wf ?os" "os_gets ?os = []" "os_ctls ?os = []" "INT_MIN \<le> os_key ?os"
    "os_key ?os + int (length (os_table ?os)) < INT_MAX"
    using assms(1) by (simp_all add: sems_room_def)
  have z: "(0 :: int) \<le> 0" "0 \<le> SEMVMX" "(0 :: int) \<le> int ENTRIES_PER_QUEUE" "int ENTRIES_PER_QUEUE \<le> SEMVMX"
    by (simp_all add: SEMVMX_def ENTRIES_PER_QUEUE_def)
  obtain r os1 where r: "ipc_sem_create 0 ?os = Some (r, os1)" "sems_wf os1" "0 \<le> r"
    "ipc_sem_value r os1 = Some 0" "\<exists>e. find_sem r os1 = Some e" "os_gets os1 = []" "os_ctls os1 = []"
    "os_key ?os \<le> os_key os1" "os_key os1 \<le> os_key ?os + int (length (os_table ?os)) + 1"
    "length (os_table os1) = length (os_table ?os) + 1"
    using ipc_sem_create_ok [OF r0(1-3) z(1,2) r0(4,5)] by blast
  have r1: "INT_MIN \<le> os_key os1" "os_key os1 + int (length (os_table os1)) < INT_MAX"
    using r(8-10) r0(4) assms(1) by (simp_all add: sems_room_def)
  obtain w os2 where w: "ipc_sem_create (int ENTRIES_PER_QUEUE) os1 = Some (w, os2)" "0 \<le> w" "find_sem w os1 = None"
    "ipc_sem_value w os2 = Some (int ENTRIES_PER_QUEUE)" "\<forall>s. s \<noteq> w \<longrightarrow> ipc_sem_value s os2 = ipc_sem_value s os1"
    using ipc_sem_create_ok [OF r(2,6,7) z(3,4) r1] by blast
  have "r \<noteq> w"
    using r(5) w(3) by auto
  moreover from this have "ipc_sem_value r os2 = Some 0"
    using r(4) w(5) by simp
  ultimately show ?thesis
    using r(1,3) w(1,2,4) assms(2) by (simp add: make_sems_def queue_ready_def lock_post_def queue_init_def)
qed

text \<open>The first one makes everything.\<close>

lemma ipc_create_first:
  assumes "sh_calls st = []" "shm_name name = Some n" "sh_locks st n = None" "sems_room (sh_sems st)"
  shows "\<exists>st'. ipc_create name owner st = Returns (Some n, st') \<and> queue_ready n st' \<and> sh_calls st' = []"
proof -
  let ?st1 = "st\<lparr>sh_locks := (sh_locks st)(n := Some 0)\<rparr>"
  have lock: "open_lock n st = Returns (Some False, ?st1)"
    using assms(1,3) by (simp add: open_lock_def shm_call_quiet)
  obtain st2 where st2: "shm_open n ?st1 = (True, st2)" "sh_calls st2 = []" "sh_sems st2 = sh_sems st" "sh_locks st2 n = Some 0"
    using assms(1) by (simp add: shm_open_def shm_call_quiet)
  obtain st3 where st3: "shm_truncate n st2 = (True, st3)" "sh_calls st3 = []" "sh_sems st3 = sh_sems st" "sh_locks st3 n = Some 0"
    using st2 by (simp add: shm_truncate_def shm_call_quiet)
  obtain st' where st': "make_sems n owner st3 = Some (Some n, st')" "queue_ready n st'" "sh_calls st' = []"
    using make_sems_ok [of st3 n owner] assms(4) st3 by auto
  have "ipc_create name owner st = Returns (Some n, st')"
    by (simp add: ipc_create_def shm_call_quiet [OF assms(1)] assms(2) lock st2(1) st3(1) shm_call_quiet [OF st3(2)] st'(1))
  with st' show ?thesis
    by blast
qed

text \<open>Everybody later gets the same, and leaves all as it was.\<close>

lemma ipc_create_later:
  assumes "sh_calls st = []" "shm_name name = Some n" "queue_ready n st"
  shows "ipc_create name owner st = Returns (Some n, st)"
proof -
  have lock: "sh_locks st n = Some (Suc 0)" "sh_objects st n \<noteq> None" "sh_objects st n \<noteq> Some Unsized"
    using assms(3) by (auto simp: queue_ready_def split: option.splits shm_memory.splits)
  let ?st1 = "st\<lparr>sh_locks := (sh_locks st)(n := Some 0)\<rparr>"
  have calls: "shm_call st = (True, st)" "shm_call ?st1 = (True, ?st1)"
    using assms(1) by (auto intro!: shm_call_quiet)
  have open1: "open_lock n st = Returns (Some True, ?st1)"
    using lock(1) by (simp add: open_lock_def calls(1))
  have "lock_post n ?st1 = st"
    using lock(1) by (cases st) (auto simp: lock_post_def fun_upd_idem)
  moreover have "shm_open n ?st1 = (True, ?st1)"
    using lock(2) by (auto simp: shm_open_def calls(2))
  ultimately show ?thesis
    using assms(2) by (simp add: ipc_create_def calls open1)
qed

text \<open>
  Who connects to a name first and then fails leaves the lock at zero: from then on everybody
  who opens the name waits for ever.
\<close>

lemma ipc_create_abandoned:
  assumes "sh_calls st = True # True # False # rest" "shm_name name = Some n" "sh_locks st n = None"
  shows "\<exists>st'. ipc_create name False st = Returns (None, st') \<and> sh_locks st' n = Some 0"
  using assms by (simp add: ipc_create_def shm_call_def open_lock_def shm_open_def)

lemma ipc_create_waits:
  assumes "sh_calls st = []" "shm_name name = Some n" "sh_locks st n = Some 0"
  shows "ipc_create name owner st = Blocks"
  using assms by (simp add: ipc_create_def shm_call_quiet open_lock_def)

text \<open>The owner takes everything away at the end.\<close>

lemma ipc_end_ready:
  assumes "queue_ready n st"
  shows "\<exists>st' q. ipc_end (Some n) st = Some st' \<and> sh_objects st n = Some (Made q) \<and> sh_locks st' n = None \<and>
    sh_objects st' n = None \<and> find_sem (sm_readWait q) (sh_sems st') = None \<and> find_sem (sm_writeSem q) (sh_sems st') = None"
proof -
  obtain q where q: "sh_objects st n = Some (Made q)" "sm_readWait q \<noteq> - 1" "sm_writeSem q \<noteq> - 1"
    using assms by (auto simp: queue_ready_def split: option.splits shm_memory.splits)
  have gone: "find_sem s (snd (ipc_sem_destroy s os)) = None" if "s \<noteq> - 1" for s os
    using that by (auto simp: ipc_sem_destroy_def semctl_rmid_def find_sem_def find_None_all list_all_iff)
  have stays: "find_sem s (snd (ipc_sem_destroy t os)) = None" if "find_sem s os = None" for s t os
    using that by (auto simp: ipc_sem_destroy_def semctl_rmid_def find_sem_def find_None_all list_all_iff)
  show ?thesis
    using q gone stays by (simp add: ipc_end_def ipc_destroy_def sem_unlink_def shm_unlink_def)
qed

end
