(* ===== verification/Logging.thy ===== *)
theory Logging
  imports Semaphores Scanner
begin

text \<open>
  \<open>util.c\<close>: the log of all processes, one line at a time under the semaphore \<open>printLock\<close>.

  A call is modelled with the text its format and arguments make. \<open>lg_log\<close> is the variable
  \<open>log\<close>; it keeps pointing to a file that was closed, which \<open>lg_closed\<close> records. \<open>print_trace\<close>
  is in Debug\_Builds.
\<close>

datatype log_sink = Stdout | Log_File string

record logger =
  lg_log :: "log_sink option"
  lg_closed :: bool
  lg_printLock :: int
  lg_lines :: "string list"
  lg_sems :: sem_os

definition perform_lock :: "logger \<Rightarrow> logger outcome" where
  "perform_lock lg =
     (case ipc_sem_wait (lg_printLock lg) (lg_sems lg) of
        Blocks \<Rightarrow> Blocks | Faults \<Rightarrow> Faults | Returns (_, os) \<Rightarrow> Returns (lg\<lparr>lg_sems := os\<rparr>))"

definition perform_unlock :: "logger \<Rightarrow> logger outcome" where
  "perform_unlock lg =
     (case ipc_sem_post (lg_printLock lg) (lg_sems lg) of
        Blocks \<Rightarrow> Blocks | Faults \<Rightarrow> Faults | Returns (_, os) \<Rightarrow> Returns (lg\<lparr>lg_sems := os\<rparr>))"

text \<open>\<open>file\<close> is the argument, \<open>opens\<close> the result of \<open>fopen\<close>.\<close>

definition mprintf_init :: "string option \<Rightarrow> bool \<Rightarrow> logger \<Rightarrow> (bool \<times> logger) option" where
  "mprintf_init file opens lg = do {
     let target = (case file of
         None \<Rightarrow> None
       | Some f \<Rightarrow> if f = ''-'' then Some Stdout else if opens then Some (Log_File f) else None);
     (sem, os) \<leftarrow> ipc_sem_create 1 (lg_sems lg);
     Some (sem \<noteq> - 1, lg\<lparr>lg_log := target, lg_closed := False, lg_printLock := sem, lg_sems := os\<rparr>)
   }"

text \<open>Writing to a file that is closed is undefined.\<close>

definition log_line :: "string \<Rightarrow> logger \<Rightarrow> logger outcome" where
  "log_line s lg = (if lg_closed lg then Faults else Returns (lg\<lparr>lg_lines := lg_lines lg @ [s]\<rparr>))"

definition locked_line :: "string \<Rightarrow> logger \<Rightarrow> logger outcome" where
  "locked_line s lg =
     (case perform_lock lg of
        Blocks \<Rightarrow> Blocks | Faults \<Rightarrow> Faults
      | Returns lg1 \<Rightarrow>
          (case log_line s lg1 of
             Blocks \<Rightarrow> Blocks | Faults \<Rightarrow> Faults
           | Returns lg2 \<Rightarrow> perform_unlock lg2))"

definition mprintf :: "int \<Rightarrow> string \<Rightarrow> logger \<Rightarrow> (int \<times> logger) outcome" where
  "mprintf pid s lg =
     (if lg_log lg = None then Returns (0, lg)
      else
        (case locked_line (''('' @ print_int pid @ '') '' @ s) lg of
           Blocks \<Rightarrow> Blocks | Faults \<Rightarrow> Faults | Returns lg' \<Rightarrow> Returns (int (length s), lg')))"

definition print_error :: "int \<Rightarrow> string \<Rightarrow> logger \<Rightarrow> logger outcome" where
  "print_error pid s lg =
     (if lg_log lg = None then Returns lg else locked_line (''('' @ print_int pid @ '') {ERR} '' @ s) lg)"

text \<open>
  \<open>print_errno\<close> hands \<open>log\<close> or \<open>stderr\<close> to \<open>printf\<close> as the format, once it has the lock: a
  \<open>FILE\<close> is read as a string.
\<close>

definition print_errno :: "string \<Rightarrow> logger \<Rightarrow> logger outcome" where
  "print_errno tag lg = (case perform_lock lg of Blocks \<Rightarrow> Blocks | Faults \<Rightarrow> Faults | Returns _ \<Rightarrow> Faults)"

text \<open>\<open>log\<close> is not reset, and the lock becomes the semaphore 0.\<close>

definition mprintf_end :: "logger \<Rightarrow> logger" where
  "mprintf_end lg =
     (let closed = (case lg_log lg of Some (Log_File _) \<Rightarrow> True | _ \<Rightarrow> lg_closed lg) in
      lg\<lparr>lg_closed := closed, lg_sems := snd (ipc_sem_destroy (lg_printLock lg) (lg_sems lg)), lg_printLock := 0\<rparr>)"

section \<open>Lines\<close>

text \<open>Between two calls the lock is free.\<close>

definition log_free :: "logger \<Rightarrow> bool" where
  "log_free lg \<longleftrightarrow> \<not> lg_closed lg \<and> sem_ready (lg_printLock lg) (lg_sems lg) \<and>
     sem_val (lg_printLock lg) (lg_sems lg) = 1"

lemma locked_line_free:
  assumes "log_free lg"
  shows "\<exists>os. locked_line s lg = Returns (lg\<lparr>lg_lines := lg_lines lg @ [s], lg_sems := os\<rparr>) \<and>
    log_free (lg\<lparr>lg_lines := lg_lines lg @ [s], lg_sems := os\<rparr>)"
proof -
  have l: "\<not> lg_closed lg" "sem_ready (lg_printLock lg) (lg_sems lg)" "sem_val (lg_printLock lg) (lg_sems lg) = 1"
    using assms by (simp_all add: log_free_def)
  obtain os1 where os1: "ipc_sem_wait (lg_printLock lg) (lg_sems lg) = Returns (0, os1)" "sem_ready (lg_printLock lg) os1"
    "sem_val (lg_printLock lg) os1 = 0"
    using sysv.wait_pos [OF l(2)] l(3) by auto
  obtain os2 where os2: "ipc_sem_post (lg_printLock lg) os1 = Returns (0, os2)" "sem_ready (lg_printLock lg) os2"
    "sem_val (lg_printLock lg) os2 = 1"
    using sysv.post_room [OF os1(2)] os1(3) by (auto simp: SEMVMX_def)
  show ?thesis
    using l os1 os2 by (intro exI [of _ os2]) (simp add: locked_line_def perform_lock_def log_line_def perform_unlock_def log_free_def)
qed

text \<open>A process that dies while it writes a line leaves all others waiting.\<close>

lemma locked_line_held:
  assumes "sem_ready (lg_printLock lg) (lg_sems lg)" "sem_val (lg_printLock lg) (lg_sems lg) = 0"
  shows "locked_line s lg = Blocks"
  using sysv.wait_zero [OF assms] by (simp add: locked_line_def perform_lock_def)

lemma mprintf_init_free:
  assumes "sems_wf (lg_sems lg)" "os_gets (lg_sems lg) = []" "os_ctls (lg_sems lg) = []"
    and "INT_MIN \<le> os_key (lg_sems lg)" "os_key (lg_sems lg) + int (length (os_table (lg_sems lg))) < INT_MAX"
  shows "\<exists>lg'. mprintf_init file opens lg = Some (True, lg') \<and> log_free lg' \<and> lg_lines lg' = lg_lines lg \<and>
    (lg_log lg' = None \<longleftrightarrow> file = None \<or> (\<exists>f. file = Some f \<and> f \<noteq> ''-'' \<and> \<not> opens))"
proof -
  have one: "(0 :: int) \<le> 1" "1 \<le> SEMVMX"
    by (simp_all add: SEMVMX_def)
  obtain sem os where sem: "ipc_sem_create 1 (lg_sems lg) = Some (sem, os)" "0 \<le> sem" "ipc_sem_value sem os = Some 1"
    using ipc_sem_create_ok [OF assms(1-3) one assms(4,5)] by blast
  have "sem_ready sem os"
    using sem(3) by (auto simp: sem_ready_def ipc_sem_value_def find_sem_def dest: find_Some_in split: option.splits)
  then show ?thesis
    using sem by (auto simp: mprintf_init_def Let_def log_free_def sem_val_def split: option.splits)
qed


section \<open>Many lines\<close>

text \<open>The calls of \<open>mprintf\<close> by all processes, in the order in which they get the lock.\<close>

fun mprintf_all :: "(int \<times> string) list \<Rightarrow> logger \<Rightarrow> logger outcome" where
  "mprintf_all [] lg = Returns lg"
| "mprintf_all ((pid, s) # calls) lg =
     (case mprintf pid s lg of Blocks \<Rightarrow> Blocks | Faults \<Rightarrow> Faults | Returns (_, lg') \<Rightarrow> mprintf_all calls lg')"

lemma mprintf_all_lines:
  assumes "log_free lg" "lg_log lg \<noteq> None"
  shows "\<exists>lg'. mprintf_all calls lg = Returns lg' \<and> log_free lg' \<and> lg_log lg' = lg_log lg \<and>
    lg_lines lg' = lg_lines lg @ map (\<lambda>(pid, s). ''('' @ print_int pid @ '') '' @ s) calls"
  using assms
proof (induction calls arbitrary: lg)
  case (Cons c calls)
  obtain pid s where c: "c = (pid, s)"
    by (cases c)
  let ?l = "''('' @ print_int pid @ '') '' @ s"
  obtain os where os: "locked_line ?l lg = Returns (lg\<lparr>lg_lines := lg_lines lg @ [?l], lg_sems := os\<rparr>)"
    "log_free (lg\<lparr>lg_lines := lg_lines lg @ [?l], lg_sems := os\<rparr>)"
    using locked_line_free [OF Cons.prems(1)] by blast
  show ?case
    using Cons.IH [OF os(2)] Cons.prems(2) os(1) by (auto simp: c mprintf_def)
qed simp

end
