(* ===== verification/Signals.thy ===== *)
theory Signals
  imports C_Prelude
begin

text \<open>
  \<open>app/signal.c\<close> and the handler of \<open>app/main.c\<close>: what a signal does to a process of the
  program, as it is built without \<open>DEBUG\<close> (Debug\_Builds) and \<open>WAIT\<close> (Wait\_Builds).
\<close>

datatype signal = SIGHUP | SIGINT | SIGQUIT | SIGTERM | SIGCHLD | SIGILL | SIGFPE | SIGSEGV | SIGPIPE | SIGUSR1

datatype disposition = Default | Signal_Handler | Redirect_Handler

text \<open>The only exit function there is, besides NULL.\<close>

datatype exit_function = Handle_Signal

record process =
  pr_dispositions :: "signal \<Rightarrow> disposition"
  pr_exitFunction :: "exit_function option"
  pr_doExit :: int
  pr_to_parent :: nat

definition process_start :: process where
  "process_start = \<lparr>pr_dispositions = (\<lambda>_. Default), pr_exitFunction = None, pr_doExit = 0, pr_to_parent = 0\<rparr>"

definition set_signal :: "signal \<Rightarrow> disposition \<Rightarrow> process \<Rightarrow> process" where
  "set_signal sig d p = p\<lparr>pr_dispositions := (pr_dispositions p)(sig := d)\<rparr>"

definition register_exit_function :: "exit_function option \<Rightarrow> process \<Rightarrow> process" where
  "register_exit_function onExit p = p\<lparr>pr_exitFunction := onExit\<rparr>"

definition redirect_signals :: "process \<Rightarrow> process" where
  "redirect_signals p = fold (\<lambda>sig. set_signal sig Redirect_Handler) [SIGHUP, SIGINT, SIGQUIT, SIGTERM] p"

definition register_signal_handlers :: "process \<Rightarrow> process" where
  "register_signal_handlers p =
     fold (\<lambda>sig. set_signal sig Signal_Handler)
       [SIGHUP, SIGINT, SIGQUIT, SIGTERM, SIGCHLD, SIGILL, SIGFPE, SIGSEGV, SIGPIPE, SIGUSR1] p"

definition handle_signal :: "process \<Rightarrow> process" where
  "handle_signal p = p\<lparr>pr_doExit := 1\<rparr>"

definition signal_handler :: "process \<Rightarrow> process" where
  "signal_handler p = (case pr_exitFunction p of None \<Rightarrow> p | Some Handle_Signal \<Rightarrow> handle_signal p)"

definition redirect_handler :: "process \<Rightarrow> process" where
  "redirect_handler p = p\<lparr>pr_to_parent := pr_to_parent p + 1\<rparr>"

text \<open>
  A signal comes in: \<^const>\<open>None\<close> when it ends the process. By default only SIGCHLD does not.
\<close>

definition deliver :: "signal \<Rightarrow> process \<Rightarrow> process option" where
  "deliver sig p =
     (case pr_dispositions p sig of
        Default \<Rightarrow> if sig = SIGCHLD then Some p else None
      | Signal_Handler \<Rightarrow> Some (signal_handler p)
      | Redirect_Handler \<Rightarrow> Some (redirect_handler p))"

fun deliver_all :: "signal list \<Rightarrow> process \<Rightarrow> process option" where
  "deliver_all [] p = Some p"
| "deliver_all (sig # sigs) p = deliver sig p \<bind> deliver_all sigs"

text \<open>What \<open>main\<close> registers, and what a child is left with: it inherits the handlers.\<close>

definition main_process :: process where
  "main_process = register_signal_handlers (register_exit_function (Some Handle_Signal) process_start)"

definition airline_process :: process where
  "airline_process = register_exit_function None main_process"

lemma handlers_main [simp]: "pr_dispositions main_process sig = Signal_Handler"
  by (cases sig) (simp_all add: main_process_def register_signal_handlers_def set_signal_def)

lemma deliver_all_handled:
  assumes "\<And>sig. pr_dispositions p sig = Signal_Handler"
  shows "deliver_all sigs p =
    Some (if sigs = [] \<or> pr_exitFunction p = None then p else p\<lparr>pr_doExit := 1\<rparr>)"
  using assms
proof (induction sigs arbitrary: p)
  case (Cons sig sigs)
  have f: "pr_exitFunction p = None \<or> pr_exitFunction p = Some Handle_Signal"
    by (metis exit_function.exhaust option.exhaust)
  have "deliver sig p = Some (signal_handler p)"
    using Cons.prems by (simp add: deliver_def)
  then show ?case
    using Cons.IH [of "signal_handler p"] Cons.prems f
    by (auto simp: signal_handler_def handle_signal_def)
qed simp

end
