(* ===== verification/Properties_Transport.thy ===== *)
theory Properties_Transport
  imports Named_Pipes Datagram_Sockets Posix_Queues Shmem_Open Logging Signals
begin

text \<open>
  What the implementations of \<open>ipc/ipc.h\<close> promise beside the shared-memory queue: packets keep
  their order and their bytes, connections lead to whoever listens to the name, and what
  becomes of failing system calls. Also the signals that end a simulation, and the log.
\<close>

section \<open>Named pipes\<close>

text \<open>
  C31. Packets through a named pipe come out as they went in: every run of \<open>ipc_write\<close> and
  \<open>ipc_read\<close> gives the packets in order, each cut to 512 bytes and to the length of the
  reader's buffer, though the pipe itself is only a sequence of bytes. Nothing is undefined.
\<close>

theorem fifo_round_trip:
  assumes "pipe_inv len p"
  shows "case run_queue fifo_send (ipc_read_fifo len) p ops of
      Faults \<Rightarrow> False
    | Blocks \<Rightarrow> True
    | Returns (got, p') \<Rightarrow> pipe_inv len p' \<and>
        got @ map (received len) (packets (pi_bytes p')) =
          map (received len) (packets (pi_bytes p) @ map (take 512) (pushed ops))"
  using pipe.run_order [OF assms, of ops] by (auto split: outcome.splits simp: comp_def)

theorem fifo_round_trip_witness:
  "\<exists>p'. run_queue fifo_send (ipc_read_fifo 2) \<lparr>pi_bytes = [], pi_writes = [], pi_reads = []\<rparr> [Push [1, 2, 3], Push [], Pop] =
      Returns ([(2, [Some 1, Some 2])], p') \<and> packets (pi_bytes p') = [[]]"
proof -
  let ?p = "\<lparr>pi_bytes = [], pi_writes = [], pi_reads = []\<rparr>"
  have inv: "pipe_inv 2 ?p"
    by (simp add: pipe_inv_def IPC_MAX_PACKET_LEN_def)
  have "ipc_write_fifo ?p [1, 2, 3] = Returns (3, ?p\<lparr>pi_bytes := frame [1, 2, 3]\<rparr>)"
    using ipc_write_fifo_frame [of ?p "[1, 2, 3]"] by (simp add: PIPE_CAPACITY_def)
  moreover have "ipc_write_fifo (?p\<lparr>pi_bytes := frame [1, 2, 3]\<rparr>) [] = Returns (0, ?p\<lparr>pi_bytes := frame [1, 2, 3] @ frame []\<rparr>)"
    using ipc_write_fifo_frame [of "?p\<lparr>pi_bytes := frame [1, 2, 3]\<rparr>" "[]"] by (simp add: PIPE_CAPACITY_def frame_def)
  moreover have "ipc_read_fifo 2 (?p\<lparr>pi_bytes := frame [1, 2, 3] @ frame []\<rparr>) = Returns (received 2 [1, 2, 3], ?p\<lparr>pi_bytes := frame []\<rparr>)"
    using ipc_read_fifo_frame [of "?p\<lparr>pi_bytes := frame [1, 2, 3] @ frame []\<rparr>" "[1, 2, 3]" "frame []" 2] by simp
  ultimately have run: "run_queue fifo_send (ipc_read_fifo 2) ?p [Push [1, 2, 3], Push [], Pop] =
      Returns ([received 2 [1, 2, 3]], ?p\<lparr>pi_bytes := frame []\<rparr>)"
    by (simp add: fifo_send_def)
  have "received 2 [1, 2, 3] = (2, [Some 1, Some 2])"
    by (simp add: received_def numeral_2_eq_2)
  with fifo_round_trip [OF inv, of "[Push [1, 2, 3], Push [], Pop]"] show ?thesis
    using packets_frame [of "[]" "[]"] by (simp add: run del: run_queue.simps)
qed

text \<open>
  Failing system calls are not reported as such: a \<open>write\<close> that fails gives -9, not -1, and
  an \<open>ipc_read\<close> whose second \<open>read\<close> fails says that it has filled the whole buffer, though
  no byte was read.
\<close>

theorem fifo_failures:
  assumes "pi_writes p = False # ws" "pi_reads q = True # False # rs" "pi_bytes q = frame m @ bs"
    and "length m \<le> 512" "len \<le> 512"
  shows "(\<exists>p'. ipc_write_fifo p buff = Returns (- 9, p') \<and> pi_bytes p' = pi_bytes p) \<and>
    (\<exists>q'. ipc_read_fifo len q = Returns ((int len, replicate len None), q'))"
proof
  show "\<exists>p'. ipc_write_fifo p buff = Returns (- 9, p') \<and> pi_bytes p' = pi_bytes p"
    using assms(1) by (simp add: ipc_write_fifo_def Let_def)
  have size: "bytes_size (size_bytes 8 (length m)) = length m"
    using assms(4) by (intro header_size) simp
  have "size_bytes 8 (length m) @ m @ bs \<noteq> []"
    by (metis append_is_Nil_conv length_0_conv length_size_bytes zero_neq_numeral)
  then have "pipe_read 8 q = Returns (Some (size_bytes 8 (length m)), q\<lparr>pi_bytes := m @ bs, pi_reads := False # rs\<rparr>)"
    using assms(2,3) by (simp add: pipe_read_def frame_def)
  then show "\<exists>q'. ipc_read_fifo len q = Returns ((int len, replicate len None), q')"
    using assms(4,5) by (simp add: ipc_read_fifo_def size IPC_MAX_PACKET_LEN_def pipe_read_def min_def)
qed

theorem fifo_failures_witness:
  "\<exists>q'. ipc_read_fifo 2 \<lparr>pi_bytes = frame [7], pi_writes = [False], pi_reads = [True, False]\<rparr> = Returns ((2, [None, None]), q')"
  using fifo_failures [of "\<lparr>pi_bytes = frame [7], pi_writes = [False], pi_reads = [True, False]\<rparr>" "[]"
      "\<lparr>pi_bytes = frame [7], pi_writes = [False], pi_reads = [True, False]\<rparr>" "[]" "[7]" "[]" 2 "[]"]
  by (simp add: numeral_2_eq_2)

section \<open>Sockets\<close>

text \<open>
  C33. The sockets are a bounded first-in first-out queue of packets: whatever calls are
  interrupted or find no buffers, every run of \<open>ipc_write\<close> and \<open>ipc_read\<close> is a run of the
  specification, and waits only where that cannot go on.
\<close>

theorem socket_queue:
  assumes "socket_inv room so"
  shows "case run_queue socket_send (ipc_read_socket len) so ops of
      Faults \<Rightarrow> False
    | Blocks \<Rightarrow> run_list room (so_datagrams so) (map (map_qop id) ops) = None
    | Returns (got, so') \<Rightarrow> socket_inv room so' \<and>
        (\<exists>ds. got = map (\<lambda>d. (int (min (length d) len), take len d)) ds \<and>
          run_list room (so_datagrams so) (map (map_qop id) ops) = Some (ds, so_datagrams so'))"
  using socket.run_refines [OF assms, of ops len] by simp

theorem socket_queue_witness:
  "run_queue socket_send (ipc_read_socket 2)
      \<lparr>so_datagrams = [], so_room = 1, so_sends = [No_Buffers], so_reads = [Interrupted]\<rparr> [Push [1], Push [2]] = Blocks"
proof -
  let ?so = "\<lparr>so_datagrams = [], so_room = 1, so_sends = [No_Buffers], so_reads = [Interrupted]\<rparr>"
  have "socket_inv 1 ?so"
    by (simp add: socket_inv_def)
  from socket_queue [OF this, where len = 2 and ops = "[Push [1], Push [2]]"] show ?thesis
    by (auto split: outcome.splits)
qed

section \<open>POSIX message queues\<close>

text \<open>
  A packet that is longer than a message, or a failing \<open>mq_send\<close>, makes \<open>ipc_write\<close> return
  -1 with the mutex of the connection locked: every later \<open>ipc_write\<close> there waits for ever.
\<close>

theorem mqueue_failed_write_locks:
  assumes "\<not> pq_locked q" "MSG_SIZE < length buff \<or> \<not> fst (alloc (pq_sends q))"
  shows "\<exists>q'. ipc_write_mqueue q buff = Returns (- 1, q') \<and> pq_messages q' = pq_messages q \<and>
    (\<forall>later. ipc_write_mqueue q' later = Blocks)"
  using assms by (cases "alloc (pq_sends q)") (auto simp: ipc_write_mqueue_def)

theorem mqueue_failed_write_locks_witness:
  "\<exists>q'. ipc_write_mqueue \<lparr>pq_messages = [], pq_sends = [False], pq_receives = [], pq_locked = False\<rparr> [1] = Returns (- 1, q') \<and>
    ipc_write_mqueue q' [2] = Blocks"
  using mqueue_failed_write_locks [of "\<lparr>pq_messages = [], pq_sends = [False], pq_receives = [], pq_locked = False\<rparr>" "[1]"]
  by auto

section \<open>Shared memory\<close>


definition empty_system :: "mallocs \<Rightarrow> shm_os" where
  "empty_system calls = \<lparr>sh_locks = (\<lambda>_. None), sh_objects = (\<lambda>_. None),
     sh_sems = \<lparr>os_key = 322420958, os_fresh = 0, os_table = [], os_gets = [], os_ctls = [], os_eintr = []\<rparr>, sh_calls = calls\<rparr>"


text \<open>
  A process that connects to a name before anybody else, and then cannot open the shared
  memory, leaves the lock of the name at zero: from then on everybody who opens the name,
  its owner too, waits for ever.
\<close>

theorem shmem_abandoned_lock:
  assumes "sh_calls st = [True, True, False]" "shm_name name = Some n" "sh_locks st n = None"
  shows "\<exists>st'. ipc_create name False st = Returns (None, st') \<and> (\<forall>owner. ipc_create name owner st' = Blocks)"
proof -
  obtain st' where st': "ipc_create name False st = Returns (None, st')" "sh_locks st' n = Some 0" "sh_calls st' = []"
    using assms by (simp add: ipc_create_def shm_call_def open_lock_def shm_open_def)
  with ipc_create_waits [OF st'(3) assms(2) st'(2)] show ?thesis
    by blast
qed

theorem shmem_abandoned_lock_witness:
  "\<exists>st'. ipc_create ''map_ipc'' False (empty_system [True, True, False]) = Returns (None, st') \<and>
    ipc_create ''map_ipc'' True st' = Blocks"
proof -
  have "shm_name ''map_ipc'' = Some ''/arqvenger_map_ipc''"
    by (simp add: shm_name_def strcpy_into_def)
  then show ?thesis
    using shmem_abandoned_lock [of "empty_system [True, True, False]" "''map_ipc''" "''/arqvenger_map_ipc''"]
    by (auto simp: empty_system_def)
qed


section \<open>The log and the signals\<close>

text \<open>
  Once \<open>mprintf_init\<close> has made the lock, every call of \<open>mprintf\<close> by any process comes back
  and adds its line, whole and in the order of the lock, and leaves the lock free.
\<close>

theorem mprintf_lines:
  assumes "sems_room (lg_sems lg)" "file = ''-'' \<or> opens"
  shows "\<exists>lg1 lg2. mprintf_init (Some file) opens lg = Some (True, lg1) \<and> mprintf_all calls lg1 = Returns lg2 \<and>
    lg_lines lg2 = lg_lines lg @ map (\<lambda>(pid, s). ''('' @ print_int pid @ '') '' @ s) calls \<and>
    sem_val (lg_printLock lg2) (lg_sems lg2) = 1"
proof -
  have "os_key (lg_sems lg) + int (length (os_table (lg_sems lg))) < INT_MAX"
    using assms(1) by (simp add: sems_room_def)
  then obtain lg1 where lg1: "mprintf_init (Some file) opens lg = Some (True, lg1)" "log_free lg1" "lg_lines lg1 = lg_lines lg"
    "lg_log lg1 \<noteq> None"
    using mprintf_init_free [of lg "Some file" opens] assms by (auto simp: sems_room_def)
  with mprintf_all_lines [OF lg1(2,4), of calls] show ?thesis
    by (auto simp: log_free_def)
qed

theorem mprintf_lines_witness:
  "\<exists>lg1 lg2. mprintf_init (Some ''-'') False \<lparr>lg_log = None, lg_closed = False, lg_printLock = - 1, lg_lines = [],
      lg_sems = sh_sems (empty_system [])\<rparr> = Some (True, lg1) \<and>
    mprintf_all [(7, ''Waiting''), (8, ''Dude'')] lg1 = Returns lg2 \<and> lg_lines lg2 = [''(7) Waiting'', ''(8) Dude'']"
proof -
  have "sems_room (sh_sems (empty_system []))"
    by (simp add: empty_system_def sems_room_def sems_wf_def INT_MIN_def INT_MAX_def)
  moreover have "print_int 7 = ''7''" "print_int 8 = ''8''"
    by code_simp+
  ultimately show ?thesis
    using mprintf_lines [of "\<lparr>lg_log = None, lg_closed = False, lg_printLock = - 1, lg_lines = [],
      lg_sems = sh_sems (empty_system [])\<rparr>" "''-''" False "[(7, ''Waiting''), (8, ''Dude'')]"]
    by (auto simp del: mprintf_all.simps)
qed

text \<open>
  No signal the program handles ends a process: in the parent any of them, a segmentation
  fault too, only asks the simulation to end; in an airline none has any effect.
\<close>

theorem signals_only_ask:
  "deliver_all sigs main_process = Some (if sigs = [] then main_process else handle_signal main_process) \<and>
   deliver_all sigs airline_process = Some airline_process"
proof -
  have "pr_dispositions airline_process sig = Signal_Handler" for sig
    by (simp add: airline_process_def register_exit_function_def)
  moreover have "pr_exitFunction airline_process = None" "pr_exitFunction main_process \<noteq> None"
    by (simp_all add: airline_process_def main_process_def register_exit_function_def register_signal_handlers_def set_signal_def)
  ultimately show ?thesis
    using deliver_all_handled [of main_process sigs] deliver_all_handled [of airline_process sigs]
    by (auto simp: handle_signal_def)
qed

end
