(* ===== verification/System_Queues.thy ===== *)
theory System_Queues
  imports System_Progress
begin

text \<open>
  How full the queues between the processes get when no call fails. Whole\_System lets them grow;
  these bounds say how much room the transport has to have for that to make no difference. The
  queue of a plane has room for nine messages and never holds more than one.
\<close>

text \<open>Messages counted by what they are about.\<close>

lemma length_filters:
  assumes "finite I" "\<And>x. x \<in> set xs \<Longrightarrow> \<exists>i\<in>I. Q i x"
  shows "length xs \<le> (\<Sum>i\<in>I. length (filter (Q i) xs))"
  using assms(2)
proof (induction xs)
  case (Cons x xs)
  then obtain i where i: "i \<in> I" "Q i x"
    by auto
  have "length (filter (Q j) (x # xs)) = length (filter (Q j) xs) + (if Q j x then 1 else 0)" for j
    by simp
  then have "(\<Sum>j\<in>I. length (filter (Q j) (x # xs))) = (\<Sum>j\<in>I. length (filter (Q j) xs)) + (\<Sum>j\<in>I. if Q j x then 1 else 0)"
    by (simp add: sum.distrib)
  moreover have "(1::nat) \<le> (\<Sum>j\<in>I. if Q j x then 1 else 0)"
    using member_le_sum [of i I "\<lambda>j. if Q j x then 1 else (0::nat)"] i assms(1) by simp
  ultimately show ?case
    using Cons by simp
qed simp

lemma length_kinds: "(\<And>x. Q x \<Longrightarrow> Q1 x \<or> Q2 x) \<Longrightarrow> length (filter Q xs) \<le> length (filter Q1 xs) + length (filter Q2 xs)"
  by (induction xs) fastforce+

lemma length_filter_filter: "length (filter Q (filter R xs)) \<le> length (filter Q xs)"
  by (induction xs) auto

section \<open>Planes\<close>

lemma working_inbox: "working t P \<or> resting t P \<Longrightarrow> length (pt_inbox (pp_thread P)) \<le> 1"
  by (auto simp: working_def resting_def)

lemma leaving_inbox: "leaving P \<Longrightarrow> pp_pc P = Gone \<or> length (pt_inbox (pp_thread P)) \<le> 1"
  by (auto simp: leaving_def split: if_splits)

lemma plane_queue_bound:
  assumes "live S" "a < length (sy_airlines S)" "P \<in> set (ap_planes (sy_airlines S ! a))"
  shows "pp_pc P = Gone \<or> length (pt_inbox (pp_thread P)) \<le> 1"
proof (cases "sy_pc S = M_Ended")
  case True
  then have "ending (sy_airlines S ! a)"
    using assms(1,2) by (simp add: live_def list_all_length)
  then show ?thesis
    using assms(3) leaving_inbox [of P] working_inbox [of _ P] by (auto simp: ending_def list_all_iff split: if_splits)
next
  case False
  then have "live_airline (phase_of (sy_pc S)) (sy_airlines S ! a)"
    using assms(1,2) by (simp add: live_def)
  then show ?thesis
    using assms(3) working_inbox [of _ P] by (auto simp: live_airline_def told_def at_phase_def list_all_iff)
qed

section \<open>Listeners\<close>

lemma awaits_one: "awaits MessageTypeStep pc + awaits MessageTypeContinue pc \<le> 1"
  by (simp add: awaits_def asking_def)

lemma asked_once:
  assumes "one_answer a inbox A" "p < length (ap_planes A)"
  shows "num_asks MessageTypeStep a p inbox + num_asks MessageTypeContinue a p inbox +
    (num_replies MessageTypeStep p (ap_inbox A) + num_replies MessageTypeContinue p (ap_inbox A)) \<le> 1"
  using one_answerD [OF assms(1) _ assms(2), of MessageTypeStep] one_answerD [OF assms(1) _ assms(2), of MessageTypeContinue]
    awaits_one [of "pp_pc (ap_planes A ! p)"] by simp

lemma listener_queue_bound:
  assumes "live_airline t A" "one_answer a inbox A" "airline_ok nc ps a ks A"
  shows "length (ap_inbox A) \<le> max 1 (length (ap_planes A))"
proof (cases "told t A")
  case False
  then have at: "at_phase t A"
    using assms(1) by (simp add: live_airline_def)
  let ?Q = "\<lambda>p m. replies_to MessageTypeStep p m \<or> replies_to MessageTypeContinue p m"
  have len: "length (ap_planes A) = length ks" and replies: "\<And>m. m \<in> set (ap_inbox A) \<Longrightarrow> reply_ok nc ks m"
    using assms(3) by (simp_all add: airline_ok_def list_all_iff)
  have "\<exists>p\<in>{..<length ks}. ?Q p m" if "m \<in> set (ap_inbox A)" for m
    using replies [OF that] at that by (cases m) (auto simp: at_phase_def)
  then have "length (ap_inbox A) \<le> (\<Sum>p<length ks. length (filter (?Q p) (ap_inbox A)))"
    by (intro length_filters) simp_all
  also have "\<dots> \<le> (\<Sum>p<length ks. 1)"
  proof (rule sum_mono)
    fix p assume "p \<in> {..<length ks}"
    then show "length (filter (?Q p) (ap_inbox A)) \<le> 1"
      using asked_once [OF assms(2), of p] len
        length_kinds [of "?Q p" "replies_to MessageTypeStep p" "replies_to MessageTypeContinue p" "ap_inbox A"]
      by (simp add: num_replies_def)
  qed
  finally show ?thesis
    by (simp add: len)
qed (simp add: told_def)

section \<open>The map\<close>

definition fleet_size :: "system_state \<Rightarrow> nat" where
  "fleet_size S = (\<Sum>a<length (sy_airlines S). length (ap_planes (sy_airlines S ! a)))"

lemma map_queue_bound:
  assumes ok: "sys_ok nc ps cargo T S" and live: "live S" and pc: "sy_pc S \<noteq> M_Ended"
  shows "length (sy_inbox S) \<le> length (sy_airlines S) + fleet_size S"
proof -
  let ?n = "length cargo" and ?as = "sy_airlines S"
  let ?report = "\<lambda>m. pm_type m \<in> {MessageTypeAirlineDone, MessageTypeAirlineStatus}"
  let ?I = "SIGMA a:{..<?n}. {..<length (cargo ! a)}"
  let ?Q = "\<lambda>(a, p) m. asks MessageTypeStep a p m \<or> asks MessageTypeContinue a p m"
  let ?asking = "filter (\<lambda>m. \<not> ?report m) (sy_inbox S)"
  note okD = sys_okD [OF ok]
  have "\<exists>i\<in>?I. ?Q i m" if "m \<in> set ?asking" for m
  proof -
    have "request_ok nc ps cargo m" "\<not> ?report m"
      using that okD(6) by (auto simp: list_all_iff)
    then show ?thesis
      by (cases m) (auto simp: from_plane_def prepare_header_def)
  qed
  then have "length ?asking \<le> (\<Sum>i\<in>?I. length (filter (?Q i) ?asking))"
    by (intro length_filters) simp_all
  also have "\<dots> \<le> (\<Sum>i\<in>?I. 1)"
  proof (rule sum_mono)
    fix i assume "i \<in> ?I"
    then obtain a p where i: "i = (a, p)" "a < ?n" "p < length (cargo ! a)"
      by auto
    have "one_answer a (sy_inbox S) (?as ! a)" "p < length (ap_planes (?as ! a))"
      using live pc i(2,3) okD(4) airline_okD(3) [OF okD(5) [OF i(2)]] by (simp_all add: live_def)
    note once = asked_once [OF this]
    have "length (filter (?Q i) ?asking) \<le> length (filter (?Q i) (sy_inbox S))"
      by (rule length_filter_filter)
    also have "\<dots> \<le> 1"
      using once length_kinds [of "?Q i" "asks MessageTypeStep a p" "asks MessageTypeContinue a p" "sy_inbox S"]
      by (simp add: i(1) num_asks_def)
    finally show "length (filter (?Q i) ?asking) \<le> 1" .
  qed
  also have "\<dots> = fleet_size S"
    using okD(4) airline_okD(3) [OF okD(5)] by (simp add: fleet_size_def)
  finally have asking: "length ?asking \<le> fleet_size S" .
  have "reports (sy_inbox S) \<le> ?n"
    using okD(7) by (auto simp: remaining_def split: map_pc.splits)
  moreover have "length (sy_inbox S) = reports (sy_inbox S) + length ?asking"
    unfolding reports_def by (rule sum_length_filter_compl [symmetric])
  ultimately show ?thesis
    using asking okD(4) by simp
qed

text \<open>All of it, for a program that runs.\<close>

definition queues_small :: "system_state \<Rightarrow> bool" where
  "queues_small S \<longleftrightarrow>
     (\<forall>A\<in>set (sy_airlines S). \<forall>P\<in>set (ap_planes A). pp_pc P = Gone \<or> length (pt_inbox (pp_thread P)) \<le> 1) \<and>
     (sy_pc S \<noteq> M_Ended \<longrightarrow> length (sy_inbox S) \<le> length (sy_airlines S) + fleet_size S \<and>
        (\<forall>A\<in>set (sy_airlines S). length (ap_inbox A) \<le> max 1 (length (ap_planes A))))"

lemma live_queues:
  assumes "sys_ok nc ps cargo T S" "live S"
  shows "queues_small S"
proof -
  note okD = sys_okD [OF assms(1)]
  have "length (ap_inbox (sy_airlines S ! a)) \<le> max 1 (length (ap_planes (sy_airlines S ! a)))"
    if "a < length (sy_airlines S)" "sy_pc S \<noteq> M_Ended" for a
    using that assms(2) okD(4) listener_queue_bound [OF _ _ okD(5) [of a]] by (auto simp: live_def)
  then show ?thesis
    using plane_queue_bound [OF assms(2)] map_queue_bound [OF assms]
    by (auto simp: queues_small_def all_set_conv_all_nth in_set_conv_nth)
qed

end
