(* ===== verification/Properties_Whole.thy ===== *)
theory Properties_Whole
  imports Program_Progress System_Queues Properties_Process
begin

text \<open>
  What holds of the whole program, its processes, threads and screen together, under every
  interleaving: the program of Whole\_Program. A small fleet is the example on which the witnesses
  are evaluated.
\<close>

section \<open>A small fleet\<close>

definition demo_plane :: "nat \<Rightarrow> int \<Rightarrow> plane" where
  "demo_plane p d = \<lparr>plane_id = int p, plane_stocks = vec_of [demo_stock 0 6], plane_cityId = 0, plane_distance = d\<rparr>"

definition demo_fleet :: "airline vector" where
  "demo_fleet = vec_of [\<lparr>airline_id = 0, airline_numberOfPlanes = 2, airline_planes = [demo_plane 0 0, demo_plane 1 3]\<rparr>]"

lemma demo_plane_good: "p < 2 \<Longrightarrow> 0 \<le> d \<Longrightarrow> d \<le> 1000 \<Longrightarrow> plane_good demo_map p (demo_plane p d)"
  using demo_known [of 6] demo_wf
  by (auto simp: plane_good_def demo_plane_def stocks_ok_def MAX_STOCKS_def in_int_def INT_MIN_def INT_MAX_def
      intro!: exI [of _ 0] exI [of _ "[demo_stock 0 6]"])

lemma demo_fleet_good: "fleet_good (ms_map demo_state) demo_fleet"
proof -
  have "plane_good demo_map p ([demo_plane 0 0, demo_plane 1 3] ! p)" if "p < 2" for p
    using that demo_plane_good [of 0 0] demo_plane_good [of 1 3] by (cases p) auto
  then show ?thesis
    by (simp add: fleet_good_def demo_fleet_def airline_good_def demo_state_def)
qed

lemma demo_state_simps: "sim_wf (ms_map demo_state)" "ms_sent demo_state = []" "ms_writes demo_state = []" "ms_exits demo_state = []"
  using demo_wf by (simp_all add: demo_state_def)

definition demo_os :: sem_os where
  "demo_os = \<lparr>os_key = 322420958, os_fresh = 0, os_table = [], os_gets = [], os_ctls = [], os_eintr = []\<rparr>"

lemma demo_startable: "startable demo_state demo_fleet demo_os"
  using demo_state_simps demo_fleet_good
  by (simp add: startable_def sems_free_def demo_os_def sems_wf_def INT_MIN_def INT_MAX_def) (simp add: demo_fleet_def)

text \<open>A start for the witnesses.\<close>

lemma demo_start:
  "\<exists>T sem W. program_start [] demo_os writes grants demo_fleet demo_state = Some (T, sem, W)"
  using program_start_inv [OF demo_startable, of "[]" writes grants] by (simp only: alloc.simps fst_conv) blast

section \<open>Small steps and loops\<close>

text \<open>The actions of Process\_Steps and Map\_Steps, one after the other, are the loops of the code.\<close>

lemma plane_actions_are_run_plane:
  assumes "length (pt_inbox st) < n"
  shows "plane_runs At_Top st r \<longleftrightarrow> r = run_plane n st"
  using plane_runs_enough [OF assms] plane_runs_functional [of At_Top st r "run_plane n st"] by blast

lemma map_actions_are_run_turns:
  assumes "run_turns k conns n T st inbox \<noteq> Returns None"
  shows "map_runs conns n T M_Turn st inbox r \<longleftrightarrow> r = loop_result (run_turns k conns n T st inbox)"
  using map_runs_run_turns [OF assms] map_runs_functional
    [of conns n T M_Turn st inbox r "loop_result (run_turns k conns n T st inbox)"] by blast

section \<open>The whole program\<close>

text \<open>
  C1. The whole program is safe. Start it on a well-formed map and fleet and let the map, the
  listeners, the threads of the planes and the screen take turns in any order. Whatever writes of
  the map and the planes fail, whatever allocations of the threads of the planes fail and whatever
  signals come: no step does anything undefined, every message on its way can be handled by its
  receiver, the queue to the screen never holds more than nine messages, and the map stays
  well-formed with a demand between nothing and the first. (The map's own allocations succeed
  here, and so do all reads.)
\<close>

theorem program_safe:
  assumes "startable st airlines os" "program_start al os writes grants airlines st = Some (T, sem, W0)" "reaches T sem W0 W"
  shows "step T sem y W \<noteq> Faults \<and>
    list_all (msg_ok (length (vlist airlines)) (ms_map (sy_map (pr_system W)))) (sy_inbox (pr_system W)) \<and>
    list_all (\<lambda>A. list_all (mm_ok (length (ap_planes A))) (ap_inbox A)) (sy_airlines (pr_system W)) \<and>
    (\<not> pr_over W \<longrightarrow> mq_inv (pr_queue W) \<and> length (mq_list (pr_queue W)) \<le> 9) \<and>
    sim_wf (ms_map (sy_map (pr_system W))) \<and> 0 \<le> demand (ms_map (sy_map (pr_system W))) \<and>
    demand (ms_map (sy_map (pr_system W))) \<le> demand (ms_map st)"
proof -
  let ?cargo = "cargo_of (vlist airlines)" and ?S = "pr_system W"
  have n: "length ?cargo = length (vlist airlines)"
    by (simp add: cargo_of_def)
  note inv = program_run(3) [OF assms] and T = program_run(1) [OF assms]
  then have ok: "sys_ok (length (vlist (map_cities (ms_map st)))) (map_product (ms_map st)) ?cargo T ?S"
    by (simp add: program_inv_def)
  note now = sys_okD [OF ok]
  have "msg_ok (length (vlist airlines)) (ms_map (sy_map ?S)) msg" if "msg \<in> set (sy_inbox ?S)" for msg
    using that now(1,6) request_ok_msg_ok [of _ "ms_map (sy_map ?S)" ?cargo msg] n by (auto simp: map_good_def list_all_iff)
  moreover have "mm_ok (length (ap_planes A)) msg" if A: "A \<in> set (sy_airlines ?S)" "msg \<in> set (ap_inbox A)" for A msg
  proof -
    obtain a where a: "a < length ?cargo" "A = sy_airlines ?S ! a"
      using A(1) now(4) by (auto simp: in_set_conv_nth)
    then have "airline_ok (length (vlist (map_cities (ms_map st)))) (map_product (ms_map st)) a (?cargo ! a) A"
      using now(5) by simp
    then show ?thesis
      using A(2) reply_ok_mm_ok by (auto simp: airline_ok_def list_all_iff)
  qed
  moreover have "mq_inv (pr_queue W)" if "\<not> pr_over W"
    using inv that by (simp add: program_inv_def screen_runs_def)
  moreover have "sim_wf (ms_map (sy_map ?S))" "0 \<le> demand (ms_map (sy_map ?S))" "demand (ms_map (sy_map ?S)) \<le> demand (ms_map st)"
    using now(1) T demand_nonneg sim_wfD(1) by (auto simp: map_good_def)
  ultimately show ?thesis
    using step_kept [OF inv, of y] mq.bounded [of "pr_queue W"] by (auto simp: list_all_iff)
qed

theorem program_safe_witness:
  "\<exists>T sem W0 W1. program_start [] demo_os (\<lambda>_ _. [False]) (\<lambda>_ _. [False]) demo_fleet demo_state = Some (T, sem, W0) \<and>
     step T sem (Process The_Map) W0 = Returns W1 \<and> step T sem Screen W1 \<noteq> Faults \<and> sim_wf (ms_map (sy_map (pr_system W1)))"
proof -
  obtain T sem W0 where W0: "program_start [] demo_os (\<lambda>_ _. [False]) (\<lambda>_ _. [False]) demo_fleet demo_state = Some (T, sem, W0)"
    using demo_start by blast
  note inv = program_run(3) [OF demo_startable W0 reaches_start]
  have start: "\<not> pr_over W0" "mq_list (pr_queue W0) = []" "map_pc_of W0 = M_Turn"
    using W0 message_queue_create_inv
    by (auto simp: program_start_def system_start_def bind_eq_Some_conv split: prod.splits option.splits if_splits)
  have "goes_on (map_step T sem W0)"
  proof (cases "pr_pushing W0")
    case Nil
    then show ?thesis
      using turn_enabled [OF inv start(1) _ start(3)] start(2) by (simp add: on_its_way_def)
  next
    case (Cons m ms)
    have "mq_inv (pr_queue W0)"
      using inv start(1) by (simp add: program_inv_def screen_runs_def)
    then show ?thesis
      using mq.push_room [of "pr_queue W0" m] start(2) Cons by (auto simp: map_step_def)
  qed
  then obtain W1 where W1: "step T sem (Process The_Map) W0 = Returns W1"
    by (auto simp: goes_on_def)
  then have "reaches T sem W0 W1"
    by (blast intro: reaches_start reaches_step)
  from program_safe [OF demo_startable W0 this, of Screen] show ?thesis
    using W0 W1 by blast
qed

text \<open>
  C10. The whole program ends: from its start no order of steps goes on for ever, whatever writes
  of the map and the planes and whatever allocations of the planes fail, and whatever signals come.
\<close>

theorem program_terminates:
  assumes "startable st airlines os" "fst (alloc al)"
  shows "\<exists>T sem W0. program_start al os writes grants airlines st = Some (T, sem, W0) \<and>
    (\<nexists>f. f 0 = W0 \<and> (\<forall>i. \<exists>y. step T sem y (f i) = Returns (f (Suc i))))"
proof -
  let ?T = "demand (ms_map st)"
  obtain sem W0 where start: "program_start al os writes grants airlines st = Some (?T, sem, W0)"
    "program_inv (length (vlist (map_cities (ms_map st)))) (map_product (ms_map st)) (cargo_of (vlist airlines)) ?T sem W0"
    using program_start_inv [OF assms, of writes grants] by blast
  have "\<not> (f 0 = W0 \<and> (\<forall>i. \<exists>y. step ?T sem y (f i) = Returns (f (Suc i))))" for f
    using no_infinite_program [of _ _ _ ?T sem f] start(2) by blast
  then show ?thesis
    using start(1) by blast
qed

theorem program_terminates_witness:
  "\<exists>T sem W0. program_start [] demo_os (\<lambda>_ _. [True, False]) (\<lambda>_ _. [False]) demo_fleet demo_state = Some (T, sem, W0) \<and>
    (\<nexists>f. f 0 = W0 \<and> (\<forall>i. \<exists>y. step T sem y (f i) = Returns (f (Suc i))))"
  by (rule program_terminates [OF demo_startable]) simp

text \<open>
  C2. The whole program reaches its end. If no write of the map and the planes and no allocation
  of the planes fails, the only states in which all processes, threads and the screen wait are those
  in which everything has ended: the airlines were told to end, no listener listens, every thread
  is gone, the screen has shown every turn and its closing lines, and the semaphore has been
  given back. Without signals the simulation has then delivered everything, or played its 70000
  turns. On the way a plane has never more than one message in its queue, and neither has a
  listener more than one per plane, nor the map more than one per plane and airline.
\<close>

theorem program_stops_only_at_end:
  assumes "startable st airlines os" "ms_writes st = []"
    and "program_start al os (\<lambda>_ _. []) (\<lambda>_ _. []) airlines st = Some (T, sem, W0)" "reaches T sem W0 W"
  shows "((\<forall>y. step T sem y W = Blocks) \<longleftrightarrow> program_over W) \<and> queues_small (pr_system W) \<and>
    (program_over W \<longrightarrow> out_turn (pr_screen W) = ms_turn (sy_map (pr_system W)) + 1 \<and> find_sem sem (pr_os W) = None \<and>
      (ms_exits st = [] \<longrightarrow> demand (ms_map (sy_map (pr_system W))) = 0 \<or> ms_turn (sy_map (pr_system W)) = 70000))"
proof -
  note inv = program_run(3) [OF assms(1,3,4)] and live = program_run_live [OF assms]
  have "stops_well (pr_system W)" if "ms_exits st = []"
    by (rule program_run_stops [OF assms(1) that assms(3,4)])
  moreover have "queues_small (pr_system W)"
    using inv live_queues [OF _ live] unfolding program_inv_def by blast
  ultimately show ?thesis
    using program_stuck_iff_over [OF inv live] inv program_run(2) [OF assms(1,3,4)]
    by (auto simp: stops_well_def program_over_def all_ended_def program_inv_def screen_ended_def)
qed

theorem program_stops_only_at_end_witness:
  "\<exists>T sem W0. program_start [] demo_os (\<lambda>_ _. []) (\<lambda>_ _. []) demo_fleet demo_state = Some (T, sem, W0) \<and> \<not> program_over W0 \<and>
    (\<exists>y. step T sem y W0 \<noteq> Blocks)"
proof -
  obtain T sem W0 where W0: "program_start [] demo_os (\<lambda>_ _. []) (\<lambda>_ _. []) demo_fleet demo_state = Some (T, sem, W0)"
    using demo_start by blast
  then have "\<not> program_over W0"
    by (auto simp: program_start_def program_over_def bind_eq_Some_conv split: prod.splits option.splits if_splits)
  then show ?thesis
    using program_stops_only_at_end [OF demo_startable demo_state_simps(3) W0 reaches_start] W0 by blast
qed

text \<open>
  C27. The pace of the simulation, whatever fails and whatever signals come: while the screen
  runs it has shown at most the status sent before the first turn and one for every turn played,
  and the map is at most one turn ahead of it. The semaphore holds exactly the difference: the
  value 1 it starts with, one for every status shown, less one for every turn (and, once the map
  has left its loop, perhaps less one for the last wait); it is never below 0 or above 2, so no call
  on it fails. Whenever the screen holds up the map, because the semaphore is 0, the queue is full or the
  closing lines are awaited, the screen can go on.
\<close>

theorem program_pace:
  assumes "startable st airlines os" "program_start al os writes grants airlines st = Some (T, sem, W0)" "reaches T sem W0 W"
    and "\<not> pr_over W"
  defines "turns \<equiv> ms_turn (sy_map (pr_system W))" and "shown \<equiv> int (out_posts (pr_screen W))"
  shows "out_turn (pr_screen W) = shown \<and> shown \<le> turns + 1 \<and> turns \<le> shown + 1 \<and>
    (\<exists>v. ipc_sem_value sem (pr_os W) = Some v \<and> 0 \<le> v \<and> v \<le> 2 \<and>
       (v = 1 + shown - turns \<or> sy_pc (pr_system W) = M_Ending \<and> v = shown - turns)) \<and>
    (map_step T sem W = Blocks \<longrightarrow> pr_pushing W \<noteq> [] \<or> sy_pc (pr_system W) \<in> {M_Turn, M_Ending} \<longrightarrow>
       (\<exists>W'. screen_step sem W = Returns W'))"
proof -
  note inv = program_run(3) [OF assms(1-3)]
  have runs: "screen_runs sem W"
    using inv assms(4) by (simp add: program_inv_def)
  have pace: "sem_ready sem (pr_os W)" "out_turn (pr_screen W) = shown" "shown \<le> turns + 1"
    "sem_val sem (pr_os W) = 1 + shown - turns \<or> sy_pc (pr_system W) = M_Ending \<and> sem_val sem (pr_os W) = shown - turns"
    using runs by (auto simp: screen_runs_def paced_def display_inv_def owed_def turns_def shown_def split: map_pc.splits)
  then have "ipc_sem_value sem (pr_os W) = Some (sem_val sem (pr_os W))" "0 \<le> sem_val sem (pr_os W)"
    using sysv.nonneg [OF pace(1)] by (auto simp: sem_ready_def sem_val_def ipc_sem_value_def)
  then show ?thesis
    using pace(2-4) held_up_screen_goes_on [OF inv assms(4)] by (auto simp: goes_on_def)
qed

theorem program_pace_witness:
  "\<exists>T sem W0. program_start [] demo_os (\<lambda>_ _. [False]) (\<lambda>_ _. [False]) demo_fleet demo_state = Some (T, sem, W0) \<and>
    (\<exists>v. ipc_sem_value sem (pr_os W0) = Some v \<and> v \<le> 2)"
proof -
  obtain T sem W0 where W0: "program_start [] demo_os (\<lambda>_ _. [False]) (\<lambda>_ _. [False]) demo_fleet demo_state = Some (T, sem, W0)"
    using demo_start by blast
  then have "\<not> pr_over W0"
    by (auto simp: program_start_def bind_eq_Some_conv split: prod.splits option.splits if_splits)
  from program_pace [OF demo_startable W0 reaches_start this] show ?thesis
    using W0 by blast
qed

end
