(* ===== verification/Memory_Model.thy ===== *)
theory Memory_Model
  imports C_Prelude
begin

text \<open>
  Memory as the functions that give it back see it: a map from addresses to allocated blocks, each
  with the pointers stored in it. \<open>malloc\<close> gives a fresh address. To \<open>free\<close> what is not allocated
  (a second time, or never) is undefined, and so is reading it. The last section is a small calculus
  for functions that give back a list of blocks and nothing else.
\<close>

section \<open>Blocks\<close>

type_synonym addr = nat

abbreviation NULL :: addr where
  "NULL \<equiv> 0"

text \<open>
  One constructor per \<open>struct\<close> or array the program allocates, with its pointers and what the free
  functions read: names, vectors (pointer, size, mutex held), the cells of a vector, stocks, products,
  cities, the matrix and its rows, the map, the planes of an airline (only their stocks), airlines,
  queues, plane threads (their queue), connections (their descriptor).
\<close>

datatype block =
    B_Name string
  | B_Vector addr nat bool
  | B_Cells "addr arr"
  | B_Stock int addr
  | B_Product int addr
  | B_City addr int addr
  | B_Matrix "addr arr"
  | B_Row "int list"
  | B_Map addr addr addr
  | B_Plane int addr int int
  | B_Planes "addr list"
  | B_Airline int nat addr
  | B_Queue
  | B_Thread addr
  | B_Conn int

record memory =
  mem_blocks :: "addr \<Rightarrow> block option"
  mem_next :: addr
  mem_fds :: "int list"   \<comment> \<open>open descriptors\<close>

section \<open>Allocation\<close>

text \<open>Addresses from \<open>mem_next\<close> on are free.\<close>

definition fresh_ok :: "memory \<Rightarrow> bool" where
  "fresh_ok M \<longleftrightarrow> mem_next M \<noteq> NULL \<and> (\<forall>a. mem_next M \<le> a \<longrightarrow> mem_blocks M a = None)"

definition malloc :: "block \<Rightarrow> mallocs \<Rightarrow> memory \<Rightarrow> addr \<times> mallocs \<times> memory" where
  "malloc b al M =
     (let (ok, al') = alloc al in
      if ok then (mem_next M, al', M\<lparr>mem_blocks := (mem_blocks M)(mem_next M \<mapsto> b), mem_next := mem_next M + 1\<rparr>)
      else (NULL, al', M))"

definition free :: "addr \<Rightarrow> memory \<Rightarrow> memory option" where
  "free a M =
     (if a = NULL then Some M
      else if mem_blocks M a = None then None
      else Some (M\<lparr>mem_blocks := (mem_blocks M)(a := None)\<rparr>))"

definition store :: "addr \<Rightarrow> block \<Rightarrow> memory \<Rightarrow> memory" where
  "store a b M = M\<lparr>mem_blocks := (mem_blocks M)(a \<mapsto> b)\<rparr>"

section \<open>Reading\<close>

definition vector_at :: "addr \<Rightarrow> memory \<Rightarrow> (addr \<times> nat \<times> bool) option" where
  "vector_at a M = (case mem_blocks M a of Some (B_Vector p n l) \<Rightarrow> Some (p, n, l) | _ \<Rightarrow> None)"

definition cells_at :: "addr \<Rightarrow> memory \<Rightarrow> addr arr option" where
  "cells_at a M = (case mem_blocks M a of Some (B_Cells c) \<Rightarrow> Some c | _ \<Rightarrow> None)"

definition product_at :: "addr \<Rightarrow> memory \<Rightarrow> (int \<times> addr) option" where
  "product_at a M = (case mem_blocks M a of Some (B_Product i n) \<Rightarrow> Some (i, n) | _ \<Rightarrow> None)"

definition city_at :: "addr \<Rightarrow> memory \<Rightarrow> (addr \<times> int \<times> addr) option" where
  "city_at a M = (case mem_blocks M a of Some (B_City n i s) \<Rightarrow> Some (n, i, s) | _ \<Rightarrow> None)"

definition matrix_at :: "addr \<Rightarrow> memory \<Rightarrow> addr arr option" where
  "matrix_at a M = (case mem_blocks M a of Some (B_Matrix rows) \<Rightarrow> Some rows | _ \<Rightarrow> None)"

definition map_at :: "addr \<Rightarrow> memory \<Rightarrow> (addr \<times> addr \<times> addr) option" where
  "map_at a M = (case mem_blocks M a of Some (B_Map c p m) \<Rightarrow> Some (c, p, m) | _ \<Rightarrow> None)"

definition plane_at :: "addr \<Rightarrow> memory \<Rightarrow> addr option" where
  "plane_at a M = (case mem_blocks M a of Some (B_Plane i s c d) \<Rightarrow> Some s | _ \<Rightarrow> None)"

definition planes_at :: "addr \<Rightarrow> memory \<Rightarrow> addr list option" where
  "planes_at a M = (case mem_blocks M a of Some (B_Planes ps) \<Rightarrow> Some ps | _ \<Rightarrow> None)"

definition airline_at :: "addr \<Rightarrow> memory \<Rightarrow> (int \<times> nat \<times> addr) option" where
  "airline_at a M = (case mem_blocks M a of Some (B_Airline i n p) \<Rightarrow> Some (i, n, p) | _ \<Rightarrow> None)"

definition thread_at :: "addr \<Rightarrow> memory \<Rightarrow> addr option" where
  "thread_at a M = (case mem_blocks M a of Some (B_Thread q) \<Rightarrow> Some q | _ \<Rightarrow> None)"

definition conn_at :: "addr \<Rightarrow> memory \<Rightarrow> int option" where
  "conn_at a M = (case mem_blocks M a of Some (B_Conn fd) \<Rightarrow> Some fd | _ \<Rightarrow> None)"

lemmas reading = vector_at_def cells_at_def product_at_def city_at_def matrix_at_def map_at_def plane_at_def planes_at_def
  airline_at_def thread_at_def conn_at_def

section \<open>Giving back\<close>

text \<open>The memory \<open>M\<close> after the blocks \<open>ds\<close> were given back.\<close>

definition without :: "memory \<Rightarrow> addr list \<Rightarrow> memory \<Rightarrow> bool" where
  "without M ds M' \<longleftrightarrow> (\<forall>a. mem_blocks M' a = (if a \<in> set ds then None else mem_blocks M a))"

text \<open>
  \<open>f\<close> gives back the blocks \<open>bs\<close> of \<open>M\<close> and nothing else, even when other blocks were given back
  before, unless it needs them: \<open>K\<close> is what it reads besides.
\<close>

definition gives_back :: "(memory \<Rightarrow> memory option) \<Rightarrow> memory \<Rightarrow> addr set \<Rightarrow> addr list \<Rightarrow> bool" where
  "gives_back f M K bs \<longleftrightarrow>
     (\<forall>ds M'. without M ds M' \<longrightarrow> set ds \<inter> (set bs \<union> K) = {} \<longrightarrow> (\<exists>M''. f M' = Some M'' \<and> without M (ds @ bs) M''))"

lemma without_refl [simp]: "without M [] M"
  by (simp add: without_def)

lemma without_at: "without M ds M' \<Longrightarrow> a \<notin> set ds \<Longrightarrow> mem_blocks M' a = mem_blocks M a"
  by (simp add: without_def)

lemma gives_backI:
  "(\<And>ds M'. without M ds M' \<Longrightarrow> set ds \<inter> (set bs \<union> K) = {} \<Longrightarrow> \<exists>M''. f M' = Some M'' \<and> without M (ds @ bs) M'') \<Longrightarrow> gives_back f M K bs"
  by (simp add: gives_back_def)

lemma gives_backD:
  "gives_back f M K bs \<Longrightarrow> without M ds M' \<Longrightarrow> set ds \<inter> (set bs \<union> K) = {} \<Longrightarrow> \<exists>M''. f M' = Some M'' \<and> without M (ds @ bs) M''"
  by (simp add: gives_back_def)

lemma gives_back_mono: "gives_back f M K bs \<Longrightarrow> K \<subseteq> K' \<Longrightarrow> gives_back f M K' bs"
  unfolding gives_back_def by blast

lemma gives_back_free: "a \<noteq> NULL \<Longrightarrow> mem_blocks M a \<noteq> None \<Longrightarrow> gives_back (free a) M {} [a]"
  by (auto simp: gives_back_def free_def without_def)

lemma gives_back_null: "gives_back (free NULL) M {} []"
  by (simp add: gives_back_def free_def)

lemma gives_back_Some: "gives_back Some M {} []"
  by (simp add: gives_back_def)

text \<open>One after the other.\<close>

lemma gives_back_seq:
  assumes "gives_back f M K bs" "gives_back g M K' cs" "set bs \<inter> (set cs \<union> K') = {}"
  shows "gives_back (\<lambda>M. f M \<bind> g) M (K \<union> K') (bs @ cs)"
proof (rule gives_backI)
  fix ds M'
  assume M': "without M ds M'" "set ds \<inter> (set (bs @ cs) \<union> (K \<union> K')) = {}"
  then have "set ds \<inter> (set bs \<union> K) = {}"
    by auto
  from gives_backD [OF assms(1) M'(1) this] obtain M1 where M1: "f M' = Some M1" "without M (ds @ bs) M1"
    by blast
  have "set (ds @ bs) \<inter> (set cs \<union> K') = {}"
    using M'(2) assms(3) by auto
  from gives_backD [OF assms(2) M1(2) this] M1(1) show "\<exists>M''. (f M' \<bind> g) = Some M'' \<and> without M (ds @ bs @ cs) M''"
    by auto
qed

text \<open>Reading first.\<close>

lemma gives_back_read:
  assumes "\<And>M'. mem_blocks M' a = mem_blocks M a \<Longrightarrow> r M' = Some x" "gives_back (f x) M K bs" "a \<in> set bs \<union> K"
  shows "gives_back (\<lambda>M. r M \<bind> (\<lambda>x. f x M)) M K bs"
proof (rule gives_backI)
  fix ds M'
  assume M': "without M ds M'" "set ds \<inter> (set bs \<union> K) = {}"
  then have "mem_blocks M' a = mem_blocks M a"
    using assms(3) by (intro without_at [of M ds]) auto
  from assms(1) [OF this] show "\<exists>M''. (r M' \<bind> (\<lambda>x. f x M')) = Some M'' \<and> without M (ds @ bs) M''"
    using gives_backD [OF assms(2) M'] by simp
qed

text \<open>A loop: every round gives back its own blocks.\<close>

lemma gives_back_loop:
  fixes n :: nat
  assumes "\<And>i. i < n \<Longrightarrow> gives_back (f i) M K (bs i)" "\<And>i. i < n \<Longrightarrow> set (bs i) \<inter> K = {}"
    and "\<And>i j. i < n \<Longrightarrow> j < n \<Longrightarrow> i \<noteq> j \<Longrightarrow> set (bs i) \<inter> set (bs j) = {}"
    and "\<And>i M. i < n \<Longrightarrow> body i M = map_option Next (f i M)"
  shows "gives_back (\<lambda>M. after_loop (for_loop n 0 body M) Some) M K (concat (map bs [0..<n]))"
proof (rule gives_backI)
  fix ds M'
  let ?I = "\<lambda>i. without M (ds @ concat (map bs [0..<i]))"
  assume M': "without M ds M'" "set ds \<inter> (set (concat (map bs [0..<n])) \<union> K) = {}"
  have "\<exists>M''. for_loop n 0 body M' = Some (Next M'') \<and> ?I (0 + n) M''"
  proof (rule for_loop_invariant)
    show "?I 0 M'"
      using M'(1) by simp
    fix i M1
    assume i: "0 \<le> i" "i < 0 + n" "?I i M1"
    have "set (bs j) \<inter> (set (bs i) \<union> K) = {}" if "j < i" for j
      using assms(2) [of j] assms(3) [of j i] that i(2) by auto
    then have "x \<notin> set (bs i) \<union> K" if "x \<in> set (concat (map bs [0..<i]))" for x
      using that by fastforce
    moreover have "set (bs i) \<subseteq> set (concat (map bs [0..<n]))"
      using i(2) by auto
    ultimately have "set (ds @ concat (map bs [0..<i])) \<inter> (set (bs i) \<union> K) = {}"
      using M'(2) unfolding set_append by blast
    from gives_backD [OF assms(1) i(3) this] i(2) obtain M2 where "f i M1 = Some M2" "without M ((ds @ concat (map bs [0..<i])) @ bs i) M2"
      by auto
    then show "\<exists>M2. body i M1 = Some (Next M2) \<and> ?I (Suc i) M2"
      using assms(4) i(2) by simp
  qed
  then show "\<exists>M''. after_loop (for_loop n 0 body M') Some = Some M'' \<and> without M (ds @ concat (map bs [0..<n])) M''"
    by auto
qed

text \<open>In the end everything is given back, once.\<close>

lemma gives_back_all:
  assumes "gives_back f M K bs" "dom (mem_blocks M) \<subseteq> set bs"
  shows "\<exists>M'. f M = Some M' \<and> mem_blocks M' = Map.empty"
proof -
  obtain M' where M': "f M = Some M'" "without M bs M'"
    using gives_backD [OF assms(1) without_refl] by auto
  have "mem_blocks M' a = None" for a
    using M'(2) assms(2) by (auto simp: without_def)
  then show ?thesis
    using M'(1) by auto
qed

section \<open>Rules for the shapes of the functions\<close>

lemma gives_back_own: "gives_back f M K bs \<Longrightarrow> K \<subseteq> set bs \<union> K' \<Longrightarrow> gives_back f M K' bs"
  unfolding gives_back_def by blast

lemma gives_back_cong: "gives_back f M K bs \<Longrightarrow> (\<And>M. g M = f M) \<Longrightarrow> gives_back g M K bs"
  by (simp add: gives_back_def)

lemma gives_back_reads:
  assumes "\<And>M'. mem_blocks M' a = mem_blocks M a \<Longrightarrow> r M' = Some x" "gives_back (f x) M K bs"
  shows "gives_back (\<lambda>M. r M \<bind> (\<lambda>x. f x M)) M (insert a K) bs"
  using gives_back_read [of a M r x f "insert a K" bs] gives_back_mono [OF assms(2), of "insert a K"] assms(1) by auto

lemma distinct_concat_nth:
  "distinct (concat xss) \<Longrightarrow> i < length xss \<Longrightarrow> j < length xss \<Longrightarrow> i \<noteq> j \<Longrightarrow> set (xss ! i) \<inter> set (xss ! j) = {}"
proof (induction xss arbitrary: i j)
  case (Cons xs xss)
  have out: "set xs \<inter> set (xss ! k) = {}" if "k < length xss" for k
  proof -
    have "set (xss ! k) \<subseteq> set (concat xss)"
      using nth_mem [OF that] by auto
    then show ?thesis
      using Cons.prems(1) by auto
  qed
  show ?case
  proof (cases i)
    case 0
    then obtain k where "j = Suc k" "k < length xss"
      using Cons.prems by (cases j) auto
    then show ?thesis
      using 0 out by simp
  next
    case (Suc i')
    then show ?thesis
      using Cons out [of i'] by (cases j) auto
  qed
qed simp

lemma concat_nth: "concat (map (\<lambda>i. xss ! i) [0..<length xss]) = concat xss"
  by (simp add: map_nth)

lemma gives_back_rounds:
  assumes "\<And>i. i < length bss \<Longrightarrow> gives_back (f i) M K (bss ! i)" "set (concat bss) \<inter> K = {}" "distinct (concat bss)"
  shows "gives_back (\<lambda>M. after_loop (for_loop (length bss) 0 (\<lambda>i M. map_option Next (f i M)) M) Some) M K (concat bss)"
proof -
  have "gives_back (\<lambda>M. after_loop (for_loop (length bss) 0 (\<lambda>i M. map_option Next (f i M)) M) Some) M K
      (concat (map (\<lambda>i. bss ! i) [0..<length bss]))"
  proof (rule gives_back_loop [where f = f])
    show "set (bss ! i) \<inter> K = {}" if "i < length bss" for i
    proof -
      have "set (bss ! i) \<subseteq> set (concat bss)"
        using nth_mem [OF that] by auto
      then show ?thesis
        using assms(2) by blast
    qed
  qed (use assms(1) distinct_concat_nth [OF assms(3)] in auto)
  then show ?thesis
    by (simp add: concat_nth)
qed

lemma distinct_concat_member:
  assumes "distinct (concat bss @ zs)" "i < length bss"
  shows "distinct (bss ! i) \<and> set (bss ! i) \<inter> set zs = {}"
proof -
  have "set (bss ! i) \<subseteq> set (concat bss)"
    using nth_mem [OF assms(2)] by auto
  moreover have "distinct (bss ! i)"
    using assms nth_mem [OF assms(2)] by (simp add: distinct_concat_iff)
  ultimately show ?thesis
    using assms(1) unfolding distinct_append by blast
qed

lemma gives_back_then:
  assumes "gives_back f M K bs" "gives_back g M {} cs" "distinct (bs @ cs)"
  shows "gives_back (\<lambda>M. f M \<bind> g) M K (bs @ cs)"
proof -
  have "set bs \<inter> (set cs \<union> {}) = {}"
    using assms(3) unfolding distinct_append by blast
  from gives_back_seq [OF assms(1,2) this] show ?thesis
    by simp
qed

lemma distinct_suffix: "distinct (as @ bs) \<Longrightarrow> distinct bs"
  by simp

lemma distinct_prefix: "distinct (as @ bs) \<Longrightarrow> distinct as"
  by simp

lemma distinct_apart: "distinct (as @ bs @ cs @ ds) \<Longrightarrow> distinct as \<and> set as \<inter> (set cs \<union> set bs) = {}"
  by auto

end
