(* ===== verification/Free_Functions.thy ===== *)
theory Free_Functions
  imports Memory_Model
begin

text \<open>
  The functions that give memory back: \<open>destroyVector\<close> and the \<open>free...\<close> functions of \<open>models/\<close>, the
  \<open>ipc_close\<close> of the implementations that do nothing else. Each gives back exactly the blocks it is
  responsible for, each of them once, whatever else has been given back before. Process\_Ends
  has what they are for.
\<close>

section \<open>The functions\<close>

text \<open>Vectors whose cells hold addresses.\<close>

definition getVectorSize_m :: "addr \<Rightarrow> memory \<Rightarrow> nat option" where
  "getVectorSize_m v M = do { (p, n, l) \<leftarrow> vector_at v M; Some n }"

definition getFromVector_m :: "addr \<Rightarrow> int \<Rightarrow> memory \<Rightarrow> (addr \<times> memory) option" where
  "getFromVector_m v i M = do {
     (p, n, l) \<leftarrow> vector_at v M;
     if l then None
     else
       let index = to_uint i in
       if index \<ge> n then Some (NULL, store v (B_Vector p n True) M)
       else do {
         cells \<leftarrow> cells_at p M;
         x \<leftarrow> arr_get cells index;
         Some (x, M)
       }
   }"

definition destroyVector :: "addr \<Rightarrow> memory \<Rightarrow> memory option" where
  "destroyVector v M = do {
     (p, n, l) \<leftarrow> vector_at v M;
     M \<leftarrow> free p M;
     free v M
   }"

text \<open>A loop that runs \<open>f i\<close> for the first \<open>n\<close> numbers.\<close>

definition for_all :: "nat \<Rightarrow> (nat \<Rightarrow> memory \<Rightarrow> memory option) \<Rightarrow> memory \<Rightarrow> memory option" where
  "for_all n f M = after_loop (for_loop n 0 (\<lambda>i M. map_option Next (f i M)) M) Some"

definition freeStocks_m :: "addr \<Rightarrow> memory \<Rightarrow> memory option" where
  "freeStocks_m stocks M = do {
     size \<leftarrow> getVectorSize_m stocks M;
     if stocks \<noteq> NULL then do {
       M \<leftarrow> for_all (to_uint (int size)) (\<lambda>i M. do { (a, M) \<leftarrow> getFromVector_m stocks (int i) M; free a M }) M;
       destroyVector stocks M
     } else Some M
   }"

definition freeCity :: "addr \<Rightarrow> memory \<Rightarrow> memory option" where
  "freeCity city M = do {
     (name, id, stock) \<leftarrow> city_at city M;
     M \<leftarrow> freeStocks_m stock M;
     (name, id, stock) \<leftarrow> city_at city M;
     M \<leftarrow> free name M;
     free city M
   }"

definition freeProduct :: "addr \<Rightarrow> memory \<Rightarrow> memory option" where
  "freeProduct product M =
     (if product \<noteq> NULL then do {
        (id, name) \<leftarrow> product_at product M;
        M \<leftarrow> free name M;
        free product M
      } else Some M)"

text \<open>\<open>int counter = getVectorSize(...)\<close>: the conversion must fit.\<close>

definition int_size :: "nat \<Rightarrow> nat option" where
  "int_size n = (if in_int (int n) then Some n else None)"

definition freeMap :: "addr \<Rightarrow> memory \<Rightarrow> memory option" where
  "freeMap m M = do {
     (cities, product, matrix) \<leftarrow> map_at m M;
     n \<leftarrow> getVectorSize_m cities M;
     counter \<leftarrow> int_size n;
     M \<leftarrow> for_all counter (\<lambda>i M. do {
         (cities, product, matrix) \<leftarrow> map_at m M;
         (city, M) \<leftarrow> getFromVector_m cities (int i) M;
         M \<leftarrow> freeCity city M;
         (cities, product, matrix) \<leftarrow> map_at m M;
         rows \<leftarrow> matrix_at matrix M;
         row \<leftarrow> arr_get rows i;
         free row M
       }) M;
     (cities, product, matrix) \<leftarrow> map_at m M;
     M \<leftarrow> free matrix M;
     (cities, product, matrix) \<leftarrow> map_at m M;
     n \<leftarrow> getVectorSize_m product M;
     counter \<leftarrow> int_size n;
     M \<leftarrow> for_all counter (\<lambda>i M. do {
         (cities, product, matrix) \<leftarrow> map_at m M;
         (p, M) \<leftarrow> getFromVector_m product (int i) M;
         freeProduct p M
       }) M;
     (cities, product, matrix) \<leftarrow> map_at m M;
     M \<leftarrow> destroyVector cities M;
     (cities, product, matrix) \<leftarrow> map_at m M;
     M \<leftarrow> destroyVector product M;
     free m M
   }"

definition freePlane :: "addr \<Rightarrow> memory \<Rightarrow> memory option" where
  "freePlane plane M =
     (if plane \<noteq> NULL then do {
        stocks \<leftarrow> plane_at plane M;
        M \<leftarrow> freeStocks_m stocks M;
        free plane M
      } else Some M)"

definition freeAirline_m :: "addr \<Rightarrow> memory \<Rightarrow> memory option" where
  "freeAirline_m airline M =
     (if airline \<noteq> NULL then do {
        (id, n, planes) \<leftarrow> airline_at airline M;
        M \<leftarrow> for_all n (\<lambda>i M. do {
            (id, n, planes) \<leftarrow> airline_at airline M;
            ps \<leftarrow> planes_at planes M;
            if i < length ps then freeStocks_m (ps ! i) M else None
          }) M;
        (id, n, planes) \<leftarrow> airline_at airline M;
        M \<leftarrow> free planes M;
        free airline M
      } else Some M)"

text \<open>Closing a connection: a socket has only its block, a pipe and a POSIX queue a descriptor too.\<close>

definition ipc_close_socket :: "addr \<Rightarrow> memory \<Rightarrow> memory option" where
  "ipc_close_socket conn M = do { fd \<leftarrow> conn_at conn M; free conn M }"

definition close_fd :: "int \<Rightarrow> memory \<Rightarrow> memory" where
  "close_fd fd M = M\<lparr>mem_fds := removeAll fd (mem_fds M)\<rparr>"

definition ipc_close_fifo :: "addr \<Rightarrow> memory \<Rightarrow> memory option" where
  "ipc_close_fifo conn M = do { fd \<leftarrow> conn_at conn M; free conn (close_fd fd M) }"

text \<open>\<open>mq_close\<close> fails for a descriptor that is not open; that is printed and the block still given back.\<close>

definition ipc_close_mqueue :: "addr \<Rightarrow> memory \<Rightarrow> memory option" where
  "ipc_close_mqueue conn M = do {
     fd \<leftarrow> conn_at conn M;
     let M = (if fd \<in> set (mem_fds M) then close_fd fd M else M);
     free conn M
   }"

definition message_queue_destroy_m :: "addr \<Rightarrow> memory \<Rightarrow> memory option" where
  "message_queue_destroy_m queue M = (if queue = NULL \<or> mem_blocks M queue \<noteq> Some B_Queue then None else free queue M)"

section \<open>What lies in memory\<close>

text \<open>A vector with the elements \<open>xs\<close>; \<open>bs\<close> are its blocks. The cells exist once something was added.\<close>

definition vec_in :: "memory \<Rightarrow> addr \<Rightarrow> addr list \<Rightarrow> addr list \<Rightarrow> bool" where
  "vec_in M v xs bs \<longleftrightarrow> v \<noteq> NULL \<and> length xs < 2147483648 \<and>
     (\<exists>p. mem_blocks M v = Some (B_Vector p (length xs) False) \<and>
        (if xs = [] then p = NULL \<and> bs = [v]
         else p \<noteq> NULL \<and> p \<noteq> v \<and> (\<exists>n. length xs \<le> n \<and> mem_blocks M p = Some (B_Cells (arr_of n xs))) \<and> bs = [p, v]))"

definition stocks_in :: "memory \<Rightarrow> addr \<Rightarrow> addr list \<Rightarrow> bool" where
  "stocks_in M v bs \<longleftrightarrow> (\<exists>xs vb. vec_in M v xs vb \<and> bs = xs @ vb \<and> distinct bs \<and>
     (\<forall>x\<in>set xs. x \<noteq> NULL \<and> (\<exists>n p. mem_blocks M x = Some (B_Stock n p))))"

definition city_in :: "memory \<Rightarrow> addr \<Rightarrow> addr list \<Rightarrow> bool" where
  "city_in M c bs \<longleftrightarrow> c \<noteq> NULL \<and> (\<exists>name i s sb. mem_blocks M c = Some (B_City name i s) \<and> name \<noteq> NULL \<and>
     (\<exists>w. mem_blocks M name = Some (B_Name w)) \<and> stocks_in M s sb \<and> bs = sb @ [name, c] \<and> distinct bs)"

definition product_in :: "memory \<Rightarrow> addr \<Rightarrow> addr list \<Rightarrow> bool" where
  "product_in M p bs \<longleftrightarrow> p \<noteq> NULL \<and> (\<exists>i name w. mem_blocks M p = Some (B_Product i name) \<and> name \<noteq> NULL \<and>
     mem_blocks M name = Some (B_Name w) \<and> bs = [name, p] \<and> distinct bs)"

definition airline_in :: "memory \<Rightarrow> addr \<Rightarrow> addr list \<Rightarrow> bool" where
  "airline_in M a bs \<longleftrightarrow> a \<noteq> NULL \<and> (\<exists>i planes ss sbs. mem_blocks M a = Some (B_Airline i (length ss) planes) \<and>
     planes \<noteq> NULL \<and> mem_blocks M planes = Some (B_Planes ss) \<and> list_all2 (stocks_in M) ss sbs \<and>
     bs = concat sbs @ [planes, a] \<and> distinct bs)"

definition map_in :: "memory \<Rightarrow> addr \<Rightarrow> addr list \<Rightarrow> bool" where
  "map_in M m bs \<longleftrightarrow> m \<noteq> NULL \<and> (\<exists>cities product matrix cs cv cbs ps pv pbs rows.
     mem_blocks M m = Some (B_Map cities product matrix) \<and>
     vec_in M cities cs cv \<and> list_all2 (city_in M) cs cbs \<and> vec_in M product ps pv \<and> list_all2 (product_in M) ps pbs \<and>
     matrix \<noteq> NULL \<and> mem_blocks M matrix = Some (B_Matrix (map Some rows)) \<and> length rows = length cs \<and>
     (\<forall>r\<in>set rows. r \<noteq> NULL \<and> mem_blocks M r \<noteq> None) \<and>
     bs = concat (map2 (\<lambda>cb r. cb @ [r]) cbs rows) @ [matrix] @ concat pbs @ cv @ pv @ [m] \<and> distinct bs)"

section \<open>Each gives back its own\<close>

lemma vec_inD:
  assumes "vec_in M v xs bs"
  shows "v \<noteq> NULL" "v \<in> set bs" "distinct bs" "length xs < 2147483648"
    "mem_blocks M' v = mem_blocks M v \<Longrightarrow> getVectorSize_m v M' = Some (length xs)"
  using assms by (auto simp: vec_in_def getVectorSize_m_def reading split: if_splits)

lemma get_in:
  assumes "vec_in M v xs bs" "i < length xs" "\<And>a. a \<in> set bs \<Longrightarrow> mem_blocks M' a = mem_blocks M a"
  shows "getFromVector_m v (int i) M' = Some (xs ! i, M')"
  using assms by (auto simp: vec_in_def getFromVector_m_def reading split: if_splits)

lemma gives_back_get:
  assumes "vec_in M v xs vb" "i < length xs" "gives_back (f (xs ! i)) M K bs"
  shows "gives_back (\<lambda>M. getFromVector_m v (int i) M \<bind> (\<lambda>(a, M). f a M)) M (K \<union> set vb) bs"
proof (rule gives_backI)
  fix ds M'
  assume M': "without M ds M'" "set ds \<inter> (set bs \<union> (K \<union> set vb)) = {}"
  have "getFromVector_m v (int i) M' = Some (xs ! i, M')"
    by (rule get_in [OF assms(1,2)]) (use M' in \<open>auto intro: without_at\<close>)
  moreover have "set ds \<inter> (set bs \<union> K) = {}"
    using M'(2) by auto
  ultimately show "\<exists>M''. (getFromVector_m v (int i) M' \<bind> (\<lambda>(a, M). f a M)) = Some M'' \<and> without M (ds @ bs) M''"
    using gives_backD [OF assms(3) M'(1)] by simp
qed

lemma gives_back_for_all:
  assumes "\<And>i. i < length bss \<Longrightarrow> gives_back (f i) M K (bss ! i)" "set (concat bss) \<inter> K = {}" "distinct (concat bss)" "n = length bss"
  shows "gives_back (for_all n f) M K (concat bss)"
  using gives_back_rounds [OF assms(1-3)] assms(4) by (simp add: for_all_def [abs_def])

lemma destroyVector_back:
  assumes "vec_in M v xs bs"
  shows "gives_back (destroyVector v) M {} bs"
proof -
  obtain p where p: "mem_blocks M v = Some (B_Vector p (length xs) False)"
    "if xs = [] then p = NULL \<and> bs = [v] else p \<noteq> NULL \<and> p \<noteq> v \<and> mem_blocks M p \<noteq> None \<and> bs = [p, v]"
    using assms by (auto simp: vec_in_def split: if_splits)
  have v: "gives_back (free v) M {} [v]"
    using vec_inD(1) [OF assms] p(1) by (intro gives_back_free) auto
  have body: "gives_back (\<lambda>M. free p M \<bind> free v) M {} bs"
  proof (cases "xs = []")
    case True
    then show ?thesis
      using gives_back_seq [OF gives_back_null v] p(2) by simp
  next
    case False
    then show ?thesis
      using gives_back_seq [OF gives_back_free v, of p] p(2) by simp
  qed
  have "gives_back (\<lambda>M. vector_at v M \<bind> (\<lambda>x. (case x of (p, n, l) \<Rightarrow> \<lambda>M. free p M \<bind> free v) M)) M (insert v {}) bs"
    by (rule gives_back_reads [where x = "(p, length xs, False)"]) (use p(1) body in \<open>simp_all add: reading\<close>)
  then have "gives_back (destroyVector v) M {v} bs"
    by (rule gives_back_cong) (simp add: destroyVector_def split_def)
  then show ?thesis
    by (rule gives_back_own) (use vec_inD(2) [OF assms] in simp)
qed

lemma freeStocks_back:
  assumes "stocks_in M v bs"
  shows "gives_back (freeStocks_m v) M {} bs"
proof -
  obtain xs vb where s: "vec_in M v xs vb" "bs = xs @ vb" "distinct bs"
    and "\<forall>x\<in>set xs. x \<noteq> NULL \<and> (\<exists>n p. mem_blocks M x = Some (B_Stock n p))"
    using assms unfolding stocks_in_def by blast
  then have stocks: "\<And>x. x \<in> set xs \<Longrightarrow> x \<noteq> NULL \<and> mem_blocks M x \<noteq> None"
    by fastforce
  have "gives_back (\<lambda>M. getFromVector_m v (int i) M \<bind> (\<lambda>(a, M). free a M)) M ({} \<union> set vb) [xs ! i]" if "i < length xs" for i
    using stocks [OF nth_mem [OF that]] by (intro gives_back_get [OF s(1) that, where f = free] gives_back_free) auto
  then have "gives_back (for_all (length xs) (\<lambda>i M. getFromVector_m v (int i) M \<bind> (\<lambda>(a, M). free a M))) M (set vb)
      (concat (map (\<lambda>x. [x]) xs))"
    using s(2,3) by (intro gives_back_for_all) simp_all
  then have loop: "gives_back (for_all (length xs) (\<lambda>i M. getFromVector_m v (int i) M \<bind> (\<lambda>(a, M). free a M))) M (set vb) xs"
    by simp
  have "gives_back (\<lambda>M. for_all (length xs) (\<lambda>i M. getFromVector_m v (int i) M \<bind> (\<lambda>(a, M). free a M)) M \<bind> destroyVector v) M
      (set vb \<union> {}) (xs @ vb)"
    by (rule gives_back_seq [OF loop destroyVector_back [OF s(1)]]) (use s(2,3) in auto)
  then have "gives_back (\<lambda>M. getVectorSize_m v M \<bind> (\<lambda>size. (\<lambda>M. for_all (to_uint (int size)) (\<lambda>i M. getFromVector_m v (int i) M \<bind> (\<lambda>(a, M). free a M)) M \<bind>
      destroyVector v) M)) M (insert v (set vb \<union> {})) (xs @ vb)"
    using vec_inD [OF s(1)] by (intro gives_back_reads) auto
  then have "gives_back (freeStocks_m v) M (insert v (set vb \<union> {})) bs"
    using vec_inD(1) [OF s(1)] s(2) by (auto elim!: gives_back_cong simp: freeStocks_m_def)
  then show ?thesis
    by (rule gives_back_own) (use vec_inD(2) [OF s(1)] s(2) in auto)
qed

lemma freeCity_back:
  assumes "city_in M c bs"
  shows "gives_back (freeCity c) M {} bs"
proof -
  obtain name i s sb where c: "c \<noteq> NULL" "mem_blocks M c = Some (B_City name i s)" "name \<noteq> NULL" "mem_blocks M name \<noteq> None"
    "stocks_in M s sb" "bs = sb @ [name, c]" "distinct bs"
    using assms unfolding city_in_def by auto
  have at: "city_at c M' = Some (name, i, s)" if "mem_blocks M' c = mem_blocks M c" for M'
    using that c(2) by (simp add: reading)
  have "gives_back (\<lambda>M. free name M \<bind> free c) M ({} \<union> {}) ([name] @ [c])"
    by (rule gives_back_seq) (use c in \<open>auto intro!: gives_back_free\<close>)
  then have "gives_back (\<lambda>M. city_at c M \<bind> (\<lambda>x. (case x of (name, i, s) \<Rightarrow> \<lambda>M. free name M \<bind> free c) M)) M (insert c {}) [name, c]"
    by (intro gives_back_reads [where x = "(name, i, s)"]) (simp_all add: at)
  then have "gives_back (\<lambda>M. freeStocks_m s M \<bind> (\<lambda>M. city_at c M \<bind> (\<lambda>x. (case x of (name, i, s) \<Rightarrow> \<lambda>M. free name M \<bind> free c) M)))
      M ({} \<union> insert c {}) (sb @ [name, c])"
    by (rule gives_back_seq [OF freeStocks_back [OF c(5)]]) (use c(6,7) in auto)
  then have "gives_back (\<lambda>M. city_at c M \<bind> (\<lambda>x. (case x of (name, i, s) \<Rightarrow> \<lambda>M.
      freeStocks_m s M \<bind> (\<lambda>M. city_at c M \<bind> (\<lambda>x. (case x of (name, i, s) \<Rightarrow> \<lambda>M. free name M \<bind> free c) M))) M))
      M (insert c ({} \<union> insert c {})) (sb @ [name, c])"
    by (intro gives_back_reads [where x = "(name, i, s)"]) (simp_all add: at)
  then have "gives_back (freeCity c) M (insert c ({} \<union> insert c {})) bs"
    unfolding c(6) by (rule gives_back_cong) (simp add: freeCity_def split_def)
  then show ?thesis
    by (rule gives_back_own) (use c(6) in auto)
qed

lemma freeProduct_back:
  assumes "product_in M p bs"
  shows "gives_back (freeProduct p) M {} bs"
proof -
  obtain i name where p: "p \<noteq> NULL" "mem_blocks M p = Some (B_Product i name)" "name \<noteq> NULL" "mem_blocks M name \<noteq> None"
    "bs = [name, p]" "distinct bs"
    using assms unfolding product_in_def by auto
  have "gives_back (\<lambda>M. free name M \<bind> free p) M ({} \<union> {}) ([name] @ [p])"
    by (rule gives_back_seq) (use p in \<open>auto intro!: gives_back_free\<close>)
  then have "gives_back (\<lambda>M. product_at p M \<bind> (\<lambda>x. (case x of (i, name) \<Rightarrow> \<lambda>M. free name M \<bind> free p) M)) M (insert p {}) [name, p]"
    by (intro gives_back_reads [where x = "(i, name)"]) (use p(2) in \<open>simp_all add: reading\<close>)
  then have "gives_back (freeProduct p) M (insert p {}) bs"
    unfolding p(5) by (rule gives_back_cong) (simp add: freeProduct_def p(1) split_def)
  then show ?thesis
    by (rule gives_back_own) (use p(5) in auto)
qed

lemma freePlane_back:
  assumes "plane \<noteq> NULL" "mem_blocks M plane = Some (B_Plane i s c d)" "stocks_in M s sb" "distinct (sb @ [plane])"
  shows "gives_back (freePlane plane) M {} (sb @ [plane])"
proof -
  have "gives_back (\<lambda>M. freeStocks_m s M \<bind> free plane) M ({} \<union> {}) (sb @ [plane])"
    by (rule gives_back_seq [OF freeStocks_back [OF assms(3)]]) (use assms in \<open>auto intro!: gives_back_free\<close>)
  then have "gives_back (\<lambda>M. plane_at plane M \<bind> (\<lambda>s. (\<lambda>M. freeStocks_m s M \<bind> free plane) M)) M (insert plane ({} \<union> {})) (sb @ [plane])"
    by (intro gives_back_reads) (use assms(2) in \<open>simp_all add: reading\<close>)
  then have "gives_back (freePlane plane) M (insert plane ({} \<union> {})) (sb @ [plane])"
    by (rule gives_back_cong) (simp add: freePlane_def assms(1))
  then show ?thesis
    by (rule gives_back_own) auto
qed

lemma freeAirline_back:
  assumes "airline_in M a bs"
  shows "gives_back (freeAirline_m a) M {} bs"
proof -
  obtain i planes ss sbs where a: "a \<noteq> NULL" "mem_blocks M a = Some (B_Airline i (length ss) planes)" "planes \<noteq> NULL"
    "mem_blocks M planes = Some (B_Planes ss)" "list_all2 (stocks_in M) ss sbs" "bs = concat sbs @ [planes, a]" "distinct bs"
    using assms unfolding airline_in_def by auto
  have len: "length sbs = length ss"
    using a(5) by (simp add: list_all2_lengthD)
  have at: "airline_at a M' = Some (i, length ss, planes)" if "mem_blocks M' a = mem_blocks M a" for M'
    using that a(2) by (simp add: reading)
  let ?round = "\<lambda>k M. airline_at a M \<bind> (\<lambda>x. (case x of (i, n, planes) \<Rightarrow> \<lambda>M.
    planes_at planes M \<bind> (\<lambda>ps. (\<lambda>M. if k < length ps then freeStocks_m (ps ! k) M else None) M)) M)"
  have "gives_back (?round k) M (insert a (insert planes {})) (sbs ! k)" if k: "k < length sbs" for k
  proof -
    have "gives_back (\<lambda>M. if k < length ss then freeStocks_m (ss ! k) M else None) M {} (sbs ! k)"
      using freeStocks_back a(5) k len by (simp add: list_all2_conv_all_nth)
    then have "gives_back (\<lambda>M. planes_at planes M \<bind> (\<lambda>ps. (\<lambda>M. if k < length ps then freeStocks_m (ps ! k) M else None) M)) M (insert planes {}) (sbs ! k)"
      by (intro gives_back_reads) (use a(4) in \<open>simp_all add: reading\<close>)
    then show ?thesis
      by (intro gives_back_reads [where x = "(i, length ss, planes)"]) (simp_all add: at)
  qed
  then have loop: "gives_back (for_all (length ss) ?round) M {a, planes} (concat sbs)"
    using a(6,7) len by (intro gives_back_for_all) auto
  have "gives_back (\<lambda>M. free planes M \<bind> free a) M ({} \<union> {}) ([planes] @ [a])"
    by (rule gives_back_seq) (use a in \<open>auto intro!: gives_back_free\<close>)
  then have "gives_back (\<lambda>M. airline_at a M \<bind> (\<lambda>x. (case x of (i, n, planes) \<Rightarrow> \<lambda>M. free planes M \<bind> free a) M)) M (insert a {}) [planes, a]"
    by (intro gives_back_reads [where x = "(i, length ss, planes)"]) (simp_all add: at)
  then have "gives_back (\<lambda>M. for_all (length ss) ?round M \<bind> (\<lambda>M. airline_at a M \<bind> (\<lambda>x. (case x of (i, n, planes) \<Rightarrow> \<lambda>M. free planes M \<bind> free a) M)))
      M ({a, planes} \<union> insert a {}) (concat sbs @ [planes, a])"
    by (rule gives_back_seq [OF loop]) (use a(6,7) in auto)
  then have "gives_back (\<lambda>M. airline_at a M \<bind> (\<lambda>x. (case x of (i, n, planes) \<Rightarrow> \<lambda>M.
      for_all n ?round M \<bind> (\<lambda>M. airline_at a M \<bind> (\<lambda>x. (case x of (i, n, planes) \<Rightarrow> \<lambda>M. free planes M \<bind> free a) M))) M))
      M (insert a ({a, planes} \<union> insert a {})) (concat sbs @ [planes, a])"
    by (intro gives_back_reads [where x = "(i, length ss, planes)"]) (simp_all add: at)
  then have "gives_back (freeAirline_m a) M (insert a ({a, planes} \<union> insert a {})) bs"
    unfolding a(6) by (rule gives_back_cong) (simp add: freeAirline_m_def a(1) split_def)
  then show ?thesis
    by (rule gives_back_own) (use a(6) in auto)
qed

text \<open>\<open>freeMap\<close> reads the pointers in the map before each use.\<close>

definition with_map :: "addr \<Rightarrow> (addr \<Rightarrow> addr \<Rightarrow> addr \<Rightarrow> memory \<Rightarrow> memory option) \<Rightarrow> memory \<Rightarrow> memory option" where
  "with_map m f M = map_at m M \<bind> (\<lambda>(c, p, x). f c p x M)"

lemma with_map_back:
  assumes "mem_blocks M m = Some (B_Map c p x)" "gives_back (f c p x) M K bs"
  shows "gives_back (with_map m f) M (insert m K) bs"
proof -
  have "gives_back (\<lambda>M. map_at m M \<bind> (\<lambda>y. (case y of (c, p, x) \<Rightarrow> f c p x) M)) M (insert m K) bs"
    by (rule gives_back_reads [where x = "(c, p, x)"]) (use assms in \<open>simp_all add: reading\<close>)
  then show ?thesis
    by (rule gives_back_cong) (simp add: with_map_def split_def)
qed

lemma with_size_back:
  assumes "vec_in M v xs vb" "gives_back (f (length xs)) M K bs"
  shows "gives_back (\<lambda>M. getVectorSize_m v M \<bind> (\<lambda>n. int_size n \<bind> (\<lambda>k. f k M))) M (insert v K) bs"
proof -
  have "int_size (length xs) = Some (length xs)"
    using vec_inD(4) [OF assms(1)] by (simp add: int_size_def in_int_def INT_MIN_def INT_MAX_def)
  then have "gives_back (\<lambda>M. int_size (length xs) \<bind> (\<lambda>k. f k M)) M K bs"
    using assms(2) by (intro gives_back_cong [OF assms(2)]) simp
  then show ?thesis
    using vec_inD(5) [OF assms(1)] by (intro gives_back_reads [where f = "\<lambda>n M. int_size n \<bind> (\<lambda>k. f k M)"]) auto
qed

definition free_cities :: "addr \<Rightarrow> nat \<Rightarrow> memory \<Rightarrow> memory option" where
  "free_cities m k = for_all k (\<lambda>i. with_map m (\<lambda>c p x M. getFromVector_m c (int i) M \<bind> (\<lambda>(city, M). freeCity city M \<bind>
     with_map m (\<lambda>c p x M. matrix_at x M \<bind> (\<lambda>rows. arr_get rows i \<bind> (\<lambda>row. free row M))))))"

definition free_products :: "addr \<Rightarrow> nat \<Rightarrow> memory \<Rightarrow> memory option" where
  "free_products m k = for_all k (\<lambda>i. with_map m (\<lambda>c p x M. getFromVector_m p (int i) M \<bind> (\<lambda>(a, M). freeProduct a M)))"

lemma freeMap_steps:
  "freeMap m = with_map m (\<lambda>c p x M. getVectorSize_m c M \<bind> (\<lambda>n. int_size n \<bind> (\<lambda>k. free_cities m k M \<bind>
     with_map m (\<lambda>c p x M. free x M \<bind>
     with_map m (\<lambda>c p x M. getVectorSize_m p M \<bind> (\<lambda>n. int_size n \<bind> (\<lambda>k. free_products m k M \<bind>
     with_map m (\<lambda>c p x M. destroyVector c M \<bind>
     with_map m (\<lambda>c p x M. destroyVector p M \<bind> free m)))))))))"
  by (rule ext) (simp add: freeMap_def with_map_def [abs_def] free_cities_def free_products_def split_def)

lemma free_products_back:
  assumes "mem_blocks M m = Some (B_Map c p x)" "vec_in M p ps pv" "list_all2 (product_in M) ps pbs"
    "distinct (concat pbs @ pv @ [m])"
  shows "gives_back (free_products m (length ps)) M (insert m (set pv)) (concat pbs)"
proof -
  have len: "length pbs = length ps"
    using assms(3) by (simp add: list_all2_lengthD)
  have "gives_back (with_map m (\<lambda>c p x M. getFromVector_m p (int i) M \<bind> (\<lambda>(a, M). freeProduct a M))) M (insert m ({} \<union> set pv)) (pbs ! i)"
    if i: "i < length pbs" for i
  proof -
    have "gives_back (freeProduct (ps ! i)) M {} (pbs ! i)"
      using assms(3) i len by (intro freeProduct_back) (simp add: list_all2_conv_all_nth)
    then have "gives_back (\<lambda>M. getFromVector_m p (int i) M \<bind> (\<lambda>(a, M). freeProduct a M)) M ({} \<union> set pv) (pbs ! i)"
      using i len by (intro gives_back_get [OF assms(2), where f = freeProduct]) simp_all
    then show ?thesis
      by (intro with_map_back [OF assms(1)])
  qed
  then show ?thesis
    unfolding free_products_def using assms(4) len by (intro gives_back_for_all) auto
qed

lemma free_cities_back:
  assumes "mem_blocks M m = Some (B_Map c p x)" "vec_in M c cs cv" "list_all2 (city_in M) cs cbs"
    "mem_blocks M x = Some (B_Matrix (map Some rows))" "length rows = length cs"
    "\<And>r. r \<in> set rows \<Longrightarrow> r \<noteq> NULL \<and> mem_blocks M r \<noteq> None"
    "distinct (concat (map2 (\<lambda>cb r. cb @ [r]) cbs rows) @ [x] @ cv @ [m])"
  shows "gives_back (free_cities m (length cs)) M (insert m (insert x (set cv))) (concat (map2 (\<lambda>cb r. cb @ [r]) cbs rows))"
proof -
  let ?bss = "map2 (\<lambda>cb r. cb @ [r]) cbs rows"
  have len: "length cbs = length cs" "length ?bss = length cs"
    using assms(3,5) by (simp_all add: list_all2_lengthD)
  let ?row = "\<lambda>i. with_map m (\<lambda>c p x M. matrix_at x M \<bind> (\<lambda>rows. arr_get rows i \<bind> (\<lambda>row. free row M)))"
  let ?round = "\<lambda>i. with_map m (\<lambda>c p x M. getFromVector_m c (int i) M \<bind> (\<lambda>(city, M). freeCity city M \<bind> ?row i))"
  have "gives_back (?round i) M (insert m (insert x (set cv))) (?bss ! i)" if "i < length ?bss" for i
  proof -
    have i: "i < length cs"
      using that len by simp
    have bs: "?bss ! i = cbs ! i @ [rows ! i]"
      using i len assms(5) by simp
    have out: "set (cbs ! i) \<inter> {rows ! i, m, x} = {}"
      using distinct_concat_member [OF assms(7) that] unfolding bs by auto
    have "gives_back (\<lambda>M. arr_get (map Some rows) i \<bind> (\<lambda>row. free row M)) M {} [rows ! i]"
      using gives_back_free [of "rows ! i" M] assms(5,6) i by (simp add: arr_get_def)
    then have "gives_back (\<lambda>M. matrix_at x M \<bind> (\<lambda>rows. arr_get rows i \<bind> (\<lambda>row. free row M))) M (insert x {}) [rows ! i]"
      by (intro gives_back_reads [where f = "\<lambda>rows M. arr_get rows i \<bind> (\<lambda>row. free row M)"]) (use assms(4) in \<open>simp_all add: reading\<close>)
    then have row: "gives_back (?row i) M (insert m (insert x {})) [rows ! i]"
      by (intro with_map_back [OF assms(1)])
    have "gives_back (freeCity (cs ! i)) M {} (cbs ! i)"
      using assms(3) i len by (intro freeCity_back) (simp add: list_all2_conv_all_nth)
    then have "gives_back (\<lambda>M. freeCity (cs ! i) M \<bind> ?row i) M ({} \<union> insert m (insert x {})) (cbs ! i @ [rows ! i])"
      by (rule gives_back_seq [OF _ row]) (use out in auto)
    then have "gives_back (\<lambda>M. getFromVector_m c (int i) M \<bind> (\<lambda>(city, M). freeCity city M \<bind> ?row i)) M
        (({} \<union> insert m (insert x {})) \<union> set cv) (cbs ! i @ [rows ! i])"
      by (intro gives_back_get [OF assms(2) i, where f = "\<lambda>city M. freeCity city M \<bind> ?row i"])
    then have "gives_back (?round i) M (insert m (({} \<union> insert m (insert x {})) \<union> set cv)) (cbs ! i @ [rows ! i])"
      by (intro with_map_back [OF assms(1)])
    then show ?thesis
      unfolding bs by (rule gives_back_own) auto
  qed
  then show ?thesis
    unfolding free_cities_def using assms(7) len by (intro gives_back_for_all) auto
qed

lemma distinct_pick: "distinct (as @ bs @ cs @ ds @ es @ fs) \<Longrightarrow> distinct (as @ bs @ ds @ fs)"
  by auto

lemma freeMap_back:
  assumes "map_in M m bs"
  shows "gives_back (freeMap m) M {} bs"
proof -
  obtain cities product matrix cs cv cbs ps pv pbs rows where m: "m \<noteq> NULL"
    "mem_blocks M m = Some (B_Map cities product matrix)" "vec_in M cities cs cv" "list_all2 (city_in M) cs cbs"
    "vec_in M product ps pv" "list_all2 (product_in M) ps pbs" "matrix \<noteq> NULL" "mem_blocks M matrix = Some (B_Matrix (map Some rows))"
    "length rows = length cs" "\<forall>r\<in>set rows. r \<noteq> NULL \<and> mem_blocks M r \<noteq> None"
    "bs = concat (map2 (\<lambda>cb r. cb @ [r]) cbs rows) @ [matrix] @ concat pbs @ cv @ pv @ [m]" "distinct bs"
    using assms unfolding map_in_def by blast
  let ?cb = "concat (map2 (\<lambda>cb r. cb @ [r]) cbs rows)"
  note v = vec_inD(2) [OF m(3)] vec_inD(2) [OF m(5)]
  have d: "distinct (?cb @ [matrix] @ concat pbs @ cv @ pv @ [m])"
    using m(11,12) by simp
  have "gives_back (free m) M {} [m]"
    using m(1,2) by (intro gives_back_free) auto
  then have "gives_back (\<lambda>M. destroyVector product M \<bind> free m) M ({} \<union> {}) (pv @ [m])"
    by (rule gives_back_seq [OF destroyVector_back [OF m(5)]]) (use d in auto)
  from with_map_back [OF m(2), of "\<lambda>c p x M. destroyVector p M \<bind> free m", OF this]
  have "gives_back (\<lambda>M. destroyVector cities M \<bind> with_map m (\<lambda>c p x M. destroyVector p M \<bind> free m)) M ({} \<union> (insert m ({} \<union> {}))) (cv @ pv @ [m])"
    by (rule gives_back_seq [OF destroyVector_back [OF m(3)]]) (use d in auto)
  from with_map_back [OF m(2), of "\<lambda>c p x M. destroyVector c M \<bind> with_map m (\<lambda>c p x M. destroyVector p M \<bind> free m)", OF this]
  have e1: "gives_back (with_map m (\<lambda>c p x M. destroyVector c M \<bind> with_map m (\<lambda>c p x M. destroyVector p M \<bind> free m))) M {} (cv @ pv @ [m])"
    (is "gives_back ?e1 M {} _")
    by (rule gives_back_own) auto
  have "gives_back (free_products m (length ps)) M (insert m (set pv)) (concat pbs)"
    by (rule free_products_back [OF m(2,5,6)]) (use d in auto)
  from gives_back_seq [OF this e1] have "gives_back (\<lambda>M. free_products m (length ps) M \<bind> ?e1) M (insert m (set pv) \<union> {}) (concat pbs @ cv @ pv @ [m])"
    using d by auto
  from with_size_back [OF m(5), of "\<lambda>k M. free_products m k M \<bind> ?e1", OF this]
  have "gives_back (\<lambda>M. getVectorSize_m product M \<bind> (\<lambda>n. int_size n \<bind> (\<lambda>k. free_products m k M \<bind> ?e1))) M {} (concat pbs @ cv @ pv @ [m])"
    by (rule gives_back_own) (use v in auto)
  from with_map_back [OF m(2), of "\<lambda>c p x M. getVectorSize_m p M \<bind> (\<lambda>n. int_size n \<bind> (\<lambda>k. free_products m k M \<bind> ?e1))", OF this]
  have e2: "gives_back (with_map m (\<lambda>c p x M. getVectorSize_m p M \<bind> (\<lambda>n. int_size n \<bind> (\<lambda>k. free_products m k M \<bind> ?e1)))) M {} (concat pbs @ cv @ pv @ [m])"
    (is "gives_back ?e2 M {} _")
    by (rule gives_back_own) auto
  have "gives_back (free matrix) M {} [matrix]"
    using m(7,8) by (intro gives_back_free) auto
  from gives_back_seq [OF this e2] have "gives_back (\<lambda>M. free matrix M \<bind> ?e2) M ({} \<union> {}) ([matrix] @ concat pbs @ cv @ pv @ [m])"
    using d by auto
  from with_map_back [OF m(2), of "\<lambda>c p x M. free x M \<bind> ?e2", OF this]
  have e3: "gives_back (with_map m (\<lambda>c p x M. free x M \<bind> ?e2)) M {} ([matrix] @ concat pbs @ cv @ pv @ [m])"
    (is "gives_back ?e3 M {} _")
    by (rule gives_back_own) auto
  have "gives_back (free_cities m (length cs)) M (insert m (insert matrix (set cv))) ?cb"
    using m(10) distinct_pick [OF d] by (intro free_cities_back [OF m(2-4,8,9)]) blast+
  from gives_back_seq [OF this e3] have "gives_back (\<lambda>M. free_cities m (length cs) M \<bind> ?e3) M (insert m (insert matrix (set cv)) \<union> {})
      (?cb @ [matrix] @ concat pbs @ cv @ pv @ [m])"
    using d by auto
  from with_size_back [OF m(3), of "\<lambda>k M. free_cities m k M \<bind> ?e3", OF this]
  have "gives_back (\<lambda>M. getVectorSize_m cities M \<bind> (\<lambda>n. int_size n \<bind> (\<lambda>k. free_cities m k M \<bind> ?e3))) M {} bs"
    unfolding m(11) by (rule gives_back_own) (use v in auto)
  from with_map_back [OF m(2), of "\<lambda>c p x M. getVectorSize_m c M \<bind> (\<lambda>n. int_size n \<bind> (\<lambda>k. free_cities m k M \<bind> ?e3))", OF this]
  have "gives_back (freeMap m) M (insert m {}) bs"
    by (simp only: freeMap_steps)
  then show ?thesis
    by (rule gives_back_own) (simp add: m(11))
qed

end
