(* ===== verification/Process_Ends.thy ===== *)
theory Process_Ends
  imports Free_Functions Map_Process
begin

text \<open>
  How the processes end: \<open>main\<close> waits for its children and gives back the airlines, the connections, the
  vectors and the map; a child gives back its threads, its connection, and its copies of the map and
  of all airlines.
\<close>

section \<open>Waiting for the children\<close>

text \<open>
  The results of the calls of \<open>wait\<close>: interrupted by a signal, a child that ended (0) or was killed by
  a signal, or a failure, after which \<open>status\<close> has no value.
\<close>

datatype wait_result = Interrupted | Child int | No_Child

fun wait_child :: "wait_result list \<Rightarrow> (int option \<times> wait_result list) outcome" where
  "wait_child [] = Blocks"
| "wait_child (Interrupted # ws) = wait_child ws"
| "wait_child (Child s # ws) = Returns (Some s, ws)"
| "wait_child (No_Child # ws) = Returns (None, ws)"

text \<open>The signals that killed children are logged.\<close>

fun wait_children :: "nat \<Rightarrow> wait_result list \<Rightarrow> int list outcome" where
  "wait_children 0 ws = Returns []"
| "wait_children (Suc n) ws =
     then_do (wait_child ws) (\<lambda>(status, ws).
       case status of
         None \<Rightarrow> Faults
       | Some s \<Rightarrow> then_do (wait_children n ws) (\<lambda>deaths. Returns (if s \<noteq> 0 then s # deaths else deaths)))"

definition ended_children :: "wait_result list \<Rightarrow> int list" where
  "ended_children ws = concat (map (\<lambda>w. case w of Child s \<Rightarrow> [s] | _ \<Rightarrow> []) ws)"

lemma ended_children_simps [simp]:
  "ended_children [] = []" "ended_children (Interrupted # ws) = ended_children ws" "ended_children (Child s # ws) = s # ended_children ws"
  by (simp_all add: ended_children_def)

lemma wait_child_result:
  "No_Child \<notin> set ws \<Longrightarrow>
    (case wait_child ws of
       Returns (Some s, ws') \<Rightarrow> ended_children ws = s # ended_children ws' \<and> No_Child \<notin> set ws'
     | Returns (None, _) \<Rightarrow> False | Faults \<Rightarrow> False | Blocks \<Rightarrow> ended_children ws = [])"
  by (induction ws rule: wait_child.induct) (auto split: outcome.splits option.splits)

lemma wait_children_result:
  "No_Child \<notin> set ws \<Longrightarrow>
    wait_children n ws = (if n \<le> length (ended_children ws) then Returns (filter (\<lambda>s. s \<noteq> 0) (take n (ended_children ws))) else Blocks)"
proof (induction n arbitrary: ws)
  case (Suc n)
  have r: "case wait_child ws of
       Returns (Some s, ws') \<Rightarrow> ended_children ws = s # ended_children ws' \<and> No_Child \<notin> set ws'
     | Returns (None, _) \<Rightarrow> False | Faults \<Rightarrow> False | Blocks \<Rightarrow> ended_children ws = []"
    by (rule wait_child_result [OF Suc.prems])
  show ?case
  proof (cases "wait_child ws")
    case (Returns x)
    then obtain s ws' where x: "x = (Some s, ws')" "ended_children ws = s # ended_children ws'" "No_Child \<notin> set ws'"
      using r by (cases x) (auto split: option.splits)
    then show ?thesis
      using Suc.IH [OF x(3)] Returns by simp
  qed (use r in simp_all)
qed simp

section \<open>Giving everything back\<close>

text \<open>\<open>ipc_close\<close> is that of the IPC implementation the program was built with.\<close>

definition parent_frees :: "(addr \<Rightarrow> memory \<Rightarrow> memory option) \<Rightarrow> nat \<Rightarrow> addr \<Rightarrow> addr \<Rightarrow> addr \<Rightarrow> memory \<Rightarrow> memory option" where
  "parent_frees ipc_close numAirlines airlines conns m M = do {
     M \<leftarrow> for_all numAirlines (\<lambda>i M. do {
         (airline, M) \<leftarrow> getFromVector_m airlines (int i) M;
         M \<leftarrow> freeAirline_m airline M;
         (conn, M) \<leftarrow> getFromVector_m conns (int i) M;
         ipc_close conn M
       }) M;
     M \<leftarrow> destroyVector conns M;
     M \<leftarrow> destroyVector airlines M;
     freeMap m M
   }"

definition child_frees :: "(addr \<Rightarrow> memory \<Rightarrow> memory option) \<Rightarrow> nat \<Rightarrow> addr \<Rightarrow> addr \<Rightarrow> addr \<Rightarrow> memory \<Rightarrow> memory option" where
  "child_frees ipc_close n airlines conn m M = do {
     M \<leftarrow> ipc_close conn M;
     M \<leftarrow> freeMap m M;
     M \<leftarrow> for_all n (\<lambda>j M. do {
         (airline, M) \<leftarrow> getFromVector_m airlines (int j) M;
         freeAirline_m airline M
       }) M;
     destroyVector airlines M
   }"

text \<open>The end of \<open>run_airline\<close>, after each thread was joined.\<close>

definition threads_free :: "nat \<Rightarrow> addr \<Rightarrow> memory \<Rightarrow> memory option" where
  "threads_free n threads M = do {
     M \<leftarrow> for_all n (\<lambda>i M. do {
         (t, M) \<leftarrow> getFromVector_m threads (int i) M;
         queue \<leftarrow> thread_at t M;
         M \<leftarrow> message_queue_destroy_m queue M;
         free t M
       }) M;
     destroyVector threads M
   }"

definition main_end :: "(addr \<Rightarrow> memory \<Rightarrow> memory option) \<Rightarrow> wait_result list \<Rightarrow> nat \<Rightarrow> addr \<Rightarrow> addr \<Rightarrow> addr \<Rightarrow> memory \<Rightarrow>
  (int list \<times> memory) outcome" where
  "main_end ipc_close waits numAirlines airlines conns m M =
     then_do (wait_children numAirlines waits) (\<lambda>deaths.
     then_do (or_fault (parent_frees ipc_close numAirlines airlines conns m M)) (\<lambda>M.
     Returns (deaths, M)))"

definition child_end :: "(addr \<Rightarrow> memory \<Rightarrow> memory option) \<Rightarrow> nat \<Rightarrow> addr \<Rightarrow> nat \<Rightarrow> addr \<Rightarrow> addr \<Rightarrow> addr \<Rightarrow> memory \<Rightarrow> memory option" where
  "child_end ipc_close numberOfPlanes threads n airlines conn m M = do {
     M \<leftarrow> threads_free numberOfPlanes threads M;
     child_frees ipc_close n airlines conn m M
   }"

section \<open>What the processes hold\<close>

definition airlines_in :: "memory \<Rightarrow> addr \<Rightarrow> addr list list \<Rightarrow> addr list \<Rightarrow> bool" where
  "airlines_in M v abss vb \<longleftrightarrow> (\<exists>as. vec_in M v as vb \<and> list_all2 (airline_in M) as abss)"

definition conn_in :: "memory \<Rightarrow> addr \<Rightarrow> bool" where
  "conn_in M c \<longleftrightarrow> c \<noteq> NULL \<and> (\<exists>fd. mem_blocks M c = Some (B_Conn fd))"

definition thread_in :: "memory \<Rightarrow> addr \<Rightarrow> addr list \<Rightarrow> bool" where
  "thread_in M t bs \<longleftrightarrow> t \<noteq> NULL \<and> (\<exists>q. mem_blocks M t = Some (B_Thread q) \<and> q \<noteq> NULL \<and> q \<noteq> t \<and> mem_blocks M q = Some B_Queue \<and> bs = [q, t])"

lemma threads_back:
  assumes "vec_in M threads ts vb" "list_all2 (thread_in M) ts bss" "distinct (concat bss @ vb)"
  shows "gives_back (threads_free (length ts) threads) M {} (concat bss @ vb)"
proof -
  have len: "length bss = length ts"
    using assms(2) by (simp add: list_all2_lengthD)
  let ?f = "\<lambda>t M. thread_at t M \<bind> (\<lambda>q. message_queue_destroy_m q M \<bind> free t)"
  have one: "gives_back (?f t) M {} bs" if t: "thread_in M t bs" for t bs
  proof -
    obtain q where q: "t \<noteq> NULL" "mem_blocks M t = Some (B_Thread q)" "q \<noteq> NULL" "q \<noteq> t" "mem_blocks M q = Some B_Queue" "bs = [q, t]"
      using t by (auto simp: thread_in_def)
    have "gives_back (message_queue_destroy_m q) M {} [q]"
      using q by (auto simp: gives_back_def message_queue_destroy_m_def free_def without_def)
    moreover have "gives_back (free t) M {} [t]"
      using q by (intro gives_back_free) auto
    ultimately have "gives_back (\<lambda>M. message_queue_destroy_m q M \<bind> free t) M ({} \<union> {}) ([q] @ [t])"
      using q(4) by (intro gives_back_seq) auto
    then have "gives_back (\<lambda>M. thread_at t M \<bind> (\<lambda>q. (\<lambda>M. message_queue_destroy_m q M \<bind> free t) M)) M (insert t ({} \<union> {})) [q, t]"
      using q(2) by (intro gives_back_reads) (simp_all add: reading)
    then show ?thesis
      unfolding q(6) by (rule gives_back_own) auto
  qed
  have "gives_back (\<lambda>M. getFromVector_m threads (int i) M \<bind> (\<lambda>(t, M). ?f t M)) M ({} \<union> set vb) (bss ! i)" if "i < length bss" for i
    using that len assms(2) by (intro gives_back_get [OF assms(1), where f = ?f] one) (simp_all add: list_all2_conv_all_nth)
  then have "gives_back (for_all (length ts) (\<lambda>i M. getFromVector_m threads (int i) M \<bind> (\<lambda>(t, M). ?f t M))) M (set vb) (concat bss)"
    using assms(3) len by (intro gives_back_for_all) auto
  from gives_back_seq [OF this destroyVector_back [OF assms(1)]] assms(3)
  have "gives_back (\<lambda>M. for_all (length ts) (\<lambda>i M. getFromVector_m threads (int i) M \<bind> (\<lambda>(t, M). ?f t M)) M \<bind> destroyVector threads) M
      (set vb \<union> {}) (concat bss @ vb)"
    by auto
  then have "gives_back (threads_free (length ts) threads) M (set vb \<union> {}) (concat bss @ vb)"
    by (rule gives_back_cong) (simp add: threads_free_def)
  then show ?thesis
    by (rule gives_back_own) auto
qed

text \<open>What the ends need of \<open>ipc_close\<close>: it gives back the block of the connection.\<close>

locale connection_closer =
  fixes close :: "addr \<Rightarrow> memory \<Rightarrow> memory option"
  assumes closes: "conn_in M c \<Longrightarrow> gives_back (close c) M {} [c]"
begin

lemma parent_back:
  assumes "airlines_in M airlines abss av" "vec_in M conns ks kv" "list_all (conn_in M) ks" "length ks = length abss" "map_in M m mb"
    and "distinct (concat (map2 (\<lambda>ab k. ab @ [k]) abss ks) @ kv @ av @ mb)"
  shows "gives_back (parent_frees close (length abss) airlines conns m) M {} (concat (map2 (\<lambda>ab k. ab @ [k]) abss ks) @ kv @ av @ mb)"
proof -
  obtain as where as: "vec_in M airlines as av" "list_all2 (airline_in M) as abss"
    using assms(1) by (auto simp: airlines_in_def)
  let ?bss = "map2 (\<lambda>ab k. ab @ [k]) abss ks"
  have len: "length as = length abss" "length ?bss = length abss"
    using as(2) assms(4) by (simp_all add: list_all2_lengthD)
  let ?close = "\<lambda>i M. getFromVector_m conns (int i) M \<bind> (\<lambda>(conn, M). close conn M)"
  let ?round = "\<lambda>i M. getFromVector_m airlines (int i) M \<bind> (\<lambda>(a, M). freeAirline_m a M \<bind> ?close i)"
  have "gives_back (?round i) M (set av \<union> set kv) (?bss ! i)" if "i < length ?bss" for i
  proof -
    have i: "i < length as" "i < length abss" "i < length ks"
      using that len assms(4) by simp_all
    have bs: "?bss ! i = abss ! i @ [ks ! i]"
      using i by simp
    have d: "distinct (abss ! i @ [ks ! i])" "set (abss ! i @ [ks ! i]) \<inter> set (kv @ av @ mb) = {}"
      using distinct_concat_member [OF assms(6) that] unfolding bs by simp_all
    have "gives_back (close (ks ! i)) M {} [ks ! i]"
      using assms(3) i(3) by (intro closes) (simp add: list_all_length)
    then have c: "gives_back (?close i) M ({} \<union> set kv) [ks ! i]"
      by (rule gives_back_get [OF assms(2) i(3), where f = close])
    have "gives_back (freeAirline_m (as ! i)) M {} (abss ! i)"
      using as(2) i by (intro freeAirline_back) (simp add: list_all2_conv_all_nth)
    from gives_back_seq [OF this c] d
    have "gives_back (\<lambda>M. freeAirline_m (as ! i) M \<bind> ?close i) M ({} \<union> ({} \<union> set kv)) (abss ! i @ [ks ! i])"
      by auto
    from gives_back_get [OF as(1) i(1), where f = "\<lambda>a M. freeAirline_m a M \<bind> ?close i", OF this]
    show ?thesis
      unfolding bs by (rule gives_back_own) auto
  qed
  then have loop: "gives_back (for_all (length abss) ?round) M (set av \<union> set kv) (concat ?bss)"
    by (rule gives_back_for_all [OF _ conjunct2 [OF distinct_apart [OF assms(6)]] conjunct1 [OF distinct_apart [OF assms(6)]]
          len(2) [symmetric]])
  note d1 = distinct_suffix [OF assms(6)]
  note d2 = distinct_suffix [OF d1]
  have "gives_back (\<lambda>M. destroyVector airlines M \<bind> freeMap m) M {} (av @ mb)"
    by (rule gives_back_then [OF destroyVector_back [OF as(1)] freeMap_back [OF assms(5)] d2])
  from gives_back_then [OF destroyVector_back [OF assms(2)] this d1]
  have "gives_back (\<lambda>M. destroyVector conns M \<bind> (\<lambda>M. destroyVector airlines M \<bind> freeMap m)) M {} (kv @ av @ mb)" .
  from gives_back_then [OF loop this assms(6)]
  have "gives_back (parent_frees close (length abss) airlines conns m) M (set av \<union> set kv) (concat ?bss @ kv @ av @ mb)"
    by (rule gives_back_cong) (simp add: parent_frees_def)
  then show ?thesis
    by (rule gives_back_own) auto
qed

lemma child_back:
  assumes "vec_in M threads ts tv" "list_all2 (thread_in M) ts tbs" "conn_in M conn" "map_in M m mb" "airlines_in M airlines abss av"
    and "distinct ((concat tbs @ tv) @ ([conn] @ mb) @ concat abss @ av)"
  shows "gives_back (child_end close (length ts) threads (length abss) airlines conn m) M {} ((concat tbs @ tv) @ ([conn] @ mb) @ concat abss @ av)"
proof -
  obtain as where as: "vec_in M airlines as av" "list_all2 (airline_in M) as abss"
    using assms(5) by (auto simp: airlines_in_def)
  have len: "length as = length abss"
    using as(2) by (simp add: list_all2_lengthD)
  note d1 = distinct_suffix [OF assms(6)]
  note d2 = distinct_suffix [OF d1]
  have d: "distinct (concat tbs @ tv)" "distinct (mb @ concat abss @ av)" "distinct ([conn] @ mb @ concat abss @ av)"
    "distinct ((concat tbs @ tv) @ [conn] @ mb @ concat abss @ av)"
    using distinct_prefix [OF assms(6)] distinct_suffix [of "[conn]"] d1 assms(6) by (simp_all only: append_assoc)
  let ?round = "\<lambda>i M. getFromVector_m airlines (int i) M \<bind> (\<lambda>(a, M). freeAirline_m a M)"
  have "gives_back (?round i) M ({} \<union> set av) (abss ! i)" if "i < length abss" for i
    using that as(2) len by (intro gives_back_get [OF as(1), where f = freeAirline_m] freeAirline_back) (simp_all add: list_all2_conv_all_nth)
  then have loop: "gives_back (for_all (length abss) ?round) M (set av) (concat abss)"
    using d2 unfolding distinct_append by (intro gives_back_for_all) auto
  from gives_back_then [OF loop destroyVector_back [OF as(1)] d2]
  have "gives_back (\<lambda>M. for_all (length abss) ?round M \<bind> destroyVector airlines) M {} (concat abss @ av)"
    by (rule gives_back_own) auto
  from gives_back_then [OF freeMap_back [OF assms(4)] this d(2)]
  have "gives_back (\<lambda>M. freeMap m M \<bind> (\<lambda>M. for_all (length abss) ?round M \<bind> destroyVector airlines)) M {} (mb @ concat abss @ av)" .
  from gives_back_then [OF closes [OF assms(3)] this d(3)]
  have "gives_back (child_frees close (length abss) airlines conn m) M {} ([conn] @ mb @ concat abss @ av)"
    by (rule gives_back_cong) (simp add: child_frees_def)
  from gives_back_then [OF threads_back [OF assms(1,2) d(1)] this d(4)]
  have "gives_back (child_end close (length ts) threads (length abss) airlines conn m) M {}
      ((concat tbs @ tv) @ [conn] @ mb @ concat abss @ av)"
    by (rule gives_back_cong) (simp add: child_end_def)
  then show ?thesis
    by simp
qed

end

text \<open>The three implementations whose \<open>ipc_close\<close> only gives back the connection.\<close>

interpretation socket_closer: connection_closer ipc_close_socket
  by unfold_locales (auto simp: gives_back_def conn_in_def ipc_close_socket_def free_def without_def reading)

interpretation fifo_closer: connection_closer ipc_close_fifo
  by unfold_locales (auto simp: gives_back_def conn_in_def ipc_close_fifo_def close_fd_def free_def without_def reading)

interpretation mqueue_closer: connection_closer ipc_close_mqueue
  by unfold_locales (auto simp: gives_back_def conn_in_def ipc_close_mqueue_def close_fd_def free_def without_def reading)

end
