(* ===== verification/Properties_Memory.thy ===== *)
theory Properties_Memory
  imports Process_Ends
begin

text \<open>
  Memory at the end of the processes: whatever was allocated for the simulation is given back, once.
\<close>

section \<open>A small memory\<close>

text \<open>One product, one city, one airline with one plane, one connection, one thread.\<close>

definition sample_memory :: memory where
  "sample_memory = \<lparr>mem_blocks = map_of
     [(1, B_Name ''agua''), (2, B_Product 0 1), (3, B_Cells (arr_of 5 [2])), (4, B_Vector 3 1 False),
      (5, B_Name ''Lima''), (6, B_Stock 7 2), (7, B_Cells (arr_of 5 [6])), (8, B_Vector 7 1 False), (9, B_City 5 0 8),
      (10, B_Cells (arr_of 5 [9])), (11, B_Vector 10 1 False), (12, B_Row [0]), (13, B_Matrix [Some 12]), (14, B_Map 11 4 13),
      (15, B_Stock 3 2), (16, B_Cells (arr_of 5 [15])), (17, B_Vector 16 1 False), (18, B_Planes [17]), (19, B_Airline 0 1 18),
      (20, B_Cells (arr_of 5 [19])), (21, B_Vector 20 1 False),
      (22, B_Conn 5), (23, B_Cells (arr_of 5 [22])), (24, B_Vector 23 1 False),
      (25, B_Queue), (26, B_Thread 25), (27, B_Cells (arr_of 5 [26])), (28, B_Vector 27 1 False)],
     mem_next = 29, mem_fds = [5]\<rparr>"

lemma sample_at [simp]:
  "mem_blocks sample_memory (Suc 0) = Some (B_Name ''agua'')" "mem_blocks sample_memory 2 = Some (B_Product 0 1)"
  "mem_blocks sample_memory 3 = Some (B_Cells (arr_of 5 [2]))" "mem_blocks sample_memory 4 = Some (B_Vector 3 1 False)"
  "mem_blocks sample_memory 5 = Some (B_Name ''Lima'')" "mem_blocks sample_memory 6 = Some (B_Stock 7 2)"
  "mem_blocks sample_memory 7 = Some (B_Cells (arr_of 5 [6]))" "mem_blocks sample_memory 8 = Some (B_Vector 7 1 False)"
  "mem_blocks sample_memory 9 = Some (B_City 5 0 8)" "mem_blocks sample_memory 10 = Some (B_Cells (arr_of 5 [9]))"
  "mem_blocks sample_memory 11 = Some (B_Vector 10 1 False)" "mem_blocks sample_memory 12 = Some (B_Row [0])"
  "mem_blocks sample_memory 13 = Some (B_Matrix [Some 12])" "mem_blocks sample_memory 14 = Some (B_Map 11 4 13)"
  "mem_blocks sample_memory 15 = Some (B_Stock 3 2)" "mem_blocks sample_memory 16 = Some (B_Cells (arr_of 5 [15]))"
  "mem_blocks sample_memory 17 = Some (B_Vector 16 1 False)" "mem_blocks sample_memory 18 = Some (B_Planes [17])"
  "mem_blocks sample_memory 19 = Some (B_Airline 0 1 18)" "mem_blocks sample_memory 20 = Some (B_Cells (arr_of 5 [19]))"
  "mem_blocks sample_memory 21 = Some (B_Vector 20 1 False)" "mem_blocks sample_memory 22 = Some (B_Conn 5)"
  "mem_blocks sample_memory 23 = Some (B_Cells (arr_of 5 [22]))" "mem_blocks sample_memory 24 = Some (B_Vector 23 1 False)"
  "mem_blocks sample_memory 25 = Some B_Queue" "mem_blocks sample_memory 26 = Some (B_Thread 25)"
  "mem_blocks sample_memory 27 = Some (B_Cells (arr_of 5 [26]))" "mem_blocks sample_memory 28 = Some (B_Vector 27 1 False)"
  by (simp_all add: sample_memory_def)

lemma vec_of_one:
  "mem_blocks M v = Some (B_Vector p 1 False) \<Longrightarrow> mem_blocks M p = Some (B_Cells (arr_of 5 [x])) \<Longrightarrow> v \<noteq> NULL \<Longrightarrow> p \<noteq> NULL \<Longrightarrow> p \<noteq> v \<Longrightarrow>
    vec_in M v [x] [p, v]"
  unfolding vec_in_def by (intro conjI exI [of _ p]) (auto intro: exI [of _ 5])

lemma sample_vec_in:
  "vec_in sample_memory 4 [2] [3, 4]" "vec_in sample_memory 8 [6] [7, 8]" "vec_in sample_memory 11 [9] [10, 11]"
  "vec_in sample_memory 17 [15] [16, 17]" "vec_in sample_memory 21 [19] [20, 21]" "vec_in sample_memory 24 [22] [23, 24]"
  "vec_in sample_memory 28 [26] [27, 28]"
  by (rule vec_of_one, simp_all)+

lemma sample_stocks_in: "stocks_in sample_memory 8 [6, 7, 8]" "stocks_in sample_memory 17 [15, 16, 17]"
  unfolding stocks_in_def
  by (rule exI [of _ "[6]"] exI [of _ "[15]"], rule exI [of _ "[7, 8]"] exI [of _ "[16, 17]"], simp add: sample_vec_in)+

lemma sample_airlines_in: "airlines_in sample_memory 21 [[15, 16, 17, 18, 19]] [20, 21]"
proof -
  have "airline_in sample_memory 19 [15, 16, 17, 18, 19]"
    unfolding airline_in_def
    by (intro conjI exI [of _ 0] exI [of _ 18] exI [of _ "[17]"] exI [of _ "[[15, 16, 17]]"]) (simp_all add: sample_stocks_in)
  then show ?thesis
    using sample_vec_in(5) by (auto simp: airlines_in_def)
qed

lemma sample_map_in: "map_in sample_memory 14 [6, 7, 8, 5, 9, 12, 13, 1, 2, 10, 11, 3, 4, 14]"
proof -
  have c: "city_in sample_memory 9 [6, 7, 8, 5, 9]"
    unfolding city_in_def
    by (intro conjI exI [of _ 5] exI [of _ 0] exI [of _ 8] exI [of _ "[6, 7, 8]"]) (simp_all add: sample_stocks_in)
  have p: "product_in sample_memory 2 [1, 2]"
    unfolding product_in_def
    by (rule conjI, simp, rule exI [of _ 0], rule exI [of _ 1], rule exI [of _ "''agua''"]) simp
  show ?thesis
    unfolding map_in_def
    by (rule conjI, simp, rule exI [of _ 11], rule exI [of _ 4], rule exI [of _ 13], rule exI [of _ "[9]"], rule exI [of _ "[10, 11]"],
        rule exI [of _ "[[6, 7, 8, 5, 9]]"], rule exI [of _ "[2]"], rule exI [of _ "[3, 4]"], rule exI [of _ "[[1, 2]]"],
        rule exI [of _ "[12]"]) (use p in \<open>simp add: c sample_vec_in\<close>)
qed

section \<open>The end of main\<close>

text \<open>
  C8. The end of \<open>main\<close>. When its children have ended, \<open>main\<close> gives back every block of the airlines, the
  connections, the map and the vectors that hold them, each of them once, and no other block; the
  signals that killed children are logged. It waits for ever only when too few children end.
\<close>

theorem main_end_gives_back:
  assumes "airlines_in M airlines abss av" "vec_in M conns ks kv" "list_all (conn_in M) ks" "length ks = length abss" "map_in M m mb"
    and "distinct (concat (map2 (\<lambda>ab k. ab @ [k]) abss ks) @ kv @ av @ mb)"
    and "ipc_close \<in> {ipc_close_socket, ipc_close_fifo, ipc_close_mqueue}" "No_Child \<notin> set waits"
  shows "case main_end ipc_close waits (length abss) airlines conns m M of
      Faults \<Rightarrow> False
    | Blocks \<Rightarrow> length (ended_children waits) < length abss
    | Returns (deaths, M') \<Rightarrow> deaths = filter (\<lambda>s. s \<noteq> 0) (take (length abss) (ended_children waits)) \<and>
        without M (concat (map2 (\<lambda>ab k. ab @ [k]) abss ks) @ kv @ av @ mb) M'"
proof -
  have "gives_back (parent_frees ipc_close (length abss) airlines conns m) M {} (concat (map2 (\<lambda>ab k. ab @ [k]) abss ks) @ kv @ av @ mb)"
    using assms(7) socket_closer.parent_back [OF assms(1-6)] fifo_closer.parent_back [OF assms(1-6)] mqueue_closer.parent_back [OF assms(1-6)]
    by auto
  then obtain M' where "parent_frees ipc_close (length abss) airlines conns m M = Some M'"
    "without M (concat (map2 (\<lambda>ab k. ab @ [k]) abss ks) @ kv @ av @ mb) M'"
    using gives_backD [OF _ without_refl] by force
  then show ?thesis
    by (simp add: main_end_def wait_children_result [OF assms(8)])
qed

theorem main_end_gives_back_witness:
  "\<exists>M'. main_end ipc_close_fifo [Interrupted, Child 9] 1 21 24 14 sample_memory = Returns ([9], M') \<and> mem_blocks M' 14 = None \<and>
    mem_blocks M' 26 = Some (B_Thread 25)"
proof -
  have "list_all (conn_in sample_memory) [22]"
    by (simp add: conn_in_def sample_memory_def)
  from main_end_gives_back [OF sample_airlines_in sample_vec_in(6) this _ sample_map_in, of ipc_close_fifo "[Interrupted, Child 9]"]
  have "case main_end ipc_close_fifo [Interrupted, Child 9] 1 21 24 14 sample_memory of
      Faults \<Rightarrow> False | Blocks \<Rightarrow> False
    | Returns (deaths, M') \<Rightarrow> deaths = [9] \<and> mem_blocks M' 14 = None \<and> mem_blocks M' 26 = mem_blocks sample_memory 26"
    by (auto simp: without_def split: outcome.splits)
  then show ?thesis
    by (auto split: outcome.splits)
qed

section \<open>The end of a child\<close>

text \<open>
  C9. The end of an airline process: after its threads are joined, it gives back their queues and
  blocks, its connection, and its whole copy of the map and of all airlines, each block
  once, and no other block.
\<close>

theorem child_end_gives_back:
  assumes "vec_in M threads ts tv" "list_all2 (thread_in M) ts tbs" "conn_in M conn" "map_in M m mb" "airlines_in M airlines abss av"
    and "distinct ((concat tbs @ tv) @ ([conn] @ mb) @ concat abss @ av)"
    and "ipc_close \<in> {ipc_close_socket, ipc_close_fifo, ipc_close_mqueue}"
  shows "\<exists>M'. child_end ipc_close (length ts) threads (length abss) airlines conn m M = Some M' \<and>
    without M ((concat tbs @ tv) @ ([conn] @ mb) @ concat abss @ av) M'"
proof -
  have "gives_back (child_end ipc_close (length ts) threads (length abss) airlines conn m) M {} ((concat tbs @ tv) @ ([conn] @ mb) @ concat abss @ av)"
    using assms(7) socket_closer.child_back [OF assms(1-6)] fifo_closer.child_back [OF assms(1-6)] mqueue_closer.child_back [OF assms(1-6)]
    by auto
  from gives_backD [OF this without_refl] show ?thesis
    by simp
qed

theorem child_end_gives_back_witness:
  "\<exists>M'. child_end ipc_close_socket 1 28 1 21 22 14 sample_memory = Some M' \<and> mem_blocks M' 25 = None \<and>
    mem_blocks M' 24 = Some (B_Vector 23 1 False)"
proof -
  have c: "conn_in sample_memory 22" and t: "list_all2 (thread_in sample_memory) [26] [[25, 26]]"
    by (simp_all add: conn_in_def thread_in_def)
  from child_end_gives_back [OF sample_vec_in(7) t c sample_map_in sample_airlines_in, of ipc_close_socket]
  show ?thesis
    by (fastforce simp: without_def)
qed

end
