(* ===== verification/Memory_Views.thy ===== *)
theory Memory_Views
  imports Free_Functions Map_Process
begin

text \<open>
  How the data of the other theories lie in memory. The values there (stocks, vectors of stocks,
  cities, the map) are views of blocks that point to each other; the functions on pointers
  implement the functions on values when every result of the latter is a view of what the
  former leaves in memory. First the rules for such proofs, then the views, then what
  happens to them when the amount of a stock is changed through a pointer.
\<close>

section \<open>Implementations\<close>

definition implements :: "('a \<Rightarrow> 'b \<Rightarrow> bool) \<Rightarrow> 'a option \<Rightarrow> 'b option \<Rightarrow> bool" where
  "implements R f g \<longleftrightarrow> (\<forall>y. g = Some y \<longrightarrow> (\<exists>x. f = Some x \<and> R x y))"

lemma implementsI: "(\<And>y. g = Some y \<Longrightarrow> \<exists>x. f = Some x \<and> R x y) \<Longrightarrow> implements R f g"
  by (simp add: implements_def)

lemma implementsD: "implements R f g \<Longrightarrow> g = Some y \<Longrightarrow> \<exists>x. f = Some x \<and> R x y"
  by (simp add: implements_def)

lemma implements_simps [simp]:
  "implements R f None" "implements R (Some x) (Some y) \<longleftrightarrow> R x y" "\<not> implements R None (Some y)"
  by (simp_all add: implements_def)

lemma implements_bind:
  assumes "implements R f g" "\<And>x y. R x y \<Longrightarrow> f = Some x \<Longrightarrow> g = Some y \<Longrightarrow> implements S (h x) (k y)"
  shows "implements S (f \<bind> h) (g \<bind> k)"
proof (cases g)
  case (Some y)
  then obtain x where x: "f = Some x" "R x y"
    using implementsD [OF assms(1)] by blast
  from assms(2) [OF x(2,1) Some] show ?thesis
    by (simp add: x(1) Some)
qed simp

text \<open>A read that only the one on pointers makes.\<close>

lemma implements_read: "f = Some x \<Longrightarrow> implements S (h x) g \<Longrightarrow> implements S (f \<bind> h) g"
  by simp

lemma implements_mono:
  assumes "implements R f g" "\<And>x y. R x y \<Longrightarrow> S x y"
  shows "implements S f g"
proof (rule implementsI)
  fix y
  assume "g = Some y"
  then obtain x where "f = Some x" "R x y"
    using implementsD [OF assms(1)] by blast
  then show "\<exists>x. f = Some x \<and> S x y"
    using assms(2) by simp
qed

lemma implements_loop:
  assumes "RN s t" "\<And>i s t. k \<le> i \<Longrightarrow> i < k + n \<Longrightarrow> RN s t \<Longrightarrow> implements (rel_flow RE RN) (f i s) (g i t)"
  shows "implements (rel_flow RE RN) (for_loop n k f s) (for_loop n k g t)"
  using assms
proof (induction n arbitrary: k s t)
  case (Suc n)
  have round: "implements (rel_flow RE RN) (f k s) (g k t)"
    using Suc.prems by simp
  show ?case
  proof (cases "g k t")
    case (Some b)
    then obtain a where a: "f k s = Some a" "rel_flow RE RN a b"
      using implementsD [OF round] by blast
    show ?thesis
    proof (cases b)
      case (Next t')
      then obtain s' where "a = Next s'" "RN s' t'"
        using a(2) by (cases a) auto
      with Suc.IH [of s' t' "Suc k"] Suc.prems(2) a(1) Some Next show ?thesis
        by simp
    qed (use a Some in \<open>auto elim: flow.rel_cases\<close>)
  qed simp
qed simp

lemma implements_after_loop:
  assumes "implements (rel_flow R RN) f g" "\<And>s t. RN s t \<Longrightarrow> implements R (h s) (k t)"
  shows "implements R (after_loop f h) (after_loop g k)"
proof (cases g)
  case (Some b)
  then obtain a where a: "f = Some a" "rel_flow R RN a b"
    using implementsD [OF assms(1)] by blast
  from a(2) show ?thesis
    using a(1) Some assms(2) by cases simp_all
qed simp

section \<open>Views\<close>

definition stock_at :: "addr \<Rightarrow> memory \<Rightarrow> (int \<times> addr) option" where
  "stock_at a M = (case mem_blocks M a of Some (B_Stock n p) \<Rightarrow> Some (n, p) | _ \<Rightarrow> None)"

definition name_at :: "addr \<Rightarrow> memory \<Rightarrow> string option" where
  "name_at a M = (case mem_blocks M a of Some (B_Name w) \<Rightarrow> Some w | _ \<Rightarrow> None)"

definition product_view :: "memory \<Rightarrow> addr \<Rightarrow> product \<Rightarrow> bool" where
  "product_view M a p \<longleftrightarrow> a \<noteq> NULL \<and> (\<exists>name. mem_blocks M a = Some (B_Product (product_id p) name) \<and>
     mem_blocks M name = Some (B_Name (product_name p)))"

definition stock_view :: "memory \<Rightarrow> addr \<Rightarrow> stock \<Rightarrow> bool" where
  "stock_view M a s \<longleftrightarrow> a \<noteq> NULL \<and> (\<exists>q. mem_blocks M a = Some (B_Stock (stock_amount s) q) \<and>
     (case stock_product s of None \<Rightarrow> q = NULL | Some p \<Rightarrow> product_view M q p))"

text \<open>A vector at \<open>v\<close> whose elements lie at \<open>as\<close>; \<open>P\<close> says how.\<close>

definition vector_view :: "(addr \<Rightarrow> 'a \<Rightarrow> bool) \<Rightarrow> memory \<Rightarrow> addr \<Rightarrow> addr list \<Rightarrow> 'a vector \<Rightarrow> bool" where
  "vector_view P M v as xs \<longleftrightarrow> (\<exists>vb ys. vec_in M v as vb \<and> xs = vec_of ys \<and> list_all2 P as ys)"

abbreviation stocks_view :: "memory \<Rightarrow> addr \<Rightarrow> addr list \<Rightarrow> stock vector \<Rightarrow> bool" where
  "stocks_view M \<equiv> vector_view (stock_view M) M"

definition city_view :: "memory \<Rightarrow> addr list \<Rightarrow> addr \<Rightarrow> city \<Rightarrow> bool" where
  "city_view M sa c y \<longleftrightarrow> c \<noteq> NULL \<and> (\<exists>name stocks. mem_blocks M c = Some (B_City name (city_id y) stocks) \<and>
     mem_blocks M name = Some (B_Name (city_name y)) \<and> stocks_view M stocks sa (city_stock y))"

text \<open>The map at \<open>m\<close>; its cities lie at \<open>cas\<close>, their stocks at \<open>sas\<close>.\<close>

definition map_view :: "memory \<Rightarrow> addr \<Rightarrow> addr list \<Rightarrow> addr list list \<Rightarrow> sim_map \<Rightarrow> bool" where
  "map_view M m cas sas mp \<longleftrightarrow> (\<exists>cities product matrix pas rows.
     mem_blocks M m = Some (B_Map cities product matrix) \<and>
     vector_view (\<lambda>c y. True) M cities cas (map_cities mp) \<and> length sas = length cas \<and>
     (\<forall>i < length cas. city_view M (sas ! i) (cas ! i) (vlist (map_cities mp) ! i)) \<and>
     vector_view (product_view M) M product pas (map_product mp) \<and>
     mem_blocks M matrix = Some (B_Matrix (map Some rows)) \<and>
     list_all2 (\<lambda>r xs. mem_blocks M r = Some (B_Row xs)) rows (map_matrix mp)) \<and> distinct (concat sas)"

lemma stock_at_view [simp]: "stock_view M a s \<Longrightarrow> \<exists>q. stock_at a M = Some (stock_amount s, q)"
  by (auto simp: stock_view_def stock_at_def)

lemma stock_viewE:
  assumes "stock_view M a s" "stock_product s = Some p"
  obtains q name where "stock_at a M = Some (stock_amount s, q)" "product_at q M = Some (product_id p, name)" "q \<noteq> NULL"
  using assms by (auto simp: stock_view_def product_view_def stock_at_def reading)

lemma vector_viewD:
  assumes "vector_view P M v as xs"
  shows "getVectorSize_m v M = Some (getVectorSize xs)" "length as = length (vlist xs)" "length as < 2147483648"
    "i < length as \<Longrightarrow> P (as ! i) (vlist xs ! i)"
proof -
  obtain vb ys where v: "vec_in M v as vb" "xs = vec_of ys" "list_all2 P as ys"
    using assms by (auto simp: vector_view_def)
  show l: "length as = length (vlist xs)"
    using v(2,3) by (simp add: list_all2_lengthD)
  show "getVectorSize_m v M = Some (getVectorSize xs)"
    using vec_inD(5) [OF v(1) refl] l v(2) by simp
  show "length as < 2147483648"
    by (rule vec_inD [OF v(1)])
  show "i < length as \<Longrightarrow> P (as ! i) (vlist xs ! i)"
    using v(2,3) by (simp add: list_all2_conv_all_nth)
qed

text \<open>Access by index gives the address of the element's view.\<close>

lemma get_view:
  assumes "vector_view P M v as xs"
  shows "implements (\<lambda>(a, M') x. M' = M \<and> to_uint i < length as \<and> a = as ! to_uint i \<and> x = vlist xs ! to_uint i \<and> P a x)
    (getFromVector_m v i M) (vec_deref xs i)"
proof (rule implementsI)
  fix x
  assume x: "vec_deref xs i = Some x"
  obtain vb ys where v: "vec_in M v as vb" "xs = vec_of ys"
    using assms by (auto simp: vector_view_def)
  have i: "to_uint i < length as" "x = vlist xs ! to_uint i"
    using vec_deref_to_uint [of ys i x] x v(2) vector_viewD(2) [OF assms] by auto
  have "getFromVector_m v i M = Some (as ! to_uint i, M)"
    using v(1) i(1) by (auto simp: vec_in_def getFromVector_m_def reading split: if_splits)
  then show "\<exists>r. getFromVector_m v i M = Some r \<and> (\<lambda>(a, M') x. M' = M \<and> to_uint i < length as \<and> a = as ! to_uint i \<and>
      x = vlist xs ! to_uint i \<and> P a x) r x"
    using i vector_viewD(4) [OF assms i(1)] by simp
qed


text \<open>The steps of the functions below: access by index, and reading a stock and its product.\<close>

lemma implements_get:
  assumes "vector_view P M v as xs"
    and "to_uint i < length as \<Longrightarrow> P (as ! to_uint i) (vlist xs ! to_uint i) \<Longrightarrow>
      implements S (h (as ! to_uint i) M) (k (vlist xs ! to_uint i))"
  shows "implements S (getFromVector_m v i M \<bind> (\<lambda>(a, M). h a M)) (vec_deref xs i \<bind> k)"
  by (rule implements_bind [OF get_view [OF assms(1)]]) (use assms(2) in auto)

lemma index_view:
  assumes "vector_view P M v as xs" "j < getVectorSize xs"
  shows "to_uint (int j) = j" "j < length as"
proof -
  have "getVectorSize xs = length (vlist xs)"
    using assms(1) by (auto simp: vector_view_def)
  then show "to_uint (int j) = j" "j < length as"
    using vector_viewD(2,3) [OF assms(1)] assms(2) by simp_all
qed

lemma view_size: "vector_view P M v as xs \<Longrightarrow> getVectorSize xs = length as"
  by (auto simp: vector_view_def list_all2_lengthD)

lemma implements_stock:
  assumes "stock_view M a s"
    and "\<And>p q name. stock_product s = Some p \<Longrightarrow> implements S (f (stock_amount s) (product_id p)) (g p)"
  shows "implements S (stock_at a M \<bind> (\<lambda>(n, q). product_at q M \<bind> (\<lambda>(pid, name). f n pid))) (stock_product s \<bind> g)"
proof (cases "stock_product s")
  case (Some p)
  obtain q name where "stock_at a M = Some (stock_amount s, q)" "product_at q M = Some (product_id p, name)"
    by (rule stock_viewE [OF assms(1) Some])
  then show ?thesis
    using assms(2) [OF Some] Some by simp
qed simp

section \<open>Changing amounts\<close>

text \<open>\<open>stock->amount = n\<close> through the pointer \<open>a\<close>.\<close>

definition set_amount :: "addr \<Rightarrow> int \<Rightarrow> memory \<Rightarrow> memory option" where
  "set_amount a n M = do { (k, q) \<leftarrow> stock_at a M; Some (store a (B_Stock n q) M) }"

text \<open>\<open>M'\<close> is \<open>M\<close> up to the amounts of the stocks at \<open>A\<close>.\<close>

definition amounts_changed :: "addr set \<Rightarrow> memory \<Rightarrow> memory \<Rightarrow> bool" where
  "amounts_changed A M M' \<longleftrightarrow> (fresh_ok M \<longrightarrow> fresh_ok M') \<and>
     (\<forall>a. mem_blocks M' a = mem_blocks M a \<or>
        a \<in> A \<and> (\<exists>n n' q. mem_blocks M a = Some (B_Stock n q) \<and> mem_blocks M' a = Some (B_Stock n' q)))"

lemma amounts_changed_refl [simp]: "amounts_changed A M M"
  by (simp add: amounts_changed_def)

lemma amounts_changed_at:
  assumes "amounts_changed A M M'"
  shows "mem_blocks M' a = mem_blocks M a \<or>
    a \<in> A \<and> (\<exists>n n' q. mem_blocks M a = Some (B_Stock n q) \<and> mem_blocks M' a = Some (B_Stock n' q))"
  using assms by (simp add: amounts_changed_def)

lemma amounts_changed_trans:
  assumes "amounts_changed A M M'" "amounts_changed B M' M''" "A \<subseteq> C" "B \<subseteq> C"
  shows "amounts_changed C M M''"
proof -
  have "mem_blocks M'' a = mem_blocks M a \<or>
      a \<in> C \<and> (\<exists>n n' q. mem_blocks M a = Some (B_Stock n q) \<and> mem_blocks M'' a = Some (B_Stock n' q))" for a
    using amounts_changed_at [OF assms(1), of a] amounts_changed_at [OF assms(2), of a]
    by (elim disjE conjE exE) (auto dest: subsetD [OF assms(3)] subsetD [OF assms(4)])
  then show ?thesis
    using assms(1,2) by (simp add: amounts_changed_def)
qed

lemma amounts_changed_mono: "amounts_changed A M M' \<Longrightarrow> A \<subseteq> B \<Longrightarrow> amounts_changed B M M'"
  by (rule amounts_changed_trans [OF amounts_changed_refl _ subset_refl])

lemma amounts_changed_outside: "amounts_changed A M M' \<Longrightarrow> a \<notin> A \<Longrightarrow> mem_blocks M' a = mem_blocks M a"
  using amounts_changed_at by blast

lemma amounts_changed_other:
  "amounts_changed A M M' \<Longrightarrow> mem_blocks M a = Some b \<Longrightarrow> (\<And>n q. b \<noteq> B_Stock n q) \<Longrightarrow> mem_blocks M' a = Some b"
  using amounts_changed_at [of A M M' a] by auto

lemma amounts_changed_dom: "amounts_changed A M M' \<Longrightarrow> mem_blocks M' a = None \<longleftrightarrow> mem_blocks M a = None"
  using amounts_changed_at [of A M M' a] by auto

lemma amounts_changed_fresh: "amounts_changed A M M' \<Longrightarrow> fresh_ok M \<Longrightarrow> fresh_ok M'"
  by (simp add: amounts_changed_def)

lemma amounts_changed_product: "amounts_changed A M M' \<Longrightarrow> product_view M a p \<Longrightarrow> product_view M' a p"
  unfolding product_view_def by (blast intro: amounts_changed_other)

lemma amounts_changed_vec: "amounts_changed A M M' \<Longrightarrow> vec_in M v xs bs \<Longrightarrow> vec_in M' v xs bs"
  unfolding vec_in_def by (fastforce intro: amounts_changed_other)

lemma amounts_changed_stock:
  assumes "amounts_changed A M M'" "stock_view M a s" "a \<notin> A"
  shows "stock_view M' a s"
proof -
  have "mem_blocks M' a = mem_blocks M a"
    by (rule amounts_changed_outside [OF assms(1,3)])
  moreover have "product_view M q p \<Longrightarrow> product_view M' q p" for q p
    by (rule amounts_changed_product [OF assms(1)])
  ultimately show ?thesis
    using assms(2) by (auto simp: stock_view_def split: option.splits)
qed

lemma vector_view_mono:
  assumes "vector_view P M v as xs" "\<And>vb. vec_in M v as vb \<Longrightarrow> vec_in M' v as vb"
    and "\<And>i. i < length as \<Longrightarrow> P (as ! i) (vlist xs ! i) \<Longrightarrow> Q (as ! i) (vlist xs ! i)"
  shows "vector_view Q M' v as xs"
  using assms unfolding vector_view_def by (fastforce simp: list_all2_conv_all_nth)

lemma amounts_changed_stocks:
  assumes "amounts_changed A M M'" "stocks_view M v as xs" "set as \<inter> A = {}"
  shows "stocks_view M' v as xs"
proof (rule vector_view_mono [OF assms(2) amounts_changed_vec [OF assms(1)]])
  fix i
  assume "i < length as" and s: "stock_view M (as ! i) (vlist xs ! i)"
  then have "as ! i \<notin> A"
    using nth_mem [of i as] assms(3) by blast
  then show "stock_view M' (as ! i) (vlist xs ! i)"
    by (rule amounts_changed_stock [OF assms(1) s])
qed

lemma set_amount_view:
  assumes "stock_view M a s"
  shows "\<exists>M'. set_amount a n M = Some M' \<and> amounts_changed {a} M M' \<and> stock_view M' a (s\<lparr>stock_amount := n\<rparr>)"
proof -
  obtain q where q: "a \<noteq> NULL" "mem_blocks M a = Some (B_Stock (stock_amount s) q)"
    "case stock_product s of None \<Rightarrow> q = NULL | Some p \<Rightarrow> product_view M q p"
    using assms by (auto simp: stock_view_def)
  let ?M = "store a (B_Stock n q) M"
  have c: "amounts_changed {a} M ?M"
    using q(2) by (auto simp: amounts_changed_def store_def fresh_ok_def)
  have "stock_view ?M a (s\<lparr>stock_amount := n\<rparr>)"
    using q(1,3) amounts_changed_product [OF c] by (auto simp: stock_view_def store_def split: option.splits)
  then show ?thesis
    using c q(2) by (simp add: set_amount_def stock_at_def)
qed

text \<open>The same for a stock of a vector.\<close>

lemma set_amount_stocks:
  assumes "stocks_view M v as xs" "distinct as" "i < length as"
  shows "\<exists>M'. set_amount (as ! i) n M = Some M' \<and> amounts_changed {as ! i} M M' \<and>
    stocks_view M' v as (vec_store xs i ((vlist xs ! i)\<lparr>stock_amount := n\<rparr>))"
proof -
  obtain vb ys where v: "vec_in M v as vb" "xs = vec_of ys" "list_all2 (stock_view M) as ys"
    using assms(1) by (auto simp: vector_view_def)
  have len: "length as = length ys"
    using v(3) by (rule list_all2_lengthD)
  have "stock_view M (as ! i) (ys ! i)"
    using v(3) assms(3) by (simp add: list_all2_conv_all_nth)
  then obtain M' where M': "set_amount (as ! i) n M = Some M'" "amounts_changed {as ! i} M M'"
    "stock_view M' (as ! i) ((ys ! i)\<lparr>stock_amount := n\<rparr>)"
    using set_amount_view by blast
  have "stock_view M' (as ! j) (ys[i := (ys ! i)\<lparr>stock_amount := n\<rparr>] ! j)" if "j < length as" for j
  proof (cases "j = i")
    case False
    then have "as ! j \<notin> {as ! i}"
      using assms(2,3) that by (simp add: nth_eq_iff_index_eq)
    moreover have "stock_view M (as ! j) (ys ! j)"
      using v(3) that by (simp add: list_all2_conv_all_nth)
    ultimately show ?thesis
      using False amounts_changed_stock [OF M'(2)] by simp
  qed (use M'(3) assms(3) len in simp)
  then have "list_all2 (stock_view M') as (ys[i := (ys ! i)\<lparr>stock_amount := n\<rparr>])"
    using len by (simp add: list_all2_conv_all_nth)
  then have "stocks_view M' v as (vec_of (ys[i := (ys ! i)\<lparr>stock_amount := n\<rparr>]))"
    using amounts_changed_vec [OF M'(2) v(1)] by (auto simp: vector_view_def)
  moreover have "vec_store xs i ((vlist xs ! i)\<lparr>stock_amount := n\<rparr>) = vec_of (ys[i := (ys ! i)\<lparr>stock_amount := n\<rparr>])"
    using v(2) assms(3) len by simp
  ultimately show ?thesis
    using M'(1,2) by auto
qed

end
