(* ===== verification/Memory_Unload.thy ===== *)
theory Memory_Unload
  imports Memory_Views
begin

text \<open>
  \<open>updateMap\<close> and the loop that packs stocks into a message, on pointers: they read the stocks of
  the plane and of the city where they lie and change amounts in place. They implement the
  functions on values of Map\_Stocks and Messages as long as no two of the stocks share an address.
\<close>

section \<open>The functions\<close>

text \<open>The inner loop of \<open>updateMap\<close>: the pointer \<open>city_stock\<close>, indeterminate at first.\<close>

definition find_city_stock_m :: "addr \<Rightarrow> addr \<Rightarrow> memory \<Rightarrow> (addr option \<times> memory) option" where
  "find_city_stock_m plane_stock city_stocks M = do {
     n \<leftarrow> getVectorSize_m city_stocks M;
     after_loop
       (for_loop n 0 (\<lambda>j (slot, M). do {
          (c, M) \<leftarrow> getFromVector_m city_stocks (int j) M;
          (pn, pq) \<leftarrow> stock_at plane_stock M;
          (pid, pname) \<leftarrow> product_at pq M;
          (cn, cq) \<leftarrow> stock_at c M;
          (cid, cname) \<leftarrow> product_at cq M;
          Some (if pid = cid then Exit (Some c, M) else Next (Some c, M))
        }) (None, M))
       Some
   }"

definition discharge_m :: "nat \<Rightarrow> addr \<Rightarrow> addr \<Rightarrow> memory \<Rightarrow> memory option" where
  "discharge_m i city_stocks stocks_of_plane M = do {
     (p, M) \<leftarrow> getFromVector_m stocks_of_plane (int i) M;
     (slot, M) \<leftarrow> find_city_stock_m p city_stocks M;
     c \<leftarrow> slot;
     (c_amount, cq) \<leftarrow> stock_at c M;
     (p_amount, pq) \<leftarrow> stock_at p M;
     if c_amount \<ge> p_amount then do {
       rest \<leftarrow> isub c_amount p_amount;
       M \<leftarrow> set_amount c rest M;
       set_amount p 0 M
     } else do {
       rest \<leftarrow> isub p_amount c_amount;
       M \<leftarrow> set_amount p rest M;
       set_amount c 0 M
     }
   }"

text \<open>The plane is a local variable of the caller; its fields are arguments.\<close>

definition updateMap_m :: "addr \<Rightarrow> int \<Rightarrow> addr \<Rightarrow> memory \<Rightarrow> memory option" where
  "updateMap_m m cityId stocks_of_plane M = do {
     (cities, product, matrix) \<leftarrow> map_at m M;
     (city, M) \<leftarrow> getFromVector_m cities cityId M;
     n \<leftarrow> getVectorSize_m stocks_of_plane M;
     after_loop
       (for_loop n 0 (\<lambda>i M. do {
          (name, k, stock) \<leftarrow> city_at city M;
          M \<leftarrow> discharge_m i stock stocks_of_plane M;
          Some (Next M)
        }) M)
       Some
   }"

text \<open>The loop of \<open>marshall_change_stock\<close> that fills the message.\<close>

definition marshall_stocks_m :: "addr \<Rightarrow> memory \<Rightarrow> (StockMessagePart \<times> memory) option" where
  "marshall_stocks_m stocks M = do {
     n \<leftarrow> getVectorSize_m stocks M;
     after_loop
       (for_loop n 0 (\<lambda>i ((ids, quantities), M). do {
          (s, M) \<leftarrow> getFromVector_m stocks (int i) M;
          (amount, q) \<leftarrow> stock_at s M;
          (pid, name) \<leftarrow> product_at q M;
          ids' \<leftarrow> arr_set ids i pid;
          quantities' \<leftarrow> arr_set quantities i amount;
          Some (Next ((ids', quantities'), M))
        }) ((arr_new MAX_STOCKS, arr_new MAX_STOCKS), M))
       (\<lambda>((ids, quantities), M). Some (\<lparr>part_count = n, part_stockId = ids, part_quantities = quantities\<rparr>, M))
   }"

section \<open>They implement the functions on values\<close>

lemma find_city_stock_implemented:
  assumes cs: "stocks_view M cv ca cs" and p: "stock_view M p s"
  shows "implements (\<lambda>(slot, M') slot'. M' = M \<and> rel_option (\<lambda>a j. j < length ca \<and> a = ca ! j) slot slot')
    (find_city_stock_m p cv M) (find_city_stock s cs)"
proof -
  let ?R = "\<lambda>(slot, M') slot'. M' = M \<and> rel_option (\<lambda>a j. j < length ca \<and> a = ca ! j) slot slot'"
  have round: "implements (rel_flow ?R ?R)
      (do {
        (c, M) \<leftarrow> getFromVector_m cv (int j) M;
        (pn, pq) \<leftarrow> stock_at p M;
        (pid, pname) \<leftarrow> product_at pq M;
        (cn, cq) \<leftarrow> stock_at c M;
        (cid, cname) \<leftarrow> product_at cq M;
        Some (if pid = cid then Exit (Some c, M) else Next (Some c, M))
      })
      (do {
        c \<leftarrow> vec_deref cs (int j);
        pp \<leftarrow> stock_product s;
        cp \<leftarrow> stock_product c;
        Some (if product_id pp = product_id cp then Exit (Some j) else Next (Some j))
      })" if "j < getVectorSize cs" for j
    by (rule implements_get [OF cs], rule implements_stock [OF p], rule implements_stock, assumption)
      (use index_view [OF cs that] in auto)
  show ?thesis
    unfolding find_city_stock_m_def find_city_stock_def
    by (rule implements_read [OF vector_viewD(1) [OF cs]], rule implements_after_loop, rule implements_loop)
      (use round in auto)
qed


text \<open>What the loop of \<open>updateMap\<close> keeps: the stocks of the city and of the plane, in place.\<close>

definition unload_view :: "memory \<Rightarrow> addr \<Rightarrow> addr list \<Rightarrow> addr \<Rightarrow> addr list \<Rightarrow> memory \<Rightarrow> stock vector \<times> stock vector \<Rightarrow> bool" where
  "unload_view M0 cv ca pv pa M = (\<lambda>(cs, ps). stocks_view M cv ca cs \<and> stocks_view M pv pa ps \<and>
     amounts_changed (set ca \<union> set pa) M0 M)"

lemma two_amounts:
  assumes "unload_view M0 cv ca pv pa M (cs, ps)" "distinct (ca @ pa)" "j < length ca" "i < length pa"
  shows "\<exists>M1 M2. set_amount (ca ! j) k M = Some M1 \<and> set_amount (pa ! i) l M1 = Some M2 \<and>
      unload_view M0 cv ca pv pa M2
        (vec_store cs j ((vlist cs ! j)\<lparr>stock_amount := k\<rparr>), vec_store ps i ((vlist ps ! i)\<lparr>stock_amount := l\<rparr>))"
    and "\<exists>M1 M2. set_amount (pa ! i) l M = Some M1 \<and> set_amount (ca ! j) k M1 = Some M2 \<and>
      unload_view M0 cv ca pv pa M2
        (vec_store cs j ((vlist cs ! j)\<lparr>stock_amount := k\<rparr>), vec_store ps i ((vlist ps ! i)\<lparr>stock_amount := l\<rparr>))"
proof -
  have V: "stocks_view M cv ca cs" "stocks_view M pv pa ps" "amounts_changed (set ca \<union> set pa) M0 M"
    using assms(1) by (simp_all add: unload_view_def)
  have d: "distinct ca" "distinct pa" "set pa \<inter> {ca ! j} = {}" "set ca \<inter> {pa ! i} = {}"
    using assms(2) nth_mem [OF assms(3)] nth_mem [OF assms(4)] by auto
  have sub: "{ca ! j} \<subseteq> set ca \<union> set pa" "{pa ! i} \<subseteq> set ca \<union> set pa"
    using nth_mem [OF assms(3)] nth_mem [OF assms(4)] by auto
  let ?cs = "vec_store cs j ((vlist cs ! j)\<lparr>stock_amount := k\<rparr>)"
  let ?ps = "vec_store ps i ((vlist ps ! i)\<lparr>stock_amount := l\<rparr>)"
  obtain M1 where M1: "set_amount (ca ! j) k M = Some M1" "amounts_changed {ca ! j} M M1" "stocks_view M1 cv ca ?cs"
    using set_amount_stocks [OF V(1) d(1) assms(3)] by blast
  obtain M2 where M2: "set_amount (pa ! i) l M1 = Some M2" "amounts_changed {pa ! i} M1 M2" "stocks_view M2 pv pa ?ps"
    using set_amount_stocks [OF amounts_changed_stocks [OF M1(2) V(2) d(3)] d(2) assms(4)] by blast
  have "amounts_changed (set ca \<union> set pa) M0 M2"
    by (rule amounts_changed_trans [OF amounts_changed_trans [OF V(3) M1(2) subset_refl sub(1)] M2(2) subset_refl sub(2)])
  with M1 M2 amounts_changed_stocks [OF M2(2) M1(3) d(4)]
  show "\<exists>M1 M2. set_amount (ca ! j) k M = Some M1 \<and> set_amount (pa ! i) l M1 = Some M2 \<and> unload_view M0 cv ca pv pa M2 (?cs, ?ps)"
    by (auto simp: unload_view_def)
  obtain M1 where M1: "set_amount (pa ! i) l M = Some M1" "amounts_changed {pa ! i} M M1" "stocks_view M1 pv pa ?ps"
    using set_amount_stocks [OF V(2) d(2) assms(4)] by blast
  obtain M2 where M2: "set_amount (ca ! j) k M1 = Some M2" "amounts_changed {ca ! j} M1 M2" "stocks_view M2 cv ca ?cs"
    using set_amount_stocks [OF amounts_changed_stocks [OF M1(2) V(1) d(4)] d(1) assms(3)] by blast
  have "amounts_changed (set ca \<union> set pa) M0 M2"
    by (rule amounts_changed_trans [OF amounts_changed_trans [OF V(3) M1(2) subset_refl sub(2)] M2(2) subset_refl sub(1)])
  with M1 M2 amounts_changed_stocks [OF M2(2) M1(3) d(3)]
  show "\<exists>M1 M2. set_amount (pa ! i) l M = Some M1 \<and> set_amount (ca ! j) k M1 = Some M2 \<and> unload_view M0 cv ca pv pa M2 (?cs, ?ps)"
    by (auto simp: unload_view_def)
qed

lemma discharge_implemented:
  assumes V: "unload_view M0 cv ca pv pa M (cs, ps)" and d: "distinct (ca @ pa)" and i: "i < getVectorSize ps"
  shows "implements (unload_view M0 cv ca pv pa) (discharge_m i cv pv M) (discharge i (cs, ps))"
proof -
  have cs: "stocks_view M cv ca cs" and ps: "stocks_view M pv pa ps"
    using V by (simp_all add: unload_view_def)
  note I = index_view [OF ps i]
  show ?thesis
    unfolding discharge_m_def discharge_def prod.case
  proof (rule implements_get [OF ps], unfold I(1), rule implements_bind [OF find_city_stock_implemented [OF cs]], assumption)
    fix found slot'
    assume "(\<lambda>(slot, M') slot'. M' = M \<and> rel_option (\<lambda>a j. j < length ca \<and> a = ca ! j) slot slot') found slot'"
    then obtain slot where found: "found = (slot, M)" "rel_option (\<lambda>a j. j < length ca \<and> a = ca ! j) slot slot'"
      by (cases found) auto
    show "implements (unload_view M0 cv ca pv pa)
        (case found of (slot, M) \<Rightarrow> do {
          c \<leftarrow> slot;
          (c_amount, cq) \<leftarrow> stock_at c M;
          (p_amount, pq) \<leftarrow> stock_at (pa ! i) M;
          if c_amount \<ge> p_amount then do {
            rest \<leftarrow> isub c_amount p_amount;
            M \<leftarrow> set_amount c rest M;
            set_amount (pa ! i) 0 M
          } else do {
            rest \<leftarrow> isub p_amount c_amount;
            M \<leftarrow> set_amount (pa ! i) rest M;
            set_amount c 0 M
          }
        })
        (do {
          j \<leftarrow> slot';
          c \<leftarrow> vec_deref cs (int j);
          if stock_amount c \<ge> stock_amount (vlist ps ! i) then do {
            rest \<leftarrow> isub (stock_amount c) (stock_amount (vlist ps ! i));
            Some (vec_store cs j (c\<lparr>stock_amount := rest\<rparr>), vec_store ps i ((vlist ps ! i)\<lparr>stock_amount := 0\<rparr>))
          } else do {
            rest \<leftarrow> isub (stock_amount (vlist ps ! i)) (stock_amount c);
            Some (vec_store cs j (c\<lparr>stock_amount := 0\<rparr>), vec_store ps i ((vlist ps ! i)\<lparr>stock_amount := rest\<rparr>))
          }
        })"
    proof (cases slot')
      case (Some j)
      then have j: "slot = Some (ca ! j)" "j < length ca"
        using found(2) by (cases slot; simp)+
      have c: "vec_deref cs (int j) = Some (vlist cs ! j)"
        using j(2) cs vector_viewD(2,3) [OF cs] by (auto simp: vector_view_def)
      obtain cq pq where at: "stock_at (ca ! j) M = Some (stock_amount (vlist cs ! j), cq)"
        "stock_at (pa ! i) M = Some (stock_amount (vlist ps ! i), pq)"
        using stock_at_view [OF vector_viewD(4) [OF cs j(2)]] stock_at_view [OF vector_viewD(4) [OF ps I(2)]] by blast
      note both = two_amounts [OF V d j(2) I(2)]
      show ?thesis
      proof (cases "stock_amount (vlist ps ! i) \<le> stock_amount (vlist cs ! j)")
        case True
        show ?thesis
        proof (cases "isub (stock_amount (vlist cs ! j)) (stock_amount (vlist ps ! i))")
          case (Some rest)
          then show ?thesis
            using both(1) [of rest 0] True by (clarsimp simp: found(1) j(1) c at \<open>slot' = Some j\<close>)
        qed (simp add: found(1) j(1) c at \<open>slot' = Some j\<close> True)
      next
        case False
        show ?thesis
        proof (cases "isub (stock_amount (vlist ps ! i)) (stock_amount (vlist cs ! j))")
          case (Some rest)
          then show ?thesis
            using both(2) [of rest 0] False by (clarsimp simp: found(1) j(1) c at \<open>slot' = Some j\<close>)
        qed (simp add: found(1) j(1) c at \<open>slot' = Some j\<close> False)
      qed
    qed (simp add: found)
  qed
qed


section \<open>\<open>updateMap\<close>\<close>

lemma amounts_changed_city:
  assumes "amounts_changed A M M'" "city_view M sa c y" "set sa \<inter> A = {}"
  shows "city_view M' sa c y"
proof -
  obtain name stocks where c: "c \<noteq> NULL" "mem_blocks M c = Some (B_City name (city_id y) stocks)"
    "mem_blocks M name = Some (B_Name (city_name y))" "stocks_view M stocks sa (city_stock y)"
    using assms(2) by (auto simp: city_view_def)
  then show ?thesis
    using amounts_changed_other [OF assms(1) c(2)] amounts_changed_other [OF assms(1) c(3)]
      amounts_changed_stocks [OF assms(1) c(4) assms(3)] by (simp add: city_view_def)
qed

text \<open>The parts of the map that hold no amounts stay.\<close>

lemma amounts_changed_products:
  assumes "amounts_changed A M M'" "vector_view (product_view M) M v as xs"
  shows "vector_view (product_view M') M' v as xs"
  by (rule vector_view_mono [OF assms(2) amounts_changed_vec [OF assms(1)] amounts_changed_product [OF assms(1)]])

lemma amounts_changed_rows:
  assumes "amounts_changed A M M'" "list_all2 (\<lambda>r xs. mem_blocks M r = Some (B_Row xs)) rows m"
  shows "list_all2 (\<lambda>r xs. mem_blocks M' r = Some (B_Row xs)) rows m"
  using assms(2) by (rule list_all2_mono) (rule amounts_changed_other [OF assms(1)], simp_all)

lemma map_view_city:
  assumes m: "map_view M a cas sas mp" and c: "amounts_changed A M M'"
    and i: "i < length sas" "set (concat sas) \<inter> A \<subseteq> set (sas ! i)"
    and y: "city_view M' (sas ! i) (cas ! i) y"
  shows "map_view M' a cas sas (mp\<lparr>map_cities := vec_store (map_cities mp) i y\<rparr>)"
proof -
  obtain cities product matrix pas rows where V: "mem_blocks M a = Some (B_Map cities product matrix)"
    "vector_view (\<lambda>c y. True) M cities cas (map_cities mp)" "length sas = length cas"
    "\<And>i. i < length cas \<Longrightarrow> city_view M (sas ! i) (cas ! i) (vlist (map_cities mp) ! i)"
    "vector_view (product_view M) M product pas (map_product mp)" "mem_blocks M matrix = Some (B_Matrix (map Some rows))"
    "list_all2 (\<lambda>r xs. mem_blocks M r = Some (B_Row xs)) rows (map_matrix mp)" and d: "distinct (concat sas)"
    using m by (auto simp: map_view_def)
  obtain vb ys where v: "vec_in M cities cas vb" "map_cities mp = vec_of ys" "length cas = length ys"
    using V(2) by (auto simp: vector_view_def list_all2_lengthD)
  have city: "city_view M' (sas ! k) (cas ! k) (ys[i := y] ! k)" if k: "k < length cas" for k
  proof (cases "k = i")
    case True
    then show ?thesis
      using y k v(3) by simp
  next
    case False
    have "set (sas ! k) \<inter> set (sas ! i) = {}"
      using distinct_concat_nth [OF d, of k i] False k V(3) i(1) by simp
    moreover have "set (sas ! k) \<subseteq> set (concat sas)"
    proof -
      have "sas ! k \<in> set sas"
        using k V(3) by simp
      then show ?thesis
        by auto
    qed
    ultimately have "set (sas ! k) \<inter> A = {}"
      using i(2) by blast
    from amounts_changed_city [OF c V(4) [OF k] this] show ?thesis
      using False v(2) by simp
  qed
  have "vector_view (\<lambda>c y. True) M' cities cas (vec_of (ys[i := y]))"
    using amounts_changed_vec [OF c v(1)] v(3) by (auto simp: vector_view_def list_all2_conv_all_nth)
  moreover have "vec_store (map_cities mp) i y = vec_of (ys[i := y])"
    using v(2,3) V(3) i(1) by simp
  moreover have "mem_blocks M' a = Some (B_Map cities product matrix)" "mem_blocks M' matrix = Some (B_Matrix (map Some rows))"
    using V(1,6) by (auto intro: amounts_changed_other [OF c])
  ultimately show ?thesis
    using city V(3) amounts_changed_products [OF c V(5)] amounts_changed_rows [OF c V(7)] d
    by (auto simp: map_view_def intro!: exI)
qed

lemma updateMap_implemented:
  assumes m: "map_view M a cas sas mp" and p: "stocks_view M pv pa (plane_stocks pl)" "distinct (concat sas @ pa)"
    and i: "in_int (plane_cityId pl)"
  shows "implements (\<lambda>M' (mp', pl'). map_view M' a cas sas mp' \<and> stocks_view M' pv pa (plane_stocks pl') \<and>
      amounts_changed (set (concat sas) \<union> set pa) M M')
    (updateMap_m a (plane_cityId pl) pv M) (updateMap mp pl)"
proof -
  let ?i = "plane_cityId pl"
  let ?R = "\<lambda>M' (mp', pl'). map_view M' a cas sas mp' \<and> stocks_view M' pv pa (plane_stocks pl') \<and>
      amounts_changed (set (concat sas) \<union> set pa) M M'"
  obtain cities product matrix where V: "mem_blocks M a = Some (B_Map cities product matrix)"
    "vector_view (\<lambda>c y. True) M cities cas (map_cities mp)" "length sas = length cas"
    "\<And>i. i < length cas \<Longrightarrow> city_view M (sas ! i) (cas ! i) (vlist (map_cities mp) ! i)"
    using m by (auto simp: map_view_def)
  have "implements ?R
      (do {
        (city, M) \<leftarrow> getFromVector_m cities ?i M;
        n \<leftarrow> getVectorSize_m pv M;
        after_loop (for_loop n 0 (\<lambda>i M. do {
            (name, k, stock) \<leftarrow> city_at city M;
            M \<leftarrow> discharge_m i stock pv M;
            Some (Next M)
          }) M) Some
      })
      (do {
        c \<leftarrow> vec_deref (map_cities mp) ?i;
        after_loop (for_loop (getVectorSize (plane_stocks pl)) 0 (\<lambda>i s. do {
            s' \<leftarrow> discharge i s;
            Some (Next s')
          }) (city_stock c, plane_stocks pl))
          (\<lambda>(cs, ps). Some
            (mp\<lparr>map_cities := vec_store (map_cities mp) (nat ?i) (c\<lparr>city_stock := cs\<rparr>)\<rparr>, pl\<lparr>plane_stocks := ps\<rparr>))
      })"
  proof (rule implements_get [OF V(2)], rule implements_read [OF vector_viewD(1) [OF p(1)]])
    assume lt: "to_uint ?i < length cas"
    have "length cas < 2147483648"
      by (rule vector_viewD [OF V(2)])
    then have n: "to_uint ?i = nat ?i"
      using lt i to_uint_neg [of ?i] by (cases "0 \<le> ?i") (auto simp: in_int_def INT_MIN_def INT_MAX_def)
    let ?k = "nat ?i"
    have k: "?k < length cas" "?k < length sas"
      using lt V(3) by (simp_all add: n)
    obtain name stocks where c: "cas ! ?k \<noteq> NULL" "mem_blocks M (cas ! ?k) = Some (B_City name (city_id (vlist (map_cities mp) ! ?k)) stocks)"
      "mem_blocks M name = Some (B_Name (city_name (vlist (map_cities mp) ! ?k)))"
      "stocks_view M stocks (sas ! ?k) (city_stock (vlist (map_cities mp) ! ?k))"
      using V(4) [OF k(1)] by (auto simp: city_view_def)
    have sub: "set (sas ! ?k) \<subseteq> set (concat sas)"
      using nth_mem [OF k(2)] by auto
    have d: "distinct (sas ! ?k @ pa)"
      using distinct_concat_member [OF p(2) k(2)] p(2) by simp
    let ?V = "unload_view M stocks (sas ! ?k) pv pa"
    show "implements ?R
        (after_loop (for_loop (getVectorSize (plane_stocks pl)) 0 (\<lambda>i M. do {
            (name, k, stock) \<leftarrow> city_at (cas ! to_uint ?i) M;
            M \<leftarrow> discharge_m i stock pv M;
            Some (Next M)
          }) M) Some)
        (after_loop (for_loop (getVectorSize (plane_stocks pl)) 0 (\<lambda>i s. do {
            s' \<leftarrow> discharge i s;
            Some (Next s')
          }) (city_stock (vlist (map_cities mp) ! to_uint ?i), plane_stocks pl))
          (\<lambda>(cs, ps). Some
            (mp\<lparr>map_cities := vec_store (map_cities mp) (nat ?i) ((vlist (map_cities mp) ! to_uint ?i)\<lparr>city_stock := cs\<rparr>)\<rparr>,
             pl\<lparr>plane_stocks := ps\<rparr>)))"
      unfolding n
    proof (rule implements_after_loop [where RN = ?V], rule implements_loop)
      show "?V M (city_stock (vlist (map_cities mp) ! ?k), plane_stocks pl)"
        using c(4) p(1) by (simp add: unload_view_def)
    next
      fix i M' s
      assume i: "i < 0 + getVectorSize (plane_stocks pl)" and V': "?V M' s"
      obtain cs ps where s: "s = (cs, ps)"
        by fastforce
      have ch: "amounts_changed (set (sas ! ?k) \<union> set pa) M M'" and ps: "stocks_view M' pv pa ps"
        using V' by (simp_all add: unload_view_def s)
      have "city_at (cas ! ?k) M' = Some (name, city_id (vlist (map_cities mp) ! ?k), stocks)"
        using amounts_changed_other [OF ch c(2)] by (simp add: reading)
      moreover have "getVectorSize ps = getVectorSize (plane_stocks pl)"
        using view_size [OF ps] view_size [OF p(1)] by simp
      moreover note discharge_implemented [OF V' [unfolded s] d, of i]
      ultimately show "implements (rel_flow ?R ?V)
          (do { (name, k, stock) \<leftarrow> city_at (cas ! ?k) M'; M \<leftarrow> discharge_m i stock pv M'; Some (Next M) })
          (do { s' \<leftarrow> discharge i s; Some (Next s') })"
        using i by (auto simp: s intro: implements_bind)
    next
      fix M' s
      assume V': "?V M' s"
      obtain cs ps where s: "s = (cs, ps)"
        by fastforce
      have ch: "amounts_changed (set (sas ! ?k) \<union> set pa) M M'" and st: "stocks_view M' pv pa ps" "stocks_view M' stocks (sas ! ?k) cs"
        using V' by (simp_all add: unload_view_def s)
      have apart: "set (concat sas) \<inter> (set (sas ! ?k) \<union> set pa) \<subseteq> set (sas ! ?k)"
        using p(2) unfolding distinct_append by blast
      have "city_view M' (sas ! ?k) (cas ! ?k) ((vlist (map_cities mp) ! ?k)\<lparr>city_stock := cs\<rparr>)"
        using c(1) amounts_changed_other [OF ch c(2)] amounts_changed_other [OF ch c(3)] st(2) by (simp add: city_view_def)
      note map_view_city [OF m ch k(2) apart this]
      moreover have "amounts_changed (set (concat sas) \<union> set pa) M M'"
        by (rule amounts_changed_mono [OF ch]) (use sub in auto)
      ultimately
      show "implements ?R (Some M')
          (case s of (cs, ps) \<Rightarrow> Some
            (mp\<lparr>map_cities := vec_store (map_cities mp) ?k ((vlist (map_cities mp) ! ?k)\<lparr>city_stock := cs\<rparr>)\<rparr>, pl\<lparr>plane_stocks := ps\<rparr>))"
        using st(1) by (simp add: s)
    qed
  qed
  then show ?thesis
    using V(1) by (simp add: updateMap_m_def updateMap_def reading)
qed


section \<open>Packing stocks\<close>

lemma marshall_stocks_implemented:
  assumes "stocks_view M v as xs"
  shows "implements (\<lambda>(part, M') part'. part = part' \<and> M' = M) (marshall_stocks_m v M) (marshall_stocks xs)"
proof -
  let ?R = "\<lambda>(part, M') part'. part = part' \<and> M' = M"
  have round: "implements (rel_flow ?R (\<lambda>(arrs, M') arrs'. arrs = arrs' \<and> M' = M))
      (do {
        (s, M) \<leftarrow> getFromVector_m v (int i) M;
        (amount, q) \<leftarrow> stock_at s M;
        (pid, name) \<leftarrow> product_at q M;
        ids' \<leftarrow> arr_set ids i pid;
        quantities' \<leftarrow> arr_set quantities i amount;
        Some (Next ((ids', quantities'), M))
      })
      (do {
        s \<leftarrow> vec_deref xs (int i);
        p \<leftarrow> stock_product s;
        ids' \<leftarrow> arr_set ids i (product_id p);
        quantities' \<leftarrow> arr_set quantities i (stock_amount s);
        Some (Next (ids', quantities'))
      })" for i ids quantities
    by (rule implements_get [OF assms], rule implements_stock, assumption) (simp add: implements_def split: Option.bind_splits)
  show ?thesis
    unfolding marshall_stocks_m_def marshall_stocks_def
    by (rule implements_read [OF vector_viewD(1) [OF assms]],
        rule implements_after_loop [where RN = "\<lambda>(arrs, M') arrs'. arrs = arrs' \<and> M' = M"], rule implements_loop)
      (use round in auto)
qed

end
