(* ===== verification/Memory_Planes.thy ===== *)
theory Memory_Planes
  imports Memory_Unload
begin

text \<open>
  The allocating functions on memory: vectors that grow, products, stocks, and \<open>initPlane\<close>, which
  builds the stocks of a plane out of a message. Then the life of the plane of one request of
  \<open>runMap\<close>: built, unloaded, sent back and given back, without a block left behind.
\<close>

section \<open>The functions\<close>

definition createVector_m :: "mallocs \<Rightarrow> memory \<Rightarrow> addr \<times> mallocs \<times> memory" where
  "createVector_m al M = malloc (B_Vector NULL 0 False) al M"

text \<open>\<open>realloc\<close> moves the block whenever it succeeds: the case that a stale pointer would notice.\<close>

definition realloc_m :: "addr \<Rightarrow> nat \<Rightarrow> mallocs \<Rightarrow> memory \<Rightarrow> (addr \<times> mallocs \<times> memory) option" where
  "realloc_m p k al M = do {
     cells \<leftarrow> (if p = NULL then Some [] else cells_at p M);
     let (q, al, M) = malloc (B_Cells (realloc_cells cells k)) al M;
     if q = NULL then Some (NULL, al, M)
     else do { M \<leftarrow> free p M; Some (q, al, M) }
   }"

text \<open>When \<open>realloc\<close> fails, the old block stays allocated, the pointer is NULL and the mutex held.\<close>

definition addToVector_m :: "mallocs \<Rightarrow> addr \<Rightarrow> addr \<Rightarrow> memory \<Rightarrow> (int \<times> mallocs \<times> memory) option" where
  "addToVector_m al v item M = do {
     (p, n, l) \<leftarrow> vector_at v M;
     if l then None
     else do {
       (p, al, M) \<leftarrow> (if n mod 5 = 0 then realloc_m p (n + 5) al M else Some (p, al, M));
       if n mod 5 = 0 \<and> p = NULL then Some (- 1, al, store v (B_Vector NULL n True) M)
       else do {
         cells \<leftarrow> cells_at p M;
         cells \<leftarrow> arr_set cells n item;
         Some (int (n + 1) - 1, al, store v (B_Vector p (n + 1) False) (store p (B_Cells cells) M))
       }
     }
   }"

definition getProductId_m :: "string \<Rightarrow> addr \<Rightarrow> memory \<Rightarrow> (int \<times> memory) option" where
  "getProductId_m productName products M = do {
     n \<leftarrow> getVectorSize_m products M;
     after_loop
       (for_loop n 0 (\<lambda>i M. do {
          (p, M) \<leftarrow> getFromVector_m products (int i) M;
          (k, a) \<leftarrow> product_at p M;
          name \<leftarrow> name_at a M;
          Some (if productName = name then Exit (k, M) else Next M)
        }) M)
       (\<lambda>M. Some (- 1, M))
   }"

definition getProductName_m :: "int \<Rightarrow> addr \<Rightarrow> memory \<Rightarrow> (string \<times> memory) option" where
  "getProductName_m i products M = do {
     (p, M) \<leftarrow> getFromVector_m products i M;
     (k, a) \<leftarrow> product_at p M;
     name \<leftarrow> name_at a M;
     Some (name, M)
   }"

text \<open>A new product: when it cannot be added, its block is given back, but not its name.\<close>

definition getProduct_m :: "mallocs \<Rightarrow> string \<Rightarrow> addr \<Rightarrow> memory \<Rightarrow> (addr \<times> mallocs \<times> memory) option" where
  "getProduct_m al name products M = do {
     (i, M) \<leftarrow> getProductId_m name products M;
     if i \<noteq> - 1 then do {
       (p, M) \<leftarrow> getFromVector_m products i M;
       Some (p, al, M)
     } else do {
       let (res, al, M) = malloc (B_Product 0 NULL) al M;
       if res = NULL then Some (NULL, al, M)
       else do {
         let (a, al, M) = malloc (B_Name name) al M;
         if a = NULL then do { M \<leftarrow> free res M; Some (NULL, al, M) }
         else do {
           (k, al, M) \<leftarrow> addToVector_m al products res (store res (B_Product 0 a) M);
           if k = - 1 then do { M \<leftarrow> free res M; Some (NULL, al, M) }
           else Some (res, al, store res (B_Product k a) M)
         }
       }
     }
   }"

definition initStock_m :: "mallocs \<Rightarrow> string \<Rightarrow> int \<Rightarrow> addr \<Rightarrow> memory \<Rightarrow> (addr \<times> mallocs \<times> memory) option" where
  "initStock_m al name amount products M = do {
     let (s, al, M) = malloc (B_Stock amount NULL) al M;
     if s = NULL then Some (NULL, al, M)
     else do {
       (p, al, M) \<leftarrow> getProduct_m al name products M;
       Some (s, al, store s (B_Stock amount p) M)
     }
   }"

text \<open>The stocks of \<open>initPlane\<close>; its other fields are copied from the header by the caller.\<close>

definition init_stocks_m :: "mallocs \<Rightarrow> StockMessagePart \<Rightarrow> addr \<Rightarrow> memory \<Rightarrow> (addr \<times> mallocs \<times> memory) option" where
  "init_stocks_m al part m M = do {
     let (stocks, al, M) = createVector_m al M;
     after_loop
       (for_loop (part_count part) 0 (\<lambda>j (al, M). do {
          pid \<leftarrow> arr_get (part_stockId part) j;
          (cities, product, matrix) \<leftarrow> map_at m M;
          (pname, M) \<leftarrow> getProductName_m pid product M;
          name \<leftarrow> strcpy_into CITY_NAME_MAX_LENGTH pname;
          quant \<leftarrow> arr_get (part_quantities part) j;
          (s, al, M) \<leftarrow> initStock_m al name quant product M;
          (k, al, M) \<leftarrow> addToVector_m al stocks s M;
          Some (Next (al, M))
        }) (al, M))
       (\<lambda>(al, M). Some (stocks, al, M))
   }"

section \<open>Known products\<close>

lemma product_at_view:
  assumes "product_view M a p"
  shows "\<exists>n. product_at a M = Some (product_id p, n) \<and> name_at n M = Some (product_name p)"
  using assms by (auto simp: product_view_def reading name_at_def)

lemma implements_product:
  assumes "product_view M a p" "implements S (f (product_id p) (product_name p)) g"
  shows "implements S (product_at a M \<bind> (\<lambda>(k, n). name_at n M \<bind> (\<lambda>name. f k name))) g"
  using product_at_view [OF assms(1)] assms(2) by auto

lemma getProductId_implemented:
  assumes "vector_view (product_view M) M pv pas ps"
  shows "implements (\<lambda>(i, M') i'. i = i' \<and> M' = M) (getProductId_m name pv M) (getProductId name ps)"
proof -
  let ?R = "\<lambda>(i, M') i'. i = i' \<and> M' = M"
  have round: "implements (rel_flow ?R (\<lambda>M' _. M' = M))
      (do {
        (p, M) \<leftarrow> getFromVector_m pv (int i) M;
        (k, a) \<leftarrow> product_at p M;
        n \<leftarrow> name_at a M;
        Some (if name = n then Exit (k, M) else Next M)
      })
      (do { p \<leftarrow> vec_deref ps (int i); Some (if name = product_name p then Exit (product_id p) else Next ()) })" for i
    by (rule implements_get [OF assms], rule implements_product, assumption) simp
  show ?thesis
    unfolding getProductId_m_def getProductId_def
    by (rule implements_read [OF vector_viewD(1) [OF assms]], rule implements_after_loop [where RN = "\<lambda>M' _. M' = M"],
        rule implements_loop) (use round in auto)
qed

lemma getProductName_implemented:
  assumes "vector_view (product_view M) M pv pas ps"
  shows "implements (\<lambda>(n, M') n'. n = n' \<and> M' = M) (getProductName_m i pv M) (getProductName i ps)"
  unfolding getProductName_m_def getProductName_def
  by (rule implements_get [OF assms], rule implements_product, assumption) simp

lemma getProduct_m_known:
  assumes V: "vector_view (product_view M) M pv pas ps" and wf: "products_wf ps" and p: "p \<in> set (vlist ps)"
  shows "getProduct_m al (product_name p) pv M = Some (pas ! nat (product_id p), al, M)"
    "product_view M (pas ! nat (product_id p)) p"
proof -
  have "vec_inv ps" "find (\<lambda>q. product_name p = product_name q) (vlist ps) = Some p"
    using wf p by (simp_all add: products_wf_def find_product_name)
  then have "getProductId (product_name p) ps = Some (product_id p)"
    by (simp add: getProductId_find)
  then have i: "getProductId_m (product_name p) pv M = Some (product_id p, M)"
    using getProductId_implemented [OF V, of "product_name p"] by (auto simp: implements_def)
  note I = products_wf_in [OF wf p]
  have len: "length pas = length (vlist ps)" "length pas < 2147483648"
    using vector_viewD(2,3) [OF V] .

  obtain vb where "vec_in M pv pas vb"
    using V by (auto simp: vector_view_def)
  then have "getFromVector_m pv (int (nat (product_id p))) M = Some (pas ! nat (product_id p), M)"
    using I len by (intro get_in) auto
  then show "getProduct_m al (product_name p) pv M = Some (pas ! nat (product_id p), al, M)"
    using i I by (auto simp: getProduct_m_def)
  show "product_view M (pas ! nat (product_id p)) p"
    using vector_viewD(4) [OF V, of "nat (product_id p)"] I len by simp
qed


section \<open>Growing vectors\<close>

lemma malloc_ok:
  assumes "fresh_ok M"
  shows "\<exists>a M'. malloc b [] M = (a, [], M') \<and> a \<noteq> NULL \<and> mem_blocks M a = None \<and>
    mem_blocks M' = (mem_blocks M)(a \<mapsto> b) \<and> fresh_ok M'"
  using assms by (auto simp: malloc_def fresh_ok_def)

lemma store_at [simp]: "mem_blocks (store a b M) = (mem_blocks M)(a \<mapsto> b)"
  by (simp add: store_def)

lemma store_fresh: "fresh_ok M \<Longrightarrow> mem_blocks M a \<noteq> None \<Longrightarrow> fresh_ok (store a b M)"
  by (auto simp: fresh_ok_def store_def)

text \<open>A vector as \<open>addToVector\<close> leaves it: the cells end with the last chunk of five.\<close>

definition built :: "memory \<Rightarrow> addr \<Rightarrow> addr list \<Rightarrow> addr list \<Rightarrow> bool" where
  "built M v as vb \<longleftrightarrow> v \<noteq> NULL \<and> (\<exists>p. mem_blocks M v = Some (B_Vector p (length as) False) \<and>
     (if as = [] then p = NULL \<and> vb = [v]
      else p \<noteq> NULL \<and> p \<noteq> v \<and> mem_blocks M p = Some (B_Cells (arr_of (vec_cap (length as)) as)) \<and> vb = [p, v]))"

lemma built_vec_in: "built M v as vb \<Longrightarrow> length as < 2147483648 \<Longrightarrow> vec_in M v as vb"
  unfolding built_def vec_in_def by (cases "as = []") (auto, blast intro: vec_cap_ge)

lemma built_cong: "built M v as vb \<Longrightarrow> (\<And>a. a \<in> set vb \<Longrightarrow> mem_blocks M' a = mem_blocks M a) \<Longrightarrow> built M' v as vb"
  unfolding built_def by (auto split: if_splits)

lemma built_blocks: "built M v as vb \<Longrightarrow> v \<in> set vb \<and> distinct vb \<and> (\<forall>a\<in>set vb. mem_blocks M a \<noteq> None)"
  by (auto simp: built_def split: if_splits)

lemma built_types:
  "built M v as vb \<Longrightarrow> a \<in> set vb \<Longrightarrow> (\<exists>p n l. mem_blocks M a = Some (B_Vector p n l)) \<or> (\<exists>c. mem_blocks M a = Some (B_Cells c))"
  by (cases "a = v") (auto simp: built_def split: if_splits)

lemma free_ok: "a \<noteq> NULL \<Longrightarrow> mem_blocks M a \<noteq> None \<Longrightarrow> fresh_ok M \<Longrightarrow>
    \<exists>M'. free a M = Some M' \<and> mem_blocks M' = (mem_blocks M)(a := None) \<and> fresh_ok M'"
  by (auto simp: free_def fresh_ok_def)

lemma realloc_ok:
  assumes "fresh_ok M" "if p = NULL then cells = [] else mem_blocks M p = Some (B_Cells cells)"
  shows "\<exists>q M'. realloc_m p k [] M = Some (q, [], M') \<and> q \<noteq> NULL \<and> mem_blocks M q = None \<and> fresh_ok M' \<and>
    mem_blocks M' = (if p = NULL then mem_blocks M else (mem_blocks M)(p := None))(q \<mapsto> B_Cells (realloc_cells cells k))"
proof -
  obtain q M1 where q: "malloc (B_Cells (realloc_cells cells k)) [] M = (q, [], M1)" "q \<noteq> NULL" "mem_blocks M q = None"
    "mem_blocks M1 = (mem_blocks M)(q \<mapsto> B_Cells (realloc_cells cells k))" "fresh_ok M1"
    using malloc_ok [OF assms(1)] by blast
  show ?thesis
  proof (cases "p = NULL")
    case True
    then show ?thesis
      using assms(2) q by (simp add: realloc_m_def free_def)
  next
    case False
    then have p: "mem_blocks M p = Some (B_Cells cells)" "q \<noteq> p"
      using assms(2) q(3) by auto
    obtain M2 where M2: "free p M1 = Some M2" "mem_blocks M2 = (mem_blocks M1)(p := None)" "fresh_ok M2"
      using free_ok [of p M1] False p q(4,5) by auto
    then show ?thesis
      using False p q by (simp add: realloc_m_def reading fun_upd_twist)
  qed
qed

text \<open>Appending to a vector touches only its own blocks, and frees the cells it replaces.\<close>

lemma addToVector_built:
  assumes B: "built M v as vb" and fresh: "fresh_ok M"
  shows "\<exists>M' vb'. addToVector_m [] v x M = Some (int (length as), [], M') \<and> built M' v (as @ [x]) vb' \<and> fresh_ok M' \<and>
    (\<forall>a. a \<notin> set vb \<union> set vb' \<longrightarrow> mem_blocks M' a = mem_blocks M a) \<and>
    (\<forall>a\<in>set vb'. a \<in> set vb \<or> mem_blocks M a = None) \<and> (\<forall>a\<in>set vb. a \<notin> set vb' \<longrightarrow> mem_blocks M' a = None)"
proof -
  let ?n = "length as"
  obtain p where p: "v \<noteq> NULL" "mem_blocks M v = Some (B_Vector p ?n False)"
    "if as = [] then p = NULL \<and> vb = [v]
     else p \<noteq> NULL \<and> p \<noteq> v \<and> mem_blocks M p = Some (B_Cells (arr_of (vec_cap ?n) as)) \<and> vb = [p, v]"
    using B by (auto simp: built_def)
  show ?thesis
  proof (cases "?n mod 5 = 0")
    case True
    let ?cells = "if as = [] then [] else arr_of ?n as"
    have "if p = NULL then ?cells = [] else mem_blocks M p = Some (B_Cells ?cells)"
      using p(3) vec_cap_Suc(2) [OF True] by (auto split: if_splits)
    from realloc_ok [OF fresh this, of "?n + 5"] obtain q M1 where q: "realloc_m p (?n + 5) [] M = Some (q, [], M1)" "q \<noteq> NULL"
      "mem_blocks M q = None" "fresh_ok M1"
      "mem_blocks M1 = (if p = NULL then mem_blocks M else (mem_blocks M)(p := None))(q \<mapsto> B_Cells (realloc_cells ?cells (?n + 5)))"
      by blast
    have cells: "realloc_cells ?cells (?n + 5) = arr_of (?n + 5) as"
      using realloc_cells_full [of as 5] by (auto simp: realloc_cells_def arr_of_def)
    have qv: "q \<noteq> v"
      using p(2) q(3) by auto
    let ?M = "store v (B_Vector q (?n + 1) False) (store q (B_Cells (arr_of (?n + 5) (as @ [x]))) M1)"
    have at: "mem_blocks M1 q = Some (B_Cells (arr_of (?n + 5) as))"
      using q(5) cells by simp
    have "addToVector_m [] v x M = Some (int ?n, [], ?M)"
      using True p(2) q(1,2) at by (simp add: addToVector_m_def reading arr_set_arr_of_next)
    moreover have "built ?M v (as @ [x]) [q, v]"
      using True p(1) q(2) qv by (simp add: built_def vec_cap_Suc(1))
    moreover have "fresh_ok ?M"
      using q(4) at p(2,3) q(5) qv by (intro store_fresh) (auto split: if_splits)
    moreover have "mem_blocks ?M a = mem_blocks M a" if "a \<notin> set vb \<union> set [q, v]" for a
      using that p(3) q(5) by (auto split: if_splits)
    moreover have "mem_blocks ?M a = None" if "a \<in> set vb" "a \<notin> set [q, v]" for a
      using that p(3) q(5) by (auto split: if_splits)
    ultimately show ?thesis
      using q(3) p(3) by (intro exI [of _ ?M] exI [of _ "[q, v]"]) (auto split: if_splits)
  next
    case False
    then have ne: "as \<noteq> []"
      by auto
    then have c: "p \<noteq> NULL" "p \<noteq> v" "mem_blocks M p = Some (B_Cells (arr_of (vec_cap ?n) as))" "vb = [p, v]"
      using p(3) by auto
    let ?M = "store v (B_Vector p (?n + 1) False) (store p (B_Cells (arr_of (vec_cap ?n) (as @ [x]))) M)"
    have "addToVector_m [] v x M = Some (int ?n, [], ?M)"
      using False p(2) c(3) vec_cap_room [OF False] by (simp add: addToVector_m_def reading arr_set_arr_of_next)
    moreover have "built ?M v (as @ [x]) [p, v]"
      using False p(1) c by (simp add: built_def vec_cap_Suc(1))
    moreover have "fresh_ok ?M"
      using fresh p(2) c(2,3) by (intro store_fresh) auto
    ultimately show ?thesis
      using c by (intro exI [of _ ?M] exI [of _ "[p, v]"]) auto
  qed
qed


section \<open>Building the stocks of a plane\<close>

text \<open>Blocks that are not part of a vector stay.\<close>

definition keeps_data :: "memory \<Rightarrow> memory \<Rightarrow> bool" where
  "keeps_data M M' \<longleftrightarrow> (\<forall>a b. mem_blocks M a = Some b \<longrightarrow> (\<forall>p n l. b \<noteq> B_Vector p n l) \<longrightarrow> (\<forall>c. b \<noteq> B_Cells c) \<longrightarrow>
     mem_blocks M' a = Some b)"

lemma keeps_dataD:
  "keeps_data M M' \<Longrightarrow> mem_blocks M a = Some b \<Longrightarrow> (\<And>p n l. b \<noteq> B_Vector p n l) \<Longrightarrow> (\<And>c. b \<noteq> B_Cells c) \<Longrightarrow> mem_blocks M' a = Some b"
  by (simp add: keeps_data_def)

lemma keeps_data_trans: "keeps_data M M' \<Longrightarrow> keeps_data M' M'' \<Longrightarrow> keeps_data M M''"
  unfolding keeps_data_def by simp

lemma keeps_product: "keeps_data M M' \<Longrightarrow> product_view M a p \<Longrightarrow> product_view M' a p"
  by (auto simp: product_view_def dest: keeps_dataD)

lemma keeps_stock:
  assumes "keeps_data M M'" "stock_view M a s"
  shows "stock_view M' a s"
proof -
  obtain q where q: "a \<noteq> NULL" "mem_blocks M a = Some (B_Stock (stock_amount s) q)"
    "case stock_product s of None \<Rightarrow> q = NULL | Some p \<Rightarrow> product_view M q p"
    using assms(2) by (auto simp: stock_view_def)
  have "mem_blocks M' a = Some (B_Stock (stock_amount s) q)"
    using keeps_dataD [OF assms(1) q(2)] by simp
  then show ?thesis
    using q(1,3) keeps_product [OF assms(1)] by (auto simp: stock_view_def split: option.splits)
qed

text \<open>All blocks stay.\<close>

definition extends :: "memory \<Rightarrow> memory \<Rightarrow> bool" where
  "extends M M' \<longleftrightarrow> (\<forall>a b. mem_blocks M a = Some b \<longrightarrow> mem_blocks M' a = Some b)"

lemma extendsD: "extends M M' \<Longrightarrow> mem_blocks M a = Some b \<Longrightarrow> mem_blocks M' a = Some b"
  by (simp add: extends_def)

lemma extends_keeps: "extends M M' \<Longrightarrow> keeps_data M M'"
  by (simp add: extends_def keeps_data_def)

lemma extends_vec: "extends M M' \<Longrightarrow> vec_in M v xs bs \<Longrightarrow> vec_in M' v xs bs"
  unfolding vec_in_def by (fastforce dest: extendsD)

lemma extends_vector:
  assumes "extends M M'" "vector_view P M v as xs" "\<And>a x. P a x \<Longrightarrow> Q a x"
  shows "vector_view Q M' v as xs"
  by (rule vector_view_mono [OF assms(2) extends_vec [OF assms(1)] assms(3)])

lemma extends_city: "extends M M' \<Longrightarrow> city_view M sa c y \<Longrightarrow> city_view M' sa c y"
  unfolding city_view_def by (blast dest: extendsD extends_vector keeps_stock [OF extends_keeps])

lemma extends_map:
  assumes "extends M M'" "map_view M m cas sas mp"
  shows "map_view M' m cas sas mp"
proof -
  obtain cities product matrix pas rows where V: "mem_blocks M m = Some (B_Map cities product matrix)"
    "vector_view (\<lambda>c y. True) M cities cas (map_cities mp)" "length sas = length cas"
    "\<And>i. i < length cas \<Longrightarrow> city_view M (sas ! i) (cas ! i) (vlist (map_cities mp) ! i)"
    "vector_view (product_view M) M product pas (map_product mp)" "mem_blocks M matrix = Some (B_Matrix (map Some rows))"
    "list_all2 (\<lambda>r xs. mem_blocks M r = Some (B_Row xs)) rows (map_matrix mp)" "distinct (concat sas)"
    using assms(2) by (auto simp: map_view_def)
  have "list_all2 (\<lambda>r xs. mem_blocks M' r = Some (B_Row xs)) rows (map_matrix mp)"
    using V(7) by (rule list_all2_mono) (rule extendsD [OF assms(1)])
  with V(3,8) extendsD [OF assms(1) V(1)] extendsD [OF assms(1) V(6)] extends_city [OF assms(1) V(4)]
    extends_vector [OF assms(1) V(2)] extends_vector [OF assms(1) V(5) keeps_product [OF extends_keeps [OF assms(1)]]]
  show ?thesis
    by (auto simp: map_view_def intro!: exI)
qed

text \<open>A vector at \<open>v\<close> under construction: its blocks and the elements are all that is new since \<open>M\<close>.\<close>

definition growing :: "memory \<Rightarrow> addr \<Rightarrow> addr list \<Rightarrow> addr list \<Rightarrow> memory \<Rightarrow> bool" where
  "growing M v as vb M' \<longleftrightarrow> built M' v as vb \<and> fresh_ok M' \<and> distinct (as @ vb) \<and> without M' (as @ vb) M \<and>
     (\<forall>a\<in>set as. mem_blocks M' a \<noteq> None)"

lemma growing_extends: "growing M v as vb M' \<Longrightarrow> extends M M'"
  by (auto simp: growing_def extends_def without_def split: if_splits)

lemma createVector_growing:
  assumes "fresh_ok M"
  shows "\<exists>v M'. createVector_m [] M = (v, [], M') \<and> growing M v [] [v] M'"
proof -
  obtain v M' where "malloc (B_Vector NULL 0 False) [] M = (v, [], M')" "v \<noteq> NULL" "mem_blocks M v = None"
    "mem_blocks M' = (mem_blocks M)(v \<mapsto> B_Vector NULL 0 False)" "fresh_ok M'"
    using malloc_ok [OF assms] by blast
  then show ?thesis
    by (auto simp: createVector_m_def growing_def built_def without_def)
qed

lemma growing_add:
  assumes G: "growing M v as vb M1" and s: "mem_blocks M1 s = None" "s \<noteq> NULL"
    and M2: "mem_blocks M2 = (mem_blocks M1)(s \<mapsto> b)" "fresh_ok M2" "\<And>p n l. b \<noteq> B_Vector p n l" "\<And>c. b \<noteq> B_Cells c"
  shows "\<exists>M3 vb'. addToVector_m [] v s M2 = Some (int (length as), [], M3) \<and> growing M v (as @ [s]) vb' M3 \<and> keeps_data M2 M3"
proof -
  have g: "built M1 v as vb" "fresh_ok M1" "distinct (as @ vb)" "\<And>a. mem_blocks M a = (if a \<in> set (as @ vb) then None else mem_blocks M1 a)"
    "\<And>a. a \<in> set as \<Longrightarrow> mem_blocks M1 a \<noteq> None"
    using G by (auto simp: growing_def without_def)
  have new: "s \<notin> set as" "s \<notin> set vb"
    using g(5) [of s] built_blocks [OF g(1)] s(1) by auto
  have "built M2 v as vb"
    by (rule built_cong [OF g(1)]) (use M2(1) new in auto)
  note B = this
  from addToVector_built [OF B M2(2), of s] obtain M3 vb' where A: "addToVector_m [] v s M2 = Some (int (length as), [], M3)"
    "built M3 v (as @ [s]) vb'" "fresh_ok M3" "\<forall>a. a \<notin> set vb \<union> set vb' \<longrightarrow> mem_blocks M3 a = mem_blocks M2 a"
    "\<forall>a\<in>set vb'. a \<in> set vb \<or> mem_blocks M2 a = None" "\<forall>a\<in>set vb. a \<notin> set vb' \<longrightarrow> mem_blocks M3 a = None"
    by blast
  note M3 = A(1-3) A(4) [rule_format] A(5,6) [rule_format]
  have out: "a \<notin> set vb'" if "mem_blocks M2 a \<noteq> None" "a \<notin> set vb" for a
    using M3(5) [of a] that by auto
  have elems: "a \<notin> set vb \<and> a \<notin> set vb' \<and> mem_blocks M3 a = mem_blocks M2 a \<and> mem_blocks M2 a \<noteq> None" if "a \<in> set (as @ [s])" for a
  proof -
    have "a \<notin> set vb" "mem_blocks M2 a \<noteq> None"
      using that g(3) new g(5) M2(1) by auto
    with out M3(4) show ?thesis
      by auto
  qed
  have "mem_blocks M a = (if a \<in> set ((as @ [s]) @ vb') then None else mem_blocks M3 a)" for a
  proof (cases "a \<in> set ((as @ [s]) @ vb')")
    case True
    then have "mem_blocks M a = None"
      using g(4) [of a] M3(5) [of a] s(1) M2(1) new by (auto split: if_splits)
    then show ?thesis
      using True by simp
  next
    case False
    then show ?thesis
      using g(4) [of a] M3(4,6) [of a] M2(1) by (auto split: if_splits)
  qed
  moreover have "distinct ((as @ [s]) @ vb')"
    using g(3) new built_blocks [OF M3(2)] elems by auto
  ultimately have "growing M v (as @ [s]) vb' M3"
    using M3(2,3) elems by (auto simp: growing_def without_def)
  moreover have "keeps_data M2 M3"
  proof -
    have "a \<notin> set vb" if "mem_blocks M2 a = Some b'" "\<And>p n l. b' \<noteq> B_Vector p n l" "\<And>c. b' \<noteq> B_Cells c" for a b'
      using built_types [OF B, of a] that by auto
    then show ?thesis
      using out M3(4) unfolding keeps_data_def by (metis UnE option.distinct(1))
  qed
  ultimately show ?thesis
    using M3(1) by blast
qed


text \<open>One round of \<open>initPlane\<close>: the next stock of the message lies in memory.\<close>

lemma init_round:
  assumes m: "map_view M m cas sas mp" and ps: "products_wf (map_product mp)" "names_fit (map_product mp)"
    and ss: "stocks_known (map_product mp) ss" "length ss \<le> MAX_STOCKS" "j < length ss"
    and G: "growing M v as vb M1" "list_all2 (stock_view M1) as (take j ss)"
  shows "\<exists>M' as' vb'. do {
        pid \<leftarrow> arr_get (part_stockId (part_of ss)) j;
        (cities, product, matrix) \<leftarrow> map_at m M1;
        (pname, M) \<leftarrow> getProductName_m pid product M1;
        name \<leftarrow> strcpy_into CITY_NAME_MAX_LENGTH pname;
        quant \<leftarrow> arr_get (part_quantities (part_of ss)) j;
        (s, al, M) \<leftarrow> initStock_m [] name quant product M;
        (k, al, M) \<leftarrow> addToVector_m al v s M;
        Some (Next (al, M))
      } = Some (Next ([], M')) \<and> growing M v as' vb' M' \<and> list_all2 (stock_view M') as' (take (Suc j) ss)"
proof -
  have known: "stock_wf (ss ! j)" "the (stock_product (ss ! j)) \<in> set (vlist (map_product mp))"
    using ss(1,3) by (simp_all add: stocks_known_def list_all_length)
  obtain p where p: "stock_product (ss ! j) = Some p" "stock_pid (ss ! j) = product_id p"
    using known(1) by (rule stock_wfE)
  have in_ps: "p \<in> set (vlist (map_product mp))"
    using known(2) p(1) by simp
  have fits: "strcpy_into CITY_NAME_MAX_LENGTH (product_name p) = Some (product_name p)"
    using ps(2) in_ps by (simp add: names_fit_def list_all_iff strcpy_into_def)
  have part: "arr_get (part_stockId (part_of ss)) j = Some (product_id p)" "arr_get (part_quantities (part_of ss)) j = Some (stock_amount (ss ! j))"
    using ss(3) p(2) by (simp_all add: part_of_def)
  obtain cities product matrix pas where V: "mem_blocks M m = Some (B_Map cities product matrix)"
    "vector_view (product_view M) M product pas (map_product mp)"
    using m by (auto simp: map_view_def)
  have V1: "vector_view (product_view M') M' product pas (map_product mp)" if "extends M M'" for M'
    by (rule extends_vector [OF that V(2) keeps_product [OF extends_keeps [OF that]]])
  note E1 = growing_extends [OF G(1)]
  have name: "getProductName_m (product_id p) product M1 = Some (product_name p, M1)"
    using getProductName_implemented [OF V1 [OF E1], of "product_id p"] getProductName_known [OF ps(1) in_ps]
    by (auto simp: implements_def)
  have at: "map_at m M1 = Some (cities, product, matrix)"
    using extendsD [OF E1 V(1)] by (simp add: reading)
  have "fresh_ok M1"
    using G(1) by (simp add: growing_def)
  from malloc_ok [OF this, of "B_Stock (stock_amount (ss ! j)) NULL"] obtain s M2
    where s: "malloc (B_Stock (stock_amount (ss ! j)) NULL) [] M1 = (s, [], M2)" "s \<noteq> NULL" "mem_blocks M1 s = None"
      "mem_blocks M2 = (mem_blocks M1)(s \<mapsto> B_Stock (stock_amount (ss ! j)) NULL)" "fresh_ok M2"
    by blast
  let ?q = "pas ! nat (product_id p)"
  let ?M3 = "store s (B_Stock (stock_amount (ss ! j)) ?q) M2"
  have E3: "extends M1 M2" "extends M1 ?M3" "extends M M2"
    using s(3,4) E1 by (auto simp: extends_def)
  have product: "getProduct_m [] (product_name p) product M2 = Some (?q, [], M2)"
    by (rule getProduct_m_known [OF V1 [OF E3(3)] ps(1) in_ps])
  have M3: "mem_blocks ?M3 = (mem_blocks M1)(s \<mapsto> B_Stock (stock_amount (ss ! j)) ?q)" "fresh_ok ?M3"
    using s(4,5) store_fresh [of M2 s] by auto
  obtain M4 vb' where M4: "addToVector_m [] v s ?M3 = Some (int (length as), [], M4)" "growing M v (as @ [s]) vb' M4" "keeps_data ?M3 M4"
    using growing_add [OF G(1) s(3,2) M3] by auto
  have K: "keeps_data M1 M4"
    by (rule keeps_data_trans [OF extends_keeps [OF E3(2)] M4(3)])
  have "stock_view M4 s (ss ! j)"
  proof -
    have "mem_blocks M4 s = Some (B_Stock (stock_amount (ss ! j)) ?q)"
      using keeps_dataD [OF M4(3), of s] by simp
    then show ?thesis
      using getProduct_m_known(2) [OF V1 [OF growing_extends [OF M4(2)]] ps(1) in_ps] s(2) p(1) by (simp add: stock_view_def)
  qed
  moreover have "list_all2 (stock_view M4) as (take j ss)"
    using G(2) by (rule list_all2_mono) (rule keeps_stock [OF K])
  ultimately have "list_all2 (stock_view M4) (as @ [s]) (take (Suc j) ss)"
    using ss(3) by (simp add: take_Suc_conv_app_nth list_all2_appendI)
  then show ?thesis
    using M4(1,2) s(1,2) by (auto simp: part at name fits initStock_m_def product)
qed

lemma init_stocks_m_ok:
  assumes m: "map_view M m cas sas mp" and ps: "products_wf (map_product mp)" "names_fit (map_product mp)"
    and ss: "stocks_known (map_product mp) ss" "length ss \<le> MAX_STOCKS" and fresh: "fresh_ok M"
  shows "\<exists>v as vb M'. init_stocks_m [] (part_of ss) m M = Some (v, [], M') \<and> growing M v as vb M' \<and> stocks_view M' v as (vec_of ss)"
proof -
  obtain v M1 where v: "createVector_m [] M = (v, [], M1)" "growing M v [] [v] M1"
    using createVector_growing [OF fresh] by blast
  let ?I = "\<lambda>j (al :: mallocs, M'). al = [] \<and> (\<exists>as vb. growing M v as vb M' \<and> list_all2 (stock_view M') as (take j ss))"
  let ?body = "\<lambda>j (al, M). (do {
          pid \<leftarrow> arr_get (part_stockId (part_of ss)) j;
          (cities, product, matrix) \<leftarrow> map_at m M;
          (pname, M) \<leftarrow> getProductName_m pid product M;
          name \<leftarrow> strcpy_into CITY_NAME_MAX_LENGTH pname;
          quant \<leftarrow> arr_get (part_quantities (part_of ss)) j;
          (s, al, M) \<leftarrow> initStock_m al name quant product M;
          (k, al, M) \<leftarrow> addToVector_m al v s M;
          Some (Next (al, M))
        } :: (addr \<times> mallocs \<times> memory, mallocs \<times> memory) flow option)"
  have "\<exists>s'. for_loop (length ss) 0 ?body ([], M1) = Some (Next s') \<and> ?I (0 + length ss) s'"
  proof (rule for_loop_invariant [where I = ?I])
    show "?I 0 ([], M1)"
      using v(2) by auto
    fix j and s :: "mallocs \<times> memory"
    assume j: "0 \<le> j" "j < 0 + length ss" "?I j s"
    then obtain M2 as vb where s: "s = ([], M2)" "growing M v as vb M2" "list_all2 (stock_view M2) as (take j ss)"
      by auto
    have "j < length ss"
      using j(2) by simp
    from init_round [OF m ps ss this s(2,3)] show "\<exists>s'. ?body j s = Some (Next s') \<and> ?I (Suc j) s'"
      unfolding s(1) prod.case by fastforce
  qed
  then obtain M' as vb where M': "for_loop (length ss) 0 ?body ([], M1) = Some (Next ([], M'))" "growing M v as vb M'"
    "list_all2 (stock_view M') as ss"
    by auto
  have "length as < 2147483648"
    using list_all2_lengthD [OF M'(3)] ss(2) by (simp add: MAX_STOCKS_def)
  then have "stocks_view M' v as (vec_of ss)"
    using built_vec_in [of M' v as vb] M'(2,3) by (auto simp: vector_view_def growing_def)
  moreover have "init_stocks_m [] (part_of ss) m M = Some (v, [], M')"
    using M'(1) by (simp add: init_stocks_m_def v(1)) (simp add: part_of_def)
  ultimately show ?thesis
    using M'(2) by blast
qed


section \<open>After the plane is gone\<close>

text \<open>
  \<open>M2\<close> is later than \<open>M\<close>: the blocks of \<open>M\<close> are there up to amounts, and more. \<open>M3\<close> has only the
  blocks of \<open>M\<close> left, as they are in \<open>M2\<close>. What lay in \<open>M\<close> and is seen in \<open>M2\<close>, is seen in \<open>M3\<close>.
\<close>

definition later :: "memory \<Rightarrow> memory \<Rightarrow> memory \<Rightarrow> bool" where
  "later M M2 M3 \<longleftrightarrow> (\<forall>a b. mem_blocks M a = Some b \<longrightarrow> mem_blocks M3 a = mem_blocks M2 a \<and>
     (mem_blocks M2 a = Some b \<or> (\<exists>n n' q. b = B_Stock n q \<and> mem_blocks M2 a = Some (B_Stock n' q))))"

lemma laterD:
  assumes "later M M2 M3" "mem_blocks M a = Some b"
  shows "mem_blocks M3 a = mem_blocks M2 a"
    "(\<And>n q. b \<noteq> B_Stock n q) \<Longrightarrow> mem_blocks M2 a = Some b"
    "b = B_Stock n q \<Longrightarrow> \<exists>n'. mem_blocks M2 a = Some (B_Stock n' q)"
  using assms unfolding later_def by blast+

lemma later_other: "later M M2 M3 \<Longrightarrow> mem_blocks M a = Some b \<Longrightarrow> (\<And>n q. b \<noteq> B_Stock n q) \<Longrightarrow> mem_blocks M3 a = Some b"
  using laterD(1,2) [of M M2 M3 a b] by simp

lemma later_vec: "later M M2 M3 \<Longrightarrow> vec_in M v xs bs \<Longrightarrow> vec_in M3 v xs bs"
  unfolding vec_in_def by (fastforce intro: later_other)

lemma later_vec2: "later M M2 M3 \<Longrightarrow> vec_in M v xs bs \<Longrightarrow> vec_in M2 v xs bs"
  unfolding vec_in_def by (fastforce intro: laterD(2))

lemma vec_in_unique:
  assumes "vec_in M v xs bs" "vec_in M v ys cs"
  shows "xs = ys"
proof (rule nth_equalityI)
  show len: "length xs = length ys"
    using assms by (auto simp: vec_in_def)
  fix i
  assume i: "i < length xs"
  have "getFromVector_m v (int i) M = Some (xs ! i, M)" "getFromVector_m v (int i) M = Some (ys ! i, M)"
    using get_in [OF assms(1) i refl] get_in [OF assms(2) _ refl, of i] i len by simp_all
  then show "xs ! i = ys ! i"
    by simp
qed

lemma later_product:
  assumes "later M M2 M3" "product_view M a p0" "product_view M2 a p"
  shows "product_view M3 a p"
proof -
  obtain name where n: "a \<noteq> NULL" "mem_blocks M a = Some (B_Product (product_id p0) name)" "mem_blocks M name = Some (B_Name (product_name p0))"
    using assms(2) by (auto simp: product_view_def)
  have "mem_blocks M2 a = Some (B_Product (product_id p0) name)" "mem_blocks M2 name = Some (B_Name (product_name p0))"
    using laterD(2) [OF assms(1) n(2)] laterD(2) [OF assms(1) n(3)] by simp_all
  then show ?thesis
    using assms(3) laterD(1) [OF assms(1) n(2)] laterD(1) [OF assms(1) n(3)] by (auto simp: product_view_def)
qed

lemma later_stock:
  assumes "later M M2 M3" "stock_view M a s0" "stock_view M2 a s"
  shows "stock_view M3 a s"
proof -
  obtain q where q: "a \<noteq> NULL" "mem_blocks M a = Some (B_Stock (stock_amount s0) q)"
    "case stock_product s0 of None \<Rightarrow> q = NULL | Some p \<Rightarrow> product_view M q p"
    using assms(2) by (auto simp: stock_view_def)
  have M2: "mem_blocks M2 a = Some (B_Stock (stock_amount s) q)" "case stock_product s of None \<Rightarrow> q = NULL | Some p \<Rightarrow> product_view M2 q p"
    using assms(3) laterD(3) [OF assms(1) q(2) refl] by (auto simp: stock_view_def)
  have "case stock_product s of None \<Rightarrow> q = NULL | Some p \<Rightarrow> product_view M3 q p"
    using q(3) M2(2) later_product [OF assms(1)] by (auto simp: product_view_def split: option.splits)
  then show ?thesis
    using q(1) M2(1) laterD(1) [OF assms(1) q(2)] by (simp add: stock_view_def)
qed

lemma later_vector:
  assumes "later M M2 M3" "vector_view P M v as xs0" "vector_view Q M2 v as xs"
    and "\<And>a x0 x. P a x0 \<Longrightarrow> Q a x \<Longrightarrow> R a x"
  shows "vector_view R M3 v as xs"
proof -
  obtain vb ys0 where v: "vec_in M v as vb" "list_all2 P as ys0"
    using assms(2) by (auto simp: vector_view_def)
  obtain ys where xs: "xs = vec_of ys" "list_all2 Q as ys"
    using assms(3) by (auto simp: vector_view_def)
  have "list_all2 R as ys"
    using v(2) xs(2) assms(4) by (fastforce simp: list_all2_conv_all_nth)
  then show ?thesis
    using later_vec [OF assms(1) v(1)] xs(1) by (auto simp: vector_view_def)
qed

lemma later_city:
  assumes "later M M2 M3" "city_view M sa c y0" "city_view M2 sa c y"
  shows "city_view M3 sa c y"
proof -
  obtain name stocks where n: "c \<noteq> NULL" "mem_blocks M c = Some (B_City name (city_id y0) stocks)"
    "mem_blocks M name = Some (B_Name (city_name y0))" "stocks_view M stocks sa (city_stock y0)"
    using assms(2) by (auto simp: city_view_def)
  have M2: "mem_blocks M2 c = Some (B_City name (city_id y0) stocks)" "mem_blocks M2 name = Some (B_Name (city_name y0))"
    using laterD(2) [OF assms(1) n(2)] laterD(2) [OF assms(1) n(3)] by simp_all
  then have y: "city_id y = city_id y0" "city_name y = city_name y0" "stocks_view M2 stocks sa (city_stock y)"
    using assms(3) by (auto simp: city_view_def)
  have "stocks_view M3 stocks sa (city_stock y)"
    by (rule later_vector [OF assms(1) n(4) y(3)]) (rule later_stock [OF assms(1)])
  then show ?thesis
    using n(1) M2 y(1,2) laterD(1) [OF assms(1) n(2)] laterD(1) [OF assms(1) n(3)] by (simp add: city_view_def)
qed

lemma later_map:
  assumes L: "later M M2 M3" and m: "map_view M m cas sas mp0" "map_view M2 m cas sas mp"
  shows "map_view M3 m cas sas mp"
proof -
  obtain cities product matrix pas rows where V: "mem_blocks M m = Some (B_Map cities product matrix)"
    "vector_view (\<lambda>c y. True) M cities cas (map_cities mp0)" "length sas = length cas"
    "\<And>i. i < length cas \<Longrightarrow> city_view M (sas ! i) (cas ! i) (vlist (map_cities mp0) ! i)"
    "vector_view (product_view M) M product pas (map_product mp0)" "mem_blocks M matrix = Some (B_Matrix (map Some rows))"
    "list_all2 (\<lambda>r xs. mem_blocks M r = Some (B_Row xs)) rows (map_matrix mp0)" "distinct (concat sas)"
    using m(1) by (auto simp: map_view_def)
  have M2: "mem_blocks M2 m = Some (B_Map cities product matrix)" "mem_blocks M2 matrix = Some (B_Matrix (map Some rows))"
    using laterD(2) [OF L V(1)] laterD(2) [OF L V(6)] by simp_all
  obtain pas2 rows2 where V2: "vector_view (\<lambda>c y. True) M2 cities cas (map_cities mp)"
    "\<And>i. i < length cas \<Longrightarrow> city_view M2 (sas ! i) (cas ! i) (vlist (map_cities mp) ! i)"
    "vector_view (product_view M2) M2 product pas2 (map_product mp)" "rows2 = rows"
    "list_all2 (\<lambda>r xs. mem_blocks M2 r = Some (B_Row xs)) rows2 (map_matrix mp)"
    using m(2) M2 by (auto simp: map_view_def inj_map_eq_map [OF inj_Some])
  have "pas2 = pas"
  proof -
    obtain vb vb2 where "vec_in M product pas vb" "vec_in M2 product pas2 vb2"
      using V(5) V2(3) by (auto simp: vector_view_def)
    then show ?thesis
      using vec_in_unique later_vec2 [OF L] by metis
  qed
  then have "vector_view (product_view M2) M2 product pas (map_product mp)"
    using V2(3) by simp
  then have products: "vector_view (product_view M3) M3 product pas (map_product mp)"
    by (rule later_vector [OF L V(5)]) (rule later_product [OF L])
  have "mem_blocks M3 r = Some (B_Row xs)" if "mem_blocks M2 r = Some (B_Row xs)" "mem_blocks M r = Some (B_Row ys)" for r xs ys
    using that laterD(1) [OF L that(2)] by simp
  then have matrix: "list_all2 (\<lambda>r xs. mem_blocks M3 r = Some (B_Row xs)) rows (map_matrix mp)"
    using V(7) V2(4,5) by (fastforce simp: list_all2_conv_all_nth)
  have cities: "vector_view (\<lambda>c y. True) M3 cities cas (map_cities mp)"
    by (rule later_vector [OF L V(2) V2(1)]) simp
  have "city_view M3 (sas ! i) (cas ! i) (vlist (map_cities mp) ! i)" if "i < length cas" for i
    by (rule later_city [OF L V(4) [OF that] V2(2) [OF that]])
  then show ?thesis
    using cities products matrix V(3,8) M2 laterD(1) [OF L V(1)] laterD(1) [OF L V(6)] by (auto simp: map_view_def intro!: exI)
qed

end
