(* ===== verification/Memory_Scores.thy ===== *)
theory Memory_Scores
  imports Memory_Planes
begin

text \<open>
  The functions of \<open>app/map.c\<close> that only read the map and the stocks of a plane, on pointers: is a
  city satisfied, is the simulation over, what is left to deliver, which cities to offer. Each gives
  the result of the function on the values seen in memory, and changes nothing.
\<close>

section \<open>The functions\<close>

definition hasNoStocks_m :: "addr \<Rightarrow> memory \<Rightarrow> (int \<times> memory) option" where
  "hasNoStocks_m stocks M = do {
     n \<leftarrow> getVectorSize_m stocks M;
     after_loop
       (for_loop n 0 (\<lambda>i (_, M). do {
          (s, M) \<leftarrow> getFromVector_m stocks (int i) M;
          (amount, q) \<leftarrow> stock_at s M;
          Some (if amount \<noteq> 0 then Exit (0, M) else Next ((), M))
        }) ((), M))
       (\<lambda>(_, M). Some (1, M))
   }"

definition cityIsSatisfied_m :: "addr \<Rightarrow> memory \<Rightarrow> (int \<times> memory) option" where
  "cityIsSatisfied_m city M = do {
     (name, k, stock) \<leftarrow> city_at city M;
     hasNoStocks_m stock M
   }"

definition endSimulation_m :: "addr \<Rightarrow> int \<Rightarrow> memory \<Rightarrow> (int \<times> memory) option" where
  "endSimulation_m m turn M = do {
     (cities, product, matrix) \<leftarrow> map_at m M;
     n \<leftarrow> getVectorSize_m cities M;
     if turn < 70000 then
       after_loop
         (for_loop n 0 (\<lambda>i (_, M). do {
            (cities, product, matrix) \<leftarrow> map_at m M;
            (c, M) \<leftarrow> getFromVector_m cities (int i) M;
            (satisfied, M) \<leftarrow> cityIsSatisfied_m c M;
            Some (if satisfied = 0 then Exit (CONTINUE_SIM, M) else Next ((), M))
          }) ((), M))
         (\<lambda>(_, M). Some (END_SIM, M))
     else Some (END_SIM, M)
   }"

definition stock_sum_m :: "addr \<Rightarrow> memory \<Rightarrow> (int \<times> memory) option" where
  "stock_sum_m stocks M = do {
     n \<leftarrow> getVectorSize_m stocks M;
     after_loop
       (for_loop n 0 (\<lambda>j (cityStockAmount, M). do {
          (s, M) \<leftarrow> getFromVector_m stocks (int j) M;
          (amount, q) \<leftarrow> stock_at s M;
          acc \<leftarrow> iadd cityStockAmount amount;
          Some (Next (acc, M))
        }) (0, M))
       Some
   }"

definition get_map_status_m :: "addr \<Rightarrow> memory \<Rightarrow> ((int \<times> int) \<times> memory) option" where
  "get_map_status_m m M = do {
     (cities, product, matrix) \<leftarrow> map_at m M;
     n \<leftarrow> getVectorSize_m cities M;
     after_loop
       (for_loop n 0 (\<lambda>i ((acc, citiesSatisfied), M). do {
          (cities, product, matrix) \<leftarrow> map_at m M;
          (c, M) \<leftarrow> getFromVector_m cities (int i) M;
          (name, k, stock) \<leftarrow> city_at c M;
          (cityStockAmount, M) \<leftarrow> stock_sum_m stock M;
          let citiesSatisfied' = (if cityStockAmount = 0 then citiesSatisfied + 1 else citiesSatisfied);
          acc' \<leftarrow> iadd acc cityStockAmount;
          Some (Next ((acc', citiesSatisfied'), M))
        }) ((0, 0), M))
       Some
   }"

definition stock_overlap_m :: "addr \<Rightarrow> addr \<Rightarrow> int \<Rightarrow> memory \<Rightarrow> (int \<times> memory) option" where
  "stock_overlap_m cityStock planeStocks score M = do {
     n \<leftarrow> getVectorSize_m planeStocks M;
     after_loop
       (for_loop n 0 (\<lambda>j (sc, M). do {
          (planeStock, M) \<leftarrow> getFromVector_m planeStocks (int j) M;
          (cn, cq) \<leftarrow> stock_at cityStock M;
          (cid, cname) \<leftarrow> product_at cq M;
          (pn, pq) \<leftarrow> stock_at planeStock M;
          (pid, pname) \<leftarrow> product_at pq M;
          if cid = pid then do {
            score' \<leftarrow> iadd sc (if cn > pn then pn else cn);
            Some (Exit (score', M))
          } else Some (Next (sc, M))
        }) (score, M))
       Some
   }"

definition getCityScore_m :: "addr \<Rightarrow> addr \<Rightarrow> memory \<Rightarrow> (int \<times> memory) option" where
  "getCityScore_m cityStocks planeStocks M = do {
     n \<leftarrow> getVectorSize_m cityStocks M;
     after_loop
       (for_loop n 0 (\<lambda>i (score, M). do {
          (cityStock, M) \<leftarrow> getFromVector_m cityStocks (int i) M;
          (score', M) \<leftarrow> stock_overlap_m cityStock planeStocks score M;
          Some (Next (score', M))
        }) (0, M))
       Some
   }"

text \<open>\<open>map->matrix[city1][city2]\<close>.\<close>

definition row_at :: "addr \<Rightarrow> memory \<Rightarrow> int list option" where
  "row_at a M = (case mem_blocks M a of Some (B_Row xs) \<Rightarrow> Some xs | _ \<Rightarrow> None)"

definition getDistance_m :: "addr \<Rightarrow> int \<Rightarrow> int \<Rightarrow> memory \<Rightarrow> int option" where
  "getDistance_m m city1 city2 M = do {
     (cities, product, matrix) \<leftarrow> map_at m M;
     rows \<leftarrow> matrix_at matrix M;
     if city1 < 0 \<or> city2 < 0 then None
     else do {
       row \<leftarrow> arr_get rows (nat city1);
       xs \<leftarrow> row_at row M;
       if nat city2 < length xs then Some (xs ! nat city2) else None
     }
   }"

definition collect_city_m :: "addr \<Rightarrow> int \<Rightarrow> addr \<Rightarrow> nat \<Rightarrow> nat \<times> CityInfo list \<Rightarrow> memory \<Rightarrow>
  ((nat \<times> CityInfo list) \<times> memory) option" where
  "collect_city_m m cityId planeStocks i = (\<lambda>(cnt, cityInfo) M. do {
     (cities, product, matrix) \<leftarrow> map_at m M;
     (c, M) \<leftarrow> getFromVector_m cities (int i) M;
     (name, k, stock) \<leftarrow> city_at c M;
     (score, M) \<leftarrow> getCityScore_m stock planeStocks M;
     if score = 0 then Some ((cnt, cityInfo), M)
     else do {
       (index, cityInfo') \<leftarrow> insertScore cityInfo MAX_DESTINATIONS cnt score;
       if index = - 1 then Some ((cnt, cityInfo'), M)
       else do {
         distance \<leftarrow> getDistance_m m k cityId M;
         e \<leftarrow> ci_at cityInfo' (nat index);
         Some ((if cnt \<noteq> MAX_DESTINATIONS then cnt + 1 else cnt,
                cityInfo'[nat index := e\<lparr>ci_cityId := Some k, ci_distance := Some distance\<rparr>]), M)
       }
     }
   })"

definition app_give_destinations_m :: "addr \<Rightarrow> int \<Rightarrow> int \<Rightarrow> addr \<Rightarrow> memory \<Rightarrow> (DestinationsMessage \<times> memory) option" where
  "app_give_destinations_m m planeId cityId planeStocks M = do {
     (cities, product, matrix) \<leftarrow> map_at m M;
     n \<leftarrow> getVectorSize_m cities M;
     ((cnt, cityInfo), M) \<leftarrow> after_loop
       (for_loop n 0 (\<lambda>i (s, M). do {
          (s', M) \<leftarrow> collect_city_m m cityId planeStocks i s M;
          Some (Next (s', M))
        }) ((0, replicate MAX_DESTINATIONS ci_unset), M))
       Some;
     sorted_infos \<leftarrow> c_qsort cityInfoComparator (take cnt cityInfo);
     (citiesIds, distances) \<leftarrow> split_infos (sorted_infos @ drop cnt cityInfo) cnt;
     msg \<leftarrow> marshall_give_destinations planeId cnt citiesIds distances;
     Some (msg, M)
   }"


section \<open>They compute the functions on values\<close>

definition reads :: "memory \<Rightarrow> 'a \<times> memory \<Rightarrow> 'a \<Rightarrow> bool" where
  "reads M = (\<lambda>(x, M') y. x = y \<and> M' = M)"

lemma reads_simps [simp]: "reads M (x, M') y \<longleftrightarrow> x = y \<and> M' = M"
  by (simp add: reads_def)

lemma reads_result:
  assumes "implements (reads M) f g" "g = Some y"
  shows "f = Some (y, M)"
  using assms by (auto simp: implements_def reads_def)

text \<open>After a read the function on pointers goes on with the same value and memory.\<close>

lemma implements_then:
  assumes "implements (reads M) f g" "\<And>y. g = Some y \<Longrightarrow> implements S (h y M) (k y)"
  shows "implements S (f \<bind> (\<lambda>(x, M). h x M)) (g \<bind> k)"
  by (rule implements_bind [OF assms(1)]) (use assms(2) in \<open>auto simp: reads_def\<close>)

lemma implements_same: "(\<And>y. g = Some y \<Longrightarrow> implements S (h y) (k y)) \<Longrightarrow> implements S (g \<bind> h) (g \<bind> k)"
  by (cases g) simp_all

lemma implements_finish: "(\<And>y. S (h y) y) \<Longrightarrow> implements S (g \<bind> (\<lambda>y. Some (h y))) g"
  by (cases g) simp_all

lemma reads_loop:
  assumes "\<And>i t. i < n \<Longrightarrow> implements (rel_flow S (reads M)) (f i (t, M)) (g i t)"
    and "\<And>t. implements S (h (t, M)) (k t)"
  shows "implements S (after_loop (for_loop n 0 f (t, M)) h) (after_loop (for_loop n 0 g t) k)"
  by (rule implements_after_loop [where RN = "reads M"], rule implements_loop) (use assms in \<open>auto simp: reads_def\<close>)

lemma hasNoStocks_reads:
  assumes "stocks_view M v as xs"
  shows "implements (reads M) (hasNoStocks_m v M) (hasNoStocks xs)"
  unfolding hasNoStocks_m_def hasNoStocks_def
proof (rule implements_read [OF vector_viewD(1) [OF assms]], rule reads_loop, unfold prod.case, rule implements_get [OF assms])
  fix i
  assume "stock_view M (as ! to_uint (int i)) (vlist xs ! to_uint (int i))"
  from stock_at_view [OF this] show "implements (rel_flow (reads M) (reads M))
      (do { (amount, q) \<leftarrow> stock_at (as ! to_uint (int i)) M; Some (if amount \<noteq> 0 then Exit (0, M) else Next ((), M)) })
      (Some (if stock_amount (vlist xs ! to_uint (int i)) \<noteq> 0 then Exit 0 else Next ()))"
    by auto
qed simp

text \<open>A city as the readers see it.\<close>

definition city_reads :: "memory \<Rightarrow> addr \<Rightarrow> city \<Rightarrow> bool" where
  "city_reads M c y \<longleftrightarrow> (\<exists>sa stocks name. city_at c M = Some (name, city_id y, stocks) \<and> stocks_view M stocks sa (city_stock y))"

lemma map_view_cities:
  assumes "map_view M m cas sas mp"
  obtains cities product matrix where "map_at m M = Some (cities, product, matrix)"
    "vector_view (city_reads M) M cities cas (map_cities mp)"
proof -
  obtain cities product matrix where V: "mem_blocks M m = Some (B_Map cities product matrix)"
    "vector_view (\<lambda>c y. True) M cities cas (map_cities mp)"
    "\<forall>i < length cas. city_view M (sas ! i) (cas ! i) (vlist (map_cities mp) ! i)"
    using assms by (auto simp: map_view_def)
  have "vector_view (city_reads M) M cities cas (map_cities mp)"
    using V(2)
  proof (rule vector_view_mono)
    fix i
    assume "i < length cas"
    with V(3) have "city_view M (sas ! i) (cas ! i) (vlist (map_cities mp) ! i)"
      by simp
    then show "city_reads M (cas ! i) (vlist (map_cities mp) ! i)"
      by (auto simp: city_view_def city_reads_def reading)
  qed
  with V(1) show thesis
    by (intro that) (simp_all add: reading)
qed

lemma implements_city:
  assumes "city_reads M c y"
    and "\<And>sa stock. stocks_view M stock sa (city_stock y) \<Longrightarrow> implements S (f (city_id y) stock) g"
  shows "implements S (city_at c M \<bind> (\<lambda>(name, k, stock). f k stock)) g"
  using assms by (auto simp: city_reads_def)

lemma cityIsSatisfied_reads:
  assumes "city_reads M c y"
  shows "implements (reads M) (cityIsSatisfied_m c M) (cityIsSatisfied y)"
  unfolding cityIsSatisfied_m_def cityIsSatisfied_def
  by (rule implements_city [OF assms]) (rule hasNoStocks_reads)

lemma endSimulation_reads:
  assumes "map_view M m cas sas mp"
  shows "implements (reads M) (endSimulation_m m turn M) (endSimulation mp turn)"
proof -
  obtain cities product matrix where V: "map_at m M = Some (cities, product, matrix)"
    "vector_view (city_reads M) M cities cas (map_cities mp)"
    using map_view_cities [OF assms] .
  have round: "implements (rel_flow (reads M) (reads M))
      (do {
        (c, M) \<leftarrow> getFromVector_m cities (int i) M;
        (satisfied, M) \<leftarrow> cityIsSatisfied_m c M;
        Some (if satisfied = 0 then Exit (CONTINUE_SIM, M) else Next ((), M))
      })
      (do {
        c \<leftarrow> vec_deref (map_cities mp) (int i);
        satisfied \<leftarrow> cityIsSatisfied c;
        Some (if satisfied = 0 then Exit CONTINUE_SIM else Next ())
      })" for i
    by (rule implements_get [OF V(2)], rule implements_then, rule cityIsSatisfied_reads) auto
  have "implements (reads M) (endSimulation_m m turn M) (endSimulation mp turn)" if "turn < 70000"
    unfolding endSimulation_m_def endSimulation_def if_P [OF that]
    by (rule implements_read [OF V(1)], unfold prod.case, rule implements_read [OF vector_viewD(1) [OF V(2)]], rule reads_loop)
      (use round V(1) in simp_all)
  moreover have "implements (reads M) (endSimulation_m m turn M) (endSimulation mp turn)" if "\<not> turn < 70000"
    using that V(1) vector_viewD(1) [OF V(2)] by (simp add: endSimulation_m_def endSimulation_def)
  ultimately show ?thesis
    by blast
qed

lemma stock_sum_reads:
  assumes "stocks_view M v as xs"
  shows "implements (reads M) (stock_sum_m v M) (stock_sum xs)"
  unfolding stock_sum_m_def stock_sum_def
proof (rule implements_read [OF vector_viewD(1) [OF assms]], rule reads_loop, unfold prod.case, rule implements_get [OF assms])
  fix i t
  assume "stock_view M (as ! to_uint (int i)) (vlist xs ! to_uint (int i))"
  from stock_at_view [OF this] obtain q where "stock_at (as ! to_uint (int i)) M = Some (stock_amount (vlist xs ! to_uint (int i)), q)"
    by blast
  then show "implements (rel_flow (reads M) (reads M))
      (do { (amount, q) \<leftarrow> stock_at (as ! to_uint (int i)) M; acc \<leftarrow> iadd t amount; Some (Next (acc, M)) })
      (do { acc \<leftarrow> iadd t (stock_amount (vlist xs ! to_uint (int i))); Some (Next acc) })"
    by (simp add: implements_same)
qed simp

lemma get_map_status_reads:
  assumes "map_view M m cas sas mp"
  shows "implements (reads M) (get_map_status_m m M) (get_map_status mp)"
proof -
  obtain cities product matrix where V: "map_at m M = Some (cities, product, matrix)"
    "vector_view (city_reads M) M cities cas (map_cities mp)"
    using map_view_cities [OF assms] .
  have round: "implements (rel_flow (reads M :: (int \<times> int) \<times> memory \<Rightarrow> _) (reads M))
      (do {
        (c, M) \<leftarrow> getFromVector_m cities (int i) M;
        (name, k, stock) \<leftarrow> city_at c M;
        (cityStockAmount, M) \<leftarrow> stock_sum_m stock M;
        let citiesSatisfied' = (if cityStockAmount = 0 then citiesSatisfied + 1 else citiesSatisfied);
        acc' \<leftarrow> iadd acc cityStockAmount;
        Some (Next ((acc', citiesSatisfied'), M))
      })
      (do {
        c \<leftarrow> vec_deref (map_cities mp) (int i);
        cityStockAmount \<leftarrow> stock_sum (city_stock c);
        let citiesSatisfied' = (if cityStockAmount = 0 then citiesSatisfied + 1 else citiesSatisfied);
        total' \<leftarrow> iadd acc cityStockAmount;
        Some (Next (total', citiesSatisfied'))
      })" for i acc and citiesSatisfied :: int
    by (rule implements_get [OF V(2)], rule implements_city, assumption, rule implements_then, rule stock_sum_reads, assumption)
      (simp add: Let_def implements_same)
  show ?thesis
    unfolding get_map_status_m_def get_map_status_def
    by (rule implements_read [OF V(1)], unfold prod.case, rule implements_read [OF vector_viewD(1) [OF V(2)]], rule reads_loop)
      (use round V(1) in \<open>simp_all split: prod.split\<close>)
qed


section \<open>Scores and destinations\<close>

text \<open>Reading two stocks and comparing their products.\<close>

lemma stock_overlap_reads:
  assumes c: "stock_view M a s" and p: "stocks_view M v as xs"
  shows "implements (reads M) (stock_overlap_m a v score M) (stock_overlap s xs score)"
proof -
  have round: "implements (rel_flow (reads M) (reads M))
      (do {
        (planeStock, M) \<leftarrow> getFromVector_m v (int j) M;
        (cn, cq) \<leftarrow> stock_at a M;
        (cid, cname) \<leftarrow> product_at cq M;
        (pn, pq) \<leftarrow> stock_at planeStock M;
        (pid, pname) \<leftarrow> product_at pq M;
        if cid = pid then do {
          score' \<leftarrow> iadd sc (if cn > pn then pn else cn);
          Some (Exit (score', M))
        } else Some (Next (sc, M))
      })
      (do {
        planeStock \<leftarrow> vec_deref xs (int j);
        cp \<leftarrow> stock_product s;
        pp \<leftarrow> stock_product planeStock;
        if product_id cp = product_id pp then do {
          score' \<leftarrow> iadd sc (if stock_amount s > stock_amount planeStock then stock_amount planeStock else stock_amount s);
          Some (Exit score')
        } else Some (Next sc)
      })" for j sc
    by (rule implements_get [OF p], rule implements_stock [OF c], rule implements_stock, assumption) (simp add: implements_same)
  show ?thesis
    unfolding stock_overlap_m_def stock_overlap_def
    by (rule implements_read [OF vector_viewD(1) [OF p]], rule reads_loop) (use round in simp_all)
qed

lemma getCityScore_reads:
  assumes c: "stocks_view M u bs ys" and p: "stocks_view M v as xs"
  shows "implements (reads M) (getCityScore_m u v M) (getCityScore ys xs)"
proof -
  have round: "implements (rel_flow (reads M :: int \<times> memory \<Rightarrow> _) (reads M))
      (do {
        (cityStock, M) \<leftarrow> getFromVector_m u (int i) M;
        (score', M) \<leftarrow> stock_overlap_m cityStock v score M;
        Some (Next (score', M))
      })
      (do {
        cityStock \<leftarrow> vec_deref ys (int i);
        score' \<leftarrow> stock_overlap cityStock xs score;
        Some (Next score')
      })" for i score
    by (rule implements_get [OF c], rule implements_then, rule stock_overlap_reads [OF _ p]) simp_all
  show ?thesis
    unfolding getCityScore_m_def getCityScore_def
    by (rule implements_read [OF vector_viewD(1) [OF c]], rule reads_loop) (use round in simp_all)
qed

lemma getDistance_reads:
  assumes "map_view M m cas sas mp" "getDistance mp i j = Some d"
  shows "getDistance_m m i j M = Some d"
proof -
  obtain cities product matrix rows where V: "map_at m M = Some (cities, product, matrix)" "matrix_at matrix M = Some (map Some rows)"
    "list_all2 (\<lambda>r xs. mem_blocks M r = Some (B_Row xs)) rows (map_matrix mp)"
    using assms(1) by (auto simp: map_view_def reading)
  have ij: "0 \<le> i" "nat i < length (map_matrix mp)" "0 \<le> j" "nat j < length (map_matrix mp ! nat i)" "d = map_matrix mp ! nat i ! nat j"
    using assms(2) by (auto simp: getDistance_def mat_get_def split: if_splits)
  have "nat i < length rows" "mem_blocks M (rows ! nat i) = Some (B_Row (map_matrix mp ! nat i))"
    using V(3) ij(2) by (auto simp: list_all2_conv_all_nth)
  then show ?thesis
    using V(1,2) ij by (simp add: getDistance_m_def arr_get_def row_at_def)
qed

lemma collect_city_reads:
  assumes m: "map_view M m cas sas mp" and p: "stocks_view M v as (plane_stocks pl)"
  shows "implements (reads M) (collect_city_m m (plane_cityId pl) v i s M) (collect_city mp pl i s)"
proof -
  obtain cities product matrix where V: "map_at m M = Some (cities, product, matrix)"
    "vector_view (city_reads M) M cities cas (map_cities mp)"
    using map_view_cities [OF m] .
  obtain cnt infos where s: "s = (cnt, infos)"
    by fastforce
  show ?thesis
    unfolding collect_city_m_def collect_city_def s prod.case
  proof (rule implements_read [OF V(1)], unfold prod.case, rule implements_get [OF V(2)], rule implements_city, assumption,
      rule implements_then, rule getCityScore_reads [OF _ p], assumption)
    fix score
    let ?c = "vlist (map_cities mp) ! to_uint (int i)"
    show "implements (reads M)
      (if score = 0 then Some ((cnt, infos), M)
       else do {
         (index, infos') \<leftarrow> insertScore infos MAX_DESTINATIONS cnt score;
         if index = - 1 then Some ((cnt, infos'), M)
         else do {
           distance \<leftarrow> getDistance_m m (city_id ?c) (plane_cityId pl) M;
           e \<leftarrow> ci_at infos' (nat index);
           Some ((if cnt \<noteq> MAX_DESTINATIONS then cnt + 1 else cnt,
                  infos'[nat index := e\<lparr>ci_cityId := Some (city_id ?c), ci_distance := Some distance\<rparr>]), M)
         }
       })
      (if score = 0 then Some (cnt, infos)
       else do {
         (index, infos') \<leftarrow> insertScore infos MAX_DESTINATIONS cnt score;
         if index = - 1 then Some (cnt, infos')
         else do {
           distance \<leftarrow> getDistance mp (city_id ?c) (plane_cityId pl);
           e \<leftarrow> ci_at infos' (nat index);
           Some (if cnt \<noteq> MAX_DESTINATIONS then cnt + 1 else cnt,
                 infos'[nat index := e\<lparr>ci_cityId := Some (city_id ?c), ci_distance := Some distance\<rparr>])
         }
       })"
    proof (cases "getDistance mp (city_id ?c) (plane_cityId pl)")
      case None
      then show ?thesis
        by (auto intro!: implements_same)
    next
      case (Some d)
      then show ?thesis
        using getDistance_reads [OF m Some] by (auto intro!: implements_same)
    qed
  qed
qed

lemma app_give_destinations_reads:
  assumes m: "map_view M m cas sas mp" and p: "stocks_view M v as (plane_stocks pl)"
  shows "implements (reads M) (app_give_destinations_m m (plane_id pl) (plane_cityId pl) v M) (app_give_destinations mp pl)"
proof -
  obtain cities product matrix where V: "map_at m M = Some (cities, product, matrix)"
    "vector_view (city_reads M) M cities cas (map_cities mp)"
    using map_view_cities [OF m] .
  have round: "implements (rel_flow (reads M :: (nat \<times> CityInfo list) \<times> memory \<Rightarrow> _) (reads M))
      (do { (s', M) \<leftarrow> collect_city_m m (plane_cityId pl) v i s M; Some (Next (s', M)) })
      (do { s' \<leftarrow> collect_city mp pl i s; Some (Next s') })" for i s
    by (rule implements_then [OF collect_city_reads [OF m p]]) simp
  have loop: "implements (reads M)
      (after_loop (for_loop (getVectorSize (map_cities mp)) 0
        (\<lambda>i (s, M). do { (s', M) \<leftarrow> collect_city_m m (plane_cityId pl) v i s M; Some (Next (s', M)) })
        ((0, replicate MAX_DESTINATIONS ci_unset), M)) Some)
      (after_loop (for_loop (getVectorSize (map_cities mp)) 0
        (\<lambda>i s. do { s' \<leftarrow> collect_city mp pl i s; Some (Next s') }) (0, replicate MAX_DESTINATIONS ci_unset)) Some)"
    by (rule reads_loop) (use round in simp_all)
  show ?thesis
    unfolding app_give_destinations_m_def app_give_destinations_def
    by (rule implements_read [OF V(1)], unfold prod.case, rule implements_read [OF vector_viewD(1) [OF V(2)]],
        rule implements_bind [OF loop])
      (auto intro!: implements_same implements_finish simp: reads_def)
qed

end
