(* ===== verification/Memory_Map.thy ===== *)
theory Memory_Map
  imports Memory_Scores
begin

text \<open>
  The map process on memory: \<open>runMap\<close> with the map and the stocks of the planes as blocks behind
  pointers, which every request allocates and gives back. It runs as the map process on values of
  Map\_Process does, and after every request the same blocks are allocated as before.
  The state besides the memory is the \<^typ>\<open>map_state\<close>, whose field \<^const>\<open>ms_map\<close> is not looked at.
\<close>

section \<open>The functions\<close>

definition comm_unloaded_stock_m :: "int \<Rightarrow> int \<Rightarrow> int \<Rightarrow> addr \<Rightarrow> nat \<Rightarrow> memory \<times> map_state \<Rightarrow> (memory \<times> map_state) option" where
  "comm_unloaded_stock_m airlineID planeId cityId stocks conn = (\<lambda>(M, s). do {
     (part, M) \<leftarrow> marshall_stocks_m stocks M;
     let msg = \<lparr>ss_header = prepare_header airlineID planeId cityId MessageTypeUnloadStock, ss_stocks = part\<rparr>;
     Some (M, snd (transmit conn (MM_Stock msg) s))
   })"

definition handle_unload_m :: "nat vector \<Rightarrow> addr \<Rightarrow> StockStateMessage \<Rightarrow> memory \<times> map_state \<Rightarrow> (memory \<times> map_state) option" where
  "handle_unload_m conns m msg = (\<lambda>(M, s). do {
     let airlineId = hdr_airline (ss_header msg);
     let planeId = hdr_id (ss_header msg);
     let cityId = hdr_cityId (ss_header msg);
     (stocks, al, M) \<leftarrow> init_stocks_m [] (ss_stocks msg) m M;
     M \<leftarrow> updateMap_m m cityId stocks M;
     conn \<leftarrow> vec_deref conns airlineId;
     (M, s) \<leftarrow> comm_unloaded_stock_m airlineId planeId cityId stocks conn (M, s);
     M \<leftarrow> freeStocks_m stocks M;
     Some (M, s)
   })"

fun phase1_m :: "nat vector \<Rightarrow> nat \<Rightarrow> addr \<Rightarrow> nat \<Rightarrow> memory \<times> map_state \<Rightarrow> PlaneMessage list \<Rightarrow>
  ((memory \<times> map_state) \<times> PlaneMessage list) outcome" where
  "phase1_m conns airlinesize m i x [] = (if i = airlinesize then Returns (x, []) else Blocks)"
| "phase1_m conns airlinesize m i x (msg # inbox) =
     (if i = airlinesize then Returns (x, msg # inbox)
      else if pm_type msg = MessageTypeAirlineDone then phase1_m conns airlinesize m (i + 1) x inbox
      else if pm_type msg = MessageTypeUnloadStock then
        (case msg of
           PM_StockState k \<Rightarrow>
             then_do (or_fault (handle_unload_m conns m k x)) (\<lambda>x'. phase1_m conns airlinesize m i x' inbox)
         | _ \<Rightarrow> Faults)
      else phase1_m conns airlinesize m i x inbox)"

definition handle_check_m :: "nat vector \<Rightarrow> addr \<Rightarrow> CheckDestinationsMessage \<Rightarrow> memory \<times> map_state \<Rightarrow> (memory \<times> map_state) option" where
  "handle_check_m conns m msg = (\<lambda>(M, s). do {
     let airlineId = hdr_airline (cd_header msg);
     (stocks, al, M) \<leftarrow> init_stocks_m [] (cd_stocks msg) m M;
     conn \<leftarrow> vec_deref conns airlineId;
     (reply, M) \<leftarrow> app_give_destinations_m m (hdr_id (cd_header msg)) (hdr_cityId (cd_header msg)) stocks M;
     let s = comm_give_destinations reply conn s;
     M \<leftarrow> freeStocks_m stocks M;
     Some (M, s)
   })"

fun phase2_m :: "nat vector \<Rightarrow> nat \<Rightarrow> addr \<Rightarrow> nat \<Rightarrow> memory \<times> map_state \<Rightarrow> PlaneMessage list \<Rightarrow>
  ((memory \<times> map_state) \<times> PlaneMessage list) outcome" where
  "phase2_m conns airlinesize m i x [] = (if i = airlinesize then Returns (x, []) else Blocks)"
| "phase2_m conns airlinesize m i x (msg # inbox) =
     (if i = airlinesize then Returns (x, msg # inbox)
      else if pm_type msg = MessageTypeAirlineStatus then
        (case msg of
           PM_AirlineStatus k \<Rightarrow>
             phase2_m conns airlinesize m (i + 1)
               (fst x, comm_send_airline_status (as_planesFlying (asm_status k)) (as_totalPlanes (asm_status k))
                  (as_id (asm_status k)) (snd x)) inbox
         | _ \<Rightarrow> Faults)
      else if pm_type msg = MessageTypeCheckDestinations then
        (case msg of
           PM_CheckDestinations k \<Rightarrow>
             then_do (or_fault (handle_check_m conns m k x)) (\<lambda>x'. phase2_m conns airlinesize m i x' inbox)
         | _ \<Rightarrow> Faults)
      else phase2_m conns airlinesize m i x inbox)"

definition send_map_status_m :: "addr \<Rightarrow> int \<Rightarrow> memory \<Rightarrow> (Message \<times> memory) option" where
  "send_map_status_m m totalStockAmount M = do {
     (cities, product, matrix) \<leftarrow> map_at m M;
     totalCities \<leftarrow> getVectorSize_m cities M;
     ((currentStockAmount, citiesSatisfied), M) \<leftarrow> get_map_status_m m M;
     delivered \<leftarrow> isub totalStockAmount currentStockAmount;
     let completionPercentage =
       (if totalStockAmount = 0 then None
        else Some (real_of_int delivered / real_of_int totalStockAmount * 100));
     Some (marshall_send_map_status completionPercentage citiesSatisfied (int totalCities), M)
   }"

definition output_map_status_m :: "addr \<Rightarrow> int \<Rightarrow> memory \<times> map_state \<Rightarrow> (memory \<times> map_state) option" where
  "output_map_status_m m totalStockAmount = (\<lambda>(M, s). do {
     (msg, M) \<leftarrow> send_map_status_m m totalStockAmount M;
     Some (M, push_output msg s)
   })"

text \<open>A step that leaves memory alone.\<close>

definition beside :: "(map_state \<Rightarrow> map_state option) \<Rightarrow> memory \<times> map_state \<Rightarrow> (memory \<times> map_state) option" where
  "beside f = (\<lambda>(M, s). map_option (Pair M) (f s))"

definition play_turn_m :: "nat vector \<Rightarrow> nat \<Rightarrow> addr \<Rightarrow> int \<Rightarrow> memory \<times> map_state \<Rightarrow> PlaneMessage list \<Rightarrow>
  ((memory \<times> map_state) \<times> PlaneMessage list) outcome" where
  "play_turn_m conns airlinesize m totalStockAmount x inbox =
     then_do (or_fault (beside (\<lambda>s. comm_turn_step conns (s\<lparr>ms_turn := ms_turn s + 1\<rparr>)) x)) (\<lambda>x1.
     then_do (phase1_m conns airlinesize m 0 x1 inbox) (\<lambda>(x2, inbox2).
     then_do (or_fault (beside (comm_turn_continue conns) x2)) (\<lambda>x3.
     then_do (phase2_m conns airlinesize m 0 x3 inbox2) (\<lambda>(x4, inbox4).
     then_do (or_fault (output_map_status_m m totalStockAmount x4)) (\<lambda>x5. Returns (x5, inbox4))))))"

fun run_turns_m :: "nat \<Rightarrow> nat vector \<Rightarrow> nat \<Rightarrow> addr \<Rightarrow> int \<Rightarrow> memory \<times> map_state \<Rightarrow> PlaneMessage list \<Rightarrow>
  ((memory \<times> map_state) \<times> PlaneMessage list) option outcome" where
  "run_turns_m n conns airlinesize m totalStockAmount (M, s) inbox =
     (let (stop, s0) = look_exit s in
      if stop then Returns (Some ((M, s0), inbox))
      else
        then_do (or_fault (endSimulation_m m (ms_turn s0) M)) (\<lambda>(go, M).
          if go \<noteq> CONTINUE_SIM then Returns (Some ((M, s0), inbox))
          else
            (let (stop', s1) = look_exit s0 in
             if stop' then Returns (Some ((M, s1), inbox))
             else
               (case n of
                  0 \<Rightarrow> Returns None
                | Suc k \<Rightarrow>
                    then_do (play_turn_m conns airlinesize m totalStockAmount (M, s1) inbox) (\<lambda>(x2, inbox2).
                      run_turns_m k conns airlinesize m totalStockAmount x2 inbox2)))))"

declare run_turns_m.simps [simp del]

definition runMap_m :: "nat \<Rightarrow> airline vector \<Rightarrow> nat vector \<Rightarrow> addr \<Rightarrow> memory \<times> map_state \<Rightarrow> PlaneMessage list \<Rightarrow>
  ((memory \<times> map_state) \<times> PlaneMessage list) option outcome" where
  "runMap_m n airlines conns m = (\<lambda>(M, s) inbox.
     then_do (or_fault (get_map_status_m m M)) (\<lambda>((totalStockAmount, _), M).
     then_do (or_fault (beside (send_airlines_status airlines) (M, s))) (\<lambda>x1.
     then_do (or_fault (output_map_status_m m totalStockAmount x1)) (\<lambda>(M, s).
     run_turns_m n conns (getVectorSize airlines) m totalStockAmount (M, s\<lparr>ms_turn := 0\<rparr>) inbox))))"

section \<open>The life of the plane of a request\<close>

lemma free_next: "free a M = Some M' \<Longrightarrow> mem_next M' = mem_next M"
  by (auto simp: free_def split: if_splits)

lemma freeStocks_next:
  assumes "freeStocks_m v M = Some M'"
  shows "mem_next M' = mem_next M"
proof -
  have get: "mem_next N' = mem_next N" if "getFromVector_m v i N = Some (a, N')" for i a N N'
    using that by (auto simp: getFromVector_m_def Let_def store_def split: if_splits Option.bind_splits prod.splits)
  have destroy: "mem_next N' = mem_next N" if "destroyVector v N = Some N'" for N N'
    using that by (auto simp: destroyVector_def dest!: free_next split: Option.bind_splits prod.splits)
  have loop: "mem_next N' = mem_next N"
    if all: "for_all n (\<lambda>i M. do { (a, M) \<leftarrow> getFromVector_m v (int i) M; free a M }) N = Some N'" for n N N'
  proof -
    let ?L = "for_loop n 0 (\<lambda>i M. map_option Next (do { (a, M) \<leftarrow> getFromVector_m v (int i) M; free a M })) N ::
      (memory, memory) flow option"
    obtain r where r: "?L = Some r" "after_loop (Some r) Some = Some N'"
      using all unfolding for_all_def by (cases ?L) auto
    have "case r of Exit x \<Rightarrow> mem_next x = mem_next N | Next s \<Rightarrow> mem_next s = mem_next N"
      by (rule for_loop_preserves [OF r(1)]) (auto dest!: get free_next split: Option.bind_splits prod.splits)
    then show ?thesis
      using r(2) by (cases r) auto
  qed
  show ?thesis
    using assms by (auto simp: freeStocks_m_def dest!: loop destroy split: if_splits Option.bind_splits)
qed


lemma map_view_allocated:
  assumes "map_view M m cas sas mp" "a \<in> set (concat sas)"
  shows "mem_blocks M a \<noteq> None"
proof -
  obtain sa where sa: "sa \<in> set sas" "a \<in> set sa"
    using assms(2) by auto
  then obtain i where i: "i < length sas" "sas ! i = sa"
    by (auto simp: in_set_conv_nth)
  then have "city_view M sa (cas ! i) (vlist (map_cities mp) ! i)"
    using assms(1) by (auto simp: map_view_def)
  then obtain v xs where v: "stocks_view M v sa xs"
    by (auto simp: city_view_def)
  obtain j where j: "j < length sa" "sa ! j = a"
    using sa(2) by (auto simp: in_set_conv_nth)
  then show ?thesis
    using vector_viewD(4) [OF v j(1)] by (auto simp: stock_view_def)
qed

text \<open>
  From the memory \<open>M\<close> the stocks of a plane are built (\<open>M1\<close>), amounts change (\<open>M2\<close>), and the
  stocks are given back: the same blocks as in \<open>M\<close> are left, and the map is seen as in \<open>M2\<close>.
\<close>

lemma plane_given_back:
  assumes G: "growing M v as vb M1" and view: "stocks_view M1 v as xs" and C: "amounts_changed A M1 M2"
    and m: "map_view M m cas sas mp" "map_view M2 m cas sas mp'"
  shows "\<exists>M3. freeStocks_m v M2 = Some M3 \<and> map_view M3 m cas sas mp' \<and> fresh_ok M3 \<and>
    (\<forall>a. mem_blocks M3 a = None \<longleftrightarrow> mem_blocks M a = None)"
proof -
  obtain vb' where v: "vec_in M1 v as vb'"
    using view by (auto simp: vector_view_def)
  have len: "length as < 2147483648"
    by (rule vec_inD [OF v])
  have g: "vec_in M1 v as vb" "fresh_ok M1" "distinct (as @ vb)"
    "\<And>a. mem_blocks M a = (if a \<in> set (as @ vb) then None else mem_blocks M1 a)" "\<And>a. a \<in> set (as @ vb) \<Longrightarrow> mem_blocks M1 a \<noteq> None"
    using G built_vec_in [OF _ len, of M1 v vb] built_blocks [of M1 v as vb] by (auto simp: growing_def without_def)
  have "x \<noteq> NULL \<and> (\<exists>n p. mem_blocks M2 x = Some (B_Stock n p))" if x: "x \<in> set as" for x
  proof -
    obtain j where "j < length as" "as ! j = x"
      using x by (auto simp: in_set_conv_nth)
    then obtain n p where "x \<noteq> NULL" "mem_blocks M1 x = Some (B_Stock n p)"
      using vector_viewD(4) [OF view, of j] by (auto simp: stock_view_def)
    then show ?thesis
      using amounts_changed_at [OF C, of x] by auto
  qed
  then have "stocks_in M2 v (as @ vb)"
    unfolding stocks_in_def using amounts_changed_vec [OF C g(1)] g(3) by (intro exI [of _ as] exI [of _ vb]) blast
  from gives_backD [OF freeStocks_back [OF this] without_refl] obtain M3 where
    M3: "freeStocks_m v M2 = Some M3" "without M2 (as @ vb) M3"
    by auto
  have at: "mem_blocks M3 a = (if a \<in> set (as @ vb) then None else mem_blocks M2 a)" for a
    using M3(2) by (simp add: without_def)
  have same: "mem_blocks M3 a = None \<longleftrightarrow> mem_blocks M a = None" for a
    using at [of a] g(4) [of a] amounts_changed_dom [OF C, of a] by auto
  have "later M M2 M3"
    unfolding later_def
  proof (intro allI impI)
    fix a b
    assume "mem_blocks M a = Some b"
    then have a: "a \<notin> set (as @ vb)" "mem_blocks M1 a = Some b"
      using g(4) [of a] by (auto split: if_splits)
    then show "mem_blocks M3 a = mem_blocks M2 a \<and>
        (mem_blocks M2 a = Some b \<or> (\<exists>n n' q. b = B_Stock n q \<and> mem_blocks M2 a = Some (B_Stock n' q)))"
      using at [of a] amounts_changed_at [OF C, of a] by auto
  qed
  from later_map [OF this m] have "map_view M3 m cas sas mp'" .
  moreover have "fresh_ok M3"
    using amounts_changed_fresh [OF C g(2)] freeStocks_next [OF M3(1)] at by (simp add: fresh_ok_def)
  ultimately show ?thesis
    using M3(1) same by blast
qed

section \<open>Running as the map process on values\<close>

definition runs_as :: "('a \<Rightarrow> 'b \<Rightarrow> bool) \<Rightarrow> 'a outcome \<Rightarrow> 'b outcome \<Rightarrow> bool" where
  "runs_as R f g \<longleftrightarrow> g \<noteq> Faults \<longrightarrow> rel_outcome R f g"

lemma runs_as_simps [simp]:
  "runs_as R f Faults" "runs_as R Blocks Blocks" "runs_as R (Returns x) (Returns y) \<longleftrightarrow> R x y"
  by (simp_all add: runs_as_def)

lemma runs_as_or_fault: "implements R f g \<Longrightarrow> runs_as R (or_fault f) (or_fault g)"
  by (cases g) (auto simp: implements_def)

lemma runs_as_then:
  assumes "runs_as R f g" "\<And>x y. R x y \<Longrightarrow> g = Returns y \<Longrightarrow> runs_as S (h x) (k y)"
  shows "runs_as S (then_do f h) (then_do g k)"
  using assms by (cases g; cases f) (auto simp: runs_as_def)

text \<open>The memory \<open>M\<close> holds the map of \<open>st\<close> in the blocks of \<open>M0\<close>; all else of \<open>st\<close> is in \<open>s\<close>.\<close>

definition process_view :: "memory \<Rightarrow> addr \<Rightarrow> addr list \<Rightarrow> addr list list \<Rightarrow> memory \<times> map_state \<Rightarrow> map_state \<Rightarrow> bool" where
  "process_view M0 m cas sas = (\<lambda>(M, s) st. map_view M m cas sas (ms_map st) \<and> st = s\<lparr>ms_map := ms_map st\<rparr> \<and>
     fresh_ok M \<and> (\<forall>a. mem_blocks M a = None \<longleftrightarrow> mem_blocks M0 a = None))"

lemma process_viewD:
  assumes "process_view M0 m cas sas (M, s) st"
  shows "map_view M m cas sas (ms_map st)" "st = s\<lparr>ms_map := ms_map st\<rparr>" "fresh_ok M"
    "mem_blocks M a = None \<longleftrightarrow> mem_blocks M0 a = None"
  using assms by (simp_all add: process_view_def)

lemma transmit_beside:
  "transmit c msg (s\<lparr>ms_map := mp\<rparr>) = (fst (transmit c msg s), (snd (transmit c msg s))\<lparr>ms_map := mp\<rparr>)"
  by (simp add: transmit_def split: prod.split)


section \<open>Requests\<close>

lemma updateMap_fields:
  assumes "updateMap mp pl = Some (mp', pl')"
  shows "plane_id pl' = plane_id pl" "plane_cityId pl' = plane_cityId pl" "map_product mp' = map_product mp"
proof -
  let ?loop = "\<lambda>c. for_loop (getVectorSize (plane_stocks pl)) 0 (\<lambda>i s. do { s' \<leftarrow> discharge i s; Some (Next s') }) (city_stock c, plane_stocks pl) ::
    (sim_map \<times> plane, _) flow option"
  obtain c where c: "after_loop (?loop c) (\<lambda>(cs, ps). Some
      (mp\<lparr>map_cities := vec_store (map_cities mp) (nat (plane_cityId pl)) (c\<lparr>city_stock := cs\<rparr>)\<rparr>, pl\<lparr>plane_stocks := ps\<rparr>)) = Some (mp', pl')"
    using assms by (auto simp: updateMap_def split: Option.bind_splits)
  obtain r where r: "?loop c = Some r"
    using c by (cases "?loop c") auto
  have "case r of Exit x \<Rightarrow> False | Next s \<Rightarrow> True"
    by (rule for_loop_preserves [OF r]) (auto split: Option.bind_splits)
  then show "plane_id pl' = plane_id pl" "plane_cityId pl' = plane_cityId pl" "map_product mp' = map_product mp"
    using c r by (auto split: flow.splits prod.splits)
qed

lemma handle_unload_memory:
  assumes wf: "sim_wf (ms_map st)" and conns: "conns_wf conns n" and msg: "msg_ok n (ms_map st) (PM_StockState msg)"
    and V: "process_view M0 m cas sas (M, s) st"
  shows "implements (process_view M0 m cas sas) (handle_unload_m conns m msg (M, s)) (handle_unload conns msg st)"
proof (rule implementsI)
  fix st'
  assume run: "handle_unload conns msg st = Some st'"
  let ?h = "ss_header msg"
  obtain i ss where i: "hdr_cityId ?h = int i" "i < length (vlist (map_cities (ms_map st)))"
    and ss: "ss_stocks msg = part_of ss" "length ss \<le> MAX_STOCKS" "stocks_known (map_product (ms_map st)) ss"
    using msg by (auto simp: part_ok_def)
  note W = sim_wfD [OF wf] and P = process_viewD [OF V]
  let ?pl = "blank_plane\<lparr>plane_id := hdr_id ?h, plane_cityId := hdr_cityId ?h, plane_stocks := vec_of ss\<rparr>"
  have init: "initPlane [] (ss_stocks msg) ?h blank_plane (ms_map st) = Some (?pl, ms_map st, [])"
    using initPlane_part_of [OF W(4,3) ss(3,2)] by (simp add: ss(1))
  obtain mp pl conn part where parts: "updateMap (ms_map st) ?pl = Some (mp, pl)" "vec_deref conns (hdr_airline ?h) = Some conn"
    "marshall_stocks (plane_stocks pl) = Some part"
    and st': "st' = snd (transmit conn (MM_Stock \<lparr>ss_header = prepare_header (hdr_airline ?h) (plane_id pl) (plane_cityId pl)
      MessageTypeUnloadStock, ss_stocks = part\<rparr>) (st\<lparr>ms_map := mp\<rparr>))"
    using run by (auto simp: handle_unload_def init Let_def comm_unloaded_stock_def marshall_change_stock_def split: Option.bind_splits)
  note fields = updateMap_fields [OF parts(1)]
  obtain v as vb M1 where M1: "init_stocks_m [] (part_of ss) m M = Some (v, [], M1)" "growing M v as vb M1" "stocks_view M1 v as (vec_of ss)"
    using init_stocks_m_ok [OF P(1) W(4,3) ss(3,2) P(3)] by blast
  have E: "extends M M1"
    by (rule growing_extends [OF M1(2)])
  have "distinct (concat sas @ as)"
  proof -
    have "distinct (concat sas)" "distinct as"
      using P(1) M1(2) by (auto simp: map_view_def growing_def)
    moreover have "mem_blocks M a = None" if "a \<in> set as" for a
      using M1(2) that by (auto simp: growing_def without_def)
    ultimately show ?thesis
      using map_view_allocated [OF P(1)] unfolding distinct_append by blast
  qed
  moreover have "in_int (plane_cityId ?pl)"
  proof -
    have "length (vlist (map_cities (ms_map st))) < 2147483648"
      using vec_inv_length map_wf_cities [OF W(1)] by blast
    then show ?thesis
      using i by (simp add: in_int_def INT_MIN_def INT_MAX_def)
  qed
  ultimately have up: "implements (\<lambda>M' (mp', pl'). map_view M' m cas sas mp' \<and> stocks_view M' v as (plane_stocks pl') \<and>
      amounts_changed (set (concat sas) \<union> set as) M1 M') (updateMap_m m (plane_cityId ?pl) v M1) (updateMap (ms_map st) ?pl)"
    by (intro updateMap_implemented [OF extends_map [OF E P(1)]]) (simp_all add: M1(3))
  obtain M2 where M2: "updateMap_m m (hdr_cityId ?h) v M1 = Some M2" "map_view M2 m cas sas mp" "stocks_view M2 v as (plane_stocks pl)"
    "amounts_changed (set (concat sas) \<union> set as) M1 M2"
    using implementsD [OF up parts(1)] by auto
  have pack: "marshall_stocks_m v M2 = Some (part, M2)"
    using implementsD [OF marshall_stocks_implemented [OF M2(3)] parts(3)] by auto
  obtain M3 where M3: "freeStocks_m v M2 = Some M3" "map_view M3 m cas sas mp" "fresh_ok M3"
    "\<And>a. mem_blocks M3 a = None \<longleftrightarrow> mem_blocks M a = None"
    using plane_given_back [OF M1(2,3) M2(4) P(1) M2(2)] by blast
  let ?msg = "MM_Stock \<lparr>ss_header = prepare_header (hdr_airline ?h) (hdr_id ?h) (hdr_cityId ?h) MessageTypeUnloadStock, ss_stocks = part\<rparr>"
  have "handle_unload_m conns m msg (M, s) = Some (M3, snd (transmit conn ?msg s))"
    using M1(1) M2(1) M3(1) pack parts(2) by (simp add: handle_unload_m_def comm_unloaded_stock_m_def Let_def ss(1))
  moreover have "st' = (snd (transmit conn ?msg s))\<lparr>ms_map := mp\<rparr>"
  proof -
    have "st\<lparr>ms_map := mp\<rparr> = s\<lparr>ms_map := mp\<rparr>"
      using arg_cong [OF P(2), of "\<lambda>x. x\<lparr>ms_map := mp\<rparr>"] by simp
    then show ?thesis
      by (simp add: st' fields transmit_beside)
  qed
  ultimately show "\<exists>x. handle_unload_m conns m msg (M, s) = Some x \<and> process_view M0 m cas sas x st'"
    using M3 P(4) by (auto simp: process_view_def)
qed

lemma handle_check_memory:
  assumes wf: "sim_wf (ms_map st)" and conns: "conns_wf conns n" and msg: "msg_ok n (ms_map st) (PM_CheckDestinations msg)"
    and V: "process_view M0 m cas sas (M, s) st"
  shows "implements (process_view M0 m cas sas) (handle_check_m conns m msg (M, s)) (handle_check conns msg st)"
proof (rule implementsI)
  fix st'
  assume run: "handle_check conns msg st = Some st'"
  let ?h = "cd_header msg"
  obtain ss where ss: "cd_stocks msg = part_of ss" "length ss \<le> MAX_STOCKS" "stocks_known (map_product (ms_map st)) ss"
    using msg by (auto simp: part_ok_def)
  note W = sim_wfD [OF wf] and P = process_viewD [OF V]
  let ?pl = "blank_plane\<lparr>plane_id := hdr_id ?h, plane_cityId := hdr_cityId ?h, plane_stocks := vec_of ss\<rparr>"
  have init: "initPlane [] (cd_stocks msg) ?h blank_plane (ms_map st) = Some (?pl, ms_map st, [])"
    using initPlane_part_of [OF W(4,3) ss(3,2)] by (simp add: ss(1))
  obtain conn reply where parts: "vec_deref conns (hdr_airline ?h) = Some conn" "app_give_destinations (ms_map st) ?pl = Some reply"
    and st': "st' = comm_give_destinations reply conn st"
    using run by (auto simp: handle_check_def init Let_def split: Option.bind_splits)
  obtain v as vb M1 where M1: "init_stocks_m [] (part_of ss) m M = Some (v, [], M1)" "growing M v as vb M1" "stocks_view M1 v as (vec_of ss)"
    using init_stocks_m_ok [OF P(1) W(4,3) ss(3,2) P(3)] by blast
  have view: "map_view M1 m cas sas (ms_map st)"
    by (rule extends_map [OF growing_extends [OF M1(2)] P(1)])
  have "app_give_destinations_m m (plane_id ?pl) (plane_cityId ?pl) v M1 = Some (reply, M1)"
    by (rule reads_result [OF app_give_destinations_reads [OF view, of v as] parts(2)]) (simp add: M1(3))
  then have offer: "app_give_destinations_m m (hdr_id ?h) (hdr_cityId ?h) v M1 = Some (reply, M1)"
    by simp
  obtain M3 where M3: "freeStocks_m v M1 = Some M3" "map_view M3 m cas sas (ms_map st)" "fresh_ok M3"
    "\<And>a. mem_blocks M3 a = None \<longleftrightarrow> mem_blocks M a = None"
    using plane_given_back [OF M1(2,3) amounts_changed_refl P(1) view] by blast
  have "handle_check_m conns m msg (M, s) = Some (M3, comm_give_destinations reply conn s)"
    using M1(1) M3(1) offer parts(1) by (simp add: handle_check_m_def Let_def ss(1))
  moreover have "st' = (comm_give_destinations reply conn s)\<lparr>ms_map := ms_map st\<rparr>"
    unfolding st' comm_give_destinations_def by (subst P(2)) (simp add: transmit_beside)
  ultimately show "\<exists>x. handle_check_m conns m msg (M, s) = Some x \<and> process_view M0 m cas sas x st'"
    using M3 P(4) by (auto simp: process_view_def)
qed


section \<open>Phases and turns\<close>

text \<open>A phase on memory ends with the same messages left and a view of the same state.\<close>

abbreviation same_rest :: "('a \<Rightarrow> 'b \<Rightarrow> bool) \<Rightarrow> 'a \<times> 'c \<Rightarrow> 'b \<times> 'c \<Rightarrow> bool" where
  "same_rest R \<equiv> rel_prod R (=)"

lemma handle_unload_evolves:
  assumes "sim_wf (ms_map st)" "conns_wf conns n" "msg_ok n (ms_map st) (PM_StockState msg)" "handle_unload conns msg st = Some st'"
  shows "evolves (ms_map st) (ms_map st')"
proof -
  obtain i ss where "hdr_cityId (ss_header msg) = int i" "i < length (vlist (map_cities (ms_map st)))"
    "0 \<le> hdr_airline (ss_header msg)" "hdr_airline (ss_header msg) < int n"
    "ss_stocks msg = part_of ss" "length ss \<le> MAX_STOCKS" "stocks_known (map_product (ms_map st)) ss"
    using assms(3) by (auto simp: part_ok_def)
  from handle_unload_ok [OF assms(1,2) this] assms(4) show ?thesis
    by auto
qed

lemma phase1_memory:
  assumes "sim_wf (ms_map st)" "conns_wf conns n" "list_all (msg_ok n (ms_map st)) inbox" "process_view M0 m cas sas x st"
  shows "runs_as (same_rest (process_view M0 m cas sas)) (phase1_m conns k m i x inbox) (phase1 conns k i st inbox)"
  using assms
proof (induction inbox arbitrary: i st x)
  case (Cons msg inbox)
  obtain M s where x: "x = (M, s)"
    by fastforce
  note IH = Cons.IH [OF _ Cons.prems(2)]
  have ok: "msg_ok n (ms_map st) msg" "list_all (msg_ok n (ms_map st)) inbox"
    using Cons.prems(3) by simp_all
  show ?case
  proof (cases "i = k \<or> pm_type msg \<noteq> MessageTypeUnloadStock")
    case True
    then show ?thesis
      using IH [OF Cons.prems(1) ok(2) Cons.prems(4)] Cons.prems(4) by auto
  next
    case False
    then obtain u where u: "msg = PM_StockState u"
      using ok(1) by (cases msg) auto
    have "runs_as (same_rest (process_view M0 m cas sas))
        (then_do (or_fault (handle_unload_m conns m u x)) (\<lambda>x'. phase1_m conns k m i x' inbox))
        (then_do (or_fault (handle_unload conns u st)) (\<lambda>st'. phase1 conns k i st' inbox))"
    proof (rule runs_as_then [OF runs_as_or_fault])
      show "implements (process_view M0 m cas sas) (handle_unload_m conns m u x) (handle_unload conns u st)"
        using handle_unload_memory [OF Cons.prems(1,2), of u M0 m cas sas M s] ok(1) Cons.prems(4) unfolding u x by blast
      fix x' st'
      assume V: "process_view M0 m cas sas x' st'" and "or_fault (handle_unload conns u st) = Returns st'"
      then have "handle_unload conns u st = Some st'"
        by (cases "handle_unload conns u st") simp_all
      then have e: "evolves (ms_map st) (ms_map st')"
        using handle_unload_evolves [OF Cons.prems(1,2)] ok(1) unfolding u by blast
      show "runs_as (same_rest (process_view M0 m cas sas)) (phase1_m conns k m i x' inbox) (phase1 conns k i st' inbox)"
        by (rule IH [OF evolves_wf [OF e] _ V]) (use ok(2) evolves_msg_ok [OF e] in \<open>simp add: list_all_iff\<close>)
    qed
    then show ?thesis
      using False u by simp
  qed
qed simp

lemma beside_view:
  assumes "process_view M0 m cas sas x st" "\<And>s mp. f (s\<lparr>ms_map := mp\<rparr>) = map_option (\<lambda>s'. s'\<lparr>ms_map := mp\<rparr>) (f s)"
  shows "implements (process_view M0 m cas sas) (beside f x) (f st)"
proof (rule implementsI)
  fix st'
  assume st': "f st = Some st'"
  obtain M s where x: "x = (M, s)"
    by fastforce
  note P = process_viewD [OF assms(1) [unfolded x]]
  have "f st = map_option (\<lambda>s'. s'\<lparr>ms_map := ms_map st\<rparr>) (f s)"
    by (subst P(2)) (rule assms(2))
  then obtain s' where "f s = Some s'" "st' = s'\<lparr>ms_map := ms_map st\<rparr>"
    using st' by (cases "f s") auto
  then show "\<exists>y. beside f x = Some y \<and> process_view M0 m cas sas y st'"
    using P by (auto simp: beside_def x process_view_def)
qed

text \<open>What does not look at the map.\<close>

lemma push_output_beside: "push_output msg (s\<lparr>ms_map := mp\<rparr>) = (push_output msg s)\<lparr>ms_map := mp\<rparr>"
  by (simp add: push_output_def)

lemma comm_send_airline_status_beside:
  "comm_send_airline_status a b c (s\<lparr>ms_map := mp\<rparr>) = (comm_send_airline_status a b c s)\<lparr>ms_map := mp\<rparr>"
  by (simp add: comm_send_airline_status_def push_output_beside)

lemma look_exit_beside: "look_exit (s\<lparr>ms_map := mp\<rparr>) = (fst (look_exit s), (snd (look_exit s))\<lparr>ms_map := mp\<rparr>)"
  by (simp add: look_exit_def split: prod.split)

lemma loop_beside:
  assumes "\<And>i s. g i (s\<lparr>ms_map := mp\<rparr>) = map_option (map_flow (\<lambda>s. s\<lparr>ms_map := mp\<rparr>) (\<lambda>s. s\<lparr>ms_map := mp\<rparr>)) (g i s)"
  shows "for_loop n i g (s\<lparr>ms_map := mp\<rparr>) = map_option (map_flow (\<lambda>s. s\<lparr>ms_map := mp\<rparr>) (\<lambda>s. s\<lparr>ms_map := mp\<rparr>)) (for_loop n i g s)"
  by (induction n arbitrary: i s) (auto simp: assms split: option.split flow.split)

lemma after_loop_beside:
  "after_loop (map_option (map_flow f f) r) Some = map_option f (after_loop r Some)"
  by (cases r) (auto simp: after_loop_def split: flow.split)

lemma send_all_beside: "send_all t conns (s\<lparr>ms_map := mp\<rparr>) = map_option (\<lambda>s'. s'\<lparr>ms_map := mp\<rparr>) (send_all t conns s)"
  unfolding send_all_def
  by (subst loop_beside) (auto simp: transmit_beside Let_def after_loop_beside split: Option.bind_split prod.split)

lemma send_airlines_status_beside:
  "send_airlines_status airlines (s\<lparr>ms_map := mp\<rparr>) = map_option (\<lambda>s'. s'\<lparr>ms_map := mp\<rparr>) (send_airlines_status airlines s)"
  unfolding send_airlines_status_def
  by (subst loop_beside) (auto simp: comm_send_airline_status_beside after_loop_beside split: Option.bind_split)


lemma phase2_memory:
  assumes "sim_wf (ms_map st)" "conns_wf conns n" "list_all (msg_ok n (ms_map st)) inbox" "process_view M0 m cas sas x st"
  shows "runs_as (same_rest (process_view M0 m cas sas)) (phase2_m conns k m i x inbox) (phase2 conns k i st inbox)"
  using assms
proof (induction inbox arbitrary: i st x)
  case (Cons msg inbox)
  obtain M s where x: "x = (M, s)"
    by fastforce
  have ok: "msg_ok n (ms_map st) msg" "list_all (msg_ok n (ms_map st)) inbox"
    using Cons.prems(3) by simp_all
  note P = process_viewD [OF Cons.prems(4) [unfolded x]]
  consider (over) "i = k" | (status) u where "i \<noteq> k" "pm_type msg = MessageTypeAirlineStatus" "msg = PM_AirlineStatus u"
    | (check) u where "i \<noteq> k" "pm_type msg = MessageTypeCheckDestinations" "msg = PM_CheckDestinations u"
    | (other) "i \<noteq> k" "pm_type msg \<noteq> MessageTypeAirlineStatus" "pm_type msg \<noteq> MessageTypeCheckDestinations"
    using ok(1) by (cases msg) auto
  then show ?case
  proof cases
    case over
    then show ?thesis
      using Cons.prems(4) by simp
  next
    case status
    let ?f = "comm_send_airline_status (as_planesFlying (asm_status u)) (as_totalPlanes (asm_status u)) (as_id (asm_status u))"
    have "?f st = (?f s)\<lparr>ms_map := ms_map st\<rparr>"
      by (subst P(2)) (rule comm_send_airline_status_beside)
    then have "process_view M0 m cas sas (M, ?f s) (?f st)"
      using P by (simp add: process_view_def)
    from Cons.IH [OF _ Cons.prems(2) _ this, of "i + 1"] Cons.prems(1) ok(2) show ?thesis
      using status by (simp add: x)
  next
    case check
    have "runs_as (same_rest (process_view M0 m cas sas))
        (then_do (or_fault (handle_check_m conns m u x)) (\<lambda>x'. phase2_m conns k m i x' inbox))
        (then_do (or_fault (handle_check conns u st)) (\<lambda>st'. phase2 conns k i st' inbox))"
    proof (rule runs_as_then [OF runs_as_or_fault])
      show "implements (process_view M0 m cas sas) (handle_check_m conns m u x) (handle_check conns u st)"
        using handle_check_memory [OF Cons.prems(1,2), of u M0 m cas sas M s] ok(1) Cons.prems(4) unfolding check(3) x by blast
      fix x' st'
      assume V: "process_view M0 m cas sas x' st'" and "or_fault (handle_check conns u st) = Returns st'"
      then have "handle_check conns u st = Some st'"
        by (cases "handle_check conns u st") simp_all
      then have e: "ms_map st' = ms_map st"
        using handle_check_ok [OF Cons.prems(1,2), of u] ok(1) unfolding check(3) by auto
      show "runs_as (same_rest (process_view M0 m cas sas)) (phase2_m conns k m i x' inbox) (phase2 conns k i st' inbox)"
        by (rule Cons.IH [OF _ Cons.prems(2) _ V]) (use Cons.prems(1) ok(2) in \<open>simp_all add: e\<close>)
    qed
    then show ?thesis
      using check by simp
  next
    case other
    then show ?thesis
      using Cons.IH [OF Cons.prems(1,2) ok(2) Cons.prems(4), of i] by simp
  qed
qed simp

lemma output_map_status_memory:
  assumes "process_view M0 m cas sas x st"
  shows "implements (process_view M0 m cas sas) (output_map_status_m m T x) (output_map_status T st)"
proof (rule implementsI)
  fix st'
  assume run: "output_map_status T st = Some st'"
  obtain M s where x: "x = (M, s)"
    by fastforce
  note P = process_viewD [OF assms [unfolded x]]
  obtain cities product matrix where V: "map_at m M = Some (cities, product, matrix)"
    "vector_view (city_reads M) M cities cas (map_cities (ms_map st))"
    using map_view_cities [OF P(1)] .
  have "implements (reads M) (send_map_status_m m T M) (send_map_status (ms_map st) T)"
    unfolding send_map_status_m_def send_map_status_def
    by (rule implements_read [OF V(1)], unfold prod.case, rule implements_read [OF vector_viewD(1) [OF V(2)]],
        rule implements_bind [OF get_map_status_reads [OF P(1)]])
      (auto simp: reads_def Let_def intro!: implements_same)
  moreover obtain msg where msg: "send_map_status (ms_map st) T = Some msg" "st' = push_output msg st"
    using run by (auto simp: output_map_status_def split: Option.bind_splits)
  ultimately have "output_map_status_m m T x = Some (M, push_output msg s)"
    using reads_result by (fastforce simp: output_map_status_m_def x)
  moreover have "st' = (push_output msg s)\<lparr>ms_map := ms_map st\<rparr>"
    unfolding msg(2) by (subst P(2)) (rule push_output_beside)
  ultimately show "\<exists>y. output_map_status_m m T x = Some y \<and> process_view M0 m cas sas y st'"
    using P by (auto simp: process_view_def)
qed

lemma turn_beside: "s\<lparr>ms_map := mp, ms_turn := k\<rparr> = s\<lparr>ms_turn := k, ms_map := mp\<rparr>"
  by (cases s) simp

lemma play_turn_memory:
  assumes wf: "sim_wf (ms_map st)" and conns: "conns_wf conns n" and msgs: "list_all (msg_ok n (ms_map st)) inbox"
    and V: "process_view M0 m cas sas x st"
  shows "runs_as (same_rest (process_view M0 m cas sas)) (play_turn_m conns n m T x inbox) (play_turn conns n T st inbox)"
proof -
  let ?V = "process_view M0 m cas sas"
  have step: "implements ?V (beside (\<lambda>s. comm_turn_step conns (s\<lparr>ms_turn := ms_turn s + 1\<rparr>)) x)
      (comm_turn_step conns (st\<lparr>ms_turn := ms_turn st + 1\<rparr>))"
    by (rule beside_view [OF V])
      (simp add: comm_turn_step_def turn_beside send_all_beside)
  show ?thesis
    unfolding play_turn_m_def play_turn_def
  proof (rule runs_as_then [OF runs_as_or_fault [OF step]])
    fix x1 st1
    assume V1: "?V x1 st1" and "or_fault (comm_turn_step conns (st\<lparr>ms_turn := ms_turn st + 1\<rparr>)) = Returns st1"
    then have m1: "ms_map st1 = ms_map st"
      using send_all_ok [OF conns, of MessageTypeStep "st\<lparr>ms_turn := ms_turn st + 1\<rparr>"] by (auto simp: comm_turn_step_def)
    have p1: "phase_result MessageTypeAirlineDone n st1 inbox (phase1 conns n 0 st1 inbox)"
      using phase1_result [of st1 conns n inbox 0 n] wf conns msgs by (simp add: m1)
    show "runs_as (same_rest ?V)
        (then_do (phase1_m conns n m 0 x1 inbox) (\<lambda>(x2, inbox2).
          then_do (or_fault (beside (comm_turn_continue conns) x2)) (\<lambda>x3.
          then_do (phase2_m conns n m 0 x3 inbox2) (\<lambda>(x4, inbox4).
          then_do (or_fault (output_map_status_m m T x4)) (\<lambda>x5. Returns (x5, inbox4))))))
        (then_do (phase1 conns n 0 st1 inbox) (\<lambda>(st2, inbox2).
          then_do (or_fault (comm_turn_continue conns st2)) (\<lambda>st3.
          then_do (phase2 conns n 0 st3 inbox2) (\<lambda>(st4, inbox4).
          then_do (or_fault (output_map_status T st4)) (\<lambda>st5. Returns (st5, inbox4))))))"
    proof (rule runs_as_then [OF phase1_memory [OF _ conns _ V1]])
      fix y2 y2'
      assume "same_rest ?V y2 y2'" and r1: "phase1 conns n 0 st1 inbox = Returns y2'"
      then obtain x2 st2 inbox2 where y2: "y2 = (x2, inbox2)" "y2' = (st2, inbox2)" "?V x2 st2"
        by (cases y2; cases y2') auto
      have e2: "evolves (ms_map st) (ms_map st2)" and sub: "set inbox2 \<subseteq> set inbox"
        using p1 by (auto simp: phase_result_def r1 y2 m1)
      have cont: "implements ?V (beside (comm_turn_continue conns) x2) (comm_turn_continue conns st2)"
        by (rule beside_view [OF y2(3)]) (simp add: comm_turn_continue_def send_all_beside)
      show "runs_as (same_rest ?V)
          (case y2 of (x2, inbox2) \<Rightarrow>
            then_do (or_fault (beside (comm_turn_continue conns) x2)) (\<lambda>x3.
            then_do (phase2_m conns n m 0 x3 inbox2) (\<lambda>(x4, inbox4).
            then_do (or_fault (output_map_status_m m T x4)) (\<lambda>x5. Returns (x5, inbox4)))))
          (case y2' of (st2, inbox2) \<Rightarrow>
            then_do (or_fault (comm_turn_continue conns st2)) (\<lambda>st3.
            then_do (phase2 conns n 0 st3 inbox2) (\<lambda>(st4, inbox4).
            then_do (or_fault (output_map_status T st4)) (\<lambda>st5. Returns (st5, inbox4)))))"
        unfolding y2 prod.case
      proof (rule runs_as_then [OF runs_as_or_fault [OF cont]])
        fix x3 st3
        assume V3: "?V x3 st3" and "or_fault (comm_turn_continue conns st2) = Returns st3"
        then have m3: "ms_map st3 = ms_map st2"
          using send_all_ok [OF conns, of MessageTypeContinue st2] by (auto simp: comm_turn_continue_def)
        have ok3: "list_all (msg_ok n (ms_map st3)) inbox2"
          using msgs sub evolves_msg_ok [OF e2] by (auto simp: m3 list_all_iff)
        show "runs_as (same_rest ?V)
            (then_do (phase2_m conns n m 0 x3 inbox2) (\<lambda>(x4, inbox4).
              then_do (or_fault (output_map_status_m m T x4)) (\<lambda>x5. Returns (x5, inbox4))))
            (then_do (phase2 conns n 0 st3 inbox2) (\<lambda>(st4, inbox4).
              then_do (or_fault (output_map_status T st4)) (\<lambda>st5. Returns (st5, inbox4))))"
        proof (rule runs_as_then [OF phase2_memory [OF _ conns ok3 V3]])
          show "sim_wf (ms_map st3)"
            using evolves_wf [OF e2] by (simp add: m3)
          fix y4 y4'
          assume "same_rest ?V y4 y4'"
          then obtain x4 st4 inbox4 where y4: "y4 = (x4, inbox4)" "y4' = (st4, inbox4)" "?V x4 st4"
            by (cases y4; cases y4') auto
          show "runs_as (same_rest ?V)
              (case y4 of (x4, inbox4) \<Rightarrow> then_do (or_fault (output_map_status_m m T x4)) (\<lambda>x5. Returns (x5, inbox4)))
              (case y4' of (st4, inbox4) \<Rightarrow> then_do (or_fault (output_map_status T st4)) (\<lambda>st5. Returns (st5, inbox4)))"
            unfolding y4 prod.case
            by (rule runs_as_then [OF runs_as_or_fault [OF output_map_status_memory [OF y4(3)]]]) simp
        qed
      qed
    qed (use wf msgs in \<open>simp_all add: m1\<close>)
  qed
qed


section \<open>The whole run\<close>

lemma look_exit_view:
  assumes "process_view M0 m cas sas (M, s) st"
  shows "fst (look_exit st) = fst (look_exit s)" "process_view M0 m cas sas (M, snd (look_exit s)) (snd (look_exit st))"
    "ms_turn (snd (look_exit st)) = ms_turn (snd (look_exit s))" "ms_map (snd (look_exit st)) = ms_map st"
proof -
  note P = process_viewD [OF assms]
  have e: "look_exit st = (fst (look_exit s), (snd (look_exit s))\<lparr>ms_map := ms_map st\<rparr>)"
    by (subst P(2)) (rule look_exit_beside)
  show "fst (look_exit st) = fst (look_exit s)" "ms_turn (snd (look_exit st)) = ms_turn (snd (look_exit s))"
    "ms_map (snd (look_exit st)) = ms_map st"
    by (simp_all add: e)
  show "process_view M0 m cas sas (M, snd (look_exit s)) (snd (look_exit st))"
    using P by (simp add: process_view_def e)
qed

lemma run_turns_memory:
  assumes "sim_wf (ms_map st)" "conns_wf conns n" "list_all (msg_ok n (ms_map st)) inbox"
    and "in_int T" "demand (ms_map st) \<le> T" "process_view M0 m cas sas (M, s) st"
  shows "runs_as (rel_option (same_rest (process_view M0 m cas sas))) (run_turns_m k conns n m T (M, s) inbox) (run_turns k conns n T st inbox)"
  using assms(1,3,5,6)
proof (induction k arbitrary: st inbox M s rule: less_induct)
  case (less k)
  let ?V = "process_view M0 m cas sas"
  note wf = less.prems(1) and msgs = less.prems(2) and le = less.prems(3) and V = less.prems(4)
  obtain stop s0 where l0: "look_exit s = (stop, s0)"
    by (cases "look_exit s")
  obtain st0 where t0: "look_exit st = (stop, st0)" "?V (M, s0) st0" "ms_turn st0 = ms_turn s0" "ms_map st0 = ms_map st"
    using look_exit_view [OF V] l0 by (cases "look_exit st") auto
  obtain stop' s1 where l1: "look_exit s0 = (stop', s1)"
    by (cases "look_exit s0")
  obtain st1 where t1: "look_exit st0 = (stop', st1)" "?V (M, s1) st1" "ms_map st1 = ms_map st"
    using look_exit_view [OF t0(2)] l1 t0(4) by (cases "look_exit st0") auto
  have over: "implements (reads M) (endSimulation_m m (ms_turn s0) M) (endSimulation (ms_map st0) (ms_turn st0))"
    using endSimulation_reads [OF process_viewD(1) [OF t0(2)]] by (simp add: t0(3))
  have turn: "runs_as (rel_option (same_rest ?V))
      (then_do (play_turn_m conns n m T (M, s1) inbox) (\<lambda>(x2, inbox2). run_turns_m j conns n m T x2 inbox2))
      (then_do (play_turn conns n T st1 inbox) (\<lambda>(st2, inbox2). run_turns j conns n T st2 inbox2))" if j: "k = Suc j" for j
  proof (rule runs_as_then [OF play_turn_memory [OF _ assms(2) _ t1(2)]])
    show "sim_wf (ms_map st1)" "list_all (msg_ok n (ms_map st1)) inbox"
      using wf msgs by (simp_all add: t1(3))
    fix y y'
    assume "same_rest ?V y y'" and r: "play_turn conns n T st1 inbox = Returns y'"
    then obtain M2 s2 st2 rest where y: "y = ((M2, s2), rest)" "y' = (st2, rest)" "?V (M2, s2) st2"
      by (cases y; cases y') auto
    have "turn_result st1 inbox (play_turn conns n T st1 inbox)"
      using play_turn_result [of st1 conns n inbox T] wf msgs le assms(2,4) by (simp add: t1(3))
    then have e: "evolves (ms_map st) (ms_map st2)" "set rest \<subseteq> set inbox"
      by (auto simp: turn_result_def r y t1(3))
    have "runs_as (rel_option (same_rest ?V)) (run_turns_m j conns n m T (M2, s2) rest) (run_turns j conns n T st2 rest)"
      by (rule less.IH [OF _ evolves_wf [OF e(1)] _ _ y(3)])
        (use j e le msgs evolves_msg_ok [OF e(1)] in \<open>auto simp: list_all_iff evolves_def\<close>)
    then show "runs_as (rel_option (same_rest ?V))
        (case y of (x2, inbox2) \<Rightarrow> run_turns_m j conns n m T x2 inbox2) (case y' of (st2, inbox2) \<Rightarrow> run_turns j conns n T st2 inbox2)"
      by (simp add: y)
  qed
  have "runs_as (rel_option (same_rest ?V))
      (then_do (or_fault (endSimulation_m m (ms_turn s0) M)) (\<lambda>(go, M).
          if go \<noteq> CONTINUE_SIM then Returns (Some ((M, s0), inbox))
          else if stop' then Returns (Some ((M, s1), inbox))
          else (case k of 0 \<Rightarrow> Returns None
            | Suc j \<Rightarrow> then_do (play_turn_m conns n m T (M, s1) inbox) (\<lambda>(x2, inbox2). run_turns_m j conns n m T x2 inbox2))))
      (then_do (or_fault (endSimulation (ms_map st0) (ms_turn st0))) (\<lambda>go.
          if go \<noteq> CONTINUE_SIM then Returns (Some (st0, inbox))
          else if stop' then Returns (Some (st1, inbox))
          else (case k of 0 \<Rightarrow> Returns None
            | Suc j \<Rightarrow> then_do (play_turn conns n T st1 inbox) (\<lambda>(st2, inbox2). run_turns j conns n T st2 inbox2))))"
    by (rule runs_as_then [OF runs_as_or_fault [OF over]]) (use turn t0(2) t1(2) in \<open>auto simp: reads_def split: nat.split\<close>)
  then show ?case
    using t0(2) by (subst run_turns_m.simps, subst run_turns.simps) (simp add: l0 t0(1) l1 t1(1) cong: if_cong)
qed

lemma runMap_memory:
  assumes wf: "sim_wf (ms_map st)" and conns: "conns_wf conns (getVectorSize airlines)" and airlines: "vec_inv airlines"
    and msgs: "list_all (msg_ok (getVectorSize airlines) (ms_map st)) inbox" and V: "process_view M0 m cas sas (M, s) st"
  shows "runs_as (rel_option (same_rest (process_view M0 m cas sas))) (runMap_m k airlines conns m (M, s) inbox) (runMap k airlines conns st inbox)"
proof -
  let ?V = "process_view M0 m cas sas" and ?T = "demand (ms_map st)"
  have W: "map_wf (ms_map st)" "in_int ?T"
    using sim_wfD(1) [OF wf] by (simp_all add: map_wf_def demand_def)
  have status: "get_map_status (ms_map st) = Some (?T, int (satisfied_cities (ms_map st)))"
    using get_map_status_refines [OF W(1)] by simp
  have status_m: "get_map_status_m m M = Some ((?T, int (satisfied_cities (ms_map st))), M)"
    by (rule reads_result [OF get_map_status_reads [OF process_viewD(1) [OF V]] status])
  have sent: "implements ?V (beside (send_airlines_status airlines) (M, s)) (send_airlines_status airlines st)"
    by (rule beside_view [OF V send_airlines_status_beside])
  show ?thesis
    unfolding runMap_m_def runMap_def prod.case status status_m or_fault.simps then_do.simps
  proof (rule runs_as_then [OF runs_as_or_fault [OF sent]], rule runs_as_then [OF runs_as_or_fault [OF output_map_status_memory]], assumption)
    fix x1 st1 x2 st2
    assume st1: "or_fault (send_airlines_status airlines st) = Returns st1"
      and V2: "?V x2 st2" and st2: "or_fault (output_map_status ?T st1) = Returns st2"
    obtain st1' where "send_airlines_status airlines st = Some st1'" "ms_map st1' = ms_map st"
      using send_airlines_status_ok [OF airlines, of st] by blast
    with st1 have m1: "ms_map st1 = ms_map st"
      by simp
    obtain st2' where "output_map_status ?T st1 = Some st2'" "ms_map st2' = ms_map st1"
      using output_map_status_ok [of st1 ?T] W m1 by auto
    with st2 m1 have m2: "ms_map st2 = ms_map st"
      by simp
    obtain M2 s2 where x2: "x2 = (M2, s2)"
      by fastforce
    note P = process_viewD [OF V2 [unfolded x2]]
    have "st2\<lparr>ms_turn := 0\<rparr> = s2\<lparr>ms_turn := 0, ms_map := ms_map st2\<rparr>"
      by (subst P(2)) (simp add: turn_beside)
    then have "?V (M2, s2\<lparr>ms_turn := 0\<rparr>) (st2\<lparr>ms_turn := 0\<rparr>)"
      using P by (simp add: process_view_def)
    then have "runs_as (rel_option (same_rest ?V))
        (run_turns_m k conns (getVectorSize airlines) m ?T (M2, s2\<lparr>ms_turn := 0\<rparr>) inbox)
        (run_turns k conns (getVectorSize airlines) ?T (st2\<lparr>ms_turn := 0\<rparr>) inbox)"
      using wf conns msgs W(2) by (intro run_turns_memory) (simp_all add: m2)
    then show "runs_as (rel_option (same_rest ?V))
        (case x2 of (M, s) \<Rightarrow> run_turns_m k conns (getVectorSize airlines) m ?T (M, s\<lparr>ms_turn := 0\<rparr>) inbox)
        (run_turns k conns (getVectorSize airlines) ?T (st2\<lparr>ms_turn := 0\<rparr>) inbox)"
      by (simp add: x2)
  qed
qed

end
