(* ===== verification/Properties_Pointers.thy ===== *)
theory Properties_Pointers
  imports Memory_Map Properties_Process Properties_Memory
begin

text \<open>
  The map process on memory: it does what the map process on values does, and no request leaves a
  block behind; an allocation that fails inside \<open>getProduct\<close> does.
\<close>

section \<open>The map of the examples in memory\<close>

definition demo_memory :: memory where
  "demo_memory = \<lparr>mem_blocks = map_of
     [(1, B_Name ''agua''), (2, B_Product 0 1), (3, B_Name ''arroz''), (4, B_Product 1 3),
      (5, B_Cells (arr_of 5 [2, 4])), (6, B_Vector 5 2 False),
      (7, B_Name ''A''), (8, B_Stock 10 2), (9, B_Cells (arr_of 5 [8])), (10, B_Vector 9 1 False), (11, B_City 7 0 10),
      (12, B_Name ''B''), (13, B_Stock 20 4), (14, B_Cells (arr_of 5 [13])), (15, B_Vector 14 1 False), (16, B_City 12 1 15),
      (17, B_Cells (arr_of 5 [11, 16])), (18, B_Vector 17 2 False),
      (19, B_Row [0, 5]), (20, B_Row [5, 0]), (21, B_Matrix [Some 19, Some 20]), (22, B_Map 18 6 21)],
     mem_next = 23, mem_fds = []\<rparr>"

lemma demo_at [simp]:
  "mem_blocks demo_memory (Suc 0) = Some (B_Name ''agua'')" "mem_blocks demo_memory 2 = Some (B_Product 0 (Suc 0))"
  "mem_blocks demo_memory 3 = Some (B_Name ''arroz'')" "mem_blocks demo_memory 4 = Some (B_Product 1 3)"
  "mem_blocks demo_memory 5 = Some (B_Cells (arr_of 5 [2, 4]))" "mem_blocks demo_memory 6 = Some (B_Vector 5 2 False)"
  "mem_blocks demo_memory 7 = Some (B_Name ''A'')" "mem_blocks demo_memory 8 = Some (B_Stock 10 2)"
  "mem_blocks demo_memory 9 = Some (B_Cells (arr_of 5 [8]))" "mem_blocks demo_memory 10 = Some (B_Vector 9 1 False)"
  "mem_blocks demo_memory 11 = Some (B_City 7 0 10)" "mem_blocks demo_memory 12 = Some (B_Name ''B'')"
  "mem_blocks demo_memory 13 = Some (B_Stock 20 4)" "mem_blocks demo_memory 14 = Some (B_Cells (arr_of 5 [13]))"
  "mem_blocks demo_memory 15 = Some (B_Vector 14 1 False)" "mem_blocks demo_memory 16 = Some (B_City 12 1 15)"
  "mem_blocks demo_memory 17 = Some (B_Cells (arr_of 5 [11, 16]))" "mem_blocks demo_memory 18 = Some (B_Vector 17 2 False)"
  "mem_blocks demo_memory 19 = Some (B_Row [0, 5])" "mem_blocks demo_memory 20 = Some (B_Row [5, 0])"
  "mem_blocks demo_memory 21 = Some (B_Matrix [Some 19, Some 20])" "mem_blocks demo_memory 22 = Some (B_Map 18 6 21)"
  by (simp_all add: demo_memory_def)

lemma demo_fresh: "fresh_ok demo_memory"
  by (auto simp: fresh_ok_def demo_memory_def)

lemma vec_in_five:
  "mem_blocks M v = Some (B_Vector p (length xs) False) \<Longrightarrow> mem_blocks M p = Some (B_Cells (arr_of 5 xs)) \<Longrightarrow> xs \<noteq> [] \<Longrightarrow> length xs \<le> 5 \<Longrightarrow>
    v \<noteq> NULL \<Longrightarrow> p \<noteq> NULL \<Longrightarrow> p \<noteq> v \<Longrightarrow> vec_in M v xs [p, v]"
  unfolding vec_in_def by (intro conjI exI [of _ p]) (auto intro: exI [of _ 5])

lemma demo_vec_in:
  "vec_in demo_memory 6 [2, 4] [5, 6]" "vec_in demo_memory 10 [8] [9, 10]" "vec_in demo_memory 15 [13] [14, 15]"
  "vec_in demo_memory 18 [11, 16] [17, 18]"
  by (rule vec_in_five, simp_all)+

lemma demo_views:
  "product_view demo_memory 2 (vlist demo_products ! 0)" "product_view demo_memory 4 (vlist demo_products ! 1)"
  by (simp_all add: product_view_def demo_products_def)

lemma demo_stocks:
  "stocks_view demo_memory 10 [8] (vec_of [demo_stock 0 10])" "stocks_view demo_memory 15 [13] (vec_of [demo_stock 1 20])"
  using demo_vec_in demo_views by (auto simp: vector_view_def stock_view_def demo_stock_def)

lemma demo_map_view: "map_view demo_memory 22 [11, 16] [[8], [13]] demo_map"
proof -
  have "vector_view (product_view demo_memory) demo_memory 6 [2, 4] demo_products"
    using demo_vec_in(1) demo_views unfolding vector_view_def
    by (intro exI [of _ "[5, 6]"] exI [of _ "vlist demo_products"]) (simp add: demo_products_def)
  moreover have "vector_view (\<lambda>c y. True) demo_memory 18 [11, 16] (map_cities demo_map)"
    using demo_vec_in(4) by (auto simp: vector_view_def demo_map_def)
  moreover have "city_view demo_memory ([[8], [13]] ! i) ([11, 16] ! i) (vlist (map_cities demo_map) ! i)" if "i < 2" for i
    using that demo_stocks by (cases i) (auto simp: city_view_def demo_map_def less_Suc_eq)
  ultimately show ?thesis
    unfolding map_view_def
    by (intro conjI exI [of _ 18] exI [of _ 6] exI [of _ 21] exI [of _ "[2, 4]"] exI [of _ "[19, 20]"])
      (auto simp: demo_map_def)
qed

section \<open>The map process\<close>

text \<open>
  C7. The map process run on memory, where every request allocates the stocks of a plane, changes
  the demands of the map in place and gives the stocks back, does what the map process does on values:
  it sends the same messages, shows the same output, and its memory holds the same map. When it
  returns, exactly the blocks it started with are allocated.
\<close>

theorem runMap_in_memory:
  assumes "sim_wf (ms_map st)" "conns_wf conns (getVectorSize airlines)" "vec_inv airlines"
    and "list_all (msg_ok (getVectorSize airlines) (ms_map st)) inbox"
    and "map_view M m cas sas (ms_map st)" "fresh_ok M"
  shows "case runMap_m 70000 airlines conns m (M, st) inbox of
      Faults \<Rightarrow> False
    | Blocks \<Rightarrow> runMap 70000 airlines conns st inbox = Blocks
    | Returns None \<Rightarrow> False
    | Returns (Some ((M', s'), rest)) \<Rightarrow> \<exists>st'. runMap 70000 airlines conns st inbox = Returns (Some (st', rest)) \<and>
        map_view M' m cas sas (ms_map st') \<and> ms_sent s' = ms_sent st' \<and> ms_output s' = ms_output st' \<and>
        (\<forall>a. mem_blocks M' a = None \<longleftrightarrow> mem_blocks M a = None)"
proof -
  have "process_view M m cas sas (M, st) st"
    using assms(5,6) by (simp add: process_view_def)
  from runMap_memory [OF assms(1-4) this, of 70000] runMap_result [OF assms(1-4)]
  have R: "rel_outcome (rel_option (same_rest (process_view M m cas sas))) (runMap_m 70000 airlines conns m (M, st) inbox)
      (runMap 70000 airlines conns st inbox)" and result: "run_result (st\<lparr>ms_turn := 0\<rparr>) (runMap 70000 airlines conns st inbox)"
    by (auto simp: runs_as_def run_result_def)
  have "map_view M' m cas sas (ms_map st') \<and> ms_sent s' = ms_sent st' \<and> ms_output s' = ms_output st' \<and>
      (\<forall>a. mem_blocks M' a = None \<longleftrightarrow> mem_blocks M a = None)" if "process_view M m cas sas (M', s') st'" for M' s' st'
    using process_viewD [OF that] by (metis map_state.simps(3,4) map_state.surjective map_state.update_convs(1))
  with R result show ?thesis
    by (cases rule: outcome.rel_cases) (auto simp: run_result_def option_rel_Some2 split: option.splits)
qed

theorem runMap_in_memory_witness:
  "runMap_m 70000 (vec_of [\<lparr>airline_id = 0, airline_numberOfPlanes = 1, airline_planes = []\<rparr>]) (vec_of [0]) 22 (demo_memory, demo_state)
     [PM_StockState (demo_request 10), PM_Type MessageTypeAirlineDone] \<noteq> Faults"
proof -
  let ?as = "vec_of [\<lparr>airline_id = 0, airline_numberOfPlanes = 1, airline_planes = []\<rparr>] :: airline vector"
  have "msg_ok 1 demo_map (PM_StockState (demo_request 10))"
    using demo_wf demo_known [of 10]
    by (auto simp: demo_request_def prepare_header_def part_ok_def MAX_STOCKS_def
        intro!: exI [of _ 0] exI [of _ "[demo_stock 0 10]"])
  then show ?thesis
    using runMap_in_memory [of demo_state "vec_of [0]" ?as "[PM_StockState (demo_request 10), PM_Type MessageTypeAirlineDone]"
      demo_memory 22 "[11, 16]" "[[8], [13]]"] demo_wf(1) demo_map_view demo_fresh
    by (auto simp: demo_state_def conns_wf_def upt_rec)
qed


section \<open>Memory that is lost\<close>

text \<open>
  C23. When the catalogue is full and the block for more cells cannot be had, \<open>getProduct\<close> returns NULL for
  a new product, but the copy of the name stays allocated with no pointer to it, the catalogue has lost
  its cells, which stay allocated too, and its mutex is held for ever.
\<close>

theorem getProduct_leak:
  assumes "vector_view (product_view M) M v pas ps" "name \<notin> product_name ` set (vlist ps)" "length pas mod 5 = 0" "fresh_ok M"
  shows "\<exists>M' a. getProduct_m (True # True # False # al) name v M = Some (NULL, al, M') \<and>
    mem_blocks M a = None \<and> mem_blocks M' a = Some (B_Name name) \<and>
    mem_blocks M' v = Some (B_Vector NULL (length pas) True) \<and>
    (\<forall>p. mem_blocks M v = Some (B_Vector p (length pas) False) \<longrightarrow> p \<noteq> NULL \<longrightarrow> mem_blocks M' p = mem_blocks M p \<and> mem_blocks M p \<noteq> None)"
proof -
  obtain vb ys where v: "vec_in M v pas vb" "ps = vec_of ys" "list_all2 (product_view M) pas ys"
    using assms(1) by (auto simp: vector_view_def)
  have "vec_inv ps"
    using v vec_inD(4) [OF v(1)] by (simp add: list_all2_lengthD)
  moreover have "find (\<lambda>p. name = product_name p) (vlist ps) = None"
    using assms(2) by (auto simp: find_None_all)
  ultimately have "getProductId name ps = Some (- 1)"
    by (simp add: getProductId_find)
  then have i: "getProductId_m name v M = Some (- 1, M)"
    using getProductId_implemented [OF assms(1), of name] by (auto simp: implements_def)
  let ?n = "mem_next M"
  obtain p where p: "mem_blocks M v = Some (B_Vector p (length pas) False)" "v \<noteq> NULL"
    "p \<noteq> NULL \<Longrightarrow> p \<noteq> v \<and> (\<exists>c. mem_blocks M p = Some (B_Cells c))"
    using v(1) by (auto simp: vec_in_def split: if_splits)
  have new: "?n \<noteq> NULL" "mem_blocks M ?n = None" "mem_blocks M (Suc ?n) = None"
    using assms(4) by (auto simp: fresh_ok_def)
  then have far: "v \<noteq> ?n" "v \<noteq> Suc ?n" "p \<noteq> NULL \<Longrightarrow> p \<noteq> ?n \<and> p \<noteq> Suc ?n"
    using p by auto
  let ?M = "M\<lparr>mem_blocks := (mem_blocks M)(Suc ?n \<mapsto> B_Name name, v \<mapsto> B_Vector NULL (length pas) True), mem_next := Suc (Suc ?n)\<rparr>"
  have "getProduct_m (True # True # False # al) name v M = Some (NULL, al, ?M)"
  proof -
    let ?M3 = "M\<lparr>mem_blocks := (mem_blocks M)(?n \<mapsto> B_Product 0 (Suc ?n), Suc ?n \<mapsto> B_Name name), mem_next := Suc (Suc ?n)\<rparr>"
    have "realloc_m p (length pas + 5) (False # al) ?M3 = Some (NULL, al, ?M3)"
      using p far by (cases "p = NULL") (auto simp: realloc_m_def reading malloc_def)
    then have "addToVector_m (False # al) v ?n ?M3 = Some (- 1, al, store v (B_Vector NULL (length pas) True) ?M3)"
      using p(1) far assms(3) by (simp add: addToVector_m_def reading)
    moreover have "store ?n (B_Product 0 (Suc ?n)) (M\<lparr>mem_blocks := (mem_blocks M)(?n \<mapsto> B_Product 0 NULL, Suc ?n \<mapsto> B_Name name),
        mem_next := Suc (Suc ?n)\<rparr>) = ?M3"
      by (simp add: store_def fun_upd_twist)
    moreover have "free ?n (store v (B_Vector NULL (length pas) True) ?M3) = Some ?M"
      using new far by (auto simp: free_def store_def fun_eq_iff)
    ultimately show ?thesis
      using i new by (simp add: getProduct_m_def malloc_def)
  qed
  then show ?thesis
    using p far new by (intro exI [of _ ?M] exI [of _ "Suc ?n"]) auto
qed


theorem getProduct_leak_witness:
  "\<exists>M' a. getProduct_m [True, True, False] ''sal'' 1 \<lparr>mem_blocks = [1 \<mapsto> B_Vector NULL 0 False], mem_next = 2, mem_fds = []\<rparr> =
      Some (NULL, [], M') \<and> mem_blocks M' a = Some (B_Name ''sal'')"
proof -
  let ?M = "\<lparr>mem_blocks = [1 \<mapsto> B_Vector NULL 0 False], mem_next = 2, mem_fds = []\<rparr>"
  have "vector_view (product_view ?M) ?M 1 [] (vec_of [])"
    unfolding vector_view_def by (intro exI [of _ "[1]"] exI [of _ "[]"]) (simp add: vec_in_def)
  moreover have "fresh_ok ?M"
    by (auto simp: fresh_ok_def)
  ultimately show ?thesis
    using getProduct_leak [of ?M 1 "[]" "vec_of []" "''sal''" "[]"] by auto
qed

end
