(* ===== verification/Failing_Reads.thy ===== *)
theory Failing_Reads
  imports Map_Process Airline_Start
begin

text \<open>
  Reads that fail. In the other theories a process gets its messages from a list; here each call of
  \<open>ipc_read\<close> may return -1 instead (a signal interrupts it, a buffer is too short), which is \<^const>\<open>None\<close> in
  the list of its results. \<open>comm_airline_recieve\<close> hands the error on and the listener of an airline leaves
  its loop. \<open>comm_get_map_message\<close> hands it on too, but \<open>runMap\<close> ignores it: the message is still the one before.
  So it is with the queues of \<open>ipc/socket.c\<close> and \<open>ipc/mqueue.c\<close>, which leave the buffer alone when they
  return -1; \<open>ipc/fifo.c\<close> never returns -1, but copies its own buffer, whatever is in it, and returns a length.
\<close>

section \<open>The functions\<close>

text \<open>The result, and what is in the buffer afterwards; \<^const>\<open>None\<close> is an indeterminate buffer.\<close>

definition comm_airline_recieve :: "MapMessage option \<Rightarrow> MapMessage option \<Rightarrow> int \<times> MapMessage option" where
  "comm_airline_recieve read msg = (case read of None \<Rightarrow> (- 1, msg) | Some m \<Rightarrow> (0, Some m))"

definition comm_get_map_message :: "PlaneMessage option \<Rightarrow> PlaneMessage option \<Rightarrow> PlaneMessage option" where
  "comm_get_map_message read msg = (case read of None \<Rightarrow> msg | Some m \<Rightarrow> Some m)"

fun listen_reads :: "airline_state \<Rightarrow> MapMessage option \<Rightarrow> MapMessage option list \<Rightarrow> airline_state outcome" where
  "listen_reads st buf [] = Blocks"
| "listen_reads st buf (read # reads) =
     (let (res, buf') = comm_airline_recieve read buf in
      if res \<noteq> 0 then Returns st
      else case buf' of None \<Rightarrow> Faults
        | Some msg \<Rightarrow>
            (case listen_one msg st of
               None \<Rightarrow> Faults
             | Some (Exit st') \<Rightarrow> Returns st'
             | Some (Next st') \<Rightarrow> listen_reads st' buf' reads))"

fun phase1_reads :: "nat vector \<Rightarrow> nat \<Rightarrow> nat \<Rightarrow> map_state \<Rightarrow> PlaneMessage option \<Rightarrow> PlaneMessage option list \<Rightarrow>
  (map_state \<times> PlaneMessage option list) outcome" where
  "phase1_reads conns airlinesize i st buf [] = (if i = airlinesize then Returns (st, []) else Blocks)"
| "phase1_reads conns airlinesize i st buf (read # reads) =
     (if i = airlinesize then Returns (st, read # reads)
      else case comm_get_map_message read buf of
        None \<Rightarrow> Faults
      | Some msg \<Rightarrow>
          if pm_type msg = MessageTypeAirlineDone then phase1_reads conns airlinesize (i + 1) st (Some msg) reads
          else if pm_type msg = MessageTypeUnloadStock then
            (case msg of
               PM_StockState m \<Rightarrow>
                 then_do (or_fault (handle_unload conns m st)) (\<lambda>st'. phase1_reads conns airlinesize i st' (Some msg) reads)
             | _ \<Rightarrow> Faults)
          else phase1_reads conns airlinesize i st (Some msg) reads)"

section \<open>Reads that do not fail\<close>

lemma listen_reads_all: "listen_reads st buf (map Some inbox) = listen st inbox"
  by (induction inbox arbitrary: st buf) (auto simp: comm_airline_recieve_def split: option.split flow.split)

lemma phase1_reads_all:
  "phase1_reads conns k i st buf (map Some inbox) = map_outcome (map_prod id (map Some)) (phase1 conns k i st inbox)"
proof (induction inbox arbitrary: i st buf)
  case (Cons msg inbox)
  have "then_do x (\<lambda>st'. map_outcome f (g st')) = map_outcome f (then_do x g)" for x f and g :: "map_state \<Rightarrow> (map_state \<times> PlaneMessage list) outcome"
    by (cases x) simp_all
  then show ?case
    using Cons by (auto simp: comm_get_map_message_def split: PlaneMessage.split)
qed simp

section \<open>Reads that fail\<close>

text \<open>What the map process sees: for a read that failed, the message before once more.\<close>

fun seen :: "PlaneMessage \<Rightarrow> PlaneMessage option list \<Rightarrow> PlaneMessage list" where
  "seen msg [] = []"
| "seen msg (None # reads) = msg # seen msg reads"
| "seen msg (Some m # reads) = m # seen m reads"

lemma phase1_reads_seen:
  "map_outcome fst (phase1_reads conns k i st (Some msg) reads) = map_outcome fst (phase1 conns k i st (seen msg reads))"
proof (induction reads arbitrary: i st msg)
  case (Cons read reads)
  have "map_outcome f (then_do x g) = map_outcome h (then_do x g')"
    if "\<And>s. map_outcome f (g s) = map_outcome h (g' s)" for x f h and g :: "map_state \<Rightarrow> 'a outcome" and g' :: "map_state \<Rightarrow> 'b outcome"
    using that by (cases x) simp_all
  note do = this
  show ?case
  proof (cases "i = k")
    case False
    show ?thesis
    proof (cases read)
      case None
      then show ?thesis
        using False Cons by (auto simp: comm_get_map_message_def intro!: do split: PlaneMessage.split)
    next
      case (Some m)
      then show ?thesis
        using False Cons by (auto simp: comm_get_map_message_def intro!: do split: PlaneMessage.split)
    qed
  qed (cases read; simp)
qed simp

text \<open>The listener of an airline takes a failing read for the end of the simulation.\<close>

lemma listen_reads_failure:
  assumes "listen st inbox = Blocks"
  shows "\<exists>st'. listen_reads st buf (map Some inbox @ None # reads) = Returns st'"
  using assms
  by (induction inbox arbitrary: st buf) (auto simp: comm_airline_recieve_def split: option.splits flow.splits)

end
