(* ===== verification/Failing_Allocations.thy ===== *)
theory Failing_Allocations
  imports Failing_Reads Parser_Spec
begin

text \<open>
  The allocations of the map process while it serves a plane. The other theories let them succeed;
  here every call of \<open>malloc\<close> and \<open>realloc\<close> under \<open>initPlane\<close> may fail. \<open>initPlane\<close> does not look at
  what \<open>createVector\<close>, \<open>initStock\<close> and \<open>addToVector\<close> return.
\<close>

section \<open>The requests of a plane\<close>

definition handle_unload_al :: "mallocs \<Rightarrow> nat vector \<Rightarrow> StockStateMessage \<Rightarrow> map_state \<Rightarrow> map_state option" where
  "handle_unload_al al conns msg st = do {
     let airlineId = hdr_airline (ss_header msg);
     (pl, m, _) \<leftarrow> initPlane al (ss_stocks msg) (ss_header msg) blank_plane (ms_map st);
     (m', pl') \<leftarrow> updateMap m pl;
     conn \<leftarrow> vec_deref conns airlineId;
     comm_unloaded_stock airlineId pl' conn (st\<lparr>ms_map := m'\<rparr>)
   }"

definition handle_check_al :: "mallocs \<Rightarrow> nat vector \<Rightarrow> CheckDestinationsMessage \<Rightarrow> map_state \<Rightarrow> map_state option" where
  "handle_check_al al conns msg st = do {
     let airlineId = hdr_airline (cd_header msg);
     (pl, m, _) \<leftarrow> initPlane al (cd_stocks msg) (cd_header msg) blank_plane (ms_map st);
     conn \<leftarrow> vec_deref conns airlineId;
     reply \<leftarrow> app_give_destinations m pl;
     Some (comm_give_destinations reply conn (st\<lparr>ms_map := m\<rparr>))
   }"

lemma handle_al_Nil: "handle_unload_al [] = handle_unload" "handle_check_al [] = handle_check"
  by (intro ext; simp add: handle_unload_al_def handle_unload_def handle_check_al_def handle_check_def)+

text \<open>The allocations for a plane with \<open>n\<close> stocks: the vector, the objects, and the vector growing at every fifth.\<close>

definition plane_allocs :: "nat \<Rightarrow> nat" where
  "plane_allocs n = 1 + n + (n + 4) div 5"

fun stock_allocs :: "nat \<Rightarrow> nat \<Rightarrow> nat" where
  "stock_allocs 0 j = 0"
| "stock_allocs (Suc k) j = Suc (if j mod 5 = 0 then 1 else 0) + stock_allocs k (Suc j)"

lemma stock_allocs_total: "stock_allocs k j + (j + 4) div 5 = k + (j + k + 4) div 5"
proof (induction k arbitrary: j)
  case (Suc k)
  have "(Suc j + 4) div 5 = (j + 4) div 5 + (if j mod 5 = 0 then 1 else 0)"
    by presburger
  then show ?case
    using Suc [of "Suc j"] by simp
qed simp

section \<open>The loop over the stocks\<close>

lemma init_body_allocs:
  assumes "products_wf ps" "names_fit ps" "stocks_known ps ss" "length ss \<le> MAX_STOCKS" "j < length ss"
  shows "init_body (part_of ss) j (vec_of (take j ss), ps, al) =
    (case alloc al of (ok, al1) \<Rightarrow> if \<not> ok then None
     else (case if j mod 5 = 0 then alloc al1 else (True, al1) of (ok, al2) \<Rightarrow>
       Some (Next (if ok then vec_of (take (Suc j) ss) else (vec_of (take j ss))\<lparr>vec_pointer := [], vec_lock := True\<rparr>, ps, al2))))"
proof -
  have s: "stock_wf (ss ! j)" "the (stock_product (ss ! j)) \<in> set (vlist ps)"
    using assms(3,5) by (simp_all add: stocks_known_def list_all_length)
  obtain p where p: "stock_product (ss ! j) = Some p" "stock_pid (ss ! j) = product_id p"
    using s(1) by (rule stock_wfE)
  have in_ps: "p \<in> set (vlist ps)"
    using s(2) p(1) by simp
  have "strcpy_into CITY_NAME_MAX_LENGTH (product_name p) = Some (product_name p)"
    using assms(2) in_ps by (simp add: names_fit_def list_all_iff strcpy_into_def)
  moreover have "\<lparr>stock_amount = stock_amount (ss ! j), stock_product = Some p\<rparr> = ss ! j"
    using p(1) by (cases "ss ! j") simp
  ultimately show ?thesis
    using assms(4,5) p(2) by (auto simp: init_body_def part_of_def getProductName_known [OF assms(1) in_ps]
        initStock_def getProduct_known [OF assms(1) in_ps] addToVector_vec_of take_Suc_conv_app_nth split: prod.split)
qed

lemma init_body_locked: "vec_lock v \<Longrightarrow> init_body part j (v, ps, al) = None"
  by (auto simp: init_body_def addToVector_def split: Option.bind_split)

definition last_lost :: "stock list \<Rightarrow> stock vector" where
  "last_lost ss = (vec_of (butlast ss))\<lparr>vec_pointer := [], vec_lock := True\<rparr>"

lemma init_loop_allocs:
  assumes "products_wf ps" "names_fit ps" "stocks_known ps ss" "length ss \<le> MAX_STOCKS" "j + k = length ss"
  shows "case allocs (stock_allocs k j) al of (ok, al') \<Rightarrow>
    (case for_loop k j (init_body (part_of ss)) (vec_of (take j ss), ps, al) of
       None \<Rightarrow> \<not> ok
     | Some (Exit _) \<Rightarrow> False
     | Some (Next (v, ps', al2)) \<Rightarrow> ps' = ps \<and> (if ok then v = vec_of ss \<and> al2 = al' else v = last_lost ss \<and> ss \<noteq> []))"
  using assms(5)
proof (induction k arbitrary: j al)
  case (Suc k)
  have j: "j < length ss" and IH: "case allocs (stock_allocs k (Suc j)) al of (ok, al') \<Rightarrow>
    (case for_loop k (Suc j) (init_body (part_of ss)) (vec_of (take (Suc j) ss), ps, al) of
       None \<Rightarrow> \<not> ok
     | Some (Exit _) \<Rightarrow> False
     | Some (Next (v, ps', al2)) \<Rightarrow> ps' = ps \<and> (if ok then v = vec_of ss \<and> al2 = al' else v = last_lost ss \<and> ss \<noteq> []))" for al
    using Suc.prems Suc.IH [of "Suc j"] by simp_all
  have lock: "for_loop k (Suc j) (init_body (part_of ss)) ((vec_of (take j ss))\<lparr>vec_pointer := [], vec_lock := True\<rparr>, ps, al2) =
      (if k = 0 then Some (Next (last_lost ss, ps, al2)) else None)" for al2
    using Suc.prems by (cases k) (auto simp: init_body_locked last_lost_def butlast_conv_take)
  obtain ok1 al1 where a1: "alloc al = (ok1, al1)"
    by (metis prod.collapse)
  obtain ok2 al2 where a2: "alloc al1 = (ok2, al2)"
    by (metis prod.collapse)
  have ne: "ss \<noteq> []"
    using j by auto
  show ?case
    using IH [of al1] IH [of al2] a1 a2 ne by (auto simp: init_body_allocs [OF assms(1-4) j] lock split: prod.splits)
qed simp

section \<open>The answer\<close>

lemma discharge_locked: "vec_lock ps \<Longrightarrow> discharge i (cs, ps) = None"
  by (simp add: discharge_def vec_deref_def getFromVector_def)

lemma updateMap_locked:
  assumes "vec_lock (plane_stocks pl)" "vec_size (plane_stocks pl) \<noteq> 0"
  shows "updateMap m pl = None"
proof -
  obtain k where "vec_size (plane_stocks pl) = Suc k"
    using assms(2) by (cases "vec_size (plane_stocks pl)") auto
  then show ?thesis
    using assms(1) by (simp add: updateMap_def getVectorSize_def discharge_locked split: Option.bind_split)
qed

lemma getCityScore_locked:
  assumes "vec_inv cs" "vlist cs \<noteq> []" "vec_lock ps" "vec_size ps \<noteq> 0"
  shows "getCityScore cs ps = None"
proof -
  obtain xs where xs: "cs = vec_of xs" "xs \<noteq> []" "length xs < 2147483648"
    using assms(1,2) by (auto elim: vec_invE)
  obtain k j where "length xs = Suc k" "vec_size ps = Suc j"
    using xs(2) assms(4) by (metis length_0_conv not0_implies_Suc)
  then show ?thesis
    using assms(3) xs vec_deref_in [of 0 xs]
    by (simp add: getCityScore_def stock_overlap_def getVectorSize_def vec_deref_def [of ps] getFromVector_def [of ps]
        split: Option.bind_split)
qed

lemma app_give_destinations_locked:
  assumes "sim_wf m" "vlist (map_cities m) \<noteq> []" "vec_lock (plane_stocks pl)" "vec_size (plane_stocks pl) \<noteq> 0"
  shows "app_give_destinations m pl = None"
proof -
  obtain cs where cs: "map_cities m = vec_of cs" "cs \<noteq> []" "length cs < 2147483648"
    using assms(1,2) by (auto simp: sim_wf_def map_wf_def elim: vec_invE)
  then have c: "cs ! 0 \<in> set (vlist (map_cities m))"
    by simp
  have "getCityScore (city_stock (cs ! 0)) (plane_stocks pl) = None"
    using c assms(1) map_wf_stocks [OF _ c] by (intro getCityScore_locked assms(3,4)) (auto simp: sim_wf_def stocks_wf_def list_all_iff)
  moreover obtain k where "length cs = Suc k"
    using cs(2) by (cases cs) auto
  ultimately show ?thesis
    using cs vec_deref_in [of 0 cs] by (simp add: app_give_destinations_def collect_city_def split_def split: Option.bind_split)
qed

text \<open>\<open>initPlane\<close>: the plane, nothing, or, when only the last growth failed, a plane with a locked vector.\<close>

lemma initPlane_allocs:
  assumes "products_wf (map_product m)" "names_fit (map_product m)" "stocks_known (map_product m) ss" "length ss \<le> MAX_STOCKS"
  obtains "fst (allocs (plane_allocs (length ss)) al)" "\<And>header pl. initPlane al (part_of ss) header pl m =
      Some (pl\<lparr>plane_id := hdr_id header, plane_cityId := hdr_cityId header, plane_stocks := vec_of ss\<rparr>, m, snd (allocs (plane_allocs (length ss)) al))"
  | "\<not> fst (allocs (plane_allocs (length ss)) al)" "\<And>header pl. initPlane al (part_of ss) header pl m = None"
  | al' where "\<not> fst (allocs (plane_allocs (length ss)) al)" "ss \<noteq> []" "\<And>header pl. initPlane al (part_of ss) header pl m =
      Some (pl\<lparr>plane_id := hdr_id header, plane_cityId := hdr_cityId header, plane_stocks := last_lost ss\<rparr>, m, al')"
proof -
  obtain ok1 al1 where a1: "alloc al = (ok1, al1)"
    by (metis prod.collapse)
  have total: "plane_allocs (length ss) = Suc (stock_allocs (length ss) 0)"
    using stock_allocs_total [of "length ss" 0] by (simp add: plane_allocs_def)
  obtain ok2 al2 where a2: "allocs (stock_allocs (length ss) 0) al1 = (ok2, al2)"
    by (metis prod.collapse)
  let ?loop = "for_loop (length ss) 0 (init_body (part_of ss)) (vec_of [], map_product m, al1)"
  have loop: "case ?loop of None \<Rightarrow> \<not> ok2 | Some (Exit _) \<Rightarrow> False
     | Some (Next (v, ps', al3)) \<Rightarrow> ps' = map_product m \<and> (if ok2 then v = vec_of ss \<and> al3 = al2 else v = last_lost ss \<and> ss \<noteq> [])"
    using init_loop_allocs [OF assms, of 0 "length ss" al1] a2 by (simp split: option.splits flow.splits)
  have start: "init_stocks al (part_of ss) m = (if ok1 then after_loop ?loop Some else None)"
    using a1 by (simp add: init_stocks_def createVector_def init_body_def [symmetric] vec_of_def vec_cap_def arr_of_def) (simp add: part_of_def)
  show thesis
  proof (cases "ok1 \<and> ok2")
    case True
    then show thesis
      using loop a1 a2 by (intro that(1)) (auto simp: total initPlane_def start split: option.splits flow.splits)
  next
    case failed: False
    show thesis
    proof (cases "ok1 \<and> ?loop \<noteq> None")
      case True
      then obtain al3 where "?loop = Some (Next (last_lost ss, map_product m, al3))" "ss \<noteq> []"
        using loop failed by (cases "the ?loop") auto
      then show thesis
        using True failed a1 a2 by (intro that(3) [of al3]) (auto simp: total initPlane_def start)
    next
      case False
      then show thesis
        using failed a1 a2 by (intro that(2)) (auto simp: total initPlane_def start)
    qed
  qed
qed

lemma last_lost_locked: "vec_lock (last_lost ss)" "ss \<noteq> [] \<Longrightarrow> length ss \<noteq> 1 \<Longrightarrow> vec_size (last_lost ss) \<noteq> 0"
  by (cases ss; auto simp: last_lost_def)+

lemma handle_unload_al_cases:
  assumes "products_wf (map_product (ms_map st))" "names_fit (map_product (ms_map st))"
    and "stocks_known (map_product (ms_map st)) ss" "length ss \<le> MAX_STOCKS" "ss_stocks msg = part_of ss" "length ss \<noteq> 1"
  shows "handle_unload_al al conns msg st =
    (if fst (allocs (plane_allocs (length ss)) al) then handle_unload conns msg st else None)"
proof (rule initPlane_allocs [OF assms(1-4), of al])
  fix al'
  assume "\<not> fst (allocs (plane_allocs (length ss)) al)" "ss \<noteq> []"
    and "\<And>header pl. initPlane al (part_of ss) header pl (ms_map st) =
      Some (pl\<lparr>plane_id := hdr_id header, plane_cityId := hdr_cityId header, plane_stocks := last_lost ss\<rparr>, ms_map st, al')"
  then show ?thesis
    using last_lost_locked [of ss] assms(6) by (simp add: handle_unload_al_def assms(5) Let_def updateMap_locked)
qed (simp_all add: handle_unload_al_def handle_unload_def assms(5) Let_def initPlane_part_of [OF assms(1-4)])

lemma handle_check_al_cases:
  assumes "sim_wf (ms_map st)" "vlist (map_cities (ms_map st)) \<noteq> []"
    and "stocks_known (map_product (ms_map st)) ss" "length ss \<le> MAX_STOCKS" "cd_stocks msg = part_of ss" "length ss \<noteq> 1"
  shows "handle_check_al al conns msg st =
    (if fst (allocs (plane_allocs (length ss)) al) then handle_check conns msg st else None)"
proof -
  note p = sim_wfD(4,3) [OF assms(1)] assms(3,4)
  show ?thesis
  proof (rule initPlane_allocs [OF p, of al])
    fix al'
    assume "\<not> fst (allocs (plane_allocs (length ss)) al)" "ss \<noteq> []"
      and "\<And>header pl. initPlane al (part_of ss) header pl (ms_map st) =
        Some (pl\<lparr>plane_id := hdr_id header, plane_cityId := hdr_cityId header, plane_stocks := last_lost ss\<rparr>, ms_map st, al')"
    then show ?thesis
      using last_lost_locked [of ss] assms(6)
      by (simp add: handle_check_al_def assms(5) Let_def app_give_destinations_locked [OF assms(1,2)] split: Option.bind_split)
  qed (simp_all add: handle_check_al_def handle_check_def assms(5) Let_def initPlane_part_of [OF p])
qed

end
