(* ===== verification/Properties_Failures.thy ===== *)
theory Properties_Failures
  imports Failing_Allocations Properties_Process
begin

text \<open>
  What a failing read and a failing allocation do to the map process, which looks neither at the
  result of \<open>ipc_read\<close> nor at those of the functions \<open>initPlane\<close> calls.
\<close>

section \<open>Allocations\<close>



section \<open>Reads\<close>

text \<open>
  C36. When the read after a request fails, the map serves the request once more: the goods of the
  plane are taken off the demand of the city a second time, although the plane delivers them once.
\<close>

theorem failed_read_serves_twice:
  assumes "sim_wf (ms_map st)" "conns_wf conns n" "msg_ok n (ms_map st) (PM_StockState m)" "i \<noteq> k"
    and "hdr_cityId (ss_header m) = int c" "ss_stocks m = part_of ss" "length ss \<le> MAX_STOCKS"
    and "stocks_known (map_product (ms_map st)) ss"
  shows "\<exists>st2. phase1_reads conns k i st buf (Some (PM_StockState m) # None # reads) =
      phase1_reads conns k i st2 (Some (PM_StockState m)) reads \<and>
    stocks_at (ms_map st2) c = fst (unload (fst (unload (stocks_at (ms_map st) c) ss)) ss)"
proof -
  have c: "c < length (vlist (map_cities (ms_map st)))" "0 \<le> hdr_airline (ss_header m)" "hdr_airline (ss_header m) < int n"
    using assms(3,5) by (auto simp: part_ok_def)
  note served = handle_unload_ok [OF _ assms(2,5) _ c(2,3) assms(6,7)]
  obtain st1 where st1: "handle_unload conns m st = Some st1" "ms_map st1 = map_with_stock (ms_map st) c (fst (unload (stocks_at (ms_map st) c) ss))"
    "evolves (ms_map st) (ms_map st1)"
    using served [OF assms(1) c(1) assms(8)] by auto
  have c1: "c < length (vlist (map_cities (ms_map st1)))" "stocks_known (map_product (ms_map st1)) ss"
    using st1(3) c(1) assms(8) by (simp_all add: evolves_def)
  obtain st2 where st2: "handle_unload conns m st1 = Some st2" "ms_map st2 = map_with_stock (ms_map st1) c (fst (unload (stocks_at (ms_map st1) c) ss))"
    using served [OF evolves_wf [OF st1(3)] c1] by auto
  have "stocks_at (ms_map st2) c = fst (unload (stocks_at (ms_map st1) c) ss)"
    using c1(1) by (simp add: st2(2))
  then have "stocks_at (ms_map st2) c = fst (unload (fst (unload (stocks_at (ms_map st) c) ss)) ss)"
    using c(1) by (simp add: st1(2))
  moreover have "hdr_type (ss_header m) = MessageTypeUnloadStock"
    using assms(3) by simp
  ultimately show ?thesis
    using assms(4) st1(1) st2(1) by (auto simp: comm_get_map_message_def)
qed

theorem failed_read_serves_twice_witness:
  "\<exists>st2. phase1_reads (vec_of [0]) 1 0 demo_state None [Some (PM_StockState (demo_request 4)), None] =
      phase1_reads (vec_of [0]) 1 0 st2 (Some (PM_StockState (demo_request 4))) [] \<and> stocks_at (ms_map st2) 0 = [demo_stock 0 2]"
proof -
  have "msg_ok 1 (ms_map demo_state) (PM_StockState (demo_request 4))"
    using demo_wf demo_known [of 4]
    by (auto simp: demo_request_def prepare_header_def part_ok_def MAX_STOCKS_def demo_state_def
        intro!: exI [of _ 0] exI [of _ "[demo_stock 0 4]"])
  moreover have "fst (unload (fst (unload [demo_stock 0 10] [demo_stock 0 4])) [demo_stock 0 4]) = [demo_stock 0 2]"
    by (simp add: unload_one_def demo_stock_def demo_products_def stock_pid_def city_slot_def Let_def)
  ultimately show ?thesis
    using failed_read_serves_twice [of demo_state "vec_of [0]" 1 "demo_request 4" 0 1 0 "[demo_stock 0 4]" None "[]"]
      demo_wf demo_known [of 4]
    by (auto simp: demo_state_def demo_request_def prepare_header_def conns_wf_def upt_rec MAX_STOCKS_def)
qed

text \<open>
  Reads that fail after the report of an airline count as reports of further airlines: the map
  goes on to the next phase although only one of them is done.
\<close>

theorem failed_reads_end_phase:
  "phase1_reads conns (i + Suc k) i st buf (Some (PM_Type MessageTypeAirlineDone) # replicate k None @ reads) = Returns (st, reads)"
proof -
  have "phase1_reads conns (j + k) j st (Some (PM_Type MessageTypeAirlineDone)) (replicate k None @ reads) = Returns (st, reads)" for j
  proof (induction k arbitrary: j)
    case 0
    then show ?case
      by (cases reads) simp_all
  next
    case (Suc k)
    from Suc [of "j + 1"] show ?case
      by (simp add: comm_get_map_message_def)
  qed
  from this [of "i + 1"] show ?thesis
    by (simp add: comm_get_map_message_def)
qed

end
