(* ===== verification/Debug_Builds.thy ===== *)
theory Debug_Builds
  imports Signals Logging
begin

text \<open>
  What the builds with \<open>DEBUG\<close> and \<open>VERBOSE\<close> add: the handler of \<open>app/signal.c\<close> prints the signal, and
  \<open>print_trace\<close> of \<open>util.c\<close> writes the callers to the log. The frames are those of \<open>backtrace_symbols\<close>,
  of which at most ten are asked for.
\<close>

section \<open>The functions\<close>

definition write_lines :: "string list \<Rightarrow> logger \<Rightarrow> logger outcome" where
  "write_lines ls lg = (if ls \<noteq> [] \<and> lg_closed lg then Faults else Returns (lg\<lparr>lg_lines := lg_lines lg @ ls\<rparr>))"

definition print_trace :: "bool \<Rightarrow> int \<Rightarrow> string list \<Rightarrow> logger \<Rightarrow> logger outcome" where
  "print_trace verbose pid frames lg =
     (if \<not> verbose then Returns lg
      else if lg_log lg = None then Returns lg
      else
        (case perform_lock lg of
           Blocks \<Rightarrow> Blocks | Faults \<Rightarrow> Faults
         | Returns lg1 \<Rightarrow>
             (case write_lines (map (\<lambda>s. ''('' @ print_int pid @ '') '' @ s) (take 10 frames)) lg1 of
                Blocks \<Rightarrow> Blocks | Faults \<Rightarrow> Faults
              | Returns lg2 \<Rightarrow> perform_unlock lg2)))"

text \<open>\<open>#sig\<close> of the macro \<open>CASE_SIG\<close>, and the names in the other cases.\<close>

fun signal_name :: "signal \<Rightarrow> string" where
  "signal_name SIGHUP = ''SIGHUP''"
| "signal_name SIGINT = ''SIGINT''"
| "signal_name SIGQUIT = ''SIGQUIT''"
| "signal_name SIGTERM = ''SIGTERM''"
| "signal_name SIGCHLD = ''SIGCHLD''"
| "signal_name SIGILL = ''SIGILL''"
| "signal_name SIGFPE = ''SIGFPE''"
| "signal_name SIGSEGV = ''SIGSEGV''"
| "signal_name SIGPIPE = ''SIGPIPE''"
| "signal_name SIGUSR1 = ''SIGUSR1''"

definition caught_text :: "signal \<Rightarrow> string" where
  "caught_text sig =
     (if sig \<in> {SIGILL, SIGFPE, SIGSEGV, SIGPIPE, SIGUSR1} then ''Caugh signal '' else ''Caught signal '') @ signal_name sig"

text \<open>The handler with \<open>DEBUG\<close>: what it prints to the terminal, then the log, then the process.\<close>

definition debug_handler :: "bool \<Rightarrow> int \<Rightarrow> string list \<Rightarrow> signal \<Rightarrow> logger \<Rightarrow> process \<Rightarrow> (string \<times> logger \<times> process) outcome" where
  "debug_handler verbose pid frames sig lg p =
     (case print_trace verbose pid frames lg of
        Blocks \<Rightarrow> Blocks | Faults \<Rightarrow> Faults
      | Returns lg' \<Rightarrow> Returns (caught_text sig, lg', signal_handler p))"

section \<open>What they do\<close>

text \<open>Every signal has a text of its own.\<close>

lemma caught_text_inj: "caught_text s = caught_text t \<Longrightarrow> s = t"
  by (cases s; cases t) (simp_all add: caught_text_def)

lemma print_trace_quiet: "\<not> verbose \<or> lg_log lg = None \<Longrightarrow> print_trace verbose pid frames lg = Returns lg"
  by (auto simp: print_trace_def)

text \<open>With the lock free, the frames are written together and the lock is free again.\<close>

lemma print_trace_lines:
  assumes "log_free lg" "lg_log lg \<noteq> None"
  shows "\<exists>os. print_trace True pid frames lg =
      Returns (lg\<lparr>lg_lines := lg_lines lg @ map (\<lambda>s. ''('' @ print_int pid @ '') '' @ s) (take 10 frames), lg_sems := os\<rparr>) \<and>
    log_free (lg\<lparr>lg_lines := lg_lines lg @ map (\<lambda>s. ''('' @ print_int pid @ '') '' @ s) (take 10 frames), lg_sems := os\<rparr>)"
proof -
  have l: "\<not> lg_closed lg" "sem_ready (lg_printLock lg) (lg_sems lg)" "sem_val (lg_printLock lg) (lg_sems lg) = 1"
    using assms(1) by (simp_all add: log_free_def)
  obtain os1 where os1: "ipc_sem_wait (lg_printLock lg) (lg_sems lg) = Returns (0, os1)" "sem_ready (lg_printLock lg) os1"
    "sem_val (lg_printLock lg) os1 = 0"
    using sysv.wait_pos [OF l(2)] l(3) by auto
  obtain os2 where os2: "ipc_sem_post (lg_printLock lg) os1 = Returns (0, os2)" "sem_ready (lg_printLock lg) os2"
    "sem_val (lg_printLock lg) os2 = 1"
    using sysv.post_room [OF os1(2)] os1(3) by (auto simp: SEMVMX_def)
  show ?thesis
    using l os1 os2 assms(2)
    by (intro exI [of _ os2], cases "lg_log lg") (simp_all add: print_trace_def perform_lock_def write_lines_def perform_unlock_def log_free_def)
qed

text \<open>
  A signal that comes while the process writes a line of the log: the handler waits for the lock that
  the process itself holds, for ever.
\<close>

lemma debug_handler_deadlock:
  assumes "lg_log lg \<noteq> None" "sem_ready (lg_printLock lg) (lg_sems lg)" "sem_val (lg_printLock lg) (lg_sems lg) = 1"
    and "perform_lock lg = Returns lg'"
  shows "debug_handler True pid frames sig lg' p = Blocks"
proof -
  obtain os where "ipc_sem_wait (lg_printLock lg) (lg_sems lg) = Returns (0, os)" "sem_ready (lg_printLock lg) os"
    "sem_val (lg_printLock lg) os = 0"
    using sysv.wait_pos [OF assms(2)] assms(3) by auto
  then show ?thesis
    using sysv.wait_zero [of "lg_printLock lg" os] assms(1,4)
    by (cases "lg_log lg") (auto simp: debug_handler_def print_trace_def perform_lock_def)
qed

end
