(* ===== verification/Wait_Builds.thy ===== *)
theory Wait_Builds
  imports Output_Thread Signals
begin

text \<open>
  What the build with \<open>WAIT\<close> changes in \<open>app/output.c\<close> and \<open>app/main.c\<close>: the output thread waits for a
  key after every turn and at the end, and a signal is passed on to it.

  \<open>wo_returns\<close> is how often \<open>getchar\<close> is going to return, because of a key, the end of the input or a
  signal; when it does not return, the thread waits. \<open>handle_sig\<close> may run between any two messages,
  which the list of inputs shows as \<^const>\<open>None\<close>.
\<close>

section \<open>The output thread\<close>

definition FINAL_LINE_1 :: int where "FINAL_LINE_1 = 2"

record wait_output =
  wo_out :: output_state
  wo_returns :: nat
  wo_dontWait :: bool

definition handle_sig :: "wait_output \<Rightarrow> wait_output" where
  "handle_sig st = st\<lparr>wo_dontWait := True\<rparr>"

definition wait_for_key :: "wait_output \<Rightarrow> wait_output outcome" where
  "wait_for_key st = (case wo_returns st of 0 \<Rightarrow> Blocks | Suc n \<Rightarrow> Returns (st\<lparr>wo_returns := n\<rparr>))"

definition on_screen :: "(output_state \<Rightarrow> output_state option) \<Rightarrow> wait_output \<Rightarrow> wait_output outcome" where
  "on_screen f st = or_fault (map_option (\<lambda>out. st\<lparr>wo_out := out\<rparr>) (f (wo_out st)))"

text \<open>What \<open>show_map_status\<close> does up to \<open>refresh\<close>, with the line that asks for a key.\<close>

definition print_map_status :: "real option \<Rightarrow> int \<Rightarrow> int \<Rightarrow> output_state \<Rightarrow> output_state option" where
  "print_map_status completionPercentage citiesSatisfied totalCities st = do {
     let st1 = mvprintw TURN_LINE (Turn_Line (out_turn st)) st;
     next_turn \<leftarrow> iadd (out_turn st) 1;
     let st2 = st1\<lparr>out_turn := next_turn, out_firstOfTurn := True\<rparr>;
     let st3 = mvprintw MAP_LINE_1 (Completion_Line completionPercentage) st2;
     let st4 = mvprintw MAP_LINE_2 (Cities_Line citiesSatisfied totalCities) st3;
     row \<leftarrow> iadd (out_maxLine st4) FINAL_LINE_1;
     Some (mvprintw row Pause_Line st4)
   }"

definition post_turn :: "output_state \<Rightarrow> output_state option" where
  "post_turn st = Some (st\<lparr>out_posts := out_posts st + 1\<rparr>)"

definition show_message_w :: "Message \<Rightarrow> wait_output \<Rightarrow> wait_output outcome" where
  "show_message_w msg st =
     (if msg_type msg = MessageTypeMapStatus then
        (case msg_payload msg of
           P_MapStatus p c t \<Rightarrow>
             then_do (on_screen (print_map_status p c t) st) (\<lambda>st1.
             then_do (wait_for_key st1) (on_screen post_turn))
         | _ \<Rightarrow> Faults)
      else if msg_type msg = MessageTypeAirlineStatus then
        (case msg_payload msg of P_AirlineStatus s \<Rightarrow> on_screen (show_airline_status s) st | _ \<Rightarrow> Faults)
      else Returns st)"

fun output_loop_w :: "wait_output \<Rightarrow> Message option list \<Rightarrow> wait_output outcome" where
  "output_loop_w st [] = Blocks"
| "output_loop_w st (None # inputs) = output_loop_w (handle_sig st) inputs"
| "output_loop_w st (Some msg # inputs) =
     (if msg_type msg = MessageTypeEndOutput then then_do (on_screen show_end st) wait_for_key
      else then_do (show_message_w msg st) (\<lambda>st'. output_loop_w st' inputs))"

definition run_output_w :: "nat \<Rightarrow> Message option list \<Rightarrow> wait_output outcome" where
  "run_output_w returns inputs =
     output_loop_w \<lparr>wo_out = output_init, wo_returns = returns, wo_dontWait = False\<rparr> inputs"

section \<open>The signal\<close>

text \<open>
  \<open>handle_signal\<close> of \<open>app/main.c\<close>. \<open>runs\<close> tells whether the output thread has been created and not been
  joined; \<open>pthread_kill\<close> is undefined on anything else. The result tells that SIGUSR2 was sent.
\<close>

definition handle_signal_w :: "bool \<Rightarrow> process \<Rightarrow> (process \<times> bool) option" where
  "handle_signal_w runs p = (if runs then Some (handle_signal p, True) else None)"

lemma handle_signal_w_early: "handle_signal_w False main_process = None"
  by (simp add: handle_signal_w_def)

section \<open>Keys\<close>

lemma on_screen_cases:
  "on_screen f st = (case f (wo_out st) of None \<Rightarrow> Faults | Some out \<Rightarrow> Returns (st\<lparr>wo_out := out\<rparr>))"
  by (simp add: on_screen_def split: option.split)

definition wait_inv :: "nat \<Rightarrow> output_state \<Rightarrow> bool" where
  "wait_inv n st \<longleftrightarrow> out_turn st = int n \<and> out_posts st = n \<and> 6 \<le> out_maxLine st \<and> out_maxLine st \<le> 1000006"

lemma show_airline_status_w:
  assumes "wait_inv n out" "0 \<le> as_id s" "as_id s \<le> 1000000"
  shows "\<exists>out'. show_airline_status s out = Some out' \<and> wait_inv n out'"
proof -
  have "in_int (AIRLINE_INITIAL_LINE + as_id s)"
    using assms by (simp add: screen_lines in_int_def INT_MIN_def INT_MAX_def)
  then show ?thesis
    using assms
    by (auto simp: show_airline_status_def mvprintw_def erase_def screen_lines wait_inv_def)
qed

lemma print_map_status_w:
  assumes "wait_inv n out" "n < 1000000"
  shows "\<exists>out'. print_map_status p c t out = Some out' \<and> wait_inv (Suc n) (out'\<lparr>out_posts := out_posts out' + 1\<rparr>)"
proof -
  have "in_int (out_turn out + 1)" "in_int (out_maxLine out + FINAL_LINE_1)"
    using assms by (simp_all add: wait_inv_def FINAL_LINE_1_def in_int_def INT_MIN_def INT_MAX_def)
  then show ?thesis
    using assms by (auto simp: print_map_status_def mvprintw_def wait_inv_def)
qed

lemma show_message_w_ok:
  assumes "shown_ok m" "wait_inv n (wo_out st)" "n < 1000000"
  shows "if is_map_status m then
      (if wo_returns st = 0 then show_message_w m st = Blocks
       else \<exists>out. show_message_w m st = Returns (st\<lparr>wo_returns := wo_returns st - 1, wo_out := out\<rparr>) \<and> wait_inv (Suc n) out)
    else (\<exists>out. show_message_w m st = Returns (st\<lparr>wo_out := out\<rparr>) \<and> wait_inv n out)"
proof (cases "msg_payload m")
  case (P_MapStatus p c t)
  then show ?thesis
    using assms print_map_status_w [OF assms(2,3), of p c t]
    by (auto simp: shown_ok_def is_map_status_def show_message_w_def on_screen_cases wait_for_key_def post_turn_def
        split: nat.split)
next
  case (P_AirlineStatus s)
  then show ?thesis
    using assms show_airline_status_w [OF assms(2), of s]
    by (auto simp: shown_ok_def is_map_status_def show_message_w_def on_screen_cases)
qed (use assms in \<open>auto simp: shown_ok_def is_map_status_def show_message_w_def intro!: exI [of _ "wo_out st"]\<close>)

lemma output_loop_w_keys:
  assumes "list_all shown_ok ms" "wait_inv n (wo_out st)" "n + statuses ms < 1000000"
  shows "if wo_returns st \<le> statuses ms then output_loop_w st (map Some (ms @ [marshall_end_output])) = Blocks
    else \<exists>st'. output_loop_w st (map Some (ms @ [marshall_end_output])) = Returns st' \<and>
      wo_returns st' = wo_returns st - statuses ms - 1 \<and> out_posts (wo_out st') = n + statuses ms"
  using assms
proof (induction ms arbitrary: n st)
  case Nil
  have "in_int (out_maxLine (wo_out st) + 3)" "in_int (out_maxLine (wo_out st) + 4)"
    using Nil.prems(2) by (simp_all add: wait_inv_def in_int_def INT_MIN_def INT_MAX_def)
  then show ?case
    using Nil.prems(2)
    by (auto simp: marshall_end_output_def on_screen_cases show_end_def mvprintw_def screen_lines wait_inv_def
        wait_for_key_def split: nat.split)
next
  case (Cons m ms)
  have other: "msg_type m \<noteq> MessageTypeEndOutput"
    using Cons.prems(1) by (auto simp: shown_ok_def split: MessagePayload.splits)
  have ok: "shown_ok m" "n < 1000000" "list_all shown_ok ms"
    using Cons.prems by simp_all
  note shown = show_message_w_ok [OF ok(1) Cons.prems(2) ok(2)]
  show ?case
  proof (cases "is_map_status m \<and> wo_returns st \<noteq> 0")
    case True
    then obtain out where out: "show_message_w m st = Returns (st\<lparr>wo_returns := wo_returns st - 1, wo_out := out\<rparr>)"
      "wait_inv (Suc n) out"
      using shown by auto
    have "wait_inv (Suc n) (wo_out (st\<lparr>wo_returns := wo_returns st - 1, wo_out := out\<rparr>))"
      using out(2) by simp
    from Cons.IH [OF ok(3) this] show ?thesis
      using Cons.prems(3) True by (auto simp: other out(1) simp del: map_append split: if_splits)
  next
    case False
    then show ?thesis
    proof (cases "is_map_status m")
      case True
      then show ?thesis
        using False shown by (simp add: other)
    next
      case no: False
      then obtain out where out: "show_message_w m st = Returns (st\<lparr>wo_out := out\<rparr>)" "wait_inv n out"
        using shown by auto
      have "wait_inv n (wo_out (st\<lparr>wo_out := out\<rparr>))"
        using out(2) by simp
      from Cons.IH [OF ok(3) this] show ?thesis
        using Cons.prems(3) no by (auto simp: other out(1) simp del: map_append split: if_splits)
    qed
  qed
qed

text \<open>
  The simulation goes as fast as keys are pressed: every turn takes a key before the map may go on, and
  the end takes one more. With fewer keys the thread waits.
\<close>

lemma run_output_w_keys:
  assumes "list_all shown_ok ms" "statuses ms < 1000000"
  shows "if returns \<le> statuses ms then run_output_w returns (map Some (ms @ [marshall_end_output])) = Blocks
    else \<exists>st. run_output_w returns (map Some (ms @ [marshall_end_output])) = Returns st \<and>
      wo_returns st = returns - statuses ms - 1 \<and> out_posts (wo_out st) = statuses ms"
proof -
  let ?st = "\<lparr>wo_out = output_init, wo_returns = returns, wo_dontWait = False\<rparr>"
  have "wait_inv 0 (wo_out ?st)"
    by (simp add: wait_inv_def output_init_def screen_lines)
  from output_loop_w_keys [OF assms(1) this] show ?thesis
    using assms(2) by (auto simp: run_output_w_def simp del: map_append split: if_splits)
qed

section \<open>The signal changes nothing\<close>

text \<open>
  \<open>dontWait\<close> is written and never read: whenever the signal comes, the thread asks for as many keys
  and shows the same as without it.
\<close>

definition same_but_flag :: "wait_output outcome \<Rightarrow> wait_output outcome \<Rightarrow> bool" where
  "same_but_flag a b \<longleftrightarrow>
     (case (a, b) of
        (Blocks, Blocks) \<Rightarrow> True
      | (Faults, Faults) \<Rightarrow> True
      | (Returns s, Returns t) \<Rightarrow> wo_out s = wo_out t \<and> wo_returns s = wo_returns t
      | _ \<Rightarrow> False)"

lemma same_but_flag_bind:
  assumes "same_but_flag a b"
    and "\<And>s t. wo_out s = wo_out t \<Longrightarrow> wo_returns s = wo_returns t \<Longrightarrow> same_but_flag (f s) (g t)"
  shows "same_but_flag (then_do a f) (then_do b g)"
  using assms by (cases a; cases b) (auto simp: same_but_flag_def)

lemma same_but_flag_steps:
  assumes "wo_out s = wo_out t" "wo_returns s = wo_returns t"
  shows "same_but_flag (on_screen f s) (on_screen f t)" "same_but_flag (wait_for_key s) (wait_for_key t)"
  using assms by (auto simp: same_but_flag_def on_screen_cases wait_for_key_def split: option.split nat.split)

lemma same_but_flag_message:
  assumes "wo_out s = wo_out t" "wo_returns s = wo_returns t"
  shows "same_but_flag (show_message_w m s) (show_message_w m t)"
  using assms
  by (auto simp: show_message_w_def same_but_flag_def [of Faults] same_but_flag_def [of "Returns s" "Returns t"]
      intro!: same_but_flag_bind same_but_flag_steps split: MessagePayload.split)

lemma output_loop_w_signals:
  assumes "wo_out s = wo_out t" "wo_returns s = wo_returns t"
  shows "same_but_flag (output_loop_w s inputs) (output_loop_w t (filter (\<lambda>x. x \<noteq> None) inputs))"
  using assms
proof (induction inputs arbitrary: s t)
  case Nil
  then show ?case
    by (simp add: same_but_flag_def)
next
  case (Cons x inputs)
  show ?case
  proof (cases x)
    case None
    then show ?thesis
      using Cons.IH [of "handle_sig s" t] Cons.prems by (simp add: handle_sig_def)
  next
    case (Some msg)
    then show ?thesis
      using Cons.prems
      by (auto simp del: not_None_eq intro!: same_but_flag_bind same_but_flag_message same_but_flag_steps Cons.IH)
  qed
qed

lemma run_output_w_signals:
  "same_but_flag (run_output_w returns inputs) (run_output_w returns (filter (\<lambda>x. x \<noteq> None) inputs))"
  unfolding run_output_w_def by (rule output_loop_w_signals) simp_all

end
