(* ===== verification/Memory_Parser.thy ===== *)
theory Memory_Parser
  imports Memory_Scores Parser
begin

text \<open>
  \<open>parseMap\<close> of \<open>parser.c\<close> on memory: every block it takes, every pointer it stores, and what it gives
  back when an allocation fails. A call that returns NULL leaves the loops with the memory at that
  point. \<open>fscanf\<close> is that of Scanner. What counts as undefined at once in Parser does so here: NULL
  from \<open>createVector\<close> as a vector of stocks, and a name of a city that was not read.
\<close>

section \<open>Taking the memory\<close>

text \<open>One part of the function after the other, as long as none of them returns.\<close>

definition or_exit :: "('r, 'a) flow option \<Rightarrow> ('a \<Rightarrow> ('r, 'b) flow option) \<Rightarrow> ('r, 'b) flow option" where
  "or_exit m f = (case m of None \<Rightarrow> None | Some (Exit r) \<Rightarrow> Some (Exit r) | Some (Next s) \<Rightarrow> f s)"

definition free_cells :: "nat \<Rightarrow> addr \<Rightarrow> memory \<Rightarrow> memory option" where
  "free_cells n a = for_all n (\<lambda>j M. do { cells \<leftarrow> cells_at a M; x \<leftarrow> arr_get cells j; free x M })"

definition free_rows :: "nat \<Rightarrow> addr \<Rightarrow> memory \<Rightarrow> memory option" where
  "free_rows n a = for_all n (\<lambda>j M. do { rows \<leftarrow> matrix_at a M; x \<leftarrow> arr_get rows j; free x M })"

text \<open>What all error paths end with: \<open>destroyVector(ans->cities)\<close> and \<open>free(ans)\<close>.\<close>

definition free_start :: "addr \<Rightarrow> memory \<Rightarrow> memory option" where
  "free_start ans M = do {
     (cities, product, matrix) \<leftarrow> map_at ans M;
     M \<leftarrow> destroyVector cities M;
     free ans M
   }"

definition free_cities_array :: "nat \<Rightarrow> addr \<Rightarrow> addr \<Rightarrow> memory \<Rightarrow> memory option" where
  "free_cities_array n cities ans M = do {
     M \<leftarrow> free_cells n cities M;
     M \<leftarrow> free cities M;
     free_start ans M
   }"

definition free_matrix :: "nat \<Rightarrow> addr \<Rightarrow> nat \<Rightarrow> addr \<Rightarrow> addr \<Rightarrow> memory \<Rightarrow> memory option" where
  "free_matrix n matrix counter cities ans M = do {
     M \<leftarrow> free_rows n matrix M;
     M \<leftarrow> free matrix M;
     free_cities_array counter cities ans M
   }"

text \<open>The map, its file, the vector of cities.\<close>

definition open_map :: "mallocs \<Rightarrow> string option \<Rightarrow> memory \<Rightarrow> (memory, addr \<times> string \<times> mallocs \<times> memory) flow option" where
  "open_map al contents M = do {
     let (ans, al, M) = malloc (B_Map NULL NULL NULL) al M;
     if ans = NULL then Some (Exit M)
     else
       (case contents of
          None \<Rightarrow> do { M \<leftarrow> free ans M; Some (Exit M) }
        | Some t \<Rightarrow> do {
            let (cv, al, M) = createVector_m al M;
            let M = store ans (B_Map cv NULL NULL) M;
            if cv = NULL then do { M \<leftarrow> free ans M; Some (Exit M) }
            else Some (Next (ans, t, al, M))
          })
   }"

text \<open>\<open>cities\<close> and its objects.\<close>

definition take_cities :: "addr \<Rightarrow> nat \<Rightarrow> addr \<Rightarrow> mallocs \<times> memory \<Rightarrow> (memory, mallocs \<times> memory) flow option" where
  "take_cities ans counter cities =
     for_loop counter 0 (\<lambda>i (al, M). do {
       let (c, al, M) = malloc (B_City NULL 0 NULL) al M;
       cells \<leftarrow> cells_at cities M;
       cells \<leftarrow> arr_set cells i c;
       let M = store cities (B_Cells cells) M;
       if c = NULL then do { M \<leftarrow> free_cities_array i cities ans M; Some (Exit M) }
       else Some (Next (al, M))
     })"

definition take_array :: "addr \<Rightarrow> int \<Rightarrow> mallocs \<Rightarrow> memory \<Rightarrow> (memory, addr \<times> mallocs \<times> memory) flow option" where
  "take_array ans c al M = do {
     let (cities, al, M) = (if c < 0 then (NULL, al, M) else malloc (B_Cells (arr_new (nat c))) al M);
     if cities = NULL then do { M \<leftarrow> free_start ans M; Some (Exit M) }
     else or_exit (take_cities ans (nat c) cities (al, M)) (\<lambda>(al, M). Some (Next (cities, al, M)))
   }"

text \<open>The matrix and its rows.\<close>

definition take_rows :: "addr \<Rightarrow> nat \<Rightarrow> addr \<Rightarrow> addr \<Rightarrow> mallocs \<times> memory \<Rightarrow> (memory, mallocs \<times> memory) flow option" where
  "take_rows ans counter cities matrix =
     for_loop counter 0 (\<lambda>i (al, M). do {
       let (r, al, M) = malloc (B_Row (replicate counter 0)) al M;
       rows \<leftarrow> matrix_at matrix M;
       rows \<leftarrow> arr_set rows i r;
       let M = store matrix (B_Matrix rows) M;
       if r = NULL then do { M \<leftarrow> free_matrix i matrix counter cities ans M; Some (Exit M) }
       else Some (Next (al, M))
     })"

definition take_matrix :: "addr \<Rightarrow> nat \<Rightarrow> addr \<Rightarrow> mallocs \<Rightarrow> memory \<Rightarrow> (memory, addr \<times> mallocs \<times> memory) flow option" where
  "take_matrix ans counter cities al M = do {
     (cv, _, _) \<leftarrow> map_at ans M;
     let (matrix, al, M) = malloc (B_Matrix (replicate counter (Some NULL))) al M;
     let M = store ans (B_Map cv NULL matrix) M;
     if matrix = NULL then do { M \<leftarrow> free_cities_array counter cities ans M; Some (Exit M) }
     else or_exit (take_rows ans counter cities matrix (al, M)) (\<lambda>(al, M). Some (Next (matrix, al, M)))
   }"

definition take_products :: "addr \<Rightarrow> nat \<Rightarrow> addr \<Rightarrow> addr \<Rightarrow> mallocs \<Rightarrow> memory \<Rightarrow> (memory, mallocs \<times> memory) flow option" where
  "take_products ans counter cities matrix al M = do {
     (cv, _, _) \<leftarrow> map_at ans M;
     let (product, al, M) = createVector_m al M;
     let M = store ans (B_Map cv product matrix) M;
     if product = NULL then do { M \<leftarrow> free_matrix counter matrix counter cities ans M; Some (Exit M) }
     else Some (Next (al, M))
   }"

text \<open>Everything up to the loop over the cities.\<close>

record parse_start =
  st_ans :: addr
  st_counter :: nat
  st_cities :: addr
  st_text :: string
  st_allocs :: mallocs
  st_mem :: memory

definition begin_map :: "mallocs \<Rightarrow> string option \<Rightarrow> memory \<Rightarrow> (memory, parse_start) flow option" where
  "begin_map al contents M =
     or_exit (open_map al contents M) (\<lambda>(ans, t, al, M). do {
       (_, vals, t) \<leftarrow> fscanf fmt_count t;
       c \<leftarrow> stored_int vals None;
       or_exit (take_array ans c al M) (\<lambda>(cities, al, M).
       or_exit (take_matrix ans (nat c) cities al M) (\<lambda>(matrix, al, M).
       or_exit (take_products ans (nat c) cities matrix al M) (\<lambda>(al, M).
       Some (Next \<lparr>st_ans = ans, st_counter = nat c, st_cities = cities, st_text = t, st_allocs = al, st_mem = M\<rparr>))))
     })"

section \<open>Stocks\<close>

record stocks_read_m =
  rm_state :: int
  rm_buffer :: "string option"
  rm_aux :: "int option"
  rm_text :: string
  rm_allocs :: mallocs
  rm_mem :: memory

function read_stocks_m :: "mallocs \<Rightarrow> string \<Rightarrow> addr \<Rightarrow> addr \<Rightarrow> string option \<Rightarrow> int option \<Rightarrow> memory \<Rightarrow>
  (memory, stocks_read_m) flow option" where
  "read_stocks_m al t product vec buffer aux M =
     (case fscanf (fmt_pair CITY_NAME_MAX_LENGTH) t of
        None \<Rightarrow> None
      | Some (state, vals, t') \<Rightarrow>
          let buffer' = stored_word vals buffer;
              aux' = stored_int vals aux
          in if state = 2 then
               (case (buffer', aux') of
                  (Some name, Some amount) \<Rightarrow>
                    (case initStock_m al name amount product M of
                       None \<Rightarrow> None
                     | Some (s, al1, M1) \<Rightarrow>
                         if s = NULL then Some (Exit M1)
                         else
                           (case addToVector_m al1 vec s M1 of
                              None \<Rightarrow> None
                            | Some (_, al2, M2) \<Rightarrow> read_stocks_m al2 t' product vec buffer' aux' M2))
                | _ \<Rightarrow> None)
             else
               Some (Next \<lparr>rm_state = state, rm_buffer = buffer', rm_aux = aux', rm_text = t', rm_allocs = al, rm_mem = M\<rparr>))"
  by pat_completeness auto
termination
proof (relation "measure (\<lambda>(al, t, _). length t)")
  show "wf (measure (\<lambda>(al, t, _). length t))"
    by simp
qed (auto simp: fmt_pair_def dest: fscanf_shorter)

declare read_stocks_m.simps [simp del]

section \<open>Cities\<close>

record parse_state_m =
  pm_text :: string
  pm_allocs :: mallocs
  pm_first :: bool
  pm_buffer :: "string option"
  pm_aux :: "int option"
  pm_mem :: memory

text \<open>An assignment to a field of \<open>cities[i]\<close>.\<close>

definition set_city :: "addr \<Rightarrow> nat \<Rightarrow> (addr \<times> int \<times> addr \<Rightarrow> addr \<times> int \<times> addr) \<Rightarrow> memory \<Rightarrow> memory option" where
  "set_city cities i f M = do {
     cells \<leftarrow> cells_at cities M;
     c \<leftarrow> arr_get cells i;
     fields \<leftarrow> city_at c M;
     let (name, k, stock) = f fields;
     Some (store c (B_City name k stock) M)
   }"

definition read_name_m :: "addr \<Rightarrow> nat \<Rightarrow> parse_state_m \<Rightarrow> (memory, parse_state_m) flow option" where
  "read_name_m cities i st =
     (if pm_first st then do {
        let (name, al, M) = malloc (B_Name []) (pm_allocs st) (pm_mem st);
        M \<leftarrow> set_city cities i (\<lambda>(_, k, s). (name, k, s)) M;
        if name = NULL then Some (Exit M)
        else do {
          (_, vals, t) \<leftarrow> fscanf (fmt_name CITY_NAME_MAX_LENGTH) (pm_text st);
          w \<leftarrow> stored_word vals None;
          Some (Next (st\<lparr>pm_allocs := al, pm_text := t, pm_mem := store name (B_Name w) M\<rparr>))
        }
      } else Some (Next st))"

definition keep_name_m :: "addr \<Rightarrow> nat \<Rightarrow> nat \<Rightarrow> parse_state_m \<Rightarrow> (memory, parse_state_m) flow option" where
  "keep_name_m cities counter i st =
     (if i + 1 \<noteq> counter then do {
        let (name, al, M) = malloc (B_Name []) (pm_allocs st) (pm_mem st);
        M \<leftarrow> set_city cities (i + 1) (\<lambda>(_, k, s). (name, k, s)) M;
        if name = NULL then Some (Exit M)
        else do {
          w \<leftarrow> pm_buffer st;
          Some (Next (st\<lparr>pm_first := False, pm_allocs := al, pm_buffer := Some [], pm_mem := store name (B_Name w) M\<rparr>))
        }
      } else Some (Next (st\<lparr>pm_first := False\<rparr>)))"

definition add_city_m :: "addr \<Rightarrow> addr \<Rightarrow> nat \<Rightarrow> addr \<Rightarrow> parse_state_m \<Rightarrow> (memory, parse_state_m) flow option" where
  "add_city_m ans cities i vec st = do {
     M \<leftarrow> set_city cities i (\<lambda>(name, k, _). (name, k, vec)) (pm_mem st);
     (cv, _, _) \<leftarrow> map_at ans M;
     cells \<leftarrow> cells_at cities M;
     c \<leftarrow> arr_get cells i;
     (k, al, M) \<leftarrow> addToVector_m (pm_allocs st) cv c M;
     Some (if k = - 1 then Exit M else Next (st\<lparr>pm_allocs := al, pm_mem := M\<rparr>))
   }"

definition parse_city_m :: "addr \<Rightarrow> addr \<Rightarrow> nat \<Rightarrow> nat \<Rightarrow> parse_state_m \<Rightarrow> (memory, parse_state_m) flow option" where
  "parse_city_m ans cities counter i st =
     or_exit (read_name_m cities i st) (\<lambda>st. do {
       M \<leftarrow> set_city cities i (\<lambda>(name, _, s). (name, int i, s)) (pm_mem st);
       let (vec, al, M) = createVector_m (pm_allocs st) M;
       if vec = NULL then None
       else do {
         (_, product, _) \<leftarrow> map_at ans M;
         or_exit (read_stocks_m al (pm_text st) product vec (pm_buffer st) (pm_aux st) M) (\<lambda>r.
         let st = st\<lparr>pm_text := rm_text r, pm_allocs := rm_allocs r, pm_buffer := rm_buffer r, pm_aux := rm_aux r, pm_mem := rm_mem r\<rparr>
         in or_exit (if rm_state r = 1 then keep_name_m cities counter i st else Some (Next st)) (\<lambda>st.
            add_city_m ans cities i vec st))
       }
     })"

section \<open>Connections and distances\<close>

definition getCityId_m :: "string \<Rightarrow> addr \<Rightarrow> memory \<Rightarrow> (int \<times> memory) option" where
  "getCityId_m cityName cities M = do {
     n \<leftarrow> getVectorSize_m cities M;
     after_loop
       (for_loop n 0 (\<lambda>i M. do {
          (c, M) \<leftarrow> getFromVector_m cities (int i) M;
          (a, k, s) \<leftarrow> city_at c M;
          name \<leftarrow> name_at a M;
          Some (if cityName = name then Exit (k, M) else Next M)
        }) M)
       (\<lambda>M. Some (- 1, M))
   }"

text \<open>The cell \<open>ans->matrix[i][j]\<close>.\<close>

definition cell_at :: "addr \<Rightarrow> int \<Rightarrow> int \<Rightarrow> memory \<Rightarrow> int option" where
  "cell_at matrix i j M = do {
     rows \<leftarrow> matrix_at matrix M;
     if i < 0 \<or> j < 0 then None
     else do {
       row \<leftarrow> arr_get rows (nat i);
       xs \<leftarrow> row_at row M;
       if nat j < length xs then Some (xs ! nat j) else None
     }
   }"

definition set_cell :: "addr \<Rightarrow> int \<Rightarrow> int \<Rightarrow> int \<Rightarrow> memory \<Rightarrow> memory option" where
  "set_cell matrix i j d M = do {
     rows \<leftarrow> matrix_at matrix M;
     if i < 0 \<or> j < 0 then None
     else do {
       row \<leftarrow> arr_get rows (nat i);
       xs \<leftarrow> row_at row M;
       if nat j < length xs then Some (store row (B_Row (xs[nat j := d])) M) else None
     }
   }"

definition set_road_m :: "addr \<Rightarrow> int \<Rightarrow> int \<Rightarrow> int \<Rightarrow> memory \<Rightarrow> memory option" where
  "set_road_m ans i j d M = do {
     (_, _, matrix) \<leftarrow> map_at ans M;
     M \<leftarrow> set_cell matrix i j d M;
     (_, _, matrix) \<leftarrow> map_at ans M;
     set_cell matrix j i d M
   }"

function read_roads_m :: "addr \<Rightarrow> string \<Rightarrow> string option \<Rightarrow> string option \<Rightarrow> int option \<Rightarrow> memory \<Rightarrow> memory option" where
  "read_roads_m ans t buffer buffer2 aux M =
     (case (buffer, buffer2, aux) of
        (Some a, Some b, Some d) \<Rightarrow>
          (case do {
               (cv, _, _) \<leftarrow> map_at ans M;
               (i, M) \<leftarrow> getCityId_m a cv M;
               (cv, _, _) \<leftarrow> map_at ans M;
               (j, M) \<leftarrow> getCityId_m b cv M;
               set_road_m ans i j d M
             } of
             None \<Rightarrow> None
           | Some M' \<Rightarrow>
               (case fscanf (fmt_road CITY_NAME_MAX_LENGTH) t of
                  None \<Rightarrow> None
                | Some (n, vals, t') \<Rightarrow>
                    if n = 3 then
                      (case vals of
                         [Str a', Str b', Num d'] \<Rightarrow> read_roads_m ans t' (Some a') (Some b') (Some d') M'
                       | _ \<Rightarrow> None)
                    else Some M'))
      | _ \<Rightarrow> None)"
  by pat_completeness auto
termination
proof (relation "measure (\<lambda>(_, t, _). length t)")
  show "wf (measure (\<lambda>(_, t, _). length t))"
    by simp
qed (auto simp: fmt_road_def dest: fscanf_shorter)

declare read_roads_m.simps [simp del]

definition parse_roads_m :: "addr \<Rightarrow> string \<Rightarrow> string option \<Rightarrow> int option \<Rightarrow> memory \<Rightarrow> memory option" where
  "parse_roads_m ans t buffer aux M = do {
     w \<leftarrow> buffer;
     if w \<noteq> [] then do {
       (_, vals, t') \<leftarrow> fscanf (fmt_pair CITY_NAME_MAX_LENGTH) t;
       read_roads_m ans t' (Some w) (stored_word vals None) (stored_int vals aux) M
     } else Some M
   }"

definition floyd_cell_m :: "addr \<Rightarrow> nat \<Rightarrow> nat \<Rightarrow> nat \<Rightarrow> memory \<Rightarrow> memory option" where
  "floyd_cell_m matrix k i j M = do {
     aux1 \<leftarrow> cell_at matrix (int i) (int j) M;
     ik \<leftarrow> cell_at matrix (int i) (int k) M;
     kj \<leftarrow> cell_at matrix (int k) (int j) M;
     aux2 \<leftarrow> (if ik \<noteq> 0 \<and> kj \<noteq> 0 then iadd ik kj else Some 0);
     if aux2 \<noteq> 0 \<and> i \<noteq> j \<and> (aux1 = 0 \<or> aux2 < aux1) then set_cell matrix (int i) (int j) aux2 M
     else Some M
   }"

definition floydMatrix_m :: "addr \<Rightarrow> nat \<Rightarrow> memory \<Rightarrow> memory option" where
  "floydMatrix_m matrix counter =
     for_all counter (\<lambda>k. for_all counter (\<lambda>i. for_all counter (\<lambda>j. floyd_cell_m matrix k i j)))"

section \<open>The map\<close>

definition finish_map_m :: "addr \<Rightarrow> nat \<Rightarrow> addr \<Rightarrow> parse_state_m \<Rightarrow> memory option" where
  "finish_map_m ans counter cities st = do {
     M \<leftarrow> parse_roads_m ans (pm_text st) (pm_buffer st) (pm_aux st) (pm_mem st);
     (_, _, matrix) \<leftarrow> map_at ans M;
     M \<leftarrow> floydMatrix_m matrix counter M;
     free cities M
   }"

text \<open>The result is the map, or NULL.\<close>

definition parseMap_m :: "mallocs \<Rightarrow> string option \<Rightarrow> memory \<Rightarrow> (addr \<times> memory) option" where
  "parseMap_m al contents M =
     after_loop
       (or_exit (map_option (\<lambda>r. case r of Exit M \<Rightarrow> Exit (NULL, M) | Next s \<Rightarrow> Next s) (begin_map al contents M)) (\<lambda>s.
        or_exit
          (map_option (\<lambda>r. case r of Exit M \<Rightarrow> Exit (NULL, M) | Next st \<Rightarrow> Next st)
            (for_loop (st_counter s) 0 (parse_city_m (st_ans s) (st_cities s) (st_counter s))
              \<lparr>pm_text = st_text s, pm_allocs = st_allocs s, pm_first = True, pm_buffer = None, pm_aux = None, pm_mem = st_mem s\<rparr>))
          (\<lambda>st. do {
             M \<leftarrow> finish_map_m (st_ans s) (st_counter s) (st_cities s) st;
             Some (Exit (st_ans s, M))
           })))
       (\<lambda>s :: unit. None)"

end
