(* ===== verification/Memory_Building.thy ===== *)
theory Memory_Building
  imports Memory_Parser
begin

text \<open>
  What a function that builds something holds: the blocks it has taken, which are all that is new in
  memory. First the rules for such functions, then the part of \<open>parseMap\<close> that takes its memory:
  whichever allocation fails there, everything is given back.
\<close>

section \<open>Parts that return or go on\<close>

definition leads :: "('r \<Rightarrow> bool) \<Rightarrow> ('s \<Rightarrow> bool) \<Rightarrow> ('r, 's) flow option \<Rightarrow> bool" where
  "leads Q P m \<longleftrightarrow> (case m of None \<Rightarrow> False | Some (Exit x) \<Rightarrow> Q x | Some (Next s) \<Rightarrow> P s)"

lemma leads_simps [simp]:
  "leads Q P (Some (Exit x)) = Q x" "leads Q P (Some (Next s)) = P s" "leads Q P None = False"
  by (simp_all add: leads_def)

lemma leads_or_exit:
  assumes "leads Q P m" "\<And>s. P s \<Longrightarrow> leads Q R (f s)"
  shows "leads Q R (or_exit m f)"
proof (cases m)
  case (Some r)
  then show ?thesis
    using assms by (cases r) (simp_all add: or_exit_def)
qed (use assms in simp)

lemma leads_loop:
  assumes "I i s" "\<And>j s. i \<le> j \<Longrightarrow> j < i + n \<Longrightarrow> I j s \<Longrightarrow> leads Q (I (Suc j)) (body j s)"
  shows "leads Q (I (i + n)) (for_loop n i body s)"
  using assms
proof (induction n arbitrary: i s)
  case (Suc n)
  have b: "leads Q (I (Suc i)) (body i s)"
    using Suc.prems by simp
  have "leads Q (I (Suc i + n)) (for_loop n (Suc i) body s')" if "I (Suc i) s'" for s'
    by (rule Suc.IH [OF that]) (use Suc.prems(2) in auto)
  note rest = this
  show ?case
  proof (cases "body i s")
    case (Some r)
    then show ?thesis
      using b rest by (cases r) simp_all
  qed (use b in simp)
qed simp

lemma leads_mono: "leads Q P m \<Longrightarrow> (\<And>x. Q x \<Longrightarrow> Q' x) \<Longrightarrow> (\<And>s. P s \<Longrightarrow> P' s) \<Longrightarrow> leads Q' P' m"
  by (auto simp: leads_def split: option.splits flow.splits)

section \<open>Held blocks\<close>

text \<open>\<open>bs\<close> are the blocks of \<open>M\<close> that are not in \<open>M0\<close>.\<close>

definition holds :: "memory \<Rightarrow> addr list \<Rightarrow> memory \<Rightarrow> bool" where
  "holds M0 bs M \<longleftrightarrow> fresh_ok M \<and> distinct bs \<and> (\<forall>a\<in>set bs. mem_blocks M a \<noteq> None) \<and> without M bs M0"

lemma holdsD:
  assumes "holds M0 bs M"
  shows "fresh_ok M" "distinct bs" "a \<in> set bs \<Longrightarrow> mem_blocks M a \<noteq> None" "a \<in> set bs \<Longrightarrow> mem_blocks M0 a = None"
    "a \<notin> set bs \<Longrightarrow> mem_blocks M0 a = mem_blocks M a"
  using assms unfolding holds_def without_def by metis+

lemma holds_Nil: "fresh_ok M \<Longrightarrow> holds M [] M"
  by (simp add: holds_def)

lemma holds_perm:
  assumes "holds M0 bs M" "mset bs = mset bs'"
  shows "holds M0 bs' M"
  using assms(1) unfolding holds_def without_def mset_eq_setD [OF assms(2)] mset_eq_imp_distinct_iff [OF assms(2)] .

lemma holds_store: "holds M0 bs M \<Longrightarrow> a \<in> set bs \<Longrightarrow> holds M0 bs (store a b M)"
  using store_fresh [of M a b] by (auto simp: holds_def without_def)

lemma malloc_cases:
  assumes "malloc b al M = (a, al', M')" "fresh_ok M"
  obtains "a = NULL" "M' = M" "al \<noteq> []"
  | "a \<noteq> NULL" "mem_blocks M a = None" "mem_blocks M' = (mem_blocks M)(a \<mapsto> b)" "fresh_ok M'" "al = [] \<longrightarrow> al' = []"
proof (cases "fst (alloc al)")
  case True
  have "mem_next M \<noteq> NULL" "\<And>x. mem_next M \<le> x \<Longrightarrow> mem_blocks M x = None"
    using assms(2) by (simp_all add: fresh_ok_def)
  with that(2) True assms(1) show ?thesis
    by (cases al) (auto simp: malloc_def fresh_ok_def)
next
  case False
  with that(1) assms(1) show ?thesis
    by (cases al) (auto simp: malloc_def)
qed

lemma holds_new:
  assumes "holds M0 bs M" "mem_blocks M a = None" "mem_blocks M' = (mem_blocks M)(a \<mapsto> b)" "fresh_ok M'"
  shows "holds M0 (a # bs) M'"
  using assms by (auto simp: holds_def without_def)

text \<open>Giving everything back leaves the memory as it was.\<close>

lemma holds_gives_back:
  assumes "holds M0 bs M" "gives_back f M {} bs'" "mset bs' = mset bs"
  shows "\<exists>M'. f M = Some M' \<and> mem_blocks M' = mem_blocks M0"
proof -
  obtain M' where M': "f M = Some M'" "without M bs' M'"
    using gives_backD [OF assms(2) without_refl] by auto
  have "mem_blocks M' a = mem_blocks M0 a" for a
    using M'(2) assms(1) mset_eq_setD [OF assms(3)] by (auto simp: holds_def without_def)
  then show ?thesis
    using M'(1) by auto
qed

section \<open>The error paths\<close>

lemma free_cells_back:
  assumes "mem_blocks M a = Some (B_Cells cells)" "\<And>j. j < length cs \<Longrightarrow> arr_get cells j = Some (cs ! j)"
    and "\<And>c. c \<in> set cs \<Longrightarrow> c \<noteq> NULL \<and> mem_blocks M c \<noteq> None" "distinct (cs @ [a])"
  shows "gives_back (free_cells (length cs) a) M {a} cs"
proof -
  have "gives_back (\<lambda>M. cells_at a M \<bind> (\<lambda>cells. (\<lambda>M. arr_get cells j \<bind> (\<lambda>x. free x M)) M)) M (insert a {}) (map (\<lambda>x. [x]) cs ! j)"
    if "j < length (map (\<lambda>x. [x]) cs)" for j
  proof (intro gives_back_reads)
    show "cells_at a M' = Some cells" if "mem_blocks M' a = mem_blocks M a" for M'
      using that assms(1) by (simp add: reading)
    have j: "j < length cs"
      using that by simp
    show "gives_back (\<lambda>M. arr_get cells j \<bind> (\<lambda>x. free x M)) M {} (map (\<lambda>x. [x]) cs ! j)"
      using assms(3) [OF nth_mem [OF j]] by (simp add: assms(2) [OF j] j gives_back_free)
  qed
  note round = this
  have "gives_back (for_all (length cs) (\<lambda>j M. cells_at a M \<bind> (\<lambda>cells. arr_get cells j \<bind> (\<lambda>x. free x M)))) M {a} (concat (map (\<lambda>x. [x]) cs))"
    by (rule gives_back_for_all [OF round]) (use assms(4) in simp_all)
  then show ?thesis
    by (simp add: free_cells_def)
qed

lemma free_rows_back:
  assumes "mem_blocks M a = Some (B_Matrix rows)" "\<And>j. j < length rs \<Longrightarrow> arr_get rows j = Some (rs ! j)"
    and "\<And>r. r \<in> set rs \<Longrightarrow> r \<noteq> NULL \<and> mem_blocks M r \<noteq> None" "distinct (rs @ [a])"
  shows "gives_back (free_rows (length rs) a) M {a} rs"
proof -
  have "gives_back (\<lambda>M. matrix_at a M \<bind> (\<lambda>rows. (\<lambda>M. arr_get rows j \<bind> (\<lambda>x. free x M)) M)) M (insert a {}) (map (\<lambda>x. [x]) rs ! j)"
    if "j < length (map (\<lambda>x. [x]) rs)" for j
  proof (intro gives_back_reads)
    show "matrix_at a M' = Some rows" if "mem_blocks M' a = mem_blocks M a" for M'
      using that assms(1) by (simp add: reading)
    have j: "j < length rs"
      using that by simp
    show "gives_back (\<lambda>M. arr_get rows j \<bind> (\<lambda>x. free x M)) M {} (map (\<lambda>x. [x]) rs ! j)"
      using assms(3) [OF nth_mem [OF j]] by (simp add: assms(2) [OF j] j gives_back_free)
  qed
  note round = this
  have "gives_back (for_all (length rs) (\<lambda>j M. matrix_at a M \<bind> (\<lambda>cells. arr_get cells j \<bind> (\<lambda>x. free x M)))) M {a} (concat (map (\<lambda>x. [x]) rs))"
    by (rule gives_back_for_all [OF round]) (use assms(4) in simp_all)
  then show ?thesis
    by (simp add: free_rows_def)
qed

text \<open>The map with its empty vector of cities.\<close>

definition started :: "memory \<Rightarrow> addr \<Rightarrow> addr \<Rightarrow> bool" where
  "started M ans cv \<longleftrightarrow> ans \<noteq> NULL \<and> cv \<noteq> NULL \<and> (\<exists>p x. mem_blocks M ans = Some (B_Map cv p x)) \<and>
     mem_blocks M cv = Some (B_Vector NULL 0 False)"

lemma free_start_back:
  assumes "started M ans cv"
  shows "gives_back (free_start ans) M {} [cv, ans]"
proof -
  obtain p x where s: "ans \<noteq> NULL" "cv \<noteq> NULL" "mem_blocks M ans = Some (B_Map cv p x)" "mem_blocks M cv = Some (B_Vector NULL 0 False)"
    using assms by (auto simp: started_def)
  have "vec_in M cv [] [cv]"
    using s by (simp add: vec_in_def)
  moreover have "cv \<noteq> ans" "gives_back (free ans) M {} [ans]"
    using s by (auto intro: gives_back_free)
  ultimately have "gives_back (\<lambda>M. destroyVector cv M \<bind> free ans) M {} ([cv] @ [ans])"
    by (intro gives_back_then destroyVector_back) auto
  then have "gives_back (\<lambda>M. map_at ans M \<bind> (\<lambda>y. (case y of (c, p, x) \<Rightarrow> \<lambda>M. destroyVector c M \<bind> free ans) M)) M (insert ans {}) ([cv] @ [ans])"
    by (intro gives_back_reads [where x = "(cv, p, x)"]) (use s(3) in \<open>simp_all add: reading\<close>)
  then have "gives_back (free_start ans) M (insert ans {}) ([cv] @ [ans])"
    by (rule gives_back_cong) (simp add: free_start_def split_def)
  from gives_back_own [OF this] show ?thesis
    by simp
qed

lemma free_cities_array_back:
  assumes "started M ans cv" "mem_blocks M cities = Some (B_Cells cells)" "\<And>j. j < length cs \<Longrightarrow> arr_get cells j = Some (cs ! j)"
    and "cities \<noteq> NULL" "\<And>c. c \<in> set cs \<Longrightarrow> c \<noteq> NULL \<and> mem_blocks M c \<noteq> None" "distinct (cs @ [cities, cv, ans])"
  shows "gives_back (free_cities_array (length cs) cities ans) M {} (cs @ [cities, cv, ans])"
proof -
  have "gives_back (free_cells (length cs) cities) M {cities} cs"
    using assms by (intro free_cells_back) auto
  moreover have "gives_back (free cities) M {} [cities]"
    using assms(2,4) by (intro gives_back_free) auto
  from gives_back_then [OF this free_start_back [OF assms(1)]] assms(6)
  have "gives_back (\<lambda>M. free cities M \<bind> free_start ans) M {} [cities, cv, ans]"
    by auto
  ultimately have "gives_back (\<lambda>M. free_cells (length cs) cities M \<bind> (\<lambda>M. free cities M \<bind> free_start ans)) M {cities} (cs @ [cities, cv, ans])"
    using assms(6) by (intro gives_back_then)
  then have "gives_back (free_cities_array (length cs) cities ans) M {cities} (cs @ [cities, cv, ans])"
    by (rule gives_back_cong) (simp add: free_cities_array_def)
  then show ?thesis
    by (rule gives_back_own) simp
qed

lemma free_matrix_back:
  assumes "gives_back (free_cities_array counter cities ans) M {} bs" "mem_blocks M matrix = Some (B_Matrix rows)"
    "\<And>j. j < length rs \<Longrightarrow> arr_get rows j = Some (rs ! j)" "matrix \<noteq> NULL"
    "\<And>r. r \<in> set rs \<Longrightarrow> r \<noteq> NULL \<and> mem_blocks M r \<noteq> None" "distinct (rs @ matrix # bs)"
  shows "gives_back (free_matrix (length rs) matrix counter cities ans) M {} (rs @ matrix # bs)"
proof -
  have "gives_back (free_rows (length rs) matrix) M {matrix} rs"
    using assms by (intro free_rows_back) auto
  moreover have "gives_back (free matrix) M {} [matrix]"
    using assms(2,4) by (intro gives_back_free) auto
  from gives_back_then [OF this assms(1)] assms(6)
  have "gives_back (\<lambda>M. free matrix M \<bind> free_cities_array counter cities ans) M {} (matrix # bs)"
    by auto
  ultimately have "gives_back (\<lambda>M. free_rows (length rs) matrix M \<bind> (\<lambda>M. free matrix M \<bind> free_cities_array counter cities ans)) M {matrix} (rs @ matrix # bs)"
    using assms(6) by (intro gives_back_then)
  then have "gives_back (free_matrix (length rs) matrix counter cities ans) M {matrix} (rs @ matrix # bs)"
    by (rule gives_back_cong) (simp add: free_matrix_def)
  then show ?thesis
    by (rule gives_back_own) simp
qed

section \<open>Taking the memory\<close>

text \<open>\<open>cities\<close> with the objects taken so far, of \<open>counter\<close>.\<close>

definition array_ok :: "memory \<Rightarrow> addr \<Rightarrow> addr \<Rightarrow> addr \<Rightarrow> nat \<Rightarrow> addr list \<Rightarrow> bool" where
  "array_ok M ans cv cities counter cs \<longleftrightarrow> started M ans cv \<and> cities \<noteq> NULL \<and>
     mem_blocks M cities = Some (B_Cells (arr_of counter cs)) \<and> (\<forall>c\<in>set cs. c \<noteq> NULL \<and> mem_blocks M c = Some (B_City NULL 0 NULL))"

lemma array_ok_frame:
  assumes "array_ok M ans cv cities counter cs" "\<And>a. a \<in> set (cs @ [cities, cv]) \<Longrightarrow> mem_blocks M' a = mem_blocks M a"
    and "mem_blocks M' ans = Some (B_Map cv p x)"
  shows "array_ok M' ans cv cities counter cs"
  using assms by (simp add: array_ok_def started_def)

lemma array_ok_back:
  assumes "array_ok M ans cv cities counter cs" "holds M0 (bs @ cs @ [cities, cv, ans]) M"
  shows "gives_back (free_cities_array (length cs) cities ans) M {} (cs @ [cities, cv, ans])"
proof (rule free_cities_array_back)
  show "started M ans cv" "mem_blocks M cities = Some (B_Cells (arr_of counter cs))" "cities \<noteq> NULL"
    using assms(1) by (simp_all add: array_ok_def)
  show "arr_get (arr_of counter cs) j = Some (cs ! j)" if "j < length cs" for j
    using that by simp
  show "distinct (cs @ [cities, cv, ans])"
    using holdsD(2) [OF assms(2)] by simp
  show "c \<noteq> NULL \<and> mem_blocks M c \<noteq> None" if "c \<in> set cs" for c
    using that assms(1) by (simp add: array_ok_def)
qed

definition cities_taken :: "memory \<Rightarrow> mallocs \<Rightarrow> addr \<Rightarrow> addr \<Rightarrow> addr \<Rightarrow> nat \<Rightarrow> nat \<Rightarrow> mallocs \<times> memory \<Rightarrow> bool" where
  "cities_taken M0 al ans cv cities counter i = (\<lambda>(al', M). (al = [] \<longrightarrow> al' = []) \<and>
     (\<exists>cs. length cs = i \<and> holds M0 (cs @ [cities, cv, ans]) M \<and> array_ok M ans cv cities counter cs))"

text \<open>A return: the memory is as before, and some allocation failed.\<close>

definition cleaned :: "memory \<Rightarrow> bool \<Rightarrow> memory \<Rightarrow> bool" where
  "cleaned M0 may_fail M \<longleftrightarrow> mem_blocks M = mem_blocks M0 \<and> may_fail"

lemma take_cities_leads:
  assumes "cities_taken M0 al ans cv cities counter 0 s"
  shows "leads (cleaned M0 (al \<noteq> [])) (cities_taken M0 al ans cv cities counter counter) (take_cities ans counter cities s)"
proof -
  have "leads (cleaned M0 (al \<noteq> [])) (cities_taken M0 al ans cv cities counter (0 + counter)) (take_cities ans counter cities s)"
    unfolding take_cities_def
  proof (rule leads_loop [where I = "cities_taken M0 al ans cv cities counter", OF assms])
    fix i and s :: "mallocs \<times> memory"
    assume i: "0 \<le> i" "i < 0 + counter" "cities_taken M0 al ans cv cities counter i s"
    then obtain al' M cs where s: "s = (al', M)" "al = [] \<longrightarrow> al' = []" "length cs = i" "holds M0 (cs @ [cities, cv, ans]) M"
      "array_ok M ans cv cities counter cs"
      by (auto simp: cities_taken_def)
    note d = holdsD(2) [OF s(4)]
    have a: "started M ans cv" "cities \<noteq> NULL" "mem_blocks M cities = Some (B_Cells (arr_of counter cs))"
      "\<forall>c\<in>set cs. c \<noteq> NULL \<and> mem_blocks M c = Some (B_City NULL 0 NULL)"
      using s(5) by (simp_all add: array_ok_def)
    obtain c al1 M1 where c: "malloc (B_City NULL 0 NULL) al' M = (c, al1, M1)"
      by (metis prod_cases3)
    have put: "arr_set (arr_of counter cs) i c = Some (arr_of counter (cs @ [c]))"
      using i(2) s(3) arr_set_arr_of_next [of cs counter c] by simp
    from c holdsD(1) [OF s(4)]
    show "leads (cleaned M0 (al \<noteq> [])) (cities_taken M0 al ans cv cities counter (Suc i))
      ((\<lambda>(al, M). do {
         let (c, al, M) = malloc (B_City NULL 0 NULL) al M;
         cells \<leftarrow> cells_at cities M;
         cells \<leftarrow> arr_set cells i c;
         let M = store cities (B_Cells cells) M;
         if c = NULL then do { M \<leftarrow> free_cities_array i cities ans M; Some (Exit M) } else Some (Next (al, M))
       }) s)"
    proof (cases rule: malloc_cases)
      case 1
      let ?M = "store cities (B_Cells (arr_of counter (cs @ [c]))) M"
      have h: "holds M0 (cs @ [cities, cv, ans]) ?M"
        using s(4) by (rule holds_store) simp
      have "gives_back (free_cities_array (length cs) cities ans) ?M {} (cs @ [cities, cv, ans])"
      proof (rule free_cities_array_back)
        show "started ?M ans cv" "cities \<noteq> NULL"
          using a d by (auto simp: started_def)
        show "mem_blocks ?M cities = Some (B_Cells (arr_of counter (cs @ [c])))"
          by simp
        show "arr_get (arr_of counter (cs @ [c])) j = Some (cs ! j)" if "j < length cs" for j
          using that by (simp add: nth_append)
        show "b \<noteq> NULL \<and> mem_blocks ?M b \<noteq> None" if "b \<in> set cs" for b
          using that a(4) by simp
      qed (rule d)
      then obtain M2 where "free_cities_array i cities ans ?M = Some M2" "mem_blocks M2 = mem_blocks M0"
        using holds_gives_back [OF h _ refl] s(3) by auto
      then show ?thesis
        using 1 c put a(3) s(1,2) by (auto simp: reading cleaned_def)
    next
      case 2
      let ?M = "store cities (B_Cells (arr_of counter (cs @ [c]))) M1"
      have new: "c \<notin> set (cs @ [cities, cv, ans])"
        using holdsD(3) [OF s(4), of c] 2(2) by blast
      have "holds M0 (c # cs @ [cities, cv, ans]) ?M"
        using holds_new [OF s(4) 2(2-4)] by (rule holds_store) simp
      then have h: "holds M0 ((cs @ [c]) @ [cities, cv, ans]) ?M"
        by (rule holds_perm) simp
      have "array_ok ?M ans cv cities counter (cs @ [c])"
        using a d new 2 by (auto simp: array_ok_def started_def)
      then have "cities_taken M0 al ans cv cities counter (Suc i) (al1, ?M)"
        using h s(2,3) 2(5) unfolding cities_taken_def by (auto intro!: exI [of _ "cs @ [c]"])
      moreover have "mem_blocks M1 cities = Some (B_Cells (arr_of counter cs))"
        using 2(3) new a(3) by auto
      ultimately show ?thesis
        using 2(1) c put s(1) by (simp add: reading)
    qed
  qed
  then show ?thesis
    by simp
qed

definition map_opened :: "memory \<Rightarrow> mallocs \<Rightarrow> string option \<Rightarrow> addr \<times> string \<times> mallocs \<times> memory \<Rightarrow> bool" where
  "map_opened M0 al contents = (\<lambda>(ans, t, al', M). contents = Some t \<and> (al = [] \<longrightarrow> al' = []) \<and>
     (\<exists>cv. holds M0 [cv, ans] M \<and> started M ans cv))"

lemma open_map_leads:
  assumes "fresh_ok M0"
  shows "leads (cleaned M0 (al \<noteq> [] \<or> contents = None)) (map_opened M0 al contents) (open_map al contents M0)"
proof -
  obtain ans al1 M1 where ans: "malloc (B_Map NULL NULL NULL) al M0 = (ans, al1, M1)"
    by (metis prod_cases3)
  from ans assms show ?thesis
  proof (cases rule: malloc_cases)
    case 1
    then show ?thesis
      using ans by (simp add: open_map_def cleaned_def)
  next
    case 2
    have h: "holds M0 [ans] M1"
      by (rule holds_new [OF holds_Nil [OF assms] 2(2-4)])
    have free_ans: "\<exists>M'. free ans M = Some M' \<and> mem_blocks M' = mem_blocks M0" if "holds M0 [ans] M" for M
    proof -
      have "gives_back (free ans) M {} [ans]"
        using holdsD(3) [OF that, of ans] 2(1) by (intro gives_back_free) simp_all
      from holds_gives_back [OF that this refl] show ?thesis .
    qed
    show ?thesis
    proof (cases contents)
      case None
      then show ?thesis
        using free_ans [OF h] ans 2(1) by (auto simp: open_map_def cleaned_def)
    next
      case (Some t)
      obtain cv al2 M2 where cv: "malloc (B_Vector NULL 0 False) al1 M1 = (cv, al2, M2)"
        by (metis prod_cases3)
      let ?M = "store ans (B_Map cv NULL NULL) M2"
      from cv 2(4) show ?thesis
      proof (cases rule: malloc_cases)
        case one: 1
        have "holds M0 [ans] ?M"
          using h by (simp add: one(2) holds_store)
        from free_ans [OF this] show ?thesis
          using ans cv 2(1) one 2(5) Some by (auto simp: open_map_def createVector_m_def cleaned_def)
      next
        case two: 2
        have "holds M0 [cv, ans] M2"
          by (rule holds_new [OF h two(2-4)])
        then have "holds M0 [cv, ans] ?M"
          by (rule holds_store) simp
        moreover have "started ?M ans cv"
          using 2 two by (auto simp: started_def)
        ultimately show ?thesis
          using ans cv 2(1,5) two(1,5) Some by (auto simp: open_map_def createVector_m_def map_opened_def)
      qed
    qed
  qed
qed

text \<open>The matrix and its rows.\<close>

definition rows_taken :: "memory \<Rightarrow> mallocs \<Rightarrow> addr \<Rightarrow> addr \<Rightarrow> addr \<Rightarrow> addr \<Rightarrow> nat \<Rightarrow> nat \<Rightarrow> mallocs \<times> memory \<Rightarrow> bool" where
  "rows_taken M0 al ans cv cities matrix counter i = (\<lambda>(al', M). (al = [] \<longrightarrow> al' = []) \<and>
     (\<exists>rs cs. length rs = i \<and> length cs = counter \<and> holds M0 (rs @ matrix # cs @ [cities, cv, ans]) M \<and>
        array_ok M ans cv cities counter cs \<and> matrix \<noteq> NULL \<and>
        mem_blocks M matrix = Some (B_Matrix (map Some rs @ replicate (counter - i) (Some NULL))) \<and>
        (\<forall>r\<in>set rs. r \<noteq> NULL \<and> mem_blocks M r = Some (B_Row (replicate counter 0)))))"

lemma rows_put:
  assumes "length rs < n"
  shows "arr_set (map Some rs @ replicate (n - length rs) (Some q)) (length rs) x =
    Some (map Some (rs @ [x]) @ replicate (n - length (rs @ [x])) (Some q))"
proof -
  obtain k where "n - length rs = Suc k" "n - length (rs @ [x]) = k"
    using assms by (metis Suc_diff_Suc length_append_singleton)
  then show ?thesis
    by (simp add: arr_set_def list_update_append)
qed

lemma rows_free:
  assumes "array_ok M ans cv cities counter cs" "holds M0 (rs @ matrix # cs @ [cities, cv, ans]) M" "length cs = counter" "matrix \<noteq> NULL"
    and "mem_blocks M matrix = Some (B_Matrix (map Some rs @ ys))" "\<And>r. r \<in> set rs \<Longrightarrow> r \<noteq> NULL"
  shows "\<exists>M'. free_matrix (length rs) matrix counter cities ans M = Some M' \<and> mem_blocks M' = mem_blocks M0"
proof (rule holds_gives_back [OF assms(2) _ refl])
  have h: "holds M0 ((rs @ [matrix]) @ cs @ [cities, cv, ans]) M"
    using assms(2) by simp
  show "gives_back (free_matrix (length rs) matrix counter cities ans) M {} (rs @ matrix # cs @ [cities, cv, ans])"
  proof (rule free_matrix_back)
    show "gives_back (free_cities_array counter cities ans) M {} (cs @ [cities, cv, ans])"
      using array_ok_back [OF assms(1) h] assms(3) by simp
    show "mem_blocks M matrix = Some (B_Matrix (map Some rs @ ys))" "matrix \<noteq> NULL"
      by (fact assms(4,5))+
    show "arr_get (map Some rs @ ys) j = Some (rs ! j)" if "j < length rs" for j
      using that by (simp add: arr_get_def nth_append)
    show "distinct (rs @ matrix # cs @ [cities, cv, ans])"
      by (rule holdsD(2) [OF assms(2)])
    show "r \<noteq> NULL \<and> mem_blocks M r \<noteq> None" if "r \<in> set rs" for r
      using that assms(6) holdsD(3) [OF assms(2), of r] by simp
  qed
qed

lemma take_rows_leads:
  assumes "rows_taken M0 al ans cv cities matrix counter 0 s"
  shows "leads (cleaned M0 (al \<noteq> [])) (rows_taken M0 al ans cv cities matrix counter counter) (take_rows ans counter cities matrix s)"
proof -
  have "leads (cleaned M0 (al \<noteq> [])) (rows_taken M0 al ans cv cities matrix counter (0 + counter)) (take_rows ans counter cities matrix s)"
    unfolding take_rows_def
  proof (rule leads_loop [where I = "rows_taken M0 al ans cv cities matrix counter", OF assms])
    fix i and s :: "mallocs \<times> memory"
    assume i: "0 \<le> i" "i < 0 + counter" "rows_taken M0 al ans cv cities matrix counter i s"
    then obtain al' M rs cs where s: "s = (al', M)" "al = [] \<longrightarrow> al' = []" "length rs = i" "length cs = counter"
      "holds M0 (rs @ matrix # cs @ [cities, cv, ans]) M" "array_ok M ans cv cities counter cs" "matrix \<noteq> NULL"
      "mem_blocks M matrix = Some (B_Matrix (map Some rs @ replicate (counter - i) (Some NULL)))"
      "\<forall>r\<in>set rs. r \<noteq> NULL \<and> mem_blocks M r = Some (B_Row (replicate counter 0))"
      by (auto simp: rows_taken_def)
    note d = holdsD(2) [OF s(5)]
    obtain r al1 M1 where r: "malloc (B_Row (replicate counter 0)) al' M = (r, al1, M1)"
      by (metis prod_cases3)
    have put: "arr_set (map Some rs @ replicate (counter - i) (Some NULL)) i r =
        Some (map Some (rs @ [r]) @ replicate (counter - Suc i) (Some NULL))"
      using rows_put [of rs counter NULL r] i(2) s(3) by simp
    obtain p x where ans: "mem_blocks M ans = Some (B_Map cv p x)"
      using s(6) by (auto simp: array_ok_def started_def)
    from r holdsD(1) [OF s(5)]
    show "leads (cleaned M0 (al \<noteq> [])) (rows_taken M0 al ans cv cities matrix counter (Suc i))
      ((\<lambda>(al, M). do {
         let (r, al, M) = malloc (B_Row (replicate counter 0)) al M;
         rows \<leftarrow> matrix_at matrix M;
         rows \<leftarrow> arr_set rows i r;
         let M = store matrix (B_Matrix rows) M;
         if r = NULL then do { M \<leftarrow> free_matrix i matrix counter cities ans M; Some (Exit M) } else Some (Next (al, M))
       }) s)"
    proof (cases rule: malloc_cases)
      case 1
      let ?M = "store matrix (B_Matrix (map Some (rs @ [r]) @ replicate (counter - Suc i) (Some NULL))) M"
      have "array_ok ?M ans cv cities counter cs"
        using d ans by (intro array_ok_frame [OF s(6), of _ p x]) auto
      moreover have "holds M0 (rs @ matrix # cs @ [cities, cv, ans]) ?M"
        using s(5) by (rule holds_store) simp
      ultimately have "\<exists>M'. free_matrix (length rs) matrix counter cities ans ?M = Some M' \<and> mem_blocks M' = mem_blocks M0"
        by (rule rows_free [where ys = "Some r # replicate (counter - Suc i) (Some NULL)"]) (use s in simp_all)
      then show ?thesis
        using 1 r put s(1-3,8) by (auto simp: reading cleaned_def simp del: map_append)
    next
      case 2
      let ?M = "store matrix (B_Matrix (map Some (rs @ [r]) @ replicate (counter - Suc i) (Some NULL))) M1"
      have new: "r \<notin> set (rs @ matrix # cs @ [cities, cv, ans])"
        using holdsD(3) [OF s(5), of r] 2(2) by blast
      have "holds M0 (r # rs @ matrix # cs @ [cities, cv, ans]) ?M"
        using holds_new [OF s(5) 2(2-4)] by (rule holds_store) simp
      then have h: "holds M0 ((rs @ [r]) @ matrix # cs @ [cities, cv, ans]) ?M"
        by (rule holds_perm) simp
      have "array_ok ?M ans cv cities counter cs"
        using d ans new 2(3) by (intro array_ok_frame [OF s(6), of _ p x]) auto
      moreover have "\<forall>b\<in>set (rs @ [r]). b \<noteq> NULL \<and> mem_blocks ?M b = Some (B_Row (replicate counter 0))"
        using s(9) d new 2(1,3) by auto
      ultimately have "rows_taken M0 al ans cv cities matrix counter (Suc i) (al1, ?M)"
        using h s(2-4,7) 2(5) unfolding rows_taken_def prod.case
        by (intro conjI impI exI [of _ "rs @ [r]"] exI [of _ cs]) (simp_all del: map_append)
      moreover have "mem_blocks M1 matrix = Some (B_Matrix (map Some rs @ replicate (counter - i) (Some NULL)))"
        using 2(3) new s(8) by auto
      ultimately show ?thesis
        using 2(1) r put s(1) by (simp add: reading del: map_append)
    qed
  qed
  then show ?thesis
    by simp
qed

lemma take_array_leads:
  assumes "holds M0 [cv, ans] M" "started M ans cv" "al0 = [] \<longrightarrow> al = []"
  shows "leads (cleaned M0 (al0 \<noteq> [] \<or> c < 0))
    (\<lambda>(cities, al', M). 0 \<le> c \<and> cities_taken M0 al0 ans cv cities (nat c) (nat c) (al', M)) (take_array ans c al M)"
proof -
  have clean: "\<exists>M'. free_start ans M = Some M' \<and> mem_blocks M' = mem_blocks M0"
    by (rule holds_gives_back [OF assms(1) free_start_back [OF assms(2)] refl])
  show ?thesis
  proof (cases "c < 0")
    case True
    then show ?thesis
      using clean by (auto simp: take_array_def cleaned_def)
  next
    case False
    obtain cities al1 M1 where cities: "malloc (B_Cells (arr_new (nat c))) al M = (cities, al1, M1)"
      by (metis prod_cases3)
    from cities holdsD(1) [OF assms(1)] show ?thesis
    proof (cases rule: malloc_cases)
      case 1
      then show ?thesis
        using clean cities False assms(3) by (auto simp: take_array_def cleaned_def)
    next
      case 2
      have "holds M0 [cities, cv, ans] M1"
        by (rule holds_new [OF assms(1) 2(2-4)])
      moreover have "cities \<noteq> cv" "cities \<noteq> ans"
        using 2(2) assms(2) by (auto simp: started_def)
      ultimately have "cities_taken M0 al0 ans cv cities (nat c) 0 (al1, M1)"
        using 2 assms(2,3) by (simp add: cities_taken_def array_ok_def started_def arr_new_arr_of)
      from take_cities_leads [OF this]
      have "leads (cleaned M0 (al0 \<noteq> [] \<or> c < 0)) (cities_taken M0 al0 ans cv cities (nat c) (nat c))
          (take_cities ans (nat c) cities (al1, M1))"
        by (rule leads_mono) (simp_all add: cleaned_def)
      then have "leads (cleaned M0 (al0 \<noteq> [] \<or> c < 0))
          (\<lambda>(cities, al', M). 0 \<le> c \<and> cities_taken M0 al0 ans cv cities (nat c) (nat c) (al', M))
          (or_exit (take_cities ans (nat c) cities (al1, M1)) (\<lambda>(al, M). Some (Next (cities, al, M))))"
        by (rule leads_or_exit) (use False in auto)
      then show ?thesis
        using False cities 2(1) by (simp add: take_array_def)
    qed
  qed
qed

lemma take_matrix_leads:
  assumes "cities_taken M0 al0 ans cv cities counter counter (al, M)"
  shows "leads (cleaned M0 (al0 \<noteq> []))
    (\<lambda>(matrix, al', M). rows_taken M0 al0 ans cv cities matrix counter counter (al', M)) (take_matrix ans counter cities al M)"
proof -
  obtain cs where cs: "al0 = [] \<longrightarrow> al = []" "length cs = counter" "holds M0 (cs @ [cities, cv, ans]) M" "array_ok M ans cv cities counter cs"
    using assms by (auto simp: cities_taken_def)
  obtain p x where ans: "mem_blocks M ans = Some (B_Map cv p x)"
    using cs(4) by (auto simp: array_ok_def started_def)
  note d = holdsD(2) [OF cs(3)]
  obtain matrix al1 M1 where m: "malloc (B_Matrix (replicate counter (Some NULL))) al M = (matrix, al1, M1)"
    by (metis prod_cases3)
  let ?M = "store ans (B_Map cv NULL matrix) M1"
  from m holdsD(1) [OF cs(3)] show ?thesis
  proof (cases rule: malloc_cases)
    case 1
    have "holds M0 (cs @ [cities, cv, ans]) ?M"
      using cs(3) by (simp add: 1(2) holds_store)
    moreover have "array_ok ?M ans cv cities counter cs"
      using d by (intro array_ok_frame [OF cs(4), of _ NULL matrix]) (auto simp: 1(2))
    ultimately obtain M' where "free_cities_array counter cities ans ?M = Some M'" "mem_blocks M' = mem_blocks M0"
      using holds_gives_back [OF _ array_ok_back [where bs = "[]"] refl, of M0 cs cities cv ans ?M] cs(2) by auto
    then show ?thesis
      using 1 m ans cs(1) by (auto simp: take_matrix_def reading cleaned_def)
  next
    case 2
    have new: "matrix \<notin> set (cs @ [cities, cv, ans])"
      using holdsD(3) [OF cs(3), of matrix] 2(2) by blast
    have "holds M0 (matrix # cs @ [cities, cv, ans]) ?M"
      using holds_new [OF cs(3) 2(2-4)] by (rule holds_store) simp
    moreover have "array_ok ?M ans cv cities counter cs"
      using d new 2(3) by (intro array_ok_frame [OF cs(4), of _ NULL matrix]) auto
    ultimately have "rows_taken M0 al0 ans cv cities matrix counter 0 (al1, ?M)"
      using cs(1,2) 2 new by (auto simp: rows_taken_def)
    from take_rows_leads [OF this]
    have "leads (cleaned M0 (al0 \<noteq> []))
        (\<lambda>(matrix, al', M). rows_taken M0 al0 ans cv cities matrix counter counter (al', M))
        (or_exit (take_rows ans counter cities matrix (al1, ?M)) (\<lambda>(al, M). Some (Next (matrix, al, M))))"
      by (rule leads_or_exit) auto
    then show ?thesis
      using m ans 2(1) by (simp add: take_matrix_def reading)
  qed
qed

text \<open>What the loop over the cities starts with.\<close>

definition start_ok :: "memory \<Rightarrow> mallocs \<Rightarrow> parse_start \<Rightarrow> bool" where
  "start_ok M0 al0 s \<longleftrightarrow> (al0 = [] \<longrightarrow> st_allocs s = []) \<and>
     (\<exists>cv product matrix rs cs. length rs = st_counter s \<and> length cs = st_counter s \<and>
        holds M0 (product # rs @ matrix # cs @ [st_cities s, cv, st_ans s]) (st_mem s) \<and>
        array_ok (st_mem s) (st_ans s) cv (st_cities s) (st_counter s) cs \<and>
        matrix \<noteq> NULL \<and> mem_blocks (st_mem s) matrix = Some (B_Matrix (map Some rs)) \<and>
        (\<forall>r\<in>set rs. r \<noteq> NULL \<and> mem_blocks (st_mem s) r = Some (B_Row (replicate (st_counter s) 0))) \<and>
        product \<noteq> NULL \<and> mem_blocks (st_mem s) product = Some (B_Vector NULL 0 False) \<and>
        mem_blocks (st_mem s) (st_ans s) = Some (B_Map cv product matrix))"

lemma take_products_leads:
  assumes "rows_taken M0 al0 ans cv cities matrix counter counter (al, M)"
  shows "leads (cleaned M0 (al0 \<noteq> []))
    (\<lambda>(al', M). start_ok M0 al0 \<lparr>st_ans = ans, st_counter = counter, st_cities = cities, st_text = t, st_allocs = al', st_mem = M\<rparr>)
    (take_products ans counter cities matrix al M)"
proof -
  obtain rs cs where s: "al0 = [] \<longrightarrow> al = []" "length rs = counter" "length cs = counter"
    "holds M0 (rs @ matrix # cs @ [cities, cv, ans]) M" "array_ok M ans cv cities counter cs" "matrix \<noteq> NULL"
    "mem_blocks M matrix = Some (B_Matrix (map Some rs))"
    "\<forall>r\<in>set rs. r \<noteq> NULL \<and> mem_blocks M r = Some (B_Row (replicate counter 0))"
    using assms by (auto simp: rows_taken_def)
  obtain p x where ans: "mem_blocks M ans = Some (B_Map cv p x)"
    using s(5) by (auto simp: array_ok_def started_def)
  note d = holdsD(2) [OF s(4)]
  obtain product al1 M1 where m: "malloc (B_Vector NULL 0 False) al M = (product, al1, M1)"
    by (metis prod_cases3)
  let ?M = "store ans (B_Map cv product matrix) M1"
  from m holdsD(1) [OF s(4)] show ?thesis
  proof (cases rule: malloc_cases)
    case 1
    have "holds M0 (rs @ matrix # cs @ [cities, cv, ans]) ?M"
      using s(4) by (simp add: 1(2) holds_store)
    moreover have "array_ok ?M ans cv cities counter cs"
      using d by (intro array_ok_frame [OF s(5), of _ product matrix]) (auto simp: 1(2))
    moreover have "mem_blocks ?M matrix = Some (B_Matrix (map Some rs @ []))"
      using d s(7) by (simp add: 1(2))
    ultimately obtain M' where "free_matrix counter matrix counter cities ans ?M = Some M'" "mem_blocks M' = mem_blocks M0"
      using rows_free [of ?M ans cv cities counter cs M0 rs matrix "[]"] s(2,3,6,8) by auto
    then show ?thesis
      using 1 m ans s(1) by (auto simp: take_products_def createVector_m_def reading cleaned_def)
  next
    case 2
    have new: "product \<notin> set (rs @ matrix # cs @ [cities, cv, ans])"
      using holdsD(3) [OF s(4), of product] 2(2) by blast
    have h: "holds M0 (product # rs @ matrix # cs @ [cities, cv, ans]) ?M"
      using holds_new [OF s(4) 2(2-4)] by (rule holds_store) simp
    have a: "array_ok ?M ans cv cities counter cs"
      using d new 2(3) by (intro array_ok_frame [OF s(5), of _ product matrix]) auto
    have rows: "\<forall>r\<in>set rs. r \<noteq> NULL \<and> mem_blocks ?M r = Some (B_Row (replicate counter 0))"
      "mem_blocks ?M matrix = Some (B_Matrix (map Some rs))" "mem_blocks ?M product = Some (B_Vector NULL 0 False)"
      using s(7,8) d new 2(3) by auto
    have "start_ok M0 al0 \<lparr>st_ans = ans, st_counter = counter, st_cities = cities, st_text = t, st_allocs = al1, st_mem = ?M\<rparr>"
      unfolding start_ok_def parse_start.simps
      by (intro conjI exI [of _ cv] exI [of _ product] exI [of _ matrix] exI [of _ rs] exI [of _ cs])
        (use s(1-3,6) 2(1,5) h a rows in simp_all)
    then show ?thesis
      using m ans 2(1) by (simp add: take_products_def createVector_m_def reading)
  qed
qed

text \<open>
  The part that takes the memory is defined whenever a number of cities is read. When it returns NULL, the
  memory is as before, and there was no file, an allocation failed or the number is negative.
\<close>

lemma begin_map_leads:
  assumes "fresh_ok M0" "case contents of None \<Rightarrow> True | Some t \<Rightarrow> fscanf fmt_count t = Some (n, vals, t') \<and> stored_int vals None = Some c"
  shows "leads (cleaned M0 (al \<noteq> [] \<or> contents = None \<or> c < 0))
    (\<lambda>s. start_ok M0 al s \<and> 0 \<le> c \<and> st_counter s = nat c \<and> st_text s = t') (begin_map al contents M0)"
  unfolding begin_map_def
proof (rule leads_or_exit [where P = "map_opened M0 al contents"])
  let ?Q = "cleaned M0 (al \<noteq> [] \<or> contents = None \<or> c < 0)"
  let ?P = "\<lambda>s. start_ok M0 al s \<and> 0 \<le> c \<and> st_counter s = nat c \<and> st_text s = t'"
  show "leads ?Q (map_opened M0 al contents) (open_map al contents M0)"
    by (rule leads_mono [OF open_map_leads [OF assms(1)]]) (simp_all add: cleaned_def)
  fix s :: "addr \<times> string \<times> mallocs \<times> memory"
  assume "map_opened M0 al contents s"
  then obtain ans t al1 M cv where s: "s = (ans, t, al1, M)" "contents = Some t" "al = [] \<longrightarrow> al1 = []" "holds M0 [cv, ans] M" "started M ans cv"
    by (cases s) (auto simp: map_opened_def)
  have arr: "leads ?Q (\<lambda>(cities, al', M). 0 \<le> c \<and> cities_taken M0 al ans cv cities (nat c) (nat c) (al', M)) (take_array ans c al1 M)"
    by (rule leads_mono [OF take_array_leads [OF s(4,5,3)]]) (auto simp: cleaned_def)
  have "leads ?Q ?P (or_exit (take_array ans c al1 M) (\<lambda>(cities, al, M).
       or_exit (take_matrix ans (nat c) cities al M) (\<lambda>(matrix, al, M).
       or_exit (take_products ans (nat c) cities matrix al M) (\<lambda>(al, M).
       Some (Next \<lparr>st_ans = ans, st_counter = nat c, st_cities = cities, st_text = t', st_allocs = al, st_mem = M\<rparr>)))))"
  proof (rule leads_or_exit [OF arr])
    fix s1 :: "addr \<times> mallocs \<times> memory"
    assume "case s1 of (cities, al', M) \<Rightarrow> 0 \<le> c \<and> cities_taken M0 al ans cv cities (nat c) (nat c) (al', M)"
    then obtain cities al2 M2 where s1: "s1 = (cities, al2, M2)" "0 \<le> c" "cities_taken M0 al ans cv cities (nat c) (nat c) (al2, M2)"
      by (cases s1) auto
    have mat: "leads ?Q (\<lambda>(matrix, al', M). rows_taken M0 al ans cv cities matrix (nat c) (nat c) (al', M)) (take_matrix ans (nat c) cities al2 M2)"
      by (rule leads_mono [OF take_matrix_leads [OF s1(3)]]) (auto simp: cleaned_def)
    have "leads ?Q ?P (or_exit (take_matrix ans (nat c) cities al2 M2) (\<lambda>(matrix, al, M).
       or_exit (take_products ans (nat c) cities matrix al M) (\<lambda>(al, M).
       Some (Next \<lparr>st_ans = ans, st_counter = nat c, st_cities = cities, st_text = t', st_allocs = al, st_mem = M\<rparr>))))"
    proof (rule leads_or_exit [OF mat])
      fix s2 :: "addr \<times> mallocs \<times> memory"
      assume "case s2 of (matrix, al', M) \<Rightarrow> rows_taken M0 al ans cv cities matrix (nat c) (nat c) (al', M)"
      then obtain matrix al3 M3 where s2: "s2 = (matrix, al3, M3)" "rows_taken M0 al ans cv cities matrix (nat c) (nat c) (al3, M3)"
        by (cases s2) auto
      have "leads ?Q (\<lambda>(al', M). start_ok M0 al \<lparr>st_ans = ans, st_counter = nat c, st_cities = cities, st_text = t', st_allocs = al', st_mem = M\<rparr>)
          (take_products ans (nat c) cities matrix al3 M3)"
        by (rule leads_mono [OF take_products_leads [OF s2(2), of t']]) (auto simp: cleaned_def)
      then have "leads ?Q ?P (or_exit (take_products ans (nat c) cities matrix al3 M3) (\<lambda>(al, M).
          Some (Next \<lparr>st_ans = ans, st_counter = nat c, st_cities = cities, st_text = t', st_allocs = al, st_mem = M\<rparr>)))"
        by (rule leads_or_exit) (use s1(2) in auto)
      then show "leads ?Q ?P ((\<lambda>(matrix, al, M).
          or_exit (take_products ans (nat c) cities matrix al M) (\<lambda>(al, M).
          Some (Next \<lparr>st_ans = ans, st_counter = nat c, st_cities = cities, st_text = t', st_allocs = al, st_mem = M\<rparr>))) s2)"
        by (simp add: s2(1))
    qed
    then show "leads ?Q ?P ((\<lambda>(cities, al, M).
       or_exit (take_matrix ans (nat c) cities al M) (\<lambda>(matrix, al, M).
       or_exit (take_products ans (nat c) cities matrix al M) (\<lambda>(al, M).
       Some (Next \<lparr>st_ans = ans, st_counter = nat c, st_cities = cities, st_text = t', st_allocs = al, st_mem = M\<rparr>)))) s1)"
      by (simp add: s1(1))
  qed
  then show "leads ?Q ?P ((\<lambda>(ans, t, al, M). do {
       (_, vals, t) \<leftarrow> fscanf fmt_count t;
       c \<leftarrow> stored_int vals None;
       or_exit (take_array ans c al M) (\<lambda>(cities, al, M).
       or_exit (take_matrix ans (nat c) cities al M) (\<lambda>(matrix, al, M).
       or_exit (take_products ans (nat c) cities matrix al M) (\<lambda>(al, M).
       Some (Next \<lparr>st_ans = ans, st_counter = nat c, st_cities = cities, st_text = t, st_allocs = al, st_mem = M\<rparr>))))
     }) s)"
    using assms(2) s(2) by (simp add: s(1))
qed

end
