(* ===== verification/Memory_Parsed.thy ===== *)
theory Memory_Parsed
  imports Memory_Building
begin

text \<open>
  \<open>parseMap\<close> on memory without failing allocations: the loops build in memory what those of Parser build
  as values, and hold exactly the blocks of it. What a part does not work on it leaves alone
  (\<open>steady\<close>), so that the vectors of the catalogue, of the cities and of the stocks can grow side by side.
\<close>

section \<open>Leaving the rest alone\<close>

definition steady :: "addr list \<Rightarrow> memory \<Rightarrow> memory \<Rightarrow> bool" where
  "steady rest M M' \<longleftrightarrow> keeps_data M M' \<and> (\<forall>x\<in>set rest. mem_blocks M' x = mem_blocks M x)"

lemma steadyD: "steady rest M M' \<Longrightarrow> x \<in> set rest \<Longrightarrow> mem_blocks M' x = mem_blocks M x"
  by (simp add: steady_def)

lemma steady_data: "steady rest M M' \<Longrightarrow> keeps_data M M'"
  by (simp add: steady_def)

lemma steady_trans: "steady rest M M' \<Longrightarrow> steady rest M' M'' \<Longrightarrow> steady rest M M''"
  by (auto simp: steady_def intro: keeps_data_trans)

lemma steady_refl [simp]: "steady rest M M"
  by (simp add: steady_def keeps_data_def)

lemma steady_sub: "steady rest M M' \<Longrightarrow> set rest' \<subseteq> set rest \<Longrightarrow> steady rest' M M'"
  by (auto simp: steady_def)

lemma steady_extends:
  assumes "extends M M'" "holds M0 (bs @ rest) M"
  shows "steady rest M M'"
proof -
  have "mem_blocks M' x = mem_blocks M x" if x: "x \<in> set rest" for x
  proof -
    obtain b where "mem_blocks M x = Some b"
      using holdsD(3) [OF assms(2), of x] x by auto
    then show ?thesis
      using extendsD [OF assms(1)] by simp
  qed
  then show ?thesis
    using extends_keeps [OF assms(1)] by (simp add: steady_def)
qed

lemma extends_new: "mem_blocks M a = None \<Longrightarrow> mem_blocks M' = (mem_blocks M)(a \<mapsto> b) \<Longrightarrow> extends M M'"
  by (auto simp: extends_def)

text \<open>What the views of goods need: names, products and stocks stay.\<close>

definition keeps_goods :: "memory \<Rightarrow> memory \<Rightarrow> bool" where
  "keeps_goods M M' \<longleftrightarrow> (\<forall>a.
     (\<forall>w. mem_blocks M a = Some (B_Name w) \<longrightarrow> mem_blocks M' a = Some (B_Name w)) \<and>
     (\<forall>i n. mem_blocks M a = Some (B_Product i n) \<longrightarrow> mem_blocks M' a = Some (B_Product i n)) \<and>
     (\<forall>k q. mem_blocks M a = Some (B_Stock k q) \<longrightarrow> mem_blocks M' a = Some (B_Stock k q)))"

lemma keeps_goodsD:
  assumes "keeps_goods M M'"
  shows "mem_blocks M a = Some (B_Name w) \<Longrightarrow> mem_blocks M' a = Some (B_Name w)"
    "mem_blocks M a = Some (B_Product i n) \<Longrightarrow> mem_blocks M' a = Some (B_Product i n)"
    "mem_blocks M a = Some (B_Stock k q) \<Longrightarrow> mem_blocks M' a = Some (B_Stock k q)"
  using assms by (simp_all add: keeps_goods_def)

lemma data_goods: "keeps_data M M' \<Longrightarrow> keeps_goods M M'"
  unfolding keeps_goods_def by (auto dest: keeps_dataD)

lemma steady_goods: "steady rest M M' \<Longrightarrow> keeps_goods M M'"
  by (rule data_goods) (rule steady_data)

lemma goods_product: "keeps_goods M M' \<Longrightarrow> product_view M a p \<Longrightarrow> product_view M' a p"
  unfolding product_view_def by (blast dest: keeps_goodsD)

lemma goods_stock:
  assumes "keeps_goods M M'" "stock_view M a s"
  shows "stock_view M' a s"
proof -
  obtain q where q: "a \<noteq> NULL" "mem_blocks M a = Some (B_Stock (stock_amount s) q)"
    "case stock_product s of None \<Rightarrow> q = NULL | Some p \<Rightarrow> product_view M q p"
    using assms(2) by (auto simp: stock_view_def)
  then show ?thesis
    using keeps_goodsD(3) [OF assms(1) q(2)] goods_product [OF assms(1)] by (auto simp: stock_view_def split: option.splits)
qed

text \<open>Appending to a vector among the blocks held.\<close>

lemma add_held:
  assumes B: "built M v as vb" and H: "holds M0 (vb @ rest) M"
  shows "\<exists>M' vb'. addToVector_m [] v x M = Some (int (length as), [], M') \<and> built M' v (as @ [x]) vb' \<and>
    holds M0 (vb' @ rest) M' \<and> steady rest M M'"
proof -
  from addToVector_built [OF B holdsD(1) [OF H], of x] obtain M' vb' where A:
    "addToVector_m [] v x M = Some (int (length as), [], M')" "built M' v (as @ [x]) vb'" "fresh_ok M'"
    "\<forall>a. a \<notin> set vb \<union> set vb' \<longrightarrow> mem_blocks M' a = mem_blocks M a"
    "\<forall>a\<in>set vb'. a \<in> set vb \<or> mem_blocks M a = None" "\<forall>a\<in>set vb. a \<notin> set vb' \<longrightarrow> mem_blocks M' a = None"
    by blast
  note d = holdsD(2) [OF H]
  have out: "a \<notin> set vb'" if "mem_blocks M a \<noteq> None" "a \<notin> set vb" for a
    using A(5) that by auto
  have rest: "a \<notin> set vb \<and> a \<notin> set vb' \<and> mem_blocks M' a = mem_blocks M a \<and> mem_blocks M a \<noteq> None" if "a \<in> set rest" for a
  proof -
    have "a \<notin> set vb" "mem_blocks M a \<noteq> None"
      using that d holdsD(3) [OF H, of a] by auto
    with out A(4) show ?thesis
      by auto
  qed
  have "mem_blocks M0 a = (if a \<in> set (vb' @ rest) then None else mem_blocks M' a)" for a
  proof (cases "a \<in> set vb'")
    case True
    then show ?thesis
      using A(5) holdsD(4,5) [OF H, of a] by fastforce
  next
    case F: False
    show ?thesis
    proof (cases "a \<in> set (vb @ rest)")
      case True
      then show ?thesis
        using F A(6) holdsD(4) [OF H True] rest by auto
    next
      case False
      then show ?thesis
        using F A(4) holdsD(5) [OF H False] by auto
    qed
  qed
  moreover have "distinct (vb' @ rest)"
    using d built_blocks [OF A(2)] rest by auto
  moreover have "\<forall>a\<in>set (vb' @ rest). mem_blocks M' a \<noteq> None"
    using built_blocks [OF A(2)] rest by auto
  ultimately have "holds M0 (vb' @ rest) M'"
    using A(3) by (simp add: holds_def without_def)
  moreover have "keeps_data M M'"
  proof -
    have "a \<notin> set vb" if "mem_blocks M a = Some b'" "\<And>p n l. b' \<noteq> B_Vector p n l" "\<And>c. b' \<noteq> B_Cells c" for a b'
      using built_types [OF B, of a] that by auto
    then show ?thesis
      using out A(4) unfolding keeps_data_def by (metis UnE option.distinct(1))
  qed
  ultimately show ?thesis
    using A(1,2) rest by (auto simp: steady_def)
qed

section \<open>The catalogue\<close>

text \<open>A product with its name in memory; the pairs list the names and the products.\<close>

fun product_done :: "memory \<Rightarrow> addr \<times> addr \<Rightarrow> product \<Rightarrow> bool" where
  "product_done M (n, a) p \<longleftrightarrow> a \<noteq> NULL \<and> n \<noteq> NULL \<and> mem_blocks M a = Some (B_Product (product_id p) n) \<and>
     mem_blocks M n = Some (B_Name (product_name p))"

definition q_blocks :: "(addr \<times> addr) list \<Rightarrow> addr list" where
  "q_blocks qs = concat (map (\<lambda>(n, a). [n, a]) qs)"

definition catalogue_at :: "memory \<Rightarrow> addr \<Rightarrow> addr list \<Rightarrow> (addr \<times> addr) list \<Rightarrow> product vector \<Rightarrow> bool" where
  "catalogue_at M pv pvb qs ps \<longleftrightarrow> built M pv (map snd qs) pvb \<and> products_wf ps \<and> list_all2 (product_done M) qs (vlist ps)"

lemma product_done_view: "product_done M q p \<Longrightarrow> product_view M (snd q) p"
  by (cases q) (auto simp: product_view_def)

lemma product_done_keeps: "keeps_goods M M' \<Longrightarrow> product_done M q p \<Longrightarrow> product_done M' q p"
  by (cases q) (auto dest: keeps_goodsD)

lemma catalogue_keeps:
  assumes "catalogue_at M pv pvb qs ps" "keeps_goods M M'" "\<And>a. a \<in> set pvb \<Longrightarrow> mem_blocks M' a = mem_blocks M a"
  shows "catalogue_at M' pv pvb qs ps"
proof -
  have "built M' pv (map snd qs) pvb"
    using assms(1,3) by (auto simp: catalogue_at_def intro: built_cong)
  moreover have "list_all2 (product_done M') qs (vlist ps)"
    using assms(1) unfolding catalogue_at_def by (auto elim!: list_all2_mono intro: product_done_keeps [OF assms(2)])
  ultimately show ?thesis
    using assms(1) by (simp add: catalogue_at_def)
qed

lemma catalogue_view:
  assumes "catalogue_at M pv pvb qs ps"
  shows "vector_view (product_view M) M pv (map snd qs) ps" "length qs = length (vlist ps)"
proof -
  have c: "built M pv (map snd qs) pvb" "products_wf ps" "list_all2 (product_done M) qs (vlist ps)"
    using assms by (simp_all add: catalogue_at_def)
  show len: "length qs = length (vlist ps)"
    using c(3) by (rule list_all2_lengthD)
  obtain ys where ys: "ps = vec_of ys" "length ys < 2147483648"
    using c(2) by (auto simp: products_wf_def elim: vec_invE)
  have "vec_in M pv (map snd qs) pvb"
    using built_vec_in [OF c(1)] len ys by simp
  moreover have "list_all2 (product_view M) (map snd qs) ys"
    using c(3) ys(1) by (auto simp: list_all2_conv_all_nth intro: product_done_view)
  ultimately show "vector_view (product_view M) M pv (map snd qs) ps"
    using ys(1) by (auto simp: vector_view_def)
qed

text \<open>\<open>getProduct\<close> finds the product or appends it.\<close>

lemma getProduct_held:
  assumes H: "holds M0 (pvb @ q_blocks qs @ rest) M" and C: "catalogue_at M pv pvb qs ps" and room: "length qs < 2147483647"
  shows "\<exists>p ps' a M' pvb' qs'. getProduct [] name ps = Some (Some p, ps', []) \<and> getProduct_m [] name pv M = Some (a, [], M') \<and>
    holds M0 (pvb' @ q_blocks qs' @ rest) M' \<and> catalogue_at M' pv pvb' qs' ps' \<and> length qs' \<le> Suc (length qs) \<and>
    product_view M' a p \<and> steady rest M M'"
proof -
  have c: "built M pv (map snd qs) pvb" "products_wf ps" "list_all2 (product_done M) qs (vlist ps)"
    using C by (simp_all add: catalogue_at_def)
  note V = catalogue_view [OF C]
  show ?thesis
  proof (cases "name \<in> product_name ` set (vlist ps)")
    case True
    then obtain p where p: "p \<in> set (vlist ps)" "name = product_name p"
      by auto
    show ?thesis
      using getProduct_known [OF c(2) p(1)] getProduct_m_known [OF V(1) c(2) p(1)] H C p(2)
      by (intro exI [of _ p] exI [of _ ps] exI [of _ "map snd qs ! nat (product_id p)"] exI [of _ M] exI [of _ pvb] exI [of _ qs]) simp
  next
    case False
    let ?k = "int (length qs)"
    let ?p = "\<lparr>product_id = ?k, product_name = name\<rparr>"
    have "vec_inv ps" "find (\<lambda>p. name = product_name p) (vlist ps) = None"
      using c(2) False by (auto simp: products_wf_def find_None_all)
    then have "getProductId name ps = Some (- 1)"
      by (simp add: getProductId_find)
    then have i: "getProductId_m name pv M = Some (- 1, M)"
      using getProductId_implemented [OF V(1), of name] by (auto simp: implements_def)
    obtain res M1 where res: "malloc (B_Product 0 NULL) [] M = (res, [], M1)" "res \<noteq> NULL" "mem_blocks M res = None"
      "mem_blocks M1 = (mem_blocks M)(res \<mapsto> B_Product 0 NULL)" "fresh_ok M1"
      using malloc_ok [OF holdsD(1) [OF H]] by blast
    have H1: "holds M0 (res # pvb @ q_blocks qs @ rest) M1"
      by (rule holds_new [OF H res(3-5)])
    obtain n M2 where n: "malloc (B_Name name) [] M1 = (n, [], M2)" "n \<noteq> NULL" "mem_blocks M1 n = None"
      "mem_blocks M2 = (mem_blocks M1)(n \<mapsto> B_Name name)" "fresh_ok M2"
      using malloc_ok [OF res(5)] by blast
    let ?M3 = "store res (B_Product 0 n) M2"
    have "holds M0 (n # res # pvb @ q_blocks qs @ rest) ?M3"
      using holds_new [OF H1 n(3-5)] by (rule holds_store) simp
    then have H3: "holds M0 (pvb @ n # res # q_blocks qs @ rest) ?M3"
      by (rule holds_perm) simp
    have ne: "n \<noteq> res" "mem_blocks M n = None"
      using n(3) res(4) by (auto split: if_splits)
    have E: "extends M ?M3"
      using res(3,4) n(4) ne by (auto simp: extends_def)
    have B3: "built ?M3 pv (map snd qs) pvb"
    proof (rule built_cong [OF c(1)])
      fix a
      assume "a \<in> set pvb"
      then obtain b where "mem_blocks M a = Some b"
        using holdsD(3) [OF H, of a] by auto
      then show "mem_blocks ?M3 a = mem_blocks M a"
        using extendsD [OF E] by simp
    qed
    obtain M4 pvb' where M4: "addToVector_m [] pv res ?M3 = Some (?k, [], M4)" "built M4 pv (map snd qs @ [res]) pvb'"
      "holds M0 (pvb' @ n # res # q_blocks qs @ rest) M4" "steady (n # res # q_blocks qs @ rest) ?M3 M4"
      using add_held [OF B3 H3, of res] by auto
    let ?M5 = "store res (B_Product ?k n) M4"
    let ?qs = "qs @ [(n, res)]"
    have k: "getProduct_m [] name pv M = Some (res, [], ?M5)"
      using i res(1,2) n(1,2) M4(1) by (simp add: getProduct_m_def)
    have H5: "holds M0 (pvb' @ q_blocks ?qs @ rest) ?M5"
    proof (rule holds_perm)
      show "holds M0 (pvb' @ n # res # q_blocks qs @ rest) ?M5"
        using M4(3) by (rule holds_store) simp
    qed (simp add: q_blocks_def)
    note d = holdsD(2) [OF M4(3)]
    have at: "mem_blocks M4 res = Some (B_Product 0 n)" "mem_blocks M4 n = Some (B_Name name)"
      using steadyD [OF M4(4), of res] steadyD [OF M4(4), of n] n(4) ne by simp_all
    have K: "keeps_data M ?M5"
      unfolding keeps_data_def
    proof (intro allI impI)
      fix a b
      assume b: "mem_blocks M a = Some b" "\<forall>p n l. b \<noteq> B_Vector p n l" "\<forall>c. b \<noteq> B_Cells c"
      then have "mem_blocks M4 a = Some b"
        using keeps_dataD [OF steady_data [OF M4(4)] extendsD [OF E b(1)]] by blast
      then show "mem_blocks ?M5 a = Some b"
        using b(1) res(3) by auto
    qed
    have S: "steady rest M ?M5"
    proof -
      have "mem_blocks ?M5 x = mem_blocks M x" if x: "x \<in> set rest" for x
      proof -
        obtain b where b: "mem_blocks M x = Some b"
          using holdsD(3) [OF H, of x] x by auto
        have "mem_blocks M4 x = Some b"
          using steadyD [OF M4(4), of x] x extendsD [OF E b] by simp
        moreover have "x \<noteq> res"
          using b res(3) by auto
        ultimately show ?thesis
          using b by simp
      qed
      with K show ?thesis
        by (simp add: steady_def)
    qed
    let ?ps = "vec_of (vlist ps @ [?p])"
    have "built ?M5 pv (map snd ?qs) pvb'"
    proof -
      have "built ?M5 pv (map snd qs @ [res]) pvb'"
        by (rule built_cong [OF M4(2)]) (use d in auto)
      then show ?thesis
        by simp
    qed
    moreover have "products_wf ?ps"
      using products_wf_append [OF c(2) False] V(2) room by simp
    moreover have "list_all2 (product_done ?M5) ?qs (vlist ?ps)"
    proof -
      have "list_all2 (product_done ?M5) qs (vlist ps)"
        using c(3) by (rule list_all2_mono) (rule product_done_keeps [OF data_goods [OF K]])
      then show ?thesis
        using at ne(1) res(2) n(2) by (simp add: list_all2_appendI)
    qed
    ultimately have C5: "catalogue_at ?M5 pv pvb' ?qs ?ps"
      by (simp add: catalogue_at_def)
    have v: "product_view ?M5 res ?p"
      using at ne(1) res(2) by (simp add: product_view_def)
    have "getProduct [] name ps = Some (Some ?p, ?ps, [])"
      using getProduct_new [OF c(2) False, of "[]"] V(2) by (simp add: Let_def)
    with k H5 C5 v S show ?thesis
      by (intro exI [of _ ?p] exI [of _ ?ps] exI [of _ res] exI [of _ ?M5] exI [of _ pvb'] exI [of _ ?qs]) simp
  qed
qed

lemma initStock_held:
  assumes H: "holds M0 (pvb @ q_blocks qs @ rest) M" and C: "catalogue_at M pv pvb qs ps" and room: "length qs < 2147483647"
  shows "\<exists>sv ps' s M' pvb' qs'. initStock [] name amount ps = Some (Some sv, ps', []) \<and> initStock_m [] name amount pv M = Some (s, [], M') \<and>
    s \<noteq> NULL \<and> holds M0 (s # pvb' @ q_blocks qs' @ rest) M' \<and> catalogue_at M' pv pvb' qs' ps' \<and> length qs' \<le> Suc (length qs) \<and>
    stock_view M' s sv \<and> steady rest M M'"
proof -
  obtain s M1 where s: "malloc (B_Stock amount NULL) [] M = (s, [], M1)" "s \<noteq> NULL" "mem_blocks M s = None"
    "mem_blocks M1 = (mem_blocks M)(s \<mapsto> B_Stock amount NULL)" "fresh_ok M1"
    using malloc_ok [OF holdsD(1) [OF H]] by blast
  have "holds M0 (s # pvb @ q_blocks qs @ rest) M1"
    by (rule holds_new [OF H s(3-5)])
  then have H1: "holds M0 (pvb @ q_blocks qs @ s # rest) M1"
    by (rule holds_perm) simp
  have E: "extends M M1"
    by (rule extends_new [OF s(3,4)])
  have C1: "catalogue_at M1 pv pvb qs ps"
  proof (rule catalogue_keeps [OF C data_goods [OF extends_keeps [OF E]]])
    fix a
    assume "a \<in> set pvb"
    then obtain b where "mem_blocks M a = Some b"
      using holdsD(3) [OF H, of a] by auto
    then show "mem_blocks M1 a = mem_blocks M a"
      using extendsD [OF E] by simp
  qed
  obtain p ps' q M2 pvb' qs' where g: "getProduct [] name ps = Some (Some p, ps', [])" "getProduct_m [] name pv M1 = Some (q, [], M2)"
    "holds M0 (pvb' @ q_blocks qs' @ s # rest) M2" "catalogue_at M2 pv pvb' qs' ps'" "length qs' \<le> Suc (length qs)"
    "product_view M2 q p" "steady (s # rest) M1 M2"
    using getProduct_held [OF H1 C1 room] by blast
  let ?M3 = "store s (B_Stock amount q) M2"
  have at: "mem_blocks M2 s = Some (B_Stock amount NULL)"
    using steadyD [OF g(7), of s] s(4) by simp
  note d = holdsD(2) [OF g(3)]
  have other: "product_done M2 x y \<Longrightarrow> product_done ?M3 x y" for x y
    using at by (cases x) auto
  have "holds M0 (pvb' @ q_blocks qs' @ s # rest) ?M3"
    using g(3) by (rule holds_store) simp
  then have H3: "holds M0 (s # pvb' @ q_blocks qs' @ rest) ?M3"
    by (rule holds_perm) simp
  have "built ?M3 pv (map snd qs') pvb'"
  proof (rule built_cong [of M2])
    show "built M2 pv (map snd qs') pvb'"
      using g(4) by (simp add: catalogue_at_def)
    show "mem_blocks ?M3 a = mem_blocks M2 a" if "a \<in> set pvb'" for a
      using d that by auto
  qed
  moreover have "list_all2 (product_done ?M3) qs' (vlist ps')"
    using g(4) unfolding catalogue_at_def by (auto elim!: list_all2_mono intro: other)
  ultimately have C3: "catalogue_at ?M3 pv pvb' qs' ps'"
    using g(4) by (simp add: catalogue_at_def)
  have "product_view ?M3 q p"
  proof -
    obtain n where n: "q \<noteq> NULL" "mem_blocks M2 q = Some (B_Product (product_id p) n)" "mem_blocks M2 n = Some (B_Name (product_name p))"
      using g(6) unfolding product_view_def by blast
    have "q \<noteq> s" "n \<noteq> s"
      using n(2,3) at by (metis block.distinct option.inject)+
    with n show ?thesis
      by (simp add: product_view_def)
  qed
  then have V: "stock_view ?M3 s \<lparr>stock_amount = amount, stock_product = Some p\<rparr>"
    using s(2) by (simp add: stock_view_def)
  have S: "steady rest M ?M3"
  proof -
    have S2: "steady rest M M2"
      by (rule steady_trans [OF steady_extends [OF E, of M0 "pvb @ q_blocks qs"] steady_sub [OF g(7)]]) (use H in auto)
    have "mem_blocks ?M3 x = mem_blocks M x" if x: "x \<in> set rest" for x
    proof -
      have "x \<noteq> s"
        using holdsD(3) [OF H, of x] x s(3) by auto
      then show ?thesis
        using steadyD [OF S2 x] by simp
    qed
    moreover have "keeps_data M ?M3"
      using steady_data [OF S2] s(3) unfolding keeps_data_def by auto
    ultimately show ?thesis
      by (simp add: steady_def)
  qed
  have "initStock [] name amount ps = Some (Some \<lparr>stock_amount = amount, stock_product = Some p\<rparr>, ps', [])"
    using g(1) by (simp add: initStock_def)
  moreover have "initStock_m [] name amount pv M = Some (s, [], ?M3)"
    using s(1,2) g(2) by (simp add: initStock_m_def)
  ultimately show ?thesis
    using s(2) H3 C3 g(5) V S by blast
qed

section \<open>Stocks\<close>

definition stocks_held :: "memory \<Rightarrow> addr \<Rightarrow> addr list \<Rightarrow> addr list \<Rightarrow> stock vector \<Rightarrow> bool" where
  "stocks_held M v vb sa xs \<longleftrightarrow> built M v sa vb \<and> xs = vec_of (vlist xs) \<and> list_all2 (stock_view M) sa (vlist xs)"

lemma stocks_keeps:
  assumes "stocks_held M v vb sa xs" "keeps_goods M M'" "\<And>a. a \<in> set vb \<Longrightarrow> mem_blocks M' a = mem_blocks M a"
  shows "stocks_held M' v vb sa xs"
proof -
  have "built M' v sa vb"
    using assms(1,3) by (auto simp: stocks_held_def intro: built_cong)
  moreover have "list_all2 (stock_view M') sa (vlist xs)"
    using assms(1) unfolding stocks_held_def by (auto elim!: list_all2_mono intro: goods_stock [OF assms(2)])
  ultimately show ?thesis
    using assms(1) by (simp add: stocks_held_def)
qed

text \<open>One line of a stock: in memory as on values, and the blocks held are those of the longer vector.\<close>

lemma add_stock_held:
  assumes H: "holds M0 (vb @ sa @ pvb @ q_blocks qs @ rest) M" and C: "catalogue_at M pv pvb qs ps" and S: "stocks_held M v vb sa xs"
    and room: "length qs < 2147483647"
  shows "\<exists>sv ps' xs' s M1 M2 vb' pvb' qs'. initStock [] name amount ps = Some (Some sv, ps', []) \<and>
    addToVector [] xs sv = Some (int (length sa), xs', []) \<and> initStock_m [] name amount pv M = Some (s, [], M1) \<and> s \<noteq> NULL \<and>
    addToVector_m [] v s M1 = Some (int (length sa), [], M2) \<and> holds M0 (vb' @ (sa @ [s]) @ pvb' @ q_blocks qs' @ rest) M2 \<and>
    catalogue_at M2 pv pvb' qs' ps' \<and> stocks_held M2 v vb' (sa @ [s]) xs' \<and> length qs' \<le> Suc (length qs) \<and> steady rest M M2"
proof -
  have "holds M0 (pvb @ q_blocks qs @ vb @ sa @ rest) M"
    using H by (rule holds_perm) simp
  from initStock_held [OF this C room, of name amount] obtain sv ps' s M1 pvb' qs' where i:
    "initStock [] name amount ps = Some (Some sv, ps', [])" "initStock_m [] name amount pv M = Some (s, [], M1)" "s \<noteq> NULL"
    "holds M0 (s # pvb' @ q_blocks qs' @ vb @ sa @ rest) M1" "catalogue_at M1 pv pvb' qs' ps'" "length qs' \<le> Suc (length qs)"
    "stock_view M1 s sv" "steady (vb @ sa @ rest) M M1"
    by blast
  have S1: "stocks_held M1 v vb sa xs"
    by (rule stocks_keeps [OF S steady_goods [OF i(8)]]) (rule steadyD [OF i(8)], simp)
  have H1: "holds M0 (vb @ s # sa @ pvb' @ q_blocks qs' @ rest) M1"
    using i(4) by (rule holds_perm) simp
  have B1: "built M1 v sa vb"
    using S1 by (simp add: stocks_held_def)
  obtain M2 vb' where a: "addToVector_m [] v s M1 = Some (int (length sa), [], M2)" "built M2 v (sa @ [s]) vb'"
    "holds M0 (vb' @ s # sa @ pvb' @ q_blocks qs' @ rest) M2" "steady (s # sa @ pvb' @ q_blocks qs' @ rest) M1 M2"
    using add_held [OF B1 H1, of s] by blast
  have H2: "holds M0 (vb' @ (sa @ [s]) @ pvb' @ q_blocks qs' @ rest) M2"
    using a(3) by (rule holds_perm) simp
  have C2: "catalogue_at M2 pv pvb' qs' ps'"
    by (rule catalogue_keeps [OF i(5) steady_goods [OF a(4)]]) (rule steadyD [OF a(4)], simp)
  have xs: "xs = vec_of (vlist xs)" "length sa = length (vlist xs)"
    using S by (auto simp: stocks_held_def dest: list_all2_lengthD)
  have v: "addToVector [] xs sv = Some (int (length sa), vec_of (vlist xs @ [sv]), [])"
    using addToVector_vec_of [of "[]" "vlist xs" sv] xs by (simp split: if_splits)
  have "list_all2 (stock_view M2) sa (vlist xs)"
    using S1 unfolding stocks_held_def by (auto elim!: list_all2_mono intro: keeps_stock [OF steady_data [OF a(4)]])
  then have "stocks_held M2 v vb' (sa @ [s]) (vec_of (vlist xs @ [sv]))"
    using a(2) keeps_stock [OF steady_data [OF a(4)] i(7)] by (simp add: stocks_held_def list_all2_appendI)
  moreover have "steady rest M M2"
    by (rule steady_trans [OF steady_sub [OF i(8)] steady_sub [OF a(4)]]) auto
  ultimately show ?thesis
    using i(1-3,6) a(1) H2 C2 v by blast
qed

definition stocks_result :: "memory \<Rightarrow> addr list \<Rightarrow> addr \<Rightarrow> addr \<Rightarrow> memory \<Rightarrow> nat \<Rightarrow> stocks_read_m \<Rightarrow> stocks_read \<Rightarrow> bool" where
  "stocks_result M0 rest pv v M k r r' \<longleftrightarrow> rm_state r = sr_state r' \<and> rm_buffer r = sr_buffer r' \<and> rm_aux r = sr_aux r' \<and>
     rm_text r = sr_text r' \<and> rm_allocs r = [] \<and> sr_allocs r' = [] \<and> steady rest M (rm_mem r) \<and>
     (\<exists>vb sa pvb qs. holds M0 (vb @ sa @ pvb @ q_blocks qs @ rest) (rm_mem r) \<and> catalogue_at (rm_mem r) pv pvb qs (sr_products r') \<and>
        stocks_held (rm_mem r) v vb sa (sr_vec r') \<and> length qs + length (rm_text r) \<le> k \<and> length sa + length (rm_text r) \<le> k)"

lemma read_stocks_held:
  assumes "holds M0 (vb @ sa @ pvb @ q_blocks qs @ rest) M" "catalogue_at M pv pvb qs ps" "stocks_held M v vb sa xs"
    and "length qs + length t \<le> k" "length sa + length t \<le> k" "k < 2147483648"
  shows "implements (rel_flow (\<lambda>_ _. False) (stocks_result M0 rest pv v M k))
    (read_stocks_m [] t pv v buffer aux M) (read_stocks [] t ps xs buffer aux)"
  using assms
proof (induction "length t" arbitrary: t vb sa pvb qs M ps xs buffer aux rule: less_induct)
  case less
  show ?case
  proof (cases "fscanf (fmt_pair CITY_NAME_MAX_LENGTH) t")
    case None
    then show ?thesis
      by (simp add: read_stocks.simps)
  next
    case (Some f)
    obtain state vals t' where f: "fscanf (fmt_pair CITY_NAME_MAX_LENGTH) t = Some (state, vals, t')"
      using Some by (cases f) auto
    let ?b = "stored_word vals buffer"
    let ?a = "stored_int vals aux"
    show ?thesis
    proof (cases "state = 2")
      case False
      have "length t' \<le> length t"
        using f unfolding fscanf_def by (rule fscanf_from_le)
      then have "stocks_result M0 rest pv v M k
          \<lparr>rm_state = state, rm_buffer = ?b, rm_aux = ?a, rm_text = t', rm_allocs = [], rm_mem = M\<rparr>
          \<lparr>sr_state = state, sr_vec = xs, sr_products = ps, sr_buffer = ?b, sr_aux = ?a, sr_text = t', sr_allocs = []\<rparr>"
        using less.prems unfolding stocks_result_def by fastforce
      with f False show ?thesis
        by (simp add: read_stocks.simps read_stocks_m.simps Let_def)
    next
      case True
      have short: "length t' < length t"
        using f True by (auto simp: fmt_pair_def dest: fscanf_shorter)
      show ?thesis
      proof (cases "?b = None \<or> ?a = None")
        case True
        then show ?thesis
          using f \<open>state = 2\<close> by (auto simp: read_stocks.simps [of _ t] Let_def split: option.split)
      next
        case False
        then obtain name amount where b: "?b = Some name" "?a = Some amount"
          by auto
        have room: "length qs < 2147483647"
          using less.prems(4,6) short by linarith
        from add_stock_held [OF less.prems(1-3) room, of name amount] obtain sv ps' xs' s M1 M2 vb' pvb' qs' where a:
          "initStock [] name amount ps = Some (Some sv, ps', [])" "addToVector [] xs sv = Some (int (length sa), xs', [])"
          "initStock_m [] name amount pv M = Some (s, [], M1)" "s \<noteq> NULL" "addToVector_m [] v s M1 = Some (int (length sa), [], M2)"
          "holds M0 (vb' @ (sa @ [s]) @ pvb' @ q_blocks qs' @ rest) M2" "catalogue_at M2 pv pvb' qs' ps'" "stocks_held M2 v vb' (sa @ [s]) xs'"
          "length qs' \<le> Suc (length qs)" "steady rest M M2"
          by blast
        have "implements (rel_flow (\<lambda>_ _. False) (stocks_result M0 rest pv v M2 k))
            (read_stocks_m [] t' pv v ?b ?a M2) (read_stocks [] t' ps' xs' ?b ?a)"
          by (rule less.hyps [OF short a(6-8)]) (use less.prems(4-6) short a(9) in auto)
        moreover have "stocks_result M0 rest pv v M2 k r r' \<Longrightarrow> stocks_result M0 rest pv v M k r r'" for r r'
          using steady_trans [OF a(10)] unfolding stocks_result_def by blast
        ultimately have "implements (rel_flow (\<lambda>_ _. False) (stocks_result M0 rest pv v M k))
            (read_stocks_m [] t' pv v ?b ?a M2) (read_stocks [] t' ps' xs' ?b ?a)"
          by (auto elim!: implements_mono flow.rel_mono_strong)
        then show ?thesis
          using f True a(1-5) b by (simp add: read_stocks.simps [of _ t] read_stocks_m.simps [of _ t] Let_def)
      qed
    qed
  qed
qed

end
