(* ===== verification/Memory_Cities.thy ===== *)
theory Memory_Cities
  imports Memory_Parsed
begin

text \<open>
  The loop over the cities of \<open>parseMap\<close> on memory. Its invariant lists every block the parser holds:
  those it has before the loop, the catalogue, the vector of cities, the finished cities with their
  names and stocks, the objects of the cities still to come, and the names that were read ahead.
\<close>

section \<open>The invariant\<close>

text \<open>Where the blocks of the first part lie.\<close>

record layout =
  ly_ans :: addr
  ly_cv :: addr
  ly_pv :: addr
  ly_matrix :: addr
  ly_rows :: "addr list"
  ly_cities :: addr
  ly_cs :: "addr list"

definition fixed :: "layout \<Rightarrow> addr list" where
  "fixed L = ly_rows L @ [ly_matrix L, ly_cities L, ly_ans L]"

definition fixed_ok :: "layout \<Rightarrow> memory \<Rightarrow> bool" where
  "fixed_ok L M \<longleftrightarrow> ly_ans L \<noteq> NULL \<and> ly_matrix L \<noteq> NULL \<and> ly_cities L \<noteq> NULL \<and> length (ly_rows L) = length (ly_cs L) \<and>
     (\<forall>c\<in>set (ly_cs L). c \<noteq> NULL) \<and> mem_blocks M (ly_ans L) = Some (B_Map (ly_cv L) (ly_pv L) (ly_matrix L)) \<and>
     mem_blocks M (ly_cities L) = Some (B_Cells (map Some (ly_cs L))) \<and> mem_blocks M (ly_matrix L) = Some (B_Matrix (map Some (ly_rows L))) \<and>
     (\<forall>r\<in>set (ly_rows L). r \<noteq> NULL \<and> mem_blocks M r = Some (B_Row (replicate (length (ly_cs L)) 0)))"

lemma fixed_frame: "fixed_ok L M \<Longrightarrow> (\<And>a. a \<in> set (fixed L) \<Longrightarrow> mem_blocks M' a = mem_blocks M a) \<Longrightarrow> fixed_ok L M'"
  by (simp add: fixed_ok_def fixed_def)

text \<open>A finished city: its object, name and stocks, with their blocks.\<close>

definition city_done :: "memory \<Rightarrow> addr list \<Rightarrow> addr \<Rightarrow> addr list \<Rightarrow> city \<Rightarrow> bool" where
  "city_done M sa c bs y \<longleftrightarrow> (\<exists>n s vb. mem_blocks M c = Some (B_City n (city_id y) s) \<and> n \<noteq> NULL \<and>
     mem_blocks M n = Some (B_Name (city_name y)) \<and> stocks_held M s vb sa (city_stock y) \<and> bs = vb @ sa @ [n, c])"

lemma city_done_frame:
  assumes "city_done M sa c bs y" "keeps_goods M M'" "\<And>a. a \<in> set bs \<Longrightarrow> mem_blocks M' a = mem_blocks M a"
  shows "city_done M' sa c bs y"
proof -
  obtain n s vb where c: "mem_blocks M c = Some (B_City n (city_id y) s)" "n \<noteq> NULL" "mem_blocks M n = Some (B_Name (city_name y))"
    "stocks_held M s vb sa (city_stock y)" "bs = vb @ sa @ [n, c]"
    using assms(1) by (auto simp: city_done_def)
  have "stocks_held M' s vb sa (city_stock y)"
    by (rule stocks_keeps [OF c(4) assms(2)]) (use assms(3) c(5) in simp)
  then show ?thesis
    using c assms(3) by (simp add: city_done_def)
qed

text \<open>The cities up to \<open>i\<close>, with the addresses of their stocks and their blocks.\<close>

definition cities_done :: "layout \<Rightarrow> nat \<Rightarrow> memory \<Rightarrow> addr list list \<Rightarrow> addr list list \<Rightarrow> city vector \<Rightarrow> bool" where
  "cities_done L i M sas cbs cities \<longleftrightarrow> i \<le> length (ly_cs L) \<and> length sas = i \<and> length cbs = i \<and>
     cities = vec_of (vlist cities) \<and> length (vlist cities) = i \<and>
     (\<forall>j<i. city_done M (sas ! j) (ly_cs L ! j) (cbs ! j) (vlist cities ! j))"

lemma cities_done_frame:
  assumes "cities_done L i M sas cbs cities" "keeps_goods M M'" "\<And>a. a \<in> set (concat cbs) \<Longrightarrow> mem_blocks M' a = mem_blocks M a"
  shows "cities_done L i M' sas cbs cities"
proof -
  have "city_done M' (sas ! j) (ly_cs L ! j) (cbs ! j) (vlist cities ! j)" if j: "j < i" for j
  proof (rule city_done_frame [OF _ assms(2)])
    show "city_done M (sas ! j) (ly_cs L ! j) (cbs ! j) (vlist cities ! j)"
      using assms(1) j by (simp add: cities_done_def)
    have "cbs ! j \<in> set cbs"
      using assms(1) j by (simp add: cities_done_def)
    then show "mem_blocks M' a = mem_blocks M a" if "a \<in> set (cbs ! j)" for a
      using that assms(3) by auto
  qed
  then show ?thesis
    using assms(1) by (simp add: cities_done_def)
qed

text \<open>
  The cities from \<open>i\<close> on; those in \<open>pn\<close> have a name. \<open>names\<close> is what Parser knows of the names.
\<close>

definition coming :: "layout \<Rightarrow> nat \<Rightarrow> memory \<Rightarrow> (nat \<times> addr) list \<Rightarrow> string arr \<Rightarrow> bool" where
  "coming L i M pn names \<longleftrightarrow> length names = length (ly_cs L) \<and>
     (\<forall>j. i \<le> j \<longrightarrow> j < length (ly_cs L) \<longrightarrow> (\<exists>n k s. mem_blocks M (ly_cs L ! j) = Some (B_City n k s))) \<and>
     (\<forall>j. i \<le> j \<longrightarrow> arr_get names j \<noteq> None \<longrightarrow> j \<in> fst ` set pn) \<and>
     (\<forall>(j, n)\<in>set pn. i \<le> j \<and> j < length (ly_cs L) \<and> n \<noteq> NULL \<and>
        (\<exists>w k s. arr_get names j = Some w \<and> mem_blocks M n = Some (B_Name w) \<and> mem_blocks M (ly_cs L ! j) = Some (B_City n k s)))"

lemma comingD:
  assumes "coming L i M pn names"
  shows "length names = length (ly_cs L)" "i \<le> j \<Longrightarrow> j < length (ly_cs L) \<Longrightarrow> \<exists>n k s. mem_blocks M (ly_cs L ! j) = Some (B_City n k s)"
    "i \<le> j \<Longrightarrow> arr_get names j \<noteq> None \<Longrightarrow> j \<in> fst ` set pn"
    "(j, n) \<in> set pn \<Longrightarrow> i \<le> j \<and> j < length (ly_cs L) \<and> n \<noteq> NULL \<and>
        (\<exists>w k s. arr_get names j = Some w \<and> mem_blocks M n = Some (B_Name w) \<and> mem_blocks M (ly_cs L ! j) = Some (B_City n k s))"
  using assms unfolding coming_def by blast+

text \<open>A change that leaves the names, and the pointers to them.\<close>

lemma coming_frame:
  assumes C: "coming L i M pn names" and "keeps_goods M M'"
    and same: "\<And>j n k s. i \<le> j \<Longrightarrow> j < length (ly_cs L) \<Longrightarrow> mem_blocks M (ly_cs L ! j) = Some (B_City n k s) \<Longrightarrow>
      \<exists>n' k' s'. mem_blocks M' (ly_cs L ! j) = Some (B_City n' k' s') \<and> (j \<in> fst ` set pn \<longrightarrow> n' = n)"
  shows "coming L i M' pn names"
  unfolding coming_def
proof (intro conjI allI impI ballI)
  show "length names = length (ly_cs L)"
    by (rule comingD(1) [OF C])
  show "j \<in> fst ` set pn" if "i \<le> j" "arr_get names j \<noteq> None" for j
    by (rule comingD(3) [OF C that])
  show "\<exists>n k s. mem_blocks M' (ly_cs L ! j) = Some (B_City n k s)" if "i \<le> j" "j < length (ly_cs L)" for j
    using comingD(2) [OF C that] same [OF that] by blast
  fix x
  assume x: "x \<in> set pn"
  obtain j n where jn: "x = (j, n)"
    by (cases x)
  note c = comingD(4) [OF C x [unfolded jn]]
  then obtain w k s where w: "arr_get names j = Some w" "mem_blocks M n = Some (B_Name w)" "mem_blocks M (ly_cs L ! j) = Some (B_City n k s)"
    by blast
  have "j \<in> fst ` set pn"
    using x jn by force
  then obtain k' s' where "mem_blocks M' (ly_cs L ! j) = Some (B_City n k' s')"
    using same [OF _ _ w(3)] c by blast
  then show "case x of (j, n) \<Rightarrow> i \<le> j \<and> j < length (ly_cs L) \<and> n \<noteq> NULL \<and>
      (\<exists>w k s. arr_get names j = Some w \<and> mem_blocks M' n = Some (B_Name w) \<and> mem_blocks M' (ly_cs L ! j) = Some (B_City n k s))"
    using c w(1) keeps_goodsD(1) [OF assms(2) w(2)] jn by simp
qed

text \<open>A name for city \<open>j\<close>.\<close>

lemma coming_name:
  assumes C: "coming L i M pn names" and "i \<le> j" "j < length (ly_cs L)" "n \<noteq> NULL" "mem_blocks M n = Some (B_Name w)"
    "mem_blocks M (ly_cs L ! j) = Some (B_City n k s)" "j \<notin> fst ` set pn"
  shows "\<exists>names'. arr_set names j w = Some names' \<and> coming L i M (pn @ [(j, n)]) names' \<and> arr_get names' j = Some w \<and>
    (\<forall>l. l \<noteq> j \<longrightarrow> arr_get names' l = arr_get names l)"
proof -
  let ?names = "names[j := Some w]"
  have len: "j < length names"
    using comingD(1) [OF C] assms(3) by simp
  have at: "arr_get ?names l = (if l = j then Some w else arr_get names l)" for l
    using len by (auto simp: arr_get_def)
  have "coming L i M (pn @ [(j, n)]) ?names"
    unfolding coming_def
  proof (intro conjI allI impI ballI)
    show "length ?names = length (ly_cs L)"
      using comingD(1) [OF C] by simp
    show "l \<in> fst ` set (pn @ [(j, n)])" if "i \<le> l" "arr_get ?names l \<noteq> None" for l
      using that comingD(3) [OF C that(1)] by (auto simp: at split: if_splits)
    show "\<exists>n k s. mem_blocks M (ly_cs L ! l) = Some (B_City n k s)" if "i \<le> l" "l < length (ly_cs L)" for l
      by (rule comingD(2) [OF C that])
    fix x
    assume "x \<in> set (pn @ [(j, n)])"
    then consider "x = (j, n)" | "x \<in> set pn"
      by auto
    then show "case x of (l, n) \<Rightarrow> i \<le> l \<and> l < length (ly_cs L) \<and> n \<noteq> NULL \<and>
      (\<exists>w k s. arr_get ?names l = Some w \<and> mem_blocks M n = Some (B_Name w) \<and> mem_blocks M (ly_cs L ! l) = Some (B_City n k s))"
    proof cases
      case 1
      then show ?thesis
        using assms(2-6) at by simp
    next
      case 2
      obtain l m where lm: "x = (l, m)"
        by (cases x)
      have "l \<noteq> j"
        using 2 lm assms(7) by force
      then show ?thesis
        using comingD(4) [OF C 2 [unfolded lm]] lm at by simp
    qed
  qed
  then show ?thesis
    using len at by (auto simp: arr_set_def)
qed

section \<open>The whole invariant\<close>

definition parts :: "layout \<Rightarrow> nat \<Rightarrow> memory \<Rightarrow> (nat \<times> addr) list \<Rightarrow> parse_state \<Rightarrow> addr list \<Rightarrow> addr list \<Rightarrow> (addr \<times> addr) list \<Rightarrow>
  addr list list \<Rightarrow> addr list list \<Rightarrow> bool" where
  "parts L i M pn st cvb pvb qs cbs sas \<longleftrightarrow> fixed_ok L M \<and> built M (ly_cv L) (take i (ly_cs L)) cvb \<and>
     catalogue_at M (ly_pv L) pvb qs (ps_products st) \<and> cities_done L i M sas cbs (ps_cities st) \<and> coming L i M pn (ps_names st)"

text \<open>All blocks but those in \<open>sb\<close>, which belong to what is being built.\<close>

definition all_parts :: "layout \<Rightarrow> nat \<Rightarrow> (nat \<times> addr) list \<Rightarrow> addr list \<Rightarrow> addr list \<Rightarrow> (addr \<times> addr) list \<Rightarrow> addr list list \<Rightarrow> addr list" where
  "all_parts L i pn cvb pvb qs cbs = cvb @ pvb @ q_blocks qs @ concat cbs @ map snd pn @ drop i (ly_cs L) @ fixed L"

definition parsing :: "layout \<Rightarrow> memory \<Rightarrow> nat \<Rightarrow> nat \<Rightarrow> addr list \<Rightarrow> memory \<Rightarrow> (nat \<times> addr) list \<Rightarrow> parse_state \<Rightarrow> bool" where
  "parsing L M0 K i sb M pn st \<longleftrightarrow> (\<exists>cvb pvb qs cbs sas. holds M0 (sb @ all_parts L i pn cvb pvb qs cbs) M \<and>
     parts L i M pn st cvb pvb qs cbs sas \<and> length qs + length (ps_text st) \<le> K) \<and> ps_allocs st = []"

lemma parsingE:
  assumes "parsing L M0 K i sb M pn st"
  obtains cvb pvb qs cbs sas where "holds M0 (sb @ all_parts L i pn cvb pvb qs cbs) M" "parts L i M pn st cvb pvb qs cbs sas"
    "length qs + length (ps_text st) \<le> K" "ps_allocs st = []"
  using assms by (auto simp: parsing_def)

lemma parsingI:
  "holds M0 (sb @ all_parts L i pn cvb pvb qs cbs) M \<Longrightarrow> parts L i M pn st cvb pvb qs cbs sas \<Longrightarrow> length qs + length (ps_text st) \<le> K \<Longrightarrow>
    ps_allocs st = [] \<Longrightarrow> parsing L M0 K i sb M pn st"
  unfolding parsing_def by blast

lemma parts_frame:
  assumes P: "parts L i M pn st cvb pvb qs cbs sas" and K: "keeps_goods M M'"
    and same: "\<And>a. a \<in> set (cvb @ pvb @ concat cbs @ fixed L) \<Longrightarrow> mem_blocks M' a = mem_blocks M a"
    and cities: "\<And>j n k s. i \<le> j \<Longrightarrow> j < length (ly_cs L) \<Longrightarrow> mem_blocks M (ly_cs L ! j) = Some (B_City n k s) \<Longrightarrow>
      \<exists>n' k' s'. mem_blocks M' (ly_cs L ! j) = Some (B_City n' k' s') \<and> (j \<in> fst ` set pn \<longrightarrow> n' = n)"
  shows "parts L i M' pn st cvb pvb qs cbs sas"
proof -
  have p: "fixed_ok L M" "built M (ly_cv L) (take i (ly_cs L)) cvb" "catalogue_at M (ly_pv L) pvb qs (ps_products st)"
    "cities_done L i M sas cbs (ps_cities st)" "coming L i M pn (ps_names st)"
    using P by (simp_all add: parts_def)
  have "fixed_ok L M'"
    by (rule fixed_frame [OF p(1)]) (rule same, simp)
  moreover have "built M' (ly_cv L) (take i (ly_cs L)) cvb"
    by (rule built_cong [OF p(2)]) (rule same, simp)
  moreover have "catalogue_at M' (ly_pv L) pvb qs (ps_products st)"
    by (rule catalogue_keeps [OF p(3) K]) (rule same, simp)
  moreover have "cities_done L i M' sas cbs (ps_cities st)"
    by (rule cities_done_frame [OF p(4) K]) (rule same, simp)
  moreover have "coming L i M' pn (ps_names st)"
    by (rule coming_frame [OF p(5) K cities])
  ultimately show ?thesis
    by (simp add: parts_def)
qed

lemma parts_steady:
  assumes "parts L i M pn st cvb pvb qs cbs sas" "steady (all_parts L i pn cvb pvb qs cbs) M M'"
  shows "parts L i M' pn st cvb pvb qs cbs sas"
proof (rule parts_frame [OF assms(1) steady_goods [OF assms(2)]])
  show "mem_blocks M' a = mem_blocks M a" if "a \<in> set (cvb @ pvb @ concat cbs @ fixed L)" for a
    using that by (intro steadyD [OF assms(2)]) (auto simp: all_parts_def)
  fix j n k s
  assume j: "i \<le> j" "j < length (ly_cs L)" and c: "mem_blocks M (ly_cs L ! j) = Some (B_City n k s)"
  have "mem_blocks M' (ly_cs L ! j) = Some (B_City n k s)"
    using keeps_dataD [OF steady_data [OF assms(2)] c] by simp
  then show "\<exists>n' k' s'. mem_blocks M' (ly_cs L ! j) = Some (B_City n' k' s') \<and> (j \<in> fst ` set pn \<longrightarrow> n' = n)"
    by simp
qed

lemma parts_city:
  assumes "parts L i M pn st cvb pvb qs cbs sas" "i \<le> j" "j < length (ly_cs L)"
  obtains n k s where "mem_blocks M (ly_cs L ! j) = Some (B_City n k s)"
  using assms that comingD(2) [of L i M pn "ps_names st" j] by (auto simp: parts_def)

text \<open>A new block.\<close>

lemma parsing_new:
  assumes P: "parsing L M0 K i sb M pn st" and "mem_blocks M a = None" "mem_blocks M' = (mem_blocks M)(a \<mapsto> b)" "fresh_ok M'"
  shows "parsing L M0 K i (a # sb) M' pn st"
proof -
  obtain cvb pvb qs cbs sas where p: "holds M0 (sb @ all_parts L i pn cvb pvb qs cbs) M" "parts L i M pn st cvb pvb qs cbs sas"
    "length qs + length (ps_text st) \<le> K" "ps_allocs st = []"
    using P by (rule parsingE)
  have "steady (all_parts L i pn cvb pvb qs cbs) M M'"
    by (rule steady_extends [OF extends_new [OF assms(2,3)] p(1)])
  from parts_steady [OF p(2) this] holds_new [OF p(1) assms(2-4)] p(3,4) show ?thesis
    unfolding parsing_def append_Cons by blast
qed

text \<open>An assignment to a field of a city that is still to come.\<close>

lemma parsing_set_city:
  assumes P: "parsing L M0 K i sb M pn st" and j: "i \<le> j" "j < length (ly_cs L)"
    and f: "\<And>n k s. j \<in> fst ` set pn \<Longrightarrow> fst (f (n, k, s)) = n"
  shows "\<exists>M'. set_city (ly_cities L) j f M = Some M' \<and> parsing L M0 K i sb M' pn st \<and>
    (\<forall>a. a \<noteq> ly_cs L ! j \<longrightarrow> mem_blocks M' a = mem_blocks M a) \<and>
    (\<exists>n k s. mem_blocks M (ly_cs L ! j) = Some (B_City n k s) \<and>
      (case f (n, k, s) of (n', k', s') \<Rightarrow> M' = store (ly_cs L ! j) (B_City n' k' s') M))"
proof -
  obtain cvb pvb qs cbs sas where p: "holds M0 (sb @ all_parts L i pn cvb pvb qs cbs) M" "parts L i M pn st cvb pvb qs cbs sas"
    "length qs + length (ps_text st) \<le> K" "ps_allocs st = []"
    using P by (rule parsingE)
  let ?c = "ly_cs L ! j"
  obtain n k s where c: "mem_blocks M ?c = Some (B_City n k s)"
    using p(2) j by (rule parts_city)
  obtain n' k' s' where f': "f (n, k, s) = (n', k', s')"
    by (metis prod_cases3)
  let ?M = "store ?c (B_City n' k' s') M"
  have cells: "mem_blocks M (ly_cities L) = Some (B_Cells (map Some (ly_cs L)))"
    using p(2) by (simp add: parts_def fixed_ok_def)
  have mem: "?c \<in> set (drop i (ly_cs L))"
    using nth_mem [of "j - i" "drop i (ly_cs L)"] j by simp
  note d = holdsD(2) [OF p(1)]
  have H: "holds M0 (sb @ all_parts L i pn cvb pvb qs cbs) ?M"
    by (rule holds_store [OF p(1)]) (use mem in \<open>simp add: all_parts_def\<close>)
  have "parts L i ?M pn st cvb pvb qs cbs sas"
  proof (rule parts_frame [OF p(2)])
    show "keeps_goods M ?M"
      using c by (auto simp: keeps_goods_def)
    show "mem_blocks ?M a = mem_blocks M a" if "a \<in> set (cvb @ pvb @ concat cbs @ fixed L)" for a
      using that d mem by (auto simp: all_parts_def)
    fix l m x y
    assume l: "i \<le> l" "l < length (ly_cs L)" "mem_blocks M (ly_cs L ! l) = Some (B_City m x y)"
    have "n' = m" if "l \<in> fst ` set pn" "ly_cs L ! l = ?c"
    proof -
      have "distinct (drop i (ly_cs L))"
        using d by (simp add: all_parts_def)
      moreover have "drop i (ly_cs L) ! (j - i) = drop i (ly_cs L) ! (l - i)"
        using that(2) j l(1,2) by simp
      moreover have "j - i < length (drop i (ly_cs L))" "l - i < length (drop i (ly_cs L))"
        using j l by simp_all
      ultimately have "j - i = l - i"
        by (metis nth_eq_iff_index_eq)
      then have "l = j"
        using j(1) l(1) by linarith
      then show ?thesis
        using f [of n k s] that(1) f' c l(3) by simp
    qed
    then show "\<exists>n' k' s'. mem_blocks ?M (ly_cs L ! l) = Some (B_City n' k' s') \<and> (l \<in> fst ` set pn \<longrightarrow> n' = m)"
      using l(3) by auto
  qed
  then have "parsing L M0 K i sb ?M pn st"
    using H p(3,4) unfolding parsing_def by blast
  moreover have "set_city (ly_cities L) j f M = Some ?M"
    using cells c f' j by (simp add: set_city_def reading arr_get_def)
  ultimately show ?thesis
    using c f' by (intro exI [of _ ?M]) auto
qed

lemma parsing_cong:
  assumes "parsing L M0 K i sb M pn st" "ps_products st' = ps_products st" "ps_cities st' = ps_cities st" "ps_names st' = ps_names st"
    and "length (ps_text st') \<le> length (ps_text st)" "ps_allocs st' = []"
  shows "parsing L M0 K i sb M pn st'"
proof -
  obtain cvb pvb qs cbs sas where p: "holds M0 (sb @ all_parts L i pn cvb pvb qs cbs) M" "parts L i M pn st cvb pvb qs cbs sas"
    "length qs + length (ps_text st) \<le> K"
    using assms(1) by (rule parsingE)
  have "parts L i M pn st' cvb pvb qs cbs sas" "length qs + length (ps_text st') \<le> K"
    using p(2,3) assms(2-5) by (simp_all add: parts_def)
  with p(1) assms(6) show ?thesis
    unfolding parsing_def by blast
qed

text \<open>A held block becomes the name of a city.\<close>

lemma parsing_named:
  assumes P: "parsing L M0 K i (name # sb) M pn st" and j: "i \<le> j" "j < length (ly_cs L)" "j \<notin> fst ` set pn"
    and n: "name \<noteq> NULL" "mem_blocks M name = Some (B_Name w)" "mem_blocks M (ly_cs L ! j) = Some (B_City name k s)"
  shows "\<exists>names'. arr_set (ps_names st) j w = Some names' \<and> arr_get names' j = Some w \<and>
    (\<forall>l. l \<noteq> j \<longrightarrow> arr_get names' l = arr_get (ps_names st) l) \<and> parsing L M0 K i sb M (pn @ [(j, name)]) (st\<lparr>ps_names := names'\<rparr>)"
proof -
  obtain cvb pvb qs cbs sas where p: "holds M0 ((name # sb) @ all_parts L i pn cvb pvb qs cbs) M" "parts L i M pn st cvb pvb qs cbs sas"
    "length qs + length (ps_text st) \<le> K" "ps_allocs st = []"
    using P by (rule parsingE)
  have "coming L i M pn (ps_names st)"
    using p(2) by (simp add: parts_def)
  from coming_name [OF this j(1,2) n j(3)] obtain names' where names: "arr_set (ps_names st) j w = Some names'"
    "coming L i M (pn @ [(j, name)]) names'" "arr_get names' j = Some w" "\<forall>l. l \<noteq> j \<longrightarrow> arr_get names' l = arr_get (ps_names st) l"
    by blast
  have "parts L i M (pn @ [(j, name)]) (st\<lparr>ps_names := names'\<rparr>) cvb pvb qs cbs sas"
    using p(2) names(2) by (simp add: parts_def)
  moreover have "holds M0 (sb @ all_parts L i (pn @ [(j, name)]) cvb pvb qs cbs) M"
    by (rule holds_perm [OF p(1)]) (simp add: all_parts_def)
  ultimately have "parsing L M0 K i sb M (pn @ [(j, name)]) (st\<lparr>ps_names := names'\<rparr>)"
    using p(3,4) by (intro parsingI) simp_all
  with names show ?thesis
    by blast
qed

text \<open>\<open>cities[j]->name = malloc(...)\<close>, and the name put there.\<close>

lemma parsing_name:
  assumes P: "parsing L M0 K i sb M pn st" and j: "i \<le> j" "j < length (ly_cs L)" "j \<notin> fst ` set pn"
  shows "\<exists>name M1 M2 names'. malloc (B_Name []) [] M = (name, [], M1) \<and> name \<noteq> NULL \<and>
    set_city (ly_cities L) j (\<lambda>(_, k, s). (name, k, s)) M1 = Some M2 \<and>
    arr_set (ps_names st) j w = Some names' \<and> arr_get names' j = Some w \<and> (\<forall>l. l \<noteq> j \<longrightarrow> arr_get names' l = arr_get (ps_names st) l) \<and>
    parsing L M0 K i sb (store name (B_Name w) M2) (pn @ [(j, name)]) (st\<lparr>ps_names := names'\<rparr>) \<and>
    (\<forall>a. a \<noteq> ly_cs L ! j \<longrightarrow> mem_blocks M a \<noteq> None \<longrightarrow> mem_blocks (store name (B_Name w) M2) a = mem_blocks M a)"
proof -
  have "fresh_ok M"
    using P by (auto simp: parsing_def dest: holdsD(1))
  from malloc_ok [OF this, of "B_Name []"] obtain name M1 where m: "malloc (B_Name []) [] M = (name, [], M1)" "name \<noteq> NULL"
    "mem_blocks M name = None" "mem_blocks M1 = (mem_blocks M)(name \<mapsto> B_Name [])" "fresh_ok M1"
    by blast
  let ?f = "\<lambda>(_ :: addr, k :: int, s :: addr). (name, k, s)"
  let ?Mw = "store name (B_Name w) M1"
  have Mw: "mem_blocks ?Mw = (mem_blocks M)(name \<mapsto> B_Name w)" "fresh_ok ?Mw"
    using m(4,5) store_fresh [of M1 name] by simp_all
  have f: "fst (?f (n, k, s)) = n" if "j \<in> fst ` set pn" for n k s
    using that j(3) by simp
  from parsing_set_city [OF parsing_new [OF P m(3-5)] j(1,2), of ?f] f obtain M2 n k s where M2:
    "set_city (ly_cities L) j ?f M1 = Some M2" "mem_blocks M1 (ly_cs L ! j) = Some (B_City n k s)"
    "M2 = store (ly_cs L ! j) (B_City name k s) M1"
    by (auto split: prod.splits)
  have P2: "parsing L M0 K i (name # sb) ?Mw pn st"
    by (rule parsing_new [OF P m(3) Mw])
  from parsing_set_city [OF P2 j(1,2), of ?f] f obtain M3 n' k' s' where M3:
    "parsing L M0 K i (name # sb) M3 pn st" "mem_blocks ?Mw (ly_cs L ! j) = Some (B_City n' k' s')"
    "M3 = store (ly_cs L ! j) (B_City name k' s') ?Mw"
    by (auto split: prod.splits)
  have ne: "ly_cs L ! j \<noteq> name"
    using M2(2) m(4) by auto
  then have "M3 = store name (B_Name w) M2"
    using M2(2,3) M3(2,3) by (auto simp: store_def fun_upd_twist)
  moreover have "mem_blocks M3 name = Some (B_Name w)" "mem_blocks M3 (ly_cs L ! j) = Some (B_City name k' s')"
    using ne by (simp_all add: M3(3))
  note named = parsing_named [OF M3(1) j m(2) this]
  moreover have "mem_blocks M3 a = mem_blocks M a" if "a \<noteq> ly_cs L ! j" "mem_blocks M a \<noteq> None" for a
    using that m(3) Mw(1) by (auto simp: M3(3))
  ultimately show ?thesis
    using m(1,2) M2(1) by blast
qed

section \<open>The steps of one city\<close>

definition same_text :: "parse_state_m \<Rightarrow> parse_state \<Rightarrow> bool" where
  "same_text sm st \<longleftrightarrow> pm_text sm = ps_text st \<and> pm_first sm = ps_first st \<and> pm_buffer sm = ps_buffer st \<and> pm_aux sm = ps_aux st \<and>
     pm_allocs sm = []"

lemma read_name_held:
  assumes P: "parsing L M0 K i [] (pm_mem sm) pn st" and S: "same_text sm st" and i: "i < length (ly_cs L)"
    and pn: "fst ` set pn \<subseteq> {i}" "ps_first st \<longrightarrow> pn = []" and R: "read_name i st = Some r"
  shows "\<exists>st1. r = Next st1 \<and> ps_allocs st1 = [] \<and> (arr_get (ps_names st1) i \<noteq> None \<longrightarrow>
    (\<exists>sm1 name. read_name_m (ly_cities L) i sm = Some (Next sm1) \<and> same_text sm1 st1 \<and> parsing L M0 K i [] (pm_mem sm1) [(i, name)] st1))"
proof (cases "ps_first st")
  case False
  have al: "ps_allocs st = []"
    using P by (simp add: parsing_def)
  have "\<exists>name. pn = [(i, name)]" if known: "arr_get (ps_names st) i \<noteq> None"
  proof -
    obtain cvb pvb qs cbs sas where p: "holds M0 ([] @ all_parts L i pn cvb pvb qs cbs) (pm_mem sm)" "parts L i (pm_mem sm) pn st cvb pvb qs cbs sas"
      using P by (rule parsingE)
    have c: "coming L i (pm_mem sm) pn (ps_names st)"
      using p(2) by (simp add: parts_def)
    obtain name where name: "(i, name) \<in> set pn"
      using comingD(3) [OF c order_refl known] by force
    have "x = (i, name)" if xp: "x \<in> set pn" for x
    proof -
      have "fst x = i"
        using subsetD [OF pn(1) imageI [OF xp]] by simp
      then obtain n where x: "x = (i, n)"
        by (cases x) simp
      with comingD(4) [OF c xp [unfolded x]] comingD(4) [OF c name] show ?thesis
        by auto
    qed
    moreover have "distinct pn"
      using holdsD(2) [OF p(1)] by (simp add: all_parts_def distinct_map)
    ultimately show ?thesis
      using name by (metis distinct.simps(2) list.set_intros(1,2) neq_Nil_conv set_ConsD empty_iff list.set(1))
  qed
  then show ?thesis
    using False R S al P by (auto simp: read_name_def read_name_m_def same_text_def)
next
  case True
  then have none: "pn = []" and al: "ps_allocs st = []"
    using pn(2) P by (simp_all add: parsing_def)
  obtain k vals t where f: "fscanf (fmt_name CITY_NAME_MAX_LENGTH) (ps_text st) = Some (k, vals, t)"
    using True R al by (cases "fscanf (fmt_name CITY_NAME_MAX_LENGTH) (ps_text st)") (auto simp: read_name_def)
  have short: "length t \<le> length (ps_text st)"
    using f unfolding fscanf_def by (rule fscanf_from_le)
  show ?thesis
  proof (cases "stored_word vals None")
    case None
    then have "r = Next (st\<lparr>ps_allocs := [], ps_text := t\<rparr>)"
      using True R al f by (simp add: read_name_def)
    moreover have "arr_get (ps_names st) i = None"
    proof -
      obtain cvb pvb qs cbs sas where "parts L i (pm_mem sm) pn st cvb pvb qs cbs sas"
        using P by (rule parsingE)
      then show ?thesis
        using comingD(3) [of L i "pm_mem sm" pn "ps_names st" i] none by (cases "arr_get (ps_names st) i") (auto simp: parts_def)
    qed
    ultimately show ?thesis
      by simp
  next
    case (Some w)
    from parsing_name [OF P order_refl i, of w] none obtain name M1 M2 names' where m: "malloc (B_Name []) [] (pm_mem sm) = (name, [], M1)"
      "name \<noteq> NULL" "set_city (ly_cities L) i (\<lambda>(_, k, s). (name, k, s)) M1 = Some M2" "arr_set (ps_names st) i w = Some names'"
      "parsing L M0 K i [] (store name (B_Name w) M2) [(i, name)] (st\<lparr>ps_names := names'\<rparr>)"
      by auto
    let ?st = "st\<lparr>ps_allocs := [], ps_text := t, ps_names := names'\<rparr>"
    let ?sm = "sm\<lparr>pm_allocs := [], pm_text := t, pm_mem := store name (B_Name w) M2\<rparr>"
    have "r = Next ?st"
      using True R al f Some m(4) by (simp add: read_name_def)
    moreover have "read_name_m (ly_cities L) i sm = Some (Next ?sm)"
      using True S f Some m(1-3) by (simp add: read_name_m_def same_text_def)
    moreover have "parsing L M0 K i [] (pm_mem ?sm) [(i, name)] ?st"
    proof -
      have "parsing L M0 K i [] (store name (B_Name w) M2) [(i, name)] ?st"
        by (rule parsing_cong [OF m(5)]) (use short in simp_all)
      then show ?thesis
        by simp
    qed
    moreover have "same_text ?sm ?st"
      using S by (simp add: same_text_def)
    ultimately show ?thesis
      by auto
  qed
qed

text \<open>The name of the next city, kept while the present one is not finished.\<close>

lemma keep_name_held:
  assumes P: "parsing L M0 K i sb (pm_mem sm) [(i, name)] st" and S: "same_text sm st" and i: "i < length (ly_cs L)"
    and R: "keep_name (length (ly_cs L)) i st = Some r"
  shows "\<exists>st1 sm1 pn. r = Next st1 \<and> keep_name_m (ly_cities L) (length (ly_cs L)) i sm = Some (Next sm1) \<and> same_text sm1 st1 \<and>
    parsing L M0 K i sb (pm_mem sm1) ((i, name) # pn) st1 \<and> fst ` set pn \<subseteq> {Suc i} \<and> \<not> ps_first st1 \<and>
    keeps_goods (pm_mem sm) (pm_mem sm1) \<and> (\<forall>a\<in>set (ly_cs L ! i # sb). mem_blocks (pm_mem sm1) a = mem_blocks (pm_mem sm) a)"
proof (cases "i + 1 = length (ly_cs L)")
  case True
  let ?st = "st\<lparr>ps_first := False\<rparr>"
  have "parsing L M0 K i sb (pm_mem sm) [(i, name)] ?st"
    using P by (rule parsing_cong) (use P in \<open>simp_all add: parsing_def\<close>)
  moreover have "r = Next ?st" "keep_name_m (ly_cities L) (length (ly_cs L)) i sm = Some (Next (sm\<lparr>pm_first := False\<rparr>))"
    using R True by (simp_all add: keep_name_def keep_name_m_def)
  moreover have "same_text (sm\<lparr>pm_first := False\<rparr>) ?st"
    using S by (simp add: same_text_def)
  moreover have "keeps_goods (pm_mem sm) (pm_mem sm)"
    by (simp add: keeps_goods_def)
  ultimately show ?thesis
    by (intro exI [of _ ?st] exI [of _ "sm\<lparr>pm_first := False\<rparr>"] exI [of _ "[]"]) simp
next
  case False
  then have j: "i \<le> Suc i" "Suc i < length (ly_cs L)" "Suc i \<notin> fst ` set [(i, name)]"
    using i by auto
  have al: "ps_allocs st = []"
    using P by (simp add: parsing_def)
  obtain w where w: "ps_buffer st = Some w"
    using R False al by (cases "ps_buffer st") (auto simp: keep_name_def)
  from parsing_name [OF P j, of w] obtain nm M1 M2 names' where m: "malloc (B_Name []) [] (pm_mem sm) = (nm, [], M1)" "nm \<noteq> NULL"
    "set_city (ly_cities L) (Suc i) (\<lambda>(_, k, s). (nm, k, s)) M1 = Some M2" "arr_set (ps_names st) (Suc i) w = Some names'"
    "parsing L M0 K i sb (store nm (B_Name w) M2) ([(i, name)] @ [(Suc i, nm)]) (st\<lparr>ps_names := names'\<rparr>)"
    "\<forall>a. a \<noteq> ly_cs L ! Suc i \<longrightarrow> mem_blocks (pm_mem sm) a \<noteq> None \<longrightarrow> mem_blocks (store nm (B_Name w) M2) a = mem_blocks (pm_mem sm) a"
    by blast
  let ?st = "st\<lparr>ps_first := False, ps_allocs := [], ps_names := names', ps_buffer := Some []\<rparr>"
  let ?sm = "sm\<lparr>pm_first := False, pm_allocs := [], pm_buffer := Some [], pm_mem := store nm (B_Name w) M2\<rparr>"
  obtain cvb pvb qs cbs sas where p: "holds M0 (sb @ all_parts L i [(i, name)] cvb pvb qs cbs) (pm_mem sm)"
    "parts L i (pm_mem sm) [(i, name)] st cvb pvb qs cbs sas"
    using P by (rule parsingE)
  note d = holdsD(2) [OF p(1)]
  obtain n k s where c: "mem_blocks (pm_mem sm) (ly_cs L ! Suc i) = Some (B_City n k s)"
    using p(2) j(1,2) by (rule parts_city)
  have "r = Next ?st"
    using R False al w m(4) by (simp add: keep_name_def)
  moreover have "keep_name_m (ly_cities L) (length (ly_cs L)) i sm = Some (Next ?sm)"
    using False S w m(1-3) by (simp add: keep_name_m_def same_text_def)
  moreover have "same_text ?sm ?st"
    using S by (simp add: same_text_def)
  moreover have "parsing L M0 K i sb (pm_mem ?sm) ((i, name) # [(Suc i, nm)]) ?st"
    using parsing_cong [OF m(5), of ?st] by simp
  moreover have "keeps_goods (pm_mem sm) (pm_mem ?sm)"
  proof -
    have "mem_blocks (pm_mem ?sm) a = Some b" if "mem_blocks (pm_mem sm) a = Some b" "\<And>n k s. b \<noteq> B_City n k s" for a b
      using that c m(6) [rule_format, of a] by (cases "a = ly_cs L ! Suc i") auto
    then show ?thesis
      by (simp add: keeps_goods_def)
  qed
  moreover have "mem_blocks (pm_mem ?sm) a = mem_blocks (pm_mem sm) a" if a: "a \<in> set (ly_cs L ! i # sb)" for a
  proof -
    have drop: "drop i (ly_cs L) = ly_cs L ! i # ly_cs L ! Suc i # drop (Suc (Suc i)) (ly_cs L)"
      using i j(2) by (simp add: Cons_nth_drop_Suc)
    have "a \<noteq> ly_cs L ! Suc i"
      using a d by (auto simp: all_parts_def drop)
    moreover have "mem_blocks (pm_mem sm) a \<noteq> None"
      by (rule holdsD(3) [OF p(1)]) (use a in \<open>auto simp: all_parts_def drop\<close>)
    ultimately show ?thesis
      using m(6) by simp
  qed
  ultimately show ?thesis
    by (intro exI [of _ ?st] exI [of _ ?sm] exI [of _ "[(Suc i, nm)]"]) simp
qed

text \<open>The city is finished and goes into the vector.\<close>

lemma add_city_held:
  assumes P: "parsing L M0 K i (vb @ sa) (pm_mem sm) ((i, n) # pn) st" and S: "same_text sm st" and i: "i < length (ly_cs L)"
    and pn: "fst ` set pn \<subseteq> {Suc i}" and c: "mem_blocks (pm_mem sm) (ly_cs L ! i) = Some (B_City n (int i) s)"
    and stocks: "stocks_held (pm_mem sm) vec vb sa xs" and R: "add_city i xs st = Some r"
  shows "\<exists>st1 sm1. r = Next st1 \<and> add_city_m (ly_ans L) (ly_cities L) i vec sm = Some (Next sm1) \<and> same_text sm1 st1 \<and>
    parsing L M0 K (Suc i) [] (pm_mem sm1) pn st1 \<and> ps_first st1 = ps_first st"
proof -
  let ?c = "ly_cs L ! i"
  let ?f = "\<lambda>(n :: addr, k :: int, _ :: addr). (n, k, vec)"
  from parsing_set_city [OF P order_refl i, of ?f] c obtain M1 where M1: "set_city (ly_cities L) i ?f (pm_mem sm) = Some M1"
    "parsing L M0 K i (vb @ sa) M1 ((i, n) # pn) st" "M1 = store ?c (B_City n (int i) vec) (pm_mem sm)"
    by auto
  obtain cvb pvb qs cbs sas where p: "holds M0 ((vb @ sa) @ all_parts L i ((i, n) # pn) cvb pvb qs cbs) M1"
    "parts L i M1 ((i, n) # pn) st cvb pvb qs cbs sas" "length qs + length (ps_text st) \<le> K" "ps_allocs st = []"
    using M1(2) by (rule parsingE)
  have q: "fixed_ok L M1" "built M1 (ly_cv L) (take i (ly_cs L)) cvb" "catalogue_at M1 (ly_pv L) pvb qs (ps_products st)"
    "cities_done L i M1 sas cbs (ps_cities st)" "coming L i M1 ((i, n) # pn) (ps_names st)"
    using p(2) by (simp_all add: parts_def)
  note d = holdsD(2) [OF p(1)]
  have drop: "drop i (ly_cs L) = ?c # drop (Suc i) (ly_cs L)"
    using i by (simp add: Cons_nth_drop_Suc)
  let ?rest = "vb @ sa @ pvb @ q_blocks qs @ concat cbs @ (n # map snd pn) @ (?c # drop (Suc i) (ly_cs L)) @ fixed L"
  have H: "holds M0 (cvb @ ?rest) M1"
    by (rule holds_perm [OF p(1)]) (simp add: all_parts_def drop)
  from add_held [OF q(2) H, of ?c] obtain M2 cvb' where a: "addToVector_m [] (ly_cv L) ?c M1 = Some (int (length (take i (ly_cs L))), [], M2)"
    "built M2 (ly_cv L) (take i (ly_cs L) @ [?c]) cvb'" "holds M0 (cvb' @ ?rest) M2" "steady ?rest M1 M2"
    by blast
  note G = steady_goods [OF a(4)]
  obtain w where w: "arr_get (ps_names st) i = Some w" "mem_blocks M1 n = Some (B_Name w)" "n \<noteq> NULL"
    using comingD(4) [OF q(5), of i n] by auto
  have vb: "?c \<notin> set vb"
    using d by (auto simp: all_parts_def drop)
  have "stocks_held M1 vec vb sa xs"
    by (rule stocks_keeps [OF stocks]) (use c vb M1(3) in \<open>auto simp: keeps_goods_def\<close>)
  then have stocks2: "stocks_held M2 vec vb sa xs"
    by (rule stocks_keeps [OF _ G]) (rule steadyD [OF a(4)], simp)
  let ?y = "\<lparr>city_name = w, city_id = int i, city_stock = xs\<rparr>"
  let ?cities = "vec_of (vlist (ps_cities st) @ [?y])"
  have D: "ps_cities st = vec_of (vlist (ps_cities st))" "length (vlist (ps_cities st)) = i" "length sas = i" "length cbs = i"
    using q(4) by (simp_all add: cities_done_def)
  have done2: "cities_done L i M2 sas cbs (ps_cities st)"
    by (rule cities_done_frame [OF q(4) G]) (rule steadyD [OF a(4)], simp)
  have new: "city_done M2 sa ?c (vb @ sa @ [n, ?c]) ?y"
    using stocks2 w(2,3) steadyD [OF a(4), of n] steadyD [OF a(4), of ?c] M1(3) unfolding city_done_def by auto
  have "cities_done L (Suc i) M2 (sas @ [sa]) (cbs @ [vb @ sa @ [n, ?c]]) ?cities"
    unfolding cities_done_def
  proof (intro conjI allI impI)
    show "city_done M2 ((sas @ [sa]) ! j) (ly_cs L ! j) ((cbs @ [vb @ sa @ [n, ?c]]) ! j) (vlist ?cities ! j)" if "j < Suc i" for j
      using that done2 new D(2-4) by (cases "j = i") (simp_all add: cities_done_def nth_append)
  qed (use i D in simp_all)
  moreover have "fixed_ok L M2"
    by (rule fixed_frame [OF q(1)]) (rule steadyD [OF a(4)], simp)
  moreover have "built M2 (ly_cv L) (take (Suc i) (ly_cs L)) cvb'"
    using a(2) i by (simp add: take_Suc_conv_app_nth)
  moreover have "catalogue_at M2 (ly_pv L) pvb qs (ps_products st)"
    by (rule catalogue_keeps [OF q(3) G]) (rule steadyD [OF a(4)], simp)
  moreover have "coming L (Suc i) M2 pn (ps_names st)"
  proof -
    have C: "coming L i M2 ((i, n) # pn) (ps_names st)"
    proof (rule coming_frame [OF q(5) G])
      fix j m k s
      assume "mem_blocks M1 (ly_cs L ! j) = Some (B_City m k s)"
      then have "mem_blocks M2 (ly_cs L ! j) = Some (B_City m k s)"
        using keeps_dataD [OF steady_data [OF a(4)]] by blast
      then show "\<exists>n' k' s'. mem_blocks M2 (ly_cs L ! j) = Some (B_City n' k' s') \<and> (j \<in> fst ` set ((i, n) # pn) \<longrightarrow> n' = m)"
        by simp
    qed
    show ?thesis
      unfolding coming_def
    proof (intro conjI allI impI ballI)
      show "length (ps_names st) = length (ly_cs L)"
        by (rule comingD(1) [OF C])
      show "\<exists>n k s. mem_blocks M2 (ly_cs L ! j) = Some (B_City n k s)" if "Suc i \<le> j" "j < length (ly_cs L)" for j
        using comingD(2) [OF C _ that(2)] that(1) by simp
      show "j \<in> fst ` set pn" if "Suc i \<le> j" "arr_get (ps_names st) j \<noteq> None" for j
        using comingD(3) [OF C _ that(2)] that(1) by auto
      show "case x of (j, n) \<Rightarrow> Suc i \<le> j \<and> j < length (ly_cs L) \<and> n \<noteq> NULL \<and>
        (\<exists>w k s. arr_get (ps_names st) j = Some w \<and> mem_blocks M2 n = Some (B_Name w) \<and> mem_blocks M2 (ly_cs L ! j) = Some (B_City n k s))"
        if x: "x \<in> set pn" for x
      proof -
        obtain j m where jm: "x = (j, m)"
          by (cases x)
        have "j = Suc i"
          using subsetD [OF pn imageI [OF x]] jm by simp
        then show ?thesis
          using comingD(4) [OF C, of j m] x jm by simp
      qed
    qed
  qed
  ultimately have "parts L (Suc i) M2 pn (st\<lparr>ps_cities := ?cities, ps_allocs := []\<rparr>) cvb' pvb qs (cbs @ [vb @ sa @ [n, ?c]]) (sas @ [sa])"
    by (simp add: parts_def)
  moreover have "holds M0 ([] @ all_parts L (Suc i) pn cvb' pvb qs (cbs @ [vb @ sa @ [n, ?c]])) M2"
    by (rule holds_perm [OF a(3)]) (simp add: all_parts_def)
  ultimately have "parsing L M0 K (Suc i) [] M2 pn (st\<lparr>ps_cities := ?cities, ps_allocs := []\<rparr>)"
    using p(3) by (intro parsingI) simp_all
  moreover have "r = Next (st\<lparr>ps_cities := ?cities, ps_allocs := []\<rparr>)"
    using R w(1) p(4) addToVector_vec_of [of "[]" "vlist (ps_cities st)" ?y] D(1) by (simp add: add_city_def split: if_splits)
  moreover have "add_city_m (ly_ans L) (ly_cities L) i vec sm = Some (Next (sm\<lparr>pm_allocs := [], pm_mem := M2\<rparr>))"
    using M1(1) a(1) q(1) S i by (simp add: add_city_m_def fixed_ok_def reading arr_get_def same_text_def)
  moreover have "same_text (sm\<lparr>pm_allocs := [], pm_mem := M2\<rparr>) (st\<lparr>ps_cities := ?cities, ps_allocs := []\<rparr>)"
    using S by (simp add: same_text_def)
  ultimately show ?thesis
    by auto
qed

text \<open>Without failing allocations reading stocks does not return NULL.\<close>

lemma read_stocks_goes_on: "read_stocks al t ps xs b a = Some r \<Longrightarrow> al = [] \<Longrightarrow> \<exists>r'. r = Next r' \<and> sr_allocs r' = []"
proof (induction al t ps xs b a rule: read_stocks.induct)
  case (1 al t ps xs b a)
  obtain state vals t' where f: "fscanf (fmt_pair CITY_NAME_MAX_LENGTH) t = Some (state, vals, t')"
    using 1(2) by (cases "fscanf (fmt_pair CITY_NAME_MAX_LENGTH) t") (auto simp: read_stocks.simps)
  show ?case
  proof (cases "state = 2")
    case True
    obtain name amount where na: "stored_word vals b = Some name" "stored_int vals a = Some amount"
      using 1(2) f True by (auto simp: read_stocks.simps [of _ t] Let_def split: option.splits)
    obtain s ps' al1 where s: "initStock al name amount ps = Some (s, ps', al1)"
      using 1(2) f True na by (cases "initStock al name amount ps") (auto simp: read_stocks.simps [of _ t])
    have s1: "\<exists>sv. s = Some sv" "al1 = []"
      using s 1(3)
      by (auto simp: initStock_def getProduct_def getFromVector_def addToVector_def Let_def split: if_splits Option.bind_splits)
    then obtain sv where sv: "s = Some sv"
      by blast
    obtain k xs' al2 where x: "addToVector al1 xs sv = Some (k, xs', al2)"
      using 1(2) f True na s sv by (cases "addToVector al1 xs sv") (auto simp: read_stocks.simps [of _ t])
    have "al2 = []"
      using x s1(2) by (auto simp: addToVector_def Let_def split: if_splits Option.bind_splits)
    moreover have "read_stocks al2 t' ps' xs' (stored_word vals b) (stored_int vals a) = Some r"
      using 1(2) f True na s sv x by (simp add: read_stocks.simps [of _ t])
    ultimately show ?thesis
      using 1(1) [OF f refl refl refl refl True refl na s refl sv refl x refl refl] by blast
  next
    case False
    then show ?thesis
      using 1(2,3) f by (auto simp: read_stocks.simps [of _ t])
  qed
qed

lemma parse_city_unnamed:
  assumes "read_name i st = Some (Next st1)" "ps_allocs st1 = []" "arr_get (ps_names st1) i = None"
  shows "parse_city counter i st = None"
proof (cases "read_stocks [] (ps_text st1) (ps_products st1) (vec_of []) (ps_buffer st1) (ps_aux st1)")
  case (Some r)
  then obtain r' where r: "r = Next r'" "sr_allocs r' = []"
    using read_stocks_goes_on by blast
  let ?st2 = "st1\<lparr>ps_text := sr_text r', ps_allocs := sr_allocs r', ps_buffer := sr_buffer r', ps_aux := sr_aux r', ps_products := sr_products r'\<rparr>"
  have "keep_name counter i ?st2 = None \<or> (\<exists>st3. keep_name counter i ?st2 = Some (Next st3) \<and> arr_get (ps_names st3) i = None)"
    using assms(3) r(2) by (auto simp: keep_name_def arr_set_def arr_get_def split: Option.bind_splits)
  moreover have "add_city i xs st3 = None" if "arr_get (ps_names st3) i = None" for xs st3
    using that by (simp add: add_city_def)
  ultimately show ?thesis
    using assms Some r(1) by (auto simp: parse_city_def and_next_def Let_def)
qed (use assms in \<open>simp add: parse_city_def and_next_def\<close>)

section \<open>One city, and all of them\<close>

text \<open>Reading the stocks of city \<open>i\<close> into the vector at \<open>vec\<close>.\<close>

lemma city_stocks_held:
  assumes P: "parsing L M0 K i [vec] M pn st" and v: "mem_blocks M vec = Some (B_Vector NULL 0 False)" "vec \<noteq> NULL" and K: "K < 2147483648"
    and R: "read_stocks [] (ps_text st) (ps_products st) (vec_of []) (ps_buffer st) (ps_aux st) = Some (Next r')"
  shows "\<exists>r vb sa. read_stocks_m [] (ps_text st) (ly_pv L) vec (ps_buffer st) (ps_aux st) M = Some (Next r) \<and>
    rm_state r = sr_state r' \<and> rm_buffer r = sr_buffer r' \<and> rm_aux r = sr_aux r' \<and> rm_text r = sr_text r' \<and> rm_allocs r = [] \<and> sr_allocs r' = [] \<and>
    stocks_held (rm_mem r) vec vb sa (sr_vec r') \<and>
    parsing L M0 K i (vb @ sa) (rm_mem r) pn
      (st\<lparr>ps_text := sr_text r', ps_allocs := [], ps_buffer := sr_buffer r', ps_aux := sr_aux r', ps_products := sr_products r'\<rparr>) \<and>
    keeps_data M (rm_mem r)"
proof -
  obtain cvb pvb qs cbs sas where p: "holds M0 ([vec] @ all_parts L i pn cvb pvb qs cbs) M" "parts L i M pn st cvb pvb qs cbs sas"
    "length qs + length (ps_text st) \<le> K" "ps_allocs st = []"
    using P by (rule parsingE)
  have q: "fixed_ok L M" "built M (ly_cv L) (take i (ly_cs L)) cvb" "catalogue_at M (ly_pv L) pvb qs (ps_products st)"
    "cities_done L i M sas cbs (ps_cities st)" "coming L i M pn (ps_names st)"
    using p(2) by (simp_all add: parts_def)
  let ?rest = "cvb @ concat cbs @ map snd pn @ drop i (ly_cs L) @ fixed L"
  have H: "holds M0 ([vec] @ [] @ pvb @ q_blocks qs @ ?rest) M"
    by (rule holds_perm [OF p(1)]) (simp add: all_parts_def)
  have V: "stocks_held M vec [vec] [] (vec_of [])"
    using v by (simp add: stocks_held_def built_def)
  have "length ([] :: addr list) + length (ps_text st) \<le> K"
    using p(3) by simp
  from implementsD [OF read_stocks_held [OF H q(3) V p(3) this K] R]
  obtain r where r: "read_stocks_m [] (ps_text st) (ly_pv L) vec (ps_buffer st) (ps_aux st) M = Some (Next r)"
    "stocks_result M0 ?rest (ly_pv L) vec M K r r'"
    by (metis (no_types, lifting) flow.rel_distinct(1) flow.rel_inject(2) flow.exhaust)
  obtain vb sa pvb' qs' where s: "holds M0 (vb @ sa @ pvb' @ q_blocks qs' @ ?rest) (rm_mem r)"
    "catalogue_at (rm_mem r) (ly_pv L) pvb' qs' (sr_products r')" "stocks_held (rm_mem r) vec vb sa (sr_vec r')"
    "length qs' + length (rm_text r) \<le> K"
    using r(2) unfolding stocks_result_def by blast
  have e: "rm_state r = sr_state r'" "rm_buffer r = sr_buffer r'" "rm_aux r = sr_aux r'" "rm_text r = sr_text r'" "rm_allocs r = []"
    "sr_allocs r' = []" "steady ?rest M (rm_mem r)"
    using r(2) unfolding stocks_result_def by simp_all
  note G = steady_goods [OF e(7)]
  let ?st = "st\<lparr>ps_text := sr_text r', ps_allocs := [], ps_buffer := sr_buffer r', ps_aux := sr_aux r', ps_products := sr_products r'\<rparr>"
  have "fixed_ok L (rm_mem r)"
    by (rule fixed_frame [OF q(1)]) (rule steadyD [OF e(7)], simp)
  moreover have "built (rm_mem r) (ly_cv L) (take i (ly_cs L)) cvb"
    by (rule built_cong [OF q(2)]) (rule steadyD [OF e(7)], simp)
  moreover have "cities_done L i (rm_mem r) sas cbs (ps_cities st)"
    by (rule cities_done_frame [OF q(4) G]) (rule steadyD [OF e(7)], simp)
  moreover have "coming L i (rm_mem r) pn (ps_names st)"
  proof (rule coming_frame [OF q(5) G])
    fix j m k s
    assume "mem_blocks M (ly_cs L ! j) = Some (B_City m k s)"
    then have "mem_blocks (rm_mem r) (ly_cs L ! j) = Some (B_City m k s)"
      using keeps_dataD [OF steady_data [OF e(7)]] by blast
    then show "\<exists>n' k' s'. mem_blocks (rm_mem r) (ly_cs L ! j) = Some (B_City n' k' s') \<and> (j \<in> fst ` set pn \<longrightarrow> n' = m)"
      by simp
  qed
  ultimately have "parts L i (rm_mem r) pn ?st cvb pvb' qs' cbs sas"
    using s(2) by (simp add: parts_def)
  moreover have "holds M0 ((vb @ sa) @ all_parts L i pn cvb pvb' qs' cbs) (rm_mem r)"
    by (rule holds_perm [OF s(1)]) (simp add: all_parts_def)
  ultimately have "parsing L M0 K i (vb @ sa) (rm_mem r) pn ?st"
    using s(4) e(4) by (intro parsingI) simp_all
  with r(1) e(1-6) s(3) steady_data [OF e(7)] show ?thesis
    by blast
qed

definition ahead :: "nat \<Rightarrow> (nat \<times> addr) list \<Rightarrow> parse_state \<Rightarrow> bool" where
  "ahead i pn st \<longleftrightarrow> fst ` set pn \<subseteq> {i} \<and> (ps_first st \<longrightarrow> pn = [])"

lemma parse_city_held:
  assumes P: "parsing L M0 K i [] (pm_mem sm) pn st" and S: "same_text sm st" and i: "i < length (ly_cs L)" and pn: "ahead i pn st"
    and K: "K < 2147483648" and R: "parse_city (length (ly_cs L)) i st = Some r"
  shows "\<exists>st' sm' pn'. r = Next st' \<and> parse_city_m (ly_ans L) (ly_cities L) (length (ly_cs L)) i sm = Some (Next sm') \<and>
    same_text sm' st' \<and> parsing L M0 K (Suc i) [] (pm_mem sm') pn' st' \<and> ahead (Suc i) pn' st'"
proof -
  obtain r1 where r1: "read_name i st = Some r1"
    using R by (cases "read_name i st") (auto simp: parse_city_def and_next_def)
  from read_name_held [OF P S i _ _ r1] pn obtain st1 where st1: "r1 = Next st1" "ps_allocs st1 = []"
    "arr_get (ps_names st1) i \<noteq> None \<longrightarrow> (\<exists>sm1 name. read_name_m (ly_cities L) i sm = Some (Next sm1) \<and> same_text sm1 st1 \<and>
      parsing L M0 K i [] (pm_mem sm1) [(i, name)] st1)"
    by (auto simp: ahead_def)
  have "arr_get (ps_names st1) i \<noteq> None"
    using parse_city_unnamed [of i st st1 "length (ly_cs L)"] r1 st1(1,2) R by auto
  then obtain sm1 name where sm1: "read_name_m (ly_cities L) i sm = Some (Next sm1)" "same_text sm1 st1"
    "parsing L M0 K i [] (pm_mem sm1) [(i, name)] st1"
    using st1(3) by blast
  let ?f = "\<lambda>(name :: addr, _ :: int, s :: addr). (name, int i, s)"
  have named: "\<exists>k s. mem_blocks (pm_mem sm1) (ly_cs L ! i) = Some (B_City name k s)"
  proof -
    obtain cvb pvb qs cbs sas where "parts L i (pm_mem sm1) [(i, name)] st1 cvb pvb qs cbs sas"
      using sm1(3) by (rule parsingE)
    then show ?thesis
      using comingD(4) [of L i "pm_mem sm1" "[(i, name)]" "ps_names st1" i name] by (auto simp: parts_def)
  qed
  from parsing_set_city [OF sm1(3) order_refl i, of ?f] named obtain M1 s where M1: "set_city (ly_cities L) i ?f (pm_mem sm1) = Some M1"
    "parsing L M0 K i [] M1 [(i, name)] st1" "M1 = store (ly_cs L ! i) (B_City name (int i) s) (pm_mem sm1)"
    by auto
  have "fresh_ok M1"
    using M1(2) by (auto simp: parsing_def dest: holdsD(1))
  from malloc_ok [OF this, of "B_Vector NULL 0 False"] obtain vec M2 where v: "malloc (B_Vector NULL 0 False) [] M1 = (vec, [], M2)" "vec \<noteq> NULL"
    "mem_blocks M1 vec = None" "mem_blocks M2 = (mem_blocks M1)(vec \<mapsto> B_Vector NULL 0 False)" "fresh_ok M2"
    by blast
  have P2: "parsing L M0 K i [vec] M2 [(i, name)] st1"
    by (rule parsing_new [OF M1(2) v(3-5)])
  have at: "map_at (ly_ans L) M2 = Some (ly_cv L, ly_pv L, ly_matrix L)"
    using P2 by (auto simp: parsing_def parts_def fixed_ok_def reading)
  have c2: "mem_blocks M2 (ly_cs L ! i) = Some (B_City name (int i) s)"
    using M1(3) v(3,4) by auto
  let ?read = "read_stocks [] (ps_text st1) (ps_products st1) (vec_of []) (ps_buffer st1) (ps_aux st1)"
  obtain r' where r': "?read = Some (Next r')"
  proof (cases ?read)
    case None
    then show ?thesis
      using R r1 st1(1,2) by (simp add: parse_city_def and_next_def)
  next
    case (Some x)
    then show ?thesis
      using read_stocks_goes_on that by blast
  qed
  have "mem_blocks M2 vec = Some (B_Vector NULL 0 False)"
    using v(4) by simp
  from city_stocks_held [OF P2 this v(2) K r'] obtain rm vb sa where rm:
    "read_stocks_m [] (ps_text st1) (ly_pv L) vec (ps_buffer st1) (ps_aux st1) M2 = Some (Next rm)"
    "rm_state rm = sr_state r'" "rm_buffer rm = sr_buffer r'" "rm_aux rm = sr_aux r'" "rm_text rm = sr_text r'" "rm_allocs rm = []" "sr_allocs r' = []"
    "stocks_held (rm_mem rm) vec vb sa (sr_vec r')"
    "parsing L M0 K i (vb @ sa) (rm_mem rm) [(i, name)]
      (st1\<lparr>ps_text := sr_text r', ps_allocs := [], ps_buffer := sr_buffer r', ps_aux := sr_aux r', ps_products := sr_products r'\<rparr>)"
    "keeps_data M2 (rm_mem rm)"
    by blast
  let ?st2 = "st1\<lparr>ps_text := sr_text r', ps_allocs := [], ps_buffer := sr_buffer r', ps_aux := sr_aux r', ps_products := sr_products r'\<rparr>"
  let ?sm2 = "sm1\<lparr>pm_text := rm_text rm, pm_allocs := rm_allocs rm, pm_buffer := rm_buffer rm, pm_aux := rm_aux rm, pm_mem := rm_mem rm\<rparr>"
  have S2: "same_text ?sm2 ?st2"
    using sm1(2) rm(3-6) by (simp add: same_text_def)
  have c3: "mem_blocks (rm_mem rm) (ly_cs L ! i) = Some (B_City name (int i) s)"
    using keeps_dataD [OF rm(10) c2] by simp
  have body: "parse_city (length (ly_cs L)) i st =
      and_next (if sr_state r' = 1 then keep_name (length (ly_cs L)) i ?st2 else Some (Next ?st2)) (\<lambda>st3. add_city i (sr_vec r') st3)"
    using r1 st1(1,2) r' rm(7) by (simp add: parse_city_def and_next_def Let_def)
  have body_m: "parse_city_m (ly_ans L) (ly_cities L) (length (ly_cs L)) i sm =
      or_exit (if rm_state rm = 1 then keep_name_m (ly_cities L) (length (ly_cs L)) i ?sm2 else Some (Next ?sm2)) (\<lambda>st3.
        add_city_m (ly_ans L) (ly_cities L) i vec st3)"
    using sm1(1,2) M1(1) v(1,2) at rm(1) by (simp add: parse_city_m_def or_exit_def createVector_m_def same_text_def Let_def)
  have "\<exists>st3 sm3 pn'. (if sr_state r' = 1 then keep_name (length (ly_cs L)) i ?st2 else Some (Next ?st2)) = Some (Next st3) \<and>
      (if rm_state rm = 1 then keep_name_m (ly_cities L) (length (ly_cs L)) i ?sm2 else Some (Next ?sm2)) = Some (Next sm3) \<and> same_text sm3 st3 \<and>
      parsing L M0 K i (vb @ sa) (pm_mem sm3) ((i, name) # pn') st3 \<and> ahead (Suc i) pn' st3 \<and>
      keeps_goods (rm_mem rm) (pm_mem sm3) \<and> (\<forall>a\<in>set (ly_cs L ! i # vb @ sa). mem_blocks (pm_mem sm3) a = mem_blocks (rm_mem rm) a)"
  proof (cases "sr_state r' = 1")
    case True
    have P3: "parsing L M0 K i (vb @ sa) (pm_mem ?sm2) [(i, name)] ?st2"
      using rm(9) by simp
    obtain k where k: "keep_name (length (ly_cs L)) i ?st2 = Some k"
      using R body True by (cases "keep_name (length (ly_cs L)) i ?st2") (simp_all add: and_next_def)
    from keep_name_held [OF P3 S2 i k] k show ?thesis
      using True rm(2) by (auto simp: ahead_def)
  next
    case False
    have "keeps_goods (rm_mem rm) (rm_mem rm)"
      by (simp add: keeps_goods_def)
    then show ?thesis
      using False rm(2,9) S2
      by (intro exI [of _ ?st2] exI [of _ ?sm2] exI [of _ "[]"]) (simp add: ahead_def)
  qed
  then obtain st3 sm3 pn' where k: "(if sr_state r' = 1 then keep_name (length (ly_cs L)) i ?st2 else Some (Next ?st2)) = Some (Next st3)"
    "(if rm_state rm = 1 then keep_name_m (ly_cities L) (length (ly_cs L)) i ?sm2 else Some (Next ?sm2)) = Some (Next sm3)" "same_text sm3 st3"
    "parsing L M0 K i (vb @ sa) (pm_mem sm3) ((i, name) # pn') st3" "ahead (Suc i) pn' st3"
    "keeps_goods (rm_mem rm) (pm_mem sm3)" "\<forall>a\<in>set (ly_cs L ! i # vb @ sa). mem_blocks (pm_mem sm3) a = mem_blocks (rm_mem rm) a"
    by blast
  have V: "stocks_held (pm_mem sm3) vec vb sa (sr_vec r')"
    by (rule stocks_keeps [OF rm(8) k(6)]) (use k(7) in simp)
  have c4: "mem_blocks (pm_mem sm3) (ly_cs L ! i) = Some (B_City name (int i) s)"
    using c3 k(7) by simp
  have add: "add_city i (sr_vec r') st3 = Some r"
    using R unfolding body k(1) by (simp add: and_next_def)
  have "fst ` set pn' \<subseteq> {Suc i}"
    using k(5) by (simp add: ahead_def)
  from add_city_held [OF k(4,3) i this c4 V add] obtain st' sm' where "r = Next st'" "add_city_m (ly_ans L) (ly_cities L) i vec sm3 = Some (Next sm')"
    "same_text sm' st'" "parsing L M0 K (Suc i) [] (pm_mem sm') pn' st'" "ps_first st' = ps_first st3"
    by blast
  moreover have "parse_city_m (ly_ans L) (ly_cities L) (length (ly_cs L)) i sm = add_city_m (ly_ans L) (ly_cities L) i vec sm3"
    unfolding body_m k(2) by (simp add: or_exit_def)
  ultimately show ?thesis
    using k(5) by (auto simp: ahead_def)
qed

text \<open>The loop: as on values, and it holds the blocks of what it has read.\<close>

definition parsed :: "layout \<Rightarrow> memory \<Rightarrow> nat \<Rightarrow> nat \<Rightarrow> parse_state_m \<Rightarrow> parse_state \<Rightarrow> bool" where
  "parsed L M0 K i sm st \<longleftrightarrow> same_text sm st \<and> (\<exists>pn. parsing L M0 K i [] (pm_mem sm) pn st \<and> ahead i pn st)"

lemma parse_cities_held:
  assumes "parsed L M0 K 0 sm st" "K < 2147483648"
    and "parse_cities (length (ly_cs L)) st = Some r"
  shows "\<exists>st' sm'. r = Next st' \<and>
    for_loop (length (ly_cs L)) 0 (parse_city_m (ly_ans L) (ly_cities L) (length (ly_cs L))) sm = Some (Next sm') \<and>
    parsed L M0 K (length (ly_cs L)) sm' st'"
proof -
  let ?n = "length (ly_cs L)"
  let ?g = "\<lambda>i st. map_option (\<lambda>r. case r of Exit _ \<Rightarrow> Exit None | Next st' \<Rightarrow> Next st') (parse_city ?n i st) :: (sim_map option, parse_state) flow option"
  have "for_loop n i ?g st = Some r \<Longrightarrow> parsed L M0 K i sm st \<Longrightarrow> i + n = ?n \<Longrightarrow>
      \<exists>st' sm'. r = Next st' \<and> for_loop n i (parse_city_m (ly_ans L) (ly_cities L) ?n) sm = Some (Next sm') \<and> parsed L M0 K ?n sm' st'" for n i sm st
  proof (induction n arbitrary: i sm st)
    case 0
    then show ?case
      by auto
  next
    case (Suc n)
    obtain r1 where r1: "parse_city ?n i st = Some r1"
      using Suc.prems(1) by (cases "parse_city ?n i st") auto
    obtain pn where pn: "same_text sm st" "parsing L M0 K i [] (pm_mem sm) pn st" "ahead i pn st"
      using Suc.prems(2) by (auto simp: parsed_def)
    have i: "i < ?n"
      using Suc.prems(3) by simp
    from parse_city_held [OF pn(2,1) i pn(3) assms(2) r1] obtain st1 sm1 where one: "r1 = Next st1"
      "parse_city_m (ly_ans L) (ly_cities L) ?n i sm = Some (Next sm1)" "parsed L M0 K (Suc i) sm1 st1"
      by (auto simp: parsed_def)
    have "for_loop n (Suc i) ?g st1 = Some r"
      using Suc.prems(1) r1 one(1) by simp
    from Suc.IH [OF this one(3)] Suc.prems(3) one(2) show ?case
      by simp
  qed
  from this [of ?n 0 st sm] assms show ?thesis
    by (simp add: parse_cities_def)
qed

text \<open>The state before the loop.\<close>

lemma start_parsed:
  assumes "start_ok M0 [] s" "length (st_text s) \<le> K"
  shows "\<exists>L. st_ans s = ly_ans L \<and> st_cities s = ly_cities L \<and> st_counter s = length (ly_cs L) \<and>
    parsed L M0 K 0
      \<lparr>pm_text = st_text s, pm_allocs = st_allocs s, pm_first = True, pm_buffer = None, pm_aux = None, pm_mem = st_mem s\<rparr>
      \<lparr>ps_text = st_text s, ps_allocs = st_allocs s, ps_first = True, ps_names = arr_new (st_counter s), ps_buffer = None, ps_aux = None,
        ps_cities = vec_of [], ps_products = vec_of []\<rparr>"
proof -
  obtain cv product matrix rs cs where s: "st_allocs s = []" "length rs = st_counter s" "length cs = st_counter s"
    "holds M0 (product # rs @ matrix # cs @ [st_cities s, cv, st_ans s]) (st_mem s)"
    "array_ok (st_mem s) (st_ans s) cv (st_cities s) (st_counter s) cs"
    "matrix \<noteq> NULL" "mem_blocks (st_mem s) matrix = Some (B_Matrix (map Some rs))"
    "\<forall>r\<in>set rs. r \<noteq> NULL \<and> mem_blocks (st_mem s) r = Some (B_Row (replicate (st_counter s) 0))"
    "product \<noteq> NULL" "mem_blocks (st_mem s) product = Some (B_Vector NULL 0 False)"
    "mem_blocks (st_mem s) (st_ans s) = Some (B_Map cv product matrix)"
    using assms(1) unfolding start_ok_def by blast
  let ?L = "\<lparr>ly_ans = st_ans s, ly_cv = cv, ly_pv = product, ly_matrix = matrix, ly_rows = rs, ly_cities = st_cities s, ly_cs = cs\<rparr>"
  let ?st = "\<lparr>ps_text = st_text s, ps_allocs = st_allocs s, ps_first = True, ps_names = arr_new (st_counter s), ps_buffer = None, ps_aux = None,
        ps_cities = vec_of [], ps_products = vec_of []\<rparr>"
  have a: "st_ans s \<noteq> NULL" "cv \<noteq> NULL" "mem_blocks (st_mem s) cv = Some (B_Vector NULL 0 False)" "st_cities s \<noteq> NULL"
    "mem_blocks (st_mem s) (st_cities s) = Some (B_Cells (map Some cs))" "\<forall>c\<in>set cs. c \<noteq> NULL \<and> mem_blocks (st_mem s) c = Some (B_City NULL 0 NULL)"
    using s(3,5) by (auto simp: array_ok_def started_def arr_of_def)
  have "fixed_ok ?L (st_mem s)"
    using s a by (simp add: fixed_ok_def)
  moreover have "built (st_mem s) cv [] [cv]" "built (st_mem s) product [] [product]"
    using a(2,3) s(9,10) by (simp_all add: built_def)
  moreover have "coming ?L 0 (st_mem s) [] (arr_new (st_counter s))"
    using a(6) s(3) by (auto simp: coming_def arr_new_def arr_get_def)
  ultimately have "parts ?L 0 (st_mem s) [] ?st [cv] [product] [] [] []"
    by (simp add: parts_def catalogue_at_def cities_done_def products_wf_def)
  moreover have "holds M0 ([] @ all_parts ?L 0 [] [cv] [product] [] []) (st_mem s)"
    by (rule holds_perm [OF s(4)]) (simp add: all_parts_def fixed_def q_blocks_def)
  ultimately have "parsing ?L M0 K 0 [] (st_mem s) [] ?st"
    unfolding parsing_def using assms(2) s(1) by fastforce
  then show ?thesis
    using s(1,3) by (intro exI [of _ ?L]) (auto simp: parsed_def same_text_def ahead_def)
qed

end
