(* ===== verification/Memory_Roads.thy ===== *)
theory Memory_Roads
  imports Memory_Cities
begin

text \<open>
  The second half of \<open>parseMap\<close> on memory: the connections and \<open>floydMatrix\<close> write only into the rows of the
  matrix and leave there what Parser and Floyd compute; after \<open>free(cities)\<close> the memory holds the map and
  nothing else.
\<close>

section \<open>The matrix\<close>

text \<open>
  \<open>M\<close> is \<open>M1\<close> with the matrix \<open>m\<close> in the rows at \<open>rs\<close>.
\<close>

definition table :: "memory \<Rightarrow> addr list \<Rightarrow> memory \<Rightarrow> int list list \<Rightarrow> bool" where
  "table M1 rs M m \<longleftrightarrow> fresh_ok M \<and> distinct rs \<and> length m = length rs \<and>
     (\<forall>a. a \<notin> set rs \<longrightarrow> mem_blocks M a = mem_blocks M1 a) \<and> (\<forall>r\<in>set rs. \<exists>xs. mem_blocks M1 r = Some (B_Row xs)) \<and>
     (\<forall>i < length rs. mem_blocks M (rs ! i) = Some (B_Row (m ! i)))"

lemma tableD:
  assumes "table M1 rs M m"
  shows "fresh_ok M" "distinct rs" "length m = length rs" "a \<notin> set rs \<Longrightarrow> mem_blocks M a = mem_blocks M1 a"
    "i < length rs \<Longrightarrow> mem_blocks M (rs ! i) = Some (B_Row (m ! i))"
  using assms by (simp_all add: table_def)

text \<open>A block that is no row stays.\<close>

lemma table_other:
  assumes "table M1 rs M m" "mem_blocks M1 a = Some b" "\<And>xs. b \<noteq> B_Row xs"
  shows "mem_blocks M a = Some b"
proof -
  have "a \<notin> set rs"
    using assms unfolding table_def by force
  then show ?thesis
    using tableD(4) [OF assms(1)] assms(2) by simp
qed

lemma cell_at_table:
  assumes T: "table M1 rs M m" and X: "mem_blocks M1 matrix = Some (B_Matrix (map Some rs))"
  shows "cell_at matrix i j M = mat_get m i j"
proof -
  have "mem_blocks M matrix = Some (B_Matrix (map Some rs))"
    by (rule table_other [OF T X]) simp
  then show ?thesis
    using tableD(3,5) [OF T] by (auto simp: cell_at_def mat_get_def reading row_at_def arr_get_def)
qed

lemma set_cell_table:
  assumes T: "table M1 rs M m" and X: "mem_blocks M1 matrix = Some (B_Matrix (map Some rs))"
  shows "implements (table M1 rs) (set_cell matrix i j d M) (mat_set m i j d)"
proof (cases "0 \<le> i \<and> nat i < length m \<and> 0 \<le> j \<and> nat j < length (m ! nat i)")
  case True
  have "mem_blocks M matrix = Some (B_Matrix (map Some rs))"
    by (rule table_other [OF T X]) simp
  moreover have r: "nat i < length rs" "mem_blocks M (rs ! nat i) = Some (B_Row (m ! nat i))"
    using True tableD(3,5) [OF T] by auto
  ultimately have "set_cell matrix i j d M = Some (store (rs ! nat i) (B_Row ((m ! nat i)[nat j := d])) M)"
    using True by (simp add: set_cell_def reading row_at_def arr_get_def)
  moreover have "table M1 rs (store (rs ! nat i) (B_Row ((m ! nat i)[nat j := d])) M) (m[nat i := (m ! nat i)[nat j := d]])"
    using T r store_fresh [of M "rs ! nat i"] by (auto simp: table_def nth_eq_iff_index_eq nth_list_update)
  ultimately show ?thesis
    using True by (simp add: mat_set_def)
next
  case False
  then have "mat_set m i j d = None"
    unfolding mat_set_def by presburger
  then show ?thesis
    by simp
qed

section \<open>Distances\<close>

lemma implements_all:
  assumes "R M m" "\<And>i M m. i < n \<Longrightarrow> R M m \<Longrightarrow> implements R (f i M) (g i m)"
  shows "implements R (for_all n f M) (after_loop (for_loop n 0 (\<lambda>i m. do { m' \<leftarrow> g i m; Some (Next m') }) m) Some)"
  unfolding for_all_def
proof (rule implements_after_loop [where RN = R], rule implements_loop [where RN = R, OF assms(1)])
  fix i M m
  assume "i < 0 + n" "R M m"
  then have I: "implements R (f i M) (g i m)"
    using assms(2) by simp
  show "implements (rel_flow R R) (map_option Next (f i M)) (g i m \<bind> (\<lambda>m'. Some (Next m')))"
    using implementsD [OF I] by (cases "g i m") auto
qed simp

lemma floyd_cell_table:
  assumes "table M1 rs M m" "mem_blocks M1 matrix = Some (B_Matrix (map Some rs))"
  shows "implements (table M1 rs) (floyd_cell_m matrix k i j M) (floyd_cell k i j m)"
proof -
  have last: "implements (table M1 rs) (if c then set_cell matrix (int i) (int j) b M else Some M)
      (if c then mat_set m (int i) (int j) b else Some m)" for b c
    using set_cell_table [OF assms] assms(1) by simp
  have bind: "implements (table M1 rs) (f \<bind> h) (f \<bind> k)" if "\<And>x. implements (table M1 rs) (h x) (k x)" for f :: "int option" and h k
    using that by (cases f) simp_all
  show ?thesis
    unfolding floyd_cell_m_def floyd_cell_def cell_at_table [OF assms] by (intro bind last)
qed

lemma floydMatrix_table:
  assumes "table M1 rs M m" "mem_blocks M1 matrix = Some (B_Matrix (map Some rs))"
  shows "implements (table M1 rs) (floydMatrix_m matrix counter M) (floydMatrix m counter)"
  unfolding floydMatrix_m_def floydMatrix_def floyd_rows_def floyd_row_def
  by (intro implements_all floyd_cell_table assms)

section \<open>The ids of the cities\<close>

definition names_at :: "memory \<Rightarrow> addr \<Rightarrow> city \<Rightarrow> bool" where
  "names_at M c y \<longleftrightarrow> (\<exists>a s. mem_blocks M c = Some (B_City a (city_id y) s) \<and> mem_blocks M a = Some (B_Name (city_name y)))"

lemma getCityId_implemented:
  assumes "vector_view (names_at M) M cv cas cities"
  shows "implements (\<lambda>(i, M') i'. i = i' \<and> M' = M) (getCityId_m name cv M) (getCityId name cities)"
proof -
  let ?R = "\<lambda>(i, M') i'. i = i' \<and> M' = M"
  have round: "implements (rel_flow ?R (\<lambda>M' _. M' = M))
      (do {
        (c, M) \<leftarrow> getFromVector_m cv (int i) M;
        (a, k, s) \<leftarrow> city_at c M;
        n \<leftarrow> name_at a M;
        Some (if name = n then Exit (k, M) else Next M)
      })
      (do { c \<leftarrow> vec_deref cities (int i); Some (if name = city_name c then Exit (city_id c) else Next ()) })" for i
    by (rule implements_get [OF assms]) (auto simp: names_at_def reading name_at_def)
  show ?thesis
    unfolding getCityId_m_def getCityId_def
    by (rule implements_read [OF vector_viewD(1) [OF assms]], rule implements_after_loop [where RN = "\<lambda>M' _. M' = M"],
        rule implements_loop) (use round in auto)
qed

lemma vec_in_table:
  assumes "vec_in M1 v as vb" "table M1 rs M m"
  shows "vec_in M v as vb"
proof -
  obtain p where p: "mem_blocks M1 v = Some (B_Vector p (length as) False)" "v \<noteq> NULL" "length as < 2147483648"
    "if as = [] then p = NULL \<and> vb = [v]
     else p \<noteq> NULL \<and> p \<noteq> v \<and> (\<exists>n. length as \<le> n \<and> mem_blocks M1 p = Some (B_Cells (arr_of n as))) \<and> vb = [p, v]"
    using assms(1) by (auto simp: vec_in_def)
  have "mem_blocks M v = Some (B_Vector p (length as) False)"
    by (rule table_other [OF assms(2) p(1)]) simp
  moreover have "mem_blocks M p = Some (B_Cells c)" if "mem_blocks M1 p = Some (B_Cells c)" for c
    by (rule table_other [OF assms(2) that]) simp
  ultimately show ?thesis
    using p(2-4) unfolding vec_in_def by (cases "as = []") auto
qed

lemma names_table:
  assumes "vector_view (names_at M1) M1 cv cas cities" "table M1 rs M m"
  shows "vector_view (names_at M) M cv cas cities"
proof -
  have "names_at M c y" if "names_at M1 c y" for c y
    using that table_other [OF assms(2)] unfolding names_at_def by blast
  then show ?thesis
    using assms(1) vec_in_table [OF _ assms(2)] unfolding vector_view_def by (metis list_all2_mono)
qed

section \<open>Connections\<close>

text \<open>What the map has before them.\<close>

definition roads_ok :: "memory \<Rightarrow> addr \<Rightarrow> addr list \<Rightarrow> city vector \<Rightarrow> bool" where
  "roads_ok M1 ans rs cities \<longleftrightarrow> (\<exists>cv pv matrix cas. mem_blocks M1 ans = Some (B_Map cv pv matrix) \<and>
     mem_blocks M1 matrix = Some (B_Matrix (map Some rs)) \<and> vector_view (names_at M1) M1 cv cas cities)"

lemma roads_okE:
  assumes "roads_ok M1 ans rs cities"
  obtains cv pv matrix where "mem_blocks M1 matrix = Some (B_Matrix (map Some rs))"
    "\<And>M m. table M1 rs M m \<Longrightarrow> map_at ans M = Some (cv, pv, matrix)"
    "\<And>M m name. table M1 rs M m \<Longrightarrow> implements (\<lambda>(i, M') i'. i = i' \<and> M' = M) (getCityId_m name cv M) (getCityId name cities)"
proof -
  obtain cv pv matrix cas where r: "mem_blocks M1 ans = Some (B_Map cv pv matrix)"
    "mem_blocks M1 matrix = Some (B_Matrix (map Some rs))" "vector_view (names_at M1) M1 cv cas cities"
    using assms unfolding roads_ok_def by blast
  have "map_at ans M = Some (cv, pv, matrix)" if "table M1 rs M m" for M m
  proof -
    have "mem_blocks M ans = Some (B_Map cv pv matrix)"
      by (rule table_other [OF that r(1)]) simp
    then show ?thesis
      by (simp add: reading)
  qed
  moreover have "implements (\<lambda>(i, M') i'. i = i' \<and> M' = M) (getCityId_m name cv M) (getCityId name cities)" if "table M1 rs M m" for M m name
    by (rule getCityId_implemented [OF names_table [OF r(3) that]])
  ultimately show ?thesis
    using that r(2) by blast
qed

lemma set_road_table:
  assumes "roads_ok M1 ans rs cities" "table M1 rs M m"
  shows "implements (table M1 rs) (set_road_m ans i j d M) (set_road m i j d)"
proof -
  obtain cv pv matrix where r: "mem_blocks M1 matrix = Some (B_Matrix (map Some rs))"
    "\<And>M m. table M1 rs M m \<Longrightarrow> map_at ans M = Some (cv, pv, matrix)"
    by (rule roads_okE [OF assms(1)]) blast
  show ?thesis
    unfolding set_road_m_def set_road_def
    by (rule implements_read [OF r(2) [OF assms(2)]], unfold prod.case, rule implements_bind [OF set_cell_table [OF assms(2) r(1)]])
      (simp add: r(2) set_cell_table [OF _ r(1)])
qed

lemma road_table:
  assumes "roads_ok M1 ans rs cities" "table M1 rs M m"
  shows "implements (table M1 rs)
    (do {
       (cv, _, _) \<leftarrow> map_at ans M;
       (i, M) \<leftarrow> getCityId_m a cv M;
       (cv, _, _) \<leftarrow> map_at ans M;
       (j, M) \<leftarrow> getCityId_m b cv M;
       set_road_m ans i j d M
     })
    (do { i \<leftarrow> getCityId a cities; j \<leftarrow> getCityId b cities; set_road m i j d })"
proof -
  obtain cv pv matrix where r: "\<And>M m. table M1 rs M m \<Longrightarrow> map_at ans M = Some (cv, pv, matrix)"
    "\<And>M m name. table M1 rs M m \<Longrightarrow> implements (\<lambda>(i, M') i'. i = i' \<and> M' = M) (getCityId_m name cv M) (getCityId name cities)"
    by (rule roads_okE [OF assms(1)]) blast
  have second: "implements (table M1 rs) (getCityId_m b cv M \<bind> (\<lambda>(j, M). set_road_m ans i j d M)) (getCityId b cities \<bind> (\<lambda>j. set_road m i j d))" for i
    by (rule implements_bind [OF r(2) [OF assms(2)]]) (auto simp: set_road_table [OF assms])
  have "implements (table M1 rs)
      (getCityId_m a cv M \<bind> (\<lambda>(i, M). map_at ans M \<bind> (\<lambda>(cv, _, _). getCityId_m b cv M \<bind> (\<lambda>(j, M). set_road_m ans i j d M))))
      (getCityId a cities \<bind> (\<lambda>i. getCityId b cities \<bind> (\<lambda>j. set_road m i j d)))"
    by (rule implements_bind [OF r(2) [OF assms(2)]]) (auto simp: r(1) [OF assms(2)] second)
  then show ?thesis
    by (simp add: r(1) [OF assms(2)])
qed

lemma read_roads_table:
  assumes "roads_ok M1 ans rs cities" "table M1 rs M m"
  shows "implements (table M1 rs) (read_roads_m ans t buffer buffer2 aux M) (read_roads cities m t buffer buffer2 aux)"
  using assms(2)
proof (induction "length t" arbitrary: t buffer buffer2 aux M m rule: less_induct)
  case less
  show ?case
  proof (cases "buffer = None \<or> buffer2 = None \<or> aux = None")
    case True
    then show ?thesis
      by (auto simp: read_roads.simps split: option.split)
  next
    case False
    then obtain a b d where abd: "buffer = Some a" "buffer2 = Some b" "aux = Some d"
      by auto
    note road = road_table [OF assms(1) less.prems, of a b d]
    show ?thesis
    proof (cases "do { i \<leftarrow> getCityId a cities; j \<leftarrow> getCityId b cities; set_road m i j d }")
      case None
      then show ?thesis
        by (simp add: read_roads.simps abd)
    next
      case (Some m')
      obtain M' where M': "do {
           (cv, _, _) \<leftarrow> map_at ans M;
           (i, M) \<leftarrow> getCityId_m a cv M;
           (cv, _, _) \<leftarrow> map_at ans M;
           (j, M) \<leftarrow> getCityId_m b cv M;
           set_road_m ans i j d M
         } = Some M'" "table M1 rs M' m'"
        using implementsD [OF road Some] by blast
      have "implements (table M1 rs) (read_roads_m ans t' x y z M') (read_roads cities m' t' x y z)"
        if "fscanf (fmt_road CITY_NAME_MAX_LENGTH) t = Some (n, vals, t')" "n = 3" for n vals t' x y z
      proof (rule less.hyps [OF _ M'(2)])
        show "length t' < length t"
          using that by (auto simp: fmt_road_def dest: fscanf_shorter)
      qed
      then show ?thesis
        using M'(2) unfolding read_roads_m.simps [of ans t] read_roads.simps [of cities m t] abd
        by (simp only: option.case prod.case Some M'(1)) (auto split: option.split list.split scanned.split)
    qed
  qed
qed

lemma parse_roads_table:
  assumes "roads_ok M1 ans rs cities" "table M1 rs M m"
  shows "implements (table M1 rs) (parse_roads_m ans t buffer aux M) (parse_roads cities m t buffer aux)"
proof -
  have bind: "implements (table M1 rs) (f \<bind> h) (f \<bind> k)" if "\<And>x. implements (table M1 rs) (h x) (k x)" for f :: "'b option" and h k
    using that by (cases f) simp_all
  have "implements (table M1 rs)
      (fscanf (fmt_pair CITY_NAME_MAX_LENGTH) t \<bind> (\<lambda>(_, vals, t'). read_roads_m ans t' (Some w) (stored_word vals None) (stored_int vals aux) M))
      (fscanf (fmt_pair CITY_NAME_MAX_LENGTH) t \<bind> (\<lambda>(_, vals, t'). read_roads cities m t' (Some w) (stored_word vals None) (stored_int vals aux)))" for w
    by (rule bind) (auto split: prod.split intro: read_roads_table [OF assms])
  then show ?thesis
    unfolding parse_roads_m_def parse_roads_def using assms(2) by (cases buffer) simp_all
qed

section \<open>How many stocks a city has\<close>

text \<open>At most one per character of the file; this is about Parser.\<close>

lemma addToVector_grows:
  assumes "addToVector al v x = Some (k, v', al')"
  shows "vec_size v' \<le> Suc (vec_size v)" "Some y \<in> set (vec_pointer v') \<Longrightarrow> y = x \<or> Some y \<in> set (vec_pointer v)"
proof -
  have cells: "Some y \<in> set (realloc_cells (vec_pointer v) n) \<Longrightarrow> Some y \<in> set (vec_pointer v)" for n
    by (auto simp: realloc_cells_def dest: in_set_takeD)
  show "vec_size v' \<le> Suc (vec_size v)"
    using assms by (auto simp: addToVector_def Let_def split: if_splits prod.splits Option.bind_splits)
  show "Some y \<in> set (vec_pointer v') \<Longrightarrow> y = x \<or> Some y \<in> set (vec_pointer v)"
    using assms by (auto simp: addToVector_def arr_set_def Let_def split: if_splits prod.splits Option.bind_splits
        dest!: set_update_subset_insert [THEN subsetD] cells)
qed

lemma read_stocks_few:
  "read_stocks al t ps xs b a = Some (Next r) \<Longrightarrow> vec_size (sr_vec r) + length (sr_text r) \<le> vec_size xs + length t"
proof (induction al t ps xs b a rule: read_stocks.induct)
  case (1 al t ps xs b a)
  obtain state vals t' where f: "fscanf (fmt_pair CITY_NAME_MAX_LENGTH) t = Some (state, vals, t')"
    using 1(2) by (cases "fscanf (fmt_pair CITY_NAME_MAX_LENGTH) t") (auto simp: read_stocks.simps)
  show ?case
  proof (cases "state = 2")
    case True
    obtain name amount where na: "stored_word vals b = Some name" "stored_int vals a = Some amount"
      using 1(2) f True by (auto simp: read_stocks.simps [of _ t] Let_def split: option.splits)
    obtain s ps' al1 where s: "initStock al name amount ps = Some (Some s, ps', al1)"
      using 1(2) f True na by (auto simp: read_stocks.simps [of _ t] split: option.splits)
    obtain k xs' al2 where x: "addToVector al1 xs s = Some (k, xs', al2)"
      using 1(2) f True na s by (cases "addToVector al1 xs s") (auto simp: read_stocks.simps [of _ t])
    have "read_stocks al2 t' ps' xs' (stored_word vals b) (stored_int vals a) = Some (Next r)"
      using 1(2) f True na s x by (simp add: read_stocks.simps [of _ t])
    from 1(1) [OF f refl refl refl refl True refl na s refl refl refl x refl refl this]
    have "vec_size (sr_vec r) + length (sr_text r) \<le> vec_size xs' + length t'" .
    moreover have "length t' < length t"
      using f True by (auto simp: fmt_pair_def dest: fscanf_shorter)
    ultimately show ?thesis
      using addToVector_grows(1) [OF x] by simp
  next
    case False
    have "length t' \<le> length t"
      using f fscanf_from_le unfolding fscanf_def by blast
    then show ?thesis
      using 1(2) f False by (auto simp: read_stocks.simps [of _ t])
  qed
qed

definition few :: "nat \<Rightarrow> parse_state \<Rightarrow> bool" where
  "few K st \<longleftrightarrow> length (ps_text st) \<le> K \<and> (\<forall>c. Some c \<in> set (vec_pointer (ps_cities st)) \<longrightarrow> vec_size (city_stock c) \<le> K)"

lemma parse_city_few:
  assumes "few K st" "parse_city n i st = Some (Next st')"
  shows "few K st'"
proof -
  obtain st1 where st1: "read_name i st = Some (Next st1)"
    using assms(2) unfolding parse_city_def by (cases "read_name i st") (auto simp: and_next_def split: flow.splits)
  obtain vec :: "stock vector" and al where v: "createVector (ps_allocs st1) = (Some vec, al)"
    using assms(2) st1 by (cases "createVector (ps_allocs st1) :: stock vector option \<times> mallocs")
      (auto simp: parse_city_def and_next_def split: Option.bind_splits)
  obtain r where r: "read_stocks al (ps_text st1) (ps_products st1) vec (ps_buffer st1) (ps_aux st1) = Some (Next r)"
    using assms(2) st1 v by (auto simp: parse_city_def and_next_def split: option.splits flow.splits)
  let ?st2 = "st1\<lparr>ps_text := sr_text r, ps_allocs := sr_allocs r, ps_buffer := sr_buffer r, ps_aux := sr_aux r, ps_products := sr_products r\<rparr>"
  have rest: "and_next (if sr_state r = 1 then keep_name n i ?st2 else Some (Next ?st2)) (\<lambda>st3. add_city i (sr_vec r) st3) = Some (Next st')"
    using assms(2) st1 v r by (simp add: parse_city_def and_next_def Let_def)
  then obtain st3 where st3: "(if sr_state r = 1 then keep_name n i ?st2 else Some (Next ?st2)) = Some (Next st3)" "add_city i (sr_vec r) st3 = Some (Next st')"
    unfolding and_next_def by (auto split: option.splits flow.splits)
  have one: "length (ps_text st1) \<le> length (ps_text st) \<and> ps_cities st1 = ps_cities st"
  proof -
    have "length t' \<le> length t" if "fscanf ds t = Some (k, vs, t')" for ds t k vs t'
      using that fscanf_from_le unfolding fscanf_def by blast
    then show ?thesis
      using st1 by (auto simp: read_name_def Let_def split: if_splits prod.splits Option.bind_splits option.splits)
  qed
  have "vec_size vec = 0"
    using v by (auto simp: createVector_def Let_def vec_of_def split: if_splits prod.splits)
  then have two: "vec_size (sr_vec r) + length (sr_text r) \<le> length (ps_text st1)"
    using read_stocks_few [OF r] by simp
  have three: "ps_text st3 = sr_text r \<and> ps_cities st3 = ps_cities st1"
    using st3(1) by (auto simp: keep_name_def Let_def split: if_splits prod.splits Option.bind_splits)
  obtain name k cities al' where add: "addToVector (ps_allocs st3) (ps_cities st3) \<lparr>city_name = name, city_id = int i, city_stock = sr_vec r\<rparr> = Some (k, cities, al')"
    "st' = st3\<lparr>ps_cities := cities, ps_allocs := al'\<rparr>"
    using st3(2) by (auto simp: add_city_def split: if_splits Option.bind_splits)
  show ?thesis
    using addToVector_grows(2) [OF add(1)] assms(1) one two three unfolding add(2) few_def by fastforce
qed

lemma parse_cities_few:
  assumes "few K st" "parse_cities n st = Some (Next st')"
  shows "few K st'"
proof -
  have "for_loop k i (\<lambda>i st. map_option (\<lambda>r. case r of Exit _ \<Rightarrow> Exit None | Next st' \<Rightarrow> Next st') (parse_city n i st)) st = Some (Next st') \<Longrightarrow>
      few K st \<Longrightarrow> few K st'" for k i and st :: parse_state
  proof (induction k arbitrary: i st)
    case (Suc k)
    obtain st1 where st1: "parse_city n i st = Some (Next st1)"
      using Suc.prems(1) by (cases "parse_city n i st") (auto split: flow.splits)
    show ?case
      by (rule Suc.IH [of "Suc i" st1]) (use Suc.prems st1 parse_city_few [OF Suc.prems(2) st1] in auto)
  qed simp
  then show ?thesis
    using assms unfolding parse_cities_def by blast
qed

section \<open>The finished map\<close>

lemma city_done_in:
  assumes D: "city_done M sa c bs y" and "c \<noteq> NULL" "distinct bs" "vec_size (city_stock y) < 2147483648"
  shows "city_view M sa c y" "\<exists>cb. city_in M c cb \<and> mset cb = mset bs" "\<exists>us vs. bs = us @ sa @ vs"
proof -
  obtain n s vb where d: "mem_blocks M c = Some (B_City n (city_id y) s)" "n \<noteq> NULL" "mem_blocks M n = Some (B_Name (city_name y))"
    "built M s sa vb" "city_stock y = vec_of (vlist (city_stock y))" "list_all2 (stock_view M) sa (vlist (city_stock y))" "bs = vb @ sa @ [n, c]"
    using D by (auto simp: city_done_def stocks_held_def)
  have "vec_size (city_stock y) = length (vlist (city_stock y))"
    by (subst d(5)) (simp add: vec_of_def)
  then have "length sa < 2147483648"
    using assms(4) list_all2_lengthD [OF d(6)] by simp
  then have v: "vec_in M s sa vb"
    by (rule built_vec_in [OF d(4)])
  have "stocks_view M s sa (city_stock y)"
    unfolding vector_view_def using v d(5,6) by blast
  then show "city_view M sa c y"
    unfolding city_view_def using d(1,3) assms(2) by blast
  have "\<forall>x\<in>set sa. x \<noteq> NULL \<and> (\<exists>n p. mem_blocks M x = Some (B_Stock n p))"
    using d(6) by (auto simp: list_all2_conv_all_nth in_set_conv_nth stock_view_def) blast+
  then have "stocks_in M s (sa @ vb)"
    unfolding stocks_in_def using v assms(3) d(7) by (intro exI [of _ sa] exI [of _ vb]) auto
  then have "city_in M c ((sa @ vb) @ [n, c])"
    unfolding city_in_def using d(1-3) assms(2,3) d(7) by auto
  moreover have "mset ((sa @ vb) @ [n, c]) = mset bs"
    using d(7) by simp
  ultimately show "\<exists>cb. city_in M c cb \<and> mset cb = mset bs"
    by blast
  show "\<exists>us vs. bs = us @ sa @ vs"
    using d(7) by blast
qed

lemma distinct_inner:
  assumes "distinct (concat bss)" "length sas = length bss" "\<And>j. j < length bss \<Longrightarrow> \<exists>us vs. bss ! j = us @ sas ! j @ vs"
  shows "distinct (concat sas) \<and> set (concat sas) \<subseteq> set (concat bss)"
  using assms(2,1,3)
proof (induction sas bss rule: list_induct2)
  case (Cons sa sas bs bss)
  obtain us vs where bs: "bs = us @ sa @ vs"
    using Cons.prems(2) [of 0] by auto
  have "\<exists>us vs. bss ! j = us @ sas ! j @ vs" if "j < length bss" for j
    using Cons.prems(2) [of "Suc j"] that by simp
  then have "distinct (concat sas) \<and> set (concat sas) \<subseteq> set (concat bss)"
    using Cons.prems(1) by (intro Cons.IH) simp_all
  then show ?case
    using Cons.prems(1) bs by auto
qed simp

lemma mset_interleave:
  "length rs = length cbs \<Longrightarrow> mset (concat (map2 (\<lambda>cb r. cb @ [r]) cbs rs)) = mset (concat cbs) + mset rs"
  by (induction rs cbs rule: list_induct2) simp_all

lemma product_done_in: "product_done M (n, a) p \<Longrightarrow> n \<noteq> a \<Longrightarrow> product_in M a [n, a]"
  by (auto simp: product_in_def)

lemma catalogue_in:
  assumes "catalogue_at M pv pvb qs ps" "distinct (q_blocks qs)"
  shows "list_all2 (product_in M) (map snd qs) (map (\<lambda>(n, a). [n, a]) qs)"
proof -
  have ne: "fst q \<noteq> snd q" if "q \<in> set qs" for q
    using assms(2) that by (auto simp: q_blocks_def distinct_concat_iff split: prod.splits)
  have all: "list_all2 (product_done M) qs (vlist ps)"
    using assms(1) by (simp add: catalogue_at_def)
  show ?thesis
    unfolding list_all2_conv_all_nth
  proof (intro conjI allI impI)
    fix i
    assume "i < length (map snd qs)"
    then have i: "i < length qs"
      by simp
    obtain n a where q: "qs ! i = (n, a)"
      by (cases "qs ! i")
    have "product_done M (n, a) (vlist ps ! i)"
      using list_all2_nthD [OF all i] q by (simp only:)
    moreover have "n \<noteq> a"
      using ne [OF nth_mem [OF i]] q by simp
    ultimately show "product_in M (map snd qs ! i) (map (\<lambda>(n, a). [n, a]) qs ! i)"
      using product_done_in q i by simp
  qed simp
qed

lemma table_holds:
  assumes "holds M0 bs M" "table M rs M' m" "set rs \<subseteq> set bs"
  shows "holds M0 bs M'"
proof -
  have "mem_blocks M' a \<noteq> None" if "a \<in> set bs" for a
    using that holdsD(3) [OF assms(1)] tableD(4,5) [OF assms(2)] by (metis in_set_conv_nth option.distinct(1))
  moreover have "mem_blocks M' a = mem_blocks M a" if "a \<notin> set bs" for a
    using that assms(3) tableD(4) [OF assms(2)] by blast
  ultimately show ?thesis
    using assms(1) tableD(1) [OF assms(2)] by (simp add: holds_def without_def)
qed

text \<open>The map in \<open>M\<close>, with the blocks \<open>map_parts\<close>.\<close>

definition map_parts :: "layout \<Rightarrow> addr list \<Rightarrow> addr list \<Rightarrow> (addr \<times> addr) list \<Rightarrow> addr list list \<Rightarrow> addr list" where
  "map_parts L cvb pvb qs cbs = cvb @ pvb @ q_blocks qs @ concat cbs @ ly_rows L @ [ly_matrix L, ly_ans L]"

definition finished :: "layout \<Rightarrow> memory \<Rightarrow> addr list \<Rightarrow> addr list \<Rightarrow> (addr \<times> addr) list \<Rightarrow> addr list list \<Rightarrow> addr list list \<Rightarrow>
  sim_map \<Rightarrow> bool" where
  "finished L M cvb pvb qs cbs sas mp \<longleftrightarrow> ly_ans L \<noteq> NULL \<and> ly_matrix L \<noteq> NULL \<and> length (ly_rows L) = length (ly_cs L) \<and>
     (\<forall>c\<in>set (ly_cs L). c \<noteq> NULL) \<and> mem_blocks M (ly_ans L) = Some (B_Map (ly_cv L) (ly_pv L) (ly_matrix L)) \<and>
     mem_blocks M (ly_matrix L) = Some (B_Matrix (map Some (ly_rows L))) \<and> (\<forall>r\<in>set (ly_rows L). r \<noteq> NULL) \<and>
     list_all2 (\<lambda>r xs. mem_blocks M r = Some (B_Row xs)) (ly_rows L) (map_matrix mp) \<and>
     built M (ly_cv L) (ly_cs L) cvb \<and> catalogue_at M (ly_pv L) pvb qs (map_product mp) \<and>
     cities_done L (length (ly_cs L)) M sas cbs (map_cities mp) \<and> distinct (map_parts L cvb pvb qs cbs)"

text \<open>Which memory that is: the connections and \<open>floydMatrix\<close> changed the rows, and \<open>cities\<close> was freed.\<close>

lemma finished_frame:
  assumes H: "holds M0 (all_parts L (length (ly_cs L)) [] cvb pvb qs cbs) M" and f: "fixed_ok L M"
    and T: "table M (ly_rows L) M3 m" and M4: "mem_blocks M4 = (mem_blocks M3)(ly_cities L := None)" "fresh_ok M4"
  shows "holds M0 (map_parts L cvb pvb qs cbs) M4" "keeps_goods M M4"
    "a \<in> set (cvb @ pvb @ concat cbs @ [ly_matrix L, ly_ans L]) \<Longrightarrow> mem_blocks M4 a = mem_blocks M a"
    "list_all2 (\<lambda>r xs. mem_blocks M4 r = Some (B_Row xs)) (ly_rows L) m"
proof -
  let ?bs = "map_parts L cvb pvb qs cbs"
  have all: "all_parts L (length (ly_cs L)) [] cvb pvb qs cbs =
      cvb @ pvb @ q_blocks qs @ concat cbs @ ly_rows L @ [ly_matrix L, ly_cities L, ly_ans L]"
    by (simp add: all_parts_def fixed_def)
  have H3: "holds M0 (all_parts L (length (ly_cs L)) [] cvb pvb qs cbs) M3"
    by (rule table_holds [OF H T]) (auto simp: all)
  have d: "distinct ?bs" "ly_cities L \<notin> set ?bs"
    using holdsD(2) [OF H] unfolding all map_parts_def by auto
  have "mem_blocks M4 a \<noteq> None" if "a \<in> set ?bs" for a
    using that d(2) M4(1) holdsD(3) [OF H3, of a] unfolding all map_parts_def by auto
  moreover have "mem_blocks M0 a = (if a \<in> set ?bs then None else mem_blocks M4 a)" for a
    using M4(1) d(2) holdsD(4) [OF H3, of a] holdsD(5) [OF H3, of a] unfolding all map_parts_def by (auto split: if_splits)
  ultimately show "holds M0 ?bs M4"
    using d(1) M4(2) by (simp add: holds_def without_def)
  have "mem_blocks M4 a = Some b" if "mem_blocks M a = Some b" "\<And>xs. b \<noteq> B_Row xs" "\<And>xs. b \<noteq> B_Cells xs" for a b
  proof -
    have "a \<noteq> ly_cities L"
      using that(1) that(3) [of "map Some (ly_cs L)"] f by (auto simp: fixed_ok_def)
    then show ?thesis
      using table_other [OF T that(1,2)] M4(1) by simp
  qed
  then show "keeps_goods M M4"
    by (simp add: keeps_goods_def)
  show "mem_blocks M4 a = mem_blocks M a" if "a \<in> set (cvb @ pvb @ concat cbs @ [ly_matrix L, ly_ans L])"
  proof -
    have "a \<notin> set (ly_rows L)" "a \<noteq> ly_cities L"
      using that d unfolding map_parts_def by (auto simp del: set_concat)
    then show ?thesis
      using M4(1) tableD(4) [OF T, of a] by simp
  qed
  have "ly_rows L ! i \<noteq> ly_cities L" if "i < length (ly_rows L)" for i
    using d(2) nth_mem [OF that] by (auto simp: map_parts_def)
  then show "list_all2 (\<lambda>r xs. mem_blocks M4 r = Some (B_Row xs)) (ly_rows L) m"
    using tableD(3,5) [OF T] M4(1) by (simp add: list_all2_conv_all_nth)
qed

lemma finished_after:
  assumes H: "holds M0 (all_parts L (length (ly_cs L)) [] cvb pvb qs cbs) M" and P: "parts L (length (ly_cs L)) M pn st cvb pvb qs cbs sas"
    and T: "table M (ly_rows L) M3 m" and M4: "mem_blocks M4 = (mem_blocks M3)(ly_cities L := None)" "fresh_ok M4"
  shows "finished L M4 cvb pvb qs cbs sas \<lparr>map_cities = ps_cities st, map_product = ps_products st, map_matrix = m\<rparr>"
proof -
  have p: "fixed_ok L M" "built M (ly_cv L) (ly_cs L) cvb" "catalogue_at M (ly_pv L) pvb qs (ps_products st)"
    "cities_done L (length (ly_cs L)) M sas cbs (ps_cities st)"
    using P by (simp_all add: parts_def)
  note fr = finished_frame [OF H p(1) T M4]
  have "built M4 (ly_cv L) (ly_cs L) cvb"
    by (rule built_cong [OF p(2)]) (rule fr(3), simp)
  moreover have "catalogue_at M4 (ly_pv L) pvb qs (ps_products st)"
    by (rule catalogue_keeps [OF p(3) fr(2)]) (rule fr(3), simp)
  moreover have "cities_done L (length (ly_cs L)) M4 sas cbs (ps_cities st)"
    by (rule cities_done_frame [OF p(4) fr(2)]) (rule fr(3), simp)
  ultimately show ?thesis
    using p(1) fr(3) [of "ly_ans L"] fr(3) [of "ly_matrix L"] fr(4) holdsD(2) [OF fr(1)]
    by (simp add: finished_def fixed_ok_def)
qed

lemma finished_city:
  assumes F: "finished L M cvb pvb qs cbs sas mp" and j: "j < length (ly_cs L)"
    and few: "\<And>c. c \<in> set (vlist (map_cities mp)) \<Longrightarrow> vec_size (city_stock c) < 2147483648"
  shows "city_view M (sas ! j) (ly_cs L ! j) (vlist (map_cities mp) ! j)" "\<exists>cb. city_in M (ly_cs L ! j) cb \<and> mset cb = mset (cbs ! j)"
    "\<exists>us vs. cbs ! j = us @ sas ! j @ vs"
proof -
  note f = F [unfolded finished_def cities_done_def]
  have fin: "city_done M (sas ! j) (ly_cs L ! j) (cbs ! j) (vlist (map_cities mp) ! j)" and c: "ly_cs L ! j \<noteq> NULL"
    using f j by simp_all
  have "cbs ! j \<in> set cbs" "vlist (map_cities mp) ! j \<in> set (vlist (map_cities mp))"
    using j f by simp_all
  moreover have "distinct (concat cbs)"
    using f by (simp add: map_parts_def)
  ultimately have "distinct (cbs ! j)" "vec_size (city_stock (vlist (map_cities mp) ! j)) < 2147483648"
    using few by (auto simp: distinct_concat_iff)
  then show "city_view M (sas ! j) (ly_cs L ! j) (vlist (map_cities mp) ! j)" "\<exists>cb. city_in M (ly_cs L ! j) cb \<and> mset cb = mset (cbs ! j)"
    "\<exists>us vs. cbs ! j = us @ sas ! j @ vs"
    using city_done_in [OF fin c] by blast+
qed

lemma finished_view:
  assumes F: "finished L M cvb pvb qs cbs sas mp" and n: "length (ly_cs L) < 2147483648"
    and few: "\<And>c. c \<in> set (vlist (map_cities mp)) \<Longrightarrow> vec_size (city_stock c) < 2147483648"
  shows "map_view M (ly_ans L) (ly_cs L) sas mp"
proof -
  note f = F [unfolded finished_def cities_done_def]
  have "vec_in M (ly_cv L) (ly_cs L) cvb"
    by (rule built_vec_in) (use f n in simp_all)
  then have "vector_view (\<lambda>c y. True) M (ly_cv L) (ly_cs L) (map_cities mp)"
    unfolding vector_view_def using f by (intro exI [of _ cvb] exI [of _ "vlist (map_cities mp)"]) (simp add: list_all2_conv_all_nth)
  moreover have "distinct (concat sas)"
    using distinct_inner [of cbs sas] finished_city(3) [OF F _ few] f by (simp add: map_parts_def)
  moreover have "vector_view (product_view M) M (ly_pv L) (map snd qs) (map_product mp)"
    by (rule catalogue_view) (use f in blast)
  ultimately show ?thesis
    unfolding map_view_def using f finished_city(1) [OF F _ few] by auto
qed

lemma map_inI:
  assumes "m \<noteq> NULL" "mem_blocks M m = Some (B_Map cities product matrix)" "vec_in M cities cs cv" "list_all2 (city_in M) cs cbs"
    "vec_in M product ps pv" "list_all2 (product_in M) ps pbs" "matrix \<noteq> NULL" "mem_blocks M matrix = Some (B_Matrix (map Some rows))"
    "length rows = length cs" "\<forall>r\<in>set rows. r \<noteq> NULL \<and> mem_blocks M r \<noteq> None"
    "bs = concat (map2 (\<lambda>cb r. cb @ [r]) cbs rows) @ [matrix] @ concat pbs @ cv @ pv @ [m]" "distinct bs"
  shows "map_in M m bs"
  unfolding map_in_def
  by (rule conjI [OF assms(1)], rule exI [of _ cities], rule exI [of _ product], rule exI [of _ matrix], rule exI [of _ cs],
      rule exI [of _ cv], rule exI [of _ cbs], rule exI [of _ ps], rule exI [of _ pv], rule exI [of _ pbs], rule exI [of _ rows])
    (intro conjI assms(2-))

lemma finished_in:
  assumes F: "finished L M cvb pvb qs cbs sas mp" and n: "length (ly_cs L) < 2147483648"
    and few: "\<And>c. c \<in> set (vlist (map_cities mp)) \<Longrightarrow> vec_size (city_stock c) < 2147483648"
  shows "\<exists>bs. map_in M (ly_ans L) bs \<and> mset bs = mset (map_parts L cvb pvb qs cbs)"
proof -
  note f = F [unfolded finished_def cities_done_def]
  obtain cb where cb: "\<And>j. j < length (ly_cs L) \<Longrightarrow> city_in M (ly_cs L ! j) (cb j) \<and> mset (cb j) = mset (cbs ! j)"
    using finished_city(2) [OF F _ few] by metis
  let ?cbs = "map cb [0..<length (ly_cs L)]"
  let ?pbs = "map (\<lambda>(a, b). [a, b]) qs"
  let ?m = "concat (map2 (\<lambda>cb r. cb @ [r]) ?cbs (ly_rows L)) @ [ly_matrix L] @ concat ?pbs @ cvb @ pvb @ [ly_ans L]"
  have C: "catalogue_at M (ly_pv L) pvb qs (map_product mp)"
    using f by blast
  have "map mset ?cbs = map mset cbs"
    using cb f by (intro nth_equalityI) simp_all
  then have "mset (concat ?cbs) = mset (concat cbs)"
    by (simp add: mset_concat)
  then have ms: "mset ?m = mset (map_parts L cvb pvb qs cbs)"
    using f by (simp add: mset_interleave q_blocks_def map_parts_def)
  then have dm: "distinct ?m"
    using f mset_eq_imp_distinct_iff by blast
  have cities: "list_all2 (city_in M) (ly_cs L) ?cbs"
    using cb by (simp add: list_all2_conv_all_nth)
  have cv: "vec_in M (ly_cv L) (ly_cs L) cvb"
    by (rule built_vec_in) (use f n in simp_all)
  have pv: "vec_in M (ly_pv L) (map snd qs) pvb"
    by (rule built_vec_in) (use C vector_viewD(3) [OF catalogue_view(1) [OF C]] in \<open>simp_all add: catalogue_at_def\<close>)
  have ps: "list_all2 (product_in M) (map snd qs) ?pbs"
    by (rule catalogue_in [OF C]) (use f in \<open>simp add: map_parts_def\<close>)
  have rs: "\<forall>r\<in>set (ly_rows L). r \<noteq> NULL \<and> mem_blocks M r \<noteq> None"
    using f by (auto simp: list_all2_conv_all_nth in_set_conv_nth)
  have "map_in M (ly_ans L) ?m"
    by (rule map_inI [OF _ _ cv cities pv ps _ _ _ rs refl dm]) (use f in simp_all)
  then show ?thesis
    using ms by blast
qed

section \<open>The whole function\<close>

lemma parsed_end:
  assumes "parsed L M0 K (length (ly_cs L)) sm st"
  shows "parsing L M0 K (length (ly_cs L)) [] (pm_mem sm) [] st" "same_text sm st"
proof -
  obtain pn where pn: "same_text sm st" "parsing L M0 K (length (ly_cs L)) [] (pm_mem sm) pn st" "ahead (length (ly_cs L)) pn st"
    using assms by (auto simp: parsed_def)
  show "same_text sm st"
    by (rule pn(1))
  have "coming L (length (ly_cs L)) (pm_mem sm) pn (ps_names st)"
    using pn(2) by (auto simp: parsing_def parts_def)
  then have "x \<notin> set pn" for x
    by (cases x) (auto dest: comingD(4))
  then have "pn = []"
    by (cases pn) auto
  then show "parsing L M0 K (length (ly_cs L)) [] (pm_mem sm) [] st"
    using pn(2) by simp
qed

lemma start_table:
  assumes "fixed_ok L M" "fresh_ok M" "distinct (ly_rows L)"
  shows "table M (ly_rows L) M (replicate (length (ly_cs L)) (replicate (length (ly_cs L)) 0))"
  using assms by (auto simp: table_def fixed_ok_def)

lemma parts_roads:
  assumes P: "parts L (length (ly_cs L)) M pn st cvb pvb qs cbs sas" and n: "length (ly_cs L) < 2147483648"
  shows "roads_ok M (ly_ans L) (ly_rows L) (ps_cities st)"
proof -
  have p: "fixed_ok L M" "built M (ly_cv L) (ly_cs L) cvb" "cities_done L (length (ly_cs L)) M sas cbs (ps_cities st)"
    using P by (simp_all add: parts_def)
  have "vec_in M (ly_cv L) (ly_cs L) cvb"
    by (rule built_vec_in [OF p(2) n])
  moreover have "list_all2 (names_at M) (ly_cs L) (vlist (ps_cities st))"
    using p(3) by (auto simp: list_all2_conv_all_nth cities_done_def city_done_def names_at_def)
  moreover have "ps_cities st = vec_of (vlist (ps_cities st))"
    using p(3) by (simp add: cities_done_def)
  ultimately have "vector_view (names_at M) M (ly_cv L) (ly_cs L) (ps_cities st)"
    unfolding vector_view_def by blast
  then show ?thesis
    using p(1) unfolding roads_ok_def fixed_ok_def by blast
qed

text \<open>What the result is in memory.\<close>

definition map_result :: "memory \<Rightarrow> addr \<times> memory \<Rightarrow> sim_map option \<Rightarrow> bool" where
  "map_result M0 r mp \<longleftrightarrow> (case (r, mp) of
     ((m, M'), None) \<Rightarrow> m = NULL \<and> mem_blocks M' = mem_blocks M0
   | ((m, M'), Some y) \<Rightarrow> m \<noteq> NULL \<and> (\<exists>cas sas bs. map_view M' m cas sas y \<and> map_in M' m bs \<and> holds M0 bs M'))"

lemma finish_map_held:
  assumes P: "parsed L M0 K (length (ly_cs L)) sm st" and n: "length (ly_cs L) < 2147483648" and K: "few K st" "K < 2147483648"
  shows "implements (\<lambda>M' r. map_result M0 (ly_ans L, M') r) (finish_map_m (ly_ans L) (length (ly_cs L)) (ly_cities L) sm)
    (finish_map (length (ly_cs L)) st)"
proof -
  let ?n = "length (ly_cs L)" and ?M = "pm_mem sm"
  obtain cvb pvb qs cbs sas where p: "holds M0 ([] @ all_parts L ?n [] cvb pvb qs cbs) ?M" "parts L ?n ?M [] st cvb pvb qs cbs sas"
    using parsed_end(1) [OF P] by (rule parsingE)
  have H: "holds M0 (all_parts L ?n [] cvb pvb qs cbs) ?M" and f: "fixed_ok L ?M"
    using p by (simp_all add: parts_def)
  note t = parsed_end(2) [OF P, unfolded same_text_def]
  note R = parts_roads [OF p(2) n]
  have X: "mem_blocks ?M (ly_matrix L) = Some (B_Matrix (map Some (ly_rows L)))"
    "mem_blocks ?M (ly_ans L) = Some (B_Map (ly_cv L) (ly_pv L) (ly_matrix L))" "mem_blocks ?M (ly_cities L) = Some (B_Cells (map Some (ly_cs L)))"
    using f by (simp_all add: fixed_ok_def)
  have T: "table ?M (ly_rows L) ?M (replicate ?n (replicate ?n 0))"
    by (rule start_table [OF f]) (use holdsD(1,2) [OF H] in \<open>simp_all add: all_parts_def fixed_def\<close>)
  have few: "vec_size (city_stock c) < 2147483648" if "c \<in> set (vlist (ps_cities st))" for c
  proof -
    have "ps_cities st = vec_of (vlist (ps_cities st))"
      using p(2) by (simp add: parts_def cities_done_def)
    then have "Some c \<in> set (vec_pointer (ps_cities st))"
      using that by (metis arr_of_def vec_of_def vector.select_convs(1) image_eqI list.set_map set_append UnI1)
    then show ?thesis
      using K by (auto simp: few_def)
  qed
  show ?thesis
  proof (rule implementsI)
    fix r
    assume "finish_map ?n st = Some r"
    then obtain m m' where m: "parse_roads (ps_cities st) (replicate ?n (replicate ?n 0)) (ps_text st) (ps_buffer st) (ps_aux st) = Some m"
      "floydMatrix m ?n = Some m'" "r = Some \<lparr>map_cities = ps_cities st, map_product = ps_products st, map_matrix = m'\<rparr>"
      by (auto simp: finish_map_def split: Option.bind_splits)
    obtain M2 where M2: "parse_roads_m (ly_ans L) (ps_text st) (ps_buffer st) (ps_aux st) ?M = Some M2" "table ?M (ly_rows L) M2 m"
      using implementsD [OF parse_roads_table [OF R T] m(1)] by blast
    obtain M3 where M3: "floydMatrix_m (ly_matrix L) ?n M2 = Some M3" "table ?M (ly_rows L) M3 m'"
      using implementsD [OF floydMatrix_table [OF M2(2) X(1)] m(2)] by blast
    have "mem_blocks M2 (ly_ans L) = Some (B_Map (ly_cv L) (ly_pv L) (ly_matrix L))" "mem_blocks M3 (ly_cities L) = Some (B_Cells (map Some (ly_cs L)))"
      using table_other [OF M2(2) X(2)] table_other [OF M3(2) X(3)] by simp_all
    moreover obtain M4 where M4: "free (ly_cities L) M3 = Some M4" "mem_blocks M4 = (mem_blocks M3)(ly_cities L := None)" "fresh_ok M4"
      using free_ok [of "ly_cities L" M3] f calculation(2) tableD(1) [OF M3(2)] by (auto simp: fixed_ok_def)
    ultimately have run: "finish_map_m (ly_ans L) ?n (ly_cities L) sm = Some M4"
      using t M2(1) M3(1) by (simp add: finish_map_m_def reading)
    let ?mp = "\<lparr>map_cities = ps_cities st, map_product = ps_products st, map_matrix = m'\<rparr>"
    have F: "finished L M4 cvb pvb qs cbs sas ?mp"
      by (rule finished_after [OF H p(2) M3(2) M4(2,3)])
    have "map_view M4 (ly_ans L) (ly_cs L) sas ?mp"
      by (rule finished_view [OF F n]) (simp add: few)
    moreover obtain bs where bs: "map_in M4 (ly_ans L) bs" "mset bs = mset (map_parts L cvb pvb qs cbs)"
      using finished_in [OF F n] few by auto
    moreover have "holds M0 bs M4"
      by (rule holds_perm [OF finished_frame(1) [OF H f M3(2) M4(2,3)]]) (simp add: bs(2))
    ultimately have "map_result M0 (ly_ans L, M4) r"
      using f m(3) unfolding map_result_def fixed_ok_def by auto
    with run show "\<exists>M'. finish_map_m (ly_ans L) ?n (ly_cities L) sm = Some M' \<and> map_result M0 (ly_ans L, M') r"
      by blast
  qed
qed

lemma fscanf_count_int:
  assumes "fscanf fmt_count t = Some (n, vals, t')" "stored_int vals None = Some c"
  shows "in_int c" "length t' \<le> length t"
proof -
  show "in_int c"
    using assms by (auto simp: formats stored_int_def split: scan.splits if_splits)
  show "length t' \<le> length t"
    using assms(1) fscanf_from_le unfolding fscanf_def by blast
qed

text \<open>A map file that is not there, or a negative number of cities: NULL, with everything given back.\<close>

lemma parseMap_m_NULL:
  assumes "begin_map al contents M = Some (Exit M')"
  shows "parseMap_m al contents M = Some (NULL, M')"
  by (simp add: parseMap_m_def assms or_exit_def)

lemma begin_map_no_file: "fresh_ok M \<Longrightarrow> \<exists>M'. begin_map al None M = Some (Exit M') \<and> mem_blocks M' = mem_blocks M"
proof -
  assume fresh: "fresh_ok M"
  have "leads (cleaned M (al \<noteq> [] \<or> (None :: string option) = None \<or> (0 :: int) < 0))
      (\<lambda>s. start_ok M al s \<and> (0 :: int) \<le> 0 \<and> st_counter s = nat 0 \<and> st_text s = []) (begin_map al None M)"
    by (rule begin_map_leads [OF fresh]) simp
  moreover have "begin_map al None M \<noteq> Some (Next s)" for s
    by (auto simp: begin_map_def open_map_def or_exit_def Let_def split: if_splits prod.splits Option.bind_splits option.splits flow.splits)
  ultimately show ?thesis
    by (auto simp: leads_def cleaned_def split: option.splits flow.splits)
qed

lemma parseMap_after:
  assumes S: "start_ok M [] s" "length (st_text s) \<le> K" "K < 2147483648" "st_counter s < 2147483648"
    and B: "begin_map [] contents M = Some (Next s)"
  shows "implements (map_result M) (parseMap_m [] contents M)
    (after_loop
       (parse_cities (st_counter s)
          \<lparr>ps_text = st_text s, ps_allocs = [], ps_first = True, ps_names = arr_new (st_counter s),
           ps_buffer = None, ps_aux = None, ps_cities = vec_of [], ps_products = vec_of []\<rparr>)
       (finish_map (st_counter s)))"
proof -
  let ?st = "\<lparr>ps_text = st_text s, ps_allocs = [], ps_first = True, ps_names = arr_new (st_counter s),
           ps_buffer = None, ps_aux = None, ps_cities = vec_of [], ps_products = vec_of []\<rparr>"
  let ?sm = "\<lparr>pm_text = st_text s, pm_allocs = st_allocs s, pm_first = True, pm_buffer = None, pm_aux = None, pm_mem = st_mem s\<rparr>"
  have al: "st_allocs s = []"
    using S(1) by (simp add: start_ok_def)
  obtain L where L: "st_ans s = ly_ans L" "st_cities s = ly_cities L" "st_counter s = length (ly_cs L)" "parsed L M K 0 ?sm ?st"
    using start_parsed [OF S(1,2)] al by auto
  have few: "few K ?st"
    using S(2) by (simp add: few_def vec_of_def arr_of_def vec_cap_def)
  show ?thesis
  proof (cases "parse_cities (st_counter s) ?st")
    case (Some r)
    then obtain st' sm' where r: "r = Next st'"
      "for_loop (length (ly_cs L)) 0 (parse_city_m (ly_ans L) (ly_cities L) (length (ly_cs L))) ?sm = Some (Next sm')"
      "parsed L M K (length (ly_cs L)) sm' st'"
      using parse_cities_held [OF L(4) S(3)] L(3) by metis
    have "few K st'"
      using parse_cities_few [OF few] Some r(1) by blast
    with finish_map_held [OF r(3) _ _ S(3)] S(4) L(3)
    have I: "implements (\<lambda>M' r. map_result M (ly_ans L, M') r) (finish_map_m (ly_ans L) (length (ly_cs L)) (ly_cities L) sm')
      (finish_map (length (ly_cs L)) st')"
      by simp
    have run: "parseMap_m [] contents M = finish_map_m (ly_ans L) (length (ly_cs L)) (ly_cities L) sm' \<bind> (\<lambda>M'. Some (ly_ans L, M'))"
      using r(2) by (cases "finish_map_m (ly_ans L) (length (ly_cs L)) (ly_cities L) sm'")
        (simp_all add: parseMap_m_def B or_exit_def L(1-3))
    show ?thesis
      unfolding run Some r(1) using implementsD [OF I] L(3) by (auto intro!: implementsI)
  qed simp
qed

lemma allocs_all: "allocs n [] = (True, [])"
  by (induction n) simp_all

lemma parseMap_implemented:
  assumes fresh: "fresh_ok M" and size: "case contents of None \<Rightarrow> True | Some t \<Rightarrow> length t < 2147483648"
  shows "implements (map_result M) (parseMap_m [] contents M) (parseMap [] contents)"
proof (cases contents)
  case None
  then show ?thesis
    using begin_map_no_file [OF fresh, of "[]"] by (auto simp: parseMap_def map_result_def parseMap_m_NULL)
next
  case (Some t)
  show ?thesis
  proof (cases "fscanf fmt_count t \<bind> (\<lambda>(_, vals, t'). stored_int vals None \<bind> (\<lambda>c. Some (c, t')))")
    case None
    then have "parseMap [] contents = None"
      by (cases "fscanf fmt_count t") (auto simp: parseMap_def Some split: Option.bind_splits)
    then show ?thesis
      by simp
  next
    case read: (Some ct)
    then obtain n vals t' c where f: "fscanf fmt_count t = Some (n, vals, t')" "stored_int vals None = Some c"
      by (auto split: Option.bind_splits)
    note ci = fscanf_count_int [OF f]
    have "case contents of None \<Rightarrow> True | Some t \<Rightarrow> fscanf fmt_count t = Some (n, vals, t') \<and> stored_int vals None = Some c"
      using Some f by simp
    note B = begin_map_leads [OF fresh this, of "[]"]
    show ?thesis
    proof (cases "c < 0")
      case True
      then obtain M' where "begin_map [] contents M = Some (Exit M')" "mem_blocks M' = mem_blocks M"
        using B by (auto simp: leads_def cleaned_def split: option.splits flow.splits)
      moreover have "parseMap [] contents = Some None"
        using f True Some by (simp add: parseMap_def)
      ultimately show ?thesis
        by (simp add: parseMap_m_NULL map_result_def)
    next
      case False
      then obtain s where s: "begin_map [] contents M = Some (Next s)" "start_ok M [] s" "st_counter s = nat c" "st_text s = t'"
        using B Some by (auto simp: leads_def cleaned_def split: option.splits flow.splits)
      have "parseMap [] contents = after_loop
          (parse_cities (st_counter s)
            \<lparr>ps_text = st_text s, ps_allocs = [], ps_first = True, ps_names = arr_new (st_counter s),
             ps_buffer = None, ps_aux = None, ps_cities = vec_of [], ps_products = vec_of []\<rparr>)
          (finish_map (st_counter s))"
        using f False Some s(3,4) by (simp add: parseMap_def allocs_all Let_def)
      moreover have "st_counter s < 2147483648" "length (st_text s) \<le> length t" "length t < 2147483648"
        using ci s(3,4) size Some False by (simp_all add: in_int_def INT_MIN_def INT_MAX_def nat_less_iff)
      ultimately show ?thesis
        using parseMap_after [OF s(2) _ _ _ s(1)] by simp
    qed
  qed
qed

section \<open>Allocations that fail\<close>

lemma begin_map_cleaned:
  assumes fresh: "fresh_ok M" and E: "begin_map al contents M = Some (Exit M')"
  shows "mem_blocks M' = mem_blocks M"
proof (cases contents)
  case None
  then show ?thesis
    using begin_map_no_file [OF fresh, of al] E by simp
next
  case (Some t)
  have O: "leads (cleaned M (al \<noteq> [] \<or> contents = None)) (map_opened M al contents) (open_map al contents M)"
    by (rule open_map_leads [OF fresh])
  show ?thesis
  proof (cases "open_map al contents M")
    case (Some r)
    show ?thesis
    proof (cases r)
      case (Exit x)
      then show ?thesis
        using O E Some by (simp add: begin_map_def or_exit_def cleaned_def)
    next
      case (Next x)
      then have "map_opened M al contents x"
        using O Some by simp
      then obtain ans al1 M1 where x: "x = (ans, t, al1, M1)"
        using \<open>contents = Some t\<close> by (auto simp: map_opened_def)
      have "\<exists>n vals t' c. fscanf fmt_count t = Some (n, vals, t') \<and> stored_int vals None = Some c"
        using E Some Next x by (auto simp: begin_map_def or_exit_def split: Option.bind_splits)
      then obtain n vals t' c where "fscanf fmt_count t = Some (n, vals, t')" "stored_int vals None = Some c"
        by blast
      then have "case contents of None \<Rightarrow> True | Some t \<Rightarrow> fscanf fmt_count t = Some (n, vals, t') \<and> stored_int vals None = Some c"
        using \<open>contents = Some t\<close> by simp
      from begin_map_leads [OF fresh this, of al] E show ?thesis
        by (simp add: cleaned_def)
    qed
  qed (use E in \<open>simp add: begin_map_def or_exit_def\<close>)
qed

lemma begin_map_start:
  assumes fresh: "fresh_ok M" and E: "begin_map al contents M = Some (Next s)"
  shows "start_ok M al s"
proof -
  obtain t n vals t' c where "contents = Some t" "fscanf fmt_count t = Some (n, vals, t')" "stored_int vals None = Some c"
  proof (cases contents)
    case None
    then show ?thesis
      using begin_map_no_file [OF fresh, of al] E by simp
  next
    case (Some t)
    have "leads (cleaned M (al \<noteq> [] \<or> contents = None)) (map_opened M al contents) (open_map al contents M)"
      by (rule open_map_leads [OF fresh])
    moreover obtain x where x: "open_map al contents M = Some (Next x)"
      using E by (auto simp: begin_map_def or_exit_def split: option.splits flow.splits)
    ultimately obtain ans al1 M1 where "x = (ans, t, al1, M1)"
      using Some by (auto simp: map_opened_def)
    then show thesis
      using that [OF Some] E x by (auto simp: begin_map_def or_exit_def split: Option.bind_splits)
  qed
  then have "case contents of None \<Rightarrow> True | Some t \<Rightarrow> fscanf fmt_count t = Some (n, vals, t') \<and> stored_int vals None = Some c"
    by simp
  from begin_map_leads [OF fresh this, of al] E show ?thesis
    by simp
qed

text \<open>The first allocation of the loop.\<close>

lemma first_name_fails:
  assumes "fresh_ok M" "begin_map al contents M = Some (Next s)" "0 < st_counter s" "st_allocs s = False # al'"
  shows "\<exists>M' bs. parseMap_m al contents M = Some (NULL, M') \<and> holds M bs M' \<and> length bs = 2 * st_counter s + 5"
proof -
  obtain cv product matrix rs cs where s: "length rs = st_counter s" "length cs = st_counter s"
    "holds M (product # rs @ matrix # cs @ [st_cities s, cv, st_ans s]) (st_mem s)"
    "array_ok (st_mem s) (st_ans s) cv (st_cities s) (st_counter s) cs"
    using begin_map_start [OF assms(1,2)] unfolding start_ok_def by blast
  let ?bs = "product # rs @ matrix # cs @ [st_cities s, cv, st_ans s]"
  have c: "mem_blocks (st_mem s) (st_cities s) = Some (B_Cells (map Some cs))" "mem_blocks (st_mem s) (cs ! 0) = Some (B_City NULL 0 NULL)"
    using s(2,4) assms(3) by (auto simp: array_ok_def arr_of_def)
  let ?M = "store (cs ! 0) (B_City NULL 0 NULL) (st_mem s)"
  let ?sm = "\<lparr>pm_text = st_text s, pm_allocs = st_allocs s, pm_first = True, pm_buffer = None, pm_aux = None, pm_mem = st_mem s\<rparr>"
  obtain n where n: "st_counter s = Suc n"
    using assms(3) by (cases "st_counter s") auto
  have "set_city (st_cities s) 0 (\<lambda>(_, k, s). (NULL, k, s)) (st_mem s) = Some ?M"
    using c s(2) assms(3) by (auto simp: set_city_def reading arr_get_def)
  then have "parse_city_m (st_ans s) (st_cities s) (st_counter s) 0 ?sm = Some (Exit ?M)"
    using assms(4) by (simp add: parse_city_m_def read_name_m_def or_exit_def malloc_def)
  then have "parseMap_m al contents M = Some (NULL, ?M)"
    by (simp add: parseMap_m_def or_exit_def assms(2) n)
  moreover have "holds M ?bs ?M"
    by (rule holds_store [OF s(3)]) (use s(2) assms(3) in simp)
  moreover have "length ?bs = 2 * st_counter s + 5"
    using s(1,2) by simp
  ultimately show ?thesis
    by blast
qed

end
