(* ===== verification/Properties_Building.thy ===== *)
theory Properties_Building
  imports Memory_Roads Properties_Parser
begin

text \<open>
  The properties of \<open>parseMap\<close> on memory: it builds in memory the map that Parser reads, and holds nothing else;
  what it gives back when an allocation fails, and what it does not.
\<close>

section \<open>An empty memory\<close>

definition empty_memory :: memory where
  "empty_memory = \<lparr>mem_blocks = (\<lambda>_. None), mem_next = 1, mem_fds = []\<rparr>"

lemma empty_fresh: "fresh_ok empty_memory"
  by (simp add: fresh_ok_def empty_memory_def)

section \<open>The map\<close>

text \<open>
  C20. \<open>parseMap\<close> on memory does what \<open>parseMap\<close> on values does, when no allocation fails: it returns NULL and leaves the
  memory as it was where that returns NULL, and otherwise returns a map whose view is the one read. The
  blocks of the map are then all it has taken: \<open>freeMap\<close> brings back the memory from before.
\<close>

theorem parseMap_in_memory:
  assumes "fresh_ok M" "case contents of None \<Rightarrow> True | Some t \<Rightarrow> length t < 2147483648" "parseMap [] contents = Some r"
  shows "\<exists>m M'. parseMap_m [] contents M = Some (m, M') \<and>
    (case r of
       None \<Rightarrow> m = NULL \<and> mem_blocks M' = mem_blocks M
     | Some mp \<Rightarrow> (\<exists>cas sas bs M''. map_view M' m cas sas mp \<and> map_in M' m bs \<and> without M' bs M \<and>
         freeMap m M' = Some M'' \<and> mem_blocks M'' = mem_blocks M))"
proof -
  obtain m M' where r: "parseMap_m [] contents M = Some (m, M')" "map_result M (m, M') r"
    using implementsD [OF parseMap_implemented [OF assms(1,2)] assms(3)] by auto
  have "\<exists>M''. freeMap m M' = Some M'' \<and> mem_blocks M'' = mem_blocks M" if "map_in M' m bs" "holds M bs M'" for bs
    by (rule holds_gives_back [OF that(2) freeMap_back [OF that(1)] refl])
  then show ?thesis
    using r by (auto simp: map_result_def holds_def split: option.splits)
qed

theorem parseMap_in_memory_witness:
  "\<exists>m M' M''. parseMap_m [] (Some sample_file) empty_memory = Some (m, M') \<and>
     (\<exists>cas sas mp. map_view M' m cas sas mp \<and> map_matrix mp = [[0, 7], [7, 0]]) \<and> freeMap m M' = Some M'' \<and> mem_blocks M'' = (\<lambda>_. None)"
proof -
  have "floydMatrix (road_matrix (map fst sample_cities) sample_connections) (length sample_cities) = Some [[0, 7], [7, 0]]"
    by code_simp
  then have "parseMap [] (Some sample_file) = Some (Some (described_map sample_cities [[0, 7], [7, 0]]))"
    by (simp add: parseMap_described [OF sample_file_ok sample_desc_ok(1)])
  from parseMap_in_memory [OF empty_fresh _ this] show ?thesis
    by (fastforce simp: sample_file_def newline_def described_map_def empty_memory_def)
qed

section \<open>Failing allocations\<close>

text \<open>The part before the loop over the cities goes on only after its allocations.\<close>

lemma allocs_add: "allocs m al = (True, al1) \<Longrightarrow> allocs n al1 = (True, al2) \<Longrightarrow> allocs (m + n) al = (True, al2)"
  by (induction m arbitrary: al) (auto split: prod.splits if_splits)

lemma allocs_one: "malloc b al M = (a, al', M') \<Longrightarrow> a \<noteq> NULL \<Longrightarrow> allocs (Suc 0) al = (True, al')"
  by (auto simp: malloc_def Let_def split: prod.splits if_splits)

lemma allocs_loop:
  assumes "for_loop n i body (al, M) = Some (Next (al', M'))"
    and "\<And>i al M al' M'. body i (al, M) = Some (Next (al', M')) \<Longrightarrow> allocs (Suc 0) al = (True, al')"
  shows "allocs n al = (True, al')"
  using assms(1)
proof (induction n arbitrary: i al M)
  case (Suc n)
  obtain al1 M1 where b: "body i (al, M) = Some (Next (al1, M1))" "for_loop n (Suc i) body (al1, M1) = Some (Next (al', M'))"
    using Suc.prems by (auto split: option.splits flow.splits)
  show ?case
    using allocs_add [OF assms(2) [OF b(1)] Suc.IH [OF b(2)]] by simp
qed simp

lemma open_map_allocs: "open_map al contents M = Some (Next (ans, t, al', M')) \<Longrightarrow> allocs 2 al = (True, al')"
  by (auto simp: open_map_def createVector_m_def Let_def numeral_2_eq_2 split: prod.splits if_splits option.splits Option.bind_splits
      dest!: allocs_one)

lemma take_cities_allocs: "take_cities ans n cities (al, M) = Some (Next (al', M')) \<Longrightarrow> allocs n al = (True, al')"
  unfolding take_cities_def
  by (erule allocs_loop) (auto simp: Let_def simp del: allocs.simps split: prod.splits if_splits Option.bind_splits dest: allocs_one)

lemma take_rows_allocs: "take_rows ans n cities matrix (al, M) = Some (Next (al', M')) \<Longrightarrow> allocs n al = (True, al')"
  unfolding take_rows_def
  by (erule allocs_loop) (auto simp: Let_def simp del: allocs.simps split: prod.splits if_splits Option.bind_splits dest: allocs_one)

lemma take_array_allocs:
  assumes "take_array ans c al M = Some (Next (cities, al', M'))"
  shows "0 \<le> c \<and> allocs (Suc 0 + nat c) al = (True, al')"
proof -
  obtain al1 M1 where c: "0 \<le> c" "malloc (B_Cells (arr_new (nat c))) al M = (cities, al1, M1)" "cities \<noteq> NULL"
    "take_cities ans (nat c) cities (al1, M1) = Some (Next (al', M'))"
    using assms by (auto simp: take_array_def or_exit_def Let_def split: prod.splits if_splits option.splits Option.bind_splits flow.splits)
  show ?thesis
    using c(1) allocs_add [OF allocs_one [OF c(2,3)] take_cities_allocs [OF c(4)]] by blast
qed

lemma take_matrix_allocs:
  assumes "take_matrix ans n cities al M = Some (Next (matrix, al', M'))"
  shows "allocs (Suc 0 + n) al = (True, al')"
proof -
  obtain al1 M1 M2 where c: "malloc (B_Matrix (replicate n (Some NULL))) al M = (matrix, al1, M1)" "matrix \<noteq> NULL"
    "take_rows ans n cities matrix (al1, M2) = Some (Next (al', M'))"
    using assms by (auto simp: take_matrix_def or_exit_def Let_def split: prod.splits if_splits option.splits Option.bind_splits flow.splits)
  show ?thesis
    using allocs_add [OF allocs_one [OF c(1,2)] take_rows_allocs [OF c(3)]] .
qed

lemma take_products_allocs:
  "take_products ans n cities matrix al M = Some (Next (al', M')) \<Longrightarrow> allocs (Suc 0) al = (True, al')"
  by (auto simp: take_products_def createVector_m_def Let_def simp del: allocs.simps
      split: prod.splits if_splits Option.bind_splits dest: allocs_one)

lemma begin_map_allocs:
  assumes "begin_map al contents M = Some (Next s)"
  shows "contents \<noteq> None \<and> fst (allocs (2 * st_counter s + 5) al)"
proof -
  obtain ans t al1 M1 n vals t' c cities al2 M2 matrix al3 M3 al4 M4 where
    o: "open_map al contents M = Some (Next (ans, t, al1, M1))" and
    c: "take_array ans c al1 M1 = Some (Next (cities, al2, M2))"
       "take_matrix ans (nat c) cities al2 M2 = Some (Next (matrix, al3, M3))"
       "take_products ans (nat c) cities matrix al3 M3 = Some (Next (al4, M4))" "st_counter s = nat c"
    using assms by (auto simp: begin_map_def or_exit_def split: prod.splits option.splits Option.bind_splits flow.splits)
  have "contents \<noteq> None"
    using o by (cases contents) (auto simp: open_map_def Let_def split: prod.splits if_splits Option.bind_splits)
  moreover have "allocs (((2 + (Suc 0 + nat c)) + (Suc 0 + nat c)) + Suc 0) al = (True, al4)"
    using open_map_allocs [OF o] take_array_allocs [OF c(1)] take_matrix_allocs [OF c(2)] take_products_allocs [OF c(3)] allocs_add by blast
  ultimately show ?thesis
    using c(4) by (simp add: mult_2 add.commute add.left_commute numeral_eq_Suc del: allocs.simps)
qed

text \<open>
  C32. When an allocation up to the loop over the cities fails (the map, two vectors, an array and an object for
  each city, a matrix and a row for each city: \<open>2 * c + 5\<close> of them), or there is no file, or the number of
  cities in it is negative, \<open>parseMap\<close> returns NULL, and has given back every block it took.
\<close>

theorem parseMap_early_failure:
  assumes "fresh_ok M"
    and "case contents of None \<Rightarrow> True | Some t \<Rightarrow> fscanf fmt_count t = Some (n, vals, t') \<and> stored_int vals None = Some c"
    and failure: "contents = None \<or> c < 0 \<or> \<not> fst (allocs (2 * nat c + 5) al)"
  shows "\<exists>M'. parseMap_m al contents M = Some (NULL, M') \<and> mem_blocks M' = mem_blocks M"
proof -
  note B = begin_map_leads [OF assms(1,2), of al]
  have "begin_map al contents M \<noteq> Some (Next s)" for s
    using B begin_map_allocs [of al contents M s] failure by auto
  then obtain M' where E: "begin_map al contents M = Some (Exit M')"
    using B by (cases "begin_map al contents M") (auto simp: leads_def split: flow.splits)
  show ?thesis
    using parseMap_m_NULL [OF E] begin_map_cleaned [OF assms(1) E] by blast
qed

theorem parseMap_early_failure_witness:
  "\<exists>M'. parseMap_m [True, True, True, True, False] (Some ''2'') empty_memory = Some (NULL, M') \<and> mem_blocks M' = (\<lambda>_. None)"
proof -
  have "fscanf fmt_count ''2'' = Some (1, [Num 2], [])" "\<not> fst (allocs (2 * nat 2 + 5) [True, True, True, True, False])"
    by code_simp+
  then have "\<exists>M'. parseMap_m [True, True, True, True, False] (Some ''2'') empty_memory = Some (NULL, M') \<and>
      mem_blocks M' = mem_blocks empty_memory"
    by (intro parseMap_early_failure [where n = 1 and vals = "[Num 2]" and t' = "[]" and c = 2, OF empty_fresh])
      (simp_all add: stored_int_def del: allocs.simps)
  then show ?thesis
    by (simp add: empty_memory_def)
qed

text \<open>
  C38. From the loop on, nothing is given back: when the block for the name of the first city cannot be had,
  \<open>parseMap\<close> returns NULL and the map, both vectors, both arrays, the objects of the cities and the rows of
  the matrix stay allocated, without a pointer to them.
\<close>

theorem parseMap_late_failure:
  assumes "fresh_ok M" "begin_map al contents M = Some (Next s)" "0 < st_counter s" "st_allocs s = False # al'"
  shows "\<exists>M' bs. parseMap_m al contents M = Some (NULL, M') \<and> without M' bs M \<and> distinct bs \<and> length bs = 2 * st_counter s + 5 \<and>
    (\<forall>a\<in>set bs. mem_blocks M' a \<noteq> None)"
proof -
  obtain M' bs where "parseMap_m al contents M = Some (NULL, M')" "holds M bs M'" "length bs = 2 * st_counter s + 5"
    using first_name_fails [OF assms] by blast
  then show ?thesis
    by (auto simp: holds_def)
qed

theorem parseMap_late_failure_witness:
  "\<exists>M' bs. parseMap_m [True, True, True, True, True, True, True, False] (Some ''1'') empty_memory = Some (NULL, M') \<and> length bs = 7 \<and>
     (\<forall>a\<in>set bs. mem_blocks M' a \<noteq> None)"
proof -
  let ?al = "[True, True, True, True, True, True, True, False]"
  have "case begin_map ?al (Some ''1'') empty_memory of Some (Next s) \<Rightarrow> st_counter s = 1 \<and> st_allocs s = [False] | _ \<Rightarrow> False"
    by code_simp
  then obtain s where s: "begin_map ?al (Some ''1'') empty_memory = Some (Next s)" "st_counter s = 1" "st_allocs s = [False]"
    by (auto split: option.splits flow.splits)
  from parseMap_late_failure [OF empty_fresh s(1) _ s(3)] s(2) show ?thesis
    by fastforce
qed

end
