(* ===== verification/Spec2Isabelle.thy ===== *)
theory Spec2Isabelle
  imports Properties_Map Properties_Data Properties_Queues Properties_Process Properties_Parser Properties_System
    Properties_Transport Properties_Whole Properties_Memory Properties_Pointers
    Properties_Failures Debug_Builds Wait_Builds Properties_Building
begin

text \<open>
  \<^bold>\<open>A simulation of airlines that deliver goods.\<close> The program reads a folder with a map (cities, the
  goods each wants, the roads between them) and one file per airline (its planes, the goods
  each carries), and plays turns until no city wants anything or 70000 turns are over.

  \<^bold>\<open>How it runs.\<close> \<open>main.c\<close> parses the folder, forks one process per airline and starts two threads
  of its own: the map (\<open>app/map.c\<close>) and the screen (\<open>app/output.c\<close>). An airline process
  (\<open>app/airline.c\<close>) has a listener and one thread per plane (\<open>app/plane.c\<close>). A turn has two
  phases. In the first (\<open>Step\<close>) every plane that stands in a city sends its stocks to the map,
  which gives the city what it wants and sends back what is left; in the second (\<open>Continue\<close>) every
  plane in a city asks where to go next and every plane in the air comes one step closer. The
  last plane of an airline that is ready with a phase reports to the map, which waits for all
  airlines. Messages between processes go through one of four interchangeable
  implementations of \<open>ipc/ipc.h\<close>; messages between the threads of a process through
  \<open>communication/msgqueue.c\<close>.

  \<^bold>\<open>Conventions\<close> (theories C\_Prelude, Fifo\_Interface). A result of type \<open>option\<close> is \<^const>\<open>None\<close>
  exactly when the code does something undefined (a NULL dereference, an index outside an
  array, an indeterminate value, a signed overflow) or can never return because of a mutex left
  locked. \<open>f x = Some y\<close> thus says that the call returns and what it returns; errors the code reports
  (-1, NULL) are ordinary results. Operations on things shared with another thread have an
  outcome: they wait (\<^const>\<open>Blocks\<close>), are undefined (\<^const>\<open>Faults\<close>) or return. The results of
  allocations and system calls that may fail at any time are lists of booleans which the calls
  consume; a property for all lists covers every pattern of failures. Loops are \<^const>\<open>for_loop\<close>, whose
  body goes on (\<^const>\<open>Next\<close>) or leaves (\<^const>\<open>Exit\<close>). An \<open>int\<close> is an \<open>int\<close> with the overflow of
  each addition checked.

  \<^bold>\<open>What models what.\<close>
  \<^item> C\_Prelude: C integers, arrays with indeterminate cells, \<open>malloc\<close>, loops and their rules.
  \<^item> Store\_Interface, Vector, Models: \<open>utils/vector.c\<close> behind the locale it promises to its users, and the
    data and functions of \<open>models/\<close>, as values.
  \<^item> Scanner, Parser, Parser\_Spec, Parsed\_Map: \<open>fscanf\<close> on characters, \<open>parser.c\<close>, the description
    language its files are written in, and what a described file is parsed to. Floyd: \<open>floydMatrix\<close>.
  \<^item> Messages: \<open>communication/types.h\<close> and \<open>marshall/\<close>.
  \<^item> Map\_Stocks, Map\_Unload, Map\_Destinations, Map\_Docking, Map\_Process: \<open>app/map.c\<close> and
    \<open>communication/map.c\<close>, from the single stock to the whole run.
  \<^item> Plane\_Thread: \<open>app/plane.c\<close>, \<open>communication/plane.c\<close>. Airline\_Process, Airline\_Start: \<open>app/airline.c\<close>,
    \<open>communication/airline.c\<close>.
  \<^item> Failing\_Reads: the loops of the map and of an airline when \<open>ipc_read\<close> fails, which neither looks at: the
    message read before is served again. Failing\_Allocations: a request of a plane when the allocations of the
    map fail, which \<open>initPlane\<close> does not look at either.
  \<^item> Process\_Steps, Map\_Steps: the loops of a plane and of the map cut at the points where they wait.
    Whole\_System puts all processes together with their queues, under every interleaving. Plane\_Moves and
    Map\_Moves say what an action is to the others; System\_Safety, System\_Invariant, System\_Termination and
    System\_Progress are about the processes of the simulation; System\_Queues bounds what lies in their queues.
  \<^item> Whole\_Program adds the output thread to them, with the queue of ten cells between map and screen and the
    semaphore \<open>outputSem\<close>, on which the map waits before each turn and which the screen posts for each map status,
    up to the end of \<open>start_simulation\<close>. Program\_Invariant, Program\_Progress and Program\_Folder (from the
    folder to that start) are about it. Screen\_Contents says what stands on the screen.
  \<^item> Memory\_Model: a heap of blocks behind addresses. Free\_Functions: the \<open>free...\<close> functions.
    Process\_Ends: the end of \<open>main\<close>, of the children and of the threads of an airline. Memory\_Views: how the values
    of the theories above lie in memory, and when a function on pointers implements one on values.
    Memory\_Unload, Memory\_Planes, Memory\_Scores, Memory\_Map: \<open>runMap\<close> and all it calls on that memory, with
    every \<open>malloc\<close>, \<open>realloc\<close> and \<open>free\<close>.
  \<^item> Memory\_Parser: \<open>parseMap\<close> on that memory. Memory\_Building: what it takes before the loop over the cities, and
    that its error paths give it back. Memory\_Parsed, Memory\_Cities: the loop holds exactly the blocks of what it
    has read. Memory\_Roads: the connections, the distances and the finished map.
  \<^item> Fifo\_Interface: the locales \<open>channel\<close> and \<open>bounded_fifo\<close> that all queues fulfil. MsgQueue
    (\<open>communication/msgqueue.c\<close>), Packets, Shmem, Shmem\_Processes, Shmem\_Open (\<open>ipc/shmem.c\<close>),
    Named\_Pipes (\<open>ipc/fifo.c\<close>), Datagram\_Sockets (\<open>ipc/socket.c\<close>), Posix\_Queues (\<open>ipc/mqueue.c\<close>).
  \<^item> Semaphores (\<open>utils/sem.c\<close>), Logging (\<open>util.c\<close>), Signals (\<open>app/signal.c\<close>), Output\_Thread and
    Map\_Display (\<open>app/output.c\<close> and what the map tells it), Start\_Up (\<open>app/main.c\<close>). Debug\_Builds: what
    \<open>DEBUG\<close> and \<open>VERBOSE\<close> add. Wait\_Builds: what \<open>WAIT\<close> changes.
  \<^item> Properties\_Map, \_Data, \_Queues, \_Process, \_Parser, \_System, \_Transport, \_Whole, \_Memory, \_Pointers,
    \_Failures, \_Building and this theory: the properties, with a witness for each that has hypotheses.

  \<^bold>\<open>What the lemmas show.\<close> For the data structures: their invariants, that every operation keeps
  them, and what it computes on lists (\<open>..._refines\<close>, \<open>..._list\<close>). For the map: the loops of the code agree
  with the specifications \<open>unload\<close>, \<open>city_score\<close>, \<open>best_of\<close>, \<open>demand\<close>; goods are conserved and the
  demand only falls. For the parser: it reads back what a description says, in every layout. For
  the queues: they refine a bounded list, and their threads lose no wake-up. For the processes:
  the barrier of an airline reports once per phase; the small steps are the
  loops of the code. For the whole program, screen and semaphore included: no step does anything undefined
  (\<open>program_safe\<close>), no order of steps goes on for ever (\<open>program_terminates\<close>), without failing calls
  it waits for ever only after its end (\<open>program_stops_only_at_end\<close>), and the map is at most one turn ahead of
  the screen (\<open>program_pace\<close>). For the memory: \<open>runMap\<close> on
  pointers does what \<open>runMap\<close> on values does and leaves no block of a request behind
  (\<open>runMap_in_memory\<close>), and at the end every block is given back once. \<open>parseMap\<close> on pointers builds the map that
  \<open>parseMap\<close> on values returns and holds no other block (\<open>parseMap_in_memory\<close>).

  \<^bold>\<open>Bounds and fuel.\<close> \<open>runMap\<close> is run with 70000 turns, the limit in \<open>endSimulation\<close>, and never returns for
  lack of them (\<open>runMap_result\<close>). \<open>run_plane n\<close> needs one turn per message (\<open>run_plane_enough_turns\<close>).
  The search of \<open>ipc_sem_create\<close> ends because the table of semaphores is finite. All other loops are
  structural.

  \<^bold>\<open>Not modelled.\<close> The tests. What ncurses paints and where in its row a text stands; how \<open>printf\<close> formats
  the lines of the log. The scheduling and the attributes of threads, which pthreads
  decides. \<open>parseAirlines\<close> on pointers. That \<open>parseMap\<close> on pointers refines the one on values
  is shown for runs in which no allocation fails; of the others, what is given back before the loop over the cities and what
  is not at its start. The layout of structs in memory, beyond which pointers a block holds.
  Interrupted system calls are failing reads (Failing\_Reads) and not part of the whole program, where a read
  returns a message or waits, and where the map's own allocations succeed; the threads of the planes may
  meet failing writes and allocations there. Start\_Up composes the functions of \<open>main\<close> one after the other; who
  waits for whom is in Whole\_Program. System calls behave as their manual pages say.
\<close>

section \<open>A plane unloads: three processes together\<close>

text \<open>
  C6. The whole exchange when a plane unloads: the request its thread sends, the map's
  \<open>handle_unload\<close>, the reply passed on by the airline's listener, and the thread storing it.
  The exchange goes through without a fault; the plane afterwards holds exactly what the map
  computed to be left; what the plane lost is what the demand of the map went down by; and
  the plane is done exactly when it holds nothing (or was done before).
\<close>

theorem unload_exchange:
  assumes plane: "plane_stocks (pt_plane pst) = vec_of ss" "length ss \<le> MAX_STOCKS"
      "plane_cityId (pt_plane pst) = int i" "plane_id (pt_plane pst) = int p" "pt_airline pst = int a"
      "pt_allocs pst = []" "pt_writes pst = []"
    and map: "sim_wf (ms_map mst)" "conns_wf conns n" "a < n" "i < length (vlist (map_cities (ms_map mst)))"
      "stocks_known (map_product (ms_map mst)) ss" "ms_writes mst = []"
    and airline: "airline_wf ast" "p < length (slots ast)"
  shows "\<exists>mst' reply ast' out pst'.
    handle_unload conns (unload_request pst) mst = Some mst' \<and>
    ms_sent mst' = ms_sent mst @ [(a, MM_Stock reply)] \<and>
    listen_one (MM_Stock reply) ast = Some (Next ast') \<and>
    sl_pushed (slots ast' ! p) = sl_pushed (slots ast ! p) @ [out] \<and>
    unload_stock (pst\<lparr>pt_inbox := [out]\<rparr>) = Returns (Next (0, pst')) \<and>
    demand (ms_map mst) - demand (ms_map mst') =
      total_amount ss - total_amount (vlist (plane_stocks (pt_plane pst'))) \<and>
    ss_stocks reply = part_of (vlist (plane_stocks (pt_plane pst'))) \<and>
    (pt_done pst' \<longleftrightarrow> pt_done pst \<or> satisfied (vlist (plane_stocks (pt_plane pst'))))"
proof -
  let ?u = "unload (stocks_at (ms_map mst) i) ss"
  let ?left = "snd ?u"
  let ?m' = "map_with_stock (ms_map mst) i (fst ?u)"
  let ?req = "unload_request pst"
  let ?reply = "\<lparr>ss_header = prepare_header (int a) (int p) (int i) MessageTypeUnloadStock, ss_stocks = part_of ?left\<rparr>"
  have wf: "list_all stock_wf ss"
    using map(5) by (simp add: stocks_known_def list_all_iff)
  have req: "hdr_cityId (ss_header ?req) = int i" "hdr_airline (ss_header ?req) = int a"
    "hdr_id (ss_header ?req) = int p" "ss_stocks ?req = part_of ss"
    by (simp_all add: unload_request_def prepare_header_def plane)
  note h = handle_unload_ok [OF map(1,2) req(1) map(4) _ _ req(4) plane(2) map(5)]
  let ?mst' = "snd (transmit a (MM_Stock ?reply) (mst\<lparr>ms_map := ?m'\<rparr>))"
  have handled: "handle_unload conns ?req mst = Some ?mst'"
    and dem: "demand (ms_map mst) - demand ?m' = total_amount ss - total_amount ?left"
    using h map(3) by (simp_all add: req)
  have sent: "ms_sent ?mst' = ms_sent mst @ [(a, MM_Stock ?reply)]" "ms_map ?mst' = ?m'"
    by (simp_all add: transmit_def map(6))
  let ?as = "map stock_amount ?left"
  have left: "list_all stock_wf ?left" "map stock_product ?left = map stock_product ss"
    using unload_wf [OF _ wf] sim_wfD(1,5) [OF map(1)] map(4) unload_product
      dockedD(6) [of "ms_map mst" "blank_plane\<lparr>plane_stocks := vec_of ss, plane_cityId := int i\<rparr>" i] wf plane(2)
    by (auto simp: docked_def stocks_wf_def MAX_STOCKS_def)
  have same: "with_amounts ss ?as = ?left"
    using left(2) by (intro nth_equalityI) (auto simp: with_amounts_def list_eq_iff_nth_eq intro!: stock.equality)
  let ?out = "stock_reply ?as"
  obtain ts where ts: "al_threads ast = vec_of ts" "length ts < 2147483648" "p < length ts"
    using airline by (auto simp: airline_wf_def elim: vec_invE)
  let ?ast' = "ast\<lparr>al_threads := vec_of (ts[p := push_slot ?out (ts ! p)])\<rparr>"
  have listened: "listen_one (MM_Stock ?reply) ast = Some (Next ?ast')"
    using ts by (simp add: listen_one_def redirect_stock_message_def prepare_header_def stock_reply_def part_of_def)
  have pushed: "sl_pushed (slots ?ast' ! p) = sl_pushed (slots ast ! p) @ [?out]"
    using ts by (simp add: push_slot_def)
  obtain pst' where pst': "unload_stock (pst\<lparr>pt_inbox := [?out]\<rparr>) = Returns (Next (0, pst'))"
    "plane_stocks (pt_plane pst') = vec_of ?left" "pt_done pst' = (pt_done pst \<or> satisfied ?left)"
    using unload_stock_reply [of "pst\<lparr>pt_inbox := [?out]\<rparr>" ss ?as "[]"] plane wf left(1) same
    by (auto simp: satisfied_def list_all_iff stock_wf_def)
  show ?thesis
    using handled sent listened pushed pst' dem
    by (intro exI [of _ ?mst'] exI [of _ ?reply] exI [of _ ?ast'] exI [of _ ?out] exI [of _ pst']) simp
qed

theorem unload_exchange_witness:
  "\<exists>mst' pst' out. handle_unload (vec_of [0]) (unload_request (demo_thread 0 [])) demo_state = Some mst' \<and>
    unload_stock (demo_thread 0 [out]) = Returns (Next (0, pst')) \<and>
    demand demo_map - demand (ms_map mst') = 10 - total_amount (vlist (plane_stocks (pt_plane pst')))"
proof -
  have "conns_wf (vec_of [0]) 1"
    by (simp add: conns_wf_def upt_rec)
  then have "\<exists>mst' reply ast' out pst'.
    handle_unload (vec_of [0]) (unload_request (demo_thread 0 [])) demo_state = Some mst' \<and>
    ms_sent mst' = ms_sent demo_state @ [(0, MM_Stock reply)] \<and>
    listen_one (MM_Stock reply) (demo_airline [True, True, True, False]) = Some (Next ast') \<and>
    sl_pushed (slots ast' ! 3) = sl_pushed (slots (demo_airline [True, True, True, False]) ! 3) @ [out] \<and>
    unload_stock (demo_thread 0 []\<lparr>pt_inbox := [out]\<rparr>) = Returns (Next (0, pst')) \<and>
    demand (ms_map demo_state) - demand (ms_map mst') =
      total_amount [demo_stock 0 10] - total_amount (vlist (plane_stocks (pt_plane pst'))) \<and>
    ss_stocks reply = part_of (vlist (plane_stocks (pt_plane pst'))) \<and>
    (pt_done pst' \<longleftrightarrow> pt_done (demo_thread 0 []) \<or> satisfied (vlist (plane_stocks (pt_plane pst'))))"
    using demo_wf demo_known [of 10]
    by (intro unload_exchange [where i = 0 and n = 1])
      (simp_all add: demo_thread_def demo_state_def demo_airline_def airline_wf_def MAX_STOCKS_def)
  then show ?thesis
    by (auto simp: demo_state_def demo_thread_def total_amount_def demo_stock_def)
qed

end
